(* ===== verification/Ndf_Prelude.thy ===== *)
theory Ndf_Prelude
  imports Main "HOL-Library.Word" "HOL-Library.Monad_Syntax"
begin

unbundle bit_operations_syntax

text \<open>
  Shared vocabulary of the development: the C integer types as machine words, byte buffers with
  checked loads, the C library routines on characters and strings that the sources call, the
  outcome of DPDK memory allocation as an explicit parameter, and the generic lemmas on lists,
  options and words that the component theories use.

  Conventions used by every theory:
  \<^item> a C pointer into a buffer is an offset into a byte list, \<open>NULL\<close> is \<^term>\<open>None\<close>;
  \<^item> a computation that may access memory outside an object, or use a freed object, has a result
    of type \<^typ>\<open>'a option\<close> in which \<^term>\<open>None\<close> stands for undefined behaviour of the C program;
    error returns of the code are ordinary values;
  \<^item> logging (\<^verbatim>\<open>RTE_LOG\<close>, \<^verbatim>\<open>printf\<close>) and the counters that only feed log lines are left out.
\<close>

section \<open>Machine types and byte buffers\<close>

type_synonym u8 = "8 word"
type_synonym u16 = "16 word"
type_synonym u32 = "32 word"
type_synonym u64 = "64 word"
type_synonym bytes = "u8 list"

named_theorems rd_simps \<open>when checked loads succeed, and what they return\<close>
named_theorems word_nat \<open>unsigned values of word expressions\<close>

definition rd8 :: "bytes \<Rightarrow> nat \<Rightarrow> u8 option" where
  "rd8 buf i = (if i < length buf then Some (buf ! i) else None)"

definition be16 :: "u8 \<Rightarrow> u8 \<Rightarrow> u16" where
  "be16 hi lo = (push_bit 8 (ucast hi) OR ucast lo)"

definition be32 :: "u8 \<Rightarrow> u8 \<Rightarrow> u8 \<Rightarrow> u8 \<Rightarrow> u32" where
  "be32 a b c d = (push_bit 24 (ucast a) OR push_bit 16 (ucast b) OR push_bit 8 (ucast c) OR ucast d)"

definition rd_be16 :: "bytes \<Rightarrow> nat \<Rightarrow> u16 option" where
  "rd_be16 buf i = do { h \<leftarrow> rd8 buf i; l \<leftarrow> rd8 buf (i + 1); Some (be16 h l) }"

definition rd_be32 :: "bytes \<Rightarrow> nat \<Rightarrow> u32 option" where
  "rd_be32 buf i = do { a \<leftarrow> rd8 buf i; b \<leftarrow> rd8 buf (i + 1); c \<leftarrow> rd8 buf (i + 2);
     d \<leftarrow> rd8 buf (i + 3); Some (be32 a b c d) }"

text \<open>A raw 32-bit load on the little-endian target (x86, see \<^verbatim>\<open>-march=native\<close> and the SSE flags
  of \<^verbatim>\<open>src/CMakeLists.txt\<close>).\<close>

definition rd_le32 :: "bytes \<Rightarrow> nat \<Rightarrow> u32 option" where
  "rd_le32 buf i = do { a \<leftarrow> rd8 buf i; b \<leftarrow> rd8 buf (i + 1); c \<leftarrow> rd8 buf (i + 2);
     d \<leftarrow> rd8 buf (i + 3); Some (be32 d c b a) }"

definition bslice :: "'a list \<Rightarrow> nat \<Rightarrow> nat \<Rightarrow> 'a list" where
  "bslice xs i n = take n (drop i xs)"

definition rd_slice :: "bytes \<Rightarrow> nat \<Rightarrow> nat \<Rightarrow> bytes option" where
  "rd_slice buf i n = (if i + n \<le> length buf then Some (bslice buf i n) else None)"

section \<open>DPDK memory allocation\<close>

text \<open>
  \<^verbatim>\<open>rte_malloc\<close> and its kin belong to DPDK. The \<open>n\<close>-th allocation of a run succeeds when
  \<open>malloc_ok\<close> says so, and a block that is not zeroed starts with the bytes \<open>malloc_junk\<close> gives.
\<close>

record rte_env =
  malloc_ok :: "nat \<Rightarrow> bool"
  malloc_junk :: "nat \<Rightarrow> nat \<Rightarrow> u8"

definition fresh_block :: "rte_env \<Rightarrow> nat \<Rightarrow> nat \<Rightarrow> bytes" where
  "fresh_block env n sz = map (malloc_junk env n) [0..<sz]"

text \<open>\<^verbatim>\<open>rte_malloc\<close> documents that it returns \<^verbatim>\<open>NULL\<close> for a size of 0.\<close>

definition rte_malloc_ok :: "rte_env \<Rightarrow> nat \<Rightarrow> nat \<Rightarrow> bool" where
  "rte_malloc_ok env n sz \<longleftrightarrow> sz \<noteq> 0 \<and> malloc_ok env n"

text \<open>\<open>blit dst at src n\<close> is \<^verbatim>\<open>memcpy(dst + at, src, n)\<close>: undefined when it leaves either block.
  \<open>blk_shift blk k n\<close> is \<^verbatim>\<open>memmove(blk, blk + k, n)\<close>.\<close>

definition blit :: "bytes \<Rightarrow> nat \<Rightarrow> bytes \<Rightarrow> nat \<Rightarrow> bytes option" where
  "blit dst at src n =
    (if at + n \<le> length dst \<and> n \<le> length src
     then Some (take at dst @ take n src @ drop (at + n) dst) else None)"

definition blk_shift :: "bytes \<Rightarrow> nat \<Rightarrow> nat \<Rightarrow> bytes option" where
  "blk_shift blk k n = (if k + n \<le> length blk then Some (bslice blk k n @ drop n blk) else None)"

section \<open>Characters and strings of the C library\<close>

definition c_tolower :: "u8 \<Rightarrow> u8" where
  "c_tolower b = (if 65 \<le> b \<and> b \<le> 90 then b + 32 else b)"

definition c_isprint :: "u8 \<Rightarrow> bool" where
  "c_isprint b \<longleftrightarrow> 32 \<le> b \<and> b \<le> 126"

definition c_isdigit :: "u8 \<Rightarrow> bool" where
  "c_isdigit b \<longleftrightarrow> 48 \<le> b \<and> b \<le> 57"

definition str :: "string \<Rightarrow> bytes" where
  "str s = map of_char s"

definition c_strcasecmp_eq :: "bytes \<Rightarrow> bytes \<Rightarrow> bool" where
  "c_strcasecmp_eq s t \<longleftrightarrow> map c_tolower s = map c_tolower t"

text \<open>\<open>prefix_by f pat s\<close>: the string \<open>s\<close> starts with \<open>pat\<close> after both are mapped by \<open>f\<close>;
  \<open>contains_by\<close> is the search loop of \<^verbatim>\<open>strstr\<close> (\<open>f = id\<close>) and \<^verbatim>\<open>strcasestr\<close> (\<open>f = c_tolower\<close>).\<close>

fun prefix_by :: "('a \<Rightarrow> 'b) \<Rightarrow> 'a list \<Rightarrow> 'a list \<Rightarrow> bool" where
  "prefix_by f [] s = True"
| "prefix_by f (p # ps) [] = False"
| "prefix_by f (p # ps) (c # cs) = (f p = f c \<and> prefix_by f ps cs)"

fun contains_by :: "('a \<Rightarrow> 'b) \<Rightarrow> 'a list \<Rightarrow> 'a list \<Rightarrow> bool" where
  "contains_by f pat [] = prefix_by f pat []"
| "contains_by f pat (c # cs) = (prefix_by f pat (c # cs) \<or> contains_by f pat cs)"

definition c_strstr :: "bytes \<Rightarrow> bytes \<Rightarrow> bool" where
  "c_strstr hay needle = contains_by id needle hay"

definition c_strcasestr :: "bytes \<Rightarrow> bytes \<Rightarrow> bool" where
  "c_strcasestr hay needle = contains_by c_tolower needle hay"

section \<open>Lemmas on checked loads\<close>

lemma rd8_Some [rd_simps]: "i < length buf \<Longrightarrow> rd8 buf i = Some (buf ! i)"
  by (simp add: rd8_def)

lemma rd8_None [rd_simps]: "length buf \<le> i \<Longrightarrow> rd8 buf i = None"
  by (simp add: rd8_def)

lemma rd8_eq_Some [simp]: "rd8 buf i = Some b \<longleftrightarrow> i < length buf \<and> buf ! i = b"
  by (auto simp: rd8_def)

lemma rd8_eq_None [simp]: "rd8 buf i = None \<longleftrightarrow> length buf \<le> i"
  by (auto simp: rd8_def)

lemma rd_be16_Some [rd_simps]:
  "i + 1 < length buf \<Longrightarrow> rd_be16 buf i = Some (be16 (buf ! i) (buf ! (i + 1)))"
  by (simp add: rd_be16_def rd8_Some)

lemma rd_be16_None [rd_simps]: "length buf \<le> i + 1 \<Longrightarrow> rd_be16 buf i = None"
  by (cases "i < length buf") (simp_all add: rd_be16_def rd8_def)

lemma rd_be16_eq_None: "rd_be16 buf i = None \<longleftrightarrow> length buf \<le> i + 1"
  by (cases "i + 1 < length buf") (auto simp: rd_simps)

lemma rd_be32_Some [rd_simps]:
  "i + 3 < length buf \<Longrightarrow>
   rd_be32 buf i = Some (be32 (buf ! i) (buf ! (i + 1)) (buf ! (i + 2)) (buf ! (i + 3)))"
  by (simp add: rd_be32_def rd8_Some)

lemma rd_le32_Some [rd_simps]:
  "i + 3 < length buf \<Longrightarrow>
   rd_le32 buf i = Some (be32 (buf ! (i + 3)) (buf ! (i + 2)) (buf ! (i + 1)) (buf ! i))"
  by (simp add: rd_le32_def rd8_Some)

lemma rd_slice_Some [rd_simps]: "i + n \<le> length buf \<Longrightarrow> rd_slice buf i n = Some (bslice buf i n)"
  by (simp add: rd_slice_def)

lemma length_bslice [simp]: "length (bslice xs i n) = min n (length xs - i)"
  by (simp add: bslice_def)

lemma nth_bslice: "j < n \<Longrightarrow> i + j < length xs \<Longrightarrow> bslice xs i n ! j = xs ! (i + j)"
  by (simp add: bslice_def)

lemma length_fresh_block [simp]: "length (fresh_block env n sz) = sz"
  by (simp add: fresh_block_def)

lemma blit_Some [rd_simps]:
  "at + n \<le> length dst \<Longrightarrow> n \<le> length src \<Longrightarrow>
   blit dst at src n = Some (take at dst @ take n src @ drop (at + n) dst)"
  by (simp add: blit_def)

lemma blit_length: "blit dst at src n = Some r \<Longrightarrow> length r = length dst"
  by (auto simp: blit_def split: if_splits)

lemma blit_nth:
  "blit dst at src n = Some r \<Longrightarrow> i < length dst \<Longrightarrow>
   r ! i = (if at \<le> i \<and> i < at + n then src ! (i - at) else dst ! i)"
  by (auto simp: blit_def nth_append split: if_splits)

lemma blk_shift_Some [rd_simps]:
  "k + n \<le> length blk \<Longrightarrow> blk_shift blk k n = Some (bslice blk k n @ drop n blk)"
  by (simp add: blk_shift_def)

lemma blk_shift_length: "blk_shift blk k n = Some r \<Longrightarrow> length r = length blk"
  by (auto simp: blk_shift_def split: if_splits)

lemma blk_shift_nth: "blk_shift blk k n = Some r \<Longrightarrow> i < n \<Longrightarrow> r ! i = blk ! (k + i)"
  by (auto simp: blk_shift_def nth_append nth_bslice split: if_splits)

section \<open>Lemmas on words\<close>

lemma unat_u8_lt: "unat (b :: u8) < 256"
  using unsigned_less [of b] by simp

lemma unat_u16_lt: "unat (w :: u16) < 65536"
  using unsigned_less [of w] by simp

lemma unat_u32_lt: "unat (w :: u32) < 4294967296"
  using unsigned_less [of w] by simp

lemma unat_of_nat_u16 [word_nat]: "n < 65536 \<Longrightarrow> unat (of_nat n :: u16) = n"
  by (simp add: unsigned_of_nat take_bit_nat_eq_self)

lemma unat_of_nat_u32 [word_nat]: "n < 4294967296 \<Longrightarrow> unat (of_nat n :: u32) = n"
  by (simp add: unsigned_of_nat take_bit_nat_eq_self)

lemma unat_ucast_u16_u32 [simp, word_nat]: "unat (ucast (l :: u16) :: u32) = unat l"
proof -
  have "unat l < 2 ^ 32"
    using unat_u16_lt [of l] by simp
  then show ?thesis
    by (simp add: unsigned_ucast_eq take_bit_nat_eq_self)
qed

lemma be16_split: "be16 (ucast (drop_bit 8 w)) (ucast w) = w"
  unfolding be16_def by (rule bit_word_eqI) (auto simp: bit_simps)

lemma unat_be16 [word_nat]: "unat (be16 a b) = 256 * unat a + unat b"
proof -
  have "bit b n \<Longrightarrow> n < 8" for n
    using bit_imp_le_length [of b n] by simp
  then have "bit b n \<Longrightarrow> \<not> 8 \<le> n" for n
    by (meson not_less)
  then have "be16 a b = push_bit 8 (ucast a) + ucast b"
    unfolding be16_def
    by (intro disjunctive_add_eq_or [symmetric] bit_eqI) (auto simp: bit_simps)
  then have "be16 a b = word_of_nat (256 * unat a + unat b)"
    by (simp add: push_bit_eq_mult mult.commute)
  moreover have "256 * unat a + unat b < 65536"
    using unat_u8_lt [of a] unat_u8_lt [of b] by simp
  ultimately show ?thesis
    by (metis unat_of_nat_u16)
qed

lemma digits_inj:
  fixes x y u v :: nat
  assumes "256 * x + y = 256 * u + v" "y < 256" "v < 256"
  shows "x = u \<and> y = v"
proof -
  have "x = (256 * x + y) div 256" "u = (256 * u + v) div 256"
    using assms(2,3) by simp_all
  then have "x = u"
    using assms(1) by metis
  then show ?thesis
    using assms(1) by simp
qed

lemma be16_inj: "be16 a b = be16 c d \<longleftrightarrow> a = c \<and> b = d"
  using digits_inj [of "unat a" "unat b" "unat c" "unat d"]
  by (metis unat_be16 unat_u8_lt word_unat_eq_iff)

section \<open>Machines with an invariant\<close>

text \<open>
  A component with state is a step function on operations; \<^term>\<open>None\<close> is undefined behaviour.
  A run is legal when every operation satisfies its precondition in the state it meets.
\<close>

fun run_ops :: "('op \<Rightarrow> 's \<Rightarrow> 's option) \<Rightarrow> 'op list \<Rightarrow> 's \<Rightarrow> 's option" where
  "run_ops step [] s = Some s"
| "run_ops step (x # xs) s = Option.bind (step x s) (run_ops step xs)"

fun legal_run :: "('op \<Rightarrow> 's \<Rightarrow> 's option) \<Rightarrow> ('op \<Rightarrow> 's \<Rightarrow> bool) \<Rightarrow> 'op list \<Rightarrow> 's \<Rightarrow> bool" where
  "legal_run step legal [] s = True"
| "legal_run step legal (x # xs) s =
    (legal x s \<and> (case step x s of None \<Rightarrow> True | Some s' \<Rightarrow> legal_run step legal xs s'))"

lemma legal_run_always: "(\<And>x s. x \<in> set xs \<Longrightarrow> legal x s) \<Longrightarrow> legal_run step legal xs s"
  by (induction xs arbitrary: s) (auto split: option.splits)

locale guarded_machine =
  fixes step :: "'op \<Rightarrow> 's \<Rightarrow> 's option"
    and legal :: "'op \<Rightarrow> 's \<Rightarrow> bool"
    and inv :: "'s \<Rightarrow> bool"
  assumes step_inv: "inv s \<Longrightarrow> legal x s \<Longrightarrow> \<exists>s'. step x s = Some s' \<and> inv s'"
begin

lemma run_safe:
  "inv s \<Longrightarrow> legal_run step legal xs s \<Longrightarrow> \<exists>s'. run_ops step xs s = Some s' \<and> inv s'"
proof (induction xs arbitrary: s)
  case (Cons x xs)
  then obtain s1 where "step x s = Some s1" "inv s1"
    using step_inv [of s x] by auto
  then show ?case
    using Cons by auto
qed auto

lemma run_inv: "inv s \<Longrightarrow> legal_run step legal xs s \<Longrightarrow> run_ops step xs s = Some s' \<Longrightarrow> inv s'"
  using run_safe by fastforce

end

text \<open>The same for components whose operations are always allowed and never undefined.\<close>

locale total_machine =
  fixes tstep :: "'op \<Rightarrow> 's \<Rightarrow> 's"
    and tinv :: "'s \<Rightarrow> bool"
  assumes tstep_inv: "tinv s \<Longrightarrow> tinv (tstep x s)"
begin

lemma fold_inv: "tinv s \<Longrightarrow> tinv (fold tstep xs s)"
  by (induction xs arbitrary: s) (auto simp: tstep_inv)

end

sublocale total_machine \<subseteq> guarded_machine "\<lambda>x s. Some (tstep x s)" "\<lambda>_ _. True" tinv
  by unfold_locales (simp add: tstep_inv)

end
