(* ===== verification/App_Proto.thy ===== *)
theory App_Proto
  imports Ndf_Prelude
begin

text \<open>
  \<^verbatim>\<open>src/src/app_proto.c\<close> and \<^verbatim>\<open>app_proto.h\<close>: the enumeration of application protocols, its two
  tables (names and default ports), the conversions between protocols and names, and the inline
  predicates of the header. The enumeration is a datatype with the source's constructors and the
  order of its values.
\<close>

section \<open>The enumerations\<close>

datatype app_proto =
    APP_PROTO_UNKNOWN | APP_PROTO_HTTP | APP_PROTO_TLS | APP_PROTO_DNS
  | APP_PROTO_SMTP | APP_PROTO_IMAP | APP_PROTO_POP3 | APP_PROTO_FTP
  | APP_PROTO_FTP_DATA | APP_PROTO_SSH | APP_PROTO_TELNET | APP_PROTO_MYSQL
  | APP_PROTO_PGSQL | APP_PROTO_REDIS | APP_PROTO_MQTT | APP_PROTO_AMQP
  | APP_PROTO_SMB | APP_PROTO_NFS | APP_PROTO_DHCP | APP_PROTO_FAILED
  | APP_PROTO_MAX

datatype proto_confidence =
    PROTO_CONFIDENCE_LOW | PROTO_CONFIDENCE_MEDIUM | PROTO_CONFIDENCE_HIGH
  | PROTO_CONFIDENCE_CERTAIN

record proto_detect_result =
  protocol :: app_proto
  confidence :: proto_confidence
  reverse_flow :: bool

text \<open>The numeric value of an enumerator, and all enumerators in that order.\<close>

definition app_protos :: "app_proto list" where
  "app_protos =
    [APP_PROTO_UNKNOWN, APP_PROTO_HTTP, APP_PROTO_TLS, APP_PROTO_DNS,
     APP_PROTO_SMTP, APP_PROTO_IMAP, APP_PROTO_POP3, APP_PROTO_FTP,
     APP_PROTO_FTP_DATA, APP_PROTO_SSH, APP_PROTO_TELNET, APP_PROTO_MYSQL,
     APP_PROTO_PGSQL, APP_PROTO_REDIS, APP_PROTO_MQTT, APP_PROTO_AMQP,
     APP_PROTO_SMB, APP_PROTO_NFS, APP_PROTO_DHCP, APP_PROTO_FAILED]"

fun app_proto_val :: "app_proto \<Rightarrow> nat" where
  "app_proto_val APP_PROTO_UNKNOWN = 0"
| "app_proto_val APP_PROTO_HTTP = 1"
| "app_proto_val APP_PROTO_TLS = 2"
| "app_proto_val APP_PROTO_DNS = 3"
| "app_proto_val APP_PROTO_SMTP = 4"
| "app_proto_val APP_PROTO_IMAP = 5"
| "app_proto_val APP_PROTO_POP3 = 6"
| "app_proto_val APP_PROTO_FTP = 7"
| "app_proto_val APP_PROTO_FTP_DATA = 8"
| "app_proto_val APP_PROTO_SSH = 9"
| "app_proto_val APP_PROTO_TELNET = 10"
| "app_proto_val APP_PROTO_MYSQL = 11"
| "app_proto_val APP_PROTO_PGSQL = 12"
| "app_proto_val APP_PROTO_REDIS = 13"
| "app_proto_val APP_PROTO_MQTT = 14"
| "app_proto_val APP_PROTO_AMQP = 15"
| "app_proto_val APP_PROTO_SMB = 16"
| "app_proto_val APP_PROTO_NFS = 17"
| "app_proto_val APP_PROTO_DHCP = 18"
| "app_proto_val APP_PROTO_FAILED = 19"
| "app_proto_val APP_PROTO_MAX = 20"

instantiation app_proto :: linorder
begin

definition less_eq_app_proto :: "app_proto \<Rightarrow> app_proto \<Rightarrow> bool" where
  "less_eq_app_proto p q \<longleftrightarrow> app_proto_val p \<le> app_proto_val q"

definition less_app_proto :: "app_proto \<Rightarrow> app_proto \<Rightarrow> bool" where
  "less_app_proto p q \<longleftrightarrow> app_proto_val p < app_proto_val q"

lemma app_proto_val_inject: "app_proto_val p = app_proto_val q \<Longrightarrow> p = q"
  by (cases p) (cases q; simp)+

instance
  by standard (auto simp: less_eq_app_proto_def less_app_proto_def app_proto_val_inject)

end

section \<open>Tables and conversions\<close>

definition proto_names :: "bytes list" where
  "proto_names = map str
    [''unknown'', ''http'', ''tls'', ''dns'', ''smtp'', ''imap'', ''pop3'', ''ftp'',
     ''ftp-data'', ''ssh'', ''telnet'', ''mysql'', ''pgsql'', ''redis'', ''mqtt'', ''amqp'',
     ''smb'', ''nfs'', ''dhcp'', ''failed'']"

definition proto_ports :: "u16 list" where
  "proto_ports = [0, 80, 443, 53, 25, 143, 110, 21, 20, 22, 23, 3306, 5432, 6379, 1883, 5672,
     445, 2049, 67, 0]"

text \<open>Every slot of \<^const>\<open>proto_names\<close> is filled, so the source's test for a null name is never
  taken.\<close>

definition app_proto_to_string :: "app_proto \<Rightarrow> bytes" where
  "app_proto_to_string p =
    (if APP_PROTO_MAX \<le> p then str ''invalid'' else proto_names ! app_proto_val p)"

text \<open>The linear search of \<^verbatim>\<open>app_proto_from_string\<close>, over the slots still to be looked at.\<close>

fun proto_name_search :: "bytes \<Rightarrow> (app_proto \<times> bytes) list \<Rightarrow> app_proto option" where
  "proto_name_search name [] = None"
| "proto_name_search name ((p, n) # rest) =
    (if c_strcasecmp_eq name n then Some p else proto_name_search name rest)"

definition app_proto_from_string :: "bytes option \<Rightarrow> app_proto" where
  "app_proto_from_string name_opt = (case name_opt of
     None \<Rightarrow> APP_PROTO_UNKNOWN
   | Some name \<Rightarrow>
      (case proto_name_search name (zip app_protos proto_names) of
         Some p \<Rightarrow> p
       | None \<Rightarrow>
          if c_strcasecmp_eq name (str ''https'') then APP_PROTO_TLS
          else if c_strcasecmp_eq name (str ''ssl'') then APP_PROTO_TLS
          else if c_strcasecmp_eq name (str ''postgresql'') then APP_PROTO_PGSQL
          else APP_PROTO_UNKNOWN))"

definition app_proto_default_port :: "app_proto \<Rightarrow> u16" where
  "app_proto_default_port p = (if APP_PROTO_MAX \<le> p then 0 else proto_ports ! app_proto_val p)"

definition app_proto_is_detected :: "app_proto \<Rightarrow> bool" where
  "app_proto_is_detected p \<longleftrightarrow> APP_PROTO_UNKNOWN < p \<and> p < APP_PROTO_FAILED"

fun app_proto_is_encrypted :: "app_proto \<Rightarrow> bool" where
  "app_proto_is_encrypted APP_PROTO_TLS = True"
| "app_proto_is_encrypted APP_PROTO_SSH = True"
| "app_proto_is_encrypted _ = False"

section \<open>Lemmas\<close>

lemma app_proto_is_detected_iff:
  "app_proto_is_detected p \<longleftrightarrow> p \<notin> {APP_PROTO_UNKNOWN, APP_PROTO_FAILED, APP_PROTO_MAX}"
  by (cases p) (simp_all add: app_proto_is_detected_def less_app_proto_def)

lemma proto_name_search_case:
  assumes "map c_tolower s = map c_tolower t"
  shows "proto_name_search s l = proto_name_search t l"
  by (induction l) (auto simp: c_strcasecmp_eq_def assms)

lemma from_string_case:
  assumes "map c_tolower s = map c_tolower t"
  shows "app_proto_from_string (Some s) = app_proto_from_string (Some t)"
  unfolding app_proto_from_string_def
  by (simp add: c_strcasecmp_eq_def assms proto_name_search_case [OF assms])

text \<open>Name round trip: for every protocol of the enumeration other than the bound
  \<^verbatim>\<open>APP_PROTO_MAX\<close>, looking up any spelling of its printed name (upper or lower case) with
  \<^verbatim>\<open>app_proto_from_string\<close> gives that protocol back.\<close>

theorem app_proto_string_roundtrip:
  assumes "p \<noteq> APP_PROTO_MAX" and "map c_tolower s = app_proto_to_string p"
  shows "app_proto_from_string (Some s) = p"
proof -
  have fix_lower: "map c_tolower (app_proto_to_string p) = app_proto_to_string p"
    using assms(1)
    by (cases p)
      (simp_all add: app_proto_to_string_def less_eq_app_proto_def proto_names_def str_def
        c_tolower_def)
  have "app_proto_from_string (Some (app_proto_to_string p)) = p"
    using assms(1)
    by (cases p)
      (simp_all add: app_proto_to_string_def app_proto_from_string_def less_eq_app_proto_def
        proto_names_def app_protos_def str_def c_strcasecmp_eq_def c_tolower_def)
  then show ?thesis
    using from_string_case [of s "app_proto_to_string p"] assms(2) fix_lower by simp
qed

theorem app_proto_string_roundtrip_witness:
  "app_proto_from_string (Some (str ''FTP-Data'')) = APP_PROTO_FTP_DATA"
  by (rule app_proto_string_roundtrip)
    (simp_all add: app_proto_to_string_def less_eq_app_proto_def proto_names_def str_def
      c_tolower_def)

end
