(* ===== verification/Packet_Decode.thy ===== *)
theory Packet_Decode
  imports Ndf_Prelude
begin

text \<open>
  \<^verbatim>\<open>src/src/packet_decode.c\<close>: the decoder that turns the bytes of an \<^verbatim>\<open>rte_mbuf\<close> into a
  \<^verbatim>\<open>packet_info_t\<close>. Every layer function takes the record it fills, the packet bytes, the offset
  that the C code adds to \<^verbatim>\<open>pkt_data\<close> and the remaining length the caller computed, and returns
  the code's \<^verbatim>\<open>int\<close> with the updated record. The two unions of \<^verbatim>\<open>packet_info_t\<close> hold one pointer
  each and are one field each (\<open>l3_hdr\<close>, \<open>l4_hdr\<close>). Lengths and offsets keep their 32 bits, so the
  subtraction \<^verbatim>\<open>pkt_len - offset\<close> wraps as in C. A read beyond the bytes of the packet makes the
  result \<^term>\<open>None\<close>.
\<close>

section \<open>Data\<close>

text \<open>A single-segment mbuf: the bytes at \<^verbatim>\<open>rte_pktmbuf_mtod\<close> (null or a buffer) and
  \<^verbatim>\<open>rte_pktmbuf_pkt_len\<close>.\<close>

record mbuf =
  mtod :: "bytes option"
  pkt_len :: u32

record packet_info =
  eth_hdr :: "nat option"
  ether_type :: u16
  ip_version :: u8
  l3_hdr :: "nat option"
  ip_proto :: u8
  ip_len :: u16
  l4_hdr :: "nat option"
  src_port :: u16
  dst_port :: u16
  payload :: "nat option"
  payload_len :: u16
  flags :: u32

definition PKT_DECODED_ETH :: u32 where "PKT_DECODED_ETH = 1"
definition PKT_DECODED_IPV4 :: u32 where "PKT_DECODED_IPV4 = 2"
definition PKT_DECODED_IPV6 :: u32 where "PKT_DECODED_IPV6 = 4"
definition PKT_DECODED_TCP :: u32 where "PKT_DECODED_TCP = 8"
definition PKT_DECODED_UDP :: u32 where "PKT_DECODED_UDP = 16"
definition PKT_DECODED_ICMP :: u32 where "PKT_DECODED_ICMP = 32"
definition PKT_ERROR :: u32 where "PKT_ERROR = 0x80000000"

lemmas pkt_flag_defs = PKT_DECODED_ETH_def PKT_DECODED_IPV4_def PKT_DECODED_IPV6_def
  PKT_DECODED_TCP_def PKT_DECODED_UDP_def PKT_DECODED_ICMP_def PKT_ERROR_def

abbreviation RTE_ETHER_TYPE_IPV4 :: u16 where "RTE_ETHER_TYPE_IPV4 \<equiv> 0x0800"
abbreviation RTE_ETHER_TYPE_IPV6 :: u16 where "RTE_ETHER_TYPE_IPV6 \<equiv> 0x86DD"
abbreviation RTE_ETHER_TYPE_ARP :: u16 where "RTE_ETHER_TYPE_ARP \<equiv> 0x0806"
abbreviation IPPROTO_ICMP :: u8 where "IPPROTO_ICMP \<equiv> 1"
abbreviation IPPROTO_TCP :: u8 where "IPPROTO_TCP \<equiv> 6"
abbreviation IPPROTO_UDP :: u8 where "IPPROTO_UDP \<equiv> 17"
abbreviation IPPROTO_ICMPV6 :: u8 where "IPPROTO_ICMPV6 \<equiv> 58"

text \<open>\<^verbatim>\<open>memset(pkt_info, 0, sizeof(packet_info_t))\<close>\<close>

definition packet_info_zero :: packet_info where
  "packet_info_zero = \<lparr>eth_hdr = None, ether_type = 0, ip_version = 0, l3_hdr = None,
     ip_proto = 0, ip_len = 0, l4_hdr = None, src_port = 0, dst_port = 0,
     payload = None, payload_len = 0, flags = 0\<rparr>"

definition pkt_error :: "packet_info \<Rightarrow> packet_info" where
  "pkt_error pi = pi\<lparr>flags := flags pi OR PKT_ERROR\<rparr>"

section \<open>The layer decoders\<close>

definition decode_ethernet ::
  "packet_info \<Rightarrow> bytes \<Rightarrow> nat \<Rightarrow> u32 \<Rightarrow> (int \<times> packet_info) option" where
  "decode_ethernet pi data off len =
    (if len < 14 then Some (-1, pkt_error pi)
     else do {
       et \<leftarrow> rd_be16 data (off + 12);
       Some (0, pi\<lparr>eth_hdr := Some off, ether_type := et,
                   flags := flags pi OR PKT_DECODED_ETH\<rparr>) })"

definition decode_ipv4 ::
  "packet_info \<Rightarrow> bytes \<Rightarrow> nat \<Rightarrow> u32 \<Rightarrow> (int \<times> packet_info) option" where
  "decode_ipv4 pi data off len =
    (if len < 20 then Some (-1, pkt_error pi)
     else do {
       proto \<leftarrow> rd8 data (off + 9);
       tot \<leftarrow> rd_be16 data (off + 2);
       version_ihl \<leftarrow> rd8 data off;
       let pi' = pi\<lparr>l3_hdr := Some off, ip_version := 4, ip_proto := proto, ip_len := tot,
                    flags := flags pi OR PKT_DECODED_IPV4\<rparr>;
           ihl = (version_ihl AND 0x0F) * 4 in
       if ihl < 20 then Some (-1, pkt_error pi') else Some (uint ihl, pi') })"

definition decode_ipv6 ::
  "packet_info \<Rightarrow> bytes \<Rightarrow> nat \<Rightarrow> u32 \<Rightarrow> (int \<times> packet_info) option" where
  "decode_ipv6 pi data off len =
    (if len < 40 then Some (-1, pkt_error pi)
     else do {
       proto \<leftarrow> rd8 data (off + 6);
       plen \<leftarrow> rd_be16 data (off + 4);
       Some (40, pi\<lparr>l3_hdr := Some off, ip_version := 6, ip_proto := proto,
                    ip_len := plen + 40, flags := flags pi OR PKT_DECODED_IPV6\<rparr>) })"

definition decode_tcp ::
  "packet_info \<Rightarrow> bytes \<Rightarrow> nat \<Rightarrow> u32 \<Rightarrow> (int \<times> packet_info) option" where
  "decode_tcp pi data off len =
    (if len < 20 then Some (-1, pkt_error pi)
     else do {
       sp \<leftarrow> rd_be16 data off;
       dp \<leftarrow> rd_be16 data (off + 2);
       data_off \<leftarrow> rd8 data (off + 12);
       let pi' = pi\<lparr>l4_hdr := Some off, src_port := sp, dst_port := dp,
                    flags := flags pi OR PKT_DECODED_TCP\<rparr>;
           tcp_hdr_len = drop_bit 4 (data_off AND 0xF0) * 4 in
       if tcp_hdr_len < 20 then Some (-1, pkt_error pi') else Some (uint tcp_hdr_len, pi') })"

definition decode_udp ::
  "packet_info \<Rightarrow> bytes \<Rightarrow> nat \<Rightarrow> u32 \<Rightarrow> (int \<times> packet_info) option" where
  "decode_udp pi data off len =
    (if len < 8 then Some (-1, pkt_error pi)
     else do {
       sp \<leftarrow> rd_be16 data off;
       dp \<leftarrow> rd_be16 data (off + 2);
       Some (8, pi\<lparr>l4_hdr := Some off, src_port := sp, dst_port := dp,
                   flags := flags pi OR PKT_DECODED_UDP\<rparr>) })"

definition decode_icmp ::
  "packet_info \<Rightarrow> bytes \<Rightarrow> nat \<Rightarrow> u32 \<Rightarrow> (int \<times> packet_info) option" where
  "decode_icmp pi data off len =
    (if len < 8 then Some (-1, pkt_error pi)
     else Some (8, pi\<lparr>l4_hdr := Some off, src_port := 0, dst_port := 0,
                      flags := flags pi OR PKT_DECODED_ICMP\<rparr>))"

section \<open>The whole decoder\<close>

text \<open>The two switches of \<^verbatim>\<open>decode_packet\<close>. \<open>Inl code\<close> is an early return of the function,
  \<open>Inr ret\<close> falls through to \<^verbatim>\<open>offset += ret\<close>.\<close>

definition decode_network ::
  "packet_info \<Rightarrow> bytes \<Rightarrow> u32 \<Rightarrow> u32 \<Rightarrow> ((int + int) \<times> packet_info) option" where
  "decode_network pi data offset plen =
    (if ether_type pi = RTE_ETHER_TYPE_IPV4 then do {
       (ret, pi') \<leftarrow> decode_ipv4 pi data (unat offset) (plen - offset);
       Some (if ret < 0 then Inl (-1) else Inr ret, pi') }
     else if ether_type pi = RTE_ETHER_TYPE_IPV6 then do {
       (ret, pi') \<leftarrow> decode_ipv6 pi data (unat offset) (plen - offset);
       Some (if ret < 0 then Inl (-1) else Inr ret, pi') }
     else Some (Inl 0, pi))"

definition decode_transport ::
  "packet_info \<Rightarrow> bytes \<Rightarrow> u32 \<Rightarrow> u32 \<Rightarrow> ((int + int) \<times> packet_info) option" where
  "decode_transport pi data offset plen =
    (if ip_proto pi = IPPROTO_TCP then do {
       (ret, pi') \<leftarrow> decode_tcp pi data (unat offset) (plen - offset);
       Some (if ret < 0 then Inl (-1) else Inr ret, pi') }
     else if ip_proto pi = IPPROTO_UDP then do {
       (ret, pi') \<leftarrow> decode_udp pi data (unat offset) (plen - offset);
       Some (if ret < 0 then Inl (-1) else Inr ret, pi') }
     else if ip_proto pi = IPPROTO_ICMP \<or> ip_proto pi = IPPROTO_ICMPV6 then do {
       (ret, pi') \<leftarrow> decode_icmp pi data (unat offset) (plen - offset);
       Some (if ret < 0 then Inl (-1) else Inr ret, pi') }
     else Some (Inl 0, pi))"

definition set_payload :: "packet_info \<Rightarrow> u32 \<Rightarrow> u32 \<Rightarrow> packet_info" where
  "set_payload pi offset plen =
    (if offset < plen then pi\<lparr>payload := Some (unat offset), payload_len := ucast (plen - offset)\<rparr>
     else pi)"

text \<open>The transport layer and the payload, from the offset that the network layer left.\<close>

definition decode_rest :: "packet_info \<Rightarrow> bytes \<Rightarrow> u32 \<Rightarrow> u32 \<Rightarrow> (int \<times> packet_info) option" where
  "decode_rest pi data offset plen = do {
     (tr, pi) \<leftarrow> decode_transport pi data offset plen;
     case tr of
       Inl code \<Rightarrow> Some (code, pi)
     | Inr l4len \<Rightarrow> Some (0, set_payload pi (offset + word_of_int l4len) plen) }"

definition decode_bytes :: "bytes \<Rightarrow> u32 \<Rightarrow> (int \<times> packet_info) option" where
  "decode_bytes data plen = do {
     (ret, pi) \<leftarrow> decode_ethernet packet_info_zero data 0 plen;
     if ret < 0 then Some (-1, pi)
     else do {
       (net, pi) \<leftarrow> decode_network pi data 14 plen;
       case net of
         Inl code \<Rightarrow> Some (code, pi)
       | Inr l3len \<Rightarrow> decode_rest pi data (14 + word_of_int l3len) plen } }"

definition decode_packet ::
  "mbuf option \<Rightarrow> packet_info option \<Rightarrow> (int \<times> packet_info option) option" where
  "decode_packet mb pi_ptr = (case (mb, pi_ptr) of
     (Some m, Some _) \<Rightarrow>
       (case mtod m of
          None \<Rightarrow> Some (-1, Some packet_info_zero)
        | Some data \<Rightarrow>
            if pkt_len m = 0 then Some (-1, Some packet_info_zero)
            else do { (ret, pi) \<leftarrow> decode_bytes data (pkt_len m); Some (ret, Some pi) })
   | _ \<Rightarrow> Some (-1, pi_ptr))"

section \<open>Word arithmetic of the decoder\<close>

text \<open>Header lengths: a nibble times four never overflows its byte.\<close>

lemma nibble_lt: "unat (b AND 0x0F :: u8) < 16"
proof -
  have "b AND 0x0F = take_bit 4 b"
    by (simp add: take_bit_eq_mask mask_eq_exp_minus_1)
  then show ?thesis
    using take_bit_nat_less_exp [of 4 "unat b"] by (simp add: unsigned_take_bit_eq)
qed

lemma unat_times4: "unat (n :: u8) < 16 \<Longrightarrow> unat (n * 4) = 4 * unat n"
  by (simp add: unat_word_ariths)

definition ip4_hlen :: "u8 \<Rightarrow> nat" where
  "ip4_hlen b = 4 * unat (b AND 0x0F)"

definition tcp_hlen :: "u8 \<Rightarrow> nat" where
  "tcp_hlen b = 4 * unat (drop_bit 4 b AND 0x0F)"

lemma ip4_hlen_le: "ip4_hlen b \<le> 60"
  using nibble_lt [of b] by (simp add: ip4_hlen_def)

lemma tcp_hlen_ip4: "tcp_hlen b = ip4_hlen (drop_bit 4 b)"
  by (simp add: ip4_hlen_def tcp_hlen_def)

lemma unat_ihl: "unat ((b AND 0x0F) * 4 :: u8) = ip4_hlen b"
  by (simp add: ip4_hlen_def unat_times4 nibble_lt)

lemma uint_ihl: "uint ((b AND 0x0F) * 4 :: u8) = int (ip4_hlen b)"
  by (simp flip: unat_ihl)

lemma ihl_less_20: "(b AND 0x0F) * 4 < (20 :: u8) \<longleftrightarrow> ip4_hlen b < 20"
  by (simp add: word_less_nat_alt unat_ihl)

text \<open>The remaining length \<^verbatim>\<open>pkt_len - offset\<close>: the true difference, or a value close to
  \<open>2 ^ 32\<close> when the offset has passed the end of the packet.\<close>

lemma rest_len:
  assumes "L < 2 ^ 32" "k \<le> 134"
  shows "unat ((of_nat L :: u32) - of_nat k) = (if k \<le> L then L - k else L + 2 ^ 32 - k)"
proof -
  have "unat (of_nat L :: u32) = L" "unat (of_nat k :: u32) = k"
    using assms by (simp_all add: unsigned_of_nat take_bit_nat_eq_self)
  then show ?thesis
    by (simp add: unat_sub_if')
qed

lemma of_nat_u32_less: "L < 2 ^ 32 \<Longrightarrow> (of_nat L :: u32) < numeral n \<longleftrightarrow> L < unat (numeral n :: u32)"
  by (simp add: word_less_nat_alt unsigned_of_nat take_bit_nat_eq_self)

lemma rest_len_less:
  assumes "L < 2 ^ 32" "k \<le> 134" "unat (numeral n :: u32) \<le> 40"
  shows "(of_nat L :: u32) - of_nat k < numeral n \<longleftrightarrow> k \<le> L \<and> L < k + unat (numeral n :: u32)"
  using assms by (auto simp: word_less_nat_alt rest_len)

section \<open>Behaviour of the layers\<close>

definition eth_info :: "bytes \<Rightarrow> packet_info" where
  "eth_info data = packet_info_zero\<lparr>eth_hdr := Some 0, ether_type := be16 (data ! 12) (data ! 13),
     flags := PKT_DECODED_ETH\<rparr>"

definition ip4_info :: "bytes \<Rightarrow> packet_info" where
  "ip4_info data = (eth_info data)\<lparr>l3_hdr := Some 14, ip_version := 4, ip_proto := data ! 23,
     ip_len := be16 (data ! 16) (data ! 17), flags := PKT_DECODED_ETH OR PKT_DECODED_IPV4\<rparr>"

definition ip6_info :: "bytes \<Rightarrow> packet_info" where
  "ip6_info data = (eth_info data)\<lparr>l3_hdr := Some 14, ip_version := 6, ip_proto := data ! 20,
     ip_len := be16 (data ! 18) (data ! 19) + 40, flags := PKT_DECODED_ETH OR PKT_DECODED_IPV6\<rparr>"

lemma decode_ethernet_eq:
  assumes "length data < 2 ^ 32"
  shows "decode_ethernet packet_info_zero data 0 (of_nat (length data)) =
    (if length data < 14 then Some (-1, pkt_error packet_info_zero) else Some (0, eth_info data))"
  using assms
  by (auto simp: decode_ethernet_def of_nat_u32_less rd_simps eth_info_def packet_info_zero_def)

lemma decode_network_ip4:
  assumes "length data < 2 ^ 32" "14 \<le> length data" "ether_type pi = RTE_ETHER_TYPE_IPV4"
    "pi = eth_info data"
  shows "decode_network pi data 14 (of_nat (length data)) =
    (if length data < 34 then Some (Inl (-1), pkt_error pi)
     else if ip4_hlen (data ! 14) < 20 then Some (Inl (-1), pkt_error (ip4_info data))
     else Some (Inr (int (ip4_hlen (data ! 14))), ip4_info data))"
  using assms
  by (auto simp: rest_len_less [where k = 14, simplified] decode_network_def decode_ipv4_def rd_simps Let_def ihl_less_20 uint_ihl ip4_info_def
      eth_info_def)

lemma decode_network_ip6:
  assumes "length data < 2 ^ 32" "14 \<le> length data" "ether_type pi = RTE_ETHER_TYPE_IPV6"
    "pi = eth_info data"
  shows "decode_network pi data 14 (of_nat (length data)) =
    (if length data < 54 then Some (Inl (-1), pkt_error pi) else Some (Inr 40, ip6_info data))"
  using assms
  by (auto simp: rest_len_less [where k = 14, simplified] decode_network_def decode_ipv6_def rd_simps ip6_info_def eth_info_def)

lemma decode_network_other:
  "ether_type pi \<noteq> RTE_ETHER_TYPE_IPV4 \<Longrightarrow> ether_type pi \<noteq> RTE_ETHER_TYPE_IPV6 \<Longrightarrow>
   decode_network pi data off plen = Some (Inl 0, pi)"
  by (simp add: decode_network_def)

text \<open>The transport switch at offset \<open>k\<close> of a packet of \<open>L\<close> bytes.\<close>

definition tcp_info :: "packet_info \<Rightarrow> bytes \<Rightarrow> nat \<Rightarrow> packet_info" where
  "tcp_info pi data k = pi\<lparr>l4_hdr := Some k, src_port := be16 (data ! k) (data ! (k + 1)),
     dst_port := be16 (data ! (k + 2)) (data ! (k + 2 + 1)), flags := flags pi OR PKT_DECODED_TCP\<rparr>"

definition udp_info :: "packet_info \<Rightarrow> bytes \<Rightarrow> nat \<Rightarrow> packet_info" where
  "udp_info pi data k = pi\<lparr>l4_hdr := Some k, src_port := be16 (data ! k) (data ! (k + 1)),
     dst_port := be16 (data ! (k + 2)) (data ! (k + 2 + 1)), flags := flags pi OR PKT_DECODED_UDP\<rparr>"

definition icmp_info :: "packet_info \<Rightarrow> nat \<Rightarrow> packet_info" where
  "icmp_info pi k = pi\<lparr>l4_hdr := Some k, src_port := 0, dst_port := 0,
     flags := flags pi OR PKT_DECODED_ICMP\<rparr>"

lemma unat_of_nat_small: "k \<le> 134 \<Longrightarrow> unat (of_nat k :: u32) = k"
  by (simp add: unsigned_of_nat take_bit_nat_eq_self)

lemma decode_transport_tcp:
  assumes "length data < 2 ^ 32" "k \<le> 134" "ip_proto pi = IPPROTO_TCP"
  shows "decode_transport pi data (of_nat k) (of_nat (length data)) =
    (if length data < k then None
     else if length data < k + 20 then Some (Inl (-1), pkt_error pi)
     else if tcp_hlen (data ! (k + 12)) < 20 then Some (Inl (-1), pkt_error (tcp_info pi data k))
     else Some (Inr (int (tcp_hlen (data ! (k + 12)))), tcp_info pi data k))"
proof -
  have len: "(of_nat (length data) :: u32) - of_nat k < 20 \<longleftrightarrow> k \<le> length data \<and> length data < k + 20"
    using assms by (simp add: rest_len_less)
  show ?thesis
  proof (cases "k + 20 \<le> length data")
    case True
    then show ?thesis
      using assms(2,3) len
      by (simp add: decode_transport_def decode_tcp_def rd_simps Let_def unat_of_nat_small
          ihl_less_20 uint_ihl tcp_hlen_ip4 tcp_info_def)
  next
    case False
    then show ?thesis
      using assms(2,3) len
      by (simp add: decode_transport_def decode_tcp_def rd_simps unat_of_nat_small)
  qed
qed

lemma decode_transport_udp:
  assumes "length data < 2 ^ 32" "k \<le> 134" "ip_proto pi = IPPROTO_UDP"
  shows "decode_transport pi data (of_nat k) (of_nat (length data)) =
    (if length data < k then None
     else if length data < k + 8 then Some (Inl (-1), pkt_error pi)
     else Some (Inr 8, udp_info pi data k))"
  using assms
  by (auto simp: rest_len_less decode_transport_def decode_udp_def rd_simps unat_of_nat_small udp_info_def)

lemma decode_transport_icmp:
  assumes "length data < 2 ^ 32" "k \<le> 134" "ip_proto pi = IPPROTO_ICMP \<or> ip_proto pi = IPPROTO_ICMPV6"
  shows "decode_transport pi data (of_nat k) (of_nat (length data)) =
    (if k \<le> length data \<and> length data < k + 8 then Some (Inl (-1), pkt_error pi)
     else Some (Inr 8, icmp_info pi k))"
  using assms
  by (auto simp: rest_len_less decode_transport_def decode_icmp_def unat_of_nat_small icmp_info_def)

lemma decode_transport_other:
  "ip_proto pi \<notin> {IPPROTO_TCP, IPPROTO_UDP, IPPROTO_ICMP, IPPROTO_ICMPV6} \<Longrightarrow>
   decode_transport pi data off plen = Some (Inl 0, pi)"
  by (simp add: decode_transport_def)

lemmas decode_transport_cases = decode_transport_tcp decode_transport_udp decode_transport_icmp
  decode_transport_other

lemma decode_transport_None_iff:
  assumes "length data < 2 ^ 32" "k \<le> 134"
  shows "decode_transport pi data (of_nat k) (of_nat (length data)) = None \<longleftrightarrow>
    length data < k \<and> ip_proto pi \<in> {IPPROTO_TCP, IPPROTO_UDP}"
proof (cases "ip_proto pi \<in> {IPPROTO_TCP, IPPROTO_UDP}")
  case True
  then show ?thesis
    using assms by (auto simp: decode_transport_tcp decode_transport_udp split: if_splits)
next
  case False
  then show ?thesis
    using assms by (cases "ip_proto pi \<in> {IPPROTO_ICMP, IPPROTO_ICMPV6}")
      (auto simp: decode_transport_icmp decode_transport_other)
qed

section \<open>The whole decoder, by the offset of the transport header\<close>

text \<open>Where the network switch of \<^verbatim>\<open>decode_packet\<close> leaves \<^verbatim>\<open>offset\<close>, if it does not return.\<close>

definition l4_start :: "bytes \<Rightarrow> nat option" where
  "l4_start data =
    (if 34 \<le> length data \<and> be16 (data ! 12) (data ! 13) = RTE_ETHER_TYPE_IPV4
        \<and> 20 \<le> ip4_hlen (data ! 14) then Some (14 + ip4_hlen (data ! 14))
     else if 54 \<le> length data \<and> be16 (data ! 12) (data ! 13) = RTE_ETHER_TYPE_IPV6 then Some 54
     else None)"

definition net_info :: "bytes \<Rightarrow> packet_info" where
  "net_info data = (if be16 (data ! 12) (data ! 13) = RTE_ETHER_TYPE_IPV4 then ip4_info data
     else ip6_info data)"

lemma l4_start_le: "l4_start data = Some k \<Longrightarrow> 34 \<le> k \<and> k \<le> 74"
  using ip4_hlen_le [of "data ! 14"] by (auto simp: l4_start_def split: if_splits)

lemma ether_type_eth_info [simp]: "ether_type (eth_info data) = be16 (data ! 12) (data ! 13)"
  by (simp add: eth_info_def packet_info_zero_def)

lemma decode_bytes_l4:
  assumes "length data < 2 ^ 32" "l4_start data = Some k"
  shows "decode_bytes data (of_nat (length data)) =
    decode_rest (net_info data) data (of_nat k) (of_nat (length data))"
  using assms
  by (auto simp: l4_start_def net_info_def decode_bytes_def decode_ethernet_eq decode_network_ip4
      decode_network_ip6 split: if_splits)

definition no_l4 :: "packet_info \<Rightarrow> bool" where
  "no_l4 pi \<longleftrightarrow> l4_hdr pi = None \<and> payload pi = None \<and> payload_len pi = 0"

lemma no_l4_infos [simp]:
  "no_l4 packet_info_zero" "no_l4 (eth_info data)" "no_l4 (ip4_info data)" "no_l4 (ip6_info data)"
  "no_l4 (net_info data)" "no_l4 (pkt_error pi) = no_l4 pi"
  by (simp_all add: no_l4_def packet_info_zero_def eth_info_def ip4_info_def ip6_info_def
      net_info_def pkt_error_def)

lemma decode_bytes_no_l4:
  assumes "length data < 2 ^ 32" "l4_start data = None"
  shows "\<exists>code pi. decode_bytes data (of_nat (length data)) = Some (code, pi) \<and>
    code \<in> {0, -1} \<and> no_l4 pi"
proof (cases "be16 (data ! 12) (data ! 13) \<in> {RTE_ETHER_TYPE_IPV4, RTE_ETHER_TYPE_IPV6}")
  case True
  then show ?thesis
    using assms
    by (auto simp: l4_start_def decode_bytes_def decode_ethernet_eq decode_network_ip4
      decode_network_ip6 split: if_splits)
next
  case False
  then show ?thesis
    using assms
    by (auto simp: decode_bytes_def decode_ethernet_eq decode_network_other)
qed

definition payload_in_bounds :: "bytes \<Rightarrow> packet_info \<Rightarrow> bool" where
  "payload_in_bounds data pi \<longleftrightarrow>
    (case payload pi of None \<Rightarrow> payload_len pi = 0
                      | Some p \<Rightarrow> p + unat (payload_len pi) \<le> length data)"

lemma set_payload_bounds:
  assumes "length data < 2 ^ 32" "payload pi = None" "payload_len pi = 0"
  shows "payload_in_bounds data (set_payload pi off (of_nat (length data)))"
proof (cases "off < of_nat (length data)")
  case True
  let ?L = "of_nat (length data) :: u32"
  have L: "unat ?L = length data"
    using assms(1) by (simp add: unsigned_of_nat take_bit_nat_eq_self)
  have "unat (?L - off) = length data - unat off"
    using True L by (simp add: unat_sub_if' word_less_nat_alt)
  moreover have "unat (ucast (?L - off) :: u16) \<le> unat (?L - off)"
    by (simp add: unsigned_ucast_eq take_bit_nat_less_eq_self)
  ultimately show ?thesis
    using True L by (simp add: payload_in_bounds_def set_payload_def word_less_nat_alt)
next
  case False
  then show ?thesis
    using assms by (simp add: payload_in_bounds_def set_payload_def)
qed

lemma decode_rest_None_iff:
  assumes "length data < 2 ^ 32" "k \<le> 134"
  shows "decode_rest pi data (of_nat k) (of_nat (length data)) = None \<longleftrightarrow>
    length data < k \<and> ip_proto pi \<in> {IPPROTO_TCP, IPPROTO_UDP}"
  unfolding decode_transport_None_iff [OF assms, symmetric] decode_rest_def
  by (cases "decode_transport pi data (of_nat k) (of_nat (length data))")
    (auto split: sum.splits)

lemma decode_transport_Some:
  assumes "decode_transport pi data (of_nat k) (of_nat (length data)) = Some (tr, pi')"
    and "length data < 2 ^ 32" "k \<le> 134" "no_l4 pi"
  shows "payload pi' = None" "payload_len pi' = 0"
    "l4_hdr pi' = None \<or> l4_hdr pi' = Some k"
    "l4_hdr pi' = Some k \<Longrightarrow> ip_proto pi = IPPROTO_TCP \<Longrightarrow> k + 20 \<le> length data"
    "l4_hdr pi' = Some k \<Longrightarrow> ip_proto pi = IPPROTO_UDP \<Longrightarrow> k + 8 \<le> length data"
    "ip_proto pi' = ip_proto pi"
  using assms
  by (cases "ip_proto pi = IPPROTO_TCP"; cases "ip_proto pi = IPPROTO_UDP";
      cases "ip_proto pi \<in> {IPPROTO_ICMP, IPPROTO_ICMPV6}";
      auto simp: decode_transport_cases no_l4_def tcp_info_def udp_info_def icmp_info_def
        pkt_error_def split: if_splits)+

lemma set_payload_simps [simp]:
  "l4_hdr (set_payload pi off plen) = l4_hdr pi"
  "ip_proto (set_payload pi off plen) = ip_proto pi"
  by (simp_all add: set_payload_def)

text \<open>What \<^verbatim>\<open>decode_packet\<close> promises to its callers: the payload range and the transport header
  the record points to lie inside the packet.\<close>

definition info_in_bounds :: "bytes \<Rightarrow> packet_info \<Rightarrow> bool" where
  "info_in_bounds data pi \<longleftrightarrow>
    payload_in_bounds data pi \<and>
    (case l4_hdr pi of None \<Rightarrow> True
                     | Some k \<Rightarrow> (ip_proto pi = IPPROTO_TCP \<longrightarrow> k + 20 \<le> length data) \<and>
                                 (ip_proto pi = IPPROTO_UDP \<longrightarrow> k + 8 \<le> length data))"

lemma no_l4_in_bounds: "no_l4 pi \<Longrightarrow> info_in_bounds data pi"
  by (simp add: no_l4_def info_in_bounds_def payload_in_bounds_def)

lemma decode_rest_in_bounds:
  assumes "decode_rest pi data (of_nat k) (of_nat (length data)) = Some (ret, pi')"
    and "length data < 2 ^ 32" "k \<le> 134" "no_l4 pi"
  shows "info_in_bounds data pi'"
proof -
  obtain tr p1 where tr: "decode_transport pi data (of_nat k) (of_nat (length data)) = Some (tr, p1)"
    and pi': "pi' = (case tr of Inl _ \<Rightarrow> p1
                     | Inr n \<Rightarrow> set_payload p1 (of_nat k + word_of_int n) (of_nat (length data)))"
    using assms(1) by (cases "decode_transport pi data (of_nat k) (of_nat (length data))")
      (auto simp: decode_rest_def split: sum.splits)
  note p1 = decode_transport_Some [OF tr assms(2-4)]
  have "payload_in_bounds data pi'"
    using pi' p1(1,2) set_payload_bounds [OF assms(2) p1(1,2)]
    by (auto simp: payload_in_bounds_def split: sum.splits)
  then show ?thesis
    using pi' p1 by (auto simp: info_in_bounds_def split: sum.splits option.splits)
qed

lemma decode_bytes_in_bounds:
  assumes "length data < 2 ^ 32" "decode_bytes data (of_nat (length data)) = Some (ret, pi)"
  shows "info_in_bounds data pi"
proof (cases "l4_start data")
  case None
  then show ?thesis
    using decode_bytes_no_l4 [OF assms(1)] assms(2) no_l4_in_bounds by fastforce
next
  case (Some k)
  then show ?thesis
    using decode_bytes_l4 [OF assms(1) Some] assms l4_start_le [OF Some]
      decode_rest_in_bounds [of "net_info data" data k ret pi] by simp
qed

section \<open>Properties\<close>

text \<open>A single-segment mbuf that holds the given bytes.\<close>

definition mbuf_of :: "bytes \<Rightarrow> mbuf" where
  "mbuf_of data = \<lparr>mtod = Some data, pkt_len = of_nat (length data)\<rparr>"

lemma decode_packet_mbuf_of:
  assumes "data \<noteq> []" "length data < 2 ^ 32"
  shows "decode_packet (Some (mbuf_of data)) (Some p) =
    map_option (\<lambda>(ret, pi). (ret, Some pi)) (decode_bytes data (of_nat (length data)))"
proof -
  have "(of_nat (length data) :: u32) \<noteq> 0"
    using assms unat_of_nat_u32 [of "length data"] by auto
  then show ?thesis
    by (cases "decode_bytes data (of_nat (length data))") (auto simp: decode_packet_def mbuf_of_def)
qed

text \<open>C33: Memory safety of the decoder, characterised exactly: decoding the bytes of a
  single-segment mbuf reads outside the packet if and only if the packet is an IPv4 packet with
  an acceptable IHL nibble whose header length runs past the end of the packet and whose protocol
  is TCP or UDP. (The remaining length passed to the transport decoder then wraps around.)\<close>

theorem decode_packet_reads_out_of_bounds_iff:
  assumes "data \<noteq> []" "length data < 2 ^ 32"
  shows "decode_packet (Some (mbuf_of data)) (Some p) = None \<longleftrightarrow>
    34 \<le> length data \<and> be16 (data ! 12) (data ! 13) = RTE_ETHER_TYPE_IPV4 \<and>
    20 \<le> ip4_hlen (data ! 14) \<and> length data < 14 + ip4_hlen (data ! 14) \<and>
    data ! 23 \<in> {IPPROTO_TCP, IPPROTO_UDP}"
proof (cases "l4_start data")
  case None
  then show ?thesis
    using assms decode_bytes_no_l4 [OF assms(2)]
    by (auto simp: decode_packet_mbuf_of l4_start_def split: if_splits)
next
  case (Some k)
  then have "decode_packet (Some (mbuf_of data)) (Some p) = None \<longleftrightarrow>
    length data < k \<and> ip_proto (net_info data) \<in> {IPPROTO_TCP, IPPROTO_UDP}"
    using assms l4_start_le [OF Some]
    by (simp add: decode_packet_mbuf_of decode_bytes_l4 decode_rest_None_iff)
  then show ?thesis
    using Some by (auto simp: l4_start_def net_info_def ip4_info_def split: if_splits)
qed

text \<open>A 34-byte frame whose IPv4 header claims 60 bytes.\<close>

definition overlong_ihl_frame :: bytes where
  "overlong_ihl_frame = replicate 12 0 @ [0x08, 0x00, 0x4F] @ replicate 8 0 @ [6] @ replicate 10 0"

theorem decode_packet_reads_out_of_bounds_iff_witness:
  "decode_packet (Some (mbuf_of overlong_ihl_frame)) (Some packet_info_zero) = None"
proof -
  have "be16 (overlong_ihl_frame ! 12) (overlong_ihl_frame ! 13) = RTE_ETHER_TYPE_IPV4"
    "ip4_hlen (overlong_ihl_frame ! 14) = 60" "overlong_ihl_frame ! 23 = IPPROTO_TCP"
    "length overlong_ihl_frame = 34"
    by code_simp+
  then show ?thesis
    by (subst decode_packet_reads_out_of_bounds_iff) auto
qed


text \<open>A TCP segment with three payload bytes, used by the witnesses.\<close>

definition sample_ip :: bytes where
  "sample_ip = [0x45, 0, 0, 43, 0, 1, 0, 0, 64, 6, 0, 0, 10, 0, 0, 1, 10, 0, 0, 2]"

definition sample_tcp :: bytes where
  "sample_tcp = [0x30, 0x39, 0, 80, 0, 0, 0, 1, 0, 0, 0, 1, 0x50, 0x18, 1, 0, 0, 0, 0, 0]"

definition sample_frame :: bytes where
  "sample_frame = replicate 12 0 @ [8, 0] @ sample_ip @ sample_tcp @ [71, 69, 84]"

definition sample_info :: packet_info where
  "sample_info = \<lparr>eth_hdr = Some 0, ether_type = 0x0800, ip_version = 4, l3_hdr = Some 14,
     ip_proto = 6, ip_len = 43, l4_hdr = Some 34, src_port = 12345, dst_port = 80,
     payload = Some 54, payload_len = 3, flags = 11\<rparr>"


text \<open>An IPv4/TCP frame put together from its parts: addresses, the two headers with their
  options, and the payload.\<close>

definition tcp4_frame :: "bytes \<Rightarrow> bytes \<Rightarrow> bytes \<Rightarrow> bytes \<Rightarrow> bytes" where
  "tcp4_frame macs ip tcp pl = macs @ [0x08, 0x00] @ ip @ tcp @ pl"

definition tcp4_frame_ok :: "bytes \<Rightarrow> bytes \<Rightarrow> bytes \<Rightarrow> bytes \<Rightarrow> bool" where
  "tcp4_frame_ok macs ip tcp pl \<longleftrightarrow> length macs = 12 \<and>
     20 \<le> length ip \<and> ip4_hlen (ip ! 0) = length ip \<and> ip ! 9 = IPPROTO_TCP \<and>
     20 \<le> length tcp \<and> tcp_hlen (tcp ! 12) = length tcp \<and>
     length (tcp4_frame macs ip tcp pl) < 65536"

lemma tcp4_frame_nth:
  assumes "tcp4_frame_ok macs ip tcp pl"
  shows "be16 (tcp4_frame macs ip tcp pl ! 12) (tcp4_frame macs ip tcp pl ! 13) = RTE_ETHER_TYPE_IPV4"
    "i < length ip \<Longrightarrow> tcp4_frame macs ip tcp pl ! (14 + i) = ip ! i"
    "i < length tcp \<Longrightarrow> tcp4_frame macs ip tcp pl ! (14 + length ip + i) = tcp ! i"
proof -
  have "be16 8 0 = RTE_ETHER_TYPE_IPV4"
    by code_simp
  then show "be16 (tcp4_frame macs ip tcp pl ! 12) (tcp4_frame macs ip tcp pl ! 13) = RTE_ETHER_TYPE_IPV4"
    using assms by (simp add: tcp4_frame_def tcp4_frame_ok_def nth_append)
qed (use assms in \<open>auto simp: tcp4_frame_def tcp4_frame_ok_def nth_append\<close>)

lemma frame_decode_rest:
  assumes "length data < 65536" "k + h \<le> length data" "k \<le> 74" "h \<le> 60" "no_l4 pi"
    "ip_proto pi = IPPROTO_TCP" "tcp_hlen (data ! (k + 12)) = h" "20 \<le> h"
  shows "decode_rest pi data (of_nat k) (of_nat (length data)) =
    Some (0, (tcp_info pi data k)
      \<lparr>payload := (if k + h < length data then Some (k + h) else None),
       payload_len := of_nat (length data - (k + h))\<rparr>)"
proof -
  let ?L = "of_nat (length data) :: u32"
  have len: "length data < 2 ^ 32"
    using assms(1) by simp
  have off: "unat (of_nat (k + h) :: u32) = k + h" "unat ?L = length data"
    using assms by (simp_all only: word_nat)
  have lt: "(of_nat (k + h) :: u32) < ?L \<longleftrightarrow> k + h < length data"
    by (simp only: word_less_nat_alt off)
  have "?L - of_nat (k + h) = of_nat (length data - (k + h))"
    using assms(2) by (simp add: of_nat_diff)
  then have pl: "ucast (?L - of_nat (k + h)) = (of_nat (length data - (k + h)) :: u16)"
    using assms(1) by (simp add: unsigned_of_nat take_bit_nat_eq_self)
  have "decode_transport pi data (of_nat k) ?L = Some (Inr (int h), tcp_info pi data k)"
    using assms len by (simp add: decode_transport_tcp)
  then show ?thesis
    using off lt pl assms(2,5) unfolding decode_rest_def
    by (cases "k + h < length data") (auto simp: set_payload_def tcp_info_def no_l4_def)
qed

text \<open>Functional correctness on TCP: a frame built from MAC addresses, an IPv4 header with any
  options, a TCP header with any options and a payload decodes to code 0 and a record whose
  pointers, ports, protocol, length and payload range are those of the parts.\<close>

theorem decode_packet_tcp4:
  assumes "tcp4_frame_ok macs ip tcp pl"
  shows "\<exists>pi. decode_packet (Some (mbuf_of (tcp4_frame macs ip tcp pl))) (Some p) = Some (0, Some pi)
    \<and> flags pi = PKT_DECODED_ETH OR PKT_DECODED_IPV4 OR PKT_DECODED_TCP
    \<and> l3_hdr pi = Some 14 \<and> ip_len pi = be16 (ip ! 2) (ip ! 3)
    \<and> l4_hdr pi = Some (14 + length ip)
    \<and> src_port pi = be16 (tcp ! 0) (tcp ! 1) \<and> dst_port pi = be16 (tcp ! 2) (tcp ! 3)
    \<and> unat (payload_len pi) = length pl
    \<and> payload pi = (if pl = [] then None else Some (14 + length ip + length tcp))
    \<and> bslice (tcp4_frame macs ip tcp pl) (14 + length ip + length tcp) (length pl) = pl"
proof -
  let ?f = "tcp4_frame macs ip tcp pl" and ?k = "14 + length ip" and ?h = "length tcp"
  note ok = assms [unfolded tcp4_frame_ok_def]
  note nth = tcp4_frame_nth [OF assms]
  have len: "length ?f = ?k + ?h + length pl"
    using ok by (simp add: tcp4_frame_def)
  have fits: "length ?f < 2 ^ 32"
    using ok by simp
  have start: "l4_start ?f = Some ?k"
    using ok len nth(1) nth(2) [of 0] by (cases ip) (auto simp: l4_start_def)
  have net: "net_info ?f = ip4_info ?f"
    using nth(1) by (simp add: net_info_def)
  have proto: "ip_proto (net_info ?f) = IPPROTO_TCP" "ip_len (net_info ?f) = be16 (ip ! 2) (ip ! 3)"
    using ok nth(2) [of 9] nth(2) [of 2] nth(2) [of 3] net by (simp_all add: ip4_info_def)
  have hdr: "tcp_hlen (?f ! (?k + 12)) = length tcp" "length tcp \<le> 60" "?k \<le> 74"
    using ok nth(3) [of 12] ip4_hlen_le [of "ip ! 0"] ip4_hlen_le [of "drop_bit 4 (tcp ! 12)"]
    by (simp_all add: tcp_hlen_ip4)
  have "decode_bytes ?f (of_nat (length ?f)) =
    Some (0, (tcp_info (net_info ?f) ?f ?k)
      \<lparr>payload := (if ?k + ?h < length ?f then Some (?k + ?h) else None),
       payload_len := of_nat (length ?f - (?k + ?h))\<rparr>)"
    unfolding decode_bytes_l4 [OF fits start]
    by (rule frame_decode_rest) (use ok hdr proto len in auto)
  moreover have "unat (of_nat (length pl) :: u16) = length pl"
    using ok len by (intro unat_of_nat_u16) simp
  moreover have "bslice ?f (?k + ?h) (length pl) = pl"
    using ok by (simp add: bslice_def tcp4_frame_def)
  moreover have "?f \<noteq> []" "length ?f < 2 ^ 32" "tcp \<noteq> []"
    using ok len by (auto simp: tcp4_frame_def)
  ultimately show ?thesis
    using ok nth(3) [of 0] nth(3) [of 1] nth(3) [of 2] nth(3) [of 3] len proto net
    by (simp add: decode_packet_mbuf_of tcp_info_def ip4_info_def eth_info_def add.assoc or.assoc)
qed

theorem decode_packet_tcp4_witness:
  "tcp4_frame_ok (replicate 12 0) sample_ip sample_tcp [71, 69, 84] \<and>
   (\<exists>pi. decode_packet (Some (mbuf_of (tcp4_frame (replicate 12 0) sample_ip sample_tcp [71, 69, 84])))
           (Some packet_info_zero) = Some (0, Some pi) \<and> src_port pi = 12345)"
proof -
  have "ip4_hlen (sample_ip ! 0) = 20" "tcp_hlen (sample_tcp ! 12) = 20" "sample_ip ! 9 = 6"
    "length sample_ip = 20" "length sample_tcp = 20"
    by code_simp+
  then have ok: "tcp4_frame_ok (replicate 12 0) sample_ip sample_tcp [71, 69, 84]"
    by (simp add: tcp4_frame_ok_def tcp4_frame_def)
  have "be16 (sample_tcp ! 0) (sample_tcp ! 1) = 12345"
    by code_simp
  then show ?thesis
    using ok decode_packet_tcp4 [OF ok, of packet_info_zero] by metis
qed
end
