(* ===== verification/Stream_Reassemble.thy ===== *)
theory Stream_Reassemble
  imports Ndf_Prelude
begin

text \<open>
  \<^verbatim>\<open>src/src/stream_reassemble.c\<close> and \<^verbatim>\<open>stream_reassemble.h\<close>: TCP stream reassembly.

  A \<^verbatim>\<open>stream_buffer_t\<close> is the record \<open>stream_buffer\<close>: its contiguous data block (\<open>None\<close> for a null
  pointer), its counters, and the queue of out-of-order segments as a list. A queued segment owns a
  payload block that can be longer than \<^verbatim>\<open>payload_len\<close> (trimming keeps the block). The file's
  global variables (\<^verbatim>\<open>global_config\<close>, \<^verbatim>\<open>reassembly_stats\<close>) form the record \<open>reasm\<close>, together with
  the number of allocations made so far, which indexes the allocation outcomes of \<open>rte_env\<close>. The
  thread-local counters that only decide how often a log line is printed are left out.
  A result \<^term>\<open>None\<close> is undefined behaviour of the C code: a copy outside a block or a use of a
  segment that has been freed.
\<close>

section \<open>Data\<close>

datatype os_policy =
    OS_POLICY_BSD | OS_POLICY_LINUX | OS_POLICY_WINDOWS | OS_POLICY_FIRST | OS_POLICY_LAST

record tcp_segment =
  seg_seq :: u32
  seg_len :: u16
  seg_payload :: bytes

record stream_buffer =
  sb_data :: "bytes option"
  sb_size :: u32
  data_len :: u32
  base_seq :: u32
  next_seq :: u32
  seg_list :: "tcp_segment list"
  seg_count :: u32
  sb_policy :: os_policy
  max_buffer_size :: u32
  total_reassembled :: u64
  overlap_count :: u64
  gap_count :: u64

record stream_config =
  cfg_max_buffer_size :: u32
  cfg_max_segments :: u32
  cfg_default_policy :: os_policy

record reasm =
  global_config :: stream_config
  segments_inserted :: u64
  segments_in_order :: u64
  segments_out_of_order :: u64
  segments_overlap :: u64
  segments_dropped :: u64
  bytes_reassembled :: u64
  memory_used :: u64
  memory_peak :: u64
  nalloc :: nat

text \<open>The initial values of the globals.\<close>

definition reasm_start :: reasm where
  "reasm_start = \<lparr>global_config = \<lparr>cfg_max_buffer_size = 262144, cfg_max_segments = 100,
       cfg_default_policy = OS_POLICY_LINUX\<rparr>,
     segments_inserted = 0, segments_in_order = 0, segments_out_of_order = 0,
     segments_overlap = 0, segments_dropped = 0, bytes_reassembled = 0, memory_used = 0,
     memory_peak = 0, nalloc = 0\<rparr>"

definition SIZEOF_TCP_SEGMENT :: u64 where "SIZEOF_TCP_SEGMENT = 24"

text \<open>\<^verbatim>\<open>memset(sb, 0, sizeof(stream_buffer_t))\<close>; the policy with value 0 is \<^verbatim>\<open>OS_POLICY_BSD\<close>.\<close>

definition stream_buffer_zero :: stream_buffer where
  "stream_buffer_zero = \<lparr>sb_data = None, sb_size = 0, data_len = 0, base_seq = 0, next_seq = 0,
     seg_list = [], seg_count = 0, sb_policy = OS_POLICY_BSD, max_buffer_size = 0,
     total_reassembled = 0, overlap_count = 0, gap_count = 0\<rparr>"

section \<open>Sequence numbers\<close>

definition seq_compare :: "u32 \<Rightarrow> u32 \<Rightarrow> int" where
  "seq_compare seq1 seq2 =
    (if seq1 = seq2 then 0
     else if (seq1 - seq2) AND 0x80000000 \<noteq> 0 then -1 else 1)"

definition seq_between :: "u32 \<Rightarrow> u32 \<Rightarrow> u32 \<Rightarrow> bool" where
  "seq_between sq start stop \<longleftrightarrow> seq_compare sq start \<ge> 0 \<and> seq_compare sq stop < 0"

definition seg_end :: "tcp_segment \<Rightarrow> u32" where
  "seg_end s = seg_seq s + ucast (seg_len s)"

section \<open>Initialisation, release and segments\<close>

definition stream_reassemble_init :: "reasm \<Rightarrow> stream_config option \<Rightarrow> int \<times> reasm" where
  "stream_reassemble_init g config = (case config of
     None \<Rightarrow> (0, g) | Some c \<Rightarrow> (0, g\<lparr>global_config := c\<rparr>))"

definition mem_add :: "reasm \<Rightarrow> u64 \<Rightarrow> reasm" where
  "mem_add g n = (let used = memory_used g + n in
     g\<lparr>memory_used := used, memory_peak := max (memory_peak g) used\<rparr>)"

definition stream_buffer_init ::
  "rte_env \<Rightarrow> reasm \<Rightarrow> stream_buffer option \<Rightarrow> u32 \<Rightarrow> os_policy \<Rightarrow> int \<times> reasm \<times> stream_buffer option" where
  "stream_buffer_init env g sb_ptr initial_seq policy = (case sb_ptr of
     None \<Rightarrow> (-1, g, None)
   | Some _ \<Rightarrow>
      (let size = cfg_max_buffer_size (global_config g);
           sb = stream_buffer_zero\<lparr>sb_size := size\<rparr>;
           n = nalloc g; g1 = g\<lparr>nalloc := n + 1\<rparr> in
       if \<not> rte_malloc_ok env n (unat size) then (-1, g1, Some sb)
       else (0, mem_add g1 (ucast size),
             Some (sb\<lparr>sb_data := Some (fresh_block env n (unat size)), base_seq := initial_seq,
                      next_seq := initial_seq, sb_policy := policy, max_buffer_size := size,
                      seg_list := [], seg_count := 0\<rparr>))))"

text \<open>\<^verbatim>\<open>segment_free\<close>, and the same statements in the loop of \<^verbatim>\<open>stream_buffer_free\<close>. A queued segment
  always has a payload block, since \<^verbatim>\<open>segment_alloc\<close> fails without one.\<close>

definition segment_free :: "reasm \<Rightarrow> tcp_segment \<Rightarrow> reasm" where
  "segment_free g s = g\<lparr>memory_used := memory_used g - ucast (seg_len s) - SIZEOF_TCP_SEGMENT\<rparr>"

definition stream_buffer_free :: "reasm \<Rightarrow> stream_buffer option \<Rightarrow> reasm \<times> stream_buffer option" where
  "stream_buffer_free g sb_ptr = (case sb_ptr of
     None \<Rightarrow> (g, None)
   | Some sb \<Rightarrow>
      (let g1 = fold (\<lambda>s g. segment_free g s) (seg_list sb) g;
           g2 = (case sb_data sb of None \<Rightarrow> g1
                 | Some _ \<Rightarrow> g1\<lparr>memory_used := memory_used g1 - ucast (sb_size sb)\<rparr>) in
       (g2, Some stream_buffer_zero)))"

text \<open>\<^verbatim>\<open>segment_alloc\<close>: the outer result \<^term>\<open>None\<close> is a copy past the end of the caller's payload,
  the inner one a failed allocation.\<close>

definition segment_alloc ::
  "rte_env \<Rightarrow> reasm \<Rightarrow> u32 \<Rightarrow> bytes \<Rightarrow> u16 \<Rightarrow> (reasm \<times> tcp_segment option) option" where
  "segment_alloc env g sq pl plen =
    (let n = nalloc g; g1 = g\<lparr>nalloc := n + 1\<rparr> in
     if \<not> rte_malloc_ok env n 24 then Some (g1, None)
     else let g2 = g\<lparr>nalloc := n + 2\<rparr> in
       if \<not> rte_malloc_ok env (n + 1) (unat plen) then Some (g2, None)
       else do {
         blk \<leftarrow> blit (fresh_block env (n + 1) (unat plen)) 0 pl (unat plen);
         Some (mem_add g2 (SIZEOF_TCP_SEGMENT + ucast plen),
               Some \<lparr>seg_seq = sq, seg_len = plen, seg_payload = blk\<rparr>) })"

section \<open>The queue of out-of-order segments\<close>

text \<open>\<^verbatim>\<open>try_merge_segments\<close>: the loop over \<^verbatim>\<open>curr\<close> and \<^verbatim>\<open>curr->next\<close>, returning the list from
  \<^verbatim>\<open>curr\<close> on and the segment count.\<close>

definition merge_two :: "rte_env \<Rightarrow> nat \<Rightarrow> tcp_segment \<Rightarrow> tcp_segment \<Rightarrow> tcp_segment option" where
  "merge_two env n cur nxt =
    (let curr_end = seg_end cur; next_end = seg_end nxt;
         merged_len = next_end - seg_seq cur;
         overlap = curr_end - seg_seq nxt in do {
       p1 \<leftarrow> blit (fresh_block env n (unat merged_len)) 0 (seg_payload cur) (unat (seg_len cur));
       p2 \<leftarrow> (if overlap < ucast (seg_len nxt)
              then blit p1 (unat (seg_len cur)) (drop (unat overlap) (seg_payload nxt))
                     (unat (ucast (seg_len nxt) - overlap))
              else Some p1);
       Some (cur\<lparr>seg_payload := p2, seg_len := ucast merged_len\<rparr>) })"

function (sequential) merge_from ::
  "rte_env \<Rightarrow> reasm \<Rightarrow> u32 \<Rightarrow> tcp_segment list \<Rightarrow> (reasm \<times> u32 \<times> tcp_segment list) option" where
  "merge_from env g cnt (cur # nxt # rest) =
    (if seq_compare (seg_end cur) (seg_seq nxt) \<ge> 0 then
       (if seq_compare (seg_end nxt) (seg_end cur) \<le> 0 then
          merge_from env (segment_free g nxt) (cnt - 1) (cur # rest)
        else
          (let n = nalloc g; g1 = g\<lparr>nalloc := n + 1\<rparr> in
           if rte_malloc_ok env n (unat (seg_end nxt - seg_seq cur)) then do {
             cur' \<leftarrow> merge_two env n cur nxt;
             merge_from env (segment_free g1 nxt) (cnt - 1) (cur' # rest) }
           else do {
             (g2, cnt2, l) \<leftarrow> merge_from env g1 cnt (nxt # rest);
             Some (g2, cnt2, cur # l) }))
     else do {
       (g2, cnt2, l) \<leftarrow> merge_from env g cnt (nxt # rest);
       Some (g2, cnt2, cur # l) })"
| "merge_from env g cnt l = Some (g, cnt, l)"
  by pat_completeness auto

termination
  by (relation "measure (\<lambda>(env, g, cnt, l). length l)") auto

definition try_merge_segments ::
  "rte_env \<Rightarrow> reasm \<Rightarrow> stream_buffer \<Rightarrow> (reasm \<times> stream_buffer) option" where
  "try_merge_segments env g sb = do {
     (g', cnt, l) \<leftarrow> merge_from env g (seg_count sb) (seg_list sb);
     Some (g', sb\<lparr>seg_list := l, seg_count := cnt\<rparr>) }"

text \<open>Which side the policies favour, as in the switches of \<^verbatim>\<open>handle_queue_overlaps\<close>.\<close>

fun favor_new :: "os_policy \<Rightarrow> bool" where
  "favor_new OS_POLICY_LINUX = True"
| "favor_new OS_POLICY_WINDOWS = True"
| "favor_new OS_POLICY_LAST = True"
| "favor_new OS_POLICY_BSD = False"
| "favor_new OS_POLICY_FIRST = False"

text \<open>Cases 2 and 3 of the loop body: the partial overlaps of the new segment with the start and
  with the end of \<^verbatim>\<open>curr\<close>. They return the two segments and how often \<^verbatim>\<open>overlap_count\<close> was
  incremented. \<open>new_end\<close> is computed once before the loop and \<open>curr_end\<close> once per iteration.\<close>

definition overlap_start ::
  "os_policy \<Rightarrow> u32 \<Rightarrow> u32 \<Rightarrow> tcp_segment \<Rightarrow> tcp_segment \<Rightarrow> (tcp_segment \<times> tcp_segment \<times> u64) option" where
  "overlap_start pol new_end curr_end new_seg cur =
    (if seq_compare (seg_seq new_seg) (seg_seq cur) < 0 \<and> seq_compare new_end (seg_seq cur) > 0
        \<and> seq_compare new_end curr_end < 0 then
       (if favor_new pol then
          (let overlap_len = new_end - seg_seq cur in do {
             blk \<leftarrow> blk_shift (seg_payload cur) (unat overlap_len)
                      (unat (ucast (seg_len cur) - overlap_len));
             Some (new_seg, cur\<lparr>seg_seq := new_end, seg_payload := blk,
                     seg_len := ucast (ucast (seg_len cur) - overlap_len)\<rparr>, 1) })
        else Some (new_seg\<lparr>seg_len := ucast (seg_seq cur - seg_seq new_seg)\<rparr>, cur, 1))
     else Some (new_seg, cur, 0))"

definition overlap_end ::
  "os_policy \<Rightarrow> u32 \<Rightarrow> u32 \<Rightarrow> tcp_segment \<Rightarrow> tcp_segment \<Rightarrow> (tcp_segment \<times> tcp_segment \<times> u64) option" where
  "overlap_end pol new_end curr_end new_seg cur =
    (if seq_compare (seg_seq new_seg) (seg_seq cur) > 0 \<and> seq_compare (seg_seq new_seg) curr_end < 0
        \<and> seq_compare new_end curr_end \<ge> 0 then
       (if favor_new pol then
          Some (new_seg, cur\<lparr>seg_len := ucast (seg_seq new_seg - seg_seq cur)\<rparr>, 1)
        else
          (let overlap_len = curr_end - seg_seq new_seg in do {
             blk \<leftarrow> blk_shift (seg_payload new_seg) (unat overlap_len)
                      (unat (ucast (seg_len new_seg) - overlap_len));
             Some (new_seg\<lparr>seg_seq := curr_end, seg_payload := blk,
                     seg_len := ucast (ucast (seg_len new_seg) - overlap_len)\<rparr>, cur, 1) }))
     else Some (new_seg, cur, 0))"

text \<open>The loop of \<^verbatim>\<open>handle_queue_overlaps\<close> over the list from \<^verbatim>\<open>curr\<close> on. It returns the globals,
  the segment count, the overlap count, the new segment (\<^term>\<open>None\<close> when it has been freed) and the
  list.\<close>

fun overlaps_from ::
  "os_policy \<Rightarrow> u32 \<Rightarrow> reasm \<Rightarrow> u32 \<Rightarrow> u64 \<Rightarrow> tcp_segment \<Rightarrow> tcp_segment list \<Rightarrow>
   (reasm \<times> u32 \<times> u64 \<times> tcp_segment option \<times> tcp_segment list) option" where
  "overlaps_from pol new_end g cnt ov new_seg [] = Some (g, cnt, ov, Some new_seg, [])"
| "overlaps_from pol new_end g cnt ov new_seg (cur # rest) =
    (let curr_end = seg_end cur in
     if seq_compare (seg_seq new_seg) (seg_seq cur) \<le> 0 \<and> seq_compare new_end curr_end \<ge> 0 then
       (if favor_new pol then
          overlaps_from pol new_end (segment_free g cur) (cnt - 1) (ov + 1) new_seg rest
        else Some (segment_free g new_seg, cnt, ov, None, cur # rest))
     else do {
       (new1, curr1, i) \<leftarrow> overlap_start pol new_end curr_end new_seg cur;
       (new2, curr2, j) \<leftarrow> overlap_end pol new_end curr_end new1 curr1;
       (g', cnt', ov', r, l) \<leftarrow> overlaps_from pol new_end g cnt (ov + i + j) new2 rest;
       Some (g', cnt', ov', r, curr2 # l) })"

definition handle_queue_overlaps ::
  "reasm \<Rightarrow> stream_buffer \<Rightarrow> tcp_segment \<Rightarrow> (reasm \<times> stream_buffer \<times> tcp_segment option) option" where
  "handle_queue_overlaps g sb new_seg = do {
     (g', cnt, ov, r, l) \<leftarrow> overlaps_from (sb_policy sb) (seg_end new_seg) g (seg_count sb)
        (overlap_count sb) new_seg (seg_list sb);
     Some (g', sb\<lparr>seg_list := l, seg_count := cnt, overlap_count := ov\<rparr>, r) }"

text \<open>The search for the insertion point: \<^term>\<open>None\<close> when the segment is an exact duplicate.\<close>

fun insert_sorted :: "tcp_segment \<Rightarrow> tcp_segment list \<Rightarrow> tcp_segment list option" where
  "insert_sorted new_seg [] = Some [new_seg]"
| "insert_sorted new_seg (cur # rest) =
    (let cmp = seq_compare (seg_seq new_seg) (seg_seq cur) in
     if cmp = 0 \<and> seg_len new_seg = seg_len cur then None
     else if cmp < 0 then Some (new_seg # cur # rest)
     else map_option ((#) cur) (insert_sorted new_seg rest))"

definition insert_segment_queue ::
  "rte_env \<Rightarrow> reasm \<Rightarrow> stream_buffer \<Rightarrow> tcp_segment \<Rightarrow> (int \<times> reasm \<times> stream_buffer) option" where
  "insert_segment_queue env g sb new_seg =
    (if seg_count sb \<ge> cfg_max_segments (global_config g) then
       (let g1 = segment_free g new_seg in
        Some (-1, g1\<lparr>segments_dropped := segments_dropped g1 + 1\<rparr>, sb))
     else do {
       (g1, sb1, r) \<leftarrow> handle_queue_overlaps g sb new_seg;
       seg \<leftarrow> r;
       if seg_len seg = 0 then Some (0, segment_free g1 seg, sb1)
       else (case insert_sorted seg (seg_list sb1) of
           None \<Rightarrow> Some (0, segment_free g1 seg, sb1)
         | Some l \<Rightarrow>
            (let sb2 = sb1\<lparr>seg_list := l, seg_count := seg_count sb1 + 1\<rparr> in
             if seg_count sb2 > 10
             then do { (g3, sb3) \<leftarrow> try_merge_segments env g1 sb2; Some (0, g3, sb3) }
             else Some (0, g1, sb2))) })"

section \<open>Delivering data\<close>

text \<open>\<^verbatim>\<open>process_segment_queue\<close>: every iteration that does not leave the loop removes the head of the
  queue. The list argument is \<^verbatim>\<open>sb->seg_list\<close>. The last test, against the data block, is the
  precondition of the \<^verbatim>\<open>memcpy\<close>.\<close>

fun process_from ::
  "reasm \<Rightarrow> stream_buffer \<Rightarrow> int \<Rightarrow> tcp_segment list \<Rightarrow> (int \<times> reasm \<times> stream_buffer) option" where
  "process_from g sb acc [] = Some (acc, g, sb\<lparr>seg_list := []\<rparr>)"
| "process_from g sb acc (seg # rest) =
    (if seg_seq seg \<noteq> next_seq sb then
       (if sint (seg_seq seg - next_seq sb) > 0
        then Some (acc, g, sb\<lparr>seg_list := seg # rest, gap_count := gap_count sb + 1\<rparr>)
        else process_from (segment_free g seg) (sb\<lparr>seg_count := seg_count sb - 1\<rparr>) acc rest)
     else if data_len sb + ucast (seg_len seg) > max_buffer_size sb then
       Some (acc, g\<lparr>segments_dropped := segments_dropped g + 1\<rparr>, sb\<lparr>seg_list := seg # rest\<rparr>)
     else do {
       d \<leftarrow> sb_data sb;
       d' \<leftarrow> blit d (unat (data_len sb)) (seg_payload seg) (unat (seg_len seg));
       process_from (segment_free g seg)
         (sb\<lparr>sb_data := Some d', data_len := data_len sb + ucast (seg_len seg),
             next_seq := next_seq sb + ucast (seg_len seg),
             total_reassembled := total_reassembled sb + ucast (seg_len seg),
             seg_count := seg_count sb - 1\<rparr>)
         (acc + uint (seg_len seg)) rest })"

definition process_segment_queue ::
  "reasm \<Rightarrow> stream_buffer \<Rightarrow> (int \<times> reasm \<times> stream_buffer) option" where
  "process_segment_queue g sb = process_from g sb 0 (seg_list sb)"

text \<open>\<^verbatim>\<open>handle_buffer_overlap\<close> returns the trimmed sequence number, payload and length.\<close>

definition handle_buffer_overlap ::
  "reasm \<Rightarrow> stream_buffer \<Rightarrow> u32 \<Rightarrow> bytes \<Rightarrow> u16 \<Rightarrow> reasm \<times> stream_buffer \<times> u32 \<times> bytes \<times> u16" where
  "handle_buffer_overlap g sb sq pl plen =
    (let send = sq + ucast plen in
     if seq_compare sq (next_seq sb) < 0 then
       (if seq_compare send (next_seq sb) \<le> 0 then (g, sb, sq, pl, 0)
        else (let overlap_len = next_seq sb - sq in
              (g\<lparr>segments_overlap := segments_overlap g + 1\<rparr>,
               sb\<lparr>overlap_count := overlap_count sb + 1\<rparr>,
               next_seq sb, drop (unat overlap_len) pl, ucast (ucast plen - overlap_len))))
     else (g, sb, sq, pl, plen))"

text \<open>The two branches of \<^verbatim>\<open>stream_buffer_insert_segment\<close> after its checks: a segment that starts at
  \<^verbatim>\<open>next_seq\<close>, and any other one.\<close>

definition insert_in_order ::
  "reasm \<Rightarrow> stream_buffer \<Rightarrow> bytes \<Rightarrow> u16 \<Rightarrow> (int \<times> reasm \<times> stream_buffer) option" where
  "insert_in_order g sb pl plen =
    (let g1 = g\<lparr>segments_in_order := segments_in_order g + 1\<rparr> in
     if data_len sb + ucast plen > max_buffer_size sb
     then Some (-1, g1\<lparr>segments_dropped := segments_dropped g1 + 1\<rparr>, sb)
     else do {
       d \<leftarrow> sb_data sb;
       d' \<leftarrow> blit d (unat (data_len sb)) pl (unat plen);
       (_, g2, sb2) \<leftarrow> process_segment_queue
          (g1\<lparr>bytes_reassembled := bytes_reassembled g1 + ucast plen\<rparr>)
          (sb\<lparr>sb_data := Some d', data_len := data_len sb + ucast plen,
              next_seq := next_seq sb + ucast plen,
              total_reassembled := total_reassembled sb + ucast plen\<rparr>);
       Some (uint plen, g2, sb2) })"

definition insert_out_of_order ::
  "rte_env \<Rightarrow> reasm \<Rightarrow> stream_buffer \<Rightarrow> u32 \<Rightarrow> bytes \<Rightarrow> u16 \<Rightarrow> (int \<times> reasm \<times> stream_buffer) option" where
  "insert_out_of_order env g sb sq pl plen =
    (let g1 = g\<lparr>segments_out_of_order := segments_out_of_order g + 1\<rparr>;
         (g2, sb2, sq2, pl2, plen2) = handle_buffer_overlap g1 sb sq pl plen in
     if plen2 = 0 then Some (0, g2, sb2)
     else do {
       (g3, r) \<leftarrow> segment_alloc env g2 sq2 pl2 plen2;
       case r of
         None \<Rightarrow> Some (-1, g3\<lparr>segments_dropped := segments_dropped g3 + 1\<rparr>, sb2)
       | Some new_seg \<Rightarrow> do {
           (ret, g4, sb4) \<leftarrow> insert_segment_queue env g3 sb2 new_seg;
           if ret < 0 then Some (-1, g4, sb4)
           else process_segment_queue g4 sb4 } })"

definition stream_buffer_insert_segment ::
  "rte_env \<Rightarrow> reasm \<Rightarrow> stream_buffer option \<Rightarrow> u32 \<Rightarrow> bytes option \<Rightarrow> u16 \<Rightarrow>
   (int \<times> reasm \<times> stream_buffer option) option" where
  "stream_buffer_insert_segment env g sb_ptr sq payload plen = (case (sb_ptr, payload) of
     (Some sb, Some pl) \<Rightarrow>
       if plen = 0 then Some (-1, g, Some sb)
       else if sb_data sb = None then Some (-1, g, Some sb)
       else
        (let g1 = g\<lparr>segments_inserted := segments_inserted g + 1\<rparr>;
             ret = map_option (\<lambda>(r, g, sb). (r, g, Some sb)) in
         if seq_compare (sq + ucast plen) (base_seq sb) \<le> 0 then Some (0, g1, Some sb)
         else if seq_compare sq (base_seq sb) < 0 then
           (let skip = base_seq sb - sq in
            if skip \<ge> ucast plen then Some (0, g1, Some sb)
            else
             (let pl' = drop (unat skip) pl; plen' = ucast (ucast plen - skip); sq' = base_seq sb in
              if sq' = next_seq sb then ret (insert_in_order g1 sb pl' plen')
              else ret (insert_out_of_order env g1 sb sq' pl' plen')))
         else if sq = next_seq sb then ret (insert_in_order g1 sb pl plen)
         else ret (insert_out_of_order env g1 sb sq pl plen))
   | _ \<Rightarrow> Some (-1, g, sb_ptr))"

definition stream_buffer_data_available :: "stream_buffer option \<Rightarrow> u32" where
  "stream_buffer_data_available sb_ptr = (case sb_ptr of None \<Rightarrow> 0 | Some sb \<Rightarrow> data_len sb)"

text \<open>\<^verbatim>\<open>stream_buffer_get_data\<close> with a non-null \<^verbatim>\<open>data_len\<close> argument: the block and the length.\<close>

definition stream_buffer_get_data :: "stream_buffer option \<Rightarrow> (bytes option \<times> u32) option" where
  "stream_buffer_get_data sb_ptr = map_option (\<lambda>sb. (sb_data sb, data_len sb)) sb_ptr"

definition stream_buffer_consume ::
  "reasm \<Rightarrow> stream_buffer option \<Rightarrow> u32 \<Rightarrow> (int \<times> reasm \<times> stream_buffer option) option" where
  "stream_buffer_consume g sb_ptr consume_len = (case sb_ptr of
     None \<Rightarrow> Some (-1, g, None)
   | Some sb \<Rightarrow>
      if consume_len = 0 then Some (-1, g, Some sb)
      else (case sb_data sb of
          None \<Rightarrow> Some (-1, g, Some sb)
        | Some d \<Rightarrow>
           (let n = min consume_len (data_len sb) in do {
              d' \<leftarrow> (if n < data_len sb then blk_shift d (unat n) (unat (data_len sb - n)) else Some d);
              let sb1 = sb\<lparr>sb_data := Some d', data_len := data_len sb - n,
                           base_seq := base_seq sb + n\<rparr>;
              (if seg_list sb1 \<noteq> [] then do {
                 (_, g2, sb2) \<leftarrow> process_segment_queue g sb1;
                 Some (0, g2, Some sb2) }
               else Some (0, g, Some sb1)) })))"


section \<open>Sequence numbers as stream offsets\<close>

text \<open>The sequence number of offset \<open>a\<close> of a stream that starts at \<open>isn\<close>.\<close>

definition sq_at :: "u32 \<Rightarrow> nat \<Rightarrow> u32" where
  "sq_at isn a = isn + of_nat a"

lemma sign_bit_u32: "(w :: u32) AND 0x80000000 \<noteq> 0 \<longleftrightarrow> sint w < 0"
proof -
  have "w AND 0x80000000 \<noteq> 0 \<longleftrightarrow> bit w 31"
    using and_exp_eq_0_iff_not_bit [of w 31] by simp
  then show ?thesis
    using bit_last_iff [of w] by simp
qed

lemma sint_of_int_u32: "\<bar>k\<bar> < 2 ^ 31 \<Longrightarrow> sint (word_of_int k :: u32) = k"
  by (simp add: signed_of_int signed_take_bit_int_eq_self abs_less_iff)

lemma sint_sq_at_diff:
  assumes "\<bar>int a - int b\<bar> < 2 ^ 31"
  shows "sint (sq_at isn a - sq_at isn b) = int a - int b"
proof -
  have "sq_at isn a - sq_at isn b = word_of_int (int a - int b)"
    by (simp add: sq_at_def)
  then show ?thesis
    using sint_of_int_u32 [OF assms] by simp
qed

lemma sq_at_inject:
  assumes "\<bar>int a - int b\<bar> < 2 ^ 31"
  shows "sq_at isn a = sq_at isn b \<longleftrightarrow> a = b"
  using sint_sq_at_diff [OF assms, of isn] by auto

lemma seq_compare_sq_at:
  assumes "\<bar>int a - int b\<bar> < 2 ^ 31"
  shows "seq_compare (sq_at isn a) (sq_at isn b) = (if a < b then -1 else if a = b then 0 else 1)"
  using sint_sq_at_diff [OF assms, of isn] sq_at_inject [OF assms, of isn]
  by (auto simp: seq_compare_def sign_bit_u32)

lemma sq_at_diff: "b \<le> a \<Longrightarrow> sq_at isn a - sq_at isn b = of_nat (a - b)"
  by (simp add: sq_at_def of_nat_diff)

lemma sq_at_plus: "sq_at isn a + of_nat k = sq_at isn (a + k)"
  by (simp add: sq_at_def)

lemma ucast_u16_u32: "(ucast (l :: u16) :: u32) = of_nat (unat l)"
  by simp

lemma sq_at_plus_len: "sq_at isn a + ucast (l :: u16) = sq_at isn (a + unat l)"
  unfolding ucast_u16_u32 by (rule sq_at_plus)

text \<open>Sequence comparison is total order on a half window: for stream offsets less than
  \<open>2 ^ 31\<close> apart, \<^verbatim>\<open>seq_compare\<close> of their sequence numbers is the sign of the difference of the
  offsets, wherever the initial sequence number puts the wrap-around.\<close>

theorem seq_compare_is_offset_order:
  assumes "\<bar>int a - int b\<bar> < 2 ^ 31"
  shows "seq_compare (isn + of_nat a) (isn + of_nat b) = sgn (int a - int b)"
  using seq_compare_sq_at [OF assms, of isn] by (auto simp: sq_at_def)

theorem seq_compare_is_offset_order_witness: "seq_compare (0xFFFFFFF0 + of_nat 32) (0xFFFFFFF0 + of_nat 8) = 1"
  using seq_compare_is_offset_order [of 32 8 "0xFFFFFFF0"] by simp

section \<open>The reassembly invariant\<close>

text \<open>
  \<open>S i\<close> is the byte the sender put at offset \<open>i\<close> of its stream. A queued segment is right when its
  block holds the bytes of the stream at the offset its sequence number stands for; the data block
  is right when it holds the bytes from the consumed offset \<open>c\<close> up to the delivered offset \<open>n\<close>.
\<close>

definition WINDOW :: nat where "WINDOW = 2 ^ 30"

lemma WINDOW_lt: "4 * WINDOW = 2 ^ 32" "65536 < WINDOW"
  by (simp_all add: WINDOW_def)

definition seg_ok :: "(nat \<Rightarrow> u8) \<Rightarrow> u32 \<Rightarrow> nat \<Rightarrow> nat \<Rightarrow> tcp_segment \<Rightarrow> nat \<Rightarrow> bool" where
  "seg_ok S isn lo hi s off \<longleftrightarrow>
     seg_seq s = sq_at isn off \<and> lo \<le> off \<and> off + unat (seg_len s) \<le> hi \<and>
     unat (seg_len s) \<le> length (seg_payload s) \<and>
     (\<forall>i < unat (seg_len s). seg_payload s ! i = S (off + i))"

definition queue_ok :: "(nat \<Rightarrow> u8) \<Rightarrow> u32 \<Rightarrow> nat \<Rightarrow> nat \<Rightarrow> tcp_segment list \<Rightarrow> nat list \<Rightarrow> bool" where
  "queue_ok S isn lo hi segs offs \<longleftrightarrow> list_all2 (seg_ok S isn lo hi) segs offs \<and> sorted offs"

definition buf_ok :: "(nat \<Rightarrow> u8) \<Rightarrow> u32 \<Rightarrow> nat \<Rightarrow> nat \<Rightarrow> stream_buffer \<Rightarrow> bool" where
  "buf_ok S isn c n sb \<longleftrightarrow> (\<exists>d. sb_data sb = Some d \<and> length d = unat (max_buffer_size sb) \<and>
     length d \<le> WINDOW \<and> base_seq sb = sq_at isn c \<and> next_seq sb = sq_at isn n \<and> c \<le> n \<and>
     unat (data_len sb) = n - c \<and> n - c \<le> length d \<and> (\<forall>i < n - c. d ! i = S (c + i)))"

definition stream_inv :: "(nat \<Rightarrow> u8) \<Rightarrow> u32 \<Rightarrow> u32 \<Rightarrow> nat \<Rightarrow> nat \<Rightarrow> stream_buffer \<Rightarrow> bool" where
  "stream_inv S isn maxseg c n sb \<longleftrightarrow> buf_ok S isn c n sb \<and>
     (\<exists>offs. queue_ok S isn n (n + WINDOW) (seg_list sb) offs) \<and>
     seg_count sb = of_nat (length (seg_list sb)) \<and> length (seg_list sb) \<le> unat maxseg"

lemma queue_ok_Nil [simp]: "queue_ok S isn lo hi [] offs \<longleftrightarrow> offs = []"
  by (auto simp: queue_ok_def)

lemma queue_ok_Cons:
  "queue_ok S isn lo hi (s # segs) offs \<longleftrightarrow>
   (\<exists>o1 os. offs = o1 # os \<and> seg_ok S isn lo hi s o1 \<and> queue_ok S isn lo hi segs os \<and>
      (\<forall>x \<in> set os. o1 \<le> x))"
  by (cases offs) (auto simp: queue_ok_def)

lemma seg_ok_mono: "seg_ok S isn lo hi s x \<Longrightarrow> lo' \<le> x \<Longrightarrow> hi \<le> hi' \<Longrightarrow> seg_ok S isn lo' hi' s x"
  by (auto simp: seg_ok_def)

lemma queue_ok_mono:
  assumes "queue_ok S isn lo hi segs offs" "\<forall>x \<in> set offs. lo' \<le> x" "hi \<le> hi'"
  shows "queue_ok S isn lo' hi' segs offs"
  using assms by (induction segs arbitrary: offs) (auto simp: queue_ok_Cons intro: seg_ok_mono)

lemma queue_ok_lo: "queue_ok S isn lo hi segs offs \<Longrightarrow> x \<in> set offs \<Longrightarrow> lo \<le> x \<and> x \<le> hi"
  by (induction segs arbitrary: offs) (auto simp: queue_ok_Cons seg_ok_def)

lemma buf_ok_update [simp]:
  "buf_ok S isn c n (sb\<lparr>seg_list := l\<rparr>) = buf_ok S isn c n sb"
  "buf_ok S isn c n (sb\<lparr>seg_count := k\<rparr>) = buf_ok S isn c n sb"
  "buf_ok S isn c n (sb\<lparr>gap_count := k64\<rparr>) = buf_ok S isn c n sb"
  "buf_ok S isn c n (sb\<lparr>overlap_count := k64\<rparr>) = buf_ok S isn c n sb"
  by (simp_all add: buf_ok_def)

text \<open>Free space in the data block, and appending stream bytes to it.\<close>

lemma data_len_plus:
  assumes "buf_ok S isn c n sb"
  shows "unat (data_len sb + ucast (l :: u16)) = n - c + unat l"
proof -
  have "unat (data_len sb) + unat l < 2 ^ 32"
    using assms unat_u16_lt [of l] WINDOW_lt by (auto simp: buf_ok_def)
  then show ?thesis
    using assms by (auto simp: buf_ok_def unat_plus_if')
qed

lemma buf_full_iff:
  assumes "buf_ok S isn c n sb"
  shows "data_len sb + ucast (l :: u16) > max_buffer_size sb \<longleftrightarrow>
    unat (max_buffer_size sb) < n - c + unat l"
  by (simp add: word_less_nat_alt data_len_plus [OF assms])

lemma buf_ok_append:
  assumes buf: "buf_ok S isn c n sb"
    and room: "n - c + unat (l :: u16) \<le> unat (max_buffer_size sb)"
    and src: "unat l \<le> length pl" "\<forall>i < unat l. pl ! i = S (n + i)"
  shows "\<exists>d d'. sb_data sb = Some d \<and> blit d (unat (data_len sb)) pl (unat l) = Some d' \<and>
    buf_ok S isn c (n + unat l)
      (sb\<lparr>sb_data := Some d', data_len := data_len sb + ucast l, next_seq := next_seq sb + ucast l,
          total_reassembled := tot\<rparr>)"
proof -
  obtain d where d: "sb_data sb = Some d" "length d = unat (max_buffer_size sb)"
    "length d \<le> WINDOW" "base_seq sb = sq_at isn c" "next_seq sb = sq_at isn n" "c \<le> n"
    "unat (data_len sb) = n - c" "n - c \<le> length d" "\<forall>i < n - c. d ! i = S (c + i)"
    using buf by (auto simp: buf_ok_def)
  obtain d' where d': "blit d (unat (data_len sb)) pl (unat l) = Some d'"
    using d room src by (simp add: rd_simps)
  have "d' ! i = S (c + i)" if "i < n + unat l - c" for i
    using blit_nth [OF d', of i] that d src(2) [rule_format, of "i - (n - c)"] room
    by (auto simp: add.commute)
  then show ?thesis
    using d d' room blit_length [OF d'] data_len_plus [OF buf, of l]
    by (auto simp: buf_ok_def sq_at_plus_len)
qed

section \<open>Delivering queued segments keeps the invariant\<close>

text \<open>What an operation on a buffer may not touch.\<close>

definition same_config :: "reasm \<Rightarrow> reasm \<Rightarrow> stream_buffer \<Rightarrow> stream_buffer \<Rightarrow> bool" where
  "same_config g g' sb sb' \<longleftrightarrow> global_config g' = global_config g \<and>
     sb_policy sb' = sb_policy sb \<and> max_buffer_size sb' = max_buffer_size sb"

lemma global_config_free [simp]: "global_config (segment_free g s) = global_config g"
  by (simp add: segment_free_def)

lemma same_config_refl [simp]: "same_config g g sb sb"
  by (simp add: same_config_def)

lemma process_from_inv:
  assumes "queue_ok S isn lo (lo + WINDOW) segs offs" "buf_ok S isn c n sb"
    "lo \<le> n" "n \<le> lo + WINDOW" "seg_count sb = of_nat (length segs)" "length segs \<le> unat maxseg"
  shows "\<exists>ret g' sb' n'. process_from g sb acc segs = Some (ret, g', sb') \<and>
    stream_inv S isn maxseg c n' sb' \<and> n \<le> n' \<and> ret = acc + int (n' - n) \<and>
    same_config g g' sb sb' \<and> n' \<le> lo + WINDOW"
  using assms
proof (induction segs arbitrary: g sb acc offs n)
  case Nil
  have "queue_ok S isn n (n + WINDOW) [] []"
    by simp
  then have "stream_inv S isn maxseg c n (sb\<lparr>seg_list := []\<rparr>)"
    using Nil.prems by (auto simp: stream_inv_def simp del: queue_ok_Nil)
  then show ?case
    using Nil.prems(3,4) by (auto simp: same_config_def intro!: exI [of _ n])
next
  case (Cons s segs)
  obtain o1 os where offs: "offs = o1 # os" "seg_ok S isn lo (lo + WINDOW) s o1"
    "queue_ok S isn lo (lo + WINDOW) segs os" "\<forall>x \<in> set os. o1 \<le> x"
    using Cons.prems(1) by (auto simp: queue_ok_Cons)
  have seq: "seg_seq s = sq_at isn o1" "next_seq sb = sq_at isn n" and len: "o1 + unat (seg_len s) \<le> lo + WINDOW"
    and lo1: "lo \<le> o1"
    and pl: "unat (seg_len s) \<le> length (seg_payload s)" "\<forall>i < unat (seg_len s). seg_payload s ! i = S (o1 + i)"
    using offs(2) Cons.prems(2) by (auto simp: seg_ok_def buf_ok_def)
  have near: "\<bar>int o1 - int n\<bar> < 2 ^ 31"
    using lo1 len Cons.prems(3,4) by (simp add: WINDOW_def)
  note cmp = sq_at_inject [OF near, of isn] sint_sq_at_diff [OF near, of isn]
  have cnt: "seg_count sb - 1 = of_nat (length segs)"
    using Cons.prems(5) by simp
  have stays: "queue_ok S isn n (n + WINDOW) (s # segs) offs" if "n \<le> o1"
    by (rule queue_ok_mono [OF Cons.prems(1)]) (use that offs(1,4) Cons.prems(3) in fastforce)+
  consider "n < o1" | "o1 < n"
    | "o1 = n" "unat (max_buffer_size sb) < n - c + unat (seg_len s)"
    | "o1 = n" "n - c + unat (seg_len s) \<le> unat (max_buffer_size sb)"
    by linarith
  then show ?case
  proof cases
    case 1
    then show ?thesis
      using stays 1 Cons.prems seq cmp by (auto simp: stream_inv_def same_config_def)
  next
    case 2
    then show ?thesis
      using Cons.IH [OF offs(3), of n "sb\<lparr>seg_count := seg_count sb - 1\<rparr>" "segment_free g s" acc]
        Cons.prems seq cmp cnt by (auto simp: same_config_def)
  next
    case 3
    then show ?thesis
      using stays 3 Cons.prems seq buf_full_iff [OF Cons.prems(2)]
      by (auto simp: stream_inv_def same_config_def)
  next
    case 4
    obtain d d' where d: "sb_data sb = Some d"
      "blit d (unat (data_len sb)) (seg_payload s) (unat (seg_len s)) = Some d'"
      and buf: "buf_ok S isn c (n + unat (seg_len s))
        (sb\<lparr>sb_data := Some d', data_len := data_len sb + ucast (seg_len s),
            next_seq := next_seq sb + ucast (seg_len s),
            total_reassembled := total_reassembled sb + ucast (seg_len s)\<rparr>)"
      using buf_ok_append [OF Cons.prems(2) 4(2) pl(1)] pl(2) 4(1) by blast
    let ?sb = "sb\<lparr>sb_data := Some d', data_len := data_len sb + ucast (seg_len s),
            next_seq := next_seq sb + ucast (seg_len s),
            total_reassembled := total_reassembled sb + ucast (seg_len s),
            seg_count := seg_count sb - 1\<rparr>"
    obtain ret g' sb' n' where IH:
      "process_from (segment_free g s) ?sb (acc + uint (seg_len s)) segs = Some (ret, g', sb')"
      "stream_inv S isn maxseg c n' sb'" "n + unat (seg_len s) \<le> n'"
      "ret = acc + uint (seg_len s) + int (n' - (n + unat (seg_len s)))"
      "same_config (segment_free g s) g' ?sb sb'" "n' \<le> lo + WINDOW"
      using Cons.IH [OF offs(3), of "n + unat (seg_len s)" ?sb "segment_free g s" "acc + uint (seg_len s)"]
        buf len 4(1) Cons.prems(3,6) cnt by auto
    have ret: "ret = acc + int (n' - n)"
      using IH(3,4) by (simp add: of_nat_diff)
    have "process_from g sb acc (s # segs) =
        process_from (segment_free g s) ?sb (acc + uint (seg_len s)) segs"
      using 4 seq d buf_full_iff [OF Cons.prems(2), of "seg_len s"] by simp
    then show ?thesis
      using IH ret by (auto simp: same_config_def)
  qed
qed

section \<open>Overlaps inside the queue\<close>

lemma seg_end_ok: "seg_ok S isn lo hi s x \<Longrightarrow> seg_end s = sq_at isn (x + unat (seg_len s))"
  by (simp add: seg_ok_def seg_end_def sq_at_plus_len)

lemma near_nat: "x < y + 2 ^ 31 \<Longrightarrow> y < x + 2 ^ 31 \<Longrightarrow> \<bar>int x - int y\<bar> < 2 ^ 31"
  by (simp add: abs_less_iff)

lemma near_window:
  assumes "lo \<le> x" "x \<le> lo + WINDOW" "lo \<le> y" "y \<le> lo + WINDOW"
  shows "\<bar>int x - int y\<bar> < 2 ^ 31"
  using assms by (simp add: WINDOW_def abs_less_iff)

text \<open>Comparisons of sequence numbers inside one window are comparisons of offsets.\<close>

lemma seq_compare_window:
  assumes "lo \<le> x" "x \<le> lo + WINDOW" "lo \<le> y" "y \<le> lo + WINDOW"
  shows "seq_compare (sq_at isn x) (sq_at isn y) < 0 \<longleftrightarrow> x < y"
    "seq_compare (sq_at isn x) (sq_at isn y) > 0 \<longleftrightarrow> y < x"
    "seq_compare (sq_at isn x) (sq_at isn y) \<le> 0 \<longleftrightarrow> x \<le> y"
    "seq_compare (sq_at isn x) (sq_at isn y) \<ge> 0 \<longleftrightarrow> y \<le> x"
    "seq_compare (sq_at isn x) (sq_at isn y) = 0 \<longleftrightarrow> x = y"
  using seq_compare_sq_at [OF near_window [OF assms], of isn] by auto

text \<open>Where \<^verbatim>\<open>handle_queue_overlaps\<close> moves the start of a queued segment when the new data is favoured:
  a start strictly inside the new segment moves to its end.\<close>

definition trim_start :: "nat \<Rightarrow> nat \<Rightarrow> nat \<Rightarrow> nat" where
  "trim_start a e x = (if a < x \<and> x < e then e else x)"

lemma trim_start_mono: "x \<le> y \<Longrightarrow> trim_start a e x \<le> trim_start a e y"
  by (auto simp: trim_start_def)

lemma unat_u16_of_u32: "n < 65536 \<Longrightarrow> unat (ucast (of_nat n :: u32) :: u16) = n"
  by (simp add: unsigned_of_nat take_bit_nat_eq_self)

lemma len_minus_overlap:
  assumes "k \<le> unat (l :: u16)"
  shows "ucast l - (of_nat k :: u32) = of_nat (unat l - k)"
  using assms by (simp add: of_nat_diff)

lemma overlap_start_ok:
  assumes pol: "favor_new pol" and new: "seg_ok S isn lo (lo + WINDOW) new a"
    and cur: "seg_ok S isn lo (lo + WINDOW) cur x"
    and e: "e = a + unat (seg_len new)"
    and not_in: "\<not> (a \<le> x \<and> x + unat (seg_len cur) \<le> e)"
  shows "\<exists>cur' i. overlap_start pol (seg_end new) (seg_end cur) new cur = Some (new, cur', i) \<and>
    seg_ok S isn lo (lo + WINDOW) cur' (trim_start a e x) \<and>
    trim_start a e x + unat (seg_len cur') = x + unat (seg_len cur)"
proof -
  note new' = new [unfolded seg_ok_def] and cur' = cur [unfolded seg_ok_def]
  note cmp = seq_compare_window [of lo _ _ isn] new' cur' seg_end_ok [OF new] seg_end_ok [OF cur] e
  show ?thesis
  proof (cases "a < x \<and> x < e \<and> e < x + unat (seg_len cur)")
    case True
    let ?k = "e - x"
    have k: "seg_end new - seg_seq cur = of_nat ?k" "?k \<le> unat (seg_len cur)"
      using True cur' seg_end_ok [OF new] e by (auto simp: sq_at_diff)
    have uk: "unat (of_nat ?k :: u32) = ?k"
      using k(2) unat_u16_lt [of "seg_len cur"] by (intro unat_of_nat_u32) simp
    have rest: "ucast (seg_len cur) - (of_nat ?k :: u32) = of_nat (unat (seg_len cur) - ?k)"
      by (rule len_minus_overlap [OF k(2)])
    have ur: "unat (of_nat (unat (seg_len cur) - ?k) :: u32) = unat (seg_len cur) - ?k"
      "unat (ucast (of_nat (unat (seg_len cur) - ?k) :: u32) :: u16) = unat (seg_len cur) - ?k"
      using unat_u16_lt [of "seg_len cur"] by (intro unat_of_nat_u32 unat_u16_of_u32; simp)+
    obtain blk where blk: "blk_shift (seg_payload cur) ?k (unat (seg_len cur) - ?k) = Some blk"
      using cur' k(2) by (simp add: blk_shift_def)
    have nth: "blk ! i = S (e + i)" if "i < unat (seg_len cur) - ?k" for i
      using blk_shift_nth [OF blk that] cur' that k(2) True by (auto simp: add.assoc)
    have guard: "seq_compare (seg_seq new) (seg_seq cur) < 0 \<and> seq_compare (seg_end new) (seg_seq cur) > 0
      \<and> seq_compare (seg_end new) (seg_end cur) < 0"
      using True cmp by simp
    have "overlap_start pol (seg_end new) (seg_end cur) new cur =
      Some (new, cur\<lparr>seg_seq := seg_end new, seg_payload := blk,
        seg_len := ucast (of_nat (unat (seg_len cur) - ?k) :: u32)\<rparr>, 1)"
      unfolding overlap_start_def Let_def k(1) uk rest ur(1) blk using guard pol by simp
    then show ?thesis
      using True cmp ur(2) nth k(2) blk_shift_length [OF blk]
      by (auto simp: seg_ok_def trim_start_def)
  next
    case False
    then have "overlap_start pol (seg_end new) (seg_end cur) new cur = Some (new, cur, 0)"
      using cmp by (auto simp: overlap_start_def)
    then show ?thesis
      using False not_in cur by (auto simp: trim_start_def)
  qed
qed

lemma overlap_end_ok:
  assumes pol: "favor_new pol" and new: "seg_ok S isn lo (lo + WINDOW) new a"
    and cur: "seg_ok S isn lo (lo + WINDOW) cur x"
    and ce: "curr_end = sq_at isn (x + unat (seg_len cur))"
  shows "\<exists>cur' i. overlap_end pol (seg_end new) curr_end new cur = Some (new, cur', i) \<and>
    seg_ok S isn lo (lo + WINDOW) cur' x"
proof -
  note new' = new [unfolded seg_ok_def] and cur' = cur [unfolded seg_ok_def]
  note cmp = seq_compare_window [of lo _ _ isn] new' cur' seg_end_ok [OF new] ce
  show ?thesis
  proof (cases "x < a \<and> a < x + unat (seg_len cur) \<and> x + unat (seg_len cur) \<le> a + unat (seg_len new)")
    case True
    have "seg_seq new - seg_seq cur = of_nat (a - x)"
      using new' cur' True by (simp add: sq_at_diff)
    moreover have "unat (ucast (of_nat (a - x) :: u32) :: u16) = a - x"
      using True unat_u16_lt [of "seg_len cur"] by (intro unat_u16_of_u32) linarith
    moreover have "overlap_end pol (seg_end new) curr_end new cur =
      Some (new, cur\<lparr>seg_len := ucast (seg_seq new - seg_seq cur)\<rparr>, 1)"
      using True pol cmp by (simp add: overlap_end_def)
    ultimately show ?thesis
      using True cur' by (auto simp: seg_ok_def)
  next
    case False
    then have "overlap_end pol (seg_end new) curr_end new cur = Some (new, cur, 0)"
      using cmp by (auto simp: overlap_end_def)
    then show ?thesis
      using cur by auto
  qed
qed

lemma overlaps_from_ok:
  assumes "favor_new pol" "seg_ok S isn lo (lo + WINDOW) new a" "e = a + unat (seg_len new)"
    and "queue_ok S isn lo (lo + WINDOW) segs offs"
  shows "\<exists>g' ov' l offs'.
    overlaps_from pol (seg_end new) g cnt ov new segs =
      Some (g', cnt + of_nat (length l) - of_nat (length segs), ov', Some new, l) \<and>
    queue_ok S isn lo (lo + WINDOW) l offs' \<and> length l \<le> length segs \<and>
    set offs' \<subseteq> trim_start a e ` set offs \<and> global_config g' = global_config g"
  using assms(4)
proof (induction segs arbitrary: g cnt ov offs)
  case Nil
  then show ?case
    by (auto intro!: exI [of _ "[]"])
next
  case (Cons cur segs)
  obtain x os where offs: "offs = x # os" "seg_ok S isn lo (lo + WINDOW) cur x"
    "queue_ok S isn lo (lo + WINDOW) segs os" "\<forall>y \<in> set os. x \<le> y"
    using Cons.prems(1) by (auto simp: queue_ok_Cons)
  note cmp = seq_compare_window [of lo _ _ isn] assms(2,3) [unfolded seg_ok_def]
    offs(2) [unfolded seg_ok_def] seg_end_ok [OF assms(2)] seg_end_ok [OF offs(2)]
  have inside: "seq_compare (seg_seq new) (seg_seq cur) \<le> 0 \<and> seq_compare (seg_end new) (seg_end cur) \<ge> 0
      \<longleftrightarrow> a \<le> x \<and> x + unat (seg_len cur) \<le> e"
    using cmp by simp
  show ?case
  proof (cases "a \<le> x \<and> x + unat (seg_len cur) \<le> e")
    case True
    then show ?thesis
      using Cons.IH [OF offs(3), of "segment_free g cur" "cnt - 1" "ov + 1"] inside
        assms(1) offs(1) by (fastforce simp: Let_def algebra_simps)
  next
    case False
    obtain cur1 i where c1: "overlap_start pol (seg_end new) (seg_end cur) new cur = Some (new, cur1, i)"
      "seg_ok S isn lo (lo + WINDOW) cur1 (trim_start a e x)"
      "trim_start a e x + unat (seg_len cur1) = x + unat (seg_len cur)"
      using overlap_start_ok [OF assms(1,2) offs(2) assms(3) False] by blast
    then obtain cur2 j where c2: "overlap_end pol (seg_end new) (seg_end cur) new cur1 = Some (new, cur2, j)"
      "seg_ok S isn lo (lo + WINDOW) cur2 (trim_start a e x)"
      using overlap_end_ok [OF assms(1,2) c1(2)] seg_end_ok [OF offs(2)] by metis
    obtain g' ov' l offs' where IH:
      "overlaps_from pol (seg_end new) g cnt (ov + i + j) new segs =
         Some (g', cnt + of_nat (length l) - of_nat (length segs), ov', Some new, l)"
      "queue_ok S isn lo (lo + WINDOW) l offs'" "length l \<le> length segs"
      "set offs' \<subseteq> trim_start a e ` set os" "global_config g' = global_config g"
      using Cons.IH [OF offs(3), of g cnt "ov + i + j"] by blast
    have "overlaps_from pol (seg_end new) g cnt ov new (cur # segs) =
        Some (g', cnt + of_nat (length l) - of_nat (length segs), ov', Some new, cur2 # l)"
      using False inside c1(1) c2(1) IH(1) by (auto simp: Let_def)
    moreover have "trim_start a e x \<le> z" if "z \<in> set offs'" for z
      using IH(4) that offs(4) trim_start_mono [of x _ a e] by blast
    then have "queue_ok S isn lo (lo + WINDOW) (cur2 # l) (trim_start a e x # offs')"
      using c2(2) IH(2) by (auto simp: queue_ok_Cons)
    moreover have "set (trim_start a e x # offs') \<subseteq> trim_start a e ` set offs"
      using IH(4) offs(1) by auto
    ultimately show ?thesis
      using IH(3,5) by (intro exI [of _ g'] exI [of _ ov'] exI [of _ "cur2 # l"]
          exI [of _ "trim_start a e x # offs'"]) simp
  qed
qed

text \<open>Insertion keeps the queue sorted; a duplicate leaves it alone.\<close>

lemma insert_sorted_ok:
  assumes "seg_ok S isn lo (lo + WINDOW) new a" "queue_ok S isn lo (lo + WINDOW) segs offs"
    and "insert_sorted new segs = Some l"
  shows "\<exists>offs'. queue_ok S isn lo (lo + WINDOW) l offs' \<and> set offs' = insert a (set offs)
    \<and> length l = Suc (length segs)"
  using assms(2,3)
proof (induction segs arbitrary: offs l)
  case Nil
  then show ?case
    using assms(1) by (auto simp: queue_ok_Cons intro!: exI [of _ "[a]"])
next
  case (Cons cur segs)
  obtain x os where offs: "offs = x # os" "seg_ok S isn lo (lo + WINDOW) cur x"
    "queue_ok S isn lo (lo + WINDOW) segs os" "\<forall>y \<in> set os. x \<le> y"
    using Cons.prems(1) by (auto simp: queue_ok_Cons)
  have cmp: "seq_compare (seg_seq new) (seg_seq cur) < 0 \<longleftrightarrow> a < x"
    using seq_compare_window [of lo a x isn] assms(1) offs(2) by (simp add: seg_ok_def)
  show ?case
  proof (cases "a < x")
    case True
    then have "l = new # cur # segs"
      using Cons.prems(2) cmp by (auto simp: Let_def split: if_splits)
    moreover have "queue_ok S isn lo (lo + WINDOW) (new # cur # segs) (a # x # os)"
      using assms(1) offs True by (auto simp: queue_ok_Cons)
    ultimately show ?thesis
      using offs(1) by auto
  next
    case False
    then obtain l' where l': "insert_sorted new segs = Some l'" "l = cur # l'"
      using Cons.prems(2) cmp by (auto simp: Let_def split: if_splits)
    then obtain offs' where "queue_ok S isn lo (lo + WINDOW) l' offs'" "set offs' = insert a (set os)"
      "length l' = Suc (length segs)"
      using Cons.IH [OF offs(3)] by blast
    moreover from this have "queue_ok S isn lo (lo + WINDOW) l (x # offs')"
      using offs False l' by (auto simp: queue_ok_Cons)
    ultimately show ?thesis
      using l' offs(1) by auto
  qed
qed

section \<open>Merging adjacent segments\<close>

lemma merge_two_ok:
  assumes cur: "seg_ok S isn lo (lo + WINDOW) cur x" and nxt: "seg_ok S isn lo (lo + WINDOW) nxt y"
    and pos: "x \<le> y" "y \<le> x + unat (seg_len cur)"
      "x + unat (seg_len cur) < y + unat (seg_len nxt)"
  shows "\<exists>m. merge_two env k cur nxt = Some m \<and> seg_ok S isn lo (lo + WINDOW) m x"
proof -
  note cur' = cur [unfolded seg_ok_def] and nxt' = nxt [unfolded seg_ok_def]
  define ml where "ml = y + unat (seg_len nxt) - x"
  define ov where "ov = x + unat (seg_len cur) - y"
  have w: "seg_end nxt - seg_seq cur = of_nat ml" "seg_end cur - seg_seq nxt = of_nat ov"
    using cur' nxt' pos seg_end_ok [OF cur] seg_end_ok [OF nxt]
    by (simp_all add: ml_def ov_def sq_at_diff del: of_nat_diff)
  have bounds: "ml \<le> WINDOW" "ov < unat (seg_len nxt)" "ml = unat (seg_len cur) + (unat (seg_len nxt) - ov)"
    using cur' nxt' pos by (auto simp: ml_def ov_def)
  have u: "unat (of_nat ml :: u32) = ml" "unat (of_nat ov :: u32) = ov"
    using bounds(1,2) unat_u16_lt [of "seg_len nxt"]
    by (intro unat_of_nat_u32; simp add: WINDOW_def)+
  have lt: "(of_nat ov :: u32) < ucast (seg_len nxt)"
    using bounds(2) u(2) by (simp add: word_less_nat_alt)
  have rest: "ucast (seg_len nxt) - (of_nat ov :: u32) = of_nat (unat (seg_len nxt) - ov)"
    using bounds(2) by (intro len_minus_overlap) simp
  have ur: "unat (of_nat (unat (seg_len nxt) - ov) :: u32) = unat (seg_len nxt) - ov"
    using unat_u16_lt [of "seg_len nxt"] by (intro unat_of_nat_u32) simp
  obtain p1 where p1: "blit (fresh_block env k ml) 0 (seg_payload cur) (unat (seg_len cur)) = Some p1"
    using bounds(3) cur' by (simp add: blit_def)
  obtain p2 where p2: "blit p1 (unat (seg_len cur)) (drop ov (seg_payload nxt)) (unat (seg_len nxt) - ov) = Some p2"
    using bounds blit_length [OF p1] nxt' diff_le_mono [of "unat (seg_len nxt)" _ ov]
    by (simp add: blit_def)
  have len: "length p2 = ml"
    using blit_length [OF p1] blit_length [OF p2] by simp
  have nth: "p2 ! i = S (x + i)" if "i < ml" for i
  proof (cases "i < unat (seg_len cur)")
    case True
    then show ?thesis
      using blit_nth [OF p1, of i] blit_nth [OF p2, of i] that cur' blit_length [OF p1] by auto
  next
    case False
    have "p2 ! i = seg_payload nxt ! (ov + (i - unat (seg_len cur)))"
      using blit_nth [OF p2, of i] that bounds False nxt' blit_length [OF p1] by auto
    also have "\<dots> = S (y + (ov + (i - unat (seg_len cur))))"
      using nxt' that bounds False by auto
    finally show ?thesis
      using False pos(2) by (simp add: ov_def)
  qed
  have "merge_two env k cur nxt =
    Some (cur\<lparr>seg_payload := p2, seg_len := ucast (of_nat ml :: u32)\<rparr>)"
    unfolding merge_two_def Let_def w u rest ur p1 using lt p2 by simp
  moreover have "unat (ucast (of_nat ml :: u32) :: u16) \<le> ml"
    using u(1) by (metis take_bit_nat_less_eq_self unsigned_ucast_eq)
  moreover have "x + ml \<le> lo + WINDOW"
    using nxt' pos by (simp add: ml_def)
  ultimately show ?thesis
    using cur' len nth by (auto simp: seg_ok_def)
qed

lemma merge_from_ok:
  assumes "queue_ok S isn lo (lo + WINDOW) segs offs"
  shows "\<exists>g' l offs'. merge_from env g cnt segs =
      Some (g', cnt + of_nat (length l) - of_nat (length segs), l) \<and>
    queue_ok S isn lo (lo + WINDOW) l offs' \<and> length l \<le> length segs \<and>
    set offs' \<subseteq> set offs \<and> global_config g' = global_config g"
  using assms
proof (induction env g cnt segs arbitrary: offs rule: merge_from.induct)
  case (1 env g cnt cur nxt rest)
  obtain x y os where offs: "offs = x # y # os" "seg_ok S isn lo (lo + WINDOW) cur x"
    "seg_ok S isn lo (lo + WINDOW) nxt y" "queue_ok S isn lo (lo + WINDOW) rest os"
    "x \<le> y" "\<forall>z \<in> set os. y \<le> z"
    using "1.prems" by (auto simp: queue_ok_Cons)
  have tl: "queue_ok S isn lo (lo + WINDOW) (nxt # rest) (y # os)"
    using offs by (auto simp: queue_ok_Cons)
  have cmp: "seq_compare (seg_end cur) (seg_seq nxt) \<ge> 0 \<longleftrightarrow> y \<le> x + unat (seg_len cur)"
    "seq_compare (seg_end nxt) (seg_end cur) \<le> 0 \<longleftrightarrow> y + unat (seg_len nxt) \<le> x + unat (seg_len cur)"
    using seq_compare_window [of lo _ _ isn] offs(2,3) seg_end_ok [OF offs(2)] seg_end_ok [OF offs(3)]
    by (simp_all add: seg_ok_def)
  let ?goal = "\<lambda>g1 res segs' offs. \<exists>g' l offs'.
      res = Some (g', cnt + of_nat (length l) - of_nat (length segs'), l) \<and>
      queue_ok S isn lo (lo + WINDOW) l offs' \<and> length l \<le> length segs' \<and>
      set offs' \<subseteq> set offs \<and> global_config g' = global_config g1"
  have keep: "?goal g1 (do { (g2, cnt2, l) \<leftarrow> merge_from env g1 cnt (nxt # rest); Some (g2, cnt2, cur # l) })
      (cur # nxt # rest) offs"
    if tail: "?goal g1 (merge_from env g1 cnt (nxt # rest)) (nxt # rest) (y # os)" for g1
  proof -
    obtain g' l offs' where l: "merge_from env g1 cnt (nxt # rest) =
        Some (g', cnt + of_nat (length l) - of_nat (length (nxt # rest)), l)"
      "queue_ok S isn lo (lo + WINDOW) l offs'" "length l \<le> length (nxt # rest)"
      "set offs' \<subseteq> set (y # os)" "global_config g' = global_config g1"
      using tail by blast
    have "queue_ok S isn lo (lo + WINDOW) (cur # l) (x # offs')"
      using l(2,4) offs(2,5,6) by (fastforce simp: queue_ok_Cons)
    then show ?thesis
      using l offs(1) by (intro exI [of _ g'] exI [of _ "cur # l"] exI [of _ "x # offs'"]) auto
  qed
  have drop: "?goal g (merge_from env g2 (cnt - 1) (m # rest)) (cur # nxt # rest) offs"
    if IH: "\<And>offs. queue_ok S isn lo (lo + WINDOW) (m # rest) offs \<Longrightarrow> \<exists>g' l offs'.
      merge_from env g2 (cnt - 1) (m # rest) =
        Some (g', cnt - 1 + of_nat (length l) - of_nat (length (m # rest)), l) \<and>
      queue_ok S isn lo (lo + WINDOW) l offs' \<and> length l \<le> length (m # rest) \<and>
      set offs' \<subseteq> set offs \<and> global_config g' = global_config g2"
      and m: "seg_ok S isn lo (lo + WINDOW) m x" and g2: "global_config g2 = global_config g" for g2 m
  proof -
    have "queue_ok S isn lo (lo + WINDOW) (m # rest) (x # os)"
      using m offs(4,5,6) by (auto simp: queue_ok_Cons)
    from IH [OF this] show ?thesis
      using g2 offs(1) by fastforce
  qed
  consider "x + unat (seg_len cur) < y"
    | "y \<le> x + unat (seg_len cur)" "y + unat (seg_len nxt) \<le> x + unat (seg_len cur)"
    | "y \<le> x + unat (seg_len cur)" "x + unat (seg_len cur) < y + unat (seg_len nxt)"
      "\<not> rte_malloc_ok env (nalloc g) (unat (seg_end nxt - seg_seq cur))"
    | "y \<le> x + unat (seg_len cur)" "x + unat (seg_len cur) < y + unat (seg_len nxt)"
      "rte_malloc_ok env (nalloc g) (unat (seg_end nxt - seg_seq cur))"
    by linarith
  then show ?case
  proof cases
    case 1
    show ?thesis
      using keep [OF "1.IH"(4) [OF _ tl]] 1 cmp by simp
  next
    case 2
    show ?thesis
      using drop [OF "1.IH"(1) offs(2)] 2 cmp by simp
  next
    case 3
    show ?thesis
      using keep [OF "1.IH"(3) [OF _ _ refl refl _ tl]] 3 cmp by (simp add: Let_def)
  next
    case 4
    obtain m where m: "merge_two env (nalloc g) cur nxt = Some m" "seg_ok S isn lo (lo + WINDOW) m x"
      using merge_two_ok [OF offs(2,3,5) 4(1,2)] by blast
    show ?thesis
      using drop [OF "1.IH"(2) [OF _ _ refl refl] m(2)] 4 m(1) cmp by (simp add: Let_def)
  qed
qed (auto intro: exI)

section \<open>The operations keep the invariant\<close>

lemma seg_count_less_iff:
  assumes "stream_inv S isn maxseg c n sb"
  shows "seg_count sb < maxseg \<longleftrightarrow> length (seg_list sb) < unat maxseg"
proof -
  have "unat (seg_count sb) = length (seg_list sb)"
    using assms unat_u32_lt [of maxseg] by (auto simp: stream_inv_def intro!: unat_of_nat_u32)
  then show ?thesis
    by (simp add: word_less_nat_alt)
qed

lemma insert_segment_queue_inv:
  assumes inv: "stream_inv S isn maxseg c n sb" and pol: "favor_new (sb_policy sb)"
    and new: "seg_ok S isn n (n + WINDOW) new a"
    and cfg: "cfg_max_segments (global_config g) = maxseg"
  shows "\<exists>ret g' sb'. insert_segment_queue env g sb new = Some (ret, g', sb') \<and>
    stream_inv S isn maxseg c n sb' \<and> same_config g g' sb sb'"
proof (cases "maxseg \<le> seg_count sb")
  case True
  then show ?thesis
    using inv cfg by (auto simp: insert_segment_queue_def same_config_def Let_def)
next
  case False
  obtain offs where q: "queue_ok S isn n (n + WINDOW) (seg_list sb) offs"
    and buf: "buf_ok S isn c n sb" and cnt: "seg_count sb = of_nat (length (seg_list sb))"
    using inv by (auto simp: stream_inv_def)
  have room: "length (seg_list sb) < unat maxseg"
    using False seg_count_less_iff [OF inv] by (metis linorder_not_le)
  obtain g1 ov l offs1 where ovl: "overlaps_from (sb_policy sb) (seg_end new) g (seg_count sb)
      (overlap_count sb) new (seg_list sb) = Some (g1, of_nat (length l), ov, Some new, l)"
    "queue_ok S isn n (n + WINDOW) l offs1" "length l \<le> length (seg_list sb)"
    "global_config g1 = global_config g"
    using overlaps_from_ok [OF pol new refl q, of g "seg_count sb" "overlap_count sb"] cnt by auto
  let ?sb1 = "sb\<lparr>seg_list := l, seg_count := of_nat (length l), overlap_count := ov\<rparr>"
  have inv1: "stream_inv S isn maxseg c n ?sb1"
    using ovl(2,3) room buf by (auto simp: stream_inv_def)
  show ?thesis
  proof (cases "seg_len new = 0 \<or> insert_sorted new l = None")
    case True
    then show ?thesis
      using False ovl inv1 cfg
      by (auto simp: insert_segment_queue_def handle_queue_overlaps_def same_config_def)
  next
    case new_seg: False
    then obtain l2 where l2: "insert_sorted new l = Some l2"
      by auto
    obtain offs2 where q2: "queue_ok S isn n (n + WINDOW) l2 offs2" "length l2 = Suc (length l)"
      using insert_sorted_ok [OF new ovl(2) l2] by blast
    obtain g3 l3 offs3 where m: "merge_from env g1 (of_nat (length l2)) l2 =
        Some (g3, of_nat (length l3), l3)" "queue_ok S isn n (n + WINDOW) l3 offs3"
      "length l3 \<le> length l2" "global_config g3 = global_config g1"
      using merge_from_ok [OF q2(1), of env g1 "of_nat (length l2)"] by auto
    have inv2: "stream_inv S isn maxseg c n (?sb1\<lparr>seg_list := l2, seg_count := of_nat (length l2)\<rparr>)"
      and inv3: "stream_inv S isn maxseg c n (?sb1\<lparr>seg_list := l3, seg_count := of_nat (length l3)\<rparr>)"
      using q2 m(2,3) ovl(3) room buf by (auto simp: stream_inv_def)
    then show ?thesis
      using new_seg False ovl l2 m q2(2) cfg
      by (auto simp: insert_segment_queue_def handle_queue_overlaps_def try_merge_segments_def
          same_config_def Let_def add.commute)
  qed
qed

lemma process_segment_queue_inv:
  assumes "stream_inv S isn maxseg c n sb"
  shows "\<exists>ret g' sb' n'. process_segment_queue g sb = Some (ret, g', sb') \<and>
    stream_inv S isn maxseg c n' sb' \<and> n \<le> n' \<and> ret = int (n' - n) \<and> same_config g g' sb sb'"
  using assms process_from_inv [of S isn n "seg_list sb" _ c n sb maxseg g 0]
  by (fastforce simp: stream_inv_def process_segment_queue_def)

lemma insert_in_order_inv:
  assumes inv: "stream_inv S isn maxseg c n sb"
    and pl: "unat plen \<le> length pl" "\<forall>i < unat plen. pl ! i = S (n + i)"
  shows "\<exists>ret g' sb' n'. insert_in_order g sb pl plen = Some (ret, g', sb') \<and>
    stream_inv S isn maxseg c n' sb' \<and> same_config g g' sb sb' \<and>
    (if n - c + unat plen \<le> unat (max_buffer_size sb) then ret = uint plen \<and> n + unat plen \<le> n'
     else ret = -1 \<and> n' = n \<and> sb' = sb)"
proof (cases "n - c + unat plen \<le> unat (max_buffer_size sb)")
  case True
  obtain offs where q: "queue_ok S isn n (n + WINDOW) (seg_list sb) offs"
    and buf: "buf_ok S isn c n sb" and cnt: "seg_count sb = of_nat (length (seg_list sb))"
    and len: "length (seg_list sb) \<le> unat maxseg"
    using inv by (auto simp: stream_inv_def)
  let ?sb = "\<lambda>d'. sb\<lparr>sb_data := Some d', data_len := data_len sb + ucast plen,
      next_seq := next_seq sb + ucast plen, total_reassembled := total_reassembled sb + ucast plen\<rparr>"
  obtain d d' where d: "sb_data sb = Some d" "blit d (unat (data_len sb)) pl (unat plen) = Some d'"
    and buf': "buf_ok S isn c (n + unat plen) (?sb d')"
    using buf_ok_append [OF buf True pl] by blast
  have "n + unat plen \<le> n + WINDOW"
    using unat_u16_lt [of plen] WINDOW_lt by simp
  then show ?thesis
    using True d buf_full_iff [OF buf, of plen] cnt len
      process_from_inv [OF q buf', of maxseg "g\<lparr>segments_in_order := segments_in_order g + 1,
        bytes_reassembled := bytes_reassembled g + ucast plen\<rparr>" 0]
    by (fastforce simp: insert_in_order_def process_segment_queue_def same_config_def Let_def)
next
  case False
  then show ?thesis
    using inv buf_full_iff [of S isn c n sb plen]
    by (auto simp: insert_in_order_def stream_inv_def same_config_def Let_def intro!: exI [of _ n])
qed

lemma segment_alloc_ok:
  assumes "unat plen \<le> length pl" "\<forall>i < unat plen. pl ! i = S (a + i)" "lo \<le> a"
    "a + unat plen \<le> hi"
  shows "\<exists>g' r. segment_alloc env g (sq_at isn a) pl plen = Some (g', r) \<and>
    global_config g' = global_config g \<and>
    (case r of None \<Rightarrow> True | Some s \<Rightarrow> seg_ok S isn lo hi s a)"
proof -
  obtain blk where blk: "blit (fresh_block env (Suc (nalloc g)) (unat plen)) 0 pl (unat plen) = Some blk"
    using assms(1) by (simp add: blit_def)
  have "seg_ok S isn lo hi \<lparr>seg_seq = sq_at isn a, seg_len = plen, seg_payload = blk\<rparr> a"
    using assms blit_length [OF blk] blit_nth [OF blk] by (simp add: seg_ok_def)
  then show ?thesis
    using blk by (auto simp: segment_alloc_def mem_add_def Let_def)
qed

text \<open>A received segment: \<open>plen\<close> bytes of the stream from offset \<open>a\<close>, close to the offset \<open>n\<close>.\<close>

definition arrival_ok :: "(nat \<Rightarrow> u8) \<Rightarrow> nat \<Rightarrow> nat \<Rightarrow> bytes \<Rightarrow> u16 \<Rightarrow> bool" where
  "arrival_ok S n a pl plen \<longleftrightarrow> unat plen \<le> length pl \<and> (\<forall>i < unat plen. pl ! i = S (a + i)) \<and>
     n \<le> a + WINDOW \<and> a + unat plen < n + WINDOW"

lemma arrival_trim:
  assumes "arrival_ok S n a pl plen" "k < unat plen"
  shows "arrival_ok S n (a + k) (drop k pl) (ucast (ucast plen - (of_nat k :: u32)))"
    "unat (ucast (ucast plen - (of_nat k :: u32)) :: u16) = unat plen - k"
proof -
  have "ucast plen - (of_nat k :: u32) = of_nat (unat plen - k)"
    using assms(2) by (intro len_minus_overlap) simp
  moreover have "unat plen - k < 65536"
    using unat_u16_lt [of plen] by simp
  ultimately show len: "unat (ucast (ucast plen - (of_nat k :: u32)) :: u16) = unat plen - k"
    using unat_u16_of_u32 [of "unat plen - k"] by simp
  show "arrival_ok S n (a + k) (drop k pl) (ucast (ucast plen - (of_nat k :: u32)))"
    using assms unfolding arrival_ok_def len by (auto simp: add.assoc)
qed

lemma handle_buffer_overlap_ok:
  assumes "arrival_ok S n a pl plen" "next_seq sb = sq_at isn n"
  shows "\<exists>g' sb' b pl' plen'. handle_buffer_overlap g sb (sq_at isn a) pl plen = (g', sb', sq_at isn b, pl', plen') \<and>
    (plen' = 0 \<or> n \<le> b \<and> arrival_ok S n b pl' plen') \<and> global_config g' = global_config g \<and>
    (\<exists>k. sb' = sb\<lparr>overlap_count := k\<rparr>)"
proof -
  have near: "\<bar>int a - int n\<bar> < 2 ^ 31" "\<bar>int (a + unat plen) - int n\<bar> < 2 ^ 31"
    using assms(1) unat_u16_lt [of plen] by (intro near_nat; simp add: arrival_ok_def WINDOW_def)+
  note cmp = seq_compare_sq_at [OF near(1), of isn] seq_compare_sq_at [OF near(2), of isn]
    sq_at_plus_len [of isn a plen] assms(2)
  have self: "\<exists>k. sb = sb\<lparr>overlap_count := k\<rparr>"
    by (rule exI [of _ "overlap_count sb"]) simp
  consider "n \<le> a" | "a < n" "a + unat plen \<le> n" | "a < n" "n < a + unat plen"
    by linarith
  then show ?thesis
  proof cases
    case 1
    then show ?thesis
      using cmp assms(1) self by (auto simp: handle_buffer_overlap_def Let_def)
  next
    case 2
    then show ?thesis
      using cmp self by (auto simp: handle_buffer_overlap_def Let_def)
  next
    case 3
    then have "sq_at isn n - sq_at isn a = of_nat (n - a)" "unat (of_nat (n - a) :: u32) = n - a"
      using unat_u16_lt [of plen] by (auto simp: sq_at_diff simp del: of_nat_diff intro!: unat_of_nat_u32)
    then show ?thesis
      using 3 cmp arrival_trim [OF assms(1), of "n - a"]
      by (auto simp: handle_buffer_overlap_def Let_def simp del: of_nat_diff)
  qed
qed

lemma stream_inv_overlap [simp]:
  "stream_inv S isn maxseg c n (sb\<lparr>overlap_count := k\<rparr>) = stream_inv S isn maxseg c n sb"
  by (simp add: stream_inv_def)

lemma same_config_trans:
  "same_config g g1 sb sb1 \<Longrightarrow> same_config g1 g2 sb1 sb2 \<Longrightarrow> same_config g g2 sb sb2"
  by (simp add: same_config_def)

lemma insert_out_of_order_inv:
  assumes inv: "stream_inv S isn maxseg c n sb" and pol: "favor_new (sb_policy sb)"
    and cfg: "cfg_max_segments (global_config g) = maxseg" and arr: "arrival_ok S n a pl plen"
  shows "\<exists>ret g' sb' n'. insert_out_of_order env g sb (sq_at isn a) pl plen = Some (ret, g', sb') \<and>
    stream_inv S isn maxseg c n' sb' \<and> n \<le> n' \<and> same_config g g' sb sb' \<and>
    (ret = -1 \<and> n' = n \<or> ret = int (n' - n))"
proof -
  let ?g1 = "g\<lparr>segments_out_of_order := segments_out_of_order g + 1\<rparr>"
  have nxt: "next_seq sb = sq_at isn n"
    using inv by (auto simp: stream_inv_def buf_ok_def)
  obtain g2 sb2 b pl2 plen2 where hb: "handle_buffer_overlap ?g1 sb (sq_at isn a) pl plen =
      (g2, sb2, sq_at isn b, pl2, plen2)" "plen2 = 0 \<or> n \<le> b \<and> arrival_ok S n b pl2 plen2"
    "global_config g2 = global_config ?g1" and "\<exists>k. sb2 = sb\<lparr>overlap_count := k\<rparr>"
    using handle_buffer_overlap_ok [OF arr nxt, of ?g1] by blast
  then have inv2: "stream_inv S isn maxseg c n sb2" and same2: "same_config g g2 sb sb2"
    and pol2: "favor_new (sb_policy sb2)"
    using inv pol by (auto simp: same_config_def)
  show ?thesis
  proof (cases "plen2 = 0")
    case True
    then show ?thesis
      using hb inv2 same2 by (auto simp: insert_out_of_order_def Let_def intro!: exI [of _ n])
  next
    case False
    then have arr2: "n \<le> b" "arrival_ok S n b pl2 plen2"
      using hb(2) by auto
    obtain g3 r where al: "segment_alloc env g2 (sq_at isn b) pl2 plen2 = Some (g3, r)"
      "global_config g3 = global_config g2"
      "case r of None \<Rightarrow> True | Some s \<Rightarrow> seg_ok S isn n (n + WINDOW) s b"
      using segment_alloc_ok [of plen2 pl2 S b n "n + WINDOW" env g2 isn] arr2
      by (auto simp: arrival_ok_def)
    have same3: "same_config g g3 sb sb2"
      using same2 al(2) by (simp add: same_config_def)
    show ?thesis
    proof (cases r)
      case None
      then show ?thesis
        using hb(1) al(1) False inv2 same3
        by (auto simp: insert_out_of_order_def Let_def same_config_def intro!: exI [of _ n])
    next
      case (Some new)
      have cfg3: "cfg_max_segments (global_config g3) = maxseg" and new: "seg_ok S isn n (n + WINDOW) new b"
        using al(2,3) hb(3) cfg Some by auto
      obtain ret g4 sb4 where q: "insert_segment_queue env g3 sb2 new = Some (ret, g4, sb4)"
        "stream_inv S isn maxseg c n sb4" "same_config g3 g4 sb2 sb4"
        using insert_segment_queue_inv [OF inv2 pol2 new cfg3] by blast
      obtain ret5 g5 sb5 n5 where p: "process_segment_queue g4 sb4 = Some (ret5, g5, sb5)"
        "stream_inv S isn maxseg c n5 sb5" "n \<le> n5" "ret5 = int (n5 - n)" "same_config g4 g5 sb4 sb5"
        using process_segment_queue_inv [OF q(2), of g4] by blast
      have same4: "same_config g g4 sb sb4" "same_config g g5 sb sb5"
        using same3 q(3) p(5) same_config_trans by blast+
      show ?thesis
        using hb(1) al(1) False Some q p same4
        by (cases "ret < 0") (auto simp: insert_out_of_order_def Let_def)
    qed
  qed
qed

lemma insert_segment_inv:
  assumes inv: "stream_inv S isn maxseg c n sb" and pol: "favor_new (sb_policy sb)"
    and cfg: "cfg_max_segments (global_config g) = maxseg" and arr: "arrival_ok S n a pl plen"
  shows "\<exists>ret g' sb' n'.
    stream_buffer_insert_segment env g (Some sb) (sq_at isn a) (Some pl) plen = Some (ret, g', Some sb') \<and>
    stream_inv S isn maxseg c n' sb' \<and> n \<le> n' \<and> same_config g g' sb sb'"
proof -
  let ?g1 = "g\<lparr>segments_inserted := segments_inserted g + 1\<rparr>"
  have cfg1: "cfg_max_segments (global_config ?g1) = maxseg"
    using cfg by simp
  have sb: "sb_data sb \<noteq> None" "base_seq sb = sq_at isn c" "next_seq sb = sq_at isn n" "c \<le> n" "n \<le> c + WINDOW"
    using inv by (auto simp: stream_inv_def buf_ok_def)
  have near: "\<bar>int a - int c\<bar> < 2 ^ 31" "\<bar>int (a + unat plen) - int c\<bar> < 2 ^ 31" "\<bar>int a - int n\<bar> < 2 ^ 31"
    using arr sb(4,5) unat_u16_lt [of plen] by (intro near_nat; simp add: arrival_ok_def WINDOW_def)+
  have near': "\<bar>int c - int n\<bar> < 2 ^ 31"
    using sb(4,5) by (intro near_nat) (simp_all add: WINDOW_def)
  note cmp = seq_compare_sq_at [OF near(1), of isn] seq_compare_sq_at [OF near(2), of isn]
    sq_at_plus_len [of isn a plen] sb sq_at_inject [OF near(3), of isn] sq_at_inject [OF near', of isn]
  have deliver: "\<exists>ret g' sb' n'.
      (if b = n then insert_in_order ?g1 sb p l else insert_out_of_order env ?g1 sb (sq_at isn b) p l)
        = Some (ret, g', sb') \<and>
      stream_inv S isn maxseg c n' sb' \<and> n \<le> n' \<and> same_config g g' sb sb'"
    if "arrival_ok S n b p l" for b p l
  proof (cases "b = n")
    case True
    then show ?thesis
      using insert_in_order_inv [OF inv, of l p ?g1] that
      by (fastforce simp: arrival_ok_def same_config_def split: if_splits)
  next
    case False
    then show ?thesis
      using insert_out_of_order_inv [OF inv pol cfg1 that, of env] by (fastforce simp: same_config_def)
  qed
  consider "plen = 0" | "plen \<noteq> 0" "a + unat plen \<le> c" | "plen \<noteq> 0" "a < c" "c < a + unat plen"
    | "plen \<noteq> 0" "c \<le> a" "c < a + unat plen"
    by linarith
  then show ?thesis
  proof cases
    case 1
    then show ?thesis
      using inv by (auto simp: stream_buffer_insert_segment_def intro!: exI [of _ n])
  next
    case 2
    then show ?thesis
      using inv cmp by (auto simp: stream_buffer_insert_segment_def Let_def same_config_def
          intro!: exI [of _ n])
  next
    case 3
    let ?k = "c - a"
    have k: "sq_at isn c - sq_at isn a = of_nat ?k" "unat (of_nat ?k :: u32) = ?k" "?k < unat plen"
      using 3 unat_u16_lt [of plen]
      by (auto simp: sq_at_diff simp del: of_nat_diff intro!: unat_of_nat_u32)
    have lt: "\<not> (ucast plen \<le> (of_nat ?k :: u32))"
      using k(2,3) by (simp add: word_le_nat_alt del: of_nat_diff)
    have "arrival_ok S n c (drop ?k pl) (ucast (ucast plen - (of_nat ?k :: u32)))"
      using arrival_trim(1) [OF arr k(3)] 3 by (simp del: of_nat_diff)
    from deliver [OF this] show ?thesis
      using 3 cmp k lt
      by (auto simp: stream_buffer_insert_segment_def Let_def simp del: of_nat_diff split: if_splits)
  next
    case 4
    from deliver [OF arr] show ?thesis
      using 4 cmp by (auto simp: stream_buffer_insert_segment_def Let_def split: if_splits)
  qed
qed

lemma consume_inv:
  assumes inv: "stream_inv S isn maxseg c n sb"
  shows "\<exists>ret g' sb' n'. stream_buffer_consume g (Some sb) k = Some (ret, g', Some sb') \<and>
    stream_inv S isn maxseg (c + min (unat k) (n - c)) n' sb' \<and> n \<le> n' \<and> same_config g g' sb sb'"
proof (cases "k = 0")
  case True
  then show ?thesis
    using inv by (auto simp: stream_buffer_consume_def intro!: exI [of _ n])
next
  case False
  obtain d where d: "sb_data sb = Some d" "length d = unat (max_buffer_size sb)"
    "length d \<le> WINDOW" "base_seq sb = sq_at isn c" "next_seq sb = sq_at isn n" "c \<le> n"
    "unat (data_len sb) = n - c" "n - c \<le> length d" "\<forall>i < n - c. d ! i = S (c + i)"
    using inv by (auto simp: stream_inv_def buf_ok_def)
  let ?m = "min k (data_len sb)" and ?c = "c + min (unat k) (n - c)"
  have m: "unat ?m = min (unat k) (n - c)"
    using d(7) by (simp add: min_def word_le_nat_alt)
  have rest: "unat (data_len sb - ?m) = n - ?c"
    using d(6,7) m by (simp add: unat_sub min_def word_le_nat_alt split: if_splits)
  have lt: "?m < data_len sb \<longleftrightarrow> ?c < n"
    using m d(6,7) by (auto simp: word_less_nat_alt)
  obtain d' where d': "(if ?m < data_len sb then blk_shift d (unat ?m) (unat (data_len sb - ?m)) else Some d) = Some d'"
    "length d' = length d" "\<forall>i < n - ?c. d' ! i = S (?c + i)"
  proof (cases "?m < data_len sb")
    case True
    then have "unat ?m + unat (data_len sb - ?m) \<le> length d"
      using m rest d(6,8) by (simp add: min_def split: if_splits)
    then obtain d' where sh: "blk_shift d (unat ?m) (unat (data_len sb - ?m)) = Some d'"
      by (simp add: blk_shift_def)
    moreover have "d' ! i = S (?c + i)" if "i < n - ?c" for i
      using blk_shift_nth [OF sh, of i] that rest m d(9) by (auto simp: add.assoc)
    ultimately show ?thesis
      using that [of d'] True blk_shift_length [OF sh] by auto
  next
    case False
    then show ?thesis
      using that [of d] lt by auto
  qed
  let ?sb = "sb\<lparr>sb_data := Some d', data_len := data_len sb - ?m, base_seq := base_seq sb + ?m\<rparr>"
  have "base_seq sb + ?m = sq_at isn ?c"
    unfolding m [symmetric] using d(4) sq_at_plus [of isn c "unat ?m"] by simp
  then have "buf_ok S isn ?c n ?sb"
    using d d'(2,3) rest by (auto simp: buf_ok_def)
  then have inv1: "stream_inv S isn maxseg ?c n ?sb"
    using inv by (simp add: stream_inv_def)
  show ?thesis
  proof (cases "seg_list sb = []")
    case True
    then show ?thesis
      using False d d'(1) inv1
      by (auto simp: stream_buffer_consume_def Let_def same_config_def intro!: exI [of _ n])
  next
    case queued: False
    then show ?thesis
      using False d d'(1) process_segment_queue_inv [OF inv1, of g]
      by (fastforce simp: stream_buffer_consume_def Let_def same_config_def)
  qed
qed

section \<open>Runs of a reassembler and its consumer\<close>

text \<open>
  The buffer together with its consumer: \<open>app\<close> are the bytes the application has taken. \<open>Arrive a l\<close>
  is the arrival of \<open>l\<close> bytes of the sender's stream from offset \<open>a\<close>; \<open>Take k\<close> reads
  \<^verbatim>\<open>stream_buffer_get_data\<close> and then consumes \<open>k\<close> bytes.
\<close>

record stream_run =
  glob :: reasm
  buf :: stream_buffer
  app :: bytes

datatype stream_op = Arrive nat nat | Take u32

definition delivered :: "stream_run \<Rightarrow> nat" where
  "delivered r = length (app r) + unat (data_len (buf r))"

definition run_data :: "stream_run \<Rightarrow> bytes" where
  "run_data r = (case stream_buffer_get_data (Some (buf r)) of
     Some (Some d, n) \<Rightarrow> take (unat n) d | _ \<Rightarrow> [])"

fun stream_step ::
  "rte_env \<Rightarrow> (nat \<Rightarrow> u8) \<Rightarrow> u32 \<Rightarrow> stream_op \<Rightarrow> stream_run \<Rightarrow> stream_run option" where
  "stream_step env S isn (Arrive a l) r =
    (case stream_buffer_insert_segment env (glob r) (Some (buf r)) (isn + of_nat a)
            (Some (map S [a..<a + l])) (of_nat l) of
       Some (_, g', Some sb') \<Rightarrow> Some (r\<lparr>glob := g', buf := sb'\<rparr>)
     | _ \<Rightarrow> None)"
| "stream_step env S isn (Take k) r =
    (case stream_buffer_consume (glob r) (Some (buf r)) k of
       Some (_, g', Some sb') \<Rightarrow>
         Some (r\<lparr>glob := g', buf := sb', app := app r @ take (unat k) (run_data r)\<rparr>)
     | _ \<Rightarrow> None)"

text \<open>Arrivals lie less than \<open>2 ^ 30\<close> bytes from the delivered offset and fit a 16-bit length.\<close>

fun stream_legal :: "stream_op \<Rightarrow> stream_run \<Rightarrow> bool" where
  "stream_legal (Arrive a l) r \<longleftrightarrow> l < 65536 \<and> delivered r \<le> a + WINDOW \<and> a + l < delivered r + WINDOW"
| "stream_legal (Take k) r \<longleftrightarrow> True"

definition run_inv :: "(nat \<Rightarrow> u8) \<Rightarrow> u32 \<Rightarrow> stream_run \<Rightarrow> bool" where
  "run_inv S isn r \<longleftrightarrow> favor_new (sb_policy (buf r)) \<and> app r = map S [0..<length (app r)] \<and>
     stream_inv S isn (cfg_max_segments (global_config (glob r))) (length (app r)) (delivered r) (buf r)"

lemma buf_ok_len: "buf_ok S isn c n sb \<Longrightarrow> n = c + unat (data_len sb)"
  by (auto simp: buf_ok_def)

lemma run_inv_data:
  assumes "run_inv S isn r"
  shows "run_data r = map S [length (app r)..<delivered r]"
  using assms
  by (auto simp: run_inv_def stream_inv_def buf_ok_def run_data_def stream_buffer_get_data_def
      delivered_def intro!: nth_equalityI)

lemma run_inv_all:
  assumes "run_inv S isn r"
  shows "app r @ run_data r = map S [0..<delivered r]"
proof -
  have le: "length (app r) \<le> delivered r"
    by (simp add: delivered_def)
  have "app r @ run_data r = map S ([0..<length (app r)] @ [length (app r)..<delivered r])"
    using assms run_inv_data [OF assms] by (simp add: run_inv_def)
  also have "\<dots> = map S [0..<delivered r]"
    using upt_add_eq_append [of 0 "length (app r)" "delivered r - length (app r)"] le by simp
  finally show ?thesis .
qed

lemma map_upt_append:
  assumes "xs = map S [0..<length xs]" "ys = map S [length xs..<length xs + m]"
  shows "xs @ ys = map S [0..<length (xs @ ys)]"
proof -
  have len: "length (xs @ ys) = length xs + m"
    by (simp add: assms(2))
  have "map S [0..<length xs + m] = map S [0..<length xs] @ map S [length xs..<length xs + m]"
    using upt_add_eq_append [of 0 "length xs" m] by (simp only: map_append le0)
  also have "\<dots> = xs @ ys"
    by (simp only: assms(1) [symmetric] assms(2) [symmetric])
  finally show ?thesis
    by (simp only: len)
qed

lemma stream_step_inv:
  assumes inv: "run_inv S isn r" and legal: "stream_legal x r"
  shows "\<exists>r'. stream_step env S isn x r = Some r' \<and> run_inv S isn r'"
proof (cases x)
  case (Arrive a l)
  have l: "unat (of_nat l :: u16) = l"
    using legal Arrive by (intro unat_of_nat_u16) simp
  have arr: "arrival_ok S (delivered r) a (map S [a..<a + l]) (of_nat l)"
    using legal Arrive unfolding arrival_ok_def l by simp
  obtain ret g' sb' n' where ins:
    "stream_buffer_insert_segment env (glob r) (Some (buf r)) (sq_at isn a)
       (Some (map S [a..<a + l])) (of_nat l) = Some (ret, g', Some sb')"
    "stream_inv S isn (cfg_max_segments (global_config (glob r))) (length (app r)) n' sb'"
    "same_config (glob r) g' (buf r) sb'"
    using inv insert_segment_inv [OF _ _ refl arr]
    unfolding run_inv_def by blast
  then have "n' = length (app r) + unat (data_len sb')"
    by (intro buf_ok_len) (auto simp: stream_inv_def)
  then show ?thesis
    using Arrive inv ins by (auto simp: run_inv_def same_config_def delivered_def sq_at_def)
next
  case (Take k)
  let ?t = "take (unat k) (run_data r)"
  have t: "?t = map S [length (app r)..<length (app r) + min (unat k) (delivered r - length (app r))]"
    by (rule nth_equalityI) (auto simp: run_inv_data [OF inv])
  obtain ret g' sb' n' where con:
    "stream_buffer_consume (glob r) (Some (buf r)) k = Some (ret, g', Some sb')"
    "stream_inv S isn (cfg_max_segments (global_config (glob r))) (length (app r @ ?t)) n' sb'"
    "same_config (glob r) g' (buf r) sb'"
    using inv consume_inv [of S isn _ "length (app r)" "delivered r" "buf r" "glob r" k] t
    unfolding run_inv_def by fastforce
  then have "n' = length (app r @ ?t) + unat (data_len sb')"
    by (intro buf_ok_len) (auto simp: stream_inv_def)
  moreover have "app r @ ?t = map S [0..<length (app r @ ?t)]"
    using inv map_upt_append [OF _ t] by (simp add: run_inv_def)
  ultimately show ?thesis
    using Take inv con by (auto simp: run_inv_def same_config_def delivered_def)
qed

interpretation stream: guarded_machine "stream_step env S isn" stream_legal "run_inv S isn"
  for env S isn
  by unfold_locales (rule stream_step_inv)

section \<open>Properties\<close>

text \<open>The state after \<^verbatim>\<open>stream_buffer_init\<close>, and that it satisfies the invariant.\<close>

definition stream_run_start :: "rte_env \<Rightarrow> reasm \<Rightarrow> u32 \<Rightarrow> os_policy \<Rightarrow> stream_run option" where
  "stream_run_start env g isn policy =
    (case stream_buffer_init env g (Some stream_buffer_zero) isn policy of
       (ret, g', Some sb) \<Rightarrow> if ret = 0 then Some \<lparr>glob = g', buf = sb, app = []\<rparr> else None
     | _ \<Rightarrow> None)"

lemma stream_run_start_inv:
  assumes "stream_run_start env g isn policy = Some r" "favor_new policy"
    "unat (cfg_max_buffer_size (global_config g)) \<le> WINDOW"
  shows "run_inv S isn r"
proof -
  have "queue_ok S isn 0 (0 + WINDOW) [] []"
    by simp
  then show ?thesis
    using assms
    by (auto simp: stream_run_start_def stream_buffer_init_def Let_def run_inv_def stream_inv_def
        buf_ok_def delivered_def sq_at_def mem_add_def stream_buffer_zero_def
        simp del: queue_ok_Nil split: if_splits)
qed

text \<open>C1: Reassembly is correct for the policies that favour new data: take any sender stream and any
  sequence of segment arrivals (in any order, duplicated, overlapping, retransmitted, with failing
  allocations, dropped when the queue or the buffer is full, across the wrap-around of sequence
  numbers) less than \<open>2 ^ 30\<close> bytes from the delivered offset, interleaved with reads of the
  consumer. The code never leaves a memory block, the bytes the application has taken followed by
  the bytes in the buffer are exactly the stream's first \<open>delivered\<close> bytes, and the queue stays
  within \<^verbatim>\<open>max_segments\<close>.\<close>

theorem reassembly_delivers_stream_prefix:
  assumes "stream_run_start env g isn policy = Some r" and "favor_new policy"
    and "unat (cfg_max_buffer_size (global_config g)) \<le> 2 ^ 30"
    and "legal_run (stream_step env S isn) stream_legal ops r"
  shows "\<exists>r'. run_ops (stream_step env S isn) ops r = Some r' \<and>
    app r' @ run_data r' = map S [0..<delivered r'] \<and>
    length (seg_list (buf r')) \<le> unat (cfg_max_segments (global_config (glob r')))"
proof -
  have "run_inv S isn r"
    using stream_run_start_inv [OF assms(1,2)] assms(3) by (simp add: WINDOW_def)
  then obtain r' where r': "run_ops (stream_step env S isn) ops r = Some r'" "run_inv S isn r'"
    using stream.run_safe [OF _ assms(4)] by blast
  then show ?thesis
    using run_inv_all [OF r'(2)] by (auto simp: run_inv_def stream_inv_def)
qed

text \<open>A run across the wrap-around of the sequence space: the second half of a four-byte stream
  arrives first.\<close>

definition demo_env :: rte_env where
  "demo_env = \<lparr>malloc_ok = \<lambda>_. True, malloc_junk = \<lambda>_ _. 0xAA\<rparr>"

definition demo_reasm :: reasm where
  "demo_reasm = reasm_start\<lparr>global_config := \<lparr>cfg_max_buffer_size = 8, cfg_max_segments = 3,
     cfg_default_policy = OS_POLICY_LINUX\<rparr>\<rparr>"

definition demo_stream :: "nat \<Rightarrow> u8" where
  "demo_stream i = of_nat (i + 65)"

theorem reassembly_delivers_stream_prefix_witness:
  "\<exists>r r'. stream_run_start demo_env demo_reasm 0xFFFFFFFE OS_POLICY_LINUX = Some r \<and>
     run_ops (stream_step demo_env demo_stream 0xFFFFFFFE) [Arrive 2 2, Arrive 0 2, Take 3] r = Some r' \<and>
     app r' @ run_data r' = map demo_stream [0..<delivered r']"
proof -
  let ?step = "stream_step demo_env demo_stream 0xFFFFFFFE"
  have "map_option delivered (stream_run_start demo_env demo_reasm 0xFFFFFFFE OS_POLICY_LINUX) = Some 0"
    by code_simp
  then obtain r where r: "stream_run_start demo_env demo_reasm 0xFFFFFFFE OS_POLICY_LINUX = Some r"
    "delivered r = 0"
    by auto
  have "map_option delivered (Option.bind (stream_run_start demo_env demo_reasm 0xFFFFFFFE
      OS_POLICY_LINUX) (?step (Arrive 2 2))) = Some 0"
    by code_simp
  then obtain r1 where r1: "?step (Arrive 2 2) r = Some r1" "delivered r1 = 0"
    using r by auto
  have "stream_legal (Arrive 2 2) r" "stream_legal (Arrive 0 2) r1"
    using r(2) r1(2) by (simp_all add: WINDOW_def)
  then have "legal_run ?step stream_legal [Arrive 2 2, Arrive 0 2, Take 3] r"
    using r1(1) by (simp del: stream_legal.simps(1) stream_step.simps split: option.splits)
  from reassembly_delivers_stream_prefix [OF r(1) _ _ this] show ?thesis
    using r(1) by (auto simp: demo_reasm_def)
qed

text \<open>The other policies: a new segment that contains a queued one is freed by
  \<^verbatim>\<open>handle_queue_overlaps\<close> and then read by \<^verbatim>\<open>insert_segment_queue\<close>.\<close>

lemma overlaps_from_contained_head:
  assumes "\<not> favor_new pol" "seq_compare (seg_seq new) (seg_seq cur) \<le> 0"
    "seq_compare (seg_end new) (seg_end cur) \<ge> 0"
  shows "overlaps_from pol (seg_end new) g cnt ov new (cur # rest) =
    Some (segment_free g new, cnt, ov, None, cur # rest)"
  using assms by (simp add: Let_def)

text \<open>Use after free under the policies that favour old data (BSD, FIRST): whenever the queue is
  not full and the new segment covers the first queued segment, \<^verbatim>\<open>insert_segment_queue\<close> uses the new
  segment after it has been freed.\<close>

theorem insert_queue_use_after_free:
  assumes "\<not> favor_new (sb_policy sb)" "seg_count sb < cfg_max_segments (global_config g)"
    and "seg_list sb = cur # rest" "seq_compare (seg_seq new) (seg_seq cur) \<le> 0"
    "seq_compare (seg_end new) (seg_end cur) \<ge> 0"
  shows "insert_segment_queue env g sb new = None"
  using assms overlaps_from_contained_head [OF assms(1,4,5), of g "seg_count sb" "overlap_count sb" rest]
  by (simp add: insert_segment_queue_def handle_queue_overlaps_def not_le [symmetric])

definition uaf_queue :: stream_buffer where
  "uaf_queue = stream_buffer_zero\<lparr>seg_list := [\<lparr>seg_seq = 110, seg_len = 1, seg_payload = [7]\<rparr>], seg_count := 1\<rparr>"

theorem insert_queue_use_after_free_witness:
  "insert_segment_queue \<lparr>malloc_ok = \<lambda>_. True, malloc_junk = \<lambda>_ _. 0\<rparr> reasm_start uaf_queue
     \<lparr>seg_seq = 105, seg_len = 10, seg_payload = replicate 10 0\<rparr> = None"
  by (rule insert_queue_use_after_free)
    (auto simp: uaf_queue_def stream_buffer_zero_def reasm_start_def seq_compare_def seg_end_def)

text \<open>Nothing that could be delivered is left waiting.\<close>

definition drained :: "stream_buffer \<Rightarrow> bool" where
  "drained sb \<longleftrightarrow> (case seg_list sb of [] \<Rightarrow> True
     | s # _ \<Rightarrow> sint (seg_seq s - next_seq sb) > 0 \<or>
         seg_seq s = next_seq sb \<and> max_buffer_size sb < data_len sb + ucast (seg_len s))"

lemma process_from_drained: "process_from g sb acc segs = Some (ret, g', sb') \<Longrightarrow> drained sb'"
  by (induction segs arbitrary: g sb acc)
    (auto simp: drained_def bind_eq_Some_conv split: if_splits)

text \<open>After \<^verbatim>\<open>process_segment_queue\<close> the queue is empty, or its first segment lies beyond a gap, or
  it is the next one and does not fit into the buffer: no deliverable segment is left behind.\<close>

theorem process_queue_drains:
  assumes "process_segment_queue g sb = Some (ret, g', sb')"
  shows "drained sb'"
  using process_from_drained assms unfolding process_segment_queue_def by blast

text \<open>Progress: an in-order segment of stream bytes that fits into the buffer is delivered at
  once. The call returns the payload length, the delivered offset advances by at least that much,
  and the content invariant holds.\<close>

theorem insert_in_order_progress:
  assumes "stream_inv S isn maxseg c n sb" "unat plen \<le> length pl" "\<forall>i < unat plen. pl ! i = S (n + i)"
    and "n - c + unat plen \<le> unat (max_buffer_size sb)"
  shows "\<exists>g' sb' n'. insert_in_order g sb pl plen = Some (uint plen, g', sb') \<and>
    n + unat plen \<le> n' \<and> stream_inv S isn maxseg c n' sb'"
  using insert_in_order_inv [OF assms(1-3), of g] assms(4) by fastforce

theorem process_queue_drains_witness:
  "\<exists>ret g' sb'. process_segment_queue reasm_start uaf_queue = Some (ret, g', sb') \<and> drained sb'"
proof -
  obtain ret g' sb' where "process_segment_queue reasm_start uaf_queue = Some (ret, g', sb')"
    by (auto simp: process_segment_queue_def uaf_queue_def stream_buffer_zero_def)
  then show ?thesis
    using process_queue_drains by blast
qed

theorem insert_in_order_progress_witness:
  "\<exists>g' sb' n'. insert_in_order reasm_start
       (stream_buffer_zero\<lparr>sb_data := Some [0, 0, 0], max_buffer_size := 3\<rparr>) [65, 66] 2 = Some (2, g', sb') \<and>
     1 < n' \<and> stream_inv demo_stream 0 3 0 n' sb'"
proof -
  let ?sb = "stream_buffer_zero\<lparr>sb_data := Some [0, 0, 0], max_buffer_size := 3\<rparr>"
  have "queue_ok demo_stream 0 0 (0 + WINDOW) [] []"
    by simp
  then have "stream_inv demo_stream 0 3 0 0 ?sb"
    by (auto simp: stream_inv_def buf_ok_def stream_buffer_zero_def sq_at_def WINDOW_def
        simp del: queue_ok_Nil)
  moreover have "\<forall>i < unat (2 :: u16). [65, 66] ! i = demo_stream (0 + i)"
    by (auto simp: demo_stream_def less_2_cases_iff)
  ultimately show ?thesis
    using insert_in_order_progress [of demo_stream 0 3 0 0 ?sb 2 "[65, 66]" reasm_start] by (auto simp: Suc_le_eq)
qed

text \<open>Data loss on overlap with the queue: bytes 2 and 3 of a stream are queued, then bytes 0 to 2
  arrive in order. The queued segment now starts before \<^verbatim>\<open>next_seq\<close> and is dropped as a whole:
  byte 3, which was received, is neither delivered nor queued any more.\<close>

theorem in_order_overlap_drops_queued_tail:
  "map_option (\<lambda>r. (delivered r, seg_list (buf r)))
     (Option.bind (stream_run_start demo_env demo_reasm 1000 OS_POLICY_LINUX)
        (run_ops (stream_step demo_env demo_stream 1000) [Arrive 2 2, Arrive 0 3])) = Some (3, [])"
  by code_simp
end
