(* ===== verification/Stream_Safety.thy ===== *)
theory Stream_Safety
  imports Stream_Reassemble
begin

text \<open>
  Memory safety of stream reassembly under arbitrary traffic. The theory of reassembly proves that
  a well-behaved sender's stream is delivered; here nothing is assumed about sequence numbers,
  overlaps or contents, as for packets of an attacker. With a policy that favours new data no
  operation leaves a block or uses a freed segment, because two sequence comparisons around a
  segment bound the wrapped differences by its 16-bit length.
\<close>

section \<open>Comparisons around a segment\<close>

lemma bit31_iff: "(w :: u32) AND 0x80000000 \<noteq> 0 \<longleftrightarrow> 2 ^ 31 \<le> unat w"
proof -
  have "w AND 0x80000000 \<noteq> 0 \<longleftrightarrow> bit w 31"
    using and_exp_eq_0_iff_not_bit [of w 31] by simp
  also have "\<dots> \<longleftrightarrow> bit (unat w) 31"
    by (simp add: bit_unsigned_iff)
  also have "\<dots> \<longleftrightarrow> odd (unat w div 2 ^ 31)"
    by (simp add: bit_iff_odd)
  also have "\<dots> \<longleftrightarrow> 2 ^ 31 \<le> unat w"
  proof -
    have "unat w div 2 ^ 31 < 2"
      using unat_u32_lt [of w] by simp
    then have "odd (unat w div 2 ^ 31) \<longleftrightarrow> unat w div 2 ^ 31 \<noteq> 0"
      by (auto simp: less_2_cases_iff)
    then show ?thesis
      by (simp add: div_eq_0_iff not_less)
  qed
  finally show ?thesis .
qed

lemma seq_compare_unat:
  "seq_compare a b \<ge> 0 \<longleftrightarrow> unat (a - b) < 2 ^ 31"
  "seq_compare a b > 0 \<longleftrightarrow> a \<noteq> b \<and> unat (a - b) < 2 ^ 31"
  "seq_compare a b < 0 \<longleftrightarrow> 2 ^ 31 \<le> unat (a - b)"
  "seq_compare a b \<le> 0 \<longleftrightarrow> a = b \<or> 2 ^ 31 \<le> unat (a - b)"
  using bit31_iff [of "a - b"] by (auto simp: seq_compare_def)

lemma unat_minus_swap: "a \<noteq> b \<Longrightarrow> unat (b - a :: u32) = 2 ^ 32 - unat (a - b)"
  using unat_u32_lt [of a] unat_u32_lt [of b]
  by (auto simp: unat_sub_if' word_unat_eq_iff)

lemma unat_add_u32: "unat x + unat y < 2 ^ 32 \<Longrightarrow> unat (x + y :: u32) = unat x + unat y"
  by (simp add: unat_plus_if')

text \<open>A point at or after the start of a segment and before its end splits the length.\<close>

lemma seg_split:
  fixes a e :: u32 and l :: u16
  assumes "unat (e - a) < 2 ^ 31" "seq_compare e (a + ucast l) < 0"
  shows "unat (e - a) + unat (a + ucast l - e) = unat l" "0 < unat (a + ucast l - e)"
proof -
  let ?b = "a + ucast l :: u32"
  have ne: "e \<noteq> ?b"
    using assms(2) by (auto simp: seq_compare_unat)
  have up: "unat (?b - e) \<le> 2 ^ 31"
    using assms(2) unat_minus_swap [OF ne] by (simp add: seq_compare_unat)
  have sum: "(e - a) + (?b - e) = ucast l"
    by simp
  have "unat (e - a) + unat (?b - e) < 2 ^ 32"
    using assms(1) up by simp
  from unat_add_u32 [OF this] show "unat (e - a) + unat (?b - e) = unat l"
    unfolding sum by simp
  show "0 < unat (?b - e)"
    using ne by (simp add: unat_gt_0)
qed

section \<open>The queue operations are safe\<close>

definition seg_safe :: "tcp_segment \<Rightarrow> bool" where
  "seg_safe s \<longleftrightarrow> unat (seg_len s) \<le> length (seg_payload s)"

lemma unat_low16: "unat (w :: u32) < 65536 \<Longrightarrow> unat (ucast w :: u16) = unat w"
  by (simp add: unsigned_ucast_eq take_bit_nat_eq_self)

lemma ucast_low16: "unat (w :: u32) < 65536 \<Longrightarrow> ucast (ucast w :: u16) = w"
  by (rule word_unat_eq_iff [THEN iffD2]) (simp add: unat_low16)

lemma overlap_start_safe:
  assumes "favor_new pol" "seg_safe cur"
  shows "\<exists>cur' i. overlap_start pol ne (seg_end cur) new cur = Some (new, cur', i) \<and>
    seg_safe cur' \<and> seg_end cur' = seg_end cur"
proof (cases "seq_compare (seg_seq new) (seg_seq cur) < 0 \<and> seq_compare ne (seg_seq cur) > 0
        \<and> seq_compare ne (seg_end cur) < 0")
  case True
  let ?k = "ne - seg_seq cur" and ?r = "seg_end cur - ne"
  have sum: "unat ?k + unat ?r = unat (seg_len cur)"
    using seg_split(1) [of ne "seg_seq cur" "seg_len cur"] True
    by (simp add: seg_end_def seq_compare_unat)
  have r: "ucast (seg_len cur) - ?k = ?r"
    by (simp add: seg_end_def)
  have small: "unat ?r < 65536"
    using sum unat_u16_lt [of "seg_len cur"] by linarith
  obtain blk where blk: "blk_shift (seg_payload cur) (unat ?k) (unat ?r) = Some blk"
    using sum assms(2) by (simp add: blk_shift_def seg_safe_def)
  have "overlap_start pol ne (seg_end cur) new cur =
      Some (new, cur\<lparr>seg_seq := ne, seg_payload := blk, seg_len := ucast ?r\<rparr>, 1)"
    unfolding overlap_start_def Let_def r blk using True assms(1) by simp
  moreover have "seg_safe (cur\<lparr>seg_seq := ne, seg_payload := blk, seg_len := ucast ?r\<rparr>)"
    using blk_shift_length [OF blk] sum assms(2) unat_low16 [OF small] by (simp add: seg_safe_def)
  moreover have "seg_end (cur\<lparr>seg_seq := ne, seg_payload := blk, seg_len := ucast ?r\<rparr>) = seg_end cur"
    using ucast_low16 [OF small] by (simp add: seg_end_def)
  ultimately show ?thesis
    by blast
next
  case False
  then show ?thesis
    using assms(2) by (auto simp: overlap_start_def)
qed

lemma overlap_end_safe:
  assumes "favor_new pol" "seg_safe cur" "ce = seg_end cur"
  shows "\<exists>cur' i. overlap_end pol ne ce new cur = Some (new, cur', i) \<and> seg_safe cur'"
proof (cases "seq_compare (seg_seq new) (seg_seq cur) > 0 \<and> seq_compare (seg_seq new) ce < 0
        \<and> seq_compare ne ce \<ge> 0")
  case True
  have sum: "unat (seg_seq new - seg_seq cur) + unat (ce - seg_seq new) = unat (seg_len cur)"
    using seg_split(1) [of "seg_seq new" "seg_seq cur" "seg_len cur"] True assms(3)
    by (simp add: seg_end_def seq_compare_unat)
  then have "unat (seg_seq new - seg_seq cur) < 65536"
    using unat_u16_lt [of "seg_len cur"] by linarith
  then have "seg_safe (cur\<lparr>seg_len := ucast (seg_seq new - seg_seq cur)\<rparr>)"
    using sum assms(2) by (simp add: seg_safe_def unat_low16)
  then show ?thesis
    using True assms(1) by (auto simp: overlap_end_def)
next
  case False
  then show ?thesis
    using assms(2) by (auto simp: overlap_end_def)
qed

lemma overlaps_from_safe:
  assumes "favor_new pol" "\<forall>s \<in> set segs. seg_safe s"
  shows "\<exists>g' ov' l. overlaps_from pol ne g cnt ov new segs =
      Some (g', cnt + of_nat (length l) - of_nat (length segs), ov', Some new, l) \<and>
    (\<forall>s \<in> set l. seg_safe s) \<and> length l \<le> length segs \<and> global_config g' = global_config g"
  using assms(2)
proof (induction segs arbitrary: g cnt ov)
  case (Cons cur segs)
  show ?case
  proof (cases "seq_compare (seg_seq new) (seg_seq cur) \<le> 0 \<and> seq_compare ne (seg_end cur) \<ge> 0")
    case True
    then show ?thesis
      using Cons.IH [of "segment_free g cur" "cnt - 1" "ov + 1"] Cons.prems assms(1)
      by (fastforce simp: Let_def algebra_simps)
  next
    case False
    obtain c1 i where c1: "overlap_start pol ne (seg_end cur) new cur = Some (new, c1, i)"
      "seg_safe c1" "seg_end c1 = seg_end cur"
      using overlap_start_safe [OF assms(1), of cur ne new] Cons.prems by auto
    obtain c2 j where c2: "overlap_end pol ne (seg_end cur) new c1 = Some (new, c2, j)" "seg_safe c2"
      using overlap_end_safe [OF assms(1) c1(2), of "seg_end cur" ne new] c1(3) by auto
    obtain g' ov' l where IH: "overlaps_from pol ne g cnt (ov + i + j) new segs =
        Some (g', cnt + of_nat (length l) - of_nat (length segs), ov', Some new, l)"
      "\<forall>s \<in> set l. seg_safe s" "length l \<le> length segs" "global_config g' = global_config g"
      using Cons.IH [of g cnt "ov + i + j"] Cons.prems by auto
    have "overlaps_from pol ne g cnt ov new (cur # segs) =
        Some (g', cnt + of_nat (length l) - of_nat (length segs), ov', Some new, c2 # l)"
      using False c1(1) c2(1) IH(1) by (auto simp: Let_def)
    then show ?thesis
      using IH(2-4) c2(2) by (intro exI [of _ g'] exI [of _ ov'] exI [of _ "c2 # l"]) auto
  qed
qed auto

lemma insert_sorted_set:
  "insert_sorted new segs = Some l \<Longrightarrow> set l = insert new (set segs) \<and> length l = Suc (length segs)"
  by (induction segs arbitrary: l) (auto simp: Let_def split: if_splits)

lemma merge_two_safe:
  assumes "seg_safe cur" "seg_safe nxt" "seq_compare (seg_end cur) (seg_seq nxt) \<ge> 0"
    "\<not> seq_compare (seg_end nxt) (seg_end cur) \<le> 0"
  shows "\<exists>m. merge_two env k cur nxt = Some m \<and> seg_safe m"
proof -
  let ?ov = "seg_end cur - seg_seq nxt" and ?e = "seg_end nxt - seg_end cur"
    and ?ml = "seg_end nxt - seg_seq cur"
  have lt: "seq_compare (seg_end cur) (seg_end nxt) < 0"
  proof -
    have "seg_end nxt \<noteq> seg_end cur" "unat ?e < 2 ^ 31"
      using assms(4) by (simp_all add: seq_compare_unat)
    then show ?thesis
      using unat_minus_swap [of "seg_end nxt" "seg_end cur"] by (simp add: seq_compare_unat)
  qed
  have sum: "unat ?ov + unat ?e = unat (seg_len nxt)" and pos: "0 < unat ?e"
    using seg_split [of "seg_end cur" "seg_seq nxt" "seg_len nxt"] assms(3) lt
    by (simp_all add: seg_end_def seq_compare_unat)
  have rest: "ucast (seg_len nxt) - ?ov = ?e"
    by (simp add: seg_end_def)
  have ml: "?ml = ucast (seg_len cur) + ?e"
    by (simp add: seg_end_def)
  have uml: "unat ?ml = unat (seg_len cur) + unat ?e"
    unfolding ml using sum unat_u16_lt [of "seg_len cur"] unat_u16_lt [of "seg_len nxt"]
    by (subst unat_add_u32) auto
  have ovl: "?ov < ucast (seg_len nxt)"
    using sum pos by (simp add: word_less_nat_alt)
  obtain p1 where p1: "blit (fresh_block env k (unat ?ml)) 0 (seg_payload cur) (unat (seg_len cur)) = Some p1"
    using uml assms(1) by (simp add: blit_def seg_safe_def)
  have room: "unat ?e \<le> length (seg_payload nxt) - unat ?ov"
    using sum assms(2) by (simp add: seg_safe_def le_diff_conv2)
  obtain p2 where p2: "blit p1 (unat (seg_len cur)) (drop (unat ?ov) (seg_payload nxt)) (unat ?e) = Some p2"
    using uml room blit_length [OF p1] by (simp add: blit_def)
  have "merge_two env k cur nxt = Some (cur\<lparr>seg_payload := p2, seg_len := ucast ?ml\<rparr>)"
    unfolding merge_two_def Let_def rest p1 using ovl p2 by simp
  moreover have "unat (ucast ?ml :: u16) \<le> unat ?ml"
    by (simp add: unsigned_ucast_eq)
  ultimately show ?thesis
    using blit_length [OF p1] blit_length [OF p2] by (simp add: seg_safe_def)
qed

lemma merge_from_safe:
  assumes "\<forall>s \<in> set segs. seg_safe s"
  shows "\<exists>g' l. merge_from env g cnt segs = Some (g', cnt + of_nat (length l) - of_nat (length segs), l) \<and>
    (\<forall>s \<in> set l. seg_safe s) \<and> length l \<le> length segs \<and> global_config g' = global_config g"
  using assms
proof (induction env g cnt segs rule: merge_from.induct)
  case (1 env g cnt cur nxt rest)
  let ?goal = "\<lambda>g1 res segs'. \<exists>g' l. res = Some (g', cnt + of_nat (length l) - of_nat (length segs'), l) \<and>
      (\<forall>s \<in> set l. seg_safe s) \<and> length l \<le> length segs' \<and> global_config g' = global_config g1"
  have keep: "?goal g1 (do { (g2, cnt2, l) \<leftarrow> merge_from env g1 cnt (nxt # rest); Some (g2, cnt2, cur # l) })
      (cur # nxt # rest)"
    if "?goal g1 (merge_from env g1 cnt (nxt # rest)) (nxt # rest)" for g1
    using that "1.prems" by fastforce
  have drop: "?goal g (merge_from env g2 (cnt - 1) (m # rest)) (cur # nxt # rest)"
    if "\<exists>g' l. merge_from env g2 (cnt - 1) (m # rest) =
        Some (g', cnt - 1 + of_nat (length l) - of_nat (length (m # rest)), l) \<and>
      (\<forall>s \<in> set l. seg_safe s) \<and> length l \<le> length (m # rest) \<and> global_config g' = global_config g2"
      and "global_config g2 = global_config g" for g2 m
    using that by fastforce
  have safe: "seg_safe cur" "seg_safe nxt" "\<forall>s \<in> set rest. seg_safe s"
    using "1.prems" by auto
  consider "\<not> seq_compare (seg_end cur) (seg_seq nxt) \<ge> 0"
    | "seq_compare (seg_end cur) (seg_seq nxt) \<ge> 0" "seq_compare (seg_end nxt) (seg_end cur) \<le> 0"
    | "seq_compare (seg_end cur) (seg_seq nxt) \<ge> 0" "\<not> seq_compare (seg_end nxt) (seg_end cur) \<le> 0"
      "\<not> rte_malloc_ok env (nalloc g) (unat (seg_end nxt - seg_seq cur))"
    | "seq_compare (seg_end cur) (seg_seq nxt) \<ge> 0" "\<not> seq_compare (seg_end nxt) (seg_end cur) \<le> 0"
      "rte_malloc_ok env (nalloc g) (unat (seg_end nxt - seg_seq cur))"
    by blast
  then show ?case
  proof cases
    case 1
    show ?thesis
      using keep [OF "1.IH"(4)] 1 safe by simp
  next
    case 2
    show ?thesis
      using drop [OF "1.IH"(1)] 2 safe by simp
  next
    case 3
    show ?thesis
      using keep [OF "1.IH"(3) [OF _ _ refl refl]] 3 safe by (simp add: Let_def)
  next
    case 4
    obtain m where m: "merge_two env (nalloc g) cur nxt = Some m" "seg_safe m"
      using merge_two_safe [OF safe(1,2) 4(1,2)] by blast
    show ?thesis
      using drop [OF "1.IH"(2) [OF _ _ refl refl]] 4 m safe by (simp add: Let_def)
  qed
qed auto

section \<open>The buffer operations are safe\<close>

text \<open>Buffers that may meet arbitrary traffic: the data block has the size of the configuration, the
  fill level fits, queued segments are complete, and the policy of an initialised buffer favours
  new data (\<^verbatim>\<open>flow.c\<close> always passes \<^verbatim>\<open>OS_POLICY_LINUX\<close>).\<close>

definition stream_safe :: "u32 \<Rightarrow> stream_buffer \<Rightarrow> bool" where
  "stream_safe maxseg sb \<longleftrightarrow>
     (case sb_data sb of
        None \<Rightarrow> seg_list sb = []
      | Some d \<Rightarrow> length d = unat (max_buffer_size sb) \<and> length d < 2 ^ 32 - 65536 \<and>
          data_len sb \<le> max_buffer_size sb \<and> favor_new (sb_policy sb)) \<and>
     (\<forall>s \<in> set (seg_list sb). seg_safe s) \<and>
     seg_count sb = of_nat (length (seg_list sb)) \<and> length (seg_list sb) \<le> unat maxseg"

lemma append_safe:
  assumes "sb_data sb = Some d" "length d = unat (max_buffer_size sb)" "length d < 2 ^ 32 - 65536"
    "data_len sb \<le> max_buffer_size sb" "\<not> data_len sb + ucast (l :: u16) > max_buffer_size sb"
    "unat l \<le> length pl"
  shows "\<exists>d'. blit d (unat (data_len sb)) pl (unat l) = Some d' \<and> length d' = length d \<and>
    data_len sb + ucast l \<le> max_buffer_size sb"
proof -
  have "unat (data_len sb + ucast l) = unat (data_len sb) + unat l"
    using assms(2-4) unat_u16_lt [of l] by (subst unat_add_u32) (auto simp: word_le_nat_alt)
  then have "unat (data_len sb) + unat l \<le> length d"
    using assms(2,5) by (simp add: word_less_nat_alt)
  then show ?thesis
    using assms(5,6) by (auto simp: blit_def not_less)
qed

lemma process_from_safe:
  assumes "stream_safe maxseg (sb\<lparr>seg_list := segs\<rparr>)" "sb_data sb \<noteq> None"
  shows "\<exists>ret g' sb'. process_from g sb acc segs = Some (ret, g', sb') \<and> stream_safe maxseg sb' \<and>
    global_config g' = global_config g"
  using assms
proof (induction segs arbitrary: g sb acc)
  case (Cons s segs)
  obtain d where d: "sb_data sb = Some d" "length d = unat (max_buffer_size sb)" "length d < 2 ^ 32 - 65536"
    "data_len sb \<le> max_buffer_size sb"
    using Cons.prems by (auto simp: stream_safe_def)
  consider "seg_seq s \<noteq> next_seq sb" "sint (seg_seq s - next_seq sb) > 0"
    | "seg_seq s \<noteq> next_seq sb" "\<not> sint (seg_seq s - next_seq sb) > 0"
    | "seg_seq s = next_seq sb" "data_len sb + ucast (seg_len s) > max_buffer_size sb"
    | "seg_seq s = next_seq sb" "\<not> data_len sb + ucast (seg_len s) > max_buffer_size sb"
    by blast
  then show ?case
  proof cases
    case 1
    then show ?thesis
      using Cons.prems by (auto simp: stream_safe_def)
  next
    case 2
    then show ?thesis
      using Cons.IH [of "sb\<lparr>seg_count := seg_count sb - 1\<rparr>" "segment_free g s" acc] Cons.prems
      by (auto simp: stream_safe_def)
  next
    case 3
    then show ?thesis
      using Cons.prems by (auto simp: stream_safe_def)
  next
    case 4
    have "unat (seg_len s) \<le> length (seg_payload s)"
      using Cons.prems by (simp add: stream_safe_def seg_safe_def)
    then obtain d' where d': "blit d (unat (data_len sb)) (seg_payload s) (unat (seg_len s)) = Some d'"
      "length d' = length d" "data_len sb + ucast (seg_len s) \<le> max_buffer_size sb"
      using append_safe [OF d 4(2)] by blast
    let ?sb = "sb\<lparr>sb_data := Some d', data_len := data_len sb + ucast (seg_len s),
            next_seq := next_seq sb + ucast (seg_len s),
            total_reassembled := total_reassembled sb + ucast (seg_len s),
            seg_count := seg_count sb - 1\<rparr>"
    have "stream_safe maxseg (?sb\<lparr>seg_list := segs\<rparr>)"
      using Cons.prems d d' by (auto simp: stream_safe_def)
    then show ?thesis
      using Cons.IH [of ?sb "segment_free g s" "acc + uint (seg_len s)"] 4 d d'(1) by auto
  qed
qed (auto simp: stream_safe_def)

lemma stream_safe_overlap [simp]:
  "stream_safe maxseg (sb\<lparr>overlap_count := k\<rparr>) = stream_safe maxseg sb"
  "stream_safe maxseg (sb\<lparr>overlap_count := k, seg_list := l, seg_count := c\<rparr>) =
   stream_safe maxseg (sb\<lparr>seg_list := l, seg_count := c\<rparr>)"
  by (auto simp: stream_safe_def split: option.splits)

lemma process_queue_safe:
  assumes "stream_safe maxseg sb" "sb_data sb \<noteq> None"
  shows "\<exists>ret g' sb'. process_segment_queue g sb = Some (ret, g', sb') \<and> stream_safe maxseg sb' \<and>
    global_config g' = global_config g"
  using process_from_safe [where sb = sb and segs = "seg_list sb" and maxseg = maxseg and g = g and acc = 0]
    assms by (simp add: process_segment_queue_def)

lemma insert_queue_safe:
  assumes safe: "stream_safe maxseg sb" "sb_data sb \<noteq> None" and new: "seg_safe new"
    and cfg: "cfg_max_segments (global_config g) = maxseg"
  shows "\<exists>ret g' sb'. insert_segment_queue env g sb new = Some (ret, g', sb') \<and>
    stream_safe maxseg sb' \<and> sb_data sb' \<noteq> None \<and> global_config g' = global_config g"
proof (cases "maxseg \<le> seg_count sb")
  case True
  then show ?thesis
    using safe cfg by (auto simp: insert_segment_queue_def Let_def)
next
  case False
  have pol: "favor_new (sb_policy sb)" and segs: "\<forall>s \<in> set (seg_list sb). seg_safe s"
    and cnt: "seg_count sb = of_nat (length (seg_list sb))"
    using safe by (auto simp: stream_safe_def split: option.splits)
  have "unat (seg_count sb) = length (seg_list sb)"
    using safe unat_u32_lt [of maxseg] by (auto simp: stream_safe_def intro!: unat_of_nat_u32)
  then have room: "length (seg_list sb) < unat maxseg"
    using False by (simp add: word_le_nat_alt)
  obtain g1 ov l where ovl: "overlaps_from (sb_policy sb) (seg_end new) g (seg_count sb)
      (overlap_count sb) new (seg_list sb) = Some (g1, of_nat (length l), ov, Some new, l)"
    "\<forall>s \<in> set l. seg_safe s" "length l \<le> length (seg_list sb)" "global_config g1 = global_config g"
    using overlaps_from_safe [OF pol segs, of "seg_end new" g "seg_count sb" "overlap_count sb" new] cnt
    by auto
  have upd: "stream_safe maxseg (sb\<lparr>seg_list := k, seg_count := of_nat (length k)\<rparr>)"
    if "\<forall>s \<in> set k. seg_safe s" "length k \<le> unat maxseg" for k
    using safe that by (auto simp: stream_safe_def split: option.splits)
  show ?thesis
  proof (cases "seg_len new = 0 \<or> insert_sorted new l = None")
    case True
    then show ?thesis
      using False ovl upd [of l] room cfg safe(2)
      by (auto simp: insert_segment_queue_def handle_queue_overlaps_def)
  next
    case ins: False
    then obtain l2 where l2: "insert_sorted new l = Some l2"
      by auto
    have l2': "\<forall>s \<in> set l2. seg_safe s" "length l2 = Suc (length l)"
      using insert_sorted_set [OF l2] ovl(2) new by auto
    obtain g3 l3 where m: "merge_from env g1 (of_nat (length l2)) l2 = Some (g3, of_nat (length l3), l3)"
      "\<forall>s \<in> set l3. seg_safe s" "length l3 \<le> length l2" "global_config g3 = global_config g1"
      using merge_from_safe [OF l2'(1), of env g1 "of_nat (length l2)"] by auto
    show ?thesis
      using ins False ovl l2 l2' m upd [of l2] upd [of l3] room cfg safe(2)
      by (auto simp: insert_segment_queue_def handle_queue_overlaps_def try_merge_segments_def
          Let_def add.commute)
  qed
qed

lemma insert_in_order_safe:
  assumes safe: "stream_safe maxseg sb" "sb_data sb \<noteq> None" and pl: "unat plen \<le> length pl"
  shows "\<exists>ret g' sb'. insert_in_order g sb pl plen = Some (ret, g', sb') \<and> stream_safe maxseg sb' \<and>
    global_config g' = global_config g"
proof (cases "data_len sb + ucast plen > max_buffer_size sb")
  case True
  then show ?thesis
    using safe by (auto simp: insert_in_order_def Let_def)
next
  case False
  obtain d where d: "sb_data sb = Some d" "length d = unat (max_buffer_size sb)" "length d < 2 ^ 32 - 65536"
    "data_len sb \<le> max_buffer_size sb"
    using safe by (auto simp: stream_safe_def)
  obtain d' where d': "blit d (unat (data_len sb)) pl (unat plen) = Some d'" "length d' = length d"
    "data_len sb + ucast plen \<le> max_buffer_size sb"
    using append_safe [OF d False pl] by blast
  let ?sb = "sb\<lparr>sb_data := Some d', data_len := data_len sb + ucast plen,
      next_seq := next_seq sb + ucast plen, total_reassembled := total_reassembled sb + ucast plen\<rparr>"
  have "stream_safe maxseg ?sb" "sb_data ?sb \<noteq> None"
    using safe(1) d d' by (auto simp: stream_safe_def)
  from process_queue_safe [OF this, of "g\<lparr>segments_in_order := segments_in_order g + 1,
      bytes_reassembled := bytes_reassembled g + ucast plen\<rparr>"]
  show ?thesis
    using False d(1) d'(1) by (auto simp: insert_in_order_def Let_def)
qed

lemma handle_buffer_overlap_safe:
  assumes "unat plen \<le> length pl"
  shows "\<exists>g' sb' sq' pl' plen'. handle_buffer_overlap g sb sq pl plen = (g', sb', sq', pl', plen') \<and>
    unat plen' \<le> length pl' \<and> global_config g' = global_config g \<and> (\<exists>k. sb' = sb\<lparr>overlap_count := k\<rparr>)"
proof -
  have self: "\<exists>k. sb = sb\<lparr>overlap_count := k\<rparr>"
    by (rule exI [of _ "overlap_count sb"]) simp
  show ?thesis
  proof (cases "seq_compare sq (next_seq sb) < 0 \<and> \<not> seq_compare (sq + ucast plen) (next_seq sb) \<le> 0")
    case True
    let ?k = "next_seq sb - sq"
    have ne: "sq \<noteq> next_seq sb" "next_seq sb \<noteq> sq + ucast plen"
      using True by (auto simp: seq_compare_unat)
    have a: "unat ?k \<le> 2 ^ 31" "unat (sq + ucast plen - next_seq sb) < 2 ^ 31"
      using True unat_minus_swap [OF ne(1)] by (auto simp: seq_compare_unat)
    have "unat (?k + (sq + ucast plen - next_seq sb)) = unat ?k + unat (sq + ucast plen - next_seq sb)"
      using a by (intro unat_add_u32) simp
    then have sum: "unat plen = unat ?k + unat (sq + ucast plen - next_seq sb)"
      by simp
    have "unat (ucast (sq + ucast plen - next_seq sb) :: u16) = unat plen - unat ?k"
      using sum unat_u16_lt [of plen] by (subst unat_low16) auto
    moreover have "ucast plen - ?k = sq + ucast plen - next_seq sb"
      by simp
    ultimately have "unat (ucast (ucast plen - ?k :: u32) :: u16) = unat plen - unat ?k"
      by metis
    then show ?thesis
      using True assms by (auto simp: handle_buffer_overlap_def Let_def diff_le_mono)
  next
    case False
    then show ?thesis
      using assms self by (auto simp: handle_buffer_overlap_def Let_def)
  qed
qed

lemma segment_alloc_safe:
  assumes "unat plen \<le> length pl"
  shows "\<exists>g' r. segment_alloc env g sq pl plen = Some (g', r) \<and> global_config g' = global_config g \<and>
    (r = None \<or> (\<exists>s. r = Some s \<and> seg_safe s))"
proof -
  obtain blk where blk: "blit (fresh_block env (Suc (nalloc g)) (unat plen)) 0 pl (unat plen) = Some blk"
    using assms by (simp add: blit_def)
  then show ?thesis
    using blit_length [OF blk] by (auto simp: segment_alloc_def mem_add_def Let_def seg_safe_def)
qed

lemma insert_out_of_order_safe:
  assumes safe: "stream_safe maxseg sb" "sb_data sb \<noteq> None" and pl: "unat plen \<le> length pl"
    and cfg: "cfg_max_segments (global_config g) = maxseg"
  shows "\<exists>ret g' sb'. insert_out_of_order env g sb sq pl plen = Some (ret, g', sb') \<and>
    stream_safe maxseg sb' \<and> global_config g' = global_config g"
proof -
  let ?g1 = "g\<lparr>segments_out_of_order := segments_out_of_order g + 1\<rparr>"
  obtain g2 sb2 sq2 pl2 plen2 where hb: "handle_buffer_overlap ?g1 sb sq pl plen = (g2, sb2, sq2, pl2, plen2)"
    "unat plen2 \<le> length pl2" "global_config g2 = global_config ?g1" "\<exists>k. sb2 = sb\<lparr>overlap_count := k\<rparr>"
    using handle_buffer_overlap_safe [OF pl, of ?g1 sb sq] by blast
  have safe2: "stream_safe maxseg sb2" "sb_data sb2 \<noteq> None"
    using hb(4) safe by auto
  show ?thesis
  proof (cases "plen2 = 0")
    case True
    then show ?thesis
      using hb safe2 by (auto simp: insert_out_of_order_def Let_def)
  next
    case False
    obtain g3 r where al: "segment_alloc env g2 sq2 pl2 plen2 = Some (g3, r)"
      "global_config g3 = global_config g2" "r = None \<or> (\<exists>s. r = Some s \<and> seg_safe s)"
      using segment_alloc_safe [OF hb(2), of env g2 sq2] by blast
    show ?thesis
    proof (cases r)
      case None
      then show ?thesis
        using hb(1,3) al False safe2 by (auto simp: insert_out_of_order_def Let_def)
    next
      case (Some new)
      then have "seg_safe new" "cfg_max_segments (global_config g3) = maxseg"
        using al hb(3) cfg by auto
      from insert_queue_safe [OF safe2 this] obtain ret g4 sb4 where
        q: "insert_segment_queue env g3 sb2 new = Some (ret, g4, sb4)" "stream_safe maxseg sb4"
        "sb_data sb4 \<noteq> None" "global_config g4 = global_config g3"
        by blast
      obtain ret5 g5 sb5 where p: "process_segment_queue g4 sb4 = Some (ret5, g5, sb5)"
        "stream_safe maxseg sb5" "global_config g5 = global_config g4"
        using process_queue_safe [OF q(2,3), of g4] by blast
      show ?thesis
        using hb(1,3) al(1,2) False Some q p
        by (cases "ret < 0") (auto simp: insert_out_of_order_def Let_def)
    qed
  qed
qed

lemma insert_segment_safe:
  assumes safe: "stream_safe maxseg sb" and pl: "unat plen \<le> length pl"
    and cfg: "cfg_max_segments (global_config g) = maxseg"
  shows "\<exists>ret g' sb'. stream_buffer_insert_segment env g (Some sb) sq (Some pl) plen = Some (ret, g', Some sb') \<and>
    stream_safe maxseg sb' \<and> global_config g' = global_config g"
proof (cases "plen = 0 \<or> sb_data sb = None \<or> seq_compare (sq + ucast plen) (base_seq sb) \<le> 0
    \<or> seq_compare sq (base_seq sb) < 0 \<and> base_seq sb - sq \<ge> ucast plen")
  case True
  then show ?thesis
    using safe by (auto simp: stream_buffer_insert_segment_def Let_def)
next
  case False
  let ?g = "g\<lparr>segments_inserted := segments_inserted g + 1\<rparr>"
  have deliver: "\<exists>ret g' sb'. (if cond then insert_in_order ?g sb p l
        else insert_out_of_order env ?g sb q p l) = Some (ret, g', sb') \<and>
      stream_safe maxseg sb' \<and> global_config g' = global_config g"
    if "unat l \<le> length p" for cond p l q
    using insert_in_order_safe [OF safe _ that, of ?g] insert_out_of_order_safe [OF safe _ that, of ?g env q]
      False cfg by auto
  show ?thesis
  proof (cases "seq_compare sq (base_seq sb) < 0")
    case True
    let ?k = "base_seq sb - sq"
    have "unat ?k < unat plen"
      using True False by (simp add: word_le_nat_alt)
    then have "unat (ucast (ucast plen - ?k :: u32) :: u16) = unat plen - unat ?k"
      using unat_u16_lt [of plen] by (simp add: unat_low16 unat_sub_if')
    then have "unat (ucast (ucast plen - ?k :: u32) :: u16) \<le> length (drop (unat ?k) pl)"
      using pl by simp
    from deliver [OF this, of "base_seq sb = next_seq sb" "base_seq sb"] show ?thesis
      using True False by (auto simp: stream_buffer_insert_segment_def Let_def)
  next
    case ge: False
    from deliver [OF pl, of "sq = next_seq sb" sq] show ?thesis
      using ge False by (auto simp: stream_buffer_insert_segment_def Let_def)
  qed
qed

lemma consume_safe:
  assumes safe: "stream_safe maxseg sb"
  shows "\<exists>ret g' sb'. stream_buffer_consume g (Some sb) k = Some (ret, g', Some sb') \<and>
    stream_safe maxseg sb' \<and> global_config g' = global_config g"
proof (cases "k = 0 \<or> sb_data sb = None")
  case True
  then show ?thesis
    using safe by (auto simp: stream_buffer_consume_def)
next
  case False
  then obtain d where d: "sb_data sb = Some d" "length d = unat (max_buffer_size sb)"
    "length d < 2 ^ 32 - 65536" "data_len sb \<le> max_buffer_size sb"
    using safe by (auto simp: stream_safe_def)
  let ?n = "min k (data_len sb)"
  have n: "?n \<le> data_len sb" "unat ?n + unat (data_len sb - ?n) = unat (data_len sb)"
    by (simp_all add: unat_sub word_le_nat_alt [symmetric])
  obtain d' where d': "(if ?n < data_len sb then blk_shift d (unat ?n) (unat (data_len sb - ?n)) else Some d) = Some d'"
    "length d' = length d"
  proof (cases "?n < data_len sb")
    case True
    have "unat ?n + unat (data_len sb - ?n) \<le> length d"
      using n(2) d(2,4) by (simp add: word_le_nat_alt)
    then obtain d' where "blk_shift d (unat ?n) (unat (data_len sb - ?n)) = Some d'"
      by (simp add: blk_shift_def)
    then show ?thesis
      using that [of d'] True blk_shift_length by auto
  qed (use that [of d] in auto)
  let ?sb = "sb\<lparr>sb_data := Some d', data_len := data_len sb - ?n, base_seq := base_seq sb + ?n\<rparr>"
  have "data_len sb - ?n \<le> max_buffer_size sb"
    using n d(4) by (simp add: word_le_nat_alt)
  then have "stream_safe maxseg ?sb" "sb_data ?sb \<noteq> None"
    using safe d d'(2) by (auto simp: stream_safe_def)
  from this process_queue_safe [OF this, of g] show ?thesis
    using False d(1) d'(1) by (auto simp: stream_buffer_consume_def Let_def)
qed

lemma init_safe:
  assumes "unat (cfg_max_buffer_size (global_config g)) < 2 ^ 32 - 65536" "favor_new policy"
    "stream_buffer_init env g (Some sb) isn policy = (ret, g', Some sb')"
  shows "stream_safe maxseg sb' \<and> global_config g' = global_config g"
  using assms
  by (auto simp: stream_buffer_init_def Let_def stream_safe_def stream_buffer_zero_def mem_add_def
      split: if_splits)

section \<open>Properties\<close>

text \<open>Arbitrary traffic: \<open>Recv seq payload plen\<close> is any call of \<^verbatim>\<open>stream_buffer_insert_segment\<close> with a
  payload that really has \<open>plen\<close> bytes, \<open>Eat k\<close> any call of \<^verbatim>\<open>stream_buffer_consume\<close>.\<close>

datatype raw_op = Recv u32 bytes u16 | Eat u32

fun raw_step :: "rte_env \<Rightarrow> raw_op \<Rightarrow> reasm \<times> stream_buffer \<Rightarrow> (reasm \<times> stream_buffer) option" where
  "raw_step env (Recv sq pl plen) (g, sb) =
    (case stream_buffer_insert_segment env g (Some sb) sq (Some pl) plen of
       Some (_, g', Some sb') \<Rightarrow> Some (g', sb') | _ \<Rightarrow> None)"
| "raw_step env (Eat k) (g, sb) =
    (case stream_buffer_consume g (Some sb) k of
       Some (_, g', Some sb') \<Rightarrow> Some (g', sb') | _ \<Rightarrow> None)"

fun raw_legal :: "raw_op \<Rightarrow> reasm \<times> stream_buffer \<Rightarrow> bool" where
  "raw_legal (Recv sq pl plen) s \<longleftrightarrow> unat plen \<le> length pl"
| "raw_legal (Eat k) s \<longleftrightarrow> True"

definition raw_inv :: "reasm \<times> stream_buffer \<Rightarrow> bool" where
  "raw_inv s \<longleftrightarrow> stream_safe (cfg_max_segments (global_config (fst s))) (snd s)"

lemma raw_step_inv:
  assumes "raw_inv (g, sb)" "raw_legal x (g, sb)"
  shows "\<exists>s'. raw_step env x (g, sb) = Some s' \<and> raw_inv s'"
proof (cases x)
  case (Recv sq pl plen)
  then obtain ret g' sb' where
    "stream_buffer_insert_segment env g (Some sb) sq (Some pl) plen = Some (ret, g', Some sb')"
    "stream_safe (cfg_max_segments (global_config g)) sb'" "global_config g' = global_config g"
    using insert_segment_safe [OF _ _ refl, of g sb plen pl env sq] assms by (auto simp: raw_inv_def)
  then show ?thesis
    using Recv by (simp add: raw_inv_def)
next
  case (Eat k)
  obtain ret g' sb' where "stream_buffer_consume g (Some sb) k = Some (ret, g', Some sb')"
    "stream_safe (cfg_max_segments (global_config g)) sb'" "global_config g' = global_config g"
    using consume_safe [of "cfg_max_segments (global_config g)" sb g k] assms(1)
    by (auto simp: raw_inv_def)
  then show ?thesis
    using Eat by (simp add: raw_inv_def)
qed

interpretation raw: guarded_machine "raw_step env" raw_legal raw_inv
  for env
  by unfold_locales (metis prod.collapse raw_step_inv)

text \<open>C5: Memory safety under attack: after \<^verbatim>\<open>stream_buffer_init\<close> with a policy that favours new data,
  no sequence of segments (with any sequence numbers, overlaps and contents) and reads makes the
  reassembly code copy outside a block or use a freed segment, whatever the outcomes of its
  allocations; the fill level stays within the buffer and the queue within \<^verbatim>\<open>max_segments\<close>.\<close>

theorem reassembly_memory_safe:
  assumes "stream_buffer_init env g (Some sb0) isn policy = (0, g', Some sb)" "favor_new policy"
    and "unat (cfg_max_buffer_size (global_config g)) < 2 ^ 32 - 65536"
    and "legal_run (raw_step env) raw_legal ops (g', sb)"
  shows "\<exists>g'' sb'. run_ops (raw_step env) ops (g', sb) = Some (g'', sb') \<and>
    stream_safe (cfg_max_segments (global_config g'')) sb'"
proof -
  have "raw_inv (g', sb)"
    using init_safe [OF assms(3,2,1)] by (simp add: raw_inv_def)
  from raw.run_safe [OF this assms(4)] show ?thesis
    by (auto simp: raw_inv_def)
qed

text \<open>Segments at and around the half-window distance, inconsistent contents included.\<close>

theorem reassembly_memory_safe_witness:
  "\<exists>g' sb g'' sb'.
     stream_buffer_init demo_env demo_reasm (Some stream_buffer_zero) 0 OS_POLICY_LINUX = (0, g', Some sb) \<and>
     run_ops (raw_step demo_env)
       [Recv 0x80000000 [1, 2] 2, Recv 5 [9] 1, Recv 0xFFFFFFFF [3, 4, 5] 3, Eat 2] (g', sb) = Some (g'', sb') \<and>
     stream_safe (cfg_max_segments (global_config g'')) sb'"
proof -
  obtain g' sb where init:
    "stream_buffer_init demo_env demo_reasm (Some stream_buffer_zero) 0 OS_POLICY_LINUX = (0, g', Some sb)"
    by (simp add: stream_buffer_init_def demo_env_def demo_reasm_def rte_malloc_ok_def Let_def)
  have "legal_run (raw_step demo_env) raw_legal
      [Recv 0x80000000 [1, 2] 2, Recv 5 [9] 1, Recv 0xFFFFFFFF [3, 4, 5] 3, Eat 2] (g', sb)"
    by (rule legal_run_always) auto
  from reassembly_memory_safe [OF init _ _ this] init show ?thesis
    by (auto simp: demo_reasm_def)
qed
end
