(* ===== verification/Flow_Table.thy ===== *)
theory Flow_Table
  imports App_Proto Packet_Decode Stream_Safety "HOL-Library.Multiset"
begin

text \<open>
  \<^verbatim>\<open>src/src/flow.c\<close> and \<^verbatim>\<open>flow.h\<close>: the flow hash table, the per-flow TCP state machine, and the
  connection of flows to stream reassembly.

  Flows are heap objects: the table is an array of buckets, a bucket is the list of the addresses
  chained from its head, and a partial map takes addresses to \<^verbatim>\<open>flow_t\<close> records. A dangling address
  makes the result \<^term>\<open>None\<close> (undefined behaviour). Addresses are numbers taken from
  the counter \<open>fnext\<close>, so they are never reused. The application-layer contexts that flows carry
  (\<^verbatim>\<open>app_parser\<close>, \<^verbatim>\<open>protoctx.udp\<close>) are values of a type parameter. \<^verbatim>\<open>rte_hash_crc\<close> belongs to DPDK
  and is the parameter \<open>crc\<close>; \<^verbatim>\<open>gettimeofday\<close> is the argument \<open>now\<close>. Locks are not modelled: the
  operations are the critical sections.
\<close>

section \<open>Packets as the flow code reads them\<close>

text \<open>The header fields behind the pointers of a \<^verbatim>\<open>packet_info_t\<close>, loaded from the packet bytes.
  \<open>pv_tcp\<close> holds the TCP flags and the sequence number when \<^verbatim>\<open>tcp_hdr\<close> is not null.\<close>

record pkt_view =
  pv_version :: u8
  pv_src :: "u32 list"
  pv_dst :: "u32 list"
  pv_sport :: u16
  pv_dport :: u16
  pv_proto :: u8
  pv_tcp :: "(u8 \<times> u32) option"
  pv_payload :: "bytes option"
  pv_len :: u16

definition rd_words :: "bytes \<Rightarrow> nat \<Rightarrow> u32 list option" where
  "rd_words data off = do {
     a \<leftarrow> rd_le32 data off; b \<leftarrow> rd_le32 data (off + 4);
     c \<leftarrow> rd_le32 data (off + 8); d \<leftarrow> rd_le32 data (off + 12); Some [a, b, c, d] }"

definition load_addrs :: "bytes \<Rightarrow> packet_info \<Rightarrow> (u32 list \<times> u32 list) option" where
  "load_addrs data pi =
    (if ip_version pi = 4 then do {
       h \<leftarrow> l3_hdr pi; s \<leftarrow> rd_le32 data (h + 12); d \<leftarrow> rd_le32 data (h + 16); Some ([s], [d]) }
     else if ip_version pi = 6 then do {
       h \<leftarrow> l3_hdr pi; s \<leftarrow> rd_words data (h + 8); d \<leftarrow> rd_words data (h + 24); Some (s, d) }
     else Some ([], []))"

definition load_tcp :: "bytes \<Rightarrow> packet_info \<Rightarrow> (u8 \<times> u32) option option" where
  "load_tcp data pi =
    (if ip_proto pi \<noteq> IPPROTO_TCP then Some None
     else (case l4_hdr pi of
         None \<Rightarrow> Some None
       | Some h \<Rightarrow> do { fl \<leftarrow> rd8 data (h + 13); sq \<leftarrow> rd_be32 data (h + 4); Some (Some (fl, sq)) }))"

definition load_pkt :: "bytes \<Rightarrow> packet_info \<Rightarrow> pkt_view option" where
  "load_pkt data pi = do {
     (s, d) \<leftarrow> load_addrs data pi;
     t \<leftarrow> load_tcp data pi;
     Some \<lparr>pv_version = ip_version pi, pv_src = s, pv_dst = d, pv_sport = src_port pi,
           pv_dport = dst_port pi, pv_proto = ip_proto pi, pv_tcp = t,
           pv_payload = map_option (\<lambda>p. drop p data) (payload pi), pv_len = payload_len pi\<rparr> }"

section \<open>Data\<close>

datatype tcp_state =
    TCP_NONE | TCP_LISTEN | TCP_SYN_SENT | TCP_SYN_RECV | TCP_ESTABLISHED | TCP_FIN_WAIT1
  | TCP_FIN_WAIT2 | TCP_TIME_WAIT | TCP_CLOSE_WAIT | TCP_LAST_ACK | TCP_CLOSING | TCP_CLOSED

datatype flow_dir = FLOW_DIR_TOSERVER | FLOW_DIR_TOCLIENT

record timeval =
  tv_sec :: int
  tv_usec :: int

text \<open>The fields \<^verbatim>\<open>isn\<close>, \<^verbatim>\<open>next_seq\<close>, \<^verbatim>\<open>max_ack\<close>, \<^verbatim>\<open>window\<close> and \<^verbatim>\<open>flags\<close> of \<^verbatim>\<open>tcp_session_t\<close> are never
  written or read by the code and are left out.\<close>

record 'p tcp_session =
  ts_state :: tcp_state
  seg_cnt :: u64
  byte_cnt :: u64
  toserver_sb :: "stream_buffer option"
  toclient_sb :: "stream_buffer option"
  app_parser :: "'p option"

record 'p flow =
  f_src_addr :: "u32 list"
  f_dst_addr :: "u32 list"
  f_src_port :: u16
  f_dst_port :: u16
  f_proto :: u8
  f_flags :: u32
  flow_hash :: u32
  start_ts :: timeval
  last_ts :: timeval
  timeout_policy :: u32
  f_tcp :: "'p tcp_session option"
  f_udp :: "'p option"
  alproto :: app_proto
  alproto_ts :: u8
  alproto_tc :: u8
  toserver_pkt_cnt :: u64
  toclient_pkt_cnt :: u64
  toserver_byte_cnt :: u64
  toclient_byte_cnt :: u64
  use_cnt :: u16

definition FLOW_IPV4 :: u32 where "FLOW_IPV4 = 1"
definition FLOW_IPV6 :: u32 where "FLOW_IPV6 = 2"
definition FLOW_TO_SRC_SEEN :: u32 where "FLOW_TO_SRC_SEEN = 4"
definition FLOW_TO_DST_SEEN :: u32 where "FLOW_TO_DST_SEEN = 8"

record flow_config =
  hash_size :: u32
  max_flows :: u32
  timeout_new :: u32
  timeout_est :: u32
  flow_memcap :: u64

record flow_stats =
  flows_created :: u64
  flows_removed :: u64
  flows_timeout :: u64
  flows_active :: u64
  hash_collisions :: u64

record 'p flow_state =
  flow_hash_table :: "nat list list option"
  fheap :: "nat \<Rightarrow> 'p flow option"
  fcfg :: flow_config
  fstats :: flow_stats
  freasm :: reasm
  fnext :: nat

section \<open>Set-up, hashing and matching\<close>

definition flow_init :: "'p flow_state \<Rightarrow> bool \<Rightarrow> u32 \<Rightarrow> u32 \<Rightarrow> int \<times> 'p flow_state" where
  "flow_init st calloc_ok hsize maxf =
    (if hsize = 0 \<or> hsize AND (hsize - 1) \<noteq> 0 then (-1, st)
     else
      (let st1 = st\<lparr>fcfg := \<lparr>hash_size = hsize, max_flows = maxf, timeout_new = 30,
                     timeout_est = 3600, flow_memcap = 536870912\<rparr>,
                   fstats := \<lparr>flows_created = 0, flows_removed = 0, flows_timeout = 0,
                     flows_active = 0, hash_collisions = 0\<rparr>\<rparr> in
       if \<not> calloc_ok then (-1, st1\<lparr>flow_hash_table := None\<rparr>)
       else (0, st1\<lparr>flow_hash_table := Some (replicate (unat hsize) [])\<rparr>)))"

definition flow_words :: "pkt_view \<Rightarrow> u32 list" where
  "flow_words p = pv_src p @ pv_dst p @
     [push_bit 16 (ucast (pv_sport p)) OR ucast (pv_dport p), ucast (pv_proto p)]"

definition flow_hash_calculate :: "(u32 list \<Rightarrow> u32) \<Rightarrow> pkt_view \<Rightarrow> u32" where
  "flow_hash_calculate crc p = crc (flow_words p)"

text \<open>The address comparison of \<^verbatim>\<open>flow_match\<close>: the first word for IPv4, all four for IPv6.\<close>

definition addr_eq :: "u8 \<Rightarrow> u32 list \<Rightarrow> u32 list \<Rightarrow> bool" where
  "addr_eq ver fa pa \<longleftrightarrow> (if ver = 4 then fa ! 0 = pa ! 0 else fa = pa)"

definition flow_match :: "'p flow \<Rightarrow> pkt_view \<Rightarrow> bool" where
  "flow_match f p \<longleftrightarrow>
    f_proto f = pv_proto p \<and>
    \<not> (f_flags f AND FLOW_IPV4 \<noteq> 0 \<and> pv_version p \<noteq> 4) \<and>
    \<not> (f_flags f AND FLOW_IPV6 \<noteq> 0 \<and> pv_version p \<noteq> 6) \<and>
    (pv_version p = 4 \<or> pv_version p = 6) \<and>
    (addr_eq (pv_version p) (f_src_addr f) (pv_src p) \<and> addr_eq (pv_version p) (f_dst_addr f) (pv_dst p)
       \<and> f_src_port f = pv_sport p \<and> f_dst_port f = pv_dport p
     \<or> addr_eq (pv_version p) (f_src_addr f) (pv_dst p) \<and> addr_eq (pv_version p) (f_dst_addr f) (pv_src p)
       \<and> f_src_port f = pv_dport p \<and> f_dst_port f = pv_sport p)"

text \<open>\<^verbatim>\<open>flow_alloc\<close>: a zeroed flow with one reference.\<close>

definition flow_zero :: "'p flow" where
  "flow_zero = \<lparr>f_src_addr = [0, 0, 0, 0], f_dst_addr = [0, 0, 0, 0], f_src_port = 0, f_dst_port = 0,
     f_proto = 0, f_flags = 0, flow_hash = 0, start_ts = \<lparr>tv_sec = 0, tv_usec = 0\<rparr>,
     last_ts = \<lparr>tv_sec = 0, tv_usec = 0\<rparr>, timeout_policy = 0, f_tcp = None, f_udp = None,
     alproto = APP_PROTO_UNKNOWN, alproto_ts = 0, alproto_tc = 0, toserver_pkt_cnt = 0,
     toclient_pkt_cnt = 0, toserver_byte_cnt = 0, toclient_byte_cnt = 0, use_cnt = 0\<rparr>"

definition flow_alloc :: "rte_env \<Rightarrow> reasm \<Rightarrow> reasm \<times> 'p flow option" where
  "flow_alloc env g =
    (let g' = g\<lparr>nalloc := nalloc g + 1\<rparr> in
     if malloc_ok env (nalloc g) then (g', Some (flow_zero\<lparr>use_cnt := 1\<rparr>)) else (g', None))"

text \<open>\<^verbatim>\<open>flow_free\<close> changes the reassembly statistics through its two buffers; freeing a parser
  context has no effect on the state of the model.\<close>

definition flow_free :: "reasm \<Rightarrow> 'p flow \<Rightarrow> reasm" where
  "flow_free g f =
    (if f_proto f = IPPROTO_TCP then
       (case f_tcp f of
          None \<Rightarrow> g
        | Some t \<Rightarrow> fst (stream_buffer_free (fst (stream_buffer_free g (toserver_sb t))) (toclient_sb t)))
     else g)"

section \<open>Looking up and creating flows\<close>

fun bucket_search ::
  "(nat \<Rightarrow> 'p flow option) \<Rightarrow> u32 \<Rightarrow> pkt_view \<Rightarrow> nat list \<Rightarrow> nat option option" where
  "bucket_search h hash p [] = Some None"
| "bucket_search h hash p (a # as) = do {
     f \<leftarrow> h a;
     if flow_hash f = hash \<and> flow_match f p then Some (Some a) else bucket_search h hash p as }"

text \<open>The TCP session of a new flow: \<^verbatim>\<open>calloc\<close>, then two \<^verbatim>\<open>rte_malloc\<close>s for the stream buffers, which
  are zeroed when they succeed.\<close>

definition new_tcp_session :: "rte_env \<Rightarrow> reasm \<Rightarrow> reasm \<times> 'p tcp_session option" where
  "new_tcp_session env g =
    (let n = nalloc g in
     if \<not> malloc_ok env n then (g\<lparr>nalloc := n + 1\<rparr>, None)
     else (g\<lparr>nalloc := n + 3\<rparr>,
           Some \<lparr>ts_state = TCP_NONE, seg_cnt = 0, byte_cnt = 0,
             toserver_sb = (if malloc_ok env (n + 1) then Some stream_buffer_zero else None),
             toclient_sb = (if malloc_ok env (n + 2) then Some stream_buffer_zero else None),
             app_parser = None\<rparr>))"

definition attach_session :: "rte_env \<Rightarrow> reasm \<Rightarrow> 'p flow \<Rightarrow> reasm \<times> 'p flow" where
  "attach_session env g f =
    (if f_proto f = IPPROTO_TCP then (let (g', t) = new_tcp_session env g in (g', f\<lparr>f_tcp := t\<rparr>))
     else (g, f))"

definition flow_fill :: "flow_config \<Rightarrow> timeval \<Rightarrow> u32 \<Rightarrow> pkt_view \<Rightarrow> 'p flow \<Rightarrow> 'p flow" where
  "flow_fill cfg now hash p f =
    (let f1 = f\<lparr>flow_hash := hash, f_proto := pv_proto p\<rparr>;
         f2 = (if pv_version p = 4 then
                 f1\<lparr>f_flags := f_flags f1 OR FLOW_IPV4, f_src_addr := (f_src_addr f1)[0 := pv_src p ! 0],
                    f_dst_addr := (f_dst_addr f1)[0 := pv_dst p ! 0]\<rparr>
               else if pv_version p = 6 then
                 f1\<lparr>f_flags := f_flags f1 OR FLOW_IPV6, f_src_addr := pv_src p, f_dst_addr := pv_dst p\<rparr>
               else f1) in
     f2\<lparr>f_src_port := pv_sport p, f_dst_port := pv_dport p, start_ts := now, last_ts := now,
        timeout_policy := timeout_new cfg\<rparr>)"

text \<open>The branch of \<^verbatim>\<open>flow_get\<close> that creates a flow at the head of bucket \<open>idx\<close>.\<close>

definition flow_create ::
  "rte_env \<Rightarrow> 'p flow_state \<Rightarrow> timeval \<Rightarrow> u32 \<Rightarrow> pkt_view \<Rightarrow> nat list list \<Rightarrow> nat \<Rightarrow>
   'p flow_state \<times> nat option" where
  "flow_create env st now hash p tbl idx =
    (if flows_active (fstats st) \<ge> ucast (max_flows (fcfg st)) then (st, None)
     else
      (let a = fnext st; (g1, r) = flow_alloc env (freasm st) in
       case r of
         None \<Rightarrow> (st\<lparr>freasm := g1\<rparr>, None)
       | Some f0 \<Rightarrow>
          (let f1 = flow_fill (fcfg st) now hash p f0;
               (g2, f2) = attach_session env g1 f1 in
           (st\<lparr>flow_hash_table := Some (tbl[idx := a # tbl ! idx]), fheap := (fheap st)(a \<mapsto> f2),
               fstats := (fstats st)\<lparr>flows_created := flows_created (fstats st) + 1,
                                     flows_active := flows_active (fstats st) + 1\<rparr>,
               freasm := g2, fnext := a + 1\<rparr>, Some a))))"

definition flow_get ::
  "(u32 list \<Rightarrow> u32) \<Rightarrow> rte_env \<Rightarrow> 'p flow_state \<Rightarrow> timeval \<Rightarrow> pkt_view option \<Rightarrow>
   ('p flow_state \<times> nat option) option" where
  "flow_get crc env st now pkt = (case pkt of
     None \<Rightarrow> Some (st, None)
   | Some p \<Rightarrow> do {
       tbl \<leftarrow> flow_hash_table st;
       let hash = flow_hash_calculate crc p;
       let idx = unat (hash AND (hash_size (fcfg st) - 1));
       (if idx < length tbl then do {
          r \<leftarrow> bucket_search (fheap st) hash p (tbl ! idx);
          case r of
            Some a \<Rightarrow> do {
              f \<leftarrow> fheap st a;
              Some (st\<lparr>fheap := (fheap st)(a \<mapsto> f\<lparr>use_cnt := use_cnt f + 1\<rparr>)\<rparr>, Some a) }
          | None \<Rightarrow> Some (flow_create env st now hash p tbl idx) }
        else None) })"

section \<open>The TCP state machine\<close>

definition RTE_TCP_FIN_FLAG :: u8 where "RTE_TCP_FIN_FLAG = 0x01"
definition RTE_TCP_SYN_FLAG :: u8 where "RTE_TCP_SYN_FLAG = 0x02"
definition RTE_TCP_RST_FLAG :: u8 where "RTE_TCP_RST_FLAG = 0x04"
definition RTE_TCP_ACK_FLAG :: u8 where "RTE_TCP_ACK_FLAG = 0x10"

definition has_flag :: "u8 \<Rightarrow> u8 \<Rightarrow> bool" where
  "has_flag fl m \<longleftrightarrow> fl AND m \<noteq> 0"

text \<open>The switch of \<^verbatim>\<open>flow_update\<close>.\<close>

fun tcp_next :: "tcp_state \<Rightarrow> u8 \<Rightarrow> flow_dir \<Rightarrow> tcp_state" where
  "tcp_next TCP_NONE fl dir =
    (if has_flag fl RTE_TCP_SYN_FLAG
     then (if has_flag fl RTE_TCP_ACK_FLAG then TCP_SYN_RECV else TCP_SYN_SENT)
     else if has_flag fl RTE_TCP_RST_FLAG then TCP_CLOSED else TCP_NONE)"
| "tcp_next TCP_SYN_SENT fl dir =
    (if has_flag fl RTE_TCP_SYN_FLAG \<and> has_flag fl RTE_TCP_ACK_FLAG then TCP_SYN_RECV
     else if has_flag fl RTE_TCP_SYN_FLAG then TCP_SYN_RECV
     else if has_flag fl RTE_TCP_RST_FLAG then TCP_CLOSED else TCP_SYN_SENT)"
| "tcp_next TCP_SYN_RECV fl dir =
    (if has_flag fl RTE_TCP_ACK_FLAG then TCP_ESTABLISHED
     else if has_flag fl RTE_TCP_RST_FLAG then TCP_CLOSED else TCP_SYN_RECV)"
| "tcp_next TCP_ESTABLISHED fl dir =
    (if has_flag fl RTE_TCP_FIN_FLAG
     then (if dir = FLOW_DIR_TOSERVER then TCP_FIN_WAIT1 else TCP_CLOSE_WAIT)
     else if has_flag fl RTE_TCP_RST_FLAG then TCP_CLOSED else TCP_ESTABLISHED)"
| "tcp_next TCP_FIN_WAIT1 fl dir =
    (if has_flag fl RTE_TCP_FIN_FLAG
     then (if has_flag fl RTE_TCP_ACK_FLAG then TCP_TIME_WAIT else TCP_CLOSING)
     else if has_flag fl RTE_TCP_ACK_FLAG then TCP_FIN_WAIT2
     else if has_flag fl RTE_TCP_RST_FLAG then TCP_CLOSED else TCP_FIN_WAIT1)"
| "tcp_next TCP_FIN_WAIT2 fl dir =
    (if has_flag fl RTE_TCP_FIN_FLAG then TCP_TIME_WAIT
     else if has_flag fl RTE_TCP_RST_FLAG then TCP_CLOSED else TCP_FIN_WAIT2)"
| "tcp_next TCP_CLOSING fl dir =
    (if has_flag fl RTE_TCP_ACK_FLAG then TCP_TIME_WAIT
     else if has_flag fl RTE_TCP_RST_FLAG then TCP_CLOSED else TCP_CLOSING)"
| "tcp_next TCP_TIME_WAIT fl dir =
    (if has_flag fl RTE_TCP_RST_FLAG then TCP_CLOSED else TCP_TIME_WAIT)"
| "tcp_next TCP_CLOSE_WAIT fl dir =
    (if has_flag fl RTE_TCP_FIN_FLAG then TCP_LAST_ACK
     else if has_flag fl RTE_TCP_RST_FLAG then TCP_CLOSED else TCP_CLOSE_WAIT)"
| "tcp_next TCP_LAST_ACK fl dir =
    (if has_flag fl RTE_TCP_ACK_FLAG then TCP_CLOSED
     else if has_flag fl RTE_TCP_RST_FLAG then TCP_CLOSED else TCP_LAST_ACK)"
| "tcp_next TCP_CLOSED fl dir = TCP_CLOSED"
| "tcp_next TCP_LISTEN fl dir = TCP_LISTEN"

fun tcp_state_to_string :: "tcp_state \<Rightarrow> bytes" where
  "tcp_state_to_string TCP_NONE = str ''NONE''"
| "tcp_state_to_string TCP_LISTEN = str ''LISTEN''"
| "tcp_state_to_string TCP_SYN_SENT = str ''SYN_SENT''"
| "tcp_state_to_string TCP_SYN_RECV = str ''SYN_RECV''"
| "tcp_state_to_string TCP_ESTABLISHED = str ''ESTABLISHED''"
| "tcp_state_to_string TCP_FIN_WAIT1 = str ''FIN_WAIT1''"
| "tcp_state_to_string TCP_FIN_WAIT2 = str ''FIN_WAIT2''"
| "tcp_state_to_string TCP_TIME_WAIT = str ''TIME_WAIT''"
| "tcp_state_to_string TCP_CLOSE_WAIT = str ''CLOSE_WAIT''"
| "tcp_state_to_string TCP_LAST_ACK = str ''LAST_ACK''"
| "tcp_state_to_string TCP_CLOSING = str ''CLOSING''"
| "tcp_state_to_string TCP_CLOSED = str ''CLOSED''"

section \<open>Updating, releasing and expiring flows\<close>

text \<open>\<^verbatim>\<open>stream_buffer_init\<close> on a buffer pointer of the session, when it is not null and still without
  data.\<close>

definition init_if_empty ::
  "rte_env \<Rightarrow> reasm \<Rightarrow> bool \<Rightarrow> stream_buffer option \<Rightarrow> u32 \<Rightarrow> reasm \<times> stream_buffer option" where
  "init_if_empty env g cond sb sq = (case sb of
     Some b \<Rightarrow> if cond \<and> sb_data b = None
               then snd (stream_buffer_init env g sb sq OS_POLICY_LINUX) else (g, sb)
   | None \<Rightarrow> (g, sb))"

text \<open>The TCP part of \<^verbatim>\<open>flow_update\<close>: the state machine, the counters, the initialisation of the
  reassembly buffers and the insertion of the payload.\<close>

definition sb_ready :: "stream_buffer option \<Rightarrow> bool" where
  "sb_ready sb = (case sb of None \<Rightarrow> False | Some b \<Rightarrow> sb_data b \<noteq> None)"

definition tcp_update ::
  "rte_env \<Rightarrow> reasm \<Rightarrow> pkt_view \<Rightarrow> flow_dir \<Rightarrow> u8 \<Rightarrow> u32 \<Rightarrow> 'p tcp_session \<Rightarrow>
   (reasm \<times> 'p tcp_session) option" where
  "tcp_update env g p dir fl sq t =
    (let st' = tcp_next (ts_state t) fl dir;
         (g1, ts) = init_if_empty env g (st' = TCP_SYN_SENT) (toserver_sb t) sq;
         (g2, tc) = init_if_empty env g1 (st' = TCP_SYN_RECV) (toclient_sb t) sq;
         t1 = t\<lparr>ts_state := st', seg_cnt := seg_cnt t + 1, byte_cnt := byte_cnt t + ucast (pv_len p),
                toserver_sb := ts, toclient_sb := tc\<rparr>;
         sb = (if dir = FLOW_DIR_TOSERVER then ts else tc) in
     if pv_len p > 0 \<and> st' = TCP_ESTABLISHED \<and> sb_ready sb then do {
       (_, g3, sb') \<leftarrow> stream_buffer_insert_segment env g2 sb sq (pv_payload p) (pv_len p);
       Some (g3, if dir = FLOW_DIR_TOSERVER then t1\<lparr>toserver_sb := sb'\<rparr> else t1\<lparr>toclient_sb := sb'\<rparr>) }
     else Some (g2, t1))"

definition flow_count :: "'p flow \<Rightarrow> pkt_view \<Rightarrow> flow_dir \<Rightarrow> timeval \<Rightarrow> 'p flow" where
  "flow_count f p dir now =
    (if dir = FLOW_DIR_TOSERVER then
       f\<lparr>last_ts := now, toserver_pkt_cnt := toserver_pkt_cnt f + 1,
         toserver_byte_cnt := toserver_byte_cnt f + ucast (pv_len p), f_flags := f_flags f OR FLOW_TO_DST_SEEN\<rparr>
     else
       f\<lparr>last_ts := now, toclient_pkt_cnt := toclient_pkt_cnt f + 1,
         toclient_byte_cnt := toclient_byte_cnt f + ucast (pv_len p), f_flags := f_flags f OR FLOW_TO_SRC_SEEN\<rparr>)"

definition flow_update ::
  "rte_env \<Rightarrow> 'p flow_state \<Rightarrow> timeval \<Rightarrow> nat option \<Rightarrow> pkt_view option \<Rightarrow> flow_dir \<Rightarrow> 'p flow_state option" where
  "flow_update env st now flow pkt dir = (case (flow, pkt) of
     (Some a, Some p) \<Rightarrow> do {
       f \<leftarrow> fheap st a;
       let f1 = flow_count f p dir now;
       (case (f_tcp f1, pv_tcp p) of
          (Some t, Some (fl, sq)) \<Rightarrow>
            if f_proto f1 = IPPROTO_TCP then do {
              (g', t') \<leftarrow> tcp_update env (freasm st) p dir fl sq t;
              let f2 = (if ts_state t = TCP_SYN_RECV \<and> ts_state t' = TCP_ESTABLISHED
                        then f1\<lparr>timeout_policy := timeout_est (fcfg st)\<rparr> else f1);
              Some (st\<lparr>fheap := (fheap st)(a \<mapsto> f2\<lparr>f_tcp := Some t'\<rparr>), freasm := g'\<rparr>) }
            else Some (st\<lparr>fheap := (fheap st)(a \<mapsto> f1)\<rparr>)
        | _ \<Rightarrow> Some (st\<lparr>fheap := (fheap st)(a \<mapsto> f1)\<rparr>)) }
   | _ \<Rightarrow> Some st)"

definition flow_release :: "'p flow_state \<Rightarrow> nat option \<Rightarrow> 'p flow_state option" where
  "flow_release st flow = (case flow of
     None \<Rightarrow> Some st
   | Some a \<Rightarrow> do {
       f \<leftarrow> fheap st a;
       Some (if use_cnt f > 0 then st\<lparr>fheap := (fheap st)(a \<mapsto> f\<lparr>use_cnt := use_cnt f - 1\<rparr>)\<rparr> else st) })"

definition flow_age :: "timeval \<Rightarrow> 'p flow \<Rightarrow> u32" where
  "flow_age now f = word_of_int (tv_sec now - tv_sec (last_ts f))"

definition should_remove :: "timeval \<Rightarrow> 'p flow \<Rightarrow> bool" where
  "should_remove now f \<longleftrightarrow> use_cnt f = 0 \<and> flow_age now f > timeout_policy f"

text \<open>The loop over one bucket: the remaining chain, the state and the number of removed flows.\<close>

definition flow_drop :: "'p flow_state \<Rightarrow> nat \<Rightarrow> 'p flow \<Rightarrow> 'p flow_state" where
  "flow_drop st a f =
    st\<lparr>fheap := (fheap st)(a := None), freasm := flow_free (freasm st) f,
       fstats := (fstats st)\<lparr>flows_removed := flows_removed (fstats st) + 1,
         flows_timeout := flows_timeout (fstats st) + 1, flows_active := flows_active (fstats st) - 1\<rparr>\<rparr>"

fun expire_bucket ::
  "timeval \<Rightarrow> 'p flow_state \<Rightarrow> nat list \<Rightarrow> ('p flow_state \<times> nat list \<times> nat) option" where
  "expire_bucket now st [] = Some (st, [], 0)"
| "expire_bucket now st (a # as) = do {
     f \<leftarrow> fheap st a;
     if should_remove now f then do {
       (st', l, k) \<leftarrow> expire_bucket now (flow_drop st a f) as; Some (st', l, k + 1) }
     else do { (st', l, k) \<leftarrow> expire_bucket now st as; Some (st', a # l, k) } }"

fun expire_all ::
  "timeval \<Rightarrow> 'p flow_state \<Rightarrow> nat list list \<Rightarrow> ('p flow_state \<times> nat list list \<times> nat) option" where
  "expire_all now st [] = Some (st, [], 0)"
| "expire_all now st (b # bs) = do {
     (st1, b', k) \<leftarrow> expire_bucket now st b;
     (st2, bs', m) \<leftarrow> expire_all now st1 bs;
     Some (st2, b' # bs', k + m) }"

text \<open>The outer loop runs over the first \<^verbatim>\<open>hash_size\<close> buckets; reading past the table is undefined.\<close>

definition flow_cleanup_expired ::
  "'p flow_state \<Rightarrow> timeval option \<Rightarrow> (nat \<times> 'p flow_state) option" where
  "flow_cleanup_expired st now_ptr = (case (now_ptr, flow_hash_table st) of
     (Some now, Some tbl) \<Rightarrow>
       (if length tbl < unat (hash_size (fcfg st)) then None
        else do {
          (st', tbl', k) \<leftarrow> expire_all now st (take (unat (hash_size (fcfg st))) tbl);
          Some (k, st'\<lparr>flow_hash_table := Some (tbl' @ drop (unat (hash_size (fcfg st))) tbl)\<rparr>) })
   | _ \<Rightarrow> Some (0, st))"

text \<open>\<^verbatim>\<open>flow_cleanup\<close> frees every chained flow and the table; the statistics stay as they are.\<close>

definition flow_cleanup :: "'p flow_state \<Rightarrow> 'p flow_state option" where
  "flow_cleanup st = (case flow_hash_table st of
     None \<Rightarrow> Some st
   | Some tbl \<Rightarrow>
      if \<forall>a \<in> set (concat tbl). fheap st a \<noteq> None then
        Some (st\<lparr>flow_hash_table := None,
                 fheap := (\<lambda>a. if a \<in> set (concat tbl) then None else fheap st a),
                 freasm := fold (\<lambda>a g. flow_free g (the (fheap st a))) (concat tbl) (freasm st)\<rparr>)
      else None)"

definition flow_get_stats :: "'p flow_state \<Rightarrow> flow_stats" where
  "flow_get_stats st = fstats st"


section \<open>The table invariant\<close>

definition bucket_index :: "u32 \<Rightarrow> u32 \<Rightarrow> nat" where
  "bucket_index hs hash = unat (hash AND (hs - 1))"

definition chains_ok :: "u32 \<Rightarrow> (nat \<Rightarrow> 'p flow option) \<Rightarrow> nat list list \<Rightarrow> bool" where
  "chains_ok hs h tbl \<longleftrightarrow> hs \<noteq> 0 \<and> length tbl = unat hs \<and> distinct (concat tbl) \<and>
     set (concat tbl) = dom h \<and>
     (\<forall>i < length tbl. \<forall>a \<in> set (tbl ! i). \<exists>f. h a = Some f \<and> bucket_index hs (flow_hash f) = i)"

definition flow_ok :: "u32 \<Rightarrow> 'p flow \<Rightarrow> bool" where
  "flow_ok maxseg f \<longleftrightarrow> (\<forall>t sb. f_tcp f = Some t \<longrightarrow>
     toserver_sb t = Some sb \<or> toclient_sb t = Some sb \<longrightarrow> stream_safe maxseg sb)"

definition flow_inv :: "'p flow_state \<Rightarrow> bool" where
  "flow_inv st \<longleftrightarrow>
     (\<exists>tbl. flow_hash_table st = Some tbl \<and> chains_ok (hash_size (fcfg st)) (fheap st) tbl \<and>
        flows_active (fstats st) = of_nat (length (concat tbl)) \<and>
        length (concat tbl) \<le> unat (max_flows (fcfg st))) \<and>
     (\<forall>a \<in> dom (fheap st). a < fnext st) \<and>
     (\<forall>a f. fheap st a = Some f \<longrightarrow> flow_ok (cfg_max_segments (global_config (freasm st))) f) \<and>
     unat (cfg_max_buffer_size (global_config (freasm st))) < 2 ^ 32 - 65536"

lemma bucket_index_less: "hs \<noteq> 0 \<Longrightarrow> bucket_index hs hash < unat hs"
proof -
  assume "hs \<noteq> 0"
  then have "hs - 1 < hs"
    by (simp add: word_less_nat_alt unat_minus_one unat_gt_0)
  moreover have "hash AND (hs - 1) \<le> hs - 1"
    by (rule word_and_le1)
  ultimately show ?thesis
    by (simp add: bucket_index_def word_less_nat_alt word_le_nat_alt)
qed

lemma chains_ok_upd:
  assumes "chains_ok hs h tbl" "h a = Some f" "flow_hash f' = flow_hash f"
  shows "chains_ok hs (h(a \<mapsto> f')) tbl"
proof -
  have "dom (h(a \<mapsto> f')) = dom h"
    using assms(2) by auto
  moreover have "\<exists>f. (h(a \<mapsto> f')) b = Some f \<and> bucket_index hs (flow_hash f) = i"
    if "i < length tbl" "b \<in> set (tbl ! i)" for i b
    using assms that unfolding chains_ok_def by fastforce
  ultimately show ?thesis
    using assms(1) by (simp add: chains_ok_def)
qed

lemma set_concat_nth: "set (concat xs) = (\<Union>i < length xs. set (xs ! i))"
  by (force simp: set_conv_nth [of xs])

lemma concat_update_Cons:
  "i < length xs \<Longrightarrow> mset (concat (xs[i := a # xs ! i])) = add_mset a (mset (concat xs))"
proof (induction xs arbitrary: i)
  case (Cons x xs)
  then show ?case
    by (cases i) auto
qed simp

lemma chains_ok_create:
  assumes ok: "chains_ok hs h tbl" and a: "h a = None" and i: "i = bucket_index hs (flow_hash f)"
  shows "chains_ok hs (h(a \<mapsto> f)) (tbl[i := a # tbl ! i])"
proof -
  have il: "i < length tbl"
    using ok i bucket_index_less by (simp add: chains_ok_def)
  have ms: "mset (concat (tbl[i := a # tbl ! i])) = mset (a # concat tbl)"
    using concat_update_Cons [OF il, of a] by simp
  have fresh: "a \<notin> set (concat tbl)"
    using ok a by (auto simp: chains_ok_def)
  have "distinct (concat (tbl[i := a # tbl ! i]))"
    using mset_eq_imp_distinct_iff [OF ms] fresh ok by (simp add: chains_ok_def)
  moreover have "set (concat (tbl[i := a # tbl ! i])) = dom (h(a \<mapsto> f))"
    using mset_eq_setD [OF ms] ok by (auto simp: chains_ok_def)
  moreover have "\<exists>f'. (h(a \<mapsto> f)) b = Some f' \<and> bucket_index hs (flow_hash f') = j"
    if "j < length tbl" "b \<in> set (tbl[i := a # tbl ! i] ! j)" for j b
  proof (cases "b = a")
    case True
    have "j = i"
    proof (rule ccontr)
      assume "j \<noteq> i"
      then have "a \<in> set (tbl ! j)"
        using that True by simp
      then show False
        using fresh that(1) set_concat_nth [of tbl] by auto
    qed
    then show ?thesis
      using True i by simp
  next
    case False
    then have "b \<in> set (tbl ! j)"
      using that by (cases "j = i") auto
    then show ?thesis
      using ok that(1) False by (auto simp: chains_ok_def)
  qed
  ultimately show ?thesis
    using ok by (simp add: chains_ok_def)
qed

lemma chains_ok_remove:
  assumes ok: "chains_ok hs h tbl"
  shows "chains_ok hs (\<lambda>a. if a \<in> R then None else h a) (map (filter (\<lambda>a. a \<notin> R)) tbl)"
proof -
  have c: "concat (map (filter (\<lambda>a. a \<notin> R)) tbl) = filter (\<lambda>a. a \<notin> R) (concat tbl)"
    by (simp add: filter_concat)
  have "dom (\<lambda>a. if a \<in> R then None else h a) = {a \<in> dom h. a \<notin> R}"
    by (auto split: if_splits)
  then show ?thesis
    using ok by (auto simp: chains_ok_def c)
qed

section \<open>Lookup\<close>

lemma bucket_search_total:
  "\<forall>a \<in> set l. h a \<noteq> None \<Longrightarrow> \<exists>r. bucket_search h hash p l = Some r"
  by (induction l) auto

lemma bucket_search_found:
  assumes "bucket_search h hash p l = Some (Some a)"
  shows "a \<in> set l \<and> (\<exists>f. h a = Some f \<and> flow_hash f = hash \<and> flow_match f p)"
  using assms by (induction l) (auto simp: bind_eq_Some_conv split: if_splits)

lemma chains_bucket_dom:
  "chains_ok hs h tbl \<Longrightarrow> i < length tbl \<Longrightarrow> a \<in> set (tbl ! i) \<Longrightarrow> \<exists>f. h a = Some f"
  by (auto simp: chains_ok_def)

text \<open>The fields that creation fixes.\<close>

lemma flow_fill_simps [simp]:
  "flow_hash (flow_fill cfg now hash p f) = hash" "f_proto (flow_fill cfg now hash p f) = pv_proto p"
  "f_tcp (flow_fill cfg now hash p f) = f_tcp f" "use_cnt (flow_fill cfg now hash p f) = use_cnt f"
  by (simp_all add: flow_fill_def Let_def)

lemma zero_safe: "stream_safe maxseg stream_buffer_zero"
  by (simp add: stream_safe_def stream_buffer_zero_def)

lemma new_tcp_session_ok:
  assumes "new_tcp_session env g = (g', t)"
  shows "global_config g' = global_config g" "flow_ok maxseg (f\<lparr>f_tcp := t\<rparr>)"
  using assms by (auto simp: new_tcp_session_def flow_ok_def zero_safe Let_def split: if_splits)

lemma attach_session_ok:
  fixes f :: "'p flow"
  assumes "attach_session env g f = (g', f')" "f_tcp f = None"
  shows "global_config g' = global_config g" "flow_ok maxseg f'" "flow_hash f' = flow_hash f"
proof -
  obtain g1 and t :: "'p tcp_session option" where nt: "new_tcp_session env g = (g1, t)"
    by (meson surj_pair)
  have "flow_ok maxseg f"
    using assms(2) by (simp add: flow_ok_def)
  then show "global_config g' = global_config g" "flow_ok maxseg f'" "flow_hash f' = flow_hash f"
    using assms(1) nt new_tcp_session_ok [OF nt] by (auto simp: attach_session_def split: if_splits)
qed

section \<open>The operations keep the invariant\<close>

lemma flow_inv_heap_upd:
  assumes inv: "flow_inv st" and a: "fheap st a = Some f" and f': "flow_hash f' = flow_hash f"
    and g: "global_config g = global_config (freasm st)"
    and ok: "flow_ok (cfg_max_segments (global_config g)) f'"
  shows "flow_inv (st\<lparr>fheap := (fheap st)(a \<mapsto> f'), freasm := g\<rparr>)"
proof -
  have "dom ((fheap st)(a \<mapsto> f')) = dom (fheap st)"
    using a by auto
  then show ?thesis
    using inv chains_ok_upd [where h = "fheap st" and a = a and f = f and f' = f'] a f' g ok
    by (auto simp: flow_inv_def)
qed

lemma flow_inv_heap_upd':
  assumes "flow_inv st" "fheap st a = Some f" "flow_hash f' = flow_hash f"
    and "f_tcp f' = f_tcp f"
  shows "flow_inv (st\<lparr>fheap := (fheap st)(a \<mapsto> f')\<rparr>)"
proof -
  have "flow_ok (cfg_max_segments (global_config (freasm st))) f'"
    using assms by (auto simp: flow_inv_def flow_ok_def)
  from flow_inv_heap_upd [OF assms(1-3) refl this] show ?thesis
    by simp
qed

lemma flow_create_inv:
  fixes st :: "'p flow_state"
  assumes inv: "flow_inv st" and tbl: "flow_hash_table st = Some tbl"
    and idx: "idx = bucket_index (hash_size (fcfg st)) hash"
  shows "flow_inv (fst (flow_create env st now hash p tbl idx))"
proof (cases "flows_active (fstats st) \<ge> ucast (max_flows (fcfg st)) \<or> \<not> malloc_ok env (nalloc (freasm st))")
  case True
  then show ?thesis
    using inv by (auto simp: flow_create_def flow_alloc_def flow_inv_def Let_def)
next
  case False
  let ?a = "fnext st" and ?g1 = "(freasm st)\<lparr>nalloc := nalloc (freasm st) + 1\<rparr>"
    and ?f1 = "flow_fill (fcfg st) now hash p (flow_zero\<lparr>use_cnt := 1\<rparr>) :: 'p flow"
  have chains: "chains_ok (hash_size (fcfg st)) (fheap st) tbl"
    and act: "flows_active (fstats st) = of_nat (length (concat tbl))"
    and le: "length (concat tbl) \<le> unat (max_flows (fcfg st))"
    and next_: "\<forall>a \<in> dom (fheap st). a < fnext st"
    using inv tbl by (auto simp: flow_inv_def)
  have "fheap st ?a = None"
    using next_ by auto
  then have chains': "chains_ok (hash_size (fcfg st)) ((fheap st)(?a \<mapsto> f2)) (tbl[idx := ?a # tbl ! idx])"
    if "flow_hash f2 = hash" for f2
    using chains_ok_create [OF chains] idx that by metis
  have il: "idx < length tbl"
    using chains idx bucket_index_less by (simp add: chains_ok_def)
  have len: "length (concat (tbl[idx := ?a # tbl ! idx])) = Suc (length (concat tbl))"
    using arg_cong [OF concat_update_Cons [OF il, of ?a], of size] by simp
  have room: "length (concat tbl) < unat (max_flows (fcfg st))"
  proof -
    have "unat (of_nat (length (concat tbl)) :: u64) = length (concat tbl)"
      using le unat_u32_lt [of "max_flows (fcfg st)"] by (simp add: unsigned_of_nat take_bit_nat_eq_self)
    moreover have "unat (ucast (max_flows (fcfg st)) :: u64) = unat (max_flows (fcfg st))"
      using unat_u32_lt [of "max_flows (fcfg st)"]
      by (simp add: unsigned_ucast_eq take_bit_nat_eq_self)
    ultimately show ?thesis
      using False act by (simp add: word_le_nat_alt)
  qed
  obtain g2 f2 where f2: "attach_session env ?g1 ?f1 = (g2, f2)"
    by (meson surj_pair)
  have f2': "flow_hash f2 = hash" "global_config g2 = global_config (freasm st)"
    "flow_ok (cfg_max_segments (global_config (freasm st))) f2"
    using attach_session_ok [OF f2] by (simp_all add: flow_zero_def)
  have "fst (flow_create env st now hash p tbl idx) =
      st\<lparr>flow_hash_table := Some (tbl[idx := ?a # tbl ! idx]), fheap := (fheap st)(?a \<mapsto> f2),
        fstats := (fstats st)\<lparr>flows_created := flows_created (fstats st) + 1,
                              flows_active := flows_active (fstats st) + 1\<rparr>,
        freasm := g2, fnext := ?a + 1\<rparr>"
    using False f2 by (simp add: flow_create_def flow_alloc_def Let_def)
  moreover have "flow_inv \<dots>"
    using inv chains' [OF f2'(1)] f2'(2,3) len room act next_
    unfolding flow_inv_def by (auto simp: add.commute less_Suc_eq)
  ultimately show ?thesis
    by simp
qed

lemma flow_get_inv:
  assumes inv: "flow_inv st"
  shows "\<exists>st' r. flow_get crc env st now pkt = Some (st', r) \<and> flow_inv st'"
proof (cases pkt)
  case None
  then show ?thesis
    using inv by (simp add: flow_get_def)
next
  case (Some p)
  obtain tbl where tbl: "flow_hash_table st = Some tbl" "chains_ok (hash_size (fcfg st)) (fheap st) tbl"
    using inv by (auto simp: flow_inv_def)
  let ?h = "flow_hash_calculate crc p"
  let ?i = "bucket_index (hash_size (fcfg st)) ?h"
  have il: "?i < length tbl"
    using tbl(2) bucket_index_less by (simp add: chains_ok_def)
  obtain r where r: "bucket_search (fheap st) ?h p (tbl ! ?i) = Some r"
    using bucket_search_total [of "tbl ! ?i" "fheap st" ?h p] chains_bucket_dom [OF tbl(2) il] by auto
  show ?thesis
  proof (cases r)
    case None
    then show ?thesis
      using Some tbl(1) il r flow_create_inv [OF inv tbl(1) refl, of env now ?h p]
      by (cases "flow_create env st now ?h p tbl ?i") (auto simp: flow_get_def bucket_index_def Let_def)
  next
    case (Some a)
    then obtain f where f: "fheap st a = Some f"
      using bucket_search_found r by metis
    have "flow_inv (st\<lparr>fheap := (fheap st)(a \<mapsto> f\<lparr>use_cnt := use_cnt f + 1\<rparr>)\<rparr>)"
      by (rule flow_inv_heap_upd' [OF inv f]) simp_all
    then show ?thesis
      using Some \<open>pkt = Some p\<close> tbl(1) il r f by (auto simp: flow_get_def bucket_index_def Let_def)
  qed
qed

lemma flow_release_inv:
  assumes inv: "flow_inv st" and a: "fheap st a \<noteq> None"
  shows "\<exists>st'. flow_release st (Some a) = Some st' \<and> flow_inv st'"
proof -
  obtain f where f: "fheap st a = Some f"
    using a by auto
  have "flow_inv (st\<lparr>fheap := (fheap st)(a \<mapsto> f\<lparr>use_cnt := use_cnt f - 1\<rparr>)\<rparr>)"
    by (rule flow_inv_heap_upd' [OF inv f]) simp_all
  then show ?thesis
    using f inv by (simp add: flow_release_def)
qed

text \<open>The packets the dispatcher passes on: the payload pointer is followed by \<^verbatim>\<open>payload_len\<close> bytes.\<close>

definition pkt_ok :: "pkt_view \<Rightarrow> bool" where
  "pkt_ok p \<longleftrightarrow> (case pv_payload p of None \<Rightarrow> True | Some pl \<Rightarrow> unat (pv_len p) \<le> length pl)"

definition sb_ok :: "u32 \<Rightarrow> stream_buffer option \<Rightarrow> bool" where
  "sb_ok maxseg sb \<longleftrightarrow> (case sb of None \<Rightarrow> True | Some b \<Rightarrow> stream_safe maxseg b)"

lemma flow_ok_alt:
  "flow_ok maxseg f \<longleftrightarrow> (case f_tcp f of None \<Rightarrow> True
     | Some t \<Rightarrow> sb_ok maxseg (toserver_sb t) \<and> sb_ok maxseg (toclient_sb t))"
  by (auto simp: flow_ok_def sb_ok_def split: option.splits)

lemma init_if_empty_ok:
  assumes "sb_ok (cfg_max_segments (global_config g)) sb" "init_if_empty env g cond sb sq = (g', sb')"
    and "unat (cfg_max_buffer_size (global_config g)) < 2 ^ 32 - 65536"
  shows "sb_ok (cfg_max_segments (global_config g)) sb' \<and> global_config g' = global_config g"
proof (cases sb)
  case None
  then show ?thesis
    using assms(2) by (auto simp: init_if_empty_def sb_ok_def)
next
  case (Some b)
  obtain ret g1 sb1 where ini: "stream_buffer_init env g (Some b) sq OS_POLICY_LINUX = (ret, g1, Some sb1)"
    by (cases "rte_malloc_ok env (nalloc g) (unat (cfg_max_buffer_size (global_config g)))")
      (auto simp: stream_buffer_init_def Let_def)
  show ?thesis
    using assms(1,2) Some ini init_safe [OF assms(3) _ ini]
    by (auto simp: init_if_empty_def sb_ok_def split: if_splits)
qed

lemma insert_sb_ok:
  assumes "sb_ok (cfg_max_segments (global_config g)) sb" "pkt_ok p"
  shows "\<exists>ret g' sb'. stream_buffer_insert_segment env g sb sq (pv_payload p) (pv_len p) = Some (ret, g', sb') \<and>
    sb_ok (cfg_max_segments (global_config g)) sb' \<and> global_config g' = global_config g"
proof (cases "\<exists>b pl. sb = Some b \<and> pv_payload p = Some pl")
  case True
  then obtain b pl where b: "sb = Some b" "pv_payload p = Some pl"
    by blast
  then show ?thesis
    using insert_segment_safe [OF _ _ refl, of g b "pv_len p" pl env sq] assms
    by (fastforce simp: sb_ok_def pkt_ok_def)
next
  case False
  then show ?thesis
    using assms(1) by (cases sb; cases "pv_payload p") (auto simp: stream_buffer_insert_segment_def)
qed

lemma tcp_update_ok:
  assumes t: "sb_ok (cfg_max_segments (global_config g)) (toserver_sb t)"
    "sb_ok (cfg_max_segments (global_config g)) (toclient_sb t)" and p: "pkt_ok p"
    and size: "unat (cfg_max_buffer_size (global_config g)) < 2 ^ 32 - 65536"
  shows "\<exists>g' t'. tcp_update env g p dir fl sq t = Some (g', t') \<and>
    ts_state t' = tcp_next (ts_state t) fl dir \<and>
    sb_ok (cfg_max_segments (global_config g)) (toserver_sb t') \<and>
    sb_ok (cfg_max_segments (global_config g)) (toclient_sb t') \<and> global_config g' = global_config g"
proof -
  let ?st = "tcp_next (ts_state t) fl dir"
  obtain g1 ts where ts: "init_if_empty env g (?st = TCP_SYN_SENT) (toserver_sb t) sq = (g1, ts)"
    by (meson surj_pair)
  note ts' = init_if_empty_ok [OF t(1) ts size]
  obtain g2 tc where tc: "init_if_empty env g1 (?st = TCP_SYN_RECV) (toclient_sb t) sq = (g2, tc)"
    by (meson surj_pair)
  have tc': "sb_ok (cfg_max_segments (global_config g)) tc \<and> global_config g2 = global_config g"
    using init_if_empty_ok [OF _ tc] t(2) ts' size by auto
  let ?sb = "if dir = FLOW_DIR_TOSERVER then ts else tc"
  have sb: "sb_ok (cfg_max_segments (global_config g2)) ?sb"
    using ts' tc' by auto
  obtain ret g3 sb' where ins:
    "stream_buffer_insert_segment env g2 ?sb sq (pv_payload p) (pv_len p) = Some (ret, g3, sb')"
    "sb_ok (cfg_max_segments (global_config g2)) sb'" "global_config g3 = global_config g2"
    using insert_sb_ok [OF sb p] by blast
  show ?thesis
    using ts tc ts' tc' ins by (auto simp: tcp_update_def Let_def)
qed

lemma flow_count_simps [simp]:
  "flow_hash (flow_count f p dir now) = flow_hash f" "f_tcp (flow_count f p dir now) = f_tcp f"
  "f_proto (flow_count f p dir now) = f_proto f"
  by (simp_all add: flow_count_def)

lemma flow_update_inv:
  assumes inv: "flow_inv st" and a: "fheap st a = Some f" and p: "pkt_ok p"
  shows "\<exists>st'. flow_update env st now (Some a) (Some p) dir = Some st' \<and> flow_inv st'"
proof -
  let ?f1 = "flow_count f p dir now"
  have plain: "flow_inv (st\<lparr>fheap := (fheap st)(a \<mapsto> ?f1)\<rparr>)"
    by (rule flow_inv_heap_upd' [OF inv a]) simp_all
  show ?thesis
  proof (cases "\<exists>t fl sq. f_tcp f = Some t \<and> pv_tcp p = Some (fl, sq) \<and> f_proto f = IPPROTO_TCP")
    case True
    then obtain t fl sq where t: "f_tcp f = Some t" "pv_tcp p = Some (fl, sq)" "f_proto f = IPPROTO_TCP"
      by blast
    let ?g = "freasm st"
    have "flow_ok (cfg_max_segments (global_config ?g)) f"
      and size: "unat (cfg_max_buffer_size (global_config ?g)) < 2 ^ 32 - 65536"
      using inv a by (auto simp: flow_inv_def)
    then have ok: "sb_ok (cfg_max_segments (global_config ?g)) (toserver_sb t)"
      "sb_ok (cfg_max_segments (global_config ?g)) (toclient_sb t)"
      using t(1) by (simp_all add: flow_ok_alt)
    obtain g' t' where u: "tcp_update env ?g p dir fl sq t = Some (g', t')"
      "sb_ok (cfg_max_segments (global_config ?g)) (toserver_sb t')"
      "sb_ok (cfg_max_segments (global_config ?g)) (toclient_sb t')" "global_config g' = global_config ?g"
      using tcp_update_ok [OF ok p size, of env dir fl sq] by blast
    let ?f2 = "if ts_state t = TCP_SYN_RECV \<and> ts_state t' = TCP_ESTABLISHED
      then ?f1\<lparr>timeout_policy := timeout_est (fcfg st)\<rparr> else ?f1"
    have "flow_inv (st\<lparr>fheap := (fheap st)(a \<mapsto> ?f2\<lparr>f_tcp := Some t'\<rparr>), freasm := g'\<rparr>)"
      by (rule flow_inv_heap_upd [OF inv a]) (use u in \<open>auto simp: flow_ok_alt\<close>)
    then show ?thesis
      using a t u(1) by (simp add: flow_update_def Let_def)
  next
    case False
    then show ?thesis
      using a plain by (auto simp: flow_update_def Let_def split: option.splits)
  qed
qed

section \<open>Expiry\<close>

definition expires :: "timeval \<Rightarrow> (nat \<Rightarrow> 'p flow option) \<Rightarrow> nat \<Rightarrow> bool" where
  "expires now h a \<longleftrightarrow> (\<exists>f. h a = Some f \<and> should_remove now f)"

definition stats_drop :: "flow_stats \<Rightarrow> nat \<Rightarrow> flow_stats" where
  "stats_drop s k = s\<lparr>flows_removed := flows_removed s + of_nat k,
     flows_timeout := flows_timeout s + of_nat k, flows_active := flows_active s - of_nat k\<rparr>"

lemma stats_drop_0 [simp]: "stats_drop s 0 = s"
  by (simp add: stats_drop_def)

lemma stats_drop_Suc: "stats_drop (stats_drop s 1) k = stats_drop s (Suc k)"
  by (simp add: stats_drop_def algebra_simps)

lemma stats_drop_add: "stats_drop (stats_drop s k) m = stats_drop s (k + m)"
  by (simp add: stats_drop_def algebra_simps)

lemma global_config_buffer_free [simp]:
  "global_config (fst (stream_buffer_free g sb)) = global_config g"
proof -
  have "global_config (fold (\<lambda>s g. segment_free g s) l g) = global_config g" for l g
    by (induction l arbitrary: g) auto
  then show ?thesis
    by (auto simp: stream_buffer_free_def Let_def split: option.splits)
qed

lemma global_config_flow_free [simp]: "global_config (flow_free g f) = global_config g"
  by (auto simp: flow_free_def split: option.splits)

text \<open>One bucket is filtered; the heap loses exactly the flows that expire.\<close>

lemma expire_bucket_eq:
  assumes "distinct l" "\<forall>a \<in> set l. fheap st a \<noteq> None"
  shows "\<exists>g. expire_bucket now st l =
      Some (st\<lparr>fheap := (\<lambda>a. if a \<in> set l \<and> expires now (fheap st) a then None else fheap st a),
               fstats := stats_drop (fstats st) (length (filter (expires now (fheap st)) l)),
               freasm := g\<rparr>,
            filter (\<lambda>a. \<not> expires now (fheap st) a) l, length (filter (expires now (fheap st)) l)) \<and>
    global_config g = global_config (freasm st)"
  using assms
proof (induction l arbitrary: st)
  case Nil
  then show ?case
    by (auto intro!: exI [of _ "freasm st"])
next
  case (Cons a l)
  obtain f where f: "fheap st a = Some f"
    using Cons.prems by auto
  show ?case
  proof (cases "should_remove now f")
    case True
    let ?st1 = "flow_drop st a f"
    have exp: "expires now (fheap ?st1) b = expires now (fheap st) b" if "b \<in> set l" for b
      using that Cons.prems(1) by (auto simp: expires_def flow_drop_def)
    have filt: "filter (expires now (fheap ?st1)) l = filter (expires now (fheap st)) l"
      "filter (\<lambda>a. \<not> expires now (fheap ?st1) a) l = filter (\<lambda>a. \<not> expires now (fheap st) a) l"
      using exp by (auto intro: filter_cong)
    have heap: "(\<lambda>b. if b \<in> set l \<and> expires now (fheap ?st1) b then None else fheap ?st1 b) =
      (\<lambda>b. if b \<in> set (a # l) \<and> expires now (fheap st) b then None else fheap st b)"
      using exp f True by (auto simp: fun_eq_iff flow_drop_def expires_def)
    have "distinct l" "\<forall>b \<in> set l. fheap ?st1 b \<noteq> None"
      using Cons.prems by (auto simp: flow_drop_def)
    from Cons.IH [OF this] obtain g where IH: "expire_bucket now ?st1 l =
        Some (?st1\<lparr>fheap := (\<lambda>b. if b \<in> set (a # l) \<and> expires now (fheap st) b then None else fheap st b),
               fstats := stats_drop (fstats ?st1) (length (filter (expires now (fheap st)) l)), freasm := g\<rparr>,
            filter (\<lambda>a. \<not> expires now (fheap st) a) l, length (filter (expires now (fheap st)) l))"
      "global_config g = global_config (freasm ?st1)"
      unfolding heap filt by blast
    have "expires now (fheap st) a" "fstats ?st1 = stats_drop (fstats st) 1"
      using f True by (auto simp: expires_def flow_drop_def stats_drop_def)
    then show ?thesis
      using f True IH by (auto simp: stats_drop_Suc [unfolded One_nat_def] flow_drop_def)
  next
    case False
    then have "\<not> expires now (fheap st) a"
      using f by (auto simp: expires_def)
    then have "(\<lambda>b. if b \<in> set (a # l) \<and> expires now (fheap st) b then None else fheap st b) =
      (\<lambda>b. if b \<in> set l \<and> expires now (fheap st) b then None else fheap st b)"
      by auto
    then show ?thesis
      using f False Cons.IH [of st] Cons.prems \<open>\<not> expires now (fheap st) a\<close> by auto
  qed
qed

lemma expire_all_eq:
  assumes "distinct (concat bs)" "\<forall>a \<in> set (concat bs). fheap st a \<noteq> None"
  shows "\<exists>g. expire_all now st bs =
      Some (st\<lparr>fheap := (\<lambda>a. if a \<in> set (concat bs) \<and> expires now (fheap st) a then None else fheap st a),
               fstats := stats_drop (fstats st) (length (filter (expires now (fheap st)) (concat bs))),
               freasm := g\<rparr>,
            map (filter (\<lambda>a. \<not> expires now (fheap st) a)) bs,
            length (filter (expires now (fheap st)) (concat bs))) \<and>
    global_config g = global_config (freasm st)"
  using assms
proof (induction bs arbitrary: st)
  case Nil
  then show ?case
    by (auto intro!: exI [of _ "freasm st"])
next
  case (Cons b bs)
  let ?h = "fheap st" and ?n = "\<lambda>l. length (filter (expires now (fheap st)) l)"
  let ?h1 = "\<lambda>a. if a \<in> set b \<and> expires now ?h a then None else ?h a"
  have "distinct b" "\<forall>a \<in> set b. ?h a \<noteq> None"
    using Cons.prems by auto
  from expire_bucket_eq [OF this] obtain g1 where b: "expire_bucket now st b =
      Some (st\<lparr>fheap := ?h1, fstats := stats_drop (fstats st) (?n b), freasm := g1\<rparr>,
            filter (\<lambda>a. \<not> expires now ?h a) b, ?n b)"
    "global_config g1 = global_config (freasm st)"
    by blast
  let ?st1 = "st\<lparr>fheap := ?h1, fstats := stats_drop (fstats st) (?n b), freasm := g1\<rparr>"
  have disj: "set b \<inter> set (concat bs) = {}"
    using Cons.prems(1) by auto
  have exp: "expires now ?h1 a = expires now ?h a" if "a \<in> set (concat bs)" for a
    using that disj by (auto simp: expires_def)
  have filt: "filter (expires now ?h1) (concat bs) = filter (expires now ?h) (concat bs)"
    "map (filter (\<lambda>a. \<not> expires now ?h1 a)) bs = map (filter (\<lambda>a. \<not> expires now ?h a)) bs"
    using exp by (auto intro!: filter_cong)
  have heap: "(\<lambda>a. if a \<in> set (concat bs) \<and> expires now ?h1 a then None else ?h1 a) =
      (\<lambda>a. if a \<in> set (concat (b # bs)) \<and> expires now ?h a then None else ?h a)"
    using exp by (auto simp: fun_eq_iff)
  have pre: "distinct (concat bs)" "\<forall>a \<in> set (concat bs). fheap ?st1 a \<noteq> None"
    using Cons.prems disj by (auto split: if_splits)
  have sel: "fheap ?st1 = ?h1" "fstats ?st1 = stats_drop (fstats st) (?n b)" "freasm ?st1 = g1"
    by simp_all
  from Cons.IH [OF pre] obtain g2 where IH: "expire_all now ?st1 bs =
      Some (?st1\<lparr>fheap := (\<lambda>a. if a \<in> set (concat (b # bs)) \<and> expires now ?h a then None else ?h a),
               fstats := stats_drop (stats_drop (fstats st) (?n b)) (?n (concat bs)), freasm := g2\<rparr>,
            map (filter (\<lambda>a. \<not> expires now ?h a)) bs, ?n (concat bs))" "global_config g2 = global_config g1"
    unfolding sel filt heap by blast
  show ?case
    using b IH by (auto simp: stats_drop_add)
qed

text \<open>\<^verbatim>\<open>flow_cleanup_expired\<close> as one filter over the table.\<close>

lemma flow_cleanup_expired_eq:
  assumes inv: "flow_inv st" and tbl: "flow_hash_table st = Some tbl"
  shows "\<exists>g. flow_cleanup_expired st (Some now) =
      Some (length (filter (expires now (fheap st)) (concat tbl)),
            st\<lparr>flow_hash_table := Some (map (filter (\<lambda>a. \<not> expires now (fheap st) a)) tbl),
               fheap := (\<lambda>a. if expires now (fheap st) a then None else fheap st a),
               fstats := stats_drop (fstats st) (length (filter (expires now (fheap st)) (concat tbl))),
               freasm := g\<rparr>) \<and>
    global_config g = global_config (freasm st)"
proof -
  have ch: "chains_ok (hash_size (fcfg st)) (fheap st) tbl"
    using inv tbl by (auto simp: flow_inv_def)
  then have pre: "distinct (concat tbl)" "\<forall>a \<in> set (concat tbl). fheap st a \<noteq> None"
    and len: "length tbl = unat (hash_size (fcfg st))"
    by (auto simp: chains_ok_def)
  have heap: "(\<lambda>a. if a \<in> set (concat tbl) \<and> expires now (fheap st) a then None else fheap st a) =
      (\<lambda>a. if expires now (fheap st) a then None else fheap st a)"
    using ch by (auto simp: fun_eq_iff chains_ok_def expires_def)
  obtain g where "expire_all now st tbl =
      Some (st\<lparr>fheap := (\<lambda>a. if expires now (fheap st) a then None else fheap st a),
               fstats := stats_drop (fstats st) (length (filter (expires now (fheap st)) (concat tbl))),
               freasm := g\<rparr>,
            map (filter (\<lambda>a. \<not> expires now (fheap st) a)) tbl,
            length (filter (expires now (fheap st)) (concat tbl)))" "global_config g = global_config (freasm st)"
    using expire_all_eq [OF pre, of now] unfolding heap by blast
  then show ?thesis
    by (intro exI [of _ g]) (simp add: flow_cleanup_expired_def tbl len)
qed

lemma flow_cleanup_expired_inv:
  assumes inv: "flow_inv st"
  shows "\<exists>k st'. flow_cleanup_expired st (Some now) = Some (k, st') \<and> flow_inv st'"
proof -
  obtain tbl where tbl: "flow_hash_table st = Some tbl" "chains_ok (hash_size (fcfg st)) (fheap st) tbl"
    "flows_active (fstats st) = of_nat (length (concat tbl))"
    "length (concat tbl) \<le> unat (max_flows (fcfg st))"
    using inv by (auto simp: flow_inv_def)
  obtain g where eq: "flow_cleanup_expired st (Some now) =
      Some (length (filter (expires now (fheap st)) (concat tbl)),
            st\<lparr>flow_hash_table := Some (map (filter (\<lambda>a. \<not> expires now (fheap st) a)) tbl),
               fheap := (\<lambda>a. if expires now (fheap st) a then None else fheap st a),
               fstats := stats_drop (fstats st) (length (filter (expires now (fheap st)) (concat tbl))),
               freasm := g\<rparr>)" "global_config g = global_config (freasm st)"
    using flow_cleanup_expired_eq [OF inv tbl(1)] by blast
  have ch: "chains_ok (hash_size (fcfg st)) (\<lambda>a. if expires now (fheap st) a then None else fheap st a)
      (map (filter (\<lambda>a. \<not> expires now (fheap st) a)) tbl)"
    using chains_ok_remove [OF tbl(2), of "{a. expires now (fheap st) a}"] by simp
  have split: "length (filter (expires now (fheap st)) (concat tbl)) +
      length (filter (\<lambda>a. \<not> expires now (fheap st) a) (concat tbl)) = length (concat tbl)"
    by (rule sum_length_filter_compl)
  have c: "length (concat (map (filter (\<lambda>a. \<not> expires now (fheap st) a)) tbl)) =
      length (filter (\<lambda>a. \<not> expires now (fheap st) a) (concat tbl))"
    by (simp only: filter_concat)
  have act: "flows_active (fstats st) - of_nat (length (filter (expires now (fheap st)) (concat tbl))) =
      (of_nat (length (filter (\<lambda>a. \<not> expires now (fheap st) a) (concat tbl))) :: u64)"
    unfolding tbl(3) split [symmetric] by simp
  have le: "length (filter (\<lambda>a. \<not> expires now (fheap st) a) (concat tbl)) \<le> unat (max_flows (fcfg st))"
    using split tbl(4) by linarith
  have "flow_inv (st\<lparr>flow_hash_table := Some (map (filter (\<lambda>a. \<not> expires now (fheap st) a)) tbl),
               fheap := (\<lambda>a. if expires now (fheap st) a then None else fheap st a),
               fstats := stats_drop (fstats st) (length (filter (expires now (fheap st)) (concat tbl))),
               freasm := g\<rparr>)"
    unfolding flow_inv_def
    by (intro conjI exI [of _ "map (filter (\<lambda>a. \<not> expires now (fheap st) a)) tbl"])
      (use inv ch act le c eq(2) in \<open>auto simp: flow_inv_def stats_drop_def split: if_splits\<close>)
  then show ?thesis
    using eq(1) by blast
qed

section \<open>The table as a machine\<close>

datatype flow_op =
    FGet timeval pkt_view
  | FUpdate timeval nat pkt_view flow_dir
  | FRelease nat
  | FExpire timeval

fun flow_step ::
  "(u32 list \<Rightarrow> u32) \<Rightarrow> rte_env \<Rightarrow> flow_op \<Rightarrow> 'p flow_state \<Rightarrow> 'p flow_state option" where
  "flow_step crc env (FGet now p) st = map_option fst (flow_get crc env st now (Some p))"
| "flow_step crc env (FUpdate now a p dir) st = flow_update env st now (Some a) (Some p) dir"
| "flow_step crc env (FRelease a) st = flow_release st (Some a)"
| "flow_step crc env (FExpire now) st = map_option snd (flow_cleanup_expired st (Some now))"

fun flow_legal :: "flow_op \<Rightarrow> 'p flow_state \<Rightarrow> bool" where
  "flow_legal (FGet now p) st \<longleftrightarrow> True"
| "flow_legal (FUpdate now a p dir) st \<longleftrightarrow> fheap st a \<noteq> None \<and> pkt_ok p"
| "flow_legal (FRelease a) st \<longleftrightarrow> fheap st a \<noteq> None"
| "flow_legal (FExpire now) st \<longleftrightarrow> True"

lemma flow_step_inv:
  assumes "flow_inv st" "flow_legal x st"
  shows "\<exists>st'. flow_step crc env x st = Some st' \<and> flow_inv st'"
proof (cases x)
  case (FGet now p)
  then show ?thesis
    using flow_get_inv [OF assms(1), of crc env now "Some p"] by auto
next
  case (FUpdate now a p dir)
  then show ?thesis
    using flow_update_inv [OF assms(1)] assms(2) by auto
next
  case (FRelease a)
  then show ?thesis
    using flow_release_inv [OF assms(1)] assms(2) by auto
next
  case (FExpire now)
  then show ?thesis
    using flow_cleanup_expired_inv [OF assms(1), of now] by auto
qed

interpretation flows: guarded_machine "flow_step crc env" flow_legal flow_inv
  for crc env
  by unfold_locales (rule flow_step_inv)

section \<open>Lookup properties\<close>

lemma flow_init_inv:
  assumes "flow_init st ok hs mf = (0, st')" "fheap st = Map.empty"
    and "unat (cfg_max_buffer_size (global_config (freasm st))) < 2 ^ 32 - 65536"
  shows "flow_inv st'"
proof -
  have c: "concat (replicate n []) = []" for n
    by (induction n) auto
  have "st' = st\<lparr>fcfg := \<lparr>hash_size = hs, max_flows = mf, timeout_new = 30, timeout_est = 3600,
        flow_memcap = 536870912\<rparr>, fstats := \<lparr>flows_created = 0, flows_removed = 0, flows_timeout = 0,
        flows_active = 0, hash_collisions = 0\<rparr>, flow_hash_table := Some (replicate (unat hs) [])\<rparr>"
    and "hs \<noteq> 0"
    using assms(1) by (auto simp: flow_init_def Let_def split: if_splits)
  then show ?thesis
    using assms(2,3) by (auto simp: flow_inv_def chains_ok_def c)
qed

lemma flow_fill_match:
  assumes "pv_version p = 4 \<or> pv_version p = 6"
  shows "flow_match (flow_fill cfg now hash p (flow_zero\<lparr>use_cnt := 1\<rparr>)) p"
  using assms
  by (auto simp: flow_match_def flow_fill_def flow_zero_def addr_eq_def FLOW_IPV4_def FLOW_IPV6_def Let_def)

lemma flow_match_tcp_ctx [simp]: "flow_match (f\<lparr>f_tcp := t\<rparr>) p = flow_match f p"
  by (simp add: flow_match_def)

lemma flow_match_attach:
  "attach_session env g f = (g', f') \<Longrightarrow> flow_match f' p = flow_match f p"
  by (cases "new_tcp_session env g :: reasm \<times> 'p tcp_session option")
    (auto simp: attach_session_def split: if_splits prod.splits)

lemma bucket_search_upd:
  assumes "bucket_search h hash p l = Some (Some a)" "h a = Some f"
    "flow_hash f' = flow_hash f" "flow_match f' p = flow_match f p"
  shows "bucket_search (h(a \<mapsto> f')) hash p l = Some (Some a)"
  using assms by (induction l) (auto simp: bind_eq_Some_conv split: if_splits)

text \<open>What a successful \<^verbatim>\<open>flow_get\<close> leaves behind: the address is the first match in the packet's bucket.\<close>

lemma flow_get_first_match:
  fixes st :: "'p flow_state"
  assumes inv: "flow_inv st" and get: "flow_get crc env st now (Some p) = Some (st', Some a)"
    and ver: "pv_version p = 4 \<or> pv_version p = 6"
  shows "\<exists>tbl. flow_hash_table st' = Some tbl \<and> fcfg st' = fcfg st \<and>
    bucket_search (fheap st') (flow_hash_calculate crc p) p
      (tbl ! bucket_index (hash_size (fcfg st)) (flow_hash_calculate crc p)) = Some (Some a)"
proof -
  let ?h = "flow_hash_calculate crc p" and ?i = "bucket_index (hash_size (fcfg st)) (flow_hash_calculate crc p)"
  obtain tbl where tbl: "flow_hash_table st = Some tbl" "chains_ok (hash_size (fcfg st)) (fheap st) tbl"
    using inv by (auto simp: flow_inv_def)
  have il: "?i < length tbl"
    using tbl(2) bucket_index_less by (simp add: chains_ok_def)
  obtain r where r: "bucket_search (fheap st) ?h p (tbl ! ?i) = Some r"
    using bucket_search_total [of "tbl ! ?i" "fheap st" ?h p] chains_bucket_dom [OF tbl(2) il] by auto
  show ?thesis
  proof (cases r)
    case None
    then have cr: "flow_create env st now ?h p tbl ?i = (st', Some a)"
      using get tbl(1) r il by (simp add: flow_get_def bucket_index_def Let_def)
    let ?g1 = "(freasm st)\<lparr>nalloc := nalloc (freasm st) + 1\<rparr>"
    let ?f1 = "flow_fill (fcfg st) now ?h p (flow_zero\<lparr>use_cnt := 1\<rparr>) :: 'p flow"
    obtain g2 f2 where f2: "attach_session env ?g1 ?f1 = (g2, f2)"
      by (meson surj_pair)
    have "flow_hash f2 = ?h" "flow_match f2 p"
      using attach_session_ok(3) [OF f2] flow_match_attach [OF f2] flow_fill_match [OF ver]
      by (simp_all add: flow_zero_def)
    then show ?thesis
      using cr f2 il
      by (auto simp: flow_create_def flow_alloc_def Let_def split: if_splits)
  next
    case (Some b)
    then obtain f where f: "fheap st b = Some f"
      using bucket_search_found r by metis
    have "st' = st\<lparr>fheap := (fheap st)(b \<mapsto> f\<lparr>use_cnt := use_cnt f + 1\<rparr>)\<rparr>" "a = b"
      using get tbl(1) il r Some f by (auto simp: flow_get_def bucket_index_def Let_def)
    moreover have "bucket_search ((fheap st)(b \<mapsto> f\<lparr>use_cnt := use_cnt f + 1\<rparr>)) ?h p (tbl ! ?i) = Some (Some b)"
      by (rule bucket_search_upd [where f = f]) (use r Some f in \<open>simp_all add: flow_match_def\<close>)
    ultimately show ?thesis
      using tbl(1) by simp
  qed
qed

lemma flow_get_of_search:
  assumes "flow_inv st" "flow_hash_table st = Some tbl"
    and "bucket_search (fheap st) (flow_hash_calculate crc p) p
      (tbl ! bucket_index (hash_size (fcfg st)) (flow_hash_calculate crc p)) = Some (Some a)"
  shows "\<exists>st'. flow_get crc env st now (Some p) = Some (st', Some a)"
proof -
  have "chains_ok (hash_size (fcfg st)) (fheap st) tbl"
    using assms(1,2) by (auto simp: flow_inv_def)
  then have "bucket_index (hash_size (fcfg st)) (flow_hash_calculate crc p) < length tbl"
    using bucket_index_less by (simp add: chains_ok_def)
  then show ?thesis
    using assms(2,3) bucket_search_found [OF assms(3)] by (auto simp: flow_get_def bucket_index_def Let_def)
qed

section \<open>Properties\<close>

text \<open>C2: The flow table never breaks: from a table that satisfies the invariant, every sequence of
  lookups, updates, releases and expiry passes (with arbitrary packets, hash function, clock and
  allocation outcomes) runs without undefined behaviour and keeps the invariant. In particular the
  chains stay disjoint and hold exactly the live flows, every flow is in the bucket of its hash,
  \<^verbatim>\<open>flows_active\<close> counts them and never exceeds \<^verbatim>\<open>max_flows\<close>, and all stream buffers stay safe.\<close>

theorem flow_table_runs_safely:
  assumes "flow_inv st" and "legal_run (flow_step crc env) flow_legal ops st"
  shows "\<exists>st'. run_ops (flow_step crc env) ops st = Some st' \<and> flow_inv st'"
  using flows.run_safe [OF assms] .

text \<open>Lookup after lookup: the flow that \<^verbatim>\<open>flow_get\<close> returns for an IP packet, found or newly
  created, is the one it returns again for the next packet with the same addresses, ports and
  protocol.\<close>

theorem flow_get_stable:
  assumes "flow_inv st" "pv_version p = 4 \<or> pv_version p = 6"
    and "flow_get crc env st now (Some p) = Some (st1, Some a)"
  shows "\<exists>st2. flow_get crc env st1 now' (Some p) = Some (st2, Some a)"
proof -
  obtain tbl where tbl: "flow_hash_table st1 = Some tbl" "fcfg st1 = fcfg st"
    "bucket_search (fheap st1) (flow_hash_calculate crc p) p
      (tbl ! bucket_index (hash_size (fcfg st)) (flow_hash_calculate crc p)) = Some (Some a)"
    using flow_get_first_match [OF assms(1,3,2)] by blast
  have "flow_inv st1"
    using flow_get_inv [OF assms(1), of crc env now "Some p"] assms(3) by auto
  then show ?thesis
    using flow_get_of_search [of st1 tbl crc p a] tbl by simp
qed

text \<open>The packet of the opposite direction.\<close>

definition reverse_pkt :: "pkt_view \<Rightarrow> pkt_view" where
  "reverse_pkt p = p\<lparr>pv_src := pv_dst p, pv_dst := pv_src p, pv_sport := pv_dport p, pv_dport := pv_sport p\<rparr>"

lemma flow_match_reverse: "flow_match f (reverse_pkt p) = flow_match f p"
  by (auto simp: flow_match_def reverse_pkt_def)

text \<open>Replies get a flow of their own: \<^verbatim>\<open>flow_match\<close> accepts both directions, but the hash does not
  treat them alike, so whenever the hash tells the two directions apart, the flow \<^verbatim>\<open>flow_get\<close> returns
  for a reply is different from the flow of the request.\<close>

theorem reply_gets_another_flow:
  assumes "flow_inv st" "pv_version p = 4 \<or> pv_version p = 6"
    and "flow_hash_calculate crc (reverse_pkt p) \<noteq> flow_hash_calculate crc p"
    and "flow_get crc env st now (Some p) = Some (st1, Some a)"
    and "flow_get crc env st1 now' (Some (reverse_pkt p)) = Some (st2, Some b)"
  shows "a \<noteq> b \<and> (\<forall>f. flow_match f p = flow_match f (reverse_pkt p))"
proof
  obtain tbl where tbl: "flow_hash_table st1 = Some tbl" "fcfg st1 = fcfg st"
    "bucket_search (fheap st1) (flow_hash_calculate crc p) p
      (tbl ! bucket_index (hash_size (fcfg st)) (flow_hash_calculate crc p)) = Some (Some a)"
    using flow_get_first_match [OF assms(1,4,2)] by blast
  then obtain f where f: "fheap st1 a = Some f" "flow_hash f = flow_hash_calculate crc p"
    using bucket_search_found by metis
  have inv1: "flow_inv st1"
    using flow_get_inv [OF assms(1), of crc env now "Some p"] assms(4) by auto
  let ?q = "reverse_pkt p"
  let ?i = "bucket_index (hash_size (fcfg st1)) (flow_hash_calculate crc ?q)"
  obtain r where r: "bucket_search (fheap st1) (flow_hash_calculate crc ?q) ?q (tbl ! ?i) = Some r"
    and il: "?i < length tbl"
    using assms(5) tbl(1) by (auto simp: flow_get_def bucket_index_def Let_def bind_eq_Some_conv split: if_splits)
  show "a \<noteq> b"
  proof (cases r)
    case None
    then have "b = fnext st1"
      using assms(5) tbl(1) r il
      by (auto simp: flow_get_def bucket_index_def flow_create_def flow_alloc_def Let_def
          split: if_splits prod.splits)
    then show ?thesis
      using inv1 f(1) by (auto simp: flow_inv_def dom_def)
  next
    case (Some c)
    then have "b = c"
      using assms(5) tbl(1) r il by (auto simp: flow_get_def bucket_index_def Let_def bind_eq_Some_conv)
    then show ?thesis
      using bucket_search_found [OF r [unfolded Some]] f assms(3) by auto
  qed
qed (simp add: flow_match_reverse)

text \<open>C40: Expiry is exact: \<^verbatim>\<open>flow_cleanup_expired\<close> removes a flow if and only if it is unreferenced and
  its age exceeds its timeout, keeps every other flow unchanged, and returns how many it removed.\<close>

theorem flow_cleanup_expired_exact:
  assumes "flow_inv st"
  shows "\<exists>k st'. flow_cleanup_expired st (Some now) = Some (k, st') \<and>
    (\<forall>a. fheap st' a = (case fheap st a of None \<Rightarrow> None
       | Some f \<Rightarrow> if use_cnt f = 0 \<and> flow_age now f > timeout_policy f then None else Some f)) \<and>
    k = card {a. fheap st a \<noteq> None \<and> fheap st' a = None}"
proof -
  obtain tbl where tbl: "flow_hash_table st = Some tbl" "chains_ok (hash_size (fcfg st)) (fheap st) tbl"
    using assms by (auto simp: flow_inv_def)
  have gone: "{a. fheap st a \<noteq> None \<and> (if expires now (fheap st) a then None else fheap st a) = None} =
      set (filter (expires now (fheap st)) (concat tbl))"
    using tbl(2) by (auto simp: chains_ok_def expires_def)
  have "card (set (filter (expires now (fheap st)) (concat tbl))) =
      length (filter (expires now (fheap st)) (concat tbl))"
    using tbl(2) by (intro distinct_card) (simp add: chains_ok_def)
  then show ?thesis
    using flow_cleanup_expired_eq [OF assms tbl(1), of now] gone
    by (auto simp: expires_def should_remove_def split: option.splits)
qed

text \<open>A clock that steps back expires flows: when \<^verbatim>\<open>now\<close> is earlier than a flow's last packet, by
  any amount up to 100 years, the 32-bit age wraps around and the flow counts as expired however
  recent it is, for every timeout the configuration uses.\<close>

theorem clock_step_back_expires:
  assumes "use_cnt f = 0" "timeout_policy f \<le> 3600"
    and "tv_sec now < tv_sec (last_ts f)" "tv_sec (last_ts f) - tv_sec now \<le> 3153600000"
  shows "should_remove now f"
proof -
  let ?d = "tv_sec (last_ts f) - tv_sec now"
  have "uint (flow_age now f) = (- ?d) mod 2 ^ 32"
    by (simp add: flow_age_def unsigned_of_int take_bit_eq_mod del: of_int_diff)
  also have "\<dots> = (- ?d + 2 ^ 32) mod 2 ^ 32"
    by (simp only: mod_add_self2)
  also have "\<dots> = 2 ^ 32 - ?d"
    using assms(3,4) by (subst mod_pos_pos_trivial) auto
  finally have "uint (flow_age now f) = 2 ^ 32 - ?d" .
  moreover have "uint (timeout_policy f) \<le> 3600"
    using assms(2) by (simp add: word_le_def)
  ultimately have "timeout_policy f < flow_age now f"
    using assms(4) by (simp add: word_less_def)
  then show ?thesis
    using assms(1) by (simp add: should_remove_def)
qed

theorem clock_step_back_expires_witness:
  "should_remove \<lparr>tv_sec = 999, tv_usec = 0\<rparr>
     ((flow_zero :: unit flow)\<lparr>last_ts := \<lparr>tv_sec = 1000, tv_usec = 0\<rparr>, timeout_policy := 30\<rparr>)"
  by (rule clock_step_back_expires) (simp_all add: flow_zero_def)

section \<open>Properties of the TCP state machine\<close>

inductive tcp_reach :: "(u8 \<times> flow_dir) list \<Rightarrow> tcp_state \<Rightarrow> bool" where
  start: "tcp_reach [] TCP_NONE"
| packet: "tcp_reach ps s \<Longrightarrow> tcp_reach (ps @ [(fl, dir)]) (tcp_next s fl dir)"

inductive_cases tcp_reach_NilE: "tcp_reach [] s"

definition seen :: "(u8 \<times> flow_dir) list \<Rightarrow> nat \<Rightarrow> u8 \<Rightarrow> bool" where
  "seen ps i m \<longleftrightarrow> i < length ps \<and> has_flag (fst (ps ! i)) m"

lemma seen_append: "seen ps i m \<Longrightarrow> seen (ps @ qs) i m"
  by (auto simp: seen_def nth_append)

lemma seen_last: "has_flag fl m \<Longrightarrow> seen (ps @ [(fl, dir)]) (length ps) m"
  by (simp add: seen_def)

lemma seen_less: "seen ps i m \<Longrightarrow> i < length ps"
  by (simp add: seen_def)

definition syn_seen :: "(u8 \<times> flow_dir) list \<Rightarrow> bool" where
  "syn_seen ps \<longleftrightarrow> (\<exists>i. seen ps i RTE_TCP_SYN_FLAG)"

definition handshake_seen :: "(u8 \<times> flow_dir) list \<Rightarrow> bool" where
  "handshake_seen ps \<longleftrightarrow> (\<exists>i j. i < j \<and> seen ps i RTE_TCP_SYN_FLAG \<and> seen ps j RTE_TCP_ACK_FLAG)"

lemma syn_seen_step:
  "syn_seen ps \<Longrightarrow> syn_seen (ps @ [x])" "has_flag fl RTE_TCP_SYN_FLAG \<Longrightarrow> syn_seen (ps @ [(fl, dir)])"
  by (auto simp: syn_seen_def intro: seen_append seen_last)

lemma handshake_seen_step:
  "handshake_seen ps \<Longrightarrow> handshake_seen (ps @ [x])"
  "syn_seen ps \<Longrightarrow> has_flag fl RTE_TCP_ACK_FLAG \<Longrightarrow> handshake_seen (ps @ [(fl, dir)])"
  by (auto simp: handshake_seen_def syn_seen_def intro: seen_append seen_last seen_less)

lemma tcp_reach_inv:
  assumes "tcp_reach ps s"
  shows "(s \<in> {TCP_SYN_SENT, TCP_SYN_RECV} \<longrightarrow> syn_seen ps) \<and> s \<noteq> TCP_LISTEN \<and>
    (s \<notin> {TCP_NONE, TCP_SYN_SENT, TCP_SYN_RECV, TCP_CLOSED} \<longrightarrow> handshake_seen ps)"
  using assms
proof (induction rule: tcp_reach.induct)
  case (packet ps s fl dir)
  then show ?case
    by (cases s) (auto intro: syn_seen_step handshake_seen_step)
qed simp

text \<open>C37: No connection is tracked as established without a handshake: in every state the TCP state
  machine can reach from \<^verbatim>\<open>TCP_NONE\<close>, if the state is \<^verbatim>\<open>TCP_ESTABLISHED\<close> or one of the closing states,
  a packet with SYN and a later packet with ACK have been seen. \<^verbatim>\<open>TCP_LISTEN\<close> is never reached.\<close>

theorem tcp_established_needs_handshake:
  assumes "tcp_reach ps s" "s \<notin> {TCP_NONE, TCP_SYN_SENT, TCP_SYN_RECV, TCP_CLOSED}"
  shows "s \<noteq> TCP_LISTEN \<and> handshake_seen ps"
  using tcp_reach_inv [OF assms(1)] assms(2) by simp

theorem tcp_established_needs_handshake_witness:
  "handshake_seen [(0x02, FLOW_DIR_TOSERVER), (0x12, FLOW_DIR_TOCLIENT), (0x10, FLOW_DIR_TOSERVER)]"
proof -
  have "tcp_reach ((([] @ [(0x02, FLOW_DIR_TOSERVER)]) @ [(0x12, FLOW_DIR_TOCLIENT)]) @ [(0x10, FLOW_DIR_TOSERVER)])
      (tcp_next (tcp_next (tcp_next TCP_NONE 0x02 FLOW_DIR_TOSERVER) 0x12 FLOW_DIR_TOCLIENT) 0x10 FLOW_DIR_TOSERVER)"
    by (intro tcp_reach.intros)
  moreover have "tcp_next (tcp_next (tcp_next TCP_NONE 0x02 FLOW_DIR_TOSERVER) 0x12 FLOW_DIR_TOCLIENT)
      0x10 FLOW_DIR_TOSERVER = TCP_ESTABLISHED"
    by (simp add: has_flag_def RTE_TCP_SYN_FLAG_def RTE_TCP_ACK_FLAG_def)
  ultimately show ?thesis
    using tcp_established_needs_handshake [of _ TCP_ESTABLISHED] by simp
qed

text \<open>Exactly when a reset does not close: a packet with RST leaves the connection open in just
  these cases, where another flag of the packet is tested first. The comment in the source claims
  the complete machine of RFC 793, in which a reset in these states ends the connection; the
  common RST+ACK even completes the handshake in \<^verbatim>\<open>TCP_SYN_RECV\<close>.\<close>

theorem rst_not_closing_iff:
  assumes "has_flag fl RTE_TCP_RST_FLAG" "s \<noteq> TCP_LISTEN"
  shows "tcp_next s fl dir \<noteq> TCP_CLOSED \<longleftrightarrow>
    s \<in> {TCP_NONE, TCP_SYN_SENT} \<and> has_flag fl RTE_TCP_SYN_FLAG \<or>
    s \<in> {TCP_SYN_RECV, TCP_FIN_WAIT1, TCP_CLOSING} \<and> has_flag fl RTE_TCP_ACK_FLAG \<or>
    s \<in> {TCP_ESTABLISHED, TCP_FIN_WAIT1, TCP_FIN_WAIT2, TCP_CLOSE_WAIT} \<and> has_flag fl RTE_TCP_FIN_FLAG"
  using assms by (cases s) auto

theorem rst_not_closing_iff_witness: "tcp_next TCP_SYN_RECV 0x14 FLOW_DIR_TOCLIENT \<noteq> TCP_CLOSED"
  using rst_not_closing_iff [of "0x14" TCP_SYN_RECV FLOW_DIR_TOCLIENT]
  by (simp add: has_flag_def RTE_TCP_RST_FLAG_def RTE_TCP_ACK_FLAG_def)

section \<open>The initial sequence number\<close>

text \<open>Runs do not look at stream bytes that no segment carries.\<close>

lemma stream_step_cong:
  assumes "\<forall>i \<ge> 1. S i = S' i" "\<forall>a l. x = Arrive a l \<longrightarrow> 1 \<le> a"
  shows "stream_step env S isn x r = stream_step env S' isn x r"
proof (cases x)
  case (Arrive a l)
  then have eq: "map S [a..<a + l] = map S' [a..<a + l]"
    using assms by auto
  show ?thesis
    unfolding Arrive stream_step.simps eq ..
qed simp

lemma run_stream_cong:
  assumes "\<forall>i \<ge> 1. S i = S' i" "\<forall>a l. Arrive a l \<in> set ops \<longrightarrow> 1 \<le> a"
  shows "run_ops (stream_step env S isn) ops r = run_ops (stream_step env S' isn) ops r \<and>
    legal_run (stream_step env S isn) stream_legal ops r = legal_run (stream_step env S' isn) stream_legal ops r"
  using assms(2)
proof (induction ops arbitrary: r)
  case (Cons x ops)
  have "stream_step env S isn x r = stream_step env S' isn x r"
    by (rule stream_step_cong [OF assms(1)]) (use Cons.prems in auto)
  then show ?case
    using Cons by (cases "stream_step env S' isn x r") auto
qed simp

lemma run_inv_exists:
  assumes "stream_run_start env g isn OS_POLICY_LINUX = Some r"
    "unat (cfg_max_buffer_size (global_config g)) \<le> WINDOW"
    "legal_run (stream_step env S isn) stream_legal ops r"
  shows "\<exists>r'. run_ops (stream_step env S isn) ops r = Some r' \<and> run_inv S isn r'"
  using stream.run_safe [OF stream_run_start_inv [OF assms(1) _ assms(2)] assms(3)] by simp

text \<open>Nothing of a connection is ever delivered: \<^verbatim>\<open>flow_update\<close> initialises the buffer with the
  sequence number of the SYN itself, which the handshake consumes, so every data byte has an offset
  of at least 1. Whatever segments arrive, in whatever order, the buffer then waits for the byte at
  offset 0 for ever and not a single byte is delivered.\<close>

theorem nothing_delivered_after_syn_isn:
  assumes "stream_run_start env g isn OS_POLICY_LINUX = Some r"
    and "unat (cfg_max_buffer_size (global_config g)) \<le> 2 ^ 30"
    and "\<forall>a l. Arrive a l \<in> set ops \<longrightarrow> 1 \<le> a"
    and "legal_run (stream_step env S isn) stream_legal ops r"
  shows "\<exists>r'. run_ops (stream_step env S isn) ops r = Some r' \<and> delivered r' = 0"
proof -
  define S' where "S' = S(0 := S 0 + 1)"
  have size: "unat (cfg_max_buffer_size (global_config g)) \<le> WINDOW"
    using assms(2) by (simp add: WINDOW_def)
  have cong: "\<forall>i \<ge> 1. S i = S' i"
    by (simp add: S'_def)
  obtain r' where r': "run_ops (stream_step env S isn) ops r = Some r'" "run_inv S isn r'"
    using run_inv_exists [OF assms(1) size assms(4)] by blast
  obtain r'' where "run_ops (stream_step env S' isn) ops r = Some r''" "run_inv S' isn r''"
    using run_inv_exists [OF assms(1) size, of S' ops] assms(4) run_stream_cong [OF cong assms(3), of env isn r]
    by blast
  then have "run_inv S' isn r'"
    using r' run_stream_cong [OF cong assms(3), of env isn r] by simp
  then have eq: "map S [0..<delivered r'] = map S' [0..<delivered r']"
    using run_inv_all [OF r'(2)] run_inv_all [of S' isn r'] by simp
  have "delivered r' = 0"
  proof (rule ccontr)
    assume "delivered r' \<noteq> 0"
    then have "map S [0..<delivered r'] ! 0 = S 0" "map S' [0..<delivered r'] ! 0 = S' 0"
      by simp_all
    then show False
      using eq by (simp add: S'_def)
  qed
  then show ?thesis
    using r'(1) by blast
qed

theorem nothing_delivered_after_syn_isn_witness:
  "\<exists>r r'. stream_run_start demo_env demo_reasm 1000 OS_POLICY_LINUX = Some r \<and>
     run_ops (stream_step demo_env demo_stream 1000) [Arrive 1 2, Take 4] r = Some r' \<and> delivered r' = 0"
proof -
  have "map_option delivered (stream_run_start demo_env demo_reasm 1000 OS_POLICY_LINUX) = Some 0"
    by code_simp
  then obtain r where r: "stream_run_start demo_env demo_reasm 1000 OS_POLICY_LINUX = Some r" "delivered r = 0"
    by auto
  have "legal_run (stream_step demo_env demo_stream 1000) stream_legal [Arrive 1 2, Take 4] r"
    using r(2) by (simp add: WINDOW_def del: stream_step.simps split: option.splits)
  from nothing_delivered_after_syn_isn [OF r(1) _ _ this] show ?thesis
    using r(1) by (auto simp: demo_reasm_def)
qed

section \<open>A table for the witnesses\<close>

definition demo_table :: "unit flow_state" where
  "demo_table = snd (flow_init \<lparr>flow_hash_table = None, fheap = Map.empty,
     fcfg = \<lparr>hash_size = 0, max_flows = 0, timeout_new = 0, timeout_est = 0, flow_memcap = 0\<rparr>,
     fstats = \<lparr>flows_created = 0, flows_removed = 0, flows_timeout = 0, flows_active = 0,
       hash_collisions = 0\<rparr>, freasm = demo_reasm, fnext = 0\<rparr> True 4 10)"

definition demo_pkt :: pkt_view where
  "demo_pkt = \<lparr>pv_version = 4, pv_src = [0x0100000A], pv_dst = [0x0200000A], pv_sport = 40000,
     pv_dport = 80, pv_proto = IPPROTO_TCP, pv_tcp = Some (2, 1000), pv_payload = None, pv_len = 0\<rparr>"

definition demo_now :: timeval where "demo_now = \<lparr>tv_sec = 1700000000, tv_usec = 0\<rparr>"

text \<open>A stand-in for \<^verbatim>\<open>rte_hash_crc\<close>.\<close>

definition demo_crc :: "u32 list \<Rightarrow> u32" where
  "demo_crc ws = fold (\<lambda>w h. 3 * h + w) ws 0"

lemma demo_table_inv: "flow_inv demo_table"
proof -
  have "flow_init \<lparr>flow_hash_table = None, fheap = Map.empty :: nat \<Rightarrow> unit flow option,
     fcfg = \<lparr>hash_size = 0, max_flows = 0, timeout_new = 0, timeout_est = 0, flow_memcap = 0\<rparr>,
     fstats = \<lparr>flows_created = 0, flows_removed = 0, flows_timeout = 0, flows_active = 0,
       hash_collisions = 0\<rparr>, freasm = demo_reasm, fnext = 0\<rparr> True 4 10 = (0, demo_table)"
    by (simp add: demo_table_def flow_init_def Let_def)
  then show ?thesis
    by (rule flow_init_inv) (simp_all add: demo_reasm_def)
qed

theorem flow_table_runs_safely_witness:
  "\<exists>st'. run_ops (flow_step demo_crc demo_env) [FGet demo_now demo_pkt, FExpire demo_now] demo_table = Some st'
     \<and> flow_inv st'"
  by (rule flow_table_runs_safely [OF demo_table_inv]) (simp split: option.splits)

lemma demo_get: "map_option snd (flow_get demo_crc demo_env demo_table demo_now (Some demo_pkt)) = Some (Some 0)"
  by code_simp

theorem flow_get_stable_witness:
  "\<exists>st1 st2. flow_get demo_crc demo_env demo_table demo_now (Some demo_pkt) = Some (st1, Some 0) \<and>
     flow_get demo_crc demo_env st1 demo_now (Some demo_pkt) = Some (st2, Some 0)"
proof -
  obtain st1 where st1: "flow_get demo_crc demo_env demo_table demo_now (Some demo_pkt) = Some (st1, Some 0)"
    using demo_get by auto
  then show ?thesis
    using flow_get_stable [OF demo_table_inv _ st1] by (auto simp: demo_pkt_def)
qed

theorem reply_gets_another_flow_witness:
  "\<exists>st1 st2 b. flow_get demo_crc demo_env demo_table demo_now (Some demo_pkt) = Some (st1, Some 0) \<and>
     flow_get demo_crc demo_env st1 demo_now (Some (reverse_pkt demo_pkt)) = Some (st2, Some b) \<and> 0 \<noteq> b"
proof -
  obtain st1 where st1: "flow_get demo_crc demo_env demo_table demo_now (Some demo_pkt) = Some (st1, Some 0)"
    using demo_get by auto
  have "map_option snd (Option.bind (flow_get demo_crc demo_env demo_table demo_now (Some demo_pkt))
      (\<lambda>(st, _). flow_get demo_crc demo_env st demo_now (Some (reverse_pkt demo_pkt)))) = Some (Some 1)"
    by code_simp
  then obtain st2 where st2: "flow_get demo_crc demo_env st1 demo_now (Some (reverse_pkt demo_pkt)) = Some (st2, Some 1)"
    using st1 by auto
  have "flow_hash_calculate demo_crc (reverse_pkt demo_pkt) \<noteq> flow_hash_calculate demo_crc demo_pkt"
    by code_simp
  from reply_gets_another_flow [OF demo_table_inv _ this st1 st2] show ?thesis
    using st1 st2 by (auto simp: demo_pkt_def)
qed

theorem flow_cleanup_expired_exact_witness:
  "\<exists>k st'. flow_cleanup_expired demo_table (Some demo_now) = Some (k, st') \<and>
     k = card {a. fheap demo_table a \<noteq> None \<and> fheap st' a = None}"
  using flow_cleanup_expired_exact [OF demo_table_inv, of demo_now] by blast

section \<open>From the decoder to the flow table\<close>

definition same_l3 :: "packet_info \<Rightarrow> packet_info \<Rightarrow> bool" where
  "same_l3 pi pi' \<longleftrightarrow> ip_version pi' = ip_version pi \<and> l3_hdr pi' = l3_hdr pi"

lemma decode_l4_same_l3:
  "decode_tcp pi data off len = Some (ret, pi') \<Longrightarrow> same_l3 pi pi'"
  "decode_udp pi data off len = Some (ret, pi') \<Longrightarrow> same_l3 pi pi'"
  "decode_icmp pi data off len = Some (ret, pi') \<Longrightarrow> same_l3 pi pi'"
  by (simp_all add: decode_tcp_def decode_udp_def decode_icmp_def Let_def del: rd8_eq_Some
      split: if_split_asm bind_split_asm)
    (clarsimp simp: same_l3_def pkt_error_def)+

lemma decode_transport_same_l3:
  assumes "decode_transport pi data off plen = Some (tr, pi')"
  shows "same_l3 pi pi'"
proof -
  have "(\<exists>ret. decode_tcp pi data (unat off) (plen - off) = Some (ret, pi')) \<or>
    (\<exists>ret. decode_udp pi data (unat off) (plen - off) = Some (ret, pi')) \<or>
    (\<exists>ret. decode_icmp pi data (unat off) (plen - off) = Some (ret, pi')) \<or> pi' = pi"
    using assms by (auto simp: decode_transport_def bind_eq_Some_conv split: if_splits)
  then show ?thesis
    using decode_l4_same_l3 by (auto simp: same_l3_def)
qed

lemma decode_rest_l3:
  assumes "decode_rest pi data off plen = Some (ret, pi')"
  shows "same_l3 pi pi'"
proof -
  obtain tr p1 where "decode_transport pi data off plen = Some (tr, p1)" "pi' = p1 \<or> (\<exists>k. pi' = set_payload p1 k plen)"
    using assms by (cases "decode_transport pi data off plen")
      (fastforce simp: decode_rest_def split: sum.splits)+
  then show ?thesis
    using decode_transport_same_l3 by (fastforce simp: same_l3_def set_payload_def)
qed

lemma eth_info_version [simp]: "ip_version (eth_info data) = 0"
  by (simp add: eth_info_def packet_info_zero_def)

lemma decode_bytes_l3:
  assumes "length data < 2 ^ 32" "decode_bytes data (of_nat (length data)) = Some (0, pi)"
  shows "ip_version pi = 0 \<or> (ip_version pi = 4 \<and> l3_hdr pi = Some 14 \<and> 34 \<le> length data) \<or>
    (ip_version pi = 6 \<and> l3_hdr pi = Some 14 \<and> 54 \<le> length data)"
proof (cases "l4_start data")
  case None
  then show ?thesis
    using assms
    by (cases "be16 (data ! 12) (data ! 13) \<in> {RTE_ETHER_TYPE_IPV4, RTE_ETHER_TYPE_IPV6}")
      (auto simp: l4_start_def decode_bytes_def decode_ethernet_eq decode_network_ip4 decode_network_ip6
        decode_network_other split: if_splits)
next
  case (Some k)
  have "same_l3 (net_info data) pi"
    using decode_rest_l3 decode_bytes_l4 [OF assms(1) Some] assms(2) by metis
  then show ?thesis
    using Some by (auto simp: same_l3_def l4_start_def net_info_def ip4_info_def ip6_info_def split: if_splits)
qed

lemma load_addrs_total:
  assumes "ip_version pi = 0 \<or> (ip_version pi = 4 \<and> l3_hdr pi = Some 14 \<and> 34 \<le> length data) \<or>
    (ip_version pi = 6 \<and> l3_hdr pi = Some 14 \<and> 54 \<le> length data)"
  shows "\<exists>s d. load_addrs data pi = Some (s, d)"
  using assms by (auto simp: load_addrs_def rd_words_def rd_simps)

lemma load_tcp_total: "info_in_bounds data pi \<Longrightarrow> \<exists>t. load_tcp data pi = Some t"
  by (auto simp: load_tcp_def info_in_bounds_def rd_simps split: option.splits)

text \<open>The decoder's contract with the flow table: whenever \<^verbatim>\<open>decode_packet\<close> returns 0, the flow code
  can read the address, port and TCP fields behind the record's pointers without leaving the packet,
  and the payload it passes to reassembly really has \<^verbatim>\<open>payload_len\<close> bytes.\<close>

theorem decoded_packet_loads:
  assumes "data \<noteq> []" "length data < 2 ^ 32"
    and "decode_packet (Some (mbuf_of data)) (Some p0) = Some (0, Some pi)"
  shows "\<exists>p. load_pkt data pi = Some p \<and> pkt_ok p \<and> pv_sport p = src_port pi \<and> pv_dport p = dst_port pi"
proof -
  have dec: "decode_bytes data (of_nat (length data)) = Some (0, pi)"
    using assms by (auto simp: decode_packet_mbuf_of)
  obtain s d t where "load_addrs data pi = Some (s, d)" "load_tcp data pi = Some t"
    using load_addrs_total [OF decode_bytes_l3 [OF assms(2) dec]]
      load_tcp_total [OF decode_bytes_in_bounds [OF assms(2) dec]] by blast
  then show ?thesis
    using decode_bytes_in_bounds [OF assms(2) dec]
    by (auto simp: load_pkt_def pkt_ok_def info_in_bounds_def payload_in_bounds_def split: option.splits)
qed

theorem decoded_packet_loads_witness:
  "\<exists>p. load_pkt sample_frame sample_info = Some p \<and> pkt_ok p"
proof -
  have dec: "decode_packet (Some (mbuf_of sample_frame)) (Some packet_info_zero) =
      Some (0, Some sample_info)"
    by code_simp
  have "sample_frame \<noteq> []" "length sample_frame < 2 ^ 32"
    by (simp_all add: sample_frame_def sample_ip_def sample_tcp_def)
  then show ?thesis
    using decoded_packet_loads [OF _ _ dec] by blast
qed
end
