(* ===== verification/Timer_Wheel.thy ===== *)
theory Timer_Wheel
  imports Flow_Table "HOL-Library.Signed_Division"
begin

text \<open>
  The hierarchical timing wheel of \<^verbatim>\<open>timer.c\<close>. A scheduler has one cursor and one table of timer lists per
  level; a timer sits in the list of a slot and stores the ticks that remain once its slot comes round.

  A timer is named by its address. \<^verbatim>\<open>timer_pending\<close> looks at the list pointers of a timer; the field
  \<open>tm_linked\<close> says whether they are set. \<^verbatim>\<open>list_add_tail\<close> on a timer that is already in a list corrupts both
  lists, taking the spinlock of the global scheduler while it is held never returns: both outcomes are
  \<open>None\<close>. A timer handler is a parameter: its return code and the calls of this module that it makes. The
  field \<open>ts_trace\<close> records the timers whose handler was run.
\<close>

section \<open>Ticks and times\<close>

definition NDF_TIMER_HZ :: int where "NDF_TIMER_HZ = 1000"
definition LEVEL_SIZE :: u32 where "LEVEL_SIZE = 524288"
definition LEVEL_DEPTH :: nat where "LEVEL_DEPTH = 2"
definition TIMER_MAX_TICKS :: u32 where "TIMER_MAX_TICKS = 0xffffffff"
definition TIMER_MAX_SECS :: int where "TIMER_MAX_SECS = 0xffffffff div 1000"

abbreviation (input) "ENDF_OK \<equiv> (0 :: int)"
abbreviation (input) "ENDF_INVAL \<equiv> (-1 :: int)"
abbreviation (input) "ENDF_NOMEM \<equiv> (-2 :: int)"
abbreviation (input) "NDTIMER_OK \<equiv> (0 :: int)"

text \<open>The arithmetic is done in 64-bit signed integers; an overflow of these is undefined. The sum is then
  converted to \<^verbatim>\<open>uint64_t\<close>.\<close>

definition long_ok :: "int \<Rightarrow> bool" where
  "long_ok x \<longleftrightarrow> -(2 ^ 63) \<le> x \<and> x < 2 ^ 63"

definition ndf_timeval_to_ticks :: "timeval \<Rightarrow> u32 option" where
  "ndf_timeval_to_ticks tv =
    (let a = tv_sec tv * NDF_TIMER_HZ; b = tv_usec tv * NDF_TIMER_HZ; c = a + b sdiv 1000000 in
     if long_ok a \<and> long_ok b \<and> long_ok c then
       (let ticks = word_of_int c :: u64 in
        Some (if ticks \<ge> ucast TIMER_MAX_TICKS then TIMER_MAX_TICKS else ucast ticks))
     else None)"

definition ndf_ticks_to_timeval :: "u32 \<Rightarrow> timeval" where
  "ndf_ticks_to_timeval ticks =
    \<lparr>tv_sec = uint (ticks div 1000), tv_usec = uint (ticks mod 1000 * 1000000 div 1000)\<rparr>"

primrec get_level_ticks :: "nat \<Rightarrow> u32" where
  "get_level_ticks 0 = 1"
| "get_level_ticks (Suc level) = get_level_ticks level * LEVEL_SIZE"

section \<open>Data\<close>

record 'h ndf_timer =
  tm_linked :: bool
  tm_handler :: "'h option"
  tm_priv :: nat
  tm_period :: bool
  tm_delay :: u32
  tm_left :: u32

record 'h timer_scheduler =
  ts_global :: bool
  ts_lock :: bool
  ts_cursors :: "u32 list"
  ts_hashs :: "nat \<Rightarrow> nat \<Rightarrow> nat list"
  ts_timers :: "nat \<Rightarrow> 'h ndf_timer"
  ts_trace :: "nat list"

text \<open>The calls of this module that a handler can make; the flag selects the locking variant.\<close>

datatype 'h timer_call =
    CallSched bool nat timeval 'h nat
  | CallPeriod bool nat timeval 'h nat
  | CallCancel bool nat
  | CallReset bool nat
  | CallUpdate bool nat timeval

text \<open>What a handler does on its argument: its return code and its calls.\<close>

type_synonym 'h handlers = "'h \<Rightarrow> nat \<Rightarrow> int \<times> 'h timer_call list"

abbreviation ts_tm :: "'h timer_scheduler \<Rightarrow> nat \<Rightarrow> 'h ndf_timer" where
  "ts_tm s t \<equiv> ts_timers s t"

definition upd_tm :: "nat \<Rightarrow> ('h ndf_timer \<Rightarrow> 'h ndf_timer) \<Rightarrow> 'h timer_scheduler \<Rightarrow> 'h timer_scheduler" where
  "upd_tm t f s = s\<lparr>ts_timers := (ts_timers s)(t := f (ts_timers s t))\<rparr>"

definition timer_pending :: "'h timer_scheduler \<Rightarrow> nat \<Rightarrow> bool" where
  "timer_pending s t \<longleftrightarrow> tm_linked (ts_tm s t)"

definition tm_list_add_tail :: "nat \<Rightarrow> nat \<Rightarrow> nat \<Rightarrow> 'h timer_scheduler \<Rightarrow> 'h timer_scheduler option" where
  "tm_list_add_tail t level slot s =
    (if tm_linked (ts_tm s t) then None
     else Some (upd_tm t (\<lambda>x. x\<lparr>tm_linked := True\<rparr>)
       (s\<lparr>ts_hashs := (ts_hashs s)(level := (ts_hashs s level)(slot := ts_hashs s level slot @ [t]))\<rparr>)))"

definition tm_list_del :: "nat \<Rightarrow> 'h timer_scheduler \<Rightarrow> 'h timer_scheduler" where
  "tm_list_del t s = upd_tm t (\<lambda>x. x\<lparr>tm_linked := False\<rparr>)
     (s\<lparr>ts_hashs := (\<lambda>level slot. removeAll t (ts_hashs s level slot))\<rparr>)"

definition unlink_pending :: "nat \<Rightarrow> 'h timer_scheduler \<Rightarrow> 'h timer_scheduler" where
  "unlink_pending t s = (if timer_pending s t then tm_list_del t s else s)"

definition timer_sched_lock :: "'h timer_scheduler \<Rightarrow> 'h timer_scheduler option" where
  "timer_sched_lock s =
    (if ts_global s then (if ts_lock s then None else Some (s\<lparr>ts_lock := True\<rparr>)) else Some s)"

definition timer_sched_unlock :: "'h timer_scheduler \<Rightarrow> 'h timer_scheduler" where
  "timer_sched_unlock s = (if ts_global s then s\<lparr>ts_lock := False\<rparr> else s)"

section \<open>Scheduling\<close>

text \<open>The cursors of the lower levels, added to the remainder.\<close>

primrec lower_cursors :: "nat \<Rightarrow> u32 list \<Rightarrow> u32" where
  "lower_cursors 0 cs = 0"
| "lower_cursors (Suc level) cs = cs ! level * get_level_ticks level + lower_cursors level cs"

text \<open>The loop over the wheels from the level below the argument down to 0.\<close>

primrec place_from :: "nat \<Rightarrow> nat \<Rightarrow> 'h timer_scheduler \<Rightarrow> (int \<times> 'h timer_scheduler) option" where
  "place_from 0 t s = Some (ENDF_INVAL, s)"
| "place_from (Suc level) t s =
    (let off = tm_delay (ts_tm s t) div get_level_ticks level in
     if off > 0 then do {
       s' \<leftarrow> tm_list_add_tail t level (unat ((ts_cursors s ! level + off) mod LEVEL_SIZE)) s;
       Some (ENDF_OK, upd_tm t (\<lambda>x. x\<lparr>tm_left := tm_left x mod get_level_ticks level
                                     + lower_cursors level (ts_cursors s)\<rparr>) s') }
     else place_from level t s)"

definition ndf_timer_sched_core ::
  "'h timer_scheduler \<Rightarrow> nat \<Rightarrow> timeval \<Rightarrow> 'h \<Rightarrow> nat \<Rightarrow> bool \<Rightarrow> (int \<times> 'h timer_scheduler) option" where
  "ndf_timer_sched_core s t delay h arg period = do {
     ticks \<leftarrow> ndf_timeval_to_ticks delay;
     let s1 = upd_tm t (\<lambda>x. x\<lparr>tm_handler := Some h, tm_priv := arg, tm_period := period, tm_delay := ticks\<rparr>) s;
     (if ticks \<ge> TIMER_MAX_TICKS then Some (ENDF_INVAL, s1)
      else (let d = (if ticks = 0 then 1 else ticks) in
        place_from LEVEL_DEPTH t (upd_tm t (\<lambda>x. x\<lparr>tm_delay := d, tm_left := d\<rparr>) s1))) }"

primrec sum_cursors :: "nat \<Rightarrow> u32 list \<Rightarrow> u32" where
  "sum_cursors 0 cs = 0"
| "sum_cursors (Suc l) cs = cs ! l * get_level_ticks l + sum_cursors l cs"

definition time_now :: "'h timer_scheduler \<Rightarrow> timeval" where
  "time_now s = ndf_ticks_to_timeval (sum_cursors LEVEL_DEPTH (ts_cursors s))"

section \<open>The public functions\<close>

definition this_lcore_sched :: "bool \<Rightarrow> bool \<Rightarrow> 'a \<Rightarrow> 'a \<Rightarrow> 'a option" where
  "this_lcore_sched on_main global g l = (if \<not> global \<and> on_main then None else Some (if global then g else l))"

definition with_lock ::
  "'h timer_scheduler \<Rightarrow> ('h timer_scheduler \<Rightarrow> (int \<times> 'h timer_scheduler) option) \<Rightarrow>
   (int \<times> 'h timer_scheduler) option" where
  "with_lock s body = do { s1 \<leftarrow> timer_sched_lock s; (r, s2) \<leftarrow> body s1; Some (r, timer_sched_unlock s2) }"

definition ndf_timer_sched_nolock ::
  "'h timer_scheduler option \<Rightarrow> nat option \<Rightarrow> timeval option \<Rightarrow> 'h option \<Rightarrow> nat \<Rightarrow>
   (int \<times> 'h timer_scheduler option) option" where
  "ndf_timer_sched_nolock sched timer delay handler arg = (case (sched, timer, delay, handler) of
     (Some s, Some t, Some d, Some h) \<Rightarrow>
       if tv_sec d \<ge> TIMER_MAX_SECS then Some (ENDF_INVAL, sched)
       else map_option (map_prod (\<lambda>r. r) Some) (ndf_timer_sched_core s t d h arg False)
   | _ \<Rightarrow> Some (ENDF_INVAL, sched))"

definition ndf_timer_sched ::
  "'h timer_scheduler option \<Rightarrow> nat option \<Rightarrow> timeval option \<Rightarrow> 'h option \<Rightarrow> nat \<Rightarrow>
   (int \<times> 'h timer_scheduler option) option" where
  "ndf_timer_sched sched timer delay handler arg = (case (sched, timer, delay, handler) of
     (Some s, Some t, Some d, Some h) \<Rightarrow>
       if tv_sec d \<ge> TIMER_MAX_SECS then Some (ENDF_INVAL, sched)
       else map_option (map_prod (\<lambda>r. r) Some)
              (with_lock s (\<lambda>s. ndf_timer_sched_core s t d h arg False))
   | _ \<Rightarrow> Some (ENDF_INVAL, sched))"

definition ndf_timer_sched_period_nolock ::
  "'h timer_scheduler option \<Rightarrow> nat option \<Rightarrow> timeval option \<Rightarrow> 'h option \<Rightarrow> nat \<Rightarrow>
   (int \<times> 'h timer_scheduler option) option" where
  "ndf_timer_sched_period_nolock sched timer intv handler arg = (case (sched, timer, intv, handler) of
     (Some s, Some t, Some d, Some h) \<Rightarrow>
       if tv_sec d \<ge> TIMER_MAX_SECS then Some (ENDF_INVAL, sched)
       else map_option (map_prod (\<lambda>r. r) Some) (ndf_timer_sched_core s t d h arg True)
   | _ \<Rightarrow> Some (ENDF_INVAL, sched))"

definition ndf_timer_sched_period ::
  "'h timer_scheduler option \<Rightarrow> nat option \<Rightarrow> timeval option \<Rightarrow> 'h option \<Rightarrow> nat \<Rightarrow>
   (int \<times> 'h timer_scheduler option) option" where
  "ndf_timer_sched_period sched timer intv handler arg = (case (sched, timer, intv, handler) of
     (Some s, Some t, Some d, Some h) \<Rightarrow>
       if tv_sec d \<ge> TIMER_MAX_SECS then Some (ENDF_INVAL, sched)
       else map_option (map_prod (\<lambda>r. r) Some)
              (with_lock s (\<lambda>s. ndf_timer_sched_core s t d h arg True))
   | _ \<Rightarrow> Some (ENDF_INVAL, sched))"

definition ndf_timer_cancel_nolock ::
  "'h timer_scheduler option \<Rightarrow> nat option \<Rightarrow> (int \<times> 'h timer_scheduler option) option" where
  "ndf_timer_cancel_nolock sched timer = (case (sched, timer) of
     (Some s, Some t) \<Rightarrow> Some (ENDF_OK, Some (unlink_pending t s))
   | _ \<Rightarrow> Some (ENDF_INVAL, sched))"

definition ndf_timer_cancel ::
  "'h timer_scheduler option \<Rightarrow> nat option \<Rightarrow> (int \<times> 'h timer_scheduler option) option" where
  "ndf_timer_cancel sched timer = (case (sched, timer) of
     (Some s, Some t) \<Rightarrow>
       map_option (map_prod (\<lambda>r. r) Some) (with_lock s (\<lambda>s. Some (ENDF_OK, unlink_pending t s)))
   | _ \<Rightarrow> Some (ENDF_INVAL, sched))"

text \<open>\<^verbatim>\<open>assert(delay && handler)\<close> fails when a timer that was never scheduled is reset.\<close>

definition timer_restart ::
  "'h timer_scheduler \<Rightarrow> nat \<Rightarrow> timeval \<Rightarrow> (int \<times> 'h timer_scheduler) option" where
  "timer_restart s t delay = do {
     let s1 = unlink_pending t s;
     h \<leftarrow> tm_handler (ts_tm s1 t);
     ndf_timer_sched_core s1 t delay h (tm_priv (ts_tm s1 t)) (tm_period (ts_tm s1 t)) }"

definition ndf_timer_reset_nolock ::
  "'h timer_scheduler option \<Rightarrow> nat option \<Rightarrow> (int \<times> 'h timer_scheduler option) option" where
  "ndf_timer_reset_nolock sched timer = (case (sched, timer) of
     (Some s, Some t) \<Rightarrow> map_option (map_prod (\<lambda>r. r) Some)
       (timer_restart s t (ndf_ticks_to_timeval (tm_delay (ts_tm s t))))
   | _ \<Rightarrow> Some (ENDF_INVAL, sched))"

definition ndf_timer_reset ::
  "'h timer_scheduler option \<Rightarrow> nat option \<Rightarrow> (int \<times> 'h timer_scheduler option) option" where
  "ndf_timer_reset sched timer = (case (sched, timer) of
     (Some s, Some t) \<Rightarrow> map_option (map_prod (\<lambda>r. r) Some)
       (with_lock s (\<lambda>s. timer_restart s t (ndf_ticks_to_timeval (tm_delay (ts_tm s t)))))
   | _ \<Rightarrow> Some (ENDF_INVAL, sched))"

definition ndf_timer_update_nolock ::
  "'h timer_scheduler option \<Rightarrow> nat option \<Rightarrow> timeval option \<Rightarrow> (int \<times> 'h timer_scheduler option) option" where
  "ndf_timer_update_nolock sched timer delay = (case (sched, timer, delay) of
     (Some s, Some t, Some d) \<Rightarrow> map_option (map_prod (\<lambda>r. r) Some) (timer_restart s t d)
   | _ \<Rightarrow> Some (ENDF_INVAL, sched))"

definition ndf_timer_update ::
  "'h timer_scheduler option \<Rightarrow> nat option \<Rightarrow> timeval option \<Rightarrow> (int \<times> 'h timer_scheduler option) option" where
  "ndf_timer_update sched timer delay = (case (sched, timer, delay) of
     (Some s, Some t, Some d) \<Rightarrow>
       map_option (map_prod (\<lambda>r. r) Some) (with_lock s (\<lambda>s. timer_restart s t d))
   | _ \<Rightarrow> Some (ENDF_INVAL, sched))"

definition ndf_time_now_nolock :: "'h timer_scheduler option \<Rightarrow> timeval option \<Rightarrow> int \<times> timeval option" where
  "ndf_time_now_nolock sched now = (case (sched, now) of
     (Some s, Some _) \<Rightarrow> (ENDF_OK, Some (time_now s))
   | _ \<Rightarrow> (ENDF_INVAL, now))"

definition ndf_time_now :: "'h timer_scheduler option \<Rightarrow> timeval option \<Rightarrow> (int \<times> timeval option) option" where
  "ndf_time_now sched now = (case (sched, now) of
     (Some s, Some _) \<Rightarrow> do { s1 \<leftarrow> timer_sched_lock s; Some (ENDF_OK, Some (time_now s1)) }
   | _ \<Rightarrow> Some (ENDF_INVAL, now))"

text \<open>\<open>rnd\<close> is the value of \<^verbatim>\<open>lrand48()\<close>. The assertion and signed overflow are \<open>None\<close>.\<close>

definition ndf_time_rand_delay :: "int \<Rightarrow> timeval \<Rightarrow> int \<Rightarrow> timeval option" where
  "ndf_time_rand_delay rnd tv delay_us =
    (if delay_us \<le> 0 \<or> \<not> long_ok (tv_sec tv * 1000000) \<or>
        \<not> long_ok (tv_sec tv * 1000000 + tv_usec tv + rnd mod delay_us) then None
     else (let t_us = (word_of_int (tv_sec tv * 1000000 + tv_usec tv + rnd mod delay_us) :: u64) in
       Some \<lparr>tv_sec = uint (t_us div 1000000), tv_usec = uint (t_us mod 1000000)\<rparr>))"

section \<open>Expiry\<close>

fun run_call :: "'h timer_call \<Rightarrow> 'h timer_scheduler option \<Rightarrow> (int \<times> 'h timer_scheduler option) option" where
  "run_call (CallSched locking t d h arg) s =
    (if locking then ndf_timer_sched s (Some t) (Some d) (Some h) arg
     else ndf_timer_sched_nolock s (Some t) (Some d) (Some h) arg)"
| "run_call (CallPeriod locking t d h arg) s =
    (if locking then ndf_timer_sched_period s (Some t) (Some d) (Some h) arg
     else ndf_timer_sched_period_nolock s (Some t) (Some d) (Some h) arg)"
| "run_call (CallCancel locking t) s =
    (if locking then ndf_timer_cancel s (Some t) else ndf_timer_cancel_nolock s (Some t))"
| "run_call (CallReset locking t) s =
    (if locking then ndf_timer_reset s (Some t) else ndf_timer_reset_nolock s (Some t))"
| "run_call (CallUpdate locking t d) s =
    (if locking then ndf_timer_update s (Some t) (Some d) else ndf_timer_update_nolock s (Some t) (Some d))"

fun run_calls :: "'h timer_call list \<Rightarrow> 'h timer_scheduler \<Rightarrow> 'h timer_scheduler option" where
  "run_calls [] s = Some s"
| "run_calls (c # cs) s = do { (r, s') \<leftarrow> run_call c (Some s); s1 \<leftarrow> s'; run_calls cs s1 }"

definition call_handler ::
  "'h handlers \<Rightarrow> 'h \<Rightarrow> nat \<Rightarrow> 'h timer_scheduler \<Rightarrow> (int \<times> 'h timer_scheduler) option" where
  "call_handler hnd h arg s = (let (err, calls) = hnd h arg in
     do { s1 \<leftarrow> run_calls calls s; Some (err, s1) })"

definition ndf_timer_sched_abs_nolock ::
  "'h handlers \<Rightarrow> 'h timer_scheduler option \<Rightarrow> nat option \<Rightarrow> timeval option \<Rightarrow> 'h option \<Rightarrow> nat \<Rightarrow>
   (int \<times> 'h timer_scheduler option) option" where
  "ndf_timer_sched_abs_nolock hnd sched timer expire handler arg = (case (sched, timer, expire, handler) of
     (Some s, Some t, Some e, Some h) \<Rightarrow>
       (let now = time_now s in
        if \<not> (tv_sec e > tv_sec now \<or> tv_sec e = tv_sec now \<and> tv_usec e > tv_usec now)
        then do { (_, s1) \<leftarrow> call_handler hnd h arg (s\<lparr>ts_trace := ts_trace s @ [t]\<rparr>); Some (ENDF_OK, Some s1) }
        else
         (let us = tv_usec e - tv_usec now;
              delta = (if us < 0 then \<lparr>tv_sec = tv_sec e - tv_sec now - 1, tv_usec = us + 1000000\<rparr>
                       else \<lparr>tv_sec = tv_sec e - tv_sec now, tv_usec = us\<rparr>) in
          if tv_sec delta \<ge> TIMER_MAX_SECS then Some (ENDF_INVAL, sched)
          else map_option (map_prod (\<lambda>r. r) Some) (ndf_timer_sched_core s t delta h arg False)))
   | _ \<Rightarrow> Some (ENDF_INVAL, sched))"

definition ndf_timer_sched_abs ::
  "'h handlers \<Rightarrow> 'h timer_scheduler option \<Rightarrow> nat option \<Rightarrow> timeval option \<Rightarrow> 'h option \<Rightarrow> nat \<Rightarrow>
   (int \<times> 'h timer_scheduler option) option" where
  "ndf_timer_sched_abs hnd sched timer expire handler arg = (case sched of
     None \<Rightarrow> ndf_timer_sched_abs_nolock hnd None timer expire handler arg
   | Some s \<Rightarrow> do {
       s1 \<leftarrow> timer_sched_lock s;
       (r, s2) \<leftarrow> ndf_timer_sched_abs_nolock hnd (Some s1) timer expire handler arg;
       Some (r, map_option timer_sched_unlock s2) })"

definition timer_expire :: "'h handlers \<Rightarrow> 'h timer_scheduler \<Rightarrow> nat \<Rightarrow> 'h timer_scheduler option" where
  "timer_expire hnd s t = do {
     h \<leftarrow> tm_handler (ts_tm s t);
     let s1 = (unlink_pending t s)\<lparr>ts_trace := ts_trace s @ [t]\<rparr>;
     (err, s2) \<leftarrow> call_handler hnd h (tm_priv (ts_tm s t)) s1;
     (if err \<noteq> NDTIMER_OK \<or> \<not> tm_period (ts_tm s2 t) then Some s2
      else do {
        h2 \<leftarrow> tm_handler (ts_tm s2 t);
        (_, s3) \<leftarrow> ndf_timer_sched_core s2 t (ndf_ticks_to_timeval (tm_delay (ts_tm s2 t))) h2
                     (tm_priv (ts_tm s2 t)) (tm_period (ts_tm s2 t));
        Some s3 }) }"

text \<open>The search for a lower wheel, from the level below the argument down to 0. A timer that no wheel
  adopts stays unlinked.\<close>

primrec drop_from :: "nat \<Rightarrow> nat \<Rightarrow> 'h timer_scheduler \<Rightarrow> 'h timer_scheduler option" where
  "drop_from 0 t s = Some s"
| "drop_from (Suc lower) t s =
    (let off = tm_left (ts_tm s t) div get_level_ticks lower in
     if off > 0 then do {
       s' \<leftarrow> tm_list_add_tail t lower (unat ((ts_cursors s ! lower + off) mod LEVEL_SIZE)) s;
       Some (upd_tm t (\<lambda>x. x\<lparr>tm_left := tm_left x mod get_level_ticks lower\<rparr>) s') }
     else drop_from lower t s)"

text \<open>The loop over one slot. The first argument bounds the rounds; running out of it is \<open>None\<close>. The
  caller passes the length of the list, which is enough: a round takes a timer from the list and no
  timer is put into the slot under the cursor.\<close>

primrec tick_slot :: "nat \<Rightarrow> 'h handlers \<Rightarrow> nat \<Rightarrow> nat \<Rightarrow> 'h timer_scheduler \<Rightarrow> 'h timer_scheduler option" where
  "tick_slot 0 hnd level slot s = (case ts_hashs s level slot of [] \<Rightarrow> Some s | _ # _ \<Rightarrow> None)"
| "tick_slot (Suc n) hnd level slot s = (case ts_hashs s level slot of
     [] \<Rightarrow> Some s
   | t # _ \<Rightarrow>
       do { s1 \<leftarrow> (if tm_left (ts_tm s t) = 0 then timer_expire hnd s t
                   else drop_from (Suc level) t (tm_list_del t s));
            tick_slot n hnd level slot s1 })"

fun tick_levels :: "'h handlers \<Rightarrow> nat list \<Rightarrow> 'h timer_scheduler \<Rightarrow> 'h timer_scheduler option" where
  "tick_levels hnd [] s = Some s"
| "tick_levels hnd (level # levels) s =
    (let c = ts_cursors s ! level + 1;
         carry = \<not> c < LEVEL_SIZE;
         c' = (if carry then 0 else c);
         s1 = s\<lparr>ts_cursors := (ts_cursors s)[level := c']\<rparr> in
     do { s2 \<leftarrow> tick_slot (length (ts_hashs s1 level (unat c'))) hnd level (unat c') s1;
          if carry then tick_levels hnd levels s2 else Some s2 })"

definition rte_timer_tick_cb :: "'h handlers \<Rightarrow> 'h timer_scheduler \<Rightarrow> 'h timer_scheduler option" where
  "rte_timer_tick_cb hnd s = do {
     s1 \<leftarrow> timer_sched_lock s;
     s2 \<leftarrow> tick_levels hnd [0..<LEVEL_DEPTH] s1;
     Some (timer_sched_unlock s2) }"

section \<open>Start and stop\<close>

text \<open>\<open>mem level\<close> says whether the table of a level could be allocated, \<open>reset_ok\<close> whether \<^verbatim>\<open>rte_timer_reset\<close>
  succeeded.\<close>

primrec init_levels :: "(nat \<Rightarrow> bool) \<Rightarrow> nat \<Rightarrow> 'h timer_scheduler \<Rightarrow> bool \<times> 'h timer_scheduler" where
  "init_levels mem 0 s = (True, s)"
| "init_levels mem (Suc l) s = (let (ok, s1) = init_levels mem l s in
     if \<not> ok then (False, s1)
     else (let s2 = s1\<lparr>ts_cursors := (ts_cursors s1)[l := 0]\<rparr> in
       if \<not> mem l then (False, s2)
       else (True, s2\<lparr>ts_hashs := (ts_hashs s2)(l := (\<lambda>_. []))\<rparr>)))"

definition timer_init_scheduler ::
  "(nat \<Rightarrow> bool) \<Rightarrow> bool \<Rightarrow> 'h timer_scheduler \<Rightarrow> int \<times> 'h timer_scheduler" where
  "timer_init_scheduler mem reset_ok s =
    (let (ok, s1) = init_levels mem LEVEL_DEPTH (s\<lparr>ts_lock := False\<rparr>) in
     if \<not> ok then (ENDF_NOMEM, s1) else if \<not> reset_ok then (ENDF_INVAL, s1) else (ENDF_OK, s1))"

definition timer_term_scheduler :: "'h timer_scheduler \<Rightarrow> (int \<times> 'h timer_scheduler) option" where
  "timer_term_scheduler s = with_lock s (\<lambda>s. Some (ENDF_OK,
     s\<lparr>ts_timers := (\<lambda>t. if timer_pending s t then (ts_tm s t)\<lparr>tm_linked := False\<rparr> else ts_tm s t),
       ts_hashs := (\<lambda>_ _. []), ts_cursors := replicate LEVEL_DEPTH 0\<rparr>))"


section \<open>Basic facts\<close>

lemma upd_tm_simps [simp]:
  "ts_global (upd_tm t f s) = ts_global s" "ts_lock (upd_tm t f s) = ts_lock s"
  "ts_cursors (upd_tm t f s) = ts_cursors s" "ts_hashs (upd_tm t f s) = ts_hashs s"
  "ts_trace (upd_tm t f s) = ts_trace s"
  "ts_timers (upd_tm t f s) = (ts_timers s)(t := f (ts_timers s t))"
  by (simp_all add: upd_tm_def)

lemma tm_list_del_simps [simp]:
  "ts_global (tm_list_del t s) = ts_global s" "ts_lock (tm_list_del t s) = ts_lock s"
  "ts_cursors (tm_list_del t s) = ts_cursors s" "ts_trace (tm_list_del t s) = ts_trace s"
  "ts_hashs (tm_list_del t s) = (\<lambda>l h. removeAll t (ts_hashs s l h))"
  "ts_timers (tm_list_del t s) = (ts_timers s)(t := (ts_timers s t)\<lparr>tm_linked := False\<rparr>)"
  by (simp_all add: tm_list_del_def)

lemma count_list_removeAll: "count_list (removeAll x xs) y = (if x = y then 0 else count_list xs y)"
  by (induction xs) auto

lemma unat_LEVEL_SIZE: "unat LEVEL_SIZE = 524288"
  by (simp add: LEVEL_SIZE_def)

lemma level_ticks: "get_level_ticks 0 = 1" "get_level_ticks (Suc 0) = LEVEL_SIZE"
  by simp_all

lemma unat_slot:
  assumes "unat c < 524288" "unat off < 524288"
  shows "unat ((c + off) mod LEVEL_SIZE) = (unat c + unat off) mod 524288"
  using assms by (simp add: unat_mod_distrib unat_LEVEL_SIZE unat_word_ariths)

lemma unat_level_off: "unat (d div LEVEL_SIZE) = unat d div 524288"
  by (simp add: unat_div_distrib unat_LEVEL_SIZE)

lemma slot_moved: "q \<noteq> 0 \<Longrightarrow> q < 524288 \<Longrightarrow> c < 524288 \<Longrightarrow> (c + q) mod 524288 \<noteq> (c :: nat)"
  by (cases "c + q < 524288") (auto simp: mod_if)

text \<open>Ticks survive the conversion to a time and back, as the periodic rescheduling needs.\<close>

lemma ticks_to_timeval_int:
  "ndf_ticks_to_timeval t = \<lparr>tv_sec = uint t div 1000, tv_usec = uint t mod 1000 * 1000\<rparr>"
proof -
  have "unat (t mod 1000 * 1000000 div 1000) = unat t mod 1000 * 1000"
    by (simp add: unat_div_distrib unat_mod_distrib unat_word_ariths)
  then have "int (unat (t mod 1000 * 1000000 div 1000)) = int (unat t) mod 1000 * 1000"
    by (simp add: zmod_int)
  then have "uint (t mod 1000 * 1000000 div 1000) = uint t mod 1000 * 1000"
    by (simp only: uint_nat)
  then show ?thesis
    by (simp add: ndf_ticks_to_timeval_def uint_div)
qed

lemma long_ok_small: "0 \<le> x \<Longrightarrow> x < 10 ^ 10 \<Longrightarrow> long_ok x"
  by (simp add: long_ok_def)

lemma ticks_back: "ndf_timeval_to_ticks (ndf_ticks_to_timeval t) = Some t"
proof -
  have u: "0 \<le> uint t" "uint t < 4294967296"
    using uint_bounded [of t] by simp_all
  have s: "(uint t mod 1000 * 1000 * 1000) sdiv 1000000 = uint t mod 1000"
    by (simp add: signed_divide_int_def sgn_if)
  have e: "uint t div 1000 * 1000 + uint t mod 1000 = uint t"
    by simp
  have b: "uint t div 1000 * 1000 \<le> uint t" "uint t mod 1000 * 1000 * 1000 < 10 ^ 9"
    using u by (simp_all add: mult.commute times_div_less_eq_dividend)
  have l: "long_ok (uint t div 1000 * 1000)" "long_ok (uint t mod 1000 * 1000 * 1000)" "long_ok (uint t)"
  proof -
    have "0 \<le> uint t div 1000 * 1000" "0 \<le> uint t mod 1000 * 1000 * 1000"
      using u by (simp_all add: pos_imp_zdiv_nonneg_iff)
    then show "long_ok (uint t div 1000 * 1000)" "long_ok (uint t mod 1000 * 1000 * 1000)" "long_ok (uint t)"
      using u b by (auto intro!: long_ok_small simp: pos_imp_zdiv_nonneg_iff)
  qed
  have w: "(word_of_int (uint t) :: u64) = ucast t"
    by (simp only: ucast_eq)
  have "ndf_timeval_to_ticks (ndf_ticks_to_timeval t) = Some
      (if ucast TIMER_MAX_TICKS \<le> (ucast t :: u64) then TIMER_MAX_TICKS else ucast (ucast t :: u64))"
    by (simp only: ndf_timeval_to_ticks_def ticks_to_timeval_int NDF_TIMER_HZ_def Let_def timeval.select_convs
        s e l w simp_thms if_True)
  moreover have "ucast TIMER_MAX_TICKS \<le> (ucast t :: u64) \<Longrightarrow> t = TIMER_MAX_TICKS"
    using u by (simp add: TIMER_MAX_TICKS_def word_le_def unsigned_ucast_eq take_bit_eq_mod word_uint_eq_iff)
  moreover have "ucast (ucast t :: u64) = t"
    by (rule bit_word_eqI) (simp add: bit_ucast_iff)
  ultimately show ?thesis
    by auto
qed

section \<open>The wheel as a table of deadlines\<close>

text \<open>The abstract view of a scheduler maps every pending timer to the number of ticks until it fires. A
  timer sits in a slot of level 0 and fires when the cursor reaches it, or in a slot of level 1, whose
  turn comes when the cursor of level 1 has been moved there, after which the stored remainder counts.
  The base \<open>b\<close> is the cursor of level 1, except in the middle of a tick that carries, where it is the next
  one. A timer in slot 0 of level 0 never has a delay of a whole turn: it was put there directly.\<close>

definition placed :: "nat \<Rightarrow> 'h timer_scheduler \<Rightarrow> nat \<Rightarrow> nat \<Rightarrow> nat \<Rightarrow> nat \<Rightarrow> bool" where
  "placed b s t k l h \<longleftrightarrow>
    (let c0 = unat (ts_cursors s ! 0); left = unat (tm_left (ts_tm s t)) in
     (l = 0 \<and> left = 0 \<and> k < 524288 \<and> h = (c0 + k) mod 524288 \<and> (h = 0 \<longrightarrow> unat (tm_delay (ts_tm s t)) < 524288)) \<or>
     (l = 1 \<and> left < 1048576 \<and> (\<exists>q < 524288. h = (b + q) mod 524288 \<and> k + c0 = q * 524288 + left)))"

definition tm_ready :: "'h ndf_timer \<Rightarrow> bool" where
  "tm_ready x \<longleftrightarrow> tm_linked x \<and> tm_handler x \<noteq> None \<and> 0 < tm_delay x \<and> tm_delay x < TIMER_MAX_TICKS"

definition entry_ok :: "nat \<Rightarrow> 'h timer_scheduler \<Rightarrow> nat \<Rightarrow> nat option \<Rightarrow> bool" where
  "entry_ok b s t d = (case d of
     None \<Rightarrow> \<not> tm_linked (ts_tm s t) \<and> (\<forall>l h. t \<notin> set (ts_hashs s l h))
   | Some k \<Rightarrow> tm_ready (ts_tm s t) \<and> (\<exists>l h. placed b s t k l h \<and>
       (\<forall>l' h'. count_list (ts_hashs s l' h') t = (if l' = l \<and> h' = h then 1 else 0))))"

definition cursors_ok :: "'h timer_scheduler \<Rightarrow> bool" where
  "cursors_ok s \<longleftrightarrow> length (ts_cursors s) = 2 \<and> (\<forall>c \<in> set (ts_cursors s). unat c < 524288)"

definition repr :: "nat \<Rightarrow> 'h timer_scheduler \<Rightarrow> (nat \<Rightarrow> nat option) \<Rightarrow> bool" where
  "repr b s dl \<longleftrightarrow> cursors_ok s \<and> (\<forall>t. entry_ok b s t (dl t))"

text \<open>What the ticks never change: the lock, the cursors (inside one tick) and the parameters of the timers.\<close>

definition tm_params :: "'h ndf_timer \<Rightarrow> 'h option \<times> nat \<times> bool \<times> u32" where
  "tm_params x = (tm_handler x, tm_priv x, tm_period x, tm_delay x)"

definition same_params :: "'h timer_scheduler \<Rightarrow> 'h timer_scheduler \<Rightarrow> bool" where
  "same_params s s' \<longleftrightarrow> ts_global s' = ts_global s \<and> ts_lock s' = ts_lock s \<and> ts_cursors s' = ts_cursors s \<and>
     (\<forall>t. tm_params (ts_tm s' t) = tm_params (ts_tm s t))"

lemma same_params_refl [simp]: "same_params s s"
  by (simp add: same_params_def)

lemma same_params_trans: "same_params s s' \<Longrightarrow> same_params s' s'' \<Longrightarrow> same_params s s''"
  by (simp add: same_params_def)

lemma cursors_bound:
  assumes "cursors_ok s"
  shows "unat (ts_cursors s ! 0) < 524288" "unat (ts_cursors s ! Suc 0) < 524288"
  using assms by (auto simp: cursors_ok_def)

text \<open>An entry depends on the lists only through the places of its own timer.\<close>

lemma entry_ok_cong:
  assumes "entry_ok b s t d" "ts_cursors s' ! 0 = ts_cursors s ! 0" "ts_tm s' t = ts_tm s t"
    and "\<And>l h. count_list (ts_hashs s' l h) t = count_list (ts_hashs s l h) t"
  shows "entry_ok b s' t d"
  using assms by (auto simp: entry_ok_def placed_def split: option.splits) (metis count_list_0_iff)+

lemma count_list_append_other: "t \<noteq> t' \<Longrightarrow> count_list (xs @ [t']) t = count_list xs t"
  by simp

text \<open>Putting an unlinked timer into a slot.\<close>

definition put_timer :: "nat \<Rightarrow> nat \<Rightarrow> nat \<Rightarrow> u32 \<Rightarrow> 'h timer_scheduler \<Rightarrow> 'h timer_scheduler" where
  "put_timer t l h left s = upd_tm t (\<lambda>x. x\<lparr>tm_linked := True, tm_left := left\<rparr>)
     (s\<lparr>ts_hashs := (ts_hashs s)(l := (ts_hashs s l)(h := ts_hashs s l h @ [t]))\<rparr>)"

lemma put_timer_simps [simp]:
  "ts_global (put_timer t l h left s) = ts_global s" "ts_lock (put_timer t l h left s) = ts_lock s"
  "ts_cursors (put_timer t l h left s) = ts_cursors s" "ts_trace (put_timer t l h left s) = ts_trace s"
  "ts_timers (put_timer t l h left s) = (ts_timers s)(t := (ts_timers s t)\<lparr>tm_linked := True, tm_left := left\<rparr>)"
  "ts_hashs (put_timer t l h left s) = (ts_hashs s)(l := (ts_hashs s l)(h := ts_hashs s l h @ [t]))"
  by (simp_all add: put_timer_def)

lemma put_timer_repr:
  assumes r: "repr b s dl" and t: "dl t = None"
    and x: "tm_handler (ts_tm s t) \<noteq> None" "0 < tm_delay (ts_tm s t)" "tm_delay (ts_tm s t) < TIMER_MAX_TICKS"
    and p: "placed b (put_timer t l h left s) t k l h"
  shows "repr b (put_timer t l h left s) (dl(t \<mapsto> k))"
proof -
  have "entry_ok b (put_timer t l h left s) t' ((dl(t \<mapsto> k)) t')" for t'
  proof (cases "t' = t")
    case False
    then have "entry_ok b s t' (dl t')"
      using r by (simp add: repr_def)
    with False show ?thesis
      by (auto intro: entry_ok_cong)
  next
    case True
    have "entry_ok b s t None"
      using r t by (metis repr_def)
    then have "count_list (ts_hashs s l' h') t = 0" for l' h'
      by (simp add: entry_ok_def count_list_0_iff)
    then have "placed b (put_timer t l h left s) t k l h \<and>
        (\<forall>l' h'. count_list (ts_hashs (put_timer t l h left s) l' h') t = (if l' = l \<and> h' = h then 1 else 0))"
      using p by simp
    with True x show ?thesis
      unfolding entry_ok_def by (auto simp: tm_ready_def)
  qed
  then show ?thesis
    using r by (simp add: repr_def cursors_ok_def)
qed

lemma upd_tm_repr:
  assumes "repr b s dl" "dl t = None" "\<And>x. tm_linked (f x) = tm_linked x"
  shows "repr b (upd_tm t f s) dl"
proof -
  have "entry_ok b (upd_tm t f s) t' (dl t')" for t'
  proof -
    have e: "entry_ok b s t' (dl t')"
      using assms(1) by (simp add: repr_def)
    show ?thesis
    proof (cases "t' = t")
      case False
      then show ?thesis
        by (intro entry_ok_cong [OF e]) simp_all
    next
      case True
      then show ?thesis
        using e assms by (simp add: entry_ok_def)
    qed
  qed
  then show ?thesis
    using assms(1) by (simp add: repr_def cursors_ok_def)
qed

text \<open>Scheduling an unlinked timer with a delay of \<open>d\<close> ticks gives it the deadline \<open>d\<close>, at least 1. In the
  middle of a carrying tick this needs a delay below a whole turn.\<close>

lemma place_from_two:
  assumes "\<not> tm_linked (ts_tm s t)" "cursors_ok s" "0 < d" "tm_delay (ts_tm s t) = d" "tm_left (ts_tm s t) = d"
  shows "place_from 2 t s = Some (ENDF_OK,
    if unat d < 524288 then put_timer t 0 ((unat (ts_cursors s ! 0) + unat d) mod 524288) 0 s
    else put_timer t 1 ((unat (ts_cursors s ! 1) + unat d div 524288) mod 524288)
           (d mod LEVEL_SIZE + ts_cursors s ! 0) s)"
proof -
  have c: "unat (ts_cursors s ! 0) < 524288" "unat (ts_cursors s ! 1) < 524288"
    using cursors_bound [OF assms(2)] by simp_all
  have z: "0 < d div LEVEL_SIZE \<longleftrightarrow> \<not> unat d < 524288"
    by (simp add: word_less_nat_alt unat_level_off div_greater_zero_iff not_less)
  have o: "unat (d div LEVEL_SIZE) < 524288"
    using unat_u32_lt [of d] by (simp add: unat_level_off)
  show ?thesis
    using assms c z o unat_slot [OF c(2) o] unat_slot [of "ts_cursors s ! 0" d]
    by (auto simp: numeral_2_eq_2 tm_list_add_tail_def put_timer_def upd_tm_def unat_level_off Let_def fun_upd_idem
        intro!: arg_cong [where f = "\<lambda>f. ts_timers_update f _"])
qed

definition same_slots :: "'h timer_scheduler \<Rightarrow> 'h timer_scheduler \<Rightarrow> nat \<Rightarrow> bool" where
  "same_slots s s' t \<longleftrightarrow> ts_global s' = ts_global s \<and> ts_lock s' = ts_lock s \<and> ts_cursors s' = ts_cursors s \<and>
     ts_trace s' = ts_trace s \<and> (\<forall>t'. t' \<noteq> t \<longrightarrow> ts_tm s' t' = ts_tm s t') \<and>
     ts_hashs s' 0 (unat (ts_cursors s ! 0)) = ts_hashs s 0 (unat (ts_cursors s ! 0)) \<and>
     ts_hashs s' 1 (unat (ts_cursors s ! 1)) = ts_hashs s 1 (unat (ts_cursors s ! 1))"

lemma place_two_repr:
  assumes r: "repr b s dl" "dl t = None" and h: "tm_handler (ts_tm s t) \<noteq> None"
    and d: "0 < d" "d < TIMER_MAX_TICKS" "tm_delay (ts_tm s t) = d" "tm_left (ts_tm s t) = d"
    and b: "unat d < 524288 \<or> b = unat (ts_cursors s ! 1)"
  shows "\<exists>s'. place_from 2 t s = Some (ENDF_OK, s') \<and> repr b s' (dl(t \<mapsto> unat d)) \<and> same_slots s s' t \<and>
    tm_params (ts_tm s' t) = tm_params (ts_tm s t)"
proof -
  have c: "cursors_ok s" and l: "\<not> tm_linked (ts_tm s t)"
    using r by (auto simp: repr_def entry_ok_def dest!: spec [of _ t])
  note cb = cursors_bound [OF c]
  have u: "unat (d mod LEVEL_SIZE + ts_cursors s ! 0) = unat d mod 524288 + unat (ts_cursors s ! 0)"
    using cb by (simp add: unat_word_ariths unat_mod_distrib unat_LEVEL_SIZE)
  have q: "unat d div 524288 < 524288"
    using unat_u32_lt [of d] by simp
  have d0: "0 < unat d"
    using d(1) by (simp add: word_less_nat_alt)
  show ?thesis
  proof (cases "unat d < 524288")
    case True
    let ?s = "put_timer t 0 ((unat (ts_cursors s ! 0) + unat d) mod 524288) 0 s"
    have "repr b ?s (dl(t \<mapsto> unat d))"
      using True d h by (intro put_timer_repr r) (auto simp: placed_def)
    moreover have "same_slots s ?s t"
      using True d0 cb slot_moved [of "unat d" "unat (ts_cursors s ! 0)"] by (auto simp: same_slots_def)
    ultimately show ?thesis
      using True place_from_two [OF l c d(1,3,4)] by (auto simp: tm_params_def)
  next
    case False
    let ?h = "(unat (ts_cursors s ! 1) + unat d div 524288) mod 524288"
    let ?s = "put_timer t 1 ?h (d mod LEVEL_SIZE + ts_cursors s ! 0) s"
    have "placed b ?s t (unat d) 1 ?h"
      unfolding placed_def using False b u cb q
      by (auto simp: Let_def intro!: exI [of _ "unat d div 524288"])
    then have "repr b ?s (dl(t \<mapsto> unat d))"
      using d h by (intro put_timer_repr r) auto
    moreover have "same_slots s ?s t"
      using False q cb slot_moved [of "unat d div 524288" "unat (ts_cursors s ! 1)"]
      by (auto simp: same_slots_def div_eq_0_iff)
    ultimately show ?thesis
      using False place_from_two [OF l c d(1,3,4)] by (auto simp: tm_params_def)
  qed
qed

definition tick_count :: "u32 \<Rightarrow> u32" where
  "tick_count ticks = (if ticks = 0 then 1 else ticks)"

lemma sched_core_repr:
  assumes r: "repr b s dl" "dl t = None" and k: "ndf_timeval_to_ticks delay = Some ticks" "ticks < TIMER_MAX_TICKS"
    and b: "unat (tick_count ticks) < 524288 \<or> b = unat (ts_cursors s ! 1)"
  shows "\<exists>s'. ndf_timer_sched_core s t delay h arg period = Some (ENDF_OK, s') \<and>
    repr b s' (dl(t \<mapsto> unat (tick_count ticks))) \<and> same_slots s s' t \<and>
    tm_params (ts_tm s' t) = (Some h, arg, period, tick_count ticks)"
proof -
  let ?d = "tick_count ticks"
  let ?s1 = "upd_tm t (\<lambda>x. x\<lparr>tm_handler := Some h, tm_priv := arg, tm_period := period, tm_delay := ticks\<rparr>) s"
  let ?s2 = "upd_tm t (\<lambda>x. x\<lparr>tm_delay := ?d, tm_left := ?d\<rparr>) ?s1"
  have d: "0 < ?d" "?d < TIMER_MAX_TICKS"
    using k(2) by (auto simp: tick_count_def word_neq_0_conv TIMER_MAX_TICKS_def)
  have "repr b ?s2 dl"
    by (intro upd_tm_repr r) simp_all
  then obtain s' where s': "place_from 2 t ?s2 = Some (ENDF_OK, s')" "repr b s' (dl(t \<mapsto> unat ?d))"
      "same_slots ?s2 s' t" "tm_params (ts_tm s' t) = tm_params (ts_tm ?s2 t)"
    using place_two_repr [of b ?s2 dl t ?d] r(2) b d by auto
  moreover have "ndf_timer_sched_core s t delay h arg period = place_from 2 t ?s2"
    using k leD [of TIMER_MAX_TICKS ticks]
    by (auto simp: ndf_timer_sched_core_def Let_def tick_count_def LEVEL_DEPTH_def)
  moreover have "same_slots s s' t"
    using s'(3) by (simp add: same_slots_def)
  ultimately show ?thesis
    by (auto simp: tm_params_def)
qed

lemma list_del_repr:
  assumes "repr b s dl"
  shows "repr b (tm_list_del t s) (dl(t := None))"
proof -
  have "entry_ok b (tm_list_del t s) t' ((dl(t := None)) t')" for t'
  proof (cases "t' = t")
    case False
    then have "entry_ok b s t' (dl t')"
      using assms by (simp add: repr_def)
    with False show ?thesis
      by (auto intro: entry_ok_cong simp: count_list_removeAll)
  qed (simp add: entry_ok_def)
  then show ?thesis
    using assms by (simp add: repr_def cursors_ok_def)
qed

lemma repr_entry: "repr b s dl \<Longrightarrow> entry_ok b s t (dl t)"
  by (simp add: repr_def)

lemma linked_iff: "repr b s dl \<Longrightarrow> tm_linked (ts_tm s t) \<longleftrightarrow> dl t \<noteq> None"
  using repr_entry [of b s dl t] by (auto simp: entry_ok_def tm_ready_def split: option.splits)

lemma unlink_pending_repr:
  assumes "repr b s dl"
  shows "repr b (unlink_pending t s) (dl(t := None))"
proof (cases "dl t")
  case None
  then have "dl(t := None) = dl"
    by auto
  then show ?thesis
    using assms None linked_iff [OF assms] by (simp add: unlink_pending_def timer_pending_def)
next
  case (Some k)
  then show ?thesis
    using assms linked_iff [OF assms] by (simp add: unlink_pending_def timer_pending_def list_del_repr)
qed

text \<open>Handlers that make no calls of this module; their return codes are arbitrary.\<close>

definition quiet :: "'h handlers \<Rightarrow> bool" where
  "quiet hnd \<longleftrightarrow> (\<forall>h arg. snd (hnd h arg) = [])"

definition fire :: "'h handlers \<Rightarrow> 'h timer_scheduler \<Rightarrow> nat \<Rightarrow> nat option" where
  "fire hnd s t = (let x = ts_tm s t in
     if tm_period x \<and> fst (hnd (the (tm_handler x)) (tm_priv x)) = NDTIMER_OK then Some (unat (tm_delay x)) else None)"

definition slots_minus :: "'h timer_scheduler \<Rightarrow> 'h timer_scheduler \<Rightarrow> nat \<Rightarrow> bool" where
  "slots_minus s s' t \<longleftrightarrow> same_params s s' \<and> (\<forall>t'. t' \<noteq> t \<longrightarrow> ts_tm s' t' = ts_tm s t') \<and>
     ts_hashs s' 0 (unat (ts_cursors s ! 0)) = removeAll t (ts_hashs s 0 (unat (ts_cursors s ! 0))) \<and>
     ts_hashs s' 1 (unat (ts_cursors s ! 1)) = removeAll t (ts_hashs s 1 (unat (ts_cursors s ! 1)))"

lemma call_handler_quiet: "quiet hnd \<Longrightarrow> call_handler hnd h arg s = Some (fst (hnd h arg), s)"
  by (simp add: call_handler_def quiet_def case_prod_unfold Let_def)

lemma repr_other_fields:
  assumes "repr b s dl" "ts_cursors s' = ts_cursors s" "ts_timers s' = ts_timers s" "ts_hashs s' = ts_hashs s"
  shows "repr b s' dl"
  using assms by (auto simp: repr_def cursors_ok_def intro: entry_ok_cong)

lemma timer_expire_repr:
  assumes r: "repr b s dl" "dl t = Some k" and q: "quiet hnd"
    and b: "unat (tm_delay (ts_tm s t)) < 524288 \<or> b = unat (ts_cursors s ! 1)"
  shows "\<exists>s'. timer_expire hnd s t = Some s' \<and> repr b s' (dl(t := fire hnd s t)) \<and> slots_minus s s' t \<and>
    ts_trace s' = ts_trace s @ [t]"
proof -
  let ?x = "ts_tm s t"
  have x: "tm_linked ?x" "0 < tm_delay ?x" "tm_delay ?x < TIMER_MAX_TICKS" and "tm_handler ?x \<noteq> None"
    using r by (auto simp: repr_def entry_ok_def tm_ready_def dest!: spec [of _ t])
  then obtain h where h: "tm_handler ?x = Some h"
    by auto
  let ?s1 = "(tm_list_del t s)\<lparr>ts_trace := ts_trace s @ [t]\<rparr>"
  let ?e = "fst (hnd h (tm_priv ?x))"
  have r1: "repr b ?s1 (dl(t := None))"
    by (rule repr_other_fields [OF list_del_repr [OF r(1), of t]]) simp_all
  have e: "timer_expire hnd s t = (if ?e \<noteq> 0 \<or> \<not> tm_period ?x then Some ?s1
      else map_option snd (ndf_timer_sched_core ?s1 t (ndf_ticks_to_timeval (tm_delay ?x)) h (tm_priv ?x) (tm_period ?x)))"
    using x(1) h by (auto simp: timer_expire_def call_handler_quiet [OF q] unlink_pending_def timer_pending_def
        Let_def split: Option.bind_splits)
  show ?thesis
  proof (cases "?e \<noteq> 0 \<or> \<not> tm_period ?x")
    case True
    then have "fire hnd s t = None"
      using h by (auto simp: fire_def)
    then show ?thesis
      using True e r1 by (auto simp: slots_minus_def same_params_def tm_params_def)
  next
    case False
    have d: "tick_count (tm_delay ?x) = tm_delay ?x"
      using x(2) by (simp add: tick_count_def)
    obtain s' where s': "ndf_timer_sched_core ?s1 t (ndf_ticks_to_timeval (tm_delay ?x)) h (tm_priv ?x)
          (tm_period ?x) = Some (0, s')"
        "repr b s' (dl(t \<mapsto> unat (tm_delay ?x)))" "same_slots ?s1 s' t"
        "tm_params (ts_tm s' t) = (Some h, tm_priv ?x, tm_period ?x, tm_delay ?x)"
      using sched_core_repr [OF r1 _ ticks_back x(3), of t h "tm_priv ?x" "tm_period ?x"] b d by auto
    have "fire hnd s t = Some (unat (tm_delay ?x))"
      using False h by (simp add: fire_def)
    moreover have "tm_params (ts_tm s' t') = tm_params (ts_tm s t')" for t'
      using s'(3,4) h by (cases "t' = t") (simp_all add: same_slots_def tm_params_def)
    then have "slots_minus s s' t"
      using s'(3) by (simp add: slots_minus_def same_slots_def same_params_def)
    ultimately show ?thesis
      using False e s' by (simp add: same_slots_def)
  qed
qed

text \<open>A timer that is found in a slot under a cursor.\<close>

lemma in_slot_placed:
  assumes "repr b s dl" "t \<in> set (ts_hashs s l h)"
  obtains k where "dl t = Some k" "placed b s t k l h" "tm_ready (ts_tm s t)" "count_list (ts_hashs s l h) t = 1"
proof -
  have "entry_ok b s t (dl t)"
    using assms(1) by (rule repr_entry)
  moreover have "count_list (ts_hashs s l h) t \<noteq> 0"
    using assms(2) by (simp add: count_list_0_iff)
  moreover obtain k where "dl t = Some k"
    using calculation by (cases "dl t") (auto simp: entry_ok_def assms(2))
  ultimately obtain l' h' where "dl t = Some k" "tm_ready (ts_tm s t)" "placed b s t k l' h'"
      "\<And>l'' h''. count_list (ts_hashs s l'' h'') t = (if l'' = l' \<and> h'' = h' then 1 else 0)"
    unfolding entry_ok_def by auto
  moreover have "l = l'" "h = h'"
    using calculation(4) [of l h] \<open>count_list (ts_hashs s l h) t \<noteq> 0\<close> by (auto split: if_splits)
  ultimately show thesis
    using that by simp
qed

lemma under_cursor:
  assumes "b < 524288" "q < 524288" "b = (b + q) mod (524288 :: nat)"
  shows "q = 0"
  using assms slot_moved [of q b] by fastforce

lemma drop_two_repr:
  assumes r: "repr b s dl" and t: "t \<in> set (ts_hashs s 1 b)" and z: "ts_cursors s ! 0 = 0" "b = unat (ts_cursors s ! 1)"
    and l: "tm_left (ts_tm s t) \<noteq> 0"
  shows "\<exists>s'. drop_from 2 t (tm_list_del t s) = Some s' \<and> repr b s' dl \<and> slots_minus s s' t \<and>
    ts_trace s' = ts_trace s"
proof -
  let ?s = "tm_list_del t s" and ?left = "tm_left (ts_tm s t)"
  obtain k where k: "dl t = Some k" "placed b s t k 1 b" "tm_ready (ts_tm s t)"
    using in_slot_placed [OF r t] by auto
  have c: "cursors_ok s" and c1: "b < 524288"
    using r z cursors_bound(2) [of s] by (auto simp: repr_def)
  have lf: "unat ?left < 1048576" "0 < unat ?left" "k = unat ?left"
    using k(2) l z c1 under_cursor [OF c1] by (auto simp: placed_def Let_def unat_gt_0)
  have r1: "repr b ?s (dl(t := None))"
    using r by (rule list_del_repr)
  have ready: "tm_handler (ts_tm ?s t) \<noteq> None" "0 < tm_delay (ts_tm ?s t)" "tm_delay (ts_tm ?s t) < TIMER_MAX_TICKS"
    using k(3) by (auto simp: tm_ready_def)
  let ?hi = "put_timer t 1 ((b + 1) mod 524288) (?left mod LEVEL_SIZE) ?s"
  let ?lo = "put_timer t 0 (unat ?left) 0 ?s"
  have u: "unat (?left div LEVEL_SIZE) = unat ?left div 524288" "unat (?left mod LEVEL_SIZE) = unat ?left mod 524288"
    by (simp_all add: unat_level_off unat_mod_distrib unat_LEVEL_SIZE)
  have pos: "0 < ?left div LEVEL_SIZE \<longleftrightarrow> 524288 \<le> unat ?left" "0 < ?left"
    using lf u by (auto simp: word_less_nat_alt div_greater_zero_iff)
  have one: "524288 \<le> unat ?left \<Longrightarrow> unat ?left div 524288 = 1"
    using lf by simp
  have hi: "unat ((ts_cursors s ! 1 + ?left div LEVEL_SIZE) mod LEVEL_SIZE) = (b + 1) mod 524288" if "524288 \<le> unat ?left"
    using unat_slot [of "ts_cursors s ! 1" "?left div LEVEL_SIZE"] c1 z u one [OF that] by simp
  have lo: "unat (?left mod LEVEL_SIZE) = unat ?left" if "unat ?left < 524288"
    using u that by simp
  have eq: "drop_from 2 t ?s = Some (if 524288 \<le> unat ?left then ?hi else ?lo)"
    using pos hi lo z by (auto simp: numeral_2_eq_2 tm_list_add_tail_def put_timer_def upd_tm_def Let_def not_le)
  have "repr b (if 524288 \<le> unat ?left then ?hi else ?lo) ((dl(t := None))(t \<mapsto> k))"
  proof (cases "524288 \<le> unat ?left")
    case True
    then have "placed b ?hi t k 1 ((b + 1) mod 524288)"
      using lf u z one [OF True] mod_mult_div_eq [of "unat ?left" 524288]
      unfolding placed_def by (auto simp: Let_def intro!: exI [of _ 1])
    then have "repr b ?hi ((dl(t := None))(t \<mapsto> k))"
      by (intro put_timer_repr [OF r1] ready) simp_all
    then show ?thesis
      using True by simp
  next
    case False
    then have "placed b ?lo t k 0 (unat ?left)"
      using lf z by (simp add: placed_def)
    then have "repr b ?lo ((dl(t := None))(t \<mapsto> k))"
      by (intro put_timer_repr [OF r1] ready) simp_all
    then show ?thesis
      using False by simp
  qed
  moreover have "(dl(t := None))(t \<mapsto> k) = dl"
    using k(1) by auto
  moreover have "slots_minus s (if 524288 \<le> unat ?left then ?hi else ?lo) t"
    using lf z slot_moved [of 1 b] c1 by (auto simp: slots_minus_def same_params_def tm_params_def)
  ultimately show ?thesis
    using eq by simp
qed

text \<open>The slot under the cursor of a level, and when the tick handler may work on it.\<close>

definition cur_slot :: "'h timer_scheduler \<Rightarrow> nat \<Rightarrow> nat list" where
  "cur_slot s l = ts_hashs s l (unat (ts_cursors s ! l))"

definition slot_turn :: "nat \<Rightarrow> 'h timer_scheduler \<Rightarrow> nat \<Rightarrow> bool" where
  "slot_turn b s level \<longleftrightarrow>
    (level = 0 \<and> (b = unat (ts_cursors s ! 1) \<or> ts_cursors s ! 0 = 0)) \<or>
    (level = 1 \<and> b = unat (ts_cursors s ! 1) \<and> ts_cursors s ! 0 = 0)"

definition due_left :: "'h timer_scheduler \<Rightarrow> nat \<Rightarrow> bool" where
  "due_left s t \<longleftrightarrow> tm_left (ts_tm s t) = 0"

lemma tick_slot_step:
  assumes r: "repr b s dl" and t: "cur_slot s level = t # rest" and q: "quiet hnd" and l: "slot_turn b s level"
  shows "\<exists>s1. (if tm_left (ts_tm s t) = 0 then timer_expire hnd s t
                else drop_from (Suc level) t (tm_list_del t s)) = Some s1 \<and>
    repr b s1 (dl(t := if due_left s t then fire hnd s t else dl t)) \<and> slots_minus s s1 t \<and>
    ts_trace s1 = ts_trace s @ (if due_left s t then [t] else [])"
proof -
  have m: "t \<in> set (ts_hashs s level (unat (ts_cursors s ! level)))"
    using t by (simp add: cur_slot_def)
  obtain k where k: "dl t = Some k" "placed b s t k level (unat (ts_cursors s ! level))" "tm_ready (ts_tm s t)"
    using in_slot_placed [OF r m] by auto
  have same: "dl(t := dl t) = dl"
    by simp
  show ?thesis
  proof (cases "tm_left (ts_tm s t) = 0")
    case True
    have "unat (tm_delay (ts_tm s t)) < 524288 \<or> b = unat (ts_cursors s ! 1)"
      using l k(2) by (auto simp: slot_turn_def placed_def Let_def)
    then show ?thesis
      using True timer_expire_repr [OF r k(1) q] by (simp add: due_left_def)
  next
    case False
    then have "level = 1"
      using l k(2) by (auto simp: slot_turn_def placed_def Let_def unat_eq_0)
    then show ?thesis
      using False l m drop_two_repr [OF r, of t] same
      by (auto simp: slot_turn_def due_left_def numeral_2_eq_2)
  qed
qed

lemma slots_minus_facts:
  assumes "slots_minus s s1 t" "cur_slot s level = t # rest" "level < 2" "t \<notin> set rest"
  shows "cur_slot s1 level = rest" "slot_turn b s1 l = slot_turn b s l"
    "t' \<noteq> t \<Longrightarrow> due_left s1 t' = due_left s t'" "fire hnd s1 t' = fire hnd s t'"
    "m < 2 \<Longrightarrow> cur_slot s m = [] \<Longrightarrow> cur_slot s1 m = []"
proof -
  have eq: "ts_cursors s1 = ts_cursors s" "tm_params (ts_tm s1 t') = tm_params (ts_tm s t')"
    using assms(1) by (simp_all add: slots_minus_def same_params_def)
  have c: "m < 2 \<Longrightarrow> cur_slot s1 m = removeAll t (cur_slot s m)" for m
    using assms(1) by (auto simp: slots_minus_def same_params_def cur_slot_def less_2_cases_iff)
  show "cur_slot s1 level = rest"
    using c [OF assms(3)] assms(2,4) by simp
  show "slot_turn b s1 l = slot_turn b s l"
    using eq by (simp add: slot_turn_def)
  show "t' \<noteq> t \<Longrightarrow> due_left s1 t' = due_left s t'"
    using assms(1) by (simp add: slots_minus_def due_left_def)
  show "fire hnd s1 t' = fire hnd s t'"
    using eq(2) by (simp add: fire_def tm_params_def Let_def)
  show "m < 2 \<Longrightarrow> cur_slot s m = [] \<Longrightarrow> cur_slot s1 m = []"
    using c by simp
qed

definition slot_done :: "'h handlers \<Rightarrow> nat \<Rightarrow> 'h timer_scheduler \<Rightarrow> (nat \<Rightarrow> nat option) \<Rightarrow> nat \<Rightarrow> 'h timer_scheduler \<Rightarrow> bool" where
  "slot_done hnd b s dl level s' \<longleftrightarrow>
    repr b s' (\<lambda>t. if t \<in> set (cur_slot s level) \<and> due_left s t then fire hnd s t else dl t) \<and>
    same_params s s' \<and> cur_slot s' level = [] \<and> (\<forall>m < 2. cur_slot s m = [] \<longrightarrow> cur_slot s' m = []) \<and>
    ts_trace s' = ts_trace s @ filter (due_left s) (cur_slot s level)"

lemma slot_distinct: "repr b s dl \<Longrightarrow> distinct (cur_slot s level)"
proof -
  assume r: "repr b s dl"
  have "count_list (cur_slot s level) t \<le> 1" for t :: nat
  proof (cases "t \<in> set (cur_slot s level)")
    case True
    then show ?thesis
      using in_slot_placed [OF r, of t level] by (metis cur_slot_def order_refl)
  qed (simp add: count_list_0_iff)
  moreover have "distinct xs" if "\<And>t. count_list xs t \<le> 1" for xs :: "nat list"
    using that
  proof (induction xs)
    case (Cons x xs)
    have "count_list xs t \<le> 1" for t
      using Cons.prems [of t] by (auto split: if_splits)
    moreover have "count_list xs x = 0"
      using Cons.prems [of x] by simp
    ultimately show ?case
      using Cons.IH by (simp add: count_list_0_iff)
  qed simp
  ultimately show "distinct (cur_slot s level)"
    by blast
qed

lemma tick_slot_repr:
  assumes "repr b s dl" "quiet hnd" "slot_turn b s level" "level < 2" "length (cur_slot s level) = n"
  shows "\<exists>s'. tick_slot n hnd level (unat (ts_cursors s ! level)) s = Some s' \<and> slot_done hnd b s dl level s'"
  using assms
proof (induction n arbitrary: s dl)
  case 0
  then have "cur_slot s level = []"
    by simp
  with 0 show ?case
    by (simp add: slot_done_def) (simp add: cur_slot_def)
next
  case (Suc n)
  then obtain t rest where tr: "cur_slot s level = t # rest"
    by (cases "cur_slot s level") auto
  have nt: "t \<notin> set rest"
    using slot_distinct [OF Suc.prems(1), of level] tr by simp
  let ?dl = "dl(t := if due_left s t then fire hnd s t else dl t)"
  obtain s1 where s1: "(if tm_left (ts_tm s t) = 0 then timer_expire hnd s t
        else drop_from (Suc level) t (tm_list_del t s)) = Some s1" "repr b s1 ?dl" "slots_minus s s1 t"
      "ts_trace s1 = ts_trace s @ (if due_left s t then [t] else [])"
    using tick_slot_step [OF Suc.prems(1) tr Suc.prems(2,3)] by auto
  note f = slots_minus_facts [OF s1(3) tr Suc.prems(4) nt]
  have cs: "ts_cursors s1 = ts_cursors s" and sp: "same_params s s1"
    using s1(3) by (simp_all add: slots_minus_def same_params_def)
  have "\<exists>s'. tick_slot n hnd level (unat (ts_cursors s1 ! level)) s1 = Some s' \<and> slot_done hnd b s1 ?dl level s'"
    by (rule Suc.IH [OF s1(2) Suc.prems(2) _ Suc.prems(4)]) (use Suc.prems(3,5) tr f(1,2) in auto)
  then obtain s' where s': "tick_slot n hnd level (unat (ts_cursors s ! level)) s1 = Some s'" "slot_done hnd b s1 ?dl level s'"
    by (auto simp: cs)
  have "tick_slot (Suc n) hnd level (unat (ts_cursors s ! level)) s = Some s'"
    using s1(1) s'(1) tr by (simp add: cur_slot_def)
  moreover have "slot_done hnd b s dl level s'"
  proof -
    have due: "due_left s1 x = due_left s x" if "x \<in> set rest" for x
    proof -
      have "x \<noteq> t"
        using nt that by auto
      then show ?thesis
        by (rule f(3))
    qed
    have "(\<lambda>t'. if t' \<in> set rest \<and> due_left s1 t' then fire hnd s1 t' else ?dl t') =
        (\<lambda>t'. if t' \<in> set (t # rest) \<and> due_left s t' then fire hnd s t' else dl t')"
      using nt f(4) due by (auto simp: fun_eq_iff)
    moreover have "filter (due_left s1) rest = filter (due_left s) rest"
      using due by (intro filter_cong) auto
    ultimately show ?thesis
      using s'(2) f(1,5) same_params_trans [OF sp] s1(4) tr by (simp add: slot_done_def)
  qed
  ultimately show ?case
    by blast
qed

text \<open>Between two ticks no list under a cursor holds a timer.\<close>

definition at_rest :: "'h timer_scheduler \<Rightarrow> bool" where
  "at_rest s \<longleftrightarrow> cur_slot s 0 = [] \<and> cur_slot s 1 = []"

definition wheel_repr :: "'h timer_scheduler \<Rightarrow> (nat \<Rightarrow> nat option) \<Rightarrow> bool" where
  "wheel_repr s dl \<longleftrightarrow> repr (unat (ts_cursors s ! 1)) s dl \<and> at_rest s"

lemma due_zero:
  assumes r: "repr b s dl" and t: "dl t = Some 0" and b: "b < 524288"
  shows "t \<in> set (cur_slot s 0) \<and> due_left s t \<or>
    t \<in> set (ts_hashs s 1 b) \<and> unat (tm_left (ts_tm s t)) = unat (ts_cursors s ! 0)"
proof -
  obtain l h where l: "placed b s t 0 l h" "count_list (ts_hashs s l h) t = 1"
    using repr_entry [OF r, of t] t by (auto simp: entry_ok_def)
  have m: "t \<in> set (ts_hashs s l h)"
    using l(2) by (metis count_notin zero_neq_one)
  have c: "unat (ts_cursors s ! 0) < 524288"
    using r cursors_bound by (auto simp: repr_def)
  show ?thesis
  proof (cases "l = 0")
    case True
    then show ?thesis
      using l m c by (auto simp: placed_def cur_slot_def due_left_def Let_def unat_eq_0)
  next
    case False
    then obtain q where q: "l = 1" "h = (b + q) mod 524288" "unat (ts_cursors s ! 0) = q * 524288 + unat (tm_left (ts_tm s t))"
      using l by (auto simp: placed_def Let_def)
    then have "q = 0"
      using c by (cases q) auto
    then show ?thesis
      using q m b by simp
  qed
qed

text \<open>Moving the cursors: every deadline comes one tick nearer.\<close>

definition closer :: "(nat \<Rightarrow> nat option) \<Rightarrow> nat \<Rightarrow> nat option" where
  "closer dl t = map_option (\<lambda>k. k - 1) (dl t)"

definition next_base :: "'h timer_scheduler \<Rightarrow> nat" where
  "next_base s = (if unat (ts_cursors s ! 0) + 1 < 524288 then unat (ts_cursors s ! 1)
     else (unat (ts_cursors s ! 1) + 1) mod 524288)"

lemma deadline_pos:
  assumes "wheel_repr s dl" "dl t = Some k"
  shows "0 < k"
proof (rule ccontr)
  assume "\<not> 0 < k"
  moreover have "unat (ts_cursors s ! 1) < 524288"
    using assms cursors_bound by (auto simp: wheel_repr_def repr_def)
  ultimately show False
    using assms due_zero [of "unat (ts_cursors s ! 1)" s dl t] by (auto simp: wheel_repr_def at_rest_def cur_slot_def)
qed

lemma shift_mod: "0 < k \<Longrightarrow> (c + k) mod m = ((c + 1) mod m + (k - 1)) mod (m :: nat)"
  by (cases k) (simp_all add: mod_simps)

lemma placed_next:
  assumes p: "placed (unat (ts_cursors s ! 1)) s t k l h" and k: "0 < k" and c: "cursors_ok s"
    and nz: "h = unat (ts_cursors s ! 1) \<Longrightarrow> l \<noteq> 1"
    and s': "ts_cursors s' ! 0 = c'" "unat c' = (unat (ts_cursors s ! 0) + 1) mod 524288" "ts_tm s' t = ts_tm s t"
  shows "placed (next_base s) s' t (k - 1) l h"
proof (cases "l = 0")
  case True
  have "(unat (ts_cursors s ! 0) + k) mod 524288 = (unat c' + (k - 1)) mod 524288"
    unfolding s'(2) by (rule shift_mod [OF k])
  then show ?thesis
    using True p s'(1,3) by (auto simp: placed_def Let_def)
next
  case False
  let ?c0 = "unat (ts_cursors s ! 0)" and ?c1 = "unat (ts_cursors s ! 1)" and ?left = "unat (tm_left (ts_tm s t))"
  obtain q where q: "l = 1" "?left < 1048576" "q < 524288" "h = (?c1 + q) mod 524288" "k + ?c0 = q * 524288 + ?left"
    using False p by (auto simp: placed_def Let_def)
  have c1: "?c1 < 524288" "?c0 < 524288"
    using cursors_bound [OF c] by simp_all
  have "q \<noteq> 0"
    using nz q(1,4) c1(1) by (cases "q = 0") auto
  show ?thesis
  proof (cases "?c0 + 1 < 524288")
    case True
    then show ?thesis
      using q k s' unfolding placed_def by (auto simp: Let_def next_base_def intro!: exI [of _ q])
  next
    case False
    then have "?c0 = 524287"
      using c1 by simp
    moreover have "h = ((?c1 + 1) mod 524288 + (q - 1)) mod 524288"
      unfolding q(4) using \<open>q \<noteq> 0\<close> by (intro shift_mod) simp
    ultimately show ?thesis
      using q k s' False \<open>q \<noteq> 0\<close> unfolding placed_def
      by (auto simp: Let_def next_base_def diff_mult_distrib intro!: exI [of _ "q - 1"])
  qed
qed

lemma cursor_moved_repr:
  assumes w: "wheel_repr s dl" and c: "unat c' = (unat (ts_cursors s ! 0) + 1) mod 524288"
  shows "repr (next_base s) (s\<lparr>ts_cursors := (ts_cursors s)[0 := c']\<rparr>) (closer dl)"
proof -
  let ?s = "s\<lparr>ts_cursors := (ts_cursors s)[0 := c']\<rparr>"
  have r: "repr (unat (ts_cursors s ! 1)) s dl" and ok: "cursors_ok s"
    using w by (auto simp: wheel_repr_def repr_def)
  have e1: "cur_slot s 1 = []"
    using w by (simp add: wheel_repr_def at_rest_def)
  have "entry_ok (next_base s) ?s t (closer dl t)" for t
  proof (cases "dl t")
    case None
    then show ?thesis
      using repr_entry [OF r, of t] by (simp add: entry_ok_def closer_def)
  next
    case (Some k)
    then obtain l h where l: "placed (unat (ts_cursors s ! 1)) s t k l h" "tm_ready (ts_tm s t)"
        "\<forall>l' h'. count_list (ts_hashs s l' h') t = (if l' = l \<and> h' = h then 1 else 0)"
      using repr_entry [OF r, of t] by (auto simp: entry_ok_def)
    have "l \<noteq> 1" if "h = unat (ts_cursors s ! 1)"
      using l(3) [rule_format, of l h] e1 that by (auto simp: cur_slot_def)
    then have "placed (next_base s) ?s t (k - 1) l h"
      using ok c by (intro placed_next [OF l(1) deadline_pos [OF w Some] ok, where c' = c'])
        (auto simp: cursors_ok_def)
    with l Some show ?thesis
      by (auto simp: entry_ok_def closer_def)
  qed
  moreover have "cursors_ok ?s"
    using ok c by (auto simp: cursors_ok_def dest!: set_update_subset_insert [THEN subsetD])
  ultimately show ?thesis
    by (simp add: repr_def)
qed

lemma slot_due_zero:
  assumes r: "repr b s dl" and l: "slot_turn b s level" and t: "t \<in> set (cur_slot s level)" "due_left s t"
  shows "dl t = Some 0"
proof -
  obtain k where k: "dl t = Some k" "placed b s t k level (unat (ts_cursors s ! level))"
    by (rule in_slot_placed [OF r t(1) [unfolded cur_slot_def]])
  have c: "unat (ts_cursors s ! 0) < 524288" "unat (ts_cursors s ! 1) < 524288"
    using r cursors_bound by (auto simp: repr_def)
  have "k = 0"
    using k(2) l t(2) under_cursor [OF c(1), of k] under_cursor [OF c(2)]
    by (auto simp: placed_def slot_turn_def due_left_def Let_def)
  then show ?thesis
    using k(1) by simp
qed

lemma level0_due: "repr b s dl \<Longrightarrow> t \<in> set (cur_slot s 0) \<Longrightarrow> due_left s t"
  by (erule in_slot_placed [of b s dl t 0]) (auto simp: cur_slot_def placed_def due_left_def Let_def unat_eq_0)

text \<open>The abstract tick: every deadline comes nearer, and a timer whose deadline is reached fires.\<close>

definition tick_spec :: "'h handlers \<Rightarrow> 'h timer_scheduler \<Rightarrow> (nat \<Rightarrow> nat option) \<Rightarrow> nat \<Rightarrow> nat option" where
  "tick_spec hnd s dl t = (case dl t of None \<Rightarrow> None | Some k \<Rightarrow> if k \<le> 1 then fire hnd s t else Some (k - 1))"

definition ticked :: "'h handlers \<Rightarrow> 'h timer_scheduler \<Rightarrow> (nat \<Rightarrow> nat option) \<Rightarrow> 'h timer_scheduler \<Rightarrow> bool" where
  "ticked hnd s dl s' \<longleftrightarrow> wheel_repr s' (tick_spec hnd s dl) \<and>
    (\<forall>t. tm_params (ts_tm s' t) = tm_params (ts_tm s t)) \<and> ts_global s' = ts_global s \<and>
    (\<exists>fs. ts_trace s' = ts_trace s @ fs \<and> distinct fs \<and> set fs = {t. dl t = Some 1})"

lemma tick_spec_closer:
  assumes "wheel_repr s dl"
  shows "tick_spec hnd s dl = (\<lambda>t. if closer dl t = Some 0 then fire hnd s t else closer dl t)"
    and "{t. dl t = Some 1} = {t. closer dl t = Some 0}"
proof -
  show "tick_spec hnd s dl = (\<lambda>t. if closer dl t = Some 0 then fire hnd s t else closer dl t)"
  proof (rule ext)
    fix t
    show "tick_spec hnd s dl t = (if closer dl t = Some 0 then fire hnd s t else closer dl t)"
      using deadline_pos [OF assms, of t] by (cases "dl t") (auto simp: tick_spec_def closer_def)
  qed
  have "dl t = Some 1 \<longleftrightarrow> closer dl t = Some 0" for t
    using deadline_pos [OF assms, of t] by (cases "dl t") (auto simp: closer_def)
  then show "{t. dl t = Some 1} = {t. closer dl t = Some 0}"
    by simp
qed

lemma fire_not_zero:
  assumes "repr b s dl" "dl t \<noteq> None" "tm_params (ts_tm s' t) = tm_params (ts_tm s t)"
  shows "fire hnd s' t \<noteq> Some 0"
proof -
  have "0 < tm_delay (ts_tm s t)"
    using repr_entry [OF assms(1), of t] assms(2) by (auto simp: entry_ok_def tm_ready_def)
  then have "0 < unat (tm_delay (ts_tm s' t))"
    using assms(3) by (simp add: tm_params_def unat_gt_0)
  then show ?thesis
    by (simp add: fire_def Let_def)
qed

lemma fire_params: "tm_params (ts_tm s' t) = tm_params (ts_tm s t) \<Longrightarrow> fire hnd s' t = fire hnd s t"
  by (simp add: fire_def tm_params_def Let_def)

lemma tick_no_carry:
  assumes w: "wheel_repr s dl" and q: "quiet hnd" and c: "unat (ts_cursors s ! 0) + 1 < 524288"
  shows "\<exists>s'. tick_levels hnd [0, 1] s = Some s' \<and> ticked hnd s dl s' \<and> ts_lock s' = ts_lock s"
proof -
  let ?c = "ts_cursors s ! 0 + 1" and ?b = "unat (ts_cursors s ! 1)"
  let ?s = "s\<lparr>ts_cursors := (ts_cursors s)[0 := ?c]\<rparr>"
  have ok: "cursors_ok s"
    using w by (auto simp: wheel_repr_def repr_def)
  have u: "unat ?c = unat (ts_cursors s ! 0) + 1"
    using c by (simp add: unat_word_ariths)
  have lt: "?c < LEVEL_SIZE"
    using u c by (simp add: word_less_nat_alt unat_LEVEL_SIZE)
  have r1: "repr ?b ?s (closer dl)"
    using cursor_moved_repr [OF w, of ?c] u c by (simp add: next_base_def)
  have cs: "ts_cursors ?s ! 0 = ?c" "ts_cursors ?s ! 1 = ts_cursors s ! 1"
    using ok by (auto simp: cursors_ok_def)
  have turn: "slot_turn ?b ?s 0"
    using cs by (simp add: slot_turn_def)
  obtain s' where s': "tick_slot (length (cur_slot ?s 0)) hnd 0 (unat ?c) ?s = Some s'" "slot_done hnd ?b ?s (closer dl) 0 s'"
    using tick_slot_repr [OF r1 q turn] cs by auto
  have e1: "cur_slot ?s 1 = []"
    using w cs by (simp add: wheel_repr_def at_rest_def cur_slot_def)
  have b: "?b < 524288"
    using cursors_bound [OF ok] by simp
  have due: "t \<in> set (cur_slot ?s 0) \<and> due_left ?s t \<longleftrightarrow> closer dl t = Some 0" for t
    using slot_due_zero [OF r1 turn, of t] due_zero [OF r1 _ b, of t] e1 cs by (auto simp: cur_slot_def)
  have "fire hnd ?s = fire hnd s"
    by (simp add: fire_def fun_eq_iff)
  then have "tick_spec hnd s dl = (\<lambda>t. if t \<in> set (cur_slot ?s 0) \<and> due_left ?s t then fire hnd ?s t else closer dl t)"
    using due by (simp add: tick_spec_closer [OF w] fun_eq_iff)
  moreover have "ts_cursors s' ! 1 = ts_cursors s ! 1" "at_rest s'"
    using s'(2) e1 w cs by (auto simp: slot_done_def same_params_def at_rest_def wheel_repr_def)
  ultimately have "wheel_repr s' (tick_spec hnd s dl)"
    using s'(2) by (simp add: slot_done_def wheel_repr_def)
  moreover have "\<exists>fs. ts_trace s' = ts_trace s @ fs \<and> distinct fs \<and> set fs = {t. dl t = Some 1}"
    using s'(2) slot_distinct [OF r1, of 0] due tick_spec_closer(2) [OF w]
    by (intro exI [of _ "filter (due_left ?s) (cur_slot ?s 0)"]) (auto simp: slot_done_def)
  ultimately show ?thesis
    using s' lt cs by (auto simp: ticked_def slot_done_def same_params_def Let_def cur_slot_def)
qed

lemma cursor1_repr:
  assumes "repr b s dl" "unat c < 524288"
  shows "repr b (s\<lparr>ts_cursors := (ts_cursors s)[1 := c]\<rparr>) dl"
proof -
  let ?s = "s\<lparr>ts_cursors := (ts_cursors s)[1 := c]\<rparr>"
  have "entry_ok b ?s t (dl t)" for t
    by (rule entry_ok_cong [OF repr_entry [OF assms(1)]]) simp_all
  moreover have "cursors_ok ?s"
    using assms by (auto simp: repr_def cursors_ok_def dest!: set_update_subset_insert [THEN subsetD])
  ultimately show ?thesis
    by (simp add: repr_def)
qed

text \<open>The two slots of a carrying tick one after the other.\<close>

lemma carry_phases:
  assumes r1: "repr b s1 dl" and b: "b < 524288" and z: "ts_cursors s1 ! 0 = 0" and turn: "slot_turn b s1 0"
    and d2: "slot_done hnd b s1 dl 0 s2" and s3: "s3 = s2\<lparr>ts_cursors := (ts_cursors s2)[1 := c]\<rparr>" "unat c = b"
    and d4: "slot_done hnd b s3 (\<lambda>t. if t \<in> set (cur_slot s1 0) \<and> due_left s1 t then fire hnd s1 t else dl t) 1 s4"
  shows "repr b s4 (\<lambda>t. if dl t = Some 0 then fire hnd s1 t else dl t)"
    and "\<exists>fs. ts_trace s4 = ts_trace s1 @ fs \<and> distinct fs \<and> set fs = {t. dl t = Some 0}"
proof -
  let ?L0 = "cur_slot s1 0" and ?dl2 = "\<lambda>t. if t \<in> set (cur_slot s1 0) \<and> due_left s1 t then fire hnd s1 t else dl t"
  let ?L1 = "filter (due_left s3) (cur_slot s3 1)"
  have r2: "repr b s2 ?dl2"
    using d2 by (simp add: slot_done_def)
  then have r3: "repr b s3 ?dl2"
    using cursor1_repr [of b s2 _ c] s3 b by simp
  have l2: "length (ts_cursors s2) = 2"
    using r2 by (simp add: repr_def cursors_ok_def)
  have cs: "ts_cursors s3 ! 0 = 0" "ts_cursors s3 ! 1 = c"
    using d2 z s3 l2 by (auto simp: slot_done_def same_params_def)
  have par: "tm_params (ts_tm s3 t) = tm_params (ts_tm s1 t)" for t
    using d2 s3 by (simp add: slot_done_def same_params_def)
  note fp = fire_params [OF par]
  have L0: "t \<in> set ?L0 \<Longrightarrow> dl t = Some 0 \<and> due_left s1 t" for t
    using slot_due_zero [OF r1 turn] level0_due [OF r1] by blast
  have fz: "t \<in> set ?L0 \<Longrightarrow> fire hnd s1 t \<noteq> Some 0" for t
    using fire_not_zero [OF r1, of t s1] L0 by simp
  have turn3: "slot_turn b s3 1"
    using cs s3 by (simp add: slot_turn_def)
  have L1: "t \<in> set ?L1 \<longleftrightarrow> ?dl2 t = Some 0" for t
  proof
    show "t \<in> set ?L1 \<Longrightarrow> ?dl2 t = Some 0"
      using slot_due_zero [OF r3 turn3, of t] by auto
    have "cur_slot s3 0 = []"
      using d2 s3 cs by (auto simp: slot_done_def cur_slot_def same_params_def)
    then show "?dl2 t = Some 0 \<Longrightarrow> t \<in> set ?L1"
      using due_zero [OF r3 _ b, of t] cs s3 by (auto simp: cur_slot_def due_left_def unat_eq_0)
  qed
  have "(\<lambda>t. if t \<in> set (cur_slot s3 1) \<and> due_left s3 t then fire hnd s3 t else ?dl2 t) =
      (\<lambda>t. if dl t = Some 0 then fire hnd s1 t else dl t)"
    using L1 L0 fz fp by (auto simp: fun_eq_iff)
  then show "repr b s4 (\<lambda>t. if dl t = Some 0 then fire hnd s1 t else dl t)"
    using d4 by (simp add: slot_done_def)
  have "filter (due_left s1) ?L0 = ?L0"
    using L0 by (simp add: filter_id_conv)
  then have "ts_trace s4 = ts_trace s1 @ (?L0 @ ?L1)"
    using d2 d4 s3 by (simp add: slot_done_def)
  moreover have "distinct (?L0 @ ?L1)"
    using slot_distinct [OF r1, of 0] slot_distinct [OF r3, of 1] L1 L0 fz by (auto simp del: set_filter)
  moreover have "set (?L0 @ ?L1) = {t. dl t = Some 0}"
    using L1 L0 fz by (auto simp del: set_filter split: if_splits)
  ultimately show "\<exists>fs. ts_trace s4 = ts_trace s1 @ fs \<and> distinct fs \<and> set fs = {t. dl t = Some 0}"
    by blast
qed

lemma tick_carry:
  assumes w: "wheel_repr s dl" and q: "quiet hnd" and c: "\<not> unat (ts_cursors s ! 0) + 1 < 524288"
  shows "\<exists>s'. tick_levels hnd [0, 1] s = Some s' \<and> ticked hnd s dl s' \<and> ts_lock s' = ts_lock s"
proof -
  let ?s1 = "s\<lparr>ts_cursors := (ts_cursors s)[0 := 0]\<rparr>"
  let ?c1 = "ts_cursors s ! 1 + 1"
  let ?c = "if ?c1 < LEVEL_SIZE then ?c1 else 0"
  let ?b = "next_base s"
  have ok: "cursors_ok s" and len: "length (ts_cursors s) = 2"
    using w by (auto simp: wheel_repr_def repr_def cursors_ok_def)
  note cb = cursors_bound [OF ok]
  have c0: "unat (ts_cursors s ! 0) = 524287"
    using c cb by simp
  have u0: "\<not> ts_cursors s ! 0 + 1 < LEVEL_SIZE"
    using c0 by (simp add: word_less_nat_alt unat_LEVEL_SIZE unat_word_ariths)
  have uc: "unat ?c = ?b"
    using c cb by (auto simp: next_base_def word_less_nat_alt unat_LEVEL_SIZE unat_word_ariths mod_if)
  have b: "?b < 524288"
    by (simp add: next_base_def c0)
  have r1: "repr ?b ?s1 (closer dl)"
    using cursor_moved_repr [OF w, of 0] c0 by simp
  have cs: "ts_cursors ?s1 ! 0 = 0"
    using len by simp
  have turn: "slot_turn ?b ?s1 0"
    using cs by (simp add: slot_turn_def)
  obtain s2 where s2: "tick_slot (length (cur_slot ?s1 0)) hnd 0 (unat (ts_cursors ?s1 ! 0)) ?s1 = Some s2"
      "slot_done hnd ?b ?s1 (closer dl) 0 s2"
    using tick_slot_repr [OF r1 q turn] by auto
  let ?s3 = "s2\<lparr>ts_cursors := (ts_cursors s2)[1 := ?c]\<rparr>"
  have c2: "ts_cursors s2 = (ts_cursors s)[0 := 0]"
    using s2(2) by (simp add: slot_done_def same_params_def)
  have c3: "ts_cursors ?s3 ! 0 = 0" "ts_cursors ?s3 ! 1 = ?c"
    using c2 len by simp_all
  let ?dl2 = "\<lambda>t. if t \<in> set (cur_slot ?s1 0) \<and> due_left ?s1 t then fire hnd ?s1 t else closer dl t"
  have r3: "repr ?b ?s3 ?dl2"
    using s2(2) uc b by (intro cursor1_repr) (simp_all add: slot_done_def)
  have turn3: "slot_turn ?b ?s3 1"
    using c3 uc by (simp add: slot_turn_def)
  obtain s4 where s4: "tick_slot (length (cur_slot ?s3 1)) hnd 1 (unat (ts_cursors ?s3 ! 1)) ?s3 = Some s4"
      "slot_done hnd ?b ?s3 ?dl2 1 s4"
    using tick_slot_repr [OF r3 q turn3] by auto
  have "tick_levels hnd [0, 1] s = Some s4"
    using s2(1) s4(1) u0 c2 c3 len cs by (auto simp: Let_def cur_slot_def)
  moreover have "ticked hnd s dl s4"
  proof -
    note ph = carry_phases [OF r1 b cs turn s2(2) refl uc s4(2)]
    have "fire hnd ?s1 = fire hnd s"
      by (simp add: fire_def fun_eq_iff)
    then have "repr ?b s4 (tick_spec hnd s dl)"
      using ph(1) by (simp add: tick_spec_closer [OF w] cong: if_cong)
    moreover have "unat (ts_cursors s4 ! 1) = ?b"
      using s4(2) c3 uc by (simp add: slot_done_def same_params_def)
    moreover have "cur_slot ?s3 0 = []"
      using s2(2) c2 by (simp add: slot_done_def cur_slot_def)
    then have "at_rest s4"
      using s4(2) s2(2) w by (auto simp: slot_done_def same_params_def at_rest_def wheel_repr_def)
    ultimately show ?thesis
      using ph(2) s2(2) s4(2) tick_spec_closer(2) [OF w]
      by (simp add: ticked_def wheel_repr_def slot_done_def same_params_def)
  qed
  moreover have "ts_lock s4 = ts_lock s"
    using s2(2) s4(2) by (simp add: slot_done_def same_params_def)
  ultimately show ?thesis
    by blast
qed

definition unlocked :: "'h timer_scheduler \<Rightarrow> bool" where
  "unlocked s \<longleftrightarrow> (ts_global s \<longrightarrow> \<not> ts_lock s)"

lemma wheel_repr_lock: "wheel_repr s dl \<Longrightarrow> wheel_repr (s\<lparr>ts_lock := v\<rparr>) dl"
  by (auto simp: wheel_repr_def at_rest_def cur_slot_def intro: repr_other_fields)

text \<open>One tick of the scheduler implements the abstract tick, whatever the handlers return.\<close>

lemma tick_refines:
  assumes w: "wheel_repr s dl" "unlocked s" and q: "quiet hnd"
  shows "\<exists>s'. rte_timer_tick_cb hnd s = Some s' \<and> ticked hnd s dl s' \<and> unlocked s'"
proof -
  let ?v = "ts_global s \<or> ts_lock s"
  let ?s0 = "s\<lparr>ts_lock := ?v\<rparr>"
  have lk: "timer_sched_lock s = Some ?s0"
    using w(2) by (cases "ts_global s") (auto simp: timer_sched_lock_def unlocked_def)
  have w0: "wheel_repr ?s0 dl"
    using w(1) by (rule wheel_repr_lock)
  obtain s1 where s1: "tick_levels hnd [0, 1] ?s0 = Some s1" "ticked hnd ?s0 dl s1" "ts_lock s1 = ?v"
    using tick_no_carry [OF w0 q] tick_carry [OF w0 q] by (cases "unat (ts_cursors s ! 0) + 1 < 524288") auto
  have "[0..<LEVEL_DEPTH] = [0, 1]"
    by (simp add: LEVEL_DEPTH_def numeral_2_eq_2)
  then have "rte_timer_tick_cb hnd s = Some (timer_sched_unlock s1)"
    using lk s1(1) by (simp add: rte_timer_tick_cb_def)
  moreover have "tick_spec hnd ?s0 dl = tick_spec hnd s dl"
    by (auto simp: tick_spec_def fire_def fun_eq_iff split: option.splits)
  then have "ticked hnd s dl (timer_sched_unlock s1)" "unlocked (timer_sched_unlock s1)"
    using s1(2) by (auto simp: ticked_def timer_sched_unlock_def unlocked_def wheel_repr_lock)
  ultimately show ?thesis
    by blast
qed

lemma count_list_distinct: "distinct xs \<Longrightarrow> count_list xs t = (if t \<in> set xs then 1 else 0)"
  by (induction xs) (auto simp: count_list_0_iff)

text \<open>The contract of a table of deadlines: what a tick does to them and what is reported. Its clients
  know when a timer fires, and how often.\<close>

definition firings :: "nat option \<Rightarrow> nat option \<Rightarrow> nat \<Rightarrow> nat" where
  "firings deadline period n = (case deadline of None \<Rightarrow> 0 | Some k \<Rightarrow>
     if n < k then 0 else 1 + (case period of None \<Rightarrow> 0 | Some p \<Rightarrow> (n - k) div p))"

locale deadline_table =
  fixes tick :: "'s \<Rightarrow> 's option"
    and rel :: "'s \<Rightarrow> (nat \<Rightarrow> nat option) \<Rightarrow> bool"
    and again :: "'s \<Rightarrow> nat \<Rightarrow> nat option"
    and fired :: "'s \<Rightarrow> nat list"
  assumes tick_law: "rel s dl \<Longrightarrow> \<exists>s' fs. tick s = Some s' \<and>
      rel s' (\<lambda>t. case dl t of None \<Rightarrow> None | Some k \<Rightarrow> if k \<le> 1 then again s t else Some (k - 1)) \<and>
      again s' = again s \<and> fired s' = fired s @ fs \<and> distinct fs \<and> set fs = {t. dl t = Some 1}"
    and deadline_law: "rel s dl \<Longrightarrow> dl t = Some k \<Longrightarrow> 0 < k"
    and again_law: "rel s dl \<Longrightarrow> dl t \<noteq> None \<Longrightarrow> again s t \<noteq> Some 0"
begin

lemma fires_on_schedule:
  assumes "rel s dl"
  shows "\<exists>s' fs dl'. run_ops (\<lambda>_. tick) (replicate n ()) s = Some s' \<and> rel s' dl' \<and> again s' = again s \<and>
    fired s' = fired s @ fs \<and> (\<forall>t. count_list fs t = firings (dl t) (again s t) n)"
  using assms
proof (induction n arbitrary: s dl)
  case 0
  have "firings (dl t) (again s t) 0 = 0" for t
    using deadline_law [OF "0.prems", of t] by (auto simp: firings_def split: option.splits)
  then show ?case
    using "0.prems" by auto
next
  case (Suc n)
  define dl1 where "dl1 = (\<lambda>t. case dl t of None \<Rightarrow> None | Some k \<Rightarrow> if k \<le> 1 then again s t else Some (k - 1))"
  obtain s1 fs where s1: "tick s = Some s1" "rel s1 dl1" "again s1 = again s" "fired s1 = fired s @ fs"
      "distinct fs" "set fs = {t. dl t = Some 1}"
    using tick_law [OF Suc.prems] unfolding dl1_def by blast
  obtain s' fs' dl' where s': "run_ops (\<lambda>_. tick) (replicate n ()) s1 = Some s'" "rel s' dl'" "again s' = again s"
      "fired s' = fired s1 @ fs'" "\<And>t. count_list fs' t = firings (dl1 t) (again s t) n"
    using Suc.IH [OF s1(2)] s1(3) by auto
  have "count_list (fs @ fs') t = firings (dl t) (again s t) (Suc n)" for t
  proof -
    have c: "count_list fs t = (if dl t = Some 1 then 1 else 0)"
      using count_list_distinct [OF s1(5)] s1(6) by simp
    show ?thesis
    proof (cases "dl t")
      case None
      then show ?thesis
        using c s'(5) by (simp add: dl1_def firings_def)
    next
      case (Some k)
      then have "0 < k" and a: "again s t \<noteq> Some 0"
        using deadline_law [OF Suc.prems] again_law [OF Suc.prems, of t] by auto
      have d: "n div p = (if n < p then 0 else 1 + (n - p) div p)" if "0 < p" for p
        using that by (simp add: le_div_geq)
      show ?thesis
        using c s'(5) [of t] Some \<open>0 < k\<close> a d
        by (auto simp: dl1_def firings_def le_Suc_eq split: option.splits)
    qed
  qed
  then show ?case
    using s1 s' by (intro exI [of _ s'] exI [of _ "fs @ fs'"] exI [of _ dl']) simp
qed

end

text \<open>The wheel provides it, for handlers given by their return codes.\<close>

abbreviation codes :: "('h \<Rightarrow> nat \<Rightarrow> int) \<Rightarrow> 'h handlers" where
  "codes ret \<equiv> \<lambda>h arg. (ret h arg, [])"

interpretation wheel: deadline_table "rte_timer_tick_cb (codes ret)" "\<lambda>s dl. wheel_repr s dl \<and> unlocked s"
  "fire (codes ret)" ts_trace for ret
proof unfold_locales
  fix s :: "'a timer_scheduler" and dl
  assume w: "wheel_repr s dl \<and> unlocked s"
  have q: "quiet (codes ret)"
    by (simp add: quiet_def)
  obtain s' where s': "rte_timer_tick_cb (codes ret) s = Some s'" "ticked (codes ret) s dl s'" "unlocked s'"
    using tick_refines [OF _ _ q] w by blast
  obtain fs where fs: "ts_trace s' = ts_trace s @ fs" "distinct fs" "set fs = {t. dl t = Some 1}"
    using s'(2) by (auto simp: ticked_def)
  have "wheel_repr s' (\<lambda>t. case dl t of None \<Rightarrow> None | Some k \<Rightarrow> if k \<le> 1 then fire (codes ret) s t else Some (k - 1))"
    using s'(2) by (simp add: ticked_def tick_spec_def [abs_def])
  moreover have "fire (codes ret) s' = fire (codes ret) s"
    using s'(2) by (auto simp: ticked_def fun_eq_iff intro: fire_params)
  ultimately show "\<exists>s' fs. rte_timer_tick_cb (codes ret) s = Some s' \<and>
      (wheel_repr s' (\<lambda>t. case dl t of None \<Rightarrow> None | Some k \<Rightarrow> if k \<le> 1 then fire (codes ret) s t else Some (k - 1)) \<and>
       unlocked s') \<and>
      fire (codes ret) s' = fire (codes ret) s \<and> ts_trace s' = ts_trace s @ fs \<and> distinct fs \<and> set fs = {t. dl t = Some 1}"
    using s'(1,3) fs by blast
next
  fix s :: "'a timer_scheduler" and dl t k
  assume w: "wheel_repr s dl \<and> unlocked s"
  then show "dl t = Some k \<Longrightarrow> 0 < k"
    using deadline_pos by blast
  show "dl t \<noteq> None \<Longrightarrow> fire (codes ret) s t \<noteq> Some 0"
    using w fire_not_zero [of _ s dl t s] by (auto simp: wheel_repr_def)
qed

section \<open>Properties\<close>

text \<open>The scheduler before its start: zeroed memory.\<close>

definition ndf_timer_zero :: "'h ndf_timer" where
  "ndf_timer_zero = \<lparr>tm_linked = False, tm_handler = None, tm_priv = 0, tm_period = False, tm_delay = 0, tm_left = 0\<rparr>"

definition sched_zero :: "bool \<Rightarrow> 'h timer_scheduler" where
  "sched_zero g = \<lparr>ts_global = g, ts_lock = False, ts_cursors = [0, 0], ts_hashs = (\<lambda>_ _. []),
     ts_timers = (\<lambda>_. ndf_timer_zero), ts_trace = []\<rparr>"

lemma sched_zero_repr: "wheel_repr (sched_zero g) (\<lambda>_. None) \<and> unlocked (sched_zero g)"
  by (simp add: wheel_repr_def repr_def entry_ok_def cursors_ok_def at_rest_def cur_slot_def unlocked_def
      sched_zero_def ndf_timer_zero_def)

lemma started_repr:
  assumes "mem 0" "mem 1"
  shows "timer_init_scheduler mem True (sched_zero g) = (ENDF_OK, sched_zero g)"
  using assms by (simp add: timer_init_scheduler_def LEVEL_DEPTH_def numeral_2_eq_2 sched_zero_def fun_upd_def fun_eq_iff cong: if_cong)

lemma sched_locked_repr:
  assumes w: "wheel_repr s dl" "unlocked s" "dl t = None"
    and k: "ndf_timeval_to_ticks delay = Some ticks" "ticks < TIMER_MAX_TICKS"
  shows "\<exists>s'. with_lock s (\<lambda>s. ndf_timer_sched_core s t delay h arg period) = Some (ENDF_OK, s') \<and>
    wheel_repr s' (dl(t \<mapsto> unat (tick_count ticks))) \<and> unlocked s' \<and> ts_trace s' = ts_trace s \<and>
    tm_params (ts_tm s' t) = (Some h, arg, period, tick_count ticks)"
proof -
  let ?s0 = "s\<lparr>ts_lock := (ts_global s \<or> ts_lock s)\<rparr>" and ?b = "unat (ts_cursors s ! 1)"
  have lk: "timer_sched_lock s = Some ?s0"
    using w(2) by (cases "ts_global s") (auto simp: timer_sched_lock_def unlocked_def)
  have w0: "wheel_repr ?s0 dl"
    using w(1) by (rule wheel_repr_lock)
  then have "repr ?b ?s0 dl"
    by (simp add: wheel_repr_def)
  then obtain s1 where s1: "ndf_timer_sched_core ?s0 t delay h arg period = Some (ENDF_OK, s1)"
      "repr ?b s1 (dl(t \<mapsto> unat (tick_count ticks)))" "same_slots ?s0 s1 t"
      "tm_params (ts_tm s1 t) = (Some h, arg, period, tick_count ticks)"
    using sched_core_repr [of ?b ?s0 dl t delay ticks h arg period] w(3) k by auto
  have "wheel_repr s1 (dl(t \<mapsto> unat (tick_count ticks)))"
    using s1(2,3) w0 by (simp add: wheel_repr_def at_rest_def cur_slot_def same_slots_def)
  then have "wheel_repr (timer_sched_unlock s1) (dl(t \<mapsto> unat (tick_count ticks)))"
    by (simp add: timer_sched_unlock_def wheel_repr_lock)
  then show ?thesis
    using lk s1 by (auto simp: with_lock_def timer_sched_unlock_def unlocked_def same_slots_def)
qed

lemma unlink_locked_repr:
  assumes "wheel_repr s dl" "unlocked s"
  shows "\<exists>s'. with_lock s (\<lambda>s. Some (ENDF_OK, unlink_pending t s)) = Some (ENDF_OK, s') \<and>
    wheel_repr s' (dl(t := None)) \<and> unlocked s' \<and> ts_trace s' = ts_trace s"
proof -
  let ?s0 = "s\<lparr>ts_lock := (ts_global s \<or> ts_lock s)\<rparr>"
  have lk: "timer_sched_lock s = Some ?s0"
    using assms(2) by (cases "ts_global s") (auto simp: timer_sched_lock_def unlocked_def)
  have "wheel_repr ?s0 dl"
    using assms(1) by (rule wheel_repr_lock)
  then have "repr (unat (ts_cursors s ! 1)) (unlink_pending t ?s0) (dl(t := None))" "at_rest (unlink_pending t ?s0)"
    using unlink_pending_repr [of _ ?s0 dl t]
    by (auto simp: wheel_repr_def at_rest_def cur_slot_def unlink_pending_def)
  then have "wheel_repr (unlink_pending t ?s0) (dl(t := None))"
    by (auto simp: wheel_repr_def unlink_pending_def)
  then show ?thesis
    using lk by (auto simp: with_lock_def timer_sched_unlock_def unlocked_def unlink_pending_def wheel_repr_lock)
qed



text \<open>A timer scheduled while it is not pending is accepted. Its handler runs for the first time after
  exactly its delay in ticks (one tick for a delay of zero), neither earlier nor later; a one-shot timer, or
  a periodic one whose handler asks to stop, then never again, and a periodic one once per interval.\<close>

theorem timer_fires_on_schedule:
  assumes "wheel_repr s dl" "unlocked s" "dl t = None" "tv_sec delay < TIMER_MAX_SECS"
    and "ndf_timeval_to_ticks delay = Some ticks" "ticks < TIMER_MAX_TICKS"
  shows "\<exists>s1 s2 fs.
    (if period then ndf_timer_sched_period else ndf_timer_sched) (Some s) (Some t) (Some delay) (Some h) arg =
      Some (ENDF_OK, Some s1) \<and>
    run_ops (\<lambda>_. rte_timer_tick_cb (codes ret)) (replicate n ()) s1 = Some s2 \<and> ts_trace s2 = ts_trace s @ fs \<and>
    count_list fs t = (let d = unat (if ticks = 0 then 1 else ticks) in
      if n < d then 0 else if period \<and> ret h arg = NDTIMER_OK then n div d else 1)"
proof -
  let ?d = "unat (tick_count ticks)"
  obtain s1 where s1: "with_lock s (\<lambda>s. ndf_timer_sched_core s t delay h arg period) = Some (ENDF_OK, s1)"
      "wheel_repr s1 (dl(t \<mapsto> ?d))" "unlocked s1" "ts_trace s1 = ts_trace s"
      "tm_params (ts_tm s1 t) = (Some h, arg, period, tick_count ticks)"
    using sched_locked_repr [OF assms(1-3,5,6), of h arg period] by blast
  have f: "fire (codes ret) s1 t = (if period \<and> ret h arg = 0 then Some ?d else None)"
    using s1(5) by (simp add: fire_def tm_params_def)
  obtain s2 fs where s2: "run_ops (\<lambda>_. rte_timer_tick_cb (codes ret)) (replicate n ()) s1 = Some s2"
      "ts_trace s2 = ts_trace s1 @ fs" "count_list fs t = firings (Some ?d) (fire (codes ret) s1 t) n"
    using wheel.fires_on_schedule [of s1 "dl(t \<mapsto> ?d)" ret n] s1(2,3) by fastforce
  have "0 < ?d"
    by (simp add: tick_count_def unat_gt_0)
  then have "count_list fs t = (if n < ?d then 0 else if period \<and> ret h arg = 0 then n div ?d else 1)"
    using s2(3) f by (simp add: firings_def le_div_geq)
  then show ?thesis
    using s1 s2 assms(4)
    by (auto simp: ndf_timer_sched_def ndf_timer_sched_period_def tick_count_def Let_def)
qed

text \<open>A delay of 600 s, more than a turn of the first wheel.\<close>

lemma ten_minutes: "ndf_timeval_to_ticks \<lparr>tv_sec = 600, tv_usec = 0\<rparr> = Some 600000"
  by (simp add: ndf_timeval_to_ticks_def NDF_TIMER_HZ_def long_ok_def TIMER_MAX_TICKS_def signed_divide_int_def Let_def)

theorem timer_fires_on_schedule_witness:
  "\<exists>s1 s2 fs. ndf_timer_sched (Some (sched_zero True)) (Some 7) (Some \<lparr>tv_sec = 600, tv_usec = 0\<rparr>) (Some (0 :: nat)) 0 =
      Some (ENDF_OK, Some s1) \<and>
    run_ops (\<lambda>_. rte_timer_tick_cb (codes (\<lambda>h a. 0))) (replicate 600000 ()) s1 = Some s2 \<and>
    ts_trace s2 = fs \<and> count_list fs 7 = 1"
  using timer_fires_on_schedule [of "sched_zero True" "\<lambda>_. None" 7 "\<lparr>tv_sec = 600, tv_usec = 0\<rparr>" 600000 False "0 :: nat" 0
      "\<lambda>h a. 0" 600000] sched_zero_repr [of True] ten_minutes
  by (auto simp: TIMER_MAX_SECS_def TIMER_MAX_TICKS_def sched_zero_def)

text \<open>A cancelled timer never fires, and cancelling it leaves the deadlines of all others as they were.\<close>

theorem cancelled_timer_never_fires:
  assumes "wheel_repr s dl" "unlocked s"
  shows "\<exists>s1 s2 fs. ndf_timer_cancel (Some s) (Some t) = Some (ENDF_OK, Some s1) \<and> wheel_repr s1 (dl(t := None)) \<and>
    run_ops (\<lambda>_. rte_timer_tick_cb (codes ret)) (replicate n ()) s1 = Some s2 \<and> ts_trace s2 = ts_trace s @ fs \<and>
    t \<notin> set fs"
proof -
  obtain s1 where s1: "with_lock s (\<lambda>s. Some (ENDF_OK, unlink_pending t s)) = Some (ENDF_OK, s1)"
      "wheel_repr s1 (dl(t := None))" "unlocked s1" "ts_trace s1 = ts_trace s"
    using unlink_locked_repr [OF assms] by blast
  obtain s2 fs where s2: "run_ops (\<lambda>_. rte_timer_tick_cb (codes ret)) (replicate n ()) s1 = Some s2"
      "ts_trace s2 = ts_trace s1 @ fs" "count_list fs t = firings None (fire (codes ret) s1 t) n"
    using wheel.fires_on_schedule [of s1 "dl(t := None)" ret n] s1(2,3) by fastforce
  then show ?thesis
    using s1 by (auto simp: ndf_timer_cancel_def firings_def count_list_0_iff)
qed

theorem cancelled_timer_never_fires_witness:
  "\<exists>s1 s2 fs. ndf_timer_cancel (Some (sched_zero False :: nat timer_scheduler)) (Some 3) = Some (ENDF_OK, Some s1) \<and>
    run_ops (\<lambda>_. rte_timer_tick_cb (codes (\<lambda>h a. 0))) (replicate 5 ()) s1 = Some s2 \<and> ts_trace s2 = fs \<and> 3 \<notin> set fs"
  using cancelled_timer_never_fires [of "sched_zero False" "\<lambda>_. None" 3 "\<lambda>h a. 0" 5] sched_zero_repr [of False]
  by (auto simp: sched_zero_def)

text \<open>A number of ticks converted to a time and back is unchanged, over the whole range of the type; the
  rescheduling of periodic timers and \<^verbatim>\<open>ndf_timer_reset\<close> rely on it.\<close>

theorem ticks_timeval_roundtrip: "ndf_timeval_to_ticks (ndf_ticks_to_timeval t) = Some t"
  by (rule ticks_back)

text \<open>The scheduler one tick before the first wheel has made a whole turn.\<close>

definition before_wrap :: "nat timer_scheduler" where
  "before_wrap = (sched_zero True)\<lparr>ts_cursors := [524287, 0]\<rparr>"

text \<open>Timer 1 is due at the next tick; its handler schedules timer 2 in 524288 ticks (524.288 s).\<close>

definition long_rearm :: "nat handlers" where
  "long_rearm h arg = (if h = 1 then (1, [CallSched False 2 \<lparr>tv_sec = 524, tv_usec = 288000\<rparr> 2 0]) else (1, []))"

text \<open>While the first wheel wraps, handlers of its slot 0 run before the cursor of the second wheel has
  moved. A timer of a whole turn that such a handler schedules is put into the slot that the second wheel
  reaches in the same tick, and fires at once instead of 524 s later.\<close>

theorem handler_timer_fires_early:
  "map_option ts_trace (Option.bind
      (ndf_timer_sched (Some before_wrap) (Some 1) (Some \<lparr>tv_sec = 0, tv_usec = 1000\<rparr>) (Some 1) 0)
      (\<lambda>(r, s). Option.bind s (rte_timer_tick_cb long_rearm))) = Some [1, 2]"
  by code_simp

text \<open>A handler of a global timer that calls a locking function of this module, here the one that
  cancels, never returns: the tick handler holds the lock while it runs the handlers.\<close>

theorem locking_call_in_handler_deadlocks:
  "Option.bind (ndf_timer_sched (Some (sched_zero True)) (Some 1) (Some \<lparr>tv_sec = 0, tv_usec = 1000\<rparr>) (Some (1 :: nat)) 0)
      (\<lambda>(r, s). Option.bind s (rte_timer_tick_cb (\<lambda>h arg. (1, [CallCancel True 1])))) = None \<and>
   Option.bind (ndf_timer_sched (Some (sched_zero True)) (Some 1) (Some \<lparr>tv_sec = 0, tv_usec = 1000\<rparr>) (Some (1 :: nat)) 0)
      (\<lambda>(r, s). Option.bind s (rte_timer_tick_cb (\<lambda>h arg. (1, [CallCancel False 1])))) \<noteq> None"
  by code_simp
end
