(* ===== verification/Intrusive_List.thy ===== *)
theory Intrusive_List
  imports Ndf_Prelude
begin

text \<open>
  The intrusive lists of \<^verbatim>\<open>list.h\<close> on a heap. A node is an address; the two fields of a \<^verbatim>\<open>struct list_head\<close> are two
  partial maps from addresses to addresses, and reading or writing a node outside their domain is undefined. The circular
  list at a head is described by the sequence of its members, and every operation refines an operation on sequences.
\<close>

section \<open>Nodes\<close>

record list_heap =
  nx :: "nat \<rightharpoonup> nat"
  pv :: "nat \<rightharpoonup> nat"

definition LIST_POISON1 :: nat where "LIST_POISON1 = 0x100"
definition LIST_POISON2 :: nat where "LIST_POISON2 = 0x200"

definition set_next :: "nat \<Rightarrow> nat \<Rightarrow> list_heap \<Rightarrow> list_heap option" where
  "set_next a v h = (if a \<in> dom (nx h) then Some (h\<lparr>nx := (nx h)(a \<mapsto> v)\<rparr>) else None)"

definition set_prev :: "nat \<Rightarrow> nat \<Rightarrow> list_heap \<Rightarrow> list_heap option" where
  "set_prev a v h = (if a \<in> dom (pv h) then Some (h\<lparr>pv := (pv h)(a \<mapsto> v)\<rparr>) else None)"

section \<open>Operations\<close>

definition INIT_LIST_HEAD :: "nat \<Rightarrow> list_heap \<Rightarrow> list_heap option" where
  "INIT_LIST_HEAD l h = do { h1 \<leftarrow> set_next l l h; set_prev l l h1 }"

definition list_add_between :: "nat \<Rightarrow> nat \<Rightarrow> nat \<Rightarrow> list_heap \<Rightarrow> list_heap option" where
  "list_add_between new p n h = do {
     h1 \<leftarrow> set_prev n new h; h2 \<leftarrow> set_next new n h1; h3 \<leftarrow> set_prev new p h2; set_next p new h3 }"

definition list_add :: "nat \<Rightarrow> nat \<Rightarrow> list_heap \<Rightarrow> list_heap option" where
  "list_add new head h = do { n \<leftarrow> nx h head; list_add_between new head n h }"

definition list_add_tail :: "nat \<Rightarrow> nat \<Rightarrow> list_heap \<Rightarrow> list_heap option" where
  "list_add_tail new head h = do { p \<leftarrow> pv h head; list_add_between new p head h }"

definition list_del_between :: "nat \<Rightarrow> nat \<Rightarrow> list_heap \<Rightarrow> list_heap option" where
  "list_del_between p n h = do { h1 \<leftarrow> set_prev n p h; set_next p n h1 }"

definition list_del_entry :: "nat \<Rightarrow> list_heap \<Rightarrow> list_heap option" where
  "list_del_entry e h = do { p \<leftarrow> pv h e; n \<leftarrow> nx h e; list_del_between p n h }"

definition list_del :: "nat \<Rightarrow> list_heap \<Rightarrow> list_heap option" where
  "list_del e h = do { h1 \<leftarrow> list_del_entry e h; h2 \<leftarrow> set_next e LIST_POISON1 h1; set_prev e LIST_POISON2 h2 }"

definition list_replace :: "nat \<Rightarrow> nat \<Rightarrow> list_heap \<Rightarrow> list_heap option" where
  "list_replace old new h = do {
     n \<leftarrow> nx h old; h1 \<leftarrow> set_next new n h;
     n1 \<leftarrow> nx h1 new; h2 \<leftarrow> set_prev n1 new h1;
     p \<leftarrow> pv h2 old; h3 \<leftarrow> set_prev new p h2;
     p1 \<leftarrow> pv h3 new; set_next p1 new h3 }"

definition list_replace_init :: "nat \<Rightarrow> nat \<Rightarrow> list_heap \<Rightarrow> list_heap option" where
  "list_replace_init old new h = do { h1 \<leftarrow> list_replace old new h; INIT_LIST_HEAD old h1 }"

definition list_del_init :: "nat \<Rightarrow> list_heap \<Rightarrow> list_heap option" where
  "list_del_init e h = do { h1 \<leftarrow> list_del_entry e h; INIT_LIST_HEAD e h1 }"

definition list_move :: "nat \<Rightarrow> nat \<Rightarrow> list_heap \<Rightarrow> list_heap option" where
  "list_move l head h = do { h1 \<leftarrow> list_del_entry l h; list_add l head h1 }"

definition list_move_tail :: "nat \<Rightarrow> nat \<Rightarrow> list_heap \<Rightarrow> list_heap option" where
  "list_move_tail l head h = do { h1 \<leftarrow> list_del_entry l h; list_add_tail l head h1 }"

definition list_is_last :: "nat \<Rightarrow> nat \<Rightarrow> list_heap \<Rightarrow> bool option" where
  "list_is_last l head h = map_option (\<lambda>n. n = head) (nx h l)"

definition list_empty :: "nat \<Rightarrow> list_heap \<Rightarrow> bool option" where
  "list_empty head h = map_option (\<lambda>n. n = head) (nx h head)"

text \<open>The traversal \<^verbatim>\<open>list_for_each\<close> from \<open>a\<close>: the nodes it visits, if it ends.\<close>

partial_function (option) list_walk :: "(nat \<rightharpoonup> nat) \<Rightarrow> nat \<Rightarrow> nat \<Rightarrow> nat list option" where
  "list_walk f head a = (if a = head then Some [] else do { b \<leftarrow> f a; r \<leftarrow> list_walk f head b; Some (a # r) })"

definition list_for_each :: "nat \<Rightarrow> list_heap \<Rightarrow> nat list option" where
  "list_for_each head h = do { a \<leftarrow> nx h head; list_walk (nx h) head a }"

definition list_for_each_prev :: "nat \<Rightarrow> list_heap \<Rightarrow> nat list option" where
  "list_for_each_prev head h = do { a \<leftarrow> pv h head; list_walk (pv h) head a }"

definition list_elems :: "nat \<Rightarrow> list_heap \<Rightarrow> nat option" where
  "list_elems head h = map_option length (list_for_each head h)"

definition list_empty_careful :: "nat \<Rightarrow> list_heap \<Rightarrow> bool option" where
  "list_empty_careful head h = do { n \<leftarrow> nx h head; p \<leftarrow> pv h head; Some (n = head \<and> n = p) }"

definition list_rotate_left :: "nat \<Rightarrow> list_heap \<Rightarrow> list_heap option" where
  "list_rotate_left head h = do {
     e \<leftarrow> list_empty head h;
     if e then Some h else do { first \<leftarrow> nx h head; list_move_tail first head h } }"

definition list_is_singular :: "nat \<Rightarrow> list_heap \<Rightarrow> bool option" where
  "list_is_singular head h = do { e \<leftarrow> list_empty head h; n \<leftarrow> nx h head; p \<leftarrow> pv h head; Some (\<not> e \<and> n = p) }"

definition list_cut_between :: "nat \<Rightarrow> nat \<Rightarrow> nat \<Rightarrow> list_heap \<Rightarrow> list_heap option" where
  "list_cut_between l head e h = do {
     new_first \<leftarrow> nx h e;
     n \<leftarrow> nx h head; h1 \<leftarrow> set_next l n h;
     h2 \<leftarrow> set_prev n l h1;
     h3 \<leftarrow> set_prev l e h2; h4 \<leftarrow> set_next e l h3;
     h5 \<leftarrow> set_next head new_first h4; set_prev new_first head h5 }"

definition list_cut_position :: "nat \<Rightarrow> nat \<Rightarrow> nat \<Rightarrow> list_heap \<Rightarrow> list_heap option" where
  "list_cut_position l head e h = do {
     em \<leftarrow> list_empty head h;
     if em then Some h
     else do {
       s \<leftarrow> list_is_singular head h;
       n \<leftarrow> nx h head;
       if s \<and> n \<noteq> e \<and> head \<noteq> e then Some h
       else if e = head then INIT_LIST_HEAD l h
       else list_cut_between l head e h } }"

definition list_splice_between :: "nat \<Rightarrow> nat \<Rightarrow> nat \<Rightarrow> list_heap \<Rightarrow> list_heap option" where
  "list_splice_between l p n h = do {
     first \<leftarrow> nx h l; last \<leftarrow> pv h l;
     h1 \<leftarrow> set_prev first p h; h2 \<leftarrow> set_next p first h1;
     h3 \<leftarrow> set_next last n h2; set_prev n last h3 }"

definition list_splice :: "nat \<Rightarrow> nat \<Rightarrow> list_heap \<Rightarrow> list_heap option" where
  "list_splice l head h = do {
     e \<leftarrow> list_empty l h;
     if e then Some h else do { n \<leftarrow> nx h head; list_splice_between l head n h } }"

definition list_splice_tail :: "nat \<Rightarrow> nat \<Rightarrow> list_heap \<Rightarrow> list_heap option" where
  "list_splice_tail l head h = do {
     e \<leftarrow> list_empty l h;
     if e then Some h else do { p \<leftarrow> pv h head; list_splice_between l p head h } }"

definition list_splice_init :: "nat \<Rightarrow> nat \<Rightarrow> list_heap \<Rightarrow> list_heap option" where
  "list_splice_init l head h = do {
     e \<leftarrow> list_empty l h;
     if e then Some h else do { n \<leftarrow> nx h head; h1 \<leftarrow> list_splice_between l head n h; INIT_LIST_HEAD l h1 } }"

definition list_splice_tail_init :: "nat \<Rightarrow> nat \<Rightarrow> list_heap \<Rightarrow> list_heap option" where
  "list_splice_tail_init l head h = do {
     e \<leftarrow> list_empty l h;
     if e then Some h else do { p \<leftarrow> pv h head; h1 \<leftarrow> list_splice_between l p head h; INIT_LIST_HEAD l h1 } }"


section \<open>Circular lists\<close>

text \<open>Consecutive members of the sequence point at each other.\<close>

fun links :: "list_heap \<Rightarrow> nat list \<Rightarrow> bool" where
  "links h (a # b # r) \<longleftrightarrow> nx h a = Some b \<and> pv h b = Some a \<and> links h (b # r)"
| "links h _ \<longleftrightarrow> True"

definition dll :: "list_heap \<Rightarrow> nat \<Rightarrow> nat list \<Rightarrow> bool" where
  "dll h rt xs \<longleftrightarrow> distinct (rt # xs) \<and> links h (rt # xs @ [rt])"

text \<open>An allocated node, whatever its fields hold.\<close>

definition node :: "list_heap \<Rightarrow> nat \<Rightarrow> bool" where
  "node h a \<longleftrightarrow> a \<in> dom (nx h) \<and> a \<in> dom (pv h)"

lemma in_set_tlD: "x \<in> set (tl xs) \<Longrightarrow> x \<in> set xs"
  by (cases xs) auto

lemma links_append: "links h (xs @ a # ys) \<longleftrightarrow> links h (xs @ [a]) \<and> links h (a # ys)"
proof (induction xs)
  case (Cons x xs)
  then show ?case
    by (cases xs) auto
qed (cases ys; simp)

lemma links_cong:
  "\<forall>a \<in> set (butlast xs). nx h' a = nx h a \<Longrightarrow> \<forall>a \<in> set (tl xs). pv h' a = pv h a \<Longrightarrow> links h' xs = links h xs"
  by (induction h xs rule: links.induct) auto

lemma links_tl: "links h (a # r) \<Longrightarrow> links h r"
  by (cases r) auto

lemma links_node: "links h xs \<Longrightarrow> x \<in> set (butlast xs) \<Longrightarrow> x \<in> dom (nx h)" "links h xs \<Longrightarrow> x \<in> set (tl xs) \<Longrightarrow> x \<in> dom (pv h)"
  by (induction h xs rule: links.induct) (auto split: if_splits)

lemma dll_node: "dll h rt xs \<Longrightarrow> a \<in> set (rt # xs) \<Longrightarrow> node h a"
  using links_node [of h "rt # xs @ [rt]" a] by (auto simp: dll_def node_def butlast_append)

lemma dll_first: "dll h rt xs \<Longrightarrow> nx h rt = Some (case xs of [] \<Rightarrow> rt | x # _ \<Rightarrow> x)"
  by (cases xs) (auto simp: dll_def)

lemma dll_last: "dll h rt xs \<Longrightarrow> pv h rt = Some (last (rt # xs))"
proof (cases xs rule: rev_cases)
  case (snoc ys y)
  assume "dll h rt xs"
  then have "links h ((rt # ys) @ y # [rt])"
    by (simp add: dll_def snoc)
  then show ?thesis
    using links_append [of h "rt # ys" y "[rt]"] by (simp add: snoc)
qed (simp add: dll_def)

text \<open>Lists apart from the nodes that an operation writes stay as they are.\<close>

definition same_on :: "nat set \<Rightarrow> list_heap \<Rightarrow> list_heap \<Rightarrow> bool" where
  "same_on S h h' \<longleftrightarrow> (\<forall>a. a \<notin> S \<longrightarrow> nx h' a = nx h a \<and> pv h' a = pv h a)"

lemma links_same: "same_on S h h' \<Longrightarrow> set xs \<inter> S = {} \<Longrightarrow> links h' xs = links h xs"
  by (induction h xs rule: links.induct) (auto simp: same_on_def)

lemma dll_same: "same_on S h h' \<Longrightarrow> set (rt # xs) \<inter> S = {} \<Longrightarrow> dll h' rt xs = dll h rt xs"
  using links_same [of S h h' "rt # xs @ [rt]"] by (auto simp: dll_def)

lemma same_on_trans: "same_on S h1 h2 \<Longrightarrow> same_on T h2 h3 \<Longrightarrow> same_on (S \<union> T) h1 h3"
  by (simp add: same_on_def)

lemma same_on_mono: "same_on S h h' \<Longrightarrow> S \<subseteq> T \<Longrightarrow> same_on T h h'"
  by (auto simp: same_on_def)

section \<open>Insertion and removal\<close>

lemma add_between:
  assumes "links h (ls @ p # q # rs)" "new \<notin> set (ls @ p # q # rs)" "node h new" "node h p" "node h q"
    and "p \<notin> set ls" "p \<notin> set (butlast (q # rs))" "q \<notin> set (tl (ls @ [p]))" "q \<notin> set rs"
  shows "\<exists>h'. list_add_between new p q h = Some h' \<and> links h' (ls @ p # new # q # rs) \<and> same_on {p, q, new} h h'"
proof -
  let ?h = "h\<lparr>nx := (nx h)(new \<mapsto> q, p \<mapsto> new), pv := (pv h)(q \<mapsto> new, new \<mapsto> p)\<rparr>"
  have r: "list_add_between new p q h = Some ?h"
    using assms(3-5) by (auto simp: list_add_between_def set_prev_def set_next_def node_def)
  have l: "links h (ls @ [p])" "links h (q # rs)"
    using assms(1) by (simp_all add: links_append [of h ls p "q # rs"])
  have n: "new \<notin> set (butlast (ls @ [p]))" "new \<notin> set (tl (ls @ [p]))" "new \<notin> set (butlast (q # rs))" "new \<notin> set (tl (q # rs))"
    using assms(2) by (auto dest: in_set_butlastD in_set_tlD)
  have "links ?h (ls @ [p]) = links h (ls @ [p])" "links ?h (q # rs) = links h (q # rs)"
    by (rule links_cong; use n assms(6-9) in \<open>auto split: if_splits\<close>)+
  with l have "links ?h (ls @ [p])" "links ?h (q # rs)"
    by simp_all
  then show ?thesis
    using r assms(2) links_append [of ?h ls p "new # q # rs"] by (auto simp: same_on_def)
qed

lemma snoc_head:
  assumes "zs @ [rt] = q # rs" "distinct (rt # zs)"
  shows "q \<in> set (rt # zs)" "butlast (q # rs) = zs" "q \<notin> set rs" "q = (case zs of [] \<Rightarrow> rt | z # _ \<Rightarrow> z)"
proof -
  show "butlast (q # rs) = zs"
    by (simp only: assms(1) [symmetric] butlast_snoc)
  show "q \<in> set (rt # zs)" "q \<notin> set rs" "q = (case zs of [] \<Rightarrow> rt | z # _ \<Rightarrow> z)"
    using assms by (cases zs; auto)+
qed

lemma cons_last:
  assumes "rt # ys = ls @ [p]" "distinct (rt # ys)"
  shows "p \<in> set (rt # ys)" "tl (ls @ [p]) = ys" "p \<notin> set ls" "p = last (rt # ys)"
proof -
  show "tl (ls @ [p]) = ys"
    by (simp only: assms(1) [symmetric] list.sel)
  show "p = last (rt # ys)"
    by (simp only: assms(1) last_snoc)
  show "p \<in> set (rt # ys)" "p \<notin> set ls"
    using assms(2) unfolding assms(1) by simp_all
qed

lemma dll_cases:
  assumes "dll h rt (ys @ e # zs)"
  obtains ls p q rs where "rt # ys = ls @ [p]" "zs @ [rt] = q # rs" "links h (ls @ p # e # q # rs)" "p = last (rt # ys)" "q = hd (zs @ [rt])"
proof -
  obtain ls p where l: "rt # ys = ls @ [p]"
    by (cases "rt # ys" rule: rev_cases) auto
  obtain q rs where r: "zs @ [rt] = q # rs"
    by (cases "zs @ [rt]") auto
  have "links h ((rt # ys) @ e # (zs @ [rt]))"
    using assms by (simp add: dll_def)
  then show ?thesis
    using that [of ls p q rs] l r by (metis append_Cons append_Nil append_assoc last_snoc list.sel(1))
qed

lemma add_ok:
  assumes "dll h rt xs" "node h new" "new \<notin> set (rt # xs)"
  shows "\<exists>h'. list_add new rt h = Some h' \<and> dll h' rt (new # xs) \<and> same_on (set (rt # new # xs)) h h'"
proof -
  obtain q rs where r: "xs @ [rt] = q # rs"
    by (cases "xs @ [rt]") auto
  have d: "distinct (rt # xs)"
    using assms(1) by (simp add: dll_def)
  note q = snoc_head [OF r d]
  have qn: "nx h rt = Some q"
    using dll_first [OF assms(1)] q(4) by simp
  have "links h ([] @ rt # q # rs)" "node h rt" "node h q"
    using assms(1) q(1) dll_node [OF assms(1)] r by (simp_all add: dll_def)
  moreover have "set (rt # q # rs) = set (rt # xs)"
    unfolding r [symmetric] by auto
  then have "new \<notin> set ([] @ rt # q # rs)"
    using assms(3) by simp
  moreover have "rt \<notin> set (butlast (q # rs))"
    using d unfolding q(2) by simp
  ultimately obtain h' where h': "list_add_between new rt q h = Some h'" "links h' ([] @ rt # new # q # rs)" "same_on {rt, q, new} h h'"
    using add_between [of h "[]" rt q rs new] assms(2) q(3) by auto
  have "same_on (set (rt # new # xs)) h h'"
    by (rule same_on_mono [OF h'(3)]) (use q(1) in auto)
  then show ?thesis
    using assms h' qn r by (auto simp: list_add_def dll_def)
qed

lemma add_tail_ok:
  assumes "dll h rt xs" "node h new" "new \<notin> set (rt # xs)"
  shows "\<exists>h'. list_add_tail new rt h = Some h' \<and> dll h' rt (xs @ [new]) \<and> same_on (set (rt # new # xs)) h h'"
proof -
  obtain ls p where l: "rt # xs = ls @ [p]"
    by (cases "rt # xs" rule: rev_cases) auto
  have d: "distinct (rt # xs)" "links h ((rt # xs) @ [rt])"
    using assms(1) by (simp_all add: dll_def)
  note p = cons_last [OF l d(1)]
  have lk: "links h (ls @ p # rt # [])"
    using d(2) unfolding l by simp
  have pp: "pv h rt = Some p"
    using dll_last [OF assms(1)] p(4) by simp
  have "node h rt" "node h p"
    using dll_node [OF assms(1)] p(1) by simp_all
  moreover have "new \<notin> set (ls @ p # rt # [])"
    using assms(3) arg_cong [OF l, of set] by auto
  moreover have "rt \<notin> set (tl (ls @ [p]))"
    using d(1) unfolding p(2) by simp
  ultimately obtain h' where h': "list_add_between new p rt h = Some h'" "links h' (ls @ p # new # rt # [])" "same_on {p, rt, new} h h'"
    using add_between [OF lk, of new] assms(2) p(3) by auto
  have "links h' ((ls @ [p]) @ [new, rt])"
    using h'(2) by simp
  then have "links h' (rt # (xs @ [new]) @ [rt])"
    unfolding l [symmetric] by simp
  moreover have "same_on (set (rt # new # xs)) h h'"
    by (rule same_on_mono [OF h'(3)]) (use p(1) in auto)
  ultimately show ?thesis
    using assms pp h'(1) by (auto simp: list_add_tail_def dll_def)
qed

lemma del_between:
  assumes "links h (ls @ p # e # q # rs)" "node h p" "node h q"
    and "p \<notin> set ls" "p \<notin> set (butlast (q # rs))" "q \<notin> set (tl (ls @ [p]))" "q \<notin> set rs"
  shows "\<exists>h'. list_del_between p q h = Some h' \<and> links h' (ls @ p # q # rs) \<and> same_on {p, q} h h'"
proof -
  let ?h = "h\<lparr>nx := (nx h)(p \<mapsto> q), pv := (pv h)(q \<mapsto> p)\<rparr>"
  have r: "list_del_between p q h = Some ?h"
    using assms(2,3) by (auto simp: list_del_between_def set_prev_def set_next_def node_def)
  have l: "links h (ls @ [p])" "links h (q # rs)"
    using assms(1) by (simp_all add: links_append [of h ls p "e # q # rs"])
  have "links ?h (ls @ [p]) = links h (ls @ [p])" "links ?h (q # rs) = links h (q # rs)"
    by (rule links_cong; use assms(4-7) in \<open>auto split: if_splits\<close>)+
  with l have "links ?h (ls @ [p])" "links ?h (q # rs)"
    by simp_all
  then show ?thesis
    using r links_append [of ?h ls p "q # rs"] by (auto simp: same_on_def)
qed

text \<open>Taking a member out leaves it allocated and out of the list.\<close>

lemma del_entry_ok:
  assumes "dll h rt (ys @ e # zs)"
  shows "\<exists>h'. list_del_entry e h = Some h' \<and> dll h' rt (ys @ zs) \<and> node h' e \<and> same_on (set (rt # ys @ zs)) h h'"
proof -
  obtain ls p q rs where c: "rt # ys = ls @ [p]" "zs @ [rt] = q # rs" "links h (ls @ p # e # q # rs)" "p = last (rt # ys)" "q = hd (zs @ [rt])"
    by (rule dll_cases [OF assms])
  have pq: "pv h e = Some p" "nx h e = Some q"
    using c(3) links_append [of h ls p "e # q # rs"] by simp_all
  have d: "distinct (rt # ys)" "distinct (rt # zs)"
    using assms by (auto simp: dll_def)
  note p = cons_last [OF c(1) d(1)] and q = snoc_head [OF c(2) d(2)]
  have n: "node h p" "node h q" "node h e"
    using dll_node [OF assms] p(1) q(1) by auto
  have ne: "p \<notin> set ls" "p \<notin> set (butlast (q # rs))" "q \<notin> set (tl (ls @ [p]))" "q \<notin> set rs"
    using assms p(1,3) q(1,3) unfolding p(2) q(2) by (auto simp: dll_def)
  obtain h' where h': "list_del_between p q h = Some h'" "links h' (ls @ p # q # rs)" "same_on {p, q} h h'"
    using del_between [OF c(3) n(1,2) ne] by blast
  have "links h' ((ls @ [p]) @ (q # rs))"
    using h'(2) by simp
  then have "links h' (rt # (ys @ zs) @ [rt])"
    unfolding c(1,2) [symmetric] by simp
  moreover have "e \<notin> {p, q}"
    using assms p(1) q(1) by (auto simp: dll_def)
  moreover have "same_on (set (rt # ys @ zs)) h h'"
    by (rule same_on_mono [OF h'(3)]) (use p(1) q(1) in auto)
  ultimately show ?thesis
    using assms h'(1,3) pq n(3) by (auto simp: list_del_entry_def dll_def node_def same_on_def)
qed

lemma init_ok:
  assumes "node h l"
  shows "\<exists>h'. INIT_LIST_HEAD l h = Some h' \<and> dll h' l [] \<and> same_on {l} h h'"
  using assms by (auto simp: INIT_LIST_HEAD_def set_next_def set_prev_def node_def dll_def same_on_def)

lemma del_ok:
  assumes "dll h rt (ys @ e # zs)"
  shows "\<exists>h'. list_del e h = Some h' \<and> dll h' rt (ys @ zs) \<and> node h' e \<and> same_on (set (rt # ys @ e # zs)) h h'"
proof -
  obtain h1 where h1: "list_del_entry e h = Some h1" "dll h1 rt (ys @ zs)" "node h1 e" "same_on (set (rt # ys @ zs)) h h1"
    using del_entry_ok [OF assms] by blast
  let ?h = "h1\<lparr>nx := (nx h1)(e \<mapsto> LIST_POISON1), pv := (pv h1)(e \<mapsto> LIST_POISON2)\<rparr>"
  have s: "same_on {e} h1 ?h" "e \<notin> set (rt # ys @ zs)"
    using assms by (auto simp: same_on_def dll_def)
  have "list_del e h = Some ?h"
    using h1 by (auto simp: list_del_def set_next_def set_prev_def node_def)
  moreover have "dll ?h rt (ys @ zs)"
    using dll_same [OF s(1), of rt "ys @ zs"] s(2) h1(2) by simp
  moreover have "same_on (set (rt # ys @ e # zs)) h ?h"
    using same_on_mono [OF same_on_trans [OF h1(4) s(1)], of "set (rt # ys @ e # zs)"] by auto
  moreover have "node ?h e"
    by (simp add: node_def)
  ultimately show ?thesis
    by blast
qed

lemma del_init_ok:
  assumes "dll h rt (ys @ e # zs)"
  shows "\<exists>h'. list_del_init e h = Some h' \<and> dll h' rt (ys @ zs) \<and> dll h' e [] \<and> same_on (set (rt # ys @ e # zs)) h h'"
proof -
  obtain h1 where h1: "list_del_entry e h = Some h1" "dll h1 rt (ys @ zs)" "node h1 e" "same_on (set (rt # ys @ zs)) h h1"
    using del_entry_ok [OF assms] by blast
  obtain h2 where h2: "INIT_LIST_HEAD e h1 = Some h2" "dll h2 e []" "same_on {e} h1 h2"
    using init_ok [OF h1(3)] by blast
  have "e \<notin> set (rt # ys @ zs)"
    using assms by (auto simp: dll_def)
  then have "dll h2 rt (ys @ zs)"
    using dll_same [OF h2(3), of rt "ys @ zs"] h1(2) by simp
  moreover have "same_on (set (rt # ys @ e # zs)) h h2"
    using same_on_mono [OF same_on_trans [OF h1(4) h2(3)], of "set (rt # ys @ e # zs)"] by auto
  ultimately show ?thesis
    using h1(1) h2(1,2) by (auto simp: list_del_init_def)
qed

lemma move_ok:
  assumes "dll h rt (ys @ e # zs)"
  shows "\<exists>h'. list_move e rt h = Some h' \<and> dll h' rt (e # ys @ zs) \<and> same_on (set (rt # ys @ e # zs)) h h'"
    and "\<exists>h'. list_move_tail e rt h = Some h' \<and> dll h' rt ((ys @ zs) @ [e]) \<and> same_on (set (rt # ys @ e # zs)) h h'"
proof -
  obtain h1 where h1: "list_del_entry e h = Some h1" "dll h1 rt (ys @ zs)" "node h1 e" "same_on (set (rt # ys @ zs)) h h1"
    using del_entry_ok [OF assms] by blast
  have e: "e \<notin> set (rt # ys @ zs)"
    using assms by (auto simp: dll_def)
  have s: "same_on (set (rt # ys @ e # zs)) h h2" if "same_on (set (rt # e # ys @ zs)) h1 h2" for h2
    using same_on_mono [OF same_on_trans [OF h1(4) that], of "set (rt # ys @ e # zs)"] by auto
  show "\<exists>h'. list_move e rt h = Some h' \<and> dll h' rt (e # ys @ zs) \<and> same_on (set (rt # ys @ e # zs)) h h'"
    using add_ok [OF h1(2,3) e] h1(1) s by (auto simp: list_move_def)
  show "\<exists>h'. list_move_tail e rt h = Some h' \<and> dll h' rt ((ys @ zs) @ [e]) \<and> same_on (set (rt # ys @ e # zs)) h h'"
    using add_tail_ok [OF h1(2,3) e] h1(1) s by (auto simp: list_move_tail_def)
qed

lemma replace_ok:
  assumes "dll h rt (ys @ old # zs)" "node h new" "new \<notin> set (rt # ys @ old # zs)"
  shows "\<exists>h'. list_replace old new h = Some h' \<and> dll h' rt (ys @ new # zs) \<and> same_on (set (new # rt # ys @ zs)) h h'"
proof -
  obtain ls p q rs where c: "rt # ys = ls @ [p]" "zs @ [rt] = q # rs" "links h (ls @ p # old # q # rs)" "p = last (rt # ys)" "q = hd (zs @ [rt])"
    by (rule dll_cases [OF assms(1)])
  have pq: "pv h old = Some p" "nx h old = Some q"
    using c(3) links_append [of h ls p "old # q # rs"] by simp_all
  have d: "distinct (rt # ys)" "distinct (rt # zs)"
    using assms(1) by (auto simp: dll_def)
  note p = cons_last [OF c(1) d(1)] and q = snoc_head [OF c(2) d(2)]
  have n: "node h p" "node h q" "node h old"
    using dll_node [OF assms(1)] p(1) q(1) by auto
  have ne: "p \<notin> set (butlast (q # rs))" "q \<notin> set (tl (ls @ [p]))" "old \<noteq> q" "old \<noteq> p" "new \<noteq> p" "new \<noteq> q" "new \<noteq> old"
    using assms(1,3) p(1,3) q(1,3) unfolding p(2) q(2) by (auto simp: dll_def)
  let ?h = "h\<lparr>nx := (nx h)(new \<mapsto> q, p \<mapsto> new), pv := (pv h)(q \<mapsto> new, new \<mapsto> p)\<rparr>"
  have r: "list_replace old new h = Some ?h"
    using assms(2) n pq ne by (auto simp: list_replace_def set_prev_def set_next_def node_def fun_upd_twist)
  have l: "links h (ls @ [p])" "links h (q # rs)"
    using c(3) by (simp_all add: links_append [of h ls p "old # q # rs"])
  have nw: "new \<notin> set (rt # ys)" "new \<notin> set (zs @ [rt])"
    using assms(3) by auto
  have nn: "new \<notin> set (butlast (ls @ [p]))" "new \<notin> set (tl (ls @ [p]))" "new \<notin> set (butlast (q # rs))" "new \<notin> set (tl (q # rs))"
    using nw unfolding c(1,2) by (auto dest: in_set_butlastD in_set_tlD)
  have "links ?h (ls @ [p]) = links h (ls @ [p])" "links ?h (q # rs) = links h (q # rs)"
    by (rule links_cong; use nn ne p(3) q(3) in \<open>auto split: if_splits\<close>)+
  with l have "links ?h (ls @ [p])" "links ?h (q # rs)"
    by simp_all
  then have "links ?h (ls @ p # new # q # rs)"
    using links_append [of ?h ls p "new # q # rs"] ne by auto
  then have "links ?h ((ls @ [p]) @ new # (q # rs))"
    by simp
  then have "links ?h (rt # (ys @ new # zs) @ [rt])"
    unfolding c(1,2) [symmetric] by simp
  moreover have "same_on {p, q, new} h ?h"
    by (auto simp: same_on_def)
  then have "same_on (set (new # rt # ys @ zs)) h ?h"
    by (rule same_on_mono) (use p(1) q(1) in auto)
  ultimately show ?thesis
    using r assms(1,3) by (auto simp: dll_def)
qed

section \<open>Traversal\<close>

lemma walk_links: "links h (a # r @ [rt]) \<Longrightarrow> rt \<notin> set (a # r) \<Longrightarrow> list_walk (nx h) rt a = Some (a # r)"
proof (induction r arbitrary: a)
  case Nil
  then show ?case
    by (simp add: list_walk.simps [of _ _ a] list_walk.simps [of _ rt rt])
next
  case (Cons b r)
  then show ?case
    by (simp add: list_walk.simps [of _ _ a])
qed

lemma walk_links_back: "links h (rt # r @ [a]) \<Longrightarrow> rt \<notin> set (a # r) \<Longrightarrow> list_walk (pv h) rt a = Some (a # rev r)"
proof (induction r arbitrary: a rule: rev_induct)
  case Nil
  then show ?case
    by (simp add: list_walk.simps [of _ _ a] list_walk.simps [of _ rt rt])
next
  case (snoc b r)
  have "links h ((rt # r) @ b # [a])"
    using snoc.prems(1) by simp
  then have "links h (rt # r @ [b])" "pv h a = Some b"
    using links_append [of h "rt # r" b "[a]"] by simp_all
  then show ?case
    using snoc.IH [of b] snoc.prems(2) by (simp add: list_walk.simps [of _ _ a])
qed

lemma for_each_ok:
  assumes "dll h rt xs"
  shows "list_for_each rt h = Some xs" "list_for_each_prev rt h = Some (rev xs)" "list_elems rt h = Some (length xs)"
proof -
  show f: "list_for_each rt h = Some xs"
  proof (cases xs)
    case Nil
    then show ?thesis
      using assms by (simp add: list_for_each_def dll_def list_walk.simps [of _ rt rt])
  next
    case (Cons a r)
    then show ?thesis
      using assms walk_links [of h a r rt] by (simp add: list_for_each_def dll_def)
  qed
  show "list_for_each_prev rt h = Some (rev xs)"
  proof (cases xs rule: rev_cases)
    case Nil
    then show ?thesis
      using assms by (simp add: list_for_each_prev_def dll_def list_walk.simps [of _ rt rt])
  next
    case (snoc r a)
    have "links h ((rt # r) @ a # [rt])"
      using assms by (simp add: dll_def snoc)
    then have "links h (rt # r @ [a])" "pv h rt = Some a"
      using links_append [of h "rt # r" a "[rt]"] by simp_all
    then show ?thesis
      using assms walk_links_back [of h rt r a] by (simp add: list_for_each_prev_def dll_def snoc)
  qed
  show "list_elems rt h = Some (length xs)"
    by (simp add: list_elems_def f)
qed

lemma tests_ok:
  assumes "dll h rt xs"
  shows "list_empty rt h = Some (xs = [])" "list_empty_careful rt h = Some (xs = [])" "list_is_singular rt h = Some (length xs = 1)"
    and "xs = ys @ e # zs \<Longrightarrow> list_is_last e rt h = Some (zs = [])"
proof -
  have d: "distinct (rt # xs)"
    using assms by (simp add: dll_def)
  note n = dll_first [OF assms] dll_last [OF assms]
  show "list_empty rt h = Some (xs = [])"
    using n d by (cases xs) (auto simp: list_empty_def)
  show "list_empty_careful rt h = Some (xs = [])"
    using n d by (cases xs) (auto simp: list_empty_careful_def)
  show "list_is_singular rt h = Some (length xs = 1)"
    using n d by (cases xs; cases "tl xs") (auto simp: list_is_singular_def list_empty_def split: if_splits)
  assume "xs = ys @ e # zs"
  with assms have "dll h rt (ys @ e # zs)"
    by simp
  then obtain ls p q rs where c: "rt # ys = ls @ [p]" "zs @ [rt] = q # rs" "links h (ls @ p # e # q # rs)" "p = last (rt # ys)" "q = hd (zs @ [rt])"
    by (rule dll_cases)
  have "nx h e = Some q"
    using c(3) links_append [of h ls p "e # q # rs"] by simp
  then show "list_is_last e rt h = Some (zs = [])"
    using c(5) d \<open>xs = ys @ e # zs\<close> by (cases zs) (auto simp: list_is_last_def)
qed

lemma rotate_ok:
  assumes "dll h rt xs"
  shows "\<exists>h'. list_rotate_left rt h = Some h' \<and> dll h' rt (rotate1 xs) \<and> same_on (set (rt # xs)) h h'"
proof (cases xs)
  case Nil
  then show ?thesis
    using assms tests_ok(1) [OF assms] by (simp add: list_rotate_left_def same_on_def)
next
  case (Cons a r)
  then show ?thesis
    using assms tests_ok(1) [OF assms] dll_first [OF assms] move_ok(2) [of h rt "[]" a r] by (simp add: list_rotate_left_def)
qed

section \<open>Joining and cutting\<close>

lemma splice_between:
  assumes "links h (ls @ p # q # rs)" "dll h l ys" "ys \<noteq> []" "set (l # ys) \<inter> set (ls @ p # q # rs) = {}" "node h p" "node h q"
    and "p \<notin> set ls" "p \<notin> set (butlast (q # rs))" "q \<notin> set (tl (ls @ [p]))" "q \<notin> set rs"
  shows "\<exists>h'. list_splice_between l p q h = Some h' \<and> links h' (ls @ p # ys @ q # rs) \<and> same_on (insert p (insert q (set ys))) h h' \<and> node h' l"
proof -
  obtain y r where y: "ys = y # r"
    using assms(3) by (cases ys) auto
  obtain s z where z: "ys = s @ [z]"
    using assms(3) by (cases ys rule: rev_cases) auto
  have "links h (l # (s @ [z]) @ [l])" "links h (l # (y # r) @ [l])" "distinct (l # ys)"
    using assms(2) unfolding dll_def y [symmetric] z [symmetric] by simp_all
  then have lk: "links h ((l # s) @ z # [l])" "links h (l # y # r @ [l])" "distinct (l # ys)"
    by simp_all
  have f: "nx h l = Some y" "pv h l = Some z" "links h (l # s @ [z])"
    using lk links_append [of h "l # s" z "[l]"] by simp_all
  have ys: "links h ys"
    using links_tl [OF f(3)] z by simp
  have yz: "y \<in> set ys" "z \<in> set ys"
    by (simp add: y, simp add: z)
  then have n: "node h y" "node h z" "node h l"
    using dll_node [OF assms(2)] by simp_all
  have d: "p \<notin> set ys" "q \<notin> set ys" "y \<notin> set (ls @ p # q # rs)" "z \<notin> set (ls @ p # q # rs)" "p \<noteq> l" "q \<noteq> l"
    using assms(4) yz by auto
  let ?h = "h\<lparr>nx := (nx h)(p \<mapsto> y, z \<mapsto> q), pv := (pv h)(y \<mapsto> p, q \<mapsto> z)\<rparr>"
  have r: "list_splice_between l p q h = Some ?h"
    using f n assms(5,6) by (auto simp: list_splice_between_def set_prev_def set_next_def node_def)
  have l: "links h (ls @ [p])" "links h (q # rs)"
    using assms(1) by (simp_all add: links_append [of h ls p "q # rs"])
  have "distinct (s @ [z])" "distinct (y # r)"
    using lk(3) by (simp_all flip: y z)
  then have zy: "z \<notin> set (butlast ys)" "y \<notin> set (tl ys)" "set (butlast ys) \<subseteq> set ys" "set (tl ys) \<subseteq> set ys"
    by (simp add: z, simp add: y, auto dest: in_set_butlastD in_set_tlD)
  have "links ?h (ls @ [p]) = links h (ls @ [p])" "links ?h (q # rs) = links h (q # rs)"
    by (rule links_cong; use d assms(7-10) in \<open>auto split: if_splits dest: in_set_butlastD in_set_tlD\<close>)+
  moreover have "links ?h ys = links h ys"
    by (rule links_cong; use d zy in auto)
  ultimately have a: "links ?h (ls @ [p])" "links ?h (q # rs)" "links ?h ys"
    using l ys by simp_all
  have "links ?h (s @ z # q # rs)"
    using a(2,3) links_append [of ?h s z "q # rs"] z d by auto
  then have "links ?h ((s @ [z]) @ q # rs)"
    by simp
  then have "links ?h ((y # r) @ q # rs)"
    unfolding z [symmetric] y [symmetric] .
  moreover have "y \<noteq> q"
    using d by auto
  ultimately have "links ?h (ls @ p # ys @ q # rs)"
    using a(1) links_append [of ?h ls p "ys @ q # rs"] y d(1,2) zy(1) yz by auto
  then show ?thesis
    using r yz n(3) by (auto simp: same_on_def node_def)
qed

lemma splice_ok:
  assumes "dll h rt xs" "dll h l ys" "set (l # ys) \<inter> set (rt # xs) = {}"
  shows "\<exists>h'. list_splice l rt h = Some h' \<and> dll h' rt (ys @ xs) \<and> same_on (set (rt # xs @ ys)) h h' \<and> node h' l"
    and "\<exists>h'. list_splice_tail l rt h = Some h' \<and> dll h' rt (xs @ ys) \<and> same_on (set (rt # xs @ ys)) h h' \<and> node h' l"
proof -
  have d: "distinct (rt # xs)" "links h ((rt # xs) @ [rt])" "distinct (l # ys)"
    using assms(1,2) by (simp_all add: dll_def)
  have n: "node h l" "node h rt"
    using dll_node [OF assms(2)] dll_node [OF assms(1)] by auto
  show "\<exists>h'. list_splice l rt h = Some h' \<and> dll h' rt (ys @ xs) \<and> same_on (set (rt # xs @ ys)) h h' \<and> node h' l"
  proof (cases "ys = []")
    case True
    then show ?thesis
      using assms(1) tests_ok(1) [OF assms(2)] n(1) by (simp add: list_splice_def same_on_def)
  next
    case False
    obtain q rs where r: "xs @ [rt] = q # rs"
      by (cases "xs @ [rt]") auto
    note q = snoc_head [OF r d(1)]
    have lk: "links h ([] @ rt # q # rs)" "set (l # ys) \<inter> set ([] @ rt # q # rs) = {}"
      using d(2) assms(3) unfolding r [symmetric] by auto
    moreover have "rt \<notin> set (butlast (q # rs))" "node h q"
      using d(1) dll_node [OF assms(1) q(1)] unfolding q(2) by simp_all
    ultimately obtain h' where h': "list_splice_between l rt q h = Some h'" "links h' (rt # ys @ q # rs)"
        "same_on (insert rt (insert q (set ys))) h h'" "node h' l"
      using splice_between [OF lk(1) assms(2) False lk(2) n(2), of] q(3) by auto
    have "links h' (rt # (ys @ xs) @ [rt])"
      using h'(2) unfolding r [symmetric] by simp
    moreover have "same_on (set (rt # xs @ ys)) h h'"
      by (rule same_on_mono [OF h'(3)]) (use q(1) in auto)
    ultimately show ?thesis
      using h'(1,4) False assms(3) d(1,3) tests_ok(1) [OF assms(2)] dll_first [OF assms(1)] q(4)
      by (auto simp: list_splice_def dll_def)
  qed
  show "\<exists>h'. list_splice_tail l rt h = Some h' \<and> dll h' rt (xs @ ys) \<and> same_on (set (rt # xs @ ys)) h h' \<and> node h' l"
  proof (cases "ys = []")
    case True
    then show ?thesis
      using assms(1) tests_ok(1) [OF assms(2)] n(1) by (simp add: list_splice_tail_def same_on_def)
  next
    case False
    obtain ls p where l: "rt # xs = ls @ [p]"
      by (cases "rt # xs" rule: rev_cases) auto
    note p = cons_last [OF l d(1)]
    have "set (ls @ p # rt # []) = set (rt # xs)"
      using arg_cong [OF l, of set] by auto
    then have lk: "links h (ls @ p # rt # [])" "set (l # ys) \<inter> set (ls @ p # rt # []) = {}"
      using d(2) assms(3) unfolding l by auto
    moreover have "rt \<notin> set (tl (ls @ [p]))" "node h p"
      using d(1) dll_node [OF assms(1) p(1)] unfolding p(2) by simp_all
    ultimately obtain h' where h': "list_splice_between l p rt h = Some h'" "links h' (ls @ p # ys @ rt # [])"
        "same_on (insert p (insert rt (set ys))) h h'" "node h' l"
      using splice_between [OF lk(1) assms(2) False lk(2) _ n(2)] p(3) by auto
    have "links h' ((ls @ [p]) @ ys @ [rt])"
      using h'(2) by simp
    then have "links h' (rt # (xs @ ys) @ [rt])"
      unfolding l [symmetric] by simp
    moreover have "same_on (set (rt # xs @ ys)) h h'"
      by (rule same_on_mono [OF h'(3)]) (use p(1) in auto)
    ultimately show ?thesis
      using h'(1,4) False assms(3) d(1,3) tests_ok(1) [OF assms(2)] dll_last [OF assms(1)] p(4)
      by (auto simp: list_splice_tail_def dll_def)
  qed
qed

lemma splice_init_ok:
  assumes "dll h rt xs" "dll h l ys" "set (l # ys) \<inter> set (rt # xs) = {}"
  shows "\<exists>h'. list_splice_init l rt h = Some h' \<and> dll h' rt (ys @ xs) \<and> dll h' l []"
    and "\<exists>h'. list_splice_tail_init l rt h = Some h' \<and> dll h' rt (xs @ ys) \<and> dll h' l []"
proof -
  have l: "l \<notin> set (rt # ys @ xs)" "l \<notin> set (rt # xs @ ys)"
    using assms(2,3) by (auto simp: dll_def)
  have init: "\<exists>h2. INIT_LIST_HEAD l h1 = Some h2 \<and> dll h2 rt zs \<and> dll h2 l []" if "dll h1 rt zs" "node h1 l" "l \<notin> set (rt # zs)" for h1 zs
  proof -
    obtain h2 where "INIT_LIST_HEAD l h1 = Some h2" "dll h2 l []" "same_on {l} h1 h2"
      using init_ok [OF \<open>node h1 l\<close>] by blast
    then show ?thesis
      using dll_same [of "{l}" h1 h2 rt zs] that by auto
  qed
  show "\<exists>h'. list_splice_init l rt h = Some h' \<and> dll h' rt (ys @ xs) \<and> dll h' l []"
  proof (cases "ys = []")
    case False
    obtain h1 where "list_splice l rt h = Some h1" "dll h1 rt (ys @ xs)" "node h1 l"
      using splice_ok(1) [OF assms] by blast
    then show ?thesis
      using init [of h1 "ys @ xs"] l(1) False tests_ok(1) [OF assms(2)] by (auto simp: list_splice_init_def list_splice_def bind_eq_Some_conv)
  qed (use assms tests_ok(1) [OF assms(2)] in \<open>simp add: list_splice_init_def\<close>)
  show "\<exists>h'. list_splice_tail_init l rt h = Some h' \<and> dll h' rt (xs @ ys) \<and> dll h' l []"
  proof (cases "ys = []")
    case False
    obtain h1 where "list_splice_tail l rt h = Some h1" "dll h1 rt (xs @ ys)" "node h1 l"
      using splice_ok(2) [OF assms] by blast
    then show ?thesis
      using init [of h1 "xs @ ys"] l(2) False tests_ok(1) [OF assms(2)] by (auto simp: list_splice_tail_init_def list_splice_tail_def bind_eq_Some_conv)
  qed (use assms tests_ok(1) [OF assms(2)] in \<open>simp add: list_splice_tail_init_def\<close>)
qed

lemma cut_ok:
  assumes "dll h rt (ys @ e # zs)" "node h l" "l \<notin> set (rt # ys @ e # zs)"
  shows "\<exists>h'. list_cut_position l rt e h = Some h' \<and> dll h' rt zs \<and> dll h' l (ys @ [e])"
proof -
  have d: "distinct (rt # ys)" "distinct (rt # zs)" "e \<notin> set (rt # ys @ zs)" "set ys \<inter> set zs = {}"
    using assms(1) by (auto simp: dll_def)
  obtain q rs where r: "zs @ [rt] = q # rs"
    by (cases "zs @ [rt]") auto
  note q = snoc_head [OF r d(2)]
  obtain y r0 where y: "ys @ [e] = y # r0"
    by (cases "ys @ [e]") auto
  have all: "links h ((rt # ys) @ e # (zs @ [rt]))"
    using assms(1) by (simp add: dll_def)
  then have l: "links h (rt # ys @ [e])" "links h (e # q # rs)"
    using links_append [of h "rt # ys" e "zs @ [rt]"] r by simp_all
  have ye: "links h (y # r0)" "nx h rt = Some y" "nx h e = Some q" "links h (q # rs)"
    using l y by simp_all
  have "distinct (e # ys)"
    using d by auto
  note yh = snoc_head [OF y this]
  have yset: "set (y # r0) = set (ys @ [e])"
    by (simp only: y)
  have yin: "y \<in> set (ys @ [e])" "e \<in> set (y # r0)"
    using yh(1) unfolding yset by auto
  have n: "node h e" "node h q" "node h rt" "node h y"
    using dll_node [OF assms(1)] q(1) yin(1) by auto
  have ne: "q \<noteq> e" "y \<noteq> rt" "e \<noteq> rt" "q \<notin> set (ys @ [e])" "l \<noteq> e" "l \<noteq> q" "l \<noteq> rt" "l \<noteq> y"
    using assms(1,3) d q(1) yin(1) by (auto simp: dll_def)
  let ?h = "h\<lparr>nx := (nx h)(l \<mapsto> y, e \<mapsto> l, rt \<mapsto> q), pv := (pv h)(y \<mapsto> l, l \<mapsto> e, q \<mapsto> rt)\<rparr>"
  have "list_cut_between l rt e h = Some ?h"
    using n assms(2) ye ne by (auto simp: list_cut_between_def set_prev_def set_next_def node_def)
  moreover have "list_is_singular rt h = Some (length (ys @ e # zs) = 1)" "list_empty rt h = Some False"
    using tests_ok(1,3) [OF assms(1)] by simp_all
  ultimately have res: "list_cut_position l rt e h = Some ?h"
    using ye(2) ne(3) y by (cases ys) (auto simp: list_cut_position_def)
  have l3: "l \<notin> set (y # r0)" "l \<notin> set (q # rs)" "rt \<notin> set (y # r0)" "q \<notin> set (y # r0)"
    using assms(1,3) q(1) ne(4) unfolding yset r [symmetric] by (auto simp: dll_def)
  have "links ?h (y # r0) = links h (y # r0)"
    by (rule links_cong; unfold yh(2) list.sel; use assms(3) l3 ne yh(3) d in auto)
  moreover have "e \<notin> set (butlast (q # rs))" "rt \<notin> set (butlast (q # rs))" "y \<notin> set (q # rs)"
    using d ne yin(1) unfolding q(2) r [symmetric] by auto
  then have "links ?h (q # rs) = links h (q # rs)"
    by (intro links_cong) (use l3 ne q(3) in \<open>auto split: if_splits dest: in_set_butlastD\<close>)
  ultimately have a: "links ?h (y # r0)" "links ?h (q # rs)"
    using ye by simp_all
  have "links ?h (rt # zs @ [rt])"
    using a(2) ne unfolding r by simp
  moreover have "links ?h (ys @ e # [l])"
    using a(1) links_append [of ?h ys e "[l]"] ne unfolding y [symmetric] by simp
  then have "links ?h (l # (ys @ [e]) @ [l])"
    using y ne by simp (metis append_Cons append_assoc append_Nil links.simps(1))
  ultimately show ?thesis
    using res d assms(3) by (auto simp: dll_def)
qed

section \<open>One list under a sequence of operations\<close>

datatype list_op =
    LAdd nat | LAddTail nat | LDel nat | LDelInit nat | LMove nat | LMoveTail nat | LReplace nat nat | LRotate

fun list_step :: "nat \<Rightarrow> list_op \<Rightarrow> list_heap \<Rightarrow> list_heap option" where
  "list_step rt (LAdd a) h = list_add a rt h"
| "list_step rt (LAddTail a) h = list_add_tail a rt h"
| "list_step rt (LDel a) h = list_del a h"
| "list_step rt (LDelInit a) h = list_del_init a h"
| "list_step rt (LMove a) h = list_move a rt h"
| "list_step rt (LMoveTail a) h = list_move_tail a rt h"
| "list_step rt (LReplace a b) h = list_replace a b h"
| "list_step rt LRotate h = list_rotate_left rt h"

text \<open>The specification: the same operations on a sequence.\<close>

fun seq_step :: "list_op \<Rightarrow> nat list \<Rightarrow> nat list" where
  "seq_step (LAdd a) xs = a # xs"
| "seq_step (LAddTail a) xs = xs @ [a]"
| "seq_step (LDel a) xs = remove1 a xs"
| "seq_step (LDelInit a) xs = remove1 a xs"
| "seq_step (LMove a) xs = a # remove1 a xs"
| "seq_step (LMoveTail a) xs = remove1 a xs @ [a]"
| "seq_step (LReplace a b) xs = map (\<lambda>x. if x = a then b else x) xs"
| "seq_step LRotate xs = rotate1 xs"

text \<open>What the caller must see to: nodes are added once and only members are taken out. \<open>U\<close> are the allocated nodes.\<close>

fun seq_legal :: "nat set \<Rightarrow> nat \<Rightarrow> list_op \<Rightarrow> nat list \<Rightarrow> bool" where
  "seq_legal U rt (LAdd a) xs = (a \<in> U \<and> a \<notin> set (rt # xs))"
| "seq_legal U rt (LAddTail a) xs = (a \<in> U \<and> a \<notin> set (rt # xs))"
| "seq_legal U rt (LDel a) xs = (a \<in> set xs)"
| "seq_legal U rt (LDelInit a) xs = (a \<in> set xs)"
| "seq_legal U rt (LMove a) xs = (a \<in> set xs)"
| "seq_legal U rt (LMoveTail a) xs = (a \<in> set xs)"
| "seq_legal U rt (LReplace a b) xs = (a \<in> set xs \<and> b \<in> U \<and> b \<notin> set (rt # xs))"
| "seq_legal U rt LRotate xs = True"

definition list_rel :: "nat set \<Rightarrow> nat \<Rightarrow> list_heap \<Rightarrow> nat list \<Rightarrow> bool" where
  "list_rel U rt h xs \<longleftrightarrow> dll h rt xs \<and> (\<forall>a \<in> U. node h a)"

lemma same_on_node: "same_on S h h' \<Longrightarrow> a \<notin> S \<Longrightarrow> node h a \<Longrightarrow> node h' a"
  by (auto simp: same_on_def node_def)

text \<open>An operation writes nodes of the old and the new list only, so that every node stays allocated.\<close>

lemma rel_intro:
  assumes "list_rel U rt h xs" "dll h' rt xs'" "same_on S h h'" "\<And>a. a \<in> S \<Longrightarrow> a \<notin> set (rt # xs') \<Longrightarrow> node h' a"
  shows "list_rel U rt h' xs'"
  using assms same_on_node [OF assms(3)] dll_node [OF assms(2)] by (auto simp: list_rel_def)

lemma distinct_split:
  assumes "dll h rt xs" "a \<in> set xs"
  shows "\<exists>ys zs. xs = ys @ a # zs \<and> remove1 a xs = ys @ zs \<and> (\<forall>b. map (\<lambda>x. if x = a then b else x) xs = ys @ b # zs)"
proof -
  obtain ys zs where x: "xs = ys @ a # zs"
    using assms(2) by (meson split_list)
  then have n: "a \<notin> set ys" "a \<notin> set zs"
    using assms(1) by (auto simp: dll_def)
  have "map (\<lambda>x. if x = a then b else x) ys = ys" "map (\<lambda>x. if x = a then b else x) zs = zs" for b
    by (rule map_idI, use n in auto)+
  then show ?thesis
    using n x by (auto simp: remove1_append)
qed

lemma list_step_refines:
  assumes r: "list_rel U rt h xs" and l: "seq_legal U rt x xs"
  shows "\<exists>h'. list_step rt x h = Some h' \<and> list_rel U rt h' (seq_step x xs)"
proof -
  have d: "dll h rt xs" and U: "\<And>a. a \<in> U \<Longrightarrow> node h a"
    using r by (auto simp: list_rel_def)
  show ?thesis
  proof (cases x)
    case (LAdd a)
    then show ?thesis
      using add_ok [OF d U] l rel_intro [OF r] by fastforce
  next
    case (LAddTail a)
    then show ?thesis
      using add_tail_ok [OF d U] l rel_intro [OF r] by fastforce
  next
    case (LDel a)
    with l obtain ys zs where s: "xs = ys @ a # zs" "remove1 a xs = ys @ zs"
      using distinct_split [OF d, of a] by (auto simp del: remove1.simps)
    then obtain h' where "list_del a h = Some h'" "dll h' rt (ys @ zs)" "node h' a" "same_on (set (rt # ys @ a # zs)) h h'"
      using del_ok [of h rt ys a zs] d by auto
    then show ?thesis
      using LDel s rel_intro [OF r, of h' "ys @ zs"] by fastforce
  next
    case (LDelInit a)
    with l obtain ys zs where s: "xs = ys @ a # zs" "remove1 a xs = ys @ zs"
      using distinct_split [OF d, of a] by (auto simp del: remove1.simps)
    then obtain h' where h': "list_del_init a h = Some h'" "dll h' rt (ys @ zs)" "dll h' a []" "same_on (set (rt # ys @ a # zs)) h h'"
      using del_init_ok [of h rt ys a zs] d by auto
    then have "node h' a"
      using dll_node [OF h'(3)] by simp
    then show ?thesis
      using LDelInit s h' rel_intro [OF r, of h' "ys @ zs"] by fastforce
  next
    case (LMove a)
    with l obtain ys zs where s: "xs = ys @ a # zs" "remove1 a xs = ys @ zs"
      using distinct_split [OF d, of a] by (auto simp del: remove1.simps)
    then show ?thesis
      using LMove move_ok(1) [of h rt ys a zs] d rel_intro [OF r, of _ "a # ys @ zs"] by fastforce
  next
    case (LMoveTail a)
    with l obtain ys zs where s: "xs = ys @ a # zs" "remove1 a xs = ys @ zs"
      using distinct_split [OF d, of a] by (auto simp del: remove1.simps)
    then show ?thesis
      using LMoveTail move_ok(2) [of h rt ys a zs] d rel_intro [OF r, of _ "(ys @ zs) @ [a]"] by fastforce
  next
    case (LReplace a b)
    with l obtain ys zs where s: "xs = ys @ a # zs" "map (\<lambda>x. if x = a then b else x) xs = ys @ b # zs"
      using distinct_split [OF d, of a] by (metis seq_legal.simps(7))
    then show ?thesis
      using LReplace l replace_ok [of h rt ys a zs b] d U rel_intro [OF r, of _ "ys @ b # zs"] by fastforce
  next
    case LRotate
    then show ?thesis
      using rotate_ok [OF d] rel_intro [OF r] by fastforce
  qed
qed

fun seq_legal_run :: "nat set \<Rightarrow> nat \<Rightarrow> list_op list \<Rightarrow> nat list \<Rightarrow> bool" where
  "seq_legal_run U rt [] xs = True"
| "seq_legal_run U rt (x # ops) xs = (seq_legal U rt x xs \<and> seq_legal_run U rt ops (seq_step x xs))"

lemma list_run_refines:
  "list_rel U rt h xs \<Longrightarrow> seq_legal_run U rt ops xs \<Longrightarrow> \<exists>h'. run_ops (list_step rt) ops h = Some h' \<and> list_rel U rt h' (fold seq_step ops xs)"
proof (induction ops arbitrary: h xs)
  case (Cons x ops)
  then obtain h1 where "list_step rt x h = Some h1" "list_rel U rt h1 (seq_step x xs)"
    using list_step_refines [of U rt h xs x] by auto
  then show ?case
    using Cons.IH [of h1 "seq_step x xs"] Cons.prems by auto
qed simp

section \<open>Properties\<close>

text \<open>C27: The intrusive lists implement sequences: under every legal sequence of additions at either end, removals, moves,
  replacements and rotations the pointer operations are defined and the list holds what the same operations on a sequence give. Walking it
  forwards or backwards ends and visits exactly that sequence or its reverse.\<close>

theorem intrusive_list_refines_sequence:
  assumes "list_rel U rt h xs" "seq_legal_run U rt ops xs"
  shows "\<exists>h'. run_ops (list_step rt) ops h = Some h' \<and> list_for_each rt h' = Some (fold seq_step ops xs) \<and>
    list_for_each_prev rt h' = Some (rev (fold seq_step ops xs)) \<and> list_elems rt h' = Some (length (fold seq_step ops xs))"
  using list_run_refines [OF assms] for_each_ok by (fastforce simp: list_rel_def)

definition sample_nodes :: list_heap where
  "sample_nodes = \<lparr>nx = [0 \<mapsto> 0, 1 \<mapsto> 9, 2 \<mapsto> 9, 3 \<mapsto> 9], pv = [0 \<mapsto> 0, 1 \<mapsto> 9, 2 \<mapsto> 9, 3 \<mapsto> 9]\<rparr>"

theorem intrusive_list_refines_sequence_witness:
  "\<exists>h'. run_ops (list_step 0) [LAddTail 1, LAddTail 2, LAdd 3, LRotate, LDelInit 2] sample_nodes = Some h' \<and>
    list_for_each 0 h' = Some [1, 3] \<and> list_for_each_prev 0 h' = Some [3, 1] \<and> list_elems 0 h' = Some 2"
  using intrusive_list_refines_sequence [of "{1, 2, 3}" 0 sample_nodes "[]" "[LAddTail 1, LAddTail 2, LAdd 3, LRotate, LDelInit 2]"]
  by (simp add: list_rel_def dll_def sample_nodes_def node_def numeral_2_eq_2)

text \<open>Splicing appends the members of one list to the front or the end of another and empties the first; cutting moves the
  members up to an entry into a list of their own. Cutting a list and splicing the parts back gives the list again.\<close>

theorem cut_splice_roundtrip:
  assumes "dll h rt (ys @ e # zs)" "node h l" "l \<notin> set (rt # ys @ e # zs)"
  shows "\<exists>h1 h2. list_cut_position l rt e h = Some h1 \<and> dll h1 l (ys @ [e]) \<and> dll h1 rt zs \<and>
    list_splice_init l rt h1 = Some h2 \<and> dll h2 rt (ys @ e # zs) \<and> dll h2 l []"
proof -
  obtain h1 where h1: "list_cut_position l rt e h = Some h1" "dll h1 rt zs" "dll h1 l (ys @ [e])"
    using cut_ok [OF assms] by blast
  have "set (l # ys @ [e]) \<inter> set (rt # zs) = {}"
    using assms(1,3) by (auto simp: dll_def)
  then obtain h2 where "list_splice_init l rt h1 = Some h2" "dll h2 rt ((ys @ [e]) @ zs)" "dll h2 l []"
    using splice_init_ok(1) [OF h1(2,3)] by auto
  then show ?thesis
    using h1 by auto
qed

theorem cut_splice_roundtrip_witness:
  "\<exists>h1 h2. list_cut_position 9 0 1 \<lparr>nx = [0 \<mapsto> 1, 1 \<mapsto> 2, 2 \<mapsto> 0, 9 \<mapsto> 9], pv = [0 \<mapsto> 2, 1 \<mapsto> 0, 2 \<mapsto> 1, 9 \<mapsto> 9]\<rparr> = Some h1 \<and>
    list_splice_init 9 0 h1 = Some h2 \<and> dll h2 0 [1, 2] \<and> dll h2 9 []"
  using cut_splice_roundtrip [of "\<lparr>nx = [0 \<mapsto> 1, 1 \<mapsto> 2, 2 \<mapsto> 0, 9 \<mapsto> 9], pv = [0 \<mapsto> 2, 1 \<mapsto> 0, 2 \<mapsto> 1, 9 \<mapsto> 9]\<rparr>" 0 "[]" 1 "[2]" 9]
  by (fastforce simp: dll_def node_def)
end
