(* ===== verification/Proto_Detect.thy ===== *)
theory Proto_Detect
  imports Flow_Table
begin

text \<open>
  \<^verbatim>\<open>src/src/proto_detect.c\<close>, \<^verbatim>\<open>proto_detect.h\<close> and the three built-in detectors \<^verbatim>\<open>proto_http.c\<close>,
  \<^verbatim>\<open>proto_dns.c\<close>, \<^verbatim>\<open>proto_tls.c\<close>: registration of patterns and probers, the naive pattern search, the
  two probing parsers, and the detection pipeline (patterns, then probers, then ports).

  The global lists are a record; a pattern remembers the heap block of its string, so that sharing
  and freeing of strings can be expressed. A prober's function pointer is one of the two functions
  the program registers. The probers ignore their \<^verbatim>\<open>flow\<close> and \<^verbatim>\<open>direction\<close> arguments and never write
  \<^verbatim>\<open>*reverse_flow\<close>, so these are not arguments of the model.
\<close>

section \<open>Data\<close>

definition PROTO_DETECT_DIR_TOSERVER :: u8 where "PROTO_DETECT_DIR_TOSERVER = 1"
definition PROTO_DETECT_DIR_TOCLIENT :: u8 where "PROTO_DETECT_DIR_TOCLIENT = 2"
definition PROTO_DETECT_DIR_BOTH :: u8 where "PROTO_DETECT_DIR_BOTH = 3"

lemmas pd_dirs = PROTO_DETECT_DIR_TOSERVER_def PROTO_DETECT_DIR_TOCLIENT_def PROTO_DETECT_DIR_BOTH_def

record proto_pattern =
  pt_protocol :: app_proto
  pt_block :: nat
  pt_pattern :: bytes
  pt_len :: u16
  pt_depth :: u16
  pt_offset :: u16
  pt_direction :: u8
  pt_case_sensitive :: bool

datatype probing_parser_fn = TLS_PROBING_PARSER | DNS_PROBING_PARSER

record proto_prober =
  pr_protocol :: app_proto
  pr_port :: u16
  pr_min_depth :: u16
  pr_max_depth :: u16
  pr_direction :: u8
  pr_fn :: probing_parser_fn

record proto_detect_ctx =
  patterns_ts :: "proto_pattern list"
  patterns_tc :: "proto_pattern list"
  probers :: "proto_prober list"
  detections_by_pattern :: u64
  detections_by_prober :: u64
  detections_by_port :: u64
  detection_failures :: u64

record proto_detect_config =
  max_inspect_depth :: u32
  enable_port_detection :: bool
  enable_pattern_matching :: bool
  enable_probing_parsers :: bool

text \<open>The file-level variables of \<^verbatim>\<open>proto_detect.c\<close>; \<open>pd_live\<close> are the pattern strings allocated and
  not yet freed, \<open>pd_nalloc\<close> counts allocations.\<close>

record proto_detect_global =
  global_config :: proto_detect_config
  global_patterns_ts :: "proto_pattern list"
  global_patterns_tc :: "proto_pattern list"
  global_probers :: "proto_prober list"
  patterns_registered :: u64
  probers_registered :: u64
  pd_live :: "nat list"
  pd_nalloc :: nat

definition pd_static :: proto_detect_global where
  "pd_static = \<lparr>global_config = \<lparr>max_inspect_depth = 4096, enable_port_detection = True,
       enable_pattern_matching = True, enable_probing_parsers = True\<rparr>,
     global_patterns_ts = [], global_patterns_tc = [], global_probers = [],
     patterns_registered = 0, probers_registered = 0, pd_live = [], pd_nalloc = 0\<rparr>"

section \<open>Registration\<close>

definition pd_has_dir :: "u8 \<Rightarrow> u8 \<Rightarrow> bool" where
  "pd_has_dir direction d \<longleftrightarrow> direction AND d \<noteq> 0"

text \<open>The list insertion of \<^verbatim>\<open>proto_detect_register_pattern\<close>. For both directions a second entry is
  allocated that shares the string; a failure of that allocation is ignored.\<close>

definition pd_add_pattern :: "rte_env \<Rightarrow> proto_pattern \<Rightarrow> proto_detect_global \<Rightarrow> proto_detect_global" where
  "pd_add_pattern env entry g0 =
    (let ts = pd_has_dir (pt_direction entry) PROTO_DETECT_DIR_TOSERVER;
         tc = pd_has_dir (pt_direction entry) PROTO_DETECT_DIR_TOCLIENT;
         g1 = (if ts then g0\<lparr>global_patterns_ts := entry # global_patterns_ts g0\<rparr> else g0) in
     if tc then
       (if ts then
          (let g2 = g1\<lparr>pd_nalloc := pd_nalloc g1 + 1\<rparr> in
           if malloc_ok env (pd_nalloc g1)
           then g2\<lparr>global_patterns_tc := entry # global_patterns_tc g2\<rparr> else g2)
        else g1\<lparr>global_patterns_tc := entry # global_patterns_tc g1\<rparr>)
     else g1)"

definition proto_detect_register_pattern ::
  "rte_env \<Rightarrow> app_proto \<Rightarrow> bytes option \<Rightarrow> u16 \<Rightarrow> u16 \<Rightarrow> u16 \<Rightarrow> u8 \<Rightarrow> bool \<Rightarrow> proto_detect_global
     \<Rightarrow> (int \<times> proto_detect_global) option" where
  "proto_detect_register_pattern env proto pat plen depth off direction cs g =
    (case pat of None \<Rightarrow> Some (-1, g) | Some pattern \<Rightarrow>
      if plen = 0 then Some (-1, g)
      else
       (let n = pd_nalloc g; g1 = g\<lparr>pd_nalloc := n + 1\<rparr> in
        if \<not> malloc_ok env n then Some (-1, g1)
        else
         (let g2 = g1\<lparr>pd_nalloc := n + 2\<rparr> in
          if \<not> malloc_ok env (n + 1) then Some (-1, g2)
          else do {
            copy \<leftarrow> blit (fresh_block env (n + 1) (unat plen)) 0 pattern (unat plen);
            let entry = \<lparr>pt_protocol = proto, pt_block = n + 1, pt_pattern = copy, pt_len = plen,
                         pt_depth = depth, pt_offset = off, pt_direction = direction,
                         pt_case_sensitive = cs\<rparr>;
            let g3 = pd_add_pattern env entry (g2\<lparr>pd_live := (n + 1) # pd_live g2\<rparr>);
            Some (0, g3\<lparr>patterns_registered := patterns_registered g3 + 1\<rparr>) })))"

definition proto_detect_register_prober ::
  "rte_env \<Rightarrow> app_proto \<Rightarrow> u16 \<Rightarrow> u16 \<Rightarrow> u16 \<Rightarrow> u8 \<Rightarrow> probing_parser_fn option \<Rightarrow> proto_detect_global
     \<Rightarrow> int \<times> proto_detect_global" where
  "proto_detect_register_prober env proto port mind maxd direction fn g =
    (case fn of None \<Rightarrow> (-1, g) | Some f \<Rightarrow>
      (let g1 = g\<lparr>pd_nalloc := pd_nalloc g + 1\<rparr> in
       if \<not> malloc_ok env (pd_nalloc g) then (-1, g1)
       else (0, g1\<lparr>global_probers := \<lparr>pr_protocol = proto, pr_port = port, pr_min_depth = mind,
                      pr_max_depth = maxd, pr_direction = direction, pr_fn = f\<rparr> # global_probers g1,
                   probers_registered := probers_registered g1 + 1\<rparr>)))"

definition http_methods :: "bytes list" where
  "http_methods = map str [''GET '', ''POST '', ''PUT '', ''DELETE '', ''HEAD '', ''OPTIONS '',
     ''TRACE '', ''CONNECT '', ''PATCH '']"

definition http_versions :: "bytes list" where
  "http_versions = map str [''HTTP/1.0'', ''HTTP/1.1'', ''HTTP/2'']"

text \<open>The two registration loops of \<^verbatim>\<open>proto_detect_register_http\<close>; their count only feeds a log line.\<close>

fun register_http_patterns ::
  "rte_env \<Rightarrow> u16 \<Rightarrow> u8 \<Rightarrow> bytes list \<Rightarrow> proto_detect_global \<Rightarrow> proto_detect_global option" where
  "register_http_patterns env depth dir [] g = Some g"
| "register_http_patterns env depth dir (m # ms) g = do {
     (r, g') \<leftarrow> proto_detect_register_pattern env APP_PROTO_HTTP (Some m) (of_nat (length m)) depth 0 dir
                 False g;
     register_http_patterns env depth dir ms g' }"

definition proto_detect_register_http ::
  "rte_env \<Rightarrow> proto_detect_global \<Rightarrow> (int \<times> proto_detect_global) option" where
  "proto_detect_register_http env g = do {
     g1 \<leftarrow> register_http_patterns env 8 PROTO_DETECT_DIR_TOSERVER http_methods g;
     g2 \<leftarrow> register_http_patterns env 16 PROTO_DETECT_DIR_TOCLIENT http_versions g1;
     Some (0, g2) }"

text \<open>\<^verbatim>\<open>ret |= ...\<close> on results that are 0 or -1.\<close>

definition ret_or :: "int \<Rightarrow> int \<Rightarrow> int" where
  "ret_or a b = a OR b"

definition proto_detect_register_tls :: "rte_env \<Rightarrow> proto_detect_global \<Rightarrow> int \<times> proto_detect_global" where
  "proto_detect_register_tls env g =
    (let (r1, g1) = proto_detect_register_prober env APP_PROTO_TLS 443 5 64 PROTO_DETECT_DIR_BOTH
                      (Some TLS_PROBING_PARSER) g;
         (r2, g2) = proto_detect_register_prober env APP_PROTO_TLS 0 5 64 PROTO_DETECT_DIR_BOTH
                      (Some TLS_PROBING_PARSER) g1 in
     (ret_or r1 r2, g2))"

definition proto_detect_register_dns :: "rte_env \<Rightarrow> proto_detect_global \<Rightarrow> int \<times> proto_detect_global" where
  "proto_detect_register_dns env g =
    (let (r1, g1) = proto_detect_register_prober env APP_PROTO_DNS 53 12 512 PROTO_DETECT_DIR_BOTH
                      (Some DNS_PROBING_PARSER) g;
         (r2, g2) = proto_detect_register_prober env APP_PROTO_DNS 0 12 512 PROTO_DETECT_DIR_BOTH
                      (Some DNS_PROBING_PARSER) g1 in
     (ret_or r1 r2, g2))"

definition proto_detect_init ::
  "rte_env \<Rightarrow> proto_detect_config option \<Rightarrow> proto_detect_global \<Rightarrow> (int \<times> proto_detect_global) option" where
  "proto_detect_init env config g = do {
     let g0 = (case config of None \<Rightarrow> g | Some c \<Rightarrow> g\<lparr>global_config := c\<rparr>);
     (r1, g1) \<leftarrow> proto_detect_register_http env g0;
     let (r2, g2) = proto_detect_register_tls env g1;
     let (r3, g3) = proto_detect_register_dns env g2;
     Some (0, g3) }"

definition proto_detect_ctx_create ::
  "rte_env \<Rightarrow> proto_detect_global \<Rightarrow> proto_detect_global \<times> proto_detect_ctx option" where
  "proto_detect_ctx_create env g =
    (let g' = g\<lparr>pd_nalloc := pd_nalloc g + 1\<rparr> in
     if \<not> malloc_ok env (pd_nalloc g) then (g', None)
     else (g', Some \<lparr>patterns_ts = global_patterns_ts g, patterns_tc = global_patterns_tc g,
       probers = global_probers g, detections_by_pattern = 0, detections_by_prober = 0,
       detections_by_port = 0, detection_failures = 0\<rparr>))"

text \<open>\<^verbatim>\<open>rte_free\<close> of the pattern strings of a list, in order; freeing a string twice is undefined.\<close>

fun free_patterns :: "proto_pattern list \<Rightarrow> nat list \<Rightarrow> nat list option" where
  "free_patterns [] live = Some live"
| "free_patterns (p # ps) live =
    (if pt_block p \<in> set live then free_patterns ps (remove1 (pt_block p) live) else None)"

definition proto_detect_cleanup :: "proto_detect_global \<Rightarrow> proto_detect_global option" where
  "proto_detect_cleanup g = do {
     live1 \<leftarrow> free_patterns (global_patterns_ts g) (pd_live g);
     live2 \<leftarrow> free_patterns (global_patterns_tc g) live1;
     Some (g\<lparr>pd_live := live2, global_patterns_ts := [], global_patterns_tc := [], global_probers := []\<rparr>) }"

section \<open>Pattern matching\<close>

text \<open>The inner loop of \<^verbatim>\<open>pattern_match\<close> from index \<open>j\<close>, with \<open>k\<close> pattern bytes left; \<open>at\<close> is the
  position \<^verbatim>\<open>i\<close> in the packet data.\<close>

fun match_at :: "bool \<Rightarrow> bytes \<Rightarrow> nat \<Rightarrow> bytes \<Rightarrow> nat \<Rightarrow> nat \<Rightarrow> bool option" where
  "match_at cs data at pat j 0 = Some True"
| "match_at cs data at pat j (Suc k) = do {
     d \<leftarrow> rd8 data (at + j);
     p \<leftarrow> rd8 pat j;
     if (if cs then d \<noteq> p else c_tolower d \<noteq> c_tolower p) then Some False
     else match_at cs data at pat (Suc j) k }"

text \<open>The outer loop with \<open>k\<close> start positions left.\<close>

fun pm_loop :: "bool \<Rightarrow> bytes \<Rightarrow> nat \<Rightarrow> bytes \<Rightarrow> nat \<Rightarrow> nat \<Rightarrow> bool option" where
  "pm_loop cs data at pat plen 0 = Some False"
| "pm_loop cs data at pat plen (Suc k) = do {
     m \<leftarrow> match_at cs data at pat 0 plen;
     if m then Some True else pm_loop cs data (Suc at) pat plen k }"

text \<open>\<open>base\<close> is the offset of \<^verbatim>\<open>search_data\<close> in the packet data.\<close>

definition pattern_match :: "bytes \<Rightarrow> nat \<Rightarrow> u32 \<Rightarrow> bytes \<Rightarrow> u16 \<Rightarrow> bool \<Rightarrow> bool option" where
  "pattern_match data base dlen pat plen cs =
    (if dlen < ucast plen then Some False
     else pm_loop cs data base pat (unat plen) (unat dlen - unat plen + 1))"

definition search_window :: "proto_pattern \<Rightarrow> u32 \<Rightarrow> u32" where
  "search_window p len =
    (if 0 < pt_depth p \<and> ucast (pt_depth p) < len then ucast (pt_depth p) else len) - ucast (pt_offset p)"

fun pattern_scan :: "bytes \<Rightarrow> u32 \<Rightarrow> proto_pattern list \<Rightarrow> app_proto option option" where
  "pattern_scan data len [] = Some None"
| "pattern_scan data len (p # ps) =
    (if 0 < pt_offset p \<and> len < ucast (pt_offset p) then pattern_scan data len ps
     else do {
       m \<leftarrow> pattern_match data (unat (pt_offset p)) (search_window p len) (pt_pattern p) (pt_len p)
              (pt_case_sensitive p);
       if m then Some (Some (pt_protocol p)) else pattern_scan data len ps })"

definition try_pattern_detection ::
  "proto_detect_ctx \<Rightarrow> bytes \<Rightarrow> u32 \<Rightarrow> u8 \<Rightarrow> (app_proto \<times> proto_detect_ctx) option" where
  "try_pattern_detection ctx data len direction = do {
     r \<leftarrow> pattern_scan data len
            (if direction = PROTO_DETECT_DIR_TOSERVER then patterns_ts ctx else patterns_tc ctx);
     Some (case r of
        None \<Rightarrow> (APP_PROTO_UNKNOWN, ctx)
      | Some p \<Rightarrow> (p, ctx\<lparr>detections_by_pattern := detections_by_pattern ctx + 1\<rparr>)) }"

section \<open>The probing parsers\<close>

definition tls_probing_parser :: "bytes \<Rightarrow> u32 \<Rightarrow> app_proto option" where
  "tls_probing_parser data len =
    (if len < 5 then Some APP_PROTO_UNKNOWN
     else do {
       content_type \<leftarrow> rd8 data 0;
       version \<leftarrow> rd_be16 data 1;
       record_len \<leftarrow> rd_be16 data 3;
       if content_type < 20 \<or> 24 < content_type then
         (if content_type AND 0x80 \<noteq> 0 \<and> 3 \<le> len then do {
            msg_type \<leftarrow> rd8 data 2;
            Some (if msg_type = 1 then APP_PROTO_TLS else APP_PROTO_FAILED) }
          else Some APP_PROTO_FAILED)
       else if version < 0x0300 \<or> 0x0304 < version then Some APP_PROTO_FAILED
       else if 16384 < record_len then Some APP_PROTO_FAILED
       else if content_type = 22 \<and> 6 \<le> len then do {
         handshake_type \<leftarrow> rd8 data 5;
         Some (if handshake_type \<in> {1, 2, 11, 12, 13, 14} then APP_PROTO_TLS else APP_PROTO_TLS) }
       else if content_type = 23 \<or> content_type = 20 \<or> content_type = 21 \<or> content_type = 24
       then Some APP_PROTO_TLS
       else Some APP_PROTO_UNKNOWN })"

text \<open>The QNAME loop of \<^verbatim>\<open>dns_probing_parser\<close>: \<open>None\<close> for the early \<^verbatim>\<open>APP_PROTO_FAILED\<close>, otherwise
  \<^verbatim>\<open>valid_qname\<close> and \<^verbatim>\<open>offset\<close>. The outer option is undefined behaviour.\<close>

function dns_qname_loop :: "bytes \<Rightarrow> nat \<Rightarrow> nat \<Rightarrow> (bool \<times> nat) option option" where
  "dns_qname_loop data len off =
    (if len \<le> off then Some (Some (False, off))
     else do {
       label_len \<leftarrow> rd8 data off;
       if label_len = 0 then Some (Some (True, off + 1))
       else if label_len AND 0xC0 = 0xC0 then Some (Some (True, off + 2))
       else if 63 < label_len then Some None
       else if 255 < off + 1 + unat label_len then Some None
       else dns_qname_loop data len (off + 1 + unat label_len) })"
  by auto
termination
  by (relation "measure (\<lambda>(data, len, off). len - off)") auto

declare dns_qname_loop.simps [simp del]

text \<open>The question section check for queries longer than the header: \<open>None\<close> when it does not decide.\<close>

definition dns_question_check :: "bytes \<Rightarrow> nat \<Rightarrow> app_proto option option" where
  "dns_question_check data len = do {
     r \<leftarrow> dns_qname_loop data len 12;
     (case r of
        None \<Rightarrow> Some (Some APP_PROTO_FAILED)
      | Some (valid_qname, off) \<Rightarrow>
         if valid_qname \<and> off + 4 \<le> len then do {
           qtype \<leftarrow> rd_be16 data off;
           qclass \<leftarrow> rd_be16 data (off + 2);
           Some (Some (if qtype = 0 then APP_PROTO_FAILED
             else if qclass = 0 \<or> (4 < qclass \<and> qclass \<noteq> 255) then APP_PROTO_FAILED
             else APP_PROTO_DNS)) }
         else Some None) }"

definition dns_probing_parser :: "bytes \<Rightarrow> u32 \<Rightarrow> app_proto option" where
  "dns_probing_parser data len =
    (if len < 12 then Some APP_PROTO_UNKNOWN
     else do {
       flags \<leftarrow> rd_be16 data 2;
       qdcount \<leftarrow> rd_be16 data 4;
       ancount \<leftarrow> rd_be16 data 6;
       nscount \<leftarrow> rd_be16 data 8;
       arcount \<leftarrow> rd_be16 data 10;
       let is_response = (flags AND 0x8000 \<noteq> 0);
       let opcode = (ucast (drop_bit 11 (flags AND 0x7800)) :: u8);
       let rcode = (ucast (flags AND 0x000F) :: u8);
       if 5 < opcode then Some APP_PROTO_FAILED
       else if 15 < rcode then Some APP_PROTO_FAILED
       else if \<not> is_response \<and> qdcount = 0 then Some APP_PROTO_FAILED
       else if is_response \<and> qdcount = 0 \<and> ancount = 0 then Some APP_PROTO_FAILED
       else if 100 < unat qdcount + unat ancount + unat nscount + unat arcount
       then Some APP_PROTO_FAILED
       else do {
         q \<leftarrow> (if \<not> is_response \<and> 12 < len then dns_question_check data (unat len) else Some None);
         (case q of
            Some r \<Rightarrow> Some r
          | None \<Rightarrow> Some (if is_response \<or> len = 12 then APP_PROTO_DNS else APP_PROTO_UNKNOWN)) } })"

fun run_prober :: "probing_parser_fn \<Rightarrow> bytes \<Rightarrow> u32 \<Rightarrow> app_proto option" where
  "run_prober TLS_PROBING_PARSER = tls_probing_parser"
| "run_prober DNS_PROBING_PARSER = dns_probing_parser"

section \<open>The detection pipeline\<close>

definition probe_window :: "u16 \<Rightarrow> u32 \<Rightarrow> u32" where
  "probe_window maxd len = (if 0 < maxd \<and> ucast maxd < len then ucast maxd else len)"

fun prober_scan :: "u16 \<Rightarrow> bytes \<Rightarrow> u32 \<Rightarrow> u8 \<Rightarrow> proto_prober list \<Rightarrow> app_proto option" where
  "prober_scan port data len direction [] = Some APP_PROTO_UNKNOWN"
| "prober_scan port data len direction (p # ps) =
    (if \<not> pd_has_dir (pr_direction p) direction then prober_scan port data len direction ps
     else if pr_port p \<noteq> 0 \<and> pr_port p \<noteq> port then prober_scan port data len direction ps
     else if len < ucast (pr_min_depth p) then prober_scan port data len direction ps
     else do {
       r \<leftarrow> run_prober (pr_fn p) data (probe_window (pr_max_depth p) len);
       if r \<noteq> APP_PROTO_UNKNOWN then Some r else prober_scan port data len direction ps })"

definition detect_port :: "'p flow \<Rightarrow> u8 \<Rightarrow> u16" where
  "detect_port f direction = (if direction = PROTO_DETECT_DIR_TOSERVER then f_dst_port f else f_src_port f)"

definition try_prober_detection ::
  "proto_detect_ctx \<Rightarrow> 'p flow \<Rightarrow> bytes \<Rightarrow> u32 \<Rightarrow> u8 \<Rightarrow> (app_proto \<times> proto_detect_ctx) option" where
  "try_prober_detection ctx f data len direction = do {
     r \<leftarrow> prober_scan (detect_port f direction) data len direction (probers ctx);
     Some (r, if r \<noteq> APP_PROTO_UNKNOWN \<and> r \<noteq> APP_PROTO_FAILED
              then ctx\<lparr>detections_by_prober := detections_by_prober ctx + 1\<rparr> else ctx) }"

definition try_port_detection :: "'p flow \<Rightarrow> u8 \<Rightarrow> app_proto" where
  "try_port_detection f direction =
    (let port = detect_port f direction in
     if port = 80 \<or> port = 8080 then APP_PROTO_HTTP
     else if port = 443 \<or> port = 8443 then APP_PROTO_TLS
     else if port = 53 then APP_PROTO_DNS
     else if port = 22 then APP_PROTO_SSH
     else if port = 21 then APP_PROTO_FTP
     else if port = 25 then APP_PROTO_SMTP
     else if port = 3306 then APP_PROTO_MYSQL
     else if port = 5432 then APP_PROTO_PGSQL
     else APP_PROTO_UNKNOWN)"

text \<open>\<^verbatim>\<open>proto_detect_get_proto\<close> after its null checks: stage 3, stages 2 and 3, and all stages.\<close>

definition detect_by_port ::
  "proto_detect_config \<Rightarrow> proto_detect_ctx \<Rightarrow> 'p flow \<Rightarrow> u8 \<Rightarrow> proto_detect_result
     \<Rightarrow> int \<times> proto_detect_ctx \<times> proto_detect_result" where
  "detect_by_port cfg ctx f direction res =
    (if enable_port_detection cfg \<and> try_port_detection f direction \<noteq> APP_PROTO_UNKNOWN
     then (0, ctx\<lparr>detections_by_port := detections_by_port ctx + 1\<rparr>,
           res\<lparr>protocol := try_port_detection f direction, confidence := PROTO_CONFIDENCE_LOW\<rparr>)
     else (-1, ctx, res))"

definition detect_by_prober ::
  "proto_detect_config \<Rightarrow> proto_detect_ctx \<Rightarrow> 'p flow \<Rightarrow> bytes \<Rightarrow> u32 \<Rightarrow> u8 \<Rightarrow> proto_detect_result
     \<Rightarrow> (int \<times> proto_detect_ctx \<times> proto_detect_result) option" where
  "detect_by_prober cfg ctx f data len direction res =
    (if enable_probing_parsers cfg then do {
       (proto, ctx') \<leftarrow> try_prober_detection ctx f data len direction;
       Some (if proto = APP_PROTO_FAILED
         then (0, ctx'\<lparr>detection_failures := detection_failures ctx' + 1\<rparr>, res\<lparr>protocol := APP_PROTO_FAILED\<rparr>)
         else if proto \<noteq> APP_PROTO_UNKNOWN
         then (0, ctx', res\<lparr>protocol := proto, confidence := PROTO_CONFIDENCE_MEDIUM, reverse_flow := False\<rparr>)
         else detect_by_port cfg ctx' f direction res) }
     else Some (detect_by_port cfg ctx f direction res))"

definition detect_stages ::
  "proto_detect_config \<Rightarrow> proto_detect_ctx \<Rightarrow> 'p flow \<Rightarrow> bytes \<Rightarrow> u32 \<Rightarrow> u8 \<Rightarrow> proto_detect_result
     \<Rightarrow> (int \<times> proto_detect_ctx \<times> proto_detect_result) option" where
  "detect_stages cfg ctx f data len direction res =
    (if enable_pattern_matching cfg then do {
       (proto, ctx') \<leftarrow> try_pattern_detection ctx data len direction;
       if proto \<noteq> APP_PROTO_UNKNOWN
       then Some (0, ctx', res\<lparr>protocol := proto, confidence := PROTO_CONFIDENCE_HIGH\<rparr>)
       else detect_by_prober cfg ctx' f data len direction res }
     else detect_by_prober cfg ctx f data len direction res)"

definition detect_unknown :: proto_detect_result where
  "detect_unknown = \<lparr>protocol = APP_PROTO_UNKNOWN, confidence = PROTO_CONFIDENCE_LOW, reverse_flow = False\<rparr>"

definition proto_detect_get_proto ::
  "proto_detect_config \<Rightarrow> proto_detect_ctx option \<Rightarrow> 'p flow option \<Rightarrow> bytes option \<Rightarrow> u32 \<Rightarrow> u8
     \<Rightarrow> proto_detect_result option
     \<Rightarrow> (int \<times> proto_detect_ctx option \<times> proto_detect_result option) option" where
  "proto_detect_get_proto cfg ctx_p flow_p data_p len0 direction result_p =
    (case (ctx_p, flow_p, data_p, result_p) of
       (Some ctx, Some f, Some data, Some _) \<Rightarrow>
         (let len = (if max_inspect_depth cfg < len0 then max_inspect_depth cfg else len0) in
          if len < 4 then Some (-1, Some ctx, Some detect_unknown)
          else map_option (\<lambda>(r, c, res). (r, Some c, Some res))
                 (detect_stages cfg ctx f data len direction detect_unknown))
     | _ \<Rightarrow> Some (-2, ctx_p, result_p))"


section \<open>The pattern search against its specification\<close>

text \<open>The bytes are compared as they are, or after \<^const>\<open>c_tolower\<close>.\<close>

definition pat_fold :: "bool \<Rightarrow> u8 \<Rightarrow> u8" where
  "pat_fold cs = (if cs then id else c_tolower)"

lemma match_at_prefix:
  "at + j + k \<le> length data \<Longrightarrow> j + k \<le> length pat \<Longrightarrow>
   match_at cs data at pat j k = Some (prefix_by (pat_fold cs) (take k (drop j pat)) (drop (at + j) data))"
proof (induction k arbitrary: j)
  case (Suc k)
  have d: "drop (at + j) data = data ! (at + j) # drop (at + Suc j) data"
    using Suc.prems(1) by (simp add: Cons_nth_drop_Suc)
  have p: "take (Suc k) (drop j pat) = pat ! j # take k (drop (Suc j) pat)"
    using Suc.prems(2) by (metis Cons_nth_drop_Suc add_Suc_right less_add_Suc1 order_less_le_trans take_Suc_Cons)
  show ?case
    using Suc.prems Suc.IH [of "Suc j"] unfolding d p
    by (auto simp: rd8_Some pat_fold_def)
qed simp

lemma prefix_by_short: "prefix_by f p s \<Longrightarrow> length p \<le> length s"
  by (induction f p s rule: prefix_by.induct) auto

lemma prefix_by_take: "length p \<le> n \<Longrightarrow> prefix_by f p (take n s) = prefix_by f p s"
proof (induction f p s arbitrary: n rule: prefix_by.induct)
  case (3 f p ps c cs)
  then show ?case
    by (cases n) auto
qed auto

lemma contains_by_short: "length s < length p \<Longrightarrow> \<not> contains_by f p s"
proof (induction s)
  case Nil
  then show ?case
    by (cases p) auto
next
  case (Cons c cs)
  then show ?case
    using prefix_by_short [of f p "c # cs"] by auto
qed

lemma contains_by_Suc:
  assumes "n < length s"
  shows "contains_by f p (drop n s) = (prefix_by f p (drop n s) \<or> contains_by f p (drop (Suc n) s))"
proof -
  have "drop n s = s ! n # drop (Suc n) s"
    using assms by (rule Cons_nth_drop_Suc [symmetric])
  then show ?thesis
    by (metis contains_by.simps(2))
qed

lemma pm_loop_contains:
  assumes "length pat = plen" "0 < plen" "at + plen + k = Suc stop" "stop \<le> length data"
  shows "pm_loop cs data at pat plen k = Some (contains_by (pat_fold cs) pat (drop at (take stop data)))"
  using assms(3)
proof (induction k arbitrary: at)
  case 0
  have "length (drop at (take stop data)) < length pat"
    using 0 assms by auto
  then show ?case
    by (simp add: contains_by_short del: length_drop length_take)
next
  case (Suc k)
  have m: "match_at cs data at pat 0 plen = Some (prefix_by (pat_fold cs) pat (drop at data))"
    using match_at_prefix [of at 0 plen data pat cs] Suc.prems assms by simp
  have "prefix_by (pat_fold cs) pat (drop at (take stop data)) = prefix_by (pat_fold cs) pat (drop at data)"
    using prefix_by_take [of pat "stop - at" "pat_fold cs" "drop at data"] Suc.prems assms
    by (simp add: drop_take)
  moreover have "at < length (take stop data)"
    using Suc.prems assms by simp
  ultimately show ?case
    using Suc.IH [of "Suc at"] Suc.prems m contains_by_Suc [of at "take stop data" "pat_fold cs" pat] by simp
qed

lemma unat_less_ucast: "(a :: u32) < ucast (b :: u16) \<longleftrightarrow> unat a < unat b"
  by (simp add: word_less_nat_alt)

lemma pattern_match_contains:
  assumes "pat \<noteq> []" "length pat = unat plen" "base + unat dlen \<le> length data"
  shows "pattern_match data base dlen pat plen cs = Some (contains_by (pat_fold cs) pat (bslice data base (unat dlen)))"
proof (cases "unat dlen < unat plen")
  case True
  then have "length (bslice data base (unat dlen)) < length pat"
    using assms by simp
  then show ?thesis
    using True by (simp add: pattern_match_def unat_less_ucast contains_by_short del: length_bslice)
next
  case False
  then have "pm_loop cs data base pat (unat plen) (unat dlen - unat plen + 1) =
      Some (contains_by (pat_fold cs) pat (drop base (take (base + unat dlen) data)))"
    using assms by (intro pm_loop_contains) (auto simp flip: length_greater_0_conv)
  then show ?thesis
    using False by (simp add: pattern_match_def unat_less_ucast bslice_def take_drop add.commute)
qed

section \<open>What a prober promises\<close>

text \<open>The contract the pipeline relies on: a prober that is given at most the bytes there are reads
  inside them, and its verdict is \<^verbatim>\<open>UNKNOWN\<close>, \<^verbatim>\<open>FAILED\<close> or its own protocol.\<close>

locale prober_contract =
  fixes probe :: "bytes \<Rightarrow> u32 \<Rightarrow> app_proto option"
    and proto :: app_proto
  assumes probe_verdict:
    "unat len \<le> length data \<Longrightarrow> \<exists>r. probe data len = Some r \<and> r \<in> {APP_PROTO_UNKNOWN, APP_PROTO_FAILED, proto}"
begin

lemma probe_window_verdict:
  assumes "unat len \<le> length data"
  shows "\<exists>r. probe data (probe_window maxd len) = Some r \<and> r \<in> {APP_PROTO_UNKNOWN, APP_PROTO_FAILED, proto}"
proof -
  have "unat (probe_window maxd len) \<le> length data"
    using assms by (auto simp: probe_window_def word_less_nat_alt)
  then show ?thesis
    by (rule probe_verdict)
qed

end

lemma tls_probe_verdict:
  assumes "unat len \<le> length data"
  shows "\<exists>r. tls_probing_parser data len = Some r \<and> r \<in> {APP_PROTO_UNKNOWN, APP_PROTO_FAILED, APP_PROTO_TLS}"
proof (cases "len < 5")
  case True
  then show ?thesis
    by (simp add: tls_probing_parser_def)
next
  case False
  then have l: "5 \<le> length data" "6 \<le> len \<Longrightarrow> 6 \<le> length data"
    using assms by (auto simp: word_less_nat_alt word_le_nat_alt)
  then have "data \<noteq> []"
    by auto
  then show ?thesis
    using l False by (auto simp: tls_probing_parser_def rd_simps)
qed

lemma dns_qname_loop_total:
  assumes "len \<le> length data"
  shows "dns_qname_loop data len off \<noteq> None"
  using assms
proof (induction data len off rule: dns_qname_loop.induct)
  case (1 data len off)
  show ?case
  proof (cases "len \<le> off")
    case False
    then have off: "off < length data"
      using 1(2) by simp
    then show ?thesis
      using 1(1) [OF False, of "data ! off"] 1(2) False
      by (subst dns_qname_loop.simps) (auto simp: rd8_Some)
  qed (simp add: dns_qname_loop.simps)
qed

lemma dns_question_check_verdict:
  assumes "len \<le> length data"
  shows "\<exists>r. dns_question_check data len = Some r \<and> r \<in> {None, Some APP_PROTO_FAILED, Some APP_PROTO_DNS}"
proof -
  obtain r where "dns_qname_loop data len 12 = Some r"
    using dns_qname_loop_total [OF assms] by blast
  then show ?thesis
    using assms by (auto simp: dns_question_check_def rd_simps split: option.splits prod.splits)
qed

lemma dns_probe_verdict:
  assumes "unat len \<le> length data"
  shows "\<exists>r. dns_probing_parser data len = Some r \<and> r \<in> {APP_PROTO_UNKNOWN, APP_PROTO_FAILED, APP_PROTO_DNS}"
proof (cases "len < 12")
  case True
  then show ?thesis
    by (simp add: dns_probing_parser_def)
next
  case False
  then have "12 \<le> length data"
    using assms by (simp add: word_less_nat_alt)
  then show ?thesis
    using False dns_question_check_verdict [OF assms]
    by (auto simp: dns_probing_parser_def rd_simps Let_def split: option.splits)
qed

interpretation tls_prober: prober_contract tls_probing_parser APP_PROTO_TLS
  by unfold_locales (rule tls_probe_verdict)

interpretation dns_prober: prober_contract dns_probing_parser APP_PROTO_DNS
  by unfold_locales (rule dns_probe_verdict)

lemma run_prober_total:
  "unat len \<le> length data \<Longrightarrow> \<exists>r. run_prober fn data (probe_window maxd len) = Some r \<and> r \<noteq> APP_PROTO_MAX"
  using tls_prober.probe_window_verdict [of len data maxd] dns_prober.probe_window_verdict [of len data maxd]
  by (cases fn) auto

lemma prober_scan_total:
  "unat len \<le> length data \<Longrightarrow> \<exists>r. prober_scan port data len direction ps = Some r \<and> r \<noteq> APP_PROTO_MAX"
proof (induction ps)
  case (Cons p ps)
  then show ?case
    using run_prober_total [of len data "pr_fn p" "pr_max_depth p"] by auto
qed simp

section \<open>Safety of detection\<close>

text \<open>A registered pattern has the length it says, is not empty, detects a protocol, and its depth
  is unlimited or reaches to its offset.\<close>

definition pattern_ok :: "proto_pattern \<Rightarrow> bool" where
  "pattern_ok p \<longleftrightarrow> pt_pattern p \<noteq> [] \<and> length (pt_pattern p) = unat (pt_len p) \<and>
     pt_protocol p \<noteq> APP_PROTO_UNKNOWN \<and> (pt_depth p = 0 \<or> pt_offset p \<le> pt_depth p)"

lemma search_window_bound:
  assumes "pattern_ok p" "\<not> (0 < pt_offset p \<and> len < ucast (pt_offset p))" "unat len \<le> length data"
  shows "unat (pt_offset p) + unat (search_window p len) \<le> length data"
proof -
  define w where "w = (if 0 < pt_depth p \<and> ucast (pt_depth p) < len then ucast (pt_depth p) else len)"
  have "unat w \<le> length data"
    using assms(3) by (auto simp: w_def word_less_nat_alt)
  moreover have le: "unat (pt_offset p) \<le> unat w"
    using assms(1,2) by (auto simp: w_def pattern_ok_def word_less_nat_alt word_le_nat_alt)
  ultimately show ?thesis
    using unat_sub [of "ucast (pt_offset p)" w]
    by (simp add: search_window_def w_def [symmetric] word_le_nat_alt)
qed

lemma pattern_scan_total:
  "list_all pattern_ok ps \<Longrightarrow> unat len \<le> length data \<Longrightarrow>
   \<exists>r. pattern_scan data len ps = Some r \<and> r \<noteq> Some APP_PROTO_UNKNOWN"
proof (induction ps)
  case (Cons p ps)
  show ?case
  proof (cases "0 < pt_offset p \<and> len < ucast (pt_offset p)")
    case True
    then show ?thesis
      using Cons by auto
  next
    case False
    then have "unat (pt_offset p) + unat (search_window p len) \<le> length data"
      using Cons.prems search_window_bound [of p len data] by simp
    then show ?thesis
      using Cons False pattern_match_contains [of "pt_pattern p" "pt_len p" "unat (pt_offset p)"
        "search_window p len" data "pt_case_sensitive p"]
      by (auto simp: pattern_ok_def)
  qed
qed simp

definition ctx_ok :: "proto_detect_ctx \<Rightarrow> bool" where
  "ctx_ok ctx \<longleftrightarrow> list_all pattern_ok (patterns_ts ctx) \<and> list_all pattern_ok (patterns_tc ctx)"

text \<open>A result that counts as a detection names a protocol.\<close>

definition verdict_ok :: "int \<times> proto_detect_ctx \<times> proto_detect_result \<Rightarrow> bool" where
  "verdict_ok v \<longleftrightarrow> (case v of (r, c, res) \<Rightarrow>
     ctx_ok c \<and> (r = 0 \<and> protocol res \<noteq> APP_PROTO_UNKNOWN \<or> r = -1 \<and> protocol res = APP_PROTO_UNKNOWN))"

lemma detect_by_port_ok:
  "ctx_ok ctx \<Longrightarrow> protocol res = APP_PROTO_UNKNOWN \<Longrightarrow> verdict_ok (detect_by_port cfg ctx f direction res)"
  by (auto simp: detect_by_port_def verdict_ok_def ctx_ok_def)

lemma detect_by_prober_ok:
  fixes f :: "'p flow"
  assumes "ctx_ok ctx" "protocol res = APP_PROTO_UNKNOWN" "unat len \<le> length data"
  shows "\<exists>v. detect_by_prober cfg ctx f data len direction res = Some v \<and> verdict_ok v"
proof -
  obtain r where r: "prober_scan (detect_port f direction) data len direction (probers ctx) = Some r"
    using prober_scan_total [OF assms(3)] by blast
  have "ctx_ok (ctx\<lparr>detections_by_prober := n\<rparr>)" "ctx_ok (ctx\<lparr>detection_failures := n\<rparr>)" for n
    using assms(1) by (simp_all add: ctx_ok_def)
  then show ?thesis
    using assms(1,2) r detect_by_port_ok [of ctx res cfg f direction]
    by (auto simp: detect_by_prober_def try_prober_detection_def) (auto simp: verdict_ok_def)
qed

lemma detect_stages_ok:
  fixes f :: "'p flow"
  assumes "ctx_ok ctx" "protocol res = APP_PROTO_UNKNOWN" "unat len \<le> length data"
  shows "\<exists>v. detect_stages cfg ctx f data len direction res = Some v \<and> verdict_ok v"
proof -
  define ps where "ps = (if direction = PROTO_DETECT_DIR_TOSERVER then patterns_ts ctx else patterns_tc ctx)"
  have "list_all pattern_ok ps"
    using assms(1) by (simp add: ctx_ok_def ps_def)
  then obtain r where r: "pattern_scan data len ps = Some r" "r \<noteq> Some APP_PROTO_UNKNOWN"
    using pattern_scan_total [of ps len data] assms(3) by blast
  have "ctx_ok (ctx\<lparr>detections_by_pattern := n\<rparr>)" for n
    using assms(1) by (simp add: ctx_ok_def)
  then show ?thesis
    using assms r detect_by_prober_ok [OF assms, of cfg f direction]
    by (cases r) (auto simp: detect_stages_def try_pattern_detection_def ps_def verdict_ok_def split: option.splits)
qed

section \<open>Registration as a machine\<close>

datatype pd_op =
    OpPattern app_proto "bytes option" u16 u16 u16 u8 bool
  | OpProber app_proto u16 u16 u16 u8 "probing_parser_fn option"

fun pd_step :: "rte_env \<Rightarrow> pd_op \<Rightarrow> proto_detect_global \<Rightarrow> proto_detect_global option" where
  "pd_step env (OpPattern pr pat plen depth off dir cs) g =
     map_option snd (proto_detect_register_pattern env pr pat plen depth off dir cs g)"
| "pd_step env (OpProber pr port mind maxd dir fn) g =
     Some (snd (proto_detect_register_prober env pr port mind maxd dir fn g))"

text \<open>What a caller of \<^verbatim>\<open>proto_detect_register_pattern\<close> owes: the string has the stated length, the
  protocol is a protocol, and a depth limit is not below the offset.\<close>

fun pd_legal :: "pd_op \<Rightarrow> proto_detect_global \<Rightarrow> bool" where
  "pd_legal (OpPattern pr pat plen depth off dir cs) g =
     (pr \<noteq> APP_PROTO_UNKNOWN \<and> (depth = 0 \<or> off \<le> depth) \<and>
      (case pat of None \<Rightarrow> True | Some p \<Rightarrow> unat plen \<le> length p))"
| "pd_legal (OpProber pr port mind maxd dir fn) g = True"

text \<open>In addition: no pattern is registered for both directions at once.\<close>

fun pd_legal_single :: "pd_op \<Rightarrow> proto_detect_global \<Rightarrow> bool" where
  "pd_legal_single (OpPattern pr pat plen depth off dir cs) g =
     (pd_legal (OpPattern pr pat plen depth off dir cs) g \<and>
      \<not> (pd_has_dir dir PROTO_DETECT_DIR_TOSERVER \<and> pd_has_dir dir PROTO_DETECT_DIR_TOCLIENT))"
| "pd_legal_single (OpProber pr port mind maxd dir fn) g = True"

definition pd_patterns_inv :: "proto_detect_global \<Rightarrow> bool" where
  "pd_patterns_inv g \<longleftrightarrow> list_all pattern_ok (global_patterns_ts g) \<and> list_all pattern_ok (global_patterns_tc g)"

definition pd_blocks :: "proto_detect_global \<Rightarrow> nat list" where
  "pd_blocks g = map pt_block (global_patterns_ts g) @ map pt_block (global_patterns_tc g)"

definition pd_blocks_inv :: "proto_detect_global \<Rightarrow> bool" where
  "pd_blocks_inv g \<longleftrightarrow> distinct (pd_blocks g) \<and> set (pd_blocks g) \<subseteq> set (pd_live g) \<and>
     (\<forall>b \<in> set (pd_live g). b < pd_nalloc g)"

lemma blit_whole: "n \<le> length src \<Longrightarrow> blit (fresh_block env k n) 0 src n = Some (take n src)"
  by (simp add: blit_Some)

lemma register_pattern_cases:
  assumes "pd_legal (OpPattern pr pat plen depth off dir cs) g"
  obtains (refused) r n where "proto_detect_register_pattern env pr pat plen depth off dir cs g =
            Some (r, g\<lparr>pd_nalloc := n\<rparr>)" "pd_nalloc g \<le> n"
  | (added) p g2 where "proto_detect_register_pattern env pr pat plen depth off dir cs g =
      Some (0, (pd_add_pattern env p g2)\<lparr>patterns_registered := patterns_registered (pd_add_pattern env p g2) + 1\<rparr>)"
      "g2 = g\<lparr>pd_nalloc := pd_nalloc g + 2, pd_live := (pd_nalloc g + 1) # pd_live g\<rparr>"
      "pattern_ok p" "pt_block p = pd_nalloc g + 1" "pt_direction p = dir"
proof -
  show thesis
  proof (cases "pat = None \<or> plen = 0")
    case True
    then show thesis
      using refused [of "-1" "pd_nalloc g"] by (cases pat) (auto simp: proto_detect_register_pattern_def)
  next
    case False
    then obtain s where s: "pat = Some s" "unat plen \<le> length s" "plen \<noteq> 0"
      using assms by auto
    show thesis
    proof (cases "malloc_ok env (pd_nalloc g) \<and> malloc_ok env (pd_nalloc g + 1)")
      case True
      have "unat plen \<noteq> 0"
        using s(3) by (simp add: unat_eq_0)
      then show thesis
        using True s assms
        by (intro added [of "\<lparr>pt_protocol = pr, pt_block = pd_nalloc g + 1, pt_pattern = take (unat plen) s,
              pt_len = plen, pt_depth = depth, pt_offset = off, pt_direction = dir, pt_case_sensitive = cs\<rparr>"])
           (auto simp: proto_detect_register_pattern_def blit_whole Let_def pattern_ok_def)
    next
      case False
      then consider "\<not> malloc_ok env (pd_nalloc g)"
        | "malloc_ok env (pd_nalloc g)" "\<not> malloc_ok env (pd_nalloc g + 1)" by blast
      then show thesis
      proof cases
        case 1
        then show thesis
          using s by (intro refused [of "-1" "pd_nalloc g + 1"]) (simp_all add: proto_detect_register_pattern_def)
      next
        case 2
        then show thesis
          using s by (intro refused [of "-1" "pd_nalloc g + 2"])
            (simp_all add: proto_detect_register_pattern_def)
      qed
    qed
  qed
qed

lemma pd_add_pattern_patterns:
  "pattern_ok p \<Longrightarrow> pd_patterns_inv g \<Longrightarrow> pd_patterns_inv (pd_add_pattern env p g)"
  by (auto simp: pd_patterns_inv_def pd_add_pattern_def Let_def)

lemma pd_add_pattern_blocks:
  assumes "pd_blocks_inv g" "\<not> (pd_has_dir (pt_direction p) PROTO_DETECT_DIR_TOSERVER \<and>
      pd_has_dir (pt_direction p) PROTO_DETECT_DIR_TOCLIENT)" "pt_block p = pd_nalloc g + 1"
  shows "pd_blocks_inv (pd_add_pattern env p (g\<lparr>pd_nalloc := pd_nalloc g + 2, pd_live := (pd_nalloc g + 1) # pd_live g\<rparr>))"
proof -
  have "Suc (pd_nalloc g) \<notin> set (pd_live g)"
    using assms(1) by (auto simp: pd_blocks_inv_def)
  then show ?thesis
    using assms by (auto simp: pd_blocks_inv_def pd_blocks_def pd_add_pattern_def Let_def)
qed

lemma pd_step_patterns:
  assumes "pd_patterns_inv g" "pd_legal x g"
  shows "\<exists>g'. pd_step env x g = Some g' \<and> pd_patterns_inv g'"
proof (cases x)
  case (OpPattern pr pat plen depth off dir cs)
  then have "pd_legal (OpPattern pr pat plen depth off dir cs) g"
    using assms(2) by simp
  then show ?thesis
  proof (cases rule: register_pattern_cases [where env = env])
    case (refused r n)
    then show ?thesis
      using assms(1) OpPattern by (auto simp: pd_patterns_inv_def)
  next
    case (added p g2)
    then have "pd_patterns_inv (pd_add_pattern env p g2)"
      using assms(1) by (intro pd_add_pattern_patterns) (auto simp: pd_patterns_inv_def)
    then show ?thesis
      using added OpPattern by (auto simp: pd_patterns_inv_def)
  qed
next
  case (OpProber pr port mind maxd dir fn)
  then show ?thesis
    using assms(1)
    by (auto simp: pd_patterns_inv_def proto_detect_register_prober_def Let_def split: option.splits)
qed

lemma pd_step_blocks:
  assumes "pd_blocks_inv g" "pd_legal_single x g"
  shows "\<exists>g'. pd_step env x g = Some g' \<and> pd_blocks_inv g'"
proof (cases x)
  case (OpPattern pr pat plen depth off dir cs)
  then have "pd_legal (OpPattern pr pat plen depth off dir cs) g"
    using assms(2) by simp
  then show ?thesis
  proof (cases rule: register_pattern_cases [where env = env])
    case (refused r n)
    then show ?thesis
      using assms(1) OpPattern by (fastforce simp: pd_blocks_inv_def pd_blocks_def)
  next
    case (added p g2)
    then have "pd_blocks_inv (pd_add_pattern env p g2)"
      using assms OpPattern pd_add_pattern_blocks [of g p env] by simp
    then show ?thesis
      using added OpPattern by (auto simp: pd_blocks_inv_def pd_blocks_def)
  qed
next
  case (OpProber pr port mind maxd dir fn)
  then show ?thesis
    using assms(1)
    by (fastforce simp: pd_blocks_inv_def pd_blocks_def proto_detect_register_prober_def Let_def split: option.splits)
qed

interpretation pd_detect: guarded_machine "pd_step env" pd_legal pd_patterns_inv for env
  by unfold_locales (rule pd_step_patterns)

interpretation pd_memory: guarded_machine "pd_step env" pd_legal_single pd_blocks_inv for env
  by unfold_locales (rule pd_step_blocks)

lemma pd_static_inv: "pd_patterns_inv pd_static" "pd_blocks_inv pd_static"
  by (simp_all add: pd_static_def pd_patterns_inv_def pd_blocks_inv_def pd_blocks_def)

lemma free_patterns_all:
  "distinct (map pt_block ps) \<Longrightarrow> pt_block ` set ps \<subseteq> set live \<Longrightarrow>
   \<exists>live'. free_patterns ps live = Some live' \<and> set live - pt_block ` set ps \<subseteq> set live'"
proof (induction ps arbitrary: live)
  case (Cons p ps)
  have keep: "x \<in> set live \<Longrightarrow> x \<noteq> pt_block p \<Longrightarrow> x \<in> set (remove1 (pt_block p) live)" for x
    by simp
  have "b \<in> set live \<and> b \<noteq> pt_block p" if "b \<in> pt_block ` set ps" for b
    using that Cons.prems by (metis distinct.simps(2) list.simps(9) list.set_map image_insert insert_subset list.simps(15) subsetD)
  then have "pt_block ` set ps \<subseteq> set (remove1 (pt_block p) live)"
    using keep by blast
  then obtain live' where live': "free_patterns ps (remove1 (pt_block p) live) = Some live'"
      "set (remove1 (pt_block p) live) - pt_block ` set ps \<subseteq> set live'"
    using Cons.IH [of "remove1 (pt_block p) live"] Cons.prems by auto
  have "set live - pt_block ` set (p # ps) \<subseteq> set live'"
    unfolding list.set(2) image_insert using live'(2) keep by blast
  then show ?case
    using Cons.prems live'(1) by simp
qed simp

lemma cleanup_defined: "pd_blocks_inv g \<Longrightarrow> proto_detect_cleanup g \<noteq> None"
proof -
  assume inv: "pd_blocks_inv g"
  then obtain l1 where l1: "free_patterns (global_patterns_ts g) (pd_live g) = Some l1"
      "set (pd_live g) - pt_block ` set (global_patterns_ts g) \<subseteq> set l1"
    using free_patterns_all [of "global_patterns_ts g" "pd_live g"]
    by (auto simp: pd_blocks_inv_def pd_blocks_def)
  have "pt_block ` set (global_patterns_tc g) \<subseteq> set (pd_live g) - pt_block ` set (global_patterns_ts g)"
    using inv by (auto simp: pd_blocks_inv_def pd_blocks_def)
  then have "pt_block ` set (global_patterns_tc g) \<subseteq> set l1"
    using l1(2) by (rule order_trans)
  then show ?thesis
    using inv l1(1) free_patterns_all [of "global_patterns_tc g" l1]
    by (auto simp: proto_detect_cleanup_def pd_blocks_inv_def pd_blocks_def)
qed

section \<open>Properties\<close>

text \<open>Whatever patterns and probers are registered (strings of the stated length, no depth
  limit below the offset), and for every packet, direction and configuration, detection reads only
  inside the packet; it returns 0 exactly when it names a protocol (possibly \<^verbatim>\<open>FAILED\<close>) and -1 with
  \<^verbatim>\<open>UNKNOWN\<close> otherwise.\<close>

theorem detection_safe_after_registration:
  fixes f :: "'p flow"
  assumes "legal_run (pd_step env) pd_legal ops pd_static" "run_ops (pd_step env) ops pd_static = Some g"
    and "proto_detect_ctx_create env g = (g', Some ctx)" "unat len \<le> length data"
  shows "\<exists>r ctx' res. proto_detect_get_proto cfg (Some ctx) (Some f) (Some data) len direction (Some res0) =
           Some (r, Some ctx', Some res) \<and>
         (r = 0 \<and> protocol res \<noteq> APP_PROTO_UNKNOWN \<or> r = -1 \<and> protocol res = APP_PROTO_UNKNOWN)"
proof -
  have "pd_patterns_inv g"
    using pd_detect.run_inv [OF pd_static_inv(1) assms(1,2)] .
  then have ctx: "ctx_ok ctx"
    using assms(3)
    by (auto simp: proto_detect_ctx_create_def Let_def ctx_ok_def pd_patterns_inv_def split: if_splits)
  define l where "l = (if max_inspect_depth cfg < len then max_inspect_depth cfg else len)"
  have "unat l \<le> length data"
    using assms(4) by (auto simp: l_def word_less_nat_alt)
  then obtain v where "detect_stages cfg ctx f data l direction detect_unknown = Some v" "verdict_ok v"
    using detect_stages_ok [OF ctx, of detect_unknown l data cfg f direction] by (auto simp: detect_unknown_def)
  then show ?thesis
    by (auto simp: proto_detect_get_proto_def l_def [symmetric] Let_def verdict_ok_def detect_unknown_def)
qed

text \<open>As long as no pattern is registered for both directions, \<^verbatim>\<open>proto_detect_cleanup\<close> frees every
  pattern string exactly once.\<close>

theorem cleanup_safe_single_direction:
  assumes "legal_run (pd_step env) pd_legal_single ops pd_static" "run_ops (pd_step env) ops pd_static = Some g"
  shows "\<exists>g'. proto_detect_cleanup g = Some g' \<and> global_patterns_ts g' = [] \<and> global_patterns_tc g' = []
           \<and> global_probers g' = []"
proof -
  have "pd_blocks_inv g"
    using pd_memory.run_inv [OF pd_static_inv(2) assms] .
  then obtain g' where "proto_detect_cleanup g = Some g'"
    using cleanup_defined by blast
  then show ?thesis
    by (auto simp: proto_detect_cleanup_def split: bind_split_asm)
qed

definition all_ok_env :: rte_env where
  "all_ok_env = \<lparr>malloc_ok = \<lambda>_. True, malloc_junk = \<lambda>_ _. 0\<rparr>"

definition demo_ops :: "pd_op list" where
  "demo_ops = [OpPattern APP_PROTO_SSH (Some (str ''SSH-'')) 4 4 0 PROTO_DETECT_DIR_TOSERVER True,
     OpProber APP_PROTO_DNS 53 12 512 PROTO_DETECT_DIR_BOTH (Some DNS_PROBING_PARSER)]"

lemma str_simps: "str [] = []" "str (c # s) = of_char c # str s"
  by (simp_all add: str_def)

lemma length_str [simp]: "length (str s) = length s"
  by (simp add: str_def)

lemma demo_ops_legal:
  "legal_run (pd_step env) pd_legal demo_ops g" "legal_run (pd_step env) pd_legal_single demo_ops g"
  by (intro legal_run_always; auto simp: demo_ops_def pd_has_dir_def pd_dirs)+

lemma demo_ops_run: "\<exists>g. run_ops (pd_step all_ok_env) demo_ops pd_static = Some g"
  using pd_detect.run_safe [OF pd_static_inv(1) demo_ops_legal(1)] by blast

theorem detection_safe_after_registration_witness:
  "\<exists>g ctx r ctx' res. run_ops (pd_step all_ok_env) demo_ops pd_static = Some g \<and>
     snd (proto_detect_ctx_create all_ok_env g) = Some ctx \<and>
     proto_detect_get_proto (global_config g) (Some ctx) (Some (flow_zero :: unit flow)) (Some (str ''SSH-2.0'')) 7 1
       (Some detect_unknown) = Some (r, Some ctx', Some res) \<and> (r = 0 \<or> r = -1)"
proof -
  obtain g where g: "run_ops (pd_step all_ok_env) demo_ops pd_static = Some g"
    using demo_ops_run by blast
  obtain g' ctx where c: "proto_detect_ctx_create all_ok_env g = (g', Some ctx)"
    by (simp add: proto_detect_ctx_create_def all_ok_env_def Let_def)
  have "unat (7 :: u32) \<le> length (str ''SSH-2.0'')"
    by simp
  then show ?thesis
    using detection_safe_after_registration [OF demo_ops_legal(1) g c, of 7 "str ''SSH-2.0''" "global_config g"
      "flow_zero :: unit flow" 1 detect_unknown] g c by fastforce
qed

theorem cleanup_safe_single_direction_witness:
  "\<exists>g g'. run_ops (pd_step all_ok_env) demo_ops pd_static = Some g \<and> proto_detect_cleanup g = Some g'"
proof -
  obtain g where g: "run_ops (pd_step all_ok_env) demo_ops pd_static = Some g"
    using demo_ops_run by blast
  then show ?thesis
    using cleanup_safe_single_direction [OF demo_ops_legal(2) g] by blast
qed

text \<open>A pattern registered for both directions has its string shared by two entries, and
  cleaning up frees it twice.\<close>

theorem cleanup_double_free:
  "map_option fst (proto_detect_register_pattern all_ok_env APP_PROTO_SSH (Some [83, 83, 72]) 3 0 0
     PROTO_DETECT_DIR_BOTH True pd_static) = Some 0 \<and>
   Option.bind (proto_detect_register_pattern all_ok_env APP_PROTO_SSH (Some [83, 83, 72]) 3 0 0
     PROTO_DETECT_DIR_BOTH True pd_static) (\<lambda>(r, g). proto_detect_cleanup g) = None"
  by code_simp

lemma overread_loop: "pm_loop True [0, 0, 0, 0] 2 [83] 1 n = None" if "3 \<le> n"
proof -
  obtain k where "n = 3 + k"
    using \<open>3 \<le> n\<close> le_Suc_ex by blast
  then have "n = Suc (Suc (Suc k))"
    by simp
  then show ?thesis
    by (simp add: rd8_def)
qed

lemma wrapped_search: "pattern_match [0, 0, 0, 0] 2 (- 1) [83] 1 True = None"
proof -
  have "3 \<le> unat (- 1 :: u32) - unat (1 :: u16) + 1"
    by (simp add: unsigned_minus_1_eq_mask mask_eq_exp_minus_1)
  then have "pm_loop True [0, 0, 0, 0] 2 [83] 1 (unat (- 1 :: u32) - unat (1 :: u16) + 1) = None"
    by (rule overread_loop)
  then show ?thesis
    by (simp add: pattern_match_def del: pm_loop.simps)
qed

text \<open>\<^verbatim>\<open>try_pattern_detection\<close> with a pattern whose depth limit (1) is below its offset (2): the
  search length wraps around and the search reads beyond a packet of four bytes.\<close>

theorem depth_below_offset_overreads:
  "try_pattern_detection
     \<lparr>patterns_ts = [\<lparr>pt_protocol = APP_PROTO_SSH, pt_block = 1, pt_pattern = [83], pt_len = 1, pt_depth = 1,
        pt_offset = 2, pt_direction = 1, pt_case_sensitive = True\<rparr>], patterns_tc = [], probers = [],
      detections_by_pattern = 0, detections_by_prober = 0, detections_by_port = 0, detection_failures = 0\<rparr>
     [0, 0, 0, 0] 4 PROTO_DETECT_DIR_TOSERVER = None"
  by (simp add: try_pattern_detection_def search_window_def wrapped_search)

section \<open>The built-in detectors\<close>

text \<open>Everything but the heap block of a pattern.\<close>

definition anon :: "proto_pattern \<Rightarrow> proto_pattern" where
  "anon p = p\<lparr>pt_block := 0\<rparr>"

definition http_entry :: "u16 \<Rightarrow> u8 \<Rightarrow> bytes \<Rightarrow> proto_pattern" where
  "http_entry depth dir m = \<lparr>pt_protocol = APP_PROTO_HTTP, pt_block = 0, pt_pattern = m,
     pt_len = of_nat (length m), pt_depth = depth, pt_offset = 0, pt_direction = dir, pt_case_sensitive = False\<rparr>"

lemma anon_fields [simp]:
  "pt_protocol (anon p) = pt_protocol p" "pt_pattern (anon p) = pt_pattern p" "pt_len (anon p) = pt_len p"
  "pt_offset (anon p) = pt_offset p" "pt_case_sensitive (anon p) = pt_case_sensitive p"
  "search_window (anon p) = search_window p"
  by (simp_all add: anon_def search_window_def fun_eq_iff)

lemma pattern_scan_anon: "pattern_scan data len (map anon ps) = pattern_scan data len ps"
  by (induction ps) (simp_all cong: if_cong)

lemma register_http_one:
  assumes "\<forall>n. malloc_ok env n" "m \<noteq> []" "length m < 65536" "dir = 1 \<or> dir = 2"
  shows "\<exists>g'. proto_detect_register_pattern env APP_PROTO_HTTP (Some m) (of_nat (length m)) depth 0 dir False g
             = Some (0, g') \<and>
     map anon (global_patterns_ts g') =
       (if dir = 1 then [http_entry depth dir m] else []) @ map anon (global_patterns_ts g) \<and>
     map anon (global_patterns_tc g') =
       (if dir = 2 then [http_entry depth dir m] else []) @ map anon (global_patterns_tc g) \<and>
     global_probers g' = global_probers g \<and> global_config g' = global_config g"
proof -
  have u: "unat (of_nat (length m) :: u16) = length m"
    using assms(3) by (rule unat_of_nat_u16)
  then have "(of_nat (length m) :: u16) \<noteq> 0"
    using assms(2) by (metis length_0_conv unsigned_0)
  then show ?thesis
    using assms(1,4) u
    by (auto simp: proto_detect_register_pattern_def blit_whole pd_add_pattern_def pd_has_dir_def pd_dirs
        anon_def http_entry_def Let_def simp del: of_nat_eq_0_iff)
qed

lemma register_http_list:
  assumes "\<forall>n. malloc_ok env n" "dir = 1 \<or> dir = 2"
  shows "\<forall>m \<in> set ms. m \<noteq> [] \<and> length m < 65536 \<Longrightarrow>
    \<exists>g'. register_http_patterns env depth dir ms g = Some g' \<and>
     map anon (global_patterns_ts g') =
       (if dir = 1 then rev (map (http_entry depth dir) ms) else []) @ map anon (global_patterns_ts g) \<and>
     map anon (global_patterns_tc g') =
       (if dir = 2 then rev (map (http_entry depth dir) ms) else []) @ map anon (global_patterns_tc g) \<and>
     global_probers g' = global_probers g \<and> global_config g' = global_config g"
proof (induction ms arbitrary: g)
  case (Cons m ms)
  obtain g1 where "proto_detect_register_pattern env APP_PROTO_HTTP (Some m) (of_nat (length m)) depth 0 dir False g
             = Some (0, g1)"
     "map anon (global_patterns_ts g1) =
       (if dir = 1 then [http_entry depth dir m] else []) @ map anon (global_patterns_ts g)"
     "map anon (global_patterns_tc g1) =
       (if dir = 2 then [http_entry depth dir m] else []) @ map anon (global_patterns_tc g)"
     "global_probers g1 = global_probers g" "global_config g1 = global_config g"
    using register_http_one [OF assms(1) _ _ assms(2), of m depth g] Cons.prems by auto
  then show ?case
    using Cons.IH [of g1] Cons.prems assms(2) by auto
qed simp

definition builtin_probers :: "proto_prober list" where
  "builtin_probers =
    [\<lparr>pr_protocol = APP_PROTO_DNS, pr_port = 0, pr_min_depth = 12, pr_max_depth = 512, pr_direction = 3,
      pr_fn = DNS_PROBING_PARSER\<rparr>,
     \<lparr>pr_protocol = APP_PROTO_DNS, pr_port = 53, pr_min_depth = 12, pr_max_depth = 512, pr_direction = 3,
      pr_fn = DNS_PROBING_PARSER\<rparr>,
     \<lparr>pr_protocol = APP_PROTO_TLS, pr_port = 0, pr_min_depth = 5, pr_max_depth = 64, pr_direction = 3,
      pr_fn = TLS_PROBING_PARSER\<rparr>,
     \<lparr>pr_protocol = APP_PROTO_TLS, pr_port = 443, pr_min_depth = 5, pr_max_depth = 64, pr_direction = 3,
      pr_fn = TLS_PROBING_PARSER\<rparr>]"

lemma http_strings_ok:
  "\<forall>m \<in> set http_methods. m \<noteq> [] \<and> length m < 65536" "\<forall>m \<in> set http_versions. m \<noteq> [] \<and> length m < 65536"
  by (simp_all add: http_methods_def http_versions_def str_simps)

lemma builtin_ctx:
  assumes ok: "\<forall>n. malloc_ok env n" and init: "proto_detect_init env None pd_static = Some (r, g)"
    and ctx: "proto_detect_ctx_create env g = (g', Some ctx)"
  shows "map anon (patterns_ts ctx) = rev (map (http_entry 8 1) http_methods)"
    "map anon (patterns_tc ctx) = rev (map (http_entry 16 2) http_versions)"
    "probers ctx = builtin_probers" "global_config g = global_config pd_static"
proof -
  obtain g1 where g1: "register_http_patterns env 8 1 http_methods pd_static = Some g1"
      "map anon (global_patterns_ts g1) = rev (map (http_entry 8 1) http_methods)"
      "map anon (global_patterns_tc g1) = []" "global_probers g1 = []" "global_config g1 = global_config pd_static"
    using register_http_list [OF ok, of 1 http_methods 8 pd_static] http_strings_ok(1)
    by (auto simp: pd_static_def)
  obtain g2 where g2: "register_http_patterns env 16 2 http_versions g1 = Some g2"
      "map anon (global_patterns_ts g2) = rev (map (http_entry 8 1) http_methods)"
      "map anon (global_patterns_tc g2) = rev (map (http_entry 16 2) http_versions)"
      "global_probers g2 = []" "global_config g2 = global_config pd_static"
    using register_http_list [OF ok, of 2 http_versions 16 g1] http_strings_ok(2) g1 by auto
  have "global_patterns_ts g = global_patterns_ts g2 \<and> global_patterns_tc g = global_patterns_tc g2 \<and>
      global_probers g = builtin_probers \<and> global_config g = global_config g2"
    using init g1(1) g2(1,4) ok
    by (auto simp: proto_detect_init_def proto_detect_register_http_def proto_detect_register_tls_def
        proto_detect_register_dns_def proto_detect_register_prober_def builtin_probers_def Let_def pd_dirs)
  then show "map anon (patterns_ts ctx) = rev (map (http_entry 8 1) http_methods)"
    "map anon (patterns_tc ctx) = rev (map (http_entry 16 2) http_versions)"
    "probers ctx = builtin_probers" "global_config g = global_config pd_static"
    using g2 ctx by (auto simp: proto_detect_ctx_create_def Let_def split: if_splits)
qed

lemma get_proto_builtin:
  fixes f :: "'p flow"
  assumes "l = (if 4096 < len then 4096 else len)" "\<not> l < 4"
  shows "proto_detect_get_proto (global_config pd_static) (Some ctx) (Some f) (Some data) len direction (Some res) =
    map_option (\<lambda>(r, c, res). (r, Some c, Some res))
      (detect_stages (global_config pd_static) ctx f data l direction detect_unknown)"
  using assms by (auto simp: proto_detect_get_proto_def pd_static_def Let_def)

subsection \<open>HTTP requests\<close>

lemma prefix_by_contains: "prefix_by f p s \<Longrightarrow> contains_by f p s"
  by (cases s) auto

lemma http_entry_ok: "m \<noteq> [] \<Longrightarrow> length m < 65536 \<Longrightarrow> pattern_ok (http_entry depth dir m)"
  by (simp add: pattern_ok_def http_entry_def unat_of_nat_u16 del: of_nat_eq_0_iff)

lemma http_scan:
  assumes "\<forall>m \<in> set ms. m \<noteq> [] \<and> length m < 65536" "unat len \<le> length data"
  shows "pattern_scan data len (map (http_entry depth dir) ms) =
    Some (if \<exists>m \<in> set ms. contains_by c_tolower m (take (unat (search_window (http_entry depth dir []) len)) data)
          then Some APP_PROTO_HTTP else None)"
  using assms(1)
proof (induction ms)
  case (Cons m ms)
  have w: "search_window (http_entry depth dir m) len = search_window (http_entry depth dir []) len"
    by (simp add: search_window_def http_entry_def)
  have b: "unat (search_window (http_entry depth dir m) len) \<le> length data"
    using search_window_bound [of "http_entry depth dir m" len data] assms(2) Cons.prems http_entry_ok
    by (simp add: http_entry_def)
  have "pattern_match data 0 (search_window (http_entry depth dir m) len) m (of_nat (length m)) False =
      Some (contains_by c_tolower m (take (unat (search_window (http_entry depth dir m) len)) data))"
    using pattern_match_contains [of m "of_nat (length m)" 0 "search_window (http_entry depth dir m) len" data False]
      b Cons.prems by (simp add: unat_of_nat_u16 bslice_def pat_fold_def)
  then show ?case
    using Cons w by (simp add: http_entry_def [of depth dir m] flip: w)
qed simp

text \<open>A payload that begins with one of the HTTP methods, in any letter case, is detected as HTTP
  with high confidence in the direction to the server.\<close>

theorem http_request_detected:
  fixes f :: "'p flow"
  assumes "\<forall>n. malloc_ok env n" "proto_detect_init env None pd_static = Some (r, g)"
    and "proto_detect_ctx_create env g = (g', Some ctx)"
    and "m \<in> set http_methods" "prefix_by c_tolower m data" "unat len \<le> length data" "length m \<le> unat len"
  shows "\<exists>ctx' res'. proto_detect_get_proto (global_config g) (Some ctx) (Some f) (Some data) len
      PROTO_DETECT_DIR_TOSERVER (Some res) = Some (0, Some ctx', Some res') \<and>
      protocol res' = APP_PROTO_HTTP \<and> confidence res' = PROTO_CONFIDENCE_HIGH"
proof -
  note ctx = builtin_ctx [OF assms(1-3)]
  define l where "l = (if 4096 < len then 4096 else len)"
  have m: "4 \<le> length m" "length m \<le> 8"
    using assms(4) by (auto simp: http_methods_def)
  have l: "unat l \<le> length data" "length m \<le> unat l"
    using assms(6,7) m by (auto simp: l_def word_less_nat_alt)
  have "length m \<le> unat (search_window (http_entry 8 1 []) l)"
    using l m by (auto simp: search_window_def http_entry_def)
  then have "prefix_by c_tolower m (take (unat (search_window (http_entry 8 1 []) l)) data)"
    using assms(5) prefix_by_take by metis
  then have "\<exists>m \<in> set http_methods. contains_by c_tolower m (take (unat (search_window (http_entry 8 1 []) l)) data)"
    using assms(4) prefix_by_contains by blast
  then have "pattern_scan data l (map anon (patterns_ts ctx)) = Some (Some APP_PROTO_HTTP)"
    using http_scan [of "rev http_methods" l data 8 1] http_strings_ok(1) l(1) by (simp add: ctx(1) rev_map)
  then have "try_pattern_detection ctx data l 1 =
      Some (APP_PROTO_HTTP, ctx\<lparr>detections_by_pattern := detections_by_pattern ctx + 1\<rparr>)"
    by (simp add: try_pattern_detection_def pattern_scan_anon pd_dirs)
  moreover have "\<not> l < 4"
    using l(2) m(1) by (simp add: word_less_nat_alt)
  ultimately show ?thesis
    by (simp add: ctx(4) get_proto_builtin [OF l_def] detect_stages_def pd_dirs)
      (simp add: pd_static_def)
qed

text \<open>A successful start of the detection system, for the closed examples.\<close>

lemma builtin_start:
  "\<exists>g g' ctx. proto_detect_init all_ok_env None pd_static = Some (0, g) \<and>
     proto_detect_ctx_create all_ok_env g = (g', Some ctx)"
proof -
  have ok: "\<forall>n. malloc_ok all_ok_env n"
    by (simp add: all_ok_env_def)
  obtain g1 where "register_http_patterns all_ok_env 8 1 http_methods pd_static = Some g1"
    using register_http_list [OF ok, of 1 http_methods 8 pd_static] http_strings_ok(1) by blast
  moreover obtain g2 where "register_http_patterns all_ok_env 16 2 http_versions g1 = Some g2"
    using register_http_list [OF ok, of 2 http_versions 16 g1] http_strings_ok(2) by blast
  ultimately have "\<exists>g. proto_detect_init all_ok_env None pd_static = Some (0, g)"
    by (simp add: proto_detect_init_def proto_detect_register_http_def pd_dirs Let_def split: prod.splits)
  then show ?thesis
    using ok by (auto simp: proto_detect_ctx_create_def Let_def)
qed

theorem http_request_detected_witness:
  "\<exists>g ctx ctx' res'. proto_detect_init all_ok_env None pd_static = Some (0, g) \<and>
     proto_detect_get_proto (global_config g) (Some ctx) (Some (flow_zero :: unit flow)) (Some (str ''get / HTTP/1.1''))
       14 PROTO_DETECT_DIR_TOSERVER (Some detect_unknown) = Some (0, Some ctx', Some res') \<and>
     protocol res' = APP_PROTO_HTTP"
proof -
  obtain g g' ctx where g: "proto_detect_init all_ok_env None pd_static = Some (0, g)"
      "proto_detect_ctx_create all_ok_env g = (g', Some ctx)"
    using builtin_start by blast
  have "\<forall>n. malloc_ok all_ok_env n" "str ''GET '' \<in> set http_methods"
      "prefix_by c_tolower (str ''GET '') (str ''get / HTTP/1.1'')"
      "unat (14 :: u32) \<le> length (str ''get / HTTP/1.1'')" "length (str ''GET '') \<le> unat (14 :: u32)"
    by (simp add: all_ok_env_def, simp add: http_methods_def, code_simp, simp, simp)
  then show ?thesis
    using http_request_detected [of all_ok_env 0 g g' ctx, OF _ g] g(1) by blast
qed

subsection \<open>TLS handshakes\<close>

text \<open>A byte string in which no window of pattern length avoids a control byte contains no pattern of
  printable bytes.\<close>

lemma prefix_by_nth: "prefix_by f p s \<Longrightarrow> k < length p \<Longrightarrow> f (p ! k) = f (s ! k)"
proof (induction f p s arbitrary: k rule: prefix_by.induct)
  case (3 f p ps c cs)
  then show ?case
    by (cases k) auto
qed auto

lemma contains_by_position: "contains_by f p s \<Longrightarrow> \<exists>i. i + length p \<le> length s \<and> prefix_by f p (drop i s)"
proof (induction s)
  case Nil
  then show ?case
    using prefix_by_short by fastforce
next
  case (Cons c cs)
  show ?case
  proof (cases "prefix_by f p (c # cs)")
    case True
    then show ?thesis
      using prefix_by_short [OF True] by (intro exI [of _ 0]) auto
  next
    case False
    then obtain i where "i + length p \<le> length cs" "prefix_by f p (drop i cs)"
      using Cons by auto
    then show ?thesis
      by (intro exI [of _ "Suc i"]) auto
  qed
qed

lemma tolower_control: "b < 32 \<Longrightarrow> c_tolower b = b"
  by (auto simp: c_tolower_def word_less_nat_alt word_le_nat_alt)

lemma no_printable_pattern:
  assumes "\<And>i. i + length p \<le> length s \<Longrightarrow> \<exists>k < length p. s ! (i + k) < 32"
    and "list_all (\<lambda>b. 32 \<le> c_tolower b) p"
  shows "\<not> contains_by c_tolower p s"
proof
  assume "contains_by c_tolower p s"
  then obtain i where i: "i + length p \<le> length s" "prefix_by c_tolower p (drop i s)"
    using contains_by_position by blast
  then obtain k where k: "k < length p" "s ! (i + k) < 32"
    using assms(1) by blast
  have "c_tolower (p ! k) = c_tolower (s ! (i + k))"
    using prefix_by_nth [OF i(2) k(1)] i(1) k(1) by simp
  then have "c_tolower (p ! k) < 32"
    using k(2) by (simp add: tolower_control)
  then show False
    using assms(2) k(1) by (simp add: list_all_length leD)
qed

text \<open>The first bytes of a TLS ClientHello or ServerHello: a handshake record of version 3.x, the
  handshake type, and the hello's own version 3.x after the three length bytes.\<close>

definition tls_hello :: "bytes \<Rightarrow> bool" where
  "tls_hello data \<longleftrightarrow> 12 \<le> length data \<and> data ! 0 = 22 \<and> data ! 1 = 3 \<and> data ! 2 \<in> {1, 2, 3, 4} \<and>
     data ! 5 \<in> {1, 2} \<and> data ! 9 = 3 \<and> data ! 10 \<in> {1, 2, 3, 4}"

lemma http_patterns_printable:
  "\<forall>m \<in> set http_methods. list_all (\<lambda>b. 32 \<le> c_tolower b) m \<and> 4 \<le> length m"
  "\<forall>m \<in> set http_versions. list_all (\<lambda>b. 32 \<le> c_tolower b) m \<and> 6 \<le> length m"
  by code_simp+

lemma hello_no_method:
  assumes "tls_hello data" "m \<in> set http_methods"
  shows "\<not> contains_by c_tolower m (take 8 data)"
proof (rule no_printable_pattern)
  fix i
  assume "i + length m \<le> length (take 8 data)"
  then have i: "i + length m \<le> 8"
    by simp
  have m: "4 \<le> length m"
    using http_patterns_printable(1) assms(2) by blast
  have d: "data ! 0 < 32" "data ! 1 < 32" "data ! 2 < 32" "data ! 5 < 32"
    using assms(1) by (auto simp: tls_hello_def)
  consider "i = 0" | "i = 1" | "i = 2" | "3 \<le> i" "i \<le> 4"
    using i m by linarith
  then show "\<exists>k < length m. take 8 data ! (i + k) < 32"
  proof cases
    case 4
    then show ?thesis
      using d m by (intro exI [of _ "5 - i"]) auto
  qed (use d m in \<open>auto simp: numeral_2_eq_2 intro!: exI [of _ 0]\<close>)
next
  show "list_all (\<lambda>b. 32 \<le> c_tolower b) m"
    using http_patterns_printable(1) assms(2) by blast
qed

lemma dns_prober_rejects_hello:
  assumes "tls_hello data" "12 \<le> unat len"
  shows "dns_probing_parser data len = Some APP_PROTO_FAILED"
proof -
  have "256 \<le> unat (be16 (data ! 10) (data ! 11))"
    using assms(1) by (auto simp: tls_hello_def unat_be16)
  moreover have "12 \<le> length data" "\<not> len < 12"
    using assms by (simp_all add: tls_hello_def word_less_nat_alt)
  ultimately show ?thesis
    by (simp add: dns_probing_parser_def rd_simps Let_def)
qed

text \<open>With the built-in detectors, a TLS hello travelling towards the server is never
  classified as TLS. The DNS prober for any port is the first in the list, takes the bytes of
  the hello's version as a record count above 100, and its \<^verbatim>\<open>FAILED\<close> verdict ends detection before
  the TLS probers and the port table are asked, even on port 443.\<close>

theorem tls_hello_never_detected:
  fixes f :: "'p flow"
  assumes "\<forall>n. malloc_ok env n" "proto_detect_init env None pd_static = Some (r, g)"
    and "proto_detect_ctx_create env g = (g', Some ctx)"
    and "tls_hello data" "12 \<le> unat len" "unat len \<le> length data"
  shows "\<exists>ctx' res'. proto_detect_get_proto (global_config g) (Some ctx) (Some f) (Some data) len
      PROTO_DETECT_DIR_TOSERVER (Some res) = Some (0, Some ctx', Some res') \<and> protocol res' = APP_PROTO_FAILED"
proof -
  note ctx = builtin_ctx [OF assms(1-3)]
  define l where "l = (if 4096 < len then 4096 else len)"
  have l: "unat l \<le> length data" "12 \<le> unat l" "\<not> l < 4" "\<not> l < 12" "8 < l"
    using assms(5,6) by (auto simp: l_def word_less_nat_alt)
  have "search_window (http_entry 8 1 []) l = 8"
    using l(5) by (simp add: search_window_def http_entry_def)
  then have "pattern_scan data l (map anon (patterns_ts ctx)) = Some None"
    using http_scan [of "rev http_methods" l data 8 1] http_strings_ok(1) l(1) hello_no_method [OF assms(4)]
    by (simp add: ctx(1) rev_map)
  then have "try_pattern_detection ctx data l 1 = Some (APP_PROTO_UNKNOWN, ctx)"
    by (simp add: try_pattern_detection_def pattern_scan_anon pd_dirs)
  moreover have "12 \<le> unat (probe_window 512 l)"
    using l(2) by (auto simp: probe_window_def)
  then have "try_prober_detection ctx f data l 1 = Some (APP_PROTO_FAILED, ctx)"
    using l(4) dns_prober_rejects_hello [OF assms(4)]
    by (simp add: try_prober_detection_def ctx(3) builtin_probers_def pd_has_dir_def)
  ultimately show ?thesis
    using l(3)
    by (simp add: ctx(4) get_proto_builtin [OF l_def] detect_stages_def detect_by_prober_def pd_dirs)
      (simp add: pd_static_def)
qed

definition demo_hello :: bytes where
  "demo_hello = [22, 3, 1, 2, 0, 1, 0, 1, 252, 3, 3, 170]"

theorem tls_hello_never_detected_witness:
  "\<exists>g ctx ctx' res'. proto_detect_init all_ok_env None pd_static = Some (0, g) \<and>
     proto_detect_get_proto (global_config g) (Some ctx) (Some ((flow_zero :: unit flow)\<lparr>f_dst_port := 443\<rparr>))
       (Some demo_hello) 12 PROTO_DETECT_DIR_TOSERVER (Some detect_unknown) = Some (0, Some ctx', Some res') \<and>
     protocol res' = APP_PROTO_FAILED"
proof -
  obtain g g' ctx where g: "proto_detect_init all_ok_env None pd_static = Some (0, g)"
      "proto_detect_ctx_create all_ok_env g = (g', Some ctx)"
    using builtin_start by blast
  have "\<forall>n. malloc_ok all_ok_env n" "tls_hello demo_hello" "12 \<le> unat (12 :: u32)"
      "unat (12 :: u32) \<le> length demo_hello"
    by (simp_all add: all_ok_env_def tls_hello_def demo_hello_def)
  then show ?thesis
    using tls_hello_never_detected [of all_ok_env 0 g g' ctx, OF _ g] g(1) by blast
qed

subsection \<open>DNS queries\<close>

text \<open>A DNS query as it is sent: the twelve header bytes, one question with the given labels, its type
  and class.\<close>

definition dns_label :: "bytes \<Rightarrow> bytes" where
  "dns_label l = of_nat (length l) # l"

definition dns_query :: "u8 \<Rightarrow> u8 \<Rightarrow> bytes list \<Rightarrow> u16 \<Rightarrow> u16 \<Rightarrow> bytes" where
  "dns_query id_hi id_lo labels qtype qclass =
     [id_hi, id_lo, 1, 0, 0, 1, 0, 0, 0, 0, 0, 0] @ concat (map dns_label labels) @
     [0, ucast (drop_bit 8 qtype), ucast qtype, ucast (drop_bit 8 qclass), ucast qclass]"

definition label_ok :: "bytes \<Rightarrow> bool" where
  "label_ok l \<longleftrightarrow> l \<noteq> [] \<and> length l \<le> 63"

definition qname_len :: "bytes list \<Rightarrow> nat" where
  "qname_len labels = sum_list (map (\<lambda>l. 1 + length l) labels)"

lemma length_dns_labels: "length (concat (map dns_label labels)) = qname_len labels"
  by (induction labels) (simp_all add: qname_len_def dns_label_def)

lemma label_len_bits: "n \<le> 63 \<Longrightarrow> (of_nat n :: u8) AND 0xC0 \<noteq> 0xC0"
proof
  assume "n \<le> 63" and c: "(of_nat n :: u8) AND 0xC0 = 0xC0"
  have "unat (of_nat n :: u8) = n"
    using \<open>n \<le> 63\<close> by (simp add: unsigned_of_nat take_bit_nat_eq_self)
  moreover have "(of_nat n :: u8) AND 0xC0 \<le> of_nat n"
    by (metis word_and_le2 and.commute)
  ultimately show False
    using c \<open>n \<le> 63\<close> by (simp add: word_le_nat_alt)
qed

lemma dns_qname_loop_labels:
  assumes "\<forall>l \<in> set labels. label_ok l" "off = length pre" "off \<le> 255"
    and "data = pre @ concat (map dns_label labels) @ 0 # rest"
  shows "dns_qname_loop data (length data) off =
    Some (if off + qname_len labels \<le> 255 then Some (True, off + qname_len labels + 1) else None)"
  using assms
proof (induction labels arbitrary: pre off)
  case Nil
  then show ?case
    by (subst dns_qname_loop.simps) (simp add: rd8_def qname_len_def)
next
  case (Cons l labels)
  have l: "l \<noteq> []" "length l \<le> 63"
    using Cons.prems(1) by (simp_all add: label_ok_def)
  have u: "unat (of_nat (length l) :: u8) = length l"
    using l(2) by (simp add: unsigned_of_nat take_bit_nat_eq_self)
  have rd: "rd8 data off = Some (of_nat (length l))"
    using Cons.prems by (simp add: rd8_def dns_label_def)
  have nz: "(of_nat (length l) :: u8) \<noteq> 0" "\<not> 63 < (of_nat (length l) :: u8)"
    using l u by (auto simp: word_less_nat_alt simp del: of_nat_eq_0_iff)
  have "off < length data"
    using Cons.prems(2,4) by simp
  then have step: "dns_qname_loop data (length data) off =
      (if 255 < off + 1 + length l then Some None
       else dns_qname_loop data (length data) (off + 1 + length l))"
    using label_len_bits [OF l(2)] nz u
    by (subst dns_qname_loop.simps) (simp only: rd Option.bind.bind_lunit, simp)
  have len: "qname_len (l # labels) = 1 + length l + qname_len labels"
    by (simp add: qname_len_def)
  show ?case
  proof (cases "255 < off + 1 + length l")
    case True
    then show ?thesis
      unfolding step len by auto
  next
    case False
    have "dns_qname_loop data (length data) (off + 1 + length l) = Some (if off + 1 + length l + qname_len labels \<le> 255
        then Some (True, off + 1 + length l + qname_len labels + 1) else None)"
      using Cons.prems False by (intro Cons.IH [of _ "pre @ dns_label l"]) (auto simp: dns_label_def)
    then show ?thesis
      using False unfolding step len by (simp add: add.assoc)
  qed
qed

text \<open>The fixed fields of a query, and its shape for the name loop.\<close>

definition dns_query_head :: "u8 \<Rightarrow> u8 \<Rightarrow> bytes" where
  "dns_query_head i1 i2 = [i1, i2, 1, 0, 0, 1, 0, 0, 0, 0, 0, 0]"

definition dns_query_tail :: "u16 \<Rightarrow> u16 \<Rightarrow> bytes" where
  "dns_query_tail qtype qclass =
     [ucast (drop_bit 8 qtype), ucast qtype, ucast (drop_bit 8 qclass), ucast qclass]"

lemma dns_query_shape:
  "dns_query i1 i2 labels qtype qclass =
     dns_query_head i1 i2 @ concat (map dns_label labels) @ 0 # dns_query_tail qtype qclass"
  by (simp add: dns_query_def dns_query_head_def dns_query_tail_def)

lemma length_dns_query [simp]: "length (dns_query i1 i2 labels qtype qclass) = qname_len labels + 17"
  by (simp add: dns_query_def length_dns_labels)

lemma dns_query_header:
  "rd_be16 (dns_query i1 i2 labels qtype qclass) 0 = Some (be16 i1 i2)"
  "rd_be16 (dns_query i1 i2 labels qtype qclass) 2 = Some 0x100"
  "rd_be16 (dns_query i1 i2 labels qtype qclass) 4 = Some 1"
  "rd_be16 (dns_query i1 i2 labels qtype qclass) 6 = Some 0"
  "rd_be16 (dns_query i1 i2 labels qtype qclass) 8 = Some 0"
  "rd_be16 (dns_query i1 i2 labels qtype qclass) 10 = Some 0"
  by (simp_all add: dns_query_def rd_be16_def rd8_def be16_def)

lemma dns_query_question:
  "rd_be16 (dns_query i1 i2 labels qtype qclass) (13 + qname_len labels) = Some qtype"
  "rd_be16 (dns_query i1 i2 labels qtype qclass) (15 + qname_len labels) = Some qclass"
proof -
  let ?front = "dns_query_head i1 i2 @ concat (map dns_label labels) @ [0]"
  have "dns_query i1 i2 labels qtype qclass = ?front @ dns_query_tail qtype qclass"
    by (simp add: dns_query_shape)
  moreover have "length ?front = 13 + qname_len labels"
    by (simp add: dns_query_head_def length_dns_labels)
  ultimately have tail:
    "dns_query i1 i2 labels qtype qclass ! (13 + qname_len labels + k) = dns_query_tail qtype qclass ! k" for k
    by (metis nth_append_length_plus)
  show "rd_be16 (dns_query i1 i2 labels qtype qclass) (13 + qname_len labels) = Some qtype"
    "rd_be16 (dns_query i1 i2 labels qtype qclass) (15 + qname_len labels) = Some qclass"
    using tail [of 0] tail [of 1] tail [of 2] tail [of 3]
    by (simp_all add: rd_be16_Some dns_query_tail_def be16_split ac_simps)
qed

text \<open>The DNS prober accepts every well-formed single-question query whose name ends within the
  first 255 bytes of the message, and reports \<^verbatim>\<open>FAILED\<close> for every longer name. The bound counts the
  twelve header bytes, so legal names of 245 to 255 bytes on the wire are refused.\<close>

theorem dns_query_verdict:
  assumes "\<forall>l \<in> set labels. label_ok l" "qtype \<noteq> 0" "qclass \<in> {1, 2, 3, 4, 255}"
    and "qname_len labels < 65536"
  shows "dns_probing_parser (dns_query i1 i2 labels qtype qclass) (of_nat (length (dns_query i1 i2 labels qtype qclass)))
    = Some (if 12 + qname_len labels \<le> 255 then APP_PROTO_DNS else APP_PROTO_FAILED)"
proof -
  define data where "data = dns_query i1 i2 labels qtype qclass"
  have len: "length data = qname_len labels + 17"
    by (simp add: data_def)
  then have ulen: "unat (of_nat (length data) :: u32) = length data"
    using assms(4) by (intro unat_of_nat_u32) simp
  have loop: "dns_qname_loop data (length data) 12 =
      Some (if 12 + qname_len labels \<le> 255 then Some (True, 13 + qname_len labels) else None)"
  proof -
    have "12 = length (dns_query_head i1 i2)"
      by (simp add: dns_query_head_def)
    from dns_qname_loop_labels [OF assms(1) this _ data_def [unfolded dns_query_shape]] show ?thesis
      by simp
  qed
  then have "dns_question_check data (length data) =
      Some (Some (if 12 + qname_len labels \<le> 255 then APP_PROTO_DNS else APP_PROTO_FAILED))"
    using assms(2,3) len dns_query_question [of i1 i2 labels qtype qclass]
    by (auto simp: dns_question_check_def data_def)
  moreover have "\<not> (of_nat (length data) :: u32) < 12" "12 < (of_nat (length data) :: u32)"
    using ulen len by (simp_all add: word_less_nat_alt del: of_nat_add)
  ultimately show ?thesis
    unfolding data_def [symmetric]
    by (simp add: dns_probing_parser_def dns_query_header [of i1 i2 labels qtype qclass, folded data_def] Let_def ulen)
qed

theorem dns_query_verdict_witness:
  "dns_probing_parser (dns_query 18 52 [str ''www'', str ''example'', str ''com''] 1 1) 33 = Some APP_PROTO_DNS"
proof -
  have "\<forall>l \<in> set [str ''www'', str ''example'', str ''com'']. label_ok l" "(1 :: u16) \<noteq> 0"
      "(1 :: u16) \<in> {1, 2, 3, 4, 255}" "qname_len [str ''www'', str ''example'', str ''com''] < 65536"
    by (simp_all add: label_ok_def str_simps qname_len_def)
  from dns_query_verdict [OF this, of 18 52] show ?thesis
    by (simp add: qname_len_def dns_query_def dns_label_def)
qed
end
