(* ===== verification/Dns_Parser.thy ===== *)
theory Dns_Parser
  imports Proto_Detect Complex_Main
begin

text \<open>
  \<^verbatim>\<open>src/src/dns_parser.c\<close> and \<^verbatim>\<open>dns_parser.h\<close>: names with compression pointers, questions, resource
  records, whole messages over UDP and TCP, and the checks on domain names.

  A packet is a byte list with a stated length; a pointer into it is an offset. The 256-byte stack
  buffer that receives a name is the list of the characters written so far, with the capacity as a
  parameter: writing beyond it is undefined. Heap blocks are values; the outcome of the \<open>n\<close>-th
  allocation comes from the environment and the counter is threaded through. Freeing the parts of a
  transaction has no effect on values. Enumerations that the code assigns from raw 16-bit fields
  (\<^verbatim>\<open>dns_type_t\<close>, \<^verbatim>\<open>dns_class_t\<close>) are words. Timestamps of transactions are never set by the code.
\<close>

section \<open>Data\<close>

record dns_question =
  q_name :: bytes
  q_name_len :: u16
  q_type :: u16
  q_class :: u16

datatype dns_parsed =
    ParsedNone
  | ParsedA bytes
  | ParsedAAAA bytes
  | ParsedDomain bytes
  | ParsedMX u16 "bytes option"

record dns_rr =
  rr_name :: bytes
  rr_name_len :: u16
  rr_type :: u16
  rr_class :: u16
  rr_ttl :: u32
  rr_rdlength :: u16
  rr_rdata :: "bytes option"
  rr_parsed :: dns_parsed

record dns_transaction =
  txid :: u16
  tx_is_response :: bool
  tx_opcode :: u8
  tx_recursion_desired :: bool
  tx_qdcount :: u16
  tx_questions :: "dns_question list"
  tx_rcode :: u8
  tx_authoritative :: bool
  tx_truncated :: bool
  tx_recursion_available :: bool
  tx_ancount :: u16
  tx_nscount :: u16
  tx_arcount :: u16
  tx_answers :: "dns_rr list"
  tx_authority :: "dns_rr list"
  tx_additional :: "dns_rr list"
  tx_query_len :: u32
  tx_response_len :: u32

record dns_conn =
  dns_transactions :: "dns_transaction list"
  dns_tx_count :: u32
  queries_parsed :: u64
  responses_parsed :: u64
  dns_parse_errors :: u64
  nxdomain_count :: u64
  a_records :: u64
  aaaa_records :: u64
  cname_records :: u64
  txt_records :: u64
  suspicious_tld :: bool
  dga_suspected :: bool
  high_entropy_domain :: bool
  excessive_subdomains :: bool

definition dns_conn_zero :: dns_conn where
  "dns_conn_zero = \<lparr>dns_transactions = [], dns_tx_count = 0, queries_parsed = 0, responses_parsed = 0,
     dns_parse_errors = 0, nxdomain_count = 0, a_records = 0, aaaa_records = 0, cname_records = 0,
     txt_records = 0, suspicious_tld = False, dga_suspected = False, high_entropy_domain = False,
     excessive_subdomains = False\<rparr>"

definition dns_parser_init :: "bool \<Rightarrow> dns_conn option" where
  "dns_parser_init zmalloc_ok = (if zmalloc_ok then Some dns_conn_zero else None)"

definition dns_type_to_string :: "u16 \<Rightarrow> bytes" where
  "dns_type_to_string t = str (
     if t = 1 then ''A'' else if t = 2 then ''NS'' else if t = 5 then ''CNAME''
     else if t = 6 then ''SOA'' else if t = 12 then ''PTR'' else if t = 15 then ''MX''
     else if t = 16 then ''TXT'' else if t = 28 then ''AAAA'' else if t = 33 then ''SRV''
     else if t = 41 then ''OPT'' else if t = 255 then ''ANY'' else ''UNKNOWN'')"

definition dns_rcode_to_string :: "u8 \<Rightarrow> bytes" where
  "dns_rcode_to_string r = str (
     if r = 0 then ''NOERROR'' else if r = 1 then ''FORMERR'' else if r = 2 then ''SERVFAIL''
     else if r = 3 then ''NXDOMAIN'' else if r = 4 then ''NOTIMP'' else if r = 5 then ''REFUSED''
     else ''UNKNOWN'')"

section \<open>Names\<close>

definition name_char :: "u8 \<Rightarrow> u8" where
  "name_char b = (if \<not> c_isprint b \<and> b \<noteq> 45 \<and> b \<noteq> 95 then 63 else b)"

text \<open>A label appended to the name: a dot unless it is the first, then the characters.\<close>

definition name_append :: "bytes \<Rightarrow> bytes \<Rightarrow> bytes" where
  "name_append out label = (if out \<noteq> [] then out @ [46] else out) @ map name_char label"

text \<open>\<open>parse_name_loop cap packet plen ptr p out jc jumps\<close> is the loop of \<^verbatim>\<open>parse_dns_name\<close> at position
  \<open>p\<close>: \<open>out\<close> are the characters written, \<open>jc\<close> is \<^verbatim>\<open>consumed\<close> once \<^verbatim>\<open>jumped\<close> is set. The result is \<open>None\<close> for
  undefined behaviour, \<open>Some None\<close> for -1, otherwise \<^verbatim>\<open>consumed\<close> and the name.\<close>

function parse_name_loop ::
  "nat \<Rightarrow> bytes \<Rightarrow> nat \<Rightarrow> nat \<Rightarrow> nat \<Rightarrow> bytes \<Rightarrow> nat option \<Rightarrow> nat \<Rightarrow> (nat \<times> bytes) option option" where
  "parse_name_loop cap packet plen ptr p out jc jumps =
    (if plen \<le> p then Some None
     else do {
       len \<leftarrow> rd8 packet p;
       if len AND 0xC0 = 0xC0 then
         (if plen \<le> p + 1 then Some None
          else do {
            lo \<leftarrow> rd8 packet (p + 1);
            if plen \<le> unat (be16 (len AND 0x3F) lo) then Some None
            else if 10 < jumps + 1 then Some None
            else parse_name_loop cap packet plen ptr (unat (be16 (len AND 0x3F) lo)) out
                   (case jc of None \<Rightarrow> Some (p - ptr + 2) | Some c \<Rightarrow> Some c) (jumps + 1) })
       else if len = 0 then
         (if length out < cap
          then Some (Some (case jc of None \<Rightarrow> p - ptr + 1 | Some c \<Rightarrow> c, out)) else None)
       else if 63 < len then Some None
       else if plen < p + 1 + unat len then Some None
       else do {
         label \<leftarrow> rd_slice packet (p + 1) (unat len);
         if cap < length (name_append out label) then None
         else if 254 < length (name_append out label) then Some None
         else parse_name_loop cap packet plen ptr (p + 1 + unat len) (name_append out label) jc jumps } })"
  by pat_completeness auto
termination
  by (relation "measures [\<lambda>(cap, packet, plen, ptr, p, out, jc, jumps). 11 - jumps,
                          \<lambda>(cap, packet, plen, ptr, p, out, jc, jumps). plen - p]") auto

declare parse_name_loop.simps [simp del]

definition DNS_NAME_BUF :: nat where "DNS_NAME_BUF = 256"

definition parse_dns_name :: "bytes \<Rightarrow> nat \<Rightarrow> nat \<Rightarrow> (nat \<times> bytes) option option" where
  "parse_dns_name packet plen ptr = parse_name_loop DNS_NAME_BUF packet plen ptr ptr [] None 0"

section \<open>Questions and resource records\<close>

text \<open>The result is the consumed length and the question (\<open>None\<close> for -1), and the allocation counter.\<close>

definition parse_dns_question ::
  "rte_env \<Rightarrow> bytes \<Rightarrow> nat \<Rightarrow> nat \<Rightarrow> nat \<Rightarrow> ((nat \<times> dns_question) option \<times> nat) option" where
  "parse_dns_question env packet plen ptr0 n = do {
     r \<leftarrow> parse_dns_name packet plen ptr0;
     (case r of
        None \<Rightarrow> Some (None, n)
      | Some (consumed, name) \<Rightarrow>
         (let ptr = ptr0 + consumed in
          if plen < ptr + 4 then Some (None, n)
          else do {
            qtype \<leftarrow> rd_be16 packet ptr;
            qclass \<leftarrow> rd_be16 packet (ptr + 2);
            if \<not> malloc_ok env n then Some (None, n + 1)
            else if \<not> malloc_ok env (n + 1) then Some (None, n + 2)
            else Some (Some (consumed + 4, \<lparr>q_name = name, q_name_len = of_nat (length name), q_type = qtype,
                         q_class = qclass\<rparr>), n + 2) })) }"

text \<open>The type-specific data of a record whose data starts at \<open>ptr\<close>. For CNAME, NS and PTR the pointer
  stays null when the name does not parse or its copy cannot be allocated.\<close>

definition parse_rr_data ::
  "rte_env \<Rightarrow> bytes \<Rightarrow> nat \<Rightarrow> nat \<Rightarrow> u16 \<Rightarrow> nat \<Rightarrow> nat \<Rightarrow> (dns_parsed \<times> nat) option" where
  "parse_rr_data env packet plen ptr typ rdlen n =
    (if typ = 1 \<and> rdlen = 4 then map_option (\<lambda>a. (ParsedA a, n)) (rd_slice packet ptr 4)
     else if typ = 28 \<and> rdlen = 16 then map_option (\<lambda>a. (ParsedAAAA a, n)) (rd_slice packet ptr 16)
     else if typ = 5 \<or> typ = 2 \<or> typ = 12 then do {
       r \<leftarrow> parse_dns_name packet plen ptr;
       Some (case r of
          Some (c, domain) \<Rightarrow>
            if 0 < c then (if malloc_ok env n then (ParsedDomain domain, n + 1) else (ParsedNone, n + 1))
            else (ParsedNone, n)
        | None \<Rightarrow> (ParsedNone, n)) }
     else if typ = 15 \<and> 2 \<le> rdlen then do {
       pref \<leftarrow> rd_be16 packet ptr;
       r \<leftarrow> parse_dns_name packet plen (ptr + 2);
       Some (case r of
          Some (c, exchange) \<Rightarrow>
            if 0 < c then (ParsedMX pref (if malloc_ok env n then Some exchange else None), n + 1)
            else (ParsedMX pref None, n)
        | None \<Rightarrow> (ParsedMX pref None, n)) }
     else Some (ParsedNone, n))"

definition parse_dns_rr ::
  "rte_env \<Rightarrow> bytes \<Rightarrow> nat \<Rightarrow> nat \<Rightarrow> nat \<Rightarrow> ((nat \<times> dns_rr) option \<times> nat) option" where
  "parse_dns_rr env packet plen ptr0 n = do {
     r \<leftarrow> parse_dns_name packet plen ptr0;
     (case r of
        None \<Rightarrow> Some (None, n)
      | Some (consumed, name) \<Rightarrow>
         (let ptr = ptr0 + consumed in
          if plen < ptr + 10 then Some (None, n)
          else do {
            typ \<leftarrow> rd_be16 packet ptr;
            cls \<leftarrow> rd_be16 packet (ptr + 2);
            ttl \<leftarrow> rd_be32 packet (ptr + 4);
            rdlength \<leftarrow> rd_be16 packet (ptr + 8);
            let rdlen = unat rdlength;
            let base = \<lparr>rr_name = name, rr_name_len = of_nat (length name), rr_type = typ, rr_class = cls,
                        rr_ttl = ttl, rr_rdlength = rdlength, rr_rdata = None, rr_parsed = ParsedNone\<rparr>;
            if plen < ptr + 10 + rdlen then Some (None, n)
            else if \<not> malloc_ok env n then Some (None, n + 1)
            else if \<not> malloc_ok env (n + 1) then Some (None, n + 2)
            else if rdlen = 0 then Some (Some (consumed + 10, base), n + 2)
            else if \<not> malloc_ok env (n + 2) then Some (None, n + 3)
            else do {
              rdata \<leftarrow> rd_slice packet (ptr + 10) rdlen;
              (parsed, n') \<leftarrow> parse_rr_data env packet plen (ptr + 10) typ rdlen (n + 3);
              Some (Some (consumed + 10 + rdlen, base\<lparr>rr_rdata := Some rdata, rr_parsed := parsed\<rparr>), n') } })) }"

section \<open>Checks on domain names\<close>

definition suspicious_tlds :: "bytes list" where
  "suspicious_tlds = map str [''.xyz'', ''.top'', ''.club'', ''.work'', ''.click'', ''.country'', ''.stream'',
     ''.download'', ''.loan'', ''.win'', ''.bid'', ''.gq'', ''.ml'', ''.cf'', ''.tk'']"

definition dns_is_suspicious_domain :: "bytes \<Rightarrow> bool" where
  "dns_is_suspicious_domain domain \<longleftrightarrow>
     list_ex (\<lambda>t. c_strstr domain t) suspicious_tlds \<or>
     5 < length (filter (\<lambda>c. c = 46) domain) \<or>
     list_ex (\<lambda>c. \<not> c_isprint c \<and> c \<noteq> 46) domain"

text \<open>The Shannon entropy of the characters other than dots, over the real numbers: the rounding of
  \<^verbatim>\<open>double\<close> and of \<^verbatim>\<open>log2\<close> is not modelled.\<close>

definition dns_calculate_entropy :: "bytes \<Rightarrow> real" where
  "dns_calculate_entropy domain =
    (let cs = filter (\<lambda>c. c \<noteq> 46) domain; n = length cs in
     if n = 0 then 0
     else (\<Sum>c \<in> set cs. - (real (count_list cs c) / real n * log 2 (real (count_list cs c) / real n))))"

definition dns_high_entropy :: "bytes \<Rightarrow> bool" where
  "dns_high_entropy domain \<longleftrightarrow> dns_calculate_entropy domain > 4.5"

section \<open>Messages\<close>

text \<open>The flags that a question's name sets; \<open>hi\<close> is the entropy test.\<close>

definition dns_check_name :: "(bytes \<Rightarrow> bool) \<Rightarrow> bytes \<Rightarrow> dns_conn \<Rightarrow> dns_conn" where
  "dns_check_name hi name conn =
    (let conn1 = (if dns_is_suspicious_domain name then conn\<lparr>suspicious_tld := True\<rparr> else conn) in
     if hi name then conn1\<lparr>high_entropy_domain := True\<rparr> else conn1)"

text \<open>The question loop with \<open>k\<close> questions left. The first component is
  \<open>None\<close> when a question does not parse.\<close>

fun dns_questions ::
  "(bytes \<Rightarrow> bool) \<Rightarrow> rte_env \<Rightarrow> bytes \<Rightarrow> nat \<Rightarrow> nat \<Rightarrow> nat \<Rightarrow> nat \<Rightarrow> dns_conn
     \<Rightarrow> (dns_question list option \<times> nat \<times> nat \<times> dns_conn) option" where
  "dns_questions hi env packet plen 0 ptr n conn = Some (Some [], ptr, n, conn)"
| "dns_questions hi env packet plen (Suc k) ptr n conn = do {
     (r, n1) \<leftarrow> parse_dns_question env packet plen ptr n;
     (case r of
        None \<Rightarrow> Some (None, ptr, n1, conn)
      | Some (consumed, q) \<Rightarrow> do {
          (qs, ptr', n', conn') \<leftarrow> dns_questions hi env packet plen k (ptr + consumed) n1
                                     (dns_check_name hi (q_name q) conn);
          Some (map_option ((#) q) qs, ptr', n', conn') }) }"

text \<open>The record loops: they stop at the first record that does not parse.\<close>

fun dns_rrs ::
  "rte_env \<Rightarrow> bytes \<Rightarrow> nat \<Rightarrow> nat \<Rightarrow> nat \<Rightarrow> nat \<Rightarrow> (dns_rr list \<times> nat \<times> nat) option" where
  "dns_rrs env packet plen 0 ptr n = Some ([], ptr, n)"
| "dns_rrs env packet plen (Suc k) ptr n = do {
     (r, n1) \<leftarrow> parse_dns_rr env packet plen ptr n;
     (case r of
        None \<Rightarrow> Some ([], ptr, n1)
      | Some (consumed, rr) \<Rightarrow> do {
          (rrs, ptr', n') \<leftarrow> dns_rrs env packet plen k (ptr + consumed) n1;
          Some (rr # rrs, ptr', n') }) }"

definition dns_count_rr :: "dns_rr \<Rightarrow> dns_conn \<Rightarrow> dns_conn" where
  "dns_count_rr rr conn =
    (if rr_type rr = 1 then conn\<lparr>a_records := a_records conn + 1\<rparr>
     else if rr_type rr = 28 then conn\<lparr>aaaa_records := aaaa_records conn + 1\<rparr>
     else if rr_type rr = 5 then conn\<lparr>cname_records := cname_records conn + 1\<rparr>
     else if rr_type rr = 16 then conn\<lparr>txt_records := txt_records conn + 1\<rparr>
     else conn)"

text \<open>The transaction as the header gives it, and the counters that the header alone decides.\<close>

definition dns_header_tx :: "u16 \<Rightarrow> u16 \<Rightarrow> u16 \<Rightarrow> u16 \<Rightarrow> u16 \<Rightarrow> u16 \<Rightarrow> u32 \<Rightarrow> dns_transaction" where
  "dns_header_tx ident fl qd an ns ar plen =
    (let is_response = (fl AND 0x8000 \<noteq> 0) in
     \<lparr>txid = ident, tx_is_response = is_response, tx_opcode = ucast (drop_bit 11 fl AND 0x0F),
      tx_recursion_desired = (fl AND 0x0100 \<noteq> 0), tx_qdcount = qd, tx_questions = [],
      tx_rcode = ucast (fl AND 0x0F), tx_authoritative = (fl AND 0x0400 \<noteq> 0),
      tx_truncated = (fl AND 0x0200 \<noteq> 0), tx_recursion_available = (fl AND 0x0080 \<noteq> 0),
      tx_ancount = an, tx_nscount = ns, tx_arcount = ar, tx_answers = [], tx_authority = [],
      tx_additional = [], tx_query_len = (if is_response then 0 else plen),
      tx_response_len = (if is_response then plen else 0)\<rparr>)"

definition dns_count_header :: "dns_transaction \<Rightarrow> dns_conn \<Rightarrow> dns_conn" where
  "dns_count_header tx conn =
    (if tx_is_response tx then
       (let conn1 = conn\<lparr>responses_parsed := responses_parsed conn + 1\<rparr> in
        if tx_rcode tx = 3 then conn1\<lparr>nxdomain_count := nxdomain_count conn1 + 1\<rparr> else conn1)
     else conn\<lparr>queries_parsed := queries_parsed conn + 1\<rparr>)"

text \<open>\<open>int i < count \<and> i < limit\<close>: the number of rounds of a section loop.\<close>

definition dns_rounds :: "u16 \<Rightarrow> nat \<Rightarrow> nat" where
  "dns_rounds cnt limit = min (unat cnt) limit"

definition dns_response_sections ::
  "rte_env \<Rightarrow> bytes \<Rightarrow> nat \<Rightarrow> nat \<Rightarrow> nat \<Rightarrow> dns_transaction \<Rightarrow> dns_conn
     \<Rightarrow> (dns_transaction \<times> dns_conn \<times> nat) option" where
  "dns_response_sections env packet plen ptr n tx conn = do {
     (ans, ptr1, n1) \<leftarrow> dns_rrs env packet plen (dns_rounds (tx_ancount tx) 20) ptr n;
     (auth, ptr2, n2) \<leftarrow> dns_rrs env packet plen (dns_rounds (tx_nscount tx) 10) ptr1 n1;
     (add, ptr3, n3) \<leftarrow> dns_rrs env packet plen (dns_rounds (tx_arcount tx) 10) ptr2 n2;
     Some (tx\<lparr>tx_answers := ans, tx_authority := auth, tx_additional := add\<rparr>, fold dns_count_rr ans conn, n3) }"

text \<open>\<^verbatim>\<open>dns_parser_parse\<close> from the minimum size check on, with the entropy test as a parameter.\<close>

definition dns_parse_message ::
  "(bytes \<Rightarrow> bool) \<Rightarrow> rte_env \<Rightarrow> bytes \<Rightarrow> u32 \<Rightarrow> nat \<Rightarrow> dns_conn \<Rightarrow> (int \<times> nat \<times> dns_conn) option" where
  "dns_parse_message hi env packet packet_len n conn =
    (let plen = unat packet_len in
     if plen < 12 then Some (-1, n, conn\<lparr>dns_parse_errors := dns_parse_errors conn + 1\<rparr>)
     else do {
       ident \<leftarrow> rd_be16 packet 0; fl \<leftarrow> rd_be16 packet 2; qd \<leftarrow> rd_be16 packet 4;
       an \<leftarrow> rd_be16 packet 6; ns \<leftarrow> rd_be16 packet 8; ar \<leftarrow> rd_be16 packet 10;
       if \<not> malloc_ok env n then Some (-1, n + 1, conn\<lparr>dns_parse_errors := dns_parse_errors conn + 1\<rparr>)
       else do {
         let tx = dns_header_tx ident fl qd an ns ar packet_len;
         (qs, ptr, n1, conn1) \<leftarrow> dns_questions hi env packet plen (dns_rounds qd 10) 12 (n + 1) (dns_count_header tx conn);
         (case qs of
            None \<Rightarrow> Some (-1, n1, conn1\<lparr>dns_parse_errors := dns_parse_errors conn1 + 1\<rparr>)
          | Some questions \<Rightarrow> do {
              let tx1 = tx\<lparr>tx_questions := questions\<rparr>;
              (tx2, conn2, n2) \<leftarrow> (if tx_is_response tx1
                 then dns_response_sections env packet plen ptr n1 tx1 conn1 else Some (tx1, conn1, n1));
              Some (0, n2, conn2\<lparr>dns_transactions := tx2 # dns_transactions conn2,
                             dns_tx_count := dns_tx_count conn2 + 1\<rparr>) }) } })"

definition dns_parser_parse_with ::
  "(bytes \<Rightarrow> bool) \<Rightarrow> rte_env \<Rightarrow> dns_conn option \<Rightarrow> bytes option \<Rightarrow> u32 \<Rightarrow> bool \<Rightarrow> nat
     \<Rightarrow> (int \<times> nat \<times> dns_conn option) option" where
  "dns_parser_parse_with hi env conn_p data_p len is_tcp n =
    (case (conn_p, data_p) of
       (Some conn, Some data) \<Rightarrow>
         (let run = (\<lambda>packet plen. map_option (\<lambda>(r, n', c). (r, n', Some c)) (dns_parse_message hi env packet plen n conn)) in
          if \<not> is_tcp then run data len
          else if len < 2 then Some (-1, n, conn_p)
          else do {
            dns_len \<leftarrow> rd_be16 data 0;
            if len - 2 < ucast dns_len then Some (-1, n, conn_p)
            else run (drop 2 data) (ucast dns_len) })
     | _ \<Rightarrow> Some (-1, n, conn_p))"

definition dns_parser_parse ::
  "rte_env \<Rightarrow> dns_conn option \<Rightarrow> bytes option \<Rightarrow> u32 \<Rightarrow> bool \<Rightarrow> nat \<Rightarrow> (int \<times> nat \<times> dns_conn option) option" where
  "dns_parser_parse = dns_parser_parse_with dns_high_entropy"

definition dns_get_latest_transaction :: "dns_conn option \<Rightarrow> dns_transaction option" where
  "dns_get_latest_transaction conn_p = (case conn_p of None \<Rightarrow> None | Some c \<Rightarrow>
     (case dns_transactions c of [] \<Rightarrow> None | tx # _ \<Rightarrow> Some tx))"

definition dns_find_transaction :: "dns_conn option \<Rightarrow> u16 \<Rightarrow> dns_transaction option" where
  "dns_find_transaction conn_p i = (case conn_p of None \<Rightarrow> None | Some c \<Rightarrow>
     List.find (\<lambda>tx. txid tx = i) (dns_transactions c))"


section \<open>Parsing names: memory\<close>

text \<open>Two facts about every call of the name loop: it is defined when the buffer has 318 characters
  (the largest name so far, a dot and a label), and what it returns is bounded.\<close>

lemma u8_le_63: "\<not> 63 < (b :: u8) \<Longrightarrow> unat b \<le> 63"
  by (simp add: word_less_nat_alt)

lemma parse_name_loop_total:
  assumes "318 \<le> cap" "plen \<le> length packet" "length out \<le> 254"
  shows "parse_name_loop cap packet plen ptr p out jc jumps \<noteq> None"
  using assms
proof (induction cap packet plen ptr p out jc jumps rule: parse_name_loop.induct)
  case (1 cap packet plen ptr p out jc jumps)
  show ?case
  proof (cases "plen \<le> p")
    case True
    then show ?thesis
      by (simp add: parse_name_loop.simps)
  next
    case False
    then have p: "p < length packet"
      using "1.prems" by simp
    define len where "len = packet ! p"
    have rd: "rd8 packet p = Some len"
      using p by (simp add: len_def)
    show ?thesis
    proof (cases "len AND 0xC0 = 0xC0")
      case True
      then show ?thesis
        using 1(1) [OF False rd True] "1.prems" False p
        by (subst parse_name_loop.simps) (auto simp: rd8_Some len_def)
    next
      case nptr: False
      show ?thesis
      proof (cases "len = 0 \<or> 63 < len \<or> plen < p + 1 + unat len")
        case True
        then show ?thesis
          using "1.prems" False p nptr
          by (subst parse_name_loop.simps) (auto simp: rd8_Some len_def)
      next
        case lab: False
        have sl: "rd_slice packet (p + 1) (unat len) = Some (bslice packet (p + 1) (unat len))"
          using lab "1.prems" by (simp add: rd_slice_def)
        have len63: "unat len \<le> 63"
          using lab u8_le_63 by blast
        then have short: "length (name_append out (bslice packet (p + 1) (unat len))) \<le> cap"
          using "1.prems" by (auto simp: name_append_def)
        then show ?thesis
          using 1(2) [OF False rd nptr _ _ _ sl] "1.prems" False p nptr lab sl
          by (subst parse_name_loop.simps) (auto simp add: rd8_Some len_def [symmetric])
      qed
    qed
  qed
qed

lemma parse_name_loop_length:
  "parse_name_loop cap packet plen ptr p out jc jumps = Some (Some (c, name)) \<Longrightarrow> length out \<le> 254 \<Longrightarrow>
   length name \<le> 254"
proof (induction cap packet plen ptr p out jc jumps arbitrary: c name rule: parse_name_loop.induct)
  case (1 cap packet plen ptr p out jc jumps)
  note prem = "1.prems"(1) [unfolded parse_name_loop.simps [of cap packet plen ptr p out jc jumps]]
  show ?case
    using prem "1.prems"(2) 1(1) 1(2)
    by (auto split: if_split_asm bind_split_asm simp del: rd8_eq_Some)
qed

lemma parse_name_loop_consumed:
  "parse_name_loop cap packet plen ptr p out jc jumps = Some (Some (c, name)) \<Longrightarrow>
   (case jc of None \<Rightarrow> ptr \<le> p | Some d \<Rightarrow> 0 < d \<and> ptr + d \<le> plen) \<Longrightarrow> 0 < c \<and> ptr + c \<le> plen"
proof (induction cap packet plen ptr p out jc jumps arbitrary: c name rule: parse_name_loop.induct)
  case (1 cap packet plen ptr p out jc jumps)
  note prem = "1.prems"(1) [unfolded parse_name_loop.simps [of cap packet plen ptr p out jc jumps]]
  show ?case
    using prem "1.prems"(2) 1(1) 1(2)
    by (fastforce split: if_split_asm bind_split_asm option.splits simp del: rd8_eq_Some)
qed

lemma name_char_nonzero: "name_char b \<noteq> 0"
  by (auto simp: name_char_def c_isprint_def)

lemma parse_name_loop_no_nul:
  "parse_name_loop cap packet plen ptr p out jc jumps = Some (Some (c, name)) \<Longrightarrow> 0 \<notin> set out \<Longrightarrow> 0 \<notin> set name"
proof (induction cap packet plen ptr p out jc jumps arbitrary: c name rule: parse_name_loop.induct)
  case (1 cap packet plen ptr p out jc jumps)
  note prem = "1.prems"(1) [unfolded parse_name_loop.simps [of cap packet plen ptr p out jc jumps]]
  have app: "0 \<notin> set (name_append out l)" for l
    using "1.prems"(2) name_char_nonzero by (auto simp: name_append_def)
  show ?case
    using prem "1.prems"(2) 1(1) 1(2) app
    by (auto split: if_split_asm bind_split_asm simp del: rd8_eq_Some)
qed

lemma parse_dns_name_result:
  assumes "parse_dns_name packet plen ptr = Some (Some (c, name))"
  shows "0 < c" "ptr + c \<le> plen" "length name \<le> 254" "0 \<notin> set name"
  using parse_name_loop_consumed [of DNS_NAME_BUF packet plen ptr ptr "[]" None 0 c name]
    parse_name_loop_length [of DNS_NAME_BUF packet plen ptr ptr "[]" None 0 c name]
    parse_name_loop_no_nul [of DNS_NAME_BUF packet plen ptr ptr "[]" None 0 c name] assms
  by (simp_all add: parse_dns_name_def)

section \<open>Parsing names: round trip\<close>

fun dot_join :: "bytes list \<Rightarrow> bytes" where
  "dot_join [] = []"
| "dot_join [l] = l"
| "dot_join (l # ls) = l @ [46] @ dot_join ls"

definition join_after :: "bytes \<Rightarrow> bytes list \<Rightarrow> bytes" where
  "join_after out labels =
    (if labels = [] then out else (if out \<noteq> [] then out @ [46] else out) @ dot_join labels)"

definition label_printable :: "bytes \<Rightarrow> bool" where
  "label_printable l \<longleftrightarrow> label_ok l \<and> list_all c_isprint l"

lemma map_name_char_printable: "list_all c_isprint l \<Longrightarrow> map name_char l = l"
  by (induction l) (auto simp: name_char_def)

lemma join_after_Cons:
  "label_printable l \<Longrightarrow> join_after out (l # ls) = join_after (name_append out l) ls"
  by (cases ls) (auto simp: join_after_def name_append_def map_name_char_printable label_printable_def label_ok_def)

lemma length_name_append_le: "label_printable l \<Longrightarrow> length (name_append out l) \<le> length (join_after out (l # ls))"
  by (simp add: join_after_Cons) (simp add: join_after_def)

lemma parse_name_loop_labels:
  assumes "\<forall>l \<in> set labels. label_printable l" "packet = pre @ concat (map dns_label labels) @ 0 # rest"
    and "p = length pre" "ptr \<le> p" "p + qname_len labels + 1 \<le> plen" "plen \<le> length packet"
    and "length (join_after out labels) \<le> 254" "256 \<le> cap"
  shows "parse_name_loop cap packet plen ptr p out None jumps =
    Some (Some (p - ptr + qname_len labels + 1, join_after out labels))"
  using assms
proof (induction labels arbitrary: pre p out)
  case Nil
  then show ?case
    by (subst parse_name_loop.simps) (auto simp: rd8_def join_after_def qname_len_def)
next
  case (Cons l labels)
  have l: "l \<noteq> []" "length l \<le> 63" and pr: "label_printable l"
    using Cons.prems(1) by (simp_all add: label_printable_def label_ok_def)
  have u: "unat (of_nat (length l) :: u8) = length l"
    using l(2) by (simp add: unsigned_of_nat take_bit_nat_eq_self)
  have nz: "(of_nat (length l) :: u8) \<noteq> 0" "\<not> 63 < (of_nat (length l) :: u8)"
    using l u by (auto simp: word_less_nat_alt simp del: of_nat_eq_0_iff)
  have rd: "rd8 packet p = Some (of_nat (length l))"
    using Cons.prems(2,3) by (simp add: rd8_def dns_label_def)
  have q: "qname_len (l # labels) = 1 + length l + qname_len labels"
    by (simp add: qname_len_def)
  have sl: "rd_slice packet (p + 1) (length l) = Some l"
    using Cons.prems(2,3) by (simp add: rd_slice_def dns_label_def bslice_def)
  have step: "parse_name_loop cap packet plen ptr p out None jumps =
      parse_name_loop cap packet plen ptr (p + 1 + length l) (name_append out l) None jumps"
    using Cons.prems(5,7,8) q length_name_append_le [OF pr, of out labels] label_len_bits [OF l(2)] nz u
    by (subst parse_name_loop.simps) (simp only: rd sl u Option.bind.bind_lunit, simp)
  have "parse_name_loop cap packet plen ptr (p + 1 + length l) (name_append out l) None jumps =
      Some (Some (p + 1 + length l - ptr + qname_len labels + 1, join_after (name_append out l) labels))"
    using Cons.prems q
    by (intro Cons.IH [of "pre @ dns_label l"]) (auto simp: dns_label_def join_after_Cons)
  then show ?case
    using Cons.prems(4) q pr by (simp add: step join_after_Cons)
qed

lemma dns_name_roundtrip_aux:
  assumes "\<forall>l \<in> set labels. label_printable l" "length (dot_join labels) \<le> 254"
    and "packet = pre @ concat (map dns_label labels) @ 0 # rest"
    and "length pre + qname_len labels + 1 \<le> plen" "plen \<le> length packet"
  shows "parse_dns_name packet plen (length pre) = Some (Some (qname_len labels + 1, dot_join labels))"
proof -
  have "join_after [] labels = dot_join labels"
    by (simp add: join_after_def)
  then show ?thesis
    using parse_name_loop_labels [OF assms(1,3) refl order_refl assms(4,5), of "[]" DNS_NAME_BUF 0] assms(2)
    by (simp add: parse_dns_name_def DNS_NAME_BUF_def)
qed

section \<open>Properties of names\<close>

text \<open>Round trip. A name of printable labels (1 to 63 characters each, at most 254 characters with
  dots) that stands uncompressed anywhere in a packet is read back as the dotted name, and the call
  consumes exactly its wire encoding.\<close>

theorem dns_name_roundtrip:
  assumes "\<forall>l \<in> set labels. label_printable l" "length (dot_join labels) \<le> 254"
    and "packet = pre @ concat (map dns_label labels) @ 0 # rest"
    and "length pre + qname_len labels + 1 \<le> plen" "plen \<le> length packet"
  shows "parse_dns_name packet plen (length pre) = Some (Some (qname_len labels + 1, dot_join labels))"
  using assms by (rule dns_name_roundtrip_aux)

theorem dns_name_roundtrip_witness:
  "parse_dns_name ([9, 9] @ concat (map dns_label [str ''ns'', str ''example'', str ''org'']) @ 0 # [1]) 19 2 =
     Some (Some (16, str ''ns.example.org''))"
proof -
  have "\<forall>l \<in> set [str ''ns'', str ''example'', str ''org'']. label_printable l"
      "length (dot_join [str ''ns'', str ''example'', str ''org'']) \<le> 254"
      "length [9, 9 :: u8] + qname_len [str ''ns'', str ''example'', str ''org''] + 1 \<le> 19"
      "19 \<le> length ([9, 9 :: u8] @ concat (map dns_label [str ''ns'', str ''example'', str ''org'']) @ 0 # [1])"
    by code_simp+
  from dns_name_roundtrip [OF this(1,2) refl this(3,4)] show ?thesis
    by (simp add: qname_len_def str_simps eval_nat_numeral)
qed

lemma parse_name_loop_mono:
  "parse_name_loop cap packet plen ptr p out jc jumps = Some r \<Longrightarrow> cap \<le> cap' \<Longrightarrow>
   parse_name_loop cap' packet plen ptr p out jc jumps = Some r"
proof (induction cap packet plen ptr p out jc jumps arbitrary: r rule: parse_name_loop.induct)
  case (1 cap packet plen ptr p out jc jumps)
  note prem = "1.prems"(1) [unfolded parse_name_loop.simps [of cap packet plen ptr p out jc jumps]]
  show ?case
    using prem "1.prems"(2) 1(1) 1(2)
    by (subst parse_name_loop.simps) (fastforce split: if_split_asm bind_split_asm simp del: rd8_eq_Some)
qed

text \<open>On every packet of the stated length, including hostile compression pointers, the name
  parser terminates and reads only inside the packet; its one defect is the size of the output
  buffer. A buffer of 318 bytes makes it defined everywhere and does not change any result that the
  256-byte buffer gives.\<close>

theorem dns_name_only_overflow:
  assumes "plen \<le> length packet"
  shows "parse_name_loop 318 packet plen ptr ptr [] None 0 \<noteq> None \<and>
    (\<forall>r. parse_dns_name packet plen ptr = Some r \<longrightarrow> parse_name_loop 318 packet plen ptr ptr [] None 0 = Some r)"
  using parse_name_loop_total [OF order_refl assms, of "[]" ptr ptr None 0]
    parse_name_loop_mono [of 256 packet plen ptr ptr "[]" None 0 _ 318]
  by (auto simp: parse_dns_name_def DNS_NAME_BUF_def)

theorem dns_name_only_overflow_witness:
  "parse_name_loop 318 [0xC0, 0] 2 0 0 [] None 0 \<noteq> None"
  using dns_name_only_overflow [of 2 "[0xC0, 0]" 0] by simp

text \<open>Five labels of 63, 63, 63, 62 and 63 characters overrun the 256-byte stack buffer of
  \<^verbatim>\<open>parse_dns_question\<close>: the length is checked only after the label is copied.\<close>

theorem dns_name_overflow:
  "parse_dns_name (concat (map (\<lambda>k. dns_label (replicate k 97)) [63, 63, 63, 62, 63]) @ [0]) 320 0 = None"
  by code_simp

section \<open>Messages: bounds\<close>

definition question_ok :: "dns_question \<Rightarrow> bool" where
  "question_ok q \<longleftrightarrow> length (q_name q) \<le> 254 \<and> unat (q_name_len q) = length (q_name q) \<and> 0 \<notin> set (q_name q)"

fun parsed_ok :: "dns_parsed \<Rightarrow> bool" where
  "parsed_ok ParsedNone = True"
| "parsed_ok (ParsedA a) = (length a = 4)"
| "parsed_ok (ParsedAAAA a) = (length a = 16)"
| "parsed_ok (ParsedDomain d) = (length d \<le> 254)"
| "parsed_ok (ParsedMX p e) = (case e of None \<Rightarrow> True | Some d \<Rightarrow> length d \<le> 254)"

definition rr_ok :: "dns_rr \<Rightarrow> bool" where
  "rr_ok rr \<longleftrightarrow> length (rr_name rr) \<le> 254 \<and> unat (rr_name_len rr) = length (rr_name rr) \<and>
     (case rr_rdata rr of None \<Rightarrow> rr_rdlength rr = 0 | Some d \<Rightarrow> length d = unat (rr_rdlength rr)) \<and>
     parsed_ok (rr_parsed rr)"

text \<open>A stored transaction respects the limits of the loops.\<close>

definition tx_ok :: "dns_transaction \<Rightarrow> bool" where
  "tx_ok tx \<longleftrightarrow> list_all question_ok (tx_questions tx) \<and> length (tx_questions tx) = dns_rounds (tx_qdcount tx) 10 \<and>
     list_all rr_ok (tx_answers tx) \<and> length (tx_answers tx) \<le> dns_rounds (tx_ancount tx) 20 \<and>
     list_all rr_ok (tx_authority tx) \<and> length (tx_authority tx) \<le> dns_rounds (tx_nscount tx) 10 \<and>
     list_all rr_ok (tx_additional tx) \<and> length (tx_additional tx) \<le> dns_rounds (tx_arcount tx) 10"

definition dns_conn_ok :: "dns_conn \<Rightarrow> bool" where
  "dns_conn_ok c \<longleftrightarrow> list_all tx_ok (dns_transactions c) \<and> dns_tx_count c = of_nat (length (dns_transactions c)) \<and>
     \<not> dga_suspected c \<and> \<not> excessive_subdomains c"

lemma unat_of_nat_254: "n \<le> 254 \<Longrightarrow> unat (of_nat n :: u16) = n"
  by (rule unat_of_nat_u16) simp

lemma parse_dns_question_ok:
  assumes "parse_dns_question env packet plen ptr n = Some (Some (c, q), n')"
  shows "question_ok q" "ptr + c \<le> plen"
  using assms parse_dns_name_result [of packet plen ptr]
  by (auto simp: parse_dns_question_def question_ok_def Let_def unat_of_nat_254
      split: bind_split_asm option.splits prod.splits if_split_asm)

lemma parse_rr_data_ok:
  assumes "parse_rr_data env packet plen ptr typ rdlen n = Some (parsed, n')"
  shows "parsed_ok parsed"
  using assms parse_dns_name_result(3)
  by (fastforce simp: parse_rr_data_def rd_slice_def
      split: bind_split_asm option.splits prod.splits if_split_asm)

lemma parse_dns_rr_ok:
  assumes "parse_dns_rr env packet plen ptr n = Some (Some (c, rr), n')"
  shows "rr_ok rr"
  using assms parse_dns_name_result(3) [of packet plen ptr]
  by (auto simp: parse_dns_rr_def rr_ok_def Let_def unat_of_nat_254 rd_slice_def unat_eq_0 dest!: parse_rr_data_ok
      split: bind_split_asm option.splits prod.splits if_split_asm)

lemma dns_rrs_ok:
  "dns_rrs env packet plen k ptr n = Some (rrs, ptr', n') \<Longrightarrow> list_all rr_ok rrs \<and> length rrs \<le> k"
proof (induction k arbitrary: ptr n rrs ptr' n')
  case (Suc k)
  then show ?case
    using parse_dns_rr_ok [of env packet plen ptr n]
    by (fastforce split: bind_split_asm option.splits prod.splits)
qed simp

text \<open>The question loop changes only two flags of the connection.\<close>

definition same_counts :: "dns_conn \<Rightarrow> dns_conn \<Rightarrow> bool" where
  "same_counts c d \<longleftrightarrow> c\<lparr>suspicious_tld := False, high_entropy_domain := False\<rparr> = d\<lparr>suspicious_tld := False, high_entropy_domain := False\<rparr>"

lemma dns_questions_ok:
  "dns_questions hi env packet plen k ptr n conn = Some (r, ptr', n', conn') \<Longrightarrow>
   same_counts conn conn' \<and> (case r of None \<Rightarrow> True | Some qs \<Rightarrow> list_all question_ok qs \<and> length qs = k)"
proof (induction k arbitrary: ptr n conn r ptr' n' conn')
  case 0
  then show ?case
    by (auto simp: same_counts_def)
next
  case (Suc k)
  obtain r1 n1 where q: "parse_dns_question env packet plen ptr n = Some (r1, n1)"
    using Suc.prems by (auto split: bind_split_asm)
  show ?case
  proof (cases r1)
    case None
    then show ?thesis
      using Suc.prems q by (auto simp: same_counts_def)
  next
    case (Some a)
    obtain c qn where a: "a = (c, qn)"
      by force
    obtain qs where rest: "dns_questions hi env packet plen k (ptr + c) n1 (dns_check_name hi (q_name qn) conn) =
          Some (qs, ptr', n', conn')" "r = map_option ((#) qn) qs"
      using Suc.prems q Some a by (auto split: bind_split_asm)
    have "same_counts conn conn'"
      using Suc.IH [OF rest(1)] by (auto simp: same_counts_def dns_check_name_def Let_def split: if_splits)
    then show ?thesis
      using Suc.IH [OF rest(1)] rest(2) parse_dns_question_ok [of env packet plen ptr n c qn n1] q Some a
      by (auto split: option.splits)
  qed
qed

lemma fold_count_rr_same:
  "dns_transactions (fold dns_count_rr rrs c) = dns_transactions c" "dns_tx_count (fold dns_count_rr rrs c) = dns_tx_count c"
  "dga_suspected (fold dns_count_rr rrs c) = dga_suspected c"
  "excessive_subdomains (fold dns_count_rr rrs c) = excessive_subdomains c"
  by (induction rrs arbitrary: c) (simp_all add: dns_count_rr_def)

lemma same_counts_fields:
  assumes "same_counts c d"
  shows "dns_transactions d = dns_transactions c" "dns_tx_count d = dns_tx_count c"
    "dga_suspected d = dga_suspected c" "excessive_subdomains d = excessive_subdomains c"
    "dns_parse_errors d = dns_parse_errors c"
proof -
  have "f (c\<lparr>suspicious_tld := False, high_entropy_domain := False\<rparr>) =
      f (d\<lparr>suspicious_tld := False, high_entropy_domain := False\<rparr>)" for f :: "dns_conn \<Rightarrow> 'b"
    using assms by (simp add: same_counts_def)
  from this [of dns_transactions] this [of dns_tx_count] this [of dga_suspected]
    this [of excessive_subdomains] this [of dns_parse_errors]
  show "dns_transactions d = dns_transactions c" "dns_tx_count d = dns_tx_count c"
    "dga_suspected d = dga_suspected c" "excessive_subdomains d = excessive_subdomains c"
    "dns_parse_errors d = dns_parse_errors c"
    by simp_all
qed

lemma dns_count_header_fields:
  "dns_transactions (dns_count_header tx c) = dns_transactions c" "dns_tx_count (dns_count_header tx c) = dns_tx_count c"
  "dga_suspected (dns_count_header tx c) = dga_suspected c"
  "excessive_subdomains (dns_count_header tx c) = excessive_subdomains c"
  "dns_parse_errors (dns_count_header tx c) = dns_parse_errors c"
  by (simp_all add: dns_count_header_def Let_def)

lemma dns_response_sections_ok:
  assumes "dns_response_sections env packet plen ptr n tx conn = Some (tx', conn', n')"
    and "list_all question_ok (tx_questions tx)" "length (tx_questions tx) = dns_rounds (tx_qdcount tx) 10"
  shows "tx_ok tx' \<and> (\<exists>rrs. conn' = fold dns_count_rr rrs conn)"
  using assms
  by (auto simp: dns_response_sections_def tx_ok_def split: bind_split_asm dest!: dns_rrs_ok) blast

text \<open>What one message does to a connection: either it is refused, one error is counted and no
  transaction is stored, or one well-formed transaction is put in front.\<close>

definition dns_outcome :: "int \<Rightarrow> dns_conn \<Rightarrow> dns_conn \<Rightarrow> bool" where
  "dns_outcome r c c' \<longleftrightarrow>
     dga_suspected c' = dga_suspected c \<and> excessive_subdomains c' = excessive_subdomains c \<and>
     (r = -1 \<and> dns_parse_errors c' = dns_parse_errors c + 1 \<and> dns_transactions c' = dns_transactions c \<and>
        dns_tx_count c' = dns_tx_count c \<or>
      r = 0 \<and> (\<exists>tx. tx_ok tx \<and> dns_transactions c' = tx # dns_transactions c) \<and> dns_tx_count c' = dns_tx_count c + 1)"

lemma dns_parse_message_outcome:
  assumes "dns_parse_message hi env packet plen n conn = Some (r, n', conn')"
  shows "dns_outcome r conn conn'"
proof (cases "unat plen < 12")
  case True
  then show ?thesis
    using assms by (auto simp: dns_parse_message_def dns_outcome_def)
next
  case False
  then obtain ident fl qd an ns ar where hdr:
    "rd_be16 packet 0 = Some ident" "rd_be16 packet 2 = Some fl" "rd_be16 packet 4 = Some qd"
    "rd_be16 packet 6 = Some an" "rd_be16 packet 8 = Some ns" "rd_be16 packet 10 = Some ar"
    using assms by (auto simp: dns_parse_message_def Let_def split: bind_split_asm)
  define tx where "tx = dns_header_tx ident fl qd an ns ar plen"
  show ?thesis
  proof (cases "malloc_ok env n")
    case False
    then show ?thesis
      using assms hdr \<open>\<not> unat plen < 12\<close> by (auto simp: dns_parse_message_def dns_outcome_def)
  next
    case True
    then obtain qs ptr n1 conn1 where q: "dns_questions hi env packet (unat plen) (dns_rounds qd 10) 12 (n + 1)
        (dns_count_header tx conn) = Some (qs, ptr, n1, conn1)"
      using assms hdr False by (auto simp: dns_parse_message_def tx_def Let_def split: bind_split_asm)
    note qok = dns_questions_ok [OF q] and same = same_counts_fields [of "dns_count_header tx conn" conn1]
    show ?thesis
    proof (cases qs)
      case None
      then show ?thesis
        using assms hdr False True q qok same
        by (auto simp: dns_parse_message_def tx_def dns_outcome_def dns_count_header_fields)
    next
      case (Some questions)
      define tx1 where "tx1 = tx\<lparr>tx_questions := questions\<rparr>"
      obtain tx2 conn2 n2 where s: "(if tx_is_response tx1
           then dns_response_sections env packet (unat plen) ptr n1 tx1 conn1 else Some (tx1, conn1, n1)) = Some (tx2, conn2, n2)"
          "r = 0" "conn' = conn2\<lparr>dns_transactions := tx2 # dns_transactions conn2, dns_tx_count := dns_tx_count conn2 + 1\<rparr>"
        using assms hdr False True q Some
        by (auto simp: dns_parse_message_def tx_def [symmetric] tx1_def [symmetric] Let_def split: bind_split_asm)
      have qs_ok: "list_all question_ok (tx_questions tx1)" "length (tx_questions tx1) = dns_rounds (tx_qdcount tx1) 10"
        using qok Some by (simp_all add: tx1_def tx_def dns_header_tx_def Let_def)
      have "tx_ok tx2 \<and> (\<exists>rrs. conn2 = fold dns_count_rr rrs conn1)"
      proof (cases "tx_is_response tx1")
        case True
        then show ?thesis
          using s(1) dns_response_sections_ok [OF _ qs_ok] by auto
      next
        case False
        then have "tx2 = tx1" "conn2 = fold dns_count_rr [] conn1"
          using s(1) by auto
        then show ?thesis
          using qs_ok
          by (intro conjI exI [of _ "[]"]) (auto simp: tx_ok_def tx1_def tx_def dns_header_tx_def Let_def)
      qed
      then show ?thesis
        using s(2,3) qok same by (auto simp: dns_outcome_def fold_count_rr_same dns_count_header_fields)
    qed
  qed
qed

section \<open>Properties of messages\<close>

text \<open>Parsing any data on a well-formed connection, over UDP or TCP and with any allocation failures,
  keeps the connection well-formed: names are at most 254 characters without NUL, the section limits
  of 10 and 20 hold, and the transaction count is the number of stored transactions. An error return
  leaves the stored transactions as they were.\<close>

theorem dns_conn_invariant:
  assumes "dns_conn_ok conn" "dns_parser_parse env (Some conn) data len is_tcp n = Some (r, n', conn')"
  shows "\<exists>c. conn' = Some c \<and> dns_conn_ok c \<and> (r = 0 \<or> r = -1 \<and> dns_transactions c = dns_transactions conn)"
proof -
  have "\<exists>c. conn' = Some c \<and> (c = conn \<and> r = -1 \<or> dns_outcome r conn c)"
    using assms(2) dns_parse_message_outcome
    by (fastforce simp: dns_parser_parse_def dns_parser_parse_with_def Let_def
        split: option.splits if_split_asm bind_split_asm)
  then show ?thesis
    using assms(1) by (auto simp: dns_outcome_def dns_conn_ok_def)
qed

theorem dns_conn_invariant_witness:
  "\<exists>c. dns_parser_parse all_ok_env (Some dns_conn_zero) (Some [1, 2, 3]) 3 False 0 = Some (-1, 0, Some c) \<and> dns_conn_ok c"
proof -
  have "dns_conn_ok dns_conn_zero"
    by (simp add: dns_conn_ok_def dns_conn_zero_def)
  moreover have p: "dns_parser_parse all_ok_env (Some dns_conn_zero) (Some [1, 2, 3]) 3 False 0 =
      Some (-1, 0, Some (dns_conn_zero\<lparr>dns_parse_errors := 1\<rparr>))"
    by (simp add: dns_parser_parse_def dns_parser_parse_with_def dns_parse_message_def dns_conn_zero_def)
  ultimately show ?thesis
    using dns_conn_invariant [OF _ p] by auto
qed

text \<open>The message as the two transports carry it.\<close>

definition dns_frame :: "bool \<Rightarrow> bytes \<Rightarrow> bytes" where
  "dns_frame is_tcp msg =
    (if is_tcp then [ucast (drop_bit 8 (of_nat (length msg) :: u16)), ucast (of_nat (length msg) :: u16)] @ msg else msg)"

lemma parse_question_of_query:
  assumes "\<forall>l \<in> set labels. label_printable l" "length (dot_join labels) \<le> 254" "\<forall>k. malloc_ok env k"
  shows "parse_dns_question env (dns_query i1 i2 labels qtype qclass) (qname_len labels + 17) 12 n =
    Some (Some (qname_len labels + 5, \<lparr>q_name = dot_join labels, q_name_len = of_nat (length (dot_join labels)),
      q_type = qtype, q_class = qclass\<rparr>), n + 2)"
proof -
  have h: "length (dns_query_head i1 i2) = 12"
    by (simp add: dns_query_head_def)
  have "parse_dns_name (dns_query i1 i2 labels qtype qclass) (qname_len labels + 17) 12 =
      Some (Some (qname_len labels + 1, dot_join labels))"
    using dns_name_roundtrip_aux [OF assms(1,2) dns_query_shape [of i1 i2 labels qtype qclass], of "qname_len labels + 17"] h
    by simp
  then show ?thesis
    using assms(3) dns_query_question [of i1 i2 labels qtype qclass]
    by (simp add: parse_dns_question_def Let_def add.commute add.left_commute)
qed

lemma dns_message_of_query:
  assumes "\<forall>l \<in> set labels. label_printable l" "length (dot_join labels) \<le> 254" "\<forall>k. malloc_ok env k"
    and "plen = of_nat (qname_len labels + 17)" "qname_len labels < 65000"
  shows "\<exists>n' c tx. dns_parse_message hi env (dns_query i1 i2 labels qtype qclass) plen n conn = Some (0, n', c) \<and>
    dns_transactions c = tx # dns_transactions conn \<and> queries_parsed c = queries_parsed conn + 1 \<and>
    txid tx = be16 i1 i2 \<and> \<not> tx_is_response tx \<and>
    tx_questions tx = [\<lparr>q_name = dot_join labels, q_name_len = of_nat (length (dot_join labels)),
      q_type = qtype, q_class = qclass\<rparr>]"
proof -
  have u: "unat plen = qname_len labels + 17"
    unfolding assms(4) using assms(5) by (intro unat_of_nat_u32) simp
  have "dns_rounds 1 10 = 1"
    by (simp add: dns_rounds_def)
  then show ?thesis
    using parse_question_of_query [OF assms(1-3), of i1 i2 qtype qclass "n + 1"] assms(3) u
    by (simp add: dns_parse_message_def dns_query_header Let_def dns_header_tx_def dns_count_header_def
        dns_check_name_def)
qed

lemma frame_len_read: "length msg < 65536 \<Longrightarrow> rd_be16 (dns_frame True msg) 0 = Some (of_nat (length msg))"
  using be16_split [of "of_nat (length msg)"] by (simp add: dns_frame_def rd_be16_def rd8_def)

text \<open>C4: End to end. A well-formed query (printable labels, dotted name of at most 254 characters) is
  stored as one transaction with its identifier and one question carrying exactly the name, type and
  class that were encoded, over UDP and, with the length prefix, over TCP.\<close>

theorem dns_query_parsed:
  assumes "\<forall>l \<in> set labels. label_printable l" "length (dot_join labels) \<le> 254" "\<forall>k. malloc_ok env k"
    and "data = dns_frame is_tcp (dns_query i1 i2 labels qtype qclass)" "qname_len labels < 65000"
  shows "\<exists>n' c tx. dns_parser_parse env (Some conn) (Some data) (of_nat (length data)) is_tcp n = Some (0, n', Some c) \<and>
    dns_get_latest_transaction (Some c) = Some tx \<and> dns_find_transaction (Some c) (be16 i1 i2) = Some tx \<and>
    queries_parsed c = queries_parsed conn + 1 \<and> \<not> tx_is_response tx \<and>
    map (\<lambda>q. (q_name q, q_type q, q_class q)) (tx_questions tx) = [(dot_join labels, qtype, qclass)]"
proof -
  define msg where "msg = dns_query i1 i2 labels qtype qclass"
  have lm: "length msg = qname_len labels + 17"
    by (simp add: msg_def)
  obtain n' c tx where m: "dns_parse_message dns_high_entropy env msg (of_nat (length msg)) n conn = Some (0, n', c)"
    "dns_transactions c = tx # dns_transactions conn" "queries_parsed c = queries_parsed conn + 1"
    "txid tx = be16 i1 i2" "\<not> tx_is_response tx"
    "tx_questions tx = [\<lparr>q_name = dot_join labels, q_name_len = of_nat (length (dot_join labels)),
      q_type = qtype, q_class = qclass\<rparr>]"
    using dns_message_of_query [OF assms(1-3) refl assms(5), of dns_high_entropy i1 i2 qtype qclass n conn] lm
    unfolding msg_def by fastforce
  have "dns_parser_parse env (Some conn) (Some data) (of_nat (length data)) is_tcp n = Some (0, n', Some c)"
  proof (cases is_tcp)
    case True
    have d: "data = dns_frame True msg" "drop 2 data = msg" "length data = length msg + 2"
      using True assms(4) by (simp_all add: msg_def dns_frame_def)
    have u: "(of_nat (length msg + 2) :: u32) - 2 = of_nat (length msg)"
      "ucast (of_nat (length msg) :: u16) = (of_nat (length msg) :: u32)"
      "\<not> (of_nat (length msg + 2) :: u32) < 2"
    proof -
      have "unat (of_nat (length msg + 2) :: u32) = length msg + 2"
        using lm assms(5) by (intro unat_of_nat_u32) simp
      then show "\<not> (of_nat (length msg + 2) :: u32) < 2"
        by (simp add: word_less_nat_alt del: of_nat_add)
      show "ucast (of_nat (length msg) :: u16) = (of_nat (length msg) :: u32)"
        using lm assms(5) unat_of_nat_u16 [of "length msg"] unat_of_nat_u32 [of "length msg"]
        by (simp add: word_unat_eq_iff)
    qed simp
    have "rd_be16 data 0 = Some (of_nat (length msg))"
      unfolding d(1) using lm assms(5) by (intro frame_len_read) simp
    then show ?thesis
      using m(1) True d(2,3) u
      by (simp add: dns_parser_parse_def dns_parser_parse_with_def del: of_nat_add)
  next
    case False
    then show ?thesis
      using m(1) assms(4) by (simp add: dns_parser_parse_def dns_parser_parse_with_def dns_frame_def msg_def)
  qed
  then show ?thesis
    using m by (auto simp: dns_get_latest_transaction_def dns_find_transaction_def)
qed

theorem dns_query_parsed_witness:
  "\<exists>n' c tx. dns_parser_parse all_ok_env (Some dns_conn_zero) (Some (dns_frame True (dns_query 7 8 [str ''a'', str ''tk''] 1 1)))
      (of_nat (length (dns_frame True (dns_query 7 8 [str ''a'', str ''tk''] 1 1)))) True 0 = Some (0, n', Some c) \<and>
    dns_get_latest_transaction (Some c) = Some tx \<and>
    map (\<lambda>q. (q_name q, q_type q, q_class q)) (tx_questions tx) = [(str ''a.tk'', 1, 1)]"
proof -
  have lab: "\<forall>l \<in> set [str ''a'', str ''tk'']. label_printable l" "length (dot_join [str ''a'', str ''tk'']) \<le> 254"
    by code_simp+
  have len: "qname_len [str ''a'', str ''tk''] < 65000" and ok: "\<forall>k. malloc_ok all_ok_env k"
    by (simp_all add: qname_len_def all_ok_env_def)
  obtain n' c tx where
      "dns_parser_parse all_ok_env (Some dns_conn_zero) (Some (dns_frame True (dns_query 7 8 [str ''a'', str ''tk''] 1 1)))
      (of_nat (length (dns_frame True (dns_query 7 8 [str ''a'', str ''tk''] 1 1)))) True 0 = Some (0, n', Some c)"
    "dns_get_latest_transaction (Some c) = Some tx"
    "map (\<lambda>q. (q_name q, q_type q, q_class q)) (tx_questions tx) = [(dot_join [str ''a'', str ''tk''], 1, 1)]"
    using dns_query_parsed [OF lab ok refl len, where conn = dns_conn_zero and is_tcp = True and ?i1.0 = 7 and ?i2.0 = 8
      and qtype = 1 and qclass = 1 and n = 0] by (elim exE conjE) simp
  moreover have "dot_join [str ''a'', str ''tk''] = str ''a.tk''"
    by code_simp
  ultimately show ?thesis
    by auto
qed

lemma count_list_pos: "c \<in> set cs \<Longrightarrow> 1 \<le> count_list cs c"
  by (metis count_list_0_iff less_one linorder_not_le)

lemma entropy_le_log:
  assumes "cs = filter (\<lambda>c. c \<noteq> 46) domain" "cs \<noteq> []"
  shows "dns_calculate_entropy domain \<le> log 2 (real (length cs))"
proof -
  define n where "n = length cs"
  have n: "0 < n"
    using assms(2) by (simp add: n_def)
  have le: "- (real (count_list cs c) / real n * log 2 (real (count_list cs c) / real n))
      \<le> real (count_list cs c) / real n * log 2 (real n)" if "c \<in> set cs" for c
  proof -
    have k: "1 \<le> real (count_list cs c)"
      using count_list_pos [OF that] by simp
    have "log 2 (real (count_list cs c) / real n) = log 2 (real (count_list cs c)) - log 2 (real n)"
      using k n by (simp add: log_divide)
    moreover have "0 \<le> log 2 (real (count_list cs c))"
      using k by simp
    ultimately have "- log 2 (real (count_list cs c) / real n) \<le> log 2 (real n)"
      by simp
    then have "real (count_list cs c) / real n * - log 2 (real (count_list cs c) / real n)
        \<le> real (count_list cs c) / real n * log 2 (real n)"
      by (intro mult_left_mono) simp_all
    then show ?thesis
      by simp
  qed
  have "dns_calculate_entropy domain =
      (\<Sum>c \<in> set cs. - (real (count_list cs c) / real n * log 2 (real (count_list cs c) / real n)))"
    using n by (simp add: dns_calculate_entropy_def assms(1) [symmetric] n_def Let_def)
  also have "\<dots> \<le> (\<Sum>c \<in> set cs. real (count_list cs c) / real n * log 2 (real n))"
    using le by (rule sum_mono)
  also have "\<dots> = real (\<Sum>c \<in> set cs. count_list cs c) / real n * log 2 (real n)"
    by (simp add: sum_distrib_right sum_divide_distrib)
  also have "\<dots> = log 2 (real n)"
    using n by (simp add: sum_count_set n_def)
  finally show ?thesis
    by (simp add: n_def)
qed

text \<open>A name with at most 22 characters besides dots never counts as a high-entropy name: the
  entropy is at most the logarithm of the number of characters.\<close>

theorem short_name_not_high_entropy:
  assumes "length (filter (\<lambda>c. c \<noteq> 46) domain) \<le> 22"
  shows "\<not> dns_high_entropy domain"
proof (cases "filter (\<lambda>c. c \<noteq> 46) domain = []")
  case True
  then show ?thesis
    by (simp add: dns_high_entropy_def dns_calculate_entropy_def)
next
  case False
  have "log 2 (real (length (filter (\<lambda>c. c \<noteq> 46) domain))) \<le> log 2 22"
    using assms False by (subst log_le_cancel_iff) auto
  moreover have "2 * log 2 22 = log 2 (22 ^ 2)"
    by (simp only: log_nat_power)
  moreover have "log 2 (22 ^ 2) < log 2 (2 ^ 9)"
    by (subst log_less_cancel_iff) simp_all
  moreover have "log 2 (2 ^ 9) = (9 :: real)"
    by (simp only: log_pow_cancel)
  ultimately have "2 * log 2 (real (length (filter (\<lambda>c. c \<noteq> 46) domain))) < 9"
    by linarith
  then show ?thesis
    using entropy_le_log [OF refl False] by (simp add: dns_high_entropy_def)
qed

theorem short_name_not_high_entropy_witness: "\<not> dns_high_entropy (str ''qwertyuiop.asdfghjkl.net'')"
  by (rule short_name_not_high_entropy) code_simp

text \<open>The test for suspicious top-level domains searches the whole name, so ordinary names are
  flagged because of an inner label.\<close>

theorem inner_label_flagged: "dns_is_suspicious_domain (str ''www.mlb.com'') \<and> dns_is_suspicious_domain (str ''www.topgear.com'')"
  by code_simp
end
