(* ===== verification/Http_Parser.thy ===== *)
theory Http_Parser
  imports Dns_Parser
begin

text \<open>
  \<^verbatim>\<open>src/src/http_parser.c\<close> and \<^verbatim>\<open>http_parser.h\<close>: the HTTP/1.x parser and its per-connection state
  machine.

  Bytes are loaded with bounds checks. A heap string is \<open>None\<close> when its allocation failed; using it
  where the code does not test for null is undefined. \<^verbatim>\<open>current_tx\<close>, when not null, always points to
  the head of \<^verbatim>\<open>transactions\<close>, so the list is modelled as the current transaction and the finished
  ones behind it. Lengths are natural numbers: the code's \<^verbatim>\<open>int\<close> results are exact for data below
  2 GB, and every payload of this program is shorter than 64 KB. Timestamps and the parse buffer are
  never used by the code after their initialisation.
\<close>

section \<open>Data\<close>

datatype http_method =
    HTTP_METHOD_UNKNOWN | HTTP_METHOD_GET | HTTP_METHOD_POST | HTTP_METHOD_PUT | HTTP_METHOD_DELETE
  | HTTP_METHOD_HEAD | HTTP_METHOD_OPTIONS | HTTP_METHOD_TRACE | HTTP_METHOD_CONNECT | HTTP_METHOD_PATCH

datatype http_version =
    HTTP_VERSION_UNKNOWN | HTTP_VERSION_09 | HTTP_VERSION_10 | HTTP_VERSION_11 | HTTP_VERSION_20

datatype http_state =
    HTTP_STATE_IDLE | HTTP_STATE_REQUEST_LINE | HTTP_STATE_REQUEST_HEADERS | HTTP_STATE_REQUEST_BODY
  | HTTP_STATE_RESPONSE_LINE | HTTP_STATE_RESPONSE_HEADERS | HTTP_STATE_RESPONSE_BODY | HTTP_STATE_DONE
  | HTTP_STATE_ERROR

record http_header =
  h_name :: "bytes option"
  h_value :: "bytes option"
  h_name_len :: u16
  h_value_len :: u16

record http_request =
  rq_method :: http_method
  rq_uri :: "bytes option"
  rq_uri_len :: u16
  rq_host :: "bytes option"
  rq_host_len :: u16
  rq_version :: http_version
  rq_headers :: "http_header list"
  rq_header_count :: u16
  rq_content_length :: u64
  rq_has_content_length :: bool
  rq_content_type :: "bytes option"
  rq_content_type_len :: u16
  rq_user_agent :: "bytes option"
  rq_user_agent_len :: u16
  rq_complete :: bool

record http_response =
  rs_version :: http_version
  rs_status_code :: u16
  rs_reason_phrase :: "bytes option"
  rs_reason_phrase_len :: u16
  rs_headers :: "http_header list"
  rs_header_count :: u16
  rs_content_length :: u64
  rs_has_content_length :: bool
  rs_content_type :: "bytes option"
  rs_content_type_len :: u16
  rs_server :: "bytes option"
  rs_server_len :: u16
  rs_complete :: bool

record http_transaction =
  ht_request :: http_request
  ht_response :: "http_response option"
  ht_state :: http_state

record http_conn =
  hc_current :: "http_transaction option"
  hc_finished :: "http_transaction list"
  hc_tx_count :: u32
  hc_state :: http_state
  hc_requests_parsed :: u64
  hc_responses_parsed :: u64
  hc_parse_errors :: u64

definition hc_transactions :: "http_conn \<Rightarrow> http_transaction list" where
  "hc_transactions c = (case hc_current c of None \<Rightarrow> [] | Some t \<Rightarrow> [t]) @ hc_finished c"

definition http_request_zero :: http_request where
  "http_request_zero = \<lparr>rq_method = HTTP_METHOD_UNKNOWN, rq_uri = None, rq_uri_len = 0, rq_host = None,
     rq_host_len = 0, rq_version = HTTP_VERSION_UNKNOWN, rq_headers = [], rq_header_count = 0,
     rq_content_length = 0, rq_has_content_length = False, rq_content_type = None, rq_content_type_len = 0,
     rq_user_agent = None, rq_user_agent_len = 0, rq_complete = False\<rparr>"

definition http_response_zero :: http_response where
  "http_response_zero = \<lparr>rs_version = HTTP_VERSION_UNKNOWN, rs_status_code = 0, rs_reason_phrase = None,
     rs_reason_phrase_len = 0, rs_headers = [], rs_header_count = 0, rs_content_length = 0,
     rs_has_content_length = False, rs_content_type = None, rs_content_type_len = 0, rs_server = None,
     rs_server_len = 0, rs_complete = False\<rparr>"

definition http_conn_zero :: http_conn where
  "http_conn_zero = \<lparr>hc_current = None, hc_finished = [], hc_tx_count = 0, hc_state = HTTP_STATE_IDLE,
     hc_requests_parsed = 0, hc_responses_parsed = 0, hc_parse_errors = 0\<rparr>"

definition http_parser_init :: "bool \<Rightarrow> bool \<Rightarrow> http_conn option" where
  "http_parser_init conn_ok buffer_ok = (if \<not> conn_ok then None else if \<not> buffer_ok then None else Some http_conn_zero)"

fun http_method_to_string :: "http_method \<Rightarrow> bytes" where
  "http_method_to_string HTTP_METHOD_UNKNOWN = str ''UNKNOWN''"
| "http_method_to_string HTTP_METHOD_GET = str ''GET''"
| "http_method_to_string HTTP_METHOD_POST = str ''POST''"
| "http_method_to_string HTTP_METHOD_PUT = str ''PUT''"
| "http_method_to_string HTTP_METHOD_DELETE = str ''DELETE''"
| "http_method_to_string HTTP_METHOD_HEAD = str ''HEAD''"
| "http_method_to_string HTTP_METHOD_OPTIONS = str ''OPTIONS''"
| "http_method_to_string HTTP_METHOD_TRACE = str ''TRACE''"
| "http_method_to_string HTTP_METHOD_CONNECT = str ''CONNECT''"
| "http_method_to_string HTTP_METHOD_PATCH = str ''PATCH''"

fun http_version_to_string :: "http_version \<Rightarrow> bytes" where
  "http_version_to_string HTTP_VERSION_09 = str ''HTTP/0.9''"
| "http_version_to_string HTTP_VERSION_10 = str ''HTTP/1.0''"
| "http_version_to_string HTTP_VERSION_11 = str ''HTTP/1.1''"
| "http_version_to_string HTTP_VERSION_20 = str ''HTTP/2.0''"
| "http_version_to_string HTTP_VERSION_UNKNOWN = str ''HTTP/?.?''"

section \<open>Tokens\<close>

definition is_space :: "u8 \<Rightarrow> bool" where
  "is_space c \<longleftrightarrow> c = 32 \<or> c = 9"

text \<open>The token is compared with its exact length, so \<^verbatim>\<open>strncasecmp\<close> is a case-insensitive equality.\<close>

definition parse_method :: "bytes \<Rightarrow> http_method" where
  "parse_method tok =
    (if c_strcasecmp_eq tok (str ''GET'') then HTTP_METHOD_GET
     else if c_strcasecmp_eq tok (str ''POST'') then HTTP_METHOD_POST
     else if c_strcasecmp_eq tok (str ''PUT'') then HTTP_METHOD_PUT
     else if c_strcasecmp_eq tok (str ''DELETE'') then HTTP_METHOD_DELETE
     else if c_strcasecmp_eq tok (str ''HEAD'') then HTTP_METHOD_HEAD
     else if c_strcasecmp_eq tok (str ''OPTIONS'') then HTTP_METHOD_OPTIONS
     else if c_strcasecmp_eq tok (str ''TRACE'') then HTTP_METHOD_TRACE
     else if c_strcasecmp_eq tok (str ''CONNECT'') then HTTP_METHOD_CONNECT
     else if c_strcasecmp_eq tok (str ''PATCH'') then HTTP_METHOD_PATCH
     else HTTP_METHOD_UNKNOWN)"

definition parse_version :: "bytes \<Rightarrow> http_version" where
  "parse_version tok =
    (if 8 \<le> length tok then
       (if take 8 tok = str ''HTTP/0.9'' then HTTP_VERSION_09
        else if take 8 tok = str ''HTTP/1.0'' then HTTP_VERSION_10
        else if take 8 tok = str ''HTTP/1.1'' then HTTP_VERSION_11
        else if take 8 tok = str ''HTTP/2.0'' then HTTP_VERSION_20
        else HTTP_VERSION_UNKNOWN)
     else HTTP_VERSION_UNKNOWN)"

text \<open>The loop of \<^verbatim>\<open>find_eol\<close> at index \<open>i\<close> from \<open>start\<close>, with \<open>k\<close> bytes left: the position of the line end
  and its length.\<close>

fun find_eol :: "bytes \<Rightarrow> nat \<Rightarrow> nat \<Rightarrow> nat \<Rightarrow> (nat \<times> nat) option option" where
  "find_eol data start i 0 = Some None"
| "find_eol data start i (Suc k) = do {
     c \<leftarrow> rd8 data (start + i);
     if c = 13 \<and> 0 < k then do {
       d \<leftarrow> rd8 data (start + i + 1);
       if d = 10 then Some (Some (i, 2)) else find_eol data start (Suc i) k }
     else if c = 10 then Some (Some (i, 1))
     else find_eol data start (Suc i) k }"

definition strndup_malloc :: "rte_env \<Rightarrow> nat \<Rightarrow> bytes \<Rightarrow> bytes option \<times> nat" where
  "strndup_malloc env n s = (if malloc_ok env n then Some s else None, n + 1)"

text \<open>\<^verbatim>\<open>atoi\<close> of a digit string, and \<^verbatim>\<open>strtoull(s, NULL, 10)\<close> of a C string: leading white space, an
  optional sign, digits; saturating at the largest value, and negated modulo 2 to the 64 for a
  minus sign.\<close>

definition digits_val :: "bytes \<Rightarrow> nat" where
  "digits_val ds = foldl (\<lambda>v d. 10 * v + (unat d - 48)) 0 ds"

definition c_isspace :: "u8 \<Rightarrow> bool" where
  "c_isspace c \<longleftrightarrow> c = 32 \<or> (9 \<le> c \<and> c \<le> 13)"

definition c_str :: "bytes \<Rightarrow> bytes" where
  "c_str s = takeWhile (\<lambda>c. c \<noteq> 0) s"

definition c_strtoull :: "bytes \<Rightarrow> u64" where
  "c_strtoull s =
    (let t = dropWhile c_isspace (c_str s);
         neg = (t \<noteq> [] \<and> hd t = 45);
         u = (if t \<noteq> [] \<and> (hd t = 45 \<or> hd t = 43) then tl t else t);
         v = digits_val (takeWhile c_isdigit u) in
     if 2 ^ 64 \<le> v then - 1 else if neg then - of_nat v else of_nat v)"

section \<open>Lines\<close>

text \<open>The parsers of one line work on the bytes before the line end; \<open>False\<close> stands for their -1.\<close>

definition request_line_tokens :: "rte_env \<Rightarrow> bytes \<Rightarrow> http_request \<Rightarrow> nat \<Rightarrow> bool \<times> http_request \<times> nat" where
  "request_line_tokens env line req n =
    (let p1 = dropWhile (\<lambda>c. \<not> is_space c) line in
     if p1 = [] then (False, req, n)
     else
      (let req1 = req\<lparr>rq_method := parse_method (takeWhile (\<lambda>c. \<not> is_space c) line)\<rparr>;
           p2 = dropWhile is_space p1 in
       if p2 = [] then (False, req1, n)
       else
        (let uri = takeWhile (\<lambda>c. \<not> is_space c) p2;
             p3 = dropWhile (\<lambda>c. \<not> is_space c) p2 in
         if p3 = [] then (False, req1, n)
         else
          (let (copy, n1) = strndup_malloc env n (take 2048 uri);
               req2 = req1\<lparr>rq_uri := copy, rq_uri_len := of_nat (min (length uri) 2048)\<rparr>;
               p4 = dropWhile is_space p3 in
           (True, req2\<lparr>rq_version := (if p4 = [] then HTTP_VERSION_09
              else parse_version (takeWhile (\<lambda>c. \<not> is_space c) p4))\<rparr>, n1)))))"

definition parse_request_line ::
  "rte_env \<Rightarrow> bytes \<Rightarrow> nat \<Rightarrow> http_request \<Rightarrow> nat \<Rightarrow> (int \<times> http_request \<times> nat) option" where
  "parse_request_line env data len req n = do {
     e \<leftarrow> find_eol data 0 0 len;
     (case e of
        None \<Rightarrow> Some (0, req, n)
      | Some (eol, eol_len) \<Rightarrow> do {
          line \<leftarrow> rd_slice data 0 eol;
          let (ok, req', n') = request_line_tokens env line req n;
          Some (if ok then int eol + int eol_len else -1, req', n') }) }"

definition status_line_tokens :: "rte_env \<Rightarrow> bytes \<Rightarrow> http_response \<Rightarrow> nat \<Rightarrow> bool \<times> http_response \<times> nat" where
  "status_line_tokens env line resp n =
    (let p1 = dropWhile (\<lambda>c. \<not> is_space c) line in
     if p1 = [] then (False, resp, n)
     else
      (let resp1 = resp\<lparr>rs_version := parse_version (takeWhile (\<lambda>c. \<not> is_space c) line)\<rparr>;
           p2 = dropWhile is_space p1 in
       if p2 = [] then (False, resp1, n)
       else
        (let status = takeWhile c_isdigit p2; p3 = dropWhile c_isdigit p2 in
         if p3 = [] \<or> status = [] then (False, resp1, n)
         else
          (let resp2 = resp1\<lparr>rs_status_code := of_nat (digits_val (take 3 status))\<rparr>;
               p4 = dropWhile is_space p3 in
           if p4 = [] then (True, resp2, n)
           else
            (let (copy, n1) = strndup_malloc env n p4 in
             (True, resp2\<lparr>rs_reason_phrase := copy, rs_reason_phrase_len := of_nat (length p4)\<rparr>, n1))))))"

definition parse_response_line ::
  "rte_env \<Rightarrow> bytes \<Rightarrow> nat \<Rightarrow> http_response \<Rightarrow> nat \<Rightarrow> (int \<times> http_response \<times> nat) option" where
  "parse_response_line env data len resp n = do {
     e \<leftarrow> find_eol data 0 0 len;
     (case e of
        None \<Rightarrow> Some (0, resp, n)
      | Some (eol, eol_len) \<Rightarrow> do {
          line \<leftarrow> rd_slice data 0 eol;
          let (ok, resp', n') = status_line_tokens env line resp n;
          Some (if ok then int eol + int eol_len else -1, resp', n') }) }"

definition trim_right :: "bytes \<Rightarrow> bytes" where
  "trim_right s = rev (dropWhile is_space (rev s))"

text \<open>The header of a line, \<open>None\<close> when there is no colon or no memory.\<close>

definition header_line_tokens :: "rte_env \<Rightarrow> bytes \<Rightarrow> nat \<Rightarrow> http_header option \<times> nat" where
  "header_line_tokens env line n =
    (let name = takeWhile (\<lambda>c. c \<noteq> 58) line; rest = dropWhile (\<lambda>c. c \<noteq> 58) line in
     if rest = [] then (None, n)
     else
      (let val = trim_right (dropWhile is_space (tl rest)) in
       if \<not> malloc_ok env n then (None, n + 1)
       else
        (let (nm, n1) = strndup_malloc env (n + 1) name;
             (vl, n2) = strndup_malloc env n1 val in
         (Some \<lparr>h_name = nm, h_value = vl, h_name_len = of_nat (length name), h_value_len = of_nat (length val)\<rparr>,
          n2))))"

text \<open>\<^verbatim>\<open>parse_header\<close> on the \<open>len\<close> bytes from \<open>start\<close>: the result and the header, if one was allocated.\<close>

definition parse_header ::
  "rte_env \<Rightarrow> bytes \<Rightarrow> nat \<Rightarrow> nat \<Rightarrow> nat \<Rightarrow> (int \<times> http_header option \<times> nat) option" where
  "parse_header env data start len n = do {
     e \<leftarrow> find_eol data start 0 len;
     (case e of
        None \<Rightarrow> Some (0, None, n)
      | Some (eol, eol_len) \<Rightarrow>
         if eol = 0 then Some (int eol_len, None, n)
         else do {
           line \<leftarrow> rd_slice data start eol;
           let (h, n') = header_line_tokens env line n;
           Some (if h = None then -1 else int eol + int eol_len, h, n') }) }"

definition http_find_header :: "http_header list \<Rightarrow> bytes \<Rightarrow> http_header option" where
  "http_find_header hs name =
    List.find (\<lambda>h. case h_name h of None \<Rightarrow> False | Some s \<Rightarrow> c_strcasecmp_eq (c_str s) name) hs"

section \<open>Header blocks\<close>

text \<open>\<open>copy_value env h n\<close> is \<^verbatim>\<open>strndup_malloc(h->value, h->value_len)\<close>: it reads \<^verbatim>\<open>value_len\<close> bytes of the value.\<close>

definition copy_value :: "rte_env \<Rightarrow> http_header \<Rightarrow> nat \<Rightarrow> (bytes option \<times> nat) option" where
  "copy_value env h n =
    (if \<not> malloc_ok env n then Some (None, n + 1)
     else do { v \<leftarrow> h_value h; s \<leftarrow> rd_slice v 0 (unat (h_value_len h)); Some (Some s, n + 1) })"

text \<open>One step of the extraction: find a header and store a copy of its value, or store its number.\<close>

definition extract_copy ::
  "rte_env \<Rightarrow> http_header list \<Rightarrow> bytes \<Rightarrow> (bytes option \<Rightarrow> u16 \<Rightarrow> 'r \<Rightarrow> 'r) \<Rightarrow> 'r \<Rightarrow> nat \<Rightarrow> ('r \<times> nat) option" where
  "extract_copy env hs name store r n =
    (case http_find_header hs name of
       None \<Rightarrow> Some (r, n)
     | Some h \<Rightarrow> do { (s, n') \<leftarrow> copy_value env h n; Some (store s (h_value_len h) r, n') })"

definition extract_number ::
  "http_header list \<Rightarrow> bytes \<Rightarrow> (u64 \<Rightarrow> 'r \<Rightarrow> 'r) \<Rightarrow> 'r \<Rightarrow> 'r option" where
  "extract_number hs name store r =
    (case http_find_header hs name of
       None \<Rightarrow> Some r
     | Some h \<Rightarrow> do { v \<leftarrow> h_value h; Some (store (c_strtoull v) r) })"

definition extract_request_headers ::
  "rte_env \<Rightarrow> http_request \<Rightarrow> nat \<Rightarrow> (http_request \<times> nat) option" where
  "extract_request_headers env req n = do {
     (req1, n1) \<leftarrow> extract_copy env (rq_headers req) (str ''Host'')
                     (\<lambda>s l r. r\<lparr>rq_host := s, rq_host_len := l\<rparr>) req n;
     req2 \<leftarrow> extract_number (rq_headers req) (str ''Content-Length'')
                     (\<lambda>v r. r\<lparr>rq_content_length := v, rq_has_content_length := True\<rparr>) req1;
     (req3, n3) \<leftarrow> extract_copy env (rq_headers req) (str ''Content-Type'')
                     (\<lambda>s l r. r\<lparr>rq_content_type := s, rq_content_type_len := l\<rparr>) req2 n1;
     extract_copy env (rq_headers req) (str ''User-Agent'')
                     (\<lambda>s l r. r\<lparr>rq_user_agent := s, rq_user_agent_len := l\<rparr>) req3 n3 }"

definition extract_response_headers ::
  "rte_env \<Rightarrow> http_response \<Rightarrow> nat \<Rightarrow> (http_response \<times> nat) option" where
  "extract_response_headers env resp n = do {
     resp1 \<leftarrow> extract_number (rs_headers resp) (str ''Content-Length'')
                     (\<lambda>v r. r\<lparr>rs_content_length := v, rs_has_content_length := True\<rparr>) resp;
     (resp2, n2) \<leftarrow> extract_copy env (rs_headers resp) (str ''Content-Type'')
                     (\<lambda>s l r. r\<lparr>rs_content_type := s, rs_content_type_len := l\<rparr>) resp1 n;
     extract_copy env (rs_headers resp) (str ''Server'')
                     (\<lambda>s l r. r\<lparr>rs_server := s, rs_server_len := l\<rparr>) resp2 n2 }"

text \<open>The loop that \<^verbatim>\<open>parse_request_headers\<close> and \<^verbatim>\<open>parse_response_headers\<close> share. \<open>new\<close> are the headers of
  this call, \<open>cnt\<close> is \<^verbatim>\<open>header_count\<close>. The outcome is an error, or the bytes consumed and whether the
  header block is complete.\<close>

datatype headers_outcome = HeadersError | HeadersMore nat | HeadersDone nat

function http_headers_loop ::
  "rte_env \<Rightarrow> bytes \<Rightarrow> nat \<Rightarrow> nat \<Rightarrow> nat \<Rightarrow> http_header list \<Rightarrow> u16 \<Rightarrow> nat
     \<Rightarrow> (headers_outcome \<times> http_header list \<times> u16 \<times> nat) option" where
  "http_headers_loop env data start len consumed new cnt n =
    (if len \<le> consumed then Some (HeadersMore consumed, new, cnt, n)
     else do {
       (ret, header, n1) \<leftarrow> parse_header env data (start + consumed) (len - consumed) n;
       if ret < 0 then Some (HeadersError, new, cnt, n1)
       else if ret = 0 then Some (HeadersMore consumed, new, cnt, n1)
       else (case header of
          None \<Rightarrow> Some (HeadersDone (consumed + nat ret), new, cnt, n1)
        | Some h \<Rightarrow>
            if 50 \<le> cnt + 1 then Some (HeadersDone (consumed + nat ret), new @ [h], cnt + 1, n1)
            else http_headers_loop env data start len (consumed + nat ret) (new @ [h]) (cnt + 1) n1) })"
  by pat_completeness auto
termination
  by (relation "measure (\<lambda>(env, data, start, len, consumed, new, cnt, n). len - consumed)") auto

declare http_headers_loop.simps [simp del]

text \<open>The first header of a call overwrites the head of the list, so the headers of earlier calls are
  lost as soon as a call parses one.\<close>

definition link_headers :: "http_header list \<Rightarrow> http_header list \<Rightarrow> http_header list" where
  "link_headers old new = (if new = [] then old else new)"

definition parse_request_headers ::
  "rte_env \<Rightarrow> bytes \<Rightarrow> nat \<Rightarrow> nat \<Rightarrow> http_request \<Rightarrow> nat \<Rightarrow> (int \<times> http_request \<times> nat) option" where
  "parse_request_headers env data start len req n = do {
     (out, new, cnt, n1) \<leftarrow> http_headers_loop env data start len 0 [] (rq_header_count req) n;
     let req1 = req\<lparr>rq_headers := link_headers (rq_headers req) new, rq_header_count := cnt\<rparr>;
     (case out of
        HeadersError \<Rightarrow> Some (-1, req1, n1)
      | HeadersMore c \<Rightarrow> Some (int c, req1, n1)
      | HeadersDone c \<Rightarrow> do {
          (req2, n2) \<leftarrow> extract_request_headers env (req1\<lparr>rq_complete := True\<rparr>) n1;
          Some (int c, req2, n2) }) }"

definition parse_response_headers ::
  "rte_env \<Rightarrow> bytes \<Rightarrow> nat \<Rightarrow> nat \<Rightarrow> http_response \<Rightarrow> nat \<Rightarrow> (int \<times> http_response \<times> nat) option" where
  "parse_response_headers env data start len resp n = do {
     (out, new, cnt, n1) \<leftarrow> http_headers_loop env data start len 0 [] (rs_header_count resp) n;
     let resp1 = resp\<lparr>rs_headers := link_headers (rs_headers resp) new, rs_header_count := cnt\<rparr>;
     (case out of
        HeadersError \<Rightarrow> Some (-1, resp1, n1)
      | HeadersMore c \<Rightarrow> Some (int c, resp1, n1)
      | HeadersDone c \<Rightarrow> do {
          (resp2, n2) \<leftarrow> extract_response_headers env (resp1\<lparr>rs_complete := True\<rparr>) n1;
          Some (int c, resp2, n2) }) }"

section \<open>The connection\<close>

definition http_error :: "http_conn \<Rightarrow> http_conn" where
  "http_error c = c\<lparr>hc_parse_errors := hc_parse_errors c + 1, hc_state := HTTP_STATE_ERROR\<rparr>"

text \<open>The creation of a transaction; \<open>None\<close> in the first component when an allocation fails.\<close>

definition http_ensure_tx :: "rte_env \<Rightarrow> http_conn \<Rightarrow> nat \<Rightarrow> http_conn option \<times> nat" where
  "http_ensure_tx env c n =
    (case hc_current c of
       Some _ \<Rightarrow> (Some c, n)
     | None \<Rightarrow>
        if \<not> malloc_ok env n then (None, n + 1)
        else if \<not> malloc_ok env (n + 1) then (None, n + 2)
        else (Some (c\<lparr>hc_current := Some \<lparr>ht_request = http_request_zero, ht_response = None,
                        ht_state = HTTP_STATE_REQUEST_LINE\<rparr>, hc_tx_count := hc_tx_count c + 1\<rparr>), n + 2))"

text \<open>\<open>Inl\<close> is an early return, \<open>Inr\<close> goes on with the bytes consumed so far. A null \<^verbatim>\<open>current_tx\<close> or
  \<^verbatim>\<open>response\<close> that the code dereferences is undefined.\<close>

definition http_request_line_stage ::
  "rte_env \<Rightarrow> http_conn \<Rightarrow> bytes \<Rightarrow> nat \<Rightarrow> nat \<Rightarrow> ((int \<times> http_conn \<times> nat) + (nat \<times> http_conn \<times> nat)) option" where
  "http_request_line_stage env c data len n =
    (if hc_state c = HTTP_STATE_IDLE \<or> hc_state c = HTTP_STATE_REQUEST_LINE then
       (case http_ensure_tx env c n of
          (None, n1) \<Rightarrow> Some (Inl (-1, c, n1))
        | (Some c1, n1) \<Rightarrow> do {
            tx \<leftarrow> hc_current c1;
            (ret, req, n2) \<leftarrow> parse_request_line env data len (ht_request tx) n1;
            let c2 = c1\<lparr>hc_current := Some (tx\<lparr>ht_request := req\<rparr>)\<rparr>;
            if ret < 0 then Some (Inl (-1, http_error c2, n2))
            else if ret = 0 then Some (Inl (0, c2, n2))
            else Some (Inr (nat ret, c2\<lparr>hc_state := HTTP_STATE_REQUEST_HEADERS,
               hc_current := Some (tx\<lparr>ht_request := req, ht_state := HTTP_STATE_REQUEST_HEADERS\<rparr>)\<rparr>, n2)) })
     else Some (Inr (0, c, n)))"

definition http_request_headers_stage ::
  "rte_env \<Rightarrow> http_conn \<Rightarrow> bytes \<Rightarrow> nat \<Rightarrow> nat \<Rightarrow> nat \<Rightarrow> (int \<times> http_conn \<times> nat) option" where
  "http_request_headers_stage env c data len consumed n =
    (if hc_state c = HTTP_STATE_REQUEST_HEADERS \<and> consumed < len then do {
       tx \<leftarrow> hc_current c;
       (ret, req, n1) \<leftarrow> parse_request_headers env data consumed (len - consumed) (ht_request tx) n;
       let c1 = c\<lparr>hc_current := Some (tx\<lparr>ht_request := req\<rparr>)\<rparr>;
       if ret < 0 then Some (-1, http_error c1, n1)
       else Some (int consumed + ret,
         if rq_complete req
         then c1\<lparr>hc_requests_parsed := hc_requests_parsed c1 + 1, hc_state := HTTP_STATE_RESPONSE_LINE\<rparr>
         else c1, n1) }
     else Some (int consumed, c, n))"

definition http_response_line_stage ::
  "rte_env \<Rightarrow> http_conn \<Rightarrow> bytes \<Rightarrow> nat \<Rightarrow> nat \<Rightarrow> ((int \<times> http_conn \<times> nat) + (nat \<times> http_conn \<times> nat)) option" where
  "http_response_line_stage env c data len n =
    (if hc_state c = HTTP_STATE_RESPONSE_LINE then
       (case hc_current c of
          None \<Rightarrow> Some (Inl (-1, c, n))
        | Some tx0 \<Rightarrow>
           (let (resp_p, n1) = (case ht_response tx0 of
                   Some r \<Rightarrow> (Some r, n)
                 | None \<Rightarrow> (if malloc_ok env n then Some http_response_zero else None, n + 1)) in
            case resp_p of
              None \<Rightarrow> Some (Inl (-1, c, n1))
            | Some resp0 \<Rightarrow> do {
                (ret, resp, n2) \<leftarrow> parse_response_line env data len resp0 n1;
                let tx = tx0\<lparr>ht_response := Some resp\<rparr>;
                let c2 = c\<lparr>hc_current := Some tx\<rparr>;
                if ret < 0 then Some (Inl (-1, http_error c2, n2))
                else if ret = 0 then Some (Inl (0, c2, n2))
                else Some (Inr (nat ret, c2\<lparr>hc_state := HTTP_STATE_RESPONSE_HEADERS,
                   hc_current := Some (tx\<lparr>ht_state := HTTP_STATE_RESPONSE_HEADERS\<rparr>)\<rparr>, n2)) }))
     else Some (Inr (0, c, n)))"

definition http_response_headers_stage ::
  "rte_env \<Rightarrow> http_conn \<Rightarrow> bytes \<Rightarrow> nat \<Rightarrow> nat \<Rightarrow> nat \<Rightarrow> (int \<times> http_conn \<times> nat) option" where
  "http_response_headers_stage env c data len consumed n =
    (if hc_state c = HTTP_STATE_RESPONSE_HEADERS \<and> consumed < len then do {
       tx \<leftarrow> hc_current c;
       resp0 \<leftarrow> ht_response tx;
       (ret, resp, n1) \<leftarrow> parse_response_headers env data consumed (len - consumed) resp0 n;
       let tx1 = tx\<lparr>ht_response := Some resp\<rparr>;
       let c1 = c\<lparr>hc_current := Some tx1\<rparr>;
       if ret < 0 then Some (-1, http_error c1, n1)
       else Some (int consumed + ret,
         if rs_complete resp
         then c1\<lparr>hc_responses_parsed := hc_responses_parsed c1 + 1, hc_state := HTTP_STATE_IDLE, hc_current := None,
                 hc_finished := tx1\<lparr>ht_state := HTTP_STATE_DONE\<rparr> # hc_finished c1\<rparr>
         else c1, n1) }
     else Some (int consumed, c, n))"

definition http_parse_request ::
  "rte_env \<Rightarrow> http_conn \<Rightarrow> bytes \<Rightarrow> nat \<Rightarrow> nat \<Rightarrow> (int \<times> http_conn \<times> nat) option" where
  "http_parse_request env c data len n = do {
     r \<leftarrow> http_request_line_stage env c data len n;
     (case r of Inl out \<Rightarrow> Some out
      | Inr (consumed, c1, n1) \<Rightarrow> http_request_headers_stage env c1 data len consumed n1) }"

definition http_parse_response ::
  "rte_env \<Rightarrow> http_conn \<Rightarrow> bytes \<Rightarrow> nat \<Rightarrow> nat \<Rightarrow> (int \<times> http_conn \<times> nat) option" where
  "http_parse_response env c data len n = do {
     r \<leftarrow> http_response_line_stage env c data len n;
     (case r of Inl out \<Rightarrow> Some out
      | Inr (consumed, c1, n1) \<Rightarrow> http_response_headers_stage env c1 data len consumed n1) }"

definition http_parser_parse ::
  "rte_env \<Rightarrow> http_conn option \<Rightarrow> bytes option \<Rightarrow> u32 \<Rightarrow> u8 \<Rightarrow> nat \<Rightarrow> (int \<times> http_conn option \<times> nat) option" where
  "http_parser_parse env conn_p data_p len direction n =
    (case (conn_p, data_p) of
       (Some c, Some data) \<Rightarrow>
         if len = 0 then Some (-1, conn_p, n)
         else map_option (\<lambda>(r, c', n'). (r, Some c', n'))
                (if direction = 0 then http_parse_request env c data (unat len) n
                 else http_parse_response env c data (unat len) n)
     | _ \<Rightarrow> Some (-1, conn_p, n))"

definition http_get_current_transaction :: "http_conn option \<Rightarrow> http_transaction option" where
  "http_get_current_transaction conn_p = Option.bind conn_p hc_current"


section \<open>Lines and headers: bounds\<close>

lemma find_eol_total:
  "start + i + k \<le> length data \<Longrightarrow>
   \<exists>r. find_eol data start i k = Some r \<and> (\<forall>p l. r = Some (p, l) \<longrightarrow> i \<le> p \<and> p + l \<le> i + k \<and> 0 < l)"
proof (induction k arbitrary: i)
  case (Suc k)
  have "start + i < length data"
    using Suc.prems by simp
  moreover obtain r where "find_eol data start (Suc i) k = Some r"
      "\<And>p l. r = Some (p, l) \<Longrightarrow> Suc i \<le> p \<and> p + l \<le> Suc i + k \<and> 0 < l"
    using Suc.IH [of "Suc i"] Suc.prems by auto
  moreover have "0 < k \<Longrightarrow> start + i + 1 < length data"
    using Suc.prems by simp
  ultimately show ?case
    by (auto simp: rd8_Some)
qed simp

lemma find_eolE:
  assumes "start + len \<le> length data"
  obtains "find_eol data start 0 len = Some None"
  | p l where "find_eol data start 0 len = Some (Some (p, l))" "p + l \<le> len" "0 < l"
      "rd_slice data start p = Some (bslice data start p)"
proof -
  obtain r where r: "find_eol data start 0 len = Some r"
      "\<And>p l. r = Some (p, l) \<Longrightarrow> p + l \<le> len \<and> 0 < l"
    using find_eol_total [of start 0 len data] assms by auto
  show thesis
  proof (cases r)
    case None
    then show thesis
      using r that(1) by simp
  next
    case (Some a)
    obtain p l where a: "a = (p, l)"
      by force
    then have "p + l \<le> len" "0 < l"
      using r Some by auto
    moreover have "rd_slice data start p = Some (bslice data start p)"
      using assms \<open>p + l \<le> len\<close> by (simp add: rd_slice_def)
    ultimately show thesis
      using r Some a that(2) by blast
  qed
qed

definition header_ok :: "http_header \<Rightarrow> bool" where
  "header_ok h \<longleftrightarrow> h_name h \<noteq> None \<and> (\<exists>v. h_value h = Some v \<and> unat (h_value_len h) \<le> length v)"

definition request_ok :: "http_request \<Rightarrow> bool" where
  "request_ok r \<longleftrightarrow> list_all header_ok (rq_headers r) \<and> length (rq_headers r) \<le> unat (rq_header_count r) \<and>
     unat (rq_header_count r) \<le> 50 \<and> (\<not> rq_complete r \<longrightarrow> unat (rq_header_count r) < 50) \<and>
     (case rq_uri r of None \<Rightarrow> True | Some u \<Rightarrow> length u \<le> 2048 \<and> unat (rq_uri_len r) = length u)"

definition response_ok :: "http_response \<Rightarrow> bool" where
  "response_ok r \<longleftrightarrow> list_all header_ok (rs_headers r) \<and> length (rs_headers r) \<le> unat (rs_header_count r) \<and>
     unat (rs_header_count r) \<le> 50 \<and> (\<not> rs_complete r \<longrightarrow> unat (rs_header_count r) < 50)"

lemma unat_of_nat_le: "unat (of_nat k :: u16) \<le> k"
  by (simp add: unsigned_of_nat)

lemma request_ok_method: "request_ok req \<Longrightarrow> request_ok (req\<lparr>rq_method := m\<rparr>)"
  by (simp add: request_ok_def split: option.splits)

lemma request_ok_line:
  assumes "request_ok req" "copy = None \<or> copy = Some (take 2048 uri)"
  shows "request_ok (req\<lparr>rq_method := m, rq_uri := copy, rq_uri_len := of_nat (min (length uri) 2048), rq_version := v\<rparr>)"
proof -
  have "unat (of_nat (min (length uri) 2048) :: u16) = min (length uri) 2048"
    by (intro unat_of_nat_u16) simp
  then show ?thesis
    using assms unfolding request_ok_def by (auto simp del: of_nat_min)
qed

lemma request_line_tokens_ok:
  assumes "request_line_tokens env line req n = (ok, req', n')" "request_ok req"
  shows "request_ok req' \<and> rq_complete req' = rq_complete req"
  using assms
  by (auto simp: request_line_tokens_def strndup_malloc_def Let_def intro: request_ok_method
      intro!: request_ok_line split: if_split_asm simp del: dropWhile_eq_Nil_conv)

lemma parse_request_line_ok:
  assumes "len \<le> length data" "request_ok req"
  shows "\<exists>ret req' n'. parse_request_line env data len req n = Some (ret, req', n') \<and> ret \<le> int len \<and>
    request_ok req' \<and> rq_complete req' = rq_complete req"
proof (rule find_eolE [of 0 len data])
  fix p l
  assume e: "find_eol data 0 0 len = Some (Some (p, l))" "p + l \<le> len" "0 < l"
      "rd_slice data 0 p = Some (bslice data 0 p)"
  obtain ok req' n' where t: "request_line_tokens env (bslice data 0 p) req n = (ok, req', n')"
    by (rule prod_cases3)
  then show ?thesis
    using e request_line_tokens_ok [OF t assms(2)] by (auto simp: parse_request_line_def)
qed (use assms in \<open>auto simp: parse_request_line_def\<close>)

lemma status_line_tokens_ok:
  assumes "status_line_tokens env line resp n = (ok, resp', n')" "response_ok resp"
  shows "response_ok resp' \<and> rs_complete resp' = rs_complete resp"
  using assms
  by (auto simp: status_line_tokens_def strndup_malloc_def Let_def response_ok_def split: if_split_asm simp del: dropWhile_eq_Nil_conv takeWhile_eq_Nil_iff)

lemma parse_response_line_ok:
  assumes "len \<le> length data" "response_ok resp"
  shows "\<exists>ret resp' n'. parse_response_line env data len resp n = Some (ret, resp', n') \<and> ret \<le> int len \<and>
    response_ok resp' \<and> rs_complete resp' = rs_complete resp"
proof (rule find_eolE [of 0 len data])
  fix p l
  assume e: "find_eol data 0 0 len = Some (Some (p, l))" "p + l \<le> len" "0 < l"
      "rd_slice data 0 p = Some (bslice data 0 p)"
  obtain ok resp' n' where t: "status_line_tokens env (bslice data 0 p) resp n = (ok, resp', n')"
    by (rule prod_cases3)
  then show ?thesis
    using e status_line_tokens_ok [OF t assms(2)] by (auto simp: parse_response_line_def)
qed (use assms in \<open>auto simp: parse_response_line_def\<close>)

lemma header_line_tokens_ok:
  assumes "header_line_tokens env line n = (Some h, n')" "\<forall>k. malloc_ok env k"
  shows "header_ok h"
  using assms
  by (auto simp: header_line_tokens_def strndup_malloc_def Let_def header_ok_def unat_of_nat_le split: if_split_asm)

lemma parse_header_ok:
  assumes "start + len \<le> length data" "\<forall>k. malloc_ok env k"
  shows "\<exists>ret h n'. parse_header env data start len n = Some (ret, h, n') \<and> ret \<le> int len \<and>
    (\<forall>x. h = Some x \<longrightarrow> header_ok x)"
proof (rule find_eolE [of start len data])
  fix p l
  assume e: "find_eol data start 0 len = Some (Some (p, l))" "p + l \<le> len" "0 < l"
      "rd_slice data start p = Some (bslice data start p)"
  obtain h n' where "header_line_tokens env (bslice data start p) n = (h, n')"
    by force
  then show ?thesis
    using e header_line_tokens_ok [OF _ assms(2), of "bslice data start p" n _ n'] by (auto simp: parse_header_def)
qed (use assms in \<open>auto simp: parse_header_def\<close>)

text \<open>What the header loop leaves behind.\<close>

definition loop_ok :: "nat \<Rightarrow> nat \<Rightarrow> headers_outcome \<times> http_header list \<times> u16 \<times> nat \<Rightarrow> bool" where
  "loop_ok c0 len v \<longleftrightarrow> (case v of (out, new, cnt, n) \<Rightarrow>
     list_all header_ok new \<and> length new \<le> unat cnt \<and> c0 \<le> unat cnt \<and>
     (case out of HeadersError \<Rightarrow> unat cnt < 50 | HeadersMore c \<Rightarrow> c \<le> len \<and> unat cnt < 50
      | HeadersDone c \<Rightarrow> c \<le> len \<and> unat cnt \<le> 50))"

lemma unat_Suc_cnt: "unat (cnt :: u16) < 50 \<Longrightarrow> unat (cnt + 1) = unat cnt + 1"
  by (simp add: unat_word_ariths)

lemma http_headers_loop_ok:
  assumes "start + len \<le> length data" "\<forall>k. malloc_ok env k" "consumed \<le> len"
    and "list_all header_ok new" "length new \<le> unat cnt" "unat cnt < 50" "c0 \<le> unat cnt"
  shows "\<exists>v. http_headers_loop env data start len consumed new cnt n = Some v \<and> loop_ok c0 len v"
  using assms
proof (induction env data start len consumed new cnt n rule: http_headers_loop.induct)
  case (1 env data start len consumed new cnt n)
  show ?case
  proof (cases "len \<le> consumed")
    case True
    then show ?thesis
      using "1.prems" by (simp add: http_headers_loop.simps loop_ok_def)
  next
    case False
    obtain ret h n1 where p: "parse_header env data (start + consumed) (len - consumed) n = Some (ret, h, n1)"
        "ret \<le> int (len - consumed)" "\<And>x. h = Some x \<Longrightarrow> header_ok x"
      using parse_header_ok [of "start + consumed" "len - consumed" data env n] "1.prems"(1,2) False by auto
    have cnt: "unat (cnt + 1) = unat cnt + 1" "50 \<le> cnt + 1 \<longleftrightarrow> 50 \<le> unat cnt + 1"
      using unat_Suc_cnt [OF "1.prems"(6)] by (simp_all add: word_le_nat_alt)
    consider (stop) "ret \<le> 0" | (empty) "0 < ret" "h = None" | (hdr) x where "0 < ret" "h = Some x"
      by force
    then show ?thesis
    proof cases
      case stop
      then show ?thesis
        using p(1) False "1.prems" by (subst http_headers_loop.simps) (auto simp: loop_ok_def)
    next
      case empty
      then show ?thesis
        using p False "1.prems" by (subst http_headers_loop.simps) (auto simp: loop_ok_def)
    next
      case hdr
      show ?thesis
      proof (cases "50 \<le> cnt + 1")
        case True
        then show ?thesis
          using hdr p False "1.prems" cnt by (subst http_headers_loop.simps) (auto simp: loop_ok_def)
      next
        case more: False
        have "\<exists>v. http_headers_loop env data start len (consumed + nat ret) (new @ [x]) (cnt + 1) n1 = Some v
            \<and> loop_ok c0 len v"
          using 1(1) [OF False p(1)] hdr more p "1.prems" cnt False by auto
        then show ?thesis
          using hdr more p(1) False by (subst http_headers_loop.simps) auto
      qed
    qed
  qed
qed

lemma find_header_ok:
  "list_all header_ok hs \<Longrightarrow> http_find_header hs name = Some h \<Longrightarrow> header_ok h"
  by (auto simp: http_find_header_def find_Some_iff list_all_length)

lemma copy_value_ok:
  assumes "header_ok h" "\<forall>k. malloc_ok env k"
  shows "\<exists>s. copy_value env h n = Some (Some s, n + 1)"
  using assms by (auto simp: copy_value_def header_ok_def rd_slice_def)

lemma header_value: "header_ok h \<Longrightarrow> \<exists>v. h_value h = Some v"
  by (auto simp: header_ok_def)

text \<open>An extraction step is defined and leaves everything alone that its update leaves alone.\<close>

lemma extract_copy_ok:
  assumes "list_all header_ok hs" "\<forall>k. malloc_ok env k" "Q r" "\<And>s l r. Q r \<Longrightarrow> Q (store s l r)"
  shows "\<exists>r' n'. extract_copy env hs name store r n = Some (r', n') \<and> Q r'"
proof (cases "http_find_header hs name")
  case None
  then show ?thesis
    using assms(3) by (simp add: extract_copy_def)
next
  case (Some h)
  then obtain s where "copy_value env h n = Some (Some s, n + 1)"
    using copy_value_ok [OF find_header_ok [OF assms(1)] assms(2)] by blast
  then show ?thesis
    using Some assms(3,4) by (simp add: extract_copy_def)
qed

lemma extract_number_ok:
  assumes "list_all header_ok hs" "Q r" "\<And>v r. Q r \<Longrightarrow> Q (store v r)"
  shows "\<exists>r'. extract_number hs name store r = Some r' \<and> Q r'"
proof (cases "http_find_header hs name")
  case None
  then show ?thesis
    using assms(2) by (simp add: extract_number_def)
next
  case (Some h)
  then obtain v where "h_value h = Some v"
    using header_value [OF find_header_ok [OF assms(1)]] by blast
  then show ?thesis
    using Some assms(2,3) by (simp add: extract_number_def)
qed

definition same_request :: "http_request \<Rightarrow> http_request \<Rightarrow> bool" where
  "same_request r s \<longleftrightarrow> rq_headers s = rq_headers r \<and> rq_header_count s = rq_header_count r \<and>
     rq_complete s = rq_complete r \<and> rq_uri s = rq_uri r \<and> rq_uri_len s = rq_uri_len r \<and>
     rq_method s = rq_method r \<and> rq_version s = rq_version r"

definition same_response :: "http_response \<Rightarrow> http_response \<Rightarrow> bool" where
  "same_response r s \<longleftrightarrow> rs_headers s = rs_headers r \<and> rs_header_count s = rs_header_count r \<and>
     rs_complete s = rs_complete r \<and> rs_status_code s = rs_status_code r"

lemma extract_request_headers_ok:
  assumes "list_all header_ok (rq_headers req)" "\<forall>k. malloc_ok env k"
  shows "\<exists>req' n'. extract_request_headers env req n = Some (req', n') \<and> same_request req req'"
proof -
  have c1: "\<exists>r' n'. extract_copy env (rq_headers req) nm (\<lambda>s l r. r\<lparr>rq_host := s, rq_host_len := l\<rparr>) r k = Some (r', n')
      \<and> same_request req r'" if "same_request req r" for nm r k
    by (rule extract_copy_ok [OF assms]) (use that in \<open>auto simp: same_request_def\<close>)
  have c2: "\<exists>r'. extract_number (rq_headers req) nm
      (\<lambda>v r. r\<lparr>rq_content_length := v, rq_has_content_length := True\<rparr>) r = Some r' \<and> same_request req r'"
    if "same_request req r" for nm r
    by (rule extract_number_ok [OF assms(1)]) (use that in \<open>auto simp: same_request_def\<close>)
  have c3: "\<exists>r' n'. extract_copy env (rq_headers req) nm (\<lambda>s l r. r\<lparr>rq_content_type := s, rq_content_type_len := l\<rparr>) r k =
      Some (r', n') \<and> same_request req r'" if "same_request req r" for nm r k
    by (rule extract_copy_ok [OF assms]) (use that in \<open>auto simp: same_request_def\<close>)
  have c4: "\<exists>r' n'. extract_copy env (rq_headers req) nm (\<lambda>s l r. r\<lparr>rq_user_agent := s, rq_user_agent_len := l\<rparr>) r k =
      Some (r', n') \<and> same_request req r'" if "same_request req r" for nm r k
    by (rule extract_copy_ok [OF assms]) (use that in \<open>auto simp: same_request_def\<close>)
  have "same_request req req"
    by (simp add: same_request_def)
  from c1 [OF this, of "str ''Host''" n] obtain r1 n1 where 1: "extract_copy env (rq_headers req) (str ''Host'')
      (\<lambda>s l r. r\<lparr>rq_host := s, rq_host_len := l\<rparr>) req n = Some (r1, n1)" "same_request req r1"
    by blast
  from c2 [OF this(2), of "str ''Content-Length''"] obtain r2 where 2: "extract_number (rq_headers req) (str ''Content-Length'')
      (\<lambda>v r. r\<lparr>rq_content_length := v, rq_has_content_length := True\<rparr>) r1 = Some r2" "same_request req r2"
    by blast
  from c3 [OF this(2), of "str ''Content-Type''" n1] obtain r3 n3 where 3: "extract_copy env (rq_headers req) (str ''Content-Type'')
      (\<lambda>s l r. r\<lparr>rq_content_type := s, rq_content_type_len := l\<rparr>) r2 n1 = Some (r3, n3)" "same_request req r3"
    by blast
  from c4 [OF this(2), of "str ''User-Agent''" n3] show ?thesis
    using 1 2 3 by (simp add: extract_request_headers_def)
qed

lemma extract_response_headers_ok:
  assumes "list_all header_ok (rs_headers resp)" "\<forall>k. malloc_ok env k"
  shows "\<exists>resp' n'. extract_response_headers env resp n = Some (resp', n') \<and> same_response resp resp'"
proof -
  have c1: "\<exists>r'. extract_number (rs_headers resp) nm
      (\<lambda>v r. r\<lparr>rs_content_length := v, rs_has_content_length := True\<rparr>) r = Some r' \<and> same_response resp r'"
    if "same_response resp r" for nm r
    by (rule extract_number_ok [OF assms(1)]) (use that in \<open>auto simp: same_response_def\<close>)
  have c2: "\<exists>r' n'. extract_copy env (rs_headers resp) nm (\<lambda>s l r. r\<lparr>rs_content_type := s, rs_content_type_len := l\<rparr>) r k =
      Some (r', n') \<and> same_response resp r'" if "same_response resp r" for nm r k
    by (rule extract_copy_ok [OF assms]) (use that in \<open>auto simp: same_response_def\<close>)
  have c3: "\<exists>r' n'. extract_copy env (rs_headers resp) nm (\<lambda>s l r. r\<lparr>rs_server := s, rs_server_len := l\<rparr>) r k =
      Some (r', n') \<and> same_response resp r'" if "same_response resp r" for nm r k
    by (rule extract_copy_ok [OF assms]) (use that in \<open>auto simp: same_response_def\<close>)
  have "same_response resp resp"
    by (simp add: same_response_def)
  from c1 [OF this, of "str ''Content-Length''"] obtain r1 where 1: "extract_number (rs_headers resp) (str ''Content-Length'')
      (\<lambda>v r. r\<lparr>rs_content_length := v, rs_has_content_length := True\<rparr>) resp = Some r1" "same_response resp r1"
    by blast
  from c2 [OF this(2), of "str ''Content-Type''" n] obtain r2 n2 where 2: "extract_copy env (rs_headers resp) (str ''Content-Type'')
      (\<lambda>s l r. r\<lparr>rs_content_type := s, rs_content_type_len := l\<rparr>) r1 n = Some (r2, n2)" "same_response resp r2"
    by blast
  from c3 [OF this(2), of "str ''Server''" n2] show ?thesis
    using 1 2 by (simp add: extract_response_headers_def)
qed

lemma same_request_ok: "request_ok r \<Longrightarrow> same_request r s \<Longrightarrow> request_ok s"
  by (simp add: request_ok_def same_request_def split: option.splits)

lemma same_response_ok: "response_ok r \<Longrightarrow> same_response r s \<Longrightarrow> response_ok s"
  by (simp add: response_ok_def same_response_def)

lemma parse_request_headers_ok:
  assumes "start + len \<le> length data" "\<forall>k. malloc_ok env k" "request_ok req" "\<not> rq_complete req"
  shows "\<exists>ret req' n'. parse_request_headers env data start len req n = Some (ret, req', n') \<and> request_ok req' \<and>
    ret \<le> int len"
proof -
  obtain out new cnt n1 where l: "http_headers_loop env data start len 0 [] (rq_header_count req) n = Some (out, new, cnt, n1)"
      "loop_ok (unat (rq_header_count req)) len (out, new, cnt, n1)"
    using http_headers_loop_ok [of start len data env 0 "[]" "rq_header_count req" "unat (rq_header_count req)" n] assms
    by (fastforce simp: request_ok_def)
  define req1 where "req1 = req\<lparr>rq_headers := link_headers (rq_headers req) new, rq_header_count := cnt\<rparr>"
  have hs: "list_all header_ok (rq_headers req1)" "length (rq_headers req1) \<le> unat cnt"
    using l(2) assms(3) by (auto simp: req1_def link_headers_def loop_ok_def request_ok_def)
  show ?thesis
  proof (cases out)
    case (HeadersDone c)
    have "request_ok (req1\<lparr>rq_complete := True\<rparr>)"
      using l(2) hs assms(3) HeadersDone by (auto simp: req1_def loop_ok_def request_ok_def split: option.splits)
    moreover obtain req2 n2 where "extract_request_headers env (req1\<lparr>rq_complete := True\<rparr>) n1 = Some (req2, n2)"
        "same_request (req1\<lparr>rq_complete := True\<rparr>) req2"
      using extract_request_headers_ok [of "req1\<lparr>rq_complete := True\<rparr>" env n1] hs(1) assms(2) by auto
    ultimately show ?thesis
      using l HeadersDone same_request_ok
      by (fastforce simp: parse_request_headers_def req1_def loop_ok_def)
  qed (use l hs assms(3,4) in \<open>auto simp: parse_request_headers_def req1_def loop_ok_def request_ok_def split: option.splits\<close>)
qed

lemma parse_response_headers_ok:
  assumes "start + len \<le> length data" "\<forall>k. malloc_ok env k" "response_ok resp" "\<not> rs_complete resp"
  shows "\<exists>ret resp' n'. parse_response_headers env data start len resp n = Some (ret, resp', n') \<and> response_ok resp' \<and>
    ret \<le> int len"
proof -
  obtain out new cnt n1 where l: "http_headers_loop env data start len 0 [] (rs_header_count resp) n = Some (out, new, cnt, n1)"
      "loop_ok (unat (rs_header_count resp)) len (out, new, cnt, n1)"
    using http_headers_loop_ok [of start len data env 0 "[]" "rs_header_count resp" "unat (rs_header_count resp)" n] assms
    by (fastforce simp: response_ok_def)
  define resp1 where "resp1 = resp\<lparr>rs_headers := link_headers (rs_headers resp) new, rs_header_count := cnt\<rparr>"
  have hs: "list_all header_ok (rs_headers resp1)" "length (rs_headers resp1) \<le> unat cnt"
    using l(2) assms(3) by (auto simp: resp1_def link_headers_def loop_ok_def response_ok_def)
  show ?thesis
  proof (cases out)
    case (HeadersDone c)
    have "response_ok (resp1\<lparr>rs_complete := True\<rparr>)"
      using l(2) hs assms(3) HeadersDone by (auto simp: resp1_def loop_ok_def response_ok_def)
    moreover obtain resp2 n2 where "extract_response_headers env (resp1\<lparr>rs_complete := True\<rparr>) n1 = Some (resp2, n2)"
        "same_response (resp1\<lparr>rs_complete := True\<rparr>) resp2"
      using extract_response_headers_ok [of "resp1\<lparr>rs_complete := True\<rparr>" env n1] hs(1) assms(2) by auto
    ultimately show ?thesis
      using l HeadersDone same_response_ok
      by (fastforce simp: parse_response_headers_def resp1_def loop_ok_def)
  qed (use l hs assms(3,4) in \<open>auto simp: parse_response_headers_def resp1_def loop_ok_def response_ok_def\<close>)
qed

section \<open>The state machine\<close>

definition htx_ok :: "http_transaction \<Rightarrow> bool" where
  "htx_ok tx \<longleftrightarrow> request_ok (ht_request tx) \<and> (\<forall>r. ht_response tx = Some r \<longrightarrow> response_ok r)"

text \<open>Which transaction a state comes with: requests are complete exactly from \<^verbatim>\<open>RESPONSE_LINE\<close> on, and
  the response of the current transaction is never complete.\<close>

fun http_fits :: "http_state \<Rightarrow> http_transaction option \<Rightarrow> bool" where
  "http_fits HTTP_STATE_IDLE cur = (\<forall>tx. cur = Some tx \<longrightarrow> \<not> rq_complete (ht_request tx))"
| "http_fits HTTP_STATE_REQUEST_HEADERS cur = (\<exists>tx. cur = Some tx \<and> \<not> rq_complete (ht_request tx))"
| "http_fits HTTP_STATE_RESPONSE_LINE cur = (\<exists>tx. cur = Some tx \<and> rq_complete (ht_request tx) \<and>
     (\<forall>r. ht_response tx = Some r \<longrightarrow> \<not> rs_complete r))"
| "http_fits HTTP_STATE_RESPONSE_HEADERS cur = (\<exists>tx r. cur = Some tx \<and> rq_complete (ht_request tx) \<and>
     ht_response tx = Some r \<and> \<not> rs_complete r)"
| "http_fits HTTP_STATE_ERROR cur = True"
| "http_fits _ cur = False"

definition http_inv :: "http_conn \<Rightarrow> bool" where
  "http_inv c \<longleftrightarrow> http_fits (hc_state c) (hc_current c) \<and> list_all htx_ok (hc_transactions c) \<and>
     hc_tx_count c = of_nat (length (hc_transactions c)) \<and> hc_responses_parsed c = of_nat (length (hc_finished c)) \<and>
     (\<forall>tx. hc_current c = Some tx \<and> \<not> rq_complete (ht_request tx) \<longrightarrow> ht_response tx = None)"

lemma htx_ok_fresh: "htx_ok \<lparr>ht_request = http_request_zero, ht_response = None, ht_state = s\<rparr>"
  by (simp add: htx_ok_def request_ok_def http_request_zero_def)

lemma response_zero_ok: "response_ok http_response_zero" "\<not> rs_complete http_response_zero"
  by (simp_all add: response_ok_def http_response_zero_def)

lemma http_inv_current: "http_inv c \<Longrightarrow> hc_current c = Some tx \<Longrightarrow> htx_ok tx"
  by (simp add: http_inv_def hc_transactions_def)

text \<open>Replacing the current transaction by a good one that fits the new state keeps the invariant.\<close>

lemma http_inv_update:
  assumes "http_inv c" "hc_current c = Some tx0" "hc_current c' = Some tx" "hc_finished c' = hc_finished c"
    and "hc_tx_count c' = hc_tx_count c" "hc_responses_parsed c' = hc_responses_parsed c"
    and "htx_ok tx" "http_fits (hc_state c') (Some tx)" "rq_complete (ht_request tx) \<or> ht_response tx = None"
  shows "http_inv c'"
  using assms by (auto simp: http_inv_def hc_transactions_def)

lemma ensure_tx_ok:
  assumes "http_inv c" "hc_state c = HTTP_STATE_IDLE" "\<forall>k. malloc_ok env k"
  shows "\<exists>c1 n1 tx. http_ensure_tx env c n = (Some c1, n1) \<and> http_inv c1 \<and> hc_current c1 = Some tx \<and>
    \<not> rq_complete (ht_request tx) \<and> ht_response tx = None \<and> hc_state c1 = HTTP_STATE_IDLE"
proof (cases "hc_current c")
  case None
  then show ?thesis
    using assms htx_ok_fresh
    by (auto simp: http_ensure_tx_def http_inv_def hc_transactions_def http_request_zero_def)
next
  case (Some tx)
  then show ?thesis
    using assms by (auto simp: http_ensure_tx_def http_inv_def)
qed

lemma http_error_inv:
  assumes "http_inv c" "hc_current c = Some tx0" "htx_ok tx" "rq_complete (ht_request tx) \<or> ht_response tx = None"
  shows "http_inv (http_error (c\<lparr>hc_current := Some tx\<rparr>))"
  by (rule http_inv_update [OF assms(1,2)]) (use assms in \<open>simp_all add: http_error_def\<close>)

lemma request_line_stage_ok:
  assumes inv: "http_inv c" and ok: "\<forall>k. malloc_ok env k" and len: "len \<le> length data"
  shows "(\<exists>r c' n'. http_request_line_stage env c data len n = Some (Inl (r, c', n')) \<and> http_inv c') \<or>
    (\<exists>k c' n'. http_request_line_stage env c data len n = Some (Inr (k, c', n')) \<and> http_inv c' \<and> k \<le> len)"
proof (cases "hc_state c = HTTP_STATE_IDLE")
  case True
  obtain c1 n1 tx where e: "http_ensure_tx env c n = (Some c1, n1)" "http_inv c1" "hc_current c1 = Some tx"
      "\<not> rq_complete (ht_request tx)" "ht_response tx = None" "hc_state c1 = HTTP_STATE_IDLE"
    using ensure_tx_ok [OF inv True ok] by blast
  have tx: "htx_ok tx" "request_ok (ht_request tx)"
    using http_inv_current [OF e(2,3)] by (simp_all add: htx_ok_def)
  obtain ret req n2 where p: "parse_request_line env data len (ht_request tx) n1 = Some (ret, req, n2)" "ret \<le> int len"
      "request_ok req" "\<not> rq_complete req"
    using parse_request_line_ok [OF len tx(2), of env n1] e(4) by blast
  have tx': "htx_ok (tx\<lparr>ht_request := req\<rparr>)" "htx_ok (tx\<lparr>ht_request := req, ht_state := st\<rparr>)" for st
    using tx(1) p(3) by (simp_all add: htx_ok_def)
  have "http_inv (c1\<lparr>hc_current := Some (tx\<lparr>ht_request := req\<rparr>)\<rparr>)"
    by (rule http_inv_update [OF e(2,3)]) (use tx' p(4) e(5,6) in \<open>auto\<close>)
  moreover have "http_inv (http_error (c1\<lparr>hc_current := Some (tx\<lparr>ht_request := req\<rparr>)\<rparr>))"
    using http_error_inv [OF e(2,3) tx'(1)] e(5) by simp
  moreover have "http_inv (c1\<lparr>hc_state := HTTP_STATE_REQUEST_HEADERS,
      hc_current := Some (tx\<lparr>ht_request := req, ht_state := HTTP_STATE_REQUEST_HEADERS\<rparr>)\<rparr>)"
    by (rule http_inv_update [OF e(2,3), where tx = "tx\<lparr>ht_request := req, ht_state := HTTP_STATE_REQUEST_HEADERS\<rparr>"])
      (use tx'(2) p(4) e(5) in \<open>simp_all\<close>)
  ultimately show ?thesis
    using True e(1,3) p(1,2) by (auto simp: http_request_line_stage_def Let_def)
next
  case False
  then have "hc_state c \<noteq> HTTP_STATE_REQUEST_LINE"
    using inv by (auto simp: http_inv_def)
  then show ?thesis
    using False inv by (auto simp: http_request_line_stage_def)
qed

lemma request_headers_stage_ok:
  assumes inv: "http_inv c" and ok: "\<forall>k. malloc_ok env k" and len: "len \<le> length data" "k \<le> len"
  shows "\<exists>r c' n'. http_request_headers_stage env c data len k n = Some (r, c', n') \<and> http_inv c'"
proof (cases "hc_state c = HTTP_STATE_REQUEST_HEADERS \<and> k < len")
  case True
  then obtain tx where tx: "hc_current c = Some tx" "\<not> rq_complete (ht_request tx)" "ht_response tx = None"
    using inv by (auto simp: http_inv_def)
  have txok: "htx_ok tx" "request_ok (ht_request tx)"
    using http_inv_current [OF inv tx(1)] by (simp_all add: htx_ok_def)
  obtain ret req n1 where p: "parse_request_headers env data k (len - k) (ht_request tx) n = Some (ret, req, n1)" "request_ok req"
    using parse_request_headers_ok [of k "len - k" data env "ht_request tx" n] ok txok(2) tx(2) len by auto
  have tx': "htx_ok (tx\<lparr>ht_request := req\<rparr>)"
    using txok(1) p(2) by (simp add: htx_ok_def)
  have "http_inv (http_error (c\<lparr>hc_current := Some (tx\<lparr>ht_request := req\<rparr>)\<rparr>))"
    using http_error_inv [OF inv tx(1) tx'] tx(3) by simp
  moreover have "http_inv (c\<lparr>hc_current := Some (tx\<lparr>ht_request := req\<rparr>), hc_requests_parsed := hc_requests_parsed c + 1,
      hc_state := HTTP_STATE_RESPONSE_LINE\<rparr>)" if "rq_complete req"
    by (rule http_inv_update [OF inv tx(1)]) (use tx' that tx(3) in \<open>auto\<close>)
  moreover have "http_inv (c\<lparr>hc_current := Some (tx\<lparr>ht_request := req\<rparr>)\<rparr>)" if "\<not> rq_complete req"
    by (rule http_inv_update [OF inv tx(1)]) (use tx' that tx(3) True in \<open>auto\<close>)
  ultimately show ?thesis
    using True tx(1) p(1) by (auto simp: http_request_headers_stage_def Let_def)
next
  case False
  then show ?thesis
    using inv by (auto simp: http_request_headers_stage_def)
qed

lemma response_line_stage_ok:
  assumes inv: "http_inv c" and ok: "\<forall>k. malloc_ok env k" and len: "len \<le> length data"
  shows "(\<exists>r c' n'. http_response_line_stage env c data len n = Some (Inl (r, c', n')) \<and> http_inv c') \<or>
    (\<exists>k c' n'. http_response_line_stage env c data len n = Some (Inr (k, c', n')) \<and> http_inv c' \<and> k \<le> len)"
proof (cases "hc_state c = HTTP_STATE_RESPONSE_LINE")
  case True
  then obtain tx where tx: "hc_current c = Some tx" "rq_complete (ht_request tx)"
      "\<And>r. ht_response tx = Some r \<Longrightarrow> \<not> rs_complete r"
    using inv by (auto simp: http_inv_def)
  obtain resp0 n1 where r0: "(case ht_response tx of Some r \<Rightarrow> (Some r, n)
        | None \<Rightarrow> (if malloc_ok env n then Some http_response_zero else None, n + 1)) = (Some resp0, n1)"
      "response_ok resp0" "\<not> rs_complete resp0"
    using http_inv_current [OF inv tx(1)] tx(3) ok response_zero_ok
    by (cases "ht_response tx") (auto simp: htx_ok_def)
  obtain ret resp n2 where p: "parse_response_line env data len resp0 n1 = Some (ret, resp, n2)" "ret \<le> int len"
      "response_ok resp" "\<not> rs_complete resp"
    using parse_response_line_ok [OF len r0(2), of env n1] r0(3) by blast
  have tx': "htx_ok (tx\<lparr>ht_response := Some resp\<rparr>)" "htx_ok (tx\<lparr>ht_response := Some resp, ht_state := st\<rparr>)" for st
    using http_inv_current [OF inv tx(1)] p(3) by (simp_all add: htx_ok_def)
  have "http_inv (c\<lparr>hc_current := Some (tx\<lparr>ht_response := Some resp\<rparr>)\<rparr>)"
    by (rule http_inv_update [OF inv tx(1)]) (use tx' p(4) tx(2) True in \<open>auto\<close>)
  moreover have "http_inv (http_error (c\<lparr>hc_current := Some (tx\<lparr>ht_response := Some resp\<rparr>)\<rparr>))"
    using http_error_inv [OF inv tx(1) tx'(1)] tx(2) by simp
  moreover have "http_inv (c\<lparr>hc_state := HTTP_STATE_RESPONSE_HEADERS,
      hc_current := Some (tx\<lparr>ht_response := Some resp, ht_state := HTTP_STATE_RESPONSE_HEADERS\<rparr>)\<rparr>)"
    by (rule http_inv_update [OF inv tx(1), where tx = "tx\<lparr>ht_response := Some resp, ht_state := HTTP_STATE_RESPONSE_HEADERS\<rparr>"])
      (use tx'(2) p(4) tx(2) in \<open>simp_all\<close>)
  ultimately show ?thesis
    using True tx(1) r0(1) p(1,2) by (auto simp: http_response_line_stage_def Let_def)
next
  case False
  then show ?thesis
    using inv by (auto simp: http_response_line_stage_def)
qed

lemma response_headers_stage_ok:
  assumes inv: "http_inv c" and ok: "\<forall>k. malloc_ok env k" and len: "len \<le> length data" "k \<le> len"
  shows "\<exists>r c' n'. http_response_headers_stage env c data len k n = Some (r, c', n') \<and> http_inv c'"
proof (cases "hc_state c = HTTP_STATE_RESPONSE_HEADERS \<and> k < len")
  case True
  then obtain tx resp0 where tx: "hc_current c = Some tx" "rq_complete (ht_request tx)" "ht_response tx = Some resp0"
      "\<not> rs_complete resp0"
    using inv by (auto simp: http_inv_def)
  have txok: "htx_ok tx" "response_ok resp0"
    using http_inv_current [OF inv tx(1)] tx(3) by (simp_all add: htx_ok_def)
  obtain ret resp n1 where p: "parse_response_headers env data k (len - k) resp0 n = Some (ret, resp, n1)" "response_ok resp"
    using parse_response_headers_ok [of k "len - k" data env resp0 n] ok txok(2) tx(4) len by auto
  have tx': "htx_ok (tx\<lparr>ht_response := Some resp\<rparr>)"
    using txok(1) p(2) by (simp add: htx_ok_def)
  have "http_inv (http_error (c\<lparr>hc_current := Some (tx\<lparr>ht_response := Some resp\<rparr>)\<rparr>))"
    using http_error_inv [OF inv tx(1) tx'] tx(2) by simp
  moreover have "http_inv (c\<lparr>hc_responses_parsed := hc_responses_parsed c + 1, hc_state := HTTP_STATE_IDLE, hc_current := None,
      hc_finished := tx\<lparr>ht_response := Some resp, ht_state := HTTP_STATE_DONE\<rparr> # hc_finished c\<rparr>)"
    using inv tx(1) tx' by (simp add: http_inv_def hc_transactions_def htx_ok_def)
  moreover have "http_inv (c\<lparr>hc_current := Some (tx\<lparr>ht_response := Some resp\<rparr>)\<rparr>)" if "\<not> rs_complete resp"
    by (rule http_inv_update [OF inv tx(1)]) (use tx' that tx(2) True in \<open>auto\<close>)
  ultimately show ?thesis
    using True tx(1,3) p(1) by (auto simp: http_response_headers_stage_def Let_def)
next
  case False
  then show ?thesis
    using inv by (auto simp: http_response_headers_stage_def)
qed

datatype http_op = HttpData bytes u32 u8

fun http_step :: "rte_env \<Rightarrow> http_op \<Rightarrow> http_conn \<times> nat \<Rightarrow> (http_conn \<times> nat) option" where
  "http_step env (HttpData data len dir) (c, n) = do {
     (r, c', n') \<leftarrow> http_parser_parse env (Some c) (Some data) len dir n;
     c1 \<leftarrow> c'; Some (c1, n') }"

fun http_legal :: "http_op \<Rightarrow> http_conn \<times> nat \<Rightarrow> bool" where
  "http_legal (HttpData data len dir) s = (unat len \<le> length data)"

lemma http_legal_case: "http_legal x s = (case x of HttpData data len dir \<Rightarrow> unat len \<le> length data)"
  by (cases x) simp

lemma http_parse_request_ok:
  "http_inv c \<Longrightarrow> \<forall>k. malloc_ok env k \<Longrightarrow> len \<le> length data \<Longrightarrow>
   \<exists>r c' n'. http_parse_request env c data len n = Some (r, c', n') \<and> http_inv c'"
  using request_line_stage_ok [of c env len data n] request_headers_stage_ok [of _ env len data]
  by (fastforce simp: http_parse_request_def)

lemma http_parse_response_ok:
  "http_inv c \<Longrightarrow> \<forall>k. malloc_ok env k \<Longrightarrow> len \<le> length data \<Longrightarrow>
   \<exists>r c' n'. http_parse_response env c data len n = Some (r, c', n') \<and> http_inv c'"
  using response_line_stage_ok [of c env len data n] response_headers_stage_ok [of _ env len data]
  by (fastforce simp: http_parse_response_def)

lemma http_step_inv:
  assumes "http_inv (fst s)" "http_legal x s" "\<forall>k. malloc_ok env k"
  shows "\<exists>s'. http_step env x s = Some s' \<and> http_inv (fst s')"
proof -
  obtain c n where s: "s = (c, n)"
    by force
  obtain data len dir where x: "x = HttpData data len dir"
    by (cases x) auto
  show ?thesis
    using http_parse_request_ok [of c env "unat len" data n] http_parse_response_ok [of c env "unat len" data n] assms
    by (auto simp: s x http_parser_parse_def)
qed

interpretation http: guarded_machine "http_step all_ok_env" http_legal "\<lambda>s. http_inv (fst s)"
  by unfold_locales (rule http_step_inv; simp add: all_ok_env_def)

text \<open>C35: Whatever byte chunks arrive in whatever directions, the HTTP parser reads only inside them and
  never follows a null pointer, provided allocations succeed; every reachable connection has stored
  headers (at most 50 per message), a URI of at most 2048 bytes, one response per finished
  transaction, and a current transaction that fits the parser state.\<close>

theorem http_runs_safely:
  assumes "\<forall>x \<in> set chunks. case x of HttpData data len dir \<Rightarrow> unat len \<le> length data"
  shows "\<exists>c n. run_ops (http_step all_ok_env) chunks (http_conn_zero, 0) = Some (c, n) \<and> http_inv c"
proof -
  have "legal_run (http_step all_ok_env) http_legal chunks (http_conn_zero, 0)"
    using assms by (intro legal_run_always) (simp add: http_legal_case)
  moreover have "http_inv http_conn_zero"
    by (simp add: http_inv_def http_conn_zero_def hc_transactions_def)
  ultimately show ?thesis
    using http.run_safe [of "(http_conn_zero, 0)" chunks] by auto
qed

definition demo_request :: bytes where
  "demo_request = str ''GET / HTTP/1.1'' @ [13, 10] @ str ''Host: a'' @ [13, 10, 13, 10]"

theorem http_runs_safely_witness:
  "\<exists>c n. run_ops (http_step all_ok_env) [HttpData demo_request 27 0, HttpData [13, 10] 2 1] (http_conn_zero, 0) =
     Some (c, n) \<and> http_inv c"
  by (rule http_runs_safely) (simp add: demo_request_def)

definition demo_post :: bytes where
  "demo_post = str ''POST / HTTP/1.1'' @ [13, 10] @ str ''Content-Length: 5'' @ [13, 10, 13, 10]"

text \<open>The header extraction does not test for failed allocations. A request whose Content-Length
  value could not be copied makes it read through a null pointer.\<close>

theorem http_null_value_dereferenced:
  "http_parser_parse \<lparr>malloc_ok = (\<lambda>k. k \<noteq> 5), malloc_junk = (\<lambda>_ _. 0)\<rparr> (Some http_conn_zero) (Some demo_post) 38 0 0 = None"
  by code_simp

text \<open>Headers that arrive in a second chunk replace those of the first: a Host header sent in the
  first chunk is lost, and the completed request has no host.\<close>

theorem http_split_headers_lost:
  "map_option (\<lambda>(c, n). map (\<lambda>tx. (rq_complete (ht_request tx), rq_host (ht_request tx), rq_header_count (ht_request tx)))
       (hc_transactions c))
     (run_ops (http_step all_ok_env)
       [HttpData (str ''GET / HTTP/1.1'' @ [13, 10] @ str ''Host: a'' @ [13, 10]) 25 0,
        HttpData (str ''Accept: b'' @ [13, 10, 13, 10]) 13 0] (http_conn_zero, 0)) = Some [(True, None, 2)] \<and>
   map_option (\<lambda>(c, n). map (\<lambda>tx. (rq_complete (ht_request tx), rq_host (ht_request tx), rq_header_count (ht_request tx)))
       (hc_transactions c))
     (run_ops (http_step all_ok_env)
       [HttpData (str ''GET / HTTP/1.1'' @ [13, 10] @ str ''Host: a'' @ [13, 10] @ str ''Accept: b'' @ [13, 10, 13, 10]) 38 0]
       (http_conn_zero, 0)) = Some [(True, Some (str ''a''), 2)]"
  by code_simp

text \<open>A status line whose reason phrase is left out together with the space before it, and an
  HTTP/0.9 request line without a trailing space, are parse errors that put the connection into the
  error state, although the code has branches for both forms.\<close>

theorem http_short_lines_rejected:
  "map_option (\<lambda>(r, resp, n). r) (parse_response_line all_ok_env (str ''HTTP/1.1 200'' @ [13, 10]) 14 http_response_zero 0)
     = Some (-1) \<and>
   map_option (\<lambda>(r, req, n). r) (parse_request_line all_ok_env (str ''GET /'' @ [13, 10]) 7 http_request_zero 0) = Some (-1)"
  by code_simp

section \<open>Round trip of a request\<close>

definition no_eol :: "bytes \<Rightarrow> bool" where
  "no_eol s \<longleftrightarrow> list_all (\<lambda>c. c \<noteq> 13 \<and> c \<noteq> 10) s"

definition header_bytes :: "bytes \<times> bytes \<Rightarrow> bytes" where
  "header_bytes h = fst h @ [58, 32] @ snd h @ [13, 10]"

definition request_bytes :: "http_method \<Rightarrow> bytes \<Rightarrow> (bytes \<times> bytes) list \<Rightarrow> bytes" where
  "request_bytes m uri hdrs = http_method_to_string m @ [32] @ uri @ [32] @ str ''HTTP/1.1'' @ [13, 10] @
     concat (map header_bytes hdrs) @ [13, 10]"

definition uri_wf :: "bytes \<Rightarrow> bool" where
  "uri_wf uri \<longleftrightarrow> uri \<noteq> [] \<and> length uri \<le> 2048 \<and> no_eol uri \<and> list_all (\<lambda>c. \<not> is_space c) uri"

definition header_wf :: "bytes \<times> bytes \<Rightarrow> bool" where
  "header_wf h \<longleftrightarrow> fst h \<noteq> [] \<and> no_eol (fst h) \<and> list_all (\<lambda>c. c \<noteq> 58 \<and> c \<noteq> 0) (fst h) \<and> no_eol (snd h) \<and>
     length (snd h) < 65536 \<and> (snd h = [] \<or> \<not> is_space (hd (snd h)) \<and> \<not> is_space (last (snd h)))"

lemma find_eol_line:
  "no_eol line \<Longrightarrow> data = pre @ front @ line @ 13 # 10 # rest \<Longrightarrow> length line + 2 \<le> k \<Longrightarrow>
   find_eol data (length pre) (length front) k = Some (Some (length front + length line, 2))"
proof (induction line arbitrary: front k)
  case Nil
  then obtain k' where "k = Suc (Suc k')"
    by (metis add_2_eq_Suc' le_iff_add list.size(3) add_Suc_shift add_0)
  then show ?case
    using Nil by (simp add: rd8_def nth_append)
next
  case (Cons c line)
  then obtain k' where k: "k = Suc k'"
    by (cases k) auto
  have "rd8 data (length pre + length front) = Some c"
    using Cons.prems(2) by (simp add: rd8_def nth_append)
  moreover have "find_eol data (length pre) (Suc (length front)) k' = Some (Some (Suc (length front) + length line, 2))"
    using Cons.IH [of "front @ [c]" k'] Cons.prems k by (simp add: no_eol_def)
  ultimately show ?case
    using Cons.prems(1) k by (simp add: no_eol_def del: rd8_eq_Some)
qed

lemma takeWhile_app: "list_all P xs \<Longrightarrow> \<not> P y \<Longrightarrow> takeWhile P (xs @ y # ys) = xs"
  by (induction xs) auto

lemma dropWhile_app: "list_all P xs \<Longrightarrow> \<not> P y \<Longrightarrow> dropWhile P (xs @ y # ys) = y # ys"
  by (induction xs) auto

lemma takeWhile_whole: "list_all P xs \<Longrightarrow> takeWhile P xs = xs"
  by (induction xs) auto

lemma dropWhile_hd: "xs = [] \<or> \<not> P (hd xs) \<Longrightarrow> dropWhile P xs = xs"
  by (cases xs) auto

lemma trim_right_id: "xs = [] \<or> \<not> is_space (last xs) \<Longrightarrow> trim_right xs = xs"
  by (cases "xs = []") (simp_all add: trim_right_def dropWhile_hd hd_rev)

lemma header_line_tokens_of:
  assumes "header_wf h" "\<forall>k. malloc_ok env k"
  shows "header_line_tokens env (fst h @ [58, 32] @ snd h) n =
    (Some \<lparr>h_name = Some (fst h), h_value = Some (snd h), h_name_len = of_nat (length (fst h)),
       h_value_len = of_nat (length (snd h))\<rparr>, n + 3)"
proof -
  have nm: "list_all (\<lambda>c. c \<noteq> 58) (fst h)"
    using assms(1) by (auto simp: header_wf_def list_all_iff)
  have "takeWhile (\<lambda>c. c \<noteq> 58) (fst h @ [58, 32] @ snd h) = fst h"
       "dropWhile (\<lambda>c. c \<noteq> 58) (fst h @ [58, 32] @ snd h) = 58 # 32 # snd h"
    using takeWhile_app [OF nm] dropWhile_app [OF nm] by simp_all
  moreover have "trim_right (dropWhile is_space (32 # snd h)) = snd h"
    using assms(1) by (auto simp: header_wf_def is_space_def [of 32] dropWhile_hd trim_right_id)
  ultimately show ?thesis
    using assms(2) by (simp add: header_line_tokens_def strndup_malloc_def Let_def)
qed

lemma parse_header_of:
  assumes "header_wf h" "\<forall>k. malloc_ok env k" "data = pre @ header_bytes h @ rest" "length (header_bytes h) \<le> len"
  shows "parse_header env data (length pre) len n = Some (int (length (header_bytes h)),
    Some \<lparr>h_name = Some (fst h), h_value = Some (snd h), h_name_len = of_nat (length (fst h)),
       h_value_len = of_nat (length (snd h))\<rparr>, n + 3)"
proof -
  define line where "line = fst h @ [58, 32] @ snd h"
  have d: "data = pre @ [] @ line @ 13 # 10 # rest" and l: "length (header_bytes h) = length line + 2" "line \<noteq> []"
    by (simp_all add: assms(3) line_def header_bytes_def)
  have "no_eol line"
    using assms(1) by (simp add: line_def header_wf_def no_eol_def)
  then have "find_eol data (length pre) 0 len = Some (Some (length line, 2))"
    using find_eol_line [OF _ d, of len] assms(4) l by simp
  moreover have "rd_slice data (length pre) (length line) = Some line"
    by (simp add: d rd_slice_def bslice_def)
  ultimately show ?thesis
    using header_line_tokens_of [OF assms(1,2), of n] l by (simp add: parse_header_def line_def)
qed

definition stored :: "bytes \<times> bytes \<Rightarrow> http_header" where
  "stored h = \<lparr>h_name = Some (fst h), h_value = Some (snd h), h_name_len = of_nat (length (fst h)),
     h_value_len = of_nat (length (snd h))\<rparr>"

lemma parse_header_empty_line:
  "data = pre @ 13 # 10 # rest \<Longrightarrow> 2 \<le> len \<Longrightarrow> parse_header env data (length pre) len n = Some (2, None, n)"
  using find_eol_line [of "[]" data pre "[]" rest len] by (simp add: parse_header_def no_eol_def)

lemma http_headers_loop_of:
  assumes "list_all header_wf hdrs" "\<forall>k. malloc_ok env k"
    and "data = pre @ front @ concat (map header_bytes hdrs) @ [13, 10]" "start = length pre"
    and "len = length front + length (concat (map header_bytes hdrs)) + 2"
    and "consumed = length front" "unat cnt + length hdrs < 50"
  shows "\<exists>n'. http_headers_loop env data start len consumed new cnt n =
    Some (HeadersDone len, new @ map stored hdrs, cnt + of_nat (length hdrs), n')"
  using assms
proof (induction hdrs arbitrary: front consumed new cnt n)
  case Nil
  have "parse_header env data (length (pre @ front)) 2 n = Some (2, None, n)"
    using Nil.prems(3) by (intro parse_header_empty_line [where rest = "[]"]) simp_all
  then show ?case
    using Nil.prems by (subst http_headers_loop.simps) simp
next
  case (Cons h hdrs)
  have wf: "header_wf h" and cnt: "unat cnt < 50"
    using Cons.prems by simp_all
  have "parse_header env data (length (pre @ front)) (len - consumed) n =
      Some (int (length (header_bytes h)), Some (stored h), n + 3)"
    unfolding stored_def using wf Cons.prems(2,3,5,6)
    by (intro parse_header_of [where rest = "concat (map header_bytes hdrs) @ [13, 10]"]) simp_all
  moreover have "0 < length (header_bytes h)" "consumed < len"
    using Cons.prems(5,6) by (simp_all add: header_bytes_def)
  moreover have "\<not> 50 \<le> cnt + 1"
    using unat_Suc_cnt [OF cnt] Cons.prems(7) by (simp add: word_le_nat_alt)
  ultimately have step: "http_headers_loop env data start len consumed new cnt n =
      http_headers_loop env data start len (consumed + length (header_bytes h)) (new @ [stored h]) (cnt + 1) (n + 3)"
    using Cons.prems(4,6) by (subst http_headers_loop.simps) simp
  have "\<exists>n'. http_headers_loop env data start len (consumed + length (header_bytes h)) (new @ [stored h]) (cnt + 1) (n + 3) =
      Some (HeadersDone len, (new @ [stored h]) @ map stored hdrs, cnt + 1 + of_nat (length hdrs), n')"
    using Cons.prems unat_Suc_cnt [OF cnt]
    by (intro Cons.IH [where front = "front @ header_bytes h"]) simp_all
  then show ?case
    by (simp add: step ac_simps)
qed

lemma extract_copy_frame:
  "extract_copy env hs name store r n = Some (r', n') \<Longrightarrow> (\<And>s l r. F (store s l r) = F r) \<Longrightarrow> F r' = F r"
  by (auto simp: extract_copy_def split: option.splits bind_split_asm)

lemma extract_number_frame:
  "extract_number hs name store r = Some r' \<Longrightarrow> (\<And>v r. F (store v r) = F r) \<Longrightarrow> F r' = F r"
  by (auto simp: extract_number_def split: option.splits bind_split_asm)

text \<open>The value of the first header with the given name, letter case ignored.\<close>

definition lookup_header :: "(bytes \<times> bytes) list \<Rightarrow> bytes \<Rightarrow> bytes option" where
  "lookup_header hdrs name = map_option snd (List.find (\<lambda>h. c_strcasecmp_eq (fst h) name) hdrs)"

lemma c_str_id: "list_all (\<lambda>c. c \<noteq> 0) s \<Longrightarrow> c_str s = s"
  by (simp add: c_str_def takeWhile_whole)

lemma find_header_stored:
  "list_all header_wf hdrs \<Longrightarrow>
   http_find_header (map stored hdrs) name = map_option stored (List.find (\<lambda>h. c_strcasecmp_eq (fst h) name) hdrs)"
proof (induction hdrs)
  case (Cons h hdrs)
  have "c_str (fst h) = fst h"
    using Cons.prems by (intro c_str_id) (simp add: header_wf_def list_all_iff)
  then show ?case
    using Cons by (simp add: http_find_header_def stored_def)
qed (simp add: http_find_header_def)

lemma extract_host_stored:
  assumes "list_all header_wf hdrs" "\<forall>k. malloc_ok env k" "rq_headers req = map stored hdrs" "rq_host req = None"
    and "extract_request_headers env req n = Some (req', n')"
  shows "rq_host req' = lookup_header hdrs (str ''Host'')"
proof -
  obtain r1 n1 r2 r3 n3 where
    1: "extract_copy env (map stored hdrs) (str ''Host'') (\<lambda>s l r. r\<lparr>rq_host := s, rq_host_len := l\<rparr>) req n = Some (r1, n1)" and
    2: "extract_number (map stored hdrs) (str ''Content-Length'')
          (\<lambda>v r. r\<lparr>rq_content_length := v, rq_has_content_length := True\<rparr>) r1 = Some r2" and
    3: "extract_copy env (map stored hdrs) (str ''Content-Type'')
          (\<lambda>s l r. r\<lparr>rq_content_type := s, rq_content_type_len := l\<rparr>) r2 n1 = Some (r3, n3)" and
    4: "extract_copy env (map stored hdrs) (str ''User-Agent'')
          (\<lambda>s l r. r\<lparr>rq_user_agent := s, rq_user_agent_len := l\<rparr>) r3 n3 = Some (req', n')"
    using assms(3,5) by (auto simp: extract_request_headers_def split: bind_split_asm)
  have "rq_host req' = rq_host r1"
    using extract_copy_frame [OF 4, of rq_host] extract_copy_frame [OF 3, of rq_host]
      extract_number_frame [OF 2, of rq_host] by simp
  moreover have "rq_host r1 = lookup_header hdrs (str ''Host'')"
  proof (cases "List.find (\<lambda>h. c_strcasecmp_eq (fst h) (str ''Host'')) hdrs")
    case None
    then show ?thesis
      using 1 assms(4) by (simp add: extract_copy_def find_header_stored [OF assms(1)] lookup_header_def)
  next
    case (Some h)
    then have "header_wf h"
      using assms(1) by (auto simp: find_Some_iff list_all_length)
    then have "unat (of_nat (length (snd h)) :: u16) = length (snd h)"
      by (intro unat_of_nat_u16) (simp add: header_wf_def)
    then have "copy_value env (stored h) n = Some (Some (snd h), n + 1)"
      using assms(2) by (simp add: copy_value_def stored_def rd_slice_def bslice_def)
    then show ?thesis
      using 1 Some by (auto simp: extract_copy_def find_header_stored [OF assms(1)] lookup_header_def)
  qed
  ultimately show ?thesis
    by simp
qed

lemma method_token:
  "m \<noteq> HTTP_METHOD_UNKNOWN \<Longrightarrow> parse_method (http_method_to_string m) = m \<and>
   list_all (\<lambda>c. \<not> is_space c) (http_method_to_string m) \<and> no_eol (http_method_to_string m)"
proof -
  have "\<forall>m \<in> {HTTP_METHOD_GET, HTTP_METHOD_POST, HTTP_METHOD_PUT, HTTP_METHOD_DELETE, HTTP_METHOD_HEAD,
      HTTP_METHOD_OPTIONS, HTTP_METHOD_TRACE, HTTP_METHOD_CONNECT, HTTP_METHOD_PATCH}.
    parse_method (http_method_to_string m) = m \<and> list_all (\<lambda>c. \<not> is_space c) (http_method_to_string m) \<and>
    no_eol (http_method_to_string m)"
    by code_simp
  then show "m \<noteq> HTTP_METHOD_UNKNOWN \<Longrightarrow> ?thesis"
    by (cases m) auto
qed

lemma request_line_tokens_of:
  assumes "m \<noteq> HTTP_METHOD_UNKNOWN" "uri_wf uri" "\<forall>k. malloc_ok env k"
  shows "\<exists>req'. request_line_tokens env (http_method_to_string m @ [32] @ uri @ [32] @ str ''HTTP/1.1'') req n = (True, req', n + 1) \<and>
    req' = req\<lparr>rq_method := m, rq_uri := Some uri, rq_uri_len := of_nat (length uri), rq_version := HTTP_VERSION_11\<rparr>"
proof -
  define ver where "ver = str ''HTTP/1.1''"
  have ver: "list_all (\<lambda>c. \<not> is_space c) ver" "parse_version ver = HTTP_VERSION_11" "ver \<noteq> []" "\<not> is_space (hd ver)"
    unfolding ver_def by code_simp+
  have m: "parse_method (http_method_to_string m) = m" "list_all (\<lambda>c. \<not> is_space c) (http_method_to_string m)"
    using method_token [OF assms(1)] by auto
  have u: "uri \<noteq> []" "length uri \<le> 2048" "list_all (\<lambda>c. \<not> is_space c) uri" "\<not> is_space (hd uri)"
    using assms(2) by (cases uri; simp add: uri_wf_def)+
  have sp: "is_space 32"
    by (simp add: is_space_def)
  have "takeWhile (\<lambda>c. \<not> is_space c) (http_method_to_string m @ 32 # uri @ 32 # ver) = http_method_to_string m"
       "dropWhile (\<lambda>c. \<not> is_space c) (http_method_to_string m @ 32 # uri @ 32 # ver) = 32 # uri @ 32 # ver"
    using m(2) sp by (simp_all add: takeWhile_app dropWhile_app)
  moreover have "dropWhile is_space (32 # uri @ 32 # ver) = uri @ 32 # ver" "dropWhile is_space (32 # ver) = ver"
    using u ver(3,4) sp by (cases uri; simp add: dropWhile_hd)+
  moreover have "takeWhile (\<lambda>c. \<not> is_space c) (uri @ 32 # ver) = uri"
      "dropWhile (\<lambda>c. \<not> is_space c) (uri @ 32 # ver) = 32 # ver" "takeWhile (\<lambda>c. \<not> is_space c) ver = ver"
    using u(3) sp ver(1) by (simp_all add: takeWhile_app dropWhile_app takeWhile_whole)
  ultimately show ?thesis
    using assms(3) m(1) u(1,2) ver(2,3) sp unfolding ver_def [symmetric]
    by (simp add: request_line_tokens_def strndup_malloc_def Let_def min_absorb1 del: dropWhile_eq_Nil_conv takeWhile_eq_all_conv)
qed

text \<open>C3: A well-formed request (any of the nine methods, a URI of at most 2048 bytes without white space,
  fewer than 50 headers) is consumed to its last byte in one call on an idle connection; the stored
  request has exactly the method, URI, version and headers that were sent, and its host is the value
  of the first Host header in any letter case.\<close>

theorem http_request_roundtrip:
  assumes "m \<noteq> HTTP_METHOD_UNKNOWN" "uri_wf uri" "list_all header_wf hdrs" "length hdrs < 50"
    and "\<forall>k. malloc_ok env k" "hc_state c = HTTP_STATE_IDLE" "hc_current c = None"
    and "data = request_bytes m uri hdrs" "length data < 2 ^ 31"
  shows "\<exists>c' n' tx. http_parser_parse env (Some c) (Some data) (of_nat (length data)) 0 n = Some (int (length data), Some c', n') \<and>
    hc_state c' = HTTP_STATE_RESPONSE_LINE \<and> hc_requests_parsed c' = hc_requests_parsed c + 1 \<and>
    http_get_current_transaction (Some c') = Some tx \<and> rq_complete (ht_request tx) \<and>
    rq_method (ht_request tx) = m \<and> rq_uri (ht_request tx) = Some uri \<and> rq_version (ht_request tx) = HTTP_VERSION_11 \<and>
    map (\<lambda>h. (h_name h, h_value h)) (rq_headers (ht_request tx)) = map (\<lambda>h. (Some (fst h), Some (snd h))) hdrs \<and>
    rq_host (ht_request tx) = lookup_header hdrs (str ''Host'')"
proof -
  define line where "line = http_method_to_string m @ [32] @ uri @ [32] @ str ''HTTP/1.1''"
  define hb where "hb = concat (map header_bytes hdrs)"
  have data: "data = [] @ [] @ line @ 13 # 10 # hb @ [13, 10]"
    by (simp add: assms(8) request_bytes_def line_def hb_def)
  then have len: "length data = length line + 2 + (length hb + 2)"
    by simp
  have ulen: "unat (of_nat (length data) :: u32) = length data" "(of_nat (length data) :: u32) \<noteq> 0"
  proof -
    show u: "unat (of_nat (length data) :: u32) = length data"
      using assms(9) by (intro unat_of_nat_u32) simp
    show "(of_nat (length data) :: u32) \<noteq> 0"
      using u len by (metis add_is_0 unsigned_0 zero_neq_numeral)
  qed
  have "no_eol (str ''HTTP/1.1'')"
    by code_simp
  then have "no_eol line"
    using method_token [OF assms(1)] assms(2) by (simp add: line_def no_eol_def uri_wf_def)
  then have eol: "find_eol data 0 0 (length data) = Some (Some (length line, 2))"
    using find_eol_line [OF _ data, of "length data"] len by simp
  have slice: "rd_slice data 0 (length line) = Some line"
    by (simp add: data rd_slice_def bslice_def)
  define req1 where "req1 = http_request_zero\<lparr>rq_method := m, rq_uri := Some uri, rq_uri_len := of_nat (length uri),
    rq_version := HTTP_VERSION_11\<rparr>"
  have rl: "parse_request_line env data (length data) http_request_zero (n + 2) = Some (int (length line + 2), req1, n + 3)"
  proof -
    have "request_line_tokens env line http_request_zero (n + 2) = (True, req1, n + 3)"
      using request_line_tokens_of [OF assms(1,2,5), of http_request_zero "n + 2"]
      unfolding line_def req1_def by (simp add: numeral_3_eq_3)
    then show ?thesis
      using eol slice by (simp add: parse_request_line_def)
  qed
  obtain n1 where loop: "http_headers_loop env data (length line + 2) (length hb + 2) 0 [] 0 (n + 3) =
      Some (HeadersDone (length hb + 2), map stored hdrs, of_nat (length hdrs), n1)"
    using http_headers_loop_of [OF assms(3,5), of data "line @ [13, 10]" "[]" "length line + 2" "length hb + 2" 0 0 "[]" "n + 3"]
      assms(4) by (auto simp: data hb_def)
  define req2 where "req2 = req1\<lparr>rq_headers := map stored hdrs, rq_header_count := of_nat (length hdrs), rq_complete := True\<rparr>"
  have "list_all header_ok (map stored hdrs)"
    by (simp add: list_all_length stored_def header_ok_def unat_of_nat_le)
  then obtain req3 n3 where ex: "extract_request_headers env req2 n1 = Some (req3, n3)" "same_request req2 req3"
    using extract_request_headers_ok [of req2 env n1] assms(5) by (auto simp: req2_def)
  have host: "rq_host req3 = lookup_header hdrs (str ''Host'')"
    using extract_host_stored [OF assms(3,5) _ _ ex(1)] by (simp add: req2_def req1_def http_request_zero_def)
  have ph: "parse_request_headers env data (length line + 2) (length hb + 2) req1 (n + 3) = Some (int (length hb + 2), req3, n3)"
    using loop ex(1)
    by (simp add: parse_request_headers_def req1_def http_request_zero_def req2_def link_headers_def)
  define tx1 where "tx1 = \<lparr>ht_request = req1, ht_response = None, ht_state = HTTP_STATE_REQUEST_HEADERS\<rparr>"
  define c1 where "c1 = c\<lparr>hc_tx_count := hc_tx_count c + 1, hc_state := HTTP_STATE_REQUEST_HEADERS, hc_current := Some tx1\<rparr>"
  have s1: "http_request_line_stage env c data (length data) n = Some (Inr (length line + 2, c1, n + 3))"
  proof -
    have k: "nat (int (length line + 2)) = length line + 2" "\<not> int (length line + 2) < 0" "int (length line + 2) \<noteq> 0"
      by simp_all
    show ?thesis
      unfolding http_request_line_stage_def http_ensure_tx_def using assms(5-7) rl
      by (simp only: k Let_def simp_thms if_True if_False option.case prod.case Option.bind.bind_lunit
          http_conn.simps http_transaction.simps)
        (simp add: c1_def tx1_def)
  qed
  have s2: "http_request_headers_stage env c1 data (length data) (length line + 2) (n + 3) =
      Some (int (length data), c1\<lparr>hc_current := Some (tx1\<lparr>ht_request := req3\<rparr>),
        hc_requests_parsed := hc_requests_parsed c + 1, hc_state := HTTP_STATE_RESPONSE_LINE\<rparr>, n3)"
  proof -
    have "length data - (length line + 2) = length hb + 2" "length line + 2 < length data"
        "int (length line + 2) + int (length hb + 2) = int (length data)" "rq_complete req3"
      using len ex(2) by (simp_all add: same_request_def req2_def)
    moreover have "hc_state c1 = HTTP_STATE_REQUEST_HEADERS" "hc_current c1 = Some tx1" "ht_request tx1 = req1"
        "hc_requests_parsed c1 = hc_requests_parsed c"
      by (simp_all add: c1_def tx1_def)
    ultimately show ?thesis
      using ph by (simp add: http_request_headers_stage_def Let_def)
  qed
  have "map (\<lambda>h. (h_name h, h_value h)) (map stored hdrs) = map (\<lambda>h. (Some (fst h), Some (snd h))) hdrs"
    by (simp add: stored_def)
  moreover have "http_parser_parse env (Some c) (Some data) (of_nat (length data)) 0 n =
      Some (int (length data), Some (c1\<lparr>hc_current := Some (tx1\<lparr>ht_request := req3\<rparr>),
        hc_requests_parsed := hc_requests_parsed c + 1, hc_state := HTTP_STATE_RESPONSE_LINE\<rparr>), n3)"
    unfolding http_parser_parse_def http_parse_request_def using ulen s1 s2 by simp
  ultimately show ?thesis
    using ex(2) host
    by (simp add: http_get_current_transaction_def same_request_def req2_def req1_def c1_def tx1_def)
qed

theorem http_request_roundtrip_witness:
  "\<exists>c' n' tx. http_parser_parse all_ok_env (Some http_conn_zero) (Some (request_bytes HTTP_METHOD_GET (str ''/index'') [(str ''HOST'', str ''a.b'')]))
       (of_nat (length (request_bytes HTTP_METHOD_GET (str ''/index'') [(str ''HOST'', str ''a.b'')]))) 0 0 =
     Some (int (length (request_bytes HTTP_METHOD_GET (str ''/index'') [(str ''HOST'', str ''a.b'')])), Some c', n') \<and>
     http_get_current_transaction (Some c') = Some tx \<and> rq_uri (ht_request tx) = Some (str ''/index'') \<and>
     rq_host (ht_request tx) = lookup_header [(str ''HOST'', str ''a.b'')] (str ''Host'')"
proof -
  have wf: "uri_wf (str ''/index'')" "list_all header_wf [(str ''HOST'', str ''a.b'')]"
    by (simp_all add: uri_wf_def header_wf_def no_eol_def str_simps is_space_def)
  have "length [(str ''HOST'', str ''a.b'')] < 50" "\<forall>k. malloc_ok all_ok_env k" "hc_state http_conn_zero = HTTP_STATE_IDLE"
      "hc_current http_conn_zero = None"
      "length (request_bytes HTTP_METHOD_GET (str ''/index'') [(str ''HOST'', str ''a.b'')]) < 2 ^ 31"
    by (simp_all add: all_ok_env_def http_conn_zero_def request_bytes_def header_bytes_def)
  from http_request_roundtrip [OF _ wf this(1-4) refl this(5), of 0] show ?thesis
    by blast
qed
end
