(* ===== verification/Tls_Parser.thy ===== *)
theory Tls_Parser
  imports Http_Parser
begin

text \<open>
  The TLS parser of \<^verbatim>\<open>tls_parser.c\<close>: records, handshake messages, hello messages with their extensions,
  and the JA3 fingerprints. Messages are read at an offset of the captured bytes; a read outside of them
  and a write outside the JA3 buffer on the stack are \<open>None\<close>. The MD5 function of OpenSSL is a parameter.
\<close>

section \<open>Data\<close>

definition TLS_VERSION_TLS13 :: u16 where "TLS_VERSION_TLS13 = 0x0304"

abbreviation "TLS_RECORD_HANDSHAKE \<equiv> (22 :: u8)"
abbreviation "TLS_RECORD_APPLICATION_DATA \<equiv> (23 :: u8)"

record tls_extension =
  ext_type :: u16
  ext_length :: u16

text \<open>\<open>ch_cipher_suites\<close> holds the first \<^verbatim>\<open>cipher_suite_count\<close> entries of the array, and likewise for the other
  arrays. The hash occupies the first 16 bytes of its array of 32.\<close>

record tls_client_hello =
  ch_version :: u16
  ch_random :: bytes
  ch_session_id :: bytes
  ch_cipher_suites :: "u16 list"
  ch_compression_methods :: bytes
  ch_extensions :: "tls_extension list"
  ch_sni :: "bytes option"
  ch_alpn :: "bytes option"
  ch_ja3_string :: bytes
  ch_ja3_hash :: bytes

record tls_server_hello =
  sh_version :: u16
  sh_random :: bytes
  sh_session_id :: bytes
  sh_cipher_suite :: u16
  sh_cipher_suite_name :: bytes
  sh_compression_method :: u8
  sh_extensions :: "tls_extension list"
  sh_ja3s_string :: bytes
  sh_ja3s_hash :: bytes

record tls_conn =
  tc_client_hello :: "tls_client_hello option"
  tc_server_hello :: "tls_server_hello option"
  tc_server_cert :: bool
  tc_client_cert :: bool
  tc_negotiated_version :: u16
  tc_negotiated_cipher :: u16
  tc_client_hello_seen :: bool
  tc_server_hello_seen :: bool
  tc_server_cert_seen :: bool
  tc_client_cert_seen :: bool
  tc_handshake_completed :: bool
  tc_version_downgrade :: bool
  tc_weak_cipher :: bool
  tc_self_signed_cert :: bool
  tc_expired_cert :: bool
  tc_invalid_cert_chain :: bool
  tc_records_parsed :: u64
  tc_handshakes_parsed :: u64
  tc_app_data_records :: u64

definition tls_conn_zero :: tls_conn where
  "tls_conn_zero = \<lparr>tc_client_hello = None, tc_server_hello = None, tc_server_cert = False, tc_client_cert = False,
     tc_negotiated_version = 0, tc_negotiated_cipher = 0, tc_client_hello_seen = False, tc_server_hello_seen = False,
     tc_server_cert_seen = False, tc_client_cert_seen = False, tc_handshake_completed = False,
     tc_version_downgrade = False, tc_weak_cipher = False, tc_self_signed_cert = False, tc_expired_cert = False,
     tc_invalid_cert_chain = False, tc_records_parsed = 0, tc_handshakes_parsed = 0,
     tc_app_data_records = 0\<rparr>"

definition tls_parser_init :: "bool \<Rightarrow> tls_conn option" where
  "tls_parser_init mem = (if mem then Some tls_conn_zero else None)"

section \<open>Cipher suites\<close>

definition cipher_suite_db :: "(u16 \<times> bytes \<times> bool) list" where
  "cipher_suite_db =
    [(0x0000, str ''TLS_NULL_WITH_NULL_NULL'', True),
     (0x0004, str ''TLS_RSA_WITH_RC4_128_MD5'', True),
     (0x0005, str ''TLS_RSA_WITH_RC4_128_SHA'', True),
     (0x000A, str ''TLS_RSA_WITH_3DES_EDE_CBC_SHA'', True),
     (0x002F, str ''TLS_RSA_WITH_AES_128_CBC_SHA'', False),
     (0x0035, str ''TLS_RSA_WITH_AES_256_CBC_SHA'', False),
     (0x003C, str ''TLS_RSA_WITH_AES_128_CBC_SHA256'', False),
     (0x003D, str ''TLS_RSA_WITH_AES_256_CBC_SHA256'', False),
     (0x009C, str ''TLS_RSA_WITH_AES_128_GCM_SHA256'', False),
     (0x009D, str ''TLS_RSA_WITH_AES_256_GCM_SHA384'', False),
     (0xC007, str ''TLS_ECDHE_ECDSA_WITH_RC4_128_SHA'', True),
     (0xC009, str ''TLS_ECDHE_ECDSA_WITH_AES_128_CBC_SHA'', False),
     (0xC00A, str ''TLS_ECDHE_ECDSA_WITH_AES_256_CBC_SHA'', False),
     (0xC011, str ''TLS_ECDHE_RSA_WITH_RC4_128_SHA'', True),
     (0xC013, str ''TLS_ECDHE_RSA_WITH_AES_128_CBC_SHA'', False),
     (0xC014, str ''TLS_ECDHE_RSA_WITH_AES_256_CBC_SHA'', False),
     (0xC023, str ''TLS_ECDHE_ECDSA_WITH_AES_128_CBC_SHA256'', False),
     (0xC024, str ''TLS_ECDHE_ECDSA_WITH_AES_256_CBC_SHA384'', False),
     (0xC027, str ''TLS_ECDHE_RSA_WITH_AES_128_CBC_SHA256'', False),
     (0xC028, str ''TLS_ECDHE_RSA_WITH_AES_256_CBC_SHA384'', False),
     (0xC02B, str ''TLS_ECDHE_ECDSA_WITH_AES_128_GCM_SHA256'', False),
     (0xC02C, str ''TLS_ECDHE_ECDSA_WITH_AES_256_GCM_SHA384'', False),
     (0xC02F, str ''TLS_ECDHE_RSA_WITH_AES_128_GCM_SHA256'', False),
     (0xC030, str ''TLS_ECDHE_RSA_WITH_AES_256_GCM_SHA384'', False),
     (0x1301, str ''TLS_AES_128_GCM_SHA256'', False),
     (0x1302, str ''TLS_AES_256_GCM_SHA384'', False),
     (0x1303, str ''TLS_CHACHA20_POLY1305_SHA256'', False)]"

definition tls_version_to_string :: "u16 \<Rightarrow> bytes" where
  "tls_version_to_string v =
    (if v = 0x0300 then str ''SSL 3.0'' else if v = 0x0301 then str ''TLS 1.0''
     else if v = 0x0302 then str ''TLS 1.1'' else if v = 0x0303 then str ''TLS 1.2''
     else if v = 0x0304 then str ''TLS 1.3'' else str ''Unknown'')"

definition tls_cipher_suite_to_string :: "u16 \<Rightarrow> bytes" where
  "tls_cipher_suite_to_string c = (case map_of cipher_suite_db c of
     Some (name, weak) \<Rightarrow> name | None \<Rightarrow> str ''UNKNOWN_CIPHER'')"

definition tls_is_weak_cipher :: "u16 \<Rightarrow> bool" where
  "tls_is_weak_cipher c = (case map_of cipher_suite_db c of Some (name, weak) \<Rightarrow> weak | None \<Rightarrow> False)"

section \<open>Fingerprints\<close>

text \<open>\<^verbatim>\<open>%u\<close>.\<close>

fun dec_digits :: "nat \<Rightarrow> bytes" where
  "dec_digits n = (if n < 10 then [of_nat (48 + n)] else dec_digits (n div 10) @ [of_nat (48 + n mod 10)])"

declare dec_digits.simps [simp del]

text \<open>\<^verbatim>\<open>offset += snprintf(buf + offset, sizeof(buf) - offset, ...)\<close> on a buffer of \<open>cap\<close> bytes, with the
  characters written so far and the offset. Once the offset is larger than the buffer the size passed
  wraps around and the call writes outside.\<close>

definition snp :: "nat \<Rightarrow> bytes \<Rightarrow> bytes \<times> nat \<Rightarrow> (bytes \<times> nat) option" where
  "snp cap s b = (let (tx, off) = b in
     if cap < off then None
     else Some (if off < cap then take (cap - 1) (tx @ s) else tx, off + length s))"

text \<open>The loop that prints numbers separated by dashes.\<close>

fun snp_list :: "nat \<Rightarrow> u16 list \<Rightarrow> bytes \<times> nat \<Rightarrow> (bytes \<times> nat) option" where
  "snp_list cap [] b = Some b"
| "snp_list cap (x # xs) b = do {
     b1 \<leftarrow> snp cap (dec_digits (unat x)) b;
     b2 \<leftarrow> (if xs = [] then Some b1 else snp cap [45] b1);
     snp_list cap xs b2 }"

definition TLS_MAX_JA3_STR :: nat where "TLS_MAX_JA3_STR = 512"

definition build_ja3_string :: "nat \<Rightarrow> tls_client_hello \<Rightarrow> bytes option" where
  "build_ja3_string cap ch = do {
     b1 \<leftarrow> snp cap (dec_digits (unat (ch_version ch)) @ [44]) ([], 0);
     b2 \<leftarrow> snp_list cap (ch_cipher_suites ch) b1;
     b3 \<leftarrow> snp cap [44] b2;
     b4 \<leftarrow> snp_list cap (map ext_type (ch_extensions ch)) b3;
     b5 \<leftarrow> snp cap [44] b4;
     b6 \<leftarrow> snp cap [44] b5;
     Some (fst b6) }"

definition build_ja3s_string :: "nat \<Rightarrow> tls_server_hello \<Rightarrow> bytes option" where
  "build_ja3s_string cap sh = do {
     b1 \<leftarrow> snp cap (dec_digits (unat (sh_version sh)) @ [44]) ([], 0);
     b2 \<leftarrow> snp cap (dec_digits (unat (sh_cipher_suite sh)) @ [44]) b1;
     b3 \<leftarrow> snp_list cap (map ext_type (sh_extensions sh)) b2;
     Some (fst b3) }"

section \<open>Extensions\<close>

text \<open>The loop of \<^verbatim>\<open>parse_sni_extension\<close> at position \<open>p\<close>: the name to copy, if any.\<close>

function sni_loop :: "bytes \<Rightarrow> nat \<Rightarrow> nat \<Rightarrow> bytes option option" where
  "sni_loop data p remaining =
    (if remaining < 3 then Some None
     else do {
       name_type \<leftarrow> rd8 data p;
       name_len \<leftarrow> rd_be16 data (p + 1);
       if remaining - 3 < unat name_len then Some None
       else if name_type = 0 \<and> 0 < name_len \<and> name_len < 256
       then do { name \<leftarrow> rd_slice data (p + 3) (unat name_len); Some (Some name) }
       else sni_loop data (p + 3 + unat name_len) (remaining - 3 - unat name_len) })"
  by pat_completeness auto
termination
  by (relation "measure (\<lambda>(data, p, remaining). remaining)") auto

declare sni_loop.simps [simp del]

definition parse_sni_extension ::
  "rte_env \<Rightarrow> bytes \<Rightarrow> nat \<Rightarrow> nat \<Rightarrow> tls_client_hello \<Rightarrow> nat \<Rightarrow> (tls_client_hello \<times> nat) option" where
  "parse_sni_extension env data p len ch n =
    (if len < 5 then Some (ch, n)
     else do {
       list_len \<leftarrow> rd_be16 data p;
       if len < unat list_len + 2 then Some (ch, n)
       else do {
         r \<leftarrow> sni_loop data (p + 2) (unat list_len);
         Some (case r of None \<Rightarrow> (ch, n)
           | Some name \<Rightarrow> (ch\<lparr>ch_sni := (if malloc_ok env n then Some name else None)\<rparr>, n + 1)) } })"

definition parse_alpn_extension ::
  "rte_env \<Rightarrow> bytes \<Rightarrow> nat \<Rightarrow> nat \<Rightarrow> tls_client_hello \<Rightarrow> nat \<Rightarrow> (tls_client_hello \<times> nat) option" where
  "parse_alpn_extension env data p len ch n =
    (if len < 2 then Some (ch, n)
     else do {
       list_len \<leftarrow> rd_be16 data p;
       if len < unat list_len + 2 then Some (ch, n)
       else if unat list_len < 1 then Some (ch, n)
       else do {
         proto_len \<leftarrow> rd8 data (p + 2);
         if 0 < proto_len \<and> unat proto_len \<le> unat list_len - 1 \<and> proto_len < 32 then do {
           proto \<leftarrow> rd_slice data (p + 3) (unat proto_len);
           Some (ch\<lparr>ch_alpn := (if malloc_ok env n then Some proto else None)\<rparr>, n + 1) }
         else Some (ch, n) } })"

definition TLS_MAX_EXTENSIONS :: nat where "TLS_MAX_EXTENSIONS = 32"

text \<open>Storing one extension of a client hello.\<close>

definition store_client_extension ::
  "rte_env \<Rightarrow> bytes \<Rightarrow> nat \<Rightarrow> u16 \<Rightarrow> u16 \<Rightarrow> tls_client_hello \<Rightarrow> nat \<Rightarrow> (tls_client_hello \<times> nat) option" where
  "store_client_extension env data p etype elen ch n =
    (if length (ch_extensions ch) < TLS_MAX_EXTENSIONS then do {
       (ch1, n1) \<leftarrow> (if etype = 0 then parse_sni_extension env data p (unat elen) ch n
                     else if etype = 16 then parse_alpn_extension env data p (unat elen) ch n
                     else Some (ch, n));
       Some (ch1\<lparr>ch_extensions := ch_extensions ch @ [\<lparr>ext_type = etype, ext_length = elen\<rparr>]\<rparr>, n1) }
     else Some (ch, n))"

function parse_client_hello_extensions ::
  "rte_env \<Rightarrow> bytes \<Rightarrow> nat \<Rightarrow> nat \<Rightarrow> tls_client_hello \<Rightarrow> nat \<Rightarrow> (tls_client_hello \<times> nat) option" where
  "parse_client_hello_extensions env data p remaining ch n =
    (if remaining < 4 then Some (ch, n)
     else do {
       etype \<leftarrow> rd_be16 data p;
       elen \<leftarrow> rd_be16 data (p + 2);
       if remaining - 4 < unat elen then Some (ch, n)
       else do {
         (ch1, n1) \<leftarrow> store_client_extension env data (p + 4) etype elen ch n;
         parse_client_hello_extensions env data (p + 4 + unat elen) (remaining - 4 - unat elen) ch1 n1 } })"
  by pat_completeness auto
termination
  by (relation "measure (\<lambda>(env, data, p, remaining, ch, n). remaining)") auto

declare parse_client_hello_extensions.simps [simp del]

function parse_server_hello_extensions ::
  "bytes \<Rightarrow> nat \<Rightarrow> nat \<Rightarrow> tls_server_hello \<Rightarrow> tls_server_hello option" where
  "parse_server_hello_extensions data p remaining sh =
    (if remaining < 4 then Some sh
     else do {
       etype \<leftarrow> rd_be16 data p;
       elen \<leftarrow> rd_be16 data (p + 2);
       if remaining - 4 < unat elen then Some sh
       else parse_server_hello_extensions data (p + 4 + unat elen) (remaining - 4 - unat elen)
         (if length (sh_extensions sh) < TLS_MAX_EXTENSIONS
          then sh\<lparr>sh_extensions := sh_extensions sh @ [\<lparr>ext_type = etype, ext_length = elen\<rparr>]\<rparr> else sh) })"
  by pat_completeness auto
termination
  by (relation "measure (\<lambda>(data, p, remaining, sh). remaining)") auto

declare parse_server_hello_extensions.simps [simp del]

section \<open>Hello messages\<close>

definition TLS_MAX_CIPHER_SUITES :: nat where "TLS_MAX_CIPHER_SUITES = 128"

fun rd_suites :: "bytes \<Rightarrow> nat \<Rightarrow> nat \<Rightarrow> u16 list option" where
  "rd_suites data p 0 = Some []"
| "rd_suites data p (Suc k) = do { c \<leftarrow> rd_be16 data p; cs \<leftarrow> rd_suites data (p + 2) k; Some (c # cs) }"

definition client_hello_zero :: tls_client_hello where
  "client_hello_zero = \<lparr>ch_version = 0, ch_random = [], ch_session_id = [], ch_cipher_suites = [],
     ch_compression_methods = [], ch_extensions = [], ch_sni = None, ch_alpn = None, ch_ja3_string = [],
     ch_ja3_hash = []\<rparr>"

text \<open>The part of \<^verbatim>\<open>parse_client_hello\<close> after the compression methods, which end at \<open>q\<close> (relative to the
  message at \<open>p\<close>).\<close>

definition client_hello_tail ::
  "rte_env \<Rightarrow> bytes \<Rightarrow> nat \<Rightarrow> nat \<Rightarrow> nat \<Rightarrow> tls_client_hello \<Rightarrow> nat \<Rightarrow> (tls_client_hello \<times> nat) option" where
  "client_hello_tail env data p len q ch n =
    (if q + 2 \<le> len then do {
       elen \<leftarrow> rd_be16 data (p + q);
       if q + 2 + unat elen \<le> len
       then parse_client_hello_extensions env data (p + q + 2) (unat elen) ch n
       else Some (ch, n) }
     else Some (ch, n))"

text \<open>The fields up to the compression methods. The session identifier is copied before its length has been
  compared with the length of the message. \<open>Some None\<close> is the result -1.\<close>

definition client_hello_head ::
  "bytes \<Rightarrow> nat \<Rightarrow> nat \<Rightarrow> (tls_client_hello \<times> nat) option option" where
  "client_hello_head data p len = do {
     ver \<leftarrow> rd_be16 data p;
     rnd \<leftarrow> rd_slice data (p + 2) 32;
     sid_len \<leftarrow> rd8 data (p + 34);
     if 32 < sid_len then Some None
     else do {
       sid \<leftarrow> rd_slice data (p + 35) (unat sid_len);
       let q1 = 35 + unat sid_len;
       if len < q1 + 2 then Some None
       else do {
         cs_len \<leftarrow> rd_be16 data (p + q1);
         if unat cs_len mod 2 \<noteq> 0 \<or> len < q1 + 2 + unat cs_len then Some None
         else do {
           suites \<leftarrow> rd_suites data (p + q1 + 2) (min (unat cs_len div 2) TLS_MAX_CIPHER_SUITES);
           let q2 = q1 + 2 + unat cs_len;
           if len < q2 + 1 then Some None
           else do {
             comp_len \<leftarrow> rd8 data (p + q2);
             if len < q2 + 1 + unat comp_len then Some None
             else do {
               comps \<leftarrow> rd_slice data (p + q2 + 1) (min (unat comp_len) 16);
               Some (Some (client_hello_zero\<lparr>ch_version := ver, ch_random := rnd, ch_session_id := sid,
                 ch_cipher_suites := suites, ch_compression_methods := comps\<rparr>,
                 q2 + 1 + unat comp_len)) } } } } } }"

definition parse_client_hello ::
  "(bytes \<Rightarrow> bytes) \<Rightarrow> nat \<Rightarrow> rte_env \<Rightarrow> tls_conn \<Rightarrow> bytes \<Rightarrow> nat \<Rightarrow> nat \<Rightarrow> nat \<Rightarrow> (tls_conn \<times> nat) option" where
  "parse_client_hello md5 cap env conn data p len n =
    (if len < 38 then Some (conn, n)
     else if \<not> malloc_ok env n then Some (conn, n + 1)
     else do {
       r \<leftarrow> client_hello_head data p len;
       case r of
         None \<Rightarrow> Some (conn, n + 1)
       | Some (ch, q) \<Rightarrow> do {
           (ch1, n1) \<leftarrow> client_hello_tail env data p len q ch (n + 1);
           ja3 \<leftarrow> build_ja3_string cap ch1;
           Some (conn\<lparr>tc_client_hello := Some (ch1\<lparr>ch_ja3_string := ja3, ch_ja3_hash := md5 ja3\<rparr>),
                      tc_client_hello_seen := True\<rparr>, n1) } })"

definition server_hello_zero :: tls_server_hello where
  "server_hello_zero = \<lparr>sh_version = 0, sh_random = [], sh_session_id = [], sh_cipher_suite = 0,
     sh_cipher_suite_name = [], sh_compression_method = 0, sh_extensions = [], sh_ja3s_string = [],
     sh_ja3s_hash = []\<rparr>"

definition server_hello_head :: "bytes \<Rightarrow> nat \<Rightarrow> nat \<Rightarrow> (tls_server_hello \<times> nat) option option" where
  "server_hello_head data p len = do {
     ver \<leftarrow> rd_be16 data p;
     rnd \<leftarrow> rd_slice data (p + 2) 32;
     sid_len \<leftarrow> rd8 data (p + 34);
     if 32 < sid_len then Some None
     else do {
       sid \<leftarrow> rd_slice data (p + 35) (unat sid_len);
       let q1 = 35 + unat sid_len;
       if len < q1 + 2 then Some None
       else do {
         suite \<leftarrow> rd_be16 data (p + q1);
         if len < q1 + 2 + 1 then Some None
         else do {
           comp \<leftarrow> rd8 data (p + q1 + 2);
           Some (Some (server_hello_zero\<lparr>sh_version := ver, sh_random := rnd, sh_session_id := sid,
             sh_cipher_suite := suite, sh_cipher_suite_name := tls_cipher_suite_to_string suite,
             sh_compression_method := comp\<rparr>, q1 + 3)) } } } }"

definition server_hello_tail :: "bytes \<Rightarrow> nat \<Rightarrow> nat \<Rightarrow> nat \<Rightarrow> tls_server_hello \<Rightarrow> tls_server_hello option" where
  "server_hello_tail data p len q sh =
    (if q + 2 \<le> len then do {
       elen \<leftarrow> rd_be16 data (p + q);
       if q + 2 + unat elen \<le> len
       then parse_server_hello_extensions data (p + q + 2) (unat elen) sh
       else Some sh }
     else Some sh)"

text \<open>The negotiated parameters and the two warnings.\<close>

definition server_hello_conclude :: "tls_conn \<Rightarrow> tls_server_hello \<Rightarrow> tls_conn" where
  "server_hello_conclude conn sh =
    conn\<lparr>tc_server_hello := Some sh, tc_server_hello_seen := True, tc_negotiated_version := sh_version sh,
      tc_negotiated_cipher := sh_cipher_suite sh,
      tc_weak_cipher := (tls_is_weak_cipher (sh_cipher_suite sh) \<or> tc_weak_cipher conn),
      tc_version_downgrade := ((case tc_client_hello conn of None \<Rightarrow> False
          | Some ch \<Rightarrow> TLS_VERSION_TLS13 \<le> ch_version ch \<and> sh_version sh < TLS_VERSION_TLS13)
        \<or> tc_version_downgrade conn)\<rparr>"

definition parse_server_hello ::
  "(bytes \<Rightarrow> bytes) \<Rightarrow> nat \<Rightarrow> rte_env \<Rightarrow> tls_conn \<Rightarrow> bytes \<Rightarrow> nat \<Rightarrow> nat \<Rightarrow> nat \<Rightarrow> (tls_conn \<times> nat) option" where
  "parse_server_hello md5 cap env conn data p len n =
    (if len < 38 then Some (conn, n)
     else if \<not> malloc_ok env n then Some (conn, n + 1)
     else do {
       r \<leftarrow> server_hello_head data p len;
       case r of
         None \<Rightarrow> Some (conn, n + 1)
       | Some (sh, q) \<Rightarrow> do {
           sh1 \<leftarrow> server_hello_tail data p len q sh;
           ja3s \<leftarrow> build_ja3s_string cap sh1;
           Some (server_hello_conclude conn (sh1\<lparr>sh_ja3s_string := ja3s, sh_ja3s_hash := md5 ja3s\<rparr>), n + 1) } })"

section \<open>Certificates, handshakes, records\<close>

definition rd_be24 :: "bytes \<Rightarrow> nat \<Rightarrow> nat option" where
  "rd_be24 data p = do { a \<leftarrow> rd8 data p; b \<leftarrow> rd8 data (p + 1); c \<leftarrow> rd8 data (p + 2);
     Some (65536 * unat a + 256 * unat b + unat c) }"

definition parse_certificate ::
  "rte_env \<Rightarrow> tls_conn \<Rightarrow> bytes \<Rightarrow> nat \<Rightarrow> nat \<Rightarrow> u8 \<Rightarrow> nat \<Rightarrow> (tls_conn \<times> nat) option" where
  "parse_certificate env conn data p len dir n =
    (if len < 3 then Some (conn, n)
     else do {
       certs_len \<leftarrow> rd_be24 data p;
       if len - 3 < certs_len then Some (conn, n)
       else if certs_len < 3 then Some (conn, n)
       else do {
         cert_len \<leftarrow> rd_be24 data (p + 3);
         if 0 < cert_len \<and> cert_len \<le> certs_len - 3 then
           Some (if \<not> malloc_ok env n then conn
                 else if dir = 0 then conn\<lparr>tc_client_cert := True, tc_client_cert_seen := True\<rparr>
                 else conn\<lparr>tc_server_cert := True, tc_server_cert_seen := True\<rparr>, n + 1)
         else Some (conn, n) } })"

definition parse_handshake ::
  "(bytes \<Rightarrow> bytes) \<Rightarrow> nat \<Rightarrow> rte_env \<Rightarrow> tls_conn \<Rightarrow> bytes \<Rightarrow> nat \<Rightarrow> nat \<Rightarrow> u8 \<Rightarrow> nat \<Rightarrow> (tls_conn \<times> nat) option" where
  "parse_handshake md5 cap env conn data p len dir n =
    (if len < 4 then Some (conn, n)
     else do {
       htype \<leftarrow> rd8 data p;
       hlen \<leftarrow> rd_be24 data (p + 1);
       if len < hlen + 4 then Some (conn, n)
       else
        (let conn1 = conn\<lparr>tc_handshakes_parsed := tc_handshakes_parsed conn + 1\<rparr> in
         if htype = 1 then parse_client_hello md5 cap env conn1 data (p + 4) hlen n
         else if htype = 2 then parse_server_hello md5 cap env conn1 data (p + 4) hlen n
         else if htype = 11 then parse_certificate env conn1 data (p + 4) hlen dir n
         else if htype = 14 \<or> htype = 20 then Some (conn1\<lparr>tc_handshake_completed := True\<rparr>, n)
         else Some (conn1, n)) })"

text \<open>The record at \<open>p\<close> with \<open>len\<close> bytes left; the result is the length of the record, 0 or -1.\<close>

definition parse_tls_record ::
  "(bytes \<Rightarrow> bytes) \<Rightarrow> nat \<Rightarrow> rte_env \<Rightarrow> tls_conn \<Rightarrow> bytes \<Rightarrow> nat \<Rightarrow> nat \<Rightarrow> u8 \<Rightarrow> nat \<Rightarrow>
   (int \<times> tls_conn \<times> nat) option" where
  "parse_tls_record md5 cap env conn data p len dir n =
    (if len < 5 then Some (0, conn, n)
     else do {
       ctype \<leftarrow> rd8 data p;
       _ \<leftarrow> rd_be16 data (p + 1);
       rlen \<leftarrow> rd_be16 data (p + 3);
       if 16384 < rlen \<or> len < unat rlen + 5 then Some (-1, conn, n)
       else
        (let conn1 = conn\<lparr>tc_records_parsed := tc_records_parsed conn + 1\<rparr> in do {
           (conn2, n2) \<leftarrow> (if ctype = TLS_RECORD_HANDSHAKE
               then parse_handshake md5 cap env conn1 data (p + 5) (unat rlen) dir n
             else if ctype = TLS_RECORD_APPLICATION_DATA
               then Some (conn1\<lparr>tc_app_data_records := tc_app_data_records conn1 + 1\<rparr>, n)
             else Some (conn1, n));
           Some (int (unat rlen) + 5, conn2, n2) }) })"

function tls_records_loop ::
  "(bytes \<Rightarrow> bytes) \<Rightarrow> nat \<Rightarrow> rte_env \<Rightarrow> tls_conn \<Rightarrow> bytes \<Rightarrow> nat \<Rightarrow> nat \<Rightarrow> u8 \<Rightarrow> nat \<Rightarrow>
   (nat \<times> tls_conn \<times> nat) option" where
  "tls_records_loop md5 cap env conn data consumed len dir n =
    (if len \<le> consumed then Some (consumed, conn, n)
     else do {
       (ret, conn1, n1) \<leftarrow> parse_tls_record md5 cap env conn data consumed (len - consumed) dir n;
       if ret \<le> 0 then Some (consumed, conn1, n1)
       else tls_records_loop md5 cap env conn1 data (consumed + nat ret) len dir n1 })"
  by pat_completeness auto
termination
  by (relation "measure (\<lambda>(md5, cap, env, conn, data, consumed, len, dir, n). len - consumed)") auto

declare tls_records_loop.simps [simp del]

definition tls_parser_parse_with ::
  "(bytes \<Rightarrow> bytes) \<Rightarrow> nat \<Rightarrow> rte_env \<Rightarrow> tls_conn option \<Rightarrow> bytes option \<Rightarrow> u32 \<Rightarrow> u8 \<Rightarrow> nat \<Rightarrow>
   (int \<times> tls_conn option \<times> nat) option" where
  "tls_parser_parse_with md5 cap env conn data len dir n = (case (conn, data) of
     (Some c, Some d) \<Rightarrow>
       if len = 0 then Some (-1, conn, n)
       else do {
         (consumed, c', n') \<leftarrow> tls_records_loop md5 cap env c d 0 (unat len) dir n;
         Some (sint (of_nat consumed :: u32), Some c', n') }
   | _ \<Rightarrow> Some (-1, conn, n))"

definition tls_parser_parse ::
  "(bytes \<Rightarrow> bytes) \<Rightarrow> rte_env \<Rightarrow> tls_conn option \<Rightarrow> bytes option \<Rightarrow> u32 \<Rightarrow> u8 \<Rightarrow> nat \<Rightarrow>
   (int \<times> tls_conn option \<times> nat) option" where
  "tls_parser_parse md5 = tls_parser_parse_with md5 TLS_MAX_JA3_STR"

definition tls_get_client_hello :: "tls_conn option \<Rightarrow> tls_client_hello option" where
  "tls_get_client_hello conn = Option.bind conn tc_client_hello"

definition tls_get_server_hello :: "tls_conn option \<Rightarrow> tls_server_hello option" where
  "tls_get_server_hello conn = Option.bind conn tc_server_hello"


section \<open>The JA3 buffer\<close>

text \<open>What the code means to print.\<close>

fun dash_list :: "u16 list \<Rightarrow> bytes" where
  "dash_list [] = []"
| "dash_list [x] = dec_digits (unat x)"
| "dash_list (x # y # xs) = dec_digits (unat x) @ [45] @ dash_list (y # xs)"

definition ja3_text :: "u16 \<Rightarrow> u16 list \<Rightarrow> u16 list \<Rightarrow> bytes" where
  "ja3_text ver suites exts = dec_digits (unat ver) @ [44] @ dash_list suites @ [44] @ dash_list exts @ [44, 44]"

definition ja3s_text :: "u16 \<Rightarrow> u16 \<Rightarrow> u16 list \<Rightarrow> bytes" where
  "ja3s_text ver suite exts = dec_digits (unat ver) @ [44] @ dec_digits (unat suite) @ [44] @ dash_list exts"

definition buf_of :: "nat \<Rightarrow> bytes \<Rightarrow> bytes \<times> nat" where
  "buf_of cap tx = (take (cap - 1) tx, length tx)"

lemma snp_buf_of:
  "0 < cap \<Longrightarrow> snp cap s (buf_of cap tx) = (if length tx \<le> cap then Some (buf_of cap (tx @ s)) else None)"
  by (auto simp: snp_def buf_of_def not_le)

lemma dec_digits_nonempty [simp]: "dec_digits n \<noteq> []"
  by (subst dec_digits.simps) simp

lemma dash_list_empty [simp]: "dash_list xs = [] \<longleftrightarrow> xs = []"
  by (cases xs rule: dash_list.cases) auto

lemma snp_list_cons2:
  "snp_list cap (x # y # xs) b = do { b1 \<leftarrow> snp cap (dec_digits (unat x)) b; b2 \<leftarrow> snp cap [45] b1; snp_list cap (y # xs) b2 }"
  by (simp only: snp_list.simps(2) [of cap x "y # xs"] list.distinct if_False)

lemma snp_list_buf_of:
  assumes "0 < cap" "length (tx @ dash_list xs) \<le> cap \<or> xs = []"
  shows "snp_list cap xs (buf_of cap tx) = Some (buf_of cap (tx @ dash_list xs))"
  using assms(2)
proof (induction xs arbitrary: tx rule: dash_list.induct)
  case (3 x y xs)
  then show ?case
    using assms(1) by (simp add: snp_buf_of snp_list_cons2 del: snp_list.simps)
qed (use assms(1) in \<open>simp_all add: snp_buf_of\<close>)

text \<open>Too long a list makes a later call, at the latest the one after the list, write outside.\<close>

lemma snp_list_too_long:
  assumes "0 < cap" "snp_list cap xs (buf_of cap tx) = Some b"
  shows "b = buf_of cap (tx @ dash_list xs)"
  using assms(2)
proof (induction xs arbitrary: tx rule: dash_list.induct)
  case (3 x y xs)
  then show ?case
    using assms(1) "3.IH" [of "tx @ dec_digits (unat x) @ [45]"]
    by (auto simp: snp_buf_of snp_list_cons2 simp del: snp_list.simps split: if_splits)
qed (use assms(1) in \<open>auto simp: snp_buf_of split: if_splits\<close>)

lemma buf_of_Nil: "buf_of cap [] = ([], 0)"
  by (simp add: buf_of_def)

lemma build_ja3_spec:
  assumes "0 < cap"
  shows "build_ja3_string cap ch =
    (let tx = ja3_text (ch_version ch) (ch_cipher_suites ch) (map ext_type (ch_extensions ch)) in
     if length tx \<le> cap + 1 then Some (take (cap - 1) tx) else None)"
proof -
  define v where "v = dec_digits (unat (ch_version ch)) @ [44]"
  define c where "c = dash_list (ch_cipher_suites ch)"
  define e where "e = dash_list (map ext_type (ch_extensions ch))"
  note s = snp_buf_of [OF assms]
  have tx: "ja3_text (ch_version ch) (ch_cipher_suites ch) (map ext_type (ch_extensions ch)) =
      (((v @ c @ [44]) @ e) @ [44]) @ [44]"
    by (simp add: ja3_text_def v_def c_def e_def)
  have b1: "snp cap (dec_digits (unat (ch_version ch)) @ [44]) ([], 0) = Some (buf_of cap v)"
    using s [of "dec_digits (unat (ch_version ch)) @ [44]" "[]"] by (simp add: buf_of_Nil v_def)
  show ?thesis
  proof (cases "length (((v @ c @ [44]) @ e) @ [44]) \<le> cap")
    case True
    have l1: "snp_list cap (ch_cipher_suites ch) (buf_of cap v) = Some (buf_of cap (v @ c))"
      unfolding c_def using True by (intro snp_list_buf_of [OF assms]) (simp add: c_def)
    have l2: "snp_list cap (map ext_type (ch_extensions ch)) (buf_of cap (v @ c @ [44])) = Some (buf_of cap ((v @ c @ [44]) @ e))"
      unfolding e_def using True by (intro snp_list_buf_of [OF assms]) (simp add: e_def)
    show ?thesis
      using True by (simp add: build_ja3_string_def b1 l1 l2 s tx Let_def) (simp add: buf_of_def)
  next
    case False
    have "build_ja3_string cap ch = None"
    proof (rule ccontr)
      assume "build_ja3_string cap ch \<noteq> None"
      then obtain b2 b3 b4 b5 b6 where b: "snp_list cap (ch_cipher_suites ch) (buf_of cap v) = Some b2"
          "snp cap [44] b2 = Some b3" "snp_list cap (map ext_type (ch_extensions ch)) b3 = Some b4"
          "snp cap [44] b4 = Some b5" "snp cap [44] b5 = Some b6"
        by (auto simp: build_ja3_string_def b1 split: bind_split_asm)
      have "b2 = buf_of cap (v @ c)"
        using snp_list_too_long [OF assms b(1)] by (simp add: c_def)
      then have "b3 = buf_of cap (v @ c @ [44])"
        using b(2) by (simp add: s split: if_splits)
      then have "b4 = buf_of cap ((v @ c @ [44]) @ e)"
        using snp_list_too_long [OF assms, of "map ext_type (ch_extensions ch)" "v @ c @ [44]" b4] b(3) by (simp add: e_def)
      then have "b5 = buf_of cap (((v @ c @ [44]) @ e) @ [44])"
        using b(4) by (simp add: s split: if_splits)
      then show False
        using b(5) False by (simp add: s split: if_splits)
    qed
    then show ?thesis
      using False by (simp add: tx Let_def)
  qed
qed

lemma build_ja3s_safe:
  assumes "0 < cap" "length (ja3s_text (sh_version sh) (sh_cipher_suite sh) (map ext_type (sh_extensions sh))) \<le> cap"
  shows "\<exists>s. build_ja3s_string cap sh = Some s"
proof -
  let ?v = "dec_digits (unat (sh_version sh)) @ [44]" and ?c = "dec_digits (unat (sh_cipher_suite sh)) @ [44]"
  note s = snp_buf_of [OF assms(1)]
  have "snp cap ?v ([], 0) = Some (buf_of cap ?v)"
    using s [of ?v "[]"] by (simp add: buf_of_Nil)
  moreover have "snp cap ?c (buf_of cap ?v) = Some (buf_of cap (?v @ ?c))"
    using assms(2) by (simp add: s ja3s_text_def)
  moreover have "snp_list cap (map ext_type (sh_extensions sh)) (buf_of cap (?v @ ?c)) =
      Some (buf_of cap ((?v @ ?c) @ dash_list (map ext_type (sh_extensions sh))))"
    using assms(2) by (intro snp_list_buf_of [OF assms(1)]) (simp add: ja3s_text_def)
  ultimately show ?thesis
    by (simp add: build_ja3s_string_def)
qed

text \<open>Bounds on the length of the texts.\<close>

lemma dec_digits_length: "n < 10 ^ k \<Longrightarrow> 0 < k \<Longrightarrow> length (dec_digits n) \<le> k"
proof (induction k arbitrary: n)
  case (Suc k)
  show ?case
  proof (cases "n < 10")
    case False
    then have "0 < k"
      using Suc.prems by (cases k) auto
    moreover have "n div 10 < 10 ^ k"
      using Suc.prems by (simp add: less_mult_imp_div_less)
    ultimately have "length (dec_digits (n div 10)) \<le> k"
      using Suc.IH by blast
    then show ?thesis
      using False by (subst dec_digits.simps) simp
  qed (subst dec_digits.simps, simp)
qed simp

lemma dec_u16_length: "length (dec_digits (unat (x :: u16))) \<le> 5"
  using unat_u16_lt [of x] by (intro dec_digits_length) simp_all

lemma dash_list_length: "length (dash_list xs) \<le> 6 * length xs"
proof (induction xs rule: dash_list.induct)
  case (2 x)
  then show ?case
    using dec_u16_length [of x] by simp
next
  case (3 x y xs)
  then show ?case
    using dec_u16_length [of x] by simp
qed simp

lemma ja3_text_length: "length (ja3_text v cs es) \<le> 9 + 6 * length cs + 6 * length es"
  using dec_u16_length [of v] dash_list_length [of cs] dash_list_length [of es] by (simp add: ja3_text_def)

lemma ja3s_text_length: "length (ja3s_text v c es) \<le> 12 + 6 * length es"
  using dec_u16_length [of v] dec_u16_length [of c] dash_list_length [of es] by (simp add: ja3s_text_def)

section \<open>Memory safety\<close>

text \<open>What the parser stores: at most 128 suites and 32 extensions, names of the stated lengths.\<close>

definition hello_ok :: "tls_client_hello \<Rightarrow> bool" where
  "hello_ok ch \<longleftrightarrow> length (ch_cipher_suites ch) \<le> 128 \<and> length (ch_extensions ch) \<le> 32 \<and>
     length (ch_session_id ch) \<le> 32 \<and> length (ch_compression_methods ch) \<le> 16 \<and>
     (\<forall>s. ch_sni ch = Some s \<longrightarrow> 0 < length s \<and> length s < 256) \<and>
     (\<forall>s. ch_alpn ch = Some s \<longrightarrow> 0 < length s \<and> length s < 32)"

lemma rd_be16_ok: "i + 2 \<le> length data \<Longrightarrow> \<exists>w. rd_be16 data i = Some w"
  by (simp add: rd_be16_Some)

lemma rd_slice_ok: "i + k \<le> length data \<Longrightarrow> \<exists>s. rd_slice data i k = Some s \<and> length s = k"
  by (simp add: rd_slice_Some)

lemma sni_loop_ok:
  "p + remaining \<le> length data \<Longrightarrow>
   \<exists>r. sni_loop data p remaining = Some r \<and> (\<forall>s. r = Some s \<longrightarrow> 0 < length s \<and> length s < 256)"
proof (induction data p remaining rule: sni_loop.induct)
  case (1 data p remaining)
  show ?case
  proof (cases "remaining < 3")
    case False
    obtain t where t: "rd8 data p = Some t"
      using "1.prems" False by (simp add: rd_simps)
    obtain l where l: "rd_be16 data (p + 1) = Some l"
      using "1.prems" False rd_be16_ok [of "p + 1" data] by auto
    have w: "0 < l \<Longrightarrow> 0 < unat l" "l < 256 \<Longrightarrow> unat l < 256"
      by (simp_all add: unat_gt_0 word_less_nat_alt)
    have eq: "sni_loop data p remaining = (if remaining - 3 < unat l then Some None
        else if t = 0 \<and> 0 < l \<and> l < 256 then do { name \<leftarrow> rd_slice data (p + 3) (unat l); Some (Some name) }
        else sni_loop data (p + 3 + unat l) (remaining - 3 - unat l))"
      using False by (subst sni_loop.simps) (simp add: t l del: One_nat_def add_2_eq_Suc')
    consider "remaining - 3 < unat l" | "\<not> remaining - 3 < unat l" "t = 0 \<and> 0 < l \<and> l < 256"
      | "\<not> remaining - 3 < unat l" "\<not> (t = 0 \<and> 0 < l \<and> l < 256)"
      by blast
    then show ?thesis
    proof cases
      case 2
      then obtain s where "rd_slice data (p + 3) (unat l) = Some s" "length s = unat l"
        using rd_slice_ok [of "p + 3" "unat l" data] "1.prems" False by force
      then show ?thesis
        using 2 w by (auto simp: eq)
    next
      case 3
      then show ?thesis
        using "1.IH" [OF False t l 3] "1.prems" False by (auto simp: eq)
    qed (simp add: eq)
  qed (subst sni_loop.simps, simp)
qed

lemma sni_ok:
  assumes "p + len \<le> length data" "hello_ok ch"
  shows "\<exists>ch' n'. parse_sni_extension env data p len ch n = Some (ch', n') \<and> hello_ok ch' \<and>
    ch_extensions ch' = ch_extensions ch \<and> ch_cipher_suites ch' = ch_cipher_suites ch"
proof (cases "len < 5")
  case False
  obtain l where l: "rd_be16 data p = Some l"
    using assms(1) False rd_be16_ok [of p data] by auto
  show ?thesis
  proof (cases "len < unat l + 2")
    case True
    with False l assms(2) show ?thesis
      by (simp add: parse_sni_extension_def)
  next
    case nl: False
    obtain r where r: "sni_loop data (p + 2) (unat l) = Some r" "\<forall>s. r = Some s \<longrightarrow> 0 < length s \<and> length s < 256"
      using sni_loop_ok [of "p + 2" "unat l" data] assms(1) nl by auto
    with False nl l assms(2) show ?thesis
      by (auto simp: parse_sni_extension_def hello_ok_def split: option.splits)
  qed
qed (use assms in \<open>simp add: parse_sni_extension_def\<close>)

lemma alpn_ok:
  assumes "p + len \<le> length data" "hello_ok ch"
  shows "\<exists>ch' n'. parse_alpn_extension env data p len ch n = Some (ch', n') \<and> hello_ok ch' \<and>
    ch_extensions ch' = ch_extensions ch \<and> ch_cipher_suites ch' = ch_cipher_suites ch"
proof (cases "len < 2")
  case False
  obtain l where l: "rd_be16 data p = Some l"
    using assms(1) False rd_be16_ok [of p data] by auto
  show ?thesis
  proof (cases "len < unat l + 2 \<or> unat l < 1")
    case True
    with False l assms(2) show ?thesis
      by (auto simp: parse_alpn_extension_def)
  next
    case nl: False
    then obtain k where k: "rd8 data (p + 2) = Some k"
      using assms(1) by (simp add: rd_simps)
    have w: "0 < k \<Longrightarrow> 0 < unat k" "k < 32 \<Longrightarrow> unat k < 32"
      by (simp_all add: unat_gt_0 word_less_nat_alt)
    obtain s where s: "unat k \<le> unat l - 1 \<Longrightarrow> rd_slice data (p + 3) (unat k) = Some s \<and> length s = unat k"
      using rd_slice_ok [of "p + 3" "unat k" data] assms(1) nl by fastforce
    show ?thesis
      using False nl l k w s assms(2)
      by (cases "0 < k \<and> unat k \<le> unat l - 1 \<and> k < 32") (auto simp: parse_alpn_extension_def hello_ok_def simp del: rd8_eq_Some)
  qed
qed (use assms in \<open>simp add: parse_alpn_extension_def\<close>)

lemma store_client_extension_ok:
  assumes "p + unat elen \<le> length data" "hello_ok ch"
  shows "\<exists>ch' n'. store_client_extension env data p etype elen ch n = Some (ch', n') \<and> hello_ok ch' \<and>
    length (ch_extensions ch') \<le> Suc (length (ch_extensions ch)) \<and> ch_cipher_suites ch' = ch_cipher_suites ch"
proof -
  obtain c1 n1 where a: "parse_sni_extension env data p (unat elen) ch n = Some (c1, n1)" "hello_ok c1"
    "ch_extensions c1 = ch_extensions ch" "ch_cipher_suites c1 = ch_cipher_suites ch"
    using sni_ok [OF assms] by blast
  obtain c2 n2 where b: "parse_alpn_extension env data p (unat elen) ch n = Some (c2, n2)" "hello_ok c2"
    "ch_extensions c2 = ch_extensions ch" "ch_cipher_suites c2 = ch_cipher_suites ch"
    using alpn_ok [OF assms] by blast
  show ?thesis
    using a b assms(2) by (auto simp: store_client_extension_def TLS_MAX_EXTENSIONS_def hello_ok_def)
qed

lemma client_extensions_ok:
  "p + remaining \<le> length data \<Longrightarrow> hello_ok ch \<Longrightarrow>
   \<exists>ch' n'. parse_client_hello_extensions env data p remaining ch n = Some (ch', n') \<and> hello_ok ch' \<and>
     4 * length (ch_extensions ch') \<le> 4 * length (ch_extensions ch) + remaining \<and> ch_cipher_suites ch' = ch_cipher_suites ch"
proof (induction env data p remaining ch n rule: parse_client_hello_extensions.induct)
  case (1 env data p remaining ch n)
  show ?case
  proof (cases "remaining < 4")
    case False
    obtain t where t: "rd_be16 data p = Some t"
      using "1.prems" False rd_be16_ok [of p data] by auto
    obtain l where l: "rd_be16 data (p + 2) = Some l"
      using "1.prems" False rd_be16_ok [of "p + 2" data] by auto
    show ?thesis
    proof (cases "remaining - 4 < unat l")
      case True
      then show ?thesis
        using "1.prems" False t l by (subst parse_client_hello_extensions.simps) simp
    next
      case nl: False
      then obtain c1 n1 where s: "store_client_extension env data (p + 4) t l ch n = Some (c1, n1)" "hello_ok c1"
          "length (ch_extensions c1) \<le> Suc (length (ch_extensions ch))" "ch_cipher_suites c1 = ch_cipher_suites ch"
        using store_client_extension_ok [of "p + 4" l data ch env t n] "1.prems" False by force
      then show ?thesis
        using "1.prems" False nl t l "1.IH" [OF False t l nl s(1) refl]
        by (subst parse_client_hello_extensions.simps) auto
    qed
  qed (use "1.prems" in \<open>subst parse_client_hello_extensions.simps, simp\<close>)
qed

lemma server_extensions_ok:
  "p + remaining \<le> length data \<Longrightarrow> length (sh_extensions sh) \<le> 32 \<Longrightarrow>
   \<exists>sh'. parse_server_hello_extensions data p remaining sh = Some sh' \<and> length (sh_extensions sh') \<le> 32 \<and>
     4 * length (sh_extensions sh') \<le> 4 * length (sh_extensions sh) + remaining"
proof (induction data p remaining sh rule: parse_server_hello_extensions.induct)
  case (1 data p remaining sh)
  show ?case
  proof (cases "remaining < 4")
    case False
    obtain t where t: "rd_be16 data p = Some t"
      using "1.prems" False rd_be16_ok [of p data] by auto
    obtain l where l: "rd_be16 data (p + 2) = Some l"
      using "1.prems" False rd_be16_ok [of "p + 2" data] by auto
    show ?thesis
      using "1.prems" False t l "1.IH" [OF False t l]
      by (subst parse_server_hello_extensions.simps) (auto simp: TLS_MAX_EXTENSIONS_def)
  qed (use "1.prems" in \<open>subst parse_server_hello_extensions.simps, simp\<close>)
qed

lemma rd_suites_ok: "p + 2 * k \<le> length data \<Longrightarrow> \<exists>cs. rd_suites data p k = Some cs \<and> length cs = k"
proof (induction k arbitrary: p)
  case (Suc k)
  obtain w where "rd_be16 data p = Some w"
    using rd_be16_ok [of p data] Suc.prems by auto
  moreover obtain cs where "rd_suites data (p + 2) k = Some cs" "length cs = k"
    using Suc.IH [of "p + 2"] Suc.prems by auto
  ultimately show ?case
    by simp
qed simp

text \<open>The hello messages, when the captured bytes go on for 32 bytes after the message and the message
  is too short for the text to fill the JA3 buffer.\<close>

lemma client_hello_head_ok:
  assumes "38 \<le> len" "p + len + 32 \<le> length data"
  shows "\<exists>r. client_hello_head data p len = Some r \<and> (\<forall>ch q. r = Some (ch, q) \<longrightarrow>
    hello_ok ch \<and> q \<le> len \<and> ch_extensions ch = [] \<and> 2 * length (ch_cipher_suites ch) \<le> q)"
proof -
  obtain v where v: "rd_be16 data p = Some v"
    using rd_be16_ok [of p data] assms by auto
  obtain r where r: "rd_slice data (p + 2) 32 = Some r"
    using rd_slice_ok [of "p + 2" 32 data] assms by auto
  obtain l where l: "rd8 data (p + 34) = Some l"
    using assms by (simp add: rd_simps)
  show ?thesis
  proof (cases "32 < l")
    case True
    then show ?thesis
      using v r l by (simp add: client_hello_head_def Let_def del: One_nat_def add_2_eq_Suc' rd8_eq_Some)
  next
    case False
    then have l32: "unat l \<le> 32"
      by (simp add: word_less_nat_alt)
    then obtain sid where sid: "rd_slice data (p + 35) (unat l) = Some sid" "length sid = unat l"
      using rd_slice_ok [of "p + 35" "unat l" data] assms by auto
    let ?q1 = "35 + unat l"
    show ?thesis
    proof (cases "len < ?q1 + 2")
      case True
      then show ?thesis
        using False v r l sid by (simp add: client_hello_head_def Let_def del: One_nat_def add_2_eq_Suc' rd8_eq_Some)
    next
      case q1: False
      obtain k where k: "rd_be16 data (p + ?q1) = Some k"
        using rd_be16_ok [of "p + ?q1" data] assms q1 by auto
      show ?thesis
      proof (cases "unat k mod 2 \<noteq> 0 \<or> len < ?q1 + 2 + unat k")
        case True
        then show ?thesis
          using False q1 v r l sid k by (auto simp: client_hello_head_def Let_def simp del: One_nat_def add_2_eq_Suc' rd8_eq_Some)
      next
        case kk: False
        obtain cs where cs: "rd_suites data (p + ?q1 + 2) (min (unat k div 2) 128) = Some cs"
            "length cs = min (unat k div 2) 128"
          using rd_suites_ok [of "p + ?q1 + 2" "min (unat k div 2) 128" data] assms kk by force
        let ?q2 = "?q1 + 2 + unat k"
        show ?thesis
        proof (cases "len < ?q2 + 1")
          case True
          then show ?thesis
            using False q1 kk v r l sid k cs by (simp add: client_hello_head_def Let_def TLS_MAX_CIPHER_SUITES_def del: One_nat_def add_2_eq_Suc' rd8_eq_Some)
        next
          case q2: False
          obtain c where c: "rd8 data (p + ?q2) = Some c"
            using assms q2 by (simp add: rd_simps)
          obtain comps where comps: "len \<ge> ?q2 + 1 + unat c \<Longrightarrow>
              rd_slice data (p + ?q2 + 1) (min (unat c) 16) = Some comps \<and> length comps = min (unat c) 16"
            using rd_slice_ok [of "p + ?q2 + 1" "min (unat c) 16" data] assms by fastforce
          show ?thesis
            using False q1 kk q2 comps l32 cs sid v r l k c
            by (auto simp: client_hello_head_def Let_def TLS_MAX_CIPHER_SUITES_def hello_ok_def
                client_hello_zero_def not_less simp del: One_nat_def add_2_eq_Suc' rd8_eq_Some)
        qed
      qed
    qed
  qed
qed

lemma parse_client_hello_ok:
  assumes "p + len + 32 \<le> length data" "9 + 3 * len \<le> cap"
  shows "\<exists>c' n'. parse_client_hello md5 cap env conn data p len n = Some (c', n') \<and>
    (c' = conn \<or> (\<exists>ch. hello_ok ch \<and> c' = conn\<lparr>tc_client_hello := Some ch, tc_client_hello_seen := True\<rparr>))"
proof (cases "len < 38 \<or> \<not> malloc_ok env n")
  case False
  then obtain r where r: "client_hello_head data p len = Some r" "\<And>ch q. r = Some (ch, q) \<Longrightarrow>
      hello_ok ch \<and> q \<le> len \<and> ch_extensions ch = [] \<and> 2 * length (ch_cipher_suites ch) \<le> q"
    using client_hello_head_ok [of len p data] assms by auto
  show ?thesis
  proof (cases r)
    case None
    then show ?thesis
      using False r by (simp add: parse_client_hello_def)
  next
    case (Some cq)
    then obtain ch q where cq: "r = Some (ch, q)" "hello_ok ch" "q \<le> len" "ch_extensions ch = []" "2 * length (ch_cipher_suites ch) \<le> q"
      using r by (metis surj_pair)
    have "\<exists>ch1 n1. client_hello_tail env data p len q ch (n + 1) = Some (ch1, n1) \<and> hello_ok ch1 \<and>
        2 * length (ch_cipher_suites ch1) + 4 * length (ch_extensions ch1) \<le> len"
    proof (cases "q + 2 \<le> len")
      case True
      then obtain e where e: "rd_be16 data (p + q) = Some e"
        using rd_be16_ok [of "p + q" data] assms by auto
      then show ?thesis
        using True cq client_extensions_ok [of "p + q + 2" "unat e" data ch env "n + 1"] assms
        by (cases "q + 2 + unat e \<le> len") (auto simp: client_hello_tail_def)
    qed (use cq in \<open>simp add: client_hello_tail_def\<close>)
    then obtain ch1 n1 where t: "client_hello_tail env data p len q ch (n + 1) = Some (ch1, n1)" "hello_ok ch1"
        "2 * length (ch_cipher_suites ch1) + 4 * length (ch_extensions ch1) \<le> len"
      by blast
    have "length (ja3_text (ch_version ch1) (ch_cipher_suites ch1) (map ext_type (ch_extensions ch1))) \<le> cap"
      using ja3_text_length [of "ch_version ch1" "ch_cipher_suites ch1" "map ext_type (ch_extensions ch1)"] t(3) assms(2)
      by simp
    then obtain ja3 where j: "build_ja3_string cap ch1 = Some ja3"
      using build_ja3_spec [of cap ch1] assms(2) by (simp add: Let_def)
    have "hello_ok (ch1\<lparr>ch_ja3_string := ja3, ch_ja3_hash := md5 ja3\<rparr>)"
      using t(2) by (simp add: hello_ok_def)
    then show ?thesis
      using False r(1) cq(1) t(1) j by (auto simp: parse_client_hello_def)
  qed
qed (auto simp: parse_client_hello_def)

lemma server_hello_head_ok:
  assumes "38 \<le> len" "p + len + 32 \<le> length data"
  shows "\<exists>r. server_hello_head data p len = Some r \<and> (\<forall>sh q. r = Some (sh, q) \<longrightarrow> sh_extensions sh = [] \<and> q \<le> len)"
proof -
  obtain v where v: "rd_be16 data p = Some v"
    using rd_be16_ok [of p data] assms by auto
  obtain r where r: "rd_slice data (p + 2) 32 = Some r"
    using rd_slice_ok [of "p + 2" 32 data] assms by auto
  obtain l where l: "rd8 data (p + 34) = Some l"
    using assms by (simp add: rd_simps)
  show ?thesis
  proof (cases "32 < l")
    case True
    then show ?thesis
      using v r l by (simp add: server_hello_head_def Let_def del: One_nat_def add_2_eq_Suc' rd8_eq_Some)
  next
    case False
    then have l32: "unat l \<le> 32"
      by (simp add: word_less_nat_alt)
    then obtain sid where sid: "rd_slice data (p + 35) (unat l) = Some sid"
      using rd_slice_ok [of "p + 35" "unat l" data] assms by auto
    let ?q1 = "35 + unat l"
    obtain k where k: "rd_be16 data (p + ?q1) = Some k"
      using rd_be16_ok [of "p + ?q1" data] assms l32 by auto
    obtain c where c: "rd8 data (p + ?q1 + 2) = Some c"
      using assms l32 by (simp add: rd_simps)
    show ?thesis
      using False v r l sid k c by (auto simp: server_hello_head_def Let_def server_hello_zero_def simp del: One_nat_def add_2_eq_Suc' rd8_eq_Some)
  qed
qed

lemma parse_server_hello_ok:
  assumes "p + len + 32 \<le> length data" "9 + 3 * len \<le> cap"
  shows "\<exists>c' n'. parse_server_hello md5 cap env conn data p len n = Some (c', n') \<and>
    (c' = conn \<or> (\<exists>sh. c' = server_hello_conclude conn sh))"
proof (cases "len < 38 \<or> \<not> malloc_ok env n")
  case False
  then obtain r where r: "server_hello_head data p len = Some r" "\<And>sh q. r = Some (sh, q) \<Longrightarrow> sh_extensions sh = [] \<and> q \<le> len"
    using server_hello_head_ok [of len p data] assms by auto
  show ?thesis
  proof (cases r)
    case None
    then show ?thesis
      using False r by (simp add: parse_server_hello_def)
  next
    case (Some sq)
    then obtain sh q where sq: "r = Some (sh, q)" "sh_extensions sh = []" "q \<le> len"
      using r by (metis surj_pair)
    have "\<exists>sh1. server_hello_tail data p len q sh = Some sh1 \<and> 4 * length (sh_extensions sh1) \<le> len"
    proof (cases "q + 2 \<le> len")
      case True
      then obtain e where e: "rd_be16 data (p + q) = Some e"
        using rd_be16_ok [of "p + q" data] assms by auto
      then show ?thesis
        using True sq(2) server_extensions_ok [of "p + q + 2" "unat e" data sh] assms
        by (cases "q + 2 + unat e \<le> len") (auto simp: server_hello_tail_def)
    qed (use sq in \<open>simp add: server_hello_tail_def\<close>)
    then obtain sh1 where t: "server_hello_tail data p len q sh = Some sh1" "4 * length (sh_extensions sh1) \<le> len"
      by blast
    have "length (ja3s_text (sh_version sh1) (sh_cipher_suite sh1) (map ext_type (sh_extensions sh1))) \<le> cap"
      using ja3s_text_length [of "sh_version sh1" "sh_cipher_suite sh1" "map ext_type (sh_extensions sh1)"] t(2) assms(2) False
      by simp
    then obtain ja3s where "build_ja3s_string cap sh1 = Some ja3s"
      using build_ja3s_safe [of cap sh1] assms(2) by auto
    then show ?thesis
      using False r(1) sq(1) t(1) by (auto simp: parse_server_hello_def)
  qed
qed (auto simp: parse_server_hello_def)

lemma rd_be24_ok: "p + 3 \<le> length data \<Longrightarrow> \<exists>w. rd_be24 data p = Some w"
  by (simp add: rd_be24_def rd_simps)

lemma parse_certificate_ok:
  assumes "p + len \<le> length data"
  shows "\<exists>c' n'. parse_certificate env conn data p len dir n = Some (c', n') \<and> tc_client_hello c' = tc_client_hello conn \<and>
    tc_client_hello_seen c' = tc_client_hello_seen conn"
proof (cases "len < 3")
  case False
  obtain a where a: "rd_be24 data p = Some a"
    using rd_be24_ok [of p data] assms False by auto
  show ?thesis
  proof (cases "len - 3 < a \<or> a < 3")
    case True
    then show ?thesis
      using False a by (auto simp: parse_certificate_def)
  next
    case na: False
    then obtain b where "rd_be24 data (p + 3) = Some b"
      using rd_be24_ok [of "p + 3" data] assms False by force
    then show ?thesis
      using False na a by (auto simp: parse_certificate_def)
  qed
qed (simp add: parse_certificate_def)

text \<open>A connection that has seen a client hello stores a well-formed one.\<close>

definition tls_inv :: "tls_conn \<Rightarrow> bool" where
  "tls_inv c \<longleftrightarrow> (tc_client_hello_seen c \<longleftrightarrow> tc_client_hello c \<noteq> None) \<and> (\<forall>ch. tc_client_hello c = Some ch \<longrightarrow> hello_ok ch)"

lemma tls_inv_same:
  "tls_inv c \<Longrightarrow> tc_client_hello c' = tc_client_hello c \<Longrightarrow> tc_client_hello_seen c' = tc_client_hello_seen c \<Longrightarrow> tls_inv c'"
  by (simp add: tls_inv_def)

lemma parse_handshake_ok:
  assumes "p + len + 32 \<le> length data" "9 + 3 * len \<le> cap" "tls_inv conn"
  shows "\<exists>c' n'. parse_handshake md5 cap env conn data p len dir n = Some (c', n') \<and> tls_inv c'"
proof (cases "len < 4")
  case False
  obtain t where t: "rd8 data p = Some t"
    using assms False by (simp add: rd_simps)
  obtain l where l: "rd_be24 data (p + 1) = Some l"
    using rd_be24_ok [of "p + 1" data] assms False by auto
  show ?thesis
  proof (cases "len < l + 4")
    case True
    then show ?thesis
      using False t l assms(3) by (auto simp: parse_handshake_def simp del: rd8_eq_Some One_nat_def)
  next
    case nl: False
    let ?c = "conn\<lparr>tc_handshakes_parsed := tc_handshakes_parsed conn + 1\<rparr>"
    have inv: "tls_inv ?c"
      by (rule tls_inv_same [OF assms(3)]) simp_all
    have b: "p + 4 + l + 32 \<le> length data" and bc: "9 + 3 * l \<le> cap"
      using nl assms(1,2) by simp_all
    obtain c1 n1 where c1: "parse_client_hello md5 cap env ?c data (p + 4) l n = Some (c1, n1)" "tls_inv c1"
      using parse_client_hello_ok [OF b bc, of md5 env ?c n] inv by (fastforce simp: tls_inv_def)
    obtain c2 n2 where c2: "parse_server_hello md5 cap env ?c data (p + 4) l n = Some (c2, n2)" "tls_inv c2"
      using parse_server_hello_ok [OF b bc, of md5 env ?c n] inv
      by (fastforce simp: tls_inv_def server_hello_conclude_def)
    obtain c3 n3 where c3: "parse_certificate env ?c data (p + 4) l dir n = Some (c3, n3)" "tls_inv c3"
      using parse_certificate_ok [of "p + 4" l data env ?c dir n] b tls_inv_same [OF inv] by (metis add_leD1)
    have "parse_handshake md5 cap env conn data p len dir n =
        (if t = 1 then Some (c1, n1) else if t = 2 then Some (c2, n2) else if t = 11 then Some (c3, n3)
         else if t = 14 \<or> t = 20 then Some (?c\<lparr>tc_handshake_completed := True\<rparr>, n) else Some (?c, n))"
      using False nl t l c1(1) c2(1) c3(1)
      by (simp add: parse_handshake_def Let_def del: rd8_eq_Some One_nat_def)
    then show ?thesis
      using c1 c2 c3 inv by (auto simp: tls_inv_def)
  qed
qed (use assms in \<open>simp add: parse_handshake_def\<close>)

lemma parse_tls_record_ok:
  assumes "p + len + 32 \<le> length data" "9 + 3 * len \<le> cap" "tls_inv conn"
  shows "\<exists>ret c' n'. parse_tls_record md5 cap env conn data p len dir n = Some (ret, c', n') \<and> tls_inv c' \<and> ret \<le> int len"
proof (cases "len < 5")
  case False
  obtain t where t: "rd8 data p = Some t"
    using assms False by (simp add: rd_simps)
  obtain v where v: "rd_be16 data (p + 1) = Some v"
    using rd_be16_ok [of "p + 1" data] assms False by auto
  obtain l where l: "rd_be16 data (p + 3) = Some l"
    using rd_be16_ok [of "p + 3" data] assms False by auto
  show ?thesis
  proof (cases "16384 < l \<or> len < unat l + 5")
    case True
    then show ?thesis
      using False t v l assms(3) by (auto simp: parse_tls_record_def simp del: rd8_eq_Some One_nat_def)
  next
    case nl: False
    let ?c = "conn\<lparr>tc_records_parsed := tc_records_parsed conn + 1\<rparr>"
    have inv: "tls_inv ?c"
      by (rule tls_inv_same [OF assms(3)]) simp_all
    obtain c1 n1 where "parse_handshake md5 cap env ?c data (p + 5) (unat l) dir n = Some (c1, n1)" "tls_inv c1"
      using parse_handshake_ok [of "p + 5" "unat l" data cap ?c md5 env dir n] assms nl inv by force
    moreover have "int (unat l + 5) \<le> int len"
      using nl by (simp only: of_nat_le_iff not_less de_Morgan_disj)
    then have "uint l + 5 \<le> int len"
      by simp
    ultimately show ?thesis
      using False nl t v l inv
      by (auto simp: parse_tls_record_def Let_def tls_inv_def simp del: rd8_eq_Some One_nat_def)
  qed
qed (use assms in \<open>simp add: parse_tls_record_def\<close>)

lemma tls_records_loop_ok:
  "len + 32 \<le> length data \<Longrightarrow> 9 + 3 * len \<le> cap \<Longrightarrow> tls_inv conn \<Longrightarrow> consumed \<le> len \<Longrightarrow>
   \<exists>k c' n'. tls_records_loop md5 cap env conn data consumed len dir n = Some (k, c', n') \<and> tls_inv c' \<and> k \<le> len"
proof (induction md5 cap env conn data consumed len dir n rule: tls_records_loop.induct)
  case (1 md5 cap env conn data consumed len dir n)
  show ?case
  proof (cases "len \<le> consumed")
    case False
    obtain ret c1 n1 where r: "parse_tls_record md5 cap env conn data consumed (len - consumed) dir n = Some (ret, c1, n1)"
        "tls_inv c1" "ret \<le> int (len - consumed)"
      using parse_tls_record_ok [of consumed "len - consumed" data cap conn md5 env dir n] "1.prems" False
        order_trans [of "9 + 3 * (len - consumed)" "9 + 3 * len" cap] by auto
    show ?thesis
    proof (cases "ret \<le> 0")
      case True
      then show ?thesis
        using False r "1.prems" by (subst tls_records_loop.simps) simp
    next
      case pos: False
      have "consumed + nat ret \<le> len"
        using pos r(3) False by linarith
      then show ?thesis
        using False pos r "1.prems" "1.IH" [OF False r(1) refl refl pos]
        by (subst tls_records_loop.simps) simp
    qed
  qed (use "1.prems" in \<open>subst tls_records_loop.simps, simp\<close>)
qed

text \<open>The parser as a machine that is fed chunks of captured bytes.\<close>

datatype tls_op = TlsData bytes u32 u8

fun tls_step :: "(bytes \<Rightarrow> bytes) \<Rightarrow> rte_env \<Rightarrow> tls_op \<Rightarrow> tls_conn \<times> nat \<Rightarrow> (tls_conn \<times> nat) option" where
  "tls_step md5 env (TlsData data len dir) (c, n) = do {
     (r, c', n') \<leftarrow> tls_parser_parse md5 env (Some c) (Some data) len dir n;
     c1 \<leftarrow> c'; Some (c1, n') }"

fun tls_legal :: "tls_op \<Rightarrow> tls_conn \<times> nat \<Rightarrow> bool" where
  "tls_legal (TlsData data len dir) s = (unat len + 32 \<le> length data \<and> unat len \<le> 167)"

lemma tls_step_inv:
  assumes "tls_inv (fst s)" "tls_legal x s"
  shows "\<exists>s'. tls_step md5 env x s = Some s' \<and> tls_inv (fst s')"
proof -
  obtain data len dir c n where x: "x = TlsData data len dir" "s = (c, n)"
    by (cases x, cases s) auto
  show ?thesis
  proof (cases "len = 0")
    case True
    then show ?thesis
      using assms x by (simp add: tls_parser_parse_def tls_parser_parse_with_def)
  next
    case False
    obtain k c' n' where "tls_records_loop md5 TLS_MAX_JA3_STR env c data 0 (unat len) dir n = Some (k, c', n')" "tls_inv c'"
      using tls_records_loop_ok [of "unat len" data TLS_MAX_JA3_STR c 0 md5 env dir n] assms x by (auto simp: TLS_MAX_JA3_STR_def)
    then show ?thesis
      using False x by (simp add: tls_parser_parse_def tls_parser_parse_with_def)
  qed
qed

interpretation tls: guarded_machine "tls_step md5 env" tls_legal "\<lambda>s. tls_inv (fst s)" for md5 env
  by unfold_locales (rule tls_step_inv; simp)

section \<open>Well-formed client hellos\<close>

definition enc16 :: "u16 \<Rightarrow> bytes" where
  "enc16 w = [ucast (drop_bit 8 w), ucast w]"

definition enc24 :: "nat \<Rightarrow> bytes" where
  "enc24 k = [of_nat (k div 65536), of_nat (k div 256 mod 256), of_nat (k mod 256)]"

definition enc_ext :: "u16 \<times> bytes \<Rightarrow> bytes" where
  "enc_ext e = enc16 (fst e) @ enc16 (of_nat (length (snd e))) @ snd e"

definition sni_body :: "bytes \<Rightarrow> bytes" where
  "sni_body name = enc16 (of_nat (length name + 3)) @ [0] @ enc16 (of_nat (length name)) @ name"

definition hello_exts :: "bytes option \<Rightarrow> (u16 \<times> bytes) list \<Rightarrow> (u16 \<times> bytes) list" where
  "hello_exts sni exts = (case sni of None \<Rightarrow> [] | Some name \<Rightarrow> [(0, sni_body name)]) @ exts"

definition client_hello_bytes ::
  "u16 \<Rightarrow> bytes \<Rightarrow> bytes \<Rightarrow> u16 list \<Rightarrow> bytes \<Rightarrow> (u16 \<times> bytes) list \<Rightarrow> bytes" where
  "client_hello_bytes ver rnd sid suites comps exts =
    (let e = concat (map enc_ext exts) in
     enc16 ver @ rnd @ [of_nat (length sid)] @ sid @ enc16 (of_nat (2 * length suites)) @ concat (map enc16 suites) @
     [of_nat (length comps)] @ comps @ enc16 (of_nat (length e)) @ e)"

definition tls_frame :: "bytes \<Rightarrow> bytes" where
  "tls_frame body = [22, 3, 1] @ enc16 (of_nat (length body + 4)) @ [1] @ enc24 (length body) @ body"

text \<open>Reading forward: the bytes from a position on determine what is read there and what follows.\<close>

lemma length_enc16 [simp]: "length (enc16 w) = 2"
  by (simp add: enc16_def)

lemma at_drop: "drop p data = s @ rest \<Longrightarrow> drop (p + length s) data = rest"
  by (metis append_eq_conv_conj drop_drop add.commute)

lemma at_next: "drop p data = s @ rest \<Longrightarrow> k = p + length s \<Longrightarrow> drop k data = rest"
  by (simp add: at_drop)

lemma at_next1: "drop p data = b # rest \<Longrightarrow> k = p + 1 \<Longrightarrow> drop k data = rest"
  using at_next [of p data "[b]" rest k] by simp

lemma at_length: "drop p data = s @ rest \<Longrightarrow> s \<noteq> [] \<Longrightarrow> p + length s + length rest = length data"
  by (metis length_append length_drop append_is_Nil_conv drop_all le_add_diff_inverse linorder_le_cases add.assoc)

lemma at8: "drop p data = b # rest \<Longrightarrow> rd8 data p = Some b"
  by (metis rd8_Some drop_all list.distinct(1) nth_via_drop not_le)

lemma at16:
  assumes "drop p data = enc16 w @ rest"
  shows "rd_be16 data p = Some w"
proof -
  have a: "drop p data = ucast (drop_bit 8 w) # ucast w # rest"
    using assms by (simp add: enc16_def)
  show ?thesis
    using at8 [OF a] at8 [OF at_next1 [OF a refl]] by (simp add: rd_be16_def be16_split del: rd8_eq_Some One_nat_def)
qed

lemma at_slice: "drop p data = s @ rest \<Longrightarrow> p \<le> length data \<Longrightarrow> rd_slice data p (length s) = Some s"
  using at_length [of p data s rest] by (cases "s = []") (auto simp: rd_slice_def bslice_def)

lemma at_suites:
  "drop p data = concat (map enc16 cs) @ rest \<Longrightarrow> rd_suites data p (length cs) = Some cs"
proof (induction cs arbitrary: p)
  case (Cons c cs)
  then have "drop p data = enc16 c @ concat (map enc16 cs) @ rest"
    by simp
  then have "rd_be16 data p = Some c" "drop (p + 2) data = concat (map enc16 cs) @ rest"
    using at16 at_drop [of p data "enc16 c"] by auto
  then show ?case
    using Cons.IH by simp
qed simp

lemma length_suites [simp]: "length (concat (map enc16 cs)) = 2 * length cs"
  by (induction cs) simp_all

lemma at24:
  assumes "drop p data = enc24 k @ rest" "k < 2 ^ 24"
  shows "rd_be24 data p = Some k"
proof -
  note a = assms(1) [unfolded enc24_def append_Cons append_Nil]
  have "drop (p + 1) data = of_nat (k div 256 mod 256) # of_nat (k mod 256) # rest" "drop (p + 2) data = of_nat (k mod 256) # rest"
    using at_next1 [OF a refl] at_next1 [OF at_next1 [OF a refl], of "p + 2"] by simp_all
  then have "rd8 data p = Some (of_nat (k div 65536))" "rd8 data (p + 1) = Some (of_nat (k div 256 mod 256))"
      "rd8 data (p + 2) = Some (of_nat (k mod 256))"
    using at8 [OF a] at8 [of "p + 1"] at8 [of "p + 2"] by blast+
  moreover have "unat (of_nat (k div 65536) :: u8) = k div 65536" "unat (of_nat (k div 256 mod 256) :: u8) = k div 256 mod 256"
      "unat (of_nat (k mod 256) :: u8) = k mod 256"
    using assms(2) by (simp_all add: unat_of_nat)
  moreover have "65536 * (k div 65536) + 256 * (k div 256 mod 256) + k mod 256 = k"
  proof -
    have "k div 65536 = k div 256 div 256"
      by (simp add: div_mult2_eq [symmetric])
    then show ?thesis
      using mult_div_mod_eq [of 256 k] mult_div_mod_eq [of 256 "k div 256"] by linarith
  qed
  ultimately show ?thesis
    by (simp add: rd_be24_def del: rd8_eq_Some One_nat_def add_2_eq_Suc')
qed

lemma enc_ext_length: "length (enc_ext e) = 4 + length (snd e)"
  by (simp add: enc_ext_def)

lemma ext_step:
  assumes "drop p data = enc_ext (t, d) @ rest" "length d < 65536" "4 + length d \<le> remaining"
  shows "parse_client_hello_extensions env data p remaining ch n = do {
      (ch1, n1) \<leftarrow> store_client_extension env data (p + 4) t (of_nat (length d)) ch n;
      parse_client_hello_extensions env data (p + length (enc_ext (t, d))) (remaining - length (enc_ext (t, d))) ch1 n1 }"
    and "drop (p + 4) data = d @ rest" "drop (p + length (enc_ext (t, d))) data = rest"
proof -
  have a: "drop p data = enc16 t @ enc16 (of_nat (length d)) @ d @ rest"
    using assms(1) by (simp add: enc_ext_def)
  then have b: "drop (p + 2) data = enc16 (of_nat (length d)) @ d @ rest"
    by (rule at_next) simp
  then show c: "drop (p + 4) data = d @ rest"
    by (rule at_next) simp
  then show "drop (p + length (enc_ext (t, d))) data = rest"
    by (rule at_next) (simp add: enc_ext_length)
  show "parse_client_hello_extensions env data p remaining ch n = do {
      (ch1, n1) \<leftarrow> store_client_extension env data (p + 4) t (of_nat (length d)) ch n;
      parse_client_hello_extensions env data (p + length (enc_ext (t, d))) (remaining - length (enc_ext (t, d))) ch1 n1 }"
    using at16 [OF a] at16 [OF b] assms(2,3) leD [OF le_diff_conv2 [THEN iffD2], of 4 remaining "length d"]
    by (subst parse_client_hello_extensions.simps) (simp add: enc_ext_length unat_of_nat_u16 add.assoc del: add_2_eq_Suc')
qed

abbreviation ext_entry :: "u16 \<times> bytes \<Rightarrow> tls_extension" where
  "ext_entry e \<equiv> \<lparr>ext_type = fst e, ext_length = of_nat (length (snd e))\<rparr>"

definition plain_ext :: "u16 \<times> bytes \<Rightarrow> bool" where
  "plain_ext e \<longleftrightarrow> fst e \<noteq> 0 \<and> fst e \<noteq> 16 \<and> length (snd e) < 65536"

lemma plain_exts_parsed:
  assumes "drop p data = concat (map enc_ext exts) @ rest" "list_all plain_ext exts"
    and "length (ch_extensions ch) + length exts \<le> 32"
  shows "parse_client_hello_extensions env data p (length (concat (map enc_ext exts))) ch n =
    Some (ch\<lparr>ch_extensions := ch_extensions ch @ map ext_entry exts\<rparr>, n)"
  using assms
proof (induction exts arbitrary: p ch)
  case Nil
  then show ?case
    by (subst parse_client_hello_extensions.simps) simp
next
  case (Cons e exts)
  obtain t d where e: "e = (t, d)"
    by force
  let ?r = "length (concat (map enc_ext (e # exts)))"
  have a: "drop p data = enc_ext (t, d) @ concat (map enc_ext exts) @ rest"
    using Cons.prems(1) e by simp
  have l: "length d < 65536" "4 + length d \<le> ?r"
    using Cons.prems(2) e by (simp_all add: plain_ext_def enc_ext_length)
  have s: "store_client_extension env data (p + 4) t (of_nat (length d)) ch n = Some (ch\<lparr>ch_extensions := ch_extensions ch @ [ext_entry e]\<rparr>, n)"
    using Cons.prems(2,3) e by (simp add: store_client_extension_def plain_ext_def TLS_MAX_EXTENSIONS_def)
  have r: "?r - length (enc_ext (t, d)) = length (concat (map enc_ext exts))"
    using e by simp
  show ?case
    unfolding ext_step(1) [OF a l] using Cons.IH [OF ext_step(3) [OF a l], of "ch\<lparr>ch_extensions := ch_extensions ch @ [ext_entry e]\<rparr>"]
      Cons.prems(2,3) s r by simp
qed

lemma sni_stored:
  assumes d: "drop p data = sni_body name @ rest" "p \<le> length data" and l: "name \<noteq> []" "length name < 256"
    and m: "malloc_ok env n" and e: "length (ch_extensions ch) < 32"
  shows "store_client_extension env data p 0 (of_nat (length (sni_body name))) ch n =
    Some (ch\<lparr>ch_sni := Some name, ch_extensions := ch_extensions ch @ [ext_entry (0, sni_body name)]\<rparr>, n + 1)"
proof -
  let ?k = "length name"
  have a: "drop p data = enc16 (of_nat (?k + 3)) @ 0 # enc16 (of_nat ?k) @ name @ rest"
    using d by (simp add: sni_body_def)
  have b: "drop (p + 2) data = 0 # enc16 (of_nat ?k) @ name @ rest"
    by (rule at_next [OF a]) simp
  have c: "drop (p + 2 + 1) data = enc16 (of_nat ?k) @ name @ rest"
    by (rule at_next1 [OF b]) simp
  have f: "drop (p + 2 + 3) data = name @ rest"
    by (rule at_next [OF c]) simp
  have pl: "p + 2 + 3 \<le> length data"
    using at_length [OF f l(1)] by simp
  have u: "unat (of_nat (?k + 3) :: u16) = ?k + 3" "unat (of_nat ?k :: u16) = ?k" "unat (of_nat (?k + 5) :: u16) = ?k + 5"
    using l by (auto intro!: unat_of_nat_u16 simp del: of_nat_add)
  have w: "0 < (of_nat ?k :: u16)" "(of_nat ?k :: u16) < 256"
    using l u by (simp_all add: word_less_nat_alt)
  have s: "sni_loop data (p + 2) (?k + 3) = Some (Some name)"
    using at8 [OF b] at16 [OF c] u w at_slice [OF f pl]
    by (subst sni_loop.simps) (simp del: rd8_eq_Some One_nat_def add_2_eq_Suc')
  have "length (sni_body name) = ?k + 5"
    by (simp add: sni_body_def)
  moreover have "parse_sni_extension env data p (?k + 5) ch n = Some (ch\<lparr>ch_sni := Some name\<rparr>, n + 1)"
    using at16 [OF a] u s m by (simp add: parse_sni_extension_def)
  ultimately show ?thesis
    using e u by (simp add: store_client_extension_def TLS_MAX_EXTENSIONS_def)
qed

text \<open>The parameters of a hello message that the parser can store completely.\<close>

definition hello_wf :: "bytes \<Rightarrow> bytes \<Rightarrow> u16 list \<Rightarrow> bytes \<Rightarrow> bytes option \<Rightarrow> (u16 \<times> bytes) list \<Rightarrow> bool" where
  "hello_wf rnd sid suites comps sni exts \<longleftrightarrow> length rnd = 32 \<and> length sid \<le> 32 \<and> length suites \<le> 128 \<and>
     length comps \<le> 16 \<and> (case sni of None \<Rightarrow> True | Some name \<Rightarrow> name \<noteq> [] \<and> length name < 256) \<and> list_all plain_ext exts \<and>
     length exts < 32 \<and> length (concat (map enc_ext (hello_exts sni exts))) < 65536"

lemma hello_exts_parsed:
  assumes d: "drop p data = concat (map enc_ext (hello_exts sni exts)) @ rest" "p \<le> length data"
    and w: "hello_wf rnd sid suites comps sni exts" and m: "\<forall>k. malloc_ok env k" and e: "ch_extensions ch = []" "ch_sni ch = None"
  shows "\<exists>n'. parse_client_hello_extensions env data p (length (concat (map enc_ext (hello_exts sni exts)))) ch n =
    Some (ch\<lparr>ch_sni := sni, ch_extensions := map ext_entry (hello_exts sni exts)\<rparr>, n')"
proof (cases sni)
  case None
  then show ?thesis
    using d w e plain_exts_parsed [of p data exts rest ch env n] by (simp add: hello_exts_def hello_wf_def)
next
  case (Some name)
  let ?r = "length (concat (map enc_ext (hello_exts sni exts)))"
  let ?ch = "ch\<lparr>ch_sni := Some name, ch_extensions := [ext_entry (0, sni_body name)]\<rparr>"
  have nm: "name \<noteq> []" "length name < 256"
    using w Some by (auto simp: hello_wf_def)
  have a: "drop p data = enc_ext (0, sni_body name) @ concat (map enc_ext exts) @ rest"
    using d Some by (simp add: hello_exts_def)
  have l: "length (sni_body name) < 65536" "4 + length (sni_body name) \<le> ?r"
    using nm Some by (simp_all add: sni_body_def hello_exts_def enc_ext_length)
  note st = ext_step [OF a l]
  have "p + 4 \<le> length data"
    using at_length [OF a] enc_ext_length [of "(0, sni_body name)"] by force
  then have s: "store_client_extension env data (p + 4) 0 (of_nat (length (sni_body name))) ch n = Some (?ch, n + 1)"
    using sni_stored [OF st(2)] nm m e by simp
  have r: "?r - length (enc_ext (0, sni_body name)) = length (concat (map enc_ext exts))"
    using Some by (simp add: hello_exts_def)
  have x: "list_all plain_ext exts" "length (ch_extensions ?ch) + length exts \<le> 32"
    using w by (simp_all add: hello_wf_def)
  show ?thesis
    unfolding st(1) using plain_exts_parsed [OF st(3) x, of env "n + 1"] Some s r
    by (simp add: hello_exts_def)
qed

lemma hello_head_parsed:
  assumes d: "drop p data = client_hello_bytes ver rnd sid suites comps exts @ rest"
    and w: "length rnd = 32" "length sid \<le> 32" "length suites \<le> 128" "length comps \<le> 16"
    and len: "len = length (client_hello_bytes ver rnd sid suites comps exts)"
  shows "\<exists>q. client_hello_head data p len = Some (Some (client_hello_zero\<lparr>ch_version := ver, ch_random := rnd,
      ch_session_id := sid, ch_cipher_suites := suites, ch_compression_methods := comps\<rparr>, q)) \<and>
    q + 2 + length (concat (map enc_ext exts)) = len \<and>
    drop (p + q) data = enc16 (of_nat (length (concat (map enc_ext exts)))) @ concat (map enc_ext exts) @ rest"
proof -
  let ?e = "concat (map enc_ext exts)" and ?cs = "concat (map enc16 suites)"
  let ?q1 = "35 + length sid" and ?k = "2 * length suites"
  let ?q2 = "?q1 + 2 + ?k"
  have d0: "drop p data = enc16 ver @ rnd @ of_nat (length sid) # sid @ enc16 (of_nat ?k) @ ?cs @
      of_nat (length comps) # comps @ enc16 (of_nat (length ?e)) @ ?e @ rest"
    using d by (simp add: client_hello_bytes_def Let_def)
  have d1: "drop (p + 2) data = rnd @ of_nat (length sid) # sid @ enc16 (of_nat ?k) @ ?cs @
      of_nat (length comps) # comps @ enc16 (of_nat (length ?e)) @ ?e @ rest"
    by (rule at_next [OF d0]) simp
  have d2: "drop (p + 34) data = of_nat (length sid) # sid @ enc16 (of_nat ?k) @ ?cs @
      of_nat (length comps) # comps @ enc16 (of_nat (length ?e)) @ ?e @ rest"
    by (rule at_next [OF d1]) (simp add: w)
  have d3: "drop (p + 35) data = sid @ enc16 (of_nat ?k) @ ?cs @
      of_nat (length comps) # comps @ enc16 (of_nat (length ?e)) @ ?e @ rest"
    by (rule at_next1 [OF d2]) simp
  have d4: "drop (p + ?q1) data = enc16 (of_nat ?k) @ ?cs @
      of_nat (length comps) # comps @ enc16 (of_nat (length ?e)) @ ?e @ rest"
    by (rule at_next [OF d3]) simp
  have d5: "drop (p + ?q1 + 2) data = ?cs @ of_nat (length comps) # comps @ enc16 (of_nat (length ?e)) @ ?e @ rest"
    by (rule at_next [OF d4]) simp
  have d6: "drop (p + ?q2) data = of_nat (length comps) # comps @ enc16 (of_nat (length ?e)) @ ?e @ rest"
    by (rule at_next [OF d5]) simp
  have d7: "drop (p + ?q2 + 1) data = comps @ enc16 (of_nat (length ?e)) @ ?e @ rest"
    by (rule at_next1 [OF d6]) simp
  have d8: "drop (p + (?q2 + 1 + length comps)) data = enc16 (of_nat (length ?e)) @ ?e @ rest"
    by (rule at_next [OF d7]) simp
  have le: "len = ?q2 + 1 + length comps + 2 + length ?e"
    by (simp add: len client_hello_bytes_def Let_def w)
  have bound: "p + len \<le> length data"
    using at_length [OF d] by (simp add: len client_hello_bytes_def Let_def enc16_def)
  have s0: "rd_slice data (p + 2) 32 = Some rnd" "rd_slice data (p + 35) (length sid) = Some sid"
      "rd_slice data (p + ?q2 + 1) (length comps) = Some comps"
    using at_slice [OF d1] at_slice [OF d3] at_slice [OF d7] w bound le by auto
  have u: "unat (of_nat (length sid) :: u8) = length sid" "unat (of_nat (length comps) :: u8) = length comps"
      "\<not> 32 < (of_nat (length sid) :: u8)"
    using w by (simp_all add: unat_of_nat word_less_nat_alt)
  have uk: "unat (of_nat ?k :: u16) = ?k"
    using w by (intro unat_of_nat_u16) simp
  have mins: "min (?k div 2) TLS_MAX_CIPHER_SUITES = length suites" "min (length comps) 16 = length comps" "?k mod 2 = 0"
    using w by (simp_all add: TLS_MAX_CIPHER_SUITES_def)
  have "client_hello_head data p len = Some (Some (client_hello_zero\<lparr>ch_version := ver, ch_random := rnd,
      ch_session_id := sid, ch_cipher_suites := suites, ch_compression_methods := comps\<rparr>, ?q2 + 1 + length comps))"
    unfolding client_hello_head_def Let_def
    by (simp only: at16 [OF d0] at8 [OF d2] at16 [OF d4] at8 [OF d6] at_suites [OF d5] s0 u uk mins le Option.bind_lunit if_False simp_thms)
       simp
  then show ?thesis
    using d8 le by (intro exI [of _ "?q2 + 1 + length comps"]) simp
qed

text \<open>What the parser stores for such a message, and the connection afterwards.\<close>

definition parsed_hello ::
  "(bytes \<Rightarrow> bytes) \<Rightarrow> nat \<Rightarrow> u16 \<Rightarrow> bytes \<Rightarrow> bytes \<Rightarrow> u16 list \<Rightarrow> bytes \<Rightarrow> bytes option \<Rightarrow> (u16 \<times> bytes) list \<Rightarrow> tls_client_hello" where
  "parsed_hello md5 cap ver rnd sid suites comps sni exts =
    (let ja3 = take (cap - 1) (ja3_text ver suites (map fst (hello_exts sni exts))) in
     \<lparr>ch_version = ver, ch_random = rnd, ch_session_id = sid, ch_cipher_suites = suites, ch_compression_methods = comps,
      ch_extensions = map ext_entry (hello_exts sni exts), ch_sni = sni, ch_alpn = None, ch_ja3_string = ja3,
      ch_ja3_hash = md5 ja3\<rparr>)"

definition hello_conn :: "tls_conn \<Rightarrow> tls_client_hello \<Rightarrow> tls_conn" where
  "hello_conn conn ch = conn\<lparr>tc_client_hello := Some ch, tc_client_hello_seen := True,
     tc_records_parsed := tc_records_parsed conn + 1, tc_handshakes_parsed := tc_handshakes_parsed conn + 1\<rparr>"

lemma client_hello_message_parsed:
  assumes d: "drop p data = client_hello_bytes ver rnd sid suites comps (hello_exts sni exts) @ rest"
    and w: "hello_wf rnd sid suites comps sni exts" and m: "\<forall>k. malloc_ok env k" and cap: "0 < cap"
  defines "ja3 \<equiv> ja3_text ver suites (map fst (hello_exts sni exts))"
  shows "\<exists>n'. parse_client_hello md5 cap env conn data p
      (length (client_hello_bytes ver rnd sid suites comps (hello_exts sni exts))) n =
    (if length ja3 \<le> cap + 1
     then Some (conn\<lparr>tc_client_hello := Some (parsed_hello md5 cap ver rnd sid suites comps sni exts), tc_client_hello_seen := True\<rparr>, n')
     else None)"
proof -
  let ?len = "length (client_hello_bytes ver rnd sid suites comps (hello_exts sni exts))"
  let ?es = "hello_exts sni exts"
  let ?e = "concat (map enc_ext ?es)"
  let ?ch = "client_hello_zero\<lparr>ch_version := ver, ch_random := rnd, ch_session_id := sid, ch_cipher_suites := suites,
      ch_compression_methods := comps\<rparr>"
  let ?ch1 = "?ch\<lparr>ch_sni := sni, ch_extensions := map ext_entry ?es\<rparr>"
  have len: "38 \<le> ?len"
    using w by (simp add: client_hello_bytes_def Let_def hello_wf_def)
  obtain q where h: "client_hello_head data p ?len = Some (Some (?ch, q))" and q: "q + 2 + length ?e = ?len"
      and dq: "drop (p + q) data = enc16 (of_nat (length ?e)) @ ?e @ rest"
    using hello_head_parsed [OF d _ _ _ _ refl] w by (auto simp: hello_wf_def)
  have u: "unat (of_nat (length ?e) :: u16) = length ?e"
    using w by (intro unat_of_nat_u16) (simp add: hello_wf_def)
  have "drop (p + q + 2) data = ?e @ rest" "p + q + 2 \<le> length data"
    using at_next [OF dq, of "p + q + 2"] at_length [OF dq] by (simp_all add: enc16_def)
  then obtain n' where x: "parse_client_hello_extensions env data (p + q + 2) (length ?e) ?ch (n + 1) = Some (?ch1, n')"
    using hello_exts_parsed [OF _ _ w m, of "p + q + 2" data rest ?ch "n + 1"] by (auto simp: client_hello_zero_def)
  have t: "client_hello_tail env data p ?len q ?ch (n + 1) = Some (?ch1, n')"
    using q x u by (simp only: client_hello_tail_def at16 [OF dq] Option.bind_lunit) simp
  have j: "build_ja3_string cap ?ch1 = (if length ja3 \<le> cap + 1 then Some (take (cap - 1) ja3) else None)"
    unfolding build_ja3_spec [OF cap] by (simp add: ja3_def Let_def comp_def)
  show ?thesis
    using len m h t j
    by (intro exI [of _ n']) (simp add: parse_client_hello_def parsed_hello_def ja3_def [symmetric] client_hello_zero_def Let_def)
qed

lemma client_hello_record_parsed:
  assumes w: "hello_wf rnd sid suites comps sni exts" and m: "\<forall>k. malloc_ok env k"
    and b: "body = client_hello_bytes ver rnd sid suites comps (hello_exts sni exts)" "length body + 4 \<le> 16384"
    and cap: "0 < cap"
  defines "ja3 \<equiv> ja3_text ver suites (map fst (hello_exts sni exts))"
  shows "\<exists>n'. parse_tls_record md5 cap env conn (tls_frame body) 0 (length (tls_frame body)) dir n =
    (if length ja3 \<le> cap + 1
     then Some (int (length (tls_frame body)), hello_conn conn (parsed_hello md5 cap ver rnd sid suites comps sni exts), n')
     else None)"
proof -
  let ?data = "tls_frame body" and ?k = "length body + 4"
  let ?c = "conn\<lparr>tc_records_parsed := tc_records_parsed conn + 1, tc_handshakes_parsed := tc_handshakes_parsed conn + 1\<rparr>"
  have d0: "drop 0 ?data = 22 # 3 # 1 # enc16 (of_nat ?k) @ 1 # enc24 (length body) @ body"
    by (simp add: tls_frame_def)
  have d1: "drop 1 ?data = enc16 (be16 3 1) @ enc16 (of_nat ?k) @ 1 # enc24 (length body) @ body"
    by (simp add: tls_frame_def enc16_def be16_def)
  have d3: "drop 3 ?data = enc16 (of_nat ?k) @ 1 # enc24 (length body) @ body"
    by (simp add: tls_frame_def)
  have d5: "drop 5 ?data = 1 # enc24 (length body) @ body"
    by (rule at_next [OF d3]) simp
  have d6: "drop 6 ?data = enc24 (length body) @ body"
    by (rule at_next1 [OF d5]) simp
  have d9: "drop 9 ?data = body @ []"
    using at_next [OF d6, of 9] by (simp add: enc24_def)
  have len: "length ?data = ?k + 5"
    by (simp add: tls_frame_def enc24_def)
  have u: "unat (of_nat ?k :: u16) = ?k"
    using b(2) by (intro unat_of_nat_u16) simp
  have le: "\<not> 16384 < (of_nat ?k :: u16)"
    using u b(2) by (simp add: word_less_nat_alt)
  obtain n' where h: "parse_client_hello md5 cap env ?c ?data 9 (length body) n =
      (if length ja3 \<le> cap + 1
       then Some (?c\<lparr>tc_client_hello := Some (parsed_hello md5 cap ver rnd sid suites comps sni exts), tc_client_hello_seen := True\<rparr>, n')
       else None)"
    using client_hello_message_parsed [OF d9 [unfolded b(1)] w m cap, of md5 ?c n] unfolding ja3_def b(1) by blast
  have hs: "parse_handshake md5 cap env (conn\<lparr>tc_records_parsed := tc_records_parsed conn + 1\<rparr>) ?data 5 ?k dir n =
      parse_client_hello md5 cap env ?c ?data 9 (length body) n"
    using at8 [OF d5] at24 [OF d6] b(2) by (simp add: parse_handshake_def Let_def del: rd8_eq_Some)
  have "parse_tls_record md5 cap env conn ?data 0 (?k + 5) dir n = do {
      (c2, n2) \<leftarrow> parse_client_hello md5 cap env ?c ?data 9 (length body) n; Some (int ?k + 5, c2, n2) }"
    using at8 [OF d0] at16 [OF d1] at16 [OF d3] u le hs [symmetric] by (simp add: parse_tls_record_def Let_def del: rd8_eq_Some of_nat_add)
  then show ?thesis
    unfolding len h by (intro exI [of _ n']) (simp add: hello_conn_def)
qed

section \<open>Properties\<close>



text \<open>C38: \<^verbatim>\<open>build_ja3_string\<close> prints the version, the suites and the extension types in the documented form and cuts
  the text to 511 characters; it writes outside its buffer exactly when the text is longer than 513 characters.
  128 suites of four digits are enough for that.\<close>

theorem ja3_string_spec:
  "build_ja3_string TLS_MAX_JA3_STR ch =
    (let tx = ja3_text (ch_version ch) (ch_cipher_suites ch) (map ext_type (ch_extensions ch)) in
     if length tx \<le> 513 then Some (take 511 tx) else None) \<and>
   build_ja3_string TLS_MAX_JA3_STR (client_hello_zero\<lparr>ch_cipher_suites := replicate 128 0x1301\<rparr>) = None"
proof -
  have "dec_digits (unat (0x1301 :: u16)) = [52, 56, 54, 53]"
    by (simp add: dec_digits.simps)
  then have "length (dash_list (replicate (Suc k) 0x1301)) = 5 * k + 4" for k
  proof (induction k)
    case (Suc k)
    then show ?case
      by (cases k) simp_all
  qed simp
  from this [of 127] have "513 < length (ja3_text 0 (replicate 128 0x1301) [])"
    by (simp add: ja3_text_def)
  then show ?thesis
    by (simp add: build_ja3_spec TLS_MAX_JA3_STR_def client_hello_zero_def Let_def)
qed

text \<open>C39: Fed any chunks of at most 167 bytes, each followed by 32 more readable bytes, and whatever allocations fail,
  the parser reads and writes only inside its buffers and a connection that has seen a client hello stores a
  well-formed one.\<close>

theorem tls_runs_safely:
  assumes "tls_inv (fst s)" "\<forall>x \<in> set xs. tls_legal x s0"
  shows "\<exists>s'. run_ops (tls_step md5 env) xs s = Some s' \<and> tls_inv (fst s')"
proof -
  have "tls_legal x s1" if "x \<in> set xs" for x s1
    using assms(2) that by (cases x) fastforce
  then show ?thesis
    using tls.run_safe [OF assms(1)] legal_run_always by metis
qed

theorem tls_runs_safely_witness:
  "\<exists>s'. run_ops (tls_step (\<lambda>s. []) \<lparr>malloc_ok = \<lambda>k. k < 1, malloc_junk = \<lambda>_ _. 0\<rparr>)
     [TlsData (replicate 60 22) 20 0, TlsData ([22, 3, 1, 0, 4, 14, 0, 0, 0] @ replicate 32 0) 9 1] (tls_conn_zero, 0) = Some s' \<and>
   tls_inv (fst s')"
  using tls_runs_safely [of "(tls_conn_zero, 0)"
      "[TlsData (replicate 60 22) 20 0, TlsData ([22, 3, 1, 0, 4, 14, 0, 0, 0] @ replicate 32 0) 9 1]" "(tls_conn_zero, 0)"]
  by (simp add: tls_inv_def tls_conn_zero_def)

definition short_hello :: bytes where
  "short_hello = [22, 3, 1, 0, 42, 1, 0, 0, 38, 3, 3] @ replicate 32 7 @ [32, 0, 0, 0]"

text \<open>A record whose client hello declares a session identifier of 32 bytes but ends before it makes the parser
  read after the captured bytes, although every declared record and message length is consistent.\<close>

theorem tls_session_id_overread:
  "length short_hello = 47 \<and>
   tls_parser_parse md5 \<lparr>malloc_ok = \<lambda>_. True, malloc_junk = \<lambda>_ _. 0\<rparr> (Some tls_conn_zero) (Some short_hello) 47 0 0 = None"
proof -
  let ?env = "\<lparr>malloc_ok = \<lambda>_. True, malloc_junk = \<lambda>_ _. 0\<rparr>"
  have l: "length short_hello = 47"
    by (simp add: short_hello_def)
  have s: "short_hello = [22, 3, 1, 0, 42, 1, 0, 0, 38, 3, 3, 7,7,7,7,7,7,7,7,7,7,7,7,7,7,7,7,7,7,7,7,7,7,7,7,7,7,7,7,7,7,7,7, 32, 0, 0, 0]"
    by (simp add: short_hello_def numeral_eq_Suc)
  have sid: "rd_slice short_hello 44 32 = None"
    by (simp add: rd_slice_def l)
  have "client_hello_head short_hello 9 38 = None"
    using sid by (simp add: client_hello_head_def rd_be16_def rd_slice_def rd8_def s Let_def)
  then have "parse_tls_record md5 512 ?env tls_conn_zero short_hello 0 47 0 0 = None"
    by (simp add: parse_tls_record_def parse_handshake_def parse_client_hello_def rd_be16_def rd_be24_def rd8_def s be16_def Let_def)
  then show ?thesis
    by (simp add: l tls_parser_parse_def tls_parser_parse_with_def TLS_MAX_JA3_STR_def tls_records_loop.simps [of _ _ _ _ _ 0])
qed
end
