(* ===== verification/Scheduler.thy ===== *)
theory Scheduler
  imports Intrusive_List Tls_Parser
begin

text \<open>
  The job scheduler of \<^verbatim>\<open>scheduler.c\<close>, the helpers of \<^verbatim>\<open>common.c\<close> and \<^verbatim>\<open>global_data.c\<close>. Jobs are chained through
  intrusive lists, one list for every role of a core and type of job; a job is known by the address of its list node. The
  endless loop of a core is run for a number of iterations, and its effect is the sequence of jobs it calls.
\<close>

section \<open>Roles and jobs\<close>

definition LCORE_ROLE_IDLE :: nat where "LCORE_ROLE_IDLE = 0"
definition LCORE_ROLE_MASTER :: nat where "LCORE_ROLE_MASTER = 1"
definition LCORE_ROLE_FWD_WORKER :: nat where "LCORE_ROLE_FWD_WORKER = 2"
definition LCORE_ROLE_ISOLRX_WORKER :: nat where "LCORE_ROLE_ISOLRX_WORKER = 3"
definition LCORE_ROLE_KNI_WORKER :: nat where "LCORE_ROLE_KNI_WORKER = 4"
definition LCORE_ROLE_MAX :: nat where "LCORE_ROLE_MAX = 5"

lemmas role_defs = LCORE_ROLE_IDLE_def LCORE_ROLE_MASTER_def LCORE_ROLE_FWD_WORKER_def LCORE_ROLE_ISOLRX_WORKER_def
  LCORE_ROLE_KNI_WORKER_def LCORE_ROLE_MAX_def

definition LCORE_JOB_INIT :: nat where "LCORE_JOB_INIT = 0"
definition LCORE_JOB_LOOP :: nat where "LCORE_JOB_LOOP = 1"
definition LCORE_JOB_SLOW :: nat where "LCORE_JOB_SLOW = 2"
definition LCORE_JOB_TYPE_MAX :: nat where "LCORE_JOB_TYPE_MAX = 3"

lemmas job_type_defs = LCORE_JOB_INIT_def LCORE_JOB_LOOP_def LCORE_JOB_SLOW_def LCORE_JOB_TYPE_MAX_def

definition ENDF_OK :: int where "ENDF_OK = 0"
definition ENDF_INVAL :: int where "ENDF_INVAL = -1"
definition ENDF_EXIST :: int where "ENDF_EXIST = -3"
definition ENDF_NOTEXIST :: int where "ENDF_NOTEXIST = -4"
definition ENDF_IDLE :: int where "ENDF_IDLE = -12"

lemmas endf_defs = ENDF_OK_def ENDF_INVAL_def ENDF_EXIST_def ENDF_NOTEXIST_def ENDF_IDLE_def

record lcore_job =
  job_name :: bytes
  job_func :: "nat option"
  job_type :: nat
  skip_loops :: u32

text \<open>The heads of \<^verbatim>\<open>ndf_lcore_jobs\<close> lie at the first addresses.\<close>

record scheduler =
  job_heap :: list_heap
  jobs :: "nat \<rightharpoonup> lcore_job"

definition job_head :: "nat \<Rightarrow> nat \<Rightarrow> nat" where
  "job_head role t = role * LCORE_JOB_TYPE_MAX + t"

fun init_heads :: "nat list \<Rightarrow> list_heap \<Rightarrow> list_heap option" where
  "init_heads [] h = Some h"
| "init_heads (a # as) h = Option.bind (INIT_LIST_HEAD a h) (init_heads as)"

definition ndf_scheduler_init :: "scheduler \<Rightarrow> (int \<times> scheduler) option" where
  "ndf_scheduler_init s = do {
     h \<leftarrow> init_heads [job_head ii jj. ii \<leftarrow> [0..<LCORE_ROLE_MAX], jj \<leftarrow> [0..<LCORE_JOB_TYPE_MAX]] (job_heap s);
     Some (ENDF_OK, s\<lparr>job_heap := h\<rparr>) }"

text \<open>\<^verbatim>\<open>snprintf\<close> gets one byte less than the size of the name.\<close>

definition ndf_lcore_job_init :: "lcore_job \<Rightarrow> bytes \<Rightarrow> nat \<Rightarrow> nat option \<Rightarrow> u32 \<Rightarrow> lcore_job" where
  "ndf_lcore_job_init job name t func skip =
    job\<lparr>job_type := t, job_func := func, skip_loops := skip, job_name := take 30 (c_str name)\<rparr>"

text \<open>The search of \<^verbatim>\<open>list_for_each_entry\<close>, which stops at the job.\<close>

partial_function (option) job_search :: "(nat \<rightharpoonup> nat) \<Rightarrow> nat \<Rightarrow> nat \<Rightarrow> nat \<Rightarrow> bool option" where
  "job_search f head job a = (if a = head then Some False else if a = job then Some True else do { b \<leftarrow> f a; job_search f head job b })"

definition job_listed :: "nat \<Rightarrow> nat \<Rightarrow> list_heap \<Rightarrow> bool option" where
  "job_listed head job h = do { a \<leftarrow> nx h head; job_search (nx h) head job a }"

definition ndf_lcore_job_register :: "nat option \<Rightarrow> nat \<Rightarrow> scheduler \<Rightarrow> (int \<times> scheduler) option" where
  "ndf_lcore_job_register jobp role s = (case jobp of
     None \<Rightarrow> Some (ENDF_INVAL, s)
   | Some a \<Rightarrow>
      if LCORE_ROLE_MAX \<le> role then Some (ENDF_INVAL, s)
      else do {
        j \<leftarrow> jobs s a;
        if job_type j = LCORE_JOB_SLOW \<and> skip_loops j = 0 then Some (ENDF_INVAL, s)
        else if LCORE_JOB_TYPE_MAX \<le> job_type j then None
        else do {
          found \<leftarrow> job_listed (job_head role (job_type j)) a (job_heap s);
          if found then Some (ENDF_EXIST, s)
          else do {
            h \<leftarrow> list_add_tail a (job_head role (job_type j)) (job_heap s);
            Some (ENDF_OK, s\<lparr>job_heap := h\<rparr>) } } })"

definition ndf_lcore_job_unregister :: "nat option \<Rightarrow> nat \<Rightarrow> scheduler \<Rightarrow> (int \<times> scheduler) option" where
  "ndf_lcore_job_unregister jobp role s = (case jobp of
     None \<Rightarrow> Some (ENDF_INVAL, s)
   | Some a \<Rightarrow>
      if LCORE_ROLE_MAX \<le> role then Some (ENDF_INVAL, s)
      else do {
        j \<leftarrow> jobs s a;
        if LCORE_JOB_TYPE_MAX \<le> job_type j then None
        else do {
          found \<leftarrow> job_listed (job_head role (job_type j)) a (job_heap s);
          if found then do {
            h \<leftarrow> list_del_init a (job_heap s);
            Some (ENDF_OK, s\<lparr>job_heap := h\<rparr>) }
          else Some (ENDF_NOTEXIST, s) } })"

definition ndf_lcore_role_str :: "nat \<Rightarrow> bytes" where
  "ndf_lcore_role_str role =
    (if role = LCORE_ROLE_IDLE then str ''lcre_role_idle''
     else if role = LCORE_ROLE_MASTER then str ''lcre_role_master''
     else if role = LCORE_ROLE_FWD_WORKER then str ''lcre_role_fwd_worker''
     else if role = LCORE_ROLE_ISOLRX_WORKER then str ''lcre_role_isolrx_worker''
     else if role = LCORE_ROLE_KNI_WORKER then str ''lcore_role_kni_worker''
     else if role = LCORE_ROLE_MAX then str ''lcre_role_null''
     else str ''lcore_role_unknown'')"

section \<open>The loop of a core\<close>

text \<open>The callback of a job, if it has one; the calls are a sequence of jobs.\<close>

definition do_lcore_job :: "scheduler \<Rightarrow> nat \<Rightarrow> nat list option" where
  "do_lcore_job s a = do { j \<leftarrow> jobs s a; Some (if job_func j = None then [] else [a]) }"

fun do_jobs :: "scheduler \<Rightarrow> nat list \<Rightarrow> nat list option" where
  "do_jobs s [] = Some []"
| "do_jobs s (a # as) = do { c \<leftarrow> do_lcore_job s a; r \<leftarrow> do_jobs s as; Some (c @ r) }"

fun do_slow_jobs :: "scheduler \<Rightarrow> u32 \<Rightarrow> nat list \<Rightarrow> nat list option" where
  "do_slow_jobs s tick [] = Some []"
| "do_slow_jobs s tick (a # as) = do {
     j \<leftarrow> jobs s a;
     if skip_loops j = 0 then None
     else do {
       c \<leftarrow> (if tick mod skip_loops j = 0 then do_lcore_job s a else Some []);
       r \<leftarrow> do_slow_jobs s tick as;
       Some (c @ r) } }"

definition poll_once :: "scheduler \<Rightarrow> nat \<Rightarrow> u32 \<Rightarrow> nat list option" where
  "poll_once s role tick = do {
     ls \<leftarrow> list_for_each (job_head role LCORE_JOB_LOOP) (job_heap s);
     c1 \<leftarrow> do_jobs s ls;
     ss \<leftarrow> list_for_each (job_head role LCORE_JOB_SLOW) (job_heap s);
     c2 \<leftarrow> do_slow_jobs s tick ss;
     Some (c1 @ c2) }"

fun poll_loop :: "nat \<Rightarrow> scheduler \<Rightarrow> nat \<Rightarrow> u32 \<Rightarrow> nat list option" where
  "poll_loop 0 s role tick = Some []"
| "poll_loop (Suc k) s role tick = do { c \<leftarrow> poll_once s role (tick + 1); r \<leftarrow> poll_loop k s role (tick + 1); Some (c @ r) }"

text \<open>\<open>roles\<close> is \<^verbatim>\<open>g_lcore_role\<close>, which is read before the number of the core is tested; its values are roles. \<open>k\<close> iterations of the loop.\<close>

definition ndf_job_loop :: "nat list \<Rightarrow> nat \<Rightarrow> nat \<Rightarrow> scheduler \<Rightarrow> u32 \<Rightarrow> (int + nat list) option" where
  "ndf_job_loop roles cid k s tick =
    (if length roles \<le> cid \<or> LCORE_ROLE_MAX < roles ! cid then None
     else if roles ! cid = LCORE_ROLE_MAX then Some (Inl ENDF_INVAL)
     else if roles ! cid = LCORE_ROLE_IDLE then Some (Inl ENDF_IDLE)
     else do {
       is \<leftarrow> list_for_each (job_head (roles ! cid) LCORE_JOB_INIT) (job_heap s);
       c0 \<leftarrow> do_jobs s is;
       c \<leftarrow> poll_loop k s (roles ! cid) tick;
       Some (Inr (c0 @ c)) })"

section \<open>Common helpers\<close>

text \<open>The messages of \<^verbatim>\<open>ndf_strerror\<close>.\<close>

definition err_tab :: "(int \<times> bytes) list" where
  "err_tab = [(0, str ''OK''), (-1, str ''invalid parameter''), (-2, str ''no memory''), (-3, str ''already exist''),
     (-4, str ''not exist''), (-5, str ''invalid packet''), (-6, str ''packet dropped''), (-7, str ''no protocol''),
     (-8, str ''no route''), (-9, str ''defragment error''), (-10, str ''fragment error''), (-11, str ''failed dpdk api''),
     (-12, str ''nothing to do''), (-13, str ''resource busy''), (-14, str ''not support''), (-15, str ''no resource''),
     (-16, str ''overloaded''), (-17, str ''no service''), (-18, str ''disabled''), (-19, str ''no room''),
     (-20, str ''non-EAL thread lcore''), (-21, str ''callback failed''), (-22, str ''I/O error''), (-23, str ''msg callback failed''),
     (-24, str ''msg dropped''), (-25, str ''stolen packet''), (-26, str ''system call failed''), (-27, str ''no such device''),
     (1, str ''kni to continue''), (2, str ''in progress'')]"

definition ndf_strerror :: "int \<Rightarrow> bytes" where
  "ndf_strerror err = (case find (\<lambda>e. fst e = err) err_tab of Some e \<Rightarrow> snd e | None \<Rightarrow> str ''<unknow>'')"

text \<open>\<^verbatim>\<open>numa_available\<close> and \<^verbatim>\<open>numa_max_node\<close> are arguments.\<close>

definition get_numa_nodes :: "int \<Rightarrow> int \<Rightarrow> int" where
  "get_numa_nodes available max_node = (if available < 0 then 0 else max_node) + 1"

text \<open>The loop of \<^verbatim>\<open>is_power2\<close> from \<open>i\<close>: whether all tested bits are clear, and the final \<open>i\<close>.\<close>

function power2_loop :: "nat \<Rightarrow> nat \<Rightarrow> bool \<Rightarrow> bool \<times> nat" where
  "power2_loop onum i ret = (if 1 < onum div 2 ^ i then power2_loop onum (i + 1) (ret \<and> (onum div 2 ^ i) mod 2 = 0) else (ret, i))"
  by pat_completeness auto

termination power2_loop
proof (relation "measure (\<lambda>(onum, i, ret). onum div 2 ^ i)", simp, clarsimp)
  fix onum i :: nat
  assume "Suc 0 < onum div 2 ^ i"
  then have "(onum div 2 ^ i) div 2 < onum div 2 ^ i"
    by simp
  then show "onum div (2 * 2 ^ i) < onum div 2 ^ i"
    by (metis div_mult2_eq mult.commute)
qed

declare power2_loop.simps [simp del]

text \<open>The second component is the value stored in \<^verbatim>\<open>lower\<close>. The sum must not overflow.\<close>

definition is_power2 :: "int \<Rightarrow> int \<Rightarrow> (bool \<times> int) option" where
  "is_power2 num offset =
    (if num + offset < - (2 ^ 31) \<or> 2 ^ 31 \<le> num + offset then None
     else if num < 2 \<or> num + offset < 2 then Some (False, num)
     else (let (ret, i) = power2_loop (nat (num + offset)) 1 True in Some (ret, 2 ^ i)))"

text \<open>\<^verbatim>\<open>atoi\<close>: white space, a sign and digits. The result is undefined when it is out of range.\<close>

fun digits_val :: "bytes \<Rightarrow> nat \<Rightarrow> nat" where
  "digits_val [] v = v"
| "digits_val (b # bs) v = (if 48 \<le> b \<and> b \<le> 57 then digits_val bs (10 * v + (unat b - 48)) else v)"

definition c_atoi :: "bytes \<Rightarrow> int option" where
  "c_atoi bs0 = (let bs = dropWhile c_isspace bs0;
     v = (case bs of b # r \<Rightarrow> if b = 45 then - int (digits_val r 0) else if b = 43 then int (digits_val r 0) else int (digits_val bs 0)
          | [] \<Rightarrow> 0) in
     if - (2 ^ 31) \<le> v \<and> v < 2 ^ 31 then Some v else None)"

text \<open>The loop of \<^verbatim>\<open>version_parse\<close>: \<open>cur\<close> holds the characters since the last separator.\<close>

fun version_loop :: "bytes \<Rightarrow> bytes \<Rightarrow> u32 \<Rightarrow> u32 \<Rightarrow> u32 option" where
  "version_loop [] cur version m = do { v \<leftarrow> c_atoi cur; Some ((push_bit 8 version OR of_int v) AND m) }"
| "version_loop (b # bs) cur version m =
    (if \<not> m < 0xFFFFFF then do { v \<leftarrow> c_atoi (cur @ b # bs); Some ((push_bit 8 version OR of_int v) AND m) }
     else if b = 46 \<or> b = 45 then do {
       v \<leftarrow> c_atoi cur;
       version_loop bs [] ((push_bit 8 version OR of_int v) AND m) (m OR push_bit 8 m) }
     else if \<not> (48 \<le> b \<and> b \<le> 57) then do { v \<leftarrow> c_atoi (cur @ b # bs); Some ((push_bit 8 version OR of_int v) AND m) }
     else version_loop bs (cur @ [b]) version m)"

definition version_parse :: "bytes \<Rightarrow> bool \<Rightarrow> u32 option" where
  "version_parse strver strdup_ok =
    (if \<not> strdup_ok then Some 0
     else case c_str strver of
       b # bs \<Rightarrow> if b = 118 \<or> b = 86 then version_loop bs [] 0 0xFF else version_loop (b # bs) [] 0 0xFF
     | [] \<Rightarrow> version_loop [] [] 0 0xFF)"

text \<open>\<^verbatim>\<open>global_data_init\<close>: roles and the two index tables.\<close>

record lcore_data =
  g_lcore_role :: "nat list"
  g_lcore_index2id :: "int list"
  g_lcore_id2index :: "int list"
  g_lcore_num :: int

definition global_data_init :: "nat \<Rightarrow> lcore_data" where
  "global_data_init max_lcore = \<lparr>g_lcore_role = replicate max_lcore LCORE_ROLE_IDLE, g_lcore_index2id = replicate max_lcore (-1),
     g_lcore_id2index = replicate max_lcore (-1), g_lcore_num = 0\<rparr>"

section \<open>Queues of jobs\<close>

text \<open>The scheduler against a queue of jobs for every head. The jobs themselves do not change.\<close>

definition job_ok :: "lcore_job \<Rightarrow> bool" where
  "job_ok j \<longleftrightarrow> job_type j < LCORE_JOB_TYPE_MAX \<and> (job_type j = LCORE_JOB_SLOW \<longrightarrow> skip_loops j \<noteq> 0)"

definition n_heads :: nat where "n_heads = LCORE_ROLE_MAX * LCORE_JOB_TYPE_MAX"

definition queued_in :: "(nat \<rightharpoonup> lcore_job) \<Rightarrow> nat \<Rightarrow> nat \<Rightarrow> bool" where
  "queued_in js k a \<longleftrightarrow> n_heads \<le> a \<and> (\<exists>j. js a = Some j \<and> job_ok j \<and> job_type j = k mod LCORE_JOB_TYPE_MAX)"

definition sched_rel :: "scheduler \<Rightarrow> (nat \<Rightarrow> nat list) \<Rightarrow> bool" where
  "sched_rel s q \<longleftrightarrow>
    (\<forall>k < n_heads. dll (job_heap s) k (q k) \<and> (\<forall>a \<in> set (q k). queued_in (jobs s) k a))
    \<and> (\<forall>k < n_heads. \<forall>l < n_heads. k \<noteq> l \<longrightarrow> set (q k) \<inter> set (q l) = {})
    \<and> (\<forall>a \<in> dom (jobs s). node (job_heap s) a \<and> n_heads \<le> a)"

lemma job_head_lt: "r < LCORE_ROLE_MAX \<Longrightarrow> t < LCORE_JOB_TYPE_MAX \<Longrightarrow> job_head r t < n_heads"
  by (simp add: job_head_def n_heads_def role_defs job_type_defs)

lemma job_head_mod: "t < LCORE_JOB_TYPE_MAX \<Longrightarrow> job_head r t mod LCORE_JOB_TYPE_MAX = t"
  by (simp add: job_head_def)

lemma job_head_inj: "t < LCORE_JOB_TYPE_MAX \<Longrightarrow> u < LCORE_JOB_TYPE_MAX \<Longrightarrow> job_head r t = job_head r' u \<longleftrightarrow> r = r' \<and> t = u"
  unfolding job_head_def job_type_defs by presburger

lemma sched_head: "sched_rel s q \<Longrightarrow> k < n_heads \<Longrightarrow> dll (job_heap s) k (q k)"
  by (simp add: sched_rel_def)

lemma sched_queued: "sched_rel s q \<Longrightarrow> k < n_heads \<Longrightarrow> a \<in> set (q k) \<Longrightarrow> queued_in (jobs s) k a"
  by (simp add: sched_rel_def)

lemma sched_node: "sched_rel s q \<Longrightarrow> jobs s a = Some j \<Longrightarrow> node (job_heap s) a \<and> n_heads \<le> a"
  by (auto simp: sched_rel_def)

text \<open>The search finds exactly the members.\<close>

lemma search_links: "links h (a # r @ [rt]) \<Longrightarrow> rt \<notin> set (a # r) \<Longrightarrow> job_search (nx h) rt x a = Some (x \<in> set (a # r))"
proof (induction r arbitrary: a)
  case Nil
  then show ?case
    by (simp add: job_search.simps)
next
  case (Cons b r)
  have "job_search (nx h) rt x b = Some (x \<in> set (b # r))"
    using Cons.prems by (intro Cons.IH) auto
  then show ?case
    using Cons.prems by (subst job_search.simps) auto
qed

lemma listed_ok: "dll h rt xs \<Longrightarrow> x \<noteq> rt \<Longrightarrow> job_listed rt x h = Some (x \<in> set xs)"
proof (cases xs)
  case Nil
  then show "dll h rt xs \<Longrightarrow> ?thesis"
    by (simp add: dll_def job_listed_def job_search.simps)
next
  case (Cons a r)
  assume d: "dll h rt xs"
  have "links h (a # r @ [rt])" "rt \<notin> set (a # r)" "nx h rt = Some a"
    using d by (simp_all add: dll_def Cons)
  then show ?thesis
    using search_links by (simp add: job_listed_def Cons)
qed

text \<open>A write to one queue and its members leaves the others alone.\<close>

lemma sched_update:
  assumes "sched_rel s q" "k < n_heads" "dll h k ys" "same_on (insert k (set (q k) \<union> N)) (job_heap s) h"
    and "N \<subseteq> dom (jobs s)" "\<forall>l < n_heads. l \<noteq> k \<longrightarrow> set (q l) \<inter> N = {}" "\<forall>a \<in> N \<union> set (q k). node h a"
    and "set ys \<subseteq> set (q k) \<union> N" "\<forall>a \<in> set ys. queued_in (jobs s) k a"
  shows "sched_rel (s\<lparr>job_heap := h\<rparr>) (q(k := ys))"
proof -
  have heads: "l \<notin> set (q k) \<union> N" if "l < n_heads" for l
    using that sched_queued [OF assms(1,2), of l] sched_node [OF assms(1), of l] assms(5) by (fastforce simp: queued_in_def)
  have "dll h l (q l)" if "l < n_heads" "l \<noteq> k" for l
  proof -
    have "k \<notin> set (q l)"
      using sched_queued [OF assms(1) that(1), of k] assms(2) by (auto simp: queued_in_def)
    moreover have "set (q l) \<inter> set (q k) = {}" "set (q l) \<inter> N = {}"
      using assms(1,2,6) that unfolding sched_rel_def by blast+
    ultimately have "set (l # q l) \<inter> insert k (set (q k) \<union> N) = {}"
      using heads [OF that(1)] that by auto
    then show ?thesis
      using dll_same [OF assms(4)] sched_head [OF assms(1) that(1)] by blast
  qed
  moreover have "node h a \<and> n_heads \<le> a" if "a \<in> dom (jobs s)" for a
  proof -
    have "node (job_heap s) a" "n_heads \<le> a"
      using that sched_node [OF assms(1)] by auto
    then show ?thesis
      using assms(2,7) same_on_node [OF assms(4), of a] by (cases "a \<in> insert k (set (q k) \<union> N)") auto
  qed
  moreover have "set ys \<inter> set (q l) = {}" if "l < n_heads" "l \<noteq> k" for l
    using assms(1,2,6,8) that unfolding sched_rel_def by blast
  ultimately show ?thesis
    using assms(1,3,9) unfolding sched_rel_def by (simp add: Int_commute)
qed

subsection \<open>Registration\<close>

datatype sched_op = Register "nat option" nat | Unregister "nat option" nat

fun sched_step :: "sched_op \<Rightarrow> scheduler \<Rightarrow> (int \<times> scheduler) option" where
  "sched_step (Register p role) s = ndf_lcore_job_register p role s"
| "sched_step (Unregister p role) s = ndf_lcore_job_unregister p role s"

definition queue_of :: "(nat \<rightharpoonup> lcore_job) \<Rightarrow> nat \<Rightarrow> nat \<Rightarrow> nat" where
  "queue_of js role a = job_head role (job_type (the (js a)))"

fun queue_step :: "(nat \<rightharpoonup> lcore_job) \<Rightarrow> sched_op \<Rightarrow> (nat \<Rightarrow> nat list) \<Rightarrow> int \<times> (nat \<Rightarrow> nat list)" where
  "queue_step js (Register None role) q = (ENDF_INVAL, q)"
| "queue_step js (Register (Some a) role) q =
    (if LCORE_ROLE_MAX \<le> role \<or> \<not> job_ok (the (js a)) then (ENDF_INVAL, q)
     else if a \<in> set (q (queue_of js role a)) then (ENDF_EXIST, q)
     else (ENDF_OK, q(queue_of js role a := q (queue_of js role a) @ [a])))"
| "queue_step js (Unregister None role) q = (ENDF_INVAL, q)"
| "queue_step js (Unregister (Some a) role) q =
    (if LCORE_ROLE_MAX \<le> role then (ENDF_INVAL, q)
     else if a \<in> set (q (queue_of js role a)) then (ENDF_OK, q(queue_of js role a := remove1 a (q (queue_of js role a))))
     else (ENDF_NOTEXIST, q))"

text \<open>A job exists, has one of the types, and is registered only while no queue of another role holds it.\<close>

fun queue_legal :: "(nat \<rightharpoonup> lcore_job) \<Rightarrow> sched_op \<Rightarrow> (nat \<Rightarrow> nat list) \<Rightarrow> bool" where
  "queue_legal js (Register (Some a) role) q \<longleftrightarrow> a \<in> dom js \<and> job_type (the (js a)) < LCORE_JOB_TYPE_MAX
     \<and> (\<forall>k < n_heads. k \<noteq> queue_of js role a \<longrightarrow> a \<notin> set (q k))"
| "queue_legal js (Unregister (Some a) role) q \<longleftrightarrow> a \<in> dom js \<and> job_type (the (js a)) < LCORE_JOB_TYPE_MAX"
| "queue_legal js _ q \<longleftrightarrow> True"

lemma register_refines:
  assumes "sched_rel s q" "queue_legal (jobs s) (Register p role) q"
  shows "\<exists>s'. ndf_lcore_job_register p role s = Some (fst (queue_step (jobs s) (Register p role) q), s')
           \<and> sched_rel s' (snd (queue_step (jobs s) (Register p role) q)) \<and> jobs s' = jobs s"
proof (cases "\<exists>a j. p = Some a \<and> role < LCORE_ROLE_MAX \<and> jobs s a = Some j \<and> job_ok j \<and> a \<notin> set (q (job_head role (job_type j)))")
  case True
  then obtain a j where a: "p = Some a" "role < LCORE_ROLE_MAX" "jobs s a = Some j" "job_ok j" "a \<notin> set (q (job_head role (job_type j)))"
    by blast
  let ?k = "job_head role (job_type j)"
  have k: "?k < n_heads"
    using a(2,4) by (simp add: job_head_lt job_ok_def)
  note d = sched_head [OF assms(1) k] and n = sched_node [OF assms(1) a(3)]
  have "a \<noteq> ?k"
    using n k by simp
  moreover obtain h where h: "list_add_tail a ?k (job_heap s) = Some h" "dll h ?k (q ?k @ [a])" "same_on (set (?k # a # q ?k)) (job_heap s) h"
    using add_tail_ok [OF d, of a] n a(5) \<open>a \<noteq> ?k\<close> by auto
  moreover have "sched_rel (s\<lparr>job_heap := h\<rparr>) (q(?k := q ?k @ [a]))"
  proof (rule sched_update [OF assms(1) k h(2), of "{a}"])
    show "same_on (insert ?k (set (q ?k) \<union> {a})) (job_heap s) h"
      by (rule same_on_mono [OF h(3)]) auto
    show "\<forall>l<n_heads. l \<noteq> ?k \<longrightarrow> set (q l) \<inter> {a} = {}"
      using assms(2) a by (simp add: queue_of_def)
    show "\<forall>b \<in> {a} \<union> set (q ?k). node h b"
      using dll_node [OF h(2)] by simp
    show "\<forall>b \<in> set (q ?k @ [a]). queued_in (jobs s) ?k b"
      using sched_queued [OF assms(1) k] a(3,4) n by (auto simp: queued_in_def job_head_mod job_ok_def)
  qed (use a(3) in auto)
  ultimately show ?thesis
    using a listed_ok [OF d, of a] by (auto simp: ndf_lcore_job_register_def job_ok_def queue_of_def)
next
  case False
  show ?thesis
  proof (cases p)
    case (Some a)
    consider "LCORE_ROLE_MAX \<le> role"
      | j where "role < LCORE_ROLE_MAX" "jobs s a = Some j" "job_type j < LCORE_JOB_TYPE_MAX" "job_type j = LCORE_JOB_SLOW" "skip_loops j = 0"
      | j where "role < LCORE_ROLE_MAX" "jobs s a = Some j" "job_ok j" "a \<in> set (q (job_head role (job_type j)))"
      using False Some assms(2) by (fastforce simp: job_ok_def)
    then show ?thesis
    proof cases
      case (3 j)
      have k: "job_head role (job_type j) < n_heads"
        using 3 by (simp add: job_head_lt job_ok_def)
      have "job_listed (job_head role (job_type j)) a (job_heap s) = Some True"
        using listed_ok [OF sched_head [OF assms(1) k], of a] 3(4) sched_node [OF assms(1) 3(2)] k by simp
      then show ?thesis
        using 3 Some assms(1) by (auto simp: ndf_lcore_job_register_def job_ok_def queue_of_def)
    qed (use Some assms(1) in \<open>auto simp: ndf_lcore_job_register_def job_ok_def\<close>)
  qed (use assms(1) in \<open>simp add: ndf_lcore_job_register_def\<close>)
qed

lemma unregister_refines:
  assumes "sched_rel s q" "queue_legal (jobs s) (Unregister p role) q"
  shows "\<exists>s'. ndf_lcore_job_unregister p role s = Some (fst (queue_step (jobs s) (Unregister p role) q), s')
           \<and> sched_rel s' (snd (queue_step (jobs s) (Unregister p role) q)) \<and> jobs s' = jobs s"
proof (cases "\<exists>a j. p = Some a \<and> role < LCORE_ROLE_MAX \<and> jobs s a = Some j \<and> job_type j < LCORE_JOB_TYPE_MAX")
  case True
  then obtain a j where a: "p = Some a" "role < LCORE_ROLE_MAX" "jobs s a = Some j" "job_type j < LCORE_JOB_TYPE_MAX"
    by blast
  let ?k = "job_head role (job_type j)"
  have k: "?k < n_heads"
    using a(2,4) by (simp add: job_head_lt)
  note d = sched_head [OF assms(1) k] and n = sched_node [OF assms(1) a(3)]
  have ls: "job_listed ?k a (job_heap s) = Some (a \<in> set (q ?k))"
    using listed_ok [OF d, of a] n k by simp
  show ?thesis
  proof (cases "a \<in> set (q ?k)")
    case True
    then obtain ys zs where e: "q ?k = ys @ a # zs" "a \<notin> set ys"
      by (meson split_list_first)
    obtain h where h: "list_del_init a (job_heap s) = Some h" "dll h ?k (ys @ zs)" "dll h a []" "same_on (set (?k # ys @ a # zs)) (job_heap s) h"
      using del_init_ok [of "job_heap s" ?k ys a zs] d unfolding e(1) by blast
    have "sched_rel (s\<lparr>job_heap := h\<rparr>) (q(?k := ys @ zs))"
    proof (rule sched_update [OF assms(1) k h(2), of "{}"])
      show "same_on (insert ?k (set (q ?k) \<union> {})) (job_heap s) h"
        by (rule same_on_mono [OF h(4)]) (simp add: e)
      show "\<forall>b \<in> {} \<union> set (q ?k). node h b"
        using dll_node [OF h(2)] dll_node [OF h(3)] by (auto simp: e)
      show "\<forall>b \<in> set (ys @ zs). queued_in (jobs s) ?k b"
        using sched_queued [OF assms(1) k] by (simp add: e)
    qed (auto simp: e)
    moreover have "remove1 a (q ?k) = ys @ zs"
      using e by (simp add: remove1_append)
    ultimately show ?thesis
      using a h(1) ls True by (auto simp: ndf_lcore_job_unregister_def queue_of_def)
  next
    case False
    then show ?thesis
      using a ls assms(1) by (auto simp: ndf_lcore_job_unregister_def queue_of_def)
  qed
next
  case False
  then show ?thesis
    using assms by (cases p) (auto simp: ndf_lcore_job_unregister_def)
qed

fun sched_run :: "sched_op list \<Rightarrow> scheduler \<Rightarrow> (int list \<times> scheduler) option" where
  "sched_run [] s = Some ([], s)"
| "sched_run (x # xs) s = do { (c, s1) \<leftarrow> sched_step x s; (cs, s2) \<leftarrow> sched_run xs s1; Some (c # cs, s2) }"

fun queue_run :: "(nat \<rightharpoonup> lcore_job) \<Rightarrow> sched_op list \<Rightarrow> (nat \<Rightarrow> nat list) \<Rightarrow> int list \<times> (nat \<Rightarrow> nat list)" where
  "queue_run js [] q = ([], q)"
| "queue_run js (x # xs) q = (let (c, q1) = queue_step js x q; (cs, q2) = queue_run js xs q1 in (c # cs, q2))"

fun queue_legal_run :: "(nat \<rightharpoonup> lcore_job) \<Rightarrow> sched_op list \<Rightarrow> (nat \<Rightarrow> nat list) \<Rightarrow> bool" where
  "queue_legal_run js [] q \<longleftrightarrow> True"
| "queue_legal_run js (x # xs) q \<longleftrightarrow> queue_legal js x q \<and> queue_legal_run js xs (snd (queue_step js x q))"

lemma sched_step_refines:
  assumes "sched_rel s q" "queue_legal (jobs s) x q"
  shows "\<exists>s'. sched_step x s = Some (fst (queue_step (jobs s) x q), s') \<and> sched_rel s' (snd (queue_step (jobs s) x q)) \<and> jobs s' = jobs s"
  using assms register_refines unregister_refines by (cases x) simp_all

lemma sched_run_refines:
  "sched_rel s q \<Longrightarrow> queue_legal_run (jobs s) xs q \<Longrightarrow>
   \<exists>s'. sched_run xs s = Some (fst (queue_run (jobs s) xs q), s') \<and> sched_rel s' (snd (queue_run (jobs s) xs q)) \<and> jobs s' = jobs s"
proof (induction xs arbitrary: s q)
  case (Cons x xs)
  obtain s1 where s1: "sched_step x s = Some (fst (queue_step (jobs s) x q), s1)" "sched_rel s1 (snd (queue_step (jobs s) x q))" "jobs s1 = jobs s"
    using sched_step_refines [of s q x] Cons.prems by auto
  then show ?case
    using Cons.IH [OF s1(2)] Cons.prems(2) by (auto simp: split_beta Let_def)
qed simp

text \<open>The initial scheduler has every queue empty.\<close>

lemma init_heads_ok:
  "distinct ks \<Longrightarrow> (\<forall>k \<in> set ks. node h k) \<Longrightarrow> \<exists>h'. init_heads ks h = Some h' \<and> (\<forall>k \<in> set ks. dll h' k []) \<and> same_on (set ks) h h'"
proof (induction ks arbitrary: h)
  case (Cons k ks)
  obtain h1 where h1: "INIT_LIST_HEAD k h = Some h1" "dll h1 k []" "same_on {k} h h1"
    using init_ok [of h k] Cons.prems by auto
  have "\<forall>l \<in> set ks. node h1 l"
    using Cons.prems same_on_node [OF h1(3)] by fastforce
  then obtain h2 where h2: "init_heads ks h1 = Some h2" "\<forall>l \<in> set ks. dll h2 l []" "same_on (set ks) h1 h2"
    using Cons.IH [of h1] Cons.prems(1) by auto
  have "dll h2 k []"
    using dll_same [OF h2(3), of k "[]"] h1(2) Cons.prems(1) by simp
  then show ?case
    using h1(1) h2 same_on_trans [OF h1(3) h2(3)] by auto
qed (simp add: same_on_def)

lemma heads_list: "[job_head ii jj. ii \<leftarrow> [0..<LCORE_ROLE_MAX], jj \<leftarrow> [0..<LCORE_JOB_TYPE_MAX]] = [0..<n_heads]"
  by (simp add: job_head_def n_heads_def role_defs job_type_defs upt_conv_Cons)

lemma scheduler_init_ok:
  assumes "\<forall>k < n_heads. node (job_heap s) k" "\<forall>a \<in> dom (jobs s). node (job_heap s) a \<and> n_heads \<le> a"
  shows "\<exists>s'. ndf_scheduler_init s = Some (ENDF_OK, s') \<and> sched_rel s' (\<lambda>_. []) \<and> jobs s' = jobs s"
proof -
  obtain h where h: "init_heads [0..<n_heads] (job_heap s) = Some h" "\<forall>k \<in> set [0..<n_heads]. dll h k []" "same_on (set [0..<n_heads]) (job_heap s) h"
    using init_heads_ok [of "[0..<n_heads]" "job_heap s"] assms(1) by auto
  have "node h a \<and> n_heads \<le> a" if "a \<in> dom (jobs s)" for a
    using bspec [OF assms(2) that] same_on_node [OF h(3), of a] by simp
  then show ?thesis
    using h(1,2) unfolding ndf_scheduler_init_def heads_list by (simp add: sched_rel_def)
qed

text \<open>C16: Starting from initialisation, any sequence of registrations and removals in which a job is registered for one role at a
  time returns the codes and leaves the queues that the specification gives, the queues being what a traversal visits.
\<close>

theorem scheduler_refines_queues:
  assumes "\<forall>k < n_heads. node (job_heap s) k" "\<forall>a \<in> dom (jobs s). node (job_heap s) a \<and> n_heads \<le> a"
    and "queue_legal_run (jobs s) xs (\<lambda>_. [])"
  shows "\<exists>s0 s1. ndf_scheduler_init s = Some (ENDF_OK, s0) \<and> sched_run xs s0 = Some (fst (queue_run (jobs s) xs (\<lambda>_. [])), s1)
    \<and> (\<forall>role < LCORE_ROLE_MAX. \<forall>t < LCORE_JOB_TYPE_MAX.
         list_for_each (job_head role t) (job_heap s1) = Some (snd (queue_run (jobs s) xs (\<lambda>_. [])) (job_head role t)))"
proof -
  obtain s0 where s0: "ndf_scheduler_init s = Some (ENDF_OK, s0)" "sched_rel s0 (\<lambda>_. [])" "jobs s0 = jobs s"
    using scheduler_init_ok [OF assms(1,2)] by blast
  obtain s1 where s1: "sched_run xs s0 = Some (fst (queue_run (jobs s) xs (\<lambda>_. [])), s1)" "sched_rel s1 (snd (queue_run (jobs s) xs (\<lambda>_. [])))"
    using sched_run_refines [OF s0(2), of xs] assms(3) s0(3) by auto
  then show ?thesis
    using s0(1) for_each_ok(1) [OF sched_head [OF s1(2)]] job_head_lt by blast
qed

definition sample_jobs :: "nat \<rightharpoonup> lcore_job" where
  "sample_jobs = [20 \<mapsto> \<lparr>job_name = [], job_func = Some 1, job_type = LCORE_JOB_LOOP, skip_loops = 0\<rparr>,
     21 \<mapsto> \<lparr>job_name = [], job_func = Some 2, job_type = LCORE_JOB_SLOW, skip_loops = 3\<rparr>]"

definition sample_scheduler :: scheduler where
  "sample_scheduler = \<lparr>job_heap = \<lparr>nx = \<lambda>a. Some 0, pv = \<lambda>a. Some 0\<rparr>, jobs = sample_jobs\<rparr>"

lemmas sample_sched_defs = sample_scheduler_def sample_jobs_def node_def n_heads_def queue_of_def job_head_def role_defs
  job_type_defs job_ok_def

definition sample_registration :: "sched_op list" where
  "sample_registration = [Register (Some 20) 2, Register (Some 21) 2, Register (Some 20) 2, Unregister (Some 21) 1]"

lemma sample_queue_run:
  "queue_legal_run sample_jobs sample_registration (\<lambda>_. [])"
  "fst (queue_run sample_jobs sample_registration (\<lambda>_. [])) = [0, 0, -3, -4]"
  "snd (queue_run sample_jobs sample_registration (\<lambda>_. [])) 7 = [20]"
  "snd (queue_run sample_jobs sample_registration (\<lambda>_. [])) 8 = [21]"
  by (simp_all add: sample_registration_def sample_sched_defs endf_defs)

theorem scheduler_refines_queues_witness:
  "\<exists>s0 s1. ndf_scheduler_init sample_scheduler = Some (ENDF_OK, s0) \<and> sched_run sample_registration s0 = Some ([0, 0, -3, -4], s1)
    \<and> list_for_each (job_head 2 2) (job_heap s1) = Some [21]"
proof -
  have "jobs sample_scheduler = sample_jobs"
    by (simp add: sample_scheduler_def)
  then obtain s0 s1 where "ndf_scheduler_init sample_scheduler = Some (ENDF_OK, s0)" "sched_run sample_registration s0 = Some ([0, 0, -3, -4], s1)"
    "\<forall>role < LCORE_ROLE_MAX. \<forall>t < LCORE_JOB_TYPE_MAX. list_for_each (job_head role t) (job_heap s1)
       = Some (snd (queue_run sample_jobs sample_registration (\<lambda>_. [])) (job_head role t))"
    using scheduler_refines_queues [of sample_scheduler sample_registration] sample_queue_run(1,2)
    by (auto simp: sample_scheduler_def sample_jobs_def node_def n_heads_def role_defs job_type_defs split: if_splits)
  moreover have "job_head 2 2 = 8"
    by (simp add: job_head_def job_type_defs)
  moreover have "2 < LCORE_ROLE_MAX" "2 < LCORE_JOB_TYPE_MAX"
    by (simp_all add: role_defs job_type_defs)
  ultimately show ?thesis
    using sample_queue_run(4) by metis
qed

subsection \<open>One job for two roles\<close>

lemma links_next: "links h (xs @ [z]) \<Longrightarrow> x \<in> set xs \<Longrightarrow> \<exists>y \<in> set (tl (xs @ [z])). nx h x = Some y"
proof (induction xs)
  case (Cons a xs)
  then show ?case
    by (cases xs) auto
qed simp

text \<open>A traversal that enters a set of nodes closed under the links and without the head does not end.\<close>

lemma walk_trapped:
  assumes "\<forall>x \<in> S. \<exists>y \<in> S. f x = Some y" "hd' \<notin> S"
  shows "a \<in> S \<Longrightarrow> list_walk f hd' a \<noteq> Some r"
proof (induction r arbitrary: a)
  case Nil
  then show ?case
    using assms by (subst list_walk.simps) (auto simp: bind_eq_Some_conv)
next
  case (Cons b r)
  obtain y where "y \<in> S" "f a = Some y" "a \<noteq> hd'"
    using assms Cons.prems by blast
  then show ?case
    using Cons.IH [of y] by (subst list_walk.simps) (auto simp: bind_eq_Some_conv)
qed

text \<open>A job registered for a second role while the first still holds it is accepted, and the traversal of the first role's
  queue then never ends.
\<close>

theorem second_role_never_ends:
  assumes "sched_rel s q" "jobs s a = Some j" "job_ok j" "\<forall>k < n_heads. a \<notin> set (q k)"
    and "r1 < LCORE_ROLE_MAX" "r2 < LCORE_ROLE_MAX" "r1 \<noteq> r2"
  shows "\<exists>s1 s2. ndf_lcore_job_register (Some a) r1 s = Some (ENDF_OK, s1) \<and> ndf_lcore_job_register (Some a) r2 s1 = Some (ENDF_OK, s2)
    \<and> list_for_each (job_head r1 (job_type j)) (job_heap s2) = None"
proof -
  let ?k1 = "job_head r1 (job_type j)" and ?k2 = "job_head r2 (job_type j)"
  have t: "job_type j < LCORE_JOB_TYPE_MAX"
    using assms(3) by (simp add: job_ok_def)
  have k: "?k1 < n_heads" "?k2 < n_heads" "?k1 \<noteq> ?k2"
    using assms(5-7) t by (simp_all add: job_head_lt job_head_inj)
  obtain s1 where s1: "ndf_lcore_job_register (Some a) r1 s = Some (ENDF_OK, s1)" "sched_rel s1 (q(?k1 := q ?k1 @ [a]))" "jobs s1 = jobs s"
    using register_refines [OF assms(1), of "Some a" r1] assms(2-5) t k(1) by (auto simp: queue_of_def)
  note d1 = sched_head [OF s1(2) k(1), simplified] and n1 = sched_node [OF s1(2), of a j, unfolded s1(3), OF assms(2)]
  have d2: "dll (job_heap s1) ?k2 (q ?k2)"
    using sched_head [OF s1(2) k(2)] k(3) by simp
  have a2: "a \<notin> set (?k2 # q ?k2)"
    using assms(4) k(2) n1 by auto
  obtain h where h: "list_add_tail a ?k2 (job_heap s1) = Some h" "dll h ?k2 (q ?k2 @ [a])" "same_on (set (?k2 # a # q ?k2)) (job_heap s1) h"
    using add_tail_ok [OF d2, of a] n1 a2 by blast
  have reg: "ndf_lcore_job_register (Some a) r2 s1 = Some (ENDF_OK, s1\<lparr>job_heap := h\<rparr>)"
    using assms(2,3,6) s1(3) listed_ok [OF d2, of a] a2 h(1) by (auto simp: ndf_lcore_job_register_def job_ok_def)
  have ge: "n_heads \<le> x" if "x \<in> set (q l)" "l < n_heads" for x l
    using sched_queued [OF assms(1) that(2,1)] by (simp add: queued_in_def)
  define S where "S = set (q ?k1) \<union> set (?k2 # q ?k2 @ [a])"
  have second: "\<exists>y \<in> S. nx h x = Some y" if "x \<in> set (?k2 # q ?k2 @ [a])" for x
    using links_next [of h "?k2 # q ?k2 @ [a]" ?k2 x] h(2) that by (auto simp: dll_def S_def)
  have first: "\<exists>y \<in> S. nx h x = Some y" if "x \<in> set (?k1 # q ?k1)" for x
  proof -
    have "links (job_heap s1) ((?k1 # q ?k1) @ [a] @ [?k1])"
      using d1 by (simp add: dll_def)
    then have "links (job_heap s1) ((?k1 # q ?k1) @ [a])"
      using links_append [of "job_heap s1" "?k1 # q ?k1" a "[?k1]"] by simp
    from links_next [OF this that]
    obtain y where y: "y \<in> set (q ?k1 @ [a])" "nx (job_heap s1) x = Some y"
      unfolding append_Cons list.sel by blast
    have "set (q ?k1) \<inter> set (q ?k2) = {}"
      using assms(1) k by (simp add: sched_rel_def)
    then have "x \<notin> set (?k2 # a # q ?k2)"
      using that k n1 assms(4) ge [of ?k2 ?k1] ge [of ?k1 ?k2] by auto
    then have "nx h x = Some y"
      using h(3) y(2) by (simp add: same_on_def)
    then show ?thesis
      using y(1) by (auto simp: S_def)
  qed
  have "?k1 \<notin> S"
    using k n1 ge [of ?k1 ?k1] ge [of ?k1 ?k2] by (auto simp: S_def)
  moreover have "\<forall>x \<in> S. \<exists>y \<in> S. nx h x = Some y"
    using first second by (auto simp: S_def)
  ultimately have "list_walk (nx h) ?k1 y = None" if "y \<in> S" for y
    using walk_trapped [of S "nx h" ?k1 y] that by (cases "list_walk (nx h) ?k1 y") auto
  then have "list_for_each ?k1 h = None"
    using first [of ?k1] by (auto simp: list_for_each_def)
  then show ?thesis
    using s1(1) reg by auto
qed

lemma sample_started: "\<exists>s0. ndf_scheduler_init sample_scheduler = Some (ENDF_OK, s0) \<and> sched_rel s0 (\<lambda>_. []) \<and> jobs s0 = sample_jobs"
  using scheduler_init_ok [of sample_scheduler]
  by (auto simp: sample_scheduler_def sample_jobs_def node_def n_heads_def role_defs job_type_defs split: if_splits)

theorem second_role_never_ends_witness:
  "\<exists>s0 s1 s2. ndf_scheduler_init sample_scheduler = Some (ENDF_OK, s0) \<and> ndf_lcore_job_register (Some 21) 2 s0 = Some (ENDF_OK, s1)
    \<and> ndf_lcore_job_register (Some 21) 1 s1 = Some (ENDF_OK, s2) \<and> list_for_each (job_head 2 2) (job_heap s2) = None"
proof -
  obtain s0 where s0: "ndf_scheduler_init sample_scheduler = Some (ENDF_OK, s0)" "sched_rel s0 (\<lambda>_. [])" "jobs s0 = sample_jobs"
    using sample_started by blast
  let ?j = "\<lparr>job_name = [], job_func = Some 2, job_type = LCORE_JOB_SLOW, skip_loops = 3\<rparr>"
  have "jobs s0 21 = Some ?j" "job_ok ?j" "job_type ?j = 2"
    using s0(3) by (simp_all add: sample_jobs_def job_ok_def job_type_defs)
  then show ?thesis
    using second_role_never_ends [OF s0(2), of 21 ?j 2 1] s0(1) by (auto simp: role_defs)
qed

section \<open>Calls of the loop\<close>

definition has_func :: "scheduler \<Rightarrow> nat \<Rightarrow> bool" where
  "has_func s a \<longleftrightarrow> job_func (the (jobs s a)) \<noteq> None"

definition skip_of :: "scheduler \<Rightarrow> nat \<Rightarrow> u32" where
  "skip_of s a = skip_loops (the (jobs s a))"

lemma do_jobs_ok: "\<forall>a \<in> set as. a \<in> dom (jobs s) \<Longrightarrow> do_jobs s as = Some (filter (has_func s) as)"
  by (induction as) (auto simp: do_lcore_job_def has_func_def)

lemma do_slow_jobs_ok:
  "\<forall>a \<in> set as. a \<in> dom (jobs s) \<and> skip_of s a \<noteq> 0 \<Longrightarrow>
   do_slow_jobs s tick as = Some (filter (\<lambda>a. has_func s a \<and> tick mod skip_of s a = 0) as)"
  by (induction as) (auto simp: do_lcore_job_def has_func_def skip_of_def del: mod_0_imp_dvd)

lemma sched_member:
  assumes "sched_rel s q" "role < LCORE_ROLE_MAX" "t < LCORE_JOB_TYPE_MAX" "a \<in> set (q (job_head role t))"
  shows "a \<in> dom (jobs s)" "t = LCORE_JOB_SLOW \<Longrightarrow> skip_of s a \<noteq> 0"
  using sched_queued [OF assms(1) job_head_lt [OF assms(2,3)] assms(4)] assms(3)
  by (auto simp: queued_in_def job_head_mod job_ok_def skip_of_def)

lemma poll_once_ok:
  assumes "sched_rel s q" "role < LCORE_ROLE_MAX"
  shows "poll_once s role tick = Some (filter (has_func s) (q (job_head role LCORE_JOB_LOOP))
    @ filter (\<lambda>a. has_func s a \<and> tick mod skip_of s a = 0) (q (job_head role LCORE_JOB_SLOW)))"
proof -
  have t: "LCORE_JOB_LOOP < LCORE_JOB_TYPE_MAX" "LCORE_JOB_SLOW < LCORE_JOB_TYPE_MAX"
    by (simp_all add: job_type_defs)
  note f = for_each_ok(1) [OF sched_head [OF assms(1) job_head_lt [OF assms(2)]]]
  show ?thesis
    using f [OF t(1)] f [OF t(2)] do_jobs_ok [of "q (job_head role LCORE_JOB_LOOP)" s]
      do_slow_jobs_ok [of "q (job_head role LCORE_JOB_SLOW)" s tick] sched_member [OF assms t(1)] sched_member [OF assms t(2)]
    by (simp add: poll_once_def)
qed

text \<open>How often a job is called in \<open>k\<close> iterations after the tick \<open>n\<close>.\<close>

definition calls_due :: "scheduler \<Rightarrow> (nat \<Rightarrow> nat list) \<Rightarrow> nat \<Rightarrow> nat \<Rightarrow> nat \<Rightarrow> nat \<Rightarrow> nat" where
  "calls_due s q role a n k =
    (if \<not> has_func s a then 0
     else if a \<in> set (q (job_head role LCORE_JOB_LOOP)) then k
     else if a \<in> set (q (job_head role LCORE_JOB_SLOW)) then (n + k) div unat (skip_of s a) - n div unat (skip_of s a)
     else 0)"

lemma count_filter_distinct: "distinct xs \<Longrightarrow> count_list (filter P xs) a = (if a \<in> set xs \<and> P a then 1 else 0)"
  by (induction xs) auto

lemma count_poll_once:
  assumes "sched_rel s q" "role < LCORE_ROLE_MAX" "poll_once s role tick = Some c"
  shows "count_list c a = (if has_func s a \<and> (a \<in> set (q (job_head role LCORE_JOB_LOOP))
     \<or> a \<in> set (q (job_head role LCORE_JOB_SLOW)) \<and> tick mod skip_of s a = 0) then 1 else 0)"
proof -
  let ?l = "job_head role LCORE_JOB_LOOP" and ?s = "job_head role LCORE_JOB_SLOW"
  have k: "?l < n_heads" "?s < n_heads" "?l \<noteq> ?s"
    using assms(2) by (simp_all add: job_head_lt job_head_inj job_type_defs)
  have "distinct (q ?l)" "distinct (q ?s)"
    using sched_head [OF assms(1)] k by (simp_all add: dll_def)
  moreover have "set (q ?l) \<inter> set (q ?s) = {}"
    using assms(1) k by (simp add: sched_rel_def)
  then have "a \<notin> set (q ?l) \<or> a \<notin> set (q ?s)"
    by blast
  ultimately show ?thesis
    using assms(3) unfolding poll_once_ok [OF assms(1,2)] by (auto simp: count_filter_distinct del: mod_0_imp_dvd)
qed

lemma due_Suc: "0 < (d :: nat) \<Longrightarrow> Suc n div d + (m - Suc n div d) = m \<Longrightarrow>
  (if Suc n mod d = 0 then 1 else 0) + (m - Suc n div d) = m - n div d"
  by (auto simp: div_Suc)

lemma calls_due_Suc:
  assumes "sched_rel s q" "role < LCORE_ROLE_MAX" "unat tick + Suc k < 2 ^ 32" "poll_once s role (tick + 1) = Some c"
  shows "count_list c a + calls_due s q role a (unat (tick + 1)) k = calls_due s q role a (unat tick) (Suc k)"
proof -
  have "unat (tick + 1) = Suc (unat tick)"
    using assms(3) by (subst unat_add_lem [THEN iffD1]) auto
  moreover have "(tick + 1) mod skip_of s a = 0 \<longleftrightarrow> unat (tick + 1) mod unat (skip_of s a) = 0"
    by (metis unat_0 unat_mod unat_eq_zero)
  moreover have "a \<in> set (q (job_head role LCORE_JOB_SLOW)) \<Longrightarrow> 0 < unat (skip_of s a)"
    using sched_member(2) [OF assms(1,2), of LCORE_JOB_SLOW a] by (simp add: job_type_defs unat_gt_0)
  moreover have "Suc (unat tick) div d + ((Suc (unat tick) + k) div d - Suc (unat tick) div d) = (Suc (unat tick) + k) div d" for d
    by (simp add: div_le_mono)
  ultimately show ?thesis
    using count_poll_once [OF assms(1,2,4), of a] due_Suc [of "unat (skip_of s a)" "unat tick" "(Suc (unat tick) + k) div unat (skip_of s a)"]
    by (auto simp: calls_due_def)
qed

text \<open>C28: A core that polls \<open>k\<close> times never stops for a fault: it calls every job of its role's loop queue once in each iteration
  and every slow job once for each multiple of its period that the tick passes.
\<close>

theorem poll_loop_calls:
  assumes "sched_rel s q" "role < LCORE_ROLE_MAX"
  shows "unat tick + k < 2 ^ 32 \<Longrightarrow> \<exists>c. poll_loop k s role tick = Some c \<and> (\<forall>a. count_list c a = calls_due s q role a (unat tick) k)"
proof (induction k arbitrary: tick)
  case 0
  then show ?case
    by (simp add: calls_due_def)
next
  case (Suc k)
  obtain c where c: "poll_once s role (tick + 1) = Some c"
    using poll_once_ok [OF assms] by blast
  have "unat (tick + 1) + k < 2 ^ 32"
    using Suc.prems by (subst unat_add_lem [THEN iffD1]) auto
  then obtain r where r: "poll_loop k s role (tick + 1) = Some r" "\<And>a. count_list r a = calls_due s q role a (unat (tick + 1)) k"
    using Suc.IH [of "tick + 1"] by blast
  then show ?case
    using c calls_due_Suc [OF assms Suc.prems c] by (simp add: count_list_append)
qed

theorem poll_loop_calls_witness:
  "\<exists>s0 s1 c. ndf_scheduler_init sample_scheduler = Some (ENDF_OK, s0) \<and> sched_run sample_registration s0 = Some ([0, 0, -3, -4], s1)
    \<and> poll_loop 7 s1 2 0 = Some c \<and> count_list c 20 = 7 \<and> count_list c 21 = 2"
proof -
  obtain s0 where s0: "ndf_scheduler_init sample_scheduler = Some (ENDF_OK, s0)" "sched_rel s0 (\<lambda>_. [])" "jobs s0 = sample_jobs"
    using sample_started by blast
  obtain s1 where s1: "sched_run sample_registration s0 = Some ([0, 0, -3, -4], s1)" "jobs s1 = sample_jobs"
      "sched_rel s1 (snd (queue_run sample_jobs sample_registration (\<lambda>_. [])))"
    using sched_run_refines [OF s0(2), of sample_registration] sample_queue_run(1,2) s0(3) by auto
  let ?q = "snd (queue_run sample_jobs sample_registration (\<lambda>_. []))"
  have "has_func s1 20" "has_func s1 21" "skip_of s1 21 = 3" "job_head 2 LCORE_JOB_LOOP = 7" "job_head 2 LCORE_JOB_SLOW = 8"
    using s1(2) by (simp_all add: has_func_def skip_of_def sample_jobs_def job_head_def job_type_defs)
  then have "calls_due s1 ?q 2 20 0 7 = 7" "calls_due s1 ?q 2 21 0 7 = 2"
    using sample_queue_run(3,4) by (simp_all add: calls_due_def)
  then show ?thesis
    using poll_loop_calls [OF s1(3), of 2 0 7] s0(1) s1(1) by (auto simp: role_defs)
qed

section \<open>Powers of two\<close>

lemma power2_halve: "1 < (y :: nat) \<Longrightarrow> (\<exists>k. y = 2 ^ k) \<longleftrightarrow> even y \<and> (\<exists>k. y div 2 = 2 ^ k)"
proof
  assume "\<exists>k. y = 2 ^ k" "1 < y"
  then obtain k where "y = 2 ^ Suc k"
    by (metis less_numeral_extra(4) not0_implies_Suc power_0)
  then show "even y \<and> (\<exists>k. y div 2 = 2 ^ k)"
    by auto
next
  assume "even y \<and> (\<exists>k. y div 2 = 2 ^ k)"
  then show "\<exists>k. y = 2 ^ k"
    by (metis dvd_mult_div_cancel power_Suc)
qed

text \<open>The loop ends at the highest set bit, and its verdict is about the bits it has passed.\<close>

lemma power2_loop_spec:
  assumes "power2_loop onum i ret = (b, j)" "1 \<le> onum div 2 ^ i"
  shows "(b \<longleftrightarrow> ret \<and> (\<exists>k. onum div 2 ^ i = 2 ^ k)) \<and> 2 ^ j \<le> onum \<and> onum < 2 * 2 ^ j"
  using assms
proof (induction onum i ret rule: power2_loop.induct)
  case (1 onum i ret)
  have d: "onum div 2 ^ (i + 1) = onum div 2 ^ i div 2"
    by (metis div_mult2_eq power_add power_one_right)
  show ?case
  proof (cases "1 < onum div 2 ^ i")
    case True
    have "power2_loop onum (i + 1) (ret \<and> onum div 2 ^ i mod 2 = 0) = (b, j)"
      using "1.prems"(1) True by (simp add: power2_loop.simps [of onum i])
    then show ?thesis
      using "1.IH" [OF True] True power2_halve [OF True] unfolding d by (auto simp: even_iff_mod_2_eq_zero)
  next
    case False
    then have y: "onum div 2 ^ i = 1"
      using "1.prems"(2) by simp
    have "b = ret" "j = i"
      using "1.prems"(1) False by (simp_all add: power2_loop.simps [of onum i])
    moreover have "onum mod 2 ^ i < 2 ^ i" "2 ^ i + onum mod 2 ^ i = onum"
      using div_mult_mod_eq [of onum "2 ^ i"] y by simp_all
    then have "2 ^ i \<le> onum" "onum < 2 * 2 ^ i"
      by linarith+
    ultimately show ?thesis
      using y power_0 [of "2 :: nat"] by metis
  qed
qed

lemma half_power: "(\<exists>k. n div 2 = 2 ^ k) \<longleftrightarrow> (\<exists>k. 1 \<le> k \<and> (n = 2 ^ k \<or> n = 2 ^ k + 1))" for n :: nat
proof
  assume "\<exists>k. n div 2 = 2 ^ k"
  then obtain k where "n div 2 = 2 ^ k"
    by blast
  then have "n = 2 ^ Suc k \<or> n = 2 ^ Suc k + 1"
    by (simp, linarith)
  then show "\<exists>k. 1 \<le> k \<and> (n = 2 ^ k \<or> n = 2 ^ k + 1)"
    by (metis le_add1 plus_1_eq_Suc)
next
  assume "\<exists>k. 1 \<le> k \<and> (n = 2 ^ k \<or> n = 2 ^ k + 1)"
  then obtain k where "n = 2 ^ Suc k \<or> n = 2 ^ Suc k + 1"
    by (metis Suc_pred le_simps(3) less_one One_nat_def Suc_le_D)
  then show "\<exists>k. n div 2 = 2 ^ k"
    by auto
qed

text \<open>
  For numbers from 2 on, \<^verbatim>\<open>is_power2\<close> ends with the greatest power of two below the sum, and says yes for a power of
  two and also for the number after one: the lowest bit is never looked at.
\<close>

theorem is_power2_verdict:
  assumes "2 \<le> num" "2 \<le> num + offset" "num + offset < 2 ^ 31"
  shows "\<exists>b l. is_power2 num offset = Some (b, l)
    \<and> (b \<longleftrightarrow> (\<exists>k \<ge> 1. num + offset = 2 ^ k \<or> num + offset = 2 ^ k + 1)) \<and> (\<exists>k. l = 2 ^ k) \<and> l \<le> num + offset \<and> num + offset < 2 * l"
proof -
  define n where "n = nat (num + offset)"
  have n: "num + offset = int n" "2 \<le> n"
    using assms(2) by (simp_all add: n_def)
  obtain b j where p: "power2_loop n 1 True = (b, j)"
    by fastforce
  have "1 \<le> n div 2 ^ 1"
    using n(2) by simp
  from power2_loop_spec [OF p this]
  have "b \<longleftrightarrow> (\<exists>k. 1 \<le> k \<and> (n = 2 ^ k \<or> n = 2 ^ k + 1))" "2 ^ j \<le> n" "n < 2 * 2 ^ j"
    using half_power [of n] by simp_all
  moreover have "int n = 2 ^ k \<longleftrightarrow> n = 2 ^ k" "int n = 2 ^ k + 1 \<longleftrightarrow> n = 2 ^ k + 1" for k
    using of_nat_eq_iff [of n "2 ^ k", where 'a = int] of_nat_eq_iff [of n "2 ^ k + 1", where 'a = int] by (simp_all add: add.commute)
  moreover have "int (2 ^ j) \<le> int n" "int n < int (2 * 2 ^ j)"
    using \<open>2 ^ j \<le> n\<close> \<open>n < 2 * 2 ^ j\<close> by (simp_all only: of_nat_le_iff of_nat_less_iff)
  moreover have "is_power2 num offset = Some (b, 2 ^ j)"
    using assms p n(1) by (simp add: is_power2_def)
  ultimately show ?thesis
    unfolding n(1) by auto
qed

theorem is_power2_verdict_witness: "\<exists>b l. is_power2 8 1 = Some (b, l) \<and> b \<and> l \<le> 9 \<and> 9 < 2 * l"
proof -
  have "\<exists>k \<ge> 1. (9 :: int) = 2 ^ k + 1"
    by (intro exI [of _ 3]) simp
  then show ?thesis
    using is_power2_verdict [of 8 1] by auto
qed

section \<open>Versions\<close>

function show_dec :: "nat \<Rightarrow> bytes" where
  "show_dec n = (if n < 10 then [of_nat (48 + n)] else show_dec (n div 10) @ [of_nat (48 + n mod 10)])"
  by pat_completeness auto
termination show_dec
  by (relation "measure (\<lambda>n. n)") auto

declare show_dec.simps [simp del]

lemma digit_byte: "d < 10 \<Longrightarrow> unat (of_nat (48 + d) :: u8) = 48 + d"
  by (simp add: unsigned_of_nat take_bit_nat_eq_self del: of_nat_add)

lemma digit_range: "d < 10 \<Longrightarrow> 48 \<le> (of_nat (48 + d) :: u8) \<and> (of_nat (48 + d) :: u8) \<le> 57"
  unfolding word_le_nat_alt digit_byte by simp

definition all_digits :: "bytes \<Rightarrow> bool" where
  "all_digits bs \<longleftrightarrow> (\<forall>b \<in> set bs. 48 \<le> b \<and> b \<le> 57)"

lemma show_dec_digits: "all_digits (show_dec n)"
proof (induction n rule: show_dec.induct)
  case (1 n)
  then show ?case
    by (cases "n < 10") (auto simp: show_dec.simps [of n] all_digits_def digit_range simp del: of_nat_add)
qed

lemma show_dec_nonempty: "show_dec n \<noteq> []"
  by (simp add: show_dec.simps [of n])

lemma digits_val_append: "all_digits xs \<Longrightarrow> digits_val (xs @ ys) v = digits_val ys (digits_val xs v)"
  by (induction xs arbitrary: v) (auto simp: all_digits_def)

lemma digits_val_show: "digits_val (show_dec n) 0 = n"
proof (induction n rule: show_dec.induct)
  case (1 n)
  have s: "digits_val [of_nat (48 + d)] v = 10 * v + d" if "d < 10" for d v
    using digit_range [OF that] digit_byte [OF that] by simp
  show ?case
  proof (cases "n < 10")
    case True
    then show ?thesis
      using s [OF True, of 0] by (simp add: show_dec.simps [of n] del: of_nat_add)
  next
    case False
    then show ?thesis
      using s [of "n mod 10" "n div 10"] 1 show_dec_digits [of "n div 10"]
      by (simp add: show_dec.simps [of n] digits_val_append del: of_nat_add)
  qed
qed

text \<open>What \<^verbatim>\<open>atoi\<close> reads back from a printed number.\<close>

lemma atoi_digits:
  assumes "all_digits bs" "digits_val bs 0 < 2 ^ 31"
  shows "c_atoi bs = Some (int (digits_val bs 0))"
proof (cases bs)
  case (Cons b r)
  have "\<not> c_isspace b" "b \<noteq> 45" "b \<noteq> 43"
    using assms(1) unfolding c_isspace_def by (auto simp: all_digits_def Cons word_le_nat_alt)
  then show ?thesis
    using assms(2) by (simp add: c_atoi_def Cons Let_def)
qed (simp add: c_atoi_def)

lemma atoi_show: "n < 2 ^ 31 \<Longrightarrow> c_atoi (show_dec n) = Some (int n)"
  using atoi_digits [OF show_dec_digits, of n] by (simp add: digits_val_show)

lemma version_digits:
  assumes "all_digits xs" "m < 0xFFFFFF"
  shows "version_loop (xs @ ys) cur version m = version_loop ys (cur @ xs) version m"
  using assms(1)
proof (induction xs arbitrary: cur)
  case (Cons x xs)
  then show ?case
    using assms(2) by (auto simp: all_digits_def)
qed simp

lemma version_field:
  assumes "n < 256" "m < 0xFFFFFF"
  shows "version_loop (show_dec n @ 46 # ys) [] version m = version_loop ys [] ((push_bit 8 version OR of_nat n) AND m) (m OR push_bit 8 m)"
  using version_digits [OF show_dec_digits assms(2)] assms atoi_show [of n] by simp

lemma version_last: "n < 256 \<Longrightarrow> version_loop (show_dec n) [] version 0xFFFFFF = Some ((push_bit 8 version OR of_nat n) AND 0xFFFFFF)"
  using show_dec_nonempty [of n] atoi_show [of n] by (cases "show_dec n") simp_all

lemma or_byte: "n < 256 \<Longrightarrow> (push_bit 8 v OR of_nat n :: u32) = push_bit 8 v + of_nat n"
proof (rule disjunctive_add [symmetric], rule disjE)
  fix i
  assume "n < 256"
  then have "take_bit 8 n = n"
    by (simp add: take_bit_nat_eq_self)
  then show "\<not> bit (push_bit 8 v) i \<or> \<not> bit (of_nat n :: u32) i"
    by (metis bit_push_bit_iff bit_of_nat_iff bit_take_bit_iff linorder_not_le)
qed auto

lemma version_pack:
  assumes "n < 256" "256 * v + n < 2 ^ k" "m = mask k" "k \<le> 32"
  shows "(push_bit 8 (of_nat v) OR of_nat n) AND m = (of_nat (256 * v + n) :: u32)"
proof -
  have "push_bit 8 (of_nat v) OR of_nat n = (of_nat (256 * v + n) :: u32)"
    using or_byte [OF assms(1), of "of_nat v"] by (simp add: push_bit_eq_mult)
  moreover have "take_bit k (of_nat (256 * v + n) :: u32) = of_nat (256 * v + n)"
    using assms(2) by (simp only: take_bit_of_nat take_bit_nat_eq_self)
  ultimately show ?thesis
    unfolding assms(3) by (simp only: take_bit_eq_mask)
qed

lemma version_masks: "(0xFF :: u32) = mask 8" "(0xFFFF :: u32) = mask 16" "(0xFFFFFF :: u32) = mask 24"
  "0xFF OR push_bit 8 0xFF = (0xFFFF :: u32)" "0xFFFF OR push_bit 8 0xFFFF = (0xFFFFFF :: u32)"
  by (simp_all add: mask_eq_exp_minus_1)

lemma version_fields:
  assumes "a < 256" "b < 256" "c < 256"
  shows "version_loop (show_dec a @ 46 # show_dec b @ 46 # show_dec c) [] 0 0xFF = Some (of_nat (65536 * a + 256 * b + c))"
proof -
  have "(push_bit 8 0 OR of_nat a) AND 0xFF = (of_nat a :: u32)"
    using version_pack [of a 0 8 "0xFF"] assms(1) version_masks(1) by simp
  moreover have "(push_bit 8 (of_nat a) OR of_nat b) AND 0xFFFF = (of_nat (256 * a + b) :: u32)"
    using version_pack [of b a 16 "0xFFFF"] assms version_masks(2) by simp
  moreover have "(push_bit 8 (of_nat (256 * a + b)) OR of_nat c) AND 0xFFFFFF = (of_nat (256 * (256 * a + b) + c) :: u32)"
    using version_pack [of c "256 * a + b" 24 "0xFFFFFF"] assms version_masks(3) by simp
  moreover have "256 * (256 * a + b) + c = 65536 * a + 256 * b + c"
    by simp
  ultimately show ?thesis
    using version_field [of a "0xFF"] version_field [of b "0xFFFF"] version_last [of c] assms version_masks(4,5) by simp
qed

lemma show_dec_first: "\<exists>x xs. show_dec n = x # xs \<and> x \<noteq> 118 \<and> x \<noteq> 86"
proof -
  obtain x xs where "show_dec n = x # xs"
    using show_dec_nonempty [of n] by (cases "show_dec n") auto
  moreover from this have "x \<le> 57"
    using show_dec_digits [of n] by (simp add: all_digits_def)
  then have "x \<noteq> 118 \<and> x \<noteq> 86"
    by auto
  ultimately show ?thesis
    by blast
qed

lemma digits_no_nul: "all_digits bs \<Longrightarrow> 0 \<notin> set bs"
  by (auto simp: all_digits_def)

text \<open>Three numbers below 256, printed with dots, are packed into the three low bytes; a leading \<^verbatim>\<open>v\<close> is skipped.\<close>

theorem version_parse_roundtrip:
  assumes "a < 256" "b < 256" "c < 256" "pre \<in> {[], [118], [86]}"
  shows "version_parse (pre @ show_dec a @ 46 # show_dec b @ 46 # show_dec c @ [0]) True = Some (of_nat (65536 * a + 256 * b + c))"
proof -
  let ?v = "show_dec a @ 46 # show_dec b @ 46 # show_dec c"
  have "0 \<notin> set (pre @ ?v)"
    using digits_no_nul [OF show_dec_digits] assms(4) by auto
  then have "c_str (pre @ ?v @ [0]) = pre @ ?v"
    unfolding c_str_def by (simp add: takeWhile_append takeWhile_whole)
  moreover obtain x xs where "show_dec a = x # xs" "x \<noteq> 118" "x \<noteq> 86"
    using show_dec_first by blast
  ultimately show ?thesis
    using version_fields [OF assms(1-3)] assms(4) by (auto simp: version_parse_def)
qed

theorem version_parse_roundtrip_witness: "version_parse (str ''v1.20.3'' @ [0]) True = Some 0x011403"
proof -
  have "show_dec 1 = [49]" "show_dec 20 = [50, 48]" "show_dec 3 = [51]"
    by (simp_all add: show_dec.simps)
  then show ?thesis
    using version_parse_roundtrip [of 1 20 3 "[118]"] by (simp add: str_simps)
qed
end
