(* ===== verification/Config_Parser.thy ===== *)
theory Config_Parser
  imports Scheduler
begin

text \<open>
  The configuration parser of \<^verbatim>\<open>parser.c\<close> and \<^verbatim>\<open>vector.h\<close>: the tree of keywords, the tokens of a line, the values of
  keywords, and the handling of a stream with its blocks and included files. A buffer is a list of bytes, a pointer into it
  is the rest of the list, and reading past its end is undefined. Files are known through the functions of a \<open>file_env\<close>,
  and the callbacks of keywords through a function on a state of any type. Allocations succeed.
\<close>

section \<open>Keywords\<close>

datatype keyword = Keyword (kw_str: bytes) (kw_handler: "nat option") (kw_sub: "keyword list option")

datatype netdefender_state = NET_DEFENDER_STATE_STOP | NET_DEFENDER_STATE_INIT | NET_DEFENDER_STATE_NORMAL | NET_DEFENDER_STATE_FINISH

datatype keyword_type = KW_TYPE_INIT | KW_TYPE_NORMAL

record kw_state =
  g_keywords :: "keyword list"
  g_sublevel :: int
  g_state :: netdefender_state

definition vector_add :: "'a list \<Rightarrow> 'a \<Rightarrow> 'a list" where
  "vector_add v x = v @ [x]"

text \<open>\<^verbatim>\<open>vector_insert_slot\<close> counts an unsigned index down to \<open>slot\<close>.\<close>

function shift_up :: "nat \<Rightarrow> u32 \<Rightarrow> 'a list \<Rightarrow> u32 \<Rightarrow> 'a list option" where
  "shift_up 0 slot v i = None"
| "shift_up (Suc n) slot v i =
    (if slot \<le> i then
       if unat i + 1 < length v then shift_up n slot (v[unat i + 1 := v ! unat i]) (i - 1) else None
     else Some v)"
  by pat_completeness auto
termination shift_up
  by (relation "measure (\<lambda>(n, _). n)") auto

definition vector_insert_slot :: "nat \<Rightarrow> 'a list \<Rightarrow> u32 \<Rightarrow> 'a \<Rightarrow> 'a list option" where
  "vector_insert_slot fuel v slot x = do {
     w \<leftarrow> shift_up fuel slot v (of_nat (length v) - 2);
     if unat slot < length w then Some (w[unat slot := x]) else None }"

definition keyword_alloc :: "keyword list \<Rightarrow> bytes \<Rightarrow> nat option \<Rightarrow> keyword list" where
  "keyword_alloc kws s handler = vector_add kws (Keyword s handler None)"

text \<open>The descent to the last keyword of the last level; a level that is not there is undefined.\<close>

fun alloc_sub :: "nat \<Rightarrow> keyword list \<Rightarrow> bytes \<Rightarrow> nat option \<Rightarrow> keyword list option" where
  "alloc_sub n [] s handler = None"
| "alloc_sub 0 (k # ks) s handler = (let kw = last (k # ks) in
     Some (butlast (k # ks) @ [Keyword (kw_str kw) (kw_handler kw)
       (Some (keyword_alloc (case kw_sub kw of None \<Rightarrow> [] | Some v \<Rightarrow> v) s handler))]))"
| "alloc_sub (Suc n) (k # ks) s handler = (let kw = last (k # ks) in
     case kw_sub kw of None \<Rightarrow> None
     | Some v \<Rightarrow> map_option (\<lambda>w. butlast (k # ks) @ [Keyword (kw_str kw) (kw_handler kw) (Some w)]) (alloc_sub n v s handler))"

definition keyword_alloc_sub :: "bytes \<Rightarrow> nat option \<Rightarrow> kw_state \<Rightarrow> kw_state option" where
  "keyword_alloc_sub s handler k = map_option (\<lambda>kws. k\<lparr>g_keywords := kws\<rparr>) (alloc_sub (nat (g_sublevel k)) (g_keywords k) s handler)"

definition install_sublevel :: "kw_state \<Rightarrow> kw_state option" where
  "install_sublevel k = Some (k\<lparr>g_sublevel := g_sublevel k + 1\<rparr>)"

definition install_sublevel_end :: "kw_state \<Rightarrow> kw_state option" where
  "install_sublevel_end k = Some (k\<lparr>g_sublevel := g_sublevel k - 1\<rparr>)"

definition install_keyword_root :: "bytes \<Rightarrow> nat option \<Rightarrow> kw_state \<Rightarrow> kw_state option" where
  "install_keyword_root s handler k = Some (k\<lparr>g_keywords := keyword_alloc (g_keywords k) s handler\<rparr>)"

definition install_keyword :: "bytes \<Rightarrow> nat option \<Rightarrow> keyword_type \<Rightarrow> kw_state \<Rightarrow> kw_state option" where
  "install_keyword s handler t k =
    keyword_alloc_sub s (if t = KW_TYPE_INIT \<and> g_state k \<noteq> NET_DEFENDER_STATE_INIT then None else handler) k"

section \<open>Tokens\<close>

definition QUOTE :: u8 where "QUOTE = 34"

text \<open>The loops of \<^verbatim>\<open>tokenize_string\<close>; the end of the list is the end of the buffer.\<close>

fun skip_space :: "bytes \<Rightarrow> bytes option" where
  "skip_space [] = None"
| "skip_space (b # bs) = (if c_isspace b \<and> b \<noteq> 0 then skip_space bs else Some (b # bs))"

fun word_end :: "bytes \<Rightarrow> (bytes \<times> bytes) option" where
  "word_end [] = None"
| "word_end (b # bs) =
    (if \<not> c_isspace b \<and> b \<noteq> 0 \<and> b \<noteq> QUOTE then map_option (\<lambda>(w, r). (b # w, r)) (word_end bs) else Some ([], b # bs))"

fun attr_end :: "u8 \<Rightarrow> bytes \<Rightarrow> bytes option" where
  "attr_end prev [] = (if prev = 62 then Some [] else None)"
| "attr_end prev (b # bs) = (if prev \<noteq> 62 \<and> b \<noteq> 0 then attr_end b bs else Some (b # bs))"

text \<open>The end of a line or the start of a comment, from a character that is there.\<close>

definition line_end :: "u8 \<Rightarrow> bool" where
  "line_end b \<longleftrightarrow> b = 0 \<or> b = 33 \<or> b = 35"

lemma skip_space_le: "skip_space bs = Some r \<Longrightarrow> length r \<le> length bs"
  by (induction bs) (auto split: if_splits)

lemma word_end_le: "word_end bs = Some (w, r) \<Longrightarrow> length w + length r = length bs"
  by (induction bs arbitrary: w) (auto split: if_splits)

lemma attr_end_le: "attr_end p bs = Some r \<Longrightarrow> length r \<le> length bs"
  by (induction p bs rule: attr_end.induct) (auto split: if_splits)

text \<open>One turn of the main loop: the token it saves, if any, and the position after it.\<close>

definition next_token :: "bytes \<Rightarrow> (bytes option \<times> bytes) option" where
  "next_token pos = (case pos of [] \<Rightarrow> None
   | b # bs \<Rightarrow>
      if b = QUOTE then Some (Some [QUOTE], bs)
      else do {
        wr \<leftarrow> word_end pos;
        if b = 60 then do { r \<leftarrow> attr_end (last (fst wr)) (snd wr); Some (None, r) }
        else Some (Some (fst wr), snd wr) })"

lemma next_token_progress:
  assumes "next_token pos = Some (t, r)" "skip_space r = Some q" "q = b # bs" "\<not> line_end b"
  shows "length q < length pos"
proof (cases pos)
  case (Cons c cs)
  show ?thesis
  proof (cases "c = QUOTE")
    case True
    then show ?thesis
      using assms skip_space_le by (fastforce simp: next_token_def Cons)
  next
    case False
    then obtain w r' where w: "word_end pos = Some (w, r')"
      using assms(1) by (auto simp: next_token_def Cons bind_eq_Some_conv)
    have le: "length r \<le> length r'"
      using assms(1) w False attr_end_le by (auto simp: next_token_def Cons bind_eq_Some_conv split: if_splits)
    show ?thesis
    proof (cases "c_isspace c \<or> c = 0")
      case True
      then have "r = pos"
        using assms(1) False by (auto simp: next_token_def Cons c_isspace_def split: if_splits)
      then show ?thesis
        using True assms(2-4) skip_space_le [of cs] by (auto simp: Cons line_end_def c_isspace_def split: if_splits)
    next
      case False
      then have "w \<noteq> []"
        using w \<open>c \<noteq> QUOTE\<close> by (auto simp: Cons)
      then show ?thesis
        using word_end_le [OF w] le skip_space_le [OF assms(2)] by (cases w) auto
    qed
  qed
qed (use assms in \<open>simp add: next_token_def\<close>)

function tokenize_loop :: "bytes \<Rightarrow> bytes list \<Rightarrow> bytes list option" where
  "tokenize_loop pos vec = (case next_token pos of None \<Rightarrow> None
   | Some (t, r) \<Rightarrow>
      (case skip_space r of None \<Rightarrow> None
       | Some q \<Rightarrow>
          let vec' = (case t of None \<Rightarrow> vec | Some w \<Rightarrow> vector_add vec w) in
          if q = [] then None
          else if line_end (hd q) then Some vec'
          else tokenize_loop q vec'))"
  by pat_completeness auto
termination tokenize_loop
  by (relation "measure (\<lambda>(pos, _). length pos)") (auto simp: neq_Nil_conv dest: next_token_progress)

declare tokenize_loop.simps [simp del]

definition tokenize_string :: "bytes option \<Rightarrow> bytes list option option" where
  "tokenize_string s = (case s of None \<Rightarrow> Some None
   | Some line \<Rightarrow> do {
       pos \<leftarrow> skip_space line;
       if pos = [] then None
       else if line_end (hd pos) then Some None
       else map_option Some (tokenize_loop pos []) })"

text \<open>
  The value of a keyword. The memory of the quoted form is counted in pointers, so it is never too small; it is null when
  nothing follows the opening quote.
\<close>

definition first_char :: "bytes \<Rightarrow> u8" where
  "first_char s = (case s of [] \<Rightarrow> 0 | c # _ \<Rightarrow> c)"

fun quoted_value :: "bytes \<Rightarrow> bytes list \<Rightarrow> bytes option \<Rightarrow> bytes option" where
  "quoted_value prev [] alloc = alloc"
| "quoted_value prev (s # rest) alloc =
    (let a = (case alloc of None \<Rightarrow> []
              | Some a \<Rightarrow> if first_char s \<noteq> QUOTE \<and> first_char prev \<noteq> QUOTE then a @ [32] else a) in
     quoted_value s rest (Some (if rest \<noteq> [] then a @ s else a)))"

definition set_value :: "bytes list \<Rightarrow> bytes option option" where
  "set_value tokens = (case tokens of
     k # s # rest \<Rightarrow> Some (if first_char s = QUOTE then quoted_value s rest None else Some s)
   | _ \<Rightarrow> None)"

section \<open>Streams\<close>

definition CFG_FILE_MAX_BUF_SZ :: nat where "CFG_FILE_MAX_BUF_SZ = 1024"
definition CFG_FILE_EOB :: bytes where "CFG_FILE_EOB = [125]"
definition INCLUDE :: bytes where "INCLUDE = str ''include''"

text \<open>The characters of a line, whether the end of the file was met, and the rest of the stream.\<close>

fun read_chars :: "bytes \<Rightarrow> bytes \<Rightarrow> bytes \<times> bool \<times> bytes" where
  "read_chars acc [] = (acc, True, [])"
| "read_chars acc (b # bs) =
    (if b = 10 \<or> b = 13 then (acc, False, bs)
     else if length acc < CFG_FILE_MAX_BUF_SZ then read_chars (acc @ [b]) bs
     else (acc, False, bs))"

definition line_buf :: "bytes \<Rightarrow> bytes" where
  "line_buf l = l @ replicate (CFG_FILE_MAX_BUF_SZ - length l) 0"

text \<open>
  What the parser asks the system, from a current directory: the files of a pattern, the contents of a file, whether the
  directory has a name, directories to change to and the directory of a path. The last function is the effect of the
  callbacks on the state they configure.
\<close>

record ('d, 's) cfg_env =
  fs_glob :: "'d \<Rightarrow> bytes \<Rightarrow> bytes list"
  fs_open :: "'d \<Rightarrow> bytes \<Rightarrow> bytes option"
  fs_getcwd :: "'d \<Rightarrow> bytes option"
  fs_chdir :: "'d \<Rightarrow> bytes \<Rightarrow> 'd option"
  fs_dirname :: "bytes \<Rightarrow> bytes"
  kw_call :: "nat \<Rightarrow> bytes list \<Rightarrow> 's \<Rightarrow> 's option"

definition back_to :: "('d, 's) cfg_env \<Rightarrow> bytes \<Rightarrow> 'd \<Rightarrow> 'd" where
  "back_to e path d = (case fs_chdir e d path of None \<Rightarrow> d | Some d' \<Rightarrow> d')"

text \<open>
  The keywords of the current level and the depth of the block are \<^verbatim>\<open>g_current_keywords\<close> and \<^verbatim>\<open>g_keyword_level\<close>, which
  every call restores. \<^verbatim>\<open>process_stream\<close> reads lines, and a line may include files that it processes in turn: the
  functions below take the inner call as \<open>ps\<close>.
\<close>

type_synonym ('d, 's) stream_handler = "keyword list \<Rightarrow> nat \<Rightarrow> bytes \<Rightarrow> 'd \<times> 's \<Rightarrow> (bytes \<times> 'd \<times> 's) option"

fun read_conf_files :: "('d, 's) stream_handler \<Rightarrow> ('d, 's) cfg_env \<Rightarrow> keyword list \<Rightarrow> nat \<Rightarrow> bytes list \<Rightarrow> 'd \<times> 's \<Rightarrow> ('d \<times> 's) option" where
  "read_conf_files ps e kws lvl [] st = Some st"
| "read_conf_files ps e kws lvl (p # paths) st =
    (case fs_open e (fst st) p of
       None \<Rightarrow> Some st
     | Some content \<Rightarrow>
        (case fs_getcwd e (fst st) of
           None \<Rightarrow> read_conf_files ps e kws lvl paths st
         | Some prev \<Rightarrow>
            (case fs_chdir e (fst st) (fs_dirname e p) of
               None \<Rightarrow> read_conf_files ps e kws lvl paths st
             | Some d \<Rightarrow> do {
                 r \<leftarrow> ps kws lvl content (d, snd st);
                 read_conf_files ps e kws lvl paths (back_to e prev (fst (snd r)), snd (snd r)) })))"

definition read_conf_file :: "('d, 's) stream_handler \<Rightarrow> ('d, 's) cfg_env \<Rightarrow> keyword list \<Rightarrow> nat \<Rightarrow> bytes \<Rightarrow> 'd \<times> 's \<Rightarrow> ('d \<times> 's) option" where
  "read_conf_file ps e kws lvl conf_file st = read_conf_files ps e kws lvl (fs_glob e (fst st) conf_file) st"

definition check_include :: "('d, 's) stream_handler \<Rightarrow> ('d, 's) cfg_env \<Rightarrow> keyword list \<Rightarrow> nat \<Rightarrow> bytes \<Rightarrow> 'd \<times> 's \<Rightarrow> (bool \<times> 'd \<times> 's) option" where
  "check_include ps e kws lvl line st = do {
     tk \<leftarrow> tokenize_string (Some line);
     case tk of
       None \<Rightarrow> Some (False, st)
     | Some [] \<Rightarrow> None
     | Some (s # tokens) \<Rightarrow>
        if s = CFG_FILE_EOB then Some (False, st)
        else if s = INCLUDE \<and> length tokens = 1 then
          (case fs_getcwd e (fst st) of
             None \<Rightarrow> Some (True, st)
           | Some prev \<Rightarrow> do {
               st1 \<leftarrow> read_conf_file ps e kws lvl (hd tokens) st;
               Some (True, back_to e prev (fst st1), snd st1) })
        else Some (False, st) }"

lemma read_chars_le: "read_chars acc inp = (l, eof, rest) \<Longrightarrow> length rest + length l \<le> length inp + length acc"
  by (induction acc inp rule: read_chars.induct) (auto split: if_splits)

lemma empty_line: "tokenize_string (Some (line_buf [])) = Some None"
  by (simp add: tokenize_string_def line_buf_def CFG_FILE_MAX_BUF_SZ_def line_end_def eval_nat_numeral)

lemma include_nonempty: "check_include ps e kws lvl (line_buf l) st = Some (True, st1) \<Longrightarrow> l \<noteq> []"
  using empty_line by (auto simp: check_include_def)

lemma include_shorter:
  "(l, eof, rest) = read_chars [] inp \<Longrightarrow> check_include ps e kws lvl (line_buf l) st = Some (True, st1) \<Longrightarrow> length rest < length inp"
  using read_chars_le [of "[]" inp l eof rest] include_nonempty [of ps e kws lvl l st st1] by (cases l) simp_all

function read_line :: "('d, 's) stream_handler \<Rightarrow> ('d, 's) cfg_env \<Rightarrow> keyword list \<Rightarrow> nat \<Rightarrow> bytes \<Rightarrow> 'd \<times> 's \<Rightarrow> (bool \<times> bytes \<times> bytes \<times> 'd \<times> 's) option" where
  "read_line ps e kws lvl inp st =
    (case read_chars [] inp of (l, eof, rest) \<Rightarrow>
      (case check_include ps e kws lvl (line_buf l) st of
         None \<Rightarrow> None
       | Some (inc, st1) \<Rightarrow>
          if inc then read_line ps e kws lvl rest st1
          else Some (\<not> eof, line_buf l, rest, st1)))"
  by pat_completeness auto
termination read_line
  by (relation "measure (\<lambda>(ps, e, kws, lvl, inp, st). length inp)") (auto intro: include_shorter)

declare read_line.simps [simp del]

text \<open>
  The result is the rest of the current stream and the state. A file may include itself, so the number of lines read at the
  levels above one another is bounded by a fuel.
\<close>

definition call_handler :: "('d, 's) cfg_env \<Rightarrow> keyword \<Rightarrow> bytes list \<Rightarrow> 's \<Rightarrow> 's option" where
  "call_handler e kw tokens c = (case kw_handler kw of None \<Rightarrow> Some c | Some f \<Rightarrow> kw_call e f tokens c)"

definition handle_keyword :: "('d, 's) stream_handler \<Rightarrow> ('d, 's) cfg_env \<Rightarrow> keyword list \<Rightarrow> nat \<Rightarrow> bytes list \<Rightarrow> bytes \<Rightarrow> 'd \<times> 's \<Rightarrow> (bytes \<times> 'd \<times> 's) option" where
  "handle_keyword ps e kws lvl tokens inp st = (case find (\<lambda>kw. kw_str kw = hd tokens) kws of
     None \<Rightarrow> Some (inp, st)
   | Some kw \<Rightarrow> do {
       c \<leftarrow> call_handler e kw tokens (snd st);
       case kw_sub kw of None \<Rightarrow> Some (inp, fst st, c) | Some sub \<Rightarrow> ps sub (lvl + 1) inp (fst st, c) })"

primrec process_stream :: "nat \<Rightarrow> ('d, 's) cfg_env \<Rightarrow> ('d, 's) stream_handler" where
  "process_stream 0 e = (\<lambda>kws lvl inp st. None)"
| "process_stream (Suc n) e = (\<lambda>kws lvl inp st. do {
     (more, line, inp1, st1) \<leftarrow> read_line (process_stream n e) e kws lvl inp st;
     if \<not> more then Some (inp1, st1)
     else do {
       tk \<leftarrow> tokenize_string (Some line);
       case tk of
         None \<Rightarrow> process_stream n e kws lvl inp1 st1
       | Some [] \<Rightarrow> None
       | Some (s # tokens) \<Rightarrow>
          if s = CFG_FILE_EOB \<and> 0 < lvl then Some (inp1, st1)
          else do {
            (inp2, st2) \<leftarrow> handle_keyword (process_stream n e) e kws lvl (s # tokens) inp1 st1;
            process_stream n e kws lvl inp2 st2 } } })"

text \<open>\<^verbatim>\<open>init_data\<close>: the keywords are built, the file is read and the keywords are freed.\<close>

definition init_data :: "nat \<Rightarrow> ('d, 's) cfg_env \<Rightarrow> bytes option \<Rightarrow> bytes \<Rightarrow> (kw_state \<Rightarrow> kw_state option) \<Rightarrow> kw_state \<Rightarrow> 'd \<times> 's \<Rightarrow> (kw_state \<times> 'd \<times> 's) option" where
  "init_data n e conf_file default_file init_keywords k st = do {
     k1 \<leftarrow> init_keywords (k\<lparr>g_keywords := []\<rparr>);
     st1 \<leftarrow> read_conf_file (process_stream n e) e (g_keywords k1) 0 (case conf_file of None \<Rightarrow> default_file | Some f \<Rightarrow> f) st;
     Some (k1\<lparr>g_keywords := []\<rparr>, st1) }"

section \<open>Tokens of a line\<close>

text \<open>A line that ends within its buffer is cut into tokens without reading past the end.\<close>

definition token_ok :: "bytes \<Rightarrow> bool" where
  "token_ok t \<longleftrightarrow> t = [QUOTE] \<or> t \<noteq> [] \<and> (\<forall>b \<in> set t. \<not> c_isspace b \<and> b \<noteq> 0 \<and> b \<noteq> QUOTE)"

lemma skip_space_stops:
  "0 \<in> set bs \<Longrightarrow> \<exists>b r. skip_space bs = Some (b # r) \<and> 0 \<in> set (b # r) \<and> (\<not> c_isspace b \<or> b = 0)"
  by (induction bs) (auto simp: c_isspace_def)

lemma word_end_stops:
  "0 \<in> set bs \<Longrightarrow> \<exists>w r. word_end bs = Some (w, r) \<and> 0 \<in> set r \<and> (\<forall>b \<in> set w. \<not> c_isspace b \<and> b \<noteq> 0 \<and> b \<noteq> QUOTE)"
proof (induction bs)
  case (Cons b bs)
  show ?case
  proof (cases "\<not> c_isspace b \<and> b \<noteq> 0 \<and> b \<noteq> QUOTE")
    case True
    then obtain w r where "word_end bs = Some (w, r)" "0 \<in> set r" "\<forall>b \<in> set w. \<not> c_isspace b \<and> b \<noteq> 0 \<and> b \<noteq> QUOTE"
      using Cons by auto
    then show ?thesis
      using True by simp
  qed (use Cons.prems in auto)
qed simp

lemma attr_end_stops: "0 \<in> set bs \<Longrightarrow> \<exists>r. attr_end p bs = Some r \<and> 0 \<in> set r"
  by (induction p bs rule: attr_end.induct) auto

lemma next_token_stops:
  assumes "0 \<in> set (b # bs)" "\<not> c_isspace b" "b \<noteq> 0"
  shows "\<exists>t r. next_token (b # bs) = Some (t, r) \<and> 0 \<in> set r \<and> (\<forall>w. t = Some w \<longrightarrow> token_ok w)"
proof (cases "b = QUOTE")
  case True
  then show ?thesis
    using assms by (auto simp: next_token_def token_ok_def QUOTE_def)
next
  case False
  obtain w r where w: "word_end (b # bs) = Some (w, r)" "0 \<in> set r" "\<forall>b \<in> set w. \<not> c_isspace b \<and> b \<noteq> 0 \<and> b \<noteq> QUOTE"
    using word_end_stops [OF assms(1)] by blast
  have "w \<noteq> []"
    using w(1) assms False by auto
  then show ?thesis
    using w False attr_end_stops [OF w(2), of "last w"] by (auto simp: next_token_def token_ok_def simp del: word_end.simps)
qed

lemma tokenize_loop_stops:
  assumes "0 \<in> set pos" "pos \<noteq> []" "\<not> c_isspace (hd pos)" "hd pos \<noteq> 0" "\<forall>t \<in> set vec. token_ok t"
  shows "\<exists>ts. tokenize_loop pos vec = Some ts \<and> (\<forall>t \<in> set ts. token_ok t)"
  using assms
proof (induction pos vec rule: tokenize_loop.induct)
  case (1 pos vec)
  obtain t r where t: "next_token pos = Some (t, r)" "0 \<in> set r" "\<forall>w. t = Some w \<longrightarrow> token_ok w"
    using next_token_stops [of "hd pos" "tl pos"] "1.prems" by auto
  obtain b q where q: "skip_space r = Some (b # q)" "0 \<in> set (b # q)" "\<not> c_isspace b \<or> b = 0"
    using skip_space_stops [OF t(2)] by blast
  let ?vec = "case t of None \<Rightarrow> vec | Some w \<Rightarrow> vector_add vec w"
  have v: "\<forall>t \<in> set ?vec. token_ok t"
    using t(3) "1.prems"(5) by (auto simp: vector_add_def split: option.splits)
  show ?case
  proof (cases "line_end b")
    case True
    then show ?thesis
      using t(1) q(1) v by (subst tokenize_loop.simps) simp
  next
    case False
    then have "\<exists>ts. tokenize_loop (b # q) ?vec = Some ts \<and> (\<forall>t \<in> set ts. token_ok t)"
      using "1.IH" [OF t(1) refl q(1) refl] q(2,3) v by (auto simp: line_end_def)
    then show ?thesis
      using t(1) q(1) False by (subst tokenize_loop.simps) simp
  qed
qed

lemma tokenize_safe:
  assumes "0 \<in> set line"
  shows "\<exists>r. tokenize_string (Some line) = Some r \<and> (\<forall>ts. r = Some ts \<longrightarrow> (\<forall>t \<in> set ts. token_ok t))"
proof -
  obtain b r where s: "skip_space line = Some (b # r)" "0 \<in> set (b # r)" "\<not> c_isspace b \<or> b = 0"
    using skip_space_stops [OF assms] by blast
  show ?thesis
  proof (cases "line_end b")
    case False
    then show ?thesis
      using tokenize_loop_stops [of "b # r" "[]"] s by (auto simp: tokenize_string_def line_end_def)
  qed (use s in \<open>simp add: tokenize_string_def\<close>)
qed

lemma line_buf_ends: "length l < CFG_FILE_MAX_BUF_SZ \<Longrightarrow> 0 \<in> set (line_buf l)"
  by (simp add: line_buf_def)

text \<open>A line shorter than the buffer is cut into tokens that are single quotes or words without blanks and quotes. A line that
  fills the buffer with one word runs past its end.
\<close>

theorem tokenizer_bounds:
  "(length l < CFG_FILE_MAX_BUF_SZ \<longrightarrow>
     (\<exists>r. tokenize_string (Some (line_buf l)) = Some r \<and> (\<forall>ts. r = Some ts \<longrightarrow> (\<forall>t \<in> set ts. token_ok t))))
   \<and> (length l = CFG_FILE_MAX_BUF_SZ \<and> token_ok l \<and> hd l \<notin> {33, 35} \<longrightarrow> tokenize_string (Some (line_buf l)) = None)"
proof (intro conjI impI)
  assume "length l < CFG_FILE_MAX_BUF_SZ"
  then show "\<exists>r. tokenize_string (Some (line_buf l)) = Some r \<and> (\<forall>ts. r = Some ts \<longrightarrow> (\<forall>t \<in> set ts. token_ok t))"
    by (intro tokenize_safe line_buf_ends)
next
  assume a: "length l = CFG_FILE_MAX_BUF_SZ \<and> token_ok l \<and> hd l \<notin> {33, 35}"
  then have l: "line_buf l = l" "\<forall>b \<in> set l. \<not> c_isspace b \<and> b \<noteq> 0 \<and> b \<noteq> QUOTE" "l \<noteq> []"
    by (auto simp: line_buf_def token_ok_def CFG_FILE_MAX_BUF_SZ_def)
  have w: "\<forall>b \<in> set xs. \<not> c_isspace b \<and> b \<noteq> 0 \<and> b \<noteq> QUOTE \<Longrightarrow> word_end xs = None" for xs
    by (induction xs) auto
  have "skip_space l = Some l" "next_token l = None"
    using l(2,3) w [OF l(2)] by (cases l; simp add: next_token_def)+
  moreover have "\<not> line_end (hd l)"
    using a l(2,3) by (auto simp: line_end_def)
  ultimately show "tokenize_string (Some (line_buf l)) = None"
    using l tokenize_loop.simps [of l "[]"] by (auto simp: tokenize_string_def)
qed

theorem tokenizer_bounds_witness:
  "tokenize_string (Some (line_buf (replicate 1024 97))) = None \<and> (\<exists>r. tokenize_string (Some (line_buf [])) = Some r)"
  using tokenizer_bounds [of "replicate 1024 97"] tokenizer_bounds [of "[]"]
  by (auto simp: CFG_FILE_MAX_BUF_SZ_def token_ok_def c_isspace_def QUOTE_def)

text \<open>A line of attributes only has no token, and the test for an include reads its first one.\<close>

theorem attribute_line_undefined:
  assumes "\<forall>b \<in> set a. \<not> c_isspace b \<and> b \<noteq> 0 \<and> b \<noteq> QUOTE \<and> b \<noteq> 62" "length a + 2 < CFG_FILE_MAX_BUF_SZ"
  shows "tokenize_string (Some (line_buf (60 # a @ [62]))) = Some (Some [])
    \<and> check_include ps e kws lvl (line_buf (60 # a @ [62])) st = None
    \<and> process_stream n e kws lvl (60 # a @ [62, 10]) st = None"
proof -
  obtain z where z: "line_buf (60 # a @ [62]) = 60 # a @ [62] @ 0 # z"
    using assms(2) by (cases "CFG_FILE_MAX_BUF_SZ - length (60 # a @ [62])") (auto simp: line_buf_def)
  have w: "word_end (xs @ 0 # z) = Some (xs, 0 # z)" if "\<forall>b \<in> set xs. \<not> c_isspace b \<and> b \<noteq> 0 \<and> b \<noteq> QUOTE" for xs
    using that by (induction xs) auto
  have "word_end (60 # a @ [62] @ 0 # z) = Some (60 # a @ [62], 0 # z)"
    using w [of "60 # a @ [62]"] assms(1) by (auto simp: c_isspace_def QUOTE_def)
  then have "next_token (60 # a @ [62] @ 0 # z) = Some (None, 0 # z)"
    by (simp add: next_token_def QUOTE_def del: word_end.simps)
  then have t: "tokenize_string (Some (line_buf (60 # a @ [62]))) = Some (Some [])"
    unfolding z by (subst tokenize_string_def) (simp add: tokenize_loop.simps c_isspace_def line_end_def)
  have c: "check_include ps e kws lvl (line_buf (60 # a @ [62])) st = None" for ps
    using t by (simp add: check_include_def)
  have r: "read_chars acc (xs @ [10]) = (acc @ xs, False, [])" if "\<forall>b \<in> set xs. b \<noteq> 10 \<and> b \<noteq> 13" "length (acc @ xs) < CFG_FILE_MAX_BUF_SZ" for acc xs
    using that by (induction xs arbitrary: acc) auto
  have "b \<noteq> 10 \<and> b \<noteq> 13" if "\<not> c_isspace b" for b
    using that by (auto simp: c_isspace_def)
  then have "\<forall>b \<in> set (60 # a @ [62]). b \<noteq> 10 \<and> b \<noteq> 13"
    using assms(1) by simp
  then have "read_chars [] (60 # a @ [62, 10]) = (60 # a @ [62], False, [])"
    using r [of "60 # a @ [62]" "[]"] assms(2) by simp
  then have "read_line ps e kws lvl (60 # a @ [62, 10]) st = None" for ps
    using c by (subst read_line.simps) simp
  then show ?thesis
    using t c by (cases n) simp_all
qed

theorem attribute_line_undefined_witness: 
  "\<forall>n e kws. process_stream n e kws 0 (60 # str ''init'' @ [62, 10]) ((), ()) = None"
proof -
  have i: "\<forall>b \<in> set (str ''init''). \<not> c_isspace b \<and> b \<noteq> 0 \<and> b \<noteq> QUOTE \<and> b \<noteq> 62" "length (str ''init'') + 2 < CFG_FILE_MAX_BUF_SZ"
    by (simp_all add: str_simps c_isspace_def QUOTE_def CFG_FILE_MAX_BUF_SZ_def)
  show ?thesis
    using attribute_line_undefined [OF i] by blast
qed

subsection \<open>Values\<close>

definition plain_word :: "bytes \<Rightarrow> bool" where
  "plain_word w \<longleftrightarrow> w \<noteq> [] \<and> (\<forall>b \<in> set w. \<not> c_isspace b \<and> b \<noteq> 0 \<and> b \<noteq> QUOTE) \<and> hd w \<notin> {60, 33, 35}"

fun join_words :: "bytes list \<Rightarrow> bytes" where
  "join_words [] = []"
| "join_words [w] = w"
| "join_words (w # ws) = w @ 32 # join_words ws"

lemma word_end_plain: "\<forall>b \<in> set w. \<not> c_isspace b \<and> b \<noteq> 0 \<and> b \<noteq> QUOTE \<Longrightarrow> c_isspace b \<or> b = 0 \<or> b = QUOTE \<Longrightarrow>
  word_end (w @ b # r) = Some (w, b # r)"
  by (induction w) auto

lemma loop_word:
  assumes "plain_word w" "c_isspace b \<or> b = 0 \<or> b = QUOTE" "skip_space (b # r) = Some (c # q)"
  shows "tokenize_loop (w @ b # r) vec = (if line_end c then Some (vec @ [w]) else tokenize_loop (c # q) (vec @ [w]))"
proof -
  obtain x xs where x: "w = x # xs" "x \<noteq> QUOTE" "x \<noteq> 60"
    using assms(1) by (cases w) (auto simp: plain_word_def)
  have "word_end (x # xs @ b # r) = Some (w, b # r)"
    using word_end_plain [of w b r] assms(1,2) by (simp add: plain_word_def x(1))
  then have "next_token (w @ b # r) = Some (Some w, b # r)"
    using x by (simp add: next_token_def del: word_end.simps)
  then show ?thesis
    using assms(3) by (subst tokenize_loop.simps) (simp add: vector_add_def)
qed

lemma loop_quote:
  assumes "skip_space r = Some (c # q)"
  shows "tokenize_loop (QUOTE # r) vec = (if line_end c then Some (vec @ [[QUOTE]]) else tokenize_loop (c # q) (vec @ [[QUOTE]]))"
  using assms by (subst tokenize_loop.simps) (simp add: next_token_def vector_add_def)

lemma skip_plain: "plain_word w \<Longrightarrow> skip_space (w @ r) = Some (w @ r)"
  by (cases w) (auto simp: plain_word_def)

lemma plain_head: "plain_word w \<Longrightarrow> \<exists>x xs. w = x # xs \<and> \<not> line_end x"
  by (cases w) (auto simp: plain_word_def line_end_def)

lemma space_byte: "c_isspace 32" "\<not> c_isspace QUOTE" "\<not> c_isspace 0" "QUOTE \<noteq> 0" "\<not> line_end QUOTE" "line_end 0"
  by (simp_all add: c_isspace_def QUOTE_def line_end_def)

lemma join_words_Cons: "ws \<noteq> [] \<Longrightarrow> join_words (w # ws) = w @ 32 # join_words ws"
  by (cases ws) auto

lemma join_head: "ws \<noteq> [] \<Longrightarrow> \<forall>w \<in> set ws. plain_word w \<Longrightarrow> \<exists>x xs. join_words ws = x # xs \<and> \<not> line_end x \<and> \<not> c_isspace x"
proof -
  assume a: "ws \<noteq> []" "\<forall>w \<in> set ws. plain_word w"
  obtain w vs where ws: "ws = w # vs"
    using a(1) by (cases ws) auto
  then obtain x xs where "w = x # xs" "\<not> line_end x" "\<not> c_isspace x"
    using a(2) plain_head [of w] by (auto simp: plain_word_def)
  then show ?thesis
    by (cases vs) (auto simp: ws)
qed

lemma loop_words:
  "ws \<noteq> [] \<Longrightarrow> \<forall>w \<in> set ws. plain_word w \<Longrightarrow> tokenize_loop (join_words ws @ QUOTE # r) vec = tokenize_loop (QUOTE # r) (vec @ ws)"
proof (induction ws arbitrary: vec)
  case (Cons w ws)
  show ?case
  proof (cases "ws = []")
    case True
    then show ?thesis
      using loop_word [of w QUOTE r QUOTE r vec] Cons.prems space_byte by simp
  next
    case False
    obtain x xs where x: "join_words ws = x # xs" "\<not> line_end x" "\<not> c_isspace x"
      using join_head [OF False] Cons.prems by auto
    have "skip_space (32 # join_words ws @ QUOTE # r) = Some (join_words ws @ QUOTE # r)"
      using x space_byte by simp
    then show ?thesis
      using loop_word [of w 32 "join_words ws @ QUOTE # r" x "xs @ QUOTE # r" vec] Cons x(1,2) space_byte False
      by (simp add: join_words_Cons)
  qed
qed simp

lemma plain_first: "plain_word w \<Longrightarrow> first_char w \<noteq> QUOTE"
  by (cases w) (auto simp: plain_word_def first_char_def)

text \<open>The joined words come out of the tokens of the quoted form.\<close>

lemma quoted_words:
  "\<forall>w \<in> set ws. plain_word w \<Longrightarrow> plain_word prev \<Longrightarrow>
   quoted_value prev (ws @ [[QUOTE]]) (Some a) = Some (if ws = [] then a else a @ 32 # join_words ws)"
proof (induction ws arbitrary: prev a)
  case Nil
  then show ?case
    by (simp add: first_char_def)
next
  case (Cons w ws)
  have p: "first_char w \<noteq> QUOTE" "first_char prev \<noteq> QUOTE"
    using Cons.prems by (simp_all add: plain_first)
  show ?case
    using Cons.IH [of w "a @ 32 # w"] Cons.prems p by (cases "ws = []") (simp_all add: join_words_Cons first_char_def)
qed

lemma set_value_quoted:
  assumes "ws \<noteq> []" "\<forall>w \<in> set ws. plain_word w"
  shows "set_value (kw # [QUOTE] # ws @ [[QUOTE]]) = Some (Some (join_words ws))"
proof -
  obtain w vs where ws: "ws = w # vs"
    using assms(1) by (cases ws) auto
  show ?thesis
    using quoted_words [of vs w w] assms(2) by (cases "vs = []") (simp_all add: set_value_def ws first_char_def join_words_Cons)
qed

text \<open>
  A keyword with a quoted value of one or more words: the tokens are the keyword, the words and the two quotes, and
  \<^verbatim>\<open>set_value\<close> gives the words back, separated by single blanks.
\<close>

theorem quoted_value_roundtrip:
  assumes "plain_word kw" "ws \<noteq> []" "\<forall>w \<in> set ws. plain_word w"
    and "l = kw @ 32 # QUOTE # join_words ws @ [QUOTE]" "length l < CFG_FILE_MAX_BUF_SZ"
  shows "\<exists>tokens. tokenize_string (Some (line_buf l)) = Some (Some tokens) \<and> hd tokens = kw \<and> set_value tokens = Some (Some (join_words ws))"
proof -
  obtain z where z: "line_buf l = l @ 0 # z"
    using assms(5) by (cases "CFG_FILE_MAX_BUF_SZ - length l") (auto simp: line_buf_def)
  let ?q = "QUOTE # join_words ws @ QUOTE # 0 # z"
  have l: "l @ 0 # z = kw @ 32 # ?q"
    by (simp add: assms(4))
  obtain x xs where x: "join_words ws = x # xs" "\<not> line_end x" "\<not> c_isspace x"
    using join_head [OF assms(2,3)] by blast
  have "skip_space (join_words ws @ QUOTE # 0 # z) = Some (x # xs @ QUOTE # 0 # z)"
    using x by simp
  then have "tokenize_loop ?q [kw] = tokenize_loop (QUOTE # 0 # z) (([kw] @ [[QUOTE]]) @ ws)"
    using loop_quote [of "join_words ws @ QUOTE # 0 # z"] loop_words [OF assms(2,3), of "0 # z"] x by simp
  also have "\<dots> = Some (kw # [QUOTE] # ws @ [[QUOTE]])"
    using loop_quote [of "0 # z" 0 z] space_byte by simp
  finally have "tokenize_loop (kw @ 32 # ?q) [] = Some (kw # [QUOTE] # ws @ [[QUOTE]])"
    using loop_word [OF assms(1), of 32 ?q QUOTE "join_words ws @ QUOTE # 0 # z" "[]"] space_byte by simp
  moreover have "kw @ 32 # ?q \<noteq> []" "\<not> line_end (hd (kw @ 32 # ?q))"
    using plain_head [OF assms(1)] by auto
  ultimately have "tokenize_string (Some (line_buf l)) = Some (Some (kw # [QUOTE] # ws @ [[QUOTE]]))"
    unfolding z l by (simp add: tokenize_string_def skip_plain [OF assms(1)])
  then show ?thesis
    using set_value_quoted [OF assms(2,3)] by simp
qed

theorem quoted_value_roundtrip_witness:
  "\<exists>tokens. tokenize_string (Some (line_buf (str ''log'' @ 32 # QUOTE # str ''all rules'' @ [QUOTE]))) = Some (Some tokens)
    \<and> set_value tokens = Some (Some (str ''all rules''))"
  using quoted_value_roundtrip [of "str ''log''" "[str ''all'', str ''rules'']"]
  by (fastforce simp: str_simps plain_word_def c_isspace_def QUOTE_def CFG_FILE_MAX_BUF_SZ_def)

section \<open>Streams without includes\<close>

lemma read_chars_shorter: "read_chars acc inp = (l, False, rest) \<Longrightarrow> length rest < length inp"
  by (induction acc inp rule: read_chars.induct) (auto split: if_splits)

lemma read_chars_eof: "read_chars acc inp = (l, True, rest) \<Longrightarrow> rest = []"
  by (induction acc inp rule: read_chars.induct) (auto split: if_splits)

text \<open>The lines of a stream as the parser reads them.\<close>

function stream_lines :: "bytes \<Rightarrow> bytes list" where
  "stream_lines inp = (case read_chars [] inp of (l, eof, rest) \<Rightarrow> if eof then [l] else l # stream_lines rest)"
  by pat_completeness auto
termination stream_lines
  by (relation "measure length") (auto dest: read_chars_shorter [OF sym])

declare stream_lines.simps [simp del]

definition plain_line :: "bytes \<Rightarrow> bool" where
  "plain_line l \<longleftrightarrow> length l < CFG_FILE_MAX_BUF_SZ \<and> tokenize_string (Some (line_buf l)) \<noteq> Some (Some [])
     \<and> (\<forall>ts. tokenize_string (Some (line_buf l)) \<noteq> Some (Some (INCLUDE # ts)))"

definition plain_stream :: "bytes \<Rightarrow> bool" where
  "plain_stream inp \<longleftrightarrow> (\<forall>l \<in> set (stream_lines inp). plain_line l)"

lemma plain_stream_line:
  assumes "plain_stream inp" "read_chars [] inp = (l, eof, rest)"
  shows "plain_line l" "\<not> eof \<Longrightarrow> plain_stream rest"
  using assms by (simp_all add: plain_stream_def stream_lines.simps [of inp])

lemma plain_tokens:
  assumes "plain_line l"
  obtains "tokenize_string (Some (line_buf l)) = Some None"
  | s ts where "tokenize_string (Some (line_buf l)) = Some (Some (s # ts))" "s \<noteq> INCLUDE"
proof -
  obtain r where r: "tokenize_string (Some (line_buf l)) = Some r"
    using tokenize_safe [OF line_buf_ends] assms unfolding plain_line_def by blast
  show ?thesis
  proof (cases r)
    case None
    then show ?thesis
      using r that(1) by blast
  next
    case (Some ts)
    then show ?thesis
      using r assms that(2) by (cases ts) (auto simp: plain_line_def)
  qed
qed

lemma plain_include: "plain_line l \<Longrightarrow> check_include ps e kws lvl (line_buf l) st = Some (False, st)"
  by (elim plain_tokens) (simp_all add: check_include_def)

lemma plain_read_line:
  "plain_line l \<Longrightarrow> read_chars [] inp = (l, eof, rest) \<Longrightarrow> read_line ps e kws lvl inp st = Some (\<not> eof, line_buf l, rest, st)"
  by (subst read_line.simps) (simp add: plain_include)

definition handlers_total :: "('d, 's) cfg_env \<Rightarrow> bool" where
  "handlers_total e \<longleftrightarrow> (\<forall>f ts c. kw_call e f ts c \<noteq> None)"

lemma call_handler_total: "handlers_total e \<Longrightarrow> \<exists>c'. call_handler e kw ts c = Some c'"
  by (auto simp: call_handler_def handlers_total_def split: option.splits)

text \<open>What a call of \<^verbatim>\<open>process_stream\<close> with enough fuel gives.\<close>

definition returns_suffix :: "('d, 's) stream_handler \<Rightarrow> nat \<Rightarrow> bool" where
  "returns_suffix ps n \<longleftrightarrow> (\<forall>kws lvl inp st. plain_stream inp \<and> length inp < n \<longrightarrow>
     (\<exists>rest st'. ps kws lvl inp st = Some (rest, st') \<and> length rest \<le> length inp \<and> plain_stream rest))"

lemma returns_suffixD:
  "returns_suffix ps n \<Longrightarrow> plain_stream inp \<Longrightarrow> length inp < n \<Longrightarrow>
   \<exists>rest st'. ps kws lvl inp st = Some (rest, st') \<and> length rest \<le> length inp \<and> plain_stream rest"
  unfolding returns_suffix_def by blast

lemma handle_keyword_returns:
  assumes "handlers_total e" "returns_suffix ps n" "plain_stream inp" "length inp < n"
  shows "\<exists>rest st'. handle_keyword ps e kws lvl ts inp st = Some (rest, st') \<and> length rest \<le> length inp \<and> plain_stream rest"
proof (cases "find (\<lambda>kw. kw_str kw = hd ts) kws")
  case (Some kw)
  obtain c where "call_handler e kw ts (snd st) = Some c"
    using call_handler_total [OF assms(1)] by blast
  then show ?thesis
    using Some assms(3) returns_suffixD [OF assms(2-4)] by (cases "kw_sub kw") (simp_all add: handle_keyword_def)
qed (use assms(3) in \<open>simp add: handle_keyword_def\<close>)

lemma empty_plain: "plain_stream []"
  by (simp add: plain_stream_def stream_lines.simps plain_line_def empty_line CFG_FILE_MAX_BUF_SZ_def)

lemma process_stream_returns: "handlers_total e \<Longrightarrow> returns_suffix (process_stream n e) n"
proof (induction n)
  case (Suc n)
  note IH = Suc.IH [OF Suc.prems]
  show ?case
    unfolding returns_suffix_def
  proof (intro allI impI, elim conjE)
    fix kws lvl inp st
    assume a: "plain_stream inp" "length inp < Suc n"
    obtain l eof rest where r: "read_chars [] inp = (l, eof, rest)"
      by (metis prod_cases3)
    note l = plain_stream_line [OF a(1) r] and rl = plain_read_line [OF plain_stream_line(1) [OF a(1) r] r, of "process_stream n e" e kws lvl st]
    show "\<exists>rest' st'. process_stream (Suc n) e kws lvl inp st = Some (rest', st') \<and> length rest' \<le> length inp \<and> plain_stream rest'"
    proof (cases eof)
      case True
      moreover have "rest = []"
        using read_chars_eof [of "[]" inp l rest] r True by simp
      ultimately show ?thesis
        using rl empty_plain by simp
    next
      case False
      then have s: "length rest < length inp" "plain_stream rest" "length rest < n"
        using read_chars_shorter [of "[]" inp l rest] r l(2) a(2) by simp_all
      obtain rest1 st1 where p: "process_stream n e kws lvl rest st = Some (rest1, st1)" "length rest1 \<le> length rest" "plain_stream rest1"
        using returns_suffixD [OF IH s(2) s(3)] by blast
      show ?thesis
        using l(1)
      proof (cases rule: plain_tokens)
        case 1
        then show ?thesis
          using rl False p s(1) by simp
      next
        case (2 s0 ts)
        obtain rest2 st2 where h: "handle_keyword (process_stream n e) e kws lvl (s0 # ts) rest st = Some (rest2, st2)"
            "length rest2 \<le> length rest" "plain_stream rest2"
          using handle_keyword_returns [OF Suc.prems IH s(2,3)] by blast
        have "length rest2 < n"
          using h(2) s(1) a(2) by simp
        then obtain rest3 st3 where "process_stream n e kws lvl rest2 st2 = Some (rest3, st3)" "length rest3 \<le> length rest2" "plain_stream rest3"
          using returns_suffixD [OF IH h(3)] by blast
        then show ?thesis
          using rl False 2 h s by simp
      qed
    qed
  qed
qed (simp add: returns_suffix_def)


definition null_env :: "(unit, bytes list list) cfg_env" where
  "null_env = \<lparr>fs_glob = \<lambda>_ _. [], fs_open = \<lambda>_ _. None, fs_getcwd = \<lambda>_. None, fs_chdir = \<lambda>_ _. None, fs_dirname = \<lambda>p. p,
     kw_call = \<lambda>f ts c. Some (c @ [ts])\<rparr>"

lemma null_env_total: "handlers_total null_env"
  by (simp add: handlers_total_def null_env_def)

lemma newlines_plain: "plain_stream (replicate n 10)"
proof (induction n)
  case (Suc n)
  then show ?case
    by (simp add: plain_stream_def stream_lines.simps [of "10 # _"] plain_line_def empty_line CFG_FILE_MAX_BUF_SZ_def)
qed (simp add: empty_plain)


lemma read_chars_line:
  "\<forall>b \<in> set l. b \<noteq> 10 \<and> b \<noteq> 13 \<Longrightarrow> length (acc @ l) < CFG_FILE_MAX_BUF_SZ \<Longrightarrow> read_chars acc (l @ 10 # rest) = (acc @ l, False, rest)"
  by (induction l arbitrary: acc) auto

lemma read_chars_last:
  "\<forall>b \<in> set l. b \<noteq> 10 \<and> b \<noteq> 13 \<Longrightarrow> length (acc @ l) < CFG_FILE_MAX_BUF_SZ \<Longrightarrow> read_chars acc l = (acc @ l, True, [])"
  by (induction l arbitrary: acc) auto

text \<open>The last line of a file is dropped when no line end follows it, whatever its keyword.\<close>

theorem last_line_without_newline_ignored:
  assumes "plain_line l" "\<forall>b \<in> set l. b \<noteq> 10 \<and> b \<noteq> 13"
  shows "process_stream (Suc n) e kws lvl l st = Some ([], st)"
proof -
  have "read_chars [] l = (l, True, [])"
    using read_chars_last [OF assms(2), of "[]"] assms(1) by (simp add: plain_line_def)
  from plain_read_line [OF assms(1) this, of "process_stream n e" e kws lvl st] show ?thesis
    by simp
qed

section \<open>Configuration files\<close>

text \<open>
  A file as nested items: a line of words, or a line that opens a block, its items and a closing line. The callbacks are
  called in the order of the file.
\<close>

datatype item = Line "bytes list" | Block "bytes list" "item list"

fun print_items :: "item list \<Rightarrow> bytes" where
  "print_items [] = []"
| "print_items (Line ws # is) = join_words ws @ 10 # print_items is"
| "print_items (Block ws body # is) = join_words (ws @ [[123]]) @ 10 # print_items body @ 125 # 10 # print_items is"

fun exec_items :: "('d, 's) cfg_env \<Rightarrow> keyword list \<Rightarrow> item list \<Rightarrow> 's \<Rightarrow> 's option" where
  "exec_items e kws [] c = Some c"
| "exec_items e kws (Line ws # is) c =
    (case find (\<lambda>kw. kw_str kw = hd ws) kws of None \<Rightarrow> None
     | Some kw \<Rightarrow> Option.bind (call_handler e kw ws c) (exec_items e kws is))"
| "exec_items e kws (Block ws body # is) c =
    (case find (\<lambda>kw. kw_str kw = hd ws) kws of None \<Rightarrow> None
     | Some kw \<Rightarrow> Option.bind (call_handler e kw (ws @ [[123]]) c)
         (\<lambda>c1. Option.bind (exec_items e (the (kw_sub kw)) body c1) (exec_items e kws is)))"

definition line_ok :: "bytes list \<Rightarrow> bool" where
  "line_ok ws \<longleftrightarrow> ws \<noteq> [] \<and> (\<forall>w \<in> set ws. plain_word w) \<and> hd ws \<notin> {INCLUDE, CFG_FILE_EOB} \<and> length (join_words ws) < CFG_FILE_MAX_BUF_SZ"

fun items_ok :: "keyword list \<Rightarrow> item list \<Rightarrow> bool" where
  "items_ok kws [] \<longleftrightarrow> True"
| "items_ok kws (Line ws # is) \<longleftrightarrow> line_ok ws \<and> items_ok kws is
     \<and> (case find (\<lambda>kw. kw_str kw = hd ws) kws of None \<Rightarrow> False | Some kw \<Rightarrow> kw_sub kw = None)"
| "items_ok kws (Block ws body # is) \<longleftrightarrow> ws \<noteq> [] \<and> line_ok (ws @ [[123]]) \<and> items_ok kws is
     \<and> (case find (\<lambda>kw. kw_str kw = hd ws) kws of None \<Rightarrow> False | Some kw \<Rightarrow> kw_sub kw \<noteq> None \<and> items_ok (the (kw_sub kw)) body)"

fun items_fuel :: "item list \<Rightarrow> nat" where
  "items_fuel [] = 0"
| "items_fuel (Line ws # is) = items_fuel is"
| "items_fuel (Block ws body # is) = 1 + length body + items_fuel body + items_fuel is"

lemma loop_line:
  "ws \<noteq> [] \<Longrightarrow> \<forall>w \<in> set ws. plain_word w \<Longrightarrow> tokenize_loop (join_words ws @ 0 # r) vec = Some (vec @ ws)"
proof (induction ws arbitrary: vec)
  case (Cons w ws)
  show ?case
  proof (cases "ws = []")
    case True
    then show ?thesis
      using loop_word [of w 0 r 0 r vec] Cons.prems space_byte by simp
  next
    case False
    obtain x xs where x: "join_words ws = x # xs" "\<not> line_end x" "\<not> c_isspace x"
      using join_head [OF False] Cons.prems by auto
    have "skip_space (32 # join_words ws @ 0 # r) = Some (join_words ws @ 0 # r)"
      using x space_byte by simp
    then show ?thesis
      using loop_word [of w 32 "join_words ws @ 0 # r" x "xs @ 0 # r" vec] Cons x(1,2) space_byte False
      by (simp add: join_words_Cons)
  qed
qed simp

lemma line_tokens:
  assumes "ws \<noteq> []" "\<forall>w \<in> set ws. plain_word w" "length (join_words ws) < CFG_FILE_MAX_BUF_SZ"
  shows "tokenize_string (Some (line_buf (join_words ws))) = Some (Some ws)"
proof -
  obtain z where z: "line_buf (join_words ws) = join_words ws @ 0 # z"
    using assms(3) by (cases "CFG_FILE_MAX_BUF_SZ - length (join_words ws)") (auto simp: line_buf_def)
  obtain x xs where x: "join_words ws = x # xs" "\<not> line_end x" "\<not> c_isspace x"
    using join_head [OF assms(1,2)] by blast
  then have "skip_space (join_words ws @ 0 # z) = Some (x # xs @ 0 # z)"
    by simp
  then show ?thesis
    unfolding z tokenize_string_def using loop_line [OF assms(1,2), of z "[]"] x by simp
qed

lemma join_no_newline: "\<forall>w \<in> set ws. plain_word w \<Longrightarrow> \<forall>b \<in> set (join_words ws). b \<noteq> 10 \<and> b \<noteq> 13"
proof (induction ws rule: join_words.induct)
  case (2 w)
  then show ?case
    by (auto simp: plain_word_def c_isspace_def)
next
  case (3 w v vs)
  moreover have "\<forall>b \<in> set w. b \<noteq> 10 \<and> b \<noteq> 13"
    using 3(2) by (auto simp: plain_word_def c_isspace_def)
  ultimately show ?case
    by auto
qed simp

text \<open>One step of the parser on a printed line.\<close>

lemma line_read:
  assumes "ws \<noteq> []" "\<forall>w \<in> set ws. plain_word w" "hd ws \<noteq> INCLUDE" "length (join_words ws) < CFG_FILE_MAX_BUF_SZ"
  shows "read_line ps e kws lvl (join_words ws @ 10 # rest) st = Some (True, line_buf (join_words ws), rest, st)"
proof (rule plain_read_line [where eof = False, simplified])
  show "plain_line (join_words ws)"
    using assms line_tokens [OF assms(1,2,4)] by (auto simp: plain_line_def)
  show "read_chars [] (join_words ws @ 10 # rest) = (join_words ws, False, rest)"
    using read_chars_line [OF join_no_newline [OF assms(2)], of "[]"] assms(4) by simp
qed

lemma line_step:
  assumes "line_ok ws"
  shows "process_stream (Suc n) e kws lvl (join_words ws @ 10 # rest) st =
    Option.bind (handle_keyword (process_stream n e) e kws lvl ws rest st) (\<lambda>(inp2, st2). process_stream n e kws lvl inp2 st2)"
  using assms line_read [of ws "process_stream n e" e kws lvl rest st] line_tokens [of ws]
  by (cases ws) (auto simp: line_ok_def)

lemma close_step: "process_stream (Suc n) e kws (Suc lvl) (125 # 10 # rest) st = Some (rest, st)"
proof -
  have p: "plain_word [125]" "[125] \<noteq> INCLUDE" "length [125 :: u8] < CFG_FILE_MAX_BUF_SZ"
    by (simp_all add: plain_word_def c_isspace_def QUOTE_def INCLUDE_def str_simps CFG_FILE_MAX_BUF_SZ_def)
  show ?thesis
    using line_read [of "[[125]]" "process_stream n e" e kws "Suc lvl" rest st] line_tokens [of "[[125]]"] p
    by (simp add: CFG_FILE_EOB_def)
qed

text \<open>The same with a rest of the stream behind the items.\<close>

lemma items_parse:
  assumes "items_ok kws is" "exec_items e kws is c = Some c'" "items_fuel is \<le> n"
  shows "process_stream (length is + n) e kws lvl (print_items is @ rest) (d, c) = process_stream n e kws lvl rest (d, c')"
  using assms
proof (induction "is" arbitrary: kws n lvl rest c c' rule: print_items.induct)
  case (2 ws "is")
  obtain kw where kw: "find (\<lambda>kw. kw_str kw = hd ws) kws = Some kw" "kw_sub kw = None"
    using "2.prems"(1) by (auto split: option.splits)
  then obtain c1 where c1: "call_handler e kw ws c = Some c1" "exec_items e kws is c1 = Some c'"
    using "2.prems"(2) by (auto simp: bind_eq_Some_conv)
  have l: "line_ok ws" "items_ok kws is" "items_fuel is \<le> n"
    using "2.prems" by simp_all
  then show ?case
    using "2.IH" [OF l(2) c1(2) l(3), of lvl rest] line_step [OF l(1), of "length is + n" e kws lvl "print_items is @ rest" "(d, c)"] kw c1(1)
    by (simp add: handle_keyword_def del: process_stream.simps)
next
  case (3 ws body "is")
  obtain kw sub where kw: "find (\<lambda>kw. kw_str kw = hd ws) kws = Some kw" "kw_sub kw = Some sub" "items_ok sub body"
    using "3.prems"(1) by (auto split: option.splits)
  then obtain c1 c2 where c: "call_handler e kw (ws @ [[123]]) c = Some c1" "exec_items e sub body c1 = Some c2" "exec_items e kws is c2 = Some c'"
    using "3.prems"(2) by (auto simp: bind_eq_Some_conv)
  have l: "line_ok (ws @ [[123]])" "items_ok kws is" "items_fuel is \<le> n" "hd (ws @ [[123]]) = hd ws"
    using "3.prems" by simp_all
  let ?m = "length is + n"
  obtain m where m: "?m = length body + Suc m" "items_fuel body \<le> Suc m"
    using "3.prems"(3) that [of "?m - length body - 1"] by simp
  have "process_stream ?m e sub (Suc lvl) (print_items body @ 125 # 10 # print_items is @ rest) (d, c1) = Some (print_items is @ rest, d, c2)"
    unfolding m(1) using "3.IH"(1) [OF kw(3) c(2) m(2)] close_step [of m e sub lvl] by simp
  then show ?case
    using "3.IH"(2) [OF l(2) c(3) l(3), of lvl rest] kw c(1) l(4)
      line_step [OF l(1), of ?m e kws lvl "print_items body @ 125 # 10 # print_items is @ rest" "(d, c)"]
    by (simp add: handle_keyword_def del: process_stream.simps)
qed simp

lemma config_file_parsed:
  assumes "items_ok kws is" "exec_items e kws is c = Some c'" "length is + items_fuel is < n"
  shows "process_stream n e kws lvl (print_items is) (d, c) = Some ([], d, c')"
proof -
  obtain m where m: "n = length is + Suc m" "items_fuel is \<le> Suc m"
    using assms(3) that [of "n - length is - 1"] by simp
  have "plain_line []"
    by (simp add: plain_line_def empty_line CFG_FILE_MAX_BUF_SZ_def)
  then have "process_stream (Suc m) e kws lvl [] (d, c') = Some ([], d, c')"
    using plain_read_line [of "[]" "[]" True "[]" "process_stream m e" e kws lvl "(d, c')"] by simp
  then show ?thesis
    using items_parse [OF assms(1,2) m(2), of lvl "[]" d] by (simp add: m(1))
qed

text \<open>C13: Parsing a printed file calls the callbacks of its keywords in the order of the file, each with the words of its line, and
  reads the whole file.
\<close>

theorem config_file_roundtrip:
  assumes "items_ok kws is" "exec_items e kws is c = Some c'" "length is + items_fuel is < n"
  shows "process_stream n e kws lvl (print_items is) (d, c) = Some ([], d, c')"
  by (rule config_file_parsed [OF assms])

definition sample_keywords :: "keyword list" where
  "sample_keywords = [Keyword [97] (Some 1) (Some [Keyword [98] (Some 2) None]), Keyword [99] (Some 3) None]"

definition sample_items :: "item list" where
  "sample_items = [Block [[97], [120]] [Line [[98], [49]], Line [[98], [50]]], Line [[99]]]"

theorem config_file_roundtrip_witness:
  "process_stream 9 null_env sample_keywords 0 (print_items sample_items) ((), [])
    = Some ([], (), [[[97], [120], [123]], [[98], [49]], [[98], [50]], [[99]]])"
  using config_file_roundtrip [of sample_keywords sample_items null_env "[]" "[[[97], [120], [123]], [[98], [49]], [[98], [50]], [[99]]]" 9 0 "()"]
  by (simp add: sample_keywords_def sample_items_def line_ok_def plain_word_def c_isspace_def QUOTE_def CFG_FILE_MAX_BUF_SZ_def
      INCLUDE_def CFG_FILE_EOB_def str_simps call_handler_def null_env_def)

theorem last_line_without_newline_ignored_witness: "process_stream 1 null_env sample_keywords 0 [99] ((), []) = Some ([], (), [])"
proof -
  have "tokenize_string (Some (line_buf (join_words [[99]]))) = Some (Some [[99]])"
    by (rule line_tokens) (simp_all add: plain_word_def c_isspace_def QUOTE_def CFG_FILE_MAX_BUF_SZ_def)
  then have "plain_line [99]"
    by (simp add: plain_line_def CFG_FILE_MAX_BUF_SZ_def INCLUDE_def str_simps)
  then show ?thesis
    using last_line_without_newline_ignored [of "[99]" 0] by simp
qed

text \<open>\<^verbatim>\<open>vector_insert_slot\<close> never finishes an insertion at the front: its unsigned index is never below zero.\<close>

lemma insert_front_undefined: "vector_insert_slot fuel v 0 x = None"
proof -
  have "shift_up n 0 w i = None" for n and w :: "'a list" and i
    by (induction n "0 :: u32" w i rule: shift_up.induct) simp_all
  then show ?thesis
    by (simp add: vector_insert_slot_def)
qed

section \<open>Callbacks and invariants\<close>

text \<open>
  What the parser promises a component that installs keywords: an invariant that the callbacks reachable from the keywords
  keep is kept by whatever files are read, included ones too.
\<close>

fun handlers_in :: "nat set \<Rightarrow> keyword list \<Rightarrow> bool" where
  "handlers_in H [] \<longleftrightarrow> True"
| "handlers_in H (Keyword s h sub # kws) \<longleftrightarrow> (case h of None \<Rightarrow> True | Some f \<Rightarrow> f \<in> H)
     \<and> (case sub of None \<Rightarrow> True | Some v \<Rightarrow> handlers_in H v) \<and> handlers_in H kws"

lemma handlers_in_find:
  "handlers_in H kws \<Longrightarrow> find P kws = Some kw \<Longrightarrow> (\<forall>f. kw_handler kw = Some f \<longrightarrow> f \<in> H) \<and> (\<forall>v. kw_sub kw = Some v \<longrightarrow> handlers_in H v)"
  by (induction H kws rule: handlers_in.induct) (auto split: if_splits option.splits)

locale config_client =
  fixes e :: "('d, 's) cfg_env" and H :: "nat set" and inv :: "'s \<Rightarrow> bool"
  assumes call_inv: "f \<in> H \<Longrightarrow> inv c \<Longrightarrow> kw_call e f ts c = Some c' \<Longrightarrow> inv c'"
begin

definition keeps :: "('d, 's) stream_handler \<Rightarrow> bool" where
  "keeps ps \<longleftrightarrow> (\<forall>kws lvl inp d c r d' c'. handlers_in H kws \<and> inv c \<and> ps kws lvl inp (d, c) = Some (r, d', c') \<longrightarrow> inv c')"

lemma keepsD: "keeps ps \<Longrightarrow> handlers_in H kws \<Longrightarrow> inv c \<Longrightarrow> ps kws lvl inp (d, c) = Some (r, d', c') \<Longrightarrow> inv c'"
  unfolding keeps_def by blast

lemma files_inv:
  "keeps ps \<Longrightarrow> handlers_in H kws \<Longrightarrow> inv c \<Longrightarrow> read_conf_files ps e kws lvl paths (d, c) = Some (d', c') \<Longrightarrow> inv c'"
proof (induction paths arbitrary: d c)
  case (Cons p paths)
  show ?case
  proof (cases "\<exists>content prev d1. fs_open e d p = Some content \<and> fs_getcwd e d = Some prev \<and> fs_chdir e d (fs_dirname e p) = Some d1")
    case True
    then obtain content prev d1 where o: "fs_open e d p = Some content" "fs_getcwd e d = Some prev" "fs_chdir e d (fs_dirname e p) = Some d1"
      by blast
    then obtain r d2 c2 where r: "ps kws lvl content (d1, c) = Some (r, d2, c2)" "read_conf_files ps e kws lvl paths (back_to e prev d2, c2) = Some (d', c')"
      using Cons.prems(4) by (auto simp: bind_eq_Some_conv)
    then show ?thesis
      using Cons.IH [OF Cons.prems(1,2) keepsD [OF Cons.prems(1-3) r(1)] r(2)] by blast
  next
    case False
    then have "read_conf_files ps e kws lvl paths (d, c) = Some (d', c') \<or> (d, c) = (d', c')"
      using Cons.prems(4) by (auto split: option.splits)
    then show ?thesis
      using Cons.IH [OF Cons.prems(1-3)] Cons.prems(3) by blast
  qed
qed simp

lemma include_inv:
  assumes "keeps ps" "handlers_in H kws" "inv c" "check_include ps e kws lvl line (d, c) = Some (inc, d', c')"
  shows "inv c'"
proof -
  obtain tk where tk: "tokenize_string (Some line) = Some tk"
    using assms(4) by (auto simp: check_include_def bind_eq_Some_conv)
  show ?thesis
  proof (cases "\<exists>t prev. tk = Some [INCLUDE, t] \<and> INCLUDE \<noteq> CFG_FILE_EOB \<and> fs_getcwd e d = Some prev")
    case True
    then obtain t prev where t: "tk = Some [INCLUDE, t]" "INCLUDE \<noteq> CFG_FILE_EOB" "fs_getcwd e d = Some prev"
      by blast
    then obtain d1 where "read_conf_files ps e kws lvl (fs_glob e d t) (d, c) = Some (d1, c')"
      using assms(4) tk by (auto simp: check_include_def read_conf_file_def bind_eq_Some_conv)
    then show ?thesis
      using files_inv [OF assms(1-3)] by blast
  next
    case False
    then have "c' = c"
      using assms(4) tk by (auto simp: check_include_def length_Suc_conv split: option.splits list.splits if_splits)
    then show ?thesis
      using assms(3) by simp
  qed
qed

lemma line_inv:
  "keeps ps \<Longrightarrow> handlers_in H kws \<Longrightarrow> inv c \<Longrightarrow> read_line ps e kws lvl inp (d, c) = Some (m, line, rest, d', c') \<Longrightarrow> inv c'"
proof (induction "length inp" arbitrary: inp d c rule: less_induct)
  case less
  obtain l eof rest' where r: "read_chars [] inp = (l, eof, rest')"
    by (metis prod_cases3)
  obtain inc d1 c1 where c: "check_include ps e kws lvl (line_buf l) (d, c) = Some (inc, d1, c1)"
    using less.prems(4) r by (subst (asm) read_line.simps) (auto split: option.splits)
  note i = include_inv [OF less.prems(1-3) c]
  show ?case
  proof (cases inc)
    case True
    then have "read_line ps e kws lvl rest' (d1, c1) = Some (m, line, rest, d', c')"
      using less.prems(4) r c by (subst (asm) read_line.simps) simp
    moreover have "length rest' < length inp"
      using include_shorter [OF r [symmetric]] c True by simp
    ultimately show ?thesis
      using less.hyps less.prems(1,2) i by blast
  next
    case False
    then show ?thesis
      using less.prems(4) r c i by (subst (asm) read_line.simps) simp
  qed
qed

lemma handle_inv:
  assumes "keeps ps" "handlers_in H kws" "inv c" "handle_keyword ps e kws lvl ts inp (d, c) = Some (r, d', c')"
  shows "inv c'"
proof (cases "find (\<lambda>kw. kw_str kw = hd ts) kws")
  case (Some kw)
  note kw = handlers_in_find [OF assms(2) Some]
  obtain c1 where c: "call_handler e kw ts c = Some c1"
    using assms(4) Some by (auto simp: handle_keyword_def bind_eq_Some_conv)
  have i: "inv c1"
    using c kw assms(3) call_inv by (auto simp: call_handler_def split: option.splits)
  show ?thesis
  proof (cases "kw_sub kw")
    case None
    then show ?thesis
      using assms(4) Some c i by (simp add: handle_keyword_def)
  next
    case (Some sub)
    then have "ps sub (lvl + 1) inp (d, c1) = Some (r, d', c')"
      using assms(4) \<open>find _ kws = Some kw\<close> c by (simp add: handle_keyword_def)
    then show ?thesis
      using keepsD [OF assms(1) _ i] kw Some by blast
  qed
qed (use assms in \<open>simp add: handle_keyword_def\<close>)

lemma stream_inv: "keeps (process_stream n e)"
proof (induction n)
  case (Suc n)
  show ?case
    unfolding keeps_def
  proof (intro allI impI, elim conjE)
    fix kws lvl inp d c r d' c'
    assume a: "handlers_in H kws" "inv c" "process_stream (Suc n) e kws lvl inp (d, c) = Some (r, d', c')"
    obtain m line inp1 d1 c1 where l: "read_line (process_stream n e) e kws lvl inp (d, c) = Some (m, line, inp1, d1, c1)"
      using a(3) by (auto simp: bind_eq_Some_conv)
    note i = line_inv [OF Suc.IH a(1,2) l]
    show "inv c'"
    proof (cases m)
      case True
      then obtain tk where tk: "tokenize_string (Some line) = Some tk"
        using a(3) l by (auto simp: bind_eq_Some_conv)
      consider "process_stream n e kws lvl inp1 (d1, c1) = Some (r, d', c')" | "c' = c1"
        | s ts inp2 d2 c2 where "handle_keyword (process_stream n e) e kws lvl (s # ts) inp1 (d1, c1) = Some (inp2, d2, c2)"
            "process_stream n e kws lvl inp2 (d2, c2) = Some (r, d', c')"
        using a(3) l True tk by (auto simp: bind_eq_Some_conv split: option.splits list.splits if_splits)
      then show ?thesis
        using i keepsD [OF Suc.IH a(1)] handle_inv [OF Suc.IH a(1) i] by cases blast+
    qed (use a(3) l i in simp)
  qed
qed (simp add: keeps_def)

lemma init_data_inv:
  assumes "init_data n e cf df ik k (d, c) = Some (k', d', c')" "\<And>k1. ik (k\<lparr>g_keywords := []\<rparr>) = Some k1 \<Longrightarrow> handlers_in H (g_keywords k1)" "inv c"
  shows "inv c'"
proof -
  obtain k1 where "ik (k\<lparr>g_keywords := []\<rparr>) = Some k1"
    "read_conf_files (process_stream n e) e (g_keywords k1) 0 (fs_glob e d (case cf of None \<Rightarrow> df | Some f \<Rightarrow> f)) (d, c) = Some (d', c')"
    using assms(1) by (auto simp: init_data_def read_conf_file_def bind_eq_Some_conv)
  then show ?thesis
    using files_inv [OF stream_inv assms(2,3)] by blast
qed

end

end
