(* ===== verification/Netif_Config.thy ===== *)
theory Netif_Config
  imports Config_Parser
begin

text \<open>
  The configuration of the devices and workers: the keywords that \<^verbatim>\<open>netif.c\<close> and \<^verbatim>\<open>timer.c\<close> install, their callbacks, and
  the loading and reloading of \<^verbatim>\<open>cfgfile.c\<close>. The two intrusive lists of configurations are lists, first element first.
  Fields of a block that no one has written are \<open>None\<close>; a failed assertion or the use of such a field is undefined.
\<close>

section \<open>Constants\<close>

definition NETIF_PKTPOOL_NB_MBUF_DEF :: int where "NETIF_PKTPOOL_NB_MBUF_DEF = 65535"
definition NETIF_PKTPOOL_NB_MBUF_MIN :: int where "NETIF_PKTPOOL_NB_MBUF_MIN = 1023"
definition NETIF_PKTPOOL_NB_MBUF_MAX :: int where "NETIF_PKTPOOL_NB_MBUF_MAX = 134217727"
definition NETIF_PKTPOOL_MBUF_CACHE_DEF :: int where "NETIF_PKTPOOL_MBUF_CACHE_DEF = 256"
definition NETIF_PKTPOOL_MBUF_CACHE_MIN :: int where "NETIF_PKTPOOL_MBUF_CACHE_MIN = 32"
definition NETIF_PKTPOOL_MBUF_CACHE_MAX :: int where "NETIF_PKTPOOL_MBUF_CACHE_MAX = 8192"
definition NETIF_NB_RX_DESC_DEF :: int where "NETIF_NB_RX_DESC_DEF = 256"
definition NETIF_NB_RX_DESC_MIN :: int where "NETIF_NB_RX_DESC_MIN = 16"
definition NETIF_NB_RX_DESC_MAX :: int where "NETIF_NB_RX_DESC_MAX = 8192"
definition NETIF_NB_TX_DESC_DEF :: int where "NETIF_NB_TX_DESC_DEF = 512"
definition NETIF_NB_TX_DESC_MIN :: int where "NETIF_NB_TX_DESC_MIN = 16"
definition NETIF_NB_TX_DESC_MAX :: int where "NETIF_NB_TX_DESC_MAX = 8192"
definition NETIF_ISOL_RXQ_RING_SZ_DEF :: int where "NETIF_ISOL_RXQ_RING_SZ_DEF = 1048576"
definition NETIF_MAX_QUEUES :: nat where "NETIF_MAX_QUEUES = 16"
definition NETIF_DEFAULT_ETH_MTU :: int where "NETIF_DEFAULT_ETH_MTU = 1500"
definition NETIF_MAX_ETH_MTU :: int where "NETIF_MAX_ETH_MTU = 9000"
definition NETIF_LCORE_ID_INVALID :: int where "NETIF_LCORE_ID_INVALID = 0xFF"
definition TIMER_SCHED_INTERVAL_DEF :: int where "TIMER_SCHED_INTERVAL_DEF = 10"
definition TIMER_SCHED_INTERVAL_MIN :: int where "TIMER_SCHED_INTERVAL_MIN = 1"
definition TIMER_SCHED_INTERVAL_MAX :: int where "TIMER_SCHED_INTERVAL_MAX = 10000000"

lemmas netif_consts = NETIF_PKTPOOL_NB_MBUF_DEF_def NETIF_PKTPOOL_NB_MBUF_MIN_def NETIF_PKTPOOL_NB_MBUF_MAX_def
  NETIF_PKTPOOL_MBUF_CACHE_DEF_def NETIF_PKTPOOL_MBUF_CACHE_MIN_def NETIF_PKTPOOL_MBUF_CACHE_MAX_def NETIF_NB_RX_DESC_DEF_def
  NETIF_NB_RX_DESC_MIN_def NETIF_NB_RX_DESC_MAX_def NETIF_NB_TX_DESC_DEF_def NETIF_NB_TX_DESC_MIN_def NETIF_NB_TX_DESC_MAX_def
  NETIF_ISOL_RXQ_RING_SZ_DEF_def NETIF_MAX_QUEUES_def NETIF_DEFAULT_ETH_MTU_def NETIF_MAX_ETH_MTU_def NETIF_LCORE_ID_INVALID_def
  TIMER_SCHED_INTERVAL_DEF_def TIMER_SCHED_INTERVAL_MIN_def TIMER_SCHED_INTERVAL_MAX_def

section \<open>State\<close>

record port_conf_stream =
  pc_port_id :: int
  pc_name :: bytes
  pc_kni_name :: bytes
  rx_queue_nb :: int
  rx_desc_nb :: int
  pc_rss :: bytes
  pc_mtu :: int
  tx_queue_nb :: int
  tx_desc_nb :: int
  tx_mbuf_fast_free :: bool
  promisc_mode :: bool
  allmulticast :: bool

record queue_conf_stream =
  qc_port_name :: bytes
  rx_queues :: "int list"
  tx_queues :: "int list"
  isol_rxq_lcore_ids :: "int list"
  isol_rxq_ring_sz :: int

record worker_conf_stream =
  wc_cpu_id :: "int option"
  wc_name :: bytes
  wc_type :: "bytes option"
  wc_port_list :: "queue_conf_stream list"

record netif_conf =
  port_list :: "port_conf_stream list"
  worker_list :: "worker_conf_stream list"
  netif_pktpool_nb_mbuf :: int
  netif_pktpool_mbuf_cache :: int
  g_sched_interval :: int
  netif_allocs :: nat

text \<open>The allocator and \<^verbatim>\<open>NDF_MAX_LCORE\<close>, a constant of DPDK.\<close>

record netif_env =
  alloc_env :: rte_env
  NDF_MAX_LCORE :: nat

text \<open>A character array written by \<^verbatim>\<open>strncpy\<close>, and the string it holds if it is terminated.\<close>

definition strncpy_field :: "nat \<Rightarrow> bytes \<Rightarrow> bytes" where
  "strncpy_field n s = take n (c_str s @ replicate n 0)"

definition field_str :: "bytes \<Rightarrow> bytes option" where
  "field_str b = (if 0 \<in> set b then Some (c_str b) else None)"

text \<open>The value of a keyword that must be there.\<close>

definition value_of :: "bytes list \<Rightarrow> bytes option" where
  "value_of tokens = Option.bind (set_value tokens) (\<lambda>v. v)"

definition token_1 :: "bytes list \<Rightarrow> bytes option" where
  "token_1 tokens = (if 1 < length tokens then Some (tokens ! 1) else None)"

text \<open>The first entries of the lists, which the callbacks take for the current device, worker and port.\<close>

definition on_device :: "(port_conf_stream \<Rightarrow> port_conf_stream) \<Rightarrow> netif_conf \<Rightarrow> netif_conf option" where
  "on_device f s = (case port_list s of [] \<Rightarrow> None | d # ds \<Rightarrow> Some (s\<lparr>port_list := f d # ds\<rparr>))"

definition on_worker :: "(worker_conf_stream \<Rightarrow> worker_conf_stream) \<Rightarrow> netif_conf \<Rightarrow> netif_conf option" where
  "on_worker f s = (case worker_list s of [] \<Rightarrow> None | w # ws \<Rightarrow> Some (s\<lparr>worker_list := f w # ws\<rparr>))"

definition on_port :: "(queue_conf_stream \<Rightarrow> queue_conf_stream option) \<Rightarrow> netif_conf \<Rightarrow> netif_conf option" where
  "on_port f s = (case worker_list s of [] \<Rightarrow> None
   | w # ws \<Rightarrow> (case wc_port_list w of [] \<Rightarrow> None
     | p # ps \<Rightarrow> map_option (\<lambda>p'. s\<lparr>worker_list := w\<lparr>wc_port_list := p' # ps\<rparr> # ws\<rparr>) (f p)))"

section \<open>Device callbacks\<close>

definition netif_defs_handler :: "bytes list \<Rightarrow> netif_conf \<Rightarrow> netif_conf option" where
  "netif_defs_handler tokens s = Some (s\<lparr>port_list := []\<rparr>)"

definition pktpool_size_handler :: "bytes list \<Rightarrow> netif_conf \<Rightarrow> netif_conf option" where
  "pktpool_size_handler tokens s = do {
     v \<leftarrow> value_of tokens;
     pktpool_size \<leftarrow> c_atoi v;
     if pktpool_size < NETIF_PKTPOOL_NB_MBUF_MIN \<or> pktpool_size > NETIF_PKTPOOL_NB_MBUF_MAX
     then Some (s\<lparr>netif_pktpool_nb_mbuf := NETIF_PKTPOOL_NB_MBUF_DEF\<rparr>)
     else do {
       r \<leftarrow> is_power2 pktpool_size 1;
       Some (s\<lparr>netif_pktpool_nb_mbuf := snd r - 1\<rparr>) } }"

definition pktpool_cache_handler :: "bytes list \<Rightarrow> netif_conf \<Rightarrow> netif_conf option" where
  "pktpool_cache_handler tokens s = do {
     v \<leftarrow> value_of tokens;
     cache_size \<leftarrow> c_atoi v;
     if cache_size < NETIF_PKTPOOL_MBUF_CACHE_MIN \<or> cache_size > NETIF_PKTPOOL_MBUF_CACHE_MAX
     then Some (s\<lparr>netif_pktpool_mbuf_cache := NETIF_PKTPOOL_MBUF_CACHE_DEF\<rparr>)
     else do {
       r \<leftarrow> is_power2 cache_size 0;
       Some (s\<lparr>netif_pktpool_mbuf_cache := snd r\<rparr>) } }"

definition new_device :: "bytes \<Rightarrow> port_conf_stream" where
  "new_device name = \<lparr>pc_port_id = -1, pc_name = strncpy_field 32 name, pc_kni_name = replicate 32 0, rx_queue_nb = -1,
     rx_desc_nb = NETIF_NB_RX_DESC_DEF, pc_rss = strncpy_field 32 (str ''tcp''), pc_mtu = NETIF_DEFAULT_ETH_MTU, tx_queue_nb = -1,
     tx_desc_nb = NETIF_NB_TX_DESC_DEF, tx_mbuf_fast_free = True, promisc_mode = False, allmulticast = False\<rparr>"

definition device_handler :: "netif_env \<Rightarrow> bytes list \<Rightarrow> netif_conf \<Rightarrow> netif_conf option" where
  "device_handler env tokens s =
    (if tokens = [] then None
     else if \<not> malloc_ok (alloc_env env) (netif_allocs s) then Some (s\<lparr>netif_allocs := netif_allocs s + 1\<rparr>)
     else do {
       name \<leftarrow> token_1 tokens;
       Some (s\<lparr>port_list := new_device name # port_list s, netif_allocs := netif_allocs s + 1\<rparr>) })"

definition rx_queue_number_handler :: "bytes list \<Rightarrow> netif_conf \<Rightarrow> netif_conf option" where
  "rx_queue_number_handler tokens s = do {
     v \<leftarrow> value_of tokens;
     rx_queues \<leftarrow> c_atoi v;
     on_device (\<lambda>d. d\<lparr>rx_queue_nb := (if rx_queues < 0 \<or> rx_queues > int NETIF_MAX_QUEUES then int NETIF_MAX_QUEUES else rx_queues)\<rparr>) s }"

definition rx_desc_nb_handler :: "bytes list \<Rightarrow> netif_conf \<Rightarrow> netif_conf option" where
  "rx_desc_nb_handler tokens s = do {
     v \<leftarrow> value_of tokens;
     desc_nb \<leftarrow> c_atoi v;
     if desc_nb < NETIF_NB_RX_DESC_MIN \<or> desc_nb > NETIF_NB_RX_DESC_MAX then on_device (\<lambda>d. d\<lparr>rx_desc_nb := NETIF_NB_RX_DESC_DEF\<rparr>) s
     else do {
       r \<leftarrow> is_power2 desc_nb 0;
       on_device (\<lambda>d. d\<lparr>rx_desc_nb := snd r\<rparr>) s } }"

definition rss_names :: "bytes list" where
  "rss_names = [str ''all'', str ''ip'', str ''tcp'', str ''udp'', str ''sctp'', str ''ether'', str ''port'', str ''tunnel'']"

definition rss_handler :: "bytes list \<Rightarrow> netif_conf \<Rightarrow> netif_conf option" where
  "rss_handler tokens s = do {
     v \<leftarrow> value_of tokens;
     on_device (\<lambda>d. d\<lparr>pc_rss := strncpy_field 32
       (if v \<in> set rss_names \<or> c_strstr v (str ''|'') \<and> first_char v \<noteq> 124 then v else str ''tcp'')\<rparr>) s }"

definition tx_queue_number_handler :: "bytes list \<Rightarrow> netif_conf \<Rightarrow> netif_conf option" where
  "tx_queue_number_handler tokens s = do {
     v \<leftarrow> value_of tokens;
     tx_queues \<leftarrow> c_atoi v;
     on_device (\<lambda>d. d\<lparr>tx_queue_nb := (if tx_queues < 0 \<or> tx_queues > int NETIF_MAX_QUEUES then int NETIF_MAX_QUEUES else tx_queues)\<rparr>) s }"

definition tx_desc_nb_handler :: "bytes list \<Rightarrow> netif_conf \<Rightarrow> netif_conf option" where
  "tx_desc_nb_handler tokens s = do {
     v \<leftarrow> value_of tokens;
     desc_nb \<leftarrow> c_atoi v;
     if desc_nb < NETIF_NB_TX_DESC_MIN \<or> desc_nb > NETIF_NB_TX_DESC_MAX then on_device (\<lambda>d. d\<lparr>tx_desc_nb := NETIF_NB_TX_DESC_DEF\<rparr>) s
     else do {
       r \<leftarrow> is_power2 desc_nb 0;
       on_device (\<lambda>d. d\<lparr>tx_desc_nb := snd r\<rparr>) s } }"

definition tx_mbuf_fast_free_handler :: "bytes list \<Rightarrow> netif_conf \<Rightarrow> netif_conf option" where
  "tx_mbuf_fast_free_handler tokens s = do {
     v \<leftarrow> value_of tokens;
     on_device (\<lambda>d. d\<lparr>tx_mbuf_fast_free := \<not> c_strcasecmp_eq v (str ''off'')\<rparr>) s }"

definition promisc_mode_handler :: "bytes list \<Rightarrow> netif_conf \<Rightarrow> netif_conf option" where
  "promisc_mode_handler tokens s = on_device (\<lambda>d. d\<lparr>promisc_mode := True\<rparr>) s"

definition allmulticast_handler :: "bytes list \<Rightarrow> netif_conf \<Rightarrow> netif_conf option" where
  "allmulticast_handler tokens s = on_device (\<lambda>d. d\<lparr>allmulticast := True\<rparr>) s"

definition custom_mtu_handler :: "bytes list \<Rightarrow> netif_conf \<Rightarrow> netif_conf option" where
  "custom_mtu_handler tokens s = do {
     v \<leftarrow> value_of tokens;
     mtu \<leftarrow> c_atoi v;
     on_device (\<lambda>d. d\<lparr>pc_mtu := (if mtu \<le> 0 \<or> mtu > NETIF_MAX_ETH_MTU then NETIF_DEFAULT_ETH_MTU else mtu)\<rparr>) s }"

definition kni_name_handler :: "bytes list \<Rightarrow> netif_conf \<Rightarrow> netif_conf option" where
  "kni_name_handler tokens s = do {
     v \<leftarrow> value_of tokens;
     on_device (\<lambda>d. d\<lparr>pc_kni_name := strncpy_field 32 v\<rparr>) s }"

section \<open>Worker callbacks\<close>

definition worker_defs_handler :: "bytes list \<Rightarrow> netif_conf \<Rightarrow> netif_conf option" where
  "worker_defs_handler tokens s = Some (s\<lparr>worker_list := []\<rparr>)"

definition worker_handler :: "netif_env \<Rightarrow> bytes list \<Rightarrow> netif_conf \<Rightarrow> netif_conf option" where
  "worker_handler env tokens s =
    (if tokens = [] then None
     else if \<not> malloc_ok (alloc_env env) (netif_allocs s) then Some (s\<lparr>netif_allocs := netif_allocs s + 1\<rparr>)
     else do {
       name \<leftarrow> token_1 tokens;
       Some (s\<lparr>worker_list := \<lparr>wc_cpu_id = None, wc_name = strncpy_field 32 name, wc_type = None, wc_port_list = []\<rparr> # worker_list s,
         netif_allocs := netif_allocs s + 1\<rparr>) })"

definition worker_type_handler :: "bytes list \<Rightarrow> netif_conf \<Rightarrow> netif_conf option" where
  "worker_type_handler tokens s = do {
     v \<leftarrow> value_of tokens;
     on_worker (\<lambda>w. w\<lparr>wc_type := Some (strncpy_field 32
       (if v \<in> {str ''master'', str ''slave'', str ''kni''} then v else str ''slave''))\<rparr>) s }"

definition cpu_id_handler :: "bytes list \<Rightarrow> netif_conf \<Rightarrow> netif_conf option" where
  "cpu_id_handler tokens s = do {
     v \<leftarrow> value_of tokens;
     if \<not> list_all c_isdigit v then on_worker (\<lambda>w. w\<lparr>wc_cpu_id := Some 0\<rparr>) s
     else do {
       cpu_id \<leftarrow> c_atoi v;
       on_worker (\<lambda>w. w\<lparr>wc_cpu_id := Some cpu_id\<rparr>) s } }"

definition new_queue_conf :: "bytes \<Rightarrow> queue_conf_stream" where
  "new_queue_conf name = \<lparr>qc_port_name = strncpy_field 32 name, rx_queues = replicate NETIF_MAX_QUEUES (int NETIF_MAX_QUEUES),
     tx_queues = replicate NETIF_MAX_QUEUES (int NETIF_MAX_QUEUES),
     isol_rxq_lcore_ids = replicate NETIF_MAX_QUEUES NETIF_LCORE_ID_INVALID, isol_rxq_ring_sz = NETIF_ISOL_RXQ_RING_SZ_DEF\<rparr>"

text \<open>The current worker is read only for the log and for its list.\<close>

definition worker_port_handler :: "netif_env \<Rightarrow> bytes list \<Rightarrow> netif_conf \<Rightarrow> netif_conf option" where
  "worker_port_handler env tokens s =
    (if tokens = [] then None
     else if \<not> malloc_ok (alloc_env env) (netif_allocs s) then Some (s\<lparr>netif_allocs := netif_allocs s + 1\<rparr>)
     else do {
       name \<leftarrow> token_1 tokens;
       on_worker (\<lambda>w. w\<lparr>wc_port_list := new_queue_conf name # wc_port_list w\<rparr>) (s\<lparr>netif_allocs := netif_allocs s + 1\<rparr>) })"

text \<open>The identifiers are stored one after the other; there is no test of the number of tokens.\<close>

fun store_ids :: "(int \<Rightarrow> int) \<Rightarrow> nat \<Rightarrow> bytes list \<Rightarrow> int list \<Rightarrow> int list option" where
  "store_ids f i [] a = Some a"
| "store_ids f i (t # ts) a = do {
     x \<leftarrow> c_atoi t;
     if i < length a then store_ids f (i + 1) ts (a[i := f x]) else None }"

definition valid_qid :: "int \<Rightarrow> int" where
  "valid_qid qid = (if qid < 0 \<or> qid \<ge> int NETIF_MAX_QUEUES then 0 else qid)"

text \<open>With no token at all the bound of the loop would wrap around; the parser always passes the keyword.\<close>

definition store_queue_ids :: "bytes list \<Rightarrow> int list \<Rightarrow> int list option" where
  "store_queue_ids tokens a = (if tokens = [] then None else do {
     a1 \<leftarrow> store_ids valid_qid 0 (tl tokens) a;
     Some (take (length tokens - 1) a1 @ replicate (NETIF_MAX_QUEUES - (length tokens - 1)) (int NETIF_MAX_QUEUES)) })"

definition rx_queue_ids_handler :: "bytes list \<Rightarrow> netif_conf \<Rightarrow> netif_conf option" where
  "rx_queue_ids_handler tokens s = on_port (\<lambda>p. map_option (\<lambda>a. p\<lparr>rx_queues := a\<rparr>) (store_queue_ids tokens (rx_queues p))) s"

definition tx_queue_ids_handler :: "bytes list \<Rightarrow> netif_conf \<Rightarrow> netif_conf option" where
  "tx_queue_ids_handler tokens s = on_port (\<lambda>p. map_option (\<lambda>a. p\<lparr>tx_queues := a\<rparr>) (store_queue_ids tokens (tx_queues p))) s"

definition isol_rx_cpu_ids_handler :: "netif_env \<Rightarrow> bytes list \<Rightarrow> netif_conf \<Rightarrow> netif_conf option" where
  "isol_rx_cpu_ids_handler env tokens s = do {
     v \<leftarrow> set_value tokens;
     on_port (\<lambda>p. map_option (\<lambda>a. p\<lparr>isol_rxq_lcore_ids := a\<rparr>)
       (store_ids (\<lambda>cid. if cid \<le> 0 \<or> cid \<ge> int (NDF_MAX_LCORE env) then NETIF_LCORE_ID_INVALID else cid) 0 (tl tokens)
         (isol_rxq_lcore_ids p))) s }"

definition isol_rxq_ring_sz_handler :: "bytes list \<Rightarrow> netif_conf \<Rightarrow> netif_conf option" where
  "isol_rxq_ring_sz_handler tokens s = do {
     v \<leftarrow> value_of tokens;
     if \<not> list_all c_isdigit v then on_port (\<lambda>p. Some (p\<lparr>isol_rxq_ring_sz := NETIF_ISOL_RXQ_RING_SZ_DEF\<rparr>)) s
     else do {
       n \<leftarrow> c_atoi v;
       on_port (\<lambda>p. Some (p\<lparr>isol_rxq_ring_sz := n\<rparr>)) s } }"

definition timer_sched_interval_handler :: "bytes list \<Rightarrow> netif_conf \<Rightarrow> netif_conf option" where
  "timer_sched_interval_handler tokens s = do {
     v \<leftarrow> set_value tokens;
     case v of
       None \<Rightarrow> Some s
     | Some t \<Rightarrow> do {
         n \<leftarrow> c_atoi t;
         Some (s\<lparr>g_sched_interval := (if n < TIMER_SCHED_INTERVAL_MIN \<or> n > TIMER_SCHED_INTERVAL_MAX then TIMER_SCHED_INTERVAL_DEF else n)\<rparr>) } }"

section \<open>Keywords\<close>

text \<open>The callbacks by number, in the order of the file, with the one of the timer at the end.\<close>

definition netif_call :: "netif_env \<Rightarrow> nat \<Rightarrow> bytes list \<Rightarrow> netif_conf \<Rightarrow> netif_conf option" where
  "netif_call env f tokens s =
    (if f = 1 then netif_defs_handler tokens s
     else if f = 2 then pktpool_size_handler tokens s
     else if f = 3 then pktpool_cache_handler tokens s
     else if f = 4 then device_handler env tokens s
     else if f = 5 then rx_queue_number_handler tokens s
     else if f = 6 then rx_desc_nb_handler tokens s
     else if f = 7 then rss_handler tokens s
     else if f = 8 then tx_queue_number_handler tokens s
     else if f = 9 then tx_desc_nb_handler tokens s
     else if f = 10 then tx_mbuf_fast_free_handler tokens s
     else if f = 11 then promisc_mode_handler tokens s
     else if f = 12 then allmulticast_handler tokens s
     else if f = 13 then custom_mtu_handler tokens s
     else if f = 14 then kni_name_handler tokens s
     else if f = 15 then worker_defs_handler tokens s
     else if f = 16 then worker_handler env tokens s
     else if f = 17 then worker_type_handler tokens s
     else if f = 18 then cpu_id_handler tokens s
     else if f = 19 then worker_port_handler env tokens s
     else if f = 20 then rx_queue_ids_handler tokens s
     else if f = 21 then tx_queue_ids_handler tokens s
     else if f = 22 then isol_rx_cpu_ids_handler env tokens s
     else if f = 23 then isol_rxq_ring_sz_handler tokens s
     else if f = 24 then timer_sched_interval_handler tokens s
     else None)"

definition install_netif_keywords :: "kw_state \<Rightarrow> kw_state option" where
  "install_netif_keywords k = do {
     k \<leftarrow> install_keyword_root (str ''netif_defs'') (Some 1) k;
     k \<leftarrow> install_keyword (str ''pktpool_size'') (Some 2) KW_TYPE_INIT k;
     k \<leftarrow> install_keyword (str ''pktpool_cache'') (Some 3) KW_TYPE_INIT k;
     k \<leftarrow> install_keyword (str ''device'') (Some 4) KW_TYPE_INIT k;
     k \<leftarrow> install_sublevel k;
     k \<leftarrow> install_keyword (str ''rx'') None KW_TYPE_INIT k;
     k \<leftarrow> install_sublevel k;
     k \<leftarrow> install_keyword (str ''queue_number'') (Some 5) KW_TYPE_INIT k;
     k \<leftarrow> install_keyword (str ''descriptor_number'') (Some 6) KW_TYPE_INIT k;
     k \<leftarrow> install_keyword (str ''rss'') (Some 7) KW_TYPE_INIT k;
     k \<leftarrow> install_sublevel_end k;
     k \<leftarrow> install_keyword (str ''tx'') None KW_TYPE_INIT k;
     k \<leftarrow> install_sublevel k;
     k \<leftarrow> install_keyword (str ''queue_number'') (Some 8) KW_TYPE_INIT k;
     k \<leftarrow> install_keyword (str ''descriptor_number'') (Some 9) KW_TYPE_INIT k;
     k \<leftarrow> install_keyword (str ''mbuf_fast_free'') (Some 10) KW_TYPE_INIT k;
     k \<leftarrow> install_sublevel_end k;
     k \<leftarrow> install_keyword (str ''promisc_mode'') (Some 11) KW_TYPE_INIT k;
     k \<leftarrow> install_keyword (str ''allmulticast'') (Some 12) KW_TYPE_INIT k;
     k \<leftarrow> install_keyword (str ''mtu'') (Some 13) KW_TYPE_INIT k;
     k \<leftarrow> install_keyword (str ''kni_name'') (Some 14) KW_TYPE_INIT k;
     k \<leftarrow> install_sublevel_end k;
     k \<leftarrow> install_keyword_root (str ''worker_defs'') (Some 15) k;
     k \<leftarrow> install_keyword (str ''worker'') (Some 16) KW_TYPE_INIT k;
     k \<leftarrow> install_sublevel k;
     k \<leftarrow> install_keyword (str ''type'') (Some 17) KW_TYPE_INIT k;
     k \<leftarrow> install_keyword (str ''cpu_id'') (Some 18) KW_TYPE_INIT k;
     k \<leftarrow> install_keyword (str ''port'') (Some 19) KW_TYPE_INIT k;
     k \<leftarrow> install_sublevel k;
     k \<leftarrow> install_keyword (str ''rx_queue_ids'') (Some 20) KW_TYPE_INIT k;
     k \<leftarrow> install_keyword (str ''tx_queue_ids'') (Some 21) KW_TYPE_INIT k;
     k \<leftarrow> install_keyword (str ''isol_rx_cpu_ids'') (Some 22) KW_TYPE_INIT k;
     k \<leftarrow> install_keyword (str ''isol_rxq_ring_sz'') (Some 23) KW_TYPE_INIT k;
     k \<leftarrow> install_sublevel_end k;
     install_sublevel_end k }"

definition ndf_install_timer_keywords :: "kw_state \<Rightarrow> kw_state option" where
  "ndf_install_timer_keywords k = do {
     k \<leftarrow> install_keyword_root (str ''timer_defs'') None k;
     install_keyword (str ''schedule_interval'') (Some 24) KW_TYPE_NORMAL k }"

definition netif_keyword_value_init :: "netdefender_state \<Rightarrow> netif_conf \<Rightarrow> netif_conf" where
  "netif_keyword_value_init st s =
    (if st = NET_DEFENDER_STATE_INIT
     then s\<lparr>netif_pktpool_nb_mbuf := NETIF_PKTPOOL_NB_MBUF_DEF, netif_pktpool_mbuf_cache := NETIF_PKTPOOL_MBUF_CACHE_DEF\<rparr> else s)"

definition ndf_timer_keyword_value_init :: "netif_conf \<Rightarrow> netif_conf" where
  "ndf_timer_keyword_value_init s = s\<lparr>g_sched_interval := TIMER_SCHED_INTERVAL_DEF\<rparr>"

definition netif_cfgfile_init :: "netif_conf \<Rightarrow> netif_conf" where
  "netif_cfgfile_init s = s\<lparr>port_list := [], worker_list := []\<rparr>"

section \<open>Loading and reloading\<close>

definition install_keywords :: "kw_state \<Rightarrow> kw_state option" where
  "install_keywords k = Option.bind (install_netif_keywords k) ndf_install_timer_keywords"

definition keyword_value_init :: "netdefender_state \<Rightarrow> netif_conf \<Rightarrow> netif_conf" where
  "keyword_value_init st s = ndf_timer_keyword_value_init (netif_keyword_value_init st s)"

definition load_conf_file :: "nat \<Rightarrow> ('d, netif_conf) cfg_env \<Rightarrow> bytes option \<Rightarrow> bytes \<Rightarrow> kw_state \<Rightarrow> 'd \<times> netif_conf \<Rightarrow> (kw_state \<times> 'd \<times> netif_conf) option" where
  "load_conf_file n e cfg_file default_file k st =
    init_data n e cfg_file default_file install_keywords k (fst st, keyword_value_init (g_state k) (snd st))"

text \<open>The flag of \<^verbatim>\<open>SIGHUP\<close>, the keywords, the configuration and the scheduler. \<open>reload_job\<close> is the address of the job.\<close>

record 'd cfg_system =
  g_reload :: bool
  cs_kw :: kw_state
  cs_dir :: 'd
  cs_conf :: netif_conf
  cs_sched :: scheduler

definition SIGHUP :: nat where "SIGHUP = 1"
definition ENDF_SYSCALL :: int where "ENDF_SYSCALL = -26"

definition sig_callback :: "nat \<Rightarrow> 'd cfg_system \<Rightarrow> 'd cfg_system" where
  "sig_callback sig c = (if sig = SIGHUP then c\<lparr>g_reload := True\<rparr> else c)"

definition try_reload :: "nat \<Rightarrow> ('d, netif_conf) cfg_env \<Rightarrow> bytes \<Rightarrow> 'd cfg_system \<Rightarrow> 'd cfg_system option" where
  "try_reload n e default_file c =
    (if g_reload c then do {
       (k, d, s) \<leftarrow> load_conf_file n e None default_file (cs_kw c) (cs_dir c, cs_conf c);
       Some (c\<lparr>g_reload := False, cs_kw := k, cs_dir := d, cs_conf := s\<rparr>) }
     else Some c)"

definition cfgfile_init :: "nat \<Rightarrow> ('d, netif_conf) cfg_env \<Rightarrow> bytes \<Rightarrow> bool \<Rightarrow> nat \<Rightarrow> 'd cfg_system \<Rightarrow> (int \<times> 'd cfg_system) option" where
  "cfgfile_init n e default_file sigaction_ok reload_job c =
    (let c1 = c\<lparr>cs_conf := netif_cfgfile_init (cs_conf c)\<rparr> in
     if \<not> sigaction_ok then Some (ENDF_SYSCALL, c1)
     else do {
       c2 \<leftarrow> try_reload n e default_file (c1\<lparr>g_reload := True\<rparr>);
       (ret, s) \<leftarrow> ndf_lcore_job_register (Some reload_job) LCORE_ROLE_MASTER (cs_sched c2);
       Some (ret, c2\<lparr>cs_sched := s\<rparr>) })"

definition cfgfile_term :: "nat \<Rightarrow> 'd cfg_system \<Rightarrow> (int \<times> 'd cfg_system) option" where
  "cfgfile_term reload_job c = do {
     (ret, s) \<leftarrow> ndf_lcore_job_unregister (Some reload_job) LCORE_ROLE_MASTER (cs_sched c);
     Some (ret, c\<lparr>cs_sched := s\<rparr>) }"

section \<open>Values in range\<close>

text \<open>Whatever a file says, every value that is stored is in its range, and the numbers of descriptors are powers of two.\<close>

definition power_in :: "int \<Rightarrow> int \<Rightarrow> int \<Rightarrow> bool" where
  "power_in lo hi n \<longleftrightarrow> (\<exists>k. n = 2 ^ k) \<and> lo \<le> n \<and> n \<le> hi"

definition device_ok :: "port_conf_stream \<Rightarrow> bool" where
  "device_ok d \<longleftrightarrow> length (pc_name d) = 32 \<and> length (pc_rss d) = 32 \<and> length (pc_kni_name d) = 32
     \<and> -1 \<le> rx_queue_nb d \<and> rx_queue_nb d \<le> 16 \<and> -1 \<le> tx_queue_nb d \<and> tx_queue_nb d \<le> 16
     \<and> power_in 16 8192 (rx_desc_nb d) \<and> power_in 16 8192 (tx_desc_nb d) \<and> 1 \<le> pc_mtu d \<and> pc_mtu d \<le> 9000"

definition qids_ok :: "int list \<Rightarrow> bool" where
  "qids_ok a \<longleftrightarrow> length a = 16 \<and> (\<forall>q \<in> set a. 0 \<le> q \<and> q \<le> 16)"

definition queue_ok :: "queue_conf_stream \<Rightarrow> bool" where
  "queue_ok p \<longleftrightarrow> length (qc_port_name p) = 32 \<and> qids_ok (rx_queues p) \<and> qids_ok (tx_queues p) \<and> length (isol_rxq_lcore_ids p) = 16"

definition worker_ok :: "worker_conf_stream \<Rightarrow> bool" where
  "worker_ok w \<longleftrightarrow> length (wc_name w) = 32 \<and> (\<forall>p \<in> set (wc_port_list w). queue_ok p)
     \<and> (\<forall>t. wc_type w = Some t \<longrightarrow> t \<in> strncpy_field 32 ` {str ''master'', str ''slave'', str ''kni''})
     \<and> (\<forall>c. wc_cpu_id w = Some c \<longrightarrow> 0 \<le> c)"

definition conf_ok :: "netif_conf \<Rightarrow> bool" where
  "conf_ok s \<longleftrightarrow> (\<forall>d \<in> set (port_list s). device_ok d) \<and> (\<forall>w \<in> set (worker_list s). worker_ok w)
     \<and> power_in 1024 134217728 (netif_pktpool_nb_mbuf s + 1) \<and> power_in 32 8192 (netif_pktpool_mbuf_cache s)
     \<and> 1 \<le> g_sched_interval s \<and> g_sched_interval s \<le> 10000000"

lemma strncpy_length [simp]: "length (strncpy_field n s) = n"
  by (simp add: strncpy_field_def)

lemma power_inI: "n = 2 ^ k \<Longrightarrow> lo \<le> n \<Longrightarrow> n \<le> hi \<Longrightarrow> power_in lo hi n"
  unfolding power_in_def by blast

lemma power_defaults: "power_in 16 8192 256" "power_in 16 8192 512" "power_in 32 8192 256" "power_in 1024 134217728 65536"
  by (rule power_inI [where k = 8] power_inI [where k = 9] power_inI [where k = 16]; simp)+

text \<open>Rounding down to a power of two stays above a power of two that is below.\<close>

lemma power2_round:
  assumes "is_power2 n off = Some r" "2 ^ m \<le> n + off" "n + off \<le> hi" "2 \<le> n" "1 \<le> m" "hi < 2 ^ 31"
  shows "power_in (2 ^ m) hi (snd r)"
proof -
  have "(2 :: int) ^ 1 \<le> 2 ^ m"
    using assms(5) by (intro power_increasing) auto
  then have ge: "2 \<le> n + off"
    using assms(2) by simp
  define x where "x = nat (n + off)"
  have x: "n + off = int x" "2 \<le> x"
    using ge by (simp_all add: x_def)
  obtain b j where p: "power2_loop x 1 True = (b, j)"
    by fastforce
  have s: "2 ^ j \<le> x" "x < 2 * 2 ^ j"
    using power2_loop_spec [OF p] x(2) by simp_all
  have r: "snd r = 2 ^ j"
    using assms(1,3,4,6) ge p by (auto simp: is_power2_def x_def split: if_splits)
  have j: "(2 :: int) ^ j \<le> int x"
    using s(1) by (metis of_nat_le_iff of_nat_numeral of_nat_power)
  have "2 ^ m \<le> x"
    using assms(2) x(1) by simp
  then have "(2 :: nat) ^ m < 2 ^ Suc j"
    using s(2) by simp
  then have "m < Suc j"
    by (rule power_less_imp_less_exp [rotated]) simp
  then have "(2 :: int) ^ m \<le> 2 ^ j"
    by (intro power_increasing) auto
  then show ?thesis
    using r j x(1) assms(3) by (intro power_inI [where k = j]) linarith+
qed

lemma on_device_ok:
  assumes "conf_ok s" "on_device f s = Some s'" "\<And>d. device_ok d \<Longrightarrow> device_ok (f d)"
  shows "conf_ok s'"
  using assms by (auto simp: on_device_def conf_ok_def split: list.splits)

lemma on_worker_ok:
  assumes "conf_ok s" "on_worker f s = Some s'" "\<And>w. worker_ok w \<Longrightarrow> worker_ok (f w)"
  shows "conf_ok s'"
  using assms by (auto simp: on_worker_def conf_ok_def split: list.splits)

lemma on_port_ok:
  assumes "conf_ok s" "on_port f s = Some s'" "\<And>p p'. queue_ok p \<Longrightarrow> f p = Some p' \<Longrightarrow> queue_ok p'"
  shows "conf_ok s'"
proof -
  obtain w ws p ps p' where c: "worker_list s = w # ws" "wc_port_list w = p # ps" "f p = Some p'"
      "s' = s\<lparr>worker_list := w\<lparr>wc_port_list := p' # ps\<rparr> # ws\<rparr>"
    using assms(2) by (auto simp: on_port_def split: list.splits)
  have "worker_ok w" "queue_ok p"
    using assms(1) c(1,2) by (auto simp: conf_ok_def worker_ok_def)
  then have "worker_ok (w\<lparr>wc_port_list := p' # ps\<rparr>)"
    using assms(3) [of p p'] c(2,3) by (simp add: worker_ok_def)
  then show ?thesis
    using assms(1) c(1,4) by (simp add: conf_ok_def)
qed

lemma store_ids_ok:
  "store_ids f i ts a = Some a' \<Longrightarrow> length a' = length a \<and> (\<forall>x \<in> set a'. x \<in> set a \<or> x \<in> range f)"
proof (induction ts arbitrary: i a)
  case (Cons t ts)
  then obtain x where "store_ids f (i + 1) ts (a[i := f x]) = Some a'"
    by (auto simp: bind_eq_Some_conv split: if_splits)
  then show ?case
    using Cons.IH [of "i + 1" "a[i := f x]"] set_update_subset_insert [of a i "f x"] by auto
qed simp

lemma store_ids_length: "store_ids f i ts a = Some a' \<Longrightarrow> ts = [] \<or> i + length ts \<le> length a"
proof (induction ts arbitrary: i a)
  case (Cons t ts)
  then obtain x where "store_ids f (i + 1) ts (a[i := f x]) = Some a'" "i < length a"
    by (auto simp: bind_eq_Some_conv split: if_splits)
  then show ?case
    using Cons.IH [of "i + 1" "a[i := f x]"] by auto
qed simp

lemma store_queue_ids_ok: "store_queue_ids ts a = Some a' \<Longrightarrow> qids_ok a \<Longrightarrow> qids_ok a'"
proof -
  assume a: "store_queue_ids ts a = Some a'" "qids_ok a"
  then obtain b where b: "store_ids valid_qid 0 (tl ts) a = Some b" "ts \<noteq> []"
      "a' = take (length ts - 1) b @ replicate (16 - (length ts - 1)) 16"
    by (auto simp: store_queue_ids_def netif_consts bind_eq_Some_conv split: if_splits)
  have "0 \<le> valid_qid x \<and> valid_qid x \<le> 16" for x
    by (simp add: valid_qid_def netif_consts)
  then have "length b = 16" "\<forall>x \<in> set b. 0 \<le> x \<and> x \<le> 16"
    using store_ids_ok [OF b(1)] a(2) by (auto simp: qids_ok_def)
  moreover have "length (tl ts) \<le> 16"
    using store_ids_length [OF b(1)] a(2) by (cases ts) (auto simp: qids_ok_def)
  ultimately show "qids_ok a'"
    using b(2,3) by (auto simp: qids_ok_def dest: in_set_takeD)
qed

lemma digits_nonneg: "list_all c_isdigit v \<Longrightarrow> c_atoi v = Some n \<Longrightarrow> 0 \<le> n"
proof (cases v)
  case (Cons b r)
  assume a: "list_all c_isdigit v" "c_atoi v = Some n"
  have "\<not> c_isspace b" "b \<noteq> 45"
    using a(1) unfolding c_isspace_def by (auto simp: Cons c_isdigit_def word_le_nat_alt)
  then show "0 \<le> n"
    using a(2) by (auto simp: c_atoi_def Cons Let_def split: if_splits)
qed (auto simp: c_atoi_def split: if_splits)

lemma device_callbacks_ok:
  assumes "conf_ok s"
  shows "pktpool_size_handler ts s = Some s' \<Longrightarrow> conf_ok s'" "pktpool_cache_handler ts s = Some s' \<Longrightarrow> conf_ok s'"
    "rx_queue_number_handler ts s = Some s' \<Longrightarrow> conf_ok s'" "rx_desc_nb_handler ts s = Some s' \<Longrightarrow> conf_ok s'"
    "rss_handler ts s = Some s' \<Longrightarrow> conf_ok s'" "tx_queue_number_handler ts s = Some s' \<Longrightarrow> conf_ok s'"
    "tx_desc_nb_handler ts s = Some s' \<Longrightarrow> conf_ok s'" "custom_mtu_handler ts s = Some s' \<Longrightarrow> conf_ok s'"
proof -
  note simps = bind_eq_Some_conv netif_consts
  assume "pktpool_size_handler ts s = Some s'"
  then show "conf_ok s'"
    using assms power_defaults power2_round [of _ 1 _ 10 134217728]
    by (auto simp: pktpool_size_handler_def conf_ok_def simps split: if_splits)
next
  assume "pktpool_cache_handler ts s = Some s'"
  then show "conf_ok s'"
    using assms power_defaults power2_round [of _ 0 _ 5 8192]
    by (auto simp: pktpool_cache_handler_def conf_ok_def bind_eq_Some_conv netif_consts split: if_splits)
next
  assume "rx_queue_number_handler ts s = Some s'"
  then show "conf_ok s'"
    using assms by (auto simp: rx_queue_number_handler_def bind_eq_Some_conv netif_consts device_ok_def elim!: on_device_ok [rotated])
next
  assume a: "rx_desc_nb_handler ts s = Some s'"
  have d: "device_ok d \<Longrightarrow> power_in 16 8192 n \<Longrightarrow> device_ok (d\<lparr>rx_desc_nb := n\<rparr>)" for d n
    by (simp add: device_ok_def)
  show "conf_ok s'"
    using a assms power_defaults(1) power2_round [of _ 0 _ 4 8192]
    by (auto simp: rx_desc_nb_handler_def bind_eq_Some_conv netif_consts split: if_splits elim!: on_device_ok [rotated] intro!: d)
next
  assume "rss_handler ts s = Some s'"
  then show "conf_ok s'"
    using assms by (auto simp: rss_handler_def bind_eq_Some_conv device_ok_def elim!: on_device_ok [rotated])
next
  assume "tx_queue_number_handler ts s = Some s'"
  then show "conf_ok s'"
    using assms by (auto simp: tx_queue_number_handler_def bind_eq_Some_conv netif_consts device_ok_def elim!: on_device_ok [rotated])
next
  assume a: "tx_desc_nb_handler ts s = Some s'"
  have d: "device_ok d \<Longrightarrow> power_in 16 8192 n \<Longrightarrow> device_ok (d\<lparr>tx_desc_nb := n\<rparr>)" for d n
    by (simp add: device_ok_def)
  show "conf_ok s'"
    using a assms power_defaults(2) power2_round [of _ 0 _ 4 8192]
    by (auto simp: tx_desc_nb_handler_def bind_eq_Some_conv netif_consts split: if_splits elim!: on_device_ok [rotated] intro!: d)
next
  assume "custom_mtu_handler ts s = Some s'"
  then show "conf_ok s'"
    using assms by (auto simp: custom_mtu_handler_def bind_eq_Some_conv netif_consts device_ok_def elim!: on_device_ok [rotated])
qed

lemma flag_callbacks_ok:
  assumes "conf_ok s"
  shows "tx_mbuf_fast_free_handler ts s = Some s' \<Longrightarrow> conf_ok s'" "promisc_mode_handler ts s = Some s' \<Longrightarrow> conf_ok s'"
    "allmulticast_handler ts s = Some s' \<Longrightarrow> conf_ok s'" "kni_name_handler ts s = Some s' \<Longrightarrow> conf_ok s'"
  using assms
  by (auto simp: tx_mbuf_fast_free_handler_def promisc_mode_handler_def allmulticast_handler_def kni_name_handler_def
      bind_eq_Some_conv device_ok_def elim!: on_device_ok [rotated])

lemma list_callbacks_ok:
  assumes "conf_ok s"
  shows "netif_defs_handler ts s = Some s' \<Longrightarrow> conf_ok s'" "worker_defs_handler ts s = Some s' \<Longrightarrow> conf_ok s'"
    "device_handler env ts s = Some s' \<Longrightarrow> conf_ok s'" "worker_handler env ts s = Some s' \<Longrightarrow> conf_ok s'"
  using assms power_defaults
  by (auto simp: netif_defs_handler_def worker_defs_handler_def device_handler_def worker_handler_def conf_ok_def new_device_def
      device_ok_def worker_ok_def netif_consts bind_eq_Some_conv split: if_splits)

lemma new_queue_ok: "queue_ok (new_queue_conf name)"
  by (simp add: new_queue_conf_def queue_ok_def qids_ok_def netif_consts)

lemma worker_callbacks_ok:
  assumes "conf_ok s"
  shows "worker_type_handler ts s = Some s' \<Longrightarrow> conf_ok s'" "cpu_id_handler ts s = Some s' \<Longrightarrow> conf_ok s'"
    "worker_port_handler env ts s = Some s' \<Longrightarrow> conf_ok s'"
proof -
  assume "worker_type_handler ts s = Some s'"
  then show "conf_ok s'"
    using assms by (auto simp: worker_type_handler_def bind_eq_Some_conv worker_ok_def elim!: on_worker_ok [rotated])
next
  assume "cpu_id_handler ts s = Some s'"
  then show "conf_ok s'"
    using assms digits_nonneg
    by (auto simp: cpu_id_handler_def bind_eq_Some_conv worker_ok_def split: if_splits elim!: on_worker_ok [rotated])
next
  have c: "conf_ok (s\<lparr>netif_allocs := n\<rparr>)" for n
    using assms by (simp add: conf_ok_def)
  assume "worker_port_handler env ts s = Some s'"
  then show "conf_ok s'"
    using c new_queue_ok
    by (auto simp: worker_port_handler_def bind_eq_Some_conv worker_ok_def split: if_splits elim!: on_worker_ok [rotated])
qed

lemma port_callbacks_ok:
  assumes "conf_ok s"
  shows "rx_queue_ids_handler ts s = Some s' \<Longrightarrow> conf_ok s'" "tx_queue_ids_handler ts s = Some s' \<Longrightarrow> conf_ok s'"
    "isol_rx_cpu_ids_handler env ts s = Some s' \<Longrightarrow> conf_ok s'" "isol_rxq_ring_sz_handler ts s = Some s' \<Longrightarrow> conf_ok s'"
  using assms
  by (auto simp: rx_queue_ids_handler_def tx_queue_ids_handler_def isol_rx_cpu_ids_handler_def isol_rxq_ring_sz_handler_def queue_ok_def
      bind_eq_Some_conv split: if_splits elim!: on_port_ok [rotated] dest: store_queue_ids_ok store_ids_ok)

lemma timer_callback_ok: "conf_ok s \<Longrightarrow> timer_sched_interval_handler ts s = Some s' \<Longrightarrow> conf_ok s'"
  by (auto simp: timer_sched_interval_handler_def conf_ok_def netif_consts bind_eq_Some_conv split: option.splits)

lemmas callbacks_ok = device_callbacks_ok flag_callbacks_ok list_callbacks_ok worker_callbacks_ok port_callbacks_ok timer_callback_ok

lemma netif_call_ok: "conf_ok s \<Longrightarrow> netif_call env f ts s = Some s' \<Longrightarrow> conf_ok s'"
  unfolding netif_call_def by (auto split: if_splits dest: callbacks_ok)

text \<open>The parser as a server of these callbacks, whatever the files and the system are.\<close>

interpretation conf_client: config_client "e\<lparr>kw_call := netif_call env\<rparr>" UNIV conf_ok for e env
  by unfold_locales (simp add: netif_call_ok)

lemma handlers_in_UNIV: "handlers_in UNIV kws"
  by (induction "UNIV :: nat set" kws rule: handlers_in.induct) (auto split: option.splits)

lemma value_init_ok: "conf_ok s \<Longrightarrow> conf_ok (keyword_value_init st s)"
  using power_defaults
  by (simp add: keyword_value_init_def netif_keyword_value_init_def ndf_timer_keyword_value_init_def conf_ok_def netif_consts)

section \<open>The tree of keywords\<close>

definition init_only :: "bool \<Rightarrow> nat \<Rightarrow> nat option" where
  "init_only i f = (if i then Some f else None)"

text \<open>The keywords as the configuration file nests them; outside initialisation only three callbacks are left.\<close>

definition rx_keywords :: "bool \<Rightarrow> keyword list" where
  "rx_keywords i = [Keyword (str ''queue_number'') (init_only i 5) None, Keyword (str ''descriptor_number'') (init_only i 6) None,
     Keyword (str ''rss'') (init_only i 7) None]"

definition tx_keywords :: "bool \<Rightarrow> keyword list" where
  "tx_keywords i = [Keyword (str ''queue_number'') (init_only i 8) None, Keyword (str ''descriptor_number'') (init_only i 9) None,
     Keyword (str ''mbuf_fast_free'') (init_only i 10) None]"

definition device_keywords :: "bool \<Rightarrow> keyword list" where
  "device_keywords i = [Keyword (str ''rx'') None (Some (rx_keywords i)), Keyword (str ''tx'') None (Some (tx_keywords i)),
     Keyword (str ''promisc_mode'') (init_only i 11) None, Keyword (str ''allmulticast'') (init_only i 12) None,
     Keyword (str ''mtu'') (init_only i 13) None, Keyword (str ''kni_name'') (init_only i 14) None]"

definition netif_keywords :: "bool \<Rightarrow> keyword list" where
  "netif_keywords i = [Keyword (str ''pktpool_size'') (init_only i 2) None, Keyword (str ''pktpool_cache'') (init_only i 3) None,
     Keyword (str ''device'') (init_only i 4) (Some (device_keywords i))]"

definition port_keywords :: "bool \<Rightarrow> keyword list" where
  "port_keywords i = [Keyword (str ''rx_queue_ids'') (init_only i 20) None, Keyword (str ''tx_queue_ids'') (init_only i 21) None,
     Keyword (str ''isol_rx_cpu_ids'') (init_only i 22) None, Keyword (str ''isol_rxq_ring_sz'') (init_only i 23) None]"

definition worker_keywords :: "bool \<Rightarrow> keyword list" where
  "worker_keywords i = [Keyword (str ''type'') (init_only i 17) None, Keyword (str ''cpu_id'') (init_only i 18) None,
     Keyword (str ''port'') (init_only i 19) (Some (port_keywords i))]"

definition timer_keywords :: "keyword list" where
  "timer_keywords = [Keyword (str ''schedule_interval'') (Some 24) None]"

definition conf_keywords :: "bool \<Rightarrow> keyword list" where
  "conf_keywords i = [Keyword (str ''netif_defs'') (Some 1) (Some (netif_keywords i)),
     Keyword (str ''worker_defs'') (Some 15) (Some [Keyword (str ''worker'') (init_only i 16) (Some (worker_keywords i))]),
     Keyword (str ''timer_defs'') None (Some timer_keywords)]"

lemmas tree_defs = rx_keywords_def tx_keywords_def device_keywords_def netif_keywords_def port_keywords_def worker_keywords_def
  timer_keywords_def conf_keywords_def

lemmas install_defs = install_keyword_root_def install_keyword_def keyword_alloc_sub_def install_sublevel_def install_sublevel_end_def
  keyword_alloc_def vector_add_def

lemma install_keywords_tree:
  assumes "g_sublevel k = 0"
  shows "install_keywords (k\<lparr>g_keywords := []\<rparr>) = Some (k\<lparr>g_keywords := conf_keywords (g_state k = NET_DEFENDER_STATE_INIT)\<rparr>)"
  using assms
  by (cases "g_state k = NET_DEFENDER_STATE_INIT")
    (simp_all add: install_keywords_def install_netif_keywords_def ndf_install_timer_keywords_def install_defs tree_defs
      init_only_def eval_nat_numeral)

text \<open>What a reload outside initialisation may change.\<close>

definition only_dropped :: "netif_conf \<Rightarrow> netif_conf \<Rightarrow> bool" where
  "only_dropped s s' \<longleftrightarrow> port_list s' \<in> {port_list s, []} \<and> worker_list s' \<in> {worker_list s, []}
     \<and> netif_pktpool_nb_mbuf s' = netif_pktpool_nb_mbuf s \<and> netif_pktpool_mbuf_cache s' = netif_pktpool_mbuf_cache s"

interpretation reload_client: config_client "e\<lparr>kw_call := netif_call env\<rparr>" "{1, 15, 24}" "only_dropped s0" for e env s0
  by unfold_locales
    (auto simp: netif_call_def netif_defs_handler_def worker_defs_handler_def timer_sched_interval_handler_def only_dropped_def
      bind_eq_Some_conv split: option.splits)

lemma reload_keywords: "handlers_in {1, 15, 24} (conf_keywords False)"
  by (simp add: tree_defs init_only_def)
end
