(* ===== verification/Netif_Load.thy ===== *)
theory Netif_Load
  imports Netif_Config
begin

text \<open>
  The whole way from the text of a configuration file to the lists of devices and workers: files are printed from a
  specification, and loading the text gives the configuration of the specification.
\<close>

section \<open>A configuration file and what it configures\<close>

text \<open>The specification of a file: devices, workers with their queues, pools and the timer's interval.\<close>

record dev_spec =
  ds_name :: bytes
  ds_rxq :: nat
  ds_rxd :: nat
  ds_rss :: bytes
  ds_txq :: nat
  ds_txd :: nat
  ds_mtu :: nat
  ds_promisc :: bool

record port_spec =
  ps_name :: bytes
  ps_rx :: "nat list"
  ps_tx :: "nat list"

record worker_spec =
  ws_name :: bytes
  ws_type :: bytes
  ws_cpu :: nat
  ws_ports :: "port_spec list"

definition name_ok :: "bytes \<Rightarrow> bool" where
  "name_ok n \<longleftrightarrow> plain_word n \<and> length n < 32"

definition dev_spec_ok :: "dev_spec \<Rightarrow> bool" where
  "dev_spec_ok d \<longleftrightarrow> name_ok (ds_name d) \<and> ds_rxq d \<le> 16 \<and> ds_txq d \<le> 16 \<and> ds_rss d \<in> set rss_names
     \<and> (\<exists>k. 4 \<le> k \<and> k \<le> 13 \<and> ds_rxd d = 2 ^ k) \<and> (\<exists>k. 4 \<le> k \<and> k \<le> 13 \<and> ds_txd d = 2 ^ k) \<and> 1 \<le> ds_mtu d \<and> ds_mtu d \<le> 9000"

definition port_spec_ok :: "port_spec \<Rightarrow> bool" where
  "port_spec_ok p \<longleftrightarrow> name_ok (ps_name p) \<and> length (ps_rx p) \<le> 16 \<and> length (ps_tx p) \<le> 16
     \<and> (\<forall>q \<in> set (ps_rx p) \<union> set (ps_tx p). q < 16)"

definition worker_spec_ok :: "worker_spec \<Rightarrow> bool" where
  "worker_spec_ok w \<longleftrightarrow> name_ok (ws_name w) \<and> ws_type w \<in> {str ''master'', str ''slave'', str ''kni''} \<and> ws_cpu w < 1000
     \<and> (\<forall>p \<in> set (ws_ports w). port_spec_ok p)"

subsection \<open>Printing\<close>

definition dev_item :: "dev_spec \<Rightarrow> item" where
  "dev_item d = Block [str ''device'', ds_name d]
     ([Block [str ''rx''] [Line [str ''queue_number'', show_dec (ds_rxq d)], Line [str ''descriptor_number'', show_dec (ds_rxd d)],
         Line [str ''rss'', ds_rss d]],
       Block [str ''tx''] [Line [str ''queue_number'', show_dec (ds_txq d)], Line [str ''descriptor_number'', show_dec (ds_txd d)]],
       Line [str ''mtu'', show_dec (ds_mtu d)]] @ (if ds_promisc d then [Line [str ''promisc_mode'', str ''on'']] else []))"

definition port_item :: "port_spec \<Rightarrow> item" where
  "port_item p = Block [str ''port'', ps_name p]
     [Line (str ''rx_queue_ids'' # map show_dec (ps_rx p)), Line (str ''tx_queue_ids'' # map show_dec (ps_tx p))]"

definition worker_item :: "worker_spec \<Rightarrow> item" where
  "worker_item w = Block [str ''worker'', ws_name w]
     (Line [str ''type'', ws_type w] # Line [str ''cpu_id'', show_dec (ws_cpu w)] # map port_item (ws_ports w))"

subsection \<open>Meaning\<close>

definition dev_conf :: "dev_spec \<Rightarrow> port_conf_stream" where
  "dev_conf d = (new_device (ds_name d))\<lparr>rx_queue_nb := int (ds_rxq d), rx_desc_nb := int (ds_rxd d),
     pc_rss := strncpy_field 32 (ds_rss d), tx_queue_nb := int (ds_txq d), tx_desc_nb := int (ds_txd d), pc_mtu := int (ds_mtu d),
     promisc_mode := ds_promisc d\<rparr>"

definition pad_ids :: "nat list \<Rightarrow> int list" where
  "pad_ids qs = map int qs @ replicate (16 - length qs) 16"

definition port_conf :: "port_spec \<Rightarrow> queue_conf_stream" where
  "port_conf p = (new_queue_conf (ps_name p))\<lparr>rx_queues := pad_ids (ps_rx p), tx_queues := pad_ids (ps_tx p)\<rparr>"

definition worker_conf :: "worker_spec \<Rightarrow> worker_conf_stream" where
  "worker_conf w = \<lparr>wc_cpu_id = Some (int (ws_cpu w)), wc_name = strncpy_field 32 (ws_name w), wc_type = Some (strncpy_field 32 (ws_type w)),
     wc_port_list = rev (map port_conf (ws_ports w))\<rparr>"

text \<open>One file that the system finds.\<close>

definition one_file :: "netif_env \<Rightarrow> bytes \<Rightarrow> (unit, netif_conf) cfg_env" where
  "one_file env content = \<lparr>fs_glob = \<lambda>_ _. [[]], fs_open = \<lambda>_ _. Some content, fs_getcwd = \<lambda>_. Some [], fs_chdir = \<lambda>_ _. Some (),
     fs_dirname = \<lambda>p. p, kw_call = netif_call env\<rparr>"

lemma exec_items_append: "exec_items e kws (xs @ ys) c = Option.bind (exec_items e kws xs c) (exec_items e kws ys)"
proof (induction e kws xs c rule: exec_items.induct)
  case (2 e kws ws xs c)
  then show ?case
    by (cases "find (\<lambda>kw. kw_str kw = hd ws) kws"; cases "call_handler e (the (find (\<lambda>kw. kw_str kw = hd ws) kws)) ws c") simp_all
next
  case (3 e kws ws body xs c)
  show ?case
  proof (cases "find (\<lambda>kw. kw_str kw = hd ws) kws")
    case (Some kw)
    show ?thesis
    proof (cases "call_handler e kw (ws @ [[123]]) c")
      case c1: (Some c1)
      show ?thesis
        using "3.IH"(2) [OF Some c1] Some c1 by (cases "exec_items e (the (kw_sub kw)) body c1") simp_all
    qed (simp add: Some)
  qed simp
qed simp

lemma value_word: "first_char v \<noteq> QUOTE \<Longrightarrow> value_of [k, v] = Some v"
  by (simp add: value_of_def set_value_def)

lemma show_dec_first_char: "first_char (show_dec n) \<noteq> QUOTE"
proof -
  obtain x xs where x: "show_dec n = x # xs"
    using show_dec_nonempty [of n] by (cases "show_dec n") auto
  then have "48 \<le> x"
    using show_dec_digits [of n] by (simp add: all_digits_def)
  then show ?thesis
    by (auto simp: x first_char_def QUOTE_def)
qed

lemma value_number: "n < 2 ^ 31 \<Longrightarrow> Option.bind (value_of [k, show_dec n]) c_atoi = Some (int n)"
  by (simp add: value_word show_dec_first_char atoi_show)

lemma power2_exact:
  assumes "1 \<le> k" "k < 31" "2 \<le> 2 ^ k - off"
  shows "\<exists>b. is_power2 (2 ^ k - off) off = Some (b, 2 ^ k)"
proof -
  have k: "(2 :: int) ^ 1 \<le> 2 ^ k" "(2 :: int) ^ k < 2 ^ 31"
    using assms by (intro power_increasing power_strict_increasing; simp)+
  obtain b j where p: "power2_loop (2 ^ k) 1 True = (b, j)"
    by fastforce
  have "2 \<le> (2 :: nat) ^ k"
    using assms(1) self_le_power [of 2 k] by simp
  then have j: "2 ^ j \<le> (2 :: nat) ^ k" "(2 :: nat) ^ k < 2 ^ Suc j"
    using power2_loop_spec [OF p] by simp_all
  have "j \<le> k" "k < Suc j"
    using j by (simp_all only: power_increasing_iff power_strict_increasing_iff one_less_numeral_iff semiring_norm)
  then have "j = k"
    by simp
  then show ?thesis
    using p k assms(3) by (simp add: is_power2_def nat_power_eq)
qed

subsection \<open>Devices\<close>

text \<open>The callbacks that the words of a line reach during initialisation.\<close>

lemma name_compare:
  "str ''queue_number'' \<noteq> str ''descriptor_number''" "str ''queue_number'' \<noteq> str ''rss''" "str ''descriptor_number'' \<noteq> str ''rss''"
  "str ''rx'' \<noteq> str ''tx''" "str ''rx'' \<noteq> str ''mtu''" "str ''tx'' \<noteq> str ''mtu''" "str ''rx'' \<noteq> str ''promisc_mode''"
  "str ''tx'' \<noteq> str ''promisc_mode''" "str ''allmulticast'' \<noteq> str ''mtu''" "str ''promisc_mode'' \<noteq> str ''mtu''"
  "str ''pktpool_size'' \<noteq> str ''pktpool_cache''" "str ''pktpool_size'' \<noteq> str ''device''" "str ''pktpool_cache'' \<noteq> str ''device''"
  "str ''type'' \<noteq> str ''cpu_id''" "str ''type'' \<noteq> str ''port''" "str ''cpu_id'' \<noteq> str ''port''"
  "str ''rx_queue_ids'' \<noteq> str ''tx_queue_ids''" "str ''netif_defs'' \<noteq> str ''worker_defs''" "str ''netif_defs'' \<noteq> str ''timer_defs''"
  "str ''worker_defs'' \<noteq> str ''timer_defs''"
  by (simp_all add: str_simps)

lemmas names = name_compare name_compare [symmetric]

lemma call_one_file: "kw_call (one_file env content) = netif_call env"
  by (simp add: one_file_def)

lemma line_exec:
  assumes "find (\<lambda>kw. kw_str kw = k) kws = Some kw" "kw_handler kw = Some f"
  shows "exec_items (one_file env content) kws (Line (k # ws) # is) s
    = Option.bind (netif_call env f (k # ws) s) (exec_items (one_file env content) kws is)"
  using assms by (simp add: call_handler_def call_one_file)

lemma rx_find:
  "find (\<lambda>kw. kw_str kw = str ''queue_number'') (rx_keywords True) = Some (Keyword (str ''queue_number'') (Some 5) None)"
  "find (\<lambda>kw. kw_str kw = str ''descriptor_number'') (rx_keywords True) = Some (Keyword (str ''descriptor_number'') (Some 6) None)"
  "find (\<lambda>kw. kw_str kw = str ''rss'') (rx_keywords True) = Some (Keyword (str ''rss'') (Some 7) None)"
  by (simp_all add: rx_keywords_def init_only_def names)

lemma tx_find:
  "find (\<lambda>kw. kw_str kw = str ''queue_number'') (tx_keywords True) = Some (Keyword (str ''queue_number'') (Some 8) None)"
  "find (\<lambda>kw. kw_str kw = str ''descriptor_number'') (tx_keywords True) = Some (Keyword (str ''descriptor_number'') (Some 9) None)"
  by (simp_all add: tx_keywords_def init_only_def names)

lemma device_find:
  "find (\<lambda>kw. kw_str kw = str ''rx'') (device_keywords True) = Some (Keyword (str ''rx'') None (Some (rx_keywords True)))"
  "find (\<lambda>kw. kw_str kw = str ''tx'') (device_keywords True) = Some (Keyword (str ''tx'') None (Some (tx_keywords True)))"
  "find (\<lambda>kw. kw_str kw = str ''mtu'') (device_keywords True) = Some (Keyword (str ''mtu'') (Some 13) None)"
  "find (\<lambda>kw. kw_str kw = str ''promisc_mode'') (device_keywords True) = Some (Keyword (str ''promisc_mode'') (Some 11) None)"
  by (simp_all add: device_keywords_def init_only_def names)

lemma netif_find:
  "find (\<lambda>kw. kw_str kw = str ''device'') (netif_keywords True) = Some (Keyword (str ''device'') (Some 4) (Some (device_keywords True)))"
  by (simp add: netif_keywords_def init_only_def names)

text \<open>The effect of each line on the current device.\<close>

lemma device_lines:
  assumes "port_list s = d # ds"
  shows "n \<le> 16 \<Longrightarrow> netif_call env 5 [k, show_dec n] s = Some (s\<lparr>port_list := d\<lparr>rx_queue_nb := int n\<rparr> # ds\<rparr>)"
    "4 \<le> p \<Longrightarrow> p \<le> 13 \<Longrightarrow> netif_call env 6 [k, show_dec (2 ^ p)] s = Some (s\<lparr>port_list := d\<lparr>rx_desc_nb := 2 ^ p\<rparr> # ds\<rparr>)"
    "v \<in> set rss_names \<Longrightarrow> netif_call env 7 [k, v] s = Some (s\<lparr>port_list := d\<lparr>pc_rss := strncpy_field 32 v\<rparr> # ds\<rparr>)"
    "n \<le> 16 \<Longrightarrow> netif_call env 8 [k, show_dec n] s = Some (s\<lparr>port_list := d\<lparr>tx_queue_nb := int n\<rparr> # ds\<rparr>)"
    "4 \<le> p \<Longrightarrow> p \<le> 13 \<Longrightarrow> netif_call env 9 [k, show_dec (2 ^ p)] s = Some (s\<lparr>port_list := d\<lparr>tx_desc_nb := 2 ^ p\<rparr> # ds\<rparr>)"
    "1 \<le> n \<Longrightarrow> n \<le> 9000 \<Longrightarrow> netif_call env 13 [k, show_dec n] s = Some (s\<lparr>port_list := d\<lparr>pc_mtu := int n\<rparr> # ds\<rparr>)"
    "netif_call env 11 ts s = Some (s\<lparr>port_list := d\<lparr>promisc_mode := True\<rparr> # ds\<rparr>)"
proof -
  have number: "value_of [k, show_dec n] = Some (show_dec n)" for k n
    by (simp add: value_word show_dec_first_char)
  have pw: "(16 :: nat) \<le> 2 ^ p" "(2 :: nat) ^ p \<le> 8192" "(16 :: int) \<le> 2 ^ p" "(2 :: int) ^ p \<le> 8192" if "4 \<le> p" "p \<le> 13"
    using power_increasing [OF that(1), of "2 :: nat"] power_increasing [OF that(2), of "2 :: nat"]
      power_increasing [OF that(1), of "2 :: int"] power_increasing [OF that(2), of "2 :: int"] by simp_all
  show "n \<le> 16 \<Longrightarrow> netif_call env 5 [k, show_dec n] s = Some (s\<lparr>port_list := d\<lparr>rx_queue_nb := int n\<rparr> # ds\<rparr>)"
    "n \<le> 16 \<Longrightarrow> netif_call env 8 [k, show_dec n] s = Some (s\<lparr>port_list := d\<lparr>tx_queue_nb := int n\<rparr> # ds\<rparr>)"
    "1 \<le> n \<Longrightarrow> n \<le> 9000 \<Longrightarrow> netif_call env 13 [k, show_dec n] s = Some (s\<lparr>port_list := d\<lparr>pc_mtu := int n\<rparr> # ds\<rparr>)"
    "netif_call env 11 ts s = Some (s\<lparr>port_list := d\<lparr>promisc_mode := True\<rparr> # ds\<rparr>)"
    using assms number atoi_show [of n]
    by (auto simp: netif_call_def rx_queue_number_handler_def tx_queue_number_handler_def custom_mtu_handler_def promisc_mode_handler_def
        on_device_def netif_consts)
  show "v \<in> set rss_names \<Longrightarrow> netif_call env 7 [k, v] s = Some (s\<lparr>port_list := d\<lparr>pc_rss := strncpy_field 32 v\<rparr> # ds\<rparr>)"
  proof -
    assume v: "v \<in> set rss_names"
    then have "first_char v \<noteq> QUOTE"
      by (auto simp: rss_names_def str_simps first_char_def QUOTE_def)
    then show ?thesis
      using assms v by (simp add: netif_call_def rss_handler_def on_device_def value_word)
  qed
  assume p: "4 \<le> p" "p \<le> 13"
  obtain b where "is_power2 (2 ^ p) 0 = Some (b, 2 ^ p)"
    using power2_exact [of p 0] p pw [OF p] by auto
  then show "netif_call env 6 [k, show_dec (2 ^ p)] s = Some (s\<lparr>port_list := d\<lparr>rx_desc_nb := 2 ^ p\<rparr> # ds\<rparr>)"
    "netif_call env 9 [k, show_dec (2 ^ p)] s = Some (s\<lparr>port_list := d\<lparr>tx_desc_nb := 2 ^ p\<rparr> # ds\<rparr>)"
    using assms number atoi_show [of "2 ^ p"] pw [OF p]
    by (auto simp: netif_call_def rx_desc_nb_handler_def tx_desc_nb_handler_def on_device_def netif_consts)
qed

lemma device_exec:
  assumes "dev_spec_ok d" "malloc_ok (alloc_env env) (netif_allocs s)"
  shows "exec_items (one_file env content) (netif_keywords True) (dev_item d # is) s
    = exec_items (one_file env content) (netif_keywords True) is (s\<lparr>netif_allocs := netif_allocs s + 1, port_list := dev_conf d # port_list s\<rparr>)"
proof -
  obtain a b where p: "4 \<le> a" "a \<le> 13" "ds_rxd d = 2 ^ a" "4 \<le> b" "b \<le> 13" "ds_txd d = 2 ^ b"
    using assms(1) by (auto simp: dev_spec_ok_def)
  have d: "netif_call env 4 [str ''device'', ds_name d, [123]] s = Some (s\<lparr>netif_allocs := netif_allocs s + 1, port_list := new_device (ds_name d) # port_list s\<rparr>)"
    using assms(2) by (simp add: netif_call_def device_handler_def token_1_def)
  show ?thesis
    using assms(1) p d
    by (cases "ds_promisc d")
      (simp_all add: dev_item_def dev_spec_ok_def netif_find device_find rx_find tx_find call_handler_def call_one_file device_lines dev_conf_def
        new_device_def exec_items_append)
qed

lemma devices_exec:
  assumes "\<forall>d \<in> set ds. dev_spec_ok d" "\<forall>i. malloc_ok (alloc_env env) i"
  shows "exec_items (one_file env content) (netif_keywords True) (map dev_item ds) s
    = Some (s\<lparr>netif_allocs := netif_allocs s + length ds, port_list := rev (map dev_conf ds) @ port_list s\<rparr>)"
  using assms(1)
proof (induction ds arbitrary: s)
  case (Cons d ds)
  then show ?case
    using device_exec [of d env s content "map dev_item ds"] assms(2) by simp
qed simp

subsection \<open>Workers\<close>

lemma store_ids_shown:
  "i + length qs \<le> length a \<Longrightarrow> \<forall>q \<in> set qs. q < 16 \<Longrightarrow>
   store_ids valid_qid i (map show_dec qs) a = Some (take i a @ map int qs @ drop (i + length qs) a)"
proof (induction qs arbitrary: i a)
  case (Cons q qs)
  have "valid_qid (int q) = int q"
    using Cons.prems(2) by (simp add: valid_qid_def netif_consts)
  moreover have "take (Suc i) (a[i := int q]) = take i a @ [int q]"
    using Cons.prems(1) by (simp add: take_Suc_conv_app_nth)
  ultimately show ?case
    using Cons.IH [of "Suc i" "a[i := int q]"] Cons.prems atoi_show [of q] by simp
qed simp

lemma store_queue_ids_shown:
  "length a = 16 \<Longrightarrow> length qs \<le> 16 \<Longrightarrow> \<forall>q \<in> set qs. q < 16 \<Longrightarrow> store_queue_ids (k # map show_dec qs) a = Some (pad_ids qs)"
  using store_ids_shown [of 0 qs a] by (simp add: store_queue_ids_def pad_ids_def netif_consts)

lemma port_find:
  "find (\<lambda>kw. kw_str kw = str ''rx_queue_ids'') (port_keywords True) = Some (Keyword (str ''rx_queue_ids'') (Some 20) None)"
  "find (\<lambda>kw. kw_str kw = str ''tx_queue_ids'') (port_keywords True) = Some (Keyword (str ''tx_queue_ids'') (Some 21) None)"
  by (simp_all add: port_keywords_def init_only_def names)

lemma worker_find:
  "find (\<lambda>kw. kw_str kw = str ''type'') (worker_keywords True) = Some (Keyword (str ''type'') (Some 17) None)"
  "find (\<lambda>kw. kw_str kw = str ''cpu_id'') (worker_keywords True) = Some (Keyword (str ''cpu_id'') (Some 18) None)"
  "find (\<lambda>kw. kw_str kw = str ''port'') (worker_keywords True) = Some (Keyword (str ''port'') (Some 19) (Some (port_keywords True)))"
  by (simp_all add: worker_keywords_def init_only_def names)

lemma worker_lines:
  assumes "worker_list s = w # ws"
  shows "t \<in> {str ''master'', str ''slave'', str ''kni''} \<Longrightarrow>
      netif_call env 17 [k, t] s = Some (s\<lparr>worker_list := w\<lparr>wc_type := Some (strncpy_field 32 t)\<rparr> # ws\<rparr>)"
    "n < 1000 \<Longrightarrow> netif_call env 18 [k, show_dec n] s = Some (s\<lparr>worker_list := w\<lparr>wc_cpu_id := Some (int n)\<rparr> # ws\<rparr>)"
    "malloc_ok (alloc_env env) (netif_allocs s) \<Longrightarrow> netif_call env 19 [k, p, b] s
      = Some (s\<lparr>netif_allocs := netif_allocs s + 1, worker_list := w\<lparr>wc_port_list := new_queue_conf p # wc_port_list w\<rparr> # ws\<rparr>)"
proof -
  assume t: "t \<in> {str ''master'', str ''slave'', str ''kni''}"
  then have "first_char t \<noteq> QUOTE"
    by (auto simp: str_simps first_char_def QUOTE_def)
  then show "netif_call env 17 [k, t] s = Some (s\<lparr>worker_list := w\<lparr>wc_type := Some (strncpy_field 32 t)\<rparr> # ws\<rparr>)"
    using assms t by (auto simp: netif_call_def worker_type_handler_def on_worker_def value_word)
next
  assume "n < 1000"
  moreover have "list_all c_isdigit (show_dec n)"
    using show_dec_digits [of n] by (simp add: all_digits_def list_all_iff c_isdigit_def)
  ultimately show "netif_call env 18 [k, show_dec n] s = Some (s\<lparr>worker_list := w\<lparr>wc_cpu_id := Some (int n)\<rparr> # ws\<rparr>)"
    using assms atoi_show [of n] by (simp add: netif_call_def cpu_id_handler_def on_worker_def value_word show_dec_first_char)
next
  assume "malloc_ok (alloc_env env) (netif_allocs s)"
  then show "netif_call env 19 [k, p, b] s
      = Some (s\<lparr>netif_allocs := netif_allocs s + 1, worker_list := w\<lparr>wc_port_list := new_queue_conf p # wc_port_list w\<rparr> # ws\<rparr>)"
    using assms by (simp add: netif_call_def worker_port_handler_def on_worker_def token_1_def)
qed

lemma port_lines:
  assumes "worker_list s = w # ws" "wc_port_list w = p # ps" "length qs \<le> 16" "\<forall>q \<in> set qs. q < 16"
  shows "length (rx_queues p) = 16 \<Longrightarrow> netif_call env 20 (k # map show_dec qs) s
      = Some (s\<lparr>worker_list := w\<lparr>wc_port_list := p\<lparr>rx_queues := pad_ids qs\<rparr> # ps\<rparr> # ws\<rparr>)"
    "length (tx_queues p) = 16 \<Longrightarrow> netif_call env 21 (k # map show_dec qs) s
      = Some (s\<lparr>worker_list := w\<lparr>wc_port_list := p\<lparr>tx_queues := pad_ids qs\<rparr> # ps\<rparr> # ws\<rparr>)"
  using assms
  by (simp_all add: netif_call_def rx_queue_ids_handler_def tx_queue_ids_handler_def on_port_def store_queue_ids_shown)

lemma port_exec:
  assumes "port_spec_ok p" "malloc_ok (alloc_env env) (netif_allocs s)" "worker_list s = w # ws"
  shows "exec_items (one_file env content) (worker_keywords True) (port_item p # is) s
    = exec_items (one_file env content) (worker_keywords True) is
        (s\<lparr>netif_allocs := netif_allocs s + 1, worker_list := w\<lparr>wc_port_list := port_conf p # wc_port_list w\<rparr> # ws\<rparr>)"
  using assms
  by (simp add: port_item_def worker_find port_find call_handler_def call_one_file worker_lines port_lines port_spec_ok_def port_conf_def
      new_queue_conf_def netif_consts)

lemma ports_exec:
  assumes "\<forall>p \<in> set ps. port_spec_ok p" "\<forall>i. malloc_ok (alloc_env env) i" "worker_list s = w # ws"
  shows "exec_items (one_file env content) (worker_keywords True) (map port_item ps) s
    = Some (s\<lparr>netif_allocs := netif_allocs s + length ps, worker_list := w\<lparr>wc_port_list := rev (map port_conf ps) @ wc_port_list w\<rparr> # ws\<rparr>)"
  using assms(1,3)
proof (induction ps arbitrary: s w)
  case (Cons p ps)
  then show ?case
    using port_exec [of p env s w ws content "map port_item ps"] assms(2) by simp
qed simp

lemma worker_exec:
  assumes "worker_spec_ok w" "\<forall>i. malloc_ok (alloc_env env) i"
  shows "exec_items (one_file env content) [Keyword (str ''worker'') (Some 16) (Some (worker_keywords True))] (worker_item w # is) s
    = exec_items (one_file env content) [Keyword (str ''worker'') (Some 16) (Some (worker_keywords True))] is
        (s\<lparr>netif_allocs := netif_allocs s + 1 + length (ws_ports w), worker_list := worker_conf w # worker_list s\<rparr>)"
proof -
  let ?w = "\<lparr>wc_cpu_id = None, wc_name = strncpy_field 32 (ws_name w), wc_type = None, wc_port_list = []\<rparr>"
  have "netif_call env 16 [str ''worker'', ws_name w, [123]] s = Some (s\<lparr>netif_allocs := netif_allocs s + 1, worker_list := ?w # worker_list s\<rparr>)"
    using assms(2) by (simp add: netif_call_def worker_handler_def token_1_def)
  moreover have "ws_cpu w < 1000" "ws_type w \<in> {str ''master'', str ''slave'', str ''kni''}" "\<forall>p \<in> set (ws_ports w). port_spec_ok p"
    using assms(1) by (simp_all add: worker_spec_ok_def)
  ultimately show ?thesis
    using assms(2)
    by (simp add: worker_item_def worker_find call_handler_def call_one_file worker_lines ports_exec worker_conf_def)
qed

definition total_ports :: "worker_spec list \<Rightarrow> nat" where
  "total_ports ws = length ws + sum_list (map (length \<circ> ws_ports) ws)"

lemma workers_exec:
  assumes "\<forall>w \<in> set ws. worker_spec_ok w" "\<forall>i. malloc_ok (alloc_env env) i"
  shows "exec_items (one_file env content) [Keyword (str ''worker'') (Some 16) (Some (worker_keywords True))] (map worker_item ws) s
    = Some (s\<lparr>netif_allocs := netif_allocs s + total_ports ws, worker_list := rev (map worker_conf ws) @ worker_list s\<rparr>)"
  using assms(1)
proof (induction ws arbitrary: s)
  case (Cons w ws)
  then show ?case
    using worker_exec [of w env content "map worker_item ws" s] assms(2) by (simp add: total_ports_def add.assoc)
qed (simp add: total_ports_def)

subsection \<open>The file\<close>

record conf_spec =
  fs_pool :: nat
  fs_cache :: nat
  fs_devs :: "dev_spec list"
  fs_workers :: "worker_spec list"
  fs_interval :: nat

definition conf_spec_ok :: "conf_spec \<Rightarrow> bool" where
  "conf_spec_ok f \<longleftrightarrow> 10 \<le> fs_pool f \<and> fs_pool f \<le> 27 \<and> 5 \<le> fs_cache f \<and> fs_cache f \<le> 13
     \<and> (\<forall>d \<in> set (fs_devs f). dev_spec_ok d) \<and> (\<forall>w \<in> set (fs_workers f). worker_spec_ok w)
     \<and> 1 \<le> fs_interval f \<and> fs_interval f \<le> 10000000"

definition conf_items :: "conf_spec \<Rightarrow> item list" where
  "conf_items f =
    [Block [str ''netif_defs''] (Line [str ''pktpool_size'', show_dec (2 ^ fs_pool f - 1)] # Line [str ''pktpool_cache'', show_dec (2 ^ fs_cache f)]
       # map dev_item (fs_devs f)),
     Block [str ''worker_defs''] (map worker_item (fs_workers f)),
     Block [str ''timer_defs''] [Line [str ''schedule_interval'', show_dec (fs_interval f)]]]"

definition conf_of :: "conf_spec \<Rightarrow> netif_conf \<Rightarrow> netif_conf" where
  "conf_of f s = \<lparr>port_list = rev (map dev_conf (fs_devs f)), worker_list = rev (map worker_conf (fs_workers f)),
     netif_pktpool_nb_mbuf = 2 ^ fs_pool f - 1, netif_pktpool_mbuf_cache = 2 ^ fs_cache f, g_sched_interval = int (fs_interval f),
     netif_allocs = netif_allocs s + length (fs_devs f) + total_ports (fs_workers f)\<rparr>"

lemma pool_find:
  "find (\<lambda>kw. kw_str kw = str ''pktpool_size'') (netif_keywords True) = Some (Keyword (str ''pktpool_size'') (Some 2) None)"
  "find (\<lambda>kw. kw_str kw = str ''pktpool_cache'') (netif_keywords True) = Some (Keyword (str ''pktpool_cache'') (Some 3) None)"
  by (simp_all add: netif_keywords_def init_only_def names)

lemma conf_find:
  "find (\<lambda>kw. kw_str kw = str ''netif_defs'') (conf_keywords True) = Some (Keyword (str ''netif_defs'') (Some 1) (Some (netif_keywords True)))"
  "find (\<lambda>kw. kw_str kw = str ''worker_defs'') (conf_keywords True)
     = Some (Keyword (str ''worker_defs'') (Some 15) (Some [Keyword (str ''worker'') (Some 16) (Some (worker_keywords True))]))"
  "find (\<lambda>kw. kw_str kw = str ''timer_defs'') (conf_keywords True) = Some (Keyword (str ''timer_defs'') None (Some timer_keywords))"
  by (simp_all add: conf_keywords_def init_only_def names)

lemma pool_lines:
  "10 \<le> p \<Longrightarrow> p \<le> 27 \<Longrightarrow> netif_call env 2 [k, show_dec (2 ^ p - 1)] s = Some (s\<lparr>netif_pktpool_nb_mbuf := 2 ^ p - 1\<rparr>)"
  "5 \<le> p \<Longrightarrow> p \<le> 13 \<Longrightarrow> netif_call env 3 [k, show_dec (2 ^ p)] s = Some (s\<lparr>netif_pktpool_mbuf_cache := 2 ^ p\<rparr>)"
  "1 \<le> n \<Longrightarrow> n \<le> 10000000 \<Longrightarrow> netif_call env 24 [k, show_dec n] s = Some (s\<lparr>g_sched_interval := int n\<rparr>)"
proof -
  have number: "value_of [k, show_dec n] = Some (show_dec n)" "set_value [k, show_dec n] = Some (Some (show_dec n))" for k n
    by (simp_all add: value_word show_dec_first_char set_value_def)
  show "1 \<le> n \<Longrightarrow> n \<le> 10000000 \<Longrightarrow> netif_call env 24 [k, show_dec n] s = Some (s\<lparr>g_sched_interval := int n\<rparr>)"
    using number atoi_show [of n] by (simp add: netif_call_def timer_sched_interval_handler_def netif_consts)
  have pw: "(2 :: int) ^ l \<le> 2 ^ p" "(2 :: int) ^ p \<le> 2 ^ h" "(2 :: nat) ^ p \<le> 2 ^ h" if "l \<le> p" "p \<le> h" for l h
    using that by (simp_all add: power_increasing)
  show "netif_call env 2 [k, show_dec (2 ^ p - 1)] s = Some (s\<lparr>netif_pktpool_nb_mbuf := 2 ^ p - 1\<rparr>)" if p: "10 \<le> p" "p \<le> 27"
  proof -
    obtain b where b: "is_power2 (2 ^ p - 1) 1 = Some (b, 2 ^ p)"
      using power2_exact [of p 1] p pw [OF p] by auto
    have "int (2 ^ p - 1) = 2 ^ p - 1" "(2 :: nat) ^ p - 1 < 2 ^ 31"
      using pw [OF p] by (simp_all add: of_nat_diff)
    then show ?thesis
      using b number(1) atoi_show [of "2 ^ p - 1"] pw [OF p] by (simp add: netif_call_def pktpool_size_handler_def netif_consts)
  qed
  show "netif_call env 3 [k, show_dec (2 ^ p)] s = Some (s\<lparr>netif_pktpool_mbuf_cache := 2 ^ p\<rparr>)" if p: "5 \<le> p" "p \<le> 13"
  proof -
    obtain b where b: "is_power2 (2 ^ p) 0 = Some (b, 2 ^ p)"
      using power2_exact [of p 0] p pw [OF p] by auto
    then show ?thesis
      using number(1) atoi_show [of "2 ^ p"] pw [OF p] by (simp add: netif_call_def pktpool_cache_handler_def netif_consts)
  qed
qed

lemma conf_exec:
  assumes "conf_spec_ok f" "\<forall>i. malloc_ok (alloc_env env) i"
  shows "exec_items (one_file env content) (conf_keywords True) (conf_items f) s = Some (conf_of f s)"
proof -
  have h: "netif_call env 1 ts s1 = Some (s1\<lparr>port_list := []\<rparr>)" "netif_call env 15 ts s1 = Some (s1\<lparr>worker_list := []\<rparr>)" for ts s1
    by (simp_all add: netif_call_def netif_defs_handler_def worker_defs_handler_def)
  show ?thesis
    using assms h
    by (simp add: conf_items_def conf_spec_ok_def conf_find pool_find call_handler_def call_one_file pool_lines
        pool_lines(1) [unfolded One_nat_def] devices_exec workers_exec
        timer_keywords_def conf_of_def)
qed

text \<open>The printed lines are well formed.\<close>

lemma length_show_dec: "n < 10 ^ Suc k \<Longrightarrow> length (show_dec n) \<le> Suc k"
proof (induction k arbitrary: n)
  case 0
  then show ?case
    by (simp add: show_dec.simps [of n])
next
  case (Suc k)
  show ?case
  proof (cases "n < 10")
    case False
    have "n div 10 < 10 ^ Suc k"
      using Suc.prems by (simp add: less_mult_imp_div_less)
    then show ?thesis
      using Suc.IH False by (simp add: show_dec.simps [of n])
  qed (simp add: show_dec.simps [of n])
qed

lemma digit_plain: "48 \<le> b \<Longrightarrow> b \<le> 57 \<Longrightarrow> \<not> c_isspace b \<and> b \<noteq> 0 \<and> b \<noteq> QUOTE \<and> b \<notin> {60, 33, 35}" for b :: u8
  unfolding c_isspace_def QUOTE_def by (auto simp: word_le_nat_alt)

lemma name_show_dec: "n < 2 ^ 31 \<Longrightarrow> name_ok (show_dec n)"
proof -
  assume "n < 2 ^ 31"
  then have "length (show_dec n) \<le> Suc 9"
    by (intro length_show_dec) simp
  moreover have "plain_word (show_dec n)"
    using show_dec_digits [of n] show_dec_nonempty [of n] digit_plain hd_in_set [of "show_dec n"]
    unfolding plain_word_def all_digits_def by blast
  ultimately show ?thesis
    by (simp add: name_ok_def)
qed

lemma join_length: "length (join_words ws) \<le> sum_list (map (\<lambda>w. length w + 1) ws)"
  by (induction ws rule: join_words.induct) auto

lemma names_line_ok:
  assumes "ws \<noteq> []" "\<forall>w \<in> set ws. name_ok w" "length ws \<le> 20" "hd ws \<notin> {INCLUDE, CFG_FILE_EOB}"
  shows "line_ok ws"
proof -
  have "sum_list (map (\<lambda>w. length w + 1) ws) \<le> sum_list (map (\<lambda>w. 32) ws)"
    using assms(2) by (intro sum_list_mono) (auto simp: name_ok_def)
  also have "\<dots> \<le> 640"
    using assms(3) by (simp add: sum_list_triv)
  finally show ?thesis
    using join_length [of ws] assms by (simp add: line_ok_def name_ok_def CFG_FILE_MAX_BUF_SZ_def)
qed

definition conf_words :: "bytes set" where
  "conf_words = {str ''device'', str ''rx'', str ''queue_number'', str ''descriptor_number'', str ''rss'', str ''tx'', str ''mtu'',
     str ''promisc_mode'', str ''port'', str ''rx_queue_ids'', str ''tx_queue_ids'', str ''worker'', str ''type'', str ''cpu_id'',
     str ''netif_defs'', str ''worker_defs'', str ''timer_defs'', str ''pktpool_size'', str ''pktpool_cache'', str ''schedule_interval''}"

lemma conf_words_ok: "w \<in> conf_words \<Longrightarrow> name_ok w \<and> w \<notin> {INCLUDE, CFG_FILE_EOB}"
  by (auto simp: conf_words_def name_ok_def plain_word_def str_simps c_isspace_def QUOTE_def INCLUDE_def CFG_FILE_EOB_def)

lemma value_words_ok: "w \<in> set rss_names \<union> {str ''master'', str ''slave'', str ''kni'', str ''on'', [123]} \<Longrightarrow> name_ok w"
  by (auto simp: rss_names_def name_ok_def plain_word_def str_simps c_isspace_def QUOTE_def)

lemma conf_line:
  assumes "k \<in> conf_words" "\<forall>w \<in> set ws. name_ok w" "length ws \<le> 19"
  shows "line_ok (k # ws)"
  using assms conf_words_ok by (intro names_line_ok) auto

lemma name_show_power: "k \<le> 27 \<Longrightarrow> name_ok (show_dec (2 ^ k))" "k \<le> 27 \<Longrightarrow> name_ok (show_dec (2 ^ k - Suc 0))"
  using power_increasing [of k 27 "2 :: nat"] by (auto intro!: name_show_dec)

lemma device_items_ok:
  assumes "dev_spec_ok d"
  shows "items_ok (netif_keywords True) (dev_item d # is) \<longleftrightarrow> items_ok (netif_keywords True) is"
proof -
  have w: "name_ok (ds_name d)" "name_ok (ds_rss d)" "name_ok [123]" "name_ok (str ''on'')" "name_ok (show_dec (ds_rxq d))"
      "name_ok (show_dec (ds_txq d))" "name_ok (show_dec (ds_mtu d))"
    using assms value_words_ok [of "ds_rss d"] value_words_ok [of "[123]"] value_words_ok [of "str ''on''"]
      name_show_dec [of "ds_rxq d"] name_show_dec [of "ds_txq d"] name_show_dec [of "ds_mtu d"]
    by (simp_all add: dev_spec_ok_def)
  obtain a b where p: "a \<le> 13" "b \<le> 13" "ds_rxd d = 2 ^ a" "ds_txd d = 2 ^ b"
    using assms unfolding dev_spec_ok_def by blast
  have "name_ok (show_dec (ds_rxd d))" "name_ok (show_dec (ds_txd d))"
    unfolding p(3,4) using p(1,2) by (simp_all add: name_show_power)
  then show ?thesis
    using w conf_line
    by (simp add: dev_item_def netif_find device_find rx_find tx_find conf_words_def)
qed

lemma devices_items_ok: "\<forall>d \<in> set ds. dev_spec_ok d \<Longrightarrow> items_ok (netif_keywords True) (map dev_item ds)"
  by (induction ds) (simp_all add: device_items_ok)

lemma ids_ok: "\<forall>q \<in> set qs. q < 16 \<Longrightarrow> \<forall>w \<in> set (map show_dec qs). name_ok w"
  by (auto intro!: name_show_dec)

lemma ports_items_ok: "\<forall>p \<in> set ps. port_spec_ok p \<Longrightarrow> items_ok (worker_keywords True) (map port_item ps)"
proof (induction ps)
  case (Cons p ps)
  have "name_ok (ps_name p)" "name_ok [123]"
    using Cons.prems value_words_ok by (auto simp: port_spec_ok_def)
  moreover have "line_ok (str ''rx_queue_ids'' # map show_dec (ps_rx p))" "line_ok (str ''tx_queue_ids'' # map show_dec (ps_tx p))"
    using Cons.prems ids_ok [of "ps_rx p"] ids_ok [of "ps_tx p"] by (auto simp: port_spec_ok_def conf_words_def intro!: conf_line)
  ultimately show ?case
    using Cons conf_line [of "str ''port''" "[ps_name p, [123]]"]
    by (simp add: port_item_def worker_find port_find conf_words_def)
qed simp

lemma workers_items_ok:
  "\<forall>w \<in> set ws. worker_spec_ok w \<Longrightarrow> items_ok [Keyword (str ''worker'') (Some 16) (Some (worker_keywords True))] (map worker_item ws)"
proof (induction ws)
  case (Cons w ws)
  have "name_ok (ws_name w)" "name_ok [123]" "name_ok (ws_type w)" "name_ok (show_dec (ws_cpu w))"
    using Cons.prems value_words_ok by (auto simp: worker_spec_ok_def intro!: name_show_dec)
  moreover have "items_ok (worker_keywords True) (map port_item (ws_ports w))"
    using Cons.prems by (intro ports_items_ok) (simp add: worker_spec_ok_def)
  ultimately show ?case
    using Cons conf_line by (simp add: worker_item_def worker_find conf_words_def)
qed simp

lemma conf_items_ok: "conf_spec_ok f \<Longrightarrow> items_ok (conf_keywords True) (conf_items f)"
proof -
  assume f: "conf_spec_ok f"
  have "name_ok (show_dec (2 ^ fs_pool f - Suc 0))" "name_ok (show_dec (2 ^ fs_cache f))" "name_ok (show_dec (fs_interval f))" "name_ok [123]"
    using f value_words_ok name_show_power(1) [of "fs_cache f"] name_show_power(2) [of "fs_pool f"] name_show_dec [of "fs_interval f"]
    by (simp_all add: conf_spec_ok_def)
  then show ?thesis
    using f conf_line devices_items_ok workers_items_ok
    by (simp add: conf_items_def conf_spec_ok_def conf_find pool_find timer_keywords_def conf_words_def)
qed

lemma load_printed_conf:
  assumes "conf_spec_ok f" "\<forall>i. malloc_ok (alloc_env env) i" "g_sublevel k = 0" "g_state k = NET_DEFENDER_STATE_INIT"
    and "length (conf_items f) + items_fuel (conf_items f) < n"
  shows "load_conf_file n (one_file env (print_items (conf_items f))) cfg_file default_file k ((), s)
    = Some (k\<lparr>g_keywords := []\<rparr>, (), conf_of f s)"
proof -
  let ?e = "one_file env (print_items (conf_items f))" and ?s = "keyword_value_init (g_state k) s"
  have c: "conf_of f ?s = conf_of f s"
    by (simp add: conf_of_def keyword_value_init_def netif_keyword_value_init_def ndf_timer_keyword_value_init_def)
  have "process_stream n ?e (conf_keywords True) 0 (print_items (conf_items f)) ((), ?s) = Some ([], (), conf_of f s)"
    using config_file_parsed [OF conf_items_ok [OF assms(1)] conf_exec [OF assms(1,2)] assms(5)] c by metis
  then have "read_conf_files (process_stream n ?e) ?e (conf_keywords True) 0 [[]] ((), ?s) = Some ((), conf_of f s)"
    by (simp add: one_file_def)
  moreover have "fs_glob ?e d p = [[]]" for d p
    by (simp add: one_file_def)
  ultimately show ?thesis
    using install_keywords_tree [OF assms(3)] assms(4)
    by (simp add: load_conf_file_def init_data_def read_conf_file_def del: read_conf_files.simps)
qed

definition sample_conf :: conf_spec where
  "sample_conf = \<lparr>fs_pool = 19, fs_cache = 8,
     fs_devs = [\<lparr>ds_name = str ''dpdk0'', ds_rxq = 2, ds_rxd = 1024, ds_rss = str ''all'', ds_txq = 2, ds_txd = 1024, ds_mtu = 1500, ds_promisc = True\<rparr>],
     fs_workers = [\<lparr>ws_name = str ''cpu0'', ws_type = str ''master'', ws_cpu = 0, ws_ports = []\<rparr>,
       \<lparr>ws_name = str ''cpu1'', ws_type = str ''slave'', ws_cpu = 1, ws_ports = [\<lparr>ps_name = str ''dpdk0'', ps_rx = [0, 1], ps_tx = [0, 1]\<rparr>]\<rparr>],
     fs_interval = 10\<rparr>"

lemma sample_conf_ok: "conf_spec_ok sample_conf"
proof -
  have "name_ok (str ''dpdk0'')" "name_ok (str ''cpu0'')" "name_ok (str ''cpu1'')"
    by (simp_all add: name_ok_def plain_word_def str_simps c_isspace_def QUOTE_def)
  moreover have "\<exists>k. 4 \<le> k \<and> k \<le> 13 \<and> (1024 :: nat) = 2 ^ k"
    by (intro exI [of _ 10]) simp
  ultimately show ?thesis
    by (simp add: sample_conf_def conf_spec_ok_def dev_spec_ok_def worker_spec_ok_def port_spec_ok_def rss_names_def)
qed

definition full_env :: netif_env where
  "full_env = \<lparr>alloc_env = \<lparr>malloc_ok = \<lambda>_. True, malloc_junk = \<lambda>_ _. 0\<rparr>, NDF_MAX_LCORE = 128\<rparr>"

definition start_kw :: kw_state where
  "start_kw = \<lparr>g_keywords = [], g_sublevel = 0, g_state = NET_DEFENDER_STATE_INIT\<rparr>"

definition start_conf :: netif_conf where
  "start_conf = \<lparr>port_list = [], worker_list = [], netif_pktpool_nb_mbuf = 65535, netif_pktpool_mbuf_cache = 256, g_sched_interval = 10, netif_allocs = 0\<rparr>"

lemma start_conf_ok: "conf_ok start_conf"
  using power_defaults by (simp add: start_conf_def conf_ok_def)

lemma sample_fuel: "length (conf_items sample_conf) + items_fuel (conf_items sample_conf) < 100"
  by (simp add: conf_items_def sample_conf_def dev_item_def worker_item_def port_item_def)

text \<open>C14: Loading the printed file of a specification during initialisation gives exactly the specified devices, workers, queues,
  pools and interval, whatever the configuration was before.
\<close>

theorem configuration_file_loaded:
  assumes "conf_spec_ok f" "\<forall>i. malloc_ok (alloc_env env) i" "g_sublevel k = 0" "g_state k = NET_DEFENDER_STATE_INIT"
    and "length (conf_items f) + items_fuel (conf_items f) < n"
  shows "load_conf_file n (one_file env (print_items (conf_items f))) cfg_file default_file k ((), s)
    = Some (k\<lparr>g_keywords := []\<rparr>, (), conf_of f s)"
  by (rule load_printed_conf [OF assms])

theorem configuration_file_loaded_witness:
  "load_conf_file 100 (one_file full_env (print_items (conf_items sample_conf))) None [] start_kw ((), start_conf)
    = Some (start_kw, (), conf_of sample_conf start_conf)"
  using configuration_file_loaded [OF sample_conf_ok _ _ _ sample_fuel, of full_env start_kw None "[]" start_conf]
  by (simp add: full_env_def start_kw_def)

section \<open>Any file\<close>

lemma load_keeps_range:
  assumes "conf_ok s" "load_conf_file n (e\<lparr>kw_call := netif_call env\<rparr>) cfg_file default_file k (d, s) = Some (k', d', s')"
  shows "conf_ok s'"
proof -
  have "init_data n (e\<lparr>kw_call := netif_call env\<rparr>) cfg_file default_file install_keywords k (d, keyword_value_init (g_state k) s) = Some (k', d', s')"
    using assms(2) by (simp add: load_conf_file_def)
  from conf_client.init_data_inv [OF this handlers_in_UNIV value_init_ok [OF assms(1)]] show ?thesis .
qed

lemma sample_loaded:
  "load_conf_file 100 (one_file full_env (print_items (conf_items sample_conf))) None [] start_kw ((), start_conf)
    = Some (start_kw, (), conf_of sample_conf start_conf)"
  using load_printed_conf [OF sample_conf_ok _ _ _ sample_fuel, of full_env start_kw None "[]" start_conf]
  by (simp add: full_env_def start_kw_def)

lemma one_file_call: "(one_file env content)\<lparr>kw_call := netif_call env\<rparr> = one_file env content"
  by (simp add: one_file_def)

lemma sample_conf_range: "conf_ok (conf_of sample_conf start_conf)"
  using load_keeps_range [OF start_conf_ok, of 100 full_env "one_file full_env (print_items (conf_items sample_conf))"] sample_loaded
  unfolding one_file_call by blast



text \<open>A reload in a later stage never adds a device or a worker and leaves the packet pools alone: it can only drop the
  configured devices and workers, which happens when the file has their block.
\<close>

theorem reload_only_drops:
  assumes "g_sublevel k = 0" "g_state k \<noteq> NET_DEFENDER_STATE_INIT"
    and "load_conf_file n (e\<lparr>kw_call := netif_call env\<rparr>) cfg_file default_file k (d, s) = Some (k', d', s')"
  shows "only_dropped s s'"
proof -
  let ?s = "keyword_value_init (g_state k) s"
  have l: "init_data n (e\<lparr>kw_call := netif_call env\<rparr>) cfg_file default_file install_keywords k (d, ?s) = Some (k', d', s')"
    using assms(3) by (simp add: load_conf_file_def)
  have "only_dropped s ?s"
    using assms(2) by (simp add: only_dropped_def keyword_value_init_def netif_keyword_value_init_def ndf_timer_keyword_value_init_def)
  moreover have "handlers_in {1, 15, 24} (g_keywords k1)" if "install_keywords (k\<lparr>g_keywords := []\<rparr>) = Some k1" for k1
    using that install_keywords_tree [OF assms(1)] assms(2) reload_keywords by auto
  ultimately show ?thesis
    using reload_client.init_data_inv [OF l] by blast
qed

lemma reload_block:
  "load_conf_file 10 (one_file full_env (print_items [Block [str ''netif_defs''] []])) None [] (start_kw\<lparr>g_state := NET_DEFENDER_STATE_NORMAL\<rparr>) ((), s)
    = Some (start_kw\<lparr>g_state := NET_DEFENDER_STATE_NORMAL\<rparr>, (), s\<lparr>port_list := [], g_sched_interval := 10\<rparr>)"
proof -
  let ?is = "[Block [str ''netif_defs''] []]" and ?k = "start_kw\<lparr>g_state := NET_DEFENDER_STATE_NORMAL\<rparr>"
  let ?e = "one_file full_env (print_items ?is)"
  let ?s = "keyword_value_init NET_DEFENDER_STATE_NORMAL s" and ?s' = "s\<lparr>port_list := [], g_sched_interval := 10\<rparr>"
  have f: "find (\<lambda>kw. kw_str kw = str ''netif_defs'') (conf_keywords False) = Some (Keyword (str ''netif_defs'') (Some 1) (Some (netif_keywords False)))"
    by (simp add: conf_keywords_def)
  have ok: "items_ok (conf_keywords False) ?is"
    using f conf_line [of "str ''netif_defs''" "[[123]]"] value_words_ok [of "[123]"] by (simp add: conf_words_def)
  have ex: "exec_items ?e (conf_keywords False) ?is ?s = Some ?s'"
    using f by (simp add: call_handler_def call_one_file netif_call_def netif_defs_handler_def keyword_value_init_def
        netif_keyword_value_init_def ndf_timer_keyword_value_init_def netif_consts)
  have "length ?is + items_fuel ?is < 10"
    by simp
  then have "process_stream 10 ?e (conf_keywords False) 0 (print_items ?is) ((), ?s) = Some ([], (), ?s')"
    by (rule config_file_parsed [OF ok ex])
  then have "read_conf_files (process_stream 10 ?e) ?e (conf_keywords False) 0 [[]] ((), ?s) = Some ((), ?s')"
    by (simp add: one_file_def del: process_stream.simps)
  moreover have "fs_glob ?e d p = [[]]" for d p
    by (simp add: one_file_def)
  ultimately show ?thesis
    using install_keywords_tree [of ?k]
    by (simp add: load_conf_file_def init_data_def read_conf_file_def start_kw_def del: read_conf_files.simps process_stream.simps)
qed

theorem reload_only_drops_witness:
  "\<exists>s'. load_conf_file 10 (one_file full_env (print_items [Block [str ''netif_defs''] []])) None []
      (start_kw\<lparr>g_state := NET_DEFENDER_STATE_NORMAL\<rparr>) ((), conf_of sample_conf start_conf)
      = Some (start_kw\<lparr>g_state := NET_DEFENDER_STATE_NORMAL\<rparr>, (), s')
    \<and> only_dropped (conf_of sample_conf start_conf) s' \<and> port_list (conf_of sample_conf start_conf) \<noteq> [] \<and> port_list s' = []"
proof -
  let ?k = "start_kw\<lparr>g_state := NET_DEFENDER_STATE_NORMAL\<rparr>" and ?s = "conf_of sample_conf start_conf"
  let ?e = "one_file full_env (print_items [Block [str ''netif_defs''] []])"
  have "only_dropped ?s (?s\<lparr>port_list := [], g_sched_interval := 10\<rparr>)"
    using reload_only_drops [of ?k 10 full_env ?e None "[]" "()" ?s ?k "()"] reload_block [of ?s] unfolding one_file_call
    by (simp add: start_kw_def)
  then show ?thesis
    using reload_block [of ?s] by (simp add: conf_of_def sample_conf_def)
qed

lemma store_ids_overflow: "i \<le> length a \<Longrightarrow> length a < i + length ts \<Longrightarrow> store_ids f i ts a = None"
proof (induction ts arbitrary: i a)
  case (Cons t ts)
  then show ?case
    using Cons.IH [of "Suc i" "a[i := f x]" for x] by (cases "c_atoi t") auto
qed simp

text \<open>More identifiers than a port has queues are written past the end of the array.\<close>

theorem too_many_queue_ids_overflow:
  assumes "conf_ok s" "17 < length tokens"
  shows "rx_queue_ids_handler tokens s = None \<and> tx_queue_ids_handler tokens s = None \<and> isol_rx_cpu_ids_handler env tokens s = None"
proof -
  have q: "store_ids f 0 (tl tokens) a = None" if "length a = 16" for f a
    using store_ids_overflow [of 0 a "tl tokens" f] that assms(2) by simp
  have "on_port g s = None" if "\<And>p. queue_ok p \<Longrightarrow> g p = None" for g
    using that assms(1) by (auto simp: on_port_def conf_ok_def worker_ok_def split: list.splits)
  then show ?thesis
    using q by (auto simp: rx_queue_ids_handler_def tx_queue_ids_handler_def isol_rx_cpu_ids_handler_def store_queue_ids_def
        queue_ok_def qids_ok_def bind_eq_None_conv)
qed

theorem too_many_queue_ids_overflow_witness:
  "rx_queue_ids_handler (str ''rx_queue_ids'' # replicate 17 [48]) (conf_of sample_conf start_conf) = None"
  using too_many_queue_ids_overflow [OF sample_conf_range, of "str ''rx_queue_ids'' # replicate 17 [48]"] by simp
end
