(* ===== verification/Rule_Engine.thy ===== *)
theory Rule_Engine
  imports Tls_Parser
begin

text \<open>
  The rule engine of \<^verbatim>\<open>rule_engine.c\<close>: conditions, the rules for HTTP, DNS and TLS, the built-in rules, and the list
  of alerts. The text of an alert is built in a buffer on the stack that is not initialised: it is an option whose
  \<open>None\<close> is the state before the first write, and copying it then is undefined. The JSON output of an alert is the
  list of alerts handed to it. Rules and alerts are lists, newest first as in the program.
\<close>

section \<open>Data\<close>

datatype alert_severity =
    ALERT_SEVERITY_INFO | ALERT_SEVERITY_LOW | ALERT_SEVERITY_MEDIUM | ALERT_SEVERITY_HIGH
  | ALERT_SEVERITY_CRITICAL

datatype alert_category =
    ALERT_CATEGORY_UNKNOWN | ALERT_CATEGORY_WEB_ATTACK | ALERT_CATEGORY_MALWARE
  | ALERT_CATEGORY_POLICY_VIOLATION | ALERT_CATEGORY_RECON | ALERT_CATEGORY_DOS | ALERT_CATEGORY_DATA_LEAK
  | ALERT_CATEGORY_ANOMALY | ALERT_CATEGORY_SCAN | ALERT_CATEGORY_BRUTE_FORCE | ALERT_CATEGORY_EXFILTRATION
  | ALERT_CATEGORY_CRYPTO

record alert =
  al_alert_id :: u32
  al_rule_id :: u32
  al_severity :: alert_severity
  al_category :: alert_category
  al_protocol :: app_proto
  al_message :: "bytes option"
  al_detail :: "bytes option"
  al_src_ip :: u32
  al_dst_ip :: u32
  al_src_port :: u16
  al_dst_port :: u16
  al_timestamp :: timeval

datatype rule_match_type =
    RULE_MATCH_CONTENT | RULE_MATCH_PCRE | RULE_MATCH_LENGTH | RULE_MATCH_ENTROPY | RULE_MATCH_FREQUENCY

record rule_condition =
  rc_type :: rule_match_type
  rc_pattern :: "bytes option"
  rc_case_sensitive :: bool
  rc_negated :: bool
  rc_min_length :: u32
  rc_max_length :: u32
  rc_min_entropy :: real
  rc_max_entropy :: real

record detection_rule =
  dr_rule_id :: u32
  dr_enabled :: bool
  dr_name :: "bytes option"
  dr_description :: "bytes option"
  dr_severity :: alert_severity
  dr_category :: alert_category
  dr_protocol :: app_proto
  dr_conditions :: "rule_condition list"
  http_check_uri :: bool
  http_check_headers :: bool
  http_check_body :: bool
  http_check_method :: bool
  http_target_header :: "bytes option"
  dns_check_query :: bool
  dns_check_response :: bool
  dns_qtype :: u16
  tls_check_sni :: bool
  tls_check_ja3 :: bool
  tls_check_cipher :: bool
  tls_check_version :: bool
  tls_check_cert :: bool
  tls_ja3_hash :: "bytes option"

record rule_stats =
  rules_loaded :: u64
  rules_enabled :: u64
  packets_inspected :: u64
  alerts_generated :: u64
  alerts_by_severity :: "u64 list"

record rule_engine =
  re_rules :: "detection_rule list"
  re_alerts :: "alert list"
  alert_id_counter :: u32
  re_stats :: rule_stats
  max_alerts :: u32
  alert_count :: u32
  json_output :: "alert list option"

definition rule_engine_zero :: rule_engine where
  "rule_engine_zero = \<lparr>re_rules = [], re_alerts = [], alert_id_counter = 0,
     re_stats = \<lparr>rules_loaded = 0, rules_enabled = 0, packets_inspected = 0, alerts_generated = 0,
       alerts_by_severity = [0, 0, 0, 0, 0]\<rparr>,
     max_alerts = 0, alert_count = 0, json_output = None\<rparr>"

definition MAX_ALERTS_DEFAULT :: u32 where "MAX_ALERTS_DEFAULT = 1000"

definition rule_engine_init :: "bool \<Rightarrow> rule_engine option" where
  "rule_engine_init zmalloc_ok = (if zmalloc_ok then Some (rule_engine_zero\<lparr>max_alerts := MAX_ALERTS_DEFAULT\<rparr>) else None)"

fun alert_severity_to_string :: "alert_severity \<Rightarrow> bytes" where
  "alert_severity_to_string ALERT_SEVERITY_INFO = str ''INFO''"
| "alert_severity_to_string ALERT_SEVERITY_LOW = str ''LOW''"
| "alert_severity_to_string ALERT_SEVERITY_MEDIUM = str ''MEDIUM''"
| "alert_severity_to_string ALERT_SEVERITY_HIGH = str ''HIGH''"
| "alert_severity_to_string ALERT_SEVERITY_CRITICAL = str ''CRITICAL''"

fun alert_category_to_string :: "alert_category \<Rightarrow> bytes" where
  "alert_category_to_string ALERT_CATEGORY_WEB_ATTACK = str ''WEB_ATTACK''"
| "alert_category_to_string ALERT_CATEGORY_MALWARE = str ''MALWARE''"
| "alert_category_to_string ALERT_CATEGORY_POLICY_VIOLATION = str ''POLICY_VIOLATION''"
| "alert_category_to_string ALERT_CATEGORY_RECON = str ''RECONNAISSANCE''"
| "alert_category_to_string ALERT_CATEGORY_DOS = str ''DOS''"
| "alert_category_to_string ALERT_CATEGORY_DATA_LEAK = str ''DATA_LEAK''"
| "alert_category_to_string ALERT_CATEGORY_ANOMALY = str ''ANOMALY''"
| "alert_category_to_string ALERT_CATEGORY_SCAN = str ''SCAN''"
| "alert_category_to_string ALERT_CATEGORY_BRUTE_FORCE = str ''BRUTE_FORCE''"
| "alert_category_to_string ALERT_CATEGORY_EXFILTRATION = str ''EXFILTRATION''"
| "alert_category_to_string ALERT_CATEGORY_CRYPTO = str ''CRYPTO''"
| "alert_category_to_string ALERT_CATEGORY_UNKNOWN = str ''UNKNOWN''"

text \<open>The numeric value of a severity.\<close>

fun severity_val :: "alert_severity \<Rightarrow> nat" where
  "severity_val ALERT_SEVERITY_INFO = 0"
| "severity_val ALERT_SEVERITY_LOW = 1"
| "severity_val ALERT_SEVERITY_MEDIUM = 2"
| "severity_val ALERT_SEVERITY_HIGH = 3"
| "severity_val ALERT_SEVERITY_CRITICAL = 4"

section \<open>Rules and alerts\<close>

definition rule_engine_add_rule :: "detection_rule \<Rightarrow> rule_engine \<Rightarrow> rule_engine" where
  "rule_engine_add_rule rule e =
    (let st = (re_stats e)\<lparr>rules_loaded := rules_loaded (re_stats e) + 1\<rparr> in
     e\<lparr>re_rules := rule # re_rules e,
       re_stats := (if dr_enabled rule then st\<lparr>rules_enabled := rules_enabled st + 1\<rparr> else st)\<rparr>)"

text \<open>Dropping the oldest alert: the last of the list, when it is not the only one.\<close>

definition limit_alerts :: "rule_engine \<Rightarrow> rule_engine" where
  "limit_alerts e =
    (if max_alerts e < alert_count e \<and> 2 \<le> length (re_alerts e)
     then e\<lparr>re_alerts := butlast (re_alerts e), alert_count := alert_count e - 1\<rparr> else e)"

text \<open>The copy of a C string into a fresh block, if there is a string and a block.\<close>

fun copy_text :: "rte_env \<Rightarrow> nat \<Rightarrow> bytes option \<Rightarrow> bytes option \<times> nat" where
  "copy_text env n None = (None, n)"
| "copy_text env n (Some s) = strndup_malloc env n (c_str s)"

text \<open>The alert with number \<open>i\<close>.\<close>

definition make_alert ::
  "rte_env \<Rightarrow> timeval \<Rightarrow> detection_rule \<Rightarrow> 'p flow \<Rightarrow> bytes option \<Rightarrow> u32 \<Rightarrow> nat \<Rightarrow> alert \<times> nat" where
  "make_alert env now rule flow detail i n =
    (let v4 = f_flags flow AND FLOW_IPV4 \<noteq> 0;
         (msg, n1) = copy_text env n (dr_name rule);
         (det, n2) = copy_text env n1 detail in
     (\<lparr>al_alert_id = i, al_rule_id = dr_rule_id rule, al_severity = dr_severity rule,
       al_category = dr_category rule, al_protocol = dr_protocol rule, al_message = msg, al_detail = det,
       al_src_ip = (if v4 then f_src_addr flow ! 0 else 0), al_dst_ip = (if v4 then f_dst_addr flow ! 0 else 0),
       al_src_port = f_src_port flow, al_dst_port = f_dst_port flow, al_timestamp = now\<rparr>, n2))"

definition count_alert :: "nat \<Rightarrow> rule_engine \<Rightarrow> rule_engine" where
  "count_alert k e = e\<lparr>re_stats := (re_stats e)\<lparr>alerts_generated := alerts_generated (re_stats e) + 1,
     alerts_by_severity := (alerts_by_severity (re_stats e))[k := alerts_by_severity (re_stats e) ! k + 1]\<rparr>\<rparr>"

definition create_alert ::
  "rte_env \<Rightarrow> timeval \<Rightarrow> detection_rule \<Rightarrow> 'p flow \<Rightarrow> bytes option \<Rightarrow> rule_engine \<Rightarrow> nat \<Rightarrow> rule_engine \<times> nat" where
  "create_alert env now rule flow detail e n =
    (if \<not> malloc_ok env n then (e, n + 1)
     else
      (let i = alert_id_counter e + 1;
           (al, n1) = make_alert env now rule flow detail i (n + 1);
           e1 = limit_alerts (e\<lparr>alert_id_counter := i, re_alerts := al # re_alerts e, alert_count := alert_count e + 1\<rparr>);
           e2 = count_alert (severity_val (dr_severity rule)) e1 in
       (e2\<lparr>json_output := map_option (\<lambda>out. out @ [al]) (json_output e2)\<rparr>, n1)))"

definition rule_engine_create_custom_alert ::
  "rte_env \<Rightarrow> timeval \<Rightarrow> detection_rule \<Rightarrow> 'p flow \<Rightarrow> bytes option \<Rightarrow> rule_engine \<Rightarrow> nat \<Rightarrow> rule_engine \<times> nat" where
  "rule_engine_create_custom_alert = create_alert"

definition rule_engine_get_alerts :: "rule_engine option \<Rightarrow> u32 \<Rightarrow> alert list" where
  "rule_engine_get_alerts e k = (case e of None \<Rightarrow> [] | Some en \<Rightarrow> re_alerts en)"

definition rule_engine_clear_alerts :: "rule_engine \<Rightarrow> rule_engine" where
  "rule_engine_clear_alerts e = e\<lparr>re_alerts := [], alert_count := 0\<rparr>"

definition rule_engine_set_json_output :: "alert list option \<Rightarrow> rule_engine \<Rightarrow> rule_engine" where
  "rule_engine_set_json_output ctx e = e\<lparr>json_output := ctx\<rparr>"

section \<open>Conditions\<close>

definition string_contains :: "bytes option \<Rightarrow> bytes option \<Rightarrow> bool \<Rightarrow> bool" where
  "string_contains haystack needle case_sensitive = (case (haystack, needle) of
     (Some h, Some p) \<Rightarrow> if case_sensitive then c_strstr (c_str h) p else c_strcasestr (c_str h) p
   | _ \<Rightarrow> False)"

text \<open>The entropy of the bytes of a C string, over the real numbers.\<close>

definition calculate_entropy :: "bytes \<Rightarrow> real" where
  "calculate_entropy s =
    (let cs = c_str s; n = length cs in
     if n = 0 then 0
     else (\<Sum>c \<in> set cs. - (real (count_list cs c) / real n * log 2 (real (count_list cs c) / real n))))"

definition check_condition :: "rule_condition \<Rightarrow> bytes \<Rightarrow> bool" where
  "check_condition cond data =
    (let m = (case rc_type cond of
         RULE_MATCH_CONTENT \<Rightarrow> string_contains (Some data) (rc_pattern cond) (rc_case_sensitive cond)
       | RULE_MATCH_LENGTH \<Rightarrow>
           (let len = length (c_str data) in
            unat (rc_min_length cond) \<le> len \<and> (0 < rc_max_length cond \<longrightarrow> len \<le> unat (rc_max_length cond)))
       | RULE_MATCH_ENTROPY \<Rightarrow>
           (let en = calculate_entropy data in rc_min_entropy cond \<le> en \<and> en \<le> rc_max_entropy cond)
       | _ \<Rightarrow> False) in
     if rc_negated cond then \<not> m else m)"

abbreviation check_conditions :: "rule_condition list \<Rightarrow> bytes \<Rightarrow> bool" where
  "check_conditions conds data \<equiv> list_all (\<lambda>c. check_condition c data) conds"

text \<open>\<^verbatim>\<open>snprintf(detail, 256, ...)\<close>.\<close>

definition print_detail :: "nat \<Rightarrow> bytes \<Rightarrow> bytes option" where
  "print_detail cap s = Some (take (cap - 1) s)"

section \<open>HTTP and DNS rules\<close>

text \<open>A transaction of the parser always has a request; its URI is missing when the copy could not be allocated.
  The result is the verdict and the buffer.\<close>

definition check_http_rule ::
  "http_transaction \<Rightarrow> detection_rule \<Rightarrow> bytes option \<Rightarrow> bool \<times> bytes option" where
  "check_http_rule tx rule detail =
    (if \<not> dr_enabled rule then (False, detail)
     else
      (let (m1, d1) =
         (case (http_check_uri rule, rq_uri (ht_request tx)) of
            (True, Some uri) \<Rightarrow>
              (let m = check_conditions (dr_conditions rule) uri in
               (m, if m then print_detail 256 (str ''URI: '' @ c_str uri) else detail))
          | _ \<Rightarrow> (True, detail)) in
       (case (http_check_headers rule, http_target_header rule) of
          (True, Some target) \<Rightarrow>
            (case http_find_header (rq_headers (ht_request tx)) target of
               None \<Rightarrow> (m1, d1)
             | Some h \<Rightarrow>
                 (case h_value h of
                    None \<Rightarrow> (m1, d1)
                  | Some v \<Rightarrow>
                      (let m = (m1 \<and> check_conditions (dr_conditions rule) v) in
                       (m, if m then print_detail 256 (target @ str '': '' @ c_str v) else d1))))
        | _ \<Rightarrow> (m1, d1))))"

definition check_dns_rule ::
  "dns_transaction \<Rightarrow> detection_rule \<Rightarrow> bytes option \<Rightarrow> bool \<times> bytes option" where
  "check_dns_rule tx rule detail =
    (if \<not> dr_enabled rule then (False, detail)
     else
      (case (dns_check_query rule, tx_questions tx) of
         (True, q # _) \<Rightarrow>
           if dns_qtype rule \<noteq> 0 \<and> q_type q \<noteq> dns_qtype rule then (False, detail)
           else
            (let m = check_conditions (dr_conditions rule) (q_name q) in
             (m, if m then print_detail 256 (str ''Query: '' @ c_str (q_name q)) else detail))
       | _ \<Rightarrow> (True, detail)))"

section \<open>TLS rules\<close>

definition TLS_JA3_HASH_LEN :: nat where "TLS_JA3_HASH_LEN = 32"

definition hex_digit :: "nat \<Rightarrow> u8" where
  "hex_digit d = (if d < 10 then of_nat (48 + d) else of_nat (87 + d))"

text \<open>\<^verbatim>\<open>%02x\<close> of every byte of the array that holds the hash.\<close>

definition ja3_hex :: "bytes \<Rightarrow> bytes" where
  "ja3_hex h = concat (map (\<lambda>b. [hex_digit (unat b div 16), hex_digit (unat b mod 16)])
     (take TLS_JA3_HASH_LEN (h @ replicate TLS_JA3_HASH_LEN 0)))"

definition sni_matches :: "bytes \<Rightarrow> rule_condition list \<Rightarrow> bool" where
  "sni_matches sni conds =
    list_ex (\<lambda>c. rc_type c = RULE_MATCH_CONTENT \<and>
      string_contains (Some sni) (rc_pattern c) (rc_case_sensitive c) \<noteq> rc_negated c) conds"

text \<open>The fingerprint, as the text to report.\<close>

definition ja3_report :: "tls_conn \<Rightarrow> detection_rule \<Rightarrow> bytes option" where
  "ja3_report conn rule = (case (tls_check_ja3 rule, tls_ja3_hash rule, tc_client_hello conn) of
     (True, Some hash, Some ch) \<Rightarrow>
       (let hex = ja3_hex (ch_ja3_hash ch) in
        if c_strcasestr hex hash
        then Some (str ''JA3: '' @ hex @ str '', SNI: '' @ (case ch_sni ch of None \<Rightarrow> str ''N/A'' | Some s \<Rightarrow> c_str s))
        else None)
   | _ \<Rightarrow> None)"

text \<open>The checks after the server name.\<close>

definition check_tls_rest :: "tls_conn \<Rightarrow> detection_rule \<Rightarrow> bytes option \<Rightarrow> bool \<times> bytes option" where
  "check_tls_rest conn rule detail = (case ja3_report conn rule of
     Some t \<Rightarrow> (True, print_detail 512 t)
   | None \<Rightarrow>
       if tls_check_cipher rule \<and> tc_weak_cipher conn then (True, print_detail 512 (str ''Weak cipher detected''))
       else if tls_check_version rule \<and> tc_version_downgrade conn
       then (True, print_detail 512 (str ''TLS version downgrade detected''))
       else if tls_check_cert rule \<and> (tc_expired_cert conn \<or> tc_self_signed_cert conn)
       then (True, print_detail 512 (str ''Certificate error: '' @
              (if tc_expired_cert conn then str ''expired '' else []) @
              (if tc_self_signed_cert conn then str ''self-signed'' else [])))
       else (False, detail))"

definition check_tls_rule ::
  "tls_conn \<Rightarrow> detection_rule \<Rightarrow> bytes option \<Rightarrow> bool \<times> bytes option" where
  "check_tls_rule conn rule detail =
    (if \<not> dr_enabled rule then (False, detail)
     else case (tls_check_sni rule, Option.bind (tc_client_hello conn) ch_sni) of
         (True, Some s) \<Rightarrow>
           if sni_matches s (dr_conditions rule) then (True, print_detail 512 (str ''SNI: '' @ c_str s))
           else check_tls_rest conn rule detail
       | _ \<Rightarrow> check_tls_rest conn rule detail)"

section \<open>Inspection\<close>

text \<open>The loop over the rules of one protocol; \<open>k\<close> counts the alerts. The buffer keeps what an earlier rule wrote.\<close>

fun inspect_rules ::
  "(detection_rule \<Rightarrow> bytes option \<Rightarrow> bool \<times> bytes option) \<Rightarrow> app_proto \<Rightarrow> rte_env \<Rightarrow> timeval \<Rightarrow> 'p flow \<Rightarrow>
   detection_rule list \<Rightarrow> bytes option \<Rightarrow> rule_engine \<Rightarrow> nat \<Rightarrow> nat \<Rightarrow> (nat \<times> rule_engine \<times> nat) option" where
  "inspect_rules chk proto env now flow [] detail e n k = Some (k, e, n)"
| "inspect_rules chk proto env now flow (r # rs) detail e n k =
    (if dr_protocol r \<noteq> proto then inspect_rules chk proto env now flow rs detail e n k
     else
      (let (m, detail1) = chk r detail in
       if m then do {
         text \<leftarrow> detail1;
         let (e1, n1) = create_alert env now r flow (Some text) e n;
         inspect_rules chk proto env now flow rs detail1 e1 n1 (k + 1) }
       else inspect_rules chk proto env now flow rs detail1 e n k))"

definition count_inspection :: "rule_engine \<Rightarrow> rule_engine" where
  "count_inspection e = e\<lparr>re_stats := (re_stats e)\<lparr>packets_inspected := packets_inspected (re_stats e) + 1\<rparr>\<rparr>"

definition rule_engine_inspect_http ::
  "rte_env \<Rightarrow> timeval \<Rightarrow> 'p flow \<Rightarrow> http_transaction \<Rightarrow> rule_engine \<Rightarrow> nat \<Rightarrow> (nat \<times> rule_engine \<times> nat) option" where
  "rule_engine_inspect_http env now flow tx e n =
    inspect_rules (check_http_rule tx) APP_PROTO_HTTP env now flow (re_rules e) None (count_inspection e) n 0"

definition rule_engine_inspect_dns ::
  "rte_env \<Rightarrow> timeval \<Rightarrow> 'p flow \<Rightarrow> dns_transaction \<Rightarrow> rule_engine \<Rightarrow> nat \<Rightarrow> (nat \<times> rule_engine \<times> nat) option" where
  "rule_engine_inspect_dns env now flow tx e n =
    inspect_rules (check_dns_rule tx) APP_PROTO_DNS env now flow (re_rules e) None (count_inspection e) n 0"

definition rule_engine_inspect_tls ::
  "rte_env \<Rightarrow> timeval \<Rightarrow> 'p flow \<Rightarrow> tls_conn \<Rightarrow> rule_engine \<Rightarrow> nat \<Rightarrow> (nat \<times> rule_engine \<times> nat) option" where
  "rule_engine_inspect_tls env now flow conn e n =
    inspect_rules (check_tls_rule conn) APP_PROTO_TLS env now flow (re_rules e) None (count_inspection e) n 0"

section \<open>The built-in rules\<close>

definition rule_condition_zero :: rule_condition where
  "rule_condition_zero = \<lparr>rc_type = RULE_MATCH_CONTENT, rc_pattern = None, rc_case_sensitive = False,
     rc_negated = False, rc_min_length = 0, rc_max_length = 0, rc_min_entropy = 0, rc_max_entropy = 0\<rparr>"

definition rule_condition_content :: "rte_env \<Rightarrow> nat \<Rightarrow> bytes \<Rightarrow> bool \<Rightarrow> rule_condition option \<times> nat" where
  "rule_condition_content env n pattern case_sensitive =
    (if \<not> malloc_ok env n then (None, n + 1)
     else if \<not> malloc_ok env (n + 1) then (None, n + 2)
     else (Some (rule_condition_zero\<lparr>rc_pattern := Some pattern, rc_case_sensitive := case_sensitive\<rparr>), n + 2))"

definition rule_condition_length :: "rte_env \<Rightarrow> nat \<Rightarrow> u32 \<Rightarrow> u32 \<Rightarrow> rule_condition option \<times> nat" where
  "rule_condition_length env n lo hi =
    (if malloc_ok env n
     then Some (rule_condition_zero\<lparr>rc_type := RULE_MATCH_LENGTH, rc_min_length := lo, rc_max_length := hi\<rparr>) else None, n + 1)"

definition rule_condition_entropy :: "rte_env \<Rightarrow> nat \<Rightarrow> real \<Rightarrow> real \<Rightarrow> rule_condition option \<times> nat" where
  "rule_condition_entropy env n lo hi =
    (if malloc_ok env n
     then Some (rule_condition_zero\<lparr>rc_type := RULE_MATCH_ENTROPY, rc_min_entropy := lo, rc_max_entropy := hi\<rparr>) else None, n + 1)"

text \<open>The calls that build the conditions of a rule. The second is made only when the first succeeded.\<close>

datatype condition_call = ContentCond bytes bool | LengthCond u32 u32 | EntropyCond real real

fun make_condition :: "rte_env \<Rightarrow> nat \<Rightarrow> condition_call \<Rightarrow> rule_condition option \<times> nat" where
  "make_condition env n (ContentCond p cs) = rule_condition_content env n p cs"
| "make_condition env n (LengthCond lo hi) = rule_condition_length env n lo hi"
| "make_condition env n (EntropyCond lo hi) = rule_condition_entropy env n lo hi"

fun make_conditions :: "rte_env \<Rightarrow> nat \<Rightarrow> condition_call list \<Rightarrow> rule_condition list \<times> nat" where
  "make_conditions env n [] = ([], n)"
| "make_conditions env n (c # cs) = (case make_condition env n c of
     (None, n1) \<Rightarrow> ([], n1)
   | (Some x, n1) \<Rightarrow> (let (xs, n2) = make_conditions env n1 cs in (x # xs, n2)))"

definition detection_rule_zero :: detection_rule where
  "detection_rule_zero = \<lparr>dr_rule_id = 0, dr_enabled = False, dr_name = None, dr_description = None,
     dr_severity = ALERT_SEVERITY_INFO, dr_category = ALERT_CATEGORY_UNKNOWN, dr_protocol = APP_PROTO_UNKNOWN,
     dr_conditions = [], http_check_uri = False, http_check_headers = False, http_check_body = False,
     http_check_method = False, http_target_header = None, dns_check_query = False, dns_check_response = False,
     dns_qtype = 0, tls_check_sni = False, tls_check_ja3 = False, tls_check_cipher = False,
     tls_check_version = False, tls_check_cert = False, tls_ja3_hash = None\<rparr>"

text \<open>\<open>strcpy(p = rte_malloc(..., size, 0), s)\<close> without a test of the pointer: undefined when there is no block or
  the string does not fit.\<close>

fun malloc_strcpy :: "rte_env \<Rightarrow> nat \<Rightarrow> nat \<Rightarrow> bytes option \<Rightarrow> nat option" where
  "malloc_strcpy env cap n None = Some n"
| "malloc_strcpy env cap n (Some s) = (if malloc_ok env n \<and> length s < cap then Some (n + 1) else None)"

text \<open>One block of the loaders: \<open>r\<close> has the fields that the block stores.\<close>

definition load_rule ::
  "rte_env \<Rightarrow> detection_rule \<times> condition_call list \<Rightarrow> rule_engine \<times> nat \<times> nat \<Rightarrow> (rule_engine \<times> nat \<times> nat) option" where
  "load_rule env b s = (let (r, calls) = b; (e, n, k) = s in
     if \<not> malloc_ok env n then Some (e, n + 1, k)
     else do {
       n1 \<leftarrow> malloc_strcpy env 64 (n + 1) (dr_name r);
       n2 \<leftarrow> malloc_strcpy env 128 n1 (dr_description r);
       n3 \<leftarrow> malloc_strcpy env 64 n2 (tls_ja3_hash r);
       let (conds, n4) = make_conditions env n3 calls;
       Some (rule_engine_add_rule (r\<lparr>dr_conditions := conds\<rparr>) e, n4, k + 1) })"

fun load_rules ::
  "rte_env \<Rightarrow> (detection_rule \<times> condition_call list) list \<Rightarrow> rule_engine \<times> nat \<times> nat \<Rightarrow> (rule_engine \<times> nat \<times> nat) option" where
  "load_rules env [] s = Some s"
| "load_rules env (b # bs) s = Option.bind (load_rule env b s) (load_rules env bs)"

abbreviation builtin ::
  "u32 \<Rightarrow> string \<Rightarrow> string option \<Rightarrow> alert_severity \<Rightarrow> alert_category \<Rightarrow> app_proto \<Rightarrow> detection_rule" where
  "builtin i name desc sev cat proto \<equiv> detection_rule_zero\<lparr>dr_rule_id := i, dr_enabled := True, dr_name := Some (str name),
     dr_description := map_option str desc, dr_severity := sev, dr_category := cat, dr_protocol := proto\<rparr>"

definition http_rules :: "(detection_rule \<times> condition_call list) list" where
  "http_rules =
    [(builtin 1001 ''SQL Injection - UNION'' (Some ''Detects SQL UNION-based injection attempts'')
        ALERT_SEVERITY_HIGH ALERT_CATEGORY_WEB_ATTACK APP_PROTO_HTTP \<lparr>http_check_uri := True\<rparr>,
      [ContentCond (str ''union'') False, ContentCond (str ''select'') False]),
     (builtin 1002 ''SQL Injection - Comment'' None
        ALERT_SEVERITY_HIGH ALERT_CATEGORY_WEB_ATTACK APP_PROTO_HTTP \<lparr>http_check_uri := True\<rparr>,
      [ContentCond (str ''--'') True]),
     (builtin 1003 ''XSS - Script Tag'' None
        ALERT_SEVERITY_MEDIUM ALERT_CATEGORY_WEB_ATTACK APP_PROTO_HTTP \<lparr>http_check_uri := True\<rparr>,
      [ContentCond (str ''<script'') False]),
     (builtin 1004 ''Path Traversal'' None
        ALERT_SEVERITY_HIGH ALERT_CATEGORY_WEB_ATTACK APP_PROTO_HTTP \<lparr>http_check_uri := True\<rparr>,
      [ContentCond (str ''../'') True]),
     (builtin 1005 ''Command Injection'' None
        ALERT_SEVERITY_CRITICAL ALERT_CATEGORY_WEB_ATTACK APP_PROTO_HTTP \<lparr>http_check_uri := True\<rparr>,
      [ContentCond (str '';'') True, ContentCond (str ''bash'') False])]"

definition dns_rules :: "(detection_rule \<times> condition_call list) list" where
  "dns_rules =
    [(builtin 2001 ''DGA Domain - High Entropy'' None
        ALERT_SEVERITY_MEDIUM ALERT_CATEGORY_MALWARE APP_PROTO_DNS \<lparr>dns_check_query := True\<rparr>,
      [EntropyCond 4 8, LengthCond 20 0]),
     (builtin 2002 ''Suspicious TLD - .tk'' None
        ALERT_SEVERITY_LOW ALERT_CATEGORY_MALWARE APP_PROTO_DNS \<lparr>dns_check_query := True\<rparr>,
      [ContentCond (str ''.tk'') False]),
     (builtin 2003 ''DNS Tunneling - Long TXT'' None
        ALERT_SEVERITY_MEDIUM ALERT_CATEGORY_DATA_LEAK APP_PROTO_DNS \<lparr>dns_check_query := True, dns_qtype := 16\<rparr>,
      [LengthCond 50 0]),
     (builtin 2004 ''Excessive Subdomains'' None
        ALERT_SEVERITY_LOW ALERT_CATEGORY_ANOMALY APP_PROTO_DNS \<lparr>dns_check_query := True\<rparr>,
      [LengthCond 80 0])]"

definition tls_rules :: "(detection_rule \<times> condition_call list) list" where
  "tls_rules =
    [(builtin 3001 ''TLS Weak Cipher'' (Some ''Detects use of weak TLS cipher suites'')
        ALERT_SEVERITY_MEDIUM ALERT_CATEGORY_CRYPTO APP_PROTO_TLS \<lparr>tls_check_cipher := True\<rparr>, []),
     (builtin 3002 ''TLS Version Downgrade'' (Some ''Detects TLS version downgrade attacks'')
        ALERT_SEVERITY_HIGH ALERT_CATEGORY_CRYPTO APP_PROTO_TLS \<lparr>tls_check_version := True\<rparr>, []),
     (builtin 3003 ''TLS Certificate Error'' (Some ''Detects expired or self-signed certificates'')
        ALERT_SEVERITY_MEDIUM ALERT_CATEGORY_CRYPTO APP_PROTO_TLS \<lparr>tls_check_cert := True\<rparr>, []),
     (builtin 3004 ''Suspicious TLS SNI'' (Some ''Detects suspicious TLS SNI patterns'')
        ALERT_SEVERITY_MEDIUM ALERT_CATEGORY_MALWARE APP_PROTO_TLS \<lparr>tls_check_sni := True\<rparr>,
      [ContentCond (str ''.tk'') False, ContentCond (str ''.cc'') False]),
     (builtin 3005 ''Metasploit JA3'' (Some ''Detects Metasploit framework JA3 fingerprint'')
        ALERT_SEVERITY_CRITICAL ALERT_CATEGORY_MALWARE APP_PROTO_TLS
        \<lparr>tls_check_ja3 := True, tls_ja3_hash := Some (str ''a0e9f5d64349fb13191bc781f81f42e1'')\<rparr>, []),
     (builtin 3006 ''Cobalt Strike JA3'' (Some ''Detects Cobalt Strike JA3 fingerprint'')
        ALERT_SEVERITY_CRITICAL ALERT_CATEGORY_MALWARE APP_PROTO_TLS
        \<lparr>tls_check_ja3 := True, tls_ja3_hash := Some (str ''72a589da586844d7f0818ce684948eea'')\<rparr>, []),
     (builtin 3007 ''Trickbot JA3'' (Some ''Detects Trickbot malware JA3 fingerprint'')
        ALERT_SEVERITY_CRITICAL ALERT_CATEGORY_MALWARE APP_PROTO_TLS
        \<lparr>tls_check_ja3 := True, tls_ja3_hash := Some (str ''6734f37431670b3ab4292b8f60f29984'')\<rparr>, [])]"

definition load_http_rules :: "rte_env \<Rightarrow> rule_engine \<Rightarrow> nat \<Rightarrow> (rule_engine \<times> nat \<times> nat) option" where
  "load_http_rules env e n = load_rules env http_rules (e, n, 0)"

definition load_dns_rules :: "rte_env \<Rightarrow> rule_engine \<Rightarrow> nat \<Rightarrow> (rule_engine \<times> nat \<times> nat) option" where
  "load_dns_rules env e n = load_rules env dns_rules (e, n, 0)"

definition load_tls_rules :: "rte_env \<Rightarrow> rule_engine \<Rightarrow> nat \<Rightarrow> (rule_engine \<times> nat \<times> nat) option" where
  "load_tls_rules env e n = load_rules env tls_rules (e, n, 0)"

definition rule_engine_load_builtin_rules :: "rte_env \<Rightarrow> rule_engine \<Rightarrow> nat \<Rightarrow> (nat \<times> rule_engine \<times> nat) option" where
  "rule_engine_load_builtin_rules env e n = do {
     (e1, n1, k1) \<leftarrow> load_http_rules env e n;
     (e2, n2, k2) \<leftarrow> load_dns_rules env e1 n1;
     (e3, n3, k3) \<leftarrow> load_tls_rules env e2 n2;
     Some (k1 + k2 + k3, e3, n3) }"


section \<open>The list of alerts\<close>

text \<open>What the engine keeps: the counters match the lists, at most 1000 alerts, numbered consecutively with the newest
  first, and the alerts counted by severity add up to those generated.\<close>

definition engine_inv :: "rule_engine \<Rightarrow> bool" where
  "engine_inv e \<longleftrightarrow> max_alerts e = MAX_ALERTS_DEFAULT \<and> length (re_alerts e) \<le> 1000 \<and>
     alert_count e = of_nat (length (re_alerts e)) \<and>
     map al_alert_id (re_alerts e) = map (\<lambda>i. alert_id_counter e - of_nat i) [0..<length (re_alerts e)] \<and>
     length (alerts_by_severity (re_stats e)) = 5 \<and>
     sum_list (alerts_by_severity (re_stats e)) = alerts_generated (re_stats e) \<and>
     rules_loaded (re_stats e) = of_nat (length (re_rules e)) \<and>
     rules_enabled (re_stats e) = of_nat (length (filter dr_enabled (re_rules e)))"

lemma limit_alerts_take:
  assumes "length xs \<le> 1000" "re_alerts e = al # xs" "alert_count e = of_nat (Suc (length xs))" "max_alerts e = 1000"
  shows "limit_alerts e = e\<lparr>re_alerts := take 1000 (al # xs), alert_count := of_nat (length (take 1000 (al # xs)))\<rparr>"
proof (cases "length xs = 1000")
  case True
  then have "1000 < alert_count e" "xs \<noteq> []"
    using assms(3) by auto
  moreover have "butlast (al # xs) = take 1000 (al # xs)"
    using True by (simp only: butlast_conv_take) simp
  ultimately show ?thesis
    using True assms by (simp add: limit_alerts_def Suc_le_eq)
next
  case False
  then have "length (al # xs) \<le> 1000"
    using assms(1) by simp
  moreover from this have "\<not> 1000 < alert_count e"
    using assms(3) unat_of_nat_u32 [of "Suc (length xs)"] by (simp add: word_less_nat_alt)
  ultimately show ?thesis
    using assms by (simp add: limit_alerts_def)
qed

lemma sum_list_incr: "k < length xs \<Longrightarrow> sum_list (xs[k := xs ! k + 1]) = sum_list xs + (1 :: u64)"
  by (induction xs arbitrary: k) (auto simp: nth_Cons split: nat.splits)

lemma severity_val_lt: "severity_val s < 5"
  by (cases s) simp_all

lemma make_alert_id [simp]:
  "al_alert_id (fst (make_alert env now rule flow detail i n)) = i"
  "al_rule_id (fst (make_alert env now rule flow detail i n)) = dr_rule_id rule"
  by (simp_all add: make_alert_def Let_def split: prod.split)

text \<open>The effect of creating an alert.\<close>

lemma create_alert_eq:
  fixes now :: timeval and rule :: detection_rule and flow :: "'p flow" and detail :: "bytes option"
  assumes "engine_inv e" "malloc_ok env n"
  defines "i \<equiv> alert_id_counter e + 1"
  defines "al \<equiv> fst (make_alert env now rule flow detail i (n + 1))"
  shows "re_alerts (fst (create_alert env now rule flow detail e n)) = take 1000 (al # re_alerts e)"
    and "alert_id_counter (fst (create_alert env now rule flow detail e n)) = i"
    and "snd (create_alert env now rule flow detail e n) = snd (make_alert env now rule flow detail i (n + 1))"
    and "re_rules (fst (create_alert env now rule flow detail e n)) = re_rules e"
    and "engine_inv (fst (create_alert env now rule flow detail e n))"
proof -
  let ?e0 = "e\<lparr>alert_id_counter := i, re_alerts := al # re_alerts e, alert_count := alert_count e + 1\<rparr>"
  obtain n1 where m: "make_alert env now rule flow detail i (n + 1) = (al, n1)"
    by (metis al_def prod.collapse)
  have lim: "limit_alerts ?e0 = ?e0\<lparr>re_alerts := take 1000 (al # re_alerts e),
      alert_count := of_nat (length (take 1000 (al # re_alerts e)))\<rparr>"
    using assms(1) by (intro limit_alerts_take) (simp_all add: engine_inv_def MAX_ALERTS_DEFAULT_def)
  have c: "create_alert env now rule flow detail e n =
      ((count_alert (severity_val (dr_severity rule)) (limit_alerts ?e0))
        \<lparr>json_output := map_option (\<lambda>out. out @ [al]) (json_output e)\<rparr>, n1)"
    using assms(2) m by (simp add: create_alert_def i_def [symmetric] Let_def lim count_alert_def)
  show "re_alerts (fst (create_alert env now rule flow detail e n)) = take 1000 (al # re_alerts e)"
    "alert_id_counter (fst (create_alert env now rule flow detail e n)) = i"
    "snd (create_alert env now rule flow detail e n) = snd (make_alert env now rule flow detail i (n + 1))"
    "re_rules (fst (create_alert env now rule flow detail e n)) = re_rules e"
    using m by (simp_all add: c lim count_alert_def)
  have ids: "map al_alert_id (al # re_alerts e) = map (\<lambda>j. i - of_nat j) [0..<Suc (length (re_alerts e))]"
  proof -
    have "al_alert_id al = i"
      by (simp add: al_def)
    then show ?thesis
      using assms(1) by (simp add: engine_inv_def upt_conv_Cons map_Suc_upt [symmetric] i_def comp_def del: upt_Suc)
  qed
  have "map al_alert_id (take 1000 (al # re_alerts e)) = take 1000 (map (\<lambda>j. i - of_nat j) [0..<Suc (length (re_alerts e))])"
    by (simp only: take_map [symmetric] ids)
  also have "\<dots> = map (\<lambda>j. i - of_nat j) [0..<min 1000 (Suc (length (re_alerts e)))]"
    by (simp only: take_map take_upt min.commute) (auto simp: take_map min_def)
  finally have ids': "map al_alert_id (take 1000 (al # re_alerts e)) =
      map (\<lambda>j. i - of_nat j) [0..<length (take 1000 (al # re_alerts e))]"
    by (simp add: min.commute)
  define xs where "xs = take 1000 (al # re_alerts e)"
  have "length xs \<le> 1000"
    by (simp add: xs_def)
  then show "engine_inv (fst (create_alert env now rule flow detail e n))"
    unfolding c lim xs_def [symmetric] using assms(1) ids' [folded xs_def] severity_val_lt [of "dr_severity rule"]
    by (simp add: count_alert_def engine_inv_def sum_list_incr)
qed

lemma create_alert_fails: "\<not> malloc_ok env n \<Longrightarrow> create_alert env now rule flow detail e n = (e, n + 1)"
  by (simp add: create_alert_def)

lemma create_alert_inv: "engine_inv e \<Longrightarrow> engine_inv (fst (create_alert env now rule flow detail e n))"
  by (cases "malloc_ok env n") (simp_all add: create_alert_eq(5) create_alert_fails)

text \<open>The engine as a machine whose operations are always defined.\<close>

datatype 'p alert_op =
    AlertCreate detection_rule timeval "'p flow" "bytes option"
  | AlertClear
  | AlertAddRule detection_rule
  | AlertJson "alert list option"

fun alert_step :: "rte_env \<Rightarrow> 'p alert_op \<Rightarrow> rule_engine \<times> nat \<Rightarrow> rule_engine \<times> nat" where
  "alert_step env (AlertCreate rule now flow detail) (e, n) = create_alert env now rule flow detail e n"
| "alert_step env AlertClear (e, n) = (rule_engine_clear_alerts e, n)"
| "alert_step env (AlertAddRule rule) (e, n) = (rule_engine_add_rule rule e, n)"
| "alert_step env (AlertJson ctx) (e, n) = (rule_engine_set_json_output ctx e, n)"

lemma add_rule_inv: "engine_inv e \<Longrightarrow> engine_inv (rule_engine_add_rule rule e)"
  by (simp add: engine_inv_def rule_engine_add_rule_def Let_def)

lemma alert_step_inv: "engine_inv (fst s) \<Longrightarrow> engine_inv (fst (alert_step env x s))"
  by (cases s; cases x)
     (simp_all add: create_alert_inv add_rule_inv, simp_all add: engine_inv_def rule_engine_clear_alerts_def rule_engine_set_json_output_def)

interpretation alerts: total_machine "alert_step env" "\<lambda>s. engine_inv (fst s)" for env
  by unfold_locales (rule alert_step_inv)

lemma engine_zero_inv: "engine_inv (rule_engine_zero\<lparr>max_alerts := MAX_ALERTS_DEFAULT\<rparr>)"
  by (simp add: engine_inv_def rule_engine_zero_def)

text \<open>The specification: an unbounded log of alerts, newest first.\<close>

fun log_step :: "rte_env \<Rightarrow> 'p alert_op \<Rightarrow> alert list \<times> u32 \<times> nat \<Rightarrow> alert list \<times> u32 \<times> nat" where
  "log_step env (AlertCreate rule now flow detail) (hist, i, n) =
    (if malloc_ok env n
     then (let (al, n1) = make_alert env now rule flow detail (i + 1) (n + 1) in (al # hist, i + 1, n1))
     else (hist, i, n + 1))"
| "log_step env AlertClear (hist, i, n) = ([], i, n)"
| "log_step env (AlertAddRule rule) (hist, i, n) = (hist, i, n)"
| "log_step env (AlertJson ctx) (hist, i, n) = (hist, i, n)"

definition alert_log_rel :: "rule_engine \<times> nat \<Rightarrow> alert list \<times> u32 \<times> nat \<Rightarrow> bool" where
  "alert_log_rel s t \<longleftrightarrow> re_alerts (fst s) = take 1000 (fst t) \<and> alert_id_counter (fst s) = fst (snd t) \<and> snd s = snd (snd t)"

lemma log_step_rel:
  assumes "alert_log_rel s t" "engine_inv (fst s)"
  shows "alert_log_rel (alert_step env x s) (log_step env x t)"
proof -
  obtain e n hist where s: "s = (e, n)" "t = (hist, alert_id_counter e, n)" "re_alerts e = take 1000 hist"
    using assms(1) by (cases s, cases t) (auto simp: alert_log_rel_def)
  show ?thesis
  proof (cases x)
    case (AlertCreate rule now flow detail)
    show ?thesis
    proof (cases "malloc_ok env n")
      case True
      have inv: "engine_inv e"
        using assms(2) s by simp
      have "take 1000 (al # take 1000 hist) = take 1000 (al # hist)" for al
        by simp
      then show ?thesis
        using s True create_alert_eq(1-3) [OF inv True, of now rule flow detail] unfolding AlertCreate
        by (simp add: alert_log_rel_def split: prod.split del: take_Cons_numeral)
    qed (use s AlertCreate in \<open>simp add: alert_log_rel_def create_alert_fails\<close>)
  qed (use s in \<open>simp_all add: alert_log_rel_def rule_engine_clear_alerts_def rule_engine_add_rule_def rule_engine_set_json_output_def Let_def\<close>)
qed

lemma log_run_rel:
  "alert_log_rel s t \<Longrightarrow> engine_inv (fst s) \<Longrightarrow> alert_log_rel (fold (alert_step env) xs s) (fold (log_step env) xs t)"
proof (induction xs arbitrary: s t)
  case (Cons x xs)
  then show ?case
    using log_step_rel alert_step_inv by (metis fold_simps(2))
qed simp

section \<open>Inspection\<close>

text \<open>A check of a rule that writes the report whenever it matches, for the rules in \<open>fits\<close>. The inspection then creates
  one alert per matching rule, in the order of the list.\<close>

locale rule_checker =
  fixes chk :: "detection_rule \<Rightarrow> bytes option \<Rightarrow> bool \<times> bytes option"
    and fits :: "detection_rule \<Rightarrow> bool"
    and hit :: "detection_rule \<Rightarrow> bool"
    and report :: "detection_rule \<Rightarrow> bytes"
  assumes chk_law: "fits r \<Longrightarrow> fst (chk r d) = hit r \<and> (hit r \<longrightarrow> snd (chk r d) = Some (report r))"
begin

lemma inspect_all:
  assumes "\<And>r. r \<in> set rs \<Longrightarrow> dr_protocol r = proto \<Longrightarrow> fits r"
  shows "inspect_rules chk proto env now flow rs d e n k =
    (let hits = filter (\<lambda>r. dr_protocol r = proto \<and> hit r) rs;
         s = fold (\<lambda>r (e, n). create_alert env now r flow (Some (report r)) e n) hits (e, n) in
     Some (k + length hits, fst s, snd s))"
  using assms
proof (induction rs arbitrary: d e n k)
  case (Cons r rs)
  obtain m d1 where c: "chk r d = (m, d1)"
    by force
  obtain e1 n1 where a: "create_alert env now r flow (Some (report r)) e n = (e1, n1)"
    by force
  have l: "dr_protocol r = proto \<Longrightarrow> m = hit r \<and> (m \<longrightarrow> d1 = Some (report r))"
    using chk_law [of r d] Cons.prems [of r] c by simp
  show ?case
    using Cons.IH [of d1 e1 n1 "k + 1"] Cons.IH [of d1 e n k] Cons.IH [of d e n k] Cons.prems a c l
    by (cases "dr_protocol r = proto"; cases m) (simp_all add: Let_def)
qed (simp add: Let_def)

end

definition http_fits :: "http_transaction \<Rightarrow> detection_rule \<Rightarrow> bool" where
  "http_fits tx r \<longleftrightarrow> \<not> dr_enabled r \<or> (http_check_uri r \<and> rq_uri (ht_request tx) \<noteq> None)"

definition dns_fits :: "dns_transaction \<Rightarrow> detection_rule \<Rightarrow> bool" where
  "dns_fits tx r \<longleftrightarrow> \<not> dr_enabled r \<or> (dns_check_query r \<and> tx_questions tx \<noteq> [])"

lemma check_tls_rest_law:
  "fst (check_tls_rest conn r d) = fst (check_tls_rest conn r None) \<and>
   (fst (check_tls_rest conn r None) \<longrightarrow> snd (check_tls_rest conn r d) = Some (the (snd (check_tls_rest conn r None))))"
  by (cases "ja3_report conn r") (auto simp: check_tls_rest_def print_detail_def)

interpretation http_check: rule_checker "check_http_rule tx" "http_fits tx"
    "\<lambda>r. fst (check_http_rule tx r None)" "\<lambda>r. the (snd (check_http_rule tx r None))" for tx
  by unfold_locales
     (auto simp: http_fits_def check_http_rule_def print_detail_def Let_def split: option.splits bool.splits)

interpretation dns_check: rule_checker "check_dns_rule tx" "dns_fits tx"
    "\<lambda>r. fst (check_dns_rule tx r None)" "\<lambda>r. the (snd (check_dns_rule tx r None))" for tx
  by unfold_locales
     (auto simp: dns_fits_def check_dns_rule_def print_detail_def Let_def split: list.splits bool.splits)

interpretation tls_check: rule_checker "check_tls_rule conn" "\<lambda>_. True"
    "\<lambda>r. fst (check_tls_rule conn r None)" "\<lambda>r. the (snd (check_tls_rule conn r None))" for conn
proof unfold_locales
  fix r d
  show "fst (check_tls_rule conn r d) = fst (check_tls_rule conn r None) \<and>
      (fst (check_tls_rule conn r None) \<longrightarrow> snd (check_tls_rule conn r d) = Some (the (snd (check_tls_rule conn r None))))"
    using check_tls_rest_law [of conn r d]
    by (auto simp: check_tls_rule_def print_detail_def split: option.splits bool.splits)
qed

section \<open>Loading the built-in rules\<close>

fun condition_of :: "condition_call \<Rightarrow> rule_condition" where
  "condition_of (ContentCond p cs) = rule_condition_zero\<lparr>rc_pattern := Some p, rc_case_sensitive := cs\<rparr>"
| "condition_of (LengthCond lo hi) = rule_condition_zero\<lparr>rc_type := RULE_MATCH_LENGTH, rc_min_length := lo, rc_max_length := hi\<rparr>"
| "condition_of (EntropyCond lo hi) = rule_condition_zero\<lparr>rc_type := RULE_MATCH_ENTROPY, rc_min_entropy := lo, rc_max_entropy := hi\<rparr>"

definition built :: "detection_rule \<times> condition_call list \<Rightarrow> detection_rule" where
  "built b = (fst b)\<lparr>dr_conditions := map condition_of (snd b)\<rparr>"

definition texts_fit :: "detection_rule \<Rightarrow> bool" where
  "texts_fit r \<longleftrightarrow> (case dr_name r of None \<Rightarrow> True | Some s \<Rightarrow> length s < 64) \<and>
     (case dr_description r of None \<Rightarrow> True | Some s \<Rightarrow> length s < 128) \<and>
     (case tls_ja3_hash r of None \<Rightarrow> True | Some s \<Rightarrow> length s < 64)"

lemma make_conditions_ok: "\<forall>k. malloc_ok env k \<Longrightarrow> \<exists>n'. make_conditions env n calls = (map condition_of calls, n')"
proof (induction calls arbitrary: n)
  case (Cons c calls)
  obtain n1 where 1: "make_condition env n c = (Some (condition_of c), n1)"
    using Cons.prems by (cases c) (auto simp: rule_condition_content_def rule_condition_length_def rule_condition_entropy_def)
  obtain n2 where "make_conditions env n1 calls = (map condition_of calls, n2)"
    using Cons by blast
  with 1 show ?case
    by simp
qed simp

lemma malloc_strcpy_ok:
  "\<forall>k. malloc_ok env k \<Longrightarrow> (case t of None \<Rightarrow> True | Some s \<Rightarrow> length s < cap) \<Longrightarrow> \<exists>n'. malloc_strcpy env cap n t = Some n'"
  by (cases t) auto

lemma load_rule_ok:
  assumes "\<forall>k. malloc_ok env k" "texts_fit (fst b)"
  shows "\<exists>n'. load_rule env b (e, n, k) = Some (rule_engine_add_rule (built b) e, n', k + 1)"
proof -
  obtain r calls where b: "b = (r, calls)"
    by force
  obtain n1 where 1: "malloc_strcpy env 64 (n + 1) (dr_name r) = Some n1"
    using malloc_strcpy_ok [OF assms(1), where t = "dr_name r" and cap = 64 and n = "n + 1"] assms(2) b by (auto simp: texts_fit_def)
  obtain n2 where 2: "malloc_strcpy env 128 n1 (dr_description r) = Some n2"
    using malloc_strcpy_ok [OF assms(1), where t = "dr_description r" and cap = 128 and n = n1] assms(2) b by (auto simp: texts_fit_def)
  obtain n3 where 3: "malloc_strcpy env 64 n2 (tls_ja3_hash r) = Some n3"
    using malloc_strcpy_ok [OF assms(1), where t = "tls_ja3_hash r" and cap = 64 and n = n2] assms(2) b by (auto simp: texts_fit_def)
  obtain n4 where "make_conditions env n3 calls = (map condition_of calls, n4)"
    using make_conditions_ok [OF assms(1), of n3 calls] by blast
  then show ?thesis
    using assms(1) 1 2 3 b by (simp add: load_rule_def built_def)
qed

text \<open>What loading keeps of the engine.\<close>

definition loaded_with :: "detection_rule list \<Rightarrow> rule_engine \<Rightarrow> rule_engine \<Rightarrow> bool" where
  "loaded_with rs e e' \<longleftrightarrow> re_rules e' = rev rs @ re_rules e \<and> re_alerts e' = re_alerts e \<and> (engine_inv e \<longrightarrow> engine_inv e')"

lemma load_rules_ok:
  assumes "\<forall>k. malloc_ok env k" "list_all (texts_fit \<circ> fst) bs"
  shows "\<exists>e' n'. load_rules env bs (e, n, k) = Some (e', n', k + length bs) \<and> loaded_with (map built bs) e e'"
  using assms(2)
proof (induction bs arbitrary: e n k)
  case (Cons b bs)
  obtain n1 where l: "load_rule env b (e, n, k) = Some (rule_engine_add_rule (built b) e, n1, k + 1)"
    using load_rule_ok [OF assms(1), of b e n k] Cons.prems by auto
  obtain e' n' where r: "load_rules env bs (rule_engine_add_rule (built b) e, n1, k + 1) = Some (e', n', k + 1 + length bs)"
      "loaded_with (map built bs) (rule_engine_add_rule (built b) e) e'"
    using Cons.IH [of "rule_engine_add_rule (built b) e" n1 "k + 1"] Cons.prems by auto
  then show ?case
    using l add_rule_inv [of e "built b"] by (auto simp: loaded_with_def rule_engine_add_rule_def Let_def)
qed (simp add: loaded_with_def)

definition builtin_rules :: "detection_rule list" where
  "builtin_rules = map built (http_rules @ dns_rules @ tls_rules)"

lemma builtin_texts_fit:
  "list_all (texts_fit \<circ> fst) http_rules" "list_all (texts_fit \<circ> fst) dns_rules" "list_all (texts_fit \<circ> fst) tls_rules"
  by (simp_all add: http_rules_def dns_rules_def tls_rules_def texts_fit_def detection_rule_zero_def str_def)

lemma load_builtin_ok:
  assumes "\<forall>k. malloc_ok env k"
  shows "\<exists>e' n'. rule_engine_load_builtin_rules env e n = Some (16, e', n') \<and> loaded_with builtin_rules e e'"
proof -
  obtain e1 n1 where 1: "load_http_rules env e n = Some (e1, n1, 5)" "loaded_with (map built http_rules) e e1"
    using load_rules_ok [OF assms builtin_texts_fit(1), of e n 0] by (auto simp: load_http_rules_def http_rules_def)
  obtain e2 n2 where 2: "load_dns_rules env e1 n1 = Some (e2, n2, 4)" "loaded_with (map built dns_rules) e1 e2"
    using load_rules_ok [OF assms builtin_texts_fit(2), of e1 n1 0] by (auto simp: load_dns_rules_def dns_rules_def)
  obtain e3 n3 where 3: "load_tls_rules env e2 n2 = Some (e3, n3, 7)" "loaded_with (map built tls_rules) e2 e3"
    using load_rules_ok [OF assms builtin_texts_fit(3), of e2 n2 0] by (auto simp: load_tls_rules_def tls_rules_def)
  show ?thesis
    using 1 2 3 by (simp add: rule_engine_load_builtin_rules_def loaded_with_def builtin_rules_def)
qed

text \<open>Alerts created one after the other from an engine with room for them.\<close>

lemma create_alerts_ids:
  assumes "\<forall>k. malloc_ok env k" "engine_inv e" "length (re_alerts e) + length rs \<le> 1000"
  shows "map al_rule_id (re_alerts (fst (fold (\<lambda>r (e, n). create_alert env now r flow (Some (report r)) e n) rs (e, n)))) =
      rev (map dr_rule_id rs) @ map al_rule_id (re_alerts e)"
  using assms(2,3)
proof (induction rs arbitrary: e n)
  case (Cons r rs)
  obtain e1 n1 where c: "create_alert env now r flow (Some (report r)) e n = (e1, n1)"
    by force
  have m: "malloc_ok env n"
    using assms(1) by simp
  have "engine_inv e1"
    using create_alert_eq(5) [OF Cons.prems(1) m, of now r flow "Some (report r)"] c by simp
  moreover have "re_alerts e1 = fst (make_alert env now r flow (Some (report r)) (alert_id_counter e + 1) (n + 1)) # re_alerts e"
    using create_alert_eq(1) [OF Cons.prems(1) m, of now r flow "Some (report r)"] c Cons.prems(2) by simp
  ultimately show ?case
    using Cons.IH [of e1 n1] Cons.prems(2) c by simp
qed simp

lemma count_inspection_keeps [simp]:
  "re_alerts (count_inspection e) = re_alerts e" "re_rules (count_inspection e) = re_rules e"
  "engine_inv (count_inspection e) = engine_inv e"
  by (simp_all add: count_inspection_def engine_inv_def)

context rule_checker
begin

lemma builtin_alerts:
  assumes "\<forall>k. malloc_ok env k" "\<And>r. r \<in> set builtin_rules \<Longrightarrow> dr_protocol r = proto \<Longrightarrow> fits r"
  defines "ids \<equiv> map dr_rule_id (filter (\<lambda>r. dr_protocol r = proto \<and> hit r) builtin_rules)"
  shows "\<exists>e n e' n'. rule_engine_load_builtin_rules env (rule_engine_zero\<lparr>max_alerts := MAX_ALERTS_DEFAULT\<rparr>) 0 = Some (16, e, n) \<and>
    inspect_rules chk proto env now flow (re_rules e) None (count_inspection e) n 0 = Some (length ids, e', n') \<and>
    map al_rule_id (re_alerts e') = ids"
proof -
  let ?e0 = "rule_engine_zero\<lparr>max_alerts := MAX_ALERTS_DEFAULT\<rparr>"
  let ?P = "\<lambda>r. dr_protocol r = proto \<and> hit r"
  obtain e n where l: "rule_engine_load_builtin_rules env ?e0 0 = Some (16, e, n)" "loaded_with builtin_rules ?e0 e"
    using load_builtin_ok [OF assms(1), of ?e0 0] by blast
  have e: "engine_inv e" "re_rules e = rev builtin_rules" "re_alerts e = []"
    using l(2) engine_zero_inv by (simp_all add: loaded_with_def rule_engine_zero_def)
  have b: "length (filter ?P builtin_rules) \<le> 16"
    by (rule order_trans [OF length_filter_le]) (simp add: builtin_rules_def http_rules_def dns_rules_def tls_rules_def)
  obtain e' n' where f: "fold (\<lambda>r (e, n). create_alert env now r flow (Some (report r)) e n)
      (rev (filter ?P builtin_rules)) (count_inspection e, n) = (e', n')"
    by force
  have "inspect_rules chk proto env now flow (rev builtin_rules) None (count_inspection e) n 0 =
      Some (length (filter ?P builtin_rules), e', n')"
    using inspect_all [of "rev builtin_rules" proto env now flow None "count_inspection e" n 0] assms(2) f
    by (simp add: rev_filter [symmetric] Let_def)
  moreover have "map al_rule_id (re_alerts e') = ids"
    using create_alerts_ids [OF assms(1), of "count_inspection e" "rev (filter ?P builtin_rules)" now flow report n] e b f
    by (simp add: ids_def rev_map)
  ultimately show ?thesis
    using l(1) e(2) by (auto simp: ids_def)
qed

end

lemma filter_ids: "map f (filter P xs) = map fst (filter snd (map (\<lambda>r. (f r, P r)) xs))"
  by (induction xs) simp_all

section \<open>Rules that match without looking\<close>

text \<open>When every rule of the protocol matches without writing a report, the first of them reads the buffer.\<close>

lemma inspect_vacuous:
  assumes "\<And>r. r \<in> set rs \<Longrightarrow> dr_protocol r = proto \<Longrightarrow> chk r None = (True, None)" "\<exists>r \<in> set rs. dr_protocol r = proto"
  shows "inspect_rules chk proto env now flow rs None e n k = None"
  using assms by (induction rs) auto

text \<open>The TLS parser never sets the certificate flags.\<close>

definition cert_flags :: "tls_conn \<Rightarrow> bool \<times> bool" where
  "cert_flags c = (tc_expired_cert c, tc_self_signed_cert c)"

lemma parse_client_hello_cert_flags:
  "parse_client_hello md5 cap env conn data p len n = Some (c', n') \<Longrightarrow> cert_flags c' = cert_flags conn"
  by (auto simp: parse_client_hello_def cert_flags_def split: bind_split_asm if_splits option.splits)

lemma parse_server_hello_cert_flags:
  "parse_server_hello md5 cap env conn data p len n = Some (c', n') \<Longrightarrow> cert_flags c' = cert_flags conn"
  by (auto simp: parse_server_hello_def server_hello_conclude_def cert_flags_def split: bind_split_asm if_splits option.splits)

lemma parse_certificate_cert_flags:
  "parse_certificate env conn data p len dir n = Some (c', n') \<Longrightarrow> cert_flags c' = cert_flags conn"
  by (auto simp: parse_certificate_def cert_flags_def split: bind_split_asm if_splits)

lemma parse_handshake_cert_flags:
  "parse_handshake md5 cap env conn data p len dir n = Some (c', n') \<Longrightarrow> cert_flags c' = cert_flags conn"
  by (auto simp: parse_handshake_def Let_def dest!: parse_client_hello_cert_flags parse_server_hello_cert_flags
      parse_certificate_cert_flags split: bind_split_asm if_splits) (simp_all add: cert_flags_def)

lemma parse_tls_record_cert_flags:
  "parse_tls_record md5 cap env conn data p len dir n = Some (r, c', n') \<Longrightarrow> cert_flags c' = cert_flags conn"
  by (auto simp: parse_tls_record_def cert_flags_def Let_def dest!: parse_handshake_cert_flags split: bind_split_asm if_splits)

lemma tls_records_loop_cert_flags:
  "tls_records_loop md5 cap env conn data consumed len dir n = Some (k, c', n') \<Longrightarrow> cert_flags c' = cert_flags conn"
proof (induction md5 cap env conn data consumed len dir n rule: tls_records_loop.induct)
  case (1 md5 cap env conn data consumed len dir n)
  show ?case
  proof (cases "len \<le> consumed")
    case True
    then show ?thesis
      using "1.prems" by (simp add: tls_records_loop.simps [of _ _ _ _ _ consumed])
  next
    case False
    then obtain ret c1 n1 where r: "parse_tls_record md5 cap env conn data consumed (len - consumed) dir n = Some (ret, c1, n1)"
      using "1.prems" by (auto simp: tls_records_loop.simps [of _ _ _ _ _ consumed] split: bind_split_asm)
    note p = parse_tls_record_cert_flags [OF r]
    show ?thesis
      using "1.prems" "1.IH" [OF False r refl refl] False r p
      by (cases "ret \<le> 0") (simp_all add: tls_records_loop.simps [of _ _ _ _ _ consumed])
  qed
qed

lemma tls_step_cert_flags: "tls_step md5 env x s = Some s' \<Longrightarrow> cert_flags (fst s') = cert_flags (fst s)"
  by (cases x; cases s)
     (auto simp: tls_parser_parse_def tls_parser_parse_with_def dest!: tls_records_loop_cert_flags split: bind_split_asm if_splits)

lemma tls_run_cert_flags: "run_ops (tls_step md5 env) xs s = Some s' \<Longrightarrow> cert_flags (fst s') = cert_flags (fst s)"
proof (induction xs arbitrary: s)
  case (Cons x xs)
  then obtain s1 where "tls_step md5 env x s = Some s1" "run_ops (tls_step md5 env) xs s1 = Some s'"
    by (auto split: bind_split_asm)
  then show ?case
    using Cons.IH [of s1] tls_step_cert_flags [of md5 env x s s1] by simp
qed simp

section \<open>Properties\<close>

text \<open>After any sequence of created alerts, cleared lists, added rules and changes of the JSON output the engine's
  counters agree with its lists, at most 1000 alerts are kept with consecutive numbers, and the alerts counted by
  severity add up.\<close>

theorem engine_keeps_invariant:
  "engine_inv (fst (fold (alert_step env) xs (rule_engine_zero\<lparr>max_alerts := MAX_ALERTS_DEFAULT\<rparr>, n)))"
  by (rule alerts.fold_inv) (simp add: engine_zero_inv)

text \<open>C11: The bounded list of alerts implements an unbounded log: after any sequence of operations it holds the latest
  1000 alerts created since the last clearing, and the numbering is that of the log.\<close>

theorem alerts_refine_log:
  "let s = fold (alert_step env) xs (rule_engine_zero\<lparr>max_alerts := MAX_ALERTS_DEFAULT\<rparr>, n);
       t = fold (log_step env) xs ([], 0, n) in
   re_alerts (fst s) = take 1000 (fst t) \<and> alert_id_counter (fst s) = fst (snd t) \<and> snd s = snd (snd t)"
proof -
  have "alert_log_rel (rule_engine_zero\<lparr>max_alerts := MAX_ALERTS_DEFAULT\<rparr>, n) ([], 0, n)"
    by (simp add: alert_log_rel_def rule_engine_zero_def)
  then show ?thesis
    using log_run_rel [of _ _ env xs] engine_zero_inv by (fastforce simp: alert_log_rel_def Let_def)
qed


definition sample_flow :: "unit flow" where
  "sample_flow = \<lparr>f_src_addr = [1, 0, 0, 0], f_dst_addr = [2, 0, 0, 0], f_src_port = 1234, f_dst_port = 80, f_proto = 6,
     f_flags = FLOW_IPV4, flow_hash = 0, start_ts = \<lparr>tv_sec = 0, tv_usec = 0\<rparr>, last_ts = \<lparr>tv_sec = 0, tv_usec = 0\<rparr>,
     timeout_policy = 30, f_tcp = None, f_udp = None, alproto = APP_PROTO_UNKNOWN, alproto_ts = 0, alproto_tc = 0,
     toserver_pkt_cnt = 0, toclient_pkt_cnt = 0, toserver_byte_cnt = 0, toclient_byte_cnt = 0, use_cnt = 0\<rparr>"

definition sample_env :: rte_env where
  "sample_env = \<lparr>malloc_ok = \<lambda>_. True, malloc_junk = \<lambda>_ _. 0\<rparr>"

definition sample_http :: "string \<Rightarrow> http_transaction" where
  "sample_http uri = \<lparr>ht_request = http_request_zero\<lparr>rq_uri := Some (str uri)\<rparr>, ht_response = None, ht_state = HTTP_STATE_IDLE\<rparr>"


text \<open>With the built-in rules loaded, inspecting a DNS transaction with a question raises exactly the alerts whose
  condition on the first question's name holds.\<close>

theorem builtin_dns_verdict:
  assumes "\<forall>k. malloc_ok env k" "tx_questions tx = q # qs"
  shows "\<exists>e n e' n'. (let s = c_str (q_name q); ids = map fst (filter snd
      [(2001, 4 \<le> calculate_entropy (q_name q) \<and> calculate_entropy (q_name q) \<le> 8 \<and> 20 \<le> length s),
       (2002, c_strcasestr s (str ''.tk'')),
       (2003, q_type q = 16 \<and> 50 \<le> length s),
       (2004, 80 \<le> length s)]) in
    rule_engine_load_builtin_rules env (rule_engine_zero\<lparr>max_alerts := MAX_ALERTS_DEFAULT\<rparr>) 0 = Some (16, e, n) \<and>
    rule_engine_inspect_dns env now flow tx e n = Some (length ids, e', n') \<and>
    map al_rule_id (re_alerts e') = ids)"
proof -
  let ?hit = "\<lambda>r. fst (check_dns_rule tx r None)"
  have f: "filter (\<lambda>r. dr_protocol r = APP_PROTO_DNS \<and> ?hit r) builtin_rules = filter ?hit (map built dns_rules)"
    by (simp add: builtin_rules_def http_rules_def dns_rules_def tls_rules_def built_def detection_rule_zero_def)
  have fits: "dns_fits tx r" if "r \<in> set builtin_rules" "dr_protocol r = APP_PROTO_DNS" for r
    using that assms(2)
    by (auto simp: builtin_rules_def http_rules_def dns_rules_def tls_rules_def built_def detection_rule_zero_def dns_fits_def)
  have ids: "map (\<lambda>r. (dr_rule_id r, ?hit r)) (map built dns_rules) =
      [(2001, 4 \<le> calculate_entropy (q_name q) \<and> calculate_entropy (q_name q) \<le> 8 \<and> 20 \<le> length (c_str (q_name q))),
       (2002, c_strcasestr (c_str (q_name q)) (str ''.tk'')),
       (2003, q_type q = 16 \<and> 50 \<le> length (c_str (q_name q))),
       (2004, 80 \<le> length (c_str (q_name q)))]"
    using assms(2)
    by (simp add: dns_rules_def built_def detection_rule_zero_def rule_condition_zero_def check_dns_rule_def
        check_condition_def string_contains_def Let_def)
  show ?thesis
    using dns_check.builtin_alerts [OF assms(1), where proto = APP_PROTO_DNS and tx = tx and now = now and flow = flow, OF fits]
    unfolding f filter_ids [of dr_rule_id ?hit] ids Let_def rule_engine_inspect_dns_def by blast
qed


definition sample_dns :: "dns_question list \<Rightarrow> dns_transaction" where
  "sample_dns qs = \<lparr>txid = 7, tx_is_response = False, tx_opcode = 0, tx_recursion_desired = True, tx_qdcount = 1,
     tx_questions = qs, tx_rcode = 0, tx_authoritative = False, tx_truncated = False, tx_recursion_available = False,
     tx_ancount = 0, tx_nscount = 0, tx_arcount = 0, tx_answers = [], tx_authority = [], tx_additional = [],
     tx_query_len = 0, tx_response_len = 0\<rparr>"

theorem builtin_dns_verdict_witness:
  "\<exists>e n e' n'. rule_engine_load_builtin_rules sample_env (rule_engine_zero\<lparr>max_alerts := MAX_ALERTS_DEFAULT\<rparr>) 0 = Some (16, e, n) \<and>
    rule_engine_inspect_dns sample_env \<lparr>tv_sec = 5, tv_usec = 0\<rparr> sample_flow
      (sample_dns [\<lparr>q_name = str ''a.TK'', q_name_len = 4, q_type = 1, q_class = 1\<rparr>]) e n = Some (1, e', n') \<and>
    map al_rule_id (re_alerts e') = [2002]"
proof -
  have u: "c_str (str ''a.TK'') = str ''a.TK''" "length (str ''a.TK'') = 4" "c_strcasestr (str ''a.TK'') (str ''.tk'')"
    by code_simp+
  have "\<forall>k. malloc_ok sample_env k"
    "tx_questions (sample_dns [\<lparr>q_name = str ''a.TK'', q_name_len = 4, q_type = 1, q_class = 1\<rparr>]) =
      [\<lparr>q_name = str ''a.TK'', q_name_len = 4, q_type = 1, q_class = 1\<rparr>]"
    by (simp_all add: sample_env_def sample_dns_def)
  from builtin_dns_verdict [OF this, of "\<lparr>tv_sec = 5, tv_usec = 0\<rparr>" sample_flow] show ?thesis
    by (simp add: Let_def u)
qed

text \<open>With the built-in rules loaded, inspecting a TLS connection raises exactly the alerts of the conditions that
  hold: the rule on server names fires when either of its two texts occurs in the name.\<close>

theorem builtin_tls_verdict:
  assumes "\<forall>k. malloc_ok env k"
  shows "\<exists>e n e' n'. (let
      sni = (\<lambda>t. case Option.bind (tc_client_hello conn) ch_sni of None \<Rightarrow> False | Some s \<Rightarrow> c_strcasestr (c_str s) (str t));
      ja3 = (\<lambda>t. case tc_client_hello conn of None \<Rightarrow> False | Some ch \<Rightarrow> c_strcasestr (ja3_hex (ch_ja3_hash ch)) (str t));
      ids = map fst (filter snd
        [(3001, tc_weak_cipher conn), (3002, tc_version_downgrade conn),
         (3003, tc_expired_cert conn \<or> tc_self_signed_cert conn),
         (3004, sni ''.tk'' \<or> sni ''.cc''),
         (3005, ja3 ''a0e9f5d64349fb13191bc781f81f42e1''),
         (3006, ja3 ''72a589da586844d7f0818ce684948eea''),
         (3007, ja3 ''6734f37431670b3ab4292b8f60f29984'')]) in
    rule_engine_load_builtin_rules env (rule_engine_zero\<lparr>max_alerts := MAX_ALERTS_DEFAULT\<rparr>) 0 = Some (16, e, n) \<and>
    rule_engine_inspect_tls env now flow conn e n = Some (length ids, e', n') \<and>
    map al_rule_id (re_alerts e') = ids)"
proof -
  let ?hit = "\<lambda>r. fst (check_tls_rule conn r None)"
  let ?sni = "\<lambda>t. case Option.bind (tc_client_hello conn) ch_sni of None \<Rightarrow> False | Some s \<Rightarrow> c_strcasestr (c_str s) (str t)"
  let ?ja3 = "\<lambda>t. case tc_client_hello conn of None \<Rightarrow> False | Some ch \<Rightarrow> c_strcasestr (ja3_hex (ch_ja3_hash ch)) (str t)"
  have f: "filter (\<lambda>r. dr_protocol r = APP_PROTO_TLS \<and> ?hit r) builtin_rules = filter ?hit (map built tls_rules)"
    by (simp add: builtin_rules_def http_rules_def dns_rules_def tls_rules_def built_def detection_rule_zero_def)
  have ids: "map (\<lambda>r. (dr_rule_id r, ?hit r)) (map built tls_rules) =
      [(3001, tc_weak_cipher conn), (3002, tc_version_downgrade conn),
       (3003, tc_expired_cert conn \<or> tc_self_signed_cert conn),
       (3004, ?sni ''.tk'' \<or> ?sni ''.cc''),
       (3005, ?ja3 ''a0e9f5d64349fb13191bc781f81f42e1''),
       (3006, ?ja3 ''72a589da586844d7f0818ce684948eea''),
       (3007, ?ja3 ''6734f37431670b3ab4292b8f60f29984'')]"
    by (cases "tc_client_hello conn"; cases "Option.bind (tc_client_hello conn) ch_sni")
       (simp_all add: tls_rules_def built_def detection_rule_zero_def rule_condition_zero_def check_tls_rule_def
        check_tls_rest_def ja3_report_def sni_matches_def string_contains_def Let_def)
  show ?thesis
    using tls_check.builtin_alerts [OF assms, where proto = APP_PROTO_TLS and conn = conn and now = now and flow = flow, OF TrueI]
    unfolding f filter_ids [of dr_rule_id ?hit] ids Let_def rule_engine_inspect_tls_def by blast
qed

theorem builtin_tls_verdict_witness:
  "\<exists>e n e' n'. rule_engine_load_builtin_rules sample_env (rule_engine_zero\<lparr>max_alerts := MAX_ALERTS_DEFAULT\<rparr>) 0 = Some (16, e, n) \<and>
    rule_engine_inspect_tls sample_env \<lparr>tv_sec = 5, tv_usec = 0\<rparr> sample_flow
      (tls_conn_zero\<lparr>tc_weak_cipher := True, tc_client_hello := Some (client_hello_zero\<lparr>ch_sni := Some (str ''x.cc'')\<rparr>)\<rparr>) e n = Some (2, e', n') \<and>
    map al_rule_id (re_alerts e') = [3001, 3004]"
proof -
  have u: "c_str (str ''x.cc'') = str ''x.cc''" "c_strcasestr (str ''x.cc'') (str ''.cc'')"
    by code_simp+
  have j: "\<not> c_strcasestr (ja3_hex []) (str ''a0e9f5d64349fb13191bc781f81f42e1'')"
      "\<not> c_strcasestr (ja3_hex []) (str ''72a589da586844d7f0818ce684948eea'')"
      "\<not> c_strcasestr (ja3_hex []) (str ''6734f37431670b3ab4292b8f60f29984'')"
    by code_simp+
  have "\<forall>k. malloc_ok sample_env k"
    by (simp add: sample_env_def)
  from builtin_tls_verdict [OF this, of
      "tls_conn_zero\<lparr>tc_weak_cipher := True, tc_client_hello := Some (client_hello_zero\<lparr>ch_sni := Some (str ''x.cc'')\<rparr>)\<rparr>"
      "\<lparr>tv_sec = 5, tv_usec = 0\<rparr>" sample_flow]
  show ?thesis
    by (simp add: Let_def u j tls_conn_zero_def client_hello_zero_def numeral_2_eq_2)
qed

text \<open>The rule on certificate errors never fires: whatever the TLS parser has been fed, inspecting its connection
  with the built-in rules raises no alert 3003.\<close>

theorem certificate_rule_never_fires:
  assumes "\<forall>k. malloc_ok env k" "run_ops (tls_step md5 env) xs (tls_conn_zero, n0) = Some (conn, n1)"
  shows "\<exists>e n k e' n'. rule_engine_load_builtin_rules env (rule_engine_zero\<lparr>max_alerts := MAX_ALERTS_DEFAULT\<rparr>) 0 = Some (16, e, n) \<and>
    rule_engine_inspect_tls env now flow conn e n = Some (k, e', n') \<and> 3003 \<notin> set (map al_rule_id (re_alerts e'))"
proof -
  let ?hit = "\<lambda>r. fst (check_tls_rule conn r None)"
  let ?ids = "map dr_rule_id (filter (\<lambda>r. dr_protocol r = APP_PROTO_TLS \<and> ?hit r) builtin_rules)"
  have fl: "\<not> tc_expired_cert conn" "\<not> tc_self_signed_cert conn"
    using tls_run_cert_flags [OF assms(2)] by (simp_all add: cert_flags_def tls_conn_zero_def)
  have one: "filter (\<lambda>r. dr_rule_id r = 3003) builtin_rules = [built (tls_rules ! 2)]"
    by (simp add: builtin_rules_def http_rules_def dns_rules_def tls_rules_def built_def detection_rule_zero_def)
  have "\<not> ?hit (built (tls_rules ! 2))"
    using fl by (simp add: tls_rules_def built_def detection_rule_zero_def check_tls_rule_def check_tls_rest_def ja3_report_def)
  moreover have "r = built (tls_rules ! 2)" if "r \<in> set builtin_rules" "dr_rule_id r = 3003" for r
  proof -
    have "r \<in> set (filter (\<lambda>r. dr_rule_id r = 3003) builtin_rules)"
      using that by simp
    then show ?thesis
      unfolding one by simp
  qed
  ultimately have "\<not> ?hit r" if "r \<in> set builtin_rules" "dr_rule_id r = 3003" for r
    using that by metis
  then have nin: "3003 \<notin> set ?ids"
    by auto
  obtain e n e' n' where "rule_engine_load_builtin_rules env (rule_engine_zero\<lparr>max_alerts := MAX_ALERTS_DEFAULT\<rparr>) 0 = Some (16, e, n)"
      "rule_engine_inspect_tls env now flow conn e n = Some (length ?ids, e', n')" and c: "map al_rule_id (re_alerts e') = ?ids"
    using tls_check.builtin_alerts [OF assms(1), where proto = APP_PROTO_TLS and conn = conn and now = now and flow = flow, OF TrueI]
    unfolding rule_engine_inspect_tls_def by blast
  moreover have "3003 \<notin> set (map al_rule_id (re_alerts e'))"
    unfolding c by (rule nin)
  ultimately show ?thesis
    by blast
qed

theorem certificate_rule_never_fires_witness:
  "\<exists>conn n1 e n k e' n'. run_ops (tls_step (\<lambda>s. []) sample_env) [TlsData ([22, 3, 1, 0, 4, 14, 0, 0, 0] @ replicate 32 0) 9 1]
      (tls_conn_zero, 0) = Some (conn, n1) \<and>
    rule_engine_load_builtin_rules sample_env (rule_engine_zero\<lparr>max_alerts := MAX_ALERTS_DEFAULT\<rparr>) 0 = Some (16, e, n) \<and>
    rule_engine_inspect_tls sample_env \<lparr>tv_sec = 5, tv_usec = 0\<rparr> sample_flow conn e n = Some (k, e', n') \<and>
    3003 \<notin> set (map al_rule_id (re_alerts e'))"
proof -
  have e: "\<forall>k. malloc_ok sample_env k"
    by (simp add: sample_env_def)
  let ?xs = "[TlsData ([22, 3, 1, 0, 4, 14, 0, 0, 0] @ replicate 32 0) 9 1]"
  have "tls_inv (fst (tls_conn_zero, 0 :: nat))"
    by (simp add: tls_inv_def tls_conn_zero_def)
  moreover have "legal_run (tls_step (\<lambda>s. []) sample_env) tls_legal ?xs (tls_conn_zero, 0)"
    by (rule legal_run_always) simp
  ultimately obtain s where s: "run_ops (tls_step (\<lambda>s. []) sample_env) ?xs (tls_conn_zero, 0) = Some s"
    using tls.run_safe by blast
  then obtain c n1 where r: "run_ops (tls_step (\<lambda>s. []) sample_env) ?xs (tls_conn_zero, 0) = Some (c, n1)"
    by (cases s) simp
  show ?thesis
    using r certificate_rule_never_fires [OF e r, of "\<lparr>tv_sec = 5, tv_usec = 0\<rparr>" sample_flow] by blast
qed

text \<open>A DNS message without questions matches every built-in DNS rule without any report being written, so the
  engine copies an uninitialised buffer: the outcome is undefined.\<close>

theorem dns_without_question_undefined:
  assumes "\<forall>k. malloc_ok env k" "tx_questions tx = []"
  shows "\<exists>e n. rule_engine_load_builtin_rules env (rule_engine_zero\<lparr>max_alerts := MAX_ALERTS_DEFAULT\<rparr>) 0 = Some (16, e, n) \<and>
    rule_engine_inspect_dns env now flow tx e n = None"
proof -
  let ?e0 = "rule_engine_zero\<lparr>max_alerts := MAX_ALERTS_DEFAULT\<rparr>"
  obtain e n where l: "rule_engine_load_builtin_rules env ?e0 0 = Some (16, e, n)" "loaded_with builtin_rules ?e0 e"
    using load_builtin_ok [OF assms(1), of ?e0 0] by blast
  have e: "re_rules e = rev builtin_rules"
    using l(2) by (simp add: loaded_with_def rule_engine_zero_def)
  have "list_all (\<lambda>r. dr_protocol r = APP_PROTO_DNS \<longrightarrow> check_dns_rule tx r None = (True, None)) builtin_rules"
      "list_ex (\<lambda>r. dr_protocol r = APP_PROTO_DNS) builtin_rules"
    using assms(2) by (simp_all add: builtin_rules_def http_rules_def dns_rules_def tls_rules_def built_def detection_rule_zero_def check_dns_rule_def)
  then have "inspect_rules (check_dns_rule tx) APP_PROTO_DNS env now flow (re_rules e) None (count_inspection e) n 0 = None"
    by (intro inspect_vacuous) (auto simp: e list_all_iff list_ex_iff)
  then show ?thesis
    using l(1) by (auto simp: rule_engine_inspect_dns_def)
qed

theorem dns_without_question_undefined_witness:
  "\<exists>e n. rule_engine_load_builtin_rules sample_env (rule_engine_zero\<lparr>max_alerts := MAX_ALERTS_DEFAULT\<rparr>) 0 = Some (16, e, n) \<and>
    rule_engine_inspect_dns sample_env \<lparr>tv_sec = 5, tv_usec = 0\<rparr> sample_flow (sample_dns []) e n = None"
  using dns_without_question_undefined [of sample_env "sample_dns []"] by (simp add: sample_env_def sample_dns_def)
end
