(* ===== verification/Behavioral.thy ===== *)
theory Behavioral
  imports Rule_Engine
begin

text \<open>
  The behavioural detector of \<^verbatim>\<open>behavioral_detector.c\<close>: hash tables of trackers for port scans, brute force, data
  exfiltration and traffic anomalies, and the inspection of a packet of a flow. A table is a list of 1024 chains;
  DPDK's \<^verbatim>\<open>rte_jhash\<close> is the parameter \<open>jh\<close>, the local hour is an argument, and \<open>now\<close> is the time of the packet.
  Fields of the structures that no function reads are left out. The context of a flow is a union of a TCP session and a DNS parser: reading the wrong member is undefined.
\<close>

section \<open>Data\<close>

text \<open>What the program stores behind the untyped parser pointers of a flow.\<close>

datatype app_conn = HttpApp http_conn | DnsApp dns_conn | TlsApp tls_conn

type_synonym app_flow = "app_conn flow"

definition TRACKER_HASH_SIZE :: nat where "TRACKER_HASH_SIZE = 1024"
definition MAX_TRACKED_PORTS :: nat where "MAX_TRACKED_PORTS = 1024"

text \<open>\<open>ps_ports\<close> holds the first \<^verbatim>\<open>port_count\<close> entries of the array.\<close>

record port_scan_tracker =
  ps_src_ip :: u32
  ps_ports :: "u16 list"
  ps_first_seen :: int
  ps_last_seen :: int
  ps_syn_count :: u32
  ps_syn_ack_count :: u32
  ps_is_syn_scan :: bool
  ps_alerted :: bool

record brute_force_tracker =
  bf_target_ip :: u32
  bf_target_port :: u16
  bf_failed_attempts :: u32
  bf_window_start :: int
  bf_last_attempt :: int
  bf_alerted :: bool
  bf_http_401_count :: u32
  bf_http_403_count :: u32

record data_exfil_tracker =
  de_src_ip :: u32
  de_dst_ip :: u32
  de_bytes :: u64
  de_packet_count :: u32
  de_window_start :: int
  de_last_transfer :: int
  de_alerted :: bool
  de_off_hours :: bool

record traffic_anomaly_tracker =
  ta_src_ip :: u32
  ta_large_requests :: u32
  ta_high_freq_queries :: u32
  ta_cert_errors :: u32
  ta_weak_ciphers :: u32
  ta_window_start :: int
  ta_alerted :: bool

type_synonym 't table = "'t list list"

text \<open>\<open>bd_packet_count\<close> is the static variable of \<^verbatim>\<open>behavioral_detector_inspect_packet\<close>.\<close>

record behavioral_detector =
  scan_trackers :: "port_scan_tracker table"
  brute_trackers :: "brute_force_tracker table"
  exfil_trackers :: "data_exfil_tracker table"
  anomaly_trackers :: "traffic_anomaly_tracker table"
  bd_rule_engine :: rule_engine
  scans_detected :: u64
  brute_forces_detected :: u64
  exfiltrations_detected :: u64
  anomalies_detected :: u64
  bd_packet_count :: u64

definition behavioral_detector_zero :: "rule_engine \<Rightarrow> behavioral_detector" where
  "behavioral_detector_zero e = \<lparr>scan_trackers = replicate TRACKER_HASH_SIZE [], brute_trackers = replicate TRACKER_HASH_SIZE [],
     exfil_trackers = replicate TRACKER_HASH_SIZE [], anomaly_trackers = replicate TRACKER_HASH_SIZE [],
     bd_rule_engine = e, scans_detected = 0, brute_forces_detected = 0, exfiltrations_detected = 0,
     anomalies_detected = 0, bd_packet_count = 0\<rparr>"

definition behavioral_detector_init :: "rule_engine option \<Rightarrow> bool \<Rightarrow> behavioral_detector option" where
  "behavioral_detector_init e zmalloc_ok = (case e of None \<Rightarrow> None
     | Some en \<Rightarrow> if zmalloc_ok then Some (behavioral_detector_zero en) else None)"

section \<open>Helpers\<close>

text \<open>The bytes of a key in memory, least significant first.\<close>

definition le_bytes :: "nat \<Rightarrow> 'a::len word \<Rightarrow> bytes" where
  "le_bytes k w = map (\<lambda>i. ucast (drop_bit (8 * i) w)) [0..<k]"

definition hash_src_ip :: "(bytes \<Rightarrow> u32) \<Rightarrow> u32 \<Rightarrow> nat" where
  "hash_src_ip jh ip = unat (jh (le_bytes 4 ip)) mod TRACKER_HASH_SIZE"

definition hash_target :: "(bytes \<Rightarrow> u32) \<Rightarrow> u32 \<times> u16 \<Rightarrow> nat" where
  "hash_target jh k = unat (jh (le_bytes 8 (push_bit 16 (ucast (fst k) :: u64) OR ucast (snd k)))) mod TRACKER_HASH_SIZE"

definition hash_flow_pair :: "(bytes \<Rightarrow> u32) \<Rightarrow> u32 \<times> u32 \<Rightarrow> nat" where
  "hash_flow_pair jh k = unat (jh (le_bytes 8 (push_bit 32 (ucast (fst k) :: u64) OR ucast (snd k)))) mod TRACKER_HASH_SIZE"

definition is_within_window :: "int \<Rightarrow> int \<Rightarrow> int \<Rightarrow> bool" where
  "is_within_window current first window_sec \<longleftrightarrow> current - first \<le> window_sec"

definition IS_EXTERNAL_IP :: "u32 \<Rightarrow> bool" where
  "IS_EXTERNAL_IP ip \<longleftrightarrow> ip AND 0xFF \<noteq> 10 \<and> ip AND 0xFFF0 \<noteq> 0xAC10 \<and> ip AND 0xFFFF \<noteq> 0xC0A8"

definition IS_OFF_HOURS :: "int \<Rightarrow> bool" where
  "IS_OFF_HOURS hour \<longleftrightarrow> 22 \<le> hour \<or> hour < 6"

definition get_ipv4_addr :: "u32 list \<Rightarrow> u32" where
  "get_ipv4_addr addr = addr ! 0"

text \<open>\<^verbatim>\<open>inet_ntop\<close> of \<^verbatim>\<open>htonl(ip)\<close>: the most significant byte is printed first.\<close>

definition ip_to_str :: "u32 \<Rightarrow> bytes" where
  "ip_to_str ip = dec_digits (unat ip div 16777216) @ [46] @ dec_digits (unat ip div 65536 mod 256) @ [46] @
     dec_digits (unat ip div 256 mod 256) @ [46] @ dec_digits (unat ip mod 256)"

text \<open>\<^verbatim>\<open>%ld\<close>.\<close>

definition dec_int :: "int \<Rightarrow> bytes" where
  "dec_int x = (if x < 0 then 45 # dec_digits (nat (- x)) else dec_digits (nat x))"

section \<open>Tables of trackers\<close>

text \<open>The four tables have the same shape, with different keys and hashes.\<close>

definition tt_find :: "('t \<Rightarrow> 'k) \<Rightarrow> ('k \<Rightarrow> nat) \<Rightarrow> 'k \<Rightarrow> 't table \<Rightarrow> 't option" where
  "tt_find key hash k tbl = List.find (\<lambda>t. key t = k) (tbl ! hash k)"

text \<open>The search and the creation at the head of the chain.\<close>

definition tt_get ::
  "('t \<Rightarrow> 'k) \<Rightarrow> ('k \<Rightarrow> nat) \<Rightarrow> rte_env \<Rightarrow> 't \<Rightarrow> bool \<Rightarrow> 't table \<Rightarrow> nat \<Rightarrow> 't option \<times> 't table \<times> nat" where
  "tt_get key hash env fresh create tbl n = (case tt_find key hash (key fresh) tbl of
     Some t \<Rightarrow> (Some t, tbl, n)
   | None \<Rightarrow>
       if \<not> create then (None, tbl, n)
       else if \<not> malloc_ok env n then (None, tbl, n + 1)
       else (Some fresh, tbl[hash (key fresh) := fresh # tbl ! hash (key fresh)], n + 1))"

text \<open>Writing through the pointer to a tracker.\<close>

fun upd_first :: "('t \<Rightarrow> bool) \<Rightarrow> 't \<Rightarrow> 't list \<Rightarrow> 't list" where
  "upd_first P t [] = []"
| "upd_first P t (x # xs) = (if P x then t # xs else x # upd_first P t xs)"

definition tt_store :: "('t \<Rightarrow> 'k) \<Rightarrow> ('k \<Rightarrow> nat) \<Rightarrow> 't \<Rightarrow> 't table \<Rightarrow> 't table" where
  "tt_store key hash t tbl = tbl[hash (key t) := upd_first (\<lambda>x. key x = key t) t (tbl ! hash (key t))]"

definition tt_age :: "('t \<Rightarrow> bool) \<Rightarrow> 't table \<Rightarrow> 't table" where
  "tt_age old tbl = map (filter (\<lambda>t. \<not> old t)) tbl"

definition age_port_scan_trackers :: "int \<Rightarrow> behavioral_detector \<Rightarrow> behavioral_detector" where
  "age_port_scan_trackers now d = d\<lparr>scan_trackers := tt_age (\<lambda>t. now - ps_last_seen t > 300) (scan_trackers d)\<rparr>"

definition age_brute_force_trackers :: "int \<Rightarrow> behavioral_detector \<Rightarrow> behavioral_detector" where
  "age_brute_force_trackers now d = d\<lparr>brute_trackers := tt_age (\<lambda>t. now - bf_window_start t > 600) (brute_trackers d)\<rparr>"

definition age_exfil_trackers :: "int \<Rightarrow> behavioral_detector \<Rightarrow> behavioral_detector" where
  "age_exfil_trackers now d = d\<lparr>exfil_trackers := tt_age (\<lambda>t. now - de_window_start t > 1800) (exfil_trackers d)\<rparr>"

definition age_anomaly_trackers :: "int \<Rightarrow> behavioral_detector \<Rightarrow> behavioral_detector" where
  "age_anomaly_trackers now d = d\<lparr>anomaly_trackers := tt_age (\<lambda>t. now - ta_window_start t > 300) (anomaly_trackers d)\<rparr>"

text \<open>An alert with a rule made for it; the name is missing when it cannot be allocated.\<close>

definition raise_alert ::
  "rte_env \<Rightarrow> timeval \<Rightarrow> u32 \<Rightarrow> string \<Rightarrow> alert_severity \<Rightarrow> alert_category \<Rightarrow> 'p flow \<Rightarrow> bytes \<Rightarrow> behavioral_detector \<Rightarrow> nat \<Rightarrow>
   behavioral_detector \<times> nat" where
  "raise_alert env tv i name sev cat flow detail d n =
    (let rule = detection_rule_zero\<lparr>dr_rule_id := i, dr_enabled := True, dr_severity := sev, dr_category := cat,
           dr_name := (if malloc_ok env n then Some (str name) else None)\<rparr>;
         (e, n1) = rule_engine_create_custom_alert env tv rule flow (Some detail) (bd_rule_engine d) (n + 1) in
     (d\<lparr>bd_rule_engine := e\<rparr>, n1))"

section \<open>Port scans\<close>

definition scan_fresh :: "int \<Rightarrow> u32 \<Rightarrow> port_scan_tracker" where
  "scan_fresh now src_ip = \<lparr>ps_src_ip = src_ip, ps_ports = [], ps_first_seen = now, ps_last_seen = now,
     ps_syn_count = 0, ps_syn_ack_count = 0, ps_is_syn_scan = False, ps_alerted = False\<rparr>"

definition get_port_scan_tracker ::
  "(bytes \<Rightarrow> u32) \<Rightarrow> rte_env \<Rightarrow> int \<Rightarrow> u32 \<Rightarrow> bool \<Rightarrow> behavioral_detector \<Rightarrow> nat \<Rightarrow>
   port_scan_tracker option \<times> behavioral_detector \<times> nat" where
  "get_port_scan_tracker jh env now src_ip create d n =
    (let (t, tbl, n1) = tt_get ps_src_ip (hash_src_ip jh) env (scan_fresh now src_ip) create (scan_trackers d) n in
     (t, d\<lparr>scan_trackers := tbl\<rparr>, n1))"

definition add_port_to_tracker :: "port_scan_tracker \<Rightarrow> u16 \<Rightarrow> bool \<times> port_scan_tracker" where
  "add_port_to_tracker t port =
    (if port \<in> set (ps_ports t) then (False, t)
     else if length (ps_ports t) < MAX_TRACKED_PORTS then (True, t\<lparr>ps_ports := ps_ports t @ [port]\<rparr>)
     else (False, t))"

text \<open>The reset at the end of the window.\<close>

definition scan_window :: "int \<Rightarrow> port_scan_tracker \<Rightarrow> port_scan_tracker" where
  "scan_window now t =
    (if is_within_window now (ps_first_seen t) 60 then t
     else t\<lparr>ps_first_seen := now, ps_ports := [], ps_syn_count := 0, ps_syn_ack_count := 0, ps_is_syn_scan := False,
            ps_alerted := False\<rparr>)\<lparr>ps_last_seen := now\<rparr>"

definition scan_detail :: "int \<Rightarrow> port_scan_tracker \<Rightarrow> bytes" where
  "scan_detail now t = take 255 (str ''Port scan detected from '' @ ip_to_str (ps_src_ip t) @ str '': '' @
     dec_digits (length (ps_ports t)) @ str '' ports in '' @ dec_int (now - ps_first_seen t) @
     str '' seconds (SYN scan: '' @ (if ps_is_syn_scan t then str ''yes'' else str ''no'') @ str '')'')"

text \<open>The treatment of a SYN: the tracker afterwards and whether to alert.\<close>

definition scan_syn :: "u8 \<Rightarrow> u16 \<Rightarrow> port_scan_tracker \<Rightarrow> port_scan_tracker \<times> bool" where
  "scan_syn fl port t =
    (let (new_port, t1) = add_port_to_tracker (t\<lparr>ps_syn_count := ps_syn_count t + 1\<rparr>) port;
         t2 = (if fl AND 0x10 = 0 then t1\<lparr>ps_is_syn_scan := True\<rparr> else t1) in
     (t2, new_port \<and> 10 \<le> length (ps_ports t2) \<and> \<not> ps_alerted t2))"

text \<open>The tracker after a packet with flags \<open>fl\<close>, and the steps that follow.\<close>

definition scan_packet :: "int \<Rightarrow> u8 \<Rightarrow> u16 \<Rightarrow> port_scan_tracker \<Rightarrow> port_scan_tracker \<times> bool" where
  "scan_packet now fl port t =
    (if fl AND 0x02 \<noteq> 0 then scan_syn fl port (scan_window now t) else (scan_window now t, False))"

definition report_scan :: "rte_env \<Rightarrow> timeval \<Rightarrow> 'p flow \<Rightarrow> port_scan_tracker \<Rightarrow> behavioral_detector \<Rightarrow> nat \<Rightarrow> behavioral_detector \<times> nat" where
  "report_scan env tv flow t d n =
    (let (d1, n1) = raise_alert env tv 9000 ''Port Scan Detected'' ALERT_SEVERITY_HIGH ALERT_CATEGORY_SCAN flow
           (scan_detail (tv_sec tv) t) d n in
     (d1\<lparr>scans_detected := scans_detected d1 + 1\<rparr>, n1))"

definition scan_finish :: "u8 \<Rightarrow> bool \<Rightarrow> port_scan_tracker \<Rightarrow> port_scan_tracker" where
  "scan_finish fl alerting t =
    (let t1 = (if alerting then t\<lparr>ps_alerted := True\<rparr> else t) in
     if fl AND 0x12 = 0x12 then t1\<lparr>ps_syn_ack_count := ps_syn_ack_count t1 + 1\<rparr> else t1)"

definition detect_port_scan ::
  "(bytes \<Rightarrow> u32) \<Rightarrow> rte_env \<Rightarrow> timeval \<Rightarrow> 'p flow \<Rightarrow> u8 option \<Rightarrow> behavioral_detector \<Rightarrow> nat \<Rightarrow> behavioral_detector \<times> nat" where
  "detect_port_scan jh env tv flow tcp_flags d n = (case tcp_flags of None \<Rightarrow> (d, n) | Some fl \<Rightarrow>
     if f_proto flow \<noteq> 6 then (d, n)
     else
      (case get_port_scan_tracker jh env (tv_sec tv) (get_ipv4_addr (f_src_addr flow)) True d n of
         (None, d1, n1) \<Rightarrow> (d1, n1)
       | (Some t, d1, n1) \<Rightarrow>
          (let (t2, alerting) = scan_packet (tv_sec tv) fl (f_dst_port flow) t;
               (d2, n2) = (if alerting then report_scan env tv flow t2 d1 n1 else (d1, n1)) in
           (d2\<lparr>scan_trackers := tt_store ps_src_ip (hash_src_ip jh) (scan_finish fl alerting t2) (scan_trackers d2)\<rparr>, n2))))"

section \<open>Brute force\<close>

definition brute_fresh :: "int \<Rightarrow> u32 \<Rightarrow> u16 \<Rightarrow> brute_force_tracker" where
  "brute_fresh now ip port = \<lparr>bf_target_ip = ip, bf_target_port = port, bf_failed_attempts = 0, bf_window_start = now,
     bf_last_attempt = now, bf_alerted = False, bf_http_401_count = 0, bf_http_403_count = 0\<rparr>"

definition bf_key :: "brute_force_tracker \<Rightarrow> u32 \<times> u16" where
  "bf_key t = (bf_target_ip t, bf_target_port t)"

definition get_brute_force_tracker ::
  "(bytes \<Rightarrow> u32) \<Rightarrow> rte_env \<Rightarrow> int \<Rightarrow> u32 \<Rightarrow> u16 \<Rightarrow> bool \<Rightarrow> behavioral_detector \<Rightarrow> nat \<Rightarrow>
   brute_force_tracker option \<times> behavioral_detector \<times> nat" where
  "get_brute_force_tracker jh env now ip port create d n =
    (let (t, tbl, n1) = tt_get bf_key (hash_target jh) env (brute_fresh now ip port) create (brute_trackers d) n in
     (t, d\<lparr>brute_trackers := tbl\<rparr>, n1))"

definition brute_window :: "int \<Rightarrow> brute_force_tracker \<Rightarrow> brute_force_tracker" where
  "brute_window now t =
    (if is_within_window now (bf_window_start t) 600 then t
     else t\<lparr>bf_window_start := now, bf_failed_attempts := 0, bf_http_401_count := 0, bf_http_403_count := 0,
            bf_alerted := False\<rparr>)"

definition brute_count :: "int \<Rightarrow> u16 \<Rightarrow> brute_force_tracker \<Rightarrow> brute_force_tracker" where
  "brute_count now status t =
    (let t1 = t\<lparr>bf_last_attempt := now, bf_failed_attempts := bf_failed_attempts t + 1\<rparr> in
     if status = 401 then t1\<lparr>bf_http_401_count := bf_http_401_count t1 + 1\<rparr>
     else if status = 403 then t1\<lparr>bf_http_403_count := bf_http_403_count t1 + 1\<rparr> else t1)"

definition brute_detail :: "int \<Rightarrow> brute_force_tracker \<Rightarrow> bytes" where
  "brute_detail now t = take 255 (str ''HTTP brute force attack against '' @ ip_to_str (bf_target_ip t) @ str '':'' @
     dec_digits (unat (bf_target_port t)) @ str '' - '' @ dec_digits (unat (bf_failed_attempts t)) @
     str '' failed attempts (401: '' @ dec_digits (unat (bf_http_401_count t)) @ str '', 403: '' @
     dec_digits (unat (bf_http_403_count t)) @ str '') in '' @ dec_int (now - bf_window_start t) @ str '' seconds'')"

definition report_brute :: "rte_env \<Rightarrow> timeval \<Rightarrow> 'p flow \<Rightarrow> brute_force_tracker \<Rightarrow> behavioral_detector \<Rightarrow> nat \<Rightarrow> behavioral_detector \<times> nat" where
  "report_brute env tv flow t d n =
    (let (d1, n1) = raise_alert env tv 9001 ''HTTP Brute Force Attack'' ALERT_SEVERITY_HIGH ALERT_CATEGORY_BRUTE_FORCE flow
           (brute_detail (tv_sec tv) t) d n in
     (d1\<lparr>brute_forces_detected := brute_forces_detected d1 + 1\<rparr>, n1))"

definition detect_brute_force_http ::
  "(bytes \<Rightarrow> u32) \<Rightarrow> rte_env \<Rightarrow> timeval \<Rightarrow> 'p flow \<Rightarrow> http_transaction \<Rightarrow> behavioral_detector \<times> nat \<Rightarrow> behavioral_detector \<times> nat" where
  "detect_brute_force_http jh env tv flow tx s = (let (d, n) = s in
     case ht_response tx of None \<Rightarrow> (d, n) | Some resp \<Rightarrow>
       if rs_status_code resp \<noteq> 401 \<and> rs_status_code resp \<noteq> 403 then (d, n)
       else
        (case get_brute_force_tracker jh env (tv_sec tv) (get_ipv4_addr (f_dst_addr flow)) (f_dst_port flow) True d n of
           (None, d1, n1) \<Rightarrow> (d1, n1)
         | (Some t, d1, n1) \<Rightarrow>
            (let t1 = brute_count (tv_sec tv) (rs_status_code resp) (brute_window (tv_sec tv) t);
                 alerting = (5 \<le> bf_failed_attempts t1 \<and> \<not> bf_alerted t1);
                 (d2, n2) = (if alerting then report_brute env tv flow t1 d1 n1 else (d1, n1));
                 t2 = t1\<lparr>bf_alerted := bf_alerted t1 \<or> alerting\<rparr> in
             (d2\<lparr>brute_trackers := tt_store bf_key (hash_target jh) t2 (brute_trackers d2)\<rparr>, n2))))"

text \<open>The two members of the union \<^verbatim>\<open>protoctx\<close>, and a parser pointer cast to a type.\<close>

definition ctx_tcp :: "'p flow \<Rightarrow> 'p tcp_session option option" where
  "ctx_tcp flow = (case f_tcp flow of Some s \<Rightarrow> Some (Some s)
     | None \<Rightarrow> (case f_udp flow of None \<Rightarrow> Some None | Some _ \<Rightarrow> None))"

definition ctx_udp :: "'p flow \<Rightarrow> 'p option option" where
  "ctx_udp flow = (case f_udp flow of Some p \<Rightarrow> Some (Some p)
     | None \<Rightarrow> (case f_tcp flow of None \<Rightarrow> Some None | Some _ \<Rightarrow> None))"

fun as_http :: "app_conn \<Rightarrow> http_conn option" where
  "as_http (HttpApp c) = Some c" | "as_http _ = None"

fun as_dns :: "app_conn \<Rightarrow> dns_conn option" where
  "as_dns (DnsApp c) = Some c" | "as_dns _ = None"

fun as_tls :: "app_conn \<Rightarrow> tls_conn option" where
  "as_tls (TlsApp c) = Some c" | "as_tls _ = None"

text \<open>The application parser of the TCP session, if both exist.\<close>

definition tcp_parser :: "app_flow \<Rightarrow> app_conn option option" where
  "tcp_parser flow = do { s \<leftarrow> ctx_tcp flow; Some (Option.bind s app_parser) }"

definition detect_brute_force ::
  "(bytes \<Rightarrow> u32) \<Rightarrow> rte_env \<Rightarrow> timeval \<Rightarrow> app_flow \<Rightarrow> behavioral_detector \<Rightarrow> nat \<Rightarrow> (behavioral_detector \<times> nat) option" where
  "detect_brute_force jh env tv flow d n =
    (if alproto flow \<noteq> APP_PROTO_HTTP then Some (d, n)
     else do {
       p \<leftarrow> tcp_parser flow;
       case p of None \<Rightarrow> Some (d, n)
       | Some q \<Rightarrow> do { c \<leftarrow> as_http q;
           Some (fold (detect_brute_force_http jh env tv flow) (hc_transactions c) (d, n)) } })"

section \<open>Data exfiltration\<close>

definition DATA_EXFIL_THRESHOLD :: u64 where "DATA_EXFIL_THRESHOLD = 104857600"

definition exfil_fresh :: "int \<Rightarrow> int \<Rightarrow> u32 \<Rightarrow> u32 \<Rightarrow> data_exfil_tracker" where
  "exfil_fresh now hour src dst = \<lparr>de_src_ip = src, de_dst_ip = dst, de_bytes = 0, de_packet_count = 0,
     de_window_start = now, de_last_transfer = now, de_alerted = False, de_off_hours = IS_OFF_HOURS hour\<rparr>"

definition de_key :: "data_exfil_tracker \<Rightarrow> u32 \<times> u32" where
  "de_key t = (de_src_ip t, de_dst_ip t)"

definition get_exfil_tracker ::
  "(bytes \<Rightarrow> u32) \<Rightarrow> rte_env \<Rightarrow> int \<Rightarrow> int \<Rightarrow> u32 \<Rightarrow> u32 \<Rightarrow> bool \<Rightarrow> behavioral_detector \<Rightarrow> nat \<Rightarrow>
   data_exfil_tracker option \<times> behavioral_detector \<times> nat" where
  "get_exfil_tracker jh env now hour src dst create d n =
    (let (t, tbl, n1) = tt_get de_key (hash_flow_pair jh) env (exfil_fresh now hour src dst) create (exfil_trackers d) n in
     (t, d\<lparr>exfil_trackers := tbl\<rparr>, n1))"

text \<open>The reset at the end of the window, and the accounting of a packet.\<close>

definition exfil_count :: "int \<Rightarrow> int \<Rightarrow> u32 \<Rightarrow> data_exfil_tracker \<Rightarrow> data_exfil_tracker" where
  "exfil_count now hour bytes t =
    (let t1 = (if is_within_window now (de_window_start t) 600 then t
               else t\<lparr>de_window_start := now, de_bytes := 0, de_packet_count := 0, de_off_hours := IS_OFF_HOURS hour,
                      de_alerted := False\<rparr>);
         t2 = t1\<lparr>de_last_transfer := now, de_bytes := de_bytes t1 + ucast bytes, de_packet_count := de_packet_count t1 + 1\<rparr> in
     if IS_OFF_HOURS hour then t2\<lparr>de_off_hours := True\<rparr> else t2)"

text \<open>The reason to alert; the second overwrites the first.\<close>

definition exfil_reason :: "data_exfil_tracker \<Rightarrow> bytes option" where
  "exfil_reason t =
    (let mb = dec_digits (unat (de_bytes t) div 1048576);
         r1 = (if DATA_EXFIL_THRESHOLD \<le> de_bytes t \<and> IS_EXTERNAL_IP (de_dst_ip t) \<and> \<not> de_alerted t
               then Some (take 127 (str ''large transfer to external IP ('' @ mb @ str '' MB)'')) else None) in
     if de_off_hours t \<and> DATA_EXFIL_THRESHOLD div 10 \<le> de_bytes t \<and> \<not> de_alerted t
     then Some (take 127 (str ''off-hours transfer ('' @ mb @ str '' MB during 22:00-06:00)'')) else r1)"

definition exfil_detail :: "int \<Rightarrow> bytes \<Rightarrow> data_exfil_tracker \<Rightarrow> bytes" where
  "exfil_detail now reason t = take 511 (str ''Potential data exfiltration: '' @ ip_to_str (de_src_ip t) @ str '' -> '' @
     ip_to_str (de_dst_ip t) @ str '', '' @ reason @ str '', '' @ dec_digits (unat (de_packet_count t)) @
     str '' packets in '' @ dec_int (now - de_window_start t) @ str '' seconds'')"

definition report_exfil ::
  "rte_env \<Rightarrow> timeval \<Rightarrow> 'p flow \<Rightarrow> bytes \<Rightarrow> data_exfil_tracker \<Rightarrow> behavioral_detector \<Rightarrow> nat \<Rightarrow> behavioral_detector \<times> nat" where
  "report_exfil env tv flow reason t d n =
    (let (d1, n1) = raise_alert env tv 9002 ''Potential Data Exfiltration'' ALERT_SEVERITY_CRITICAL ALERT_CATEGORY_EXFILTRATION
           flow (exfil_detail (tv_sec tv) reason t) d n in
     (d1\<lparr>exfiltrations_detected := exfiltrations_detected d1 + 1\<rparr>, n1))"

definition detect_data_exfiltration ::
  "(bytes \<Rightarrow> u32) \<Rightarrow> rte_env \<Rightarrow> timeval \<Rightarrow> int \<Rightarrow> 'p flow \<Rightarrow> u32 \<Rightarrow> behavioral_detector \<Rightarrow> nat \<Rightarrow> behavioral_detector \<times> nat" where
  "detect_data_exfiltration jh env tv hour flow bytes d n =
    (case get_exfil_tracker jh env (tv_sec tv) hour (get_ipv4_addr (f_src_addr flow)) (get_ipv4_addr (f_dst_addr flow)) True d n of
       (None, d1, n1) \<Rightarrow> (d1, n1)
     | (Some t, d1, n1) \<Rightarrow>
        (let t1 = exfil_count (tv_sec tv) hour bytes t;
             reason = exfil_reason t1;
             (d2, n2) = (case reason of None \<Rightarrow> (d1, n1) | Some r \<Rightarrow> report_exfil env tv flow r t1 d1 n1);
             t2 = t1\<lparr>de_alerted := de_alerted t1 \<or> reason \<noteq> None\<rparr> in
         (d2\<lparr>exfil_trackers := tt_store de_key (hash_flow_pair jh) t2 (exfil_trackers d2)\<rparr>, n2)))"

section \<open>Traffic anomalies\<close>

definition anomaly_fresh :: "int \<Rightarrow> u32 \<Rightarrow> traffic_anomaly_tracker" where
  "anomaly_fresh now src = \<lparr>ta_src_ip = src, ta_large_requests = 0, ta_high_freq_queries = 0, ta_cert_errors = 0,
     ta_weak_ciphers = 0, ta_window_start = now, ta_alerted = False\<rparr>"

definition get_anomaly_tracker ::
  "(bytes \<Rightarrow> u32) \<Rightarrow> rte_env \<Rightarrow> int \<Rightarrow> u32 \<Rightarrow> bool \<Rightarrow> behavioral_detector \<Rightarrow> nat \<Rightarrow>
   traffic_anomaly_tracker option \<times> behavioral_detector \<times> nat" where
  "get_anomaly_tracker jh env now src create d n =
    (let (t, tbl, n1) = tt_get ta_src_ip (hash_src_ip jh) env (anomaly_fresh now src) create (anomaly_trackers d) n in
     (t, d\<lparr>anomaly_trackers := tbl\<rparr>, n1))"

abbreviation store_anomaly :: "(bytes \<Rightarrow> u32) \<Rightarrow> traffic_anomaly_tracker \<Rightarrow> behavioral_detector \<Rightarrow> behavioral_detector" where
  "store_anomaly jh t d \<equiv> d\<lparr>anomaly_trackers := tt_store ta_src_ip (hash_src_ip jh) t (anomaly_trackers d)\<rparr>"

definition detect_http_anomalies ::
  "(bytes \<Rightarrow> u32) \<Rightarrow> rte_env \<Rightarrow> timeval \<Rightarrow> 'p flow \<Rightarrow> http_transaction \<Rightarrow> behavioral_detector \<times> nat \<Rightarrow> behavioral_detector \<times> nat" where
  "detect_http_anomalies jh env tv flow tx s = (let (d, n) = s in
     case get_anomaly_tracker jh env (tv_sec tv) (get_ipv4_addr (f_src_addr flow)) True d n of
       (None, d1, n1) \<Rightarrow> (d1, n1)
     | (Some t, d1, n1) \<Rightarrow> (store_anomaly jh (t\<lparr>ta_large_requests := ta_large_requests t + 1\<rparr>) d1, n1))"

definition anomaly_count :: "int \<Rightarrow> nat \<Rightarrow> traffic_anomaly_tracker \<Rightarrow> traffic_anomaly_tracker" where
  "anomaly_count now k t =
    (let t1 = (if is_within_window now (ta_window_start t) 300 then t
               else t\<lparr>ta_window_start := now, ta_high_freq_queries := 0, ta_alerted := False\<rparr>) in
     t1\<lparr>ta_high_freq_queries := ta_high_freq_queries t1 + of_nat k\<rparr>)"

definition dns_detail :: "int \<Rightarrow> traffic_anomaly_tracker \<Rightarrow> bytes" where
  "dns_detail now t = take 255 (str ''High-frequency DNS queries from '' @ ip_to_str (ta_src_ip t) @ str '': '' @
     dec_digits (unat (ta_high_freq_queries t)) @ str '' queries in '' @ dec_int (now - ta_window_start t) @ str '' seconds'')"

definition report_anomaly ::
  "rte_env \<Rightarrow> timeval \<Rightarrow> u32 \<Rightarrow> string \<Rightarrow> 'p flow \<Rightarrow> bytes \<Rightarrow> behavioral_detector \<Rightarrow> nat \<Rightarrow> behavioral_detector \<times> nat" where
  "report_anomaly env tv i name flow detail d n =
    (let (d1, n1) = raise_alert env tv i name ALERT_SEVERITY_MEDIUM ALERT_CATEGORY_ANOMALY flow detail d n in
     (d1\<lparr>anomalies_detected := anomalies_detected d1 + 1\<rparr>, n1))"

text \<open>The list of transactions of the parser is counted again with every packet.\<close>

definition detect_dns_anomalies ::
  "(bytes \<Rightarrow> u32) \<Rightarrow> rte_env \<Rightarrow> timeval \<Rightarrow> app_flow \<Rightarrow> behavioral_detector \<times> nat \<Rightarrow> (behavioral_detector \<times> nat) option" where
  "detect_dns_anomalies jh env tv flow s = (let (d, n) = s in
     if alproto flow \<noteq> APP_PROTO_DNS then Some (d, n)
     else do {
       p \<leftarrow> ctx_udp flow;
       case p of None \<Rightarrow> Some (d, n)
       | Some q \<Rightarrow> do {
           c \<leftarrow> as_dns q;
           Some (case get_anomaly_tracker jh env (tv_sec tv) (get_ipv4_addr (f_src_addr flow)) True d n of
               (None, d1, n1) \<Rightarrow> (d1, n1)
             | (Some t, d1, n1) \<Rightarrow>
                (let t1 = anomaly_count (tv_sec tv) (length (dns_transactions c)) t;
                     alerting = (100 < ta_high_freq_queries t1 \<and> \<not> ta_alerted t1);
                     (d2, n2) = (if alerting then report_anomaly env tv 9004 ''DNS High Frequency Anomaly'' flow
                                   (dns_detail (tv_sec tv) t1) d1 n1 else (d1, n1)) in
                 (store_anomaly jh (t1\<lparr>ta_alerted := ta_alerted t1 \<or> alerting\<rparr>) d2, n2))) } })"

definition tls_detail :: "u32 \<Rightarrow> tls_conn \<Rightarrow> bytes" where
  "tls_detail src c = take 255 (str ''TLS certificate anomaly from '' @ ip_to_str src @ str '': '' @
     (if tc_expired_cert c then str ''expired'' else []) @ (if tc_self_signed_cert c then str ''self-signed'' else []))"

definition anomaly_tls :: "tls_conn \<Rightarrow> traffic_anomaly_tracker \<Rightarrow> traffic_anomaly_tracker" where
  "anomaly_tls c t =
    (let t1 = (if tc_weak_cipher c then t\<lparr>ta_weak_ciphers := ta_weak_ciphers t + 1\<rparr> else t) in
     if tc_expired_cert c \<or> tc_self_signed_cert c then t1\<lparr>ta_cert_errors := ta_cert_errors t1 + 1\<rparr> else t1)"

definition detect_tls_anomalies ::
  "(bytes \<Rightarrow> u32) \<Rightarrow> rte_env \<Rightarrow> timeval \<Rightarrow> app_flow \<Rightarrow> behavioral_detector \<times> nat \<Rightarrow> (behavioral_detector \<times> nat) option" where
  "detect_tls_anomalies jh env tv flow s = (let (d, n) = s in
     if alproto flow \<noteq> APP_PROTO_TLS then Some (d, n)
     else do {
       p \<leftarrow> tcp_parser flow;
       case p of None \<Rightarrow> Some (d, n)
       | Some q \<Rightarrow> do {
           c \<leftarrow> as_tls q;
           Some (let src = get_ipv4_addr (f_src_addr flow) in
             case get_anomaly_tracker jh env (tv_sec tv) src True d n of
               (None, d1, n1) \<Rightarrow> (d1, n1)
             | (Some t, d1, n1) \<Rightarrow>
                (let t2 = anomaly_tls c t;
                     alerting = ((tc_expired_cert c \<or> tc_self_signed_cert c) \<and> \<not> ta_alerted t2);
                     (d2, n2) = (if alerting then report_anomaly env tv 9005 ''TLS Certificate Anomaly'' flow
                                   (tls_detail src c) d1 n1 else (d1, n1)) in
                 (store_anomaly jh (t2\<lparr>ta_alerted := ta_alerted t2 \<or> alerting\<rparr>) d2, n2))) } })"

definition detect_traffic_anomaly ::
  "(bytes \<Rightarrow> u32) \<Rightarrow> rte_env \<Rightarrow> timeval \<Rightarrow> app_flow \<Rightarrow> behavioral_detector \<times> nat \<Rightarrow> (behavioral_detector \<times> nat) option" where
  "detect_traffic_anomaly jh env tv flow s = do {
     s1 \<leftarrow> (if alproto flow \<noteq> APP_PROTO_HTTP then Some s
       else do {
         p \<leftarrow> tcp_parser flow;
         case p of None \<Rightarrow> Some s
         | Some q \<Rightarrow> do { c \<leftarrow> as_http q; Some (fold (detect_http_anomalies jh env tv flow) (hc_transactions c) s) } });
     s2 \<leftarrow> detect_dns_anomalies jh env tv flow s1;
     detect_tls_anomalies jh env tv flow s2 }"

section \<open>Inspection of a packet\<close>

definition age_trackers :: "int \<Rightarrow> behavioral_detector \<Rightarrow> behavioral_detector" where
  "age_trackers now d = age_anomaly_trackers now (age_exfil_trackers now (age_brute_force_trackers now (age_port_scan_trackers now d)))"

definition behavioral_detector_inspect_packet ::
  "(bytes \<Rightarrow> u32) \<Rightarrow> rte_env \<Rightarrow> timeval \<Rightarrow> int \<Rightarrow> app_flow \<Rightarrow> u32 \<Rightarrow> u8 option \<Rightarrow> behavioral_detector \<Rightarrow> nat \<Rightarrow>
   (behavioral_detector \<times> nat) option" where
  "behavioral_detector_inspect_packet jh env tv hour flow packet_len tcp_flags d n =
    (let d0 = d\<lparr>bd_packet_count := bd_packet_count d + 1\<rparr>;
         d1 = (if bd_packet_count d0 mod 10000 = 0 then age_trackers (tv_sec tv) d0 else d0);
         (d2, n2) = detect_port_scan jh env tv flow tcp_flags d1 n in
     do {
       (d3, n3) \<leftarrow> detect_brute_force jh env tv flow d2 n2;
       let s4 = (if 0 < packet_len then detect_data_exfiltration jh env tv hour flow packet_len d3 n3 else (d3, n3));
       detect_traffic_anomaly jh env tv flow s4 })"


section \<open>The contract of a table\<close>

text \<open>A table is a finite map: every tracker is in the chain of its key, and no key occurs twice.\<close>

locale tracker_table =
  fixes key :: "'t \<Rightarrow> 'k" and hash :: "'k \<Rightarrow> nat"
  assumes hash_lt: "hash k < 1024"
begin

definition tt_ok :: "'t table \<Rightarrow> bool" where
  "tt_ok tbl \<longleftrightarrow> length tbl = 1024 \<and>
     (\<forall>i < 1024. (\<forall>t \<in> set (tbl ! i). hash (key t) = i) \<and> distinct (map key (tbl ! i)))"

lemma tt_ok_chain: "tt_ok tbl \<Longrightarrow> t \<in> set (tbl ! hash k) \<Longrightarrow> hash (key t) = hash k" "tt_ok tbl \<Longrightarrow> distinct (map key (tbl ! hash k))"
  using hash_lt [of k] by (simp_all add: tt_ok_def)

lemma tt_ok_update:
  "tt_ok tbl \<Longrightarrow> \<forall>t \<in> set xs. hash (key t) = hash k \<Longrightarrow> distinct (map key xs) \<Longrightarrow> tt_ok (tbl[hash k := xs])"
  unfolding tt_ok_def using hash_lt [of k] by (simp add: nth_list_update)

lemma nth_update: "tt_ok tbl \<Longrightarrow> tbl[hash j := xs] ! hash k = (if hash j = hash k then xs else tbl ! hash k)"
  using hash_lt [of j] by (simp add: tt_ok_def nth_list_update)

lemma tt_ok_empty: "tt_ok (replicate 1024 [])"
  by (simp add: tt_ok_def)

lemma find_key: "tt_find key hash k tbl = Some t \<Longrightarrow> key t = k"
  by (auto simp: tt_find_def find_Some_iff)

lemma upd_first_keys: "map key (upd_first (\<lambda>x. key x = key t) t xs) = map key xs"
  by (induction xs) simp_all

lemma upd_first_set: "set (upd_first P t xs) \<subseteq> insert t (set xs)"
  by (induction xs) auto

lemma upd_first_find:
  "List.find (\<lambda>x. key x = k) (upd_first (\<lambda>x. key x = key t) t xs) =
    (if k = key t \<and> List.find (\<lambda>x. key x = k) xs \<noteq> None then Some t else List.find (\<lambda>x. key x = k) xs)"
  by (induction xs) auto

lemma store_ok: "tt_ok tbl \<Longrightarrow> tt_ok (tt_store key hash t tbl)"
  unfolding tt_store_def
  using upd_first_set [of "\<lambda>x. key x = key t" t "tbl ! hash (key t)"] tt_ok_chain(1) [of tbl _ "key t"] tt_ok_chain(2) [of tbl "key t"]
  by (intro tt_ok_update) (auto simp: upd_first_keys)

lemma store_find:
  assumes "tt_ok tbl" "tt_find key hash (key t) tbl \<noteq> None"
  shows "tt_find key hash k (tt_store key hash t tbl) = (if k = key t then Some t else tt_find key hash k tbl)"
proof (cases "hash (key t) = hash k")
  case True
  then have "tt_store key hash t tbl ! hash k = upd_first (\<lambda>x. key x = key t) t (tbl ! hash k)"
    unfolding tt_store_def nth_update [OF assms(1)] by (simp only: refl if_True)
  then have "tt_find key hash k (tt_store key hash t tbl) =
      (if k = key t \<and> tt_find key hash k tbl \<noteq> None then Some t else tt_find key hash k tbl)"
    unfolding tt_find_def by (simp only: upd_first_find)
  then show ?thesis
    using assms(2) by auto
next
  case False
  then have "tt_store key hash t tbl ! hash k = tbl ! hash k"
    unfolding tt_store_def nth_update [OF assms(1)] by (simp only: if_False)
  then show ?thesis
    using False unfolding tt_find_def by auto
qed

lemma find_None_key: "tt_find key hash k tbl = None \<Longrightarrow> k \<notin> key ` set (tbl ! hash k)"
  by (auto simp: tt_find_def find_None_iff)

lemma get_ok:
  assumes "tt_ok tbl" "tt_get key hash env fresh c tbl n = (r, tbl', n')"
  shows "tt_ok tbl'"
proof -
  have "tt_ok (tbl[hash (key fresh) := fresh # tbl ! hash (key fresh)])" if "tt_find key hash (key fresh) tbl = None"
    using find_None_key [OF that] tt_ok_chain(1) [OF assms(1), of _ "key fresh"] tt_ok_chain(2) [OF assms(1), of "key fresh"] by (intro tt_ok_update [OF assms(1)]) auto
  then show ?thesis
    using assms by (auto simp: tt_get_def split: option.splits if_splits)
qed

lemma get_key: "tt_get key hash env fresh c tbl n = (Some t, tbl', n') \<Longrightarrow> key t = key fresh"
  using find_key [of "key fresh" tbl] by (auto simp: tt_get_def split: option.splits if_splits)

lemma get_find:
  assumes "tt_ok tbl" "tt_get key hash env fresh c tbl n = (r, tbl', n')"
  shows "tt_find key hash k tbl' = (if k = key fresh then r else tt_find key hash k tbl)"
proof (cases "tt_find key hash (key fresh) tbl")
  case None
  have "tt_find key hash k (tbl[hash (key fresh) := fresh # tbl ! hash (key fresh)]) =
      (if k = key fresh then Some fresh else tt_find key hash k tbl)"
    using assms(1) by (simp add: tt_find_def nth_update)
  then show ?thesis
    using assms(2) None by (auto simp: tt_get_def split: if_splits)
qed (use assms in \<open>auto simp: tt_get_def\<close>)

lemma get_Some: "malloc_ok env n \<Longrightarrow> \<exists>t tbl' n'. tt_get key hash env fresh True tbl n = (Some t, tbl', n') \<and>
    t = (case tt_find key hash (key fresh) tbl of Some u \<Rightarrow> u | None \<Rightarrow> fresh)"
  by (auto simp: tt_get_def split: option.splits)

lemma age_ok: "tt_ok tbl \<Longrightarrow> tt_ok (tt_age old tbl)"
  by (simp add: tt_ok_def tt_age_def distinct_map_filter)

lemma find_distinct:
  "distinct (map key xs) \<Longrightarrow> List.find (\<lambda>x. key x = k) xs = Some t \<longleftrightarrow> t \<in> set xs \<and> key t = k"
  by (induction xs) (auto simp: image_iff)

lemma age_find:
  assumes "tt_ok tbl"
  shows "tt_find key hash k (tt_age old tbl) =
    (case tt_find key hash k tbl of None \<Rightarrow> None | Some t \<Rightarrow> if old t then None else Some t)"
proof -
  let ?xs = "tbl ! hash k"
  have d: "distinct (map key ?xs)" "distinct (map key (filter (\<lambda>t. \<not> old t) ?xs))"
    using tt_ok_chain(2) [OF assms] by (simp_all add: distinct_map_filter)
  have "tt_age old tbl ! hash k = filter (\<lambda>t. \<not> old t) ?xs"
    using assms hash_lt [of k] by (simp add: tt_age_def tt_ok_def)
  then have e: "tt_find key hash k (tt_age old tbl) = Some t \<longleftrightarrow> tt_find key hash k tbl = Some t \<and> \<not> old t" for t
    using find_distinct [OF d(1)] find_distinct [OF d(2)] by (simp add: tt_find_def) blast
  show ?thesis
  proof (cases "tt_find key hash k (tt_age old tbl)")
    case (Some t)
    then show ?thesis
      using e [of t] by simp
  next
    case None
    then show ?thesis
      using e by (cases "tt_find key hash k tbl") auto
  qed
qed

end

lemma hash_bounds: "hash_src_ip jh k < 1024" "hash_target jh k2 < 1024" "hash_flow_pair jh k3 < 1024"
  by (simp_all add: hash_src_ip_def hash_target_def hash_flow_pair_def TRACKER_HASH_SIZE_def)

interpretation scan: tracker_table ps_src_ip "hash_src_ip jh" for jh
  by unfold_locales (rule hash_bounds)

interpretation brute: tracker_table bf_key "hash_target jh" for jh
  by unfold_locales (rule hash_bounds)

interpretation exfil: tracker_table de_key "hash_flow_pair jh" for jh
  by unfold_locales (rule hash_bounds)

interpretation anomaly: tracker_table ta_src_ip "hash_src_ip jh" for jh
  by unfold_locales (rule hash_bounds)

section \<open>The invariant of the detector\<close>

definition scan_ok :: "port_scan_tracker \<Rightarrow> bool" where
  "scan_ok t \<longleftrightarrow> distinct (ps_ports t) \<and> length (ps_ports t) \<le> 1024"

definition detector_inv :: "(bytes \<Rightarrow> u32) \<Rightarrow> behavioral_detector \<Rightarrow> bool" where
  "detector_inv jh d \<longleftrightarrow> scan.tt_ok jh (scan_trackers d) \<and> brute.tt_ok jh (brute_trackers d) \<and>
     exfil.tt_ok jh (exfil_trackers d) \<and> anomaly.tt_ok jh (anomaly_trackers d) \<and> engine_inv (bd_rule_engine d) \<and>
     (\<forall>c \<in> set (scan_trackers d). list_all scan_ok c)"

lemma raise_alert_keeps:
  assumes "raise_alert env tv i name sev cat flow detail d n = (d', n')"
  shows "scan_trackers d' = scan_trackers d" "brute_trackers d' = brute_trackers d"
    "exfil_trackers d' = exfil_trackers d" "anomaly_trackers d' = anomaly_trackers d"
    "scans_detected d' = scans_detected d" "brute_forces_detected d' = brute_forces_detected d"
    "exfiltrations_detected d' = exfiltrations_detected d" "anomalies_detected d' = anomalies_detected d"
    "engine_inv (bd_rule_engine d) \<Longrightarrow> engine_inv (bd_rule_engine d')"
proof -
  obtain e n1 where "rule_engine_create_custom_alert env tv (detection_rule_zero\<lparr>dr_rule_id := i, dr_enabled := True, dr_severity := sev,
      dr_category := cat, dr_name := (if malloc_ok env n then Some (str name) else None)\<rparr>) flow (Some detail) (bd_rule_engine d) (n + 1) = (e, n1)"
    by force
  moreover from this have "engine_inv (bd_rule_engine d) \<Longrightarrow> engine_inv e"
    unfolding rule_engine_create_custom_alert_def using create_alert_inv by (metis fst_conv)
  ultimately show "scan_trackers d' = scan_trackers d" "brute_trackers d' = brute_trackers d"
    "exfil_trackers d' = exfil_trackers d" "anomaly_trackers d' = anomaly_trackers d"
    "scans_detected d' = scans_detected d" "brute_forces_detected d' = brute_forces_detected d"
    "exfiltrations_detected d' = exfiltrations_detected d" "anomalies_detected d' = anomalies_detected d"
    "engine_inv (bd_rule_engine d) \<Longrightarrow> engine_inv (bd_rule_engine d')"
    using assms by (auto simp: raise_alert_def Let_def)
qed

lemma raise_alert_inv: "raise_alert env tv i name sev cat flow detail d n = (d', n') \<Longrightarrow> detector_inv jh d \<Longrightarrow> detector_inv jh d'"
  using raise_alert_keeps [of env tv i name sev cat flow detail d n d' n'] by (simp add: detector_inv_def)

lemma upd_first_all: "list_all Q xs \<Longrightarrow> Q t \<Longrightarrow> list_all Q (upd_first P t xs)"
  by (induction xs) auto

lemma set_update_all: "\<forall>c \<in> set tbl. Q c \<Longrightarrow> Q x \<Longrightarrow> \<forall>c \<in> set (tbl[i := x]). Q c"
  by (metis insert_iff set_update_subset_insert subsetD)

text \<open>Updates of the four tables.\<close>

lemma store_scan_inv:
  assumes "detector_inv jh d" "scan_ok t"
  shows "detector_inv jh (d\<lparr>scan_trackers := tt_store ps_src_ip (hash_src_ip jh) t (scan_trackers d)\<rparr>)"
proof -
  let ?h = "hash_src_ip jh (ps_src_ip t)"
  have "scan_trackers d ! ?h \<in> set (scan_trackers d)"
    using assms(1) hash_bounds(1) [of jh "ps_src_ip t"] by (simp add: detector_inv_def scan.tt_ok_def)
  then have "list_all scan_ok (upd_first (\<lambda>x. ps_src_ip x = ps_src_ip t) t (scan_trackers d ! ?h))"
    using assms by (intro upd_first_all) (simp_all add: detector_inv_def)
  then have "\<forall>c \<in> set (tt_store ps_src_ip (hash_src_ip jh) t (scan_trackers d)). list_all scan_ok c"
    unfolding tt_store_def using assms(1) by (intro set_update_all) (simp_all add: detector_inv_def)
  then show ?thesis
    using assms(1) by (simp add: detector_inv_def scan.store_ok)
qed

lemma store_brute_inv:
  "detector_inv jh d \<Longrightarrow> detector_inv jh (d\<lparr>brute_trackers := tt_store bf_key (hash_target jh) t (brute_trackers d)\<rparr>)"
  by (simp add: detector_inv_def brute.store_ok)

lemma store_exfil_inv:
  "detector_inv jh d \<Longrightarrow> detector_inv jh (d\<lparr>exfil_trackers := tt_store de_key (hash_flow_pair jh) t (exfil_trackers d)\<rparr>)"
  by (simp add: detector_inv_def exfil.store_ok)

lemma store_anomaly_inv: "detector_inv jh d \<Longrightarrow> detector_inv jh (store_anomaly jh t d)"
  by (simp add: detector_inv_def anomaly.store_ok)

lemma counters_inv [simp]:
  "detector_inv jh (d\<lparr>scans_detected := a\<rparr>) = detector_inv jh d" "detector_inv jh (d\<lparr>brute_forces_detected := a\<rparr>) = detector_inv jh d"
  "detector_inv jh (d\<lparr>exfiltrations_detected := a\<rparr>) = detector_inv jh d" "detector_inv jh (d\<lparr>anomalies_detected := a\<rparr>) = detector_inv jh d"
  "detector_inv jh (d\<lparr>bd_packet_count := a\<rparr>) = detector_inv jh d"
  by (simp_all add: detector_inv_def)

lemma get_brute_inv:
  assumes "detector_inv jh d" "get_brute_force_tracker jh env now ip port c d n = (r, d1, n1)"
  shows "detector_inv jh d1"
proof -
  obtain tbl where "tt_get bf_key (hash_target jh) env (brute_fresh now ip port) c (brute_trackers d) n = (r, tbl, n1)" "d1 = d\<lparr>brute_trackers := tbl\<rparr>"
    using assms(2) by (auto simp: get_brute_force_tracker_def split: prod.splits)
  then show ?thesis
    using assms(1) brute.get_ok by (fastforce simp: detector_inv_def)
qed

lemma get_exfil_inv:
  assumes "detector_inv jh d" "get_exfil_tracker jh env now hour src dst c d n = (r, d1, n1)"
  shows "detector_inv jh d1"
proof -
  obtain tbl where "tt_get de_key (hash_flow_pair jh) env (exfil_fresh now hour src dst) c (exfil_trackers d) n = (r, tbl, n1)" "d1 = d\<lparr>exfil_trackers := tbl\<rparr>"
    using assms(2) by (auto simp: get_exfil_tracker_def split: prod.splits)
  then show ?thesis
    using assms(1) exfil.get_ok by (fastforce simp: detector_inv_def)
qed

lemma get_anomaly_inv:
  assumes "detector_inv jh d" "get_anomaly_tracker jh env now src c d n = (r, d1, n1)"
  shows "detector_inv jh d1"
proof -
  obtain tbl where "tt_get ta_src_ip (hash_src_ip jh) env (anomaly_fresh now src) c (anomaly_trackers d) n = (r, tbl, n1)" "d1 = d\<lparr>anomaly_trackers := tbl\<rparr>"
    using assms(2) by (auto simp: get_anomaly_tracker_def split: prod.splits)
  then show ?thesis
    using assms(1) anomaly.get_ok by (fastforce simp: detector_inv_def)
qed

lemma report_inv:
  "report_scan env tv flow t d n = (d', n') \<Longrightarrow> detector_inv jh d \<Longrightarrow> detector_inv jh d'"
  "report_brute env tv flow t2 d n = (d', n') \<Longrightarrow> detector_inv jh d \<Longrightarrow> detector_inv jh d'"
  "report_exfil env tv flow r t3 d n = (d', n') \<Longrightarrow> detector_inv jh d \<Longrightarrow> detector_inv jh d'"
  "report_anomaly env tv i name flow det d n = (d', n') \<Longrightarrow> detector_inv jh d \<Longrightarrow> detector_inv jh d'"
  by (auto simp: report_scan_def report_brute_def report_exfil_def report_anomaly_def dest: raise_alert_inv split: prod.splits)

lemma chain_in: "scan.tt_ok jh tbl \<Longrightarrow> tbl ! hash_src_ip jh k \<in> set tbl"
  using hash_bounds(1) [of jh k] by (simp add: scan.tt_ok_def)

lemma get_scan_inv:
  assumes "detector_inv jh d" "get_port_scan_tracker jh env now ip c d n = (r, d1, n1)"
  shows "detector_inv jh d1" "r = Some t \<Longrightarrow> scan_ok t"
proof -
  let ?h = "hash_src_ip jh ip"
  obtain tbl where g: "tt_get ps_src_ip (hash_src_ip jh) env (scan_fresh now ip) c (scan_trackers d) n = (r, tbl, n1)" "d1 = d\<lparr>scan_trackers := tbl\<rparr>"
    using assms(2) by (auto simp: get_port_scan_tracker_def split: prod.splits)
  have ok: "scan.tt_ok jh (scan_trackers d)" and all: "\<forall>c \<in> set (scan_trackers d). list_all scan_ok c"
    using assms(1) by (simp_all add: detector_inv_def)
  have fr: "scan_ok (scan_fresh now ip)"
    by (simp add: scan_ok_def scan_fresh_def)
  have ch: "list_all scan_ok (scan_trackers d ! ?h)"
    using all chain_in [OF ok] by blast
  have f: "scan_ok u" if "tt_find ps_src_ip (hash_src_ip jh) ip (scan_trackers d) = Some u" for u
    using that ch by (auto simp: tt_find_def find_Some_iff list_all_iff)
  have "\<forall>c \<in> set ((scan_trackers d)[?h := scan_fresh now ip # scan_trackers d ! ?h]). list_all scan_ok c"
    using all ch fr by (intro set_update_all) simp_all
  then have "\<forall>c \<in> set tbl. list_all scan_ok c"
    using g(1) all by (auto simp: tt_get_def scan_fresh_def split: option.splits if_splits)
  moreover have "scan.tt_ok jh tbl"
    using scan.get_ok [OF ok g(1)] .
  ultimately show "detector_inv jh d1"
    using assms(1) g(2) by (simp add: detector_inv_def)
  show "r = Some t \<Longrightarrow> scan_ok t"
    using g(1) f fr by (auto simp: tt_get_def scan_fresh_def split: option.splits if_splits)
qed

lemma scan_window_ok: "scan_ok t \<Longrightarrow> scan_ok (scan_window now t)"
  by (simp add: scan_ok_def scan_window_def)

lemma scan_syn_ok: "scan_ok t \<Longrightarrow> scan_ok (fst (scan_syn fl port t))"
  by (auto simp: scan_ok_def scan_syn_def add_port_to_tracker_def MAX_TRACKED_PORTS_def Let_def)

lemma scan_packet_ok: "scan_ok t \<Longrightarrow> scan_ok (fst (scan_packet now fl port t))"
  by (simp add: scan_packet_def scan_syn_ok scan_window_ok)

lemma detect_port_scan_inv:
  assumes "detector_inv jh d"
  shows "detector_inv jh (fst (detect_port_scan jh env tv flow tcp_flags d n))"
proof (cases "tcp_flags = None \<or> f_proto flow \<noteq> 6")
  case False
  then obtain fl where fl: "tcp_flags = Some fl" "f_proto flow = 6"
    by auto
  let ?now = "tv_sec tv"
  obtain r d1 n1 where g: "get_port_scan_tracker jh env ?now (get_ipv4_addr (f_src_addr flow)) True d n = (r, d1, n1)"
    by (metis surj_pair)
  note gi = get_scan_inv [OF assms g]
  show ?thesis
  proof (cases r)
    case None
    then show ?thesis
      using fl g gi(1) by (simp add: detect_port_scan_def)
  next
    case (Some t)
    obtain t2 alerting where s: "scan_packet (tv_sec tv) fl (f_dst_port flow) t = (t2, alerting)"
      by force
    have "scan_ok t2"
      using s scan_packet_ok [OF gi(2) [OF Some], of ?now fl "f_dst_port flow"] by simp
    then have t2: "scan_ok (scan_finish fl alerting t2)"
      by (simp add: scan_finish_def scan_ok_def Let_def)
    obtain d2 n2 where a: "(if alerting then report_scan env tv flow t2 d1 n1 else (d1, n1)) = (d2, n2)"
      by force
    have "detector_inv jh d2"
      using a gi(1) by (auto split: if_splits dest: report_inv)
    then show ?thesis
      using store_scan_inv [OF _ t2] fl g Some s a by (simp add: detect_port_scan_def)
  qed
qed (use assms in \<open>auto simp: detect_port_scan_def split: option.splits\<close>)

lemma detect_brute_force_http_inv:
  assumes "detector_inv jh (fst s)"
  shows "detector_inv jh (fst (detect_brute_force_http jh env tv flow tx s))"
proof -
  obtain d n where s: "s = (d, n)"
    by force
  obtain r d1 n1 where g: "get_brute_force_tracker jh env (tv_sec tv) (get_ipv4_addr (f_dst_addr flow)) (f_dst_port flow) True d n = (r, d1, n1)"
    by (metis surj_pair)
  have "detector_inv jh d1"
    using get_brute_inv [OF _ g] assms s by simp
  then show ?thesis
    using assms s g
    by (auto simp: detect_brute_force_http_def Let_def split: prod.split option.split intro: store_brute_inv report_inv)
qed

lemma detect_data_exfiltration_inv:
  assumes "detector_inv jh d"
  shows "detector_inv jh (fst (detect_data_exfiltration jh env tv hour flow bytes d n))"
proof -
  obtain r d1 n1 where g: "get_exfil_tracker jh env (tv_sec tv) hour (get_ipv4_addr (f_src_addr flow)) (get_ipv4_addr (f_dst_addr flow)) True d n = (r, d1, n1)"
    by (metis surj_pair)
  have "detector_inv jh d1"
    using get_exfil_inv [OF assms g] .
  then show ?thesis
    using g by (auto simp: detect_data_exfiltration_def Let_def split: prod.split option.split intro: store_exfil_inv report_inv)
qed

lemma detect_http_anomalies_inv:
  assumes "detector_inv jh (fst s)"
  shows "detector_inv jh (fst (detect_http_anomalies jh env tv flow tx s))"
proof -
  obtain d n where s: "s = (d, n)"
    by force
  obtain r d1 n1 where g: "get_anomaly_tracker jh env (tv_sec tv) (get_ipv4_addr (f_src_addr flow)) True d n = (r, d1, n1)"
    by (metis surj_pair)
  have "detector_inv jh d1"
    using get_anomaly_inv [OF _ g] assms s by simp
  then show ?thesis
    using s g by (auto simp: detect_http_anomalies_def split: option.split intro: store_anomaly_inv)
qed

text \<open>The parser behind a flow has the type that its protocol stands for.\<close>

definition flow_typed :: "app_flow \<Rightarrow> bool" where
  "flow_typed flow =
    (if alproto flow = APP_PROTO_HTTP then
       (case tcp_parser flow of None \<Rightarrow> False | Some None \<Rightarrow> True | Some (Some q) \<Rightarrow> as_http q \<noteq> None)
     else if alproto flow = APP_PROTO_DNS then
       (case ctx_udp flow of None \<Rightarrow> False | Some None \<Rightarrow> True | Some (Some q) \<Rightarrow> as_dns q \<noteq> None)
     else if alproto flow = APP_PROTO_TLS then
       (case tcp_parser flow of None \<Rightarrow> False | Some None \<Rightarrow> True | Some (Some q) \<Rightarrow> as_tls q \<noteq> None)
     else True)"

lemma detect_dns_anomalies_inv:
  assumes "detector_inv jh (fst s)" "detect_dns_anomalies jh env tv flow s = Some s'"
  shows "detector_inv jh (fst s')"
proof -
  obtain d n where s: "s = (d, n)"
    by force
  obtain r d1 n1 where g: "get_anomaly_tracker jh env (tv_sec tv) (get_ipv4_addr (f_src_addr flow)) True d n = (r, d1, n1)"
    by (metis surj_pair)
  have d1: "detector_inv jh d1"
    using get_anomaly_inv [OF _ g] assms s by simp
  show ?thesis
  proof (cases "alproto flow = APP_PROTO_DNS")
    case True
    then obtain p where p: "ctx_udp flow = Some p"
      using assms(2) s by (auto simp: detect_dns_anomalies_def split: bind_split_asm)
    show ?thesis
      using True assms s g d1 p
      by (auto simp: detect_dns_anomalies_def Let_def split: option.splits prod.splits if_splits bind_split_asm intro!: store_anomaly_inv dest: report_inv)
  qed (use assms s in \<open>auto simp: detect_dns_anomalies_def\<close>)
qed

lemma detect_tls_anomalies_inv:
  assumes "detector_inv jh (fst s)" "detect_tls_anomalies jh env tv flow s = Some s'"
  shows "detector_inv jh (fst s')"
proof -
  obtain d n where s: "s = (d, n)"
    by force
  obtain r d1 n1 where g: "get_anomaly_tracker jh env (tv_sec tv) (get_ipv4_addr (f_src_addr flow)) True d n = (r, d1, n1)"
    by (metis surj_pair)
  have d1: "detector_inv jh d1"
    using get_anomaly_inv [OF _ g] assms s by simp
  show ?thesis
  proof (cases "alproto flow = APP_PROTO_TLS")
    case True
    then obtain p where p: "tcp_parser flow = Some p"
      using assms(2) s by (auto simp: detect_tls_anomalies_def split: bind_split_asm)
    show ?thesis
      using True assms s g d1 p
      by (auto simp: detect_tls_anomalies_def Let_def split: option.splits prod.splits if_splits bind_split_asm intro!: store_anomaly_inv dest: report_inv)
  qed (use assms s in \<open>auto simp: detect_tls_anomalies_def\<close>)
qed

lemma fold_brute_inv:
  "detector_inv jh (fst s) \<Longrightarrow> detector_inv jh (fst (fold (detect_brute_force_http jh env tv flow) xs s))"
  by (induction xs arbitrary: s) (simp_all add: detect_brute_force_http_inv)

lemma fold_http_anomalies_inv:
  "detector_inv jh (fst s) \<Longrightarrow> detector_inv jh (fst (fold (detect_http_anomalies jh env tv flow) xs s))"
  by (induction xs arbitrary: s) (simp_all add: detect_http_anomalies_inv)

lemma detect_brute_force_inv:
  "detect_brute_force jh env tv flow d n = Some s' \<Longrightarrow> detector_inv jh d \<Longrightarrow> detector_inv jh (fst s')"
  by (auto simp: detect_brute_force_def intro: fold_brute_inv split: option.splits if_splits bind_split_asm)

lemma detect_traffic_anomaly_inv:
  assumes "detector_inv jh (fst s)" "detect_traffic_anomaly jh env tv flow s = Some s'"
  shows "detector_inv jh (fst s')"
proof -
  obtain s1 s2 where s1: "(if alproto flow \<noteq> APP_PROTO_HTTP then Some s
       else do { p \<leftarrow> tcp_parser flow;
         case p of None \<Rightarrow> Some s
         | Some q \<Rightarrow> do { c \<leftarrow> as_http q; Some (fold (detect_http_anomalies jh env tv flow) (hc_transactions c) s) } }) = Some s1"
      and s2: "detect_dns_anomalies jh env tv flow s1 = Some s2" "detect_tls_anomalies jh env tv flow s2 = Some s'"
    using assms(2) unfolding detect_traffic_anomaly_def by (auto split: bind_split_asm)
  have "detector_inv jh (fst s1)"
    using s1 assms(1) by (auto intro: fold_http_anomalies_inv split: option.splits if_splits bind_split_asm)
  then show ?thesis
    using detect_dns_anomalies_inv [OF _ s2(1)] detect_tls_anomalies_inv [OF _ s2(2)] by blast
qed

lemma age_trackers_inv:
  assumes "detector_inv jh d"
  shows "detector_inv jh (age_trackers now d)"
proof -
  have "\<forall>c \<in> set (tt_age (\<lambda>t. now - ps_last_seen t > 300) (scan_trackers d)). list_all scan_ok c"
    using assms by (auto simp: detector_inv_def tt_age_def list_all_iff)
  then show ?thesis
    using assms by (simp add: detector_inv_def age_trackers_def age_port_scan_trackers_def age_brute_force_trackers_def
        age_exfil_trackers_def age_anomaly_trackers_def scan.age_ok brute.age_ok exfil.age_ok anomaly.age_ok)
qed

text \<open>The inspection is undefined exactly when the flow's parser has another type than its protocol.\<close>

lemma tcp_parser_cases: "tcp_parser flow = None \<longleftrightarrow> ctx_tcp flow = None"
  by (auto simp: tcp_parser_def split: bind_split)

lemma detect_brute_force_defined:
  "alproto flow = APP_PROTO_HTTP \<Longrightarrow> detect_brute_force jh env tv flow d n = None \<longleftrightarrow> \<not> flow_typed flow"
  by (auto simp: detect_brute_force_def flow_typed_def split: option.split bind_split)

lemma detect_traffic_anomaly_defined:
  "detect_traffic_anomaly jh env tv flow s = None \<longleftrightarrow> \<not> flow_typed flow"
  by (cases s) (auto simp: detect_traffic_anomaly_def detect_dns_anomalies_def detect_tls_anomalies_def flow_typed_def Let_def
      split: option.split bind_split)

lemma inspect_packet_inv:
  assumes "detector_inv jh d" "behavioral_detector_inspect_packet jh env tv hour flow len fl d n = Some s'"
  shows "detector_inv jh (fst s')"
proof -
  define d1 where "d1 = (let d0 = d\<lparr>bd_packet_count := bd_packet_count d + 1\<rparr> in
      if bd_packet_count d0 mod 10000 = 0 then age_trackers (tv_sec tv) d0 else d0)"
  obtain d2 n2 where s: "detect_port_scan jh env tv flow fl d1 n = (d2, n2)"
    by force
  have "detector_inv jh d1"
    using assms(1) age_trackers_inv by (simp add: d1_def Let_def)
  then have d2: "detector_inv jh d2"
    using detect_port_scan_inv [of jh d1 env tv flow fl n] s by simp
  obtain d3 n3 where b: "detect_brute_force jh env tv flow d2 n2 = Some (d3, n3)"
    using assms(2) s by (auto simp: behavioral_detector_inspect_packet_def d1_def Let_def split: bind_split_asm)
  define s4 where "s4 = (if 0 < len then detect_data_exfiltration jh env tv hour flow len d3 n3 else (d3, n3))"
  have "detector_inv jh (fst s4)"
    using detect_brute_force_inv [OF b d2] by (simp add: s4_def detect_data_exfiltration_inv)
  moreover have "detect_traffic_anomaly jh env tv flow s4 = Some s'"
    using assms(2) s b by (simp add: behavioral_detector_inspect_packet_def d1_def s4_def Let_def)
  ultimately show ?thesis
    by (rule detect_traffic_anomaly_inv)
qed

lemma inspect_packet_defined:
  "behavioral_detector_inspect_packet jh env tv hour flow len fl d n = None \<longleftrightarrow> \<not> flow_typed flow"
proof -
  have "detect_brute_force jh env tv flow d2 n2 = None \<Longrightarrow> \<not> flow_typed flow" for d2 n2
    using detect_brute_force_defined [of flow jh env tv d2 n2] by (cases "alproto flow = APP_PROTO_HTTP") (auto simp: detect_brute_force_def)
  then show ?thesis
    by (auto simp: behavioral_detector_inspect_packet_def Let_def detect_traffic_anomaly_defined split: prod.split bind_split)
qed

datatype bd_op = BdPacket timeval int app_flow u32 "u8 option"

fun bd_step :: "(bytes \<Rightarrow> u32) \<Rightarrow> rte_env \<Rightarrow> bd_op \<Rightarrow> behavioral_detector \<times> nat \<Rightarrow> (behavioral_detector \<times> nat) option" where
  "bd_step jh env (BdPacket tv hour flow len fl) (d, n) = behavioral_detector_inspect_packet jh env tv hour flow len fl d n"

fun bd_legal :: "bd_op \<Rightarrow> behavioral_detector \<times> nat \<Rightarrow> bool" where
  "bd_legal (BdPacket tv hour flow len fl) s = flow_typed flow"

interpretation bd: guarded_machine "bd_step jh env" bd_legal "\<lambda>s. detector_inv jh (fst s)" for jh env
proof unfold_locales
  fix s x
  assume "detector_inv jh (fst s)" "bd_legal x s"
  then show "\<exists>s'. bd_step jh env x s = Some s' \<and> detector_inv jh (fst s')"
    using inspect_packet_inv inspect_packet_defined by (cases x; cases s) (metis bd_legal.simps bd_step.simps fst_conv option.exhaust)
qed

section \<open>Port scans of one source\<close>

lemma report_keeps:
  "report_scan env tv flow t d n = (d', n') \<Longrightarrow> scan_trackers d' = scan_trackers d \<and> scans_detected d' = scans_detected d + 1"
  "report_brute env tv flow t2 d n = (d', n') \<Longrightarrow> brute_trackers d' = brute_trackers d \<and> brute_forces_detected d' = brute_forces_detected d + 1"
  by (auto simp: report_scan_def report_brute_def dest: raise_alert_keeps split: prod.splits)

text \<open>The tracker that a packet meets.\<close>

definition scan_tracker_of :: "(bytes \<Rightarrow> u32) \<Rightarrow> int \<Rightarrow> u32 \<Rightarrow> behavioral_detector \<Rightarrow> port_scan_tracker" where
  "scan_tracker_of jh now ip d = (case tt_find ps_src_ip (hash_src_ip jh) ip (scan_trackers d) of None \<Rightarrow> scan_fresh now ip | Some t \<Rightarrow> t)"

lemma scan_packet_ip: "ps_src_ip (scan_finish fl al (fst (scan_packet now fl port t))) = ps_src_ip t"
  by (simp add: scan_finish_def scan_packet_def scan_syn_def add_port_to_tracker_def scan_window_def Let_def)

lemma detect_port_scan_step:
  fixes tv :: timeval and fl :: u8
  assumes inv: "detector_inv jh d" and m: "malloc_ok env n" and f: "f_proto flow = 6" "get_ipv4_addr (f_src_addr flow) = ip"
  defines "r \<equiv> scan_packet (tv_sec tv) fl (f_dst_port flow) (scan_tracker_of jh (tv_sec tv) ip d)"
  shows "\<exists>d' n'. detect_port_scan jh env tv flow (Some fl) d n = (d', n') \<and> detector_inv jh d' \<and>
    tt_find ps_src_ip (hash_src_ip jh) ip (scan_trackers d') = Some (scan_finish fl (snd r) (fst r)) \<and>
    scans_detected d' = scans_detected d + (if snd r then 1 else 0)"
proof -
  let ?fresh = "scan_fresh (tv_sec tv) ip"
  have ok: "scan.tt_ok jh (scan_trackers d)"
    using inv by (simp add: detector_inv_def)
  have fk: "ps_src_ip ?fresh = ip"
    by (simp add: scan_fresh_def)
  obtain t tbl n1 where g: "tt_get ps_src_ip (hash_src_ip jh) env ?fresh True (scan_trackers d) n = (Some t, tbl, n1)"
      "t = scan_tracker_of jh (tv_sec tv) ip d"
    using scan.get_Some [OF m, of jh ?fresh "scan_trackers d"] fk by (auto simp: scan_tracker_of_def split: option.splits)
  let ?d1 = "d\<lparr>scan_trackers := tbl\<rparr>"
  have gt: "get_port_scan_tracker jh env (tv_sec tv) ip True d n = (Some t, ?d1, n1)"
    using g(1) by (simp add: get_port_scan_tracker_def)
  have tk: "ps_src_ip t = ip"
    using scan.get_key [OF g(1)] fk by simp
  have fnd: "tt_find ps_src_ip (hash_src_ip jh) ip tbl = Some t"
    using scan.get_find [OF ok g(1), of ip] fk by simp
  have tblok: "scan.tt_ok jh tbl"
    by (rule scan.get_ok [OF ok g(1)])
  obtain t2 al where r: "r = (t2, al)"
    by force
  have sp: "scan_packet (tv_sec tv) fl (f_dst_port flow) t = (t2, al)"
    using r g(2) by (simp add: r_def)
  obtain d2 n2 where a: "(if al then report_scan env tv flow t2 ?d1 n1 else (?d1, n1)) = (d2, n2)"
    by force
  have d2: "scan_trackers d2 = tbl" "scans_detected d2 = scans_detected d + (if al then 1 else 0)"
    using a report_keeps(1) [of env tv flow t2 ?d1 n1 d2 n2] by (auto split: if_splits)
  let ?t4 = "scan_finish fl al t2"
  let ?d' = "d2\<lparr>scan_trackers := tt_store ps_src_ip (hash_src_ip jh) ?t4 (scan_trackers d2)\<rparr>"
  have k4: "ps_src_ip ?t4 = ip"
    using scan_packet_ip [of fl al "tv_sec tv" "f_dst_port flow" t] sp tk by simp
  have res: "detect_port_scan jh env tv flow (Some fl) d n = (?d', n2)"
    using f gt sp a by (simp add: detect_port_scan_def)
  moreover have "tt_find ps_src_ip (hash_src_ip jh) ip (tt_store ps_src_ip (hash_src_ip jh) ?t4 tbl) = Some ?t4"
    using scan.store_find [OF tblok, of ?t4 ip] fnd k4 by simp
  moreover have "detector_inv jh ?d'"
    using detect_port_scan_inv [OF inv, of env tv flow "Some fl" n] res by simp
  ultimately show ?thesis
    using r d2 by auto
qed

text \<open>The trackers of a source whose probes started at \<open>t0\<close> and reached the ports in \<open>seen\<close>.\<close>

definition scan_track :: "int \<Rightarrow> u16 set \<Rightarrow> port_scan_tracker \<Rightarrow> bool" where
  "scan_track t0 tracked t \<longleftrightarrow> ps_first_seen t = t0 \<and> distinct (ps_ports t) \<and> set (ps_ports t) \<subseteq> tracked \<and>
     (length (ps_ports t) < 1024 \<longrightarrow> set (ps_ports t) = tracked) \<and> length (ps_ports t) \<le> 1024 \<and>
     (ps_alerted t \<longleftrightarrow> 10 \<le> length (ps_ports t))"

lemma scan_track_step:
  fixes port :: u16
  assumes "scan_track t0 tracked t" "now - t0 \<le> 60" "fl AND 0x02 \<noteq> 0"
  defines "r \<equiv> scan_packet now fl port t"
  shows "scan_track t0 (insert port tracked) (scan_finish fl (snd r) (fst r))"
    and "snd r \<longleftrightarrow> length (ps_ports t) < 10 \<and> 10 \<le> length (ps_ports (fst r))"
    and "length (ps_ports t) \<le> length (ps_ports (fst r))" and "ps_ports (scan_finish fl (snd r) (fst r)) = ps_ports (fst r)"
  using assms unfolding r_def
  by (auto simp: scan_track_def scan_packet_def scan_syn_def scan_window_def is_within_window_def add_port_to_tracker_def
      MAX_TRACKED_PORTS_def scan_finish_def Let_def split: if_splits)

lemma scan_track_card:
  assumes "scan_track t0 tracked t" "finite tracked"
  shows "10 \<le> length (ps_ports t) \<longleftrightarrow> 10 \<le> card tracked"
proof (cases "length (ps_ports t) < 1024")
  case True
  then have "length (ps_ports t) = card tracked"
    using assms(1) distinct_card by (fastforce simp: scan_track_def)
  then show ?thesis
    by simp
next
  case False
  then have "card (set (ps_ports t)) = 1024" "card (set (ps_ports t)) \<le> card tracked"
    using assms distinct_card [of "ps_ports t"] card_mono [OF assms(2), of "set (ps_ports t)"] by (auto simp: scan_track_def)
  then show ?thesis
    using False by simp
qed

type_synonym probe = "timeval \<times> app_flow \<times> u8"

fun scan_run :: "(bytes \<Rightarrow> u32) \<Rightarrow> rte_env \<Rightarrow> probe list \<Rightarrow> behavioral_detector \<times> nat \<Rightarrow> behavioral_detector \<times> nat" where
  "scan_run jh env [] s = s"
| "scan_run jh env ((tv, flow, fl) # ps) (d, n) = scan_run jh env ps (detect_port_scan jh env tv flow (Some fl) d n)"

definition probe_of :: "u32 \<Rightarrow> int \<Rightarrow> probe \<Rightarrow> bool" where
  "probe_of ip t0 p = (case p of (tv, flow, fl) \<Rightarrow>
     f_proto flow = 6 \<and> get_ipv4_addr (f_src_addr flow) = ip \<and> fl AND 0x02 \<noteq> 0 \<and> tv_sec tv - t0 \<le> 60)"

abbreviation probed_ports :: "probe list \<Rightarrow> u16 set" where
  "probed_ports ps \<equiv> (\<lambda>(tv, flow, fl). f_dst_port flow) ` set ps"

lemma scan_run_track:
  assumes "\<forall>k. malloc_ok env k" "list_all (probe_of ip t0) ps" "detector_inv jh d" "finite tracked"
    and "tt_find ps_src_ip (hash_src_ip jh) ip (scan_trackers d) = Some t" "scan_track t0 tracked t"
  shows "scans_detected (fst (scan_run jh env ps (d, n))) =
    scans_detected d + (if card tracked < 10 \<and> 10 \<le> card (tracked \<union> probed_ports ps) then 1 else 0)"
  using assms(2-)
proof (induction ps arbitrary: d n tracked t)
  case (Cons p ps)
  obtain tv flow fl where p: "p = (tv, flow, fl)"
    by (cases p)
  have po: "f_proto flow = 6" "get_ipv4_addr (f_src_addr flow) = ip" "fl AND 0x02 \<noteq> 0" "tv_sec tv - t0 \<le> 60"
    using Cons.prems(1) p by (simp_all add: probe_of_def)
  have m: "malloc_ok env n"
    using assms(1) by simp
  define r where "r = scan_packet (tv_sec tv) fl (f_dst_port flow) t"
  have "scan_tracker_of jh (tv_sec tv) ip d = t"
    using Cons.prems(4) by (simp add: scan_tracker_of_def)
  then obtain d' n' where s: "detect_port_scan jh env tv flow (Some fl) d n = (d', n')" "detector_inv jh d'"
      "tt_find ps_src_ip (hash_src_ip jh) ip (scan_trackers d') = Some (scan_finish fl (snd r) (fst r))"
      "scans_detected d' = scans_detected d + (if snd r then 1 else 0)"
    using detect_port_scan_step [OF Cons.prems(2) m po(1,2), of tv fl] by (auto simp: r_def)
  note st = scan_track_step [OF Cons.prems(5) po(4,3), of "f_dst_port flow", folded r_def]
  have fin: "finite (insert (f_dst_port flow) tracked)"
    using Cons.prems(3) by simp
  have al: "snd r \<longleftrightarrow> card tracked < 10 \<and> 10 \<le> card (insert (f_dst_port flow) tracked)"
    using scan_track_card [OF Cons.prems(5,3)] scan_track_card [OF st(1) fin] st(2,4) by auto
  have ih: "scans_detected (fst (scan_run jh env ps (d', n'))) = scans_detected d' +
      (if card (insert (f_dst_port flow) tracked) < 10 \<and> 10 \<le> card (insert (f_dst_port flow) tracked \<union> probed_ports ps) then 1 else 0)"
    using Cons.IH [OF _ s(2) fin s(3) st(1)] Cons.prems(1) by simp
  have mono: "card tracked \<le> card (insert (f_dst_port flow) tracked)"
      "card (insert (f_dst_port flow) tracked) \<le> card (insert (f_dst_port flow) tracked \<union> probed_ports ps)"
    using fin by (auto intro!: card_mono)
  have "tracked \<union> probed_ports (p # ps) = insert (f_dst_port flow) tracked \<union> probed_ports ps"
    by (auto simp: p)
  then show ?case
    using ih al mono s(1,4) by (auto simp: p)
qed simp

section \<open>Brute force\<close>

definition auth_failure :: "http_transaction \<Rightarrow> bool" where
  "auth_failure tx = (case ht_response tx of None \<Rightarrow> False | Some r \<Rightarrow> rs_status_code r = 401 \<or> rs_status_code r = 403)"

text \<open>The tracker of a target after \<open>k\<close> failures counted since \<open>t0\<close>.\<close>

definition brute_track :: "int \<Rightarrow> nat \<Rightarrow> brute_force_tracker \<Rightarrow> bool" where
  "brute_track t0 k t \<longleftrightarrow> bf_window_start t = t0 \<and> bf_failed_attempts t = of_nat k \<and> (bf_alerted t \<longleftrightarrow> 5 \<le> k)"

definition brute_state :: "(bytes \<Rightarrow> u32) \<Rightarrow> u32 \<times> u16 \<Rightarrow> int \<Rightarrow> nat \<Rightarrow> u64 \<Rightarrow> behavioral_detector \<Rightarrow> bool" where
  "brute_state jh key t0 k c d \<longleftrightarrow> detector_inv jh d \<and> brute_forces_detected d = c + (if 5 \<le> k then 1 else 0) \<and>
     (case tt_find bf_key (hash_target jh) key (brute_trackers d) of None \<Rightarrow> k = 0 | Some t \<Rightarrow> brute_track t0 k t)"

lemma brute_key: "bf_key ((brute_count now st (brute_window now t))\<lparr>bf_alerted := a\<rparr>) = bf_key t"
  by (simp add: bf_key_def brute_count_def brute_window_def Let_def)

lemma brute_http_step:
  assumes st: "brute_state jh (get_ipv4_addr (f_dst_addr flow), f_dst_port flow) t0 k c d" and m: "malloc_ok env n"
    and au: "auth_failure tx" and t: "tv_sec tv = t0" and k: "k + 1 < 2 ^ 32"
  shows "\<exists>d' n'. detect_brute_force_http jh env tv flow tx (d, n) = (d', n') \<and>
    brute_state jh (get_ipv4_addr (f_dst_addr flow), f_dst_port flow) t0 (k + 1) c d'"
proof -
  let ?ip = "get_ipv4_addr (f_dst_addr flow)" and ?key = "(get_ipv4_addr (f_dst_addr flow), f_dst_port flow)"
  let ?fresh = "brute_fresh t0 ?ip (f_dst_port flow)"
  obtain resp where resp: "ht_response tx = Some resp" "rs_status_code resp = 401 \<or> rs_status_code resp = 403"
    using au by (auto simp: auth_failure_def split: option.splits)
  have inv: "detector_inv jh d" and ok: "brute.tt_ok jh (brute_trackers d)"
    using st by (simp_all add: brute_state_def detector_inv_def)
  have fk: "bf_key ?fresh = ?key"
    by (simp add: bf_key_def brute_fresh_def)
  obtain tr tbl n1 where g: "tt_get bf_key (hash_target jh) env ?fresh True (brute_trackers d) n = (Some tr, tbl, n1)"
      "tr = (case tt_find bf_key (hash_target jh) ?key (brute_trackers d) of Some u \<Rightarrow> u | None \<Rightarrow> ?fresh)"
    using brute.get_Some [OF m, of jh ?fresh "brute_trackers d"] fk by auto
  let ?d1 = "d\<lparr>brute_trackers := tbl\<rparr>"
  have gt: "get_brute_force_tracker jh env (tv_sec tv) ?ip (f_dst_port flow) True d n = (Some tr, ?d1, n1)"
    using g(1) t by (simp add: get_brute_force_tracker_def)
  have tr: "brute_track t0 k tr"
    using st g(2) by (auto simp: brute_state_def brute_track_def brute_fresh_def split: option.splits)
  have trk: "bf_key tr = ?key"
    using brute.get_key [OF g(1)] fk by simp
  have fnd: "tt_find bf_key (hash_target jh) ?key tbl = Some tr"
    using brute.get_find [OF ok g(1), of ?key] fk by simp
  define t1 where "t1 = brute_count (tv_sec tv) (rs_status_code resp) (brute_window (tv_sec tv) tr)"
  define al where "al \<longleftrightarrow> 5 \<le> bf_failed_attempts t1 \<and> \<not> bf_alerted t1"
  have u: "unat (1 + of_nat k :: u32) = k + 1"
    using k unat_of_nat_u32 [of "k + 1"] by simp
  have t1: "bf_window_start t1 = t0" "bf_failed_attempts t1 = of_nat (k + 1)" "bf_alerted t1 \<longleftrightarrow> 5 \<le> k"
    using tr t by (auto simp: t1_def brute_track_def brute_count_def brute_window_def is_within_window_def Let_def)
  have al': "al \<longleftrightarrow> k = 4"
    using t1 u by (auto simp: al_def word_le_nat_alt)
  obtain d2 n2 where a: "(if al then report_brute env tv flow t1 ?d1 n1 else (?d1, n1)) = (d2, n2)"
    by force
  have d2: "brute_trackers d2 = tbl" "brute_forces_detected d2 = brute_forces_detected d + (if al then 1 else 0)"
    using a report_keeps(2) [of env tv flow t1 ?d1 n1 d2 n2] by (auto split: if_splits)
  let ?t2 = "t1\<lparr>bf_alerted := bf_alerted t1 \<or> al\<rparr>"
  let ?d' = "d2\<lparr>brute_trackers := tt_store bf_key (hash_target jh) ?t2 (brute_trackers d2)\<rparr>"
  have res: "detect_brute_force_http jh env tv flow tx (d, n) = (?d', n2)"
    using resp gt a by (auto simp: detect_brute_force_http_def t1_def [symmetric] al_def [symmetric] Let_def)
  have "bf_key ?t2 = ?key"
    using trk by (simp add: t1_def brute_key)
  then have "tt_find bf_key (hash_target jh) ?key (tt_store bf_key (hash_target jh) ?t2 tbl) = Some ?t2"
    using brute.store_find [OF brute.get_ok [OF ok g(1)], of ?t2 ?key] fnd by simp
  moreover have "brute_track t0 (k + 1) ?t2"
    using t1 al' by (auto simp: brute_track_def)
  moreover have "detector_inv jh ?d'"
    using detect_brute_force_http_inv [of jh "(d, n)" env tv flow tx] inv res by simp
  moreover have "brute_forces_detected ?d' = c + (if 5 \<le> k + 1 then 1 else 0)"
    using st d2(2) al' by (auto simp: brute_state_def)
  ultimately show ?thesis
    using res d2(1) by (auto simp: brute_state_def)
qed

lemma brute_http_other: "\<not> auth_failure tx \<Longrightarrow> detect_brute_force_http jh env tv flow tx s = s"
  by (cases s) (auto simp: detect_brute_force_http_def auth_failure_def split: option.splits)

lemma brute_fold:
  assumes "brute_state jh (get_ipv4_addr (f_dst_addr flow), f_dst_port flow) t0 k c (fst s)" "\<forall>k. malloc_ok env k"
    and "tv_sec tv = t0" "k + length (filter auth_failure txs) < 2 ^ 32"
  shows "brute_state jh (get_ipv4_addr (f_dst_addr flow), f_dst_port flow) t0 (k + length (filter auth_failure txs)) c
    (fst (fold (detect_brute_force_http jh env tv flow) txs s))"
  using assms(1,4)
proof (induction txs arbitrary: s k)
  case (Cons tx txs)
  obtain d n where s: "s = (d, n)"
    by force
  show ?case
  proof (cases "auth_failure tx")
    case True
    obtain d' n' where "detect_brute_force_http jh env tv flow tx (d, n) = (d', n')"
        "brute_state jh (get_ipv4_addr (f_dst_addr flow), f_dst_port flow) t0 (k + 1) c d'"
      using brute_http_step [OF _ _ True assms(3), of jh flow k c d env n] Cons.prems True s assms(2) by auto
    then show ?thesis
      using Cons.IH [of "k + 1" "(d', n')"] Cons.prems(2) True s by simp
  next
    case False
    then show ?thesis
      using Cons.IH [of k s] Cons.prems by (simp add: brute_http_other)
  qed
qed simp

fun brute_packets :: "nat \<Rightarrow> (bytes \<Rightarrow> u32) \<Rightarrow> rte_env \<Rightarrow> timeval \<Rightarrow> app_flow \<Rightarrow> behavioral_detector \<Rightarrow> nat \<Rightarrow> (behavioral_detector \<times> nat) option" where
  "brute_packets 0 jh env tv flow d n = Some (d, n)"
| "brute_packets (Suc j) jh env tv flow d n = do { (d1, n1) \<leftarrow> detect_brute_force jh env tv flow d n; brute_packets j jh env tv flow d1 n1 }"

lemma brute_packets_state:
  assumes "brute_state jh (get_ipv4_addr (f_dst_addr flow), f_dst_port flow) t0 k c d" "\<forall>k. malloc_ok env k" "tv_sec tv = t0"
    and "alproto flow = APP_PROTO_HTTP" "tcp_parser flow = Some (Some (HttpApp conn))"
    and "k + j * length (filter auth_failure (hc_transactions conn)) < 2 ^ 32"
  shows "\<exists>d' n'. brute_packets j jh env tv flow d n = Some (d', n') \<and>
    brute_state jh (get_ipv4_addr (f_dst_addr flow), f_dst_port flow) t0 (k + j * length (filter auth_failure (hc_transactions conn))) c d'"
  using assms(1,6)
proof (induction j arbitrary: d n k)
  case (Suc j)
  let ?m = "length (filter auth_failure (hc_transactions conn))"
  obtain d1 n1 where f: "fold (detect_brute_force_http jh env tv flow) (hc_transactions conn) (d, n) = (d1, n1)"
    by force
  have "brute_state jh (get_ipv4_addr (f_dst_addr flow), f_dst_port flow) t0 (k + ?m) c d1"
    using brute_fold [of jh flow t0 k c "(d, n)" env tv "hc_transactions conn"] Suc.prems assms(2,3) f by simp
  then show ?case
    using Suc.IH [of "k + ?m" d1 n1] Suc.prems(2) assms(4,5) f by (simp add: detect_brute_force_def add.assoc)
qed simp

section \<open>Data exfiltration\<close>

text \<open>The volume that triggers an alert, at one hour of the day.\<close>

definition exfil_trigger :: "int \<Rightarrow> u32 \<Rightarrow> nat \<Rightarrow> bool" where
  "exfil_trigger hour dst vol \<longleftrightarrow> (IS_EXTERNAL_IP dst \<and> 104857600 \<le> vol) \<or> (IS_OFF_HOURS hour \<and> 10485760 \<le> vol)"

lemma exfil_trigger_mono: "exfil_trigger hour dst a \<Longrightarrow> a \<le> b \<Longrightarrow> exfil_trigger hour dst b"
  by (auto simp: exfil_trigger_def)

definition exfil_track :: "int \<Rightarrow> int \<Rightarrow> u32 \<times> u32 \<Rightarrow> nat \<Rightarrow> data_exfil_tracker \<Rightarrow> bool" where
  "exfil_track t0 hour key vol t \<longleftrightarrow> de_key t = key \<and> de_window_start t = t0 \<and> de_bytes t = of_nat vol \<and>
     de_off_hours t = IS_OFF_HOURS hour \<and> (de_alerted t \<longleftrightarrow> exfil_trigger hour (snd key) vol)"

definition exfil_state :: "(bytes \<Rightarrow> u32) \<Rightarrow> u32 \<times> u32 \<Rightarrow> int \<Rightarrow> int \<Rightarrow> nat \<Rightarrow> u64 \<Rightarrow> behavioral_detector \<Rightarrow> bool" where
  "exfil_state jh key t0 hour vol c d \<longleftrightarrow> detector_inv jh d \<and>
     exfiltrations_detected d = c + (if exfil_trigger hour (snd key) vol then 1 else 0) \<and>
     (case tt_find de_key (hash_flow_pair jh) key (exfil_trackers d) of None \<Rightarrow> vol = 0 | Some t \<Rightarrow> exfil_track t0 hour key vol t)"

lemma report_exfil_keeps:
  "report_exfil env tv flow r t d n = (d', n') \<Longrightarrow>
   exfil_trackers d' = exfil_trackers d \<and> exfiltrations_detected d' = exfiltrations_detected d + 1"
  by (auto simp: report_exfil_def dest: raise_alert_keeps split: prod.splits)

lemma exfil_reason_iff:
  assumes "de_bytes t = of_nat vol" "vol < 2 ^ 64" "de_off_hours t = IS_OFF_HOURS hour"
  shows "exfil_reason t \<noteq> None \<longleftrightarrow> exfil_trigger hour (de_dst_ip t) vol \<and> \<not> de_alerted t"
proof -
  have "unat (de_bytes t) = vol"
    using assms by (simp add: unsigned_of_nat take_bit_nat_eq_self)
  then have "104857600 \<le> de_bytes t \<longleftrightarrow> 104857600 \<le> vol" "10485760 \<le> de_bytes t \<longleftrightarrow> 10485760 \<le> vol"
    by (simp_all add: word_le_nat_alt)
  moreover have "DATA_EXFIL_THRESHOLD div 10 = 10485760"
    by (simp add: DATA_EXFIL_THRESHOLD_def)
  ultimately show ?thesis
    using assms(3) by (auto simp: exfil_reason_def exfil_trigger_def DATA_EXFIL_THRESHOLD_def Let_def)
qed

lemma exfil_step:
  assumes st: "exfil_state jh key t0 hour vol c d" and m: "malloc_ok env n"
    and key: "key = (get_ipv4_addr (f_src_addr flow), get_ipv4_addr (f_dst_addr flow))"
    and t: "tv_sec tv = t0" and k: "vol + unat bytes < 2 ^ 64"
  shows "\<exists>d' n'. detect_data_exfiltration jh env tv hour flow bytes d n = (d', n') \<and> exfil_state jh key t0 hour (vol + unat bytes) c d'"
proof -
  let ?fresh = "exfil_fresh t0 hour (fst key) (snd key)"
  have inv: "detector_inv jh d" and ok: "exfil.tt_ok jh (exfil_trackers d)"
    using st by (simp_all add: exfil_state_def detector_inv_def)
  have fk: "de_key ?fresh = key"
    by (simp add: de_key_def exfil_fresh_def)
  obtain tr tbl n1 where g: "tt_get de_key (hash_flow_pair jh) env ?fresh True (exfil_trackers d) n = (Some tr, tbl, n1)"
      "tr = (case tt_find de_key (hash_flow_pair jh) key (exfil_trackers d) of Some u \<Rightarrow> u | None \<Rightarrow> ?fresh)"
    using exfil.get_Some [OF m, of jh ?fresh "exfil_trackers d"] fk by auto
  let ?d1 = "d\<lparr>exfil_trackers := tbl\<rparr>"
  have gt: "get_exfil_tracker jh env (tv_sec tv) hour (get_ipv4_addr (f_src_addr flow)) (get_ipv4_addr (f_dst_addr flow)) True d n = (Some tr, ?d1, n1)"
    using g(1) t key by (simp add: get_exfil_tracker_def)
  have tr: "exfil_track t0 hour key vol tr"
    using st g(2) fk by (auto simp: exfil_state_def exfil_track_def exfil_fresh_def exfil_trigger_def split: option.splits)
  have fnd: "tt_find de_key (hash_flow_pair jh) key tbl = Some tr"
    using exfil.get_find [OF ok g(1), of key] fk by simp
  define t1 where "t1 = exfil_count (tv_sec tv) hour bytes tr"
  have t1: "de_key t1 = key" "de_window_start t1 = t0" "de_bytes t1 = of_nat (vol + unat bytes)" "de_off_hours t1 = IS_OFF_HOURS hour"
      "de_alerted t1 \<longleftrightarrow> exfil_trigger hour (snd key) vol"
    using tr t by (auto simp: t1_def exfil_track_def exfil_count_def is_within_window_def de_key_def Let_def)
  have dst: "de_dst_ip t1 = snd key"
    using t1(1) by (auto simp: de_key_def)
  have r: "exfil_reason t1 \<noteq> None \<longleftrightarrow> exfil_trigger hour (snd key) (vol + unat bytes) \<and> \<not> exfil_trigger hour (snd key) vol"
    using exfil_reason_iff [OF t1(3) k t1(4)] dst t1(5) by simp
  obtain d2 n2 where a: "(case exfil_reason t1 of None \<Rightarrow> (?d1, n1) | Some r \<Rightarrow> report_exfil env tv flow r t1 ?d1 n1) = (d2, n2)"
    by force
  have d2: "exfil_trackers d2 = tbl" "exfiltrations_detected d2 = exfiltrations_detected d + (if exfil_reason t1 \<noteq> None then 1 else 0)"
    using a by (auto split: option.splits dest!: report_exfil_keeps)
  let ?t2 = "t1\<lparr>de_alerted := de_alerted t1 \<or> exfil_reason t1 \<noteq> None\<rparr>"
  let ?d' = "d2\<lparr>exfil_trackers := tt_store de_key (hash_flow_pair jh) ?t2 (exfil_trackers d2)\<rparr>"
  have res: "detect_data_exfiltration jh env tv hour flow bytes d n = (?d', n2)"
    using gt a by (simp add: detect_data_exfiltration_def t1_def [symmetric] Let_def)
  have k2: "de_key ?t2 = key"
    using t1(1) by (simp add: de_key_def)
  have "tt_find de_key (hash_flow_pair jh) key (tt_store de_key (hash_flow_pair jh) ?t2 tbl) = Some ?t2"
    using exfil.store_find [OF exfil.get_ok [OF ok g(1)], of ?t2 key] fnd k2 by simp
  moreover have "exfil_track t0 hour key (vol + unat bytes) ?t2"
    using t1 k2 r exfil_trigger_mono [of hour "snd key" vol "vol + unat bytes"] by (auto simp: exfil_track_def)
  moreover have "detector_inv jh ?d'"
    using detect_data_exfiltration_inv [OF inv, of env tv hour flow bytes n] res by simp
  moreover have "exfiltrations_detected ?d' = c + (if exfil_trigger hour (snd key) (vol + unat bytes) then 1 else 0)"
    using st d2(2) r exfil_trigger_mono [of hour "snd key" vol "vol + unat bytes"] by (auto simp: exfil_state_def)
  ultimately show ?thesis
    using res d2(1) by (auto simp: exfil_state_def)
qed

fun exfil_run :: "(bytes \<Rightarrow> u32) \<Rightarrow> rte_env \<Rightarrow> timeval \<Rightarrow> int \<Rightarrow> 'p flow \<Rightarrow> u32 list \<Rightarrow> behavioral_detector \<times> nat \<Rightarrow> behavioral_detector \<times> nat" where
  "exfil_run jh env tv hour flow [] s = s"
| "exfil_run jh env tv hour flow (b # bs) (d, n) = exfil_run jh env tv hour flow bs (detect_data_exfiltration jh env tv hour flow b d n)"

lemma exfil_run_state:
  assumes "exfil_state jh key t0 hour vol c d" "\<forall>k. malloc_ok env k"
    and "key = (get_ipv4_addr (f_src_addr flow), get_ipv4_addr (f_dst_addr flow))" "tv_sec tv = t0"
    and "vol + sum_list (map unat bs) < 2 ^ 64"
  shows "exfil_state jh key t0 hour (vol + sum_list (map unat bs)) c (fst (exfil_run jh env tv hour flow bs (d, n)))"
  using assms(1,5)
proof (induction bs arbitrary: d n vol)
  case (Cons b bs)
  obtain d' n' where "detect_data_exfiltration jh env tv hour flow b d n = (d', n')" "exfil_state jh key t0 hour (vol + unat b) c d'"
    using exfil_step [OF Cons.prems(1) _ assms(3,4), of env n b] assms(2) Cons.prems(2) by auto
  then show ?case
    using Cons.IH [of "vol + unat b" d' n'] Cons.prems(2) by (simp add: add.assoc)
qed simp

section \<open>Addresses\<close>

text \<open>The address a.b.c.d as the program holds it: in network byte order, loaded by a little-endian machine.\<close>

definition loaded_ip :: "u8 \<Rightarrow> u8 \<Rightarrow> u8 \<Rightarrow> u8 \<Rightarrow> u32" where
  "loaded_ip a b c d = be32 d c b a"

lemma bit_u8_lt: "bit (x :: u8) n \<Longrightarrow> n < 8"
  using bit_imp_le_length [of x n] by simp

lemma loaded_ip_low16: "loaded_ip a b c d AND mask 16 = ucast (be16 b a)"
  by (rule bit_word_eqI) (auto simp: loaded_ip_def be32_def be16_def bit_simps dest: bit_u8_lt)

lemma loaded_ip_low8: "loaded_ip a b c d AND mask 8 = ucast a"
  by (rule bit_word_eqI) (auto simp: loaded_ip_def be32_def bit_simps dest: bit_u8_lt)

lemma loaded_ip_low12: "loaded_ip a b c d AND push_bit 4 (mask 12) = ucast (be16 b (a AND push_bit 4 (mask 4)))"
  by (rule bit_word_eqI) (auto simp: loaded_ip_def be32_def be16_def bit_simps dest: bit_u8_lt)

lemma ucast_inj: "(ucast (x :: u16) :: u32) = ucast y \<longleftrightarrow> x = y" "(ucast (v :: u8) :: u32) = ucast w \<longleftrightarrow> v = w"
proof -
  have "unat (ucast v :: u32) = unat v" for v :: u8
    using unat_u8_lt [of v] by (simp add: unsigned_ucast_eq take_bit_nat_eq_self)
  then show "(ucast (x :: u16) :: u32) = ucast y \<longleftrightarrow> x = y" "(ucast (v :: u8) :: u32) = ucast w \<longleftrightarrow> v = w"
    by (metis unat_ucast_u16_u32 word_unat_eq_iff)+
qed

lemma high_nibble: "a AND push_bit 4 (mask 4) = 0x10 \<longleftrightarrow> 16 \<le> a \<and> a \<le> (31 :: u8)"
proof -
  have e: "a AND push_bit 4 (mask 4) = push_bit 4 (drop_bit 4 a)"
    by (rule bit_word_eqI) (auto simp: bit_simps dest: bit_u8_lt)
  have "unat a div 16 * 16 < 256"
    using unat_u8_lt [of a] by linarith
  then have u: "unat (push_bit 4 (drop_bit 4 a)) = unat a div 16 * 16"
    unfolding unsigned_push_bit_eq unsigned_drop_bit_eq
    by (simp add: push_bit_eq_mult drop_bit_eq_div take_bit_nat_eq_self unsigned_take_bit_eq)
  have "unat a div 16 = 1 \<longleftrightarrow> 16 \<le> unat a \<and> unat a \<le> 31"
    using div_mult_mod_eq [of "unat a" 16] mod_less_divisor [of 16 "unat a"] by linarith
  then have "unat a div 16 * 16 = 16 \<longleftrightarrow> 16 \<le> unat a \<and> unat a \<le> 31"
    by auto
  then show ?thesis
    unfolding e word_unat_eq_iff u by (simp add: word_le_nat_alt)
qed

lemma external_ip_loaded:
  "IS_EXTERNAL_IP (loaded_ip a b c d) \<longleftrightarrow> \<not> (a = 10 \<or> (b = 172 \<and> 16 \<le> a \<and> a \<le> 31) \<or> (a = 168 \<and> b = 192))"
proof -
  have m: "(0xFF :: u32) = mask 8" "(0xFFF0 :: u32) = push_bit 4 (mask 12)" "(0xFFFF :: u32) = mask 16"
    by (simp_all add: mask_eq_exp_minus_1 push_bit_eq_mult)
  have k: "(10 :: u32) = ucast (10 :: u8)" "(0xAC10 :: u32) = ucast (be16 0xAC 0x10)" "(0xC0A8 :: u32) = ucast (be16 0xC0 0xA8)"
    by (simp_all add: be16_def)
  show ?thesis
    unfolding IS_EXTERNAL_IP_def m loaded_ip_low8 loaded_ip_low12 loaded_ip_low16 k ucast_inj be16_inj high_nibble by auto
qed

section \<open>Properties\<close>

definition sample_tv :: timeval where
  "sample_tv = \<lparr>tv_sec = 1000, tv_usec = 0\<rparr>"

definition sample_app_flow :: "u16 \<Rightarrow> app_flow" where
  "sample_app_flow port = \<lparr>f_src_addr = [1, 0, 0, 0], f_dst_addr = [2, 0, 0, 0], f_src_port = 1234, f_dst_port = port, f_proto = 6,
     f_flags = FLOW_IPV4, flow_hash = 0, start_ts = sample_tv, last_ts = sample_tv, timeout_policy = 30, f_tcp = None,
     f_udp = None, alproto = APP_PROTO_UNKNOWN, alproto_ts = 0, alproto_tc = 0, toserver_pkt_cnt = 0, toclient_pkt_cnt = 0,
     toserver_byte_cnt = 0, toclient_byte_cnt = 0, use_cnt = 0\<rparr>"

abbreviation fresh_detector :: behavioral_detector where
  "fresh_detector \<equiv> behavioral_detector_zero (rule_engine_zero\<lparr>max_alerts := MAX_ALERTS_DEFAULT\<rparr>)"

lemma fresh_detector_inv: "detector_inv jh fresh_detector"
  using scan.tt_ok_empty [of jh] brute.tt_ok_empty [of jh] exfil.tt_ok_empty [of jh] anomaly.tt_ok_empty [of jh] engine_zero_inv
  by (simp add: detector_inv_def behavioral_detector_zero_def TRACKER_HASH_SIZE_def scan.tt_ok_def brute.tt_ok_def exfil.tt_ok_def anomaly.tt_ok_def)

lemma fresh_detector_find:
  "tt_find ps_src_ip (hash_src_ip jh) ip (scan_trackers fresh_detector) = None"
  "tt_find bf_key (hash_target jh) k (brute_trackers fresh_detector) = None"
  using hash_bounds(1) [of jh ip] hash_bounds(2) [of jh k] by (simp_all add: tt_find_def behavioral_detector_zero_def TRACKER_HASH_SIZE_def)

text \<open>C21: From a new detector, inspecting any packets of flows whose parser has the type of their protocol, at any times and
  with any failing allocations, never runs into undefined behaviour and keeps the invariant: every tracker is in the
  chain of its key, no key is tracked twice, the lists of ports have no duplicates and fit their array, and the
  rule engine's counters are consistent.\<close>

theorem detector_runs_safely:
  assumes "\<forall>x \<in> set xs. bd_legal x s0"
  shows "\<exists>s'. run_ops (bd_step jh env) xs (fresh_detector, n) = Some s' \<and> detector_inv jh (fst s')"
proof -
  have "bd_legal x s1" if "x \<in> set xs" for x s1
    using assms that by (cases x) fastforce
  then show ?thesis
    using bd.run_safe [of jh "(fresh_detector, n)" env xs] fresh_detector_inv legal_run_always [of xs bd_legal] by simp
qed

theorem detector_runs_safely_witness:
  "\<exists>s'. run_ops (bd_step (\<lambda>_. 5) \<lparr>malloc_ok = \<lambda>k. k < 3, malloc_junk = \<lambda>_ _. 0\<rparr>)
      [BdPacket sample_tv 23 (sample_app_flow 80) 1400 (Some 2), BdPacket sample_tv 23 (sample_app_flow 443) 100 (Some 18)]
      (fresh_detector, 0) = Some s' \<and> detector_inv (\<lambda>_. 5) (fst s')"
  using detector_runs_safely [of "[BdPacket sample_tv 23 (sample_app_flow 80) 1400 (Some 2), BdPacket sample_tv 23 (sample_app_flow 443) 100 (Some 18)]"
      "(fresh_detector, 0)" "\<lambda>_. 5" "\<lparr>malloc_ok = \<lambda>k. k < 3, malloc_junk = \<lambda>_ _. 0\<rparr>" 0]
  by (simp add: flow_typed_def sample_app_flow_def)



text \<open>The detector counts every failed response of a connection again with every packet of its flow: after \<open>j\<close> packets
  of a flow whose connection shows \<open>m\<close> failed responses the brute force alert has been raised exactly when
  \<open>5 \<le> j * m\<close>, so one failed login and five packets suffice.\<close>

theorem brute_force_recounts:
  assumes "detector_inv jh d" "\<forall>k. malloc_ok env k"
    and "tt_find bf_key (hash_target jh) (get_ipv4_addr (f_dst_addr flow), f_dst_port flow) (brute_trackers d) = None"
    and "alproto flow = APP_PROTO_HTTP" "tcp_parser flow = Some (Some (HttpApp conn))"
    and "j * length (filter auth_failure (hc_transactions conn)) < 2 ^ 32"
  shows "\<exists>d' n'. brute_packets j jh env tv flow d n = Some (d', n') \<and>
    brute_forces_detected d' = brute_forces_detected d + (if 5 \<le> j * length (filter auth_failure (hc_transactions conn)) then 1 else 0)"
proof -
  have "brute_state jh (get_ipv4_addr (f_dst_addr flow), f_dst_port flow) (tv_sec tv) 0 (brute_forces_detected d) d"
    using assms(1,3) by (simp add: brute_state_def)
  then show ?thesis
    using brute_packets_state [OF _ assms(2) refl assms(4,5), where k = 0 and j = j and c = "brute_forces_detected d" and d = d and tv = tv
        and jh = jh and n = n] assms(6)
    by (auto simp: brute_state_def)
qed

definition failed_login :: http_transaction where
  "failed_login = \<lparr>ht_request = http_request_zero, ht_response = Some (http_response_zero\<lparr>rs_status_code := 401\<rparr>), ht_state = HTTP_STATE_IDLE\<rparr>"

definition sample_session :: "app_conn \<Rightarrow> app_conn tcp_session" where
  "sample_session p = \<lparr>ts_state = TCP_ESTABLISHED, seg_cnt = 3, byte_cnt = 120, toserver_sb = None, toclient_sb = None, app_parser = Some p\<rparr>"

theorem brute_force_recounts_witness:
  "\<exists>d' n'. brute_packets 5 (\<lambda>_. 5) sample_env sample_tv
      ((sample_app_flow 80)\<lparr>alproto := APP_PROTO_HTTP, f_tcp := Some (sample_session (HttpApp (http_conn_zero\<lparr>hc_finished := [failed_login]\<rparr>)))\<rparr>)
      fresh_detector 0 = Some (d', n') \<and> brute_forces_detected d' = 1"
  using brute_force_recounts [OF fresh_detector_inv _ fresh_detector_find(2), where env = sample_env and jh = "\<lambda>_. 5" and j = 5 and tv = sample_tv
      and n = 0 and conn = "http_conn_zero\<lparr>hc_finished := [failed_login]\<rparr>" and
      flow = "(sample_app_flow 80)\<lparr>alproto := APP_PROTO_HTTP, f_tcp := Some (sample_session (HttpApp (http_conn_zero\<lparr>hc_finished := [failed_login]\<rparr>)))\<rparr>"]
  by (simp add: sample_env_def tcp_parser_def ctx_tcp_def sample_session_def hc_transactions_def http_conn_zero_def auth_failure_def
      failed_login_def behavioral_detector_zero_def)

text \<open>Packets of one pair of hosts within a window are summed up, and one exfiltration alert is raised exactly when the
  volume reaches 100 MB to an address the detector takes for external, or a tenth of it between 22:00 and 06:00, however
  the volume is split into packets.\<close>

theorem exfiltration_alerts_on_volume:
  assumes "detector_inv jh d" "\<forall>k. malloc_ok env k" "sum_list (map unat bs) < 2 ^ 64"
    and "tt_find de_key (hash_flow_pair jh) (get_ipv4_addr (f_src_addr flow), get_ipv4_addr (f_dst_addr flow)) (exfil_trackers d) = None"
  shows "exfiltrations_detected (fst (exfil_run jh env tv hour flow bs (d, n))) = exfiltrations_detected d +
    (if exfil_trigger hour (get_ipv4_addr (f_dst_addr flow)) (sum_list (map unat bs)) then 1 else 0)"
proof -
  have "exfil_state jh (get_ipv4_addr (f_src_addr flow), get_ipv4_addr (f_dst_addr flow)) (tv_sec tv) hour 0 (exfiltrations_detected d) d"
    using assms(1,4) by (simp add: exfil_state_def exfil_trigger_def)
  then show ?thesis
    using exfil_run_state [OF _ assms(2) refl refl, of jh flow tv hour 0 "exfiltrations_detected d" d bs n] assms(3)
    by (simp add: exfil_state_def)
qed

lemma fresh_detector_exfil: "tt_find de_key (hash_flow_pair jh) k (exfil_trackers fresh_detector) = None"
  using hash_bounds(3) [of jh k] by (simp add: tt_find_def behavioral_detector_zero_def TRACKER_HASH_SIZE_def)

theorem exfiltration_alerts_on_volume_witness:
  "exfiltrations_detected (fst (exfil_run (\<lambda>_. 5) sample_env sample_tv 23 (sample_app_flow 80) [6000000, 5000000] (fresh_detector, 0))) = 1 \<and>
   exfiltrations_detected (fst (exfil_run (\<lambda>_. 5) sample_env sample_tv 12 (sample_app_flow 80) [6000000, 5000000] (fresh_detector, 0))) = 0"
  using exfiltration_alerts_on_volume [OF fresh_detector_inv _ _ fresh_detector_exfil, of sample_env "[6000000, 5000000]" "\<lambda>_. 5" sample_tv 23 "sample_app_flow 80" 0]
    exfiltration_alerts_on_volume [OF fresh_detector_inv _ _ fresh_detector_exfil, of sample_env "[6000000, 5000000]" "\<lambda>_. 5" sample_tv 12 "sample_app_flow 80" 0]
  by (simp add: sample_env_def exfil_trigger_def IS_OFF_HOURS_def behavioral_detector_zero_def)

text \<open>The test for external addresses reads the bytes of an address as the little-endian machine loads them in the wrong
  places: of the private ranges only 10.0.0.0/8 is taken for internal, every address of 192.168.0.0/16 and 172.16.0.0/12 is taken
  for external, and the public networks 168.192.0.0/16 and 16.172.0.0 to 31.172.255.255 are taken for internal.\<close>

theorem external_test_misplaced:
  "IS_EXTERNAL_IP (loaded_ip a b c d) \<longleftrightarrow> \<not> (a = 10 \<or> (b = 172 \<and> 16 \<le> a \<and> a \<le> 31) \<or> (a = 168 \<and> b = 192))"
  by (rule external_ip_loaded)

text \<open>Inspecting a packet is undefined exactly when the parser of the flow does not have the type of the flow's protocol: in
  particular for every packet of a TCP flow that has been recognised as DNS, whose session is read as a DNS parser.\<close>

theorem inspect_undefined_iff:
  "(behavioral_detector_inspect_packet jh env tv hour flow len fl d n = None \<longleftrightarrow> \<not> flow_typed flow) \<and>
   behavioral_detector_inspect_packet jh env tv hour (flow\<lparr>alproto := APP_PROTO_DNS, f_udp := None, f_tcp := Some s\<rparr>) len fl d n = None"
  by (simp add: inspect_packet_defined flow_typed_def ctx_udp_def)
end
