(* ===== verification/Bridge.thy ===== *)
theory Bridge
  imports Behavioral
begin

text \<open>
  The packet pipeline of \<^verbatim>\<open>suricata_bridge.c\<close>: \<^verbatim>\<open>process_packet\<close> decodes a packet, looks its flow up, updates it, guesses
  the application protocol, runs the parser of the protocol on the reassembled data, the rule engine on the parsed transaction and the
  behavioural detector on the packet. The record \<open>bridge\<close> holds the file's counters, the variables of the lcore and the
  state of the components it calls. The rule engine and the detector share one engine: the detector's copy is refreshed before and
  read back after each of its calls. The periodic report of the statistics only logs and is left out.
\<close>

section \<open>State\<close>

text \<open>The records written to the JSON file, apart from the alerts, which the rule engine writes itself.\<close>

datatype json_event = JsonHttp http_transaction | JsonDns dns_transaction | JsonTls tls_conn

record bridge =
  packets_processed :: u64
  packets_decoded :: u64
  packets_tcp :: u64
  packets_udp :: u64
  packets_icmp :: u64
  packets_other :: u64
  packets_with_flow :: u64
  protocols_detected :: u64
  br_flows :: "app_conn flow_state"
  br_detect :: proto_detect_global
  proto_detect_ctx_p :: "proto_detect_ctx option"
  rule_engine_p :: "rule_engine option"
  json_output_p :: "json_event list option"
  behavioral_detector_p :: "behavioral_detector option"

text \<open>What lies outside the program: hashes, allocator, the clock at the packet, and whether the JSON file can be opened.\<close>

record outside =
  o_crc :: "u32 list \<Rightarrow> u32"
  o_jhash :: "bytes \<Rightarrow> u32"
  o_md5 :: "bytes \<Rightarrow> bytes"
  o_env :: rte_env
  o_now :: timeval
  o_hour :: int
  o_json_ok :: bool

text \<open>One counter of allocations for all components.\<close>

definition br_nalloc :: "bridge \<Rightarrow> nat" where
  "br_nalloc b = nalloc (freasm (br_flows b))"

definition set_nalloc :: "nat \<Rightarrow> bridge \<Rightarrow> bridge" where
  "set_nalloc n b = b\<lparr>br_flows := (br_flows b)\<lparr>freasm := (freasm (br_flows b))\<lparr>nalloc := n\<rparr>\<rparr>\<rparr>"

definition br_flow :: "nat \<Rightarrow> bridge \<Rightarrow> app_flow option" where
  "br_flow a b = fheap (br_flows b) a"

definition set_flow :: "nat \<Rightarrow> app_flow \<Rightarrow> bridge \<Rightarrow> bridge" where
  "set_flow a f b = b\<lparr>br_flows := (br_flows b)\<lparr>fheap := (fheap (br_flows b))(a \<mapsto> f)\<rparr>\<rparr>"

section \<open>Direction and protocol detection\<close>

definition get_packet_direction :: "'p flow \<Rightarrow> pkt_view \<Rightarrow> flow_dir" where
  "get_packet_direction f p =
    (if pv_version p = 4 then
       (if f_src_addr f ! 0 = pv_src p ! 0 \<and> f_src_port f = pv_sport p then FLOW_DIR_TOSERVER else FLOW_DIR_TOCLIENT)
     else if pv_version p = 6 then
       (if f_src_addr f = pv_src p \<and> f_src_port f = pv_sport p then FLOW_DIR_TOSERVER else FLOW_DIR_TOCLIENT)
     else FLOW_DIR_TOCLIENT)"

definition FLOW_ALPROTO_MAX_ATTEMPTS :: u8 where "FLOW_ALPROTO_MAX_ATTEMPTS = 5"

definition ensure_detect_ctx :: "rte_env \<Rightarrow> bridge \<Rightarrow> bridge" where
  "ensure_detect_ctx env b = (case proto_detect_ctx_p b of
     Some _ \<Rightarrow> b
   | None \<Rightarrow>
      (let (g, c) = proto_detect_ctx_create env ((br_detect b)\<lparr>pd_nalloc := br_nalloc b\<rparr>) in
       set_nalloc (pd_nalloc g) (b\<lparr>br_detect := g, proto_detect_ctx_p := c\<rparr>)))"

definition attempts :: "flow_dir \<Rightarrow> 'p flow \<Rightarrow> u8" where
  "attempts dir f = (if dir = FLOW_DIR_TOSERVER then alproto_ts f else alproto_tc f)"

definition count_attempt :: "flow_dir \<Rightarrow> 'p flow \<Rightarrow> 'p flow" where
  "count_attempt dir f =
    (if dir = FLOW_DIR_TOSERVER then f\<lparr>alproto_ts := alproto_ts f + 1\<rparr> else f\<lparr>alproto_tc := alproto_tc f + 1\<rparr>)"

definition detect_dir :: "flow_dir \<Rightarrow> u8" where
  "detect_dir dir = (if dir = FLOW_DIR_TOSERVER then PROTO_DETECT_DIR_TOSERVER else PROTO_DETECT_DIR_TOCLIENT)"

text \<open>One attempt on a payload.\<close>

definition detect_attempt :: "pkt_view \<Rightarrow> flow_dir \<Rightarrow> nat \<Rightarrow> app_flow \<Rightarrow> bridge \<Rightarrow> bridge option" where
  "detect_attempt p dir a f b = do {
     (ret, ctx, res) \<leftarrow> proto_detect_get_proto (proto_detect_global.global_config (br_detect b)) (proto_detect_ctx_p b) (Some f)
       (pv_payload p) (ucast (pv_len p)) (detect_dir dir) (Some detect_unknown);
     let b1 = b\<lparr>proto_detect_ctx_p := ctx\<rparr>;
     let (f1, b2) = (case res of
         Some r \<Rightarrow> if ret = 0 \<and> protocol r \<noteq> APP_PROTO_UNKNOWN
                   then (f\<lparr>alproto := protocol r\<rparr>, b1\<lparr>protocols_detected := protocols_detected b1 + 1\<rparr>) else (f, b1)
       | None \<Rightarrow> (f, b1));
     Some (set_flow a (count_attempt dir f1) b2) }"

definition detect_protocol :: "rte_env \<Rightarrow> packet_info \<Rightarrow> pkt_view \<Rightarrow> flow_dir \<Rightarrow> nat \<Rightarrow> bridge \<Rightarrow> bridge option" where
  "detect_protocol env i p dir a b = do {
     f \<leftarrow> br_flow a b;
     (if alproto f = APP_PROTO_UNKNOWN \<and> packet_info.flags i AND PKT_DECODED_TCP \<noteq> 0 then
        (let b1 = ensure_detect_ctx env b in
         if l4_hdr i \<noteq> None \<and> pv_len p > 0 \<and> attempts dir f < FLOW_ALPROTO_MAX_ATTEMPTS then detect_attempt p dir a f b1 else Some b1)
      else Some b) }"

section \<open>Parsers\<close>

text \<open>A parser of the connection on the data of the packet's direction; \<open>parse\<close> gets the data and their length.\<close>

definition feed ::
  "(bytes option \<Rightarrow> u32 \<Rightarrow> u8 \<Rightarrow> 'c \<times> nat \<Rightarrow> ('c \<times> nat) option) \<Rightarrow> flow_dir \<Rightarrow> 'p tcp_session \<Rightarrow> 'c \<times> nat \<Rightarrow> ('c \<times> nat) option" where
  "feed parse dir t s =
    (case stream_buffer_get_data (if dir = FLOW_DIR_TOSERVER then toserver_sb t else toclient_sb t) of
       None \<Rightarrow> Some s
     | Some (data, len) \<Rightarrow>
        if data \<noteq> None \<and> len > 0 then parse data len (if dir = FLOW_DIR_TOSERVER then 0 else 1) s else Some s)"

definition parse_http :: "rte_env \<Rightarrow> bytes option \<Rightarrow> u32 \<Rightarrow> u8 \<Rightarrow> http_conn \<times> nat \<Rightarrow> (http_conn \<times> nat) option" where
  "parse_http env data len d s = do {
     (_, c, n) \<leftarrow> http_parser_parse env (Some (fst s)) data len d (snd s);
     c1 \<leftarrow> c; Some (c1, n) }"

definition parse_tls :: "(bytes \<Rightarrow> bytes) \<Rightarrow> rte_env \<Rightarrow> bytes option \<Rightarrow> u32 \<Rightarrow> u8 \<Rightarrow> tls_conn \<times> nat \<Rightarrow> (tls_conn \<times> nat) option" where
  "parse_tls md5 env data len d s = do {
     (_, c, n) \<leftarrow> tls_parser_parse md5 env (Some (fst s)) data len d (snd s);
     c1 \<leftarrow> c; Some (c1, n) }"

text \<open>The parser of the session, created when it is missing.\<close>

definition open_http :: "rte_env \<Rightarrow> app_conn option \<Rightarrow> nat \<Rightarrow> app_conn option \<times> nat" where
  "open_http env q n = (case q of Some c \<Rightarrow> (Some c, n)
     | None \<Rightarrow> (map_option HttpApp (http_parser_init (malloc_ok env n) (malloc_ok env (n + 1))), if malloc_ok env n then n + 2 else n + 1))"

definition open_tls :: "rte_env \<Rightarrow> app_conn option \<Rightarrow> nat \<Rightarrow> app_conn option \<times> nat" where
  "open_tls env q n = (case q of Some c \<Rightarrow> (Some c, n) | None \<Rightarrow> (map_option TlsApp (tls_parser_init (malloc_ok env n)), n + 1))"

definition open_dns :: "rte_env \<Rightarrow> app_conn option \<Rightarrow> nat \<Rightarrow> app_conn option \<times> nat" where
  "open_dns env q n = (case q of Some c \<Rightarrow> (Some c, n) | None \<Rightarrow> (map_option DnsApp (dns_parser_init (malloc_ok env n)), n + 1))"

text \<open>The detection systems are set up with the first HTTP connection of the lcore.\<close>

definition init_detection :: "outside \<Rightarrow> bridge \<Rightarrow> bridge option" where
  "init_detection x b = (case rule_engine_p b of
     Some _ \<Rightarrow> Some b
   | None \<Rightarrow>
      (let env = o_env x; n = br_nalloc b; b1 = b\<lparr>json_output_p := (if o_json_ok x then Some [] else None)\<rparr> in
       case rule_engine_init (malloc_ok env n) of
         None \<Rightarrow> Some (set_nalloc (n + 1) b1)
       | Some e \<Rightarrow> do {
           (_, e1, n1) \<leftarrow> rule_engine_load_builtin_rules env e (n + 1);
           let e2 = (if o_json_ok x then rule_engine_set_json_output (Some []) e1 else e1);
           Some (set_nalloc (n1 + 1) (b1\<lparr>rule_engine_p := Some e2,
             behavioral_detector_p := behavioral_detector_init (Some e2) (malloc_ok env n1)\<rparr>)) }))"

text \<open>A rule inspection, and the record of the transaction in the JSON file.\<close>

definition run_rules ::
  "(rule_engine \<Rightarrow> nat \<Rightarrow> (nat \<times> rule_engine \<times> nat) option) \<Rightarrow> json_event \<Rightarrow> bridge \<Rightarrow> bridge option" where
  "run_rules inspect ev b = (case rule_engine_p b of
     None \<Rightarrow> Some b
   | Some e \<Rightarrow> do {
       (_, e1, n1) \<leftarrow> inspect e (br_nalloc b);
       Some (set_nalloc n1 (b\<lparr>rule_engine_p := Some e1, json_output_p := map_option (\<lambda>l. ev # l) (json_output_p b)\<rparr>)) })"

text \<open>The work on an HTTP connection: parsing, setting the detection systems up, inspecting the current transaction.\<close>

definition http_connection :: "outside \<Rightarrow> flow_dir \<Rightarrow> nat \<Rightarrow> app_flow \<Rightarrow> app_conn tcp_session \<Rightarrow> app_conn option \<times> nat \<Rightarrow> bridge \<Rightarrow> bridge option" where
  "http_connection x dir a f s qn b = (case fst qn of
     None \<Rightarrow> Some (set_nalloc (snd qn) b)
   | Some q \<Rightarrow> do {
       c \<leftarrow> as_http q;
       cn \<leftarrow> feed (parse_http (o_env x)) dir s (c, snd qn);
       let f1 = f\<lparr>f_tcp := Some (s\<lparr>app_parser := Some (HttpApp (fst cn))\<rparr>)\<rparr>;
       b1 \<leftarrow> init_detection x (set_flow a f1 (set_nalloc (snd cn) b));
       (case http_get_current_transaction (Some (fst cn)) of None \<Rightarrow> Some b1
        | Some tx \<Rightarrow> run_rules (rule_engine_inspect_http (o_env x) (o_now x) f1 tx) (JsonHttp tx) b1) })"

definition http_stage :: "outside \<Rightarrow> flow_dir \<Rightarrow> nat \<Rightarrow> bridge \<Rightarrow> bridge option" where
  "http_stage x dir a b = do {
     f \<leftarrow> br_flow a b;
     (if alproto f \<noteq> APP_PROTO_HTTP then Some b
      else do {
        t \<leftarrow> ctx_tcp f;
        case t of None \<Rightarrow> Some b
        | Some s \<Rightarrow> http_connection x dir a f s (open_http (o_env x) (app_parser s) (br_nalloc b)) b }) }"

definition dns_stage :: "outside \<Rightarrow> packet_info \<Rightarrow> pkt_view \<Rightarrow> nat \<Rightarrow> bridge \<Rightarrow> bridge option" where
  "dns_stage x i p a b = do {
     f \<leftarrow> br_flow a b;
     (if alproto f \<noteq> APP_PROTO_DNS \<or> packet_info.flags i AND PKT_DECODED_UDP = 0 then Some b
      else do {
        q0 \<leftarrow> ctx_udp f;
        case open_dns (o_env x) q0 (br_nalloc b) of
          (None, n) \<Rightarrow> Some (set_nalloc n b)
        | (Some q, n) \<Rightarrow>
           (if pv_len p = 0 then Some (set_flow a (f\<lparr>f_udp := Some q\<rparr>) (set_nalloc n b))
            else do {
              c \<leftarrow> as_dns q;
              (_, n1, c') \<leftarrow> dns_parser_parse (o_env x) (Some c) (pv_payload p) (ucast (pv_len p)) False n;
              c1 \<leftarrow> c';
              let f1 = f\<lparr>f_udp := Some (DnsApp c1)\<rparr>;
              let b1 = set_flow a f1 (set_nalloc n1 b);
              (case dns_get_latest_transaction (Some c1) of None \<Rightarrow> Some b1
               | Some tx \<Rightarrow> run_rules (rule_engine_inspect_dns (o_env x) (o_now x) f1 tx) (JsonDns tx) b1) }) }) }"

definition tls_connection :: "outside \<Rightarrow> flow_dir \<Rightarrow> nat \<Rightarrow> app_flow \<Rightarrow> app_conn tcp_session \<Rightarrow> app_conn option \<times> nat \<Rightarrow> bridge \<Rightarrow> bridge option" where
  "tls_connection x dir a f s qn b = (case fst qn of
     None \<Rightarrow> Some (set_nalloc (snd qn) b)
   | Some q \<Rightarrow> do {
       c \<leftarrow> as_tls q;
       cn \<leftarrow> feed (parse_tls (o_md5 x) (o_env x)) dir s (c, snd qn);
       let f1 = f\<lparr>f_tcp := Some (s\<lparr>app_parser := Some (TlsApp (fst cn))\<rparr>)\<rparr>;
       let b1 = set_flow a f1 (set_nalloc (snd cn) b);
       (if tc_client_hello (fst cn) = None then Some b1
        else run_rules (rule_engine_inspect_tls (o_env x) (o_now x) f1 (fst cn)) (JsonTls (fst cn)) b1) })"

definition tls_stage :: "outside \<Rightarrow> flow_dir \<Rightarrow> nat \<Rightarrow> bridge \<Rightarrow> bridge option" where
  "tls_stage x dir a b = do {
     f \<leftarrow> br_flow a b;
     (if alproto f \<noteq> APP_PROTO_TLS then Some b
      else do {
        t \<leftarrow> ctx_tcp f;
        case t of None \<Rightarrow> Some b
        | Some s \<Rightarrow> tls_connection x dir a f s (open_tls (o_env x) (app_parser s) (br_nalloc b)) b }) }"

text \<open>For a UDP packet \<^verbatim>\<open>tcp_hdr\<close> is not null either, being a member of a union, but the detector does not read the flags
  of a flow that is not TCP.\<close>

definition behavior_stage :: "outside \<Rightarrow> pkt_view \<Rightarrow> nat \<Rightarrow> bridge \<Rightarrow> bridge option" where
  "behavior_stage x p a b = (case behavioral_detector_p b of
     None \<Rightarrow> Some b
   | Some d \<Rightarrow> do {
       f \<leftarrow> br_flow a b;
       e \<leftarrow> rule_engine_p b;
       (d1, n1) \<leftarrow> behavioral_detector_inspect_packet (o_jhash x) (o_env x) (o_now x) (o_hour x) f (ucast (pv_len p))
         (map_option fst (pv_tcp p)) (d\<lparr>bd_rule_engine := e\<rparr>) (br_nalloc b);
       Some (set_nalloc n1 (b\<lparr>rule_engine_p := Some (bd_rule_engine d1), behavioral_detector_p := Some d1\<rparr>)) })"

section \<open>A packet\<close>

definition count_packet :: "packet_info \<Rightarrow> bridge \<Rightarrow> bridge" where
  "count_packet i b = (let b1 = b\<lparr>packets_decoded := packets_decoded b + 1\<rparr> in
     if packet_info.flags i AND PKT_DECODED_TCP \<noteq> 0 then b1\<lparr>packets_tcp := packets_tcp b1 + 1\<rparr>
     else if packet_info.flags i AND PKT_DECODED_UDP \<noteq> 0 then b1\<lparr>packets_udp := packets_udp b1 + 1\<rparr>
     else if packet_info.flags i AND PKT_DECODED_ICMP \<noteq> 0 then b1\<lparr>packets_icmp := packets_icmp b1 + 1\<rparr>
     else b1\<lparr>packets_other := packets_other b1 + 1\<rparr>)"

text \<open>The work on the flow at \<open>a\<close>, which the caller holds a reference to.\<close>

definition flow_stages :: "outside \<Rightarrow> packet_info \<Rightarrow> pkt_view \<Rightarrow> nat \<Rightarrow> bridge \<Rightarrow> bridge option" where
  "flow_stages x i p a b = do {
     f \<leftarrow> br_flow a b;
     let dir = get_packet_direction f p;
     st \<leftarrow> flow_update (o_env x) (br_flows b) (o_now x) (Some a) (Some p) dir;
     b1 \<leftarrow> detect_protocol (o_env x) i p dir a (b\<lparr>br_flows := st\<rparr>);
     b2 \<leftarrow> http_stage x dir a b1;
     b3 \<leftarrow> dns_stage x i p a b2;
     b4 \<leftarrow> tls_stage x dir a b3;
     b5 \<leftarrow> behavior_stage x p a b4;
     st' \<leftarrow> flow_release (br_flows b5) (Some a);
     Some (b5\<lparr>br_flows := st'\<rparr>) }"

definition flow_packet :: "outside \<Rightarrow> packet_info \<Rightarrow> pkt_view \<Rightarrow> bridge \<Rightarrow> bridge option" where
  "flow_packet x i p b = do {
     (st, r) \<leftarrow> flow_get (o_crc x) (o_env x) (br_flows b) (o_now x) (Some p);
     let b1 = b\<lparr>br_flows := st\<rparr>;
     (case r of None \<Rightarrow> Some b1
      | Some a \<Rightarrow> flow_stages x i p a (b1\<lparr>packets_with_flow := packets_with_flow b1 + 1\<rparr>)) }"

definition process_packet :: "outside \<Rightarrow> mbuf option \<Rightarrow> bridge \<Rightarrow> (int \<times> bridge) option" where
  "process_packet x mb b = (case mb of
     None \<Rightarrow> Some (-1, b)
   | Some m \<Rightarrow> do {
       let b0 = b\<lparr>packets_processed := packets_processed b + 1\<rparr>;
       (ret, pi) \<leftarrow> decode_packet mb (Some packet_info_zero);
       if ret < 0 then Some (-1, b0)
       else do {
         i \<leftarrow> pi;
         let b1 = count_packet i b0;
         (if packet_info.flags i AND PKT_DECODED_TCP \<noteq> 0 \<or> packet_info.flags i AND PKT_DECODED_UDP \<noteq> 0 then do {
            data \<leftarrow> mtod m;
            p \<leftarrow> load_pkt data i;
            b2 \<leftarrow> flow_packet x i p b1;
            Some (0, b2) }
          else Some (0, b1)) } })"

definition get_bridge_statistics :: "bridge \<Rightarrow> u64 \<times> u64 \<times> u64 \<times> u64 \<times> u64 \<times> u64" where
  "get_bridge_statistics b = (packets_processed b, packets_decoded b, packets_tcp b, packets_udp b, packets_icmp b, packets_other b)"


section \<open>Types of flows\<close>

text \<open>What holds of every flow of the pipeline: the attempts at detection are bounded, no UDP parser exists, only TCP flows have a protocol, and
  the parser of a session has the type of the protocol.\<close>

fun parser_fits :: "app_proto \<Rightarrow> app_conn \<Rightarrow> bool" where
  "parser_fits ap (HttpApp c) = (ap = APP_PROTO_HTTP)"
| "parser_fits ap (TlsApp c) = (ap = APP_PROTO_TLS)"
| "parser_fits ap (DnsApp c) = False"

definition session_fits :: "app_proto \<Rightarrow> app_conn tcp_session option \<Rightarrow> bool" where
  "session_fits ap t \<longleftrightarrow> (\<forall>s q. t = Some s \<longrightarrow> app_parser s = Some q \<longrightarrow> parser_fits ap q)"

definition app_typed :: "app_flow \<Rightarrow> bool" where
  "app_typed f \<longleftrightarrow> alproto_ts f \<le> FLOW_ALPROTO_MAX_ATTEMPTS \<and> alproto_tc f \<le> FLOW_ALPROTO_MAX_ATTEMPTS \<and> f_udp f = None \<and> (f_proto f \<noteq> IPPROTO_TCP \<longrightarrow> alproto f = APP_PROTO_UNKNOWN \<and> f_tcp f = None) \<and>
     session_fits (alproto f) (f_tcp f)"

lemma session_fits_simps [simp]:
  "session_fits ap None"
  "session_fits ap (Some s) \<longleftrightarrow> (\<forall>q. app_parser s = Some q \<longrightarrow> parser_fits ap q)"
  by (auto simp: session_fits_def)

definition all_flows :: "('p flow \<Rightarrow> bool) \<Rightarrow> 'p flow_state \<Rightarrow> bool" where
  "all_flows P st \<longleftrightarrow> (\<forall>a f. fheap st a = Some f \<longrightarrow> P f)"

lemma all_flows_upd: "all_flows P st \<Longrightarrow> P f \<Longrightarrow> all_flows P (st\<lparr>fheap := (fheap st)(a \<mapsto> f)\<rparr>)"
  by (auto simp: all_flows_def)

lemma flow_fill_ctx: "f_udp (flow_fill cfg now hash p f) = f_udp f" "alproto (flow_fill cfg now hash p f) = alproto f"
  "alproto_ts (flow_fill cfg now hash p f) = alproto_ts f" "alproto_tc (flow_fill cfg now hash p f) = alproto_tc f"
  by (simp_all add: flow_fill_def Let_def)

lemma attach_session_typed:
  fixes f f' :: app_flow
  assumes "attach_session env g f = (g', f')" "f_tcp f = None" "f_udp f = None" "alproto f = APP_PROTO_UNKNOWN" "alproto_ts f = 0" "alproto_tc f = 0"
  shows "app_typed f'" "f_proto f' = f_proto f"
  using assms by (auto simp: attach_session_def new_tcp_session_def app_typed_def Let_def split: if_splits)

lemma flow_get_typed:
  fixes st :: "app_conn flow_state"
  assumes "all_flows app_typed st" "flow_get crc env st now (Some p) = Some (st', r)"
  shows "all_flows app_typed st'" "r = Some a \<Longrightarrow> \<exists>f. fheap st' a = Some f \<and> f_proto f = pv_proto p"
proof -
  let ?h = "flow_hash_calculate crc p"
  obtain tbl idx where tbl: "flow_hash_table st = Some tbl" "idx = unat (?h AND (hash_size (fcfg st) - 1))" "idx < length tbl"
    using assms(2) by (auto simp: flow_get_def Let_def bind_eq_Some_conv split: if_splits)
  then obtain s where s: "bucket_search (fheap st) ?h p (tbl ! idx) = Some s"
    using assms(2) by (auto simp: flow_get_def Let_def bind_eq_Some_conv)
  have "all_flows app_typed st' \<and> (r = Some a \<longrightarrow> (\<exists>f. fheap st' a = Some f \<and> f_proto f = pv_proto p))"
  proof (cases s)
    case None
    then have "flow_create env st now ?h p tbl idx = (st', r)"
      using assms(2) tbl s by (simp add: flow_get_def Let_def)
    then show ?thesis
      using assms(1) unfolding flow_create_def flow_alloc_def Let_def
      by (auto simp: all_flows_def flow_fill_ctx flow_zero_def split: if_splits prod.splits dest: attach_session_typed)
  next
    case (Some c)
    then obtain f where f: "fheap st c = Some f" "flow_match f p"
      using bucket_search_found s by metis
    then have "st' = st\<lparr>fheap := (fheap st)(c \<mapsto> f\<lparr>use_cnt := use_cnt f + 1\<rparr>)\<rparr>" "r = Some c"
      using assms(2) tbl s Some by (auto simp: flow_get_def Let_def)
    then show ?thesis
      using assms(1) f by (auto simp: all_flows_def app_typed_def flow_match_def)
  qed
  then show "all_flows app_typed st'" "r = Some a \<Longrightarrow> \<exists>f. fheap st' a = Some f \<and> f_proto f = pv_proto p"
    by blast+
qed

lemma tcp_update_parser: "tcp_update env g p dir fl sq t = Some (g', t') \<Longrightarrow> app_parser t' = app_parser t"
  by (auto simp: tcp_update_def Let_def bind_eq_Some_conv split: if_splits prod.splits)

lemma flow_count_ctx: "f_udp (flow_count f p dir now) = f_udp f" "alproto (flow_count f p dir now) = alproto f"
  "alproto_ts (flow_count f p dir now) = alproto_ts f" "alproto_tc (flow_count f p dir now) = alproto_tc f"
  by (simp_all add: flow_count_def)

lemma flow_update_typed:
  fixes st :: "app_conn flow_state"
  assumes "all_flows app_typed st" "flow_update env st now (Some a) (Some p) dir = Some st'"
  shows "all_flows app_typed st'" "\<exists>f f'. fheap st a = Some f \<and> fheap st' a = Some f' \<and> f_proto f' = f_proto f \<and> alproto f' = alproto f"
proof -
  obtain f where f: "fheap st a = Some f"
    using assms(2) by (auto simp: flow_update_def bind_eq_Some_conv)
  have t: "app_typed (flow_count f p dir now)"
    using assms(1) f by (simp add: all_flows_def app_typed_def flow_count_ctx)
  have "all_flows app_typed st' \<and> (\<exists>f'. fheap st' a = Some f' \<and> f_proto f' = f_proto f \<and> alproto f' = alproto f)"
  proof (cases "\<exists>t fl sq. f_tcp f = Some t \<and> pv_tcp p = Some (fl, sq) \<and> f_proto f = IPPROTO_TCP")
    case True
    then obtain t0 fl sq where c: "f_tcp f = Some t0" "pv_tcp p = Some (fl, sq)" "f_proto f = IPPROTO_TCP"
      by blast
    then obtain g' t' where u: "tcp_update env (freasm st) p dir fl sq t0 = Some (g', t')"
      using assms(2) f by (auto simp: flow_update_def Let_def bind_eq_Some_conv)
    then have "app_parser t' = app_parser t0"
      by (rule tcp_update_parser)
    moreover obtain f2 where f2: "f2 = (if ts_state t0 = TCP_SYN_RECV \<and> ts_state t' = TCP_ESTABLISHED
        then (flow_count f p dir now)\<lparr>timeout_policy := timeout_est (fcfg st)\<rparr> else flow_count f p dir now)\<lparr>f_tcp := Some t'\<rparr>"
        "fheap st' = (fheap st)(a \<mapsto> f2)"
      using assms(2) f c u by (auto simp: flow_update_def Let_def)
    ultimately have "app_typed f2 \<and> f_proto f2 = f_proto f \<and> alproto f2 = alproto f"
      using t c by (simp add: app_typed_def flow_count_ctx)
    then show ?thesis
      using assms(1) f2(2) by (auto simp: all_flows_def)
  next
    case False
    then have "st' = st\<lparr>fheap := (fheap st)(a \<mapsto> flow_count f p dir now)\<rparr>"
      using assms(2) f by (auto simp: flow_update_def Let_def split: option.splits if_splits)
    then show ?thesis
      using assms(1) t by (auto simp: all_flows_def flow_count_ctx)
  qed
  then show "all_flows app_typed st'" "\<exists>f f'. fheap st a = Some f \<and> fheap st' a = Some f' \<and> f_proto f' = f_proto f \<and> alproto f' = alproto f"
    using f by blast+
qed

lemma flow_release_typed:
  fixes st :: "app_conn flow_state"
  assumes "all_flows app_typed st" "flow_release st (Some a) = Some st'"
  shows "all_flows app_typed st'"
  using assms by (auto simp: flow_release_def all_flows_def bind_eq_Some_conv app_typed_def split: if_splits)

section \<open>The invariant of the pipeline\<close>

definition engine_ready :: "(bytes \<Rightarrow> u32) \<Rightarrow> bridge \<Rightarrow> bool" where
  "engine_ready jh b \<longleftrightarrow> (\<forall>e. rule_engine_p b = Some e \<longrightarrow> engine_inv e) \<and>
     (\<forall>d. behavioral_detector_p b = Some d \<longrightarrow> rule_engine_p b \<noteq> None \<and> detector_inv jh d)"

definition counters_ok :: "bridge \<Rightarrow> bool" where
  "counters_ok b \<longleftrightarrow> packets_decoded b = packets_tcp b + packets_udp b + packets_icmp b + packets_other b"

definition bridge_inv :: "(bytes \<Rightarrow> u32) \<Rightarrow> bridge \<Rightarrow> bool" where
  "bridge_inv jh b \<longleftrightarrow> flow_inv (br_flows b) \<and> all_flows app_typed (br_flows b) \<and> engine_ready jh b \<and> counters_ok b"

text \<open>What a stage keeps: the invariant, and the protocol number of the flow at \<open>a\<close>.\<close>

definition keeps :: "(bytes \<Rightarrow> u32) \<Rightarrow> nat \<Rightarrow> bridge \<Rightarrow> bridge \<Rightarrow> bool" where
  "keeps jh a b b' \<longleftrightarrow> (bridge_inv jh b \<longrightarrow> bridge_inv jh b') \<and>
     (\<forall>f. br_flow a b = Some f \<longrightarrow> (\<exists>f'. br_flow a b' = Some f' \<and> f_proto f' = f_proto f))"

lemma keeps_refl [simp]: "keeps jh a b b"
  by (simp add: keeps_def)

lemma keeps_trans: "keeps jh a b1 b2 \<Longrightarrow> keeps jh a b2 b3 \<Longrightarrow> keeps jh a b1 b3"
  unfolding keeps_def by metis

lemma set_nalloc_keeps [simp]: "keeps jh a b (set_nalloc n b)"
  by (simp add: keeps_def set_nalloc_def bridge_inv_def flow_inv_def all_flows_def engine_ready_def counters_ok_def br_flow_def)

lemma set_nalloc_flow [simp]:
  "br_flow a (set_nalloc n b) = br_flow a b" "br_nalloc (set_nalloc n b) = n" "rule_engine_p (set_nalloc n b) = rule_engine_p b"
  "behavioral_detector_p (set_nalloc n b) = behavioral_detector_p b" "json_output_p (set_nalloc n b) = json_output_p b"
  by (simp_all add: br_flow_def set_nalloc_def br_nalloc_def)

text \<open>Writing a flow back.\<close>

definition same_stream :: "'p flow \<Rightarrow> 'p flow \<Rightarrow> bool" where
  "same_stream f f' \<longleftrightarrow> flow_hash f' = flow_hash f \<and> f_proto f' = f_proto f \<and>
     map_option (\<lambda>t. (toserver_sb t, toclient_sb t)) (f_tcp f') = map_option (\<lambda>t. (toserver_sb t, toclient_sb t)) (f_tcp f)"

lemma same_stream_ok: "same_stream f f' \<Longrightarrow> flow_ok k f \<Longrightarrow> flow_ok k f'"
  by (cases "f_tcp f"; cases "f_tcp f'") (auto simp: same_stream_def flow_ok_alt)

lemma set_flow_keeps:
  assumes "br_flow a b = Some f" "same_stream f f'" "app_typed f \<Longrightarrow> app_typed f'"
  shows "keeps jh a b (set_flow a f' b)"
proof -
  have "bridge_inv jh (set_flow a f' b)" if i: "bridge_inv jh b"
  proof -
    have f: "fheap (br_flows b) a = Some f" "flow_inv (br_flows b)" "all_flows app_typed (br_flows b)"
      using i assms(1) by (simp_all add: br_flow_def bridge_inv_def)
    then have "flow_ok (cfg_max_segments (reasm.global_config (freasm (br_flows b)))) f'"
      using same_stream_ok [OF assms(2)] by (auto simp: flow_inv_def)
    then have "flow_inv ((br_flows b)\<lparr>fheap := (fheap (br_flows b))(a \<mapsto> f')\<rparr>)"
      using flow_inv_heap_upd [OF f(2,1), of f' "freasm (br_flows b)"] assms(2) by (simp add: same_stream_def)
    moreover have "app_typed f'"
      using assms(3) f by (simp add: all_flows_def)
    ultimately show ?thesis
      using i by (auto simp: bridge_inv_def set_flow_def all_flows_upd engine_ready_def counters_ok_def)
  qed
  then show ?thesis
    using assms(1,2) by (simp add: keeps_def br_flow_def set_flow_def same_stream_def)
qed

lemma set_flow_simps [simp]:
  "br_flow a (set_flow a f b) = Some f" "br_nalloc (set_flow a f b) = br_nalloc b" "rule_engine_p (set_flow a f b) = rule_engine_p b"
  "behavioral_detector_p (set_flow a f b) = behavioral_detector_p b"
  by (simp_all add: br_flow_def set_flow_def br_nalloc_def)

text \<open>Changes beside the flows, the engine and the counters.\<close>

lemma side_keeps:
  "keeps jh a b (b\<lparr>proto_detect_ctx_p := c\<rparr>)" "keeps jh a b (b\<lparr>br_detect := g\<rparr>)" "keeps jh a b (b\<lparr>protocols_detected := k\<rparr>)"
  "keeps jh a b (b\<lparr>json_output_p := j\<rparr>)" "keeps jh a b (b\<lparr>packets_with_flow := k\<rparr>)"
  by (simp_all add: keeps_def bridge_inv_def engine_ready_def counters_ok_def br_flow_def)

lemma engine_keeps:
  assumes "engine_ready jh b \<Longrightarrow> engine_ready jh (b\<lparr>rule_engine_p := e, behavioral_detector_p := d\<rparr>)"
  shows "keeps jh a b (b\<lparr>rule_engine_p := e, behavioral_detector_p := d\<rparr>)"
  using assms by (simp add: keeps_def bridge_inv_def counters_ok_def br_flow_def)

section \<open>The stages keep the invariant\<close>

lemma ensure_detect_ctx_keeps: "keeps jh a b (ensure_detect_ctx env b)" "br_flow a (ensure_detect_ctx env b) = br_flow a b"
proof -
  show "keeps jh a b (ensure_detect_ctx env b)"
    unfolding ensure_detect_ctx_def
    by (auto simp: Let_def split: option.split prod.split intro!: keeps_trans [OF _ set_nalloc_keeps] keeps_trans [OF side_keeps(2) side_keeps(1)])
  show "br_flow a (ensure_detect_ctx env b) = br_flow a b"
    by (auto simp: ensure_detect_ctx_def Let_def br_flow_def set_nalloc_def split: option.split prod.split)
qed

lemma inc_le_word: "w < k \<Longrightarrow> w + 1 \<le> (k :: u8)"
  by (rule inc_le)

lemma detect_attempt_keeps:
  assumes "detect_attempt p dir a f b = Some b'" "br_flow a b = Some f" "alproto f = APP_PROTO_UNKNOWN" "f_proto f = IPPROTO_TCP"
    and "attempts dir f < FLOW_ALPROTO_MAX_ATTEMPTS"
  shows "keeps jh a b b'"
proof -
  obtain ret ctx res where r: "proto_detect_get_proto (proto_detect_global.global_config (br_detect b)) (proto_detect_ctx_p b) (Some f)
      (pv_payload p) (ucast (pv_len p)) (detect_dir dir) (Some detect_unknown) = Some (ret, ctx, res)"
    using assms(1) by (auto simp: detect_attempt_def bind_eq_Some_conv)
  have k: "keeps jh a b (b\<lparr>proto_detect_ctx_p := ctx\<rparr>)" "keeps jh a b (b\<lparr>proto_detect_ctx_p := ctx, protocols_detected := k\<rparr>)" for k
    by (rule side_keeps(1), rule keeps_trans [OF side_keeps(1) side_keeps(3)])
  obtain f1 b1 where b': "b' = set_flow a (count_attempt dir f1) b1" "f1 = f \<or> (\<exists>q. f1 = f\<lparr>alproto := q\<rparr>)" "keeps jh a b b1" "br_flow a b1 = Some f"
  proof (cases "ret = 0 \<and> (\<exists>r. res = Some r \<and> protocol r \<noteq> APP_PROTO_UNKNOWN)")
    case True
    then show ?thesis
      using assms(1,2) r k(2) [of "protocols_detected b + 1"]
      by (intro that [of "f\<lparr>alproto := protocol (the res)\<rparr>" "b\<lparr>proto_detect_ctx_p := ctx, protocols_detected := protocols_detected b + 1\<rparr>"])
         (auto simp: detect_attempt_def br_flow_def Let_def)
  next
    case False
    then show ?thesis
      using assms(1,2) r k(1)
      by (intro that [of f "b\<lparr>proto_detect_ctx_p := ctx\<rparr>"]) (auto simp: detect_attempt_def br_flow_def Let_def split: option.splits)
  qed
  have s: "same_stream f (count_attempt dir f1)"
    using b'(2) by (auto simp: same_stream_def count_attempt_def)
  have t: "app_typed (count_attempt dir f1)" if "app_typed f"
  proof -
    have "app_parser s = None" if "f_tcp f = Some s" for s
      using \<open>app_typed f\<close> that assms(3) by (cases "app_parser s"; cases "the (app_parser s)") (auto simp: app_typed_def)
    then show ?thesis
      using that b'(2) assms(4) inc_le_word [OF assms(5)] by (cases "f_tcp f") (auto simp: app_typed_def count_attempt_def attempts_def split: if_splits)
  qed
  show ?thesis
    using set_flow_keeps [OF b'(4) s t] keeps_trans [OF b'(3)] b'(1) by blast
qed

lemma detect_protocol_keeps:
  assumes "detect_protocol env i p dir a b = Some b'"
    and "\<And>f. br_flow a b = Some f \<Longrightarrow> packet_info.flags i AND PKT_DECODED_TCP \<noteq> 0 \<Longrightarrow> f_proto f = IPPROTO_TCP"
  shows "keeps jh a b b'"
  using assms ensure_detect_ctx_keeps(1) [of jh a b env] ensure_detect_ctx_keeps(2) [of a env b] detect_attempt_keeps [where b = "ensure_detect_ctx env b" and b' = b' and a = a and jh = jh]
  by (auto simp: detect_protocol_def bind_eq_Some_conv Let_def split: if_splits intro: keeps_trans)

lemma inspect_rules_inv:
  "inspect_rules chk pr env now flow rs detail e n k = Some (k', e', n') \<Longrightarrow> engine_inv e \<Longrightarrow> engine_inv e'"
proof (induction rs arbitrary: detail e n k)
  case (Cons r rs)
  obtain m d1 where c: "chk r detail = (m, d1)"
    by force
  show ?case
  proof (cases "dr_protocol r = pr \<and> m")
    case True
    obtain e1 n1 where a: "create_alert env now r flow (Some (the d1)) e n = (e1, n1)"
      by force
    then obtain t where t: "d1 = Some t" "create_alert env now r flow (Some t) e n = (e1, n1)"
        "inspect_rules chk pr env now flow rs d1 e1 n1 (k + 1) = Some (k', e', n')"
      using Cons.prems(1) c True by (auto simp: bind_eq_Some_conv Let_def)
    then show ?thesis
      using Cons.IH [OF t(3)] create_alert_inv [OF Cons.prems(2), of env now r flow "Some t" n] by simp
  qed (use Cons c in \<open>auto split: if_splits\<close>)
qed simp

lemma count_inspection_inv: "engine_inv e \<Longrightarrow> engine_inv (count_inspection e)"
  by (simp add: engine_inv_def count_inspection_def)

lemma load_rule_inv: "load_rule env bs (e, n, k) = Some (e', s) \<Longrightarrow> engine_inv e \<Longrightarrow> engine_inv e'"
  by (cases bs) (auto simp: load_rule_def Let_def bind_eq_Some_conv add_rule_inv split_beta split: if_splits)

lemma load_rules_inv: "load_rules env bs (e, n, k) = Some (e', n', k') \<Longrightarrow> engine_inv e \<Longrightarrow> engine_inv e'"
  by (induction bs arbitrary: e n k) (auto simp: bind_eq_Some_conv dest!: load_rule_inv)

lemma load_builtin_inv: "rule_engine_load_builtin_rules env e n = Some (k, e', n') \<Longrightarrow> engine_inv e \<Longrightarrow> engine_inv e'"
  by (auto simp: rule_engine_load_builtin_rules_def load_http_rules_def load_dns_rules_def load_tls_rules_def bind_eq_Some_conv
      dest!: load_rules_inv)

lemma run_rules_keeps:
  assumes "run_rules inspect ev b = Some b'"
    and "\<And>e n k e' n'. inspect e n = Some (k, e', n') \<Longrightarrow> engine_inv e \<Longrightarrow> engine_inv e'"
  shows "keeps jh a b b'"
proof (cases "rule_engine_p b")
  case (Some e)
  then obtain k e1 n1 where i: "inspect e (br_nalloc b) = Some (k, e1, n1)"
      "b' = set_nalloc n1 (b\<lparr>rule_engine_p := Some e1, json_output_p := map_option (\<lambda>l. ev # l) (json_output_p b)\<rparr>)"
    using assms(1) by (auto simp: run_rules_def bind_eq_Some_conv)
  have "keeps jh a b (b\<lparr>rule_engine_p := Some e1, json_output_p := map_option (\<lambda>l. ev # l) (json_output_p b)\<rparr>)"
    using assms(2) [OF i(1)] Some by (auto simp: keeps_def bridge_inv_def engine_ready_def counters_ok_def br_flow_def)
  then show ?thesis
    using i(2) keeps_trans set_nalloc_keeps by blast
qed (use assms in \<open>simp add: run_rules_def\<close>)

lemma init_detection_keeps:
  assumes "init_detection x b = Some b'" "o_jhash x = jh"
  shows "keeps jh a b b'" "br_flow a b' = br_flow a b"
proof -
  have "keeps jh a b b' \<and> br_flow a b' = br_flow a b"
  proof (cases "rule_engine_p b")
    case None
    let ?n = "br_nalloc b" and ?b1 = "b\<lparr>json_output_p := (if o_json_ok x then Some [] else None)\<rparr>"
    show ?thesis
    proof (cases "malloc_ok (o_env x) ?n")
      case False
      then have "b' = set_nalloc (?n + 1) ?b1"
        using assms None by (simp add: init_detection_def rule_engine_init_def Let_def)
      then show ?thesis
        using keeps_trans [OF side_keeps(4) set_nalloc_keeps] by (simp add: br_flow_def set_nalloc_def)
    next
      case True
      let ?e = "rule_engine_zero\<lparr>max_alerts := MAX_ALERTS_DEFAULT\<rparr>"
      obtain k e1 n1 where l: "rule_engine_load_builtin_rules (o_env x) ?e (?n + 1) = Some (k, e1, n1)"
        using assms None True by (auto simp: init_detection_def rule_engine_init_def Let_def bind_eq_Some_conv)
      define e2 where "e2 = (if o_json_ok x then rule_engine_set_json_output (Some []) e1 else e1)"
      define d where "d = behavioral_detector_init (Some e2) (malloc_ok (o_env x) n1)"
      have b': "b' = set_nalloc (n1 + 1) (?b1\<lparr>rule_engine_p := Some e2, behavioral_detector_p := d\<rparr>)"
        using assms None True l by (simp add: init_detection_def rule_engine_init_def Let_def e2_def d_def)
      have e2: "engine_inv e2"
        using load_builtin_inv [OF l] engine_zero_inv by (auto simp: e2_def engine_inv_def rule_engine_set_json_output_def)
      have "detector_inv jh dd" if "d = Some dd" for dd
        using that e2 fresh_detector_inv [of jh]
        by (auto simp: d_def behavioral_detector_init_def behavioral_detector_zero_def detector_inv_def split: if_splits)
      then have "keeps jh a ?b1 (?b1\<lparr>rule_engine_p := Some e2, behavioral_detector_p := d\<rparr>)"
        using e2 by (intro engine_keeps) (auto simp: engine_ready_def)
      then have "keeps jh a b b'"
        unfolding b' by (rule keeps_trans [OF keeps_trans [OF side_keeps(4)] set_nalloc_keeps])
      then show ?thesis
        using b' by (simp add: br_flow_def set_nalloc_def)
    qed
  qed (use assms in \<open>simp add: init_detection_def\<close>)
  then show "keeps jh a b b'" "br_flow a b' = br_flow a b"
    by simp_all
qed

text \<open>A stage that stores a parser of the flow's protocol in its session.\<close>

lemma store_parser_keeps:
  assumes "br_flow a b = Some f" "f_tcp f = Some s" "parser_fits (alproto f) q"
  shows "keeps jh a b (set_flow a (f\<lparr>f_tcp := Some (s\<lparr>app_parser := Some q\<rparr>)\<rparr>) (set_nalloc n b))"
proof -
  have "br_flow a (set_nalloc n b) = Some f"
    using assms(1) by simp
  then have "keeps jh a (set_nalloc n b) (set_flow a (f\<lparr>f_tcp := Some (s\<lparr>app_parser := Some q\<rparr>)\<rparr>) (set_nalloc n b))"
    by (rule set_flow_keeps) (use assms in \<open>auto simp: same_stream_def app_typed_def\<close>)
  then show ?thesis
    using keeps_trans set_nalloc_keeps by blast
qed

lemma ctx_tcp_Some: "ctx_tcp f = Some (Some s) \<longleftrightarrow> f_tcp f = Some s"
  by (auto simp: ctx_tcp_def split: option.splits)

lemma http_connection_keeps:
  assumes "http_connection x dir a f s qn b = Some b'" "br_flow a b = Some f" "f_tcp f = Some s" "alproto f = APP_PROTO_HTTP" "o_jhash x = jh"
  shows "keeps jh a b b'"
proof (cases "fst qn")
  case (Some q)
  then obtain cn b1 where i: "init_detection x (set_flow a (f\<lparr>f_tcp := Some (s\<lparr>app_parser := Some (HttpApp (fst cn))\<rparr>)\<rparr>) (set_nalloc (snd cn) b)) = Some b1"
      "(case http_get_current_transaction (Some (fst cn)) of None \<Rightarrow> Some b1
        | Some tx \<Rightarrow> run_rules (rule_engine_inspect_http (o_env x) (o_now x) (f\<lparr>f_tcp := Some (s\<lparr>app_parser := Some (HttpApp (fst cn))\<rparr>)\<rparr>) tx) (JsonHttp tx) b1) = Some b'"
    using assms(1) by (auto simp: http_connection_def bind_eq_Some_conv Let_def)
  have "keeps jh a b b1"
    using keeps_trans [OF store_parser_keeps [OF assms(2,3), of "HttpApp (fst cn)"] init_detection_keeps(1) [OF i(1) assms(5)]] assms(4) by simp
  moreover have "keeps jh a b1 b'"
  proof (cases "http_get_current_transaction (Some (fst cn))")
    case Some
    then show ?thesis
      using i(2) by (auto simp: rule_engine_inspect_http_def intro!: run_rules_keeps intro: inspect_rules_inv count_inspection_inv)
  qed (use i(2) in simp)
  ultimately show ?thesis
    by (rule keeps_trans)
qed (use assms in \<open>auto simp: http_connection_def\<close>)

lemma http_stage_keeps:
  assumes "http_stage x dir a b = Some b'" "o_jhash x = jh"
  shows "keeps jh a b b'"
proof -
  obtain f where f: "br_flow a b = Some f"
    using assms(1) by (auto simp: http_stage_def bind_eq_Some_conv)
  show ?thesis
  proof (cases "alproto f = APP_PROTO_HTTP \<and> (\<exists>s. f_tcp f = Some s)")
    case True
    then show ?thesis
      using assms f by (auto simp: http_stage_def ctx_tcp_def intro: http_connection_keeps)
  next
    case False
    then have "b' = b"
      using assms(1) f by (auto simp: http_stage_def ctx_tcp_def split: if_splits option.splits)
    then show ?thesis
      by simp
  qed
qed

lemma tls_connection_keeps:
  assumes "tls_connection x dir a f s qn b = Some b'" "br_flow a b = Some f" "f_tcp f = Some s" "alproto f = APP_PROTO_TLS"
  shows "keeps jh a b b'"
proof (cases "fst qn")
  case (Some q)
  let ?b1 = "\<lambda>cn. set_flow a (f\<lparr>f_tcp := Some (s\<lparr>app_parser := Some (TlsApp (fst cn))\<rparr>)\<rparr>) (set_nalloc (snd cn) b)"
  obtain cn where i: "(if tc_client_hello (fst cn) = None then Some (?b1 cn)
        else run_rules (rule_engine_inspect_tls (o_env x) (o_now x) (f\<lparr>f_tcp := Some (s\<lparr>app_parser := Some (TlsApp (fst cn))\<rparr>)\<rparr>) (fst cn)) (JsonTls (fst cn)) (?b1 cn)) = Some b'"
    using assms(1) Some by (auto simp: tls_connection_def bind_eq_Some_conv Let_def)
  have "keeps jh a b (?b1 cn)"
    using store_parser_keeps [OF assms(2,3), of "TlsApp (fst cn)"] assms(4) by simp
  moreover have "keeps jh a (?b1 cn) b'"
    using i by (auto simp: rule_engine_inspect_tls_def split: if_splits intro!: run_rules_keeps intro: inspect_rules_inv count_inspection_inv)
  ultimately show ?thesis
    by (rule keeps_trans)
qed (use assms in \<open>auto simp: tls_connection_def\<close>)

lemma tls_stage_keeps:
  assumes "tls_stage x dir a b = Some b'"
  shows "keeps jh a b b'"
proof -
  obtain f where f: "br_flow a b = Some f"
    using assms(1) by (auto simp: tls_stage_def bind_eq_Some_conv)
  show ?thesis
  proof (cases "alproto f = APP_PROTO_TLS \<and> (\<exists>s. f_tcp f = Some s)")
    case True
    then show ?thesis
      using assms f by (auto simp: tls_stage_def ctx_tcp_def intro: tls_connection_keeps)
  next
    case False
    then have "b' = b"
      using assms(1) f by (auto simp: tls_stage_def ctx_tcp_def split: if_splits option.splits)
    then show ?thesis
      by simp
  qed
qed

text \<open>The DNS stage does nothing: a flow recognised as DNS is a TCP flow, and its packets are not UDP.\<close>

lemma dns_stage_idle:
  assumes "dns_stage x i p a b = Some b'" "br_flow a b = Some f"
    and "alproto f = APP_PROTO_DNS \<Longrightarrow> packet_info.flags i AND PKT_DECODED_UDP = 0"
  shows "b' = b"
  using assms by (auto simp: dns_stage_def split: if_splits)

lemma behavior_stage_keeps:
  assumes "behavior_stage x p a b = Some b'" "o_jhash x = jh"
  shows "keeps jh a b b'"
proof (cases "behavioral_detector_p b")
  case (Some d)
  then obtain f e d1 n1 where r: "br_flow a b = Some f" "rule_engine_p b = Some e"
      "behavioral_detector_inspect_packet jh (o_env x) (o_now x) (o_hour x) f (ucast (pv_len p)) (map_option fst (pv_tcp p))
         (d\<lparr>bd_rule_engine := e\<rparr>) (br_nalloc b) = Some (d1, n1)"
      "b' = set_nalloc n1 (b\<lparr>rule_engine_p := Some (bd_rule_engine d1), behavioral_detector_p := Some d1\<rparr>)"
    using assms by (auto simp: behavior_stage_def bind_eq_Some_conv)
  have "keeps jh a b (b\<lparr>rule_engine_p := Some (bd_rule_engine d1), behavioral_detector_p := Some d1\<rparr>)"
  proof (rule engine_keeps)
    assume "engine_ready jh b"
    then have "detector_inv jh (d\<lparr>bd_rule_engine := e\<rparr>)"
      using Some r(2) by (auto simp: engine_ready_def detector_inv_def)
    then have "detector_inv jh d1"
      using inspect_packet_inv [OF _ r(3)] by simp
    then show "engine_ready jh (b\<lparr>rule_engine_p := Some (bd_rule_engine d1), behavioral_detector_p := Some d1\<rparr>)"
      by (simp add: engine_ready_def detector_inv_def)
  qed
  then show ?thesis
    using r(4) keeps_trans [OF _ set_nalloc_keeps] by blast
qed (use assms in \<open>simp add: behavior_stage_def\<close>)

section \<open>Packets\<close>

text \<open>The transport flags of a decoded packet agree with its protocol number.\<close>

definition flags_ok :: "packet_info \<Rightarrow> bool" where
  "flags_ok i \<longleftrightarrow> (packet_info.flags i AND PKT_DECODED_TCP \<noteq> 0 \<longrightarrow> ip_proto i = IPPROTO_TCP) \<and>
     (packet_info.flags i AND PKT_DECODED_UDP \<noteq> 0 \<longrightarrow> ip_proto i = IPPROTO_UDP)"

definition no_transport :: "packet_info \<Rightarrow> bool" where
  "no_transport i \<longleftrightarrow> packet_info.flags i AND PKT_DECODED_TCP = 0 \<and> packet_info.flags i AND PKT_DECODED_UDP = 0"

lemma flags_or_and: "((w :: u32) OR k) AND m = (w AND m) OR (k AND m)"
  by (rule bit_word_eqI) (auto simp: bit_simps)

lemma no_transport_ok: "no_transport i \<Longrightarrow> flags_ok i"
  by (simp add: flags_ok_def no_transport_def)

lemma network_bits:
  "((w :: u32) OR PKT_ERROR) AND PKT_DECODED_TCP = w AND PKT_DECODED_TCP" "(w OR PKT_ERROR) AND PKT_DECODED_UDP = w AND PKT_DECODED_UDP"
  "(w OR PKT_DECODED_ETH) AND PKT_DECODED_TCP = w AND PKT_DECODED_TCP" "(w OR PKT_DECODED_ETH) AND PKT_DECODED_UDP = w AND PKT_DECODED_UDP"
  "(w OR PKT_DECODED_IPV4) AND PKT_DECODED_TCP = w AND PKT_DECODED_TCP" "(w OR PKT_DECODED_IPV4) AND PKT_DECODED_UDP = w AND PKT_DECODED_UDP"
  "(w OR PKT_DECODED_IPV6) AND PKT_DECODED_TCP = w AND PKT_DECODED_TCP" "(w OR PKT_DECODED_IPV6) AND PKT_DECODED_UDP = w AND PKT_DECODED_UDP"
  "(w OR PKT_DECODED_ICMP) AND PKT_DECODED_TCP = w AND PKT_DECODED_TCP" "(w OR PKT_DECODED_ICMP) AND PKT_DECODED_UDP = w AND PKT_DECODED_UDP"
  "(w OR PKT_DECODED_TCP) AND PKT_DECODED_UDP = w AND PKT_DECODED_UDP" "(w OR PKT_DECODED_UDP) AND PKT_DECODED_TCP = w AND PKT_DECODED_TCP"
  unfolding flags_or_and by (simp_all add: pkt_flag_defs)

lemma decode_ipv4_flags: "no_transport i \<Longrightarrow> decode_ipv4 i data off len = Some (r, i') \<Longrightarrow> no_transport i'"
  by (cases "rd8 data (off + 9)"; cases "rd_be16 data (off + 2)"; cases "rd8 data off")
     (auto simp: decode_ipv4_def pkt_error_def no_transport_def network_bits Let_def simp del: rd8_eq_Some rd8_eq_None split: if_split_asm)

lemma decode_ipv6_flags: "no_transport i \<Longrightarrow> decode_ipv6 i data off len = Some (r, i') \<Longrightarrow> no_transport i'"
  by (auto simp: decode_ipv6_def pkt_error_def no_transport_def network_bits bind_eq_Some_conv split: if_splits)

lemma decode_network_flags: "no_transport i \<Longrightarrow> decode_network i data off len = Some (r, i') \<Longrightarrow> no_transport i'"
  by (auto simp: decode_network_def bind_eq_Some_conv split: if_splits dest: decode_ipv4_flags decode_ipv6_flags)

lemma decode_tcp_flags:
  "no_transport i \<Longrightarrow> ip_proto i = IPPROTO_TCP \<Longrightarrow> decode_tcp i data off len = Some (r, i') \<Longrightarrow> flags_ok i'"
  by (cases "rd_be16 data off"; cases "rd_be16 data (off + 2)"; cases "rd8 data (off + 12)")
     (auto simp: decode_tcp_def pkt_error_def no_transport_def flags_ok_def network_bits Let_def simp del: rd8_eq_Some rd8_eq_None split: if_split_asm)

lemma decode_udp_flags:
  "no_transport i \<Longrightarrow> ip_proto i = IPPROTO_UDP \<Longrightarrow> decode_udp i data off len = Some (r, i') \<Longrightarrow> flags_ok i'"
  by (auto simp: decode_udp_def pkt_error_def no_transport_def flags_ok_def network_bits bind_eq_Some_conv split: if_splits)

lemma decode_icmp_flags: "no_transport i \<Longrightarrow> decode_icmp i data off len = Some (r, i') \<Longrightarrow> flags_ok i'"
  by (auto simp: decode_icmp_def pkt_error_def no_transport_def flags_ok_def network_bits bind_eq_Some_conv split: if_splits)

lemma decode_transport_flags: "no_transport i \<Longrightarrow> decode_transport i data off len = Some (r, i') \<Longrightarrow> flags_ok i'"
  by (auto simp: decode_transport_def bind_eq_Some_conv no_transport_ok split: if_splits
      dest: decode_tcp_flags decode_udp_flags decode_icmp_flags)

lemma set_payload_flags: "flags_ok (set_payload i off len) = flags_ok i"
  by (simp add: set_payload_def flags_ok_def)

lemma decode_rest_flags:
  assumes "no_transport i" "decode_rest i data off len = Some (r, i')"
  shows "flags_ok i'"
proof -
  obtain t i1 where t: "decode_transport i data off len = Some (t, i1)"
    using assms(2) by (auto simp: decode_rest_def bind_eq_Some_conv)
  then have "flags_ok i1"
    by (rule decode_transport_flags [OF assms(1)])
  then show ?thesis
    using assms(2) t by (cases t) (auto simp: decode_rest_def set_payload_flags)
qed

lemma decode_packet_flags:
  assumes "decode_packet (Some m) (Some packet_info_zero) = Some (r, Some i)"
  shows "flags_ok i"
proof -
  have z: "no_transport packet_info_zero"
    by (simp add: no_transport_def packet_info_zero_def)
  have e: "no_transport i1" if "decode_ethernet packet_info_zero data 0 len = Some (r1, i1)" for data len r1 i1
    using that z by (auto simp: decode_ethernet_def pkt_error_def no_transport_def network_bits bind_eq_Some_conv split: if_splits)
  have "flags_ok i" if "decode_bytes data len = Some (r, i)" for data len
  proof -
    obtain r1 i1 where 1: "decode_ethernet packet_info_zero data 0 len = Some (r1, i1)"
      using \<open>decode_bytes data len = Some (r, i)\<close> by (auto simp: decode_bytes_def bind_eq_Some_conv)
    show ?thesis
    proof (cases "r1 < 0")
      case True
      then show ?thesis
        using 1 that e [OF 1] by (auto simp: decode_bytes_def no_transport_ok)
    next
      case False
      then obtain t i2 where 2: "decode_network i1 data 14 len = Some (t, i2)"
        using 1 \<open>decode_bytes data len = Some (r, i)\<close> by (auto simp: decode_bytes_def bind_eq_Some_conv)
      then show ?thesis
        using 1 that False decode_network_flags [OF e [OF 1] 2] by (cases t) (auto simp: decode_bytes_def no_transport_ok decode_rest_flags)
    qed
  qed
  then show ?thesis
    using assms z by (auto simp: decode_packet_def bind_eq_Some_conv no_transport_ok split: option.splits if_splits)
qed

lemma flow_stages_keeps:
  assumes "flow_stages x i p a b = Some b'" "o_jhash x = jh" "bridge_inv jh b" "pkt_ok p" "flags_ok i" "ip_proto i = pv_proto p"
    and f0: "br_flow a b = Some f0" "f_proto f0 = pv_proto p"
  shows "bridge_inv jh b'"
proof -
  define dir where "dir = get_packet_direction f0 p"
  obtain st b1 b2 b3 b4 b5 st' where s: "flow_update (o_env x) (br_flows b) (o_now x) (Some a) (Some p) dir = Some st"
      "detect_protocol (o_env x) i p dir a (b\<lparr>br_flows := st\<rparr>) = Some b1" "http_stage x dir a b1 = Some b2"
      "dns_stage x i p a b2 = Some b3" "tls_stage x dir a b3 = Some b4" "behavior_stage x p a b4 = Some b5"
      "flow_release (br_flows b5) (Some a) = Some st'" "b' = b5\<lparr>br_flows := st'\<rparr>"
    using assms(1) f0(1) by (auto simp: flow_stages_def dir_def [symmetric] bind_eq_Some_conv)
  let ?b0 = "b\<lparr>br_flows := st\<rparr>"
  have fl: "flow_inv (br_flows b)" "all_flows app_typed (br_flows b)"
    using assms(3) by (simp_all add: bridge_inv_def)
  obtain f1 where f1: "fheap st a = Some f1" "f_proto f1 = pv_proto p"
    using flow_update_typed(2) [OF fl(2) s(1)] f0 by (auto simp: br_flow_def)
  have i0: "bridge_inv jh ?b0"
    using flow_update_inv [OF fl(1) _ assms(4), of a f0 "o_env x" "o_now x" dir] flow_update_typed(1) [OF fl(2) s(1)] s(1) f0(1) assms(3)
    by (auto simp: bridge_inv_def engine_ready_def counters_ok_def br_flow_def)
  have "keeps jh a ?b0 b1"
    by (rule detect_protocol_keeps [OF s(2)]) (use f1 assms(5,6) in \<open>auto simp: br_flow_def flags_ok_def\<close>)
  then have "keeps jh a ?b0 b2"
    using http_stage_keeps [OF s(3) assms(2)] keeps_trans by blast
  then obtain f2 where f2: "bridge_inv jh b2" "br_flow a b2 = Some f2" "f_proto f2 = pv_proto p"
    using i0 f1 by (auto simp: keeps_def br_flow_def)
  have "app_typed f2"
    using f2 by (auto simp: bridge_inv_def all_flows_def br_flow_def)
  then have "b3 = b2"
    using dns_stage_idle [OF s(4) f2(2)] f2(3) assms(5,6) by (auto simp: app_typed_def flags_ok_def)
  then have "keeps jh a b2 b5"
    using tls_stage_keeps [OF s(5)] behavior_stage_keeps [OF s(6) assms(2)] keeps_trans by blast
  then have "bridge_inv jh b5"
    using f2(1) by (simp add: keeps_def)
  then show ?thesis
    using flow_release_inv [of "br_flows b5" a] flow_release_typed [OF _ s(7)] s(7,8)
    by (auto simp: bridge_inv_def engine_ready_def counters_ok_def flow_release_def bind_eq_Some_conv)
qed

lemma flow_packet_keeps:
  assumes "flow_packet x i p b = Some b'" "o_jhash x = jh" "bridge_inv jh b" "pkt_ok p" "flags_ok i" "ip_proto i = pv_proto p"
  shows "bridge_inv jh b'"
proof -
  obtain st r where g: "flow_get (o_crc x) (o_env x) (br_flows b) (o_now x) (Some p) = Some (st, r)"
    using assms(1) by (auto simp: flow_packet_def bind_eq_Some_conv)
  have fl: "flow_inv (br_flows b)" "all_flows app_typed (br_flows b)"
    using assms(3) by (simp_all add: bridge_inv_def)
  note t = flow_get_typed [OF fl(2) g]
  have "flow_inv st"
    using flow_get_inv [OF fl(1), of "o_crc x" "o_env x" "o_now x" "Some p"] g by simp
  then have i: "bridge_inv jh (b\<lparr>br_flows := st\<rparr>)" "bridge_inv jh (b\<lparr>br_flows := st, packets_with_flow := k\<rparr>)" for k
    using assms(3) t(1) by (simp_all add: bridge_inv_def engine_ready_def counters_ok_def)
  show ?thesis
  proof (cases r)
    case (Some a)
    then obtain f0 where "fheap st a = Some f0" "f_proto f0 = pv_proto p"
      using t(2) by blast
    moreover have "flow_stages x i p a (b\<lparr>br_flows := st, packets_with_flow := packets_with_flow b + 1\<rparr>) = Some b'"
      using assms(1) g Some by (simp add: flow_packet_def)
    ultimately show ?thesis
      using flow_stages_keeps [OF _ assms(2) i(2) assms(4-6)] by (simp add: br_flow_def)
  qed (use assms(1) g i(1) in \<open>simp add: flow_packet_def\<close>)
qed

text \<open>The view of a decoded packet.\<close>

lemma decoded_view:
  assumes "data \<noteq> []" "length data < 2 ^ 32" "decode_packet (Some (mbuf_of data)) (Some packet_info_zero) = Some (r, Some i)" "load_pkt data i = Some p"
  shows "pkt_ok p" "flags_ok i" "ip_proto i = pv_proto p"
proof -
  have "decode_bytes data (of_nat (length data)) = Some (r, i)"
    using assms(1-3) by (auto simp: decode_packet_mbuf_of)
  then have "info_in_bounds data i"
    by (rule decode_bytes_in_bounds [OF assms(2)])
  then show "pkt_ok p" "flags_ok i" "ip_proto i = pv_proto p"
    using assms(4) decode_packet_flags [OF assms(3)]
    by (auto simp: load_pkt_def pkt_ok_def info_in_bounds_def payload_in_bounds_def bind_eq_Some_conv split: option.splits)
qed

lemma count_packet_inv: "bridge_inv jh b \<Longrightarrow> bridge_inv jh (count_packet i (b\<lparr>packets_processed := k\<rparr>))"
  by (simp add: count_packet_def bridge_inv_def engine_ready_def counters_ok_def Let_def)

lemma process_packet_keeps:
  assumes "process_packet x (Some (mbuf_of data)) b = Some (r, b')" "data \<noteq> []" "length data < 2 ^ 32" "o_jhash x = jh" "bridge_inv jh b"
  shows "bridge_inv jh b'"
proof -
  let ?b0 = "b\<lparr>packets_processed := packets_processed b + 1\<rparr>"
  obtain ret i where d: "decode_packet (Some (mbuf_of data)) (Some packet_info_zero) = Some (ret, Some i)"
    using assms(1) decode_packet_mbuf_of [OF assms(2,3)] by (auto simp: process_packet_def Let_def bind_eq_Some_conv split: if_splits)
  have i0: "bridge_inv jh ?b0"
    using assms(5) by (simp add: bridge_inv_def engine_ready_def counters_ok_def)
  have i1: "bridge_inv jh (count_packet i ?b0)"
    by (rule count_packet_inv [OF assms(5)])
  show ?thesis
  proof (cases "ret < 0 \<or> packet_info.flags i AND PKT_DECODED_TCP = 0 \<and> packet_info.flags i AND PKT_DECODED_UDP = 0")
    case True
    then show ?thesis
      using assms(1) d i0 i1 by (auto simp: process_packet_def Let_def split: if_splits)
  next
    case False
    then obtain p where p: "load_pkt data i = Some p" "flow_packet x i p (count_packet i ?b0) = Some b'"
      using assms(1) d by (auto simp: process_packet_def Let_def mbuf_of_def bind_eq_Some_conv)
    show ?thesis
      using flow_packet_keeps [OF p(2) assms(4) i1] decoded_view [OF assms(2,3) d p(1)] by simp
  qed
qed

section \<open>Runs\<close>

text \<open>Packets with the outside at their arrival.\<close>

type_synonym arrival = "outside \<times> bytes"

definition arrive :: "arrival \<Rightarrow> bridge \<Rightarrow> bridge option" where
  "arrive v b = map_option snd (process_packet (fst v) (Some (mbuf_of (snd v))) b)"

definition arrival_ok :: "(bytes \<Rightarrow> u32) \<Rightarrow> arrival \<Rightarrow> bool" where
  "arrival_ok jh v \<longleftrightarrow> snd v \<noteq> [] \<and> length (snd v) < 2 ^ 32 \<and> o_jhash (fst v) = jh"

lemma run_keeps: "run_ops arrive vs b = Some b' \<Longrightarrow> list_all (arrival_ok jh) vs \<Longrightarrow> bridge_inv jh b \<Longrightarrow> bridge_inv jh b'"
  by (induction vs arbitrary: b) (auto simp: bind_eq_Some_conv arrive_def arrival_ok_def dest!: process_packet_keeps)

text \<open>UDP packets.\<close>

lemma udp_flags: "flags_ok i \<Longrightarrow> packet_info.flags i AND PKT_DECODED_UDP \<noteq> 0 \<Longrightarrow> packet_info.flags i AND PKT_DECODED_TCP = 0 \<and> ip_proto i = IPPROTO_UDP"
  by (auto simp: flags_ok_def)

lemma udp_stages:
  assumes "bridge_inv jh b" "pkt_ok p" "flags_ok i" "ip_proto i = pv_proto p" "packet_info.flags i AND PKT_DECODED_UDP \<noteq> 0"
    and f0: "br_flow a b = Some f0" "f_proto f0 = pv_proto p"
  shows "\<exists>b'. flow_stages x i p a b = Some b' \<and> json_output_p b' = json_output_p b \<and> packets_udp b' = packets_udp b"
proof -
  define dir where "dir = get_packet_direction f0 p"
  have u: "packet_info.flags i AND PKT_DECODED_TCP = 0" "f_proto f0 = IPPROTO_UDP"
    using udp_flags [OF assms(3,5)] assms(4) f0(2) by simp_all
  have fl: "flow_inv (br_flows b)" "all_flows app_typed (br_flows b)"
    using assms(1) by (simp_all add: bridge_inv_def)
  obtain st where s: "flow_update (o_env x) (br_flows b) (o_now x) (Some a) (Some p) dir = Some st" "flow_inv st"
    using flow_update_inv [OF fl(1) _ assms(2), of a f0 "o_env x" "o_now x" dir] f0(1) by (auto simp: br_flow_def)
  let ?b0 = "b\<lparr>br_flows := st\<rparr>"
  obtain f1 where f1: "br_flow a ?b0 = Some f1" "f_proto f1 = IPPROTO_UDP" "app_typed f1"
    using flow_update_typed [OF fl(2) s(1)] f0(1) u(2) by (auto simp: br_flow_def all_flows_def)
  then have ap: "alproto f1 = APP_PROTO_UNKNOWN"
    by (simp add: app_typed_def)
  have st: "detect_protocol (o_env x) i p dir a ?b0 = Some ?b0" "http_stage x dir a ?b0 = Some ?b0" "dns_stage x i p a ?b0 = Some ?b0"
      "tls_stage x dir a ?b0 = Some ?b0"
    using f1(1) u(1) ap by (simp_all add: detect_protocol_def http_stage_def dns_stage_def tls_stage_def)
  have "flow_typed f1"
    using ap by (simp add: flow_typed_def)
  then have def: "behavioral_detector_inspect_packet (o_jhash x) (o_env x) (o_now x) (o_hour x) f1 len fl d n \<noteq> None" for len fl d n
    using inspect_packet_defined by blast
  have "\<exists>b5. behavior_stage x p a ?b0 = Some b5 \<and> br_flow a b5 = Some f1 \<and> json_output_p b5 = json_output_p b \<and> packets_udp b5 = packets_udp b"
  proof (cases "behavioral_detector_p b")
    case (Some d)
    then obtain e where e: "rule_engine_p b = Some e"
      using assms(1) by (auto simp: bridge_inv_def engine_ready_def)
    obtain d1 n1 where "behavioral_detector_inspect_packet (o_jhash x) (o_env x) (o_now x) (o_hour x) f1 (ucast (pv_len p))
         (map_option fst (pv_tcp p)) (d\<lparr>bd_rule_engine := e\<rparr>) (br_nalloc ?b0) = Some (d1, n1)"
      using def [of "ucast (pv_len p)" "map_option fst (pv_tcp p)" "d\<lparr>bd_rule_engine := e\<rparr>" "br_nalloc ?b0"] by auto
    then show ?thesis
      using Some e f1(1) by (simp add: behavior_stage_def br_flow_def set_nalloc_def)
  qed (use f1(1) in \<open>simp add: behavior_stage_def\<close>)
  then obtain b5 where b5: "behavior_stage x p a ?b0 = Some b5" "br_flow a b5 = Some f1" "json_output_p b5 = json_output_p b" "packets_udp b5 = packets_udp b"
    by blast
  then show ?thesis
    using s(1) st f0(1) by (simp add: flow_stages_def dir_def [symmetric] flow_release_def br_flow_def)
qed

lemma udp_flow_packet:
  assumes "bridge_inv jh b" "pkt_ok p" "flags_ok i" "ip_proto i = pv_proto p" "packet_info.flags i AND PKT_DECODED_UDP \<noteq> 0"
  shows "\<exists>b'. flow_packet x i p b = Some b' \<and> json_output_p b' = json_output_p b \<and> packets_udp b' = packets_udp b"
proof -
  have fl: "flow_inv (br_flows b)" "all_flows app_typed (br_flows b)"
    using assms(1) by (simp_all add: bridge_inv_def)
  obtain st r where g: "flow_get (o_crc x) (o_env x) (br_flows b) (o_now x) (Some p) = Some (st, r)" "flow_inv st"
    using flow_get_inv [OF fl(1)] by blast
  note t = flow_get_typed [OF fl(2) g(1)]
  let ?b1 = "b\<lparr>br_flows := st, packets_with_flow := packets_with_flow b + 1\<rparr>"
  have i: "bridge_inv jh ?b1"
    using assms(1) t(1) g(2) by (simp add: bridge_inv_def engine_ready_def counters_ok_def)
  show ?thesis
  proof (cases r)
    case (Some a)
    then obtain f0 where "br_flow a ?b1 = Some f0" "f_proto f0 = pv_proto p"
      using t(2) [OF Some] by (auto simp: br_flow_def)
    then show ?thesis
      using udp_stages [OF i assms(2-), of a f0 x] g(1) Some by (simp add: flow_packet_def)
  qed (use g(1) in \<open>simp add: flow_packet_def\<close>)
qed

lemma udp_processed:
  assumes "bridge_inv (o_jhash x) b" "data \<noteq> []" "length data < 2 ^ 32"
    and "decode_packet (Some (mbuf_of data)) (Some packet_info_zero) = Some (0, Some i)" "packet_info.flags i AND PKT_DECODED_UDP \<noteq> 0"
  shows "\<exists>b'. process_packet x (Some (mbuf_of data)) b = Some (0, b') \<and> bridge_inv (o_jhash x) b' \<and>
    json_output_p b' = json_output_p b \<and> packets_udp b' = packets_udp b + 1"
proof -
  let ?b1 = "count_packet i (b\<lparr>packets_processed := packets_processed b + 1\<rparr>)"
  have dec: "decode_bytes data (of_nat (length data)) = Some (0, i)"
    using assms by (auto simp: decode_packet_mbuf_of)
  obtain s d t where "load_addrs data i = Some (s, d)" "load_tcp data i = Some t"
    using load_addrs_total [OF decode_bytes_l3 [OF assms(3) dec]] load_tcp_total [OF decode_bytes_in_bounds [OF assms(3) dec]] by blast
  then obtain p where p: "load_pkt data i = Some p"
    by (simp add: load_pkt_def)
  note v = decoded_view [OF assms(2-4) p]
  have c: "json_output_p ?b1 = json_output_p b" "packets_udp ?b1 = packets_udp b + 1"
    using udp_flags [OF v(2) assms(5)] assms(5) by (simp_all add: count_packet_def Let_def)
  obtain b' where "flow_packet x i p ?b1 = Some b'" "json_output_p b' = json_output_p ?b1" "packets_udp b' = packets_udp ?b1"
    using udp_flow_packet [OF count_packet_inv [OF assms(1)] v assms(5)] by blast
  then have "process_packet x (Some (mbuf_of data)) b = Some (0, b')" "json_output_p b' = json_output_p b" "packets_udp b' = packets_udp b + 1"
    using assms(4,5) p c by (simp_all add: process_packet_def Let_def mbuf_of_def)
  then show ?thesis
    using process_packet_keeps [OF _ assms(2,3) refl assms(1)] by blast
qed

text \<open>A TCP flow that has been recognised as DNS.\<close>

lemma dns_over_tcp_undefined:
  assumes "flow_get (o_crc x) (o_env x) (br_flows b) (o_now x) (Some p) = Some (st, Some a)" "fheap st a = Some f"
    and "alproto f = APP_PROTO_DNS" "f_tcp f = Some s" "f_udp f = None" "all_flows app_typed st"
    and "packet_info.flags i AND PKT_DECODED_UDP = 0" "behavioral_detector_p b \<noteq> None"
  shows "flow_packet x i p b = None"
proof (rule ccontr)
  let ?b = "b\<lparr>br_flows := st, packets_with_flow := packets_with_flow b + 1\<rparr>"
  define dir where "dir = get_packet_direction f p"
  assume "flow_packet x i p b \<noteq> None"
  then obtain st1 b1 b2 b3 b4 b5 where s: "flow_update (o_env x) st (o_now x) (Some a) (Some p) dir = Some st1"
      "detect_protocol (o_env x) i p dir a (?b\<lparr>br_flows := st1\<rparr>) = Some b1" "http_stage x dir a b1 = Some b2"
      "dns_stage x i p a b2 = Some b3" "tls_stage x dir a b3 = Some b4" "behavior_stage x p a b4 = Some b5"
    using assms(1,2) by (auto simp: flow_packet_def flow_stages_def br_flow_def dir_def Let_def bind_eq_Some_conv)
  obtain f1 where f1: "fheap st1 a = Some f1" "alproto f1 = APP_PROTO_DNS" "app_typed f1"
    using flow_update_typed [OF assms(6) s(1)] assms(2,3) by (auto simp: all_flows_def)
  have tcp: "f_tcp f1 \<noteq> None"
    using s(1) assms(2,4) f1(1) by (auto simp: flow_update_def Let_def bind_eq_Some_conv split: option.splits if_splits)
  have "b1 = ?b\<lparr>br_flows := st1\<rparr>" "b2 = b1" "b3 = b2" "b4 = b3"
    using s(2-5) f1(1,2) assms(7) by (auto simp: detect_protocol_def http_stage_def dns_stage_def tls_stage_def br_flow_def)
  moreover have "\<not> flow_typed f1"
    using f1(2,3) tcp by (auto simp: flow_typed_def ctx_udp_def app_typed_def)
  then have "behavioral_detector_inspect_packet jh env tv hour f1 len fl d n = None" for jh env tv hour len fl d n
    by (simp add: inspect_packet_defined)
  ultimately show False
    using s(6) assms(8) f1(1) by (auto simp: behavior_stage_def br_flow_def bind_eq_Some_conv)
qed

section \<open>Properties\<close>

text \<open>The variables of the file and of the lcore at the start.\<close>

definition bridge_static :: "app_conn flow_state \<Rightarrow> proto_detect_global \<Rightarrow> bridge" where
  "bridge_static st g = \<lparr>packets_processed = 0, packets_decoded = 0, packets_tcp = 0, packets_udp = 0, packets_icmp = 0, packets_other = 0,
     packets_with_flow = 0, protocols_detected = 0, br_flows = st, br_detect = g, proto_detect_ctx_p = None, rule_engine_p = None,
     json_output_p = None, behavioral_detector_p = None\<rparr>"

lemma bridge_static_inv: "flow_inv st \<Longrightarrow> fheap st = Map.empty \<Longrightarrow> bridge_inv jh (bridge_static st g)"
  by (simp add: bridge_inv_def bridge_static_def all_flows_def engine_ready_def counters_ok_def)

definition sample_table :: "app_conn flow_state" where
  "sample_table = snd (flow_init \<lparr>flow_hash_table = None, fheap = Map.empty,
     fcfg = \<lparr>hash_size = 0, max_flows = 0, timeout_new = 0, timeout_est = 0, flow_memcap = 0\<rparr>,
     fstats = \<lparr>flows_created = 0, flows_removed = 0, flows_timeout = 0, flows_active = 0, hash_collisions = 0\<rparr>,
     freasm = demo_reasm, fnext = 0\<rparr> True 4 10)"

lemma sample_table_inv: "flow_inv sample_table" "fheap sample_table = Map.empty"
proof -
  have "flow_init \<lparr>flow_hash_table = None, fheap = Map.empty :: nat \<Rightarrow> app_flow option,
     fcfg = \<lparr>hash_size = 0, max_flows = 0, timeout_new = 0, timeout_est = 0, flow_memcap = 0\<rparr>,
     fstats = \<lparr>flows_created = 0, flows_removed = 0, flows_timeout = 0, flows_active = 0, hash_collisions = 0\<rparr>,
     freasm = demo_reasm, fnext = 0\<rparr> True 4 10 = (0, sample_table)"
    by (simp add: sample_table_def flow_init_def Let_def)
  then show "flow_inv sample_table"
    by (rule flow_init_inv) (simp_all add: demo_reasm_def)
  show "fheap sample_table = Map.empty"
    by (simp add: sample_table_def flow_init_def Let_def)
qed

definition sample_outside :: outside where
  "sample_outside = \<lparr>o_crc = \<lambda>_. 0, o_jhash = \<lambda>_. 5, o_md5 = \<lambda>_. [], o_env = sample_env, o_now = sample_tv, o_hour = 12, o_json_ok = True\<rparr>"

definition udp_frame :: bytes where
  "udp_frame = replicate 12 0 @ [8, 0] @ [0x45, 0, 0, 32, 0, 0, 0, 0, 64, 17, 0, 0, 10, 0, 0, 1, 10, 0, 0, 2] @ [0, 53, 0, 53, 0, 12, 0, 0] @ [1, 2, 3, 4]"

definition udp_frame_info :: packet_info where
  "udp_frame_info = \<lparr>eth_hdr = Some 0, ether_type = 0x0800, ip_version = 4, l3_hdr = Some 14, ip_proto = 17, ip_len = 32, l4_hdr = Some 34,
     src_port = 53, dst_port = 53, payload = Some 42, payload_len = 4, flags = 19\<rparr>"

lemma udp_frame_decoded:
  "decode_packet (Some (mbuf_of udp_frame)) (Some packet_info_zero) = Some (0, Some udp_frame_info)" "udp_frame \<noteq> []" "length udp_frame < 2 ^ 32"
  "packet_info.flags udp_frame_info AND PKT_DECODED_UDP \<noteq> 0"
  by code_simp (simp_all add: udp_frame_def udp_frame_info_def PKT_DECODED_UDP_def)

text \<open>C8: Whatever packets arrive, the pipeline keeps its invariant for as long as its behaviour is defined: the flow table is
  consistent, the parser of every connection has the type of its protocol, only TCP flows ever get a protocol and no DNS parser is ever
  attached, at most five attempts at detection are made per direction, the packet counters add up, and the rule engine and the
  trackers are well formed.\<close>

theorem pipeline_keeps_invariant:
  assumes "flow_inv st" "fheap st = Map.empty" "list_all (arrival_ok jh) vs" "run_ops arrive vs (bridge_static st g) = Some b"
  shows "bridge_inv jh b"
  using run_keeps [OF assms(4,3) bridge_static_inv [OF assms(1,2)]] .

theorem pipeline_keeps_invariant_witness:
  "\<exists>b. run_ops arrive [(sample_outside, udp_frame)] (bridge_static sample_table pd_static) = Some b \<and> bridge_inv (\<lambda>_. 5) b"
proof -
  obtain b where "process_packet sample_outside (Some (mbuf_of udp_frame)) (bridge_static sample_table pd_static) = Some (0, b)"
    using udp_processed [OF bridge_static_inv [OF sample_table_inv] udp_frame_decoded(2,3,1,4), of sample_outside pd_static] by blast
  then have r: "run_ops arrive [(sample_outside, udp_frame)] (bridge_static sample_table pd_static) = Some b"
    by (simp add: arrive_def)
  then show ?thesis
    using pipeline_keeps_invariant [OF sample_table_inv _ r, of "\<lambda>_. 5"] udp_frame_decoded(2,3)
    by (simp add: arrival_ok_def sample_outside_def)
qed

text \<open>C29: Every UDP packet that decodes is processed without undefined behaviour, but its payload is never inspected: no protocol is
  detected on UDP, so the DNS parser and the DNS rules are never reached, and no transaction is recorded.\<close>

theorem udp_never_inspected:
  assumes "bridge_inv (o_jhash x) b" "data \<noteq> []" "length data < 2 ^ 32"
    and "decode_packet (Some (mbuf_of data)) (Some packet_info_zero) = Some (0, Some i)" "packet_info.flags i AND PKT_DECODED_UDP \<noteq> 0"
  shows "\<exists>b'. process_packet x (Some (mbuf_of data)) b = Some (0, b') \<and> bridge_inv (o_jhash x) b' \<and>
    json_output_p b' = json_output_p b \<and> packets_udp b' = packets_udp b + 1"
  by (rule udp_processed [OF assms])

theorem udp_never_inspected_witness:
  "\<exists>b'. process_packet sample_outside (Some (mbuf_of udp_frame)) (bridge_static sample_table pd_static) = Some (0, b') \<and>
    packets_udp b' = 1 \<and> json_output_p b' = None"
  using udp_never_inspected [OF bridge_static_inv [OF sample_table_inv] udp_frame_decoded(2,3,1,4), of sample_outside pd_static]
  by (auto simp: bridge_static_def)

text \<open>Once the detector runs, every further packet of a TCP flow that has been recognised as DNS makes the pipeline read the TCP
  session as a DNS parser: its behaviour is undefined.\<close>

theorem dns_over_tcp_confused:
  assumes "flow_get (o_crc x) (o_env x) (br_flows b) (o_now x) (Some p) = Some (st, Some a)" "fheap st a = Some f"
    and "alproto f = APP_PROTO_DNS" "f_tcp f = Some s" "f_udp f = None" "all_flows app_typed st"
    and "packet_info.flags i AND PKT_DECODED_UDP = 0" "behavioral_detector_p b \<noteq> None"
  shows "flow_packet x i p b = None"
  by (rule dns_over_tcp_undefined [OF assms])

definition dns_tcp_flow :: app_flow where
  "dns_tcp_flow = (sample_app_flow 53)\<lparr>alproto := APP_PROTO_DNS, f_tcp := Some ((sample_session (HttpApp http_conn_zero))\<lparr>app_parser := None\<rparr>)\<rparr>"

definition dns_tcp_view :: pkt_view where
  "dns_tcp_view = \<lparr>pv_version = 4, pv_src = [1], pv_dst = [2], pv_sport = 1234, pv_dport = 53, pv_proto = 6, pv_tcp = Some (0x10, 7),
     pv_payload = None, pv_len = 0\<rparr>"

definition dns_tcp_table :: "app_conn flow_state" where
  "dns_tcp_table = sample_table\<lparr>flow_hash_table := Some [[0], [], [], []], fheap := [0 \<mapsto> dns_tcp_flow]\<rparr>"

theorem dns_over_tcp_confused_witness:
  "flow_packet sample_outside sample_info dns_tcp_view
     ((bridge_static dns_tcp_table pd_static)\<lparr>rule_engine_p := Some (bd_rule_engine fresh_detector), behavioral_detector_p := Some fresh_detector\<rparr>) = None"
proof (rule dns_over_tcp_confused [where st = "dns_tcp_table\<lparr>fheap := [0 \<mapsto> dns_tcp_flow\<lparr>use_cnt := 1\<rparr>]\<rparr>" and a = 0 and f = "dns_tcp_flow\<lparr>use_cnt := 1\<rparr>"])
  show "flow_get (o_crc sample_outside) (o_env sample_outside) (br_flows ((bridge_static dns_tcp_table pd_static)
      \<lparr>rule_engine_p := Some (bd_rule_engine fresh_detector), behavioral_detector_p := Some fresh_detector\<rparr>)) (o_now sample_outside) (Some dns_tcp_view) =
      Some (dns_tcp_table\<lparr>fheap := [0 \<mapsto> dns_tcp_flow\<lparr>use_cnt := 1\<rparr>]\<rparr>, Some 0)"
    by (simp add: flow_get_def sample_outside_def bridge_static_def dns_tcp_table_def sample_table_def flow_init_def dns_tcp_view_def dns_tcp_flow_def
        sample_app_flow_def flow_hash_calculate_def flow_match_def addr_eq_def FLOW_IPV4_def FLOW_IPV6_def Let_def)
  show "all_flows app_typed (dns_tcp_table\<lparr>fheap := [0 \<mapsto> dns_tcp_flow\<lparr>use_cnt := 1\<rparr>]\<rparr>)"
    by (simp add: all_flows_def app_typed_def dns_tcp_flow_def sample_app_flow_def sample_session_def)
  show "packet_info.flags sample_info AND PKT_DECODED_UDP = 0"
    by (simp add: sample_info_def PKT_DECODED_UDP_def)
qed (simp_all add: dns_tcp_flow_def sample_app_flow_def)
end
