(* ===== verification/Netif_Port.thy ===== *)
theory Netif_Port
  imports Netif_Config
begin

text \<open>
  The ports of \<^verbatim>\<open>netif.c\<close>: the two hash tables by number and by name, the numbers and names of new ports, and the flags,
  offloads and receive-side scaling that a port's configuration asks for. The bits of DPDK's offload and scaling
  constants are a parameter; a port is known by its record, and the chains of the tables are lists.
\<close>

section \<open>Ports\<close>

definition NETIF_MAX_PORTS :: nat where "NETIF_MAX_PORTS = 4096"
definition NETIF_PORT_ID_INVALID :: nat where "NETIF_PORT_ID_INVALID = NETIF_MAX_PORTS"
definition NETIF_PORT_TABLE_BUCKETS :: nat where "NETIF_PORT_TABLE_BUCKETS = 256"
definition ENDF_NOTSUPP :: int where "ENDF_NOTSUPP = -14"
definition ENDF_NOMEM :: int where "ENDF_NOMEM = -2"
definition ENDF_DPDKAPIFAIL :: int where "ENDF_DPDKAPIFAIL = -11"
definition ENDF_NONEALCORE :: int where "ENDF_NONEALCORE = -20"

definition NETIF_PORT_FLAG_ENABLED :: u16 where "NETIF_PORT_FLAG_ENABLED = 0x1"
definition NETIF_PORT_FLAG_RUNNING :: u16 where "NETIF_PORT_FLAG_RUNNING = 0x2"
definition NETIF_PORT_FLAG_STOPPED :: u16 where "NETIF_PORT_FLAG_STOPPED = 0x4"
definition NETIF_PORT_FLAG_RX_IP_CSUM_OFFLOAD :: u16 where "NETIF_PORT_FLAG_RX_IP_CSUM_OFFLOAD = 0x8"
definition NETIF_PORT_FLAG_TX_IP_CSUM_OFFLOAD :: u16 where "NETIF_PORT_FLAG_TX_IP_CSUM_OFFLOAD = 0x10"
definition NETIF_PORT_FLAG_TX_TCP_CSUM_OFFLOAD :: u16 where "NETIF_PORT_FLAG_TX_TCP_CSUM_OFFLOAD = 0x20"
definition NETIF_PORT_FLAG_TX_UDP_CSUM_OFFLOAD :: u16 where "NETIF_PORT_FLAG_TX_UDP_CSUM_OFFLOAD = 0x40"
definition NETIF_PORT_FLAG_RX_VLAN_STRIP_OFFLOAD :: u16 where "NETIF_PORT_FLAG_RX_VLAN_STRIP_OFFLOAD = 0x100"
definition NETIF_PORT_FLAG_TX_MBUF_FAST_FREE :: u16 where "NETIF_PORT_FLAG_TX_MBUF_FAST_FREE = 0x2000"

lemmas port_flag_defs = NETIF_PORT_FLAG_ENABLED_def NETIF_PORT_FLAG_RUNNING_def NETIF_PORT_FLAG_STOPPED_def
  NETIF_PORT_FLAG_RX_IP_CSUM_OFFLOAD_def NETIF_PORT_FLAG_TX_IP_CSUM_OFFLOAD_def NETIF_PORT_FLAG_TX_TCP_CSUM_OFFLOAD_def
  NETIF_PORT_FLAG_TX_UDP_CSUM_OFFLOAD_def NETIF_PORT_FLAG_RX_VLAN_STRIP_OFFLOAD_def NETIF_PORT_FLAG_TX_MBUF_FAST_FREE_def

text \<open>Constants of DPDK's \<^verbatim>\<open>rte_ethdev.h\<close>.\<close>

record eth_bits =
  RSS_IP :: u64
  RSS_TCP :: u64
  RSS_UDP :: u64
  RSS_SCTP :: u64
  RSS_L2_PAYLOAD :: u64
  RSS_PORT :: u64
  RSS_TUNNEL :: u64
  TX_IPV4_CKSUM :: u64
  TX_TCP_CKSUM :: u64
  TX_UDP_CKSUM :: u64
  TX_MBUF_FAST_FREE :: u64
  RX_VLAN_STRIP :: u64
  RX_IPV4_CKSUM :: u64

record dev_info =
  driver_name :: bytes
  tx_offload_capa :: u64
  rx_offload_capa :: u64
  flow_type_rss_offloads :: u64
  max_rx_queues :: nat
  max_tx_queues :: nat
  reta_size :: nat

text \<open>
  The port type is the number of the C enumeration. The pool is the index in \<^verbatim>\<open>pktmbuf_pool\<close>. Of \<^verbatim>\<open>dev_conf\<close> the fields
  that the code changes are kept.
\<close>

record netif_port =
  np_id :: nat
  np_name :: bytes
  np_type :: nat
  np_flag :: u16
  n_rxq :: int
  n_txq :: int
  rxq_desc_nb :: u16
  txq_desc_nb :: u16
  np_socket :: int
  np_addr :: bytes
  np_mtu :: u16
  hw_header_len :: int
  mbuf_pool :: "nat option"
  np_info :: dev_info
  rss_hf :: u64
  rx_offloads :: u64
  tx_offloads :: u64

record port_tables =
  port_tab :: "nat \<Rightarrow> netif_port list"
  port_ntab :: "nat \<Rightarrow> netif_port list"
  g_nports :: u16
  port_id_end :: u16

definition port_tab_init :: "port_tables \<Rightarrow> port_tables" where
  "port_tab_init t = t\<lparr>port_tab := (\<lambda>i. if i < NETIF_PORT_TABLE_BUCKETS then [] else port_tab t i)\<rparr>"

definition port_ntab_init :: "port_tables \<Rightarrow> port_tables" where
  "port_ntab_init t = t\<lparr>port_ntab := (\<lambda>i. if i < NETIF_PORT_TABLE_BUCKETS then [] else port_ntab t i)\<rparr>"

definition port_tab_hashkey :: "nat \<Rightarrow> nat" where
  "port_tab_hashkey pid = pid mod NETIF_PORT_TABLE_BUCKETS"

text \<open>The characters are signed.\<close>

fun name_hash :: "bytes \<Rightarrow> u32 \<Rightarrow> u32" where
  "name_hash [] hash = hash"
| "name_hash (c # cs) hash = (if c = 0 then hash else name_hash cs (hash XOR (push_bit 5 hash + scast c + drop_bit 2 hash)))"

definition port_ntab_hashkey :: "bytes \<Rightarrow> nat \<Rightarrow> nat" where
  "port_ntab_hashkey name len = unat (name_hash (take len name) 1315423911) mod NETIF_PORT_TABLE_BUCKETS"

definition netif_port_get :: "nat \<Rightarrow> port_tables \<Rightarrow> netif_port option option" where
  "netif_port_get pid t = (if NETIF_MAX_PORTS < pid then None else Some (find (\<lambda>p. np_id p = pid) (port_tab t (port_tab_hashkey pid))))"

definition netif_port_get_by_name :: "bytes option \<Rightarrow> port_tables \<Rightarrow> netif_port option" where
  "netif_port_get_by_name name t = (case name of
     None \<Rightarrow> None
   | Some n \<Rightarrow> if n = [] then None
      else find (\<lambda>p. np_name p = n) (port_ntab t (port_ntab_hashkey n (length n))))"

text \<open>\<open>np_name\<close> is the string that the array of \<^verbatim>\<open>IFNAMSIZ\<close> bytes holds. The second chain searched is the one of the number.\<close>

definition IFNAMSIZ :: nat where "IFNAMSIZ = 16"

definition netif_port_register :: "netif_port option \<Rightarrow> port_tables \<Rightarrow> int \<times> port_tables" where
  "netif_port_register port t = (case port of
     None \<Rightarrow> (ENDF_INVAL, t)
   | Some p \<Rightarrow>
      let hash = port_tab_hashkey (np_id p); nhash = port_ntab_hashkey (np_name p) IFNAMSIZ;
          same = (\<lambda>cur. np_id cur = np_id p \<or> np_name cur = np_name p) in
      if list_ex same (port_tab t hash) then (ENDF_EXIST, t)
      else if list_ex same (port_ntab t hash) then (ENDF_EXIST, t)
      else (ENDF_OK, t\<lparr>port_tab := (port_tab t)(hash := port_tab t hash @ [p]),
              port_ntab := (port_ntab t)(nhash := port_ntab t nhash @ [p]), g_nports := g_nports t + 1\<rparr>))"

text \<open>Numbers of ports that are not given one: the highest free number, or the next. The result is undefined above 4096.\<close>

function free_pid :: "port_tables \<Rightarrow> u16 \<Rightarrow> u16 option option" where
  "free_pid t pid = (if pid = 0 then Some None else do {
     p \<leftarrow> netif_port_get (unat pid) t;
     if p = None then Some (Some pid) else free_pid t (pid - 1) })"
  by pat_completeness auto
termination free_pid
  by (relation "measure (\<lambda>(t, pid). unat pid)") (simp_all add: unat_minus_one unat_gt_0)

declare free_pid.simps [simp del]

definition netif_port_id_alloc :: "port_tables \<Rightarrow> (u16 \<times> port_tables) option" where
  "netif_port_id_alloc t = do {
     f \<leftarrow> (if port_id_end t > g_nports t then free_pid t (port_id_end t - 1) else Some None);
     case f of
       Some pid \<Rightarrow> Some (pid, t)
     | None \<Rightarrow> Some (port_id_end t, t\<lparr>port_id_end := port_id_end t + 1\<rparr>) }"

section \<open>Names\<close>

text \<open>\<^verbatim>\<open>phy_pid_end\<close> is an argument; the base is 0. The list is walked from its end, where the first device of the file is.\<close>

definition is_physical_port :: "nat \<Rightarrow> nat \<Rightarrow> bool" where
  "is_physical_port phy_pid_end pid \<longleftrightarrow> pid < phy_pid_end"

text \<open>The first configuration that no port has, seen from the end: it and the list with the number filled in.\<close>

fun claim_device :: "nat \<Rightarrow> port_conf_stream list \<Rightarrow> (port_conf_stream \<times> port_conf_stream list) option" where
  "claim_device pid [] = None"
| "claim_device pid (d # ds) = (case claim_device pid ds of
     Some (c, ds') \<Rightarrow> Some (c, d # ds')
   | None \<Rightarrow> if pc_port_id d < 0 then Some (d, d\<lparr>pc_port_id := int pid\<rparr> # ds) else None)"

definition port_name_alloc :: "nat \<Rightarrow> nat \<Rightarrow> nat \<Rightarrow> netif_conf \<Rightarrow> (int \<times> bytes \<times> netif_conf) option" where
  "port_name_alloc phy_pid_end pid buflen s =
    (if \<not> is_physical_port phy_pid_end pid then Some (ENDF_INVAL, [], s)
     else case claim_device pid (port_list s) of
       None \<Rightarrow> Some (ENDF_NOTEXIST, [], s)
     | Some (d, ds) \<Rightarrow> do {
         n \<leftarrow> (if first_char (pc_name d) \<noteq> 0 then field_str (pc_name d) else Some (str ''dpdk'' @ show_dec pid));
         Some (ENDF_OK, take (buflen - 1) n, s\<lparr>port_list := ds\<rparr>) })"

section \<open>Flags, offloads and scaling\<close>

definition PORT_TYPE_GENERAL :: nat where "PORT_TYPE_GENERAL = 0"

definition setup_dev_of_flags :: "eth_bits \<Rightarrow> netif_port \<Rightarrow> netif_port" where
  "setup_dev_of_flags eb p =
    (let tx = tx_offload_capa (np_info p); rx = rx_offload_capa (np_info p);
         f0 = np_flag p OR NETIF_PORT_FLAG_ENABLED;
         f1 = (if tx AND TX_IPV4_CKSUM eb \<noteq> 0 then f0 OR NETIF_PORT_FLAG_TX_IP_CSUM_OFFLOAD else f0);
         f2 = (if tx AND TX_TCP_CKSUM eb \<noteq> 0 then f1 OR NETIF_PORT_FLAG_TX_TCP_CSUM_OFFLOAD else f1);
         f3 = (if tx AND TX_UDP_CKSUM eb \<noteq> 0 then f2 OR NETIF_PORT_FLAG_TX_UDP_CSUM_OFFLOAD else f2);
         f4 = (if tx AND TX_MBUF_FAST_FREE eb = 0 then f3 AND NOT NETIF_PORT_FLAG_TX_MBUF_FAST_FREE else f3);
         f5 = (if take 10 (driver_name (np_info p)) = str ''net_virtio''
               then (f4 OR NETIF_PORT_FLAG_TX_IP_CSUM_OFFLOAD) AND NOT NETIF_PORT_FLAG_TX_TCP_CSUM_OFFLOAD
                 AND NOT NETIF_PORT_FLAG_TX_UDP_CSUM_OFFLOAD else f4);
         f6 = (if rx AND RX_VLAN_STRIP eb \<noteq> 0 then f5 OR NETIF_PORT_FLAG_RX_VLAN_STRIP_OFFLOAD else f5);
         f7 = (if rx AND RX_IPV4_CKSUM eb \<noteq> 0 then f6 OR NETIF_PORT_FLAG_RX_IP_CSUM_OFFLOAD else f6) in
     p\<lparr>np_flag := f7\<rparr>)"

text \<open>The value passes through an \<^verbatim>\<open>int\<close>.\<close>

definition rss_resolve_proc :: "eth_bits \<Rightarrow> bytes \<Rightarrow> u32" where
  "rss_resolve_proc eb rss = ucast
    (if rss = str ''all'' then RSS_IP eb OR RSS_TCP eb OR RSS_UDP eb
     else if rss = str ''ip'' then RSS_IP eb
     else if rss = str ''tcp'' then RSS_TCP eb
     else if rss = str ''udp'' then RSS_UDP eb
     else if rss = str ''sctp'' then RSS_SCTP eb
     else if rss = str ''ether'' then RSS_L2_PAYLOAD eb
     else if rss = str ''port'' then RSS_PORT eb
     else if rss = str ''tunnel'' then RSS_TUNNEL eb
     else 0)"

definition adapt_device_conf :: "dev_info option \<Rightarrow> u64 \<Rightarrow> u64 \<Rightarrow> u64 \<Rightarrow> u64 \<times> u64 \<times> u64" where
  "adapt_device_conf info rss rx tx = (case info of
     None \<Rightarrow> (rss, rx, tx)
   | Some i \<Rightarrow>
      (if flow_type_rss_offloads i OR rss \<noteq> flow_type_rss_offloads i then rss AND flow_type_rss_offloads i else rss,
       if rx_offload_capa i OR rx \<noteq> rx_offload_capa i then rx AND rx_offload_capa i else rx,
       if tx_offload_capa i OR tx \<noteq> tx_offload_capa i then tx AND tx_offload_capa i else tx))"

text \<open>The loop over the characters of the scaling text: the name read so far and the bits collected.\<close>

fun rss_scan :: "eth_bits \<Rightarrow> bytes \<Rightarrow> bytes \<Rightarrow> u64 \<Rightarrow> bytes \<times> u64" where
  "rss_scan eb [] cur hf = (cur, hf)"
| "rss_scan eb (c # cs) cur hf =
    (if c = 32 then rss_scan eb cs cur hf
     else if c \<noteq> 124 then rss_scan eb cs (cur @ [c]) hf
     else rss_scan eb cs [] (hf OR scast (rss_resolve_proc eb cur)))"

definition get_port_conf_stream :: "bytes \<Rightarrow> port_conf_stream list \<Rightarrow> port_conf_stream option option" where
  "get_port_conf_stream name ds =
    (if \<forall>d \<in> set ds. 0 \<in> set (pc_name d) then Some (find (\<lambda>d. c_str (pc_name d) = name) ds) else None)"

text \<open>\<open>rxq\<close> and \<open>txq\<close> are the numbers of queues that the workers use. The results are the port and the two modes.\<close>

definition fill_port_config :: "eth_bits \<Rightarrow> int \<Rightarrow> int \<Rightarrow> netif_conf \<Rightarrow> netif_port \<Rightarrow> (netif_port \<times> bool \<times> bool) option" where
  "fill_port_config eb rxq txq s port = do {
     cfg \<leftarrow> get_port_conf_stream (np_name port) (port_list s);
     let p = port\<lparr>n_rxq := rxq, n_txq := txq\<rparr> in
     case cfg of
       Some d \<Rightarrow> do {
         rss \<leftarrow> field_str (pc_rss d);
         let (cur, hf) = rss_scan eb rss [] 0 in
         Some (p\<lparr>rss_hf := (if first_char cur \<noteq> 0 then hf OR scast (rss_resolve_proc eb cur) else hf),
                 np_mtu := of_int (pc_mtu d), rxq_desc_nb := of_int (rx_desc_nb d), txq_desc_nb := of_int (tx_desc_nb d),
                 np_flag := (if tx_mbuf_fast_free d then np_flag p OR NETIF_PORT_FLAG_TX_MBUF_FAST_FREE else np_flag p)\<rparr>,
               promisc_mode d, allmulticast d) }
     | None \<Rightarrow> Some (p\<lparr>rxq_desc_nb := of_int NETIF_NB_RX_DESC_DEF, txq_desc_nb := of_int NETIF_NB_TX_DESC_DEF,
                 np_mtu := of_int NETIF_DEFAULT_ETH_MTU\<rparr>, False, False) }"

section \<open>Allocation\<close>

text \<open>
  What DPDK knows of the ports: the socket, and the address, MTU and information unless the call fails. The socket of
  the calling core and \<^verbatim>\<open>NDF_MAX_SOCKET\<close> are parameters too.
\<close>

record eth_env =
  eth_bits :: eth_bits
  dev_count :: nat
  dev_socket_id :: "nat \<Rightarrow> int"
  macaddr_get :: "nat \<Rightarrow> bytes option"
  dev_get_mtu :: "nat \<Rightarrow> u16 option"
  dev_info_get :: "nat \<Rightarrow> dev_info option"
  rte_socket_id :: nat
  NDF_MAX_SOCKET :: nat

definition SOCKET_ID_ANY :: int where "SOCKET_ID_ANY = -1"
definition ETH_DATA_LEN :: u16 where "ETH_DATA_LEN = 1500"

definition zero_info :: dev_info where
  "zero_info = \<lparr>driver_name = [], tx_offload_capa = 0, rx_offload_capa = 0, flow_type_rss_offloads = 0, max_rx_queues = 0,
     max_tx_queues = 0, reta_size = 0\<rparr>"

definition zero_port :: netif_port where
  "zero_port = \<lparr>np_id = 0, np_name = [], np_type = 0, np_flag = 0, n_rxq = 0, n_txq = 0, rxq_desc_nb = 0, txq_desc_nb = 0,
     np_socket = 0, np_addr = replicate 6 0, np_mtu = 0, hw_header_len = 0, mbuf_pool = None, np_info = zero_info,
     rss_hf = 0, rx_offloads = 0, tx_offloads = 0\<rparr>"

text \<open>
  The name is a format when it holds \<^verbatim>\<open>%d\<close>. Only \<^verbatim>\<open>%d\<close>, once, and \<^verbatim>\<open>%%\<close> are given a meaning; every other conversion
  counts as undefined.
\<close>

fun expand_name :: "bytes \<Rightarrow> nat option \<Rightarrow> bytes option" where
  "expand_name [] arg = Some []"
| "expand_name (c # cs) arg =
    (if c \<noteq> 37 then map_option ((#) c) (expand_name cs arg)
     else case cs of
       [] \<Rightarrow> None
     | d # ds \<Rightarrow>
        if d = 37 then map_option ((#) 37) (expand_name ds arg)
        else if d = 100 then (case arg of None \<Rightarrow> None | Some n \<Rightarrow> map_option ((@) (show_dec n)) (expand_name ds None))
        else None)"

definition dpdk_port_setup :: "eth_env \<Rightarrow> netif_port \<Rightarrow> netif_port" where
  "dpdk_port_setup e dev =
    (let pid = np_id dev in
     setup_dev_of_flags (eth_bits e)
       (dev\<lparr>np_type := PORT_TYPE_GENERAL, np_socket := dev_socket_id e pid,
          np_addr := (case macaddr_get e pid of Some a \<Rightarrow> a | None \<Rightarrow> np_addr dev),
          np_mtu := (case dev_get_mtu e pid of Some m \<Rightarrow> m | None \<Rightarrow> np_mtu dev),
          np_info := (case dev_info_get e pid of Some i \<Rightarrow> i | None \<Rightarrow> zero_info),
          rss_hf := RSS_TCP (eth_bits e), rx_offloads := RX_IPV4_CKSUM (eth_bits e), tx_offloads := 0\<rparr>))"

text \<open>The allocations are counted with those of the configuration.\<close>

definition netif_alloc :: "rte_env \<Rightarrow> eth_env \<Rightarrow> nat \<Rightarrow> nat \<Rightarrow> bytes \<Rightarrow> nat \<Rightarrow> nat \<Rightarrow> (netif_port \<Rightarrow> netif_port) option \<Rightarrow>
    port_tables \<Rightarrow> (netif_port option \<times> port_tables) option" where
  "netif_alloc env e n pid namefmt nrxq ntxq setup t =
    (if \<not> malloc_ok env n then Some (None, t) else do {
       used \<leftarrow> (if pid \<noteq> NETIF_PORT_ID_INVALID then map_option (\<lambda>p. p \<noteq> None) (netif_port_get pid t) else Some True);
       (pid', t') \<leftarrow> (if \<not> used then Some (pid, t) else map_option (\<lambda>(i, t'). (unat i, t')) (netif_port_id_alloc t));
       name \<leftarrow> (if c_strstr namefmt (str ''%d'') then expand_name namefmt (Some pid') else Some namefmt);
       let d0 = zero_port\<lparr>np_id := pid', np_name := take (IFNAMSIZ - 1) name, np_socket := SOCKET_ID_ANY, hw_header_len := 14\<rparr>;
           d1 = (case setup of None \<Rightarrow> d0 | Some f \<Rightarrow> f d0);
           d2 = d1\<lparr>np_flag := np_flag d1 OR NETIF_PORT_FLAG_ENABLED, n_rxq := int nrxq, n_txq := int ntxq\<rparr>;
           d3 = (if np_socket d2 = SOCKET_ID_ANY then d2\<lparr>np_socket := int (rte_socket_id e)\<rparr> else d2) in
       if np_socket d3 < 0 \<or> int (NDF_MAX_SOCKET e) \<le> np_socket d3 then None
       else let d4 = d3\<lparr>mbuf_pool := Some (nat (np_socket d3))\<rparr> in
         Some (Some (if np_mtu d4 = 0 then d4\<lparr>np_mtu := ETH_DATA_LEN\<rparr> else d4), t') })"

section \<open>Initialisation\<close>

text \<open>\<^verbatim>\<open>rte_exit\<close> ends the process.\<close>

datatype 'a process = Exits | Continues 'a

fun init_ports :: "netif_env \<Rightarrow> eth_env \<Rightarrow> nat \<Rightarrow> nat list \<Rightarrow> netif_conf \<Rightarrow> port_tables \<Rightarrow> (netif_conf \<times> port_tables) process option" where
  "init_ports env e phy [] s t = Some (Continues (s, t))"
| "init_ports env e phy (pid # pids) s t = do {
     (err, ifname, s1) \<leftarrow> port_name_alloc phy pid IFNAMSIZ s;
     if err \<noteq> ENDF_OK then Some Exits
     else if \<not> is_physical_port phy pid then Some Exits
     else do {
       (port, t1) \<leftarrow> netif_alloc (alloc_env env) e (netif_allocs s1) pid ifname 0 0 (Some (dpdk_port_setup e)) t;
       let s2 = s1\<lparr>netif_allocs := netif_allocs s1 + 1\<rparr> in
       if port = None then Some Exits
       else let (r, t2) = netif_port_register port t1 in
         if r < 0 then Some Exits else init_ports env e phy pids s2 t2 } }"

definition netif_port_init :: "netif_env \<Rightarrow> eth_env \<Rightarrow> netif_conf \<Rightarrow> port_tables \<Rightarrow> (netif_conf \<times> port_tables) process option" where
  "netif_port_init env e s t =
    (if dev_count e = 0 then Some Exits
     else if length (port_list s) < dev_count e then Some Exits
     else init_ports env e (dev_count e) [0..<dev_count e] s (port_ntab_init (port_tab_init t)))"

section \<open>The registry\<close>

text \<open>The tables hold the ports that were registered, in order, each in the chain of its number and in that of its name.\<close>

definition named :: "netif_port \<Rightarrow> bool" where
  "named p \<longleftrightarrow> length (np_name p) < IFNAMSIZ"

definition id_chain :: "netif_port list \<Rightarrow> nat \<Rightarrow> netif_port list" where
  "id_chain ps b = filter (\<lambda>p. port_tab_hashkey (np_id p) = b) ps"

definition name_chain :: "netif_port list \<Rightarrow> nat \<Rightarrow> netif_port list" where
  "name_chain ps b = filter (\<lambda>p. port_ntab_hashkey (np_name p) IFNAMSIZ = b) ps"

definition registry :: "port_tables \<Rightarrow> netif_port list \<Rightarrow> bool" where
  "registry t ps \<longleftrightarrow> (\<forall>b < NETIF_PORT_TABLE_BUCKETS. port_tab t b = id_chain ps b \<and> port_ntab t b = name_chain ps b)
     \<and> distinct (map np_id ps) \<and> (\<forall>p \<in> set ps. named p)"

text \<open>When a registration is refused: the number is taken, or a port of the same name is in one of the chains searched.\<close>

definition refused :: "netif_port \<Rightarrow> netif_port list \<Rightarrow> bool" where
  "refused p ps \<longleftrightarrow> (\<exists>q \<in> set ps. np_id q = np_id p \<or> np_name q = np_name p \<and>
     port_tab_hashkey (np_id p) \<in> {port_tab_hashkey (np_id q), port_ntab_hashkey (np_name q) IFNAMSIZ})"

lemma hashkey_lt [simp]: "port_tab_hashkey pid < NETIF_PORT_TABLE_BUCKETS" "port_ntab_hashkey n l < NETIF_PORT_TABLE_BUCKETS"
  by (simp_all add: port_tab_hashkey_def port_ntab_hashkey_def NETIF_PORT_TABLE_BUCKETS_def)

lemma find_filter_sub: "(\<And>x. P x \<Longrightarrow> Q x) \<Longrightarrow> find P (filter Q xs) = find P xs"
  by (induction xs) auto

lemma registry_get: "registry t ps \<Longrightarrow> pid \<le> NETIF_MAX_PORTS \<Longrightarrow> netif_port_get pid t = Some (find (\<lambda>p. np_id p = pid) ps)"
  using find_filter_sub [of "\<lambda>p. np_id p = pid" "\<lambda>p. port_tab_hashkey (np_id p) = port_tab_hashkey pid" ps]
  by (simp add: netif_port_get_def registry_def id_chain_def)

lemma registry_get_by_name:
  assumes "registry t ps" and "n \<noteq> []"
  shows "netif_port_get_by_name (Some n) t = find (\<lambda>p. np_name p = n) ps"
proof -
  have "find (\<lambda>p. np_name p = n) (filter (\<lambda>p. port_ntab_hashkey (np_name p) IFNAMSIZ = port_ntab_hashkey n (length n)) ps)
      = find (\<lambda>p. np_name p = n) ps" if "\<forall>p \<in> set ps. named p"
    using that
  proof (induction ps)
    case (Cons p ps)
    then show ?case
      by (cases "np_name p = n") (auto simp: named_def port_ntab_hashkey_def IFNAMSIZ_def)
  qed simp
  then show ?thesis
    using assms by (simp add: netif_port_get_by_name_def registry_def name_chain_def)
qed

lemma registry_register:
  assumes "registry t ps" and "named p"
  shows "if refused p ps then netif_port_register (Some p) t = (ENDF_EXIST, t)
    else fst (netif_port_register (Some p) t) = ENDF_OK \<and> registry (snd (netif_port_register (Some p) t)) (ps @ [p])"
proof -
  have tab: "port_tab t (port_tab_hashkey pid) = id_chain ps (port_tab_hashkey pid)"
      "port_ntab t (port_tab_hashkey pid) = name_chain ps (port_tab_hashkey pid)"
      "port_ntab t (port_ntab_hashkey n l) = name_chain ps (port_ntab_hashkey n l)" for pid n l
    using assms(1) by (simp_all add: registry_def)
  have r: "refused p ps \<longleftrightarrow> list_ex (\<lambda>cur. np_id cur = np_id p \<or> np_name cur = np_name p) (id_chain ps (port_tab_hashkey (np_id p)))
      \<or> list_ex (\<lambda>cur. np_id cur = np_id p \<or> np_name cur = np_name p) (name_chain ps (port_tab_hashkey (np_id p)))"
    by (auto simp: refused_def id_chain_def name_chain_def list_ex_iff)
  show ?thesis
  proof (cases "refused p ps")
    case True
    then show ?thesis
      using r by (auto simp: netif_port_register_def Let_def tab)
  next
    case False
    then have "np_id p \<notin> np_id ` set ps"
      by (auto simp: refused_def)
    with False show ?thesis
      using assms r by (auto simp: netif_port_register_def Let_def tab registry_def id_chain_def name_chain_def)
  qed
qed

fun register_all :: "netif_port list \<Rightarrow> port_tables \<Rightarrow> int list \<times> port_tables" where
  "register_all [] t = ([], t)"
| "register_all (p # ps) t = (let (r, t1) = netif_port_register (Some p) t; (rs, t2) = register_all ps t1 in (r # rs, t2))"

fun register_list :: "netif_port list \<Rightarrow> netif_port list \<Rightarrow> int list \<times> netif_port list" where
  "register_list [] reg = ([], reg)"
| "register_list (p # ps) reg = (if refused p reg then let (rs, reg') = register_list ps reg in (ENDF_EXIST # rs, reg')
     else let (rs, reg') = register_list ps (reg @ [p]) in (ENDF_OK # rs, reg'))"

lemma registry_run:
  assumes "registry t reg" and "\<forall>p \<in> set ps. named p"
  shows "fst (register_all ps t) = fst (register_list ps reg) \<and> registry (snd (register_all ps t)) (snd (register_list ps reg))"
  using assms
proof (induction ps arbitrary: t reg)
  case (Cons p ps)
  obtain r t1 where reg: "netif_port_register (Some p) t = (r, t1)"
    by fastforce
  show ?case
    using registry_register [OF Cons.prems(1), of p] Cons.IH [of t1 reg] Cons.IH [of t1 "reg @ [p]"] Cons.prems
    by (cases "refused p reg") (auto simp: reg Let_def split: prod.splits)
qed simp

lemma registry_init: "registry (port_ntab_init (port_tab_init t)) []"
  by (simp add: registry_def port_ntab_init_def port_tab_init_def id_chain_def name_chain_def)

text \<open>C26: Registered ports are found by number and by name as in a list of the accepted ports, and a registration is refused exactly
  when its number is taken or a port of its name lies in one of the two chains that are searched.\<close>

theorem port_registry_refines_list:
  assumes "\<forall>p \<in> set ps. length (np_name p) < IFNAMSIZ"
  shows "fst (register_all ps (port_ntab_init (port_tab_init t))) = fst (register_list ps []) \<and>
    (pid \<le> NETIF_MAX_PORTS \<longrightarrow> netif_port_get pid (snd (register_all ps (port_ntab_init (port_tab_init t))))
       = Some (find (\<lambda>p. np_id p = pid) (snd (register_list ps [])))) \<and>
    (n \<noteq> [] \<longrightarrow> netif_port_get_by_name (Some n) (snd (register_all ps (port_ntab_init (port_tab_init t))))
       = find (\<lambda>p. np_name p = n) (snd (register_list ps [])))"
  using registry_run [OF registry_init, of ps] registry_get registry_get_by_name assms by (simp add: named_def)

definition sample_port :: "nat \<Rightarrow> bytes \<Rightarrow> netif_port" where
  "sample_port pid name = zero_port\<lparr>np_id := pid, np_name := name\<rparr>"

definition no_ports :: port_tables where
  "no_ports = \<lparr>port_tab = (\<lambda>_. []), port_ntab = (\<lambda>_. []), g_nports = 0, port_id_end = 0\<rparr>"

theorem port_registry_refines_list_witness:
  "fst (register_all [sample_port 0 (str ''p0''), sample_port 0 (str ''p1''), sample_port 256 (str ''p2'')]
      (port_ntab_init (port_tab_init no_ports))) = [0, -3, 0]"
  using port_registry_refines_list [of "[sample_port 0 (str ''p0''), sample_port 0 (str ''p1''), sample_port 256 (str ''p2'')]" no_ports 0 "[1]"]
  by (simp add: sample_port_def str_def IFNAMSIZ_def refused_def ENDF_EXIST_def ENDF_OK_def)

text \<open>Two ports may have one name: the second is accepted when its number lies in neither chain of the first, because the chain
  searched for names is the one of the number; it can then never be found by name.\<close>

theorem duplicate_name_registered:
  assumes "np_name p = np_name q" and "np_name q \<noteq> []" and "length (np_name q) < IFNAMSIZ"
    and "port_tab_hashkey (np_id p) \<notin> {port_tab_hashkey (np_id q), port_ntab_hashkey (np_name q) IFNAMSIZ}"
  shows "fst (register_all [q, p] (port_ntab_init (port_tab_init t))) = [ENDF_OK, ENDF_OK] \<and>
    netif_port_get_by_name (Some (np_name p)) (snd (register_all [q, p] (port_ntab_init (port_tab_init t)))) = Some q"
proof -
  have ok: "\<forall>r \<in> set [q, p]. named r"
    using assms(1,3) by (simp add: named_def)
  have "\<not> refused p [q]"
    using assms(4) by (auto simp: refused_def)
  then have l: "register_list [q, p] [] = ([ENDF_OK, ENDF_OK], [q, p])"
    by (simp add: refused_def [of q])
  note run = registry_run [OF registry_init [of t] ok, unfolded l fst_conv snd_conv]
  show ?thesis
    using run registry_get_by_name [of _ "[q, p]" "np_name p"] assms(1,2) by (auto simp del: register_all.simps)
qed

theorem duplicate_name_registered_witness:
  "netif_port_get_by_name (Some (str ''eth0'')) (snd (register_all [sample_port 0 (str ''eth0''), sample_port 1 (str ''eth0'')]
     (port_ntab_init (port_tab_init no_ports)))) = Some (sample_port 0 (str ''eth0''))"
proof -
  have "port_ntab_hashkey (str ''eth0'') IFNAMSIZ \<noteq> 1"
    by (simp add: port_ntab_hashkey_def str_def IFNAMSIZ_def NETIF_PORT_TABLE_BUCKETS_def)
  then show ?thesis
    using duplicate_name_registered [of "sample_port 1 (str ''eth0'')" "sample_port 0 (str ''eth0'')" no_ports]
    by (simp add: sample_port_def port_tab_hashkey_def NETIF_PORT_TABLE_BUCKETS_def str_def IFNAMSIZ_def del: register_all.simps)
qed

section \<open>Scaling text\<close>

text \<open>Reference: the names between the bars, without blanks.\<close>

fun split_on :: "'a \<Rightarrow> 'a list \<Rightarrow> 'a list list" where
  "split_on c [] = [[]]"
| "split_on c (x # xs) = (if x = c then [] # split_on c xs else case split_on c xs of [] \<Rightarrow> [[x]] | w # ws \<Rightarrow> (x # w) # ws)"

definition rss_words :: "bytes \<Rightarrow> bytes list" where
  "rss_words t = split_on 124 (filter (\<lambda>c. c \<noteq> 32) t)"

lemma split_on_nonempty [simp]: "split_on c xs \<noteq> []"
  by (cases xs) (auto split: list.splits)

lemma rss_scan_bits:
  "bit (snd (rss_scan eb t cur hf) OR scast (rss_resolve_proc eb (fst (rss_scan eb t cur hf)))) k \<longleftrightarrow>
    bit hf k \<or> (\<exists>w \<in> set ((cur @ hd (rss_words t)) # tl (rss_words t)). bit (scast (rss_resolve_proc eb w) :: u64) k)"
proof (induction eb t cur hf rule: rss_scan.induct)
  case (1 eb cur hf)
  show ?case
    by (simp add: rss_words_def bit_or_iff)
next
  case (2 eb c cs cur hf)
  obtain w ws where w: "rss_words cs = w # ws"
    using split_on_nonempty [of 124] by (metis neq_Nil_conv rss_words_def)
  have u: "rss_words (32 # cs) = w # ws" "rss_words (124 # cs) = [] # w # ws"
      "c \<noteq> 32 \<Longrightarrow> c \<noteq> 124 \<Longrightarrow> rss_words (c # cs) = (c # w) # ws"
    using w by (simp_all add: rss_words_def)
  consider "c = 32" | "c \<noteq> 32" "c \<noteq> 124" | "c = 124"
    by blast
  then show ?case
    by cases (use "2.IH" in \<open>auto simp: u w bit_or_iff\<close>)
qed

lemma rss_empty [simp]: "rss_resolve_proc eb [] = 0"
  by (simp add: rss_resolve_proc_def str_def)

lemma rss_scan_nonzero: "0 \<notin> set t \<Longrightarrow> 0 \<notin> set cur \<Longrightarrow> 0 \<notin> set (fst (rss_scan eb t cur hf))"
  by (induction eb t cur hf rule: rss_scan.induct) auto

lemma c_str_no_zero: "0 \<notin> set (c_str s)"
  by (auto simp: c_str_def dest: set_takeWhileD)

text \<open>A port asks for exactly the hash functions that its configuration names between bars, whatever blanks there are.\<close>

theorem rss_text_selects:
  assumes "fill_port_config eb rxq txq s port = Some (p, promisc, allmulti)"
    and "get_port_conf_stream (np_name port) (port_list s) = Some (Some d)"
  shows "bit (rss_hf p) k \<longleftrightarrow> (\<exists>w \<in> set (rss_words (c_str (pc_rss d))). bit (scast (rss_resolve_proc eb w) :: u64) k)"
proof -
  obtain cur hf where scan: "rss_scan eb (c_str (pc_rss d)) [] 0 = (cur, hf)"
    by fastforce
  have "0 \<notin> set cur"
    using rss_scan_nonzero [of "c_str (pc_rss d)" "[]" eb 0] scan c_str_no_zero by simp
  then have e: "first_char cur = 0 \<longleftrightarrow> cur = []"
    by (cases cur) (auto simp: first_char_def)
  have "rss_hf p = hf OR scast (rss_resolve_proc eb cur)"
    using assms scan e by (auto simp: fill_port_config_def field_str_def Let_def split: if_splits)
  then show ?thesis
    using rss_scan_bits [of eb "c_str (pc_rss d)" "[]" 0 k] scan by (simp add: rss_words_def)
qed

definition sample_bits :: eth_bits where
  "sample_bits = \<lparr>RSS_IP = 1, RSS_TCP = 2, RSS_UDP = 4, RSS_SCTP = 8, RSS_L2_PAYLOAD = 16, RSS_PORT = 32, RSS_TUNNEL = 64,
     TX_IPV4_CKSUM = 2, TX_TCP_CKSUM = 8, TX_UDP_CKSUM = 4, TX_MBUF_FAST_FREE = 65536, RX_VLAN_STRIP = 1, RX_IPV4_CKSUM = 2\<rparr>"

definition one_device :: "bytes \<Rightarrow> bytes \<Rightarrow> netif_conf" where
  "one_device name rss = \<lparr>port_list = [(new_device name)\<lparr>pc_rss := strncpy_field 32 rss\<rparr>], worker_list = [], netif_pktpool_nb_mbuf = 65535,
     netif_pktpool_mbuf_cache = 256, g_sched_interval = 10, netif_allocs = 0\<rparr>"

lemma strncpy_field_str:
  assumes "0 \<notin> set s" and "length s < n"
  shows "c_str (strncpy_field n s) = s" and "0 \<in> set (strncpy_field n s)"
proof -
  have c: "c_str s = s"
    using assms(1) by (auto simp: c_str_def takeWhile_eq_all_conv)
  obtain m where m: "n - length s = Suc m"
    using assms(2) by (cases "n - length s") auto
  have "strncpy_field n s = s @ replicate (n - length s) 0"
    using assms(2) by (simp add: strncpy_field_def c min_def)
  then show "c_str (strncpy_field n s) = s" and "0 \<in> set (strncpy_field n s)"
    using assms(1) m by (auto simp: c_str_def takeWhile_append)
qed

lemma sample_device_found:
  "get_port_conf_stream (str ''p0'') (port_list (one_device (str ''p0'') (str ''ip | udp'')))
     = Some (Some ((new_device (str ''p0''))\<lparr>pc_rss := strncpy_field 32 (str ''ip | udp'')\<rparr>))"
  using strncpy_field_str [of "str ''p0''" 32] by (simp add: one_device_def get_port_conf_stream_def new_device_def) (simp add: str_def)

theorem rss_text_selects_witness:
  "\<exists>p. fill_port_config sample_bits 1 1 (one_device (str ''p0'') (str ''ip | udp'')) (sample_port 0 (str ''p0'')) = Some (p, False, False)
     \<and> bit (rss_hf p) 2 \<and> \<not> bit (rss_hf p) 1"
proof -
  have n: "np_name (sample_port 0 (str ''p0'')) = str ''p0''"
    by (simp add: sample_port_def)
  have z: "field_str (strncpy_field 32 (str ''ip | udp'')) = Some (str ''ip | udp'')" "c_str (strncpy_field 32 (str ''ip | udp'')) = str ''ip | udp''"
    using strncpy_field_str [of "str ''ip | udp''" 32] by (simp_all add: field_str_def) (simp_all add: str_def)
  obtain p where p: "fill_port_config sample_bits 1 1 (one_device (str ''p0'') (str ''ip | udp'')) (sample_port 0 (str ''p0''))
      = Some (p, False, False)"
    by (cases "rss_scan sample_bits (str ''ip | udp'') [] 0") (simp add: fill_port_config_def n sample_device_found z new_device_def Let_def)
  have f: "get_port_conf_stream (np_name (sample_port 0 (str ''p0''))) (port_list (one_device (str ''p0'') (str ''ip | udp'')))
      = Some (Some ((new_device (str ''p0''))\<lparr>pc_rss := strncpy_field 32 (str ''ip | udp'')\<rparr>))"
    unfolding n by (rule sample_device_found)
  note sel = rss_text_selects [OF p f]
  show ?thesis
    using p sel [of 2] sel [of 1]
    by (simp add: z) (simp add: rss_words_def str_def rss_resolve_proc_def sample_bits_def)
qed

section \<open>Initialisation of the ports\<close>

text \<open>Masking with the capabilities of the device, whatever the test before it says.\<close>

lemma adapt_device_masks:
  "adapt_device_conf (Some i) rss rx tx = (rss AND flow_type_rss_offloads i, rx AND rx_offload_capa i, tx AND tx_offload_capa i)"
proof -
  have "c OR x = c \<Longrightarrow> x AND c = x" for c x :: u64
    by (auto simp: bit_eq_iff bit_simps)
  then show ?thesis
    by (auto simp: adapt_device_conf_def)
qed

lemma claim_none: "\<forall>d \<in> set ds. 0 \<le> pc_port_id d \<Longrightarrow> claim_device pid ds = None"
  by (induction ds) auto

lemma claim_last:
  "pc_port_id d < 0 \<Longrightarrow> \<forall>c \<in> set cs. 0 \<le> pc_port_id c \<Longrightarrow>
    claim_device pid (us @ d # cs) = Some (d, us @ d\<lparr>pc_port_id := int pid\<rparr> # cs)"
  by (induction us) (simp_all add: claim_none)

text \<open>The devices in the order of the file, the first \<open>k\<close> of them claimed; the name of the port with number \<open>pid\<close>.\<close>

definition claimed :: "nat \<Rightarrow> port_conf_stream list \<Rightarrow> port_conf_stream list" where
  "claimed k ds = map (\<lambda>i. (ds ! i)\<lparr>pc_port_id := int i\<rparr>) [0..<k] @ drop k ds"

definition ifname_of :: "port_conf_stream list \<Rightarrow> nat \<Rightarrow> bytes" where
  "ifname_of ds pid = take 15 (if first_char (pc_name (ds ! pid)) \<noteq> 0 then c_str (pc_name (ds ! pid)) else str ''dpdk'' @ show_dec pid)"

definition socket_ok :: "eth_env \<Rightarrow> nat \<Rightarrow> bool" where
  "socket_ok e pid \<longleftrightarrow> (if dev_socket_id e pid = SOCKET_ID_ANY then rte_socket_id e < NDF_MAX_SOCKET e
     else 0 \<le> dev_socket_id e pid \<and> dev_socket_id e pid < int (NDF_MAX_SOCKET e))"

lemma claimed_step:
  "k < length ds \<Longrightarrow> rev (claimed k ds) = rev (drop (Suc k) ds) @ ds ! k # rev (map (\<lambda>i. (ds ! i)\<lparr>pc_port_id := int i\<rparr>) [0..<k])"
  "k < length ds \<Longrightarrow> rev (claimed (Suc k) ds)
     = rev (drop (Suc k) ds) @ (ds ! k)\<lparr>pc_port_id := int k\<rparr> # rev (map (\<lambda>i. (ds ! i)\<lparr>pc_port_id := int i\<rparr>) [0..<k])"
  by (simp_all add: claimed_def Cons_nth_drop_Suc [symmetric])

lemma port_name_step:
  assumes "k < phy" "k < length ds" "port_list s = rev (claimed k ds)" "pc_port_id (ds ! k) < 0" "0 \<in> set (pc_name (ds ! k))"
  shows "port_name_alloc phy k IFNAMSIZ s = Some (ENDF_OK, ifname_of ds k, s\<lparr>port_list := rev (claimed (Suc k) ds)\<rparr>)"
  using assms claim_last [of "ds ! k" "rev (map (\<lambda>i. (ds ! i)\<lparr>pc_port_id := int i\<rparr>) [0..<k])" k "rev (drop (Suc k) ds)"]
  by (simp add: port_name_alloc_def is_physical_port_def claimed_step ifname_of_def field_str_def IFNAMSIZ_def)

lemma setup_keeps [simp]:
  "np_id (dpdk_port_setup e d) = np_id d" "np_name (dpdk_port_setup e d) = np_name d" "np_socket (dpdk_port_setup e d) = dev_socket_id e (np_id d)"
  by (simp_all add: dpdk_port_setup_def setup_dev_of_flags_def Let_def)

lemma alloc_step:
  assumes "malloc_ok env n" "netif_port_get k t = Some None" "k < NETIF_MAX_PORTS" "\<not> c_strstr name (str ''%d'')" "length name < IFNAMSIZ"
    and "socket_ok e k"
  shows "\<exists>p. netif_alloc env e n k name 0 0 (Some (dpdk_port_setup e)) t = Some (Some p, t) \<and> np_id p = k \<and> np_name p = name"
  using assms
  by (auto simp: netif_alloc_def Let_def NETIF_PORT_ID_INVALID_def socket_ok_def IFNAMSIZ_def split: if_splits)

text \<open>What DPDK and the file must provide for all ports to come up.\<close>

definition ports_ready :: "netif_env \<Rightarrow> eth_env \<Rightarrow> netif_conf \<Rightarrow> bool" where
  "ports_ready env e s \<longleftrightarrow> (\<forall>k. malloc_ok (alloc_env env) k) \<and> dev_count e \<le> length (port_list s) \<and> dev_count e \<le> NETIF_MAX_PORTS
     \<and> (\<forall>d \<in> set (port_list s). pc_port_id d < 0 \<and> 0 \<in> set (pc_name d))
     \<and> (\<forall>k < dev_count e. socket_ok e k \<and> \<not> c_strstr (ifname_of (rev (port_list s)) k) (str ''%d''))
     \<and> distinct (map (ifname_of (rev (port_list s))) [0..<dev_count e])"

definition port_names :: "netif_port list \<Rightarrow> (nat \<times> bytes) list" where
  "port_names ps = map (\<lambda>p. (np_id p, np_name p)) ps"

definition names_upto :: "port_conf_stream list \<Rightarrow> nat \<Rightarrow> (nat \<times> bytes) list" where
  "names_upto ds k = map (\<lambda>i. (i, ifname_of ds i)) [0..<k]"

lemma port_names_new:
  assumes "port_names ps = names_upto ds k" and "distinct (map (ifname_of ds) [0..<n])" and "k < n" and "np_id p = k" and "np_name p = ifname_of ds k"
  shows "\<not> refused p ps" and "k \<le> NETIF_MAX_PORTS \<Longrightarrow> registry t ps \<Longrightarrow> netif_port_get k t = Some None"
proof -
  have q: "np_id q < k \<and> np_name q = ifname_of ds (np_id q)" if "q \<in> set ps" for q
  proof -
    have "(np_id q, np_name q) \<in> set (names_upto ds k)"
      using that unfolding assms(1) [symmetric] port_names_def by auto
    then show ?thesis
      by (auto simp: names_upto_def)
  qed
  have "ifname_of ds i \<noteq> ifname_of ds k" if "i < k" for i
    using assms(2,3) that nth_eq_iff_index_eq [OF assms(2), of i k] by simp
  then show "\<not> refused p ps"
    using q assms(4,5) by (fastforce simp: refused_def)
  show "k \<le> NETIF_MAX_PORTS \<Longrightarrow> registry t ps \<Longrightarrow> netif_port_get k t = Some None"
    using q by (auto simp: registry_get find_None_iff)
qed

lemma find_nth: "i < length xs \<Longrightarrow> P (xs ! i) \<Longrightarrow> (\<And>j. j < i \<Longrightarrow> \<not> P (xs ! j)) \<Longrightarrow> find P xs = Some (xs ! i)"
  by (auto simp: find_Some_iff)

lemma ifname_short: "length (ifname_of ds k) < IFNAMSIZ"
  by (simp add: ifname_of_def IFNAMSIZ_def)

lemma init_ports_from:
  assumes "\<forall>k. malloc_ok (alloc_env env) k" and "n \<le> length ds" and "n \<le> NETIF_MAX_PORTS"
    and "\<forall>d \<in> set ds. pc_port_id d < 0 \<and> 0 \<in> set (pc_name d)"
    and "\<forall>k < n. socket_ok e k \<and> \<not> c_strstr (ifname_of ds k) (str ''%d'')" and "distinct (map (ifname_of ds) [0..<n])"
    and "k \<le> n" and "port_list s = rev (claimed k ds)" and "registry t ps" and "port_names ps = names_upto ds k"
  shows "\<exists>s' t' ps'. init_ports env e n [k..<n] s t = Some (Continues (s', t')) \<and> port_list s' = rev (claimed n ds) \<and> registry t' ps'
    \<and> port_names ps' = names_upto ds n"
  using assms(7-)
proof (induction "n - k" arbitrary: k s t ps)
  case 0
  then show ?case
    by auto
next
  case (Suc m)
  then have k: "k < n" "k < length ds" "k < NETIF_MAX_PORTS"
    using assms(2,3) by auto
  have d: "pc_port_id (ds ! k) < 0" "0 \<in> set (pc_name (ds ! k))"
    using assms(4) k(2) by (simp_all add: nth_mem)
  note free = port_names_new [OF Suc.prems(4) assms(6) k(1)]
  have get: "netif_port_get k t = Some None"
    using free(2) [of "sample_port k (ifname_of ds k)"] k Suc.prems(3) by (simp add: sample_port_def)
  obtain p where p: "netif_alloc (alloc_env env) e (netif_allocs s) k (ifname_of ds k) 0 0 (Some (dpdk_port_setup e)) t = Some (Some p, t)"
      "np_id p = k" "np_name p = ifname_of ds k"
    using alloc_step [OF _ get k(3) _ ifname_short] assms(1,5) k(1) by blast
  obtain t1 where t1: "netif_port_register (Some p) t = (ENDF_OK, t1)" "registry t1 (ps @ [p])"
    using registry_register [OF Suc.prems(3), of p] free(1) [OF p(2,3)] ifname_short [of ds k] p(3)
    by (cases "netif_port_register (Some p) t") (auto simp: named_def)
  have "port_names (ps @ [p]) = names_upto ds (Suc k)"
    using Suc.prems(4) p by (simp add: port_names_def names_upto_def)
  moreover have m: "m = n - Suc k"
    using Suc.hyps(2) by simp
  ultimately obtain s' t' ps' where r: "init_ports env e n [Suc k..<n] (s\<lparr>port_list := rev (claimed (Suc k) ds), netif_allocs := netif_allocs s + 1\<rparr>) t1
      = Some (Continues (s', t'))" "port_list s' = rev (claimed n ds)" "registry t' ps'" "port_names ps' = names_upto ds n"
    using Suc.hyps(1) [of "Suc k" "s\<lparr>port_list := rev (claimed (Suc k) ds), netif_allocs := netif_allocs s + 1\<rparr>" t1 "ps @ [p]"]
      m k(1) t1(2) by auto
  have "init_ports env e n [k..<n] s t = Some (Continues (s', t'))"
    using r(1) k(1) port_name_step [OF k(1,2) Suc.prems(2) d] p(1) t1(1)
    by (simp add: upt_conv_Cons is_physical_port_def ENDF_OK_def)
  then show ?case
    using r by blast
qed

lemma ports_brought_up:
  assumes "ports_ready env e s" and "0 < dev_count e"
  shows "\<exists>s' t'. netif_port_init env e s t = Some (Continues (s', t')) \<and> port_list s' = rev (claimed (dev_count e) (rev (port_list s))) \<and>
    (\<forall>pid < dev_count e. \<exists>p. netif_port_get pid t' = Some (Some p) \<and> np_id p = pid \<and> np_name p = ifname_of (rev (port_list s)) pid
       \<and> netif_port_get_by_name (Some (np_name p)) t' = Some p)"
proof -
  define ds n where "ds = rev (port_list s)" and "n = dev_count e"
  have ready: "\<forall>k. malloc_ok (alloc_env env) k" "n \<le> length ds" "n \<le> NETIF_MAX_PORTS"
      "\<forall>d \<in> set ds. pc_port_id d < 0 \<and> 0 \<in> set (pc_name d)" "\<forall>k < n. socket_ok e k \<and> \<not> c_strstr (ifname_of ds k) (str ''%d'')"
      "distinct (map (ifname_of ds) [0..<n])"
    using assms(1) by (simp_all add: ports_ready_def ds_def n_def)
  obtain s' t' ps where r: "init_ports env e n [0..<n] s (port_ntab_init (port_tab_init t)) = Some (Continues (s', t'))"
      "port_list s' = rev (claimed n ds)" "registry t' ps" "port_names ps = names_upto ds n"
    using init_ports_from [OF ready, of 0 s "port_ntab_init (port_tab_init t)" "[]"] registry_init [of t]
    by (auto simp: claimed_def ds_def port_names_def names_upto_def)
  have len: "length ps = n"
    using arg_cong [OF r(4), of length] by (simp add: port_names_def names_upto_def)
  have nth: "np_id (ps ! i) = i" "np_name (ps ! i) = ifname_of ds i" if "i < n" for i
    using arg_cong [OF r(4), of "\<lambda>l. l ! i"] that len by (simp_all add: port_names_def names_upto_def)
  have "netif_port_get pid t' = Some (Some (ps ! pid)) \<and> netif_port_get_by_name (Some (np_name (ps ! pid))) t' = Some (ps ! pid)"
    if "pid < n" for pid
  proof
    have "find (\<lambda>p. np_id p = pid) ps = Some (ps ! pid)"
      using that len nth by (intro find_nth) auto
    then show "netif_port_get pid t' = Some (Some (ps ! pid))"
      using registry_get [OF r(3), of pid] that ready(3) by simp
    have "find (\<lambda>p. np_name p = np_name (ps ! pid)) ps = Some (ps ! pid)"
      using that len nth nth_eq_iff_index_eq [OF ready(6), of _ pid] by (intro find_nth) auto
    moreover have "np_name (ps ! pid) \<noteq> []"
      using nth(2) [OF that] by (auto simp: ifname_of_def str_def c_str_def first_char_def split: list.splits)
    ultimately show "netif_port_get_by_name (Some (np_name (ps ! pid))) t' = Some (ps ! pid)"
      using registry_get_by_name [OF r(3)] by simp
  qed
  moreover have "netif_port_init env e s t = Some (Continues (s', t'))"
    using r(1) assms(2) ready(2) by (simp add: netif_port_init_def ds_def n_def)
  ultimately show ?thesis
    using r(2) nth unfolding ds_def n_def by blast
qed


definition sample_eth :: eth_env where
  "sample_eth = \<lparr>eth_bits = sample_bits, dev_count = 1, dev_socket_id = (\<lambda>_. 0), macaddr_get = (\<lambda>_. None), dev_get_mtu = (\<lambda>_. None),
     dev_info_get = (\<lambda>_. None), rte_socket_id = 0, NDF_MAX_SOCKET = 4\<rparr>"

definition sample_netif_env :: netif_env where
  "sample_netif_env = \<lparr>alloc_env = \<lparr>malloc_ok = (\<lambda>_. True), malloc_junk = (\<lambda>_ _. 0)\<rparr>, NDF_MAX_LCORE = 128\<rparr>"

end
