(* ===== verification/Netif_Lcore.thy ===== *)
theory Netif_Lcore
  imports Netif_Port
begin

text \<open>
  The distribution of queues over cores in \<^verbatim>\<open>netif.c\<close>: the table of lcore configurations built from the workers of the
  file, the isolated receive queues, the consistency check, the index tables and the roles. The array \<^verbatim>\<open>lcore_conf\<close> is the
  list of its entries in use; the entries after them are zero. \<^verbatim>\<open>NDF_MAX_LCORE\<close> is an argument that fits in
  \<^verbatim>\<open>lcoreid_t\<close>; loops that look for an entry without ports run out of the array when there is none.
\<close>

section \<open>State\<close>

record netif_queue_conf =
  q_id :: nat
  q_isol :: bool

record netif_port_conf =
  pq_id :: nat
  rxqs :: "netif_queue_conf list"
  txqs :: "netif_queue_conf list"

record netif_lcore_conf =
  lc_id :: nat
  lc_type :: nat
  pqs :: "netif_port_conf list"

text \<open>An isolated receive queue; \<open>rp_rxq\<close> is the place of the queue it belongs to: lcore entry, port and queue.\<close>

record rx_partner =
  rp_cid :: nat
  rp_pid :: nat
  rp_qid :: nat
  rp_ring :: int
  rp_rxq :: "nat \<times> nat \<times> nat"

record lcore_state =
  lcore_conf :: "netif_lcore_conf list"
  isol_rxq_tab :: "nat \<Rightarrow> rx_partner list"
  lc_allocs :: nat

text \<open>What the environment decides: whether a ring of a given name and size can be created, the enabled cores, the main core.\<close>

record lcore_env =
  lc_env :: netif_env
  ring_create :: "bytes \<Rightarrow> int \<Rightarrow> bool"
  lcore_enabled :: "nat \<Rightarrow> bool"
  main_lcore :: nat
  lcore_count :: nat
  eth_count :: nat

definition NETIF_MAX_RTE_PORTS :: nat where "NETIF_MAX_RTE_PORTS = 64"
definition NETIF_MAX_PKT_BURST :: nat where "NETIF_MAX_PKT_BURST = 32"

abbreviation max_lcore :: "lcore_env \<Rightarrow> nat" where
  "max_lcore e \<equiv> NDF_MAX_LCORE (lc_env e)"

definition isol_rxq_init :: "nat \<Rightarrow> lcore_state \<Rightarrow> lcore_state" where
  "isol_rxq_init m st = st\<lparr>isol_rxq_tab := (\<lambda>i. if i < m then [] else isol_rxq_tab st i)\<rparr>"

definition isol_name :: "nat \<Rightarrow> nat \<Rightarrow> nat \<Rightarrow> bytes" where
  "isol_name cid pid qid = take 30 (str ''isol_rxq_c'' @ show_dec cid @ str ''p'' @ show_dec pid @ str ''q'' @ show_dec qid)"

definition isol_rxq_add :: "lcore_env \<Rightarrow> nat \<Rightarrow> nat \<Rightarrow> nat \<Rightarrow> int \<Rightarrow> nat \<times> nat \<times> nat \<Rightarrow> lcore_state \<Rightarrow> (int \<times> lcore_state) option" where
  "isol_rxq_add e cid pid qid rb_sz rxq st =
    (if max_lcore e < cid then None
     else if \<not> malloc_ok (alloc_env (lc_env e)) (lc_allocs st) then Some (ENDF_NOMEM, st\<lparr>lc_allocs := lc_allocs st + 1\<rparr>)
     else do {
       r \<leftarrow> is_power2 rb_sz 0;
       let st1 = st\<lparr>lc_allocs := lc_allocs st + 1\<rparr> in
       if \<not> ring_create e (isol_name cid pid qid) (snd r) then Some (ENDF_DPDKAPIFAIL, st1)
       else if max_lcore e \<le> cid then None
       else Some (ENDF_OK, st1\<lparr>isol_rxq_tab := (isol_rxq_tab st)(cid :=
              \<lparr>rp_cid = cid, rp_pid = pid, rp_qid = qid, rp_ring = snd r, rp_rxq = rxq\<rparr> # isol_rxq_tab st cid)\<rparr>) })"

section \<open>Configuration of the cores\<close>

text \<open>The type of a worker, undefined when the file gave none.\<close>

definition worker_type :: "worker_conf_stream \<Rightarrow> bytes option" where
  "worker_type w = Option.bind (wc_type w) field_str"

text \<open>The first pass: \<open>n\<close> workers are left to be seen, those in \<open>kept\<close> were seen and not moved.\<close>

fun move_masters :: "nat \<Rightarrow> worker_conf_stream list \<Rightarrow> worker_conf_stream list \<Rightarrow> nat \<Rightarrow> (worker_conf_stream list \<times> nat) option" where
  "move_masters 0 kept rest cpu_left = Some (kept @ rest, cpu_left)"
| "move_masters (Suc n) kept [] cpu_left = Some (kept, cpu_left)"
| "move_masters (Suc n) kept (w # rest) cpu_left = do {
     t \<leftarrow> worker_type w;
     if t = str ''master'' then move_masters n kept (rest @ [w]) (cpu_left - 1)
     else move_masters n (kept @ [w]) rest cpu_left }"

text \<open>The first of the workers with the smallest core number below the bound.\<close>

fun scan_min :: "int \<Rightarrow> nat option \<Rightarrow> nat \<Rightarrow> worker_conf_stream list \<Rightarrow> nat option option" where
  "scan_min m best i [] = Some best"
| "scan_min m best i (w # ws) = do {
     c \<leftarrow> wc_cpu_id w;
     if m > c then scan_min c (Some i) (i + 1) ws else scan_min m best (i + 1) ws }"

definition worker_role :: "bytes \<Rightarrow> nat" where
  "worker_role t = (if t = str ''slave'' then LCORE_ROLE_FWD_WORKER else if t = str ''kni'' then LCORE_ROLE_KNI_WORKER else LCORE_ROLE_IDLE)"

text \<open>The loops over the identifiers, from place \<open>ii\<close> on; the element is read before \<open>ii\<close> is compared with the bound.\<close>

function fill_rxqs :: "lcore_env \<Rightarrow> netif_port option \<Rightarrow> queue_conf_stream \<Rightarrow> nat \<times> nat \<Rightarrow> nat \<Rightarrow> netif_queue_conf list \<Rightarrow> lcore_state \<Rightarrow>
    (netif_queue_conf list \<times> lcore_state) option" where
  "fill_rxqs e port q pl ii acc st =
    (if length (rx_queues q) \<le> ii then None
     else let qid = rx_queues q ! ii in
       if qid = int NETIF_MAX_QUEUES \<or> NETIF_MAX_QUEUES \<le> ii then Some (acc, st)
       else if length (isol_rxq_lcore_ids q) \<le> ii then None
       else let qn = nat (qid mod 65536); cid = isol_rxq_lcore_ids q ! ii in
         if cid = NETIF_LCORE_ID_INVALID then fill_rxqs e port q pl (ii + 1) (acc @ [\<lparr>q_id = qn, q_isol = False\<rparr>]) st
         else case port of None \<Rightarrow> None
           | Some p \<Rightarrow> do {
               (r, st1) \<leftarrow> isol_rxq_add e (nat (cid mod 256)) (np_id p) qn (isol_rxq_ring_sz q) (fst pl, snd pl, ii) st;
               fill_rxqs e port q pl (ii + 1) (acc @ [\<lparr>q_id = qn, q_isol = (r \<ge> 0)\<rparr>]) st1 })"
  by pat_completeness auto
termination fill_rxqs
  by (relation "measure (\<lambda>(e, port, q, pl, ii, acc, st). length (rx_queues q) - ii)") auto

declare fill_rxqs.simps [simp del]

function fill_txqs :: "queue_conf_stream \<Rightarrow> nat \<Rightarrow> netif_queue_conf list \<Rightarrow> netif_queue_conf list option" where
  "fill_txqs q ii acc =
    (if length (tx_queues q) \<le> ii then None
     else if tx_queues q ! ii = int NETIF_MAX_QUEUES \<or> NETIF_MAX_QUEUES \<le> ii then Some acc
     else fill_txqs q (ii + 1) (acc @ [\<lparr>q_id = nat (tx_queues q ! ii mod 65536), q_isol = False\<rparr>]))"
  by pat_completeness auto
termination fill_txqs
  by (relation "measure (\<lambda>(q, ii, acc). length (tx_queues q) - ii)") auto

declare fill_txqs.simps [simp del]

fun fill_ports :: "lcore_env \<Rightarrow> port_tables \<Rightarrow> nat \<Rightarrow> queue_conf_stream list \<Rightarrow> netif_port_conf list \<Rightarrow> lcore_state \<Rightarrow>
    (netif_port_conf list \<times> lcore_state) option" where
  "fill_ports e t idx [] acc st = Some (acc, st)"
| "fill_ports e t idx (q # qs) acc st = do {
     name \<leftarrow> field_str (qc_port_name q);
     let port = netif_port_get_by_name (Some name) t in
     if NETIF_MAX_RTE_PORTS \<le> length acc then None
     else do {
       (rx, st1) \<leftarrow> fill_rxqs e port q (idx, length acc) 0 [] st;
       tx \<leftarrow> fill_txqs q 0 [];
       fill_ports e t idx qs
         (acc @ [\<lparr>pq_id = (case port of Some p \<Rightarrow> np_id p | None \<Rightarrow> NETIF_PORT_ID_INVALID), rxqs = rx, txqs = tx\<rparr>]) st1 } }"

fun config_loop :: "lcore_env \<Rightarrow> port_tables \<Rightarrow> nat \<Rightarrow> worker_conf_stream list \<Rightarrow> lcore_state \<Rightarrow> (worker_conf_stream list \<times> lcore_state) option" where
  "config_loop e t 0 ws st = Some (ws, st)"
| "config_loop e t (Suc cpu_left) ws st = do {
     best \<leftarrow> scan_min (int (max_lcore e)) None 0 (take (Suc cpu_left) ws);
     i \<leftarrow> best;
     let w = ws ! i in do {
       cpu \<leftarrow> wc_cpu_id w;
       ty \<leftarrow> worker_type w;
       if max_lcore e \<le> length (lcore_conf st) then None
       else do {
         (ps, st1) \<leftarrow> fill_ports e t (length (lcore_conf st)) (rev (wc_port_list w)) [] st;
         config_loop e t cpu_left (take i ws @ drop (i + 1) ws @ [w])
           (st1\<lparr>lcore_conf := lcore_conf st @ [\<lparr>lc_id = nat (cpu mod 256), lc_type = worker_role ty, pqs = ps\<rparr>]\<rparr>) } } }"

definition config_lcores :: "lcore_env \<Rightarrow> port_tables \<Rightarrow> worker_conf_stream list \<Rightarrow> lcore_state \<Rightarrow> (worker_conf_stream list \<times> lcore_state) option" where
  "config_lcores e t ws st = do {
     (ws1, cpu_left) \<leftarrow> move_masters (length ws) [] ws (length ws);
     config_loop e t cpu_left ws1 (st\<lparr>lcore_conf := []\<rparr>) }"

section \<open>Queries\<close>

text \<open>The entries before the first without ports, when there is such an entry in the array.\<close>

definition active :: "nat \<Rightarrow> netif_lcore_conf list \<Rightarrow> netif_lcore_conf list option" where
  "active m cs = (let a = takeWhile (\<lambda>c. pqs c \<noteq> []) cs in if length a < m then Some a else None)"

definition port_queues :: "(netif_port_conf \<Rightarrow> netif_queue_conf list) \<Rightarrow> nat \<Rightarrow> netif_lcore_conf list \<Rightarrow> netif_queue_conf list" where
  "port_queues sel pid cs = concat (map (\<lambda>c. concat (map sel (filter (\<lambda>p. pq_id p = pid) (pqs c)))) cs)"

definition port_rx_queues_get :: "nat \<Rightarrow> netif_lcore_conf list \<Rightarrow> nat \<Rightarrow> int option" where
  "port_rx_queues_get m cs pid = map_option (\<lambda>a. \<Sum>c\<leftarrow>a. \<Sum>p\<leftarrow>pqs c. if pq_id p = pid then int (length (rxqs p)) else 0) (active m cs)"

definition port_tx_queues_get :: "nat \<Rightarrow> netif_lcore_conf list \<Rightarrow> nat \<Rightarrow> int option" where
  "port_tx_queues_get m cs pid = map_option (\<lambda>a. \<Sum>c\<leftarrow>a. \<Sum>p\<leftarrow>pqs c. if pq_id p = pid then int (length (txqs p)) else 0) (active m cs)"

text \<open>The port of the worker, or the zero entry after its ports; its transmit queues are zero after those in use.\<close>

definition worker_port :: "nat \<Rightarrow> netif_lcore_conf \<Rightarrow> netif_port_conf option" where
  "worker_port pid c = (case find (\<lambda>p. pq_id p = pid) (pqs c) of
     Some p \<Rightarrow> Some p
   | None \<Rightarrow> if length (pqs c) < NETIF_MAX_RTE_PORTS then Some \<lparr>pq_id = 0, rxqs = [], txqs = []\<rparr> else None)"

definition txq_at :: "netif_port_conf \<Rightarrow> nat \<Rightarrow> nat" where
  "txq_at p k = (if k < length (txqs p) then q_id (txqs p ! k) else 0)"

text \<open>\<open>n\<close> is the length of the array \<^verbatim>\<open>qids\<close>: the value is stored before it is compared with \<open>n\<close>.\<close>

fun rss_queues :: "nat \<Rightarrow> nat \<Rightarrow> nat \<Rightarrow> nat \<Rightarrow> netif_lcore_conf list \<Rightarrow> nat list \<Rightarrow> (int + nat list) option" where
  "rss_queues m pid n i [] acc = (if i < m then Some (Inr acc) else None)"
| "rss_queues m pid n i (c # cs) acc =
    (if m \<le> i then None
     else if pqs c = [] then Some (Inr acc)
     else if lc_type c \<noteq> LCORE_ROLE_FWD_WORKER then rss_queues m pid n (i + 1) cs acc
     else do {
       p \<leftarrow> worker_port pid c;
       if pq_id p \<noteq> pid then Some (Inl ENDF_INVAL)
       else if n < length acc + length (rxqs p) then None
       else rss_queues m pid n (i + 1) cs (acc @ map (txq_at p) [0..<length (rxqs p)]) })"

definition get_configured_rss_queues :: "nat \<Rightarrow> netif_lcore_conf list \<Rightarrow> nat \<Rightarrow> nat \<Rightarrow> (int + nat list) option" where
  "get_configured_rss_queues m cs pid n = (if n < NETIF_MAX_QUEUES then Some (Inl ENDF_INVAL) else rss_queues m pid n 0 cs [])"

text \<open>The table of \<^verbatim>\<open>reta_size\<close> entries that is handed to the device; the array has room for 512. \<open>update\<close> says whether DPDK accepts it.\<close>

definition netif_update_rss_reta :: "(nat \<Rightarrow> nat list \<Rightarrow> bool) \<Rightarrow> nat \<Rightarrow> netif_lcore_conf list \<Rightarrow> netif_port \<Rightarrow> int option" where
  "netif_update_rss_reta update m cs port =
    (if np_type port \<noteq> PORT_TYPE_GENERAL then Some ENDF_OK
     else do {
       r \<leftarrow> get_configured_rss_queues m cs (np_id port) NETIF_MAX_QUEUES;
       case r of
         Inl err \<Rightarrow> Some err
       | Inr rssq \<Rightarrow> let n = reta_size (np_info port) in
           if 0 < n \<and> (rssq = [] \<or> 512 < n) then None
           else if update (np_id port) (map (\<lambda>i. rssq ! (i mod length rssq)) [0..<n]) then Some ENDF_OK else Some ENDF_DPDKAPIFAIL })"

section \<open>The check\<close>

definition LCONFCHK_OK :: int where "LCONFCHK_OK = 0"
definition LCONFCHK_REPEATED_RX_QUEUE_ID :: int where "LCONFCHK_REPEATED_RX_QUEUE_ID = -2"
definition LCONFCHK_REPEATED_TX_QUEUE_ID :: int where "LCONFCHK_REPEATED_TX_QUEUE_ID = -3"
definition LCONFCHK_DISCONTINUOUS_QUEUE_ID :: int where "LCONFCHK_DISCONTINUOUS_QUEUE_ID = -4"
definition LCONFCHK_PORT_NOT_ENOUGH :: int where "LCONFCHK_PORT_NOT_ENOUGH = -5"
definition LCONFCHK_INCORRECT_TX_QUEUE_NUM :: int where "LCONFCHK_INCORRECT_TX_QUEUE_NUM = -6"
definition LCONFCHK_NO_SLAVE_LCORES :: int where "LCONFCHK_NO_SLAVE_LCORES = -7"

lemmas lconfchk_defs = LCONFCHK_OK_def LCONFCHK_REPEATED_RX_QUEUE_ID_def LCONFCHK_REPEATED_TX_QUEUE_ID_def
  LCONFCHK_DISCONTINUOUS_QUEUE_ID_def LCONFCHK_PORT_NOT_ENOUGH_def LCONFCHK_INCORRECT_TX_QUEUE_NUM_def LCONFCHK_NO_SLAVE_LCORES_def

text \<open>The different ports; the counter is a byte.\<close>

definition note_port :: "nat list \<Rightarrow> nat \<Rightarrow> nat list" where
  "note_port ports pid = (if pid \<in> set ports then ports else if length ports = 255 then [] else ports @ [pid])"

fun count_ports :: "nat \<Rightarrow> nat \<Rightarrow> nat \<Rightarrow> netif_lcore_conf list \<Rightarrow> nat list \<Rightarrow> nat list option" where
  "count_ports m lcores i [] ports = (if i < m then Some ports else None)"
| "count_ports m lcores i (c # cs) ports =
    (if m \<le> i then None
     else if pqs c = [] \<or> lcores \<le> i then Some ports
     else count_ports m lcores (i + 1) cs (foldl note_port ports (map pq_id (pqs c))))"

definition get_configured_port_nb :: "nat \<Rightarrow> nat \<Rightarrow> netif_lcore_conf list \<Rightarrow> nat option" where
  "get_configured_port_nb m lcores cs = map_option length (count_ports m lcores 0 cs [])"

text \<open>Marks of the queues seen: pairs of a port and a queue. The array of marks has 64 ports of 16 queues.\<close>

fun mark_queues :: "int \<Rightarrow> nat \<Rightarrow> nat list \<Rightarrow> (nat \<times> nat) list \<Rightarrow> (int + (nat \<times> nat) list) option" where
  "mark_queues err pid [] mk = Some (Inr mk)"
| "mark_queues err pid (qid # qids) mk =
    (if NETIF_MAX_RTE_PORTS \<le> pid \<or> NETIF_MAX_QUEUES \<le> qid then None
     else if (pid, qid) \<in> set mk then Some (Inl err)
     else mark_queues err pid qids ((pid, qid) # mk))"

type_synonym marks = "(nat \<times> nat) list \<times> (nat \<times> nat) list"

fun mark_ports :: "netif_port_conf list \<Rightarrow> marks \<Rightarrow> (int + marks) option" where
  "mark_ports [] mk = Some (Inr mk)"
| "mark_ports (p # ps) mk = do {
     r \<leftarrow> mark_queues LCONFCHK_REPEATED_RX_QUEUE_ID (pq_id p) (map q_id (rxqs p)) (fst mk);
     case r of
       Inl err \<Rightarrow> Some (Inl err)
     | Inr rx \<Rightarrow> do {
         r' \<leftarrow> mark_queues LCONFCHK_REPEATED_TX_QUEUE_ID (pq_id p) (map q_id (txqs p)) (snd mk);
         case r' of Inl err \<Rightarrow> Some (Inl err) | Inr tx \<Rightarrow> mark_ports ps (rx, tx) } }"

fun mark_lcores :: "nat \<Rightarrow> nat \<Rightarrow> nat \<Rightarrow> nat \<Rightarrow> netif_lcore_conf list \<Rightarrow> marks \<Rightarrow> (int + nat \<times> marks) option" where
  "mark_lcores m nports lcores i [] mk = (if i < m then Some (Inr (i, mk)) else None)"
| "mark_lcores m nports lcores i (c # cs) mk =
    (if m \<le> i then None
     else if pqs c = [] then Some (Inr (i, mk))
     else if nports < length (pqs c) then Some (Inl LCONFCHK_PORT_NOT_ENOUGH)
     else do {
       r \<leftarrow> mark_ports (pqs c) mk;
       case r of
         Inl err \<Rightarrow> Some (Inl err)
       | Inr mk' \<Rightarrow> if lcores \<le> i + 1 then Some (Inr (i + 1, mk')) else mark_lcores m nports lcores (i + 1) cs mk' })"

text \<open>Whether the queues \<open>0\<close> to \<open>n - 1\<close> of a port are marked.\<close>

fun all_marked :: "nat \<Rightarrow> nat list \<Rightarrow> (nat \<times> nat) list \<Rightarrow> bool option" where
  "all_marked pid [] mk = Some True"
| "all_marked pid (j # js) mk =
    (if NETIF_MAX_RTE_PORTS \<le> pid \<or> NETIF_MAX_QUEUES \<le> j then None
     else if (pid, j) \<in> set mk then all_marked pid js mk else Some False)"

fun check_marks :: "nat \<Rightarrow> netif_lcore_conf list \<Rightarrow> marks \<Rightarrow> nat list \<Rightarrow> bool option" where
  "check_marks m cs mk [] = Some True"
| "check_marks m cs mk (pid # pids) = do {
     nrx \<leftarrow> port_rx_queues_get m cs pid;
     rx \<leftarrow> all_marked pid [0..<nat (nrx mod 256)] (fst mk);
     if \<not> rx then Some False
     else do {
       ntx \<leftarrow> port_tx_queues_get m cs pid;
       tx \<leftarrow> all_marked pid [0..<nat (ntx mod 256)] (snd mk);
       if \<not> tx then Some False else check_marks m cs mk pids } }"

fun check_tx :: "nat \<Rightarrow> nat \<Rightarrow> nat \<Rightarrow> nat \<Rightarrow> netif_lcore_conf list \<Rightarrow> bool option" where
  "check_tx m nconf lcores i [] = (if i < m then Some True else None)"
| "check_tx m nconf lcores i (c # cs) =
    (if m \<le> i then None
     else if pqs c = [] then Some True
     else if length (pqs c) \<noteq> nconf \<or> list_ex (\<lambda>p. txqs p = []) (pqs c) then Some False
     else if lcores \<le> i + 1 then Some True
     else check_tx m nconf lcores (i + 1) cs)"

definition check_lcore_conf :: "nat \<Rightarrow> nat \<Rightarrow> nat \<Rightarrow> netif_lcore_conf list \<Rightarrow> int option" where
  "check_lcore_conf m devs lcores cs = do {
     nconf \<leftarrow> get_configured_port_nb m lcores cs;
     let nports = devs mod 256 in do {
     r \<leftarrow> mark_lcores m nports lcores 0 cs ([], []);
     case r of
       Inl err \<Rightarrow> Some err
     | Inr (i, mk) \<Rightarrow>
        if i = 0 then Some LCONFCHK_NO_SLAVE_LCORES
        else do {
          ok \<leftarrow> check_marks m cs mk [0..<nports];
          if \<not> ok then Some LCONFCHK_DISCONTINUOUS_QUEUE_ID
          else do {
            tx \<leftarrow> check_tx m nconf lcores 0 cs;
            Some (if tx then LCONFCHK_OK else LCONFCHK_INCORRECT_TX_QUEUE_NUM) } } } }"

section \<open>Index tables and roles\<close>

record lcore_tables =
  lcore2index :: "nat \<Rightarrow> nat"
  port2index :: "nat \<Rightarrow> nat \<Rightarrow> nat"

fun index_loop :: "lcore_env \<Rightarrow> nat \<Rightarrow> netif_lcore_conf list \<Rightarrow> (nat \<Rightarrow> nat) \<Rightarrow> (int \<times> (nat \<Rightarrow> nat)) option" where
  "index_loop e i [] t = (if i < max_lcore e then Some (ENDF_OK, t) else None)"
| "index_loop e i (c # cs) t =
    (if max_lcore e \<le> i then None
     else if pqs c = [] then Some (ENDF_OK, t)
     else if \<not> lcore_enabled e (lc_id c) then Some (ENDF_NONEALCORE, t)
     else if max_lcore e < lc_id c then None
     else index_loop e (i + 1) cs (t(lc_id c := i)))"

definition lcore_index_init :: "lcore_env \<Rightarrow> netif_lcore_conf list \<Rightarrow> lcore_tables \<Rightarrow> (int \<times> lcore_tables) option" where
  "lcore_index_init e cs t = do {
     (r, l) \<leftarrow> index_loop e 0 cs (\<lambda>i. if i \<le> max_lcore e then max_lcore e else lcore2index t i);
     Some (r, t\<lparr>lcore2index := l\<rparr>) }"

text \<open>The second loop runs over the whole array, whose entries after those in use have no ports.\<close>

fun port_index_loop :: "nat \<Rightarrow> nat \<Rightarrow> nat \<Rightarrow> netif_port_conf list \<Rightarrow> (nat \<Rightarrow> nat \<Rightarrow> nat) \<Rightarrow> (nat \<Rightarrow> nat \<Rightarrow> nat) option" where
  "port_index_loop m cid k [] t = Some t"
| "port_index_loop m cid k (p # ps) t =
    (if m \<le> cid \<or> NETIF_MAX_PORTS \<le> pq_id p then None
     else port_index_loop m cid (k + 1) ps (t(cid := (t cid)(pq_id p := k))))"

fun port_index_all :: "nat \<Rightarrow> netif_lcore_conf list \<Rightarrow> (nat \<Rightarrow> nat \<Rightarrow> nat) \<Rightarrow> (nat \<Rightarrow> nat \<Rightarrow> nat) option" where
  "port_index_all m [] t = Some t"
| "port_index_all m (c # cs) t = Option.bind (port_index_loop m (lc_id c) 0 (pqs c) t) (port_index_all m cs)"

definition port_index_init :: "nat \<Rightarrow> netif_lcore_conf list \<Rightarrow> lcore_tables \<Rightarrow> lcore_tables option" where
  "port_index_init m cs t = map_option (\<lambda>x. t\<lparr>port2index := x\<rparr>)
     (port_index_all m cs (\<lambda>i j. if i < m \<and> j < NETIF_MAX_PORTS then NETIF_PORT_ID_INVALID else port2index t i j))"

text \<open>Assignment of one element of an array.\<close>

definition store_at :: "nat \<Rightarrow> 'a \<Rightarrow> 'a list \<Rightarrow> 'a list option" where
  "store_at i x xs = (if i < length xs then Some (xs[i := x]) else None)"

fun store_from :: "nat \<Rightarrow> nat list \<Rightarrow> int list \<Rightarrow> int list option" where
  "store_from idx [] xs = Some xs"
| "store_from idx (cid # cids) xs = Option.bind (store_at idx (int cid) xs) (store_from (idx + 1) cids)"

definition cores_with :: "nat \<Rightarrow> nat list \<Rightarrow> nat list" where
  "cores_with role roles = filter (\<lambda>cid. roles ! cid = role) [0..<length roles]"

fun invert :: "nat \<Rightarrow> int list \<Rightarrow> int list \<Rightarrow> int list" where
  "invert idx [] t = t"
| "invert idx (cid # cids) t = invert (idx + 1) cids (if 0 \<le> cid \<and> cid < int (length t) then t[nat cid := int idx] else t)"

definition build_lcore_index :: "lcore_env \<Rightarrow> lcore_data \<Rightarrow> lcore_data option" where
  "build_lcore_index e d =
    (let order = main_lcore e # cores_with LCORE_ROLE_FWD_WORKER (g_lcore_role d) @ cores_with LCORE_ROLE_ISOLRX_WORKER (g_lcore_role d) in do {
     ids \<leftarrow> store_from 0 order (g_lcore_index2id d);
     Some (d\<lparr>g_lcore_index2id := ids, g_lcore_num := int (length order), g_lcore_id2index := invert 0 ids (g_lcore_id2index d)\<rparr>) })"

text \<open>Only an idle core gets a role.\<close>

definition give_role :: "nat \<Rightarrow> nat \<Rightarrow> nat list \<Rightarrow> nat list option" where
  "give_role cid role roles = (if cid < length roles \<and> roles ! cid = LCORE_ROLE_IDLE then Some (roles[cid := role]) else None)"

fun role_loop :: "nat \<Rightarrow> nat \<Rightarrow> netif_lcore_conf list \<Rightarrow> nat list \<Rightarrow> nat list option" where
  "role_loop m i [] roles = (if i < m then Some roles else None)"
| "role_loop m i (c # cs) roles =
    (if m \<le> i then None else if pqs c = [] then Some roles
     else Option.bind (give_role (lc_id c) (lc_type c) roles) (role_loop m (i + 1) cs))"

fun isol_roles :: "(nat \<Rightarrow> rx_partner list) \<Rightarrow> nat list \<Rightarrow> nat list \<Rightarrow> nat list option" where
  "isol_roles tab [] roles = Some roles"
| "isol_roles tab (cid # cids) roles =
    (if tab cid = [] then isol_roles tab cids roles
     else Option.bind (give_role cid LCORE_ROLE_ISOLRX_WORKER roles) (isol_roles tab cids))"

definition lcore_role_init :: "lcore_env \<Rightarrow> lcore_state \<Rightarrow> lcore_data \<Rightarrow> lcore_data option" where
  "lcore_role_init e st d = do {
     let m = max_lcore e;
         r0 = map (\<lambda>cid. if lcore_enabled e cid then g_lcore_role d ! cid else LCORE_ROLE_MAX) [0..<m] in do {
     r1 \<leftarrow> give_role (main_lcore e) LCORE_ROLE_MASTER r0;
     r2 \<leftarrow> role_loop m 0 (lcore_conf st) r1;
     r3 \<leftarrow> isol_roles (isol_rxq_tab st) [0..<m] r2;
     build_lcore_index e (d\<lparr>g_lcore_role := r3\<rparr>) } }"

definition is_isol_rxq_lcore :: "nat \<Rightarrow> lcore_state \<Rightarrow> nat \<Rightarrow> bool option" where
  "is_isol_rxq_lcore m st cid = (if cid < m then Some (isol_rxq_tab st cid \<noteq> []) else None)"

section \<open>Initialisation\<close>

text \<open>The roles of \<^verbatim>\<open>netif_jobs\<close>, whose last entry has no function and is left out; \<open>addrs\<close> are the addresses of the jobs.\<close>

definition netif_job_roles :: "nat list" where
  "netif_job_roles = [LCORE_ROLE_FWD_WORKER, LCORE_ROLE_FWD_WORKER, LCORE_ROLE_ISOLRX_WORKER, LCORE_ROLE_MASTER]"

fun register_jobs :: "(nat \<times> nat) list \<Rightarrow> scheduler \<Rightarrow> scheduler process option" where
  "register_jobs [] s = Some (Continues s)"
| "register_jobs ((a, role) # js) s = do {
     (err, s') \<leftarrow> ndf_lcore_job_register (Some a) role s;
     if err < 0 then Some Exits else register_jobs js s' }"

record lcore_system =
  ls_state :: lcore_state
  ls_tables :: lcore_tables
  ls_data :: lcore_data
  ls_workers :: "worker_conf_stream list"
  ls_sched :: scheduler
  timer_sched_interval_us :: int

definition netif_lcore_init :: "lcore_env \<Rightarrow> port_tables \<Rightarrow> nat list \<Rightarrow> int \<Rightarrow> lcore_system \<Rightarrow> lcore_system process option" where
  "netif_lcore_init e t addrs interval sys = do {
     (ws, st) \<leftarrow> config_lcores e t (ls_workers sys) (isol_rxq_init (max_lcore e) (ls_state sys));
     err \<leftarrow> check_lcore_conf (max_lcore e) (eth_count e) (lcore_count e) (lcore_conf st);
     if err \<noteq> ENDF_OK then Some Exits
     else do {
       (err2, tb) \<leftarrow> lcore_index_init e (lcore_conf st) (ls_tables sys);
       if err2 \<noteq> ENDF_OK then Some Exits
       else do {
         tb2 \<leftarrow> port_index_init (max_lcore e) (lcore_conf st) tb;
         d \<leftarrow> lcore_role_init e st (ls_data sys);
         r \<leftarrow> register_jobs (zip addrs netif_job_roles) (ls_sched sys);
         case r of
           Exits \<Rightarrow> Some Exits
         | Continues s \<Rightarrow> Some (Continues \<lparr>ls_state = st, ls_tables = tb2, ls_data = d, ls_workers = ws, ls_sched = s,
             timer_sched_interval_us = interval\<rparr>) } } }"

text \<open>Statistics of bursts.\<close>

record netif_lcore_stats =
  pktburst :: u64
  zpktburst :: u64
  fpktburst :: u64
  z2hpktburst :: u64
  h2fpktburst :: u64
  ipackets :: u64
  ibytes :: u64
  ls_dropped :: u64
  ls_errors :: u64

definition lcore_stats_burst :: "netif_lcore_stats \<Rightarrow> nat \<Rightarrow> netif_lcore_stats" where
  "lcore_stats_burst st len =
    (let s = st\<lparr>pktburst := pktburst st + 1\<rparr> in
     if len = 0 then s\<lparr>zpktburst := zpktburst s + 1, z2hpktburst := z2hpktburst s + 1\<rparr>
     else if len \<le> NETIF_MAX_PKT_BURST div 2 then s\<lparr>z2hpktburst := z2hpktburst s + 1\<rparr>
     else if len < NETIF_MAX_PKT_BURST then s\<lparr>h2fpktburst := h2fpktburst s + 1\<rparr>
     else s\<lparr>h2fpktburst := h2fpktburst s + 1, fpktburst := fpktburst s + 1\<rparr>)"

section \<open>The order of the cores\<close>

text \<open>Workers that can be configured without surprises: a core number, a type, known lengths, an end mark in each list of queues and no isolated queue.\<close>

definition queue_plain :: "queue_conf_stream \<Rightarrow> bool" where
  "queue_plain q \<longleftrightarrow> 0 \<in> set (qc_port_name q) \<and> length (rx_queues q) = NETIF_MAX_QUEUES \<and> length (tx_queues q) = NETIF_MAX_QUEUES
     \<and> int NETIF_MAX_QUEUES \<in> set (rx_queues q) \<and> int NETIF_MAX_QUEUES \<in> set (tx_queues q)
     \<and> isol_rxq_lcore_ids q = replicate NETIF_MAX_QUEUES NETIF_LCORE_ID_INVALID"

definition worker_plain :: "nat \<Rightarrow> worker_conf_stream \<Rightarrow> bool" where
  "worker_plain m w \<longleftrightarrow> (\<exists>c. wc_cpu_id w = Some c \<and> 0 \<le> c \<and> c < int m) \<and> worker_type w \<noteq> None
     \<and> length (wc_port_list w) \<le> NETIF_MAX_RTE_PORTS \<and> (\<forall>q \<in> set (wc_port_list w). queue_plain q)"

definition is_master :: "worker_conf_stream \<Rightarrow> bool" where
  "is_master w \<longleftrightarrow> worker_type w = Some (str ''master'')"

definition cpu_of :: "worker_conf_stream \<Rightarrow> int" where
  "cpu_of w = the (wc_cpu_id w)"

text \<open>Reference: the entry of a worker.\<close>

definition qids_before_mark :: "int list \<Rightarrow> netif_queue_conf list" where
  "qids_before_mark xs = map (\<lambda>x. \<lparr>q_id = nat (x mod 65536), q_isol = False\<rparr>) (takeWhile (\<lambda>x. x \<noteq> int NETIF_MAX_QUEUES) xs)"

definition port_entry :: "port_tables \<Rightarrow> queue_conf_stream \<Rightarrow> netif_port_conf" where
  "port_entry t q = \<lparr>pq_id = (case netif_port_get_by_name (Some (c_str (qc_port_name q))) t of Some p \<Rightarrow> np_id p | None \<Rightarrow> NETIF_PORT_ID_INVALID),
     rxqs = qids_before_mark (rx_queues q), txqs = qids_before_mark (tx_queues q)\<rparr>"

definition lcore_entry :: "port_tables \<Rightarrow> worker_conf_stream \<Rightarrow> netif_lcore_conf" where
  "lcore_entry t w = \<lparr>lc_id = nat (cpu_of w), lc_type = worker_role (the (worker_type w)), pqs = map (port_entry t) (rev (wc_port_list w))\<rparr>"

lemma move_masters_partition:
  assumes "\<forall>w \<in> set rest. worker_type w \<noteq> None" and "length xs = n" and "rest = xs @ ms" and "n \<le> left"
  shows "move_masters n kept rest left
    = Some (kept @ filter (\<lambda>w. \<not> is_master w) xs @ ms @ filter is_master xs, left - length (filter is_master xs))"
  using assms
proof (induction n kept rest left arbitrary: xs ms rule: move_masters.induct)
  case (3 n kept w rest left)
  obtain ty where ty: "worker_type w = Some ty"
    using "3.prems"(1) by auto
  obtain ys where xs: "xs = w # ys"
    using "3.prems"(2,3) by (cases xs) auto
  show ?case
    using "3.IH"(1) [OF ty, of ys "ms @ [w]"] "3.IH"(2) [OF ty, of ys ms] "3.prems" ty
    by (cases "ty = str ''master''") (auto simp: xs is_master_def)
qed auto

definition first_min :: "('a \<Rightarrow> int) \<Rightarrow> 'a list \<Rightarrow> nat \<Rightarrow> bool" where
  "first_min f xs j \<longleftrightarrow> j < length xs \<and> (\<forall>x \<in> set xs. f (xs ! j) \<le> f x) \<and> (\<forall>k < j. f (xs ! k) \<noteq> f (xs ! j))"

lemma first_min_Cons:
  "\<forall>y \<in> set xs. f x \<le> f y \<Longrightarrow> first_min f (x # xs) 0"
  "first_min f xs j \<Longrightarrow> f (xs ! j) < f x \<Longrightarrow> first_min f (x # xs) (Suc j)"
  by (auto simp: first_min_def nth_Cons split: nat.splits)

lemma scan_min_first:
  assumes "\<forall>w \<in> set ws. wc_cpu_id w \<noteq> None"
  shows "\<exists>r. scan_min m best i ws = Some r \<and> (if \<forall>w \<in> set ws. m \<le> cpu_of w then r = best
    else \<exists>j. r = Some (i + j) \<and> first_min cpu_of ws j \<and> cpu_of (ws ! j) < m)"
  using assms
proof (induction ws arbitrary: m best i)
  case (Cons w ws)
  obtain c where c: "wc_cpu_id w = Some c" "cpu_of w = c"
    using Cons.prems by (auto simp: cpu_of_def)
  show ?case
  proof (cases "c < m")
    case True
    then obtain r where r: "scan_min m best i (w # ws) = Some r" "if \<forall>v \<in> set ws. c \<le> cpu_of v then r = Some i
        else \<exists>j. r = Some (Suc i + j) \<and> first_min cpu_of ws j \<and> cpu_of (ws ! j) < c"
      using Cons.IH [of c "Some i" "Suc i"] Cons.prems c by auto
    show ?thesis
    proof (cases "\<forall>v \<in> set ws. c \<le> cpu_of v")
      case True
      then show ?thesis
        using r \<open>c < m\<close> c first_min_Cons(1) [of ws cpu_of w] by (intro exI [of _ r]) (auto intro!: exI [of _ 0])
    next
      case False
      then obtain j where "r = Some (Suc i + j)" "first_min cpu_of ws j" "cpu_of (ws ! j) < c"
        using r(2) [unfolded if_not_P [OF False]] by blast
      then show ?thesis
        using r(1) \<open>c < m\<close> c first_min_Cons(2) [of cpu_of ws j w] by (intro exI [of _ r]) (auto intro!: exI [of _ "Suc j"])
    qed
  next
    case False
    then obtain r where r: "scan_min m best i (w # ws) = Some r" "if \<forall>v \<in> set ws. m \<le> cpu_of v then r = best
        else \<exists>j. r = Some (Suc i + j) \<and> first_min cpu_of ws j \<and> cpu_of (ws ! j) < m"
      using Cons.IH [of m best "Suc i"] Cons.prems c by auto
    show ?thesis
    proof (cases "\<forall>v \<in> set ws. m \<le> cpu_of v")
      case True
      then show ?thesis
        using r False c by (intro exI [of _ r]) auto
    next
      case 2: False
      then obtain j where "r = Some (Suc i + j)" "first_min cpu_of ws j" "cpu_of (ws ! j) < m"
        using r(2) [unfolded if_not_P [OF 2]] by blast
      then show ?thesis
        using r(1) False c 2 first_min_Cons(2) [of cpu_of ws j w] by (intro exI [of _ r]) (auto intro!: exI [of _ "Suc j"])
    qed
  qed
qed simp

lemma sort_key_select:
  assumes "first_min f xs i"
  shows "sort_key f xs = xs ! i # sort_key f (take i xs @ drop (Suc i) xs)"
proof (rule properties_for_sort_key)
  have xs: "xs = take i xs @ xs ! i # drop (Suc i) xs"
    using assms by (intro id_take_nth_drop) (simp add: first_min_def)
  show "mset (xs ! i # sort_key f (take i xs @ drop (Suc i) xs)) = mset xs"
    using arg_cong [OF xs, of mset] by simp
  have none: "filter (\<lambda>x. f (xs ! i) = f x) (take i xs) = []"
    using assms by (fastforce simp: first_min_def filter_empty_conv in_set_conv_nth)
  show "filter (\<lambda>x. f k = f x) (xs ! i # sort_key f (take i xs @ drop (Suc i) xs)) = filter (\<lambda>x. f k = f x) xs" for k
  proof -
    have st: "filter (\<lambda>x. c = f x) (sort_key f ys) = filter (\<lambda>x. c = f x) ys" for c ys
      using sort_key_stable [of f c ys] by (simp add: eq_commute)
    have "filter (\<lambda>x. f k = f x) xs = filter (\<lambda>x. f k = f x) (take i xs @ xs ! i # drop (Suc i) xs)"
      using xs by simp
    then show ?thesis
      using none by (cases "f k = f (xs ! i)") (simp_all add: st)
  qed
  show "sorted (map f (xs ! i # sort_key f (take i xs @ drop (Suc i) xs)))"
    using assms by (auto simp: first_min_def dest: in_set_takeD in_set_dropD)
qed

lemma fill_txqs_ids:
  assumes "length (tx_queues q) = NETIF_MAX_QUEUES" and "int NETIF_MAX_QUEUES \<in> set (drop ii (tx_queues q))"
  shows "fill_txqs q ii acc = Some (acc @ qids_before_mark (drop ii (tx_queues q)))"
  using assms(2)
proof (induction "NETIF_MAX_QUEUES - ii" arbitrary: ii acc)
  case 0
  then show ?case
    using assms(1) by simp
next
  case (Suc n)
  then have ii: "ii < length (tx_queues q)"
    using assms(1) by simp
  have d: "drop ii (tx_queues q) = tx_queues q ! ii # drop (Suc ii) (tx_queues q)"
    using ii by (rule Cons_nth_drop_Suc [symmetric])
  show ?case
    using Suc.hyps(1) [of "Suc ii"] Suc.hyps(2) Suc.prems ii assms(1)
    by (subst fill_txqs.simps) (auto simp: d qids_before_mark_def)
qed

lemma fill_rxqs_ids:
  assumes "length (rx_queues q) = NETIF_MAX_QUEUES" and "isol_rxq_lcore_ids q = replicate NETIF_MAX_QUEUES NETIF_LCORE_ID_INVALID"
    and "int NETIF_MAX_QUEUES \<in> set (drop ii (rx_queues q))"
  shows "fill_rxqs e port q pl ii acc st = Some (acc @ qids_before_mark (drop ii (rx_queues q)), st)"
  using assms(3)
proof (induction "NETIF_MAX_QUEUES - ii" arbitrary: ii acc)
  case 0
  then show ?case
    using assms(1) by simp
next
  case (Suc n)
  then have ii: "ii < length (rx_queues q)"
    using assms(1) by simp
  have d: "drop ii (rx_queues q) = rx_queues q ! ii # drop (Suc ii) (rx_queues q)"
    using ii by (rule Cons_nth_drop_Suc [symmetric])
  show ?case
    using Suc.hyps(1) [of "Suc ii"] Suc.hyps(2) Suc.prems ii assms(1,2)
    by (subst fill_rxqs.simps) (auto simp: d qids_before_mark_def Let_def)
qed

lemma fill_ports_entries:
  "length acc + length qs \<le> NETIF_MAX_RTE_PORTS \<Longrightarrow> \<forall>q \<in> set qs. queue_plain q \<Longrightarrow>
    fill_ports e t idx qs acc st = Some (acc @ map (port_entry t) qs, st)"
proof (induction qs arbitrary: acc)
  case (Cons q qs)
  have q: "queue_plain q"
    using Cons.prems(2) by simp
  have rx: "fill_rxqs e port q (idx, length acc) 0 [] st = Some (qids_before_mark (rx_queues q), st)" for port
    using fill_rxqs_ids [of q 0] q by (simp add: queue_plain_def)
  have tx: "fill_txqs q 0 [] = Some (qids_before_mark (tx_queues q))"
    using fill_txqs_ids [of q 0] q by (simp add: queue_plain_def)
  show ?case
    using Cons.IH [of "acc @ [port_entry t q]"] Cons.prems q
    by (simp add: rx tx field_str_def queue_plain_def port_entry_def Let_def)
qed simp

lemma config_loop_sorts:
  assumes "length us = n" and "\<forall>w \<in> set us. worker_plain (max_lcore e) w" and "max_lcore e \<le> 256"
    and "length (lcore_conf st) + n \<le> max_lcore e"
  shows "config_loop e t n (us @ ms) st
    = Some (ms @ sort_key cpu_of us, st\<lparr>lcore_conf := lcore_conf st @ map (lcore_entry t) (sort_key cpu_of us)\<rparr>)"
  using assms
proof (induction n arbitrary: us ms st)
  case (Suc n)
  have cpus: "\<forall>w \<in> set us. wc_cpu_id w \<noteq> None"
    using Suc.prems(2) by (fastforce simp: worker_plain_def)
  have below: "cpu_of w < int (max_lcore e)" if "w \<in> set us" for w
    using Suc.prems(2) that by (fastforce simp: worker_plain_def cpu_of_def)
  then have ne: "\<not> (\<forall>w \<in> set us. int (max_lcore e) \<le> cpu_of w)"
    using Suc.prems(1) by (cases us) fastforce+
  then obtain j where j: "scan_min (int (max_lcore e)) None 0 us = Some (Some j)" "first_min cpu_of us j"
    using scan_min_first [OF cpus, of "int (max_lcore e)" None 0, unfolded if_not_P [OF ne]] by auto
  define w where "w = us ! j"
  have jl: "j < length us"
    using j(2) by (simp add: first_min_def)
  have w: "worker_plain (max_lcore e) w" and nth: "(us @ ms) ! j = w"
    using Suc.prems(2) jl by (simp_all add: w_def nth_append)
  then obtain ty where cpu: "wc_cpu_id w = Some (cpu_of w)" "0 \<le> cpu_of w" "cpu_of w < 256" and ty: "worker_type w = Some ty"
    using Suc.prems(3) by (auto simp: worker_plain_def cpu_of_def)
  have ports: "fill_ports e t (length (lcore_conf st)) (rev (wc_port_list w)) [] st = Some (map (port_entry t) (rev (wc_port_list w)), st)"
    using fill_ports_entries [of "[]" "rev (wc_port_list w)"] w by (simp add: worker_plain_def)
  have entry: "\<lparr>lc_id = nat (cpu_of w mod 256), lc_type = worker_role ty, pqs = map (port_entry t) (rev (wc_port_list w))\<rparr> = lcore_entry t w"
    using cpu ty by (simp add: lcore_entry_def)
  have srt: "sort_key cpu_of us = w # sort_key cpu_of (take j us @ drop (Suc j) us)"
    unfolding w_def by (rule sort_key_select [OF j(2)])
  have rest: "config_loop e t n ((take j us @ drop (Suc j) us) @ ms @ [w]) (st\<lparr>lcore_conf := lcore_conf st @ [lcore_entry t w]\<rparr>)
      = Some ((ms @ [w]) @ sort_key cpu_of (take j us @ drop (Suc j) us), st\<lparr>lcore_conf := (lcore_conf st @ [lcore_entry t w])
          @ map (lcore_entry t) (sort_key cpu_of (take j us @ drop (Suc j) us))\<rparr>)"
    using Suc.IH [of "take j us @ drop (Suc j) us" "st\<lparr>lcore_conf := lcore_conf st @ [lcore_entry t w]\<rparr>" "ms @ [w]"] Suc.prems jl
    by (auto dest: in_set_takeD in_set_dropD)
  show ?case
    using rest j(1) Suc.prems(1,4) jl by (simp add: Let_def nth cpu(1) ty ports entry srt)
qed simp

lemma config_lcores_sorts:
  assumes "\<forall>w \<in> set ws. worker_plain (max_lcore e) w" and "max_lcore e \<le> 256"
    and "length (filter (\<lambda>w. \<not> is_master w) ws) \<le> max_lcore e"
  shows "config_lcores e t ws st = Some (filter is_master ws @ sort_key cpu_of (filter (\<lambda>w. \<not> is_master w) ws),
    st\<lparr>lcore_conf := map (lcore_entry t) (sort_key cpu_of (filter (\<lambda>w. \<not> is_master w) ws))\<rparr>)"
proof -
  have "move_masters (length ws) [] ws (length ws) = Some (filter (\<lambda>w. \<not> is_master w) ws @ filter is_master ws,
      length (filter (\<lambda>w. \<not> is_master w) ws))"
    using move_masters_partition [of ws ws "length ws" "[]" "length ws" "[]"] assms(1) sum_length_filter_compl [of is_master ws]
    by (simp add: worker_plain_def)
  then show ?thesis
    using config_loop_sorts [of "filter (\<lambda>w. \<not> is_master w) ws" _ e "st\<lparr>lcore_conf := []\<rparr>" t "filter is_master ws"] assms
    by (simp add: config_lcores_def)
qed

text \<open>C24: The workers that are not masters are given to the table of cores in the order of their core numbers, workers of the same number
  in the order of the list, each with its ports in the order of the file.\<close>

theorem lcores_sorted_by_cpu:
  assumes "\<forall>w \<in> set ws. worker_plain (max_lcore e) w" and "max_lcore e \<le> 256"
    and "length (filter (\<lambda>w. \<not> is_master w) ws) \<le> max_lcore e"
  shows "config_lcores e t ws st = Some (filter is_master ws @ sort_key cpu_of (filter (\<lambda>w. \<not> is_master w) ws),
    st\<lparr>lcore_conf := map (lcore_entry t) (sort_key cpu_of (filter (\<lambda>w. \<not> is_master w) ws))\<rparr>)"
  by (rule config_lcores_sorts [OF assms])

definition sample_worker :: "nat \<Rightarrow> bytes \<Rightarrow> worker_conf_stream" where
  "sample_worker cpu ty = \<lparr>wc_cpu_id = Some (int cpu), wc_name = [], wc_type = Some (ty @ [0]),
     wc_port_list = [(new_queue_conf [112])\<lparr>rx_queues := int cpu # replicate 15 16, tx_queues := int cpu # replicate 15 16\<rparr>]\<rparr>"

definition sample_lcore_env :: lcore_env where
  "sample_lcore_env = \<lparr>lc_env = sample_netif_env, ring_create = (\<lambda>_ _. True), lcore_enabled = (\<lambda>c. c < 8), main_lcore = 0, lcore_count = 8,
     eth_count = 1\<rparr>"

definition no_lcores :: lcore_state where
  "no_lcores = \<lparr>lcore_conf = [], isol_rxq_tab = (\<lambda>_. []), lc_allocs = 0\<rparr>"

lemma sample_worker_plain: "cpu < 16 \<Longrightarrow> 0 \<notin> set ty \<Longrightarrow> worker_plain 128 (sample_worker cpu ty)"
  by (simp add: worker_plain_def sample_worker_def worker_type_def field_str_def NETIF_MAX_RTE_PORTS_def queue_plain_def new_queue_conf_def
      strncpy_field_def c_str_def NETIF_MAX_QUEUES_def)

theorem lcores_sorted_by_cpu_witness:
  "map_option (\<lambda>r. map lc_id (lcore_conf (snd r))) (config_lcores sample_lcore_env no_ports
      [sample_worker 3 (str ''slave''), sample_worker 0 (str ''master''), sample_worker 2 (str ''slave'')] no_lcores) = Some [2, 3]"
proof -
  have m: "worker_type (sample_worker c ty) = Some ty" if "0 \<notin> set ty" for c ty
    using that by (simp add: worker_type_def sample_worker_def field_str_def c_str_def takeWhile_append)
  have m': "is_master (sample_worker 3 (str ''slave'')) = False" "is_master (sample_worker 0 (str ''master'')) = True"
      "is_master (sample_worker 2 (str ''slave'')) = False"
    using m [of "str ''slave''"] m [of "str ''master''"] by (simp_all add: is_master_def str_def)
  have mx: "max_lcore sample_lcore_env = 128"
    by (simp add: sample_lcore_env_def sample_netif_env_def)
  have pl: "\<forall>w \<in> set [sample_worker 3 (str ''slave''), sample_worker 0 (str ''master''), sample_worker 2 (str ''slave'')].
      worker_plain (max_lcore sample_lcore_env) w"
    unfolding mx using sample_worker_plain by (simp add: str_def)
  have "cpu_of (sample_worker c ty) = int c" for c ty
    by (simp add: cpu_of_def sample_worker_def)
  then show ?thesis
    using lcores_sorted_by_cpu [OF pl, of no_ports no_lcores] by (simp add: m' mx lcore_entry_def)
qed

section \<open>What the check guarantees\<close>

definition queue_pairs :: "(netif_port_conf \<Rightarrow> netif_queue_conf list) \<Rightarrow> netif_port_conf list \<Rightarrow> (nat \<times> nat) list" where
  "queue_pairs sel ps = concat (map (\<lambda>p. map (\<lambda>q. (pq_id p, q_id q)) (sel p)) ps)"

lemma queue_pairs_simps:
  "queue_pairs sel [] = []" "queue_pairs sel (p # ps) = map (Pair (pq_id p)) (map q_id (sel p)) @ queue_pairs sel ps"
  "queue_pairs sel (xs @ ys) = queue_pairs sel xs @ queue_pairs sel ys"
  by (simp_all add: queue_pairs_def comp_def)

lemma mark_queues_pairs:
  "mark_queues err pid qids mk = Some (Inr mk') \<Longrightarrow> distinct mk \<Longrightarrow>
    distinct mk' \<and> mset mk' = mset mk + mset (map (Pair pid) qids) \<and> (\<forall>q \<in> set qids. q < NETIF_MAX_QUEUES)"
  by (induction err pid qids mk rule: mark_queues.induct) (auto split: if_splits)

lemma bind_Inr_E:
  assumes "Option.bind f (\<lambda>r. case r of Inl err \<Rightarrow> Some (Inl err) | Inr x \<Rightarrow> g x) = Some (Inr y)"
  obtains x where "f = Some (Inr x)" and "g x = Some (Inr y)"
  using assms by (cases f) (auto split: sum.splits)

lemma bind_Inl_E:
  assumes "Option.bind f (\<lambda>r. case r of Inl err \<Rightarrow> Some (Inl err) | Inr x \<Rightarrow> g x) = Some (Inl y)"
  obtains "f = Some (Inl y)" | x where "f = Some (Inr x)" and "g x = Some (Inl y)"
  using assms by (cases f) (auto split: sum.splits)

lemma mark_ports_pairs:
  assumes "mark_ports ps mk = Some (Inr mk')" and "distinct (fst mk)" and "distinct (snd mk)"
  shows "distinct (fst mk') \<and> distinct (snd mk') \<and> mset (fst mk') = mset (fst mk) + mset (queue_pairs rxqs ps) \<and>
    mset (snd mk') = mset (snd mk) + mset (queue_pairs txqs ps) \<and>
    (\<forall>x \<in> set (queue_pairs rxqs ps) \<union> set (queue_pairs txqs ps). snd x < NETIF_MAX_QUEUES)"
  using assms
proof (induction ps mk rule: mark_ports.induct)
  case (2 p ps mk)
  obtain rx tx where rx: "mark_queues LCONFCHK_REPEATED_RX_QUEUE_ID (pq_id p) (map q_id (rxqs p)) (fst mk) = Some (Inr rx)"
      and tx: "mark_queues LCONFCHK_REPEATED_TX_QUEUE_ID (pq_id p) (map q_id (txqs p)) (snd mk) = Some (Inr tx)"
      and m: "mark_ports ps (rx, tx) = Some (Inr mk')"
    using "2.prems"(1) by (auto elim!: bind_Inr_E)
  note r = mark_queues_pairs [OF rx "2.prems"(2)]
  note t = mark_queues_pairs [OF tx "2.prems"(3)]
  have ih: "distinct (fst mk') \<and> distinct (snd mk') \<and> mset (fst mk') = mset rx + mset (queue_pairs rxqs ps) \<and>
      mset (snd mk') = mset tx + mset (queue_pairs txqs ps) \<and>
      (\<forall>x \<in> set (queue_pairs rxqs ps) \<union> set (queue_pairs txqs ps). snd x < NETIF_MAX_QUEUES)"
    using "2.IH" [OF rx refl tx refl] m r t by simp
  show ?case
    using ih r t by (auto simp: queue_pairs_simps)
qed (simp add: queue_pairs_def)

lemma last_entry: "Suc (i + length xs) \<le> l \<Longrightarrow> l \<le> Suc i \<Longrightarrow> xs = []"
  by (cases xs) simp_all

lemma mark_lcores_pairs:
  assumes "mark_lcores m nports lcores i cs mk = Some (Inr (n, mk'))" and "distinct (fst mk)" and "distinct (snd mk)"
    and "i + length (takeWhile (\<lambda>c. pqs c \<noteq> []) cs) \<le> lcores"
  shows "distinct (fst mk') \<and> distinct (snd mk') \<and>
    mset (fst mk') = mset (fst mk) + mset (queue_pairs rxqs (concat (map pqs (takeWhile (\<lambda>c. pqs c \<noteq> []) cs)))) \<and>
    mset (snd mk') = mset (snd mk) + mset (queue_pairs txqs (concat (map pqs (takeWhile (\<lambda>c. pqs c \<noteq> []) cs)))) \<and>
    (\<forall>c \<in> set (takeWhile (\<lambda>c. pqs c \<noteq> []) cs). \<forall>x \<in> set (queue_pairs rxqs (pqs c)) \<union> set (queue_pairs txqs (pqs c)).
       snd x < NETIF_MAX_QUEUES)"
  using assms
proof (induction cs arbitrary: i mk)
  case (Cons c cs)
  show ?case
  proof (cases "pqs c = []")
    case True
    then show ?thesis
      using Cons.prems by (auto simp: queue_pairs_def split: if_splits)
  next
    case False
    then obtain mk1 where mk1: "mark_ports (pqs c) mk = Some (Inr mk1)"
        "(if lcores \<le> i + 1 then Some (Inr (i + 1, mk1)) else mark_lcores m nports lcores (i + 1) cs mk1) = Some (Inr (n, mk'))"
      using Cons.prems(1) by (auto elim!: bind_Inr_E split: if_splits)
    note p = mark_ports_pairs [OF mk1(1) Cons.prems(2,3)]
    show ?thesis
    proof (cases "lcores \<le> i + 1")
      case True
      then have "takeWhile (\<lambda>c. pqs c \<noteq> []) cs = []" "mk1 = mk'"
        using Cons.prems(4) False mk1(2) last_entry [of i "takeWhile (\<lambda>c. pqs c \<noteq> []) cs" lcores] by simp_all
      then show ?thesis
        using p False by (simp add: queue_pairs_def)
    next
      case go: False
      then have "mark_lcores m nports lcores (Suc i) cs mk1 = Some (Inr (n, mk'))"
        using mk1(2) by simp
      note ih = Cons.IH [OF this]
      show ?thesis
        using ih p Cons.prems(4) False by (auto simp: queue_pairs_simps)
    qed
  qed
qed (auto simp: queue_pairs_def split: if_splits)

lemma all_marked_set: "all_marked pid js mk = Some True \<Longrightarrow> \<forall>j \<in> set js. (pid, j) \<in> set mk"
  by (induction pid js mk rule: all_marked.induct) (auto split: if_splits)

lemma check_marks_each:
  "check_marks m cs mk pids = Some True \<Longrightarrow> pid \<in> set pids \<Longrightarrow> \<exists>nrx ntx. port_rx_queues_get m cs pid = Some nrx \<and>
    port_tx_queues_get m cs pid = Some ntx \<and> all_marked pid [0..<nat (nrx mod 256)] (fst mk) = Some True \<and>
    all_marked pid [0..<nat (ntx mod 256)] (snd mk) = Some True"
  by (induction m cs mk pids rule: check_marks.induct) (auto simp: bind_eq_Some_conv split: if_splits)

text \<open>The queues of a port, as the pairs of that port.\<close>

lemma port_queues_pairs:
  "map q_id (port_queues sel pid cs) = map snd (filter (\<lambda>x. fst x = pid) (queue_pairs sel (concat (map pqs cs))))"
proof -
  have "map q_id (concat (map sel (filter (\<lambda>p. pq_id p = pid) ps))) = map snd (filter (\<lambda>x. fst x = pid) (queue_pairs sel ps))" for ps
  proof (induction ps)
    case (Cons p ps)
    have "filter (\<lambda>x. fst x = pid) (map (Pair (pq_id p)) qs) = (if pq_id p = pid then map (Pair pid) qs else [])" for qs :: "nat list"
      by (induction qs) auto
    then show ?case
      using Cons by (simp add: queue_pairs_simps comp_def)
  qed (simp add: queue_pairs_simps)
  then show ?thesis
    by (induction cs) (simp_all add: port_queues_def queue_pairs_simps)
qed

lemma port_queues_count:
  "(\<Sum>c\<leftarrow>cs. \<Sum>p\<leftarrow>pqs c. if pq_id p = pid then int (length (sel p)) else 0) = int (length (port_queues sel pid cs))"
proof -
  have "(\<Sum>p\<leftarrow>ps. if pq_id p = pid then int (length (sel p)) else 0) = int (length (concat (map sel (filter (\<lambda>p. pq_id p = pid) ps))))" for ps
    by (induction ps) auto
  then show ?thesis
    by (induction cs) (simp_all add: port_queues_def)
qed

lemma marked_exactly:
  assumes "distinct (queue_pairs sel (concat (map pqs cs)))" and "set (queue_pairs sel (concat (map pqs cs))) = M"
    and "\<forall>x \<in> M. snd x < NETIF_MAX_QUEUES" and "n = length (port_queues sel pid cs)" and "\<forall>j \<in> set [0..<nat (int n mod 256)]. (pid, j) \<in> M"
  shows "mset (map q_id (port_queues sel pid cs)) = mset [0..<n]"
proof -
  let ?l = "map q_id (port_queues sel pid cs)"
  have d: "distinct ?l"
    using assms(1) unfolding port_queues_pairs by (force simp: distinct_map inj_on_def)
  have s: "set ?l = {q. (pid, q) \<in> M}"
    unfolding port_queues_pairs using assms(2) by force
  have "set ?l \<subseteq> {..<NETIF_MAX_QUEUES}"
    unfolding s using assms(3) by force
  then have "card (set ?l) \<le> 16"
    using card_mono [of "{..<NETIF_MAX_QUEUES}"] by (simp add: NETIF_MAX_QUEUES_def)
  then have "n \<le> 16"
    using distinct_card [OF d] assms(4) by simp
  then have sub: "{0..<n} \<subseteq> set ?l"
    unfolding s using assms(5) by auto
  have "card (set ?l) = n"
    using distinct_card [OF d] assms(4) by simp
  then have "set ?l = {0..<n}"
    using card_subset_eq [OF _ sub] by simp
  then show ?thesis
    using d set_eq_iff_mset_eq_distinct [of ?l "[0..<n]"] by simp
qed

lemma check_tx_all:
  "check_tx m n lcores i cs = Some True \<Longrightarrow> i + length (takeWhile (\<lambda>c. pqs c \<noteq> []) cs) \<le> lcores \<Longrightarrow>
    c \<in> set (takeWhile (\<lambda>c. pqs c \<noteq> []) cs) \<Longrightarrow> length (pqs c) = n \<and> (\<forall>p \<in> set (pqs c). txqs p \<noteq> [])"
proof (induction m n lcores i cs rule: check_tx.induct)
  case (2 m nconf lcores i c' cs)
  show ?case
  proof (cases "lcores \<le> i + 1")
    case True
    then have "takeWhile (\<lambda>c. pqs c \<noteq> []) cs = [] \<or> pqs c' = []"
      using "2.prems"(2) last_entry [of i "takeWhile (\<lambda>c. pqs c \<noteq> []) cs" lcores] by auto
    then show ?thesis
      using "2.prems" by (auto simp: list_ex_iff split: if_splits)
  next
    case False
    then show ?thesis
      using "2.IH" "2.prems" by (auto simp: list_ex_iff split: if_splits)
  qed
qed simp

lemma mark_errors:
  "mark_queues err pid qids qm = Some (Inl err') \<Longrightarrow> err' = err"
  "mark_ports ps mk = Some (Inl err') \<Longrightarrow> err' \<noteq> LCONFCHK_OK"
  "mark_lcores m nports lcores i cs mk = Some (Inl err') \<Longrightarrow> err' \<noteq> LCONFCHK_OK"
proof -
  show q: "mark_queues err pid qids qm = Some (Inl err') \<Longrightarrow> err' = err" for err pid qids qm err'
    by (induction err pid qids qm rule: mark_queues.induct) (auto split: if_splits)
  show p: "mark_ports ps mk = Some (Inl err') \<Longrightarrow> err' \<noteq> LCONFCHK_OK" for ps mk err'
    by (induction ps mk rule: mark_ports.induct) (auto simp: lconfchk_defs elim!: bind_Inl_E dest!: q)
  show "mark_lcores m nports lcores i cs mk = Some (Inl err') \<Longrightarrow> err' \<noteq> LCONFCHK_OK"
    by (induction cs arbitrary: i mk) (auto simp: lconfchk_defs elim!: bind_Inl_E split: if_splits dest: p [unfolded LCONFCHK_OK_def])
qed

lemma check_lcore_OK:
  assumes "check_lcore_conf m devs lcores cs = Some LCONFCHK_OK" and "devs < 256"
  obtains nconf i mk where "mark_lcores m devs lcores 0 cs ([], []) = Some (Inr (i, mk))" "check_marks m cs mk [0..<devs] = Some True"
    "check_tx m nconf lcores 0 cs = Some True"
proof -
  obtain nconf r where r: "mark_lcores m devs lcores 0 cs ([], []) = Some r" "get_configured_port_nb m lcores cs = Some nconf"
    using assms by (auto simp: check_lcore_conf_def Let_def bind_eq_Some_conv)
  obtain i mk where [simp]: "r = Inr (i, mk)"
    using r assms mark_errors(3) [of m devs lcores 0 cs "([], [])"] by (cases r) (auto simp: check_lcore_conf_def)
  show ?thesis
    using that [of i mk nconf] r assms
    by (auto simp: check_lcore_conf_def bind_eq_Some_conv lconfchk_defs split: if_splits)
qed

lemma checked_lcores:
  assumes "check_lcore_conf m devs lcores cs = Some LCONFCHK_OK" and "active m cs = Some a" and "length a \<le> lcores" and "devs < 256"
  shows "pid < devs \<Longrightarrow> mset (map q_id (port_queues rxqs pid a)) = mset [0..<length (port_queues rxqs pid a)]"
    and "pid < devs \<Longrightarrow> mset (map q_id (port_queues txqs pid a)) = mset [0..<length (port_queues txqs pid a)]"
    and "c \<in> set a \<Longrightarrow> (\<forall>p \<in> set (pqs c). txqs p \<noteq> [])"
proof -
  have a: "a = takeWhile (\<lambda>c. pqs c \<noteq> []) cs" and al: "length a < m"
    using assms(2) by (auto simp: active_def Let_def split: if_splits)
  obtain nconf i mk where r: "mark_lcores m devs lcores 0 cs ([], []) = Some (Inr (i, mk))" "check_marks m cs mk [0..<devs] = Some True"
      "check_tx m nconf lcores 0 cs = Some True"
    using check_lcore_OK [OF assms(1,4)] .
  have mk: "distinct (fst mk)" "distinct (snd mk)" "mset (fst mk) = mset (queue_pairs rxqs (concat (map pqs a)))"
      "mset (snd mk) = mset (queue_pairs txqs (concat (map pqs a)))"
      "\<forall>c \<in> set a. \<forall>x \<in> set (queue_pairs rxqs (pqs c)) \<union> set (queue_pairs txqs (pqs c)). snd x < NETIF_MAX_QUEUES"
    using mark_lcores_pairs [OF r(1)] assms(3) unfolding a by simp_all
  have concat_pairs: "set (queue_pairs sel (concat (map pqs cs))) = (\<Union>c \<in> set cs. set (queue_pairs sel (pqs c)))" for sel cs
    by (induction cs) (simp_all add: queue_pairs_simps)
  have rx: "distinct (queue_pairs rxqs (concat (map pqs a)))" "set (queue_pairs rxqs (concat (map pqs a))) = set (fst mk)"
    using mk(1,3) by (metis mset_eq_imp_distinct_iff, metis mset_eq_setD)
  have tx: "distinct (queue_pairs txqs (concat (map pqs a)))" "set (queue_pairs txqs (concat (map pqs a))) = set (snd mk)"
    using mk(2,4) by (metis mset_eq_imp_distinct_iff, metis mset_eq_setD)
  have bounds: "\<forall>x \<in> set (fst mk). snd x < NETIF_MAX_QUEUES" "\<forall>x \<in> set (snd mk). snd x < NETIF_MAX_QUEUES"
    unfolding rx(2) [symmetric] tx(2) [symmetric] concat_pairs using mk(5) by auto
  have each: "\<forall>j \<in> set [0..<nat (int (length (port_queues rxqs pid a)) mod 256)]. (pid, j) \<in> set (fst mk)"
      "\<forall>j \<in> set [0..<nat (int (length (port_queues txqs pid a)) mod 256)]. (pid, j) \<in> set (snd mk)" if "pid < devs"
    using check_marks_each [OF r(2), of pid] that all_marked_set assms(2)
    by (auto simp: port_rx_queues_get_def port_tx_queues_get_def port_queues_count)
  show "pid < devs \<Longrightarrow> mset (map q_id (port_queues rxqs pid a)) = mset [0..<length (port_queues rxqs pid a)]"
    using marked_exactly [OF rx bounds(1) refl each(1)] by blast
  show "pid < devs \<Longrightarrow> mset (map q_id (port_queues txqs pid a)) = mset [0..<length (port_queues txqs pid a)]"
    using marked_exactly [OF tx bounds(2) refl each(2)] by blast
  show "c \<in> set a \<Longrightarrow> (\<forall>p \<in> set (pqs c). txqs p \<noteq> [])"
    using check_tx_all [OF r(3), of c] assms(3) unfolding a by simp
qed

text \<open>C19: When the check accepts the distribution, the receive queues of every port that are given to the cores are numbered from 0 without
  gap or repetition over all cores together, and so are the transmit queues; and every core has a transmit queue on each of its ports.\<close>

theorem checked_queues_partition:
  assumes "check_lcore_conf m devs lcores cs = Some LCONFCHK_OK" and "active m cs = Some a" and "length a \<le> lcores" and "devs < 256"
    and "pid < devs"
  shows "mset (map q_id (port_queues rxqs pid a)) = mset [0..<length (port_queues rxqs pid a)] \<and>
    mset (map q_id (port_queues txqs pid a)) = mset [0..<length (port_queues txqs pid a)] \<and>
    (\<forall>c \<in> set a. \<forall>p \<in> set (pqs c). txqs p \<noteq> [])"
  using checked_lcores [OF assms(1-4)] assms(5) by blast

definition lcore_of_queues :: "nat \<Rightarrow> nat list \<Rightarrow> netif_lcore_conf" where
  "lcore_of_queues cid qs = \<lparr>lc_id = cid, lc_type = LCORE_ROLE_FWD_WORKER,
     pqs = [\<lparr>pq_id = 0, rxqs = map (\<lambda>q. \<lparr>q_id = q, q_isol = False\<rparr>) qs, txqs = map (\<lambda>q. \<lparr>q_id = q, q_isol = False\<rparr>) qs\<rparr>]\<rparr>"

lemmas sample_check_defs = check_lcore_conf_def get_configured_port_nb_def note_port_def lcore_of_queues_def NETIF_MAX_RTE_PORTS_def
  NETIF_MAX_QUEUES_def port_rx_queues_get_def port_tx_queues_get_def active_def upt_conv_Cons

theorem checked_queues_partition_witness:
  "mset (map q_id (port_queues rxqs 0 [lcore_of_queues 1 [2, 0], lcore_of_queues 3 [1]])) = mset [0, 1, 2]"
proof -
  have "check_lcore_conf 128 1 8 [lcore_of_queues 1 [2, 0], lcore_of_queues 3 [1]] = Some LCONFCHK_OK"
    "active 128 [lcore_of_queues 1 [2, 0], lcore_of_queues 3 [1]] = Some [lcore_of_queues 1 [2, 0], lcore_of_queues 3 [1]]"
    by (simp_all add: sample_check_defs)
  from checked_queues_partition [OF this, of 0] show ?thesis
    by (simp add: port_queues_def lcore_of_queues_def upt_conv_Cons)
qed

text \<open>A worker without ports ends the table of cores: the workers of larger core numbers keep their queues from being counted and
  their cores from getting a role.\<close>

theorem portless_worker_hides_rest:
  assumes "pqs c = []" and "length cs1 < max_lcore e"
  shows "port_rx_queues_get (max_lcore e) (cs1 @ c # cs2) pid = port_rx_queues_get (max_lcore e) cs1 pid \<and>
    lcore_role_init e (st\<lparr>lcore_conf := cs1 @ c # cs2\<rparr>) d = lcore_role_init e (st\<lparr>lcore_conf := cs1\<rparr>) d"
proof -
  have "takeWhile (\<lambda>c. pqs c \<noteq> []) (cs1 @ c # cs2) = takeWhile (\<lambda>c. pqs c \<noteq> []) cs1"
    using assms(1) by (induction cs1) simp_all
  moreover have "role_loop m i (cs1 @ c # cs2) roles = role_loop m i cs1 roles" if "i + length cs1 < m" for m i roles
    using that assms(1)
  proof (induction cs1 arbitrary: i roles)
    case (Cons c1 cs1)
    then show ?case
      by (cases "give_role (lc_id c1) (lc_type c1) roles") auto
  qed simp
  ultimately show ?thesis
    using assms(2) by (simp add: port_rx_queues_get_def active_def lcore_role_init_def)
qed

theorem portless_worker_hides_rest_witness:
  "port_rx_queues_get 128 [(lcore_of_queues 1 [])\<lparr>pqs := []\<rparr>, lcore_of_queues 2 [0]] 0 = port_rx_queues_get 128 [] 0"
  using portless_worker_hides_rest [of "(lcore_of_queues 1 [])\<lparr>pqs := []\<rparr>" "[]" sample_lcore_env "[lcore_of_queues 2 [0]]" 0]
  by (simp add: sample_lcore_env_def sample_netif_env_def)

section \<open>The index tables\<close>

lemma role_loop_roles:
  assumes "role_loop m i cs roles = Some r" and "\<forall>c \<in> set (takeWhile (\<lambda>c. pqs c \<noteq> []) cs). lc_type c \<noteq> LCORE_ROLE_IDLE"
  shows "distinct (map lc_id (takeWhile (\<lambda>c. pqs c \<noteq> []) cs)) \<and> length r = length roles \<and>
    (\<forall>c \<in> set (takeWhile (\<lambda>c. pqs c \<noteq> []) cs). lc_id c < length roles \<and> roles ! lc_id c = LCORE_ROLE_IDLE \<and> r ! lc_id c = lc_type c) \<and>
    (\<forall>j. j \<notin> lc_id ` set (takeWhile (\<lambda>c. pqs c \<noteq> []) cs) \<longrightarrow> r ! j = roles ! j)"
  using assms
proof (induction cs arbitrary: i roles)
  case (Cons c cs)
  show ?case
  proof (cases "pqs c = []")
    case False
    then obtain r1 where r1: "give_role (lc_id c) (lc_type c) roles = Some r1" "role_loop m (Suc i) cs r1 = Some r"
      using Cons.prems(1) by (auto simp: bind_eq_Some_conv split: if_splits)
    then have g: "lc_id c < length roles" "roles ! lc_id c = LCORE_ROLE_IDLE" "r1 = roles[lc_id c := lc_type c]"
      by (auto simp: give_role_def split: if_splits)
    note ih = Cons.IH [OF r1(2)]
    have t: "lc_type c \<noteq> LCORE_ROLE_IDLE" "\<forall>c \<in> set (takeWhile (\<lambda>c. pqs c \<noteq> []) cs). lc_type c \<noteq> LCORE_ROLE_IDLE"
      using Cons.prems(2) False by auto
    have nin: "lc_id c \<notin> lc_id ` set (takeWhile (\<lambda>c. pqs c \<noteq> []) cs)"
    proof
      assume "lc_id c \<in> lc_id ` set (takeWhile (\<lambda>c. pqs c \<noteq> []) cs)"
      then have "r1 ! lc_id c = LCORE_ROLE_IDLE"
        using ih t(2) by fastforce
      then show False
        using g t(1) by simp
    qed
    have "r1 ! lc_id c = lc_type c" "\<And>j. j \<noteq> lc_id c \<Longrightarrow> r1 ! j = roles ! j" "length r1 = length roles"
      using g by simp_all
    moreover have "roles ! lc_id x = r1 ! lc_id x" if "x \<in> set (takeWhile (\<lambda>c. pqs c \<noteq> []) cs)" for x
      using that nin calculation(2) [of "lc_id x"] by (metis image_eqI)
    ultimately show ?thesis
      using ih t(2) g(1,2) nin False by auto
  qed (use Cons.prems in \<open>auto split: if_splits\<close>)
qed (auto split: if_splits)

lemma isol_roles_keep: "isol_roles tab cids roles = Some r \<Longrightarrow> length r = length roles \<and> (\<forall>j. roles ! j \<noteq> LCORE_ROLE_IDLE \<longrightarrow> r ! j = roles ! j)"
proof (induction cids arbitrary: roles)
  case (Cons cid cids)
  then show ?case
    by (fastforce simp: give_role_def bind_eq_Some_conv nth_list_update split: if_splits)
qed auto

lemma index_loop_positions:
  assumes "index_loop e i cs t = Some (ENDF_OK, t')" and "distinct (map lc_id (takeWhile (\<lambda>c. pqs c \<noteq> []) cs))"
  shows "(\<forall>k < length (takeWhile (\<lambda>c. pqs c \<noteq> []) cs). t' (lc_id (cs ! k)) = i + k) \<and>
    (\<forall>j. j \<notin> lc_id ` set (takeWhile (\<lambda>c. pqs c \<noteq> []) cs) \<longrightarrow> t' j = t j)"
  using assms
proof (induction cs arbitrary: i t)
  case (Cons c cs)
  show ?case
  proof (cases "pqs c = []")
    case False
    then have "index_loop e (Suc i) cs (t(lc_id c := i)) = Some (ENDF_OK, t')"
      using Cons.prems(1) by (auto simp: ENDF_OK_def ENDF_NONEALCORE_def split: if_splits)
    note ih = Cons.IH [OF this]
    show ?thesis
      using ih Cons.prems(2) False by (auto simp: less_Suc_eq_0_disj)
  qed (use Cons.prems in \<open>auto split: if_splits\<close>)
qed (auto split: if_splits)

lemma store_from_fill:
  "idx + length cids \<le> length xs \<Longrightarrow> store_from idx cids xs = Some (take idx xs @ map int cids @ drop (idx + length cids) xs)"
proof (induction cids arbitrary: idx xs)
  case (Cons c cids)
  then have i: "idx < length xs"
    by simp
  then show ?case
    using Cons.IH [of "Suc idx" "xs[idx := int c]"] Cons.prems
    by (simp add: store_at_def take_Suc_conv_app_nth take_update_cancel)
qed simp

lemma invert_other: "length (invert k ids t) = length t \<and> (int c \<notin> set ids \<longrightarrow> invert k ids t ! c = t ! c)"
  by (induction k ids t rule: invert.induct) auto

lemma invert_at:
  "distinct cids \<Longrightarrow> \<forall>c \<in> set cids. c < length t \<Longrightarrow> j < length cids \<Longrightarrow>
    invert k (map int cids @ replicate n (-1)) t ! (cids ! j) = int (k + j)"
proof (induction cids arbitrary: k t j)
  case (Cons c cids)
  show ?case
  proof (cases j)
    case 0
    have "int c \<notin> set (map int cids @ replicate n (- 1))"
      using Cons.prems(1) by auto
    then show ?thesis
      using 0 Cons.prems(2) invert_other [of "Suc k" "map int cids @ replicate n (- 1)" "t[c := int k]" c] by simp
  next
    case (Suc i)
    then show ?thesis
      using Cons.IH [of "t[c := int k]" i "Suc k"] Cons.prems by simp
  qed
qed simp

lemma build_keeps_roles: "build_lcore_index e d = Some d' \<Longrightarrow> g_lcore_role d' = g_lcore_role d"
  by (auto simp: build_lcore_index_def bind_eq_Some_conv simp del: store_from.simps)

lemma port_index_keeps: "port_index_init m cs tb = Some tb' \<Longrightarrow> lcore2index tb' = lcore2index tb"
  by (auto simp: port_index_init_def)

lemma build_index_inverse:
  assumes "build_lcore_index e d = Some d'" and "length (g_lcore_role d) = m" and "main_lcore e < m"
    and "g_lcore_role d ! main_lcore e = LCORE_ROLE_MASTER" and "g_lcore_index2id d = replicate m (-1)" and "length (g_lcore_id2index d) = m"
    and "int j < g_lcore_num d'"
  shows "0 \<le> g_lcore_index2id d' ! j \<and> g_lcore_id2index d' ! nat (g_lcore_index2id d' ! j) = int j \<and>
    (j = 0 \<longrightarrow> g_lcore_index2id d' ! j = int (main_lcore e)) \<and>
    (0 < j \<longrightarrow> g_lcore_role d ! nat (g_lcore_index2id d' ! j) \<in> {LCORE_ROLE_FWD_WORKER, LCORE_ROLE_ISOLRX_WORKER})"
proof -
  define order where "order = main_lcore e # cores_with LCORE_ROLE_FWD_WORKER (g_lcore_role d) @ cores_with LCORE_ROLE_ISOLRX_WORKER (g_lcore_role d)"
  have dist: "distinct order" and lt: "\<forall>c \<in> set order. c < m"
    using assms(2-4)
    by (auto simp: order_def cores_with_def LCORE_ROLE_MASTER_def LCORE_ROLE_FWD_WORKER_def LCORE_ROLE_ISOLRX_WORKER_def)
  have "length order \<le> m"
    using card_mono [of "{..<m}" "set order"] lt distinct_card [OF dist] by (simp add: subset_iff)
  then have fill: "store_from 0 order (replicate m (-1)) = Some (map int order @ replicate (m - length order) (-1))"
    using store_from_fill [of 0 order "replicate m (-1)"] by simp
  have d': "d' = d\<lparr>g_lcore_index2id := map int order @ replicate (m - length order) (-1), g_lcore_num := int (length order),
      g_lcore_id2index := invert 0 (map int order @ replicate (m - length order) (-1)) (g_lcore_id2index d)\<rparr>"
    using assms(1,5) fill by (simp add: build_lcore_index_def order_def [symmetric] Let_def del: store_from.simps)
  have jl: "j < length order"
    using assms(7) by (simp add: d')
  have role: "g_lcore_role d ! (order ! j) \<in> {LCORE_ROLE_FWD_WORKER, LCORE_ROLE_ISOLRX_WORKER}" if pos: "0 < j"
  proof -
    obtain i where i: "j = Suc i"
      using pos by (cases j) simp_all
    then have "order ! j \<in> set (tl order)"
      using jl nth_mem [of i "tl order"] by (simp add: nth_tl)
    then show ?thesis
      by (auto simp: order_def cores_with_def)
  qed
  have ids: "g_lcore_index2id d' ! j = int (order ! j)"
    using jl by (simp add: d' nth_append)
  have "g_lcore_id2index d' ! (order ! j) = int j"
    using invert_at [OF dist, of "g_lcore_id2index d" j 0 "m - length order"] lt assms(6) jl by (simp add: d')
  moreover have "order ! 0 = main_lcore e"
    by (simp add: order_def)
  ultimately show ?thesis
    using role ids by (cases "j = 0") simp_all
qed

lemma bind_Some_E:
  assumes "Option.bind f g = Some y"
  obtains x where "f = Some x" and "g x = Some y"
  using assms by (cases f) auto

text \<open>C20: Once the cores are initialised, every core that has queues finds its own entry through the index table and has the role of its
  worker, no two entries share a core, and the two tables that number the cores are inverse to each other.\<close>

theorem lcore_tables_consistent:
  assumes "netif_lcore_init e t addrs interval sys = Some (Continues sys')" and "ls_data sys = global_data_init (max_lcore e)"
    and "active (max_lcore e) (lcore_conf (ls_state sys')) = Some a" and "\<forall>c \<in> set a. lc_type c \<noteq> LCORE_ROLE_IDLE"
    and "k < length a" and "int j < g_lcore_num (ls_data sys')"
  shows "distinct (map lc_id a) \<and> lcore2index (ls_tables sys') (lc_id (a ! k)) = k \<and>
    g_lcore_role (ls_data sys') ! lc_id (a ! k) = lc_type (a ! k) \<and>
    g_lcore_id2index (ls_data sys') ! nat (g_lcore_index2id (ls_data sys') ! j) = int j"
proof -
  define cs where "cs = lcore_conf (ls_state sys')"
  have a: "a = takeWhile (\<lambda>c. pqs c \<noteq> []) cs"
    using assms(3) by (auto simp: cs_def active_def Let_def split: if_splits)
  obtain tb where ix: "lcore_index_init e cs (ls_tables sys) = Some (ENDF_OK, tb)" "port_index_init (max_lcore e) cs tb = Some (ls_tables sys')"
      "lcore_role_init e (ls_state sys') (ls_data sys) = Some (ls_data sys')"
    using assms(1) by (auto simp: netif_lcore_init_def cs_def elim!: bind_Some_E split: if_splits process.splits)
  obtain r0 r1 r2 r3 where role: "give_role (main_lcore e) LCORE_ROLE_MASTER r0 = Some r1" "length r0 = max_lcore e"
      "role_loop (max_lcore e) 0 cs r1 = Some r2" "isol_roles (isol_rxq_tab (ls_state sys')) [0..<max_lcore e] r2 = Some r3"
      "build_lcore_index e (ls_data sys\<lparr>g_lcore_role := r3\<rparr>) = Some (ls_data sys')"
    using ix(3) by (auto simp: lcore_role_init_def cs_def Let_def bind_eq_Some_conv)
  have m: "main_lcore e < max_lcore e" "r1 ! main_lcore e = LCORE_ROLE_MASTER" "length r1 = max_lcore e"
    using role(1,2) by (auto simp: give_role_def split: if_splits)
  have ne: "LCORE_ROLE_MASTER \<noteq> LCORE_ROLE_IDLE"
    by (simp add: LCORE_ROLE_MASTER_def LCORE_ROLE_IDLE_def)
  note rl = role_loop_roles [OF role(3), folded a, OF assms(4)]
  note kp = isol_roles_keep [OF role(4)]
  have "main_lcore e \<notin> lc_id ` set a"
    using rl m(2) ne by fastforce
  then have main: "r3 ! main_lcore e = LCORE_ROLE_MASTER"
    using rl kp m(2) ne by auto
  have ak: "a ! k \<in> set a"
    using assms(5) by simp
  have "g_lcore_role (ls_data sys') = r3"
    using build_keeps_roles [OF role(5)] by simp
  then have "g_lcore_role (ls_data sys') ! lc_id (a ! k) = lc_type (a ! k)"
    using rl kp ak assms(4) by auto
  moreover have "lcore2index (ls_tables sys') (lc_id (a ! k)) = k"
  proof -
    obtain l where l: "index_loop e 0 cs (\<lambda>i. if i \<le> max_lcore e then max_lcore e else lcore2index (ls_tables sys) i) = Some (ENDF_OK, l)"
        "lcore2index tb = l"
      using ix(1) by (auto simp: lcore_index_init_def bind_eq_Some_conv)
    have "lcore2index (ls_tables sys') = l"
      using port_index_keeps [OF ix(2)] l(2) by simp
    then show ?thesis
      using index_loop_positions [OF l(1)] rl assms(5) takeWhile_nth [of k "\<lambda>c. pqs c \<noteq> []" cs] unfolding a by simp
  qed
  moreover have "g_lcore_id2index (ls_data sys') ! nat (g_lcore_index2id (ls_data sys') ! j) = int j"
    using build_index_inverse [OF role(5), of "max_lcore e" j] kp rl m main assms(2,6) by (simp add: global_data_init_def)
  ultimately show ?thesis
    using rl by blast
qed

text \<open>A small system: four cores, the main core 0, one port named \<open>p\<close> and one worker on core 2 with its queue 0.\<close>

definition small_env :: lcore_env where
  "small_env = \<lparr>lc_env = sample_netif_env\<lparr>NDF_MAX_LCORE := 4\<rparr>, ring_create = (\<lambda>_ _. True), lcore_enabled = (\<lambda>c. c < 4), main_lcore = 0,
     lcore_count = 4, eth_count = 1\<rparr>"

definition small_worker :: worker_conf_stream where
  "small_worker = (sample_worker 0 (str ''slave''))\<lparr>wc_cpu_id := Some 2\<rparr>"

definition small_ports :: port_tables where
  "small_ports = snd (register_all [sample_port 0 [112]] (port_ntab_init (port_tab_init no_ports)))"

definition small_system :: lcore_system where
  "small_system = \<lparr>ls_state = no_lcores, ls_tables = \<lparr>lcore2index = (\<lambda>_. 0), port2index = (\<lambda>_ _. 0)\<rparr>, ls_data = global_data_init 4,
     ls_workers = [small_worker], ls_sched = sample_scheduler, timer_sched_interval_us = 10\<rparr>"

lemma small_conf:
  "config_lcores small_env small_ports [small_worker] (isol_rxq_init 4 no_lcores)
    = Some ([small_worker], (isol_rxq_init 4 no_lcores)\<lparr>lcore_conf := [lcore_of_queues 2 [0]]\<rparr>)"
proof -
  have max: "max_lcore small_env = 4"
    by (simp add: small_env_def)
  have ty: "worker_type small_worker = Some (str ''slave'')"
    by (simp add: worker_type_def small_worker_def sample_worker_def field_str_def c_str_def str_def)
  have plain: "worker_plain 4 small_worker"
    using sample_worker_plain [of 0 "str ''slave''"] by (simp add: worker_plain_def small_worker_def worker_type_def str_def)
  have name: "c_str (strncpy_field 32 [112]) = [112]"
    using strncpy_field_str [of "[112]" 32] by simp
  have "netif_port_get_by_name (Some [112]) small_ports = Some (sample_port 0 [112])"
    using registry_get_by_name [of small_ports "[sample_port 0 [112]]" "[112]"] registry_run [OF registry_init [of no_ports], of "[sample_port 0 [112]]"]
    by (simp add: small_ports_def sample_port_def named_def IFNAMSIZ_def refused_def)
  then have "lcore_entry small_ports small_worker = lcore_of_queues 2 [0]"
    using ty by (simp add: lcore_entry_def lcore_of_queues_def cpu_of_def worker_role_def port_entry_def qids_before_mark_def NETIF_MAX_QUEUES_def
        small_worker_def sample_worker_def new_queue_conf_def name sample_port_def)
  then show ?thesis
    using config_lcores_sorts [of "[small_worker]" small_env small_ports "isol_rxq_init 4 no_lcores"] plain ty max
    by (simp add: is_master_def) (simp add: str_def)
qed

theorem lcore_tables_consistent_witness:
  "\<exists>sys'. netif_lcore_init small_env small_ports [] 10 small_system = Some (Continues sys') \<and> lcore2index (ls_tables sys') 2 = 0"
proof -
  have chk: "check_lcore_conf 4 1 4 [lcore_of_queues 2 [0]] = Some ENDF_OK"
    by (simp add: sample_check_defs LCONFCHK_OK_def ENDF_OK_def)
  have role: "\<exists>d. lcore_role_init small_env ((isol_rxq_init 4 no_lcores)\<lparr>lcore_conf := [lcore_of_queues 2 [0]]\<rparr>) (global_data_init 4) = Some d
      \<and> 0 < g_lcore_num d"
    by (simp add: lcore_role_init_def small_env_def global_data_init_def give_role_def isol_rxq_init_def no_lcores_def lcore_of_queues_def
        build_lcore_index_def cores_with_def upt_conv_Cons role_defs store_at_def numeral_2_eq_2 numeral_3_eq_3)
  then obtain d where d: "lcore_role_init small_env ((isol_rxq_init 4 no_lcores)\<lparr>lcore_conf := [lcore_of_queues 2 [0]]\<rparr>) (global_data_init 4) = Some d"
      "0 < g_lcore_num d"
    by blast
  have env: "max_lcore small_env = 4" "lcore_enabled small_env 2" "lcore_count small_env = 4" "eth_count small_env = 1"
    by (simp_all add: small_env_def)
  have idx: "\<exists>tb. lcore_index_init small_env [lcore_of_queues 2 [0]] t = Some (ENDF_OK, tb)" for t
    using env by (simp add: lcore_index_init_def) (simp add: lcore_of_queues_def)
  have pidx: "\<exists>tb'. port_index_init 4 [lcore_of_queues 2 [0]] tb = Some tb'" for tb
    by (simp add: port_index_init_def) (simp add: lcore_of_queues_def NETIF_MAX_PORTS_def)
  obtain tb tb' where tb: "lcore_index_init small_env [lcore_of_queues 2 [0]] (ls_tables small_system) = Some (ENDF_OK, tb)"
      "port_index_init 4 [lcore_of_queues 2 [0]] tb = Some tb'"
    using idx pidx by blast
  have sys: "ls_state small_system = no_lcores" "ls_workers small_system = [small_worker]" "ls_data small_system = global_data_init 4"
    by (simp_all add: small_system_def)
  obtain sys' where sys': "netif_lcore_init small_env small_ports [] 10 small_system = Some (Continues sys')"
      "lcore_conf (ls_state sys') = [lcore_of_queues 2 [0]]" "0 < g_lcore_num (ls_data sys')"
    using chk small_conf d tb by (simp add: netif_lcore_init_def env [simplified] sys)
  have "active 4 [lcore_of_queues 2 [0]] = Some [lcore_of_queues 2 [0]]" "lc_type (lcore_of_queues 2 [0]) \<noteq> LCORE_ROLE_IDLE"
    by (simp_all add: active_def lcore_of_queues_def role_defs)
  then have "lcore2index (ls_tables sys') (lc_id ([lcore_of_queues 2 [0]] ! 0)) = 0"
    using lcore_tables_consistent [OF sys'(1), of "[lcore_of_queues 2 [0]]" 0 0] sys'(2,3)
    by (simp add: sys env)
  then show ?thesis
    using sys'(1) by (auto simp: lcore_of_queues_def)
qed
end
