(* ===== verification/Netif_Loop.thy ===== *)
theory Netif_Loop
  imports Bridge Netif_Lcore
begin

text \<open>
  The work of the cores in \<^verbatim>\<open>netif.c\<close>: starting and stopping a port as the sequence of calls into DPDK, the map of queues to
  cores, the job that polls the queues of a core and hands every packet to the pipeline, the polling of isolated queues
  and the timer job. What DPDK answers to a poll or a call is a parameter.
\<close>

section \<open>The map of queues to cores\<close>

text \<open>\<open>pm_pid\<close> is the set of ports seen; a queue that no core has maps to \<^verbatim>\<open>NETIF_PORT_ID_INVALID\<close>. The address for printing is left out.\<close>

record pql_map =
  pm_pid :: "nat set"
  pm_rx :: "nat \<Rightarrow> nat \<Rightarrow> nat"
  pm_tx :: "nat \<Rightarrow> nat \<Rightarrow> nat"
  netif_max_pid :: nat
  netif_max_qid :: nat

fun map_queues :: "nat \<Rightarrow> nat \<Rightarrow> nat list \<Rightarrow> (nat \<Rightarrow> nat \<Rightarrow> nat) \<times> nat \<Rightarrow> ((nat \<Rightarrow> nat \<Rightarrow> nat) \<times> nat) option" where
  "map_queues pid cid [] s = Some s"
| "map_queues pid cid (qid # qids) s =
    (if NETIF_MAX_QUEUES \<le> qid then None
     else map_queues pid cid qids ((fst s)(pid := (fst s pid)(qid := cid)), max (snd s) qid))"

fun map_ports :: "nat \<Rightarrow> netif_port_conf list \<Rightarrow> pql_map \<Rightarrow> pql_map option" where
  "map_ports cid [] m = Some m"
| "map_ports cid (p # ps) m =
    (if NETIF_MAX_PORTS \<le> pq_id p then None
     else do {
       (rx, q1) \<leftarrow> map_queues (pq_id p) cid (map q_id (rxqs p)) (pm_rx m, netif_max_qid m);
       (tx, q2) \<leftarrow> map_queues (pq_id p) cid (map q_id (txqs p)) (pm_tx m, q1);
       map_ports cid ps (m\<lparr>pm_pid := insert (pq_id p) (pm_pid m), pm_rx := rx, pm_tx := tx, netif_max_pid := max (netif_max_pid m) (pq_id p),
         netif_max_qid := q2\<rparr>) })"

fun map_lcores :: "nat \<Rightarrow> nat \<Rightarrow> netif_lcore_conf list \<Rightarrow> pql_map \<Rightarrow> pql_map option" where
  "map_lcores mx i [] m = (if i < mx then Some m else None)"
| "map_lcores mx i (c # cs) m =
    (if mx \<le> i then None else if pqs c = [] then Some m else Option.bind (map_ports (lc_id c) (pqs c) m) (map_lcores mx (i + 1) cs))"

definition build_port_queue_lcore_map :: "nat \<Rightarrow> netif_lcore_conf list \<Rightarrow> pql_map \<Rightarrow> pql_map option" where
  "build_port_queue_lcore_map mx cs m =
     map_lcores mx 0 cs (m\<lparr>pm_pid := {}, pm_rx := (\<lambda>_ _. NETIF_PORT_ID_INVALID), pm_tx := (\<lambda>_ _. NETIF_PORT_ID_INVALID)\<rparr>)"

section \<open>Starting and stopping a port\<close>

datatype dev_call =
  Dev_configure nat int int u64 u64 u64
  | Rx_queue_setup nat nat u16
  | Tx_queue_setup nat nat u16 u64
  | Dev_set_mtu nat u16
  | Dev_start nat
  | Promiscuous_enable nat
  | Allmulticast_enable nat
  | Dev_stop nat
  | Dev_set_link_down nat

text \<open>
  \<open>dev_ret\<close> is the result of a call, \<open>link_get\<close> that of the i-th \<^verbatim>\<open>rte_eth_link_get_nowait\<close>: its result and the status it left, if any. Before
  the first status is written \<^verbatim>\<open>link\<close> is undefined.
\<close>

record start_env =
  dev_ret :: "dev_call \<Rightarrow> int"
  info_get :: "nat \<Rightarrow> dev_info option"
  link_get :: "nat \<Rightarrow> int \<times> bool option"
  reta_update :: "nat \<Rightarrow> nat list \<Rightarrow> bool"

definition add_offload :: "u16 \<Rightarrow> u16 \<Rightarrow> u64 \<Rightarrow> u64 \<Rightarrow> u64" where
  "add_offload flag msk bits offl = (if flag AND msk \<noteq> 0 then offl OR bits else offl)"

definition port_offloads :: "eth_bits \<Rightarrow> netif_port \<Rightarrow> netif_port" where
  "port_offloads eb p = p\<lparr>
     rx_offloads := add_offload (np_flag p) NETIF_PORT_FLAG_RX_VLAN_STRIP_OFFLOAD (RX_VLAN_STRIP eb)
       (add_offload (np_flag p) NETIF_PORT_FLAG_RX_IP_CSUM_OFFLOAD (RX_IPV4_CKSUM eb) (rx_offloads p)),
     tx_offloads := add_offload (np_flag p) NETIF_PORT_FLAG_TX_MBUF_FAST_FREE (TX_MBUF_FAST_FREE eb)
       (add_offload (np_flag p) NETIF_PORT_FLAG_TX_TCP_CSUM_OFFLOAD (TX_TCP_CKSUM eb)
         (add_offload (np_flag p) NETIF_PORT_FLAG_TX_UDP_CSUM_OFFLOAD (TX_UDP_CKSUM eb)
           (add_offload (np_flag p) NETIF_PORT_FLAG_TX_IP_CSUM_OFFLOAD (TX_IPV4_CKSUM eb) (tx_offloads p))))\<rparr>"

text \<open>Calls in order until one fails; the result says whether all succeeded and which were made.\<close>

fun try_calls :: "(dev_call \<Rightarrow> int) \<Rightarrow> dev_call list \<Rightarrow> bool \<times> dev_call list" where
  "try_calls ret [] = (True, [])"
| "try_calls ret (c # cs) = (if ret c < 0 then (False, [c]) else let (ok, made) = try_calls ret cs in (ok, c # made))"

text \<open>The wait for the link: \<open>n\<close> tries are left, the status is the last one written.\<close>

fun wait_link :: "(nat \<Rightarrow> int \<times> bool option) \<Rightarrow> nat \<Rightarrow> nat \<Rightarrow> bool option \<Rightarrow> bool option option" where
  "wait_link lg ii 0 status = Some status"
| "wait_link lg ii (Suc n) status =
    (let (ret, s) = lg ii; status' = (case s of None \<Rightarrow> status | Some x \<Rightarrow> Some x) in
     if ret = 0 then (case status' of None \<Rightarrow> None | Some up \<Rightarrow> if up then Some (Some True) else wait_link lg (ii + 1) n status')
     else wait_link lg (ii + 1) n status')"

definition wait_link_up_msecs :: nat where "wait_link_up_msecs = 30000"

text \<open>The calls that set the device and its queues up.\<close>

definition setup_calls :: "netif_port \<Rightarrow> dev_call list" where
  "setup_calls p = Dev_configure (np_id p) (n_rxq p) (n_txq p) (rss_hf p) (rx_offloads p) (tx_offloads p)
     # map (\<lambda>q. Rx_queue_setup (np_id p) q (rxq_desc_nb p)) [0..<nat (n_rxq p)]
     @ map (\<lambda>q. Tx_queue_setup (np_id p) q (txq_desc_nb p) (tx_offloads p)) [0..<nat (n_txq p)]"

text \<open>From the configuration of the device on: the error code, the port, the map and the calls made.\<close>

definition bring_up :: "start_env \<Rightarrow> nat \<Rightarrow> netif_lcore_conf list \<Rightarrow> bool \<Rightarrow> bool \<Rightarrow> netif_port \<Rightarrow> pql_map \<Rightarrow>
    (int \<times> netif_port option \<times> pql_map \<times> dev_call list) option" where
  "bring_up se mx cs promisc allmulti p m =
    (let pid = np_id p; (ok, calls) = try_calls (dev_ret se) (setup_calls p) in
     if \<not> ok then Some (ENDF_DPDKAPIFAIL, Some p, m, calls)
     else let calls2 = calls @ [Dev_set_mtu pid (np_mtu p)]; ret = dev_ret se (Dev_set_mtu pid (np_mtu p)) in
       if ret \<noteq> ENDF_OK then Some (ret, Some p, m, calls2)
       else do {
         m' \<leftarrow> build_port_queue_lcore_map mx cs m;
         let calls3 = calls2 @ [Dev_start pid] in
         if dev_ret se (Dev_start pid) < 0 then Some (ENDF_DPDKAPIFAIL, Some p, m', calls3)
         else do {
           status \<leftarrow> wait_link (link_get se) 0 wait_link_up_msecs None;
           up \<leftarrow> status;
           if \<not> up then Some (ENDF_DPDKAPIFAIL, Some p, m', calls3)
           else let p' = p\<lparr>np_flag := np_flag p OR NETIF_PORT_FLAG_RUNNING\<rparr>;
                    calls4 = calls3 @ (if promisc then [Promiscuous_enable pid] else []) @ (if allmulti then [Allmulticast_enable pid] else []) in do {
             r \<leftarrow> netif_update_rss_reta (reta_update se) mx cs p';
             Some (ENDF_OK, Some p', m', calls4) } } })"

definition netif_port_start :: "start_env \<Rightarrow> eth_bits \<Rightarrow> nat \<Rightarrow> netif_lcore_conf list \<Rightarrow> netif_conf \<Rightarrow> netif_port option \<Rightarrow> pql_map \<Rightarrow>
    (int \<times> netif_port option \<times> pql_map \<times> dev_call list) process option" where
  "netif_port_start se eb mx cs s port m = (case port of
     None \<Rightarrow> Some (Continues (ENDF_INVAL, None, m, []))
   | Some p0 \<Rightarrow> do {
       nrx \<leftarrow> port_rx_queues_get mx cs (np_id p0);
       ntx \<leftarrow> port_tx_queues_get mx cs (np_id p0);
       (p1, promisc, allmulti) \<leftarrow> fill_port_config eb nrx ntx s p0;
       if n_rxq p1 = 0 \<and> n_txq p1 = 0 then Some (Continues (ENDF_DPDKAPIFAIL, Some p1, m, []))
       else if n_rxq p1 > int (max_rx_queues (np_info p1)) \<or> n_txq p1 > int (max_tx_queues (np_info p1)) then Some Exits
       else let p2 = port_offloads eb p1;
                (rss, rx, tx) = adapt_device_conf (info_get se (np_id p2)) (rss_hf p2) (rx_offloads p2) (tx_offloads p2) in
         map_option Continues (bring_up se mx cs promisc allmulti (p2\<lparr>rss_hf := rss, rx_offloads := rx, tx_offloads := tx\<rparr>) m) })"

definition netif_port_stop :: "start_env \<Rightarrow> netif_port option \<Rightarrow> int \<times> netif_port option \<times> dev_call list" where
  "netif_port_stop se port = (case port of
     None \<Rightarrow> (ENDF_INVAL, None, [])
   | Some p \<Rightarrow>
      if dev_ret se (Dev_set_link_down (np_id p)) < 0 then (ENDF_DPDKAPIFAIL, Some p, [Dev_stop (np_id p), Dev_set_link_down (np_id p)])
      else (ENDF_OK, Some (p\<lparr>np_flag := np_flag p OR NETIF_PORT_FLAG_STOPPED\<rparr>), [Dev_stop (np_id p), Dev_set_link_down (np_id p)]))"

section \<open>Polling\<close>

text \<open>
  The state of a polling core: the pipeline, its statistics and the time of the last expiry, which is not there before
  the first call. The packets of a poll are given with what the outside is when they are processed.
\<close>

record worker_state =
  w_bridge :: bridge
  w_stats :: netif_lcore_stats
  last_cleanup_ts :: "timeval option"

record poll_env =
  rx_burst :: "nat \<Rightarrow> nat \<Rightarrow> arrival list"
  poll_first :: timeval
  poll_now :: timeval

fun process_burst :: "arrival list \<Rightarrow> worker_state \<Rightarrow> worker_state option" where
  "process_burst [] w = Some w"
| "process_burst (v # vs) w = do {
     (r, b) \<leftarrow> process_packet (fst v) (Some (mbuf_of (snd v))) (w_bridge w);
     process_burst vs (w\<lparr>w_bridge := b,
       w_stats := (if r \<noteq> 0 then (w_stats w)\<lparr>ls_errors := ls_errors (w_stats w) + 1\<rparr> else w_stats w)\<rparr>) }"

definition count_burst :: "arrival list \<Rightarrow> netif_lcore_stats \<Rightarrow> netif_lcore_stats" where
  "count_burst vs s = s\<lparr>ipackets := ipackets s + of_nat (length vs),
     ibytes := foldl (\<lambda>n v. n + ucast (pkt_len (mbuf_of (snd v)))) (ibytes s) vs\<rparr>"

definition poll_queue :: "poll_env \<Rightarrow> nat \<Rightarrow> nat \<Rightarrow> worker_state \<Rightarrow> worker_state option" where
  "poll_queue pe pid qid w =
    (let vs = rx_burst pe pid qid in if vs = [] then Some w else process_burst vs (w\<lparr>w_stats := count_burst vs (w_stats w)\<rparr>))"

fun poll_ports :: "poll_env \<Rightarrow> port_tables \<Rightarrow> netif_port_conf list \<Rightarrow> worker_state \<Rightarrow> worker_state option" where
  "poll_ports pe t [] w = Some w"
| "poll_ports pe t (p # ps) w = do {
     dev \<leftarrow> netif_port_get (pq_id p) t;
     case dev of
       None \<Rightarrow> poll_ports pe t ps w
     | Some _ \<Rightarrow> Option.bind (run_ops (poll_queue pe (pq_id p)) (map q_id (rxqs p)) w) (poll_ports pe t ps) }"

definition lcore_job_recv_fwd :: "poll_env \<Rightarrow> port_tables \<Rightarrow> nat \<Rightarrow> netif_lcore_conf list \<Rightarrow> lcore_tables \<Rightarrow> nat \<Rightarrow> worker_state \<Rightarrow> worker_state option" where
  "lcore_job_recv_fwd pe t mx cs tb cid w =
    (let w0 = (if last_cleanup_ts w = None then w\<lparr>last_cleanup_ts := Some (poll_first pe)\<rparr> else w); i = lcore2index tb cid in
     if mx \<le> i then None
     else do {
       w1 \<leftarrow> poll_ports pe t (if i < length cs then pqs (cs ! i) else []) w0;
       last \<leftarrow> last_cleanup_ts w1;
       if tv_sec (poll_now pe) - tv_sec last \<ge> 10 then do {
         (removed, st) \<leftarrow> flow_cleanup_expired (br_flows (w_bridge w1)) (Some (poll_now pe));
         Some (w1\<lparr>w_bridge := (w_bridge w1)\<lparr>br_flows := st\<rparr>, last_cleanup_ts := Some (poll_now pe)\<rparr>) }
       else Some w1 })"

text \<open>\<open>cycles\<close> is the clock, \<open>hz\<close> its rate; the result says whether the timers are run, and the time kept.\<close>

definition lcore_job_timer_manage :: "u64 \<Rightarrow> u64 \<Rightarrow> int \<Rightarrow> u64 \<Rightarrow> bool \<times> u64" where
  "lcore_job_timer_manage hz now interval tm =
    (if (now - tm) * 1000000 div hz > of_int interval then (True, now) else (False, tm))"

text \<open>
  Isolated queues. A ring is what DPDK makes of it: \<open>enqueue\<close> gives the number of packets taken and the ring afterwards,
  \<open>free_count\<close> the room. The bursts are the answers to the successive polls of one queue.
\<close>

record 'r ring_ops =
  enqueue :: "'r \<Rightarrow> arrival list \<Rightarrow> nat \<times> 'r"
  free_count :: "'r \<Rightarrow> nat"

fun isol_poll :: "'r ring_ops \<Rightarrow> arrival list list \<Rightarrow> 'r \<Rightarrow> netif_lcore_stats \<Rightarrow> ('r \<times> netif_lcore_stats) option" where
  "isol_poll ops [] r s = None"
| "isol_poll ops (vs # bursts) r s =
    (let s1 = lcore_stats_burst s (length vs) in
     if vs = [] then Some (r, s1)
     else let s2 = count_burst vs s1; (taken, r') = enqueue ops r vs;
              s3 = (if taken < length vs then s2\<lparr>ls_dropped := ls_dropped s2 + of_nat (length vs - taken)\<rparr> else s2) in
       if length vs \<ge> NETIF_MAX_PKT_BURST \<and> free_count ops r' \<ge> NETIF_MAX_PKT_BURST then isol_poll ops bursts r' s3
       else Some (r', s3))"

text \<open>The queues of a core in the order of its list, each with its ring and the answers to its polls.\<close>

fun recv_on_isol_lcore :: "'r ring_ops \<Rightarrow> nat \<Rightarrow> (rx_partner \<times> arrival list list \<times> 'r) list \<Rightarrow> netif_lcore_stats \<Rightarrow> ('r list \<times> netif_lcore_stats) option" where
  "recv_on_isol_lcore ops cid [] s = Some ([], s)"
| "recv_on_isol_lcore ops cid ((x, bursts, r) # qs) s =
    (if rp_cid x \<noteq> cid then None
     else do {
       (r', s1) \<leftarrow> isol_poll ops bursts r s;
       (rs, s2) \<leftarrow> recv_on_isol_lcore ops cid qs s1;
       Some (r' # rs, s2) })"

section \<open>What a poll does\<close>

text \<open>The packets of a poll in the order in which they are processed.\<close>

definition queues_polled :: "port_tables \<Rightarrow> netif_port_conf list \<Rightarrow> (nat \<times> nat) list" where
  "queues_polled t ps = concat (map (\<lambda>p. map (\<lambda>q. (pq_id p, q_id q)) (rxqs p))
     (filter (\<lambda>p. netif_port_get (pq_id p) t \<noteq> Some None) ps))"

definition polled :: "poll_env \<Rightarrow> port_tables \<Rightarrow> netif_port_conf list \<Rightarrow> arrival list" where
  "polled pe t ps = concat (map (\<lambda>(pid, qid). rx_burst pe pid qid) (queues_polled t ps))"

lemma run_ops_append: "run_ops f (xs @ ys) s = Option.bind (run_ops f xs s) (run_ops f ys)"
proof (induction xs arbitrary: s)
  case (Cons x xs)
  then show ?case
    by (cases "f x s") simp_all
qed simp

definition same_but_errors :: "worker_state \<Rightarrow> worker_state \<Rightarrow> bool" where
  "same_but_errors w w' \<longleftrightarrow> last_cleanup_ts w' = last_cleanup_ts w \<and> ipackets (w_stats w') = ipackets (w_stats w) \<and> ibytes (w_stats w') = ibytes (w_stats w)"

lemma process_burst_run:
  "run_ops arrive vs (w_bridge w) = Some b \<Longrightarrow> \<exists>w'. process_burst vs w = Some w' \<and> w_bridge w' = b \<and> same_but_errors w w'"
proof (induction vs arbitrary: w)
  case (Cons v vs)
  then obtain r b1 where r: "process_packet (fst v) (Some (mbuf_of (snd v))) (w_bridge w) = Some (r, b1)" "run_ops arrive vs b1 = Some b"
    by (auto simp: arrive_def [of v] bind_eq_Some_conv)
  define w1 where "w1 = w\<lparr>w_bridge := b1, w_stats := (if r \<noteq> 0 then (w_stats w)\<lparr>ls_errors := ls_errors (w_stats w) + 1\<rparr> else w_stats w)\<rparr>"
  have "w_bridge w1 = b1" and same: "same_but_errors w w1"
    by (simp_all add: w1_def same_but_errors_def)
  then obtain w' where "process_burst vs w1 = Some w'" "w_bridge w' = b" "same_but_errors w1 w'"
    using Cons.IH [of w1] r(2) by auto
  then show ?case
    using r(1) same by (auto simp: w1_def [symmetric] same_but_errors_def)
qed (simp add: same_but_errors_def)

lemma poll_queue_run:
  assumes "run_ops arrive (rx_burst pe pid qid) (w_bridge w) = Some b"
  shows "\<exists>w'. poll_queue pe pid qid w = Some w' \<and> w_bridge w' = b \<and> last_cleanup_ts w' = last_cleanup_ts w \<and>
    ipackets (w_stats w') = ipackets (w_stats w) + of_nat (length (rx_burst pe pid qid))"
proof (cases "rx_burst pe pid qid = []")
  case False
  obtain w' where "process_burst (rx_burst pe pid qid) (w\<lparr>w_stats := count_burst (rx_burst pe pid qid) (w_stats w)\<rparr>) = Some w'"
      "w_bridge w' = b" "same_but_errors (w\<lparr>w_stats := count_burst (rx_burst pe pid qid) (w_stats w)\<rparr>) w'"
    using process_burst_run [of "rx_burst pe pid qid" "w\<lparr>w_stats := count_burst (rx_burst pe pid qid) (w_stats w)\<rparr>" b] assms by auto
  then show ?thesis
    using False by (intro exI [of _ w']) (simp add: poll_queue_def same_but_errors_def count_burst_def)
qed (use assms in \<open>simp add: poll_queue_def\<close>)

lemma poll_queues_run:
  "run_ops arrive (concat (map (rx_burst pe pid) qids)) (w_bridge w) = Some b \<Longrightarrow>
    \<exists>w'. run_ops (poll_queue pe pid) qids w = Some w' \<and> w_bridge w' = b \<and> last_cleanup_ts w' = last_cleanup_ts w \<and>
      ipackets (w_stats w') = ipackets (w_stats w) + of_nat (length (concat (map (rx_burst pe pid) qids)))"
proof (induction qids arbitrary: w)
  case (Cons q qids)
  then obtain b1 where b1: "run_ops arrive (rx_burst pe pid q) (w_bridge w) = Some b1"
      "run_ops arrive (concat (map (rx_burst pe pid) qids)) b1 = Some b"
    by (auto simp: run_ops_append bind_eq_Some_conv)
  obtain w1 where w1: "poll_queue pe pid q w = Some w1" "w_bridge w1 = b1" "last_cleanup_ts w1 = last_cleanup_ts w"
      "ipackets (w_stats w1) = ipackets (w_stats w) + of_nat (length (rx_burst pe pid q))"
    using poll_queue_run [OF b1(1)] by blast
  then show ?case
    using Cons.IH [of w1] b1(2) by auto
qed simp

lemma poll_ports_run:
  "run_ops arrive (polled pe t ps) (w_bridge w) = Some b \<Longrightarrow> \<forall>p \<in> set ps. pq_id p \<le> NETIF_MAX_PORTS \<Longrightarrow>
    \<exists>w'. poll_ports pe t ps w = Some w' \<and> w_bridge w' = b \<and> last_cleanup_ts w' = last_cleanup_ts w \<and>
      ipackets (w_stats w') = ipackets (w_stats w) + of_nat (length (polled pe t ps))"
proof (induction ps arbitrary: w)
  case (Cons p ps)
  obtain dev where dev: "netif_port_get (pq_id p) t = Some dev"
    using Cons.prems(2) by (simp add: netif_port_get_def)
  show ?case
  proof (cases dev)
    case None
    then show ?thesis
      using Cons dev by (simp add: polled_def queues_polled_def)
  next
    case (Some d)
    have pl: "polled pe t (p # ps) = concat (map (rx_burst pe (pq_id p)) (map q_id (rxqs p))) @ polled pe t ps"
      using dev Some by (simp add: polled_def queues_polled_def comp_def)
    then obtain b1 where b1: "run_ops arrive (concat (map (rx_burst pe (pq_id p)) (map q_id (rxqs p)))) (w_bridge w) = Some b1"
        "run_ops arrive (polled pe t ps) b1 = Some b"
      using Cons.prems(1) by (auto simp: run_ops_append bind_eq_Some_conv)
    obtain w1 where w1: "run_ops (poll_queue pe (pq_id p)) (map q_id (rxqs p)) w = Some w1" "w_bridge w1 = b1"
        "last_cleanup_ts w1 = last_cleanup_ts w"
        "ipackets (w_stats w1) = ipackets (w_stats w) + of_nat (length (concat (map (rx_burst pe (pq_id p)) (map q_id (rxqs p)))))"
      using poll_queues_run [OF b1(1)] by blast
    obtain w' where "poll_ports pe t ps w1 = Some w'" "w_bridge w' = b" "last_cleanup_ts w' = last_cleanup_ts w1"
        "ipackets (w_stats w') = ipackets (w_stats w1) + of_nat (length (polled pe t ps))"
      using Cons.IH [of w1] b1(2) w1(2) Cons.prems(2) by auto
    then show ?thesis
      using dev Some w1 unfolding pl by simp
  qed
qed (simp add: polled_def queues_polled_def)

text \<open>Expiry keeps the invariant of the pipeline.\<close>

lemma expiry_keeps:
  assumes "bridge_inv jh b"
  shows "\<exists>k st. flow_cleanup_expired (br_flows b) (Some now) = Some (k, st) \<and> bridge_inv jh (b\<lparr>br_flows := st\<rparr>)"
proof -
  have inv: "flow_inv (br_flows b)"
    using assms by (simp add: bridge_inv_def)
  obtain k st where c: "flow_cleanup_expired (br_flows b) (Some now) = Some (k, st)" "flow_inv st"
    using flow_cleanup_expired_inv [OF inv, of now] by blast
  obtain tbl where "flow_hash_table (br_flows b) = Some tbl"
    using inv by (auto simp: flow_inv_def)
  then have "fheap st = (\<lambda>a. if expires now (fheap (br_flows b)) a then None else fheap (br_flows b) a)"
    using flow_cleanup_expired_eq [OF inv, of tbl now] c(1) by auto
  then have "all_flows app_typed st"
    using assms by (auto simp: bridge_inv_def all_flows_def)
  then show ?thesis
    using c assms by (auto simp: bridge_inv_def engine_ready_def counters_ok_def)
qed

text \<open>One call of the job, when the pipeline's behaviour on the packets is defined.\<close>

definition ports_of :: "netif_lcore_conf list \<Rightarrow> lcore_tables \<Rightarrow> nat \<Rightarrow> netif_port_conf list" where
  "ports_of cs tb cid = (if lcore2index tb cid < length cs then pqs (cs ! lcore2index tb cid) else [])"

definition expiry_due :: "poll_env \<Rightarrow> worker_state \<Rightarrow> bool" where
  "expiry_due pe w \<longleftrightarrow> 10 \<le> tv_sec (poll_now pe) - tv_sec (case last_cleanup_ts w of None \<Rightarrow> poll_first pe | Some ts \<Rightarrow> ts)"

lemma recv_job_call:
  assumes "bridge_inv jh (w_bridge w)" and "list_all (arrival_ok jh) (polled pe t (ports_of cs tb cid))" and "lcore2index tb cid < mx"
    and "\<forall>p \<in> set (ports_of cs tb cid). pq_id p \<le> NETIF_MAX_PORTS"
    and "run_ops arrive (polled pe t (ports_of cs tb cid)) (w_bridge w) = Some b"
  shows "\<exists>w'. lcore_job_recv_fwd pe t mx cs tb cid w = Some w' \<and> bridge_inv jh (w_bridge w') \<and>
    ipackets (w_stats w') = ipackets (w_stats w) + of_nat (length (polled pe t (ports_of cs tb cid))) \<and>
    (if expiry_due pe w then \<exists>k st. flow_cleanup_expired (br_flows b) (Some (poll_now pe)) = Some (k, st) \<and> w_bridge w' = b\<lparr>br_flows := st\<rparr>
     else w_bridge w' = b)"
proof -
  define ts where "ts = (case last_cleanup_ts w of None \<Rightarrow> poll_first pe | Some ts \<Rightarrow> ts)"
  define w0 where "w0 = (if last_cleanup_ts w = None then w\<lparr>last_cleanup_ts := Some (poll_first pe)\<rparr> else w)"
  have w0: "w_bridge w0 = w_bridge w" "w_stats w0 = w_stats w" "last_cleanup_ts w0 = Some ts"
    by (auto simp: w0_def ts_def split: option.splits)
  obtain w1 where w1: "poll_ports pe t (ports_of cs tb cid) w0 = Some w1" "w_bridge w1 = b" "last_cleanup_ts w1 = Some ts"
      "ipackets (w_stats w1) = ipackets (w_stats w) + of_nat (length (polled pe t (ports_of cs tb cid)))"
    using poll_ports_run [of pe t "ports_of cs tb cid" w0 b] assms(4,5) w0 by auto
  have inv: "bridge_inv jh b"
    using run_keeps [OF assms(5,2,1)] .
  obtain k st where st: "flow_cleanup_expired (br_flows b) (Some (poll_now pe)) = Some (k, st)" "bridge_inv jh (b\<lparr>br_flows := st\<rparr>)"
    using expiry_keeps [OF inv, of "poll_now pe"] by blast
  have "lcore_job_recv_fwd pe t mx cs tb cid w = (if expiry_due pe w
      then Some (w1\<lparr>w_bridge := b\<lparr>br_flows := st\<rparr>, last_cleanup_ts := Some (poll_now pe)\<rparr>) else Some w1)"
    using assms(3) w1(1-3) st(1)
    by (simp add: lcore_job_recv_fwd_def w0_def [symmetric] ports_of_def [symmetric] expiry_due_def ts_def [symmetric] Let_def)
  then show ?thesis
    using w1 st inv by (cases "expiry_due pe w") auto
qed

text \<open>C9: A call of the polling job processes the packets that the queues of its core deliver, all of them, port by port and queue by
  queue, each once; it counts them, expires flows when ten seconds have passed since the last expiry and not otherwise, and keeps the invariant of
  the pipeline.\<close>

theorem recv_job_processes_polled:
  assumes "bridge_inv jh (w_bridge w)" and "list_all (arrival_ok jh) (polled pe t (ports_of cs tb cid))" and "lcore2index tb cid < mx"
    and "\<forall>p \<in> set (ports_of cs tb cid). pq_id p \<le> NETIF_MAX_PORTS"
    and "run_ops arrive (polled pe t (ports_of cs tb cid)) (w_bridge w) = Some b"
  shows "\<exists>w'. lcore_job_recv_fwd pe t mx cs tb cid w = Some w' \<and> bridge_inv jh (w_bridge w') \<and>
    ipackets (w_stats w') = ipackets (w_stats w) + of_nat (length (polled pe t (ports_of cs tb cid))) \<and>
    (if expiry_due pe w then \<exists>k st. flow_cleanup_expired (br_flows b) (Some (poll_now pe)) = Some (k, st) \<and> w_bridge w' = b\<lparr>br_flows := st\<rparr>
     else w_bridge w' = b)"
  by (rule recv_job_call [OF assms])

definition zero_stats :: netif_lcore_stats where
  "zero_stats = \<lparr>pktburst = 0, zpktburst = 0, fpktburst = 0, z2hpktburst = 0, h2fpktburst = 0, ipackets = 0, ibytes = 0, ls_dropped = 0, ls_errors = 0\<rparr>"

definition sample_poll :: poll_env where
  "sample_poll = \<lparr>rx_burst = (\<lambda>pid qid. if pid = 0 \<and> qid = 0 then [(sample_outside, udp_frame)] else []),
     poll_first = \<lparr>tv_sec = 5, tv_usec = 0\<rparr>, poll_now = \<lparr>tv_sec = 6, tv_usec = 0\<rparr>\<rparr>"

theorem recv_job_processes_polled_witness:
  "\<exists>w'. lcore_job_recv_fwd sample_poll small_ports 128 [lcore_of_queues 2 [0]] \<lparr>lcore2index = (\<lambda>_. 0), port2index = (\<lambda>_ _. 0)\<rparr> 2
      \<lparr>w_bridge = bridge_static sample_table pd_static, w_stats = zero_stats, last_cleanup_ts = None\<rparr> = Some w' \<and> ipackets (w_stats w') = 1"
proof -
  let ?tb = "\<lparr>lcore2index = (\<lambda>_. 0), port2index = (\<lambda>_ _. 0)\<rparr>"
  have reg: "registry small_ports [sample_port 0 [112]]"
    using registry_run [OF registry_init [of no_ports], of "[sample_port 0 [112]]"]
    by (simp add: small_ports_def sample_port_def named_def IFNAMSIZ_def refused_def)
  have get: "netif_port_get 0 small_ports = Some (Some (sample_port 0 [112]))"
    using registry_get [OF reg, of 0] by (simp add: sample_port_def)
  have ports: "ports_of [lcore_of_queues 2 [0]] ?tb 2 = pqs (lcore_of_queues 2 [0])"
    by (simp add: ports_of_def)
  have pl: "polled sample_poll small_ports (pqs (lcore_of_queues 2 [0])) = [(sample_outside, udp_frame)]"
    using get by (simp add: polled_def queues_polled_def lcore_of_queues_def sample_poll_def)
  obtain b where "process_packet sample_outside (Some (mbuf_of udp_frame)) (bridge_static sample_table pd_static) = Some (0, b)"
    using udp_processed [OF bridge_static_inv [OF sample_table_inv] udp_frame_decoded(2,3,1,4), of sample_outside pd_static] by blast
  then have run: "run_ops arrive [(sample_outside, udp_frame)] (bridge_static sample_table pd_static) = Some b"
    by (simp add: arrive_def)
  have ok: "arrival_ok (\<lambda>_. 5) (sample_outside, udp_frame)"
    using udp_frame_decoded(2,3) by (simp add: arrival_ok_def sample_outside_def)
  have pid: "\<forall>p \<in> set (pqs (lcore_of_queues 2 [0])). pq_id p \<le> NETIF_MAX_PORTS"
    by (simp add: lcore_of_queues_def)
  show ?thesis
    using recv_job_processes_polled [of "\<lambda>_. 5" "\<lparr>w_bridge = bridge_static sample_table pd_static, w_stats = zero_stats, last_cleanup_ts = None\<rparr>"
        sample_poll small_ports "[lcore_of_queues 2 [0]]" ?tb 2 128 b, unfolded ports pl] bridge_static_inv [OF sample_table_inv, of "\<lambda>_. 5" pd_static] ok pid run
    by (auto simp: zero_stats_def)
qed

text \<open>Calls as the operations of a machine.\<close>

definition poll_legal :: "(bytes \<Rightarrow> u32) \<Rightarrow> port_tables \<Rightarrow> nat \<Rightarrow> netif_lcore_conf list \<Rightarrow> lcore_tables \<Rightarrow> nat \<Rightarrow> poll_env \<Rightarrow> worker_state \<Rightarrow> bool" where
  "poll_legal jh t mx cs tb cid pe w \<longleftrightarrow> lcore2index tb cid < mx \<and> (\<forall>p \<in> set (ports_of cs tb cid). pq_id p \<le> NETIF_MAX_PORTS) \<and>
     list_all (arrival_ok jh) (polled pe t (ports_of cs tb cid)) \<and>
     run_ops arrive (polled pe t (ports_of cs tb cid)) (w_bridge w) \<noteq> None"

interpretation recv_job: guarded_machine "\<lambda>pe. lcore_job_recv_fwd pe t mx cs tb cid" "poll_legal jh t mx cs tb cid"
    "\<lambda>w. bridge_inv jh (w_bridge w)"
  for t mx cs tb cid jh
proof unfold_locales
  fix w pe
  assume "bridge_inv jh (w_bridge w)" and "poll_legal jh t mx cs tb cid pe w"
  then show "\<exists>w'. lcore_job_recv_fwd pe t mx cs tb cid w = Some w' \<and> bridge_inv jh (w_bridge w')"
    using recv_job_call [of jh w pe t cs tb cid mx] by (fastforce simp: poll_legal_def)
qed

lemma recv_runs_safe:
  "bridge_inv jh (w_bridge w) \<Longrightarrow> legal_run (\<lambda>pe. lcore_job_recv_fwd pe t mx cs tb cid) (poll_legal jh t mx cs tb cid) pes w \<Longrightarrow>
    \<exists>w'. run_ops (\<lambda>pe. lcore_job_recv_fwd pe t mx cs tb cid) pes w = Some w' \<and> bridge_inv jh (w_bridge w')"
  by (rule recv_job.run_safe)

section \<open>Starting a port\<close>

definition start_calls :: "netif_port \<Rightarrow> dev_call list" where
  "start_calls p = setup_calls p @ [Dev_set_mtu (np_id p) (np_mtu p), Dev_start (np_id p)]"

definition running :: "netif_port \<Rightarrow> bool" where
  "running p \<longleftrightarrow> np_flag p AND NETIF_PORT_FLAG_RUNNING \<noteq> 0"

lemma try_calls_cases:
  assumes "try_calls ret cs = (ok, made)"
  shows "if ok then made = cs \<and> (\<forall>c \<in> set cs. 0 \<le> ret c) else \<exists>rest. cs = made @ rest \<and> made \<noteq> [] \<and> ret (last made) < 0"
  using assms
proof (induction cs arbitrary: ok made)
  case (Cons c cs)
  obtain ok1 made1 where 1: "try_calls ret cs = (ok1, made1)"
    by fastforce
  show ?case
    using Cons.IH [OF 1] Cons.prems 1 by (cases ok1) (auto split: if_splits)
qed auto

lemma fill_keeps_running: "fill_port_config eb nrx ntx s p0 = Some (p, pr, al) \<Longrightarrow> running p = running p0"
proof -
  have "(x OR 0x2000) AND 2 = x AND (2 :: u16)" for x
    by (simp add: word_ao_dist)
  then show "fill_port_config eb nrx ntx s p0 = Some (p, pr, al) \<Longrightarrow> running p = running p0"
    by (auto simp: fill_port_config_def Let_def running_def port_flag_defs elim!: bind_Some_E split: option.splits prod.splits if_splits)
qed

lemma running_or: "running (p\<lparr>np_flag := np_flag p OR NETIF_PORT_FLAG_RUNNING\<rparr>)"
proof -
  have "bit ((np_flag p OR 2) AND (2 :: u16)) 1"
    by (simp add: bit_simps)
  then show ?thesis
    by (auto simp: running_def NETIF_PORT_FLAG_RUNNING_def)
qed

lemma start_calls_flag: "start_calls (p\<lparr>np_flag := f\<rparr>) = start_calls p"
  by (simp add: start_calls_def setup_calls_def)

lemma bring_up_order:
  assumes "bring_up se mx cs pr al p0 m = Some (r, Some p, m', calls)" and "\<not> running p0"
  shows "(running p \<longleftrightarrow> r = ENDF_OK) \<and>
    (if r = ENDF_OK then (\<forall>c \<in> set (start_calls p). 0 \<le> dev_ret se c) \<and> (\<exists>extra. calls = start_calls p @ extra)
     else \<exists>rest. start_calls p = calls @ rest)"
proof -
  obtain ok made where made: "try_calls (dev_ret se) (setup_calls p0) = (ok, made)"
    by fastforce
  have fail: "ENDF_DPDKAPIFAIL \<noteq> ENDF_OK"
    by (simp add: ENDF_DPDKAPIFAIL_def ENDF_OK_def)
  show ?thesis
  proof (cases ok)
    case False
    then have "p = p0" "r = ENDF_DPDKAPIFAIL" "calls = made"
      using assms(1) made by (auto simp: bring_up_def)
    then show ?thesis
      using try_calls_cases [OF made] False assms(2) fail by (auto simp: start_calls_def)
  next
    case True
    then have all: "made = setup_calls p0" "\<forall>c \<in> set (setup_calls p0). 0 \<le> dev_ret se c"
      using try_calls_cases [OF made] by auto
    show ?thesis
    proof (cases "dev_ret se (Dev_set_mtu (np_id p0) (np_mtu p0)) = ENDF_OK \<and> 0 \<le> dev_ret se (Dev_start (np_id p0)) \<and> r = ENDF_OK")
      case True
      then have p: "p = p0\<lparr>np_flag := np_flag p0 OR NETIF_PORT_FLAG_RUNNING\<rparr>" and "\<exists>extra. calls = start_calls p0 @ extra"
        using assms(1) made \<open>ok\<close> all(1) fail by (auto simp: bring_up_def start_calls_def Let_def elim!: bind_Some_E split: if_splits)
      moreover have "\<forall>c \<in> set (start_calls p0). 0 \<le> dev_ret se c"
        using all(2) True by (auto simp: start_calls_def ENDF_OK_def)
      ultimately show ?thesis
        using True running_or [of p0] by (simp add: p start_calls_flag)
    next
      case other: False
      have r: "r \<noteq> ENDF_OK" and "p = p0" and "\<exists>rest. start_calls p0 = calls @ rest"
        using assms(1) made \<open>ok\<close> all(1) fail other
        by (auto simp: bring_up_def start_calls_def Let_def elim!: bind_Some_E split: if_splits)
      then show ?thesis
        using assms(2) by simp
    qed
  qed
qed


definition sample_start :: start_env where
  "sample_start = \<lparr>dev_ret = (\<lambda>_. 0), info_get = (\<lambda>_. None), link_get = (\<lambda>i. (0, Some True)), reta_update = (\<lambda>_ _. True)\<rparr>"

definition queue_port :: netif_port where
  "queue_port = (sample_port 0 (str ''p0''))\<lparr>np_info := zero_info\<lparr>max_rx_queues := 1, max_tx_queues := 1\<rparr>\<rparr>"

definition no_map :: pql_map where
  "no_map = \<lparr>pm_pid = {}, pm_rx = (\<lambda>_ _. 0), pm_tx = (\<lambda>_ _. 0), netif_max_pid = 0, netif_max_qid = 0\<rparr>"

lemma one_queue_counts:
  "port_rx_queues_get 128 [lcore_of_queues 2 [0]] 0 = Some 1" "port_tx_queues_get 128 [lcore_of_queues 2 [0]] 0 = Some 1"
  by (simp_all add: port_rx_queues_get_def port_tx_queues_get_def active_def lcore_of_queues_def)

lemma one_queue_filled:
  "\<exists>p. fill_port_config sample_bits 1 1 (one_device (str ''p0'') (str ''ip | udp'')) queue_port = Some (p, False, False) \<and> n_rxq p = 1 \<and> n_txq p = 1
    \<and> np_id p = 0 \<and> np_info p = np_info queue_port"
proof -
  have n: "np_name queue_port = str ''p0''"
    by (simp add: queue_port_def sample_port_def)
  have z: "field_str (strncpy_field 32 (str ''ip | udp'')) = Some (str ''ip | udp'')"
    using strncpy_field_str [of "str ''ip | udp''" 32] by (simp_all add: field_str_def) (simp_all add: str_def)
  show ?thesis
    by (cases "rss_scan sample_bits (str ''ip | udp'') [] 0")
      (simp add: fill_port_config_def n sample_device_found z new_device_def Let_def queue_port_def sample_port_def)
qed

end
