(* ===== verification/Startup.thy ===== *)
theory Startup
  imports Timer_Wheel Netif_Load Netif_Loop
begin

text \<open>
  The start of the process (\<^verbatim>\<open>main.c\<close>, \<^verbatim>\<open>pidfile.c\<close>, the initialisation of \<^verbatim>\<open>timer.c\<close> and \<^verbatim>\<open>netif_init\<close>): the file that holds the process number,
  the arguments, the table of modules, and \<^verbatim>\<open>main\<close> over the models of everything it initialises. What \<^verbatim>\<open>getopt_long\<close>, \<^verbatim>\<open>kill\<close>, the file
  system and DPDK answer is given by parameters.
\<close>

section \<open>The file with the process number\<close>

type_synonym files = "bytes \<rightharpoonup> bytes"

definition pidfile_write :: "(bytes \<Rightarrow> bool) \<Rightarrow> bytes option \<Rightarrow> int \<Rightarrow> files \<Rightarrow> (int \<times> files) option" where
  "pidfile_write can_open pid_file pid fs = (case pid_file of
     None \<Rightarrow> None
   | Some f \<Rightarrow> if pid \<le> 0 then None
      else if \<not> can_open f then Some (0, fs)
      else Some (1, fs(f \<mapsto> show_dec (nat pid) @ [10])))"

definition pidfile_rm :: "bytes option \<Rightarrow> files \<Rightarrow> files" where
  "pidfile_rm pid_file fs = (case pid_file of None \<Rightarrow> fs | Some f \<Rightarrow> fs(f := None))"

text \<open>\<^verbatim>\<open>fscanf\<close> with one \<^verbatim>\<open>%d\<close>: no conversion, or a number, which is undefined when it is not an \<^verbatim>\<open>int\<close>.\<close>

definition scan_int :: "bytes \<Rightarrow> int option option" where
  "scan_int s = (let r = dropWhile c_isspace s in
     case (case r of [] \<Rightarrow> [] | b # t \<Rightarrow> if b = 45 \<or> b = 43 then t else r) of
       [] \<Rightarrow> Some None
     | b # _ \<Rightarrow> if 48 \<le> b \<and> b \<le> 57 then map_option Some (c_atoi s) else Some None)"

text \<open>\<open>alive\<close> tells whether \<^verbatim>\<open>kill\<close> with signal 0 succeeds.\<close>

definition netdefender_running :: "(bytes \<Rightarrow> bool) \<Rightarrow> (int \<Rightarrow> bool) \<Rightarrow> bytes \<Rightarrow> files \<Rightarrow> (bool \<times> files) option" where
  "netdefender_running can_open alive pid_file fs = (case fs pid_file of
     None \<Rightarrow> Some (False, fs)
   | Some s \<Rightarrow> if \<not> can_open pid_file then Some (False, fs)
      else do {
        r \<leftarrow> scan_int s;
        case r of
          None \<Rightarrow> Some (False, fs)
        | Some pid \<Rightarrow> Some (if alive pid then (True, fs) else (False, pidfile_rm (Some pid_file) fs)) })"

section \<open>Arguments\<close>

record app_args =
  netdefender_conf_file :: "bytes option"
  netdefender_pid_file :: "bytes option"
  netdefender_ipc_file :: "bytes option"
  g_version :: u32

text \<open>The options that \<^verbatim>\<open>getopt_long\<close> returns one after the other, each with its argument. \<^verbatim>\<open>-v\<close>, \<^verbatim>\<open>-h\<close> and unknown ones end the process.\<close>

fun app_options :: "(u8 \<times> bytes) list \<Rightarrow> app_args \<Rightarrow> app_args process" where
  "app_options [] a = Continues a"
| "app_options ((c, optarg) # opts) a =
    (if c = 99 then app_options opts (a\<lparr>netdefender_conf_file := Some optarg\<rparr>)
     else if c = 112 then app_options opts (a\<lparr>netdefender_pid_file := Some optarg\<rparr>)
     else if c = 120 then app_options opts (a\<lparr>netdefender_ipc_file := Some optarg\<rparr>)
     else Exits)"

definition or_default :: "bytes \<Rightarrow> bytes option \<Rightarrow> bytes option" where
  "or_default d f = (case f of None \<Rightarrow> Some d | Some _ \<Rightarrow> f)"

definition parse_app_args :: "bytes \<Rightarrow> bool \<Rightarrow> (u8 \<times> bytes) list \<Rightarrow> nat \<Rightarrow> bytes list \<Rightarrow> app_args \<Rightarrow> (int \<times> bytes list \<times> app_args) process option" where
  "parse_app_args version strdup_ok opts optind argv a = (case app_options opts a of
     Exits \<Rightarrow> Some Exits
   | Continues a1 \<Rightarrow> do {
       v \<leftarrow> version_parse version strdup_ok;
       Some (Continues (int optind - 1, if optind > 0 then argv[optind - 1 := hd argv] else argv,
         a1\<lparr>netdefender_conf_file := or_default (str ''/etc/netdefender.conf'') (netdefender_conf_file a1),
            netdefender_pid_file := or_default (str ''/var/run/netdefender.pid'') (netdefender_pid_file a1),
            netdefender_ipc_file := or_default (str ''/var/run/netdefender.ipc'') (netdefender_ipc_file a1),
            g_version := v\<rparr>)) })"

section \<open>Modules\<close>

text \<open>A module has a name and two functions, which may be missing.\<close>

record 's net_defender_module =
  mod_name :: bytes
  mod_init :: "('s \<Rightarrow> (int \<times> 's) process option) option"
  mod_term :: "('s \<Rightarrow> (int \<times> 's) process option) option"

fun run_modules :: "('s net_defender_module \<Rightarrow> ('s \<Rightarrow> (int \<times> 's) process option) option) \<Rightarrow> 's net_defender_module list \<Rightarrow> 's \<Rightarrow> 's process option" where
  "run_modules sel [] s = Some (Continues s)"
| "run_modules sel (m # ms) s = (case sel m of
     None \<Rightarrow> run_modules sel ms s
   | Some f \<Rightarrow> do {
       r \<leftarrow> f s;
       case r of
         Exits \<Rightarrow> Some Exits
       | Continues (err, s') \<Rightarrow> if err \<noteq> ENDF_OK then Some Exits else run_modules sel ms s' })"

definition modules_init :: "'s net_defender_module list \<Rightarrow> 's \<Rightarrow> 's process option" where
  "modules_init ms = run_modules mod_init ms"

definition modules_term :: "'s net_defender_module list \<Rightarrow> 's \<Rightarrow> 's process option" where
  "modules_term ms = run_modules mod_term (rev ms)"

section \<open>Timers of the cores\<close>

definition ENDF_DISABLED :: int where "ENDF_DISABLED = -18"

definition lcore_workers :: "lcore_env \<Rightarrow> nat list" where
  "lcore_workers e = filter (\<lambda>c. lcore_enabled e c \<and> c \<noteq> main_lcore e) [0..<max_lcore e]"

text \<open>\<open>mem\<close> tells which tables a core can allocate and \<open>reset\<close> whether its DPDK timer starts; the main core has the global timer.\<close>

definition timer_lcore_init :: "lcore_env \<Rightarrow> (nat \<Rightarrow> nat \<Rightarrow> bool) \<Rightarrow> (nat \<Rightarrow> bool) \<Rightarrow> nat \<Rightarrow> nat timer_scheduler \<Rightarrow> int \<times> nat timer_scheduler" where
  "timer_lcore_init e mem reset cid s =
    (if max_lcore e \<le> cid then (ENDF_OK, s)
     else if \<not> lcore_enabled e cid then (ENDF_DISABLED, s)
     else timer_init_scheduler (mem cid) (reset cid) s)"

definition timer_lcore_term :: "lcore_env \<Rightarrow> nat \<Rightarrow> nat timer_scheduler \<Rightarrow> (int \<times> nat timer_scheduler) option" where
  "timer_lcore_term e cid s =
    (if max_lcore e \<le> cid then Some (ENDF_OK, s)
     else if \<not> lcore_enabled e cid then Some (ENDF_DISABLED, s)
     else timer_term_scheduler s)"

record lcore_timers =
  timer_scheds :: "nat \<Rightarrow> nat timer_scheduler"
  g_timer_sched :: "nat timer_scheduler"

definition ndf_timer_init :: "lcore_env \<Rightarrow> (nat \<Rightarrow> nat \<Rightarrow> bool) \<Rightarrow> (nat \<Rightarrow> bool) \<Rightarrow> lcore_timers \<Rightarrow> int \<times> lcore_timers" where
  "ndf_timer_init e mem reset ts =
    (let ini = (\<lambda>c. timer_lcore_init e mem reset c (timer_scheds ts c));
         ts1 = ts\<lparr>timer_scheds := (\<lambda>c. if c \<in> set (lcore_workers e) then snd (ini c) else timer_scheds ts c)\<rparr> in
     case filter (\<lambda>err. err < 0) (map (\<lambda>c. fst (ini c)) (lcore_workers e)) of
       err # _ \<Rightarrow> (err, ts1)
     | [] \<Rightarrow> (let (err, g) = timer_init_scheduler (mem (main_lcore e)) (reset (main_lcore e)) (g_timer_sched ts1) in
         (err, ts1\<lparr>g_timer_sched := g\<rparr>)))"

text \<open>
  A core that is in its loop cannot be given another function, and waiting for it never ends: the result is not there. The result of each
  core is only logged.
\<close>

fun term_workers :: "lcore_env \<Rightarrow> nat list \<Rightarrow> lcore_timers \<Rightarrow> lcore_timers option" where
  "term_workers e [] ts = Some ts"
| "term_workers e (c # cs) ts = do {
     (err, s) \<leftarrow> timer_lcore_term e c (timer_scheds ts c);
     term_workers e cs (ts\<lparr>timer_scheds := (timer_scheds ts)(c := s)\<rparr>) }"

definition ndf_timer_term :: "lcore_env \<Rightarrow> (nat \<Rightarrow> bool) \<Rightarrow> lcore_timers \<Rightarrow> (int \<times> lcore_timers) option" where
  "ndf_timer_term e busy ts =
    (if \<exists>c \<in> set (lcore_workers e). busy c then None
     else do {
       ts1 \<leftarrow> term_workers e (lcore_workers e) ts;
       (err, g) \<leftarrow> timer_term_scheduler (g_timer_sched ts1);
       Some (err, ts1\<lparr>g_timer_sched := g\<rparr>) })"

section \<open>The system\<close>

record 'd ndf_system =
  ny_files :: files
  ny_args :: app_args
  ny_cfg :: "'d cfg_system"
  ny_data :: lcore_data
  ny_timers :: lcore_timers
  ny_ports :: port_tables
  ny_lcores :: lcore_state
  ny_tables :: lcore_tables
  ny_interval :: int
  ny_map :: pql_map
  ny_calls :: "dev_call list"
  ny_bridge :: bridge

text \<open>Everything outside.\<close>

record 'd boot_env =
  be_opts :: "(u8 \<times> bytes) list"
  be_optind :: nat
  be_argv :: "bytes list"
  be_version :: bytes
  be_strdup :: bool
  be_can_open :: "bytes \<Rightarrow> bool"
  be_alive :: "int \<Rightarrow> bool"
  be_getpid :: int
  numa_nodes :: int
  eal_init :: "bytes list \<Rightarrow> int"
  be_fuel :: nat
  be_files :: "('d, netif_conf) cfg_env"
  be_sigaction :: bool
  be_reload_job :: nat
  be_jobs :: "nat list"
  pool_create :: "bytes \<Rightarrow> int \<Rightarrow> int \<Rightarrow> bool"
  be_rte :: rte_env
  be_eth :: eth_env
  be_lcore :: lcore_env
  be_timer_mem :: "nat \<Rightarrow> nat \<Rightarrow> bool"
  be_timer_reset :: "nat \<Rightarrow> bool"
  be_start :: "nat \<Rightarrow> start_env"
  be_bits :: eth_bits
  be_flow_table :: bool

definition boot_lcore :: "'d boot_env \<Rightarrow> lcore_env" where
  "boot_lcore e = (be_lcore e)\<lparr>eth_count := dev_count (be_eth e)\<rparr>"

definition netif_pktmbuf_pool_init :: "(bytes \<Rightarrow> int \<Rightarrow> int \<Rightarrow> bool) \<Rightarrow> int \<Rightarrow> netif_conf \<Rightarrow> bool" where
  "netif_pktmbuf_pool_init create nodes s \<longleftrightarrow>
     list_all (\<lambda>i. create (take 31 (str ''mbuf_pool_'' @ show_dec i)) (netif_pktpool_nb_mbuf s) (netif_pktpool_mbuf_cache s)) [0..<nat nodes]"

definition netif_init :: "'d boot_env \<Rightarrow> 'd ndf_system \<Rightarrow> (int \<times> 'd ndf_system) process option" where
  "netif_init e s =
    (if \<not> netif_pktmbuf_pool_init (pool_create e) (numa_nodes e) (cs_conf (ny_cfg s)) then Some Exits
     else do {
       r \<leftarrow> netif_port_init (lc_env (be_lcore e)) (be_eth e) (cs_conf (ny_cfg s)) (ny_ports s);
       case r of
         Exits \<Rightarrow> Some Exits
       | Continues (conf, t) \<Rightarrow> do {
           r2 \<leftarrow> netif_lcore_init (boot_lcore e) t (be_jobs e) (g_sched_interval conf)
             \<lparr>ls_state = ny_lcores s, ls_tables = ny_tables s, ls_data = ny_data s, ls_workers = worker_list conf,
              ls_sched = cs_sched (ny_cfg s), timer_sched_interval_us = ny_interval s\<rparr>;
           case r2 of
             Exits \<Rightarrow> Some Exits
           | Continues l \<Rightarrow> Some (Continues (ENDF_OK,
               s\<lparr>ny_cfg := (ny_cfg s)\<lparr>cs_conf := conf\<lparr>worker_list := ls_workers l\<rparr>, cs_sched := ls_sched l\<rparr>, ny_data := ls_data l, ny_ports := t,
                 ny_lcores := ls_state l, ny_tables := ls_tables l, ny_interval := timer_sched_interval_us l\<rparr>)) } })"

abbreviation never_exits :: "('s \<Rightarrow> (int \<times> 's) option) \<Rightarrow> 's \<Rightarrow> (int \<times> 's) process option" where
  "never_exits f \<equiv> \<lambda>s. map_option Continues (f s)"

text \<open>The functions of the table on the whole system. \<open>busy\<close> are the cores that are in their loops.\<close>

definition sys_scheduler_init :: "'d ndf_system \<Rightarrow> (int \<times> 'd ndf_system) option" where
  "sys_scheduler_init s = map_option (\<lambda>(r, q). (r, s\<lparr>ny_cfg := (ny_cfg s)\<lparr>cs_sched := q\<rparr>\<rparr>)) (ndf_scheduler_init (cs_sched (ny_cfg s)))"

definition sys_timer_init :: "'d boot_env \<Rightarrow> 'd ndf_system \<Rightarrow> int \<times> 'd ndf_system" where
  "sys_timer_init e s = (let (r, ts) = ndf_timer_init (be_lcore e) (be_timer_mem e) (be_timer_reset e) (ny_timers s) in (r, s\<lparr>ny_timers := ts\<rparr>))"

definition sys_cfgfile_init :: "'d boot_env \<Rightarrow> 'd ndf_system \<Rightarrow> (int \<times> 'd ndf_system) option" where
  "sys_cfgfile_init e s = do {
     f \<leftarrow> netdefender_conf_file (ny_args s);
     (r, c) \<leftarrow> cfgfile_init (be_fuel e) (be_files e) f (be_sigaction e) (be_reload_job e) (ny_cfg s);
     Some (r, s\<lparr>ny_cfg := c\<rparr>) }"

definition sys_timer_term :: "'d boot_env \<Rightarrow> (nat \<Rightarrow> bool) \<Rightarrow> 'd ndf_system \<Rightarrow> (int \<times> 'd ndf_system) option" where
  "sys_timer_term e busy s = map_option (\<lambda>(r, ts). (r, s\<lparr>ny_timers := ts\<rparr>)) (ndf_timer_term (be_lcore e) busy (ny_timers s))"

definition sys_cfgfile_term :: "'d boot_env \<Rightarrow> 'd ndf_system \<Rightarrow> (int \<times> 'd ndf_system) option" where
  "sys_cfgfile_term e s = map_option (\<lambda>(r, c). (r, s\<lparr>ny_cfg := c\<rparr>)) (cfgfile_term (be_reload_job e) (ny_cfg s))"

definition net_defender_modules :: "'d boot_env \<Rightarrow> (nat \<Rightarrow> bool) \<Rightarrow> 'd ndf_system net_defender_module list" where
  "net_defender_modules e busy =
    [\<lparr>mod_name = str ''scheduler'', mod_init = Some (never_exits sys_scheduler_init), mod_term = Some (\<lambda>s. Some (Continues (ENDF_OK, s)))\<rparr>,
     \<lparr>mod_name = str ''global data'', mod_init = Some (\<lambda>s. Some (Continues (ENDF_OK, s\<lparr>ny_data := global_data_init (max_lcore (be_lcore e))\<rparr>))),
       mod_term = Some (\<lambda>s. Some (Continues (ENDF_OK, s)))\<rparr>,
     \<lparr>mod_name = str ''timer'', mod_init = Some (\<lambda>s. Some (Continues (sys_timer_init e s))), mod_term = Some (never_exits (sys_timer_term e busy))\<rparr>,
     \<lparr>mod_name = str ''config file'', mod_init = Some (never_exits (sys_cfgfile_init e)), mod_term = Some (never_exits (sys_cfgfile_term e))\<rparr>,
     \<lparr>mod_name = str ''netif'', mod_init = Some (netif_init e), mod_term = Some (\<lambda>s. Some (Continues (ENDF_OK, s)))\<rparr>,
     \<lparr>mod_name = str ''last'', mod_init = None, mod_term = None\<rparr>]"

section \<open>The pipeline and the ports\<close>

definition flow_hash_size :: u32 where "flow_hash_size = 65536"

definition boot_stream_cfg :: stream_config where
  "boot_stream_cfg = \<lparr>cfg_max_buffer_size = 256 * 1024, cfg_max_segments = 100, cfg_default_policy = OS_POLICY_LINUX\<rparr>"

definition boot_proto_cfg :: proto_detect_config where
  "boot_proto_cfg = \<lparr>max_inspect_depth = 4096, enable_port_detection = True, enable_pattern_matching = True, enable_probing_parsers = True\<rparr>"

definition pipeline_init :: "bool \<Rightarrow> rte_env \<Rightarrow> bridge \<Rightarrow> bridge process option" where
  "pipeline_init table_ok env b =
    (let (r, fl) = flow_init (br_flows b) table_ok flow_hash_size 1000000 in
     if r \<noteq> 0 then Some Exits
     else let (r2, g) = stream_reassemble_init (freasm fl) (Some boot_stream_cfg) in
       if r2 \<noteq> 0 then Some Exits
       else do {
         (r3, d) \<leftarrow> proto_detect_init env (Some boot_proto_cfg) (br_detect b);
         if r3 \<noteq> 0 then Some Exits
         else Some (Continues (b\<lparr>br_flows := fl\<lparr>freasm := g\<rparr>, br_detect := d\<rparr>)) })"

text \<open>A port is one object that both tables refer to.\<close>

definition store_port :: "netif_port \<Rightarrow> port_tables \<Rightarrow> port_tables" where
  "store_port p t = (let upd = (\<lambda>ps. map (\<lambda>q. if np_id q = np_id p then p else q) ps) in
     t\<lparr>port_tab := (\<lambda>i. upd (port_tab t i)), port_ntab := (\<lambda>i. upd (port_ntab t i))\<rparr>)"

fun start_ports :: "'d boot_env \<Rightarrow> nat list \<Rightarrow> 'd ndf_system \<Rightarrow> 'd ndf_system process option" where
  "start_ports e [] s = Some (Continues s)"
| "start_ports e (pid # pids) s = do {
     dev \<leftarrow> netif_port_get pid (ny_ports s);
     case dev of
       None \<Rightarrow> start_ports e pids s
     | Some p \<Rightarrow> do {
         r \<leftarrow> netif_port_start (be_start e pid) (be_bits e) (max_lcore (be_lcore e)) (lcore_conf (ny_lcores s)) (cs_conf (ny_cfg s)) (Some p) (ny_map s);
         case r of
           Exits \<Rightarrow> Some Exits
         | Continues (err, q, m, calls) \<Rightarrow> start_ports e pids (s\<lparr>ny_ports := (case q of None \<Rightarrow> ny_ports s | Some q \<Rightarrow> store_port q (ny_ports s)),
             ny_map := m, ny_calls := ny_calls s @ calls\<rparr>) } }"

section \<open>The main function\<close>

definition netdefender_state_set :: "netdefender_state \<Rightarrow> 'd ndf_system \<Rightarrow> 'd ndf_system" where
  "netdefender_state_set st s = s\<lparr>ny_cfg := (ny_cfg s)\<lparr>cs_kw := (cs_kw (ny_cfg s))\<lparr>g_state := st\<rparr>\<rparr>\<rparr>"

text \<open>Up to the start of the cores.\<close>

definition boot_system :: "'d boot_env \<Rightarrow> 'd ndf_system \<Rightarrow> 'd ndf_system process option" where
  "boot_system e s = do {
     r \<leftarrow> modules_init (net_defender_modules e (\<lambda>_. False)) s;
     case r of
       Exits \<Rightarrow> Some Exits
     | Continues s1 \<Rightarrow> do {
         r2 \<leftarrow> pipeline_init (be_flow_table e) (be_rte e) (ny_bridge s1);
         case r2 of
           Exits \<Rightarrow> Some Exits
         | Continues b \<Rightarrow> start_ports e [0..<dev_count (be_eth e)] (s1\<lparr>ny_bridge := b\<rparr>) } }"

text \<open>The end of the function; the cores keep running.\<close>

definition looping :: "lcore_data \<Rightarrow> nat \<Rightarrow> bool" where
  "looping d c \<longleftrightarrow> g_lcore_role d ! c \<noteq> LCORE_ROLE_IDLE \<and> g_lcore_role d ! c \<noteq> LCORE_ROLE_MAX"

definition main_end :: "'d boot_env \<Rightarrow> 'd ndf_system \<Rightarrow> 'd ndf_system process option" where
  "main_end e s0 = (let s = netdefender_state_set NET_DEFENDER_STATE_FINISH s0 in do {
     fl \<leftarrow> flow_cleanup (br_flows (ny_bridge s));
     modules_term (net_defender_modules e (looping (ny_data s))) (s\<lparr>ny_bridge := (ny_bridge s)\<lparr>br_flows := fl\<rparr>\<rparr>) })"

datatype 's run_result = Quits | Serves 's | Ends "'s process"

text \<open>A core whose role is neither idle nor missing never leaves its loop: then the system serves.\<close>

definition ndf_main :: "'d boot_env \<Rightarrow> 'd ndf_system \<Rightarrow> 'd ndf_system run_result option" where
  "ndf_main e s = do {
     r \<leftarrow> parse_app_args (be_version e) (be_strdup e) (be_opts e) (be_optind e) (be_argv e) (ny_args s);
     case r of
       Exits \<Rightarrow> Some Quits
     | Continues (err, argv, a) \<Rightarrow>
        if err < 0 then Some Quits
        else do {
          f \<leftarrow> netdefender_pid_file a;
          (run, fs) \<leftarrow> netdefender_running (be_can_open e) (be_alive e) f (ny_files s);
          if run then Some Quits
          else let s1 = netdefender_state_set NET_DEFENDER_STATE_INIT (s\<lparr>ny_args := a, ny_files := fs\<rparr>) in
            if numa_nodes e > int (NDF_MAX_SOCKET (be_eth e)) then Some Quits
            else if eal_init e (drop (nat err) argv) < 0 then Some Quits
            else do {
              r2 \<leftarrow> boot_system e s1;
              case r2 of
                Exits \<Rightarrow> Some Quits
              | Continues s2 \<Rightarrow> do {
                  (wr, fs2) \<leftarrow> pidfile_write (be_can_open e) (Some f) (be_getpid e) (ny_files s2);
                  let s3 = s2\<lparr>ny_files := fs2\<rparr>;
                  if wr = 0 then map_option Ends (main_end e s3)
                  else let s4 = netdefender_state_set NET_DEFENDER_STATE_NORMAL s3 in
                    if looping (ny_data s4) (main_lcore (be_lcore e)) then Some (Serves s4) else map_option Ends (main_end e s4) } } } }"

section \<open>One instance at a time\<close>

lemma atoi_line: "n < 2 ^ 31 \<Longrightarrow> c_atoi (show_dec n @ [10]) = Some (int n)"
proof -
  assume n: "n < 2 ^ 31"
  obtain b r where b: "show_dec n = b # r"
    using show_dec_nonempty [of n] by (cases "show_dec n") auto
  then have "\<not> c_isspace b" "b \<noteq> 45" "b \<noteq> 43"
    using show_dec_digits [of n] unfolding c_isspace_def by (auto simp: all_digits_def word_le_nat_alt)
  moreover have "digits_val (b # r @ [10]) 0 = n"
    using digits_val_append [OF show_dec_digits, of n "[10]" 0] digits_val_show [of n] by (simp add: b)
  ultimately show ?thesis
    using n by (simp add: c_atoi_def b Let_def)
qed

lemma scan_written: "0 < pid \<Longrightarrow> pid < 2 ^ 31 \<Longrightarrow> scan_int (show_dec (nat pid) @ [10]) = Some (Some pid)"
proof -
  assume pid: "0 < pid" "pid < 2 ^ 31"
  obtain b r where b: "show_dec (nat pid) = b # r"
    using show_dec_nonempty [of "nat pid"] by (cases "show_dec (nat pid)") auto
  then have "\<not> c_isspace b" "b \<noteq> 45" "b \<noteq> 43" "48 \<le> b \<and> b \<le> 57"
    using show_dec_digits [of "nat pid"] unfolding c_isspace_def by (auto simp: all_digits_def word_le_nat_alt)
  then show ?thesis
    using atoi_line [of "nat pid"] pid by (simp add: scan_int_def b Let_def)
qed

lemma written_file:
  assumes "pidfile_write can_open (Some f) pid fs = Some (1, fs')" and "pid < 2 ^ 31" and "can_open' f"
  shows "netdefender_running can_open' alive f fs' = Some (if alive pid then (True, fs') else (False, fs'(f := None)))"
proof -
  have "fs' f = Some (show_dec (nat pid) @ [10])" "0 < pid"
    using assms(1) by (auto simp: pidfile_write_def split: if_splits)
  then show ?thesis
    using scan_written [of pid] assms(2,3) by (simp add: netdefender_running_def pidfile_rm_def)
qed


section \<open>Arguments that are left for DPDK\<close>

lemma eal_arguments:
  assumes "parse_app_args version ok opts optind argv a = Some (Continues (err, argv', a'))" and "0 < optind" and "optind \<le> length argv"
  shows "drop (nat err) argv' = hd argv # drop optind argv"
proof -
  have "argv' = argv[optind - 1 := hd argv]" "err = int optind - 1"
    using assms(1,2) by (auto simp: parse_app_args_def bind_eq_Some_conv split: process.splits)
  moreover have "nat (int optind - 1) = optind - 1"
    by simp
  ultimately show ?thesis
    using assms(2,3) Cons_nth_drop_Suc [of "optind - 1" "argv[optind - 1 := hd argv]"] by simp
qed

section \<open>A system that serves\<close>

lemma flow_init_reasm: "flow_init (st\<lparr>freasm := g\<rparr>) ok hs mf = (let (r, fl) = flow_init st ok hs mf in (r, fl\<lparr>freasm := g\<rparr>))"
  by (simp add: flow_init_def Let_def)

lemma pipeline_ready:
  assumes "pipeline_init ok env (bridge_static st g) = Some (Continues b)" and "fheap st = Map.empty"
  shows "bridge_inv jh b"
proof -
  obtain fl d where fl: "flow_init st ok flow_hash_size 1000000 = (0, fl)"
    and b: "b = bridge_static (fl\<lparr>freasm := (freasm fl)\<lparr>reasm.global_config := boot_stream_cfg\<rparr>\<rparr>) d"
    using assms(1) by (auto simp: pipeline_init_def bridge_static_def stream_reassemble_init_def Let_def bind_eq_Some_conv split: prod.splits if_splits)
  let ?g = "(freasm fl)\<lparr>reasm.global_config := boot_stream_cfg\<rparr>"
  have i: "flow_init (st\<lparr>freasm := ?g\<rparr>) ok flow_hash_size 1000000 = (0, fl\<lparr>freasm := ?g\<rparr>)"
    by (simp add: flow_init_reasm fl)
  have "flow_inv (fl\<lparr>freasm := ?g\<rparr>)"
    by (rule flow_init_inv [OF i]) (simp_all add: assms(2) boot_stream_cfg_def)
  moreover have "fheap (fl\<lparr>freasm := ?g\<rparr>) = Map.empty"
    using fl assms(2) by (auto simp: flow_init_def Let_def split: if_splits)
  ultimately show ?thesis
    unfolding b by (rule bridge_static_inv)
qed

lemma process_bind:
  "Option.bind x (case_process (Some Exits) f) = Some (Continues y) \<longleftrightarrow> (\<exists>a. x = Some (Continues a) \<and> f a = Some (Continues y))"
  by (cases x; cases "the x") auto

lemma run_modules_keep:
  assumes "\<And>m f s s' r. m \<in> set ms \<Longrightarrow> sel m = Some f \<Longrightarrow> f s = Some (Continues (r, s')) \<Longrightarrow> P s' = P s"
  shows "run_modules sel ms s = Some (Continues s') \<Longrightarrow> P s' = P s"
  using assms
proof (induction ms arbitrary: s)
  case (Cons m ms)
  show ?case
  proof (cases "sel m")
    case (Some f)
    obtain r s1 where "f s = Some (Continues (r, s1))" "run_modules sel ms s1 = Some (Continues s')"
      using Cons.prems(1) Some by (auto simp: process_bind split: prod.splits if_splits)
    then show ?thesis
      using Cons.IH [of s1] Cons.prems(2) [of m f s r s1] Cons.prems(2) Some by (metis list.set_intros)
  next
    case None
    then have "run_modules sel ms s = Some (Continues s')"
      using Cons.prems(1) by simp
    then show ?thesis
      using Cons.IH Cons.prems(2) by (meson list.set_intros(2))
  qed
qed simp

text \<open>What the initialisation of the modules leaves alone.\<close>

abbreviation untouched :: "'d ndf_system \<Rightarrow> files \<times> app_args \<times> bridge" where
  "untouched s \<equiv> (ny_files s, ny_args s, ny_bridge s)"

lemma netif_init_untouched: "netif_init e s = Some (Continues (r, s')) \<Longrightarrow> untouched s' = untouched s"
  by (auto simp: netif_init_def process_bind split: if_splits prod.splits)

lemma modules_untouched:
  assumes "modules_init (net_defender_modules e busy) s = Some (Continues s')"
  shows "untouched s' = untouched s"
proof (rule run_modules_keep [where P = untouched])
  show "run_modules mod_init (net_defender_modules e busy) s = Some (Continues s')"
    using assms by (simp add: modules_init_def)
next
  fix m f s s' r
  assume "m \<in> set (net_defender_modules e busy)" and "mod_init m = Some f" and "f s = Some (Continues (r, s'))"
  then show "untouched s' = untouched s"
    using netif_init_untouched [of e s r s']
    by (auto simp: net_defender_modules_def sys_scheduler_init_def sys_timer_init_def sys_cfgfile_init_def bind_eq_Some_conv split: prod.splits)
qed

lemma start_ports_untouched: "start_ports e pids s = Some (Continues s') \<Longrightarrow> untouched s' = untouched s"
proof (induction pids arbitrary: s)
  case (Cons pid pids)
  show ?case
  proof -
    obtain dev where dev: "netif_port_get pid (ny_ports s) = Some dev"
      using Cons.prems by (cases "netif_port_get pid (ny_ports s)") simp_all
    show ?thesis
    proof (cases dev)
      case (Some p)
      then show ?thesis
        using Cons dev by (auto simp: process_bind split: prod.splits)
    qed (use Cons dev in simp)
  qed
qed simp

lemma boot_ready:
  assumes "boot_system e s = Some (Continues s')" and "ny_bridge s = bridge_static st g" and "fheap st = Map.empty"
  shows "bridge_inv jh (ny_bridge s') \<and> ny_files s' = ny_files s \<and> ny_args s' = ny_args s"
proof -
  obtain s1 b where s1: "modules_init (net_defender_modules e (\<lambda>_. False)) s = Some (Continues s1)"
      "pipeline_init (be_flow_table e) (be_rte e) (ny_bridge s1) = Some (Continues b)"
      "start_ports e [0..<dev_count (be_eth e)] (s1\<lparr>ny_bridge := b\<rparr>) = Some (Continues s')"
    using assms(1) by (auto simp: boot_system_def process_bind)
  show ?thesis
    using modules_untouched [OF s1(1)] start_ports_untouched [OF s1(3)] pipeline_ready [of "be_flow_table e" "be_rte e" st g b jh] s1(2) assms(2,3)
    by simp
qed

lemma serve_bind:
  "Option.bind x (case_process (Some Quits) f) = Some (Serves y) \<longleftrightarrow> (\<exists>a. x = Some (Continues a) \<and> f a = Some (Serves y))"
  by (cases x; cases "the x") auto

lemma map_Ends: "map_option Ends x = Some (Serves y) \<longleftrightarrow> False"
  by (cases x) simp_all

lemma state_set_simps [simp]:
  "untouched (netdefender_state_set q s) = untouched s" "g_state (cs_kw (ny_cfg (netdefender_state_set q s))) = q"
  "ny_data (netdefender_state_set q s) = ny_data s"
  by (simp_all add: netdefender_state_set_def)

lemma serves_ready:
  assumes "ndf_main e s = Some (Serves s')" and "ny_bridge s = bridge_static st g" and "fheap st = Map.empty"
  shows "bridge_inv jh (ny_bridge s') \<and> g_state (cs_kw (ny_cfg s')) = NET_DEFENDER_STATE_NORMAL \<and>
    (\<exists>f. netdefender_pid_file (ny_args s') = Some f \<and> ny_files s' f = Some (show_dec (nat (be_getpid e)) @ [10]))"
proof -
  obtain a f fs s2 wr fs2 where
      f: "netdefender_pid_file a = Some f"
    and s2: "boot_system e (netdefender_state_set NET_DEFENDER_STATE_INIT (s\<lparr>ny_args := a, ny_files := fs\<rparr>)) = Some (Continues s2)"
    and w: "pidfile_write (be_can_open e) (Some f) (be_getpid e) (ny_files s2) = Some (wr, fs2)" "wr \<noteq> 0"
    and s': "s' = netdefender_state_set NET_DEFENDER_STATE_NORMAL (s2\<lparr>ny_files := fs2\<rparr>)"
    using assms(1) by (auto simp: ndf_main_def serve_bind map_Ends Let_def elim!: bind_Some_E split: prod.splits if_splits)
  have "bridge_inv jh (ny_bridge s2) \<and> ny_args s2 = a"
    using boot_ready [OF s2, of st g jh] assms(2,3) by (simp add: netdefender_state_set_def)
  moreover have "fs2 f = Some (show_dec (nat (be_getpid e)) @ [10])"
    using w by (auto simp: pidfile_write_def split: if_splits)
  ultimately show ?thesis
    using f by (auto simp: s' netdefender_state_set_def)
qed


section \<open>A system that comes up\<close>

text \<open>Four cores, the main core 0, one device, and a file with a master on core 0 and a worker on core 2 that has queue 0 of the device.\<close>

definition boot_conf :: conf_spec where
  "boot_conf = sample_conf\<lparr>fs_workers := [\<lparr>ws_name = str ''cpu0'', ws_type = str ''master'', ws_cpu = 0, ws_ports = []\<rparr>,
     \<lparr>ws_name = str ''cpu1'', ws_type = str ''slave'', ws_cpu = 2, ws_ports = [\<lparr>ps_name = str ''dpdk0'', ps_rx = [0], ps_tx = [0]\<rparr>]\<rparr>]\<rparr>"

definition boot_sample :: "unit boot_env" where
  "boot_sample = \<lparr>be_opts = [], be_optind = 1, be_argv = [str ''nids''], be_version = [], be_strdup = True, be_can_open = (\<lambda>_. True),
     be_alive = (\<lambda>_. False), be_getpid = 77, numa_nodes = 1, eal_init = (\<lambda>_. 0), be_fuel = 100,
     be_files = one_file (lc_env small_env) (print_items (conf_items boot_conf)), be_sigaction = True, be_reload_job = 20, be_jobs = [],
     pool_create = (\<lambda>_ _ _. True), be_rte = all_ok_env,
     be_eth = sample_eth\<lparr>dev_info_get := (\<lambda>_. Some (zero_info\<lparr>max_rx_queues := 16, max_tx_queues := 16\<rparr>))\<rparr>, be_lcore = small_env,
     be_timer_mem = (\<lambda>_ _. True), be_timer_reset = (\<lambda>_. True), be_start = (\<lambda>_. sample_start\<lparr>dev_ret := (\<lambda>_. -1)\<rparr>), be_bits = sample_bits,
     be_flow_table = True\<rparr>"

definition start_system :: "unit ndf_system" where
  "start_system = \<lparr>ny_files = Map.empty, ny_args = \<lparr>netdefender_conf_file = None, netdefender_pid_file = None, netdefender_ipc_file = None, g_version = 0\<rparr>,
     ny_cfg = \<lparr>g_reload = False, cs_kw = \<lparr>g_keywords = [], g_sublevel = 0, g_state = NET_DEFENDER_STATE_STOP\<rparr>, cs_dir = (), cs_conf = start_conf,
       cs_sched = sample_scheduler\<rparr>, ny_data = global_data_init 4, ny_timers = \<lparr>timer_scheds = (\<lambda>_. sched_zero False), g_timer_sched = sched_zero True\<rparr>,
     ny_ports = no_ports, ny_lcores = no_lcores, ny_tables = \<lparr>lcore2index = (\<lambda>_. 0), port2index = (\<lambda>_ _. 0)\<rparr>, ny_interval = 0, ny_map = no_map,
     ny_calls = [], ny_bridge = bridge_static sample_table pd_static\<rparr>"

lemma boot_conf_ok: "conf_spec_ok boot_conf"
proof -
  have "name_ok (str ''dpdk0'')" "name_ok (str ''cpu0'')" "name_ok (str ''cpu1'')"
    by (simp_all add: name_ok_def plain_word_def str_simps c_isspace_def QUOTE_def)
  then show ?thesis
    using sample_conf_ok by (simp add: boot_conf_def conf_spec_ok_def worker_spec_ok_def port_spec_ok_def sample_conf_def)
qed

lemma boot_fuel: "length (conf_items boot_conf) + items_fuel (conf_items boot_conf) < 100"
  by (simp add: conf_items_def boot_conf_def sample_conf_def dev_item_def worker_item_def port_item_def)

lemma boot_file_loaded:
  assumes "g_sublevel k = 0" and "g_state k = NET_DEFENDER_STATE_INIT"
  shows "load_conf_file 100 (be_files boot_sample) cfg def_file k ((), s) = Some (k\<lparr>g_keywords := []\<rparr>, (), conf_of boot_conf s)"
  using load_printed_conf [OF boot_conf_ok _ assms boot_fuel, of "lc_env small_env" cfg def_file s]
  by (simp add: boot_sample_def small_env_def sample_netif_env_def)

text \<open>The scheduler and the job of the configuration file.\<close>

lemma reload_registered:
  assumes "sched_rel q (\<lambda>_. [])" and "jobs q = sample_jobs"
  shows "\<exists>q'. ndf_lcore_job_register (Some 20) LCORE_ROLE_MASTER q = Some (ENDF_OK, q')"
proof -
  have "queue_legal (jobs q) (Register (Some 20) LCORE_ROLE_MASTER) (\<lambda>_. [])"
    "fst (queue_step (jobs q) (Register (Some 20) LCORE_ROLE_MASTER) (\<lambda>_. [])) = ENDF_OK"
    unfolding assms(2) by (simp_all add: sample_sched_defs)
  then show ?thesis
    using register_refines [OF assms(1), of "Some 20" LCORE_ROLE_MASTER] by auto
qed

lemma boot_cfgfile:
  assumes "netdefender_conf_file (ny_args s) = Some f" and "cs_kw (ny_cfg s) = start_kw" and "sched_rel (cs_sched (ny_cfg s)) (\<lambda>_. [])"
    and "jobs (cs_sched (ny_cfg s)) = sample_jobs"
  shows "\<exists>c. sys_cfgfile_init boot_sample s = Some (ENDF_OK, s\<lparr>ny_cfg := c\<rparr>) \<and> cs_conf c = conf_of boot_conf (netif_cfgfile_init (cs_conf (ny_cfg s)))"
proof -
  obtain q where q: "ndf_lcore_job_register (Some 20) LCORE_ROLE_MASTER (cs_sched (ny_cfg s)) = Some (ENDF_OK, q)"
    using reload_registered [OF assms(3,4)] by blast
  have b: "be_fuel boot_sample = 100" "be_sigaction boot_sample" "be_reload_job boot_sample = 20"
    by (simp_all add: boot_sample_def)
  have "load_conf_file 100 (be_files boot_sample) None f (cs_kw (ny_cfg s)) (cs_dir (ny_cfg s), netif_cfgfile_init (cs_conf (ny_cfg s)))
      = Some (start_kw, (), conf_of boot_conf (netif_cfgfile_init (cs_conf (ny_cfg s))))"
    using boot_file_loaded [of start_kw None f "netif_cfgfile_init (cs_conf (ny_cfg s))"] by (simp add: assms(2) start_kw_def)
  then show ?thesis
    using q by (intro exI [of _ "(ny_cfg s)\<lparr>g_reload := False, cs_kw := start_kw, cs_dir := (),
      cs_conf := conf_of boot_conf (netif_cfgfile_init (cs_conf (ny_cfg s))), cs_sched := q\<rparr>"])
      (simp add: sys_cfgfile_init_def assms(1) b cfgfile_init_def try_reload_def Let_def)
qed

text \<open>The timers of the cores.\<close>

lemma timer_inits: "fst (timer_init_scheduler (\<lambda>_. True) True s) = ENDF_OK"
  by (simp add: timer_init_scheduler_def LEVEL_DEPTH_def numeral_2_eq_2 Let_def ENDF_OK_def)

lemma boot_timers: "\<exists>ts. sys_timer_init boot_sample s = (ENDF_OK, s\<lparr>ny_timers := ts\<rparr>)"
proof -
  have none: "filter (\<lambda>err. err < 0) (map (\<lambda>c. fst (timer_lcore_init small_env (\<lambda>_ _. True) (\<lambda>_. True) c (timer_scheds ts c))) (lcore_workers small_env)) = []" for ts
    by (auto simp: timer_inits timer_lcore_init_def filter_empty_conv ENDF_OK_def ENDF_DISABLED_def lcore_workers_def small_env_def)
  have "fst (ndf_timer_init small_env (\<lambda>_ _. True) (\<lambda>_. True) ts) = ENDF_OK" for ts
    unfolding ndf_timer_init_def Let_def none list.case using timer_inits by (simp add: split_beta)
  then show ?thesis
    by (simp add: sys_timer_init_def boot_sample_def split_beta) blast
qed

text \<open>The device of the file is registered as port 0.\<close>

definition boot_device :: port_conf_stream where
  "boot_device = dev_conf (hd (fs_devs boot_conf))"

lemma boot_device_names:
  "c_str (pc_name boot_device) = str ''dpdk0''" "0 \<in> set (pc_name boot_device)" "field_str (pc_rss boot_device) = Some (str ''all'')"
  "pc_port_id boot_device = -1"
proof -
  have n: "pc_name boot_device = strncpy_field 32 (str ''dpdk0'')" "pc_rss boot_device = strncpy_field 32 (str ''all'')" "pc_port_id boot_device = -1"
    by (simp_all add: boot_device_def dev_conf_def new_device_def boot_conf_def sample_conf_def)
  have zs: "0 \<notin> set (str ''dpdk0'')" "0 \<notin> set (str ''all'')"
    by (simp_all add: str_def)
  from n show "c_str (pc_name boot_device) = str ''dpdk0''" "0 \<in> set (pc_name boot_device)" "field_str (pc_rss boot_device) = Some (str ''all'')"
      "pc_port_id boot_device = -1"
    using zs strncpy_field_str [of "str ''dpdk0''" 32] strncpy_field_str [of "str ''all''" 32] by (simp_all add: field_str_def)
qed

lemma boot_ifname: "ifname_of [boot_device] 0 = str ''dpdk0''"
proof -
  have "first_char (pc_name boot_device) \<noteq> 0"
    using boot_device_names(1) by (cases "pc_name boot_device") (auto simp: c_str_def first_char_def str_def split: if_splits)
  then show ?thesis
    by (simp add: ifname_of_def boot_device_names)
qed

lemma boot_conf_lists: "port_list (conf_of boot_conf s) = [boot_device]"
  by (simp add: conf_of_def boot_device_def boot_conf_def sample_conf_def)

lemma setup_info: "np_info (dpdk_port_setup e d) = (case dev_info_get e (np_id d) of Some i \<Rightarrow> i | None \<Rightarrow> zero_info)"
  by (simp add: dpdk_port_setup_def setup_dev_of_flags_def Let_def)

lemma alloc_info:
  assumes "malloc_ok env n" "netif_port_get k t = Some None" "k < NETIF_MAX_PORTS" "\<not> c_strstr name (str ''%d'')" "length name < IFNAMSIZ"
    and "socket_ok e k" and "dev_info_get e k = Some i"
  shows "\<exists>p. netif_alloc env e n k name 0 0 (Some (dpdk_port_setup e)) t = Some (Some p, t) \<and> np_id p = k \<and> np_name p = name \<and> np_info p = i"
  using assms
  by (auto simp: netif_alloc_def Let_def NETIF_PORT_ID_INVALID_def socket_ok_def IFNAMSIZ_def setup_info split: if_splits)

definition boot_info :: dev_info where
  "boot_info = zero_info\<lparr>max_rx_queues := 16, max_tx_queues := 16\<rparr>"

lemma boot_eth_simps: "dev_count (be_eth boot_sample) = 1" "dev_info_get (be_eth boot_sample) k = Some boot_info" "socket_ok (be_eth boot_sample) k"
  "NDF_MAX_SOCKET (be_eth boot_sample) = 4"
  by (simp_all add: boot_sample_def boot_info_def sample_eth_def socket_ok_def SOCKET_ID_ANY_def)

lemma boot_ports:
  "\<exists>s' t' p. netif_port_init (lc_env small_env) (be_eth boot_sample) (conf_of boot_conf s) t = Some (Continues (s', t')) \<and>
     worker_list s' = worker_list (conf_of boot_conf s) \<and> port_list s' = [boot_device\<lparr>pc_port_id := 0\<rparr>] \<and>
     registry t' [p] \<and> np_id p = 0 \<and> np_name p = str ''dpdk0'' \<and> np_info p = boot_info"
proof -
  let ?t = "port_ntab_init (port_tab_init t)" and ?c = "conf_of boot_conf s"
  have name: "port_name_alloc 1 0 IFNAMSIZ ?c = Some (ENDF_OK, str ''dpdk0'', ?c\<lparr>port_list := rev (claimed (Suc 0) [boot_device])\<rparr>)"
    using port_name_step [of 0 1 "[boot_device]" ?c] boot_ifname by (simp add: claimed_def boot_conf_lists boot_device_names)
  have reg: "registry ?t []"
    by (rule registry_init)
  have get: "netif_port_get 0 ?t = Some None"
    using registry_get [OF reg, of 0] by simp
  have "\<not> c_strstr (str ''dpdk0'') (str ''%d'')" "length (str ''dpdk0'') < IFNAMSIZ"
    by (simp_all add: str_def c_strstr_def IFNAMSIZ_def)
  then obtain p where p: "netif_alloc (alloc_env (lc_env small_env)) (be_eth boot_sample) (netif_allocs ?c) 0 (str ''dpdk0'') 0 0
      (Some (dpdk_port_setup (be_eth boot_sample))) ?t = Some (Some p, ?t)" "np_id p = 0" "np_name p = str ''dpdk0''" "np_info p = boot_info"
    using alloc_info [OF _ get, of "alloc_env (lc_env small_env)" "netif_allocs ?c" "str ''dpdk0''" "be_eth boot_sample"] boot_eth_simps
    by (auto simp: small_env_def sample_netif_env_def NETIF_MAX_PORTS_def)
  obtain t1 where t1: "netif_port_register (Some p) ?t = (ENDF_OK, t1)" "registry t1 [p]"
    using registry_register [OF reg, of p] p(3) by (cases "netif_port_register (Some p) ?t") (auto simp: named_def refused_def IFNAMSIZ_def str_def)
  have run: "netif_port_init (lc_env small_env) (be_eth boot_sample) ?c t = Some (Continues (?c\<lparr>port_list := rev (claimed (Suc 0) [boot_device]),
      netif_allocs := netif_allocs ?c + 1\<rparr>, t1))"
    using p(1) t1(1) name by (simp add: netif_port_init_def boot_eth_simps boot_conf_lists is_physical_port_def ENDF_OK_def)
  show ?thesis
    unfolding run using t1(2) p(2-4) by (auto simp: claimed_def)
qed

text \<open>The worker gets queue 0 of port 0.\<close>

definition boot_worker :: worker_conf_stream where
  "boot_worker = worker_conf (fs_workers boot_conf ! 1)"

definition boot_master :: worker_conf_stream where
  "boot_master = worker_conf (fs_workers boot_conf ! 0)"

lemma boot_workers: "worker_list (conf_of boot_conf s) = [boot_worker, boot_master]"
  by (simp add: conf_of_def boot_worker_def boot_master_def boot_conf_def)

lemma boot_worker_types: "worker_type boot_worker = Some (str ''slave'')" "worker_type boot_master = Some (str ''master'')"
proof -
  have "0 \<notin> set (str ''slave'')" "0 \<notin> set (str ''master'')"
    by (simp_all add: str_def)
  then show "worker_type boot_worker = Some (str ''slave'')" "worker_type boot_master = Some (str ''master'')"
    using strncpy_field_str [of "str ''slave''" 32] strncpy_field_str [of "str ''master''" 32]
    by (simp_all add: worker_type_def boot_worker_def boot_master_def worker_conf_def boot_conf_def field_str_def)
qed

lemma boot_plain: "worker_plain 4 boot_worker" "worker_plain 4 boot_master"
proof -
  have "0 \<in> set (strncpy_field 32 (str ''dpdk0''))"
    using strncpy_field_str(2) [of "str ''dpdk0''" 32] by (simp add: str_def)
  then show "worker_plain 4 boot_worker" "worker_plain 4 boot_master"
    using boot_worker_types
    by (simp_all add: worker_plain_def) (simp_all add: boot_worker_def boot_master_def worker_conf_def boot_conf_def port_conf_def pad_ids_def queue_plain_def
        new_queue_conf_def NETIF_MAX_RTE_PORTS_def NETIF_MAX_QUEUES_def)
qed

lemma boot_entry:
  assumes "registry t [p]" and "np_id p = 0" and "np_name p = str ''dpdk0''"
  shows "lcore_entry t boot_worker = lcore_of_queues 2 [0]"
proof -
  have "c_str (strncpy_field 32 (str ''dpdk0'')) = str ''dpdk0''"
    using strncpy_field_str(1) [of "str ''dpdk0''" 32] by (simp add: str_def)
  moreover have "netif_port_get_by_name (Some (str ''dpdk0'')) t = Some p"
    using registry_get_by_name [OF assms(1), of "str ''dpdk0''"] assms(3) by (simp add: str_def)
  ultimately show ?thesis
    using boot_worker_types(1) assms(2)
    by (simp add: lcore_entry_def lcore_of_queues_def cpu_of_def worker_role_def port_entry_def qids_before_mark_def NETIF_MAX_QUEUES_def)
      (simp add: boot_worker_def worker_conf_def boot_conf_def port_conf_def pad_ids_def new_queue_conf_def port_entry_def qids_before_mark_def NETIF_MAX_QUEUES_def)
qed

lemma boot_conf_lcores:
  assumes "registry t [p]" and "np_id p = 0" and "np_name p = str ''dpdk0''"
  shows "config_lcores small_env t [boot_worker, boot_master] (isol_rxq_init 4 no_lcores)
    = Some ([boot_master, boot_worker], (isol_rxq_init 4 no_lcores)\<lparr>lcore_conf := [lcore_of_queues 2 [0]]\<rparr>)"
proof -
  have m: "\<not> is_master boot_worker" "is_master boot_master"
    by (simp_all add: is_master_def boot_worker_types) (simp add: str_def)
  have max: "max_lcore small_env = 4"
    by (simp add: small_env_def)
  show ?thesis
    using config_lcores_sorts [of "[boot_worker, boot_master]" small_env t "isol_rxq_init 4 no_lcores"] boot_plain boot_entry [OF assms] max
    by (simp add: m)
qed

text \<open>The cores.\<close>

lemma boot_roles:
  "\<exists>d. lcore_role_init small_env ((isol_rxq_init 4 no_lcores)\<lparr>lcore_conf := [lcore_of_queues 2 [0]]\<rparr>) (global_data_init 4) = Some d
     \<and> g_lcore_role d ! 0 = LCORE_ROLE_MASTER"
  by (simp add: lcore_role_init_def small_env_def global_data_init_def give_role_def isol_rxq_init_def no_lcores_def lcore_of_queues_def
      build_lcore_index_def cores_with_def upt_conv_Cons role_defs store_at_def numeral_2_eq_2 numeral_3_eq_3)

lemma boot_lcores:
  assumes "registry t [p]" and "np_id p = 0" and "np_name p = str ''dpdk0''"
  shows "\<exists>l. netif_lcore_init small_env t [] interval \<lparr>ls_state = no_lcores, ls_tables = tb, ls_data = global_data_init 4,
      ls_workers = [boot_worker, boot_master], ls_sched = q, timer_sched_interval_us = x\<rparr> = Some (Continues l) \<and>
    lcore_conf (ls_state l) = [lcore_of_queues 2 [0]] \<and> g_lcore_role (ls_data l) ! 0 = LCORE_ROLE_MASTER \<and> lcore2index (ls_tables l) 2 = 0"
proof -
  have env: "max_lcore small_env = 4" "lcore_enabled small_env 2" "lcore_count small_env = 4" "eth_count small_env = 1"
    by (simp_all add: small_env_def)
  have chk: "check_lcore_conf 4 1 4 [lcore_of_queues 2 [0]] = Some ENDF_OK"
    by (simp add: sample_check_defs LCONFCHK_OK_def ENDF_OK_def)
  obtain d where d: "lcore_role_init small_env ((isol_rxq_init 4 no_lcores)\<lparr>lcore_conf := [lcore_of_queues 2 [0]]\<rparr>) (global_data_init 4) = Some d"
      "g_lcore_role d ! 0 = LCORE_ROLE_MASTER"
    using boot_roles by blast
  have "\<exists>tb'. lcore_index_init small_env [lcore_of_queues 2 [0]] tb = Some (ENDF_OK, tb') \<and> lcore2index tb' 2 = 0" for tb
    using env by (simp add: lcore_index_init_def) (simp add: lcore_of_queues_def)
  moreover have "\<exists>tb'. port_index_init 4 [lcore_of_queues 2 [0]] tb = Some tb' \<and> lcore2index tb' = lcore2index tb" for tb
    by (simp add: port_index_init_def) (simp add: lcore_of_queues_def NETIF_MAX_PORTS_def)
  ultimately obtain tb1 tb2 where tb: "lcore_index_init small_env [lcore_of_queues 2 [0]] tb = Some (ENDF_OK, tb1)"
      "port_index_init 4 [lcore_of_queues 2 [0]] tb1 = Some tb2" "lcore2index tb2 2 = 0"
    by metis
  show ?thesis
    using chk boot_conf_lcores [OF assms] d tb by (simp add: netif_lcore_init_def env [simplified])
qed

text \<open>The pipeline, and the port, whose configuration fails here.\<close>

lemma boot_pipeline: "\<exists>b. pipeline_init True all_ok_env (bridge_static sample_table pd_static) = Some (Continues b)"
proof -
  obtain g where g: "proto_detect_init all_ok_env None pd_static = Some (0, g)"
    using builtin_start by blast
  have "proto_detect_init all_ok_env (Some boot_proto_cfg) pd_static = proto_detect_init all_ok_env None pd_static"
    by (simp add: proto_detect_init_def pd_static_def boot_proto_cfg_def)
  then show ?thesis
    using g by (simp add: pipeline_init_def bridge_static_def flow_init_def flow_hash_size_def stream_reassemble_init_def Let_def)
qed

lemma boot_fill:
  assumes "port_list s = [boot_device\<lparr>pc_port_id := 0\<rparr>]" and "np_name p = str ''dpdk0''"
  shows "\<exists>q pr al. fill_port_config sample_bits 1 1 s p = Some (q, pr, al) \<and> n_rxq q = 1 \<and> n_txq q = 1 \<and> np_info q = np_info p"
proof -
  have "get_port_conf_stream (np_name p) (port_list s) = Some (Some (boot_device\<lparr>pc_port_id := 0\<rparr>))"
    using assms boot_device_names by (simp add: get_port_conf_stream_def)
  then show ?thesis
    by (cases "rss_scan sample_bits (str ''all'') [] 0") (simp add: fill_port_config_def boot_device_names Let_def)
qed

lemma boot_port_start:
  assumes "port_list s = [boot_device\<lparr>pc_port_id := 0\<rparr>]" and "np_name p = str ''dpdk0''" and "np_id p = 0" and "np_info p = boot_info"
  shows "\<exists>r q m' calls. netif_port_start (be_start boot_sample 0) sample_bits 4 [lcore_of_queues 2 [0]] s (Some p) m = Some (Continues (r, q, m', calls))"
proof -
  obtain q pr al where q: "fill_port_config sample_bits 1 1 s p = Some (q, pr, al)" "n_rxq q = 1" "n_txq q = 1" "np_info q = boot_info"
    using boot_fill [OF assms(1,2)] assms(4) by auto
  have counts: "port_rx_queues_get 4 [lcore_of_queues 2 [0]] 0 = Some 1" "port_tx_queues_get 4 [lcore_of_queues 2 [0]] 0 = Some 1"
    by (simp_all add: port_rx_queues_get_def port_tx_queues_get_def active_def lcore_of_queues_def)
  have fails: "\<exists>r q m' calls. bring_up (be_start boot_sample 0) 4 [lcore_of_queues 2 [0]] pr al p m = Some (r, q, m', calls)" for p m
    by (simp add: bring_up_def boot_sample_def sample_start_def setup_calls_def)
  have "max_rx_queues boot_info = 16" "max_tx_queues boot_info = 16"
    by (simp_all add: boot_info_def)
  then show ?thesis
    using q counts assms(3) fails by (simp add: netif_port_start_def Let_def split: prod.split)
qed

section \<open>The whole start\<close>

lemma boot_modules:
  assumes "ny_cfg s = (ny_cfg start_system)\<lparr>cs_kw := start_kw\<rparr>" and "netdefender_conf_file (ny_args s) = Some f"
    and "ny_ports s = no_ports" and "ny_lcores s = no_lcores"
  shows "\<exists>s' p. modules_init (net_defender_modules boot_sample busy) s = Some (Continues s') \<and> lcore_conf (ny_lcores s') = [lcore_of_queues 2 [0]] \<and>
    g_lcore_role (ny_data s') ! 0 = LCORE_ROLE_MASTER \<and> port_list (cs_conf (ny_cfg s')) = [boot_device\<lparr>pc_port_id := 0\<rparr>] \<and>
    lcore2index (ny_tables s') 2 = 0 \<and> registry (ny_ports s') [p] \<and> np_id p = 0 \<and> np_name p = str ''dpdk0'' \<and> np_info p = boot_info"
proof -
  obtain q where q: "ndf_scheduler_init sample_scheduler = Some (ENDF_OK, q)" "sched_rel q (\<lambda>_. [])" "jobs q = sample_jobs"
    using sample_started by blast
  define s1 where "s1 = s\<lparr>ny_cfg := (ny_cfg s)\<lparr>cs_sched := q\<rparr>, ny_data := global_data_init 4\<rparr>"
  obtain ts where ts: "sys_timer_init boot_sample s1 = (ENDF_OK, s1\<lparr>ny_timers := ts\<rparr>)"
    using boot_timers by blast
  define s2 where "s2 = s1\<lparr>ny_timers := ts\<rparr>"
  have k: "cs_kw (ny_cfg s2) = start_kw" "cs_sched (ny_cfg s2) = q" "netdefender_conf_file (ny_args s2) = Some f"
    using assms(1,2) by (simp_all add: s2_def s1_def)
  obtain c where c: "sys_cfgfile_init boot_sample s2 = Some (ENDF_OK, s2\<lparr>ny_cfg := c\<rparr>)" "cs_conf c = conf_of boot_conf (netif_cfgfile_init (cs_conf (ny_cfg s2)))"
    using boot_cfgfile [OF k(3,1)] k(2) q(2,3) by auto
  obtain conf t p where t: "netif_port_init (lc_env small_env) (be_eth boot_sample) (cs_conf c) no_ports = Some (Continues (conf, t))"
      "worker_list conf = [boot_worker, boot_master]" "port_list conf = [boot_device\<lparr>pc_port_id := 0\<rparr>]"
      "registry t [p]" "np_id p = 0" "np_name p = str ''dpdk0''" "np_info p = boot_info"
    using boot_ports [of "netif_cfgfile_init (cs_conf (ny_cfg s2))" no_ports] boot_workers unfolding c(2) by fastforce
  obtain l where l: "netif_lcore_init small_env t [] (g_sched_interval conf) \<lparr>ls_state = no_lcores, ls_tables = ny_tables s, ls_data = global_data_init 4,
      ls_workers = [boot_worker, boot_master], ls_sched = cs_sched c, timer_sched_interval_us = ny_interval s\<rparr> = Some (Continues l)"
      "lcore_conf (ls_state l) = [lcore_of_queues 2 [0]]" "g_lcore_role (ls_data l) ! 0 = LCORE_ROLE_MASTER" "lcore2index (ls_tables l) 2 = 0"
    using boot_lcores [OF t(4-6)] by blast
  have e: "boot_lcore boot_sample = small_env" "be_lcore boot_sample = small_env" "be_jobs boot_sample = []"
      "netif_pktmbuf_pool_init (pool_create boot_sample) n conf" "max_lcore small_env = 4" for n conf
    by (simp_all add: boot_lcore_def boot_sample_def small_env_def sample_eth_def netif_pktmbuf_pool_init_def list_all_iff)
  define s4 where "s4 = s2\<lparr>ny_cfg := c\<lparr>cs_conf := conf\<lparr>worker_list := ls_workers l\<rparr>, cs_sched := ls_sched l\<rparr>, ny_data := ls_data l, ny_ports := t,
      ny_lcores := ls_state l, ny_tables := ls_tables l, ny_interval := timer_sched_interval_us l\<rparr>"
  have netif: "netif_init boot_sample (s2\<lparr>ny_cfg := c\<rparr>) = Some (Continues (ENDF_OK, s4))"
    using t l(1) assms(3,4) by (simp add: netif_init_def e s2_def s1_def s4_def)
  have sched: "sys_scheduler_init s = Some (ENDF_OK, s\<lparr>ny_cfg := (ny_cfg s)\<lparr>cs_sched := q\<rparr>\<rparr>)"
    using q(1) assms(1) by (simp add: sys_scheduler_init_def start_system_def)
  have "modules_init (net_defender_modules boot_sample busy) s = Some (Continues s4)"
    using sched ts c(1) netif by (simp add: modules_init_def net_defender_modules_def e s1_def [symmetric] s2_def [symmetric])
  then show ?thesis
    using l t by (auto simp: s4_def)
qed

lemma boot_args:
  "\<exists>a. parse_app_args (be_version boot_sample) (be_strdup boot_sample) (be_opts boot_sample) (be_optind boot_sample) (be_argv boot_sample) (ny_args start_system)
      = Some (Continues (0, [str ''nids''], a)) \<and> (\<exists>f. netdefender_conf_file a = Some f) \<and> (\<exists>f. netdefender_pid_file a = Some f)"
  by (simp add: parse_app_args_def boot_sample_def start_system_def version_parse_def c_str_def c_atoi_def or_default_def)

lemma start_one_port:
  assumes "port_list (cs_conf (ny_cfg s)) = [boot_device\<lparr>pc_port_id := 0\<rparr>]" and "registry (ny_ports s) [p]" and "np_id p = 0"
    and "np_name p = str ''dpdk0''" and "np_info p = boot_info" and "lcore_conf (ny_lcores s) = [lcore_of_queues 2 [0]]"
  shows "\<exists>s'. start_ports boot_sample [0] s = Some (Continues s') \<and> ny_data s' = ny_data s \<and> ny_lcores s' = ny_lcores s \<and> ny_tables s' = ny_tables s"
proof -
  have get: "netif_port_get 0 (ny_ports s) = Some (Some p)"
    using registry_get [OF assms(2), of 0] assms(3) by simp
  have b: "be_bits boot_sample = sample_bits" "max_lcore (be_lcore boot_sample) = 4"
    by (simp_all add: boot_sample_def small_env_def)
  obtain r q m' calls where "netif_port_start (be_start boot_sample 0) sample_bits 4 [lcore_of_queues 2 [0]] (cs_conf (ny_cfg s)) (Some p) (ny_map s)
      = Some (Continues (r, q, m', calls))"
    using boot_port_start [OF assms(1,4,3,5)] by blast
  then show ?thesis
    using get b [simplified] assms(6) by simp
qed

lemma boot_serves:
  "\<exists>s'. ndf_main boot_sample start_system = Some (Serves s') \<and> lcore_conf (ny_lcores s') = [lcore_of_queues 2 [0]] \<and> lcore2index (ny_tables s') 2 = 0"
proof -
  obtain a f g where a: "parse_app_args (be_version boot_sample) (be_strdup boot_sample) (be_opts boot_sample) (be_optind boot_sample) (be_argv boot_sample)
      (ny_args start_system) = Some (Continues (0, [str ''nids''], a))" "netdefender_conf_file a = Some g" "netdefender_pid_file a = Some f"
    using boot_args by blast
  define s1 where "s1 = netdefender_state_set NET_DEFENDER_STATE_INIT (start_system\<lparr>ny_args := a, ny_files := Map.empty\<rparr>)"
  have "ny_cfg s1 = (ny_cfg start_system)\<lparr>cs_kw := start_kw\<rparr>" "netdefender_conf_file (ny_args s1) = Some g" "ny_ports s1 = no_ports"
      "ny_lcores s1 = no_lcores"
    using a(2) by (simp_all add: s1_def netdefender_state_set_def start_system_def start_kw_def)
  then obtain s2 p where s2: "modules_init (net_defender_modules boot_sample (\<lambda>_. False)) s1 = Some (Continues s2)"
      "lcore_conf (ny_lcores s2) = [lcore_of_queues 2 [0]]" "g_lcore_role (ny_data s2) ! 0 = LCORE_ROLE_MASTER"
      "port_list (cs_conf (ny_cfg s2)) = [boot_device\<lparr>pc_port_id := 0\<rparr>]" "lcore2index (ny_tables s2) 2 = 0" "registry (ny_ports s2) [p]" "np_id p = 0"
      "np_name p = str ''dpdk0''" "np_info p = boot_info"
    using boot_modules [of s1 g "\<lambda>_. False"] by blast
  have un: "ny_bridge s2 = bridge_static sample_table pd_static" "ny_files s2 = Map.empty"
    using modules_untouched [OF s2(1)] by (simp_all add: s1_def netdefender_state_set_def start_system_def)
  obtain b where b: "pipeline_init True all_ok_env (bridge_static sample_table pd_static) = Some (Continues b)"
    using boot_pipeline by blast
  obtain s3 where s3: "start_ports boot_sample [0] (s2\<lparr>ny_bridge := b\<rparr>) = Some (Continues s3)" "ny_data s3 = ny_data s2" "ny_lcores s3 = ny_lcores s2"
      "ny_tables s3 = ny_tables s2"
    using start_one_port [of "s2\<lparr>ny_bridge := b\<rparr>" p] s2 by auto
  have e: "be_flow_table boot_sample" "be_rte boot_sample = all_ok_env" "numa_nodes boot_sample = 1" "eal_init boot_sample x = 0" "be_getpid boot_sample = 77"
      "be_can_open boot_sample y" "main_lcore (be_lcore boot_sample) = 0" for x y
    by (simp_all add: boot_sample_def small_env_def)
  have boot: "boot_system boot_sample s1 = Some (Continues s3)"
    using s2(1) b s3(1) by (simp add: boot_system_def un e boot_eth_simps)
  have "looping (ny_data s3) 0"
    using s2(3) s3(2) by (simp add: looping_def role_defs)
  moreover have "ny_files start_system = Map.empty" "netdefender_running (be_can_open boot_sample) (be_alive boot_sample) f Map.empty = Some (False, Map.empty)"
    by (simp_all add: start_system_def netdefender_running_def)
  moreover have "ny_lcores (netdefender_state_set q s) = ny_lcores s" "ny_tables (netdefender_state_set q s) = ny_tables s" for q and s :: "unit ndf_system"
    by (simp_all add: netdefender_state_set_def)
  ultimately show ?thesis
    using a boot s2(2,5) s3(3,4) by (simp add: ndf_main_def s1_def [symmetric] e boot_eth_simps pidfile_write_def Let_def)
qed



section \<open>The end of the process\<close>

text \<open>The clean-up of the timers waits for every core, so it comes to an end only when no core is in its loop.\<close>

lemma cleanup_needs_idle_cores:
  assumes "main_end e s = Some (Continues s')" and "c \<in> set (lcore_workers (be_lcore e))"
  shows "\<not> looping (ny_data s) c"
proof
  assume busy: "looping (ny_data s) c"
  have "sys_timer_term e (looping (ny_data s)) q = None" for q
    using busy assms(2) by (auto simp: sys_timer_term_def ndf_timer_term_def)
  then show False
    using assms(1) by (auto simp: main_end_def modules_term_def net_defender_modules_def netdefender_state_set_def Let_def process_bind
        elim!: bind_Some_E split: if_splits prod.splits)
qed
end
