(* ===== verification/Output_Json.thy ===== *)
theory Output_Json
  imports Bridge Netif_Load
begin

text \<open>
  The JSON output of \<^verbatim>\<open>output_json.c\<close>: the text builder with its growing buffer, escaping, the events, the log file and its
  rotation. A builder holds the text up to its offset; the bytes after it in the buffer have no effect. Files are a map from
  names to contents. The calendar, \<^verbatim>\<open>inet_ntop\<close>, the clock, and whether files can be opened and written are parameters.
\<close>

section \<open>The builder\<close>

record json_env =
  j_env :: rte_env
  gmtime :: "int \<Rightarrow> nat \<times> nat \<times> nat \<times> nat \<times> nat \<times> nat"
  ntop_words :: "bool \<Rightarrow> u32 list \<Rightarrow> bytes"
  ntop_bytes :: "bool \<Rightarrow> bytes \<Rightarrow> bytes"
  j_now :: timeval
  fopen_ok :: "bytes \<Rightarrow> bool"
  fprintf_ok :: bool

record json_builder =
  jb_text :: bytes
  jb_size :: nat
  indent_level :: int
  jb_allocs :: nat

definition JSON_BUFFER_SIZE :: nat where "JSON_BUFFER_SIZE = 16384"

text \<open>Two allocations: the builder and its buffer. \<open>n\<close> counts the allocations before.\<close>

definition json_builder_create :: "json_env \<Rightarrow> nat \<Rightarrow> nat \<Rightarrow> json_builder option \<times> nat" where
  "json_builder_create e n initial_size =
    (if \<not> malloc_ok (j_env e) n then (None, n + 1)
     else if \<not> malloc_ok (j_env e) (n + 1) then (None, n + 2)
     else (Some \<lparr>jb_text = [], jb_size = (if initial_size > 0 then initial_size else JSON_BUFFER_SIZE), indent_level = 0, jb_allocs = n + 2\<rparr>, n + 2))"

text \<open>The loop that doubles the buffer until it is large enough: the size reached, the allocations made and whether it succeeded.\<close>

function grow :: "json_env \<Rightarrow> nat \<Rightarrow> nat \<Rightarrow> nat \<Rightarrow> bool \<times> nat \<times> nat" where
  "grow e need sz n =
    (if need < sz then (True, sz, n)
     else if sz = 0 \<or> \<not> malloc_ok (j_env e) n then (False, sz, n + 1)
     else grow e need (sz * 2) (n + 1))"
  by pat_completeness auto
termination grow
  by (relation "measure (\<lambda>(e, need, sz, n). need + 1 - sz)") auto

declare grow.simps [simp del]

definition json_builder_append :: "json_env \<Rightarrow> bytes \<Rightarrow> json_builder \<Rightarrow> json_builder" where
  "json_builder_append e s jb =
    (let (ok, sz, n) = grow e (length (jb_text jb) + length s + 1) (jb_size jb) (jb_allocs jb);
         jb1 = jb\<lparr>jb_size := sz, jb_allocs := n\<rparr> in
     if ok then jb1\<lparr>jb_text := jb_text jb @ s\<rparr> else jb1)"

definition json_builder_append_char :: "json_env \<Rightarrow> u8 \<Rightarrow> json_builder \<Rightarrow> json_builder" where
  "json_builder_append_char e c jb = json_builder_append e [c] jb"

text \<open>The text from its end.\<close>

fun comma_scan :: "bytes \<Rightarrow> bool" where
  "comma_scan [] = False"
| "comma_scan (c # cs) =
    (if c = 123 \<or> c = 91 then False
     else if c = 44 \<or> c = 58 then False
     else if c \<noteq> 32 \<and> c \<noteq> 10 \<and> c \<noteq> 9 then True
     else comma_scan cs)"

definition json_needs_comma :: "json_builder \<Rightarrow> bool" where
  "json_needs_comma jb = comma_scan (rev (jb_text jb))"

definition with_comma :: "json_env \<Rightarrow> json_builder \<Rightarrow> json_builder" where
  "with_comma e jb = (if json_needs_comma jb then json_builder_append e (str '','') jb else jb)"

definition json_builder_start_object :: "json_env \<Rightarrow> json_builder \<Rightarrow> json_builder" where
  "json_builder_start_object e jb =
    (let jb1 = json_builder_append_char e 123 (with_comma e jb) in jb1\<lparr>indent_level := indent_level jb1 + 1\<rparr>)"

definition json_builder_end_object :: "json_env \<Rightarrow> json_builder \<Rightarrow> json_builder" where
  "json_builder_end_object e jb = json_builder_append_char e 125 (jb\<lparr>indent_level := indent_level jb - 1\<rparr>)"

definition json_builder_start_array :: "json_env \<Rightarrow> json_builder \<Rightarrow> json_builder" where
  "json_builder_start_array e jb =
    (let jb1 = json_builder_append_char e 91 (with_comma e jb) in jb1\<lparr>indent_level := indent_level jb1 + 1\<rparr>)"

definition json_builder_end_array :: "json_env \<Rightarrow> json_builder \<Rightarrow> json_builder" where
  "json_builder_end_array e jb = json_builder_append_char e 93 (jb\<lparr>indent_level := indent_level jb - 1\<rparr>)"

section \<open>Values\<close>

definition esc_char :: "u8 \<Rightarrow> bytes" where
  "esc_char c = (if c = 34 \<or> c = 92 then [92, c]
     else if c = 10 then [92, 110]
     else if c = 13 then [92, 114]
     else if c = 9 then [92, 116]
     else if c < 32 then [63]
     else [c])"

fun esc_loop :: "nat \<Rightarrow> bytes \<Rightarrow> bytes \<Rightarrow> bytes" where
  "esc_loop output_size [] out = out"
| "esc_loop output_size (c # cs) out =
    (if c = 0 \<or> output_size - 2 \<le> length out then out else esc_loop output_size cs (out @ esc_char c))"

definition json_escape_string :: "bytes \<Rightarrow> nat \<Rightarrow> bytes" where
  "json_escape_string inp output_size = esc_loop output_size inp []"

definition json_builder_add_string :: "json_env \<Rightarrow> bytes \<Rightarrow> bytes option \<Rightarrow> json_builder \<Rightarrow> json_builder" where
  "json_builder_add_string e key v jb =
    (let escaped = json_escape_string (case v of None \<Rightarrow> [] | Some s \<Rightarrow> s) 4096 in
     json_builder_append e (take 4095 ([34] @ key @ [34, 58, 34] @ escaped @ [34])) (with_comma e jb))"

definition add_raw :: "json_env \<Rightarrow> bytes \<Rightarrow> bytes \<Rightarrow> json_builder \<Rightarrow> json_builder" where
  "add_raw e key v jb = json_builder_append e (take 255 ([34] @ key @ [34, 58] @ v)) (with_comma e jb)"

definition json_builder_add_int :: "json_env \<Rightarrow> bytes \<Rightarrow> 64 word \<Rightarrow> json_builder \<Rightarrow> json_builder" where
  "json_builder_add_int e key v jb =
     add_raw e key (if sint v < 0 then 45 # show_dec (nat (- sint v)) else show_dec (nat (sint v))) jb"

definition json_builder_add_uint :: "json_env \<Rightarrow> bytes \<Rightarrow> u64 \<Rightarrow> json_builder \<Rightarrow> json_builder" where
  "json_builder_add_uint e key v jb = add_raw e key (show_dec (unat v)) jb"

definition json_builder_add_bool :: "json_env \<Rightarrow> bytes \<Rightarrow> bool \<Rightarrow> json_builder \<Rightarrow> json_builder" where
  "json_builder_add_bool e key v jb = add_raw e key (if v then str ''true'' else str ''false'') jb"

definition json_builder_add_null :: "json_env \<Rightarrow> bytes \<Rightarrow> json_builder \<Rightarrow> json_builder" where
  "json_builder_add_null e key jb = add_raw e key (str ''null'') jb"

definition json_builder_get_string :: "json_builder option \<Rightarrow> bytes option" where
  "json_builder_get_string jb = map_option jb_text jb"

definition json_builder_reset :: "json_builder \<Rightarrow> json_builder" where
  "json_builder_reset jb = jb\<lparr>jb_text := [], indent_level := 0\<rparr>"

definition pad_dec :: "nat \<Rightarrow> nat \<Rightarrow> bytes" where
  "pad_dec w n = replicate (w - length (show_dec n)) 48 @ show_dec n"

text \<open>\<^verbatim>\<open>tm_year\<close> and \<^verbatim>\<open>tm_mon\<close> have their offsets added; the text fits in its 64 bytes for years of up to 25 digits.\<close>

definition timestamp_text :: "json_env \<Rightarrow> timeval \<Rightarrow> bytes" where
  "timestamp_text e ts = (let (y, mo, d, h, mi, s) = gmtime e (tv_sec ts) in
     take 63 (pad_dec 4 y @ str ''-'' @ pad_dec 2 mo @ str ''-'' @ pad_dec 2 d @ str ''T'' @ pad_dec 2 h @ str '':'' @ pad_dec 2 mi @ str '':'' @
       pad_dec 2 s @ str ''.'' @ pad_dec 6 (nat (tv_usec ts)) @ str ''Z''))"

definition json_add_timestamp :: "json_env \<Rightarrow> bytes \<Rightarrow> timeval option \<Rightarrow> json_builder \<Rightarrow> json_builder" where
  "json_add_timestamp e key ts jb =
     json_builder_add_string e key (Some (timestamp_text e (case ts of None \<Rightarrow> j_now e | Some t \<Rightarrow> t))) jb"

definition json_add_flow_info :: "json_env \<Rightarrow> 'p flow option \<Rightarrow> json_builder \<Rightarrow> json_builder" where
  "json_add_flow_info e flow jb = (case flow of
     None \<Rightarrow> jb
   | Some f \<Rightarrow>
      let v4 = f_flags f AND FLOW_IPV4 \<noteq> 0 in
      json_builder_add_string e (str ''proto'')
        (Some (if f_proto f = IPPROTO_TCP then str ''TCP'' else if f_proto f = IPPROTO_UDP then str ''UDP'' else str ''OTHER''))
      (json_builder_add_uint e (str ''dest_port'') (ucast (f_dst_port f))
      (json_builder_add_string e (str ''dest_ip'') (Some (ntop_words e v4 (f_dst_addr f)))
      (json_builder_add_uint e (str ''src_port'') (ucast (f_src_port f))
      (json_builder_add_string e (str ''src_ip'') (Some (ntop_words e v4 (f_src_addr f))) jb)))))"

section \<open>The log file\<close>

datatype stream_fp = Stdout | File bytes

record json_output_ctx =
  oj_fp :: "stream_fp option"
  oj_filename :: "bytes option"
  rotate_enabled :: bool
  rotate_size :: u64
  rotate_interval :: u64
  rotate_count :: u32
  current_size :: u64
  last_rotate :: int
  oj_indent :: bool
  log_flow_info :: bool
  log_timestamp :: bool
  events_written :: u64
  bytes_written :: u64
  rotations :: u64
  write_errors :: u64

record json_world =
  jw_files :: "bytes \<rightharpoonup> bytes"
  jw_stdout :: bytes
  jw_allocs :: nat

definition fopen_append :: "bytes \<Rightarrow> (bytes \<rightharpoonup> bytes) \<Rightarrow> (bytes \<rightharpoonup> bytes)" where
  "fopen_append name fs = (case fs name of None \<Rightarrow> fs(name \<mapsto> []) | Some _ \<Rightarrow> fs)"

definition rename_file :: "bytes \<Rightarrow> bytes \<Rightarrow> (bytes \<rightharpoonup> bytes) \<Rightarrow> (bytes \<rightharpoonup> bytes)" where
  "rename_file old new fs = (case fs old of None \<Rightarrow> fs | Some c \<Rightarrow> if old = new then fs else fs(old := None, new \<mapsto> c))"

text \<open>
  \<^verbatim>\<open>gettimeofday\<close> is given the address of \<^verbatim>\<open>last_rotate\<close>, which has room for the seconds only. The microseconds are stored in the
  bytes after it: with 64-bit little-endian words, in \<^verbatim>\<open>indent\<close>, \<^verbatim>\<open>log_flow_info\<close> and \<^verbatim>\<open>log_timestamp\<close>, one byte each, and in padding. They replace
  the values given before.
\<close>

definition json_output_init :: "json_env \<Rightarrow> bytes option \<Rightarrow> bool \<Rightarrow> json_world \<Rightarrow> json_output_ctx option \<times> json_world" where
  "json_output_init e filename ind w =
    (let w1 = w\<lparr>jw_allocs := jw_allocs w + 1\<rparr>; us = nat (tv_usec (j_now e));
         ctx = (\<lambda>fp. \<lparr>oj_fp = Some fp, oj_filename = filename, rotate_enabled = False, rotate_size = 0, rotate_interval = 0, rotate_count = 0,
           current_size = 0, last_rotate = tv_sec (j_now e), oj_indent = (us mod 256 \<noteq> 0), log_flow_info = (us div 256 mod 256 \<noteq> 0),
           log_timestamp = (us div 65536 mod 256 \<noteq> 0), events_written = 0, bytes_written = 0, rotations = 0, write_errors = 0\<rparr>) in
     if \<not> malloc_ok (j_env e) (jw_allocs w) then (None, w1)
     else case filename of
       None \<Rightarrow> (Some (ctx Stdout), w1)
     | Some f \<Rightarrow> if \<not> fopen_ok e f then (None, w1) else (Some (ctx (File f)), w1\<lparr>jw_files := fopen_append f (jw_files w)\<rparr>))"

definition json_output_enable_rotation :: "json_output_ctx option \<Rightarrow> u64 \<Rightarrow> u64 \<Rightarrow> u32 \<Rightarrow> json_output_ctx option" where
  "json_output_enable_rotation ctx max_size interval cnt = map_option (\<lambda>c. c\<lparr>rotate_enabled := True, rotate_size := max_size,
     rotate_interval := interval, rotate_count := cnt\<rparr>) ctx"

definition rotated_name :: "bytes \<Rightarrow> nat \<Rightarrow> bytes" where
  "rotated_name f i = take 511 (f @ [46] @ show_dec i)"

text \<open>From the oldest file down; the loop variable starts at \<^verbatim>\<open>rotate_count - 1\<close> as a 32-bit number.\<close>

fun rotate_files :: "bytes \<Rightarrow> nat \<Rightarrow> (bytes \<rightharpoonup> bytes) \<Rightarrow> (bytes \<rightharpoonup> bytes)" where
  "rotate_files f 0 fs = fs"
| "rotate_files f (Suc i) fs = rotate_files f i (rename_file (rotated_name f i) (rotated_name f (Suc i)) fs)"

definition should_rotate :: "json_env \<Rightarrow> json_output_ctx \<Rightarrow> bool" where
  "should_rotate e c \<longleftrightarrow> rotate_size c > 0 \<and> current_size c \<ge> rotate_size c \<or>
     rotate_interval c > 0 \<and> of_int (tv_sec (j_now e) - last_rotate c) \<ge> rotate_interval c"

definition json_output_rotate :: "json_env \<Rightarrow> json_output_ctx option \<Rightarrow> json_world \<Rightarrow> int \<times> json_output_ctx option \<times> json_world" where
  "json_output_rotate e ctx w = (case ctx of
     None \<Rightarrow> (0, None, w)
   | Some c \<Rightarrow> (case oj_filename c of
       None \<Rightarrow> (0, Some c, w)
     | Some f \<Rightarrow>
        if \<not> rotate_enabled c \<or> \<not> should_rotate e c then (0, Some c, w)
        else let fs1 = rotate_files f (unat (rotate_count c - 1)) (jw_files w);
                 fs2 = rename_file f (rotated_name f 0) fs1 in
          if \<not> fopen_ok e f then (-1, Some (c\<lparr>oj_fp := None\<rparr>), w\<lparr>jw_files := fs2\<rparr>)
          else (0, Some (c\<lparr>oj_fp := Some (File f), current_size := 0, last_rotate := tv_sec (j_now e), rotations := rotations c + 1\<rparr>),
                w\<lparr>jw_files := fopen_append f fs2\<rparr>)))"

definition write_line :: "stream_fp \<Rightarrow> bytes \<Rightarrow> json_world \<Rightarrow> json_world" where
  "write_line fp line w = (case fp of
     Stdout \<Rightarrow> w\<lparr>jw_stdout := jw_stdout w @ line\<rparr>
   | File f \<Rightarrow> w\<lparr>jw_files := (jw_files w)(f \<mapsto> (case jw_files w f of None \<Rightarrow> [] | Some c \<Rightarrow> c) @ line)\<rparr>)"

definition json_output_write :: "json_env \<Rightarrow> json_output_ctx option \<Rightarrow> bytes option \<Rightarrow> json_world \<Rightarrow> int \<times> json_output_ctx option \<times> json_world" where
  "json_output_write e ctx js w = (case (ctx, js) of
     (Some c, Some s) \<Rightarrow> (case oj_fp c of
        None \<Rightarrow> (-1, ctx, w)
      | Some fp \<Rightarrow>
         if \<not> fprintf_ok e then (-1, Some (c\<lparr>write_errors := write_errors c + 1\<rparr>), w)
         else let n = of_nat (length s) + 1;
                  c1 = c\<lparr>events_written := events_written c + 1, bytes_written := bytes_written c + n, current_size := current_size c + n\<rparr>;
                  (r, c2, w2) = json_output_rotate e (Some c1) (write_line fp (s @ [10]) w) in (0, c2, w2))
   | _ \<Rightarrow> (-1, ctx, w))"

section \<open>Events\<close>

text \<open>Steps of a builder in order.\<close>

definition run_adds :: "(json_builder \<Rightarrow> json_builder) list \<Rightarrow> json_builder \<Rightarrow> json_builder" where
  "run_adds fs jb = fold (\<lambda>f. f) fs jb"

abbreviation when_on :: "bool \<Rightarrow> (json_builder \<Rightarrow> json_builder) list \<Rightarrow> (json_builder \<Rightarrow> json_builder) list" where
  "when_on b fs \<equiv> if b then fs else []"

text \<open>A builder is made, filled, written and released; the counter of allocations is that of the builder.\<close>

definition emit :: "json_env \<Rightarrow> json_output_ctx option \<Rightarrow> (json_builder \<Rightarrow> json_builder) list \<Rightarrow> json_world \<Rightarrow> int \<times> json_output_ctx option \<times> json_world" where
  "emit e ctx fs w = (case json_builder_create e (jw_allocs w) 0 of
     (None, n) \<Rightarrow> (-1, ctx, w\<lparr>jw_allocs := n\<rparr>)
   | (Some jb, n) \<Rightarrow> let jb1 = run_adds fs jb in
       json_output_write e ctx (json_builder_get_string (Some jb1)) (w\<lparr>jw_allocs := jb_allocs jb1\<rparr>))"

definition alert_steps :: "json_env \<Rightarrow> json_output_ctx \<Rightarrow> alert \<Rightarrow> 'p flow option \<Rightarrow> (json_builder \<Rightarrow> json_builder) list" where
  "alert_steps e c a flow =
    [json_builder_start_object e]
    @ when_on (log_timestamp c) [json_add_timestamp e (str ''timestamp'') (Some (al_timestamp a))]
    @ [json_builder_add_string e (str ''event_type'') (Some (str ''alert''))]
    @ when_on (log_flow_info c \<and> flow \<noteq> None) [json_add_flow_info e flow]
    @ [json_builder_add_string e (str ''alert'') None,
       json_builder_start_object e,
       json_builder_add_string e (str ''action'') (Some (str ''allowed'')),
       json_builder_add_uint e (str ''gid'') 1,
       json_builder_add_uint e (str ''signature_id'') (ucast (al_rule_id a)),
       json_builder_add_uint e (str ''rev'') 1,
       json_builder_add_string e (str ''signature'') (Some (case al_message a of None \<Rightarrow> [] | Some m \<Rightarrow> m)),
       json_builder_add_string e (str ''category'') (Some (alert_category_to_string (al_category a))),
       json_builder_add_string e (str ''severity'') (Some (alert_severity_to_string (al_severity a))),
       json_builder_end_object e,
       json_builder_end_object e]"

definition json_output_alert :: "json_env \<Rightarrow> json_output_ctx option \<Rightarrow> alert option \<Rightarrow> 'p flow option \<Rightarrow> json_world \<Rightarrow> int \<times> json_output_ctx option \<times> json_world" where
  "json_output_alert e ctx al flow w = (case (ctx, al) of
     (Some c, Some a) \<Rightarrow> emit e ctx (alert_steps e c a flow) w
   | _ \<Rightarrow> (-1, ctx, w))"

text \<open>A transaction of the parser always has a request.\<close>

definition http_steps :: "json_env \<Rightarrow> json_output_ctx \<Rightarrow> http_transaction \<Rightarrow> 'p flow option \<Rightarrow> (json_builder \<Rightarrow> json_builder) list" where
  "http_steps e c tx flow =
    [json_builder_start_object e]
    @ when_on (log_timestamp c) [json_add_timestamp e (str ''timestamp'') None]
    @ [json_builder_add_string e (str ''event_type'') (Some (str ''http''))]
    @ when_on (log_flow_info c \<and> flow \<noteq> None) [json_add_flow_info e flow]
    @ [json_builder_add_string e (str ''http'') None, json_builder_start_object e]
    @ (let req = ht_request tx in
       [json_builder_add_string e (str ''http_method'') (Some (http_method_to_string (rq_method req))),
        json_builder_add_string e (str ''url'') (rq_uri req),
        json_builder_add_string e (str ''hostname'') (rq_host req),
        json_builder_add_string e (str ''http_user_agent'') (rq_user_agent req),
        json_builder_add_string e (str ''http_content_type'') (rq_content_type req)]
       @ when_on (rq_content_length req > 0) [json_builder_add_uint e (str ''length'') (rq_content_length req)])
    @ (case ht_response tx of None \<Rightarrow> [] | Some resp \<Rightarrow>
       [json_builder_add_uint e (str ''status'') (ucast (rs_status_code resp)),
        json_builder_add_string e (str ''http_refer'') (rs_reason_phrase resp),
        json_builder_add_string e (str ''server'') (rs_server resp)])
    @ [json_builder_add_string e (str ''protocol'') (Some (str ''HTTP/1.1'')), json_builder_end_object e, json_builder_end_object e]"

definition json_output_http :: "json_env \<Rightarrow> json_output_ctx option \<Rightarrow> http_transaction option \<Rightarrow> 'p flow option \<Rightarrow> json_world \<Rightarrow> int \<times> json_output_ctx option \<times> json_world" where
  "json_output_http e ctx tx flow w = (case (ctx, tx) of
     (Some c, Some t) \<Rightarrow> emit e ctx (http_steps e c t flow) w
   | _ \<Rightarrow> (-1, ctx, w))"

text \<open>
  The data of a record that is neither A nor AAAA is read through \<^verbatim>\<open>parsed.domain\<close>, whose bytes are those of the preference of a mail
  exchanger: unless it is zero, a number is used as a pointer.
\<close>

definition rdata_steps :: "json_env \<Rightarrow> dns_rr \<Rightarrow> (json_builder \<Rightarrow> json_builder) list option" where
  "rdata_steps e rr =
    (let add = (\<lambda>s. Some [json_builder_add_string e (str ''rdata'') (Some s)]) in
     if rr_type rr = 1 then (case rr_parsed rr of ParsedA a \<Rightarrow> add (ntop_bytes e True a) | ParsedNone \<Rightarrow> add (ntop_bytes e True (replicate 4 0)) | _ \<Rightarrow> None)
     else if rr_type rr = 28 then (case rr_parsed rr of ParsedAAAA a \<Rightarrow> add (ntop_bytes e False a) | ParsedNone \<Rightarrow> add (ntop_bytes e False (replicate 16 0)) | _ \<Rightarrow> None)
     else case rr_parsed rr of
       ParsedNone \<Rightarrow> Some []
     | ParsedDomain d \<Rightarrow> add d
     | ParsedMX pref _ \<Rightarrow> if pref = 0 then Some [] else None
     | _ \<Rightarrow> None)"

fun answer_steps :: "json_env \<Rightarrow> dns_rr list \<Rightarrow> (json_builder \<Rightarrow> json_builder) list option" where
  "answer_steps e [] = Some []"
| "answer_steps e (rr # rrs) = do {
     rd \<leftarrow> rdata_steps e rr;
     rest \<leftarrow> answer_steps e rrs;
     Some ([json_builder_start_object e,
            json_builder_add_string e (str ''rrname'') (Some (rr_name rr)),
            json_builder_add_string e (str ''rrtype'') (Some (dns_type_to_string (rr_type rr))),
            json_builder_add_uint e (str ''ttl'') (ucast (rr_ttl rr))] @ rd @ [json_builder_end_object e] @ rest) }"

definition dns_steps :: "json_env \<Rightarrow> json_output_ctx \<Rightarrow> dns_transaction \<Rightarrow> 'p flow option \<Rightarrow> (json_builder \<Rightarrow> json_builder) list option" where
  "dns_steps e c tx flow = do {
     answers \<leftarrow> (if tx_is_response tx \<and> tx_answers tx \<noteq> [] then answer_steps e (take (unat (tx_ancount tx)) (tx_answers tx)) else Some []);
     Some ([json_builder_start_object e]
       @ when_on (log_timestamp c) [json_add_timestamp e (str ''timestamp'') None]
       @ [json_builder_add_string e (str ''event_type'') (Some (str ''dns''))]
       @ when_on (log_flow_info c \<and> flow \<noteq> None) [json_add_flow_info e flow]
       @ [json_builder_add_string e (str ''dns'') None, json_builder_start_object e,
          json_builder_add_string e (str ''type'') (Some (if tx_is_response tx then str ''answer'' else str ''query'')),
          json_builder_add_uint e (str ''id'') (ucast (txid tx))]
       @ (case tx_questions tx of [] \<Rightarrow> [] | q # _ \<Rightarrow>
          [json_builder_add_string e (str ''rrname'') (Some (q_name q)),
           json_builder_add_string e (str ''rrtype'') (Some (dns_type_to_string (q_type q)))])
       @ when_on (tx_is_response tx) [json_builder_add_string e (str ''rcode'') (Some (dns_rcode_to_string (tx_rcode tx)))]
       @ when_on (tx_is_response tx \<and> tx_answers tx \<noteq> [])
          ([json_builder_add_string e (str ''answers'') None, json_builder_start_array e] @ answers @ [json_builder_end_array e])
       @ [json_builder_end_object e, json_builder_end_object e]) }"

definition json_output_dns :: "json_env \<Rightarrow> json_output_ctx option \<Rightarrow> dns_transaction option \<Rightarrow> 'p flow option \<Rightarrow> json_world \<Rightarrow>
    (int \<times> json_output_ctx option \<times> json_world) option" where
  "json_output_dns e ctx tx flow w = (case (ctx, tx) of
     (Some c, Some t) \<Rightarrow> map_option (\<lambda>fs. emit e ctx fs w) (dns_steps e c t flow)
   | _ \<Rightarrow> Some (-1, ctx, w))"

text \<open>The fingerprints have 16 bytes.\<close>

definition hex_text :: "bytes \<Rightarrow> bytes" where
  "hex_text h = concat (map (\<lambda>b. [hex_digit (unat b div 16), hex_digit (unat b mod 16)]) (take 16 h))"

definition tls_steps :: "json_env \<Rightarrow> json_output_ctx \<Rightarrow> tls_conn \<Rightarrow> 'p flow option \<Rightarrow> (json_builder \<Rightarrow> json_builder) list" where
  "tls_steps e c conn flow =
    [json_builder_start_object e]
    @ when_on (log_timestamp c) [json_add_timestamp e (str ''timestamp'') None]
    @ [json_builder_add_string e (str ''event_type'') (Some (str ''tls''))]
    @ when_on (log_flow_info c \<and> flow \<noteq> None) [json_add_flow_info e flow]
    @ [json_builder_add_string e (str ''tls'') None, json_builder_start_object e]
    @ (case tls_get_client_hello (Some conn) of None \<Rightarrow> [] | Some ch \<Rightarrow>
       (case ch_sni ch of None \<Rightarrow> [] | Some s \<Rightarrow> [json_builder_add_string e (str ''sni'') (Some s)])
       @ [json_builder_add_string e (str ''version'') (Some (tls_version_to_string (ch_version ch))),
          json_builder_add_string e (str ''ja3'') (Some (hex_text (ch_ja3_hash ch))),
          json_builder_add_string e (str ''ja3_string'') (Some (ch_ja3_string ch))])
    @ (case tls_get_server_hello (Some conn) of None \<Rightarrow> [] | Some sh \<Rightarrow>
       [json_builder_add_string e (str ''version_agreed'') (Some (tls_version_to_string (sh_version sh))),
        json_builder_add_string e (str ''cipher'') (Some (sh_cipher_suite_name sh)),
        json_builder_add_string e (str ''ja3s'') (Some (hex_text (sh_ja3s_hash sh)))])
    @ [json_builder_end_object e, json_builder_end_object e]"

definition json_output_tls :: "json_env \<Rightarrow> json_output_ctx option \<Rightarrow> tls_conn option \<Rightarrow> 'p flow option \<Rightarrow> json_world \<Rightarrow> int \<times> json_output_ctx option \<times> json_world" where
  "json_output_tls e ctx conn flow w = (case (ctx, conn) of
     (Some c, Some t) \<Rightarrow> emit e ctx (tls_steps e c t flow) w
   | _ \<Rightarrow> (-1, ctx, w))"

definition flow_steps :: "json_env \<Rightarrow> json_output_ctx \<Rightarrow> 'p flow \<Rightarrow> (json_builder \<Rightarrow> json_builder) list" where
  "flow_steps e c f =
    [json_builder_start_object e]
    @ when_on (log_timestamp c) [json_add_timestamp e (str ''timestamp'') None]
    @ [json_builder_add_string e (str ''event_type'') (Some (str ''flow'')), json_add_flow_info e (Some f),
       json_builder_add_string e (str ''app_proto'') (Some (app_proto_to_string (alproto f)))]
    @ (case f_tcp f of None \<Rightarrow> [] | Some s \<Rightarrow>
       [json_builder_add_uint e (str ''pkts_toserver'') (seg_cnt s), json_builder_add_uint e (str ''bytes_toserver'') (byte_cnt s)])
    @ [json_builder_end_object e]"

text \<open>\<^verbatim>\<open>protoctx.tcp\<close> is a member of a union: a flow that is not TCP and has a parser there would be read as a session.\<close>

definition json_output_flow :: "json_env \<Rightarrow> json_output_ctx option \<Rightarrow> 'p flow option \<Rightarrow> json_world \<Rightarrow> (int \<times> json_output_ctx option \<times> json_world) option" where
  "json_output_flow e ctx flow w = (case (ctx, flow) of
     (Some c, Some f) \<Rightarrow> if f_tcp f = None \<and> f_udp f \<noteq> None then None else Some (emit e ctx (flow_steps e c f) w)
   | _ \<Rightarrow> Some (-1, ctx, w))"

definition stats_steps :: "json_env \<Rightarrow> json_output_ctx \<Rightarrow> (json_builder \<Rightarrow> json_builder) list" where
  "stats_steps e c =
    [json_builder_start_object e]
    @ when_on (log_timestamp c) [json_add_timestamp e (str ''timestamp'') None]
    @ [json_builder_add_string e (str ''event_type'') (Some (str ''stats'')),
       json_builder_add_string e (str ''stats'') None,
       json_builder_start_object e,
       json_builder_add_uint e (str ''events_written'') (events_written c),
       json_builder_add_uint e (str ''bytes_written'') (bytes_written c),
       json_builder_add_uint e (str ''rotations'') (rotations c),
       json_builder_end_object e,
       json_builder_end_object e]"

definition json_output_stats :: "json_env \<Rightarrow> json_output_ctx option \<Rightarrow> json_world \<Rightarrow> int \<times> json_output_ctx option \<times> json_world" where
  "json_output_stats e ctx w = (case ctx of None \<Rightarrow> (-1, None, w) | Some c \<Rightarrow> emit e ctx (stats_steps e c) w)"

definition json_output_get_stats :: "json_output_ctx \<Rightarrow> nat \<Rightarrow> bytes" where
  "json_output_get_stats c buflen = take (buflen - 1) (str ''JSON Output: events='' @ show_dec (unat (events_written c)) @ str '' bytes='' @
     show_dec (unat (bytes_written c)) @ str '' rotations='' @ show_dec (unat (rotations c)) @ str '' errors='' @ show_dec (unat (write_errors c)))"

section \<open>Bounds of the builder\<close>

datatype json_op = StartObject | EndObject | StartArray | EndArray | AddString bytes "bytes option" | AddInt bytes "64 word" | AddUint bytes u64
  | AddBool bytes bool | AddNull bytes | AddTimestamp bytes "timeval option" | Reset

fun json_step :: "json_env \<Rightarrow> json_op \<Rightarrow> json_builder \<Rightarrow> json_builder" where
  "json_step e StartObject = json_builder_start_object e"
| "json_step e EndObject = json_builder_end_object e"
| "json_step e StartArray = json_builder_start_array e"
| "json_step e EndArray = json_builder_end_array e"
| "json_step e (AddString k v) = json_builder_add_string e k v"
| "json_step e (AddInt k v) = json_builder_add_int e k v"
| "json_step e (AddUint k v) = json_builder_add_uint e k v"
| "json_step e (AddBool k v) = json_builder_add_bool e k v"
| "json_step e (AddNull k) = json_builder_add_null e k"
| "json_step e (AddTimestamp k ts) = json_add_timestamp e k ts"
| "json_step e Reset = json_builder_reset"

definition builder_ok :: "json_builder \<Rightarrow> bool" where
  "builder_ok jb \<longleftrightarrow> length (jb_text jb) < jb_size jb"

lemma grow_size: "grow e need sz n = (ok, sz', n') \<Longrightarrow> sz \<le> sz' \<and> (ok \<longrightarrow> need < sz')"
proof (induction e need sz n rule: grow.induct)
  case (1 e need sz n)
  show ?case
    using "1.prems" "1.IH" by (subst (asm) grow.simps) (auto split: if_splits)
qed

lemma append_ok: "builder_ok jb \<Longrightarrow> builder_ok (json_builder_append e s jb)"
proof -
  assume "builder_ok jb"
  obtain ok sz n where g: "grow e (length (jb_text jb) + length s + 1) (jb_size jb) (jb_allocs jb) = (ok, sz, n)"
    using prod_cases3 by blast
  show ?thesis
    using grow_size [OF g] g \<open>builder_ok jb\<close> by (cases ok) (simp_all add: json_builder_append_def builder_ok_def)
qed

lemma comma_ok: "builder_ok jb \<Longrightarrow> builder_ok (with_comma e jb)"
  by (simp add: with_comma_def append_ok)

lemma indent_ok [simp]: "builder_ok (jb\<lparr>indent_level := i\<rparr>) = builder_ok jb"
  by (simp add: builder_ok_def)

lemmas builder_defs = json_builder_start_object_def json_builder_end_object_def json_builder_start_array_def json_builder_end_array_def
  json_builder_append_char_def json_builder_add_string_def json_builder_add_int_def json_builder_add_uint_def json_builder_add_bool_def
  json_builder_add_null_def add_raw_def json_add_timestamp_def

lemma json_step_ok: "builder_ok jb \<Longrightarrow> builder_ok (json_step e op jb)"
  by (cases op) (simp_all add: builder_defs Let_def append_ok comma_ok json_builder_reset_def, simp add: builder_ok_def)

text \<open>Escaping stays within its buffer.\<close>

lemma esc_char_length: "length (esc_char c) \<le> 2"
  by (simp add: esc_char_def)

lemma esc_loop_bound: "2 \<le> n \<Longrightarrow> length out < n \<Longrightarrow> length (esc_loop n s out) < n"
proof (induction n s out rule: esc_loop.induct)
  case (2 n c cs out)
  then show ?case
    using esc_char_length [of c] by auto
qed simp

text \<open>C34: Whatever is added to a builder, in whatever order, and whichever enlargements of its buffer fail, its text and the zero after it
  stay within the buffer, and escaping never writes past the 4096 bytes of its own.\<close>

theorem json_builder_in_bounds:
  assumes "json_builder_create e n sz = (Some jb, n')"
  shows "length (jb_text (fold (json_step e) ops jb)) < jb_size (fold (json_step e) ops jb) \<and> length (json_escape_string s 4096) < 4096"
proof -
  have "builder_ok jb"
    using assms by (auto simp: json_builder_create_def builder_ok_def JSON_BUFFER_SIZE_def split: if_splits)
  then have "builder_ok (fold (json_step e) ops jb)"
    by (induction ops arbitrary: jb) (simp_all add: json_step_ok)
  then show ?thesis
    using esc_loop_bound [of 4096 "[]" s] by (simp add: builder_ok_def json_escape_string_def)
qed

definition sample_json_env :: json_env where
  "sample_json_env = \<lparr>j_env = \<lparr>malloc_ok = (\<lambda>_. True), malloc_junk = (\<lambda>_ _. 0)\<rparr>, gmtime = (\<lambda>_. (2025, 6, 16, 12, 0, 0)),
     ntop_words = (\<lambda>_ _. str ''10.0.0.1''), ntop_bytes = (\<lambda>_ _. str ''10.0.0.1''), j_now = \<lparr>tv_sec = 1, tv_usec = 5\<rparr>, fopen_ok = (\<lambda>_. True),
     fprintf_ok = True\<rparr>"

theorem json_builder_in_bounds_witness:
  "\<exists>jb n'. json_builder_create sample_json_env 0 4 = (Some jb, n') \<and>
     length (jb_text (json_step sample_json_env (AddUint (str ''length'') 7) jb)) < jb_size (json_step sample_json_env (AddUint (str ''length'') 7) jb)"
proof -
  obtain jb n' where c: "json_builder_create sample_json_env 0 4 = (Some jb, n')"
    by (simp add: json_builder_create_def sample_json_env_def)
  then show ?thesis
    using json_builder_in_bounds [OF c, of "[AddUint (str ''length'') 7]"] by auto
qed

section \<open>A reader\<close>

text \<open>Reference: a reader of JSON texts without blanks.\<close>

datatype jval = JStr bytes | JNum nat | JBool bool | JNull | JObj "(bytes \<times> jval) list" | JArr "jval list"

definition unesc :: "u8 \<Rightarrow> u8 option" where
  "unesc c = (if c = 34 \<or> c = 92 then Some c else if c = 110 then Some 10 else if c = 114 then Some 13 else if c = 116 then Some 9 else None)"

fun rd_str :: "bytes \<Rightarrow> (bytes \<times> bytes) option" where
  "rd_str [] = None"
| "rd_str (c # cs) =
    (if c = 34 then Some ([], cs)
     else if c = 92 then (case cs of [] \<Rightarrow> None | d # ds \<Rightarrow> do { x \<leftarrow> unesc d; (s, r) \<leftarrow> rd_str ds; Some (x # s, r) })
     else if c < 32 then None
     else do { (s, r) \<leftarrow> rd_str cs; Some (c # s, r) })"

definition is_digit :: "u8 \<Rightarrow> bool" where
  "is_digit c \<longleftrightarrow> 48 \<le> c \<and> c \<le> 57"

definition rd_lit :: "bytes \<Rightarrow> jval \<Rightarrow> bytes \<Rightarrow> (jval \<times> bytes) option" where
  "rd_lit w v s = (if take (length w) s = w then Some (v, drop (length w) s) else None)"

fun rd_val :: "nat \<Rightarrow> bytes \<Rightarrow> (jval \<times> bytes) option"
  and rd_members :: "nat \<Rightarrow> bytes \<Rightarrow> ((bytes \<times> jval) list \<times> bytes) option"
  and rd_items :: "nat \<Rightarrow> bytes \<Rightarrow> (jval list \<times> bytes) option" where
  "rd_val 0 s = None"
| "rd_val (Suc n) s = (case s of
     [] \<Rightarrow> None
   | c # cs \<Rightarrow>
      if c = 34 then map_option (\<lambda>(v, r). (JStr v, r)) (rd_str cs)
      else if is_digit c then Some (JNum (digits_val (takeWhile is_digit s) 0), dropWhile is_digit s)
      else if c = 123 then (if cs \<noteq> [] \<and> hd cs = 125 then Some (JObj [], tl cs) else map_option (\<lambda>(ms, r). (JObj ms, r)) (rd_members n cs))
      else if c = 91 then (if cs \<noteq> [] \<and> hd cs = 93 then Some (JArr [], tl cs) else map_option (\<lambda>(vs, r). (JArr vs, r)) (rd_items n cs))
      else if c = 116 then rd_lit (str ''true'') (JBool True) s
      else if c = 102 then rd_lit (str ''false'') (JBool False) s
      else rd_lit (str ''null'') JNull s)"
| "rd_members 0 s = None"
| "rd_members (Suc n) s = (case s of
     [] \<Rightarrow> None
   | c # cs \<Rightarrow>
      if c \<noteq> 34 then None
      else case rd_str cs of
        None \<Rightarrow> None
      | Some (k, r) \<Rightarrow>
         if r = [] \<or> hd r \<noteq> 58 then None
         else case rd_val n (tl r) of
           None \<Rightarrow> None
         | Some (v, r2) \<Rightarrow>
            if r2 \<noteq> [] \<and> hd r2 = 44 then map_option (\<lambda>(ms, r3). ((k, v) # ms, r3)) (rd_members n (tl r2))
            else if r2 \<noteq> [] \<and> hd r2 = 125 then Some ([(k, v)], tl r2)
            else None)"
| "rd_items 0 s = None"
| "rd_items (Suc n) s = (case rd_val n s of
     None \<Rightarrow> None
   | Some (v, r) \<Rightarrow>
      if r \<noteq> [] \<and> hd r = 44 then map_option (\<lambda>(vs, r2). (v # vs, r2)) (rd_items n (tl r))
      else if r \<noteq> [] \<and> hd r = 93 then Some ([v], tl r)
      else None)"

definition json_read :: "bytes \<Rightarrow> jval option" where
  "json_read s = (case rd_val (length s + 1) s of Some (v, []) \<Rightarrow> Some v | _ \<Rightarrow> None)"

section \<open>Texts of objects\<close>

definition escape :: "bytes \<Rightarrow> bytes" where
  "escape s = concat (map esc_char s)"

text \<open>Texts that escaping keeps: no other control character than tab and line ends.\<close>

definition textual :: "bytes \<Rightarrow> bool" where
  "textual s \<longleftrightarrow> (\<forall>c \<in> set s. 32 \<le> c \<or> c \<in> {9, 10, 13})"

definition plain_key :: "bytes \<Rightarrow> bool" where
  "plain_key k \<longleftrightarrow> (\<forall>c \<in> set k. 32 \<le> c \<and> c \<noteq> 34 \<and> c \<noteq> 92) \<and> length k \<le> 100"

lemma esc_loop_escape: "0 \<notin> set s \<Longrightarrow> length out + length (escape s) + 2 \<le> n \<Longrightarrow> esc_loop n s out = out @ escape s"
proof (induction s arbitrary: out)
  case (Cons c s)
  have "esc_char c \<noteq> []"
    by (simp add: esc_char_def)
  then have "length out < n - 2"
    using Cons.prems(2) by (cases "esc_char c") (auto simp: escape_def)
  then show ?case
    using Cons.IH [of "out @ esc_char c"] Cons.prems by (auto simp: escape_def)
qed (simp add: escape_def)

lemma rd_str_escape: "textual s \<Longrightarrow> rd_str (escape s @ 34 # r) = Some (s, r)"
proof (induction s)
  case (Cons c s)
  then have ih: "rd_str (escape s @ 34 # r) = Some (s, r)" and c: "32 \<le> c \<or> c \<in> {9, 10, 13}"
    by (auto simp: textual_def)
  consider "c = 34 \<or> c = 92" | "c = 9" | "c = 10" | "c = 13" | "32 \<le> c" "c \<noteq> 34" "c \<noteq> 92"
    using c by auto
  then show ?case
  proof cases
    case 5
    then have "c \<noteq> 10" "c \<noteq> 13" "c \<noteq> 9" "\<not> c < 32"
      by auto
    then show ?thesis
      using 5 ih by (simp add: escape_def esc_char_def)
  qed (use ih in \<open>auto simp: escape_def esc_char_def unesc_def\<close>)
qed (simp add: escape_def)

lemma rd_str_key: "\<forall>c \<in> set k. 32 \<le> c \<and> c \<noteq> 34 \<and> c \<noteq> 92 \<Longrightarrow> rd_str (k @ 34 # r) = Some (k, r)"
proof (induction k)
  case (Cons c k)
  then have "\<not> c < 32"
    by auto
  then show ?case
    using Cons by simp
qed simp

text \<open>Members of a flat object: texts and numbers.\<close>

datatype jfield = FStr bytes bytes | FNum bytes u64

fun field_text :: "jfield \<Rightarrow> bytes" where
  "field_text (FStr k v) = [34] @ k @ [34, 58, 34] @ escape v @ [34]"
| "field_text (FNum k n) = [34] @ k @ [34, 58] @ show_dec (unat n)"

fun field_ok :: "jfield \<Rightarrow> bool" where
  "field_ok (FStr k v) = (plain_key k \<and> textual v \<and> length (escape v) \<le> 3900)"
| "field_ok (FNum k n) = plain_key k"

fun field_val :: "jfield \<Rightarrow> bytes \<times> jval" where
  "field_val (FStr k v) = (k, JStr v)"
| "field_val (FNum k n) = (k, JNum (unat n))"

fun field_step :: "json_env \<Rightarrow> jfield \<Rightarrow> json_builder \<Rightarrow> json_builder" where
  "field_step e (FStr k v) = json_builder_add_string e k (Some v)"
| "field_step e (FNum k n) = json_builder_add_uint e k n"

lemma digits_is_digit: "all_digits ds \<Longrightarrow> \<forall>c \<in> set ds. is_digit c"
  by (simp add: all_digits_def is_digit_def)

lemma rd_val_field:
  assumes "field_ok f" and "r = [] \<or> \<not> is_digit (hd r)"
  shows "\<exists>k t. field_text f @ r = 34 # k @ 34 # 58 # t \<and> plain_key k \<and> fst (field_val f) = k \<and> rd_val (Suc n) t = Some (snd (field_val f), r)"
proof (cases f)
  case (FStr k v)
  then show ?thesis
    using assms(1) rd_str_escape [of v r] by (intro exI [of _ k] exI [of _ "34 # escape v @ 34 # r"]) simp
next
  case (FNum k m)
  have d: "all_digits (show_dec (unat m))" "show_dec (unat m) \<noteq> []"
    by (rule show_dec_digits, rule show_dec_nonempty)
  obtain c cs where cs: "show_dec (unat m) = c # cs"
    using d(2) by (cases "show_dec (unat m)") auto
  have c: "is_digit c" "c \<noteq> 34"
    using digits_is_digit [OF d(1)] cs by (auto simp: is_digit_def)
  have tw: "takeWhile is_digit (show_dec (unat m) @ r) = show_dec (unat m)" "dropWhile is_digit (show_dec (unat m) @ r) = r"
    using digits_is_digit [OF d(1)] assms(2) by (cases r; simp)+
  have "rd_val (Suc n) (show_dec (unat m) @ r) = Some (JNum (unat m), r)"
    using c tw digits_val_show [of "unat m"] by (simp add: cs)
  then show ?thesis
    using assms(1) FNum by (intro exI [of _ k] exI [of _ "show_dec (unat m) @ r"]) simp
qed

fun fields_text :: "jfield list \<Rightarrow> bytes" where
  "fields_text [] = []"
| "fields_text [f] = field_text f"
| "fields_text (f # g # fs) = field_text f @ [44] @ fields_text (g # fs)"

lemma rd_members_fields:
  "fs \<noteq> [] \<Longrightarrow> \<forall>f \<in> set fs. field_ok f \<Longrightarrow> length fs < n \<Longrightarrow>
    rd_members n (fields_text fs @ 125 # r) = Some (map field_val fs, r)"
proof (induction fs arbitrary: n rule: fields_text.induct)
  case (2 f)
  then obtain m where n: "n = Suc (Suc m)"
    by (cases n; cases "n - 1") auto
  obtain k t where t: "field_text f @ 125 # r = 34 # k @ 34 # 58 # t" "plain_key k" "fst (field_val f) = k"
      "rd_val (Suc m) t = Some (snd (field_val f), 125 # r)"
    using rd_val_field [of f "125 # r" m] 2 by (auto simp: is_digit_def)
  then show ?case
    using rd_str_key [of k "58 # t"] by (cases "field_val f") (simp add: n plain_key_def del: rd_val.simps)
next
  case (3 f g fs)
  then obtain m where n: "n = Suc (Suc m)"
    by (cases n; cases "n - 1") auto
  obtain k t where t: "field_text f @ 44 # fields_text (g # fs) @ 125 # r = 34 # k @ 34 # 58 # t" "plain_key k" "fst (field_val f) = k"
      "rd_val (Suc m) t = Some (snd (field_val f), 44 # fields_text (g # fs) @ 125 # r)"
    using rd_val_field [of f "44 # fields_text (g # fs) @ 125 # r" m] 3 by (auto simp: is_digit_def)
  have ih: "rd_members (Suc m) (fields_text (g # fs) @ 125 # r) = Some (map field_val (g # fs), r)"
    using "3.IH" [of "Suc m"] "3.prems" n by simp
  show ?case
    using rd_str_key [of k "58 # t"] t ih by (cases "field_val f") (simp add: n plain_key_def del: rd_val.simps fields_text.simps(2))
qed simp

text \<open>A member cannot begin with a brace.\<close>

lemma rd_members_brace:
  "fs \<noteq> [] \<Longrightarrow> \<forall>f \<in> set fs. field_ok f \<Longrightarrow> rd_members n (fields_text fs @ 44 # 123 # r) = None"
proof (induction fs arbitrary: n rule: fields_text.induct)
  case (2 f)
  show ?case
  proof (cases "\<exists>m. n = Suc (Suc m)")
    case True
    then obtain m where n: "n = Suc (Suc m)"
      by blast
    obtain k t where t: "field_text f @ 44 # 123 # r = 34 # k @ 34 # 58 # t" "plain_key k" "fst (field_val f) = k"
        "rd_val (Suc m) t = Some (snd (field_val f), 44 # 123 # r)"
      using rd_val_field [of f "44 # 123 # r" m] 2 by (auto simp: is_digit_def)
    then show ?thesis
      using rd_str_key [of k "58 # t"] by (simp add: n plain_key_def del: rd_val.simps)
  next
    case False
    then have "n = 0 \<or> n = 1"
      by (cases n; cases "n - 1") auto
    then show ?thesis
      by (auto split: list.splits option.splits)
  qed
next
  case (3 f g fs)
  show ?case
  proof (cases "\<exists>m. n = Suc (Suc m)")
    case True
    then obtain m where n: "n = Suc (Suc m)"
      by blast
    obtain k t where t: "field_text f @ 44 # fields_text (g # fs) @ 44 # 123 # r = 34 # k @ 34 # 58 # t" "plain_key k" "fst (field_val f) = k"
        "rd_val (Suc m) t = Some (snd (field_val f), 44 # fields_text (g # fs) @ 44 # 123 # r)"
      using rd_val_field [of f "44 # fields_text (g # fs) @ 44 # 123 # r" m] 3 by (auto simp: is_digit_def)
    have ih: "rd_members (Suc m) (fields_text (g # fs) @ 44 # 123 # r) = None"
      using "3.IH" [of "Suc m"] "3.prems" by simp
    show ?thesis
      using rd_str_key [of k "58 # t"] t ih by (simp add: n plain_key_def del: rd_val.simps fields_text.simps(2))
  next
    case False
    then have "n = 0 \<or> n = 1"
      by (cases n; cases "n - 1") auto
    then show ?thesis
      by (auto split: list.splits option.splits)
  qed
qed simp

section \<open>Texts that the builder makes\<close>

definition allocs_ok :: "json_env \<Rightarrow> bool" where
  "allocs_ok e \<longleftrightarrow> (\<forall>k. malloc_ok (j_env e) k)"

lemma grow_ok: "allocs_ok e \<Longrightarrow> 0 < sz \<Longrightarrow> \<exists>sz' n'. grow e need sz n = (True, sz', n') \<and> 0 < sz'"
proof (induction e need sz n rule: grow.induct)
  case (1 e need sz n)
  then show ?case
    by (subst grow.simps) (auto simp: allocs_ok_def)
qed

lemma append_text:
  assumes "allocs_ok e" and "0 < jb_size jb"
  shows "jb_text (json_builder_append e s jb) = jb_text jb @ s" and "0 < jb_size (json_builder_append e s jb)"
  using grow_ok [OF assms, of "length (jb_text jb) + length s + 1" "jb_allocs jb"] by (auto simp: json_builder_append_def)

definition comma_text :: "bytes \<Rightarrow> bytes" where
  "comma_text t = (if comma_scan (rev t) then [44] else [])"

lemma with_comma_text:
  assumes "allocs_ok e" and "0 < jb_size jb"
  shows "jb_text (with_comma e jb) = jb_text jb @ comma_text (jb_text jb)" and "0 < jb_size (with_comma e jb)"
  using append_text [OF assms] assms(2) by (simp_all add: with_comma_def comma_text_def json_needs_comma_def str_def)

lemma u64_dec_length: "length (show_dec (unat (n :: u64))) \<le> 20"
proof -
  have "unat n < 10 ^ Suc 19"
    using unsigned_less [of n, where ?'a = nat] by simp
  then show ?thesis
    using length_show_dec by fastforce
qed

lemma field_step_text:
  assumes "allocs_ok e" and "0 < jb_size jb" and "field_ok f"
  shows "jb_text (field_step e f jb) = jb_text jb @ comma_text (jb_text jb) @ field_text f" and "0 < jb_size (field_step e f jb)"
proof -
  note c = with_comma_text [OF assms(1,2)]
  have "jb_text (field_step e f jb) = jb_text jb @ comma_text (jb_text jb) @ field_text f \<and> 0 < jb_size (field_step e f jb)"
  proof (cases f)
    case (FStr k v)
    have z: "0 \<notin> set v"
      using assms(3) FStr by (auto simp: textual_def)
    then have "json_escape_string v 4096 = escape v"
      using esc_loop_escape [OF z, of "[]" 4096] assms(3) FStr by (simp add: json_escape_string_def)
    moreover have "length ([34] @ k @ [34, 58, 34] @ escape v @ [34]) \<le> 4095"
      using assms(3) FStr by (simp add: plain_key_def)
    ultimately show ?thesis
      using append_text [OF assms(1) c(2)] FStr c(1) by (simp add: json_builder_add_string_def del: append.simps)
  next
    case (FNum k n)
    moreover have "length ([34] @ k @ [34, 58] @ show_dec (unat n)) \<le> 255"
      using assms(3) FNum u64_dec_length [of n] by (simp add: plain_key_def)
    ultimately show ?thesis
      using append_text [OF assms(1) c(2)] c(1) by (simp add: json_builder_add_uint_def add_raw_def del: append.simps)
  qed
  then show "jb_text (field_step e f jb) = jb_text jb @ comma_text (jb_text jb) @ field_text f" and "0 < jb_size (field_step e f jb)"
    by simp_all
qed

lemma comma_after_field: "comma_text (t @ field_text f) = [44]"
proof (cases f)
  case (FNum k n)
  obtain ds d where d: "show_dec (unat n) = ds @ [d]"
    using show_dec_nonempty [of "unat n"] by (cases "show_dec (unat n)" rule: rev_cases) auto
  then have "is_digit d"
    using digits_is_digit [OF show_dec_digits [of "unat n"]] by simp
  then have "d \<noteq> 123 \<and> d \<noteq> 91 \<and> d \<noteq> 44 \<and> d \<noteq> 58 \<and> d \<noteq> 32 \<and> d \<noteq> 10 \<and> d \<noteq> 9"
    by (auto simp: is_digit_def)
  then show ?thesis
    using FNum d by (simp add: comma_text_def)
qed (simp add: comma_text_def)

lemma fields_text_Cons: "fields_text (f # fs) = field_text f @ concat (map (\<lambda>g. 44 # field_text g) fs)"
proof (induction fs arbitrary: f)
  case (Cons g fs)
  show ?case
    using Cons.IH [of g] by simp
qed simp

lemma more_fields_text:
  assumes "allocs_ok e"
  shows "0 < jb_size jb \<Longrightarrow> \<forall>f \<in> set fs. field_ok f \<Longrightarrow> comma_text (jb_text jb) = [44] \<Longrightarrow>
    jb_text (fold (field_step e) fs jb) = jb_text jb @ concat (map (\<lambda>g. 44 # field_text g) fs) \<and> 0 < jb_size (fold (field_step e) fs jb)
      \<and> comma_text (jb_text (fold (field_step e) fs jb)) = [44]"
proof (induction fs arbitrary: jb)
  case (Cons f fs)
  note t = field_step_text [OF assms Cons.prems(1), of f]
  have "comma_text (jb_text (field_step e f jb)) = [44]"
    using t(1) Cons.prems(2) comma_after_field [of "jb_text jb @ comma_text (jb_text jb)" f] by simp
  then show ?case
    using Cons.IH [of "field_step e f jb"] Cons.prems t by auto
qed simp

text \<open>An object that has been opened and given members.\<close>

definition new_builder :: "nat \<Rightarrow> json_builder" where
  "new_builder n = \<lparr>jb_text = [], jb_size = JSON_BUFFER_SIZE, indent_level = 0, jb_allocs = n\<rparr>"

lemma open_object_text:
  assumes "allocs_ok e" and "\<forall>f \<in> set fs. field_ok f" and "fs \<noteq> []"
  shows "jb_text (fold (field_step e) fs (json_builder_start_object e (new_builder n))) = 123 # fields_text fs"
    and "0 < jb_size (fold (field_step e) fs (json_builder_start_object e (new_builder n)))"
    and "comma_text (jb_text (fold (field_step e) fs (json_builder_start_object e (new_builder n)))) = [44]"
proof -
  have s: "jb_text (json_builder_start_object e (new_builder n)) = [123]" "0 < jb_size (json_builder_start_object e (new_builder n))"
    using append_text [OF assms(1), of "new_builder n" "[123]"]
    by (simp_all add: json_builder_start_object_def json_builder_append_char_def with_comma_def json_needs_comma_def Let_def new_builder_def JSON_BUFFER_SIZE_def)
  obtain f gs where fs: "fs = f # gs"
    using assms(3) by (cases fs) auto
  have f: "jb_text (field_step e f (json_builder_start_object e (new_builder n))) = 123 # field_text f"
      "0 < jb_size (field_step e f (json_builder_start_object e (new_builder n)))"
    using field_step_text [OF assms(1) s(2), of f] assms(2) s(1) fs by (simp_all add: comma_text_def)
  have "comma_text (123 # field_text f) = [44]"
    using comma_after_field [of "[123]" f] by simp
  then show "jb_text (fold (field_step e) fs (json_builder_start_object e (new_builder n))) = 123 # fields_text fs"
    and "0 < jb_size (fold (field_step e) fs (json_builder_start_object e (new_builder n)))"
    and "comma_text (jb_text (fold (field_step e) fs (json_builder_start_object e (new_builder n)))) = [44]"
    using more_fields_text [OF assms(1) f(2), of gs] assms(2) f(1) fs fields_text_Cons [of f gs] by auto
qed

section \<open>Flow events can be read back\<close>

definition flow_info_fields :: "json_env \<Rightarrow> 'p flow \<Rightarrow> jfield list" where
  "flow_info_fields e f =
    (let v4 = f_flags f AND FLOW_IPV4 \<noteq> 0 in
     [FStr (str ''src_ip'') (ntop_words e v4 (f_src_addr f)), FNum (str ''src_port'') (ucast (f_src_port f)),
      FStr (str ''dest_ip'') (ntop_words e v4 (f_dst_addr f)), FNum (str ''dest_port'') (ucast (f_dst_port f)),
      FStr (str ''proto'') (if f_proto f = IPPROTO_TCP then str ''TCP'' else if f_proto f = IPPROTO_UDP then str ''UDP'' else str ''OTHER'')])"

definition flow_fields :: "json_env \<Rightarrow> json_output_ctx \<Rightarrow> 'p flow \<Rightarrow> jfield list" where
  "flow_fields e c f =
    (if log_timestamp c then [FStr (str ''timestamp'') (timestamp_text e (j_now e))] else [])
    @ [FStr (str ''event_type'') (str ''flow'')] @ flow_info_fields e f @ [FStr (str ''app_proto'') (app_proto_to_string (alproto f))]
    @ (case f_tcp f of None \<Rightarrow> [] | Some s \<Rightarrow> [FNum (str ''pkts_toserver'') (seg_cnt s), FNum (str ''bytes_toserver'') (byte_cnt s)])"

text \<open>What \<^verbatim>\<open>inet_ntop\<close> writes: at most 45 printable characters.\<close>

definition ntop_ok :: "json_env \<Rightarrow> bool" where
  "ntop_ok e \<longleftrightarrow> (\<forall>v4 a. textual (ntop_words e v4 a) \<and> length (ntop_words e v4 a) \<le> 45)"

lemma escape_length: "length (escape s) \<le> 2 * length s"
proof (induction s)
  case (Cons c s)
  then show ?case
    using esc_char_length [of c] by (simp add: escape_def)
qed (simp add: escape_def)

lemma short_text: "length s \<le> 100 \<Longrightarrow> length (escape s) \<le> 3900"
  using escape_length [of s] by simp

lemma textual_simps [simp]:
  "textual []" "textual (c # s) \<longleftrightarrow> (32 \<le> c \<or> c \<in> {9, 10, 13}) \<and> textual s" "textual (s @ t) \<longleftrightarrow> textual s \<and> textual t"
  by (auto simp: textual_def)

lemma textual_take: "textual s \<Longrightarrow> textual (take n s)"
  by (auto simp: textual_def dest: in_set_takeD)

lemma textual_pad: "textual (pad_dec w n)"
proof -
  have "textual (show_dec n)"
    using show_dec_digits [of n] order_trans [of 32 "48 :: u8"] by (auto simp: textual_def all_digits_def)
  then show ?thesis
    by (auto simp: pad_dec_def textual_def)
qed

lemma timestamp_textual: "textual (timestamp_text e ts)" "length (timestamp_text e ts) \<le> 100"
proof -
  show "textual (timestamp_text e ts)"
    by (simp add: timestamp_text_def textual_take textual_pad str_def split: prod.splits)
  have "\<exists>t. timestamp_text e ts = take 63 t"
    by (cases "gmtime e (tv_sec ts)") (auto simp: timestamp_text_def simp del: take_append)
  then show "length (timestamp_text e ts) \<le> 100"
    by auto
qed

lemma proto_name_textual: "n \<in> set proto_names \<Longrightarrow> textual n \<and> length n \<le> 100"
  unfolding proto_names_def str_def by auto

lemma proto_name_slot: "\<not> APP_PROTO_MAX \<le> p \<Longrightarrow> app_proto_val p < length proto_names"
  by (simp add: less_eq_app_proto_def proto_names_def)

lemma app_proto_textual: "textual (app_proto_to_string p)" "length (app_proto_to_string p) \<le> 100"
proof -
  have "textual (str ''invalid'') \<and> length (str ''invalid'') \<le> 100"
    by (simp add: str_def)
  then have "textual (app_proto_to_string p) \<and> length (app_proto_to_string p) \<le> 100"
    using proto_name_textual [OF nth_mem [OF proto_name_slot [of p]]] by (simp add: app_proto_to_string_def)
  then show "textual (app_proto_to_string p)" "length (app_proto_to_string p) \<le> 100"
    by simp_all
qed

lemma field_str_ok: "plain_key k \<Longrightarrow> textual v \<Longrightarrow> length v \<le> 100 \<Longrightarrow> field_ok (FStr k v)"
  by (simp add: short_text)

lemma plain_keys:
  "plain_key (str ''timestamp'')" "plain_key (str ''event_type'')" "plain_key (str ''src_ip'')" "plain_key (str ''src_port'')"
  "plain_key (str ''dest_ip'')" "plain_key (str ''dest_port'')" "plain_key (str ''proto'')" "plain_key (str ''app_proto'')"
  "plain_key (str ''pkts_toserver'')" "plain_key (str ''bytes_toserver'')" "plain_key (str ''alert'')" "plain_key (str ''http'')"
  "plain_key (str ''tls'')" "plain_key (str ''stats'')"
  by (simp_all add: plain_key_def str_def)

lemma short_words:
  "textual (str ''TCP'')" "textual (str ''UDP'')" "textual (str ''OTHER'')" "textual (str ''flow'')" "textual (str ''alert'')"
  "textual (str ''http'')" "textual (str ''tls'')" "textual (str ''stats'')"
  "length (str w) = length w"
  by (simp_all add: str_def)

lemma flow_info_ok: "ntop_ok e \<Longrightarrow> \<forall>x \<in> set (flow_info_fields e f). field_ok x"
  unfolding flow_info_fields_def Let_def ntop_ok_def
  by (auto intro!: field_str_ok simp: plain_keys short_words intro: order_trans [of _ 45] simp del: field_ok.simps(1))

lemma flow_fields_ok: "ntop_ok e \<Longrightarrow> \<forall>x \<in> set (flow_fields e c f). field_ok x"
  using flow_info_ok [of e f] timestamp_textual app_proto_textual unfolding flow_fields_def
  by (auto intro!: field_str_ok simp: plain_keys short_words simp del: field_ok.simps(1) split: option.splits if_splits)

lemma flow_info_steps: "json_add_flow_info e (Some f) jb = fold (field_step e) (flow_info_fields e f) jb"
  by (simp add: json_add_flow_info_def flow_info_fields_def Let_def)

lemma flow_steps_fold:
  "run_adds (flow_steps e c f) jb = json_builder_end_object e (fold (field_step e) (flow_fields e c f) (json_builder_start_object e jb))"
  by (simp add: run_adds_def flow_steps_def flow_fields_def flow_info_steps json_add_timestamp_def split: option.split)

lemma end_object_text:
  "allocs_ok e \<Longrightarrow> 0 < jb_size jb \<Longrightarrow> jb_text (json_builder_end_object e jb) = jb_text jb @ [125]"
  using append_text(1) [of e "jb\<lparr>indent_level := indent_level jb - 1\<rparr>"] by (simp add: json_builder_end_object_def json_builder_append_char_def)

lemma emit_stdout:
  assumes "allocs_ok e" and "fprintf_ok e" and "oj_fp c = Some Stdout" and "oj_filename c = None"
  shows "\<exists>c' w'. emit e (Some c) fs w = (0, Some c', w') \<and> events_written c' = events_written c + 1 \<and>
    jw_stdout w' = jw_stdout w @ jb_text (run_adds fs (new_builder (jw_allocs w + 2))) @ [10]"
  using assms
  by (simp add: emit_def json_builder_create_def allocs_ok_def new_builder_def [symmetric] Let_def json_output_write_def json_builder_get_string_def
      json_output_rotate_def write_line_def)

lemma read_flat:
  assumes "fs \<noteq> []" and "\<forall>f \<in> set fs. field_ok f"
  shows "json_read (123 # fields_text fs @ [125]) = Some (JObj (map field_val fs))"
proof -
  have pos: "1 \<le> length (field_text f)" for f
    by (cases f) simp_all
  have len: "length fs \<le> length (fields_text fs)"
  proof (cases fs)
    case (Cons f gs)
    have "length gs \<le> length (concat (map (\<lambda>g. 44 # field_text g) gs))"
      by (induction gs) simp_all
    then show ?thesis
      using Cons pos [of f] fields_text_Cons [of f gs] by simp
  qed simp
  have "fields_text fs \<noteq> [] \<and> hd (fields_text fs @ [125]) = 34"
    using assms(1) by (cases fs; cases "hd fs") (auto simp: fields_text_Cons)
  then show ?thesis
    using rd_members_fields [OF assms, of "length (fields_text fs) + 2" "[]"] len by (simp add: json_read_def is_digit_def del: rd_members.simps)
qed

text \<open>C15: The line that is written for a flow is a JSON object, and reading it gives back the members that describe the flow, whatever
  its addresses, ports and counters are.\<close>

theorem flow_event_roundtrip:
  assumes "allocs_ok e" and "fprintf_ok e" and "ntop_ok e" and "oj_fp c = Some Stdout" and "oj_filename c = None" and "f_udp f = None"
  shows "\<exists>c' w' line. json_output_flow e (Some c) (Some f) w = Some (0, Some c', w') \<and> events_written c' = events_written c + 1 \<and>
    jw_stdout w' = jw_stdout w @ line @ [10] \<and> json_read line = Some (JObj (map field_val (flow_fields e c f)))"
proof -
  have ne: "flow_fields e c f \<noteq> []"
    by (simp add: flow_fields_def)
  note ok = flow_fields_ok [OF assms(3), of c f]
  note t = open_object_text [OF assms(1) ok ne, of "jw_allocs w + 2"]
  have "jb_text (run_adds (flow_steps e c f) (new_builder (jw_allocs w + 2))) = 123 # fields_text (flow_fields e c f) @ [125]"
    using end_object_text [OF assms(1) t(2)] t(1) by (simp add: flow_steps_fold)
  then show ?thesis
    using emit_stdout [OF assms(1,2,4,5), of "flow_steps e c f" w] read_flat [OF ne ok] assms(6) by (auto simp: json_output_flow_def)
qed

definition stdout_ctx :: json_output_ctx where
  "stdout_ctx = \<lparr>oj_fp = Some Stdout, oj_filename = None, rotate_enabled = False, rotate_size = 0, rotate_interval = 0, rotate_count = 0,
     current_size = 0, last_rotate = 1, oj_indent = False, log_flow_info = True, log_timestamp = True, events_written = 0, bytes_written = 0,
     rotations = 0, write_errors = 0\<rparr>"

lemma sample_json_ok: "allocs_ok sample_json_env \<and> fprintf_ok sample_json_env \<and> ntop_ok sample_json_env \<and> oj_fp stdout_ctx = Some Stdout \<and> oj_filename stdout_ctx = None"
  by (simp add: sample_json_env_def allocs_ok_def ntop_ok_def stdout_ctx_def str_def)

theorem flow_event_roundtrip_witness:
  "\<exists>c' w' line. json_output_flow sample_json_env (Some stdout_ctx) (Some ((flow_zero :: unit flow)\<lparr>f_src_port := 4000, f_proto := 6\<rparr>)) \<lparr>jw_files = Map.empty, jw_stdout = [], jw_allocs = 0\<rparr>
     = Some (0, Some c', w') \<and> jw_stdout w' = line @ [10] \<and>
     (\<exists>ms. json_read line = Some (JObj ms) \<and> (str ''event_type'', JStr (str ''flow'')) \<in> set ms \<and> (str ''src_port'', JNum 4000) \<in> set ms)"
proof -
  let ?f = "(flow_zero :: unit flow)\<lparr>f_src_port := 4000, f_proto := 6\<rparr>"
  have "f_udp ?f = None"
    by (simp add: flow_zero_def)
  moreover have "field_val (FStr (str ''event_type'') (str ''flow'')) \<in> field_val ` set (flow_fields sample_json_env stdout_ctx ?f)"
      "field_val (FNum (str ''src_port'') 4000) \<in> field_val ` set (flow_fields sample_json_env stdout_ctx ?f)"
    by (intro imageI, simp add: flow_fields_def flow_info_fields_def Let_def)+
  ultimately show ?thesis
    using flow_event_roundtrip [of sample_json_env stdout_ctx ?f "\<lparr>jw_files = Map.empty, jw_stdout = [], jw_allocs = 0\<rparr>"] sample_json_ok by fastforce
qed

section \<open>Events with an object inside\<close>

text \<open>Steps that only add to the text.\<close>

definition extends :: "(json_builder \<Rightarrow> json_builder) \<Rightarrow> bool" where
  "extends f \<longleftrightarrow> (\<forall>jb. \<exists>r. jb_text (f jb) = jb_text jb @ r)"

lemma append_extends: "extends (json_builder_append e s)"
  by (auto simp: extends_def json_builder_append_def Let_def split: prod.splits)

lemma extends_comp: "extends f \<Longrightarrow> extends g \<Longrightarrow> extends (\<lambda>jb. f (g jb))"
  unfolding extends_def by (metis append.assoc)

lemma comma_extends: "extends (with_comma e)"
  using append_extends [of e "str '',''"] by (auto simp: extends_def with_comma_def)

lemma comma_append_extends: "extends (\<lambda>jb. json_builder_append e s (with_comma e jb))"
  by (rule extends_comp [OF append_extends comma_extends])

lemma adds_extend: "extends (json_builder_add_string e k v)" "extends (json_builder_add_uint e k n)"
  unfolding json_builder_add_string_def [abs_def] json_builder_add_uint_def [abs_def] add_raw_def Let_def by (rule comma_append_extends)+

lemma indent_extends: "extends (\<lambda>jb. jb\<lparr>indent_level := k jb\<rparr>)"
  by (simp add: extends_def)

lemma opening_extends: "extends (json_builder_start_object e)" "extends (json_builder_start_array e)"
  unfolding json_builder_start_object_def [abs_def] json_builder_start_array_def [abs_def] json_builder_append_char_def Let_def
  by (rule extends_comp [OF indent_extends comma_append_extends])+

lemma closing_extends: "extends (json_builder_end_object e)" "extends (json_builder_end_array e)"
  unfolding json_builder_end_object_def [abs_def] json_builder_end_array_def [abs_def] json_builder_append_char_def
  by (rule extends_comp [OF append_extends indent_extends])+

lemmas steps_extend = adds_extend opening_extends closing_extends

lemma run_adds_extends: "\<forall>f \<in> set fs. extends f \<Longrightarrow> \<exists>r. jb_text (run_adds fs jb) = jb_text jb @ r"
proof (induction fs arbitrary: jb)
  case (Cons f fs)
  obtain r where "jb_text (f jb) = jb_text jb @ r"
    using Cons.prems unfolding extends_def by (meson list.set_intros(1))
  then show ?case
    using Cons.IH [of "f jb"] Cons.prems by (auto simp: run_adds_def)
qed (simp add: run_adds_def)

lemma run_adds_append: "run_adds (fs @ gs) jb = run_adds gs (run_adds fs jb)"
  by (simp add: run_adds_def)

lemma read_nested:
  assumes "fs \<noteq> []" and "\<forall>f \<in> set fs. field_ok f"
  shows "json_read (123 # fields_text fs @ 44 # 123 # r) = None"
proof -
  have "fields_text fs \<noteq> [] \<and> hd (fields_text fs @ 44 # 123 # r) = 34"
    using assms(1) by (cases fs; cases "hd fs") (auto simp: fields_text_Cons)
  then show ?thesis
    using rd_members_brace [OF assms] by (simp add: json_read_def is_digit_def del: rd_members.simps)
qed

text \<open>An object that is opened when the one around it has members.\<close>

lemma nested_unreadable:
  assumes "allocs_ok e" and "\<forall>f \<in> set fs. field_ok f" and "fs \<noteq> []" and "\<forall>g \<in> set gs. extends g"
  shows "json_read (jb_text (run_adds gs (json_builder_start_object e (fold (field_step e) fs (json_builder_start_object e (new_builder n)))))) = None"
proof -
  let ?jb = "fold (field_step e) fs (json_builder_start_object e (new_builder n))"
  note t = open_object_text [OF assms(1-3), of n]
  note c = with_comma_text [OF assms(1) t(2)]
  have "jb_text (json_builder_start_object e ?jb) = 123 # fields_text fs @ [44, 123]"
    using append_text(1) [OF assms(1) c(2), of "[123]"] c(1) t by (simp add: json_builder_start_object_def json_builder_append_char_def Let_def)
  then show ?thesis
    using run_adds_extends [OF assms(4), of "json_builder_start_object e ?jb"] read_nested [OF assms(3,2)] by auto
qed

text \<open>The members before the inner object.\<close>

definition head_fields :: "json_env \<Rightarrow> json_output_ctx \<Rightarrow> timeval \<Rightarrow> bytes \<Rightarrow> 'p flow option \<Rightarrow> jfield list" where
  "head_fields e c ts kind flow =
    (if log_timestamp c then [FStr (str ''timestamp'') (timestamp_text e ts)] else [])
    @ [FStr (str ''event_type'') kind]
    @ (case flow of None \<Rightarrow> [] | Some f \<Rightarrow> if log_flow_info c then flow_info_fields e f else [])
    @ [FStr kind []]"

definition head_steps :: "json_env \<Rightarrow> json_output_ctx \<Rightarrow> timeval option \<Rightarrow> bytes \<Rightarrow> 'p flow option \<Rightarrow> (json_builder \<Rightarrow> json_builder) list" where
  "head_steps e c ts kind flow =
    [json_builder_start_object e]
    @ when_on (log_timestamp c) [json_add_timestamp e (str ''timestamp'') ts]
    @ [json_builder_add_string e (str ''event_type'') (Some kind)]
    @ when_on (log_flow_info c \<and> flow \<noteq> None) [json_add_flow_info e flow]
    @ [json_builder_add_string e kind None, json_builder_start_object e]"

lemma add_empty: "json_builder_add_string e k None = json_builder_add_string e k (Some [])"
  by (rule ext) (simp add: json_builder_add_string_def)

lemma head_steps_fold:
  "run_adds (head_steps e c ts kind flow) jb = json_builder_start_object e (fold (field_step e)
     (head_fields e c (case ts of None \<Rightarrow> j_now e | Some t \<Rightarrow> t) kind flow) (json_builder_start_object e jb))"
  by (cases flow) (simp_all add: run_adds_def head_steps_def head_fields_def flow_info_steps json_add_timestamp_def add_empty)

lemma head_fields_ok:
  assumes "ntop_ok e" and "plain_key kind" and "textual kind"
  shows "\<forall>x \<in> set (head_fields e c ts kind flow). field_ok x"
proof -
  have "length kind \<le> 100"
    using assms(2) by (simp add: plain_key_def)
  then show ?thesis
    using flow_info_ok [OF assms(1)] timestamp_textual assms(2,3) unfolding head_fields_def
    by (auto intro!: field_str_ok simp: plain_keys simp del: field_ok.simps(1) split: option.splits if_splits)
qed

text \<open>What a call writes: one line, which the reader does not accept.\<close>

definition unreadable_line :: "json_world \<Rightarrow> int \<times> json_output_ctx option \<times> json_world \<Rightarrow> bool" where
  "unreadable_line w r \<longleftrightarrow> (\<exists>line c' w'. r = (0, Some c', w') \<and> jw_stdout w' = jw_stdout w @ line @ [10] \<and> json_read line = None)"

lemma head_emit_unreadable:
  assumes "allocs_ok e" and "fprintf_ok e" and "ntop_ok e" and "oj_fp c = Some Stdout" and "oj_filename c = None"
    and "plain_key kind" and "textual kind" and "\<forall>g \<in> set gs. extends g" and "steps = head_steps e c ts kind flow @ gs"
  shows "unreadable_line w (emit e (Some c) steps w)"
proof -
  let ?fs = "head_fields e c (case ts of None \<Rightarrow> j_now e | Some t \<Rightarrow> t) kind flow"
  have "?fs \<noteq> []"
    by (simp add: head_fields_def)
  note u = nested_unreadable [OF assms(1) head_fields_ok [OF assms(3,6,7)] this assms(8), of "jw_allocs w + 2"]
  show ?thesis
    unfolding assms(9)
    using emit_stdout [OF assms(1,2,4,5), of "head_steps e c ts kind flow @ gs" w] u unfolding unreadable_line_def run_adds_append head_steps_fold by blast
qed

text \<open>The steps after the inner object has been opened.\<close>

lemma alert_steps_head: "\<exists>gs. alert_steps e c a flow = head_steps e c (Some (al_timestamp a)) (str ''alert'') flow @ gs \<and> (\<forall>g \<in> set gs. extends g)"
  by (simp add: alert_steps_def head_steps_def steps_extend)

lemma http_steps_head: "\<exists>gs. http_steps e c tx flow = head_steps e c None (str ''http'') flow @ gs \<and> (\<forall>g \<in> set gs. extends g)"
  by (cases "ht_response tx") (simp_all add: http_steps_def head_steps_def steps_extend Let_def)

lemma tls_steps_head: "\<exists>gs. tls_steps e c conn flow = head_steps e c None (str ''tls'') flow @ gs \<and> (\<forall>g \<in> set gs. extends g)"
  by (cases "tls_get_client_hello (Some conn)"; cases "tls_get_server_hello (Some conn)"; cases "ch_sni (the (tls_get_client_hello (Some conn)))")
    (simp_all add: tls_steps_def head_steps_def steps_extend)

lemma stats_steps_head: "\<exists>gs. stats_steps e c = head_steps e c None (str ''stats'') (None :: unit flow option) @ gs \<and> (\<forall>g \<in> set gs. extends g)"
  by (simp add: stats_steps_def head_steps_def steps_extend)

lemma rdata_steps_extend: "rdata_steps e rr = Some fs \<Longrightarrow> \<forall>g \<in> set fs. extends g"
  by (auto simp: rdata_steps_def steps_extend Let_def split: if_splits dns_parsed.splits)

lemma answer_steps_extend: "answer_steps e rrs = Some fs \<Longrightarrow> \<forall>g \<in> set fs. extends g"
proof (induction rrs arbitrary: fs)
  case (Cons rr rrs)
  then show ?case
    using rdata_steps_extend [of e rr] by (auto simp: bind_eq_Some_conv steps_extend)
qed simp

lemma dns_steps_head:
  assumes "dns_steps e c tx flow = Some fs"
  shows "\<exists>gs. fs = head_steps e c None (str ''dns'') flow @ gs \<and> (\<forall>g \<in> set gs. extends g)"
proof -
  obtain answers where "\<forall>g \<in> set answers. extends g"
    and "(if tx_is_response tx \<and> tx_answers tx \<noteq> [] then answer_steps e (take (unat (tx_ancount tx)) (tx_answers tx)) else Some []) = Some answers"
    using assms answer_steps_extend unfolding dns_steps_def bind_eq_Some_conv by (metis empty_iff empty_set option.inject)
  then show ?thesis
    using assms by (cases "tx_questions tx") (auto simp: dns_steps_def head_steps_def steps_extend)
qed

lemma kind_ok: "plain_key (str ''dns'')" "textual (str ''dns'')"
  by (simp_all add: plain_key_def str_def)

lemma head_event_unreadable:
  assumes "allocs_ok e" and "fprintf_ok e" and "ntop_ok e" and "oj_fp c = Some Stdout" and "oj_filename c = None"
    and "plain_key kind" and "textual kind" and "\<exists>gs. steps = head_steps e c ts kind flow @ gs \<and> (\<forall>g \<in> set gs. extends g)"
  shows "unreadable_line w (emit e (Some c) steps w)"
  using assms(8) head_emit_unreadable [OF assms(1-7)] by blast

text \<open>C30: The lines that are written for alerts, requests, names, handshakes and statistics are not JSON: the name of the inner object
  is written with an empty text as its value, and the object after it has no name.\<close>

theorem nested_events_not_json:
  assumes "allocs_ok e" and "fprintf_ok e" and "ntop_ok e" and "oj_fp c = Some Stdout" and "oj_filename c = None"
  shows "unreadable_line w (json_output_alert e (Some c) (Some a) flow w) \<and>
    unreadable_line w (json_output_http e (Some c) (Some tx) flow w) \<and>
    unreadable_line w (json_output_tls e (Some c) (Some conn) flow w) \<and>
    unreadable_line w (json_output_stats e (Some c) w) \<and>
    (\<forall>r. json_output_dns e (Some c) (Some t) flow w = Some r \<longrightarrow> unreadable_line w r)"
proof (intro conjI allI impI)
  show "unreadable_line w (json_output_alert e (Some c) (Some a) flow w)"
    using head_event_unreadable [OF assms plain_keys(11) short_words(5) alert_steps_head] by (simp add: json_output_alert_def)
  show "unreadable_line w (json_output_http e (Some c) (Some tx) flow w)"
    using head_event_unreadable [OF assms plain_keys(12) short_words(6) http_steps_head] by (simp add: json_output_http_def)
  show "unreadable_line w (json_output_tls e (Some c) (Some conn) flow w)"
    using head_event_unreadable [OF assms plain_keys(13) short_words(7) tls_steps_head] by (simp add: json_output_tls_def)
  show "unreadable_line w (json_output_stats e (Some c) w)"
    using head_event_unreadable [OF assms plain_keys(14) short_words(8) stats_steps_head] by (simp add: json_output_stats_def)
  show "unreadable_line w r" if dns: "json_output_dns e (Some c) (Some t) flow w = Some r" for r
    using dns head_event_unreadable [OF assms kind_ok dns_steps_head] by (auto simp: json_output_dns_def)
qed

theorem nested_events_not_json_witness:
  "unreadable_line \<lparr>jw_files = Map.empty, jw_stdout = [], jw_allocs = 0\<rparr>
     (json_output_stats sample_json_env (Some stdout_ctx) \<lparr>jw_files = Map.empty, jw_stdout = [], jw_allocs = 0\<rparr>)"
  by (rule nested_events_not_json [THEN conjunct2, THEN conjunct2, THEN conjunct2, THEN conjunct1]) (simp_all add: sample_json_ok)

section \<open>Rotation\<close>

lemma show_dec_inject: "show_dec i = show_dec j \<Longrightarrow> i = j"
  by (metis digits_val_show)

lemma rotated_name_full: "length f \<le> 400 \<Longrightarrow> i < 2 ^ 32 \<Longrightarrow> rotated_name f i = f @ [46] @ show_dec i"
  using length_show_dec [of i 9] by (simp add: rotated_name_def)

lemma rotated_name_inject: "length f \<le> 400 \<Longrightarrow> i < 2 ^ 32 \<Longrightarrow> j < 2 ^ 32 \<Longrightarrow> rotated_name f i = rotated_name f j \<Longrightarrow> i = j"
  using show_dec_inject by (simp add: rotated_name_full)

lemma rotated_name_other: "length f \<le> 400 \<Longrightarrow> i < 2 ^ 32 \<Longrightarrow> rotated_name f i \<noteq> f"
  by (simp add: rotated_name_full)

lemma rotate_files_frame: "(\<forall>i \<le> k. n \<noteq> rotated_name f i) \<Longrightarrow> rotate_files f k fs n = fs n"
proof (induction k arbitrary: fs)
  case (Suc k)
  then show ?case
    using Suc.IH [of "rename_file (rotated_name f k) (rotated_name f (Suc k)) fs"] by (auto simp: rename_file_def split: option.split)
qed simp

lemma rotate_files_shift:
  assumes "length f \<le> 400"
  shows "k < 2 ^ 32 \<Longrightarrow> j < k \<Longrightarrow> fs (rotated_name f j) = Some d \<Longrightarrow> rotate_files f k fs (rotated_name f (Suc j)) = Some d"
proof (induction k arbitrary: fs)
  case (Suc k)
  let ?fs = "rename_file (rotated_name f k) (rotated_name f (Suc k)) fs"
  have distinct: "rotated_name f a = rotated_name f b \<longleftrightarrow> a = b" if "a \<le> Suc k" "b \<le> Suc k" for a b
    using rotated_name_inject [OF assms, of a b] that Suc.prems(1) by auto
  show ?case
  proof (cases "j = k")
    case True
    have "?fs (rotated_name f (Suc k)) = Some d"
      using Suc.prems(3) True distinct [of k "Suc k"] by (simp add: rename_file_def)
    moreover have "\<forall>i \<le> k. rotated_name f (Suc k) \<noteq> rotated_name f i"
      using distinct [of "Suc k"] by auto
    ultimately show ?thesis
      using rotate_files_frame [of k "rotated_name f (Suc k)" f ?fs] True by simp
  next
    case False
    then have "?fs (rotated_name f j) = Some d"
      using Suc.prems(2,3) distinct [of j k] distinct [of j "Suc k"] by (auto simp: rename_file_def split: option.split)
    then show ?thesis
      using Suc.IH [of ?fs] Suc.prems(1,2) False by simp
  qed
qed simp

text \<open>C32: A rotation starts an empty log, keeps the log written so far under the first number, moves each older log to the next
  number, and touches no other file; only the log with the largest number can be lost.\<close>

theorem rotation_shifts_files:
  assumes "oj_filename c = Some f" and "rotate_enabled c" and "should_rotate e c" and "fopen_ok e f" and "0 < rotate_count c"
    and "length f \<le> 400" and "jw_files w f = Some current" and "k = unat (rotate_count c) - 1"
  shows "\<exists>c' w'. json_output_rotate e (Some c) w = (0, Some c', w') \<and> oj_fp c' = Some (File f) \<and> current_size c' = 0 \<and>
    jw_files w' f = Some [] \<and> jw_files w' (rotated_name f 0) = Some current \<and>
    (\<forall>i d. i < k \<longrightarrow> jw_files w (rotated_name f i) = Some d \<longrightarrow> jw_files w' (rotated_name f (i + 1)) = Some d) \<and>
    (\<forall>n. n \<noteq> f \<longrightarrow> (\<forall>i \<le> k. n \<noteq> rotated_name f i) \<longrightarrow> jw_files w' n = jw_files w n)"
proof -
  have k: "k = unat (rotate_count c - 1)" "k < 2 ^ 32"
    using assms(5,8) unsigned_less [of "rotate_count c", where ?'a = nat] by (simp_all add: unat_minus_one word_greater_zero_iff)
  define fs1 where "fs1 = rotate_files f k (jw_files w)"
  define fs2 where "fs2 = rename_file f (rotated_name f 0) fs1"
  have ne: "f \<noteq> rotated_name f i" if "i \<le> k" for i
    using rotated_name_other [OF assms(6), of i] that k(2) by auto
  have "fs1 f = Some current"
    using rotate_files_frame [of k f f "jw_files w"] ne assms(7) by (simp add: fs1_def)
  then have fs2: "fs2 = fs1(f := None, rotated_name f 0 \<mapsto> current)"
    using ne [of 0] by (simp add: fs2_def rename_file_def)
  have run: "json_output_rotate e (Some c) w = (0, Some (c\<lparr>oj_fp := Some (File f), current_size := 0, last_rotate := tv_sec (j_now e), rotations := rotations c + 1\<rparr>),
      w\<lparr>jw_files := fs2(f \<mapsto> [])\<rparr>)"
  proof -
    have "rename_file f (rotated_name f 0) (rotate_files f (unat (rotate_count c - 1)) (jw_files w)) = fs2"
      by (simp add: fs2_def fs1_def k(1))
    moreover have "fopen_append f fs2 = fs2(f \<mapsto> [])"
      using ne [of 0] by (simp add: fopen_append_def fs2)
    ultimately show ?thesis
      using assms(1-4) by (simp add: json_output_rotate_def Let_def)
  qed
  have shift: "fs2 (rotated_name f (i + 1)) = Some d \<and> rotated_name f (i + 1) \<noteq> f" if i: "i < k" "jw_files w (rotated_name f i) = Some d" for i d
    using rotate_files_shift [OF assms(6) k(2) i(1), of "jw_files w" d] i(2) ne [of "Suc i"] rotated_name_inject [OF assms(6), of "Suc i" 0] i(1) k(2) by (auto simp: fs2 fs1_def)
  have frame: "fs2 n = jw_files w n" if "n \<noteq> f" "\<forall>i \<le> k. n \<noteq> rotated_name f i" for n
    using rotate_files_frame [OF that(2)] that by (simp add: fs2 fs1_def)
  have "fs2 (rotated_name f 0) = Some current"
    by (simp add: fs2)
  then show ?thesis
    unfolding run using shift frame ne [of 0] by simp
qed

definition rotating_ctx :: json_output_ctx where
  "rotating_ctx = stdout_ctx\<lparr>oj_fp := Some (File (str ''log'')), oj_filename := Some (str ''log''), rotate_enabled := True, rotate_size := 5, rotate_count := 3,
     current_size := 9\<rparr>"

theorem rotation_shifts_files_witness:
  "\<exists>c' w'. json_output_rotate sample_json_env (Some rotating_ctx)
       \<lparr>jw_files = [str ''log'' \<mapsto> [1], rotated_name (str ''log'') 0 \<mapsto> [2]], jw_stdout = [], jw_allocs = 0\<rparr> = (0, Some c', w') \<and>
     jw_files w' (str ''log'') = Some [] \<and> jw_files w' (rotated_name (str ''log'') 0) = Some [1] \<and> jw_files w' (rotated_name (str ''log'') (0 + 1)) = Some [2]"
proof -
  let ?w = "\<lparr>jw_files = [str ''log'' \<mapsto> [1], rotated_name (str ''log'') 0 \<mapsto> [2]], jw_stdout = [], jw_allocs = 0\<rparr>"
  have "rotated_name (str ''log'') 0 \<noteq> str ''log''"
    by (rule rotated_name_other) (simp_all add: str_def)
  then show ?thesis
    using rotation_shifts_files [of rotating_ctx "str ''log''" sample_json_env ?w "[1]" 2]
    by (fastforce simp: rotating_ctx_def stdout_ctx_def should_rotate_def sample_json_env_def str_def)
qed

section \<open>Flags and records\<close>

text \<open>In the first 65.536 milliseconds of a second the context has no timestamps, although they are asked for.\<close>

lemma init_flags_from_clock:
  assumes "json_output_init e filename ind w = (Some c, w')" and "tv_usec (j_now e) < 65536"
  shows "\<not> log_timestamp c"
proof -
  have "nat (tv_usec (j_now e)) div 65536 = 0"
    using assms(2) by simp
  then show ?thesis
    using assms(1) by (auto simp: json_output_init_def Let_def split: if_splits option.splits)
qed

lemma mail_exchanger_undefined:
  "rr_type rr = 15 \<Longrightarrow> rr_parsed rr = ParsedMX pref x \<Longrightarrow> pref \<noteq> 0 \<Longrightarrow> rdata_steps e rr = None \<and> answer_steps e (rr # rrs) = None"
  by (simp add: rdata_steps_def)
end
