(* ===== verification/Spec2Isabelle.thy ===== *)
theory Spec2Isabelle
  imports Startup Output_Json
begin

text \<open>
  Verification of NetDefender, a network intrusion detector on DPDK (\<^verbatim>\<open>src/src\<close>).

  \<^bold>\<open>The program.\<close> A capture core hands every packet to the pipeline: \<^verbatim>\<open>decode_packet\<close> finds the Ethernet, IP and
  transport headers; \<^verbatim>\<open>flow_get\<close> looks the packet's flow up in a hash table or creates it; \<^verbatim>\<open>flow_update\<close> counts
  it, moves the TCP tracker and feeds the payload to the reassembly of its direction; \<^verbatim>\<open>proto_detect_get_proto\<close>
  guesses the application protocol from patterns, probing parsers and ports; the HTTP, DNS and TLS parsers
  turn the payload into transactions; the rule engine matches the transactions against its rules and the behavioural
  detector follows hosts over time, and both raise alerts.

  \<^bold>\<open>The theories, in the order of the pipeline.\<close>
  \<^item> \<open>Ndf_Prelude\<close>: machine words, bytes and bounded reads (\<open>rd8\<close>, \<open>rd_be16\<close>, \<open>rd_slice\<close>, \<open>blit\<close>), the allocator
    (\<open>rte_env\<close>), the C string functions, and the interface \<open>guarded_machine\<close> of a component that is run
    operation by operation under a guard.
  \<^item> \<open>App_Proto\<close>: the protocol enumeration (\<^verbatim>\<open>app_proto.c\<close>).
  \<^item> \<open>Packet_Decode\<close>: the decoder (\<^verbatim>\<open>packet_decode.c\<close>).
  \<^item> \<open>Stream_Reassemble\<close>, \<open>Stream_Safety\<close>: TCP reassembly (\<^verbatim>\<open>stream_reassemble.c\<close>), functional correctness and memory
    safety.
  \<^item> \<open>Flow_Table\<close>: flows, the TCP tracker and expiry (\<^verbatim>\<open>flow.c\<close>).
  \<^item> \<open>Proto_Detect\<close>: protocol detection (\<^verbatim>\<open>proto_detect.c\<close>, \<^verbatim>\<open>proto_http.c\<close>, \<^verbatim>\<open>proto_tls.c\<close>, \<^verbatim>\<open>proto_dns.c\<close>).
  \<^item> \<open>Dns_Parser\<close>, \<open>Http_Parser\<close>, \<open>Tls_Parser\<close>: the parsers (\<^verbatim>\<open>dns_parser.c\<close>, \<^verbatim>\<open>http_parser.c\<close>, \<^verbatim>\<open>tls_parser.c\<close>).
  \<^item> \<open>Rule_Engine\<close>: rules, matching and the bounded list of alerts (\<^verbatim>\<open>rule_engine.c\<close>), as a refinement of an unbounded log.
  \<^item> \<open>Behavioral\<close>: the tables of trackers and the detectors over them (\<^verbatim>\<open>behavioral_detector.c\<close>).
  \<^item> \<open>Bridge\<close>: the whole pipeline (\<^verbatim>\<open>suricata_bridge.c\<close>) over the models of its components.
  \<^item> \<open>Timer_Wheel\<close>: the hierarchical timer wheel that drives the expiry of flows (\<^verbatim>\<open>timer.c\<close>), as a refinement of a
    table of deadlines.
  \<^item> \<open>Intrusive_List\<close>: the linked lists of \<^verbatim>\<open>list.h\<close> on a heap of nodes, as a refinement of sequences.
  \<^item> \<open>Scheduler\<close>: the jobs of the cores (\<^verbatim>\<open>scheduler.c\<close>) over these lists, as a refinement of queues, and the helpers of
    \<^verbatim>\<open>common.c\<close> and \<^verbatim>\<open>global_data.c\<close>.
  \<^item> \<open>Config_Parser\<close>: the parser of configuration files (\<^verbatim>\<open>parser.c\<close>, \<^verbatim>\<open>vector.h\<close>), with the interface \<open>config_client\<close> of
    a component that installs keywords.
  \<^item> \<open>Netif_Config\<close>, \<open>Netif_Load\<close>: the keywords and callbacks of \<^verbatim>\<open>netif.c\<close> and \<^verbatim>\<open>timer.c\<close> and the loading of
    \<^verbatim>\<open>cfgfile.c\<close>; the round trip, ranges and reload of a whole configuration.
  \<^item> \<open>Netif_Port\<close>: the tables, names, flags and initialisation of the ports of \<^verbatim>\<open>netif.c\<close>.
  \<^item> \<open>Netif_Lcore\<close>: the distribution of ports and queues to the cores, its check, and the tables and roles of the cores.
  \<^item> \<open>Netif_Loop\<close>: starting and stopping a port, and the jobs of the cores, with the polling job over the pipeline.
  \<^item> \<open>Output_Json\<close>: the JSON builder, the events and the rotation of the log (\<^verbatim>\<open>output_json.c\<close>), against a reference reader.
  \<^item> \<open>Startup\<close>: \<^verbatim>\<open>main.c\<close>, \<^verbatim>\<open>pidfile.c\<close> and the initialisation of \<^verbatim>\<open>timer.c\<close>: the whole process from its arguments to the loops of
    its cores, over all other models.

  \<^bold>\<open>Conventions.\<close> A function that may run into undefined behaviour (a read or write outside a block, a null
  pointer, a second free) returns an option whose \<open>None\<close> is that outcome; the error codes of the program are
  ordinary results. Allocation is decided by \<open>rte_env\<close>, indexed by a counter, so that every pattern of
  failures is covered. Pointers into a packet are offsets, linked lists are lists, the flow table is a heap of
  flows with chains of addresses. The CRC and the Jenkins hash of DPDK and the MD5 of OpenSSL are parameters. Integers have their width; sums that may
  wrap do.

  \<^bold>\<open>Not modelled.\<close> Logging, locks and threads (the cores are modelled one at a time), the functions that only print or only release
  memory, and the demonstration programs.
\<close>

end
